(* ===== verification/HB_Prelude.thy ===== *)
theory HB_Prelude
  imports Main "HOL-Library.Word" "HOL-Library.AList" "HOL-Library.Product_Lexorder"
    "HOL-Library.Multiset"
begin

text \<open>
  What every component theory shares: the fixed-width integers of the sources, the pieces of
  the Rust standard library that the code calls (\<open>saturating_add\<close>, \<open>position\<close>,
  \<open>partition_point\<close>, \<open>min_by_key\<close>, hash maps, the \<open>loop\<close> that repeats a pass until nothing
  moves), the collections of rewrite rules, and two interfaces: a keyed store (a hash map) and
  a transition system with an invariant.
\<close>

section \<open>Collections of facts\<close>

named_theorems space_simps \<open>unfolding of the shard-space checks\<close>
named_theorems region_simps \<open>what a region operation leaves unchanged\<close>

section \<open>Machine integers\<close>

type_synonym u64 = "64 word"
type_synonym u32 = "32 word"
type_synonym u8 = "8 word"

abbreviation u64_max :: u64 where
  "u64_max \<equiv> - 1"

text \<open>\<open>saturating_add\<close> and \<open>saturating_sub\<close> of the unsigned integer types.\<close>

definition saturating_add :: "'w::len word \<Rightarrow> 'w word \<Rightarrow> 'w word" where
  "saturating_add a b = (if a \<le> a + b then a + b else - 1)"

definition saturating_sub :: "'w::len word \<Rightarrow> 'w word \<Rightarrow> 'w word" where
  "saturating_sub a b = (if b \<le> a then a - b else 0)"

section \<open>Slices and iterators\<close>

fun position :: "('a \<Rightarrow> bool) \<Rightarrow> 'a list \<Rightarrow> nat option" where
  "position P [] = None"
| "position P (x # xs) = (if P x then Some 0 else map_option Suc (position P xs))"

text \<open>
  \<open>partition_point\<close> is specified for slices on which the predicate is a prefix property: it
  returns the length of that prefix.
\<close>

definition partition_point :: "('a \<Rightarrow> bool) \<Rightarrow> 'a list \<Rightarrow> nat" where
  "partition_point P xs = length (takeWhile P xs)"

text \<open>\<open>min_by_key\<close> returns the first of several minima, \<open>max_by_key\<close> the last of several maxima.\<close>

fun min_by_key :: "('a \<Rightarrow> 'k::linorder) \<Rightarrow> 'a list \<Rightarrow> 'a option" where
  "min_by_key f [] = None"
| "min_by_key f (x # xs) =
     (case min_by_key f xs of
        None \<Rightarrow> Some x
      | Some y \<Rightarrow> if f x \<le> f y then Some x else Some y)"

fun max_by_key :: "('a \<Rightarrow> 'k::linorder) \<Rightarrow> 'a list \<Rightarrow> 'a option" where
  "max_by_key f [] = None"
| "max_by_key f (x # xs) =
     (case max_by_key f xs of
        None \<Rightarrow> Some x
      | Some y \<Rightarrow> if f y < f x then Some x else Some y)"

section \<open>Results\<close>

text \<open>The \<open>?\<close> operator, \<open>map_err\<close>, and collecting an iterator of results.\<close>

definition and_then :: "'e + 'a \<Rightarrow> ('a \<Rightarrow> 'e + 'b) \<Rightarrow> 'e + 'b" where
  "and_then r f = (case r of Inl e \<Rightarrow> Inl e | Inr x \<Rightarrow> f x)"

definition wrap_err :: "('s \<Rightarrow> 'e) \<Rightarrow> 's + 'a \<Rightarrow> 'e + 'a" where
  "wrap_err c r = (case r of Inl e \<Rightarrow> Inl (c e) | Inr x \<Rightarrow> Inr x)"

fun try_map :: "('a \<Rightarrow> 'e + 'b) \<Rightarrow> 'a list \<Rightarrow> 'e + 'b list" where
  "try_map f [] = Inr []"
| "try_map f (x # xs) = and_then (f x) (\<lambda>y. and_then (try_map f xs) (\<lambda>ys. Inr (y # ys)))"

lemma and_then_simps [simp]: "and_then (Inl e) f = Inl e" "and_then (Inr x) f = f x"
  by (simp_all add: and_then_def)

lemma and_then_InrE:
  assumes "and_then r f = Inr y"
  obtains x where "r = Inr x" and "f x = Inr y"
  using assms by (cases r) auto

lemma wrap_err_Inr [simp]: "wrap_err c r = Inr x \<longleftrightarrow> r = Inr x"
  by (cases r) (auto simp: wrap_err_def)

lemma try_map_Inr: "try_map f xs = Inr ys \<longleftrightarrow> list_all2 (\<lambda>x y. f x = Inr y) xs ys"
proof (induction xs arbitrary: ys)
  case (Cons x xs)
  show ?case by (cases "f x"; cases "try_map f xs"; cases ys) (auto simp: Cons.IH [symmetric])
qed auto

lemma and_then_Inl: "and_then r f = Inl e \<longleftrightarrow> r = Inl e \<or> (\<exists>x. r = Inr x \<and> f x = Inl e)"
  by (cases r) auto

lemma try_map_Inl: "try_map f xs = Inl e \<Longrightarrow> \<exists>x\<in>set xs. f x = Inl e"
  by (induction xs) (auto simp: and_then_Inl)

text \<open>The \<open>?\<close> operator in a method that changes its object.\<close>

definition and_do :: "'m \<times> ('e + 'a) \<Rightarrow> ('a \<Rightarrow> 'm \<Rightarrow> 'm \<times> ('e + 'b)) \<Rightarrow> 'm \<times> ('e + 'b)" where
  "and_do r f = (case r of (m, Inl e) \<Rightarrow> (m, Inl e) | (m, Inr x) \<Rightarrow> f x m)"

lemma and_do_simps [simp]:
  "and_do (m, Inr x) f = f x m"
  "and_do (m, Inl e) f = (m, Inl e)"
  by (simp_all add: and_do_def)

section \<open>Hash maps\<close>

text \<open>
  A \<open>HashMap\<close> is an association list with distinct keys. The order of the list is one of the
  iteration orders the Rust map may show; nothing proved below depends on which.
\<close>

type_synonym ('k, 'v) hash_map = "('k \<times> 'v) list"

definition hm_get :: "('k, 'v) hash_map \<Rightarrow> 'k \<Rightarrow> 'v option" where
  "hm_get m k = map_of m k"

definition hm_insert :: "'k \<Rightarrow> 'v \<Rightarrow> ('k, 'v) hash_map \<Rightarrow> ('k, 'v) hash_map" where
  "hm_insert k v m = AList.update k v m"

definition hm_remove :: "'k \<Rightarrow> ('k, 'v) hash_map \<Rightarrow> ('k, 'v) hash_map" where
  "hm_remove k m = filter (\<lambda>(k', _). k' \<noteq> k) m"

definition hm_contains :: "('k, 'v) hash_map \<Rightarrow> 'k \<Rightarrow> bool" where
  "hm_contains m k = (hm_get m k \<noteq> None)"

definition hm_values :: "('k, 'v) hash_map \<Rightarrow> 'v list" where
  "hm_values m = map snd m"

definition hm_keys :: "('k, 'v) hash_map \<Rightarrow> 'k list" where
  "hm_keys m = map fst m"

definition hm_retain :: "('k \<Rightarrow> bool) \<Rightarrow> ('k, 'v) hash_map \<Rightarrow> ('k, 'v) hash_map" where
  "hm_retain P m = filter (\<lambda>(k, _). P k) m"

definition hm_wf :: "('k, 'v) hash_map \<Rightarrow> bool" where
  "hm_wf m = distinct (map fst m)"

section \<open>Loops that run until nothing moves\<close>

text \<open>
  \<^verbatim>\<open>loop { let mut moved = false; <pass>; if !moved { break; } }\<close>: the pass returns the new
  state and whether it moved anything. \<open>None\<close> is a loop that never stops.
\<close>

partial_function (option) run_until_stable :: "('s \<Rightarrow> 's \<times> bool) \<Rightarrow> 's \<Rightarrow> 's option" where
  "run_until_stable pass s =
     (if snd (pass s) then run_until_stable pass (fst (pass s)) else Some (fst (pass s)))"

declare run_until_stable.simps [code]

section \<open>Lemmas on words\<close>

lemma word_succ_gt: "a \<noteq> - 1 \<Longrightarrow> a < a + (1 :: 'w::len word)"
  using inc_less_eq_self_iff_eq [of a] by (simp add: not_le)

lemma saturating_add_1: "saturating_add a 1 = (if a = - 1 then - 1 else a + 1)"
  using word_succ_gt [of a] by (auto simp: saturating_add_def)

lemma saturating_add_1_gt: "a \<noteq> - 1 \<Longrightarrow> a < saturating_add a 1"
  by (simp add: saturating_add_1 word_succ_gt)

lemma saturating_add_1_ge: "a \<le> saturating_add a 1"
  by (simp add: saturating_add_def)

lemma saturating_add_1_neq: "a \<noteq> - 1 \<Longrightarrow> saturating_add a 1 \<noteq> a"
  using saturating_add_1_gt by fastforce

lemma saturating_add_1_unat:
  fixes a :: "'w::len word"
  assumes "unat a + 1 < 2 ^ LENGTH('w)"
  shows "unat (saturating_add a 1) = unat a + 1"
proof -
  have "unat (a + 1) = unat a + 1"
    using assms by (simp add: unat_word_ariths(1))
  moreover from this have "a \<noteq> - 1" by auto
  ultimately show ?thesis by (simp add: saturating_add_1)
qed

lemma unat_of_nat_small: "n < 2 ^ 64 \<Longrightarrow> unat (word_of_nat n :: u64) = n"
  by (simp add: unsigned_of_nat take_bit_eq_mod)

section \<open>Lemmas on slices\<close>

lemma position_None_iff [simp]: "position P xs = None \<longleftrightarrow> (\<forall>x\<in>set xs. \<not> P x)"
  by (induction xs) auto

lemma position_SomeD:
  "position P xs = Some i \<Longrightarrow> i < length xs \<and> P (xs ! i) \<and> (\<forall>j<i. \<not> P (xs ! j))"
proof (induction xs arbitrary: i)
  case (Cons x xs)
  show ?case
  proof (cases "P x")
    case False
    with Cons.prems obtain k where k: "position P xs = Some k" "i = Suc k"
      by auto
    with Cons.IH [OF k(1)] False show ?thesis
      by (auto simp: nth_Cons split: nat.splits)
  qed (use Cons.prems in auto)
qed simp

lemma position_distinct:
  assumes "distinct (map f xs)" and "i < length xs" and "f (xs ! i) = v"
  shows "position (\<lambda>x. f x = v) xs = Some i"
proof (cases "position (\<lambda>x. f x = v) xs")
  case None
  then show ?thesis using assms nth_mem [OF assms(2)] by simp
next
  case (Some j)
  from position_SomeD [OF this] have j: "j < length xs" "f (xs ! j) = v" by auto
  then have "map f xs ! j = map f xs ! i" using assms by simp
  then have "j = i"
    using assms(1,2) j(1) nth_eq_iff_index_eq [of "map f xs" j i] by simp
  with Some show ?thesis by simp
qed

lemma nth_mem_eq: "i < length xs \<Longrightarrow> xs ! i = x \<Longrightarrow> x \<in> set xs"
  by auto

lemma partition_point_Nil [simp]: "partition_point P [] = 0"
  by (simp add: partition_point_def)

lemma partition_point_Cons [simp]:
  "partition_point P (x # xs) = (if P x then Suc (partition_point P xs) else 0)"
  by (simp add: partition_point_def)

lemma min_by_key_None_iff [simp]: "min_by_key f xs = None \<longleftrightarrow> xs = []"
  by (cases xs) (auto split: option.splits)

lemma max_by_key_None_iff [simp]: "max_by_key f xs = None \<longleftrightarrow> xs = []"
  by (cases xs) (auto split: option.splits)

lemma min_by_key_SomeD:
  "min_by_key f xs = Some y \<Longrightarrow> y \<in> set xs \<and> (\<forall>x\<in>set xs. f y \<le> f x)"
proof (induction xs arbitrary: y)
  case (Cons x xs)
  show ?case
  proof (cases "min_by_key f xs")
    case (Some z)
    with Cons.IH [of z] Cons.prems show ?thesis
      by (auto split: if_splits)
  qed (use Cons.prems in auto)
qed simp

lemma max_by_key_SomeD:
  "max_by_key f xs = Some y \<Longrightarrow> y \<in> set xs \<and> (\<forall>x\<in>set xs. f x \<le> f y)"
proof (induction xs arbitrary: y)
  case (Cons x xs)
  show ?case
  proof (cases "max_by_key f xs")
    case (Some z)
    with Cons.IH [of z] Cons.prems show ?thesis
      by (fastforce split: if_splits)
  qed (use Cons.prems in auto)
qed simp

lemma set_list_update_same:
  "i < length xs \<Longrightarrow> set (xs[i := y]) \<subseteq> insert y (set xs)"
  by (rule set_update_subset_insert)

lemma map_list_update_id: "f y = f (xs ! i) \<Longrightarrow> map f (xs[i := y]) = map f xs"
  by (metis list_update_id map_update)

lemma sort_key_id: "sorted (map f xs) \<Longrightarrow> sort_key f xs = xs"
  by (induction xs) (auto simp: insort_is_Cons)

section \<open>The keyed store\<close>

text \<open>
  What clients of a hash map rely on: what a lookup returns after an insert, a removal or a
  retain, and that the operations keep the map's invariant.
\<close>

locale keyed_store =
  fixes get :: "'m \<Rightarrow> 'k \<Rightarrow> 'v option"
    and ins :: "'k \<Rightarrow> 'v \<Rightarrow> 'm \<Rightarrow> 'm"
    and rem :: "'k \<Rightarrow> 'm \<Rightarrow> 'm"
    and retain :: "('k \<Rightarrow> bool) \<Rightarrow> 'm \<Rightarrow> 'm"
    and wf :: "'m \<Rightarrow> bool"
  assumes get_ins: "wf m \<Longrightarrow> get (ins k v m) k' = (if k' = k then Some v else get m k')"
    and get_rem: "wf m \<Longrightarrow> get (rem k m) k' = (if k' = k then None else get m k')"
    and get_retain: "wf m \<Longrightarrow> get (retain P m) k' = (if P k' then get m k' else None)"
    and wf_ins: "wf m \<Longrightarrow> wf (ins k v m)"
    and wf_rem: "wf m \<Longrightarrow> wf (rem k m)"
    and wf_retain: "wf m \<Longrightarrow> wf (retain P m)"
begin

lemmas store_simps = get_ins get_rem get_retain
lemmas store_wf = wf_ins wf_rem wf_retain

text \<open>A property of every stored entry is kept by an insert of an entry that has it.\<close>

lemma all_ins:
  assumes "wf m" and "\<And>k v. get m k = Some v \<Longrightarrow> P k v" and "P k v"
    and "get (ins k v m) k' = Some v'"
  shows "P k' v'"
  using assms by (auto simp: get_ins split: if_splits)

lemma all_retain:
  assumes "wf m" and "\<And>k v. get m k = Some v \<Longrightarrow> P k v" and "get (retain Q m) k' = Some v'"
  shows "P k' v'"
  using assms by (auto simp: get_retain split: if_splits)

lemma ins_other: "wf m \<Longrightarrow> k' \<noteq> k \<Longrightarrow> get (ins k v m) k' = get m k'"
  by (simp add: get_ins)

lemma ins_rem_get: "wf m \<Longrightarrow> get (ins k v (rem k m)) = get (ins k v m)"
  by (auto simp: fun_eq_iff get_ins get_rem wf_rem)

end

lemma map_of_filter_key:
  "map_of (filter (\<lambda>(k, _). P k) m) k = (if P k then map_of m k else None)"
  by (induction m) auto

interpretation hm: keyed_store hm_get hm_insert hm_remove hm_retain hm_wf
proof
  fix m :: "('k, 'v) hash_map" and k k' :: 'k and v :: 'v and P :: "'k \<Rightarrow> bool"
  assume wf: "hm_wf m"
  show "hm_get (hm_insert k v m) k' = (if k' = k then Some v else hm_get m k')"
    by (simp add: hm_get_def hm_insert_def update_conv)
  show "hm_get (hm_remove k m) k' = (if k' = k then None else hm_get m k')"
    using map_of_filter_key [of "\<lambda>k'. k' \<noteq> k" m k'] by (simp add: hm_get_def hm_remove_def)
  show "hm_get (hm_retain P m) k' = (if P k' then hm_get m k' else None)"
    by (simp add: hm_get_def hm_retain_def map_of_filter_key)
  from wf show "hm_wf (hm_insert k v m)"
    by (simp add: hm_wf_def hm_insert_def distinct_update)
  from wf show "hm_wf (hm_remove k m)" and "hm_wf (hm_retain P m)"
    by (simp_all add: hm_wf_def hm_remove_def hm_retain_def distinct_map_filter)
qed

lemma hm_values_get: "hm_wf m \<Longrightarrow> v \<in> set (hm_values m) \<longleftrightarrow> (\<exists>k. hm_get m k = Some v)"
  by (force simp: hm_wf_def hm_values_def hm_get_def)

lemma hm_keys_get: "k \<in> set (hm_keys m) \<longleftrightarrow> hm_get m k \<noteq> None"
  by (simp add: hm_keys_def hm_get_def map_of_eq_None_iff)

lemma hm_wf_Nil [simp]: "hm_wf []"
  by (simp add: hm_wf_def)

lemma hm_get_Nil [simp]: "hm_get [] k = None"
  by (simp add: hm_get_def)

text \<open>Collecting a list into a map.\<close>

lemma hm_wf_fold: "hm_wf m \<Longrightarrow> hm_wf (fold (\<lambda>r. hm_insert (k r) (v r)) xs m)"
  by (induction xs arbitrary: m) (auto simp: hm.wf_ins)

lemma hm_get_fold_other:
  "hm_wf m \<Longrightarrow> i \<notin> k ` set xs \<Longrightarrow> hm_get (fold (\<lambda>r. hm_insert (k r) (v r)) xs m) i = hm_get m i"
  by (induction xs arbitrary: m) (auto simp: hm.get_ins hm.wf_ins)

lemma hm_get_fold:
  "hm_wf m \<Longrightarrow> distinct (map k xs) \<Longrightarrow> r \<in> set xs \<Longrightarrow>
   hm_get (fold (\<lambda>r. hm_insert (k r) (v r)) xs m) (k r) = Some (v r)"
  by (induction xs arbitrary: m) (auto simp: hm.get_ins hm.wf_ins hm_get_fold_other)

section \<open>Transition systems with an invariant\<close>

locale transition_system =
  fixes initial :: "'s \<Rightarrow> bool"
    and step :: "'s \<Rightarrow> 'e \<Rightarrow> 's \<Rightarrow> bool"
    and inv :: "'s \<Rightarrow> bool"
  assumes inv_initial: "initial s \<Longrightarrow> inv s"
    and inv_step: "inv s \<Longrightarrow> step s e s' \<Longrightarrow> inv s'"
begin

inductive reachable :: "'s \<Rightarrow> bool" where
  reachable_init: "initial s \<Longrightarrow> reachable s"
| reachable_step: "reachable s \<Longrightarrow> step s e s' \<Longrightarrow> reachable s'"

lemma reachable_inv: "reachable s \<Longrightarrow> inv s"
  by (induction rule: reachable.induct) (auto intro: inv_initial inv_step)

end

section \<open>Local search\<close>

text \<open>
  The contract of a pass for \<open>run_until_stable\<close>: it keeps an invariant, and when it moves
  something it lowers a potential. Then the loop ends, in a state on which the pass moves
  nothing.
\<close>

locale local_search =
  fixes pass :: "'s \<Rightarrow> 's \<times> bool"
    and inv :: "'s \<Rightarrow> bool"
    and potential :: "'s \<Rightarrow> nat"
  assumes pass_inv: "inv s \<Longrightarrow> inv (fst (pass s))"
    and pass_decreases: "inv s \<Longrightarrow> snd (pass s) \<Longrightarrow> potential (fst (pass s)) < potential s"
    and pass_idle: "inv s \<Longrightarrow> \<not> snd (pass s) \<Longrightarrow> fst (pass s) = s"
begin

lemma terminates:
  "inv s \<Longrightarrow> \<exists>s'. run_until_stable pass s = Some s' \<and> inv s' \<and> \<not> snd (pass s')"
proof (induction "potential s" arbitrary: s rule: less_induct)
  case less
  show ?case
  proof (cases "snd (pass s)")
    case True
    with less show ?thesis
      by (subst run_until_stable.simps) (simp add: pass_decreases pass_inv)
  next
    case False
    with less.prems pass_idle [OF less.prems False] show ?thesis
      by (subst run_until_stable.simps) simp
  qed
qed

end

text \<open>
  A sweep: a pass that offers every item of a list to one step in turn. Its contract is on the
  single step, and gives the contract of the pass.
\<close>

locale sweep =
  fixes step :: "'i \<Rightarrow> 's \<times> bool \<Rightarrow> 's \<times> bool"
    and inv :: "'s \<Rightarrow> bool"
    and potential :: "'s \<Rightarrow> nat"
  assumes step_inv: "inv s \<Longrightarrow> inv (fst (step x (s, m)))"
    and step_cases: "inv s \<Longrightarrow> step x (s, m) = (s, m) \<or>
      snd (step x (s, m)) \<and> potential (fst (step x (s, m))) < potential s"
    and step_flag: "step x (s, False) = (s, False) \<Longrightarrow> step x (s, m) = (s, m)"
begin

lemma sweep_cases:
  assumes "inv s"
  shows "inv (fst (fold step xs (s, m))) \<and>
    (fold step xs (s, m) = (s, m) \<and> (\<forall>x\<in>set xs. step x (s, m) = (s, m)) \<or>
     snd (fold step xs (s, m)) \<and> potential (fst (fold step xs (s, m))) < potential s)"
  using assms
proof (induction xs arbitrary: s m)
  case (Cons x xs)
  obtain s' m' where st: "step x (s, m) = (s', m')" by fastforce
  have "inv s'" using step_inv [OF Cons.prems, of x m] st by simp
  from Cons.IH [OF this, of m'] step_cases [OF Cons.prems, of x m] st show ?case
    by auto
qed simp

lemma idle_fold: "\<forall>x\<in>set xs. step x (s, m) = (s, m) \<Longrightarrow> fold step xs (s, m) = (s, m)"
  by (induction xs) auto

sublocale search: local_search "\<lambda>s. fold step xs (s, False)" inv potential for xs
proof
  fix s
  assume "inv s"
  from sweep_cases [OF this, of xs False] show "inv (fst (fold step xs (s, False)))"
    and "snd (fold step xs (s, False)) \<Longrightarrow> potential (fst (fold step xs (s, False))) < potential s"
    and "\<not> snd (fold step xs (s, False)) \<Longrightarrow> fst (fold step xs (s, False)) = s"
    by auto
qed

lemma stable:
  assumes "inv s"
  shows "\<exists>s'. run_until_stable (\<lambda>s. fold step xs (s, False)) s = Some s' \<and> inv s' \<and>
    (\<forall>x\<in>set xs. \<forall>m. step x (s', m) = (s', m))"
proof -
  obtain s' where "run_until_stable (\<lambda>s. fold step xs (s, False)) s = Some s'" "inv s'"
    "\<not> snd (fold step xs (s', False))"
    using search.terminates [OF assms] by blast
  with sweep_cases [OF this(2), of xs False] show ?thesis
    by (blast intro: step_flag)
qed

end

end
