(* ===== verification/Shard_Types.thy ===== *)
theory Shard_Types
  imports HB_Prelude
begin

text \<open>
  The data of the shard map (\<^verbatim>\<open>hyperbytedb/src/domain/sharding/types.rs\<close>): epochs, regions,
  the ordered region list of one measurement, the whole map, and its checks. A measurement's
  series ids are split into contiguous half-open ranges; \<open>validate\<close> is the check that the
  ranges tile \<open>[0, u64::MAX)\<close>, and \<open>space_locate\<close> is the lookup that routes a series id.
\<close>

section \<open>Epochs\<close>

record shard_epoch =
  conf_ver :: u64
  version :: u64

definition default_epoch :: shard_epoch where
  "default_epoch = \<lparr>conf_ver = 0, version = 0\<rparr>"

definition bump_version :: "shard_epoch \<Rightarrow> shard_epoch" where
  "bump_version e = e\<lparr>version := saturating_add (version e) 1\<rparr>"

definition bump_conf_ver :: "shard_epoch \<Rightarrow> shard_epoch" where
  "bump_conf_ver e = e\<lparr>conf_ver := saturating_add (conf_ver e) 1\<rparr>"

definition is_behind :: "shard_epoch \<Rightarrow> shard_epoch \<Rightarrow> bool" where
  "is_behind a b = (a \<noteq> b \<and> conf_ver a \<le> conf_ver b \<and> version a \<le> version b)"

section \<open>Regions\<close>

datatype region_state = Serving | Staging

record shard_region =
  region_id :: u64
  r_start :: u64
  r_end :: u64
  r_epoch :: shard_epoch
  peers :: "u64 list"
  primary :: u64
  last_split_at :: u64
  transfer_verified :: "bool option"
  transfer_first_seen :: "int option"
  r_state :: region_state
  staged_from :: "u64 option"
  staging_peers :: "u64 list"

definition is_serving :: "shard_region \<Rightarrow> bool" where
  "is_serving r = (case r_state r of Serving \<Rightarrow> True | Staging \<Rightarrow> False)"

definition is_serving_peer :: "shard_region \<Rightarrow> u64 \<Rightarrow> bool" where
  "is_serving_peer r p = (p \<in> set (peers r) \<and> p \<notin> set (staging_peers r))"

definition contains :: "shard_region \<Rightarrow> u64 \<Rightarrow> bool" where
  "contains r sid = (r_start r \<le> sid \<and> sid < r_end r)"

definition transfer_outstanding :: "shard_region \<Rightarrow> bool" where
  "transfer_outstanding r = (transfer_verified r = Some False)"

section \<open>The regions of one measurement\<close>

record measurement_key =
  db :: string
  rp :: string
  measurement :: string

record measurement_shard_space =
  space_key :: measurement_key
  regions :: "shard_region list"

definition space_locate :: "measurement_shard_space \<Rightarrow> u64 \<Rightarrow> shard_region option" where
  "space_locate s sid =
     (if regions s = [] then None
      else let idx = partition_point (\<lambda>r. r_start r \<le> sid) (regions s)
           in if idx = 0 then None
              else let region = regions s ! (idx - 1)
                   in if contains region sid then Some region else None)"

definition region_with_range :: "measurement_shard_space \<Rightarrow> u64 \<Rightarrow> u64 \<Rightarrow> shard_region option" where
  "region_with_range s a b = find (\<lambda>r. r_start r = a \<and> r_end r = b) (regions s)"

text \<open>The messages a rejected region list or operation carries, one constructor per message.\<close>

datatype invalid_reason =
    EmptyRegionList
  | FirstRegionStart u64
  | GapOrOverlap u64 u64
  | LastRegionEnd
  | DuplicateWithinSpace u64
  | DuplicateInMap u64
  | SplitKeyOutside u64 u64 u64
  | SplitRegionsMustMeet
  | MergeNotAdjacent
  | PeerNotInRegion u64
  | MoveToLearner u64
  | AddWithTransferDebt
  | PeerAlreadyInRegion u64
  | PromoteNonMember u64 u64
  | RemoveWithTransferDebt
  | RemovePrimary u64
  | RemoveLastPeer
  | RemoveLastServing
  | LearnerAsPrimary u64 u64
  | NewPrimaryNotPeer u64

text \<open>The adjacent pairs of \<open>sorted.windows(2)\<close>, checked left to right.\<close>

fun check_windows :: "shard_region list \<Rightarrow> invalid_reason + unit" where
  "check_windows (a # b # rs) =
     (if r_end a \<noteq> r_start b then Inl (GapOrOverlap (region_id a) (region_id b))
      else check_windows (b # rs))"
| "check_windows _ = Inr ()"

text \<open>The loop over a \<open>HashSet\<close> of the ids seen so far: the first id met twice.\<close>

fun first_duplicate :: "u64 list \<Rightarrow> u64 list \<Rightarrow> u64 option" where
  "first_duplicate seen [] = None"
| "first_duplicate seen (i # is) =
     (if i \<in> set seen then Some i else first_duplicate (i # seen) is)"

definition validate :: "measurement_shard_space \<Rightarrow> invalid_reason + unit" where
  "validate s =
     (if regions s = [] then Inl EmptyRegionList
      else let sorted = sort_key r_start (regions s)
           in if r_start (hd sorted) \<noteq> 0 then Inl (FirstRegionStart (r_start (hd sorted)))
              else case check_windows sorted of
                Inl e \<Rightarrow> Inl e
              | Inr _ \<Rightarrow>
                  if r_end (last sorted) \<noteq> u64_max then Inl LastRegionEnd
                  else case first_duplicate [] (map region_id (regions s)) of
                    Some i \<Rightarrow> Inl (DuplicateWithinSpace i)
                  | None \<Rightarrow> Inr ())"

section \<open>The shard map\<close>

record shard_map =
  map_version :: u64
  next_region_id :: u64
  spaces :: "(measurement_key, measurement_shard_space) hash_map"

definition default_next_region_id :: u64 where
  "default_next_region_id = 1"

definition default_shard_map :: shard_map where
  "default_shard_map =
     \<lparr>map_version = 0, next_region_id = default_next_region_id, spaces = []\<rparr>"

definition all_regions :: "shard_map \<Rightarrow> shard_region list" where
  "all_regions m = concat (map regions (hm_values (spaces m)))"

definition validate_global_region_ids :: "shard_map \<Rightarrow> invalid_reason + unit" where
  "validate_global_region_ids m =
     (case first_duplicate [] (map region_id (all_regions m)) of
        Some i \<Rightarrow> Inl (DuplicateInMap i)
      | None \<Rightarrow> Inr ())"

definition map_space :: "shard_map \<Rightarrow> string \<Rightarrow> string \<Rightarrow> string \<Rightarrow> measurement_shard_space option" where
  "map_space m d r mm = hm_get (spaces m) \<lparr>db = d, rp = r, measurement = mm\<rparr>"

definition map_locate :: "shard_map \<Rightarrow> string \<Rightarrow> string \<Rightarrow> string \<Rightarrow> u64 \<Rightarrow> shard_region option" where
  "map_locate m d r mm sid =
     (case hm_get (spaces m) \<lparr>db = d, rp = r, measurement = mm\<rparr> of
        None \<Rightarrow> None
      | Some s \<Rightarrow> space_locate s sid)"

text \<open>The JSON form of the map carries the spaces as a list; reading it back inserts them one by one.\<close>

record shard_map_json =
  j_map_version :: u64
  j_next_region_id :: u64
  j_spaces :: "measurement_shard_space list"

definition map_to_json :: "shard_map \<Rightarrow> shard_map_json" where
  "map_to_json m =
     \<lparr>j_map_version = map_version m, j_next_region_id = next_region_id m,
      j_spaces = hm_values (spaces m)\<rparr>"

definition map_from_json :: "shard_map_json \<Rightarrow> shard_map" where
  "map_from_json j =
     \<lparr>map_version = j_map_version j, next_region_id = j_next_region_id j,
      spaces = fold (\<lambda>s m. hm_insert (space_key s) s m) (j_spaces j) []\<rparr>"

section \<open>What the checks mean\<close>

text \<open>\<open>tiles a rs\<close>: the regions, in this order, tile \<open>[a, u64::MAX)\<close> without gap or overlap.\<close>

fun tiles :: "u64 \<Rightarrow> shard_region list \<Rightarrow> bool" where
  "tiles a [] = (a = u64_max)"
| "tiles a (r # rs) = (r_start r = a \<and> tiles (r_end r) rs)"

definition sorted_regions :: "shard_region list \<Rightarrow> bool" where
  "sorted_regions rs = sorted (map r_start rs)"

definition space_ok :: "measurement_shard_space \<Rightarrow> bool" where
  "space_ok s =
     (regions s \<noteq> [] \<and> sorted_regions (regions s) \<and> tiles 0 (regions s)
      \<and> distinct (map region_id (regions s)))"

lemma bump_conf_ver_neq: "conf_ver e \<noteq> u64_max \<Longrightarrow> bump_conf_ver e \<noteq> e"
  by (cases e) (simp add: bump_conf_ver_def saturating_add_1_neq)

lemma bump_conf_ver_ahead: "conf_ver e \<noteq> u64_max \<Longrightarrow> is_behind e (bump_conf_ver e)"
  using bump_conf_ver_neq [of e]
  by (auto simp: is_behind_def bump_conf_ver_def saturating_add_1_ge)

lemma first_duplicate_None:
  "first_duplicate seen is = None \<longleftrightarrow> distinct is \<and> set is \<inter> set seen = {}"
  by (induction "is" arbitrary: seen) auto

lemma check_windows_tiles:
  "rs \<noteq> [] \<Longrightarrow>
   check_windows rs = Inr () \<and> r_end (last rs) = u64_max \<longleftrightarrow> tiles (r_start (hd rs)) rs"
  by (induction rs rule: check_windows.induct) auto

lemma validate_Inr:
  "validate s = Inr () \<longleftrightarrow>
     regions s \<noteq> [] \<and> tiles 0 (sort_key r_start (regions s)) \<and> distinct (map region_id (regions s))"
proof (cases "regions s = []")
  case False
  then have ne: "sort_key r_start (regions s) \<noteq> []"
    by (metis length_0_conv length_sort)
  show ?thesis
  proof (cases "r_start (hd (sort_key r_start (regions s))) = 0")
    case True
    have dup: "first_duplicate [] (map region_id (regions s)) = None
        \<longleftrightarrow> distinct (map region_id (regions s))"
      by (simp add: first_duplicate_None)
    from True check_windows_tiles [OF ne] False show ?thesis
      by (auto simp: validate_def Let_def dup [symmetric]
          split: sum.splits option.splits if_splits)
  next
    case nz: False
    with ne have "\<not> tiles 0 (sort_key r_start (regions s))"
      by (cases "sort_key r_start (regions s)") auto
    with nz False show ?thesis
      by (simp add: validate_def Let_def)
  qed
qed (simp add: validate_def)

lemma space_ok_iff:
  "space_ok s \<longleftrightarrow> validate s = Inr () \<and> sorted_regions (regions s)"
  by (auto simp: space_ok_def validate_Inr sorted_regions_def sort_key_id)

lemma sorted_regions_sort [simp]: "sorted_regions (sort_key r_start rs)"
  by (simp add: sorted_regions_def)

lemma validate_sorted_space_ok:
  "validate (s\<lparr>regions := sort_key r_start rs\<rparr>) = Inr () \<Longrightarrow>
   space_ok (s\<lparr>regions := sort_key r_start rs\<rparr>)"
  by (simp add: space_ok_iff)

section \<open>Routing over a tiling\<close>

text \<open>
  The contract of a lookup over a region list: whatever it returns holds the series id, and on a
  sorted tiling it returns a region for every series id below \<open>u64::MAX\<close>. The map's own lookup
  and the location cache's lookup are both written as a binary search; both interpret this.
\<close>

lemma tiles_later:
  "tiles a rs \<Longrightarrow> sorted_regions rs \<Longrightarrow> r \<in> set rs \<Longrightarrow> a \<le> r_start r \<and> r_start r \<le> r_end r"
proof (induction rs arbitrary: a)
  case (Cons x xs)
  have ord: "r_start x \<le> r_end x"
  proof (cases xs)
    case (Cons y ys)
    with Cons.prems show ?thesis by (simp add: sorted_regions_def)
  qed (use Cons.prems in simp)
  show ?case
  proof (cases "r = x")
    case False
    with Cons.prems have "r_end x \<le> r_start r \<and> r_start r \<le> r_end r"
      by (intro Cons.IH) (auto simp: sorted_regions_def)
    with ord Cons.prems show ?thesis by auto
  qed (use ord Cons.prems in simp)
qed simp

lemma tiles_disjoint:
  "tiles a rs \<Longrightarrow> sorted_regions rs \<Longrightarrow> r \<in> set rs \<Longrightarrow> r' \<in> set rs \<Longrightarrow>
   contains r sid \<Longrightarrow> contains r' sid \<Longrightarrow> r = r'"
proof (induction rs arbitrary: a)
  case (Cons x xs)
  have sub: "tiles (r_end x) xs" "sorted_regions xs"
    using Cons.prems by (auto simp: sorted_regions_def)
  have later: "y \<in> set xs \<Longrightarrow> r_end x \<le> r_start y" for y
    using tiles_later [OF sub] by simp
  show ?case
    using Cons.prems later Cons.IH [OF sub] by (fastforce simp: contains_def)
qed simp

locale region_lookup =
  fixes lookup :: "shard_region list \<Rightarrow> u64 \<Rightarrow> shard_region option"
  assumes lookup_sound: "lookup rs sid = Some r \<Longrightarrow> r \<in> set rs \<and> contains r sid"
    and lookup_total:
      "tiles 0 rs \<Longrightarrow> sorted_regions rs \<Longrightarrow> sid < u64_max \<Longrightarrow> \<exists>r. lookup rs sid = Some r"
begin

lemma lookup_exact:
  assumes "tiles 0 rs" and "sorted_regions rs" and "sid < u64_max"
  shows "lookup rs sid = Some r \<longleftrightarrow> r \<in> set rs \<and> contains r sid"
proof
  assume r: "r \<in> set rs \<and> contains r sid"
  obtain r' where "lookup rs sid = Some r'"
    using lookup_total [OF assms] by blast
  moreover have "r' = r"
    using lookup_sound [OF calculation] r tiles_disjoint [OF assms(1,2)] by blast
  ultimately show "lookup rs sid = Some r" by simp
qed (rule lookup_sound)

lemma lookup_Ex1:
  assumes "tiles 0 rs" and "sorted_regions rs" and "sid < u64_max"
  shows "\<exists>!r. r \<in> set rs \<and> contains r sid"
  using lookup_total [OF assms] lookup_sound tiles_disjoint [OF assms(1,2)] by metis

lemma lookup_max: "lookup rs u64_max = None"
proof (cases "lookup rs u64_max")
  case (Some r)
  then show ?thesis
    using lookup_sound [OF Some] by (simp add: contains_def)
qed simp

end

text \<open>The binary search over region starts that every lookup of the sources performs.\<close>

definition locate_list :: "shard_region list \<Rightarrow> u64 \<Rightarrow> shard_region option" where
  "locate_list rs sid =
     (let idx = partition_point (\<lambda>r. r_start r \<le> sid) rs
      in if idx = 0 then None
         else if contains (rs ! (idx - 1)) sid then Some (rs ! (idx - 1)) else None)"

lemma space_locate_regions: "space_locate s sid = locate_list (regions s) sid"
  by (simp add: locate_list_def space_locate_def Let_def)

lemma locate_list_Nil [simp]: "locate_list [] sid = None"
  by (simp add: locate_list_def)

lemma locate_list_Cons:
  "locate_list (r # rs) sid =
     (if r_start r \<le> sid
      then if rs \<noteq> [] \<and> r_start (hd rs) \<le> sid then locate_list rs sid
           else if contains r sid then Some r else None
      else None)"
  by (cases rs) (auto simp: locate_list_def Let_def)

lemma locate_list_sound: "locate_list rs sid = Some r \<Longrightarrow> r \<in> set rs \<and> contains r sid"
  by (induction rs) (auto simp: locate_list_Cons split: if_splits)

lemma locate_list_total:
  "tiles a rs \<Longrightarrow> sorted_regions rs \<Longrightarrow> a \<le> sid \<Longrightarrow> sid < u64_max \<Longrightarrow>
   \<exists>r. locate_list rs sid = Some r"
proof (induction rs arbitrary: a)
  case (Cons x xs)
  show ?case
  proof (cases "xs \<noteq> [] \<and> r_start (hd xs) \<le> sid")
    case True
    then have "r_end x \<le> sid"
      using Cons.prems by (cases xs) auto
    then obtain r where "locate_list xs sid = Some r"
      using Cons.IH [of "r_end x"] Cons.prems by (auto simp: sorted_regions_def)
    with True Cons.prems show ?thesis by (auto simp: locate_list_Cons)
  next
    case False
    then have "sid < r_end x"
      using Cons.prems by (cases xs) auto
    with False Cons.prems show ?thesis by (auto simp: locate_list_Cons contains_def)
  qed
qed auto

interpretation map_lookup: region_lookup locate_list
  by unfold_locales (auto dest: locate_list_sound intro: locate_list_total [of 0])

lemma space_locate_iff:
  assumes "space_ok s" and "sid < u64_max"
  shows "space_locate s sid = Some r \<longleftrightarrow> r \<in> set (regions s) \<and> contains r sid"
  using assms map_lookup.lookup_exact [of "regions s" sid r]
  by (simp add: space_locate_regions space_ok_def)

lemma space_locate_total:
  assumes "space_ok s" and "sid < u64_max"
  obtains r where "space_locate s sid = Some r"
  using assms map_lookup.lookup_total [of "regions s" sid]
  by (auto simp: space_locate_regions space_ok_def)

lemma space_locate_max: "space_locate s u64_max = None"
  by (simp add: space_locate_regions map_lookup.lookup_max)

text \<open>
  Exchanging some regions \<open>D\<close> of a tiling for others \<open>N\<close>: ids routed to a kept region stay there,
  ids routed to an exchanged one go to one of the new ones.
\<close>

lemma locate_exchange:
  assumes ok: "space_ok s" "space_ok s'" and sid: "sid < u64_max"
    and old: "set (regions s) = A \<union> D" "A \<inter> D = {}" and new: "set (regions s') = A \<union> N"
    and r: "space_locate s sid = Some r"
  shows "r \<in> A \<Longrightarrow> space_locate s' sid = Some r"
    and "r \<in> D \<Longrightarrow> \<exists>n\<in>N. space_locate s' sid = Some n \<and> contains n sid"
proof -
  note iff = space_locate_iff [OF ok(1) sid] and iff' = space_locate_iff [OF ok(2) sid]
  show "r \<in> A \<Longrightarrow> space_locate s' sid = Some r"
    using r new by (auto simp: iff iff')
  obtain n where n: "space_locate s' sid = Some n"
    by (rule space_locate_total [OF ok(2) sid])
  show "\<exists>n\<in>N. space_locate s' sid = Some n \<and> contains n sid" if "r \<in> D"
  proof -
    have "n \<notin> A"
    proof
      assume "n \<in> A"
      then have "space_locate s sid = Some n"
        using n old(1) by (auto simp: iff iff')
      with r that old(2) \<open>n \<in> A\<close> show False by auto
    qed
    with n new show ?thesis by (auto simp: iff')
  qed
qed

text \<open>
  C3. On a measurement whose region list passes \<open>validate\<close> and is stored in start order, routing a
  series id below \<open>u64::MAX\<close> returns a region, and it is the only region of the measurement whose
  range holds that id.
\<close>

theorem space_locate_exact:
  assumes "validate s = Inr ()" and "sorted_regions (regions s)" and "sid < u64_max"
  shows "\<exists>r. space_locate s sid = Some r \<and> r \<in> set (regions s) \<and> contains r sid
           \<and> (\<forall>r'\<in>set (regions s). contains r' sid \<longrightarrow> r' = r)"
proof -
  have ok: "tiles 0 (regions s)"
    using assms(1,2) space_ok_iff [of s] by (simp add: space_ok_def)
  obtain r where r: "space_locate s sid = Some r"
    using map_lookup.lookup_total [OF ok assms(2,3)] by (auto simp: space_locate_regions)
  with map_lookup.lookup_exact [OF ok assms(2,3)] tiles_disjoint [OF ok assms(2)] show ?thesis
    by (auto simp: space_locate_regions)
qed

theorem space_locate_exact_witness:
  "\<exists>r. space_locate \<lparr>space_key = \<lparr>db = ''d'', rp = ''r'', measurement = ''m''\<rparr>,
       regions = [\<lparr>region_id = 1, r_start = 0, r_end = u64_max, r_epoch = default_epoch,
         peers = [1], primary = 1, last_split_at = 0, transfer_verified = None,
         transfer_first_seen = None, r_state = Serving, staged_from = None, staging_peers = []\<rparr>]\<rparr> 5
     = Some r \<and> contains r 5"
proof -
  let ?s = "\<lparr>space_key = \<lparr>db = ''d'', rp = ''r'', measurement = ''m''\<rparr>,
       regions = [\<lparr>region_id = 1, r_start = 0, r_end = u64_max, r_epoch = default_epoch,
         peers = [1], primary = 1, last_split_at = 0, transfer_verified = None,
         transfer_first_seen = None, r_state = Serving, staged_from = None, staging_peers = []\<rparr>]\<rparr>"
  have "validate ?s = Inr ()" "sorted_regions (regions ?s)" "(5::u64) < u64_max"
    by (simp_all add: validate_def sorted_regions_def Let_def)
  from space_locate_exact [OF this] show ?thesis by blast
qed

end
