(* ===== verification/Shard_Ops.thy ===== *)
theory Shard_Ops
  imports Shard_Types
begin

text \<open>
  The operations on the shard map that the cluster's log carries
  (\<^verbatim>\<open>hyperbytedb/src/domain/sharding/ops.rs\<close>). Every operation takes the map by mutable
  reference and returns a result, so the model returns the mutated map together with the
  result: an operation that fails late leaves its earlier writes in the map, as in the code.
  The seven operations that change one region share a contract, stated as the locale
  \<open>region_op\<close> and discharged for each of them.
\<close>

section \<open>Operations and errors\<close>

datatype shard_map_apply_error =
    SpaceExists string string string
  | DuplicateRegionId u64
  | UnknownSpace
  | UnknownRegion u64
  | UnknownLeftRegion u64
  | UnknownRightRegion u64
  | StaleEpoch string
  | Invalid invalid_reason

datatype shard_map_op =
    BootstrapMeasurement measurement_key shard_region
  | BootstrapMeasurementPresplit measurement_key "shard_region list"
  | Split measurement_key u64 u64 shard_epoch shard_region shard_region
  | Merge measurement_key u64 u64 shard_epoch "shard_epoch option" shard_region
  | MovePeer measurement_key u64 u64 u64 shard_epoch
  | AddPeer measurement_key u64 u64 shard_epoch bool
  | PromotePeer measurement_key u64 u64 shard_epoch
  | RemovePeer measurement_key u64 u64 shard_epoch
  | TransferPrimary measurement_key u64 u64 shard_epoch
  | ClearVerified measurement_key u64 shard_epoch
  | ActivateRegion measurement_key u64 shard_epoch
  | DropSpace string "string option" "string option"

definition drop_matches :: "string \<Rightarrow> string option \<Rightarrow> string option \<Rightarrow> measurement_key \<Rightarrow> bool" where
  "drop_matches d r m key =
     (db key = d
      \<and> (case r of None \<Rightarrow> True | Some r' \<Rightarrow> rp key = r')
      \<and> (case m of None \<Rightarrow> True | Some m' \<Rightarrow> measurement key = m'))"

fun op_measurement_key :: "shard_map_op \<Rightarrow> measurement_key option" where
  "op_measurement_key (DropSpace _ _ _) = None"
| "op_measurement_key (BootstrapMeasurement key _) = Some key"
| "op_measurement_key (BootstrapMeasurementPresplit key _) = Some key"
| "op_measurement_key (Split key _ _ _ _ _) = Some key"
| "op_measurement_key (Merge key _ _ _ _ _) = Some key"
| "op_measurement_key (MovePeer key _ _ _ _) = Some key"
| "op_measurement_key (AddPeer key _ _ _ _) = Some key"
| "op_measurement_key (PromotePeer key _ _ _) = Some key"
| "op_measurement_key (RemovePeer key _ _ _) = Some key"
| "op_measurement_key (TransferPrimary key _ _ _) = Some key"
| "op_measurement_key (ClearVerified key _ _) = Some key"
| "op_measurement_key (ActivateRegion key _ _) = Some key"

definition affected_space_keys :: "shard_map_op \<Rightarrow> shard_map \<Rightarrow> measurement_key list" where
  "affected_space_keys op m =
     (case op of
        DropSpace d r mm \<Rightarrow> filter (drop_matches d r mm) (hm_keys (spaces m))
      | _ \<Rightarrow> (case op_measurement_key op of None \<Rightarrow> [] | Some k \<Rightarrow> [k]))"

definition sort_space_regions :: "measurement_shard_space \<Rightarrow> measurement_shard_space" where
  "sort_space_regions s = s\<lparr>regions := sort_key r_start (regions s)\<rparr>"

type_synonym apply_result = "shard_map \<times> (shard_map_apply_error + unit)"

section \<open>Creating measurements\<close>

definition region_id_taken :: "shard_map \<Rightarrow> u64 \<Rightarrow> bool" where
  "region_id_taken m i =
     list_ex (\<lambda>s. list_ex (\<lambda>r. region_id r = i) (regions s)) (hm_values (spaces m))"

fun presplit_ids_fresh :: "shard_map \<Rightarrow> u64 list \<Rightarrow> shard_region list \<Rightarrow> u64 option" where
  "presplit_ids_fresh m ids [] = None"
| "presplit_ids_fresh m ids (r # rs) =
     (if region_id r \<in> set ids \<or> region_id_taken m (region_id r) then Some (region_id r)
      else presplit_ids_fresh m (region_id r # ids) rs)"

definition install_space :: "shard_map \<Rightarrow> measurement_key \<Rightarrow> shard_region list \<Rightarrow> apply_result" where
  "install_space m key rs =
     (let space = sort_space_regions \<lparr>space_key = key, regions = rs\<rparr>
      in case validate space of
           Inl e \<Rightarrow> (m, Inl (Invalid e))
         | Inr _ \<Rightarrow> (m\<lparr>spaces := hm_insert key space (spaces m)\<rparr>, Inr ()))"

definition bootstrap_presplit :: "shard_map \<Rightarrow> measurement_key \<Rightarrow> shard_region list \<Rightarrow> apply_result" where
  "bootstrap_presplit m key rs =
     (if hm_contains (spaces m) key
      then (m, Inl (SpaceExists (db key) (rp key) (measurement key)))
      else case presplit_ids_fresh m [] rs of
        Some i \<Rightarrow> (m, Inl (DuplicateRegionId i))
      | None \<Rightarrow>
          let m = (case map region_id rs of
                     [] \<Rightarrow> m
                   | i # is \<Rightarrow>
                       m\<lparr>next_region_id := max (next_region_id m) (saturating_add (fold max is i) 1)\<rparr>)
          in install_space m key rs)"

definition bootstrap_measurement :: "shard_map \<Rightarrow> measurement_key \<Rightarrow> shard_region \<Rightarrow> apply_result" where
  "bootstrap_measurement m key r =
     (if hm_contains (spaces m) key
      then (m, Inl (SpaceExists (db key) (rp key) (measurement key)))
      else if region_id_taken m (region_id r) then (m, Inl (DuplicateRegionId (region_id r)))
      else let m = m\<lparr>next_region_id := max (next_region_id m) (saturating_add (region_id r) 1)\<rparr>
           in install_space m key [r])"

section \<open>Split, merge and drop\<close>

definition flag_child :: "shard_region \<Rightarrow> shard_region \<Rightarrow> shard_region" where
  "flag_child old child =
     (if primary child \<noteq> primary old
      then child\<lparr>transfer_verified := Some False,
                 transfer_first_seen :=
                   (case transfer_first_seen old of
                      Some t \<Rightarrow> Some t
                    | None \<Rightarrow> transfer_first_seen child)\<rparr>
      else child)"

definition insert_at :: "nat \<Rightarrow> 'a \<Rightarrow> 'a list \<Rightarrow> 'a list" where
  "insert_at i x xs = take i xs @ x # drop i xs"

definition apply_split ::
    "shard_map \<Rightarrow> measurement_key \<Rightarrow> u64 \<Rightarrow> u64 \<Rightarrow> shard_epoch \<Rightarrow> shard_region \<Rightarrow> shard_region
     \<Rightarrow> apply_result" where
  "apply_split m key rid split_key e left right =
     (let allocated = next_region_id m
      in if region_id_taken m allocated then (m, Inl (DuplicateRegionId allocated))
      else
        let right = right\<lparr>region_id := allocated\<rparr>;
            m = m\<lparr>next_region_id := saturating_add allocated 1\<rparr>
        in case hm_get (spaces m) key of
          None \<Rightarrow> (m, Inl UnknownSpace)
        | Some space \<Rightarrow>
          (case position (\<lambda>r. region_id r = rid) (regions space) of
            None \<Rightarrow> (m, Inl (UnknownRegion rid))
          | Some idx \<Rightarrow>
            (let old = regions space ! idx
             in if r_epoch old \<noteq> e then (m, Inl (StaleEpoch ''Split''))
             else if split_key \<le> r_start old \<or> r_end old \<le> split_key
             then (m, Inl (Invalid (SplitKeyOutside split_key (r_start old) (r_end old))))
             else if r_end left \<noteq> split_key \<or> r_start right \<noteq> split_key
             then (m, Inl (Invalid SplitRegionsMustMeet))
             else
               let left = flag_child old left;
                   right = flag_child old right;
                   space = sort_space_regions
                     (space\<lparr>regions := insert_at (idx + 1) right ((regions space)[idx := left])\<rparr>);
                   m = m\<lparr>spaces := hm_insert key space (spaces m)\<rparr>
               in case validate space of
                    Inl err \<Rightarrow> (m, Inl (Invalid err))
                  | Inr _ \<Rightarrow>
                      (case validate_global_region_ids m of
                         Inl err \<Rightarrow> (m, Inl (Invalid err))
                       | Inr _ \<Rightarrow> (m, Inr ())))))"

definition remove_at :: "nat \<Rightarrow> 'a list \<Rightarrow> 'a list" where
  "remove_at i xs = take i xs @ drop (Suc i) xs"

definition apply_merge ::
    "shard_map \<Rightarrow> measurement_key \<Rightarrow> u64 \<Rightarrow> u64 \<Rightarrow> shard_epoch \<Rightarrow> shard_epoch option \<Rightarrow> shard_region
     \<Rightarrow> apply_result" where
  "apply_merge m key lid rid e re merged =
     (case hm_get (spaces m) key of
        None \<Rightarrow> (m, Inl UnknownSpace)
      | Some space \<Rightarrow>
        (case position (\<lambda>r. region_id r = lid) (regions space) of
          None \<Rightarrow> (m, Inl (UnknownLeftRegion lid))
        | Some li \<Rightarrow>
          if r_epoch (regions space ! li) \<noteq> e then (m, Inl (StaleEpoch ''Merge''))
          else
          (case position (\<lambda>r. region_id r = rid) (regions space) of
            None \<Rightarrow> (m, Inl (UnknownRightRegion rid))
          | Some ri \<Rightarrow>
            if ri \<noteq> li + 1 then (m, Inl (Invalid MergeNotAdjacent))
            else if r_epoch (regions space ! ri) \<noteq> (case re of Some x \<Rightarrow> x | None \<Rightarrow> e)
            then (m, Inl (StaleEpoch ''Merge right region''))
            else
              let space = sort_space_regions
                    (space\<lparr>regions := (remove_at ri (regions space))[li := merged]\<rparr>);
                  m = m\<lparr>spaces := hm_insert key space (spaces m)\<rparr>
              in case validate space of
                   Inl err \<Rightarrow> (m, Inl (Invalid err))
                 | Inr _ \<Rightarrow> (m, Inr ()))))"

definition drop_space ::
    "shard_map \<Rightarrow> string \<Rightarrow> string option \<Rightarrow> string option \<Rightarrow> apply_result" where
  "drop_space m d r mm =
     (m\<lparr>spaces := hm_retain (\<lambda>key. \<not> drop_matches d r mm key) (spaces m)\<rparr>, Inr ())"

section \<open>Operations on one region\<close>

type_synonym region_result = "shard_map_apply_error + shard_region"

definition move_peer :: "u64 \<Rightarrow> u64 \<Rightarrow> shard_epoch \<Rightarrow> shard_region \<Rightarrow> region_result" where
  "move_peer from_peer to_peer e r =
     (if r_epoch r \<noteq> e then Inl (StaleEpoch ''MovePeer'')
      else if from_peer \<notin> set (peers r) then Inl (Invalid (PeerNotInRegion from_peer))
      else if to_peer \<in> set (staging_peers r) then Inl (Invalid (MoveToLearner to_peer))
      else
        let ps = filter (\<lambda>p. p \<noteq> from_peer) (peers r)
        in Inr (r\<lparr>peers := (if to_peer \<in> set ps then ps else ps @ [to_peer]),
                 staging_peers := filter (\<lambda>p. p \<noteq> from_peer) (staging_peers r),
                 r_epoch := bump_conf_ver e,
                 primary := (if primary r = from_peer then to_peer else primary r)\<rparr>))"

definition add_peer :: "u64 \<Rightarrow> bool \<Rightarrow> shard_epoch \<Rightarrow> shard_region \<Rightarrow> region_result" where
  "add_peer to_peer staging e r =
     (if r_epoch r \<noteq> e then Inl (StaleEpoch ''AddPeer'')
      else if transfer_outstanding r then Inl (Invalid AddWithTransferDebt)
      else if to_peer \<in> set (peers r) then Inl (Invalid (PeerAlreadyInRegion to_peer))
      else Inr (r\<lparr>peers := peers r @ [to_peer],
                 staging_peers :=
                   (if staging \<and> to_peer \<notin> set (staging_peers r)
                    then staging_peers r @ [to_peer] else staging_peers r),
                 r_epoch := bump_conf_ver e\<rparr>))"

definition promote_peer :: "u64 \<Rightarrow> shard_epoch \<Rightarrow> shard_region \<Rightarrow> region_result" where
  "promote_peer peer e r =
     (if r_epoch r \<noteq> e then Inl (StaleEpoch ''PromotePeer'')
      else if peer \<notin> set (peers r) then Inl (Invalid (PromoteNonMember peer (region_id r)))
      else Inr (r\<lparr>staging_peers := filter (\<lambda>p. p \<noteq> peer) (staging_peers r),
                 r_epoch := bump_conf_ver e\<rparr>))"

definition remove_peer :: "u64 \<Rightarrow> shard_epoch \<Rightarrow> shard_region \<Rightarrow> region_result" where
  "remove_peer from_peer e r =
     (if r_epoch r \<noteq> e then Inl (StaleEpoch ''RemovePeer'')
      else if transfer_outstanding r then Inl (Invalid RemoveWithTransferDebt)
      else if from_peer \<notin> set (peers r) then Inl (Invalid (PeerNotInRegion from_peer))
      else if primary r = from_peer then Inl (Invalid (RemovePrimary from_peer))
      else if length (peers r) \<le> 1 then Inl (Invalid RemoveLastPeer)
      else if length (filter (\<lambda>p. p \<noteq> from_peer \<and> is_serving_peer r p) (peers r)) = 0
      then Inl (Invalid RemoveLastServing)
      else Inr (r\<lparr>peers := filter (\<lambda>p. p \<noteq> from_peer) (peers r),
                 staging_peers := filter (\<lambda>p. p \<noteq> from_peer) (staging_peers r),
                 r_epoch := bump_conf_ver e\<rparr>))"

definition transfer_primary :: "u64 \<Rightarrow> shard_epoch \<Rightarrow> shard_region \<Rightarrow> region_result" where
  "transfer_primary new_primary e r =
     (if r_epoch r \<noteq> e then Inl (StaleEpoch ''TransferPrimary'')
      else if new_primary \<in> set (staging_peers r)
      then Inl (Invalid (LearnerAsPrimary new_primary (region_id r)))
      else if new_primary \<notin> set (peers r) then Inl (Invalid (NewPrimaryNotPeer new_primary))
      else Inr (r\<lparr>primary := new_primary, r_epoch := bump_conf_ver e\<rparr>))"

definition clear_verified :: "shard_epoch \<Rightarrow> shard_region \<Rightarrow> region_result" where
  "clear_verified e r =
     (if r_epoch r \<noteq> e then Inl (StaleEpoch ''ClearVerified'')
      else Inr (r\<lparr>transfer_verified := Some True, transfer_first_seen := None,
                 r_epoch := bump_conf_ver e\<rparr>))"

definition activate_region :: "shard_epoch \<Rightarrow> shard_region \<Rightarrow> region_result" where
  "activate_region e r =
     (if r_epoch r \<noteq> e then Inl (StaleEpoch ''ActivateRegion'')
      else Inr (r\<lparr>r_state := Serving, staged_from := None, r_epoch := bump_conf_ver e\<rparr>))"

text \<open>
  The frame every one of these operations runs in: find the space, find the region by id,
  change it in place, sort the space.
\<close>

definition with_region ::
    "shard_map \<Rightarrow> measurement_key \<Rightarrow> u64 \<Rightarrow> (shard_region \<Rightarrow> region_result) \<Rightarrow> apply_result" where
  "with_region m key rid f =
     (case hm_get (spaces m) key of
        None \<Rightarrow> (m, Inl UnknownSpace)
      | Some space \<Rightarrow>
        (case position (\<lambda>r. region_id r = rid) (regions space) of
           None \<Rightarrow> (m, Inl (UnknownRegion rid))
         | Some i \<Rightarrow>
           (case f (regions space ! i) of
              Inl err \<Rightarrow> (m, Inl err)
            | Inr r \<Rightarrow>
                (m\<lparr>spaces := hm_insert key
                     (sort_space_regions (space\<lparr>regions := (regions space)[i := r]\<rparr>)) (spaces m)\<rparr>,
                 Inr ()))))"

section \<open>The apply function\<close>

fun apply_arm :: "shard_map \<Rightarrow> shard_map_op \<Rightarrow> apply_result" where
  "apply_arm m (BootstrapMeasurementPresplit key rs) = bootstrap_presplit m key rs"
| "apply_arm m (BootstrapMeasurement key r) = bootstrap_measurement m key r"
| "apply_arm m (Split key rid k e l r) = apply_split m key rid k e l r"
| "apply_arm m (DropSpace d r mm) = drop_space m d r mm"
| "apply_arm m (Merge key l r e re mg) = apply_merge m key l r e re mg"
| "apply_arm m (MovePeer key rid f t e) = with_region m key rid (move_peer f t e)"
| "apply_arm m (AddPeer key rid t e st) = with_region m key rid (add_peer t st e)"
| "apply_arm m (PromotePeer key rid p e) = with_region m key rid (promote_peer p e)"
| "apply_arm m (RemovePeer key rid f e) = with_region m key rid (remove_peer f e)"
| "apply_arm m (TransferPrimary key rid p e) = with_region m key rid (transfer_primary p e)"
| "apply_arm m (ClearVerified key rid e) = with_region m key rid (clear_verified e)"
| "apply_arm m (ActivateRegion key rid e) = with_region m key rid (activate_region e)"

definition apply_shard_map_op :: "shard_map \<Rightarrow> shard_map_op \<Rightarrow> apply_result" where
  "apply_shard_map_op m op =
     apply_arm (m\<lparr>map_version := saturating_add (map_version m) 1\<rparr>) op"

end
