(* ===== verification/Shard_Invariant.thy ===== *)
theory Shard_Invariant
  imports Shard_Ops
begin

text \<open>
  The invariant of the shard map and its preservation by every operation of the log. The
  invariant says: each measurement's regions tile the series-id range in order, region ids are
  unique over the whole map, and each region's primary is one of its peers and not a learner.
  The payload an operation carries comes from the proposing node; \<open>op_ok\<close> states what the
  proposer must ensure of it.
\<close>

section \<open>The invariant\<close>

definition region_ok :: "shard_region \<Rightarrow> bool" where
  "region_ok r =
     (primary r \<in> set (peers r) \<and> primary r \<notin> set (staging_peers r)
      \<and> set (staging_peers r) \<subseteq> set (peers r) \<and> distinct (peers r))"

definition space_inv :: "measurement_key \<Rightarrow> measurement_shard_space \<Rightarrow> bool" where
  "space_inv k s = (space_key s = k \<and> space_ok s \<and> list_all region_ok (regions s))"

definition space_ids :: "measurement_shard_space \<Rightarrow> u64 set" where
  "space_ids s = region_id ` set (regions s)"

definition map_inv :: "shard_map \<Rightarrow> bool" where
  "map_inv m =
     (hm_wf (spaces m)
      \<and> (\<forall>k s. hm_get (spaces m) k = Some s \<longrightarrow> space_inv k s)
      \<and> distinct (map region_id (all_regions m)))"

fun op_ok :: "shard_map_op \<Rightarrow> bool" where
  "op_ok (BootstrapMeasurement _ r) = region_ok r"
| "op_ok (BootstrapMeasurementPresplit _ rs) = list_all region_ok rs"
| "op_ok (Split _ _ _ _ l r) = (region_ok l \<and> region_ok r)"
| "op_ok (Merge _ lid rid _ _ mg) = (region_ok mg \<and> region_id mg \<in> {lid, rid})"
| "op_ok _ = True"

lemmas region_op_defs =
  move_peer_def add_peer_def promote_peer_def remove_peer_def transfer_primary_def
  clear_verified_def activate_region_def

section \<open>Unique ids over the map\<close>

lemma hm_get_Cons_all:
  assumes "hm_get m k = None"
  shows "(\<forall>k' s'. hm_get ((k, s) # m) k' = Some s' \<longrightarrow> P k' s') \<longleftrightarrow>
    P k s \<and> (\<forall>k' s'. hm_get m k' = Some s' \<longrightarrow> P k' s')"
proof -
  have "hm_get m k' = Some s' \<Longrightarrow> k' \<noteq> k" for k' s'
    using assms by auto
  then show ?thesis
    by (auto simp: hm_get_def)
qed

lemma distinct_ids_iff:
  assumes "hm_wf m"
  shows "distinct (map region_id (concat (map regions (hm_values m)))) \<longleftrightarrow>
    (\<forall>k s. hm_get m k = Some s \<longrightarrow> distinct (map region_id (regions s)))
    \<and> (\<forall>k s. hm_get m k = Some s \<longrightarrow>
        (\<forall>k' s'. hm_get m k' = Some s' \<longrightarrow> k \<noteq> k' \<longrightarrow> space_ids s \<inter> space_ids s' = {}))"
  using assms
proof (induction m)
  case (Cons p m)
  obtain k s where p: "p = (k, s)" by (cases p)
  have wf: "hm_wf m" and fresh: "hm_get m k = None"
    using Cons.prems by (auto simp: hm_wf_def p hm_get_def map_of_eq_None_iff)
  have ids: "region_id ` set (concat (map regions (hm_values m)))
      = (\<Union>s\<in>{s. \<exists>k. hm_get m k = Some s}. space_ids s)"
    using hm_values_get [OF wf] by (auto simp: space_ids_def)
  have "distinct (map region_id (concat (map regions (hm_values (p # m))))) \<longleftrightarrow>
      distinct (map region_id (regions s))
      \<and> distinct (map region_id (concat (map regions (hm_values m))))
      \<and> space_ids s \<inter> region_id ` set (concat (map regions (hm_values m))) = {}"
    by (auto simp: p hm_values_def space_ids_def)
  also have "\<dots> \<longleftrightarrow> distinct (map region_id (regions s))
      \<and> distinct (map region_id (concat (map regions (hm_values m))))
      \<and> (\<forall>k' s'. hm_get m k' = Some s' \<longrightarrow> space_ids s \<inter> space_ids s' = {})"
    unfolding ids by blast
  finally show ?case
    using fresh unfolding p hm_get_Cons_all [OF fresh] Cons.IH [OF wf] by fastforce
qed (simp add: hm_values_def)

lemma map_inv_alt:
  "map_inv m \<longleftrightarrow> hm_wf (spaces m)
     \<and> (\<forall>k s. hm_get (spaces m) k = Some s \<longrightarrow> space_inv k s)
     \<and> (\<forall>k s. hm_get (spaces m) k = Some s \<longrightarrow>
          (\<forall>k' s'. hm_get (spaces m) k' = Some s' \<longrightarrow> k \<noteq> k'
             \<longrightarrow> space_ids s \<inter> space_ids s' = {}))"
proof (cases "hm_wf (spaces m)")
  case True
  show ?thesis
    unfolding map_inv_def all_regions_def distinct_ids_iff [OF True]
    by (auto simp: space_inv_def space_ok_def)
qed (simp add: map_inv_def)

lemma map_invI:
  assumes "hm_wf (spaces m)"
    and "\<And>k s. hm_get (spaces m) k = Some s \<Longrightarrow> space_inv k s"
    and "\<And>k s k' s'. hm_get (spaces m) k = Some s \<Longrightarrow> hm_get (spaces m) k' = Some s' \<Longrightarrow> k \<noteq> k'
          \<Longrightarrow> space_ids s \<inter> space_ids s' = {}"
  shows "map_inv m"
  unfolding map_inv_alt using assms by simp

lemma map_invD:
  assumes "map_inv m"
  shows "hm_wf (spaces m)"
    and "hm_get (spaces m) k = Some s \<Longrightarrow> space_inv k s"
    and "hm_get (spaces m) k = Some s \<Longrightarrow> hm_get (spaces m) k' = Some s' \<Longrightarrow> k \<noteq> k'
          \<Longrightarrow> space_ids s \<inter> space_ids s' = {}"
  using assms unfolding map_inv_alt by simp_all

text \<open>Replacing or adding one space, when its ids are its own.\<close>

lemma map_inv_install:
  assumes inv: "map_inv m" and "space_inv key s"
    and own: "\<And>k' s'. hm_get (spaces m) k' = Some s' \<Longrightarrow> k' \<noteq> key \<Longrightarrow> space_ids s \<inter> space_ids s' = {}"
    and sp: "spaces m' = hm_insert key s (spaces m)"
  shows "map_inv m'"
proof (rule map_invI)
  note wf = map_invD(1) [OF inv]
  show "hm_wf (spaces m')"
    using hm.wf_ins [OF wf] sp by simp
  show "space_inv k t" if "hm_get (spaces m') k = Some t" for k t
    using that assms(2) map_invD(2) [OF inv] by (auto simp: sp hm.get_ins [OF wf] split: if_splits)
  show "space_ids t \<inter> space_ids t' = {}"
    if "hm_get (spaces m') k = Some t" "hm_get (spaces m') k' = Some t'" "k \<noteq> k'" for k t k' t'
    using that own map_invD(3) [OF inv] Int_commute [of "space_ids t"]
    by (simp add: sp hm.get_ins [OF wf] split: if_splits)
qed

lemma region_id_taken_iff:
  "hm_wf (spaces m) \<Longrightarrow>
   region_id_taken m i \<longleftrightarrow> (\<exists>k s. hm_get (spaces m) k = Some s \<and> i \<in> space_ids s)"
  unfolding region_id_taken_def list_ex_iff Bex_def hm_values_get space_ids_def by blast

section \<open>Creating measurements\<close>

lemma set_sort_space [simp]: "set (regions (sort_space_regions s)) = set (regions s)"
  by (simp add: sort_space_regions_def)

lemma space_key_sort [simp]: "space_key (sort_space_regions s) = space_key s"
  by (simp add: sort_space_regions_def)

lemma sorted_sort_space [simp]: "sorted_regions (regions (sort_space_regions s))"
  by (simp add: sort_space_regions_def)

lemma space_ids_sort [simp]: "space_ids (sort_space_regions s) = space_ids s"
  by (simp add: space_ids_def)

lemma space_invI:
  "validate (sort_space_regions s) = Inr () \<Longrightarrow> space_key s = k \<Longrightarrow> list_all region_ok (regions s)
   \<Longrightarrow> space_inv k (sort_space_regions s)"
  by (simp add: space_inv_def space_ok_iff list_all_iff)

lemma map_inv_cong: "spaces m' = spaces m \<Longrightarrow> map_inv m' = map_inv m"
  by (simp add: map_inv_def all_regions_def)

lemma install_space_inv:
  assumes "map_inv m" and "list_all region_ok rs"
    and "\<forall>r\<in>set rs. \<not> region_id_taken m (region_id r)"
    and "install_space m key rs = (m', Inr ())"
  shows "map_inv m'"
proof -
  let ?s = "sort_space_regions \<lparr>space_key = key, regions = rs\<rparr>"
  have v: "validate ?s = Inr ()" and m': "m' = m\<lparr>spaces := hm_insert key ?s (spaces m)\<rparr>"
    using assms(4) by (auto simp: install_space_def Let_def split: sum.splits)
  show ?thesis
  proof (rule map_inv_install [OF assms(1)])
    show "space_inv key ?s"
      using v assms(2) by (intro space_invI) auto
    show "space_ids ?s \<inter> space_ids s' = {}" if "hm_get (spaces m) k' = Some s'" for k' s'
      using that assms(3) region_id_taken_iff [OF map_invD(1) [OF assms(1)]]
      by (fastforce simp: space_ids_def)
  qed (simp add: m')
qed

lemma presplit_ids_fresh_None:
  "presplit_ids_fresh m ids rs = None \<Longrightarrow> r \<in> set rs \<Longrightarrow> \<not> region_id_taken m (region_id r)"
  by (induction rs arbitrary: ids) (auto split: if_splits)

lemma region_id_taken_cong: "spaces m' = spaces m \<Longrightarrow> region_id_taken m' i = region_id_taken m i"
  by (simp add: region_id_taken_def)

lemma bootstrap_presplit_inv:
  assumes "map_inv m" and "list_all region_ok rs" and "bootstrap_presplit m key rs = (m', Inr ())"
  shows "map_inv m'"
proof -
  obtain n where fresh: "presplit_ids_fresh m [] rs = None"
    and inst: "install_space (m\<lparr>next_region_id := n\<rparr>) key rs = (m', Inr ())"
  proof -
    have "m\<lparr>next_region_id := next_region_id m\<rparr> = m" by simp
    then show ?thesis
      using assms(3) that [of "next_region_id m"] that
      by (auto simp: bootstrap_presplit_def Let_def split: if_splits option.splits list.splits)
  qed
  show ?thesis
    using presplit_ids_fresh_None [OF fresh] assms(1,2)
    by (intro install_space_inv [OF _ _ _ inst])
      (simp_all add: map_inv_cong [of "m\<lparr>next_region_id := n\<rparr>" m]
        region_id_taken_cong [of "m\<lparr>next_region_id := n\<rparr>" m])
qed

lemma bootstrap_measurement_inv:
  assumes "map_inv m" and "region_ok r" and "bootstrap_measurement m key r = (m', Inr ())"
  shows "map_inv m'"
proof -
  let ?m = "m\<lparr>next_region_id := max (next_region_id m) (saturating_add (region_id r) 1)\<rparr>"
  have "\<not> region_id_taken m (region_id r)" and inst: "install_space ?m key [r] = (m', Inr ())"
    using assms(3) by (auto simp: bootstrap_measurement_def Let_def split: if_splits)
  then show ?thesis
    using assms(1,2)
    by (intro install_space_inv [OF _ _ _ inst])
      (simp_all add: map_inv_cong [of ?m m] region_id_taken_cong [of ?m m])
qed

section \<open>Operations on one region\<close>

lemma list_all_update: "list_all P xs \<Longrightarrow> P y \<Longrightarrow> list_all P (xs[i := y])"
  using set_update_subset_insert [of xs i y] by (auto simp: list_all_iff)

lemma tiles_update:
  "tiles a rs \<Longrightarrow> i < length rs \<Longrightarrow> r_start r = r_start (rs ! i) \<Longrightarrow> r_end r = r_end (rs ! i)
   \<Longrightarrow> tiles a (rs[i := r])"
  by (induction rs arbitrary: a i) (auto split: nat.splits)

text \<open>
  The contract of an operation on one region: it is refused unless it names the region's current
  epoch; when it succeeds the region keeps its id and range, its epoch moves on by one
  configuration change, and its replica set stays well formed.
\<close>

locale region_op =
  fixes f :: "shard_epoch \<Rightarrow> shard_region \<Rightarrow> region_result"
    and label :: string
  assumes stale: "r_epoch r \<noteq> e \<Longrightarrow> f e r = Inl (StaleEpoch label)"
    and frame: "f e r = Inr r' \<Longrightarrow>
      region_id r' = region_id r \<and> r_start r' = r_start r \<and> r_end r' = r_end r"
    and bumps: "f e r = Inr r' \<Longrightarrow> r_epoch r' = bump_conf_ver e"
    and keeps_ok: "f e r = Inr r' \<Longrightarrow> region_ok r \<Longrightarrow> region_ok r'"
begin

lemma with_region_ok:
  assumes "with_region m key rid (f e) = (m', Inr ())"
  obtains s i r' where "hm_get (spaces m) key = Some s" and "i < length (regions s)"
    and "region_id (regions s ! i) = rid" and "r_epoch (regions s ! i) = e"
    and "f e (regions s ! i) = Inr r'"
    and "m' = m\<lparr>spaces :=
           hm_insert key (sort_space_regions (s\<lparr>regions := (regions s)[i := r']\<rparr>)) (spaces m)\<rparr>"
proof -
  obtain s i r' where s: "hm_get (spaces m) key = Some s"
    "position (\<lambda>r. region_id r = rid) (regions s) = Some i" "f e (regions s ! i) = Inr r'"
    "m' = m\<lparr>spaces :=
       hm_insert key (sort_space_regions (s\<lparr>regions := (regions s)[i := r']\<rparr>)) (spaces m)\<rparr>"
    using assms by (auto simp: with_region_def split: option.splits sum.splits)
  show ?thesis
    using s position_SomeD [OF s(2)] stale [of "regions s ! i" e] by (intro that) auto
qed

lemma space_inv_kept:
  assumes "space_inv k s" and "i < length (regions s)" and "f e (regions s ! i) = Inr r'"
  shows "sort_space_regions (s\<lparr>regions := (regions s)[i := r']\<rparr>) = s\<lparr>regions := (regions s)[i := r']\<rparr>"
    and "space_inv k (s\<lparr>regions := (regions s)[i := r']\<rparr>)"
    and "map region_id ((regions s)[i := r']) = map region_id (regions s)"
proof -
  note fr = frame [OF assms(3)]
  have starts: "map r_start ((regions s)[i := r']) = map r_start (regions s)"
    and ids: "map region_id ((regions s)[i := r']) = map region_id (regions s)"
    using fr by (auto intro: map_list_update_id)
  have ok: "space_ok s" "list_all region_ok (regions s)" "space_key s = k"
    using assms(1) by (auto simp: space_inv_def)
  show "sort_space_regions (s\<lparr>regions := (regions s)[i := r']\<rparr>) = s\<lparr>regions := (regions s)[i := r']\<rparr>"
    using ok starts by (simp add: sort_space_regions_def space_ok_def sorted_regions_def sort_key_id)
  show "space_inv k (s\<lparr>regions := (regions s)[i := r']\<rparr>)"
    using ok starts ids fr assms(2) keeps_ok [OF assms(3)]
    by (auto simp: space_inv_def space_ok_def sorted_regions_def list_all_length
        intro: tiles_update list_all_update [unfolded list_all_length, rule_format])
  show "map region_id ((regions s)[i := r']) = map region_id (regions s)"
    by (rule ids)
qed

lemma with_region_inv:
  assumes "map_inv m" and "with_region m key rid (f e) = (m', Inr ())"
  shows "map_inv m'"
proof -
  obtain s i r' where s: "hm_get (spaces m) key = Some s" "i < length (regions s)"
    "f e (regions s ! i) = Inr r'"
    "m' = m\<lparr>spaces :=
       hm_insert key (sort_space_regions (s\<lparr>regions := (regions s)[i := r']\<rparr>)) (spaces m)\<rparr>"
    by (rule with_region_ok [OF assms(2)])
  note kept = space_inv_kept [OF map_invD(2) [OF assms(1) s(1)] s(2,3)]
  have "space_ids (s\<lparr>regions := (regions s)[i := r']\<rparr>) = space_ids s"
    using arg_cong [OF kept(3), of set] by (simp add: space_ids_def)
  then show ?thesis
    using kept(1,2) s map_invD(3) [OF assms(1) s(1)]
    by (intro map_inv_install [OF assms(1), of key]) auto
qed

text \<open>Applied a second time with the same epoch, the operation is refused.\<close>

lemma with_region_replay:
  assumes "map_inv m" and "with_region m key rid (f e) = (m', Inr ())" and "conf_ver e \<noteq> u64_max"
    and "spaces m'' = spaces m'"
  shows "with_region m'' key rid (f e) = (m'', Inl (StaleEpoch label))"
proof -
  obtain s i r' where s: "hm_get (spaces m) key = Some s" "i < length (regions s)"
    "region_id (regions s ! i) = rid" "f e (regions s ! i) = Inr r'"
    "m' = m\<lparr>spaces :=
       hm_insert key (sort_space_regions (s\<lparr>regions := (regions s)[i := r']\<rparr>)) (spaces m)\<rparr>"
    by (rule with_region_ok [OF assms(2)])
  note inv = map_invD(2) [OF assms(1) s(1)]
  note kept = space_inv_kept [OF inv s(2,4)]
  let ?rs = "(regions s)[i := r']"
  have get: "hm_get (spaces m'') key = Some (s\<lparr>regions := ?rs\<rparr>)"
    using s(5) kept(1) assms(4) map_invD(1) [OF assms(1)] by (simp add: hm.get_ins)
  have i: "region_id (?rs ! i) = rid" "i < length ?rs"
    using s frame [OF s(4)] by auto
  moreover have "distinct (map region_id ?rs)"
    using kept(2) by (simp add: space_inv_def space_ok_def)
  ultimately have j: "position (\<lambda>r. region_id r = rid) ?rs = Some i"
    by (intro position_distinct) auto
  have "r_epoch (?rs ! i) \<noteq> e"
    using bumps [OF s(4)] bump_conf_ver_neq [OF assms(3)] s(2) by simp
  from stale [OF this] show ?thesis
    using get j by (simp add: with_region_def)
qed

end

interpretation op_move: region_op "move_peer a b" "''MovePeer''" for a b
  by unfold_locales
    (auto simp: move_peer_def region_ok_def Let_def split: if_splits)

interpretation op_add: region_op "add_peer a st" "''AddPeer''" for a st
  by unfold_locales
    (auto simp: add_peer_def region_ok_def split: if_splits)

interpretation op_promote: region_op "promote_peer a" "''PromotePeer''" for a
  by unfold_locales
    (auto simp: promote_peer_def region_ok_def split: if_splits)

interpretation op_remove: region_op "remove_peer a" "''RemovePeer''" for a
  by unfold_locales
    (auto simp: remove_peer_def region_ok_def split: if_splits)

interpretation op_transfer: region_op "transfer_primary a" "''TransferPrimary''" for a
  by unfold_locales
    (auto simp: transfer_primary_def region_ok_def split: if_splits)

interpretation op_clear: region_op clear_verified "''ClearVerified''"
  by unfold_locales
    (auto simp: clear_verified_def region_ok_def split: if_splits)

interpretation op_activate: region_op activate_region "''ActivateRegion''"
  by unfold_locales
    (auto simp: activate_region_def region_ok_def split: if_splits)

lemmas region_ops_inv =
  op_move.with_region_inv op_add.with_region_inv op_promote.with_region_inv
  op_remove.with_region_inv op_transfer.with_region_inv op_clear.with_region_inv
  op_activate.with_region_inv

section \<open>Split, merge and drop\<close>

lemma insert_at_update:
  "i < length xs \<Longrightarrow> insert_at (i + 1) r (xs[i := l]) = take i xs @ l # r # drop (Suc i) xs"
  by (simp add: insert_at_def upd_conv_take_nth_drop min_def)

lemma remove_at_update:
  "Suc i < length xs \<Longrightarrow> (remove_at (i + 1) xs)[i := g] = take i xs @ g # drop (i + 2) xs"
  by (simp add: remove_at_def list_update_append upd_conv_take_nth_drop take_Suc_conv_app_nth)

lemma region_ok_flag [simp]: "region_ok (flag_child old r) = region_ok r"
  by (simp add: flag_child_def region_ok_def)

lemma region_ok_id [simp]: "region_ok (r\<lparr>region_id := i\<rparr>) = region_ok r"
  by (simp add: region_ok_def)

lemma flag_child_simps [simp]:
  "region_id (flag_child old r) = region_id r" "r_start (flag_child old r) = r_start r"
  "r_end (flag_child old r) = r_end r" "contains (flag_child old r) sid = contains r sid"
  by (simp_all add: flag_child_def contains_def)

text \<open>Everything a successful split has checked and done.\<close>

lemma apply_split_ok:
  assumes "apply_split m key rid k e left right = (m', Inr ())"
  obtains s i s' left' right' where
    "hm_get (spaces m) key = Some s" and "i < length (regions s)"
    and "region_id (regions s ! i) = rid" and "r_epoch (regions s ! i) = e"
    and "r_start (regions s ! i) < k" and "k < r_end (regions s ! i)"
    and "r_end left = k" and "r_start right = k"
    and "\<not> region_id_taken m (next_region_id m)"
    and "left' = flag_child (regions s ! i) left"
    and "right' = flag_child (regions s ! i) (right\<lparr>region_id := next_region_id m\<rparr>)"
    and "s' = sort_space_regions
           (s\<lparr>regions := take i (regions s) @ left' # right' # drop (Suc i) (regions s)\<rparr>)"
    and "validate s' = Inr ()"
    and "m' = m\<lparr>next_region_id := saturating_add (next_region_id m) 1,
               spaces := hm_insert key s' (spaces m)\<rparr>"
    and "validate_global_region_ids m' = Inr ()"
proof -
  from assms obtain s i where si: "\<not> region_id_taken m (next_region_id m)"
    "hm_get (spaces m) key = Some s" "position (\<lambda>r. region_id r = rid) (regions s) = Some i"
    by (auto simp: apply_split_def Let_def split: if_splits option.splits)
  note i = position_SomeD [OF si(3)]
  show ?thesis
    using assms si i insert_at_update [of i "regions s"]
    by (intro that [of s i]) (auto simp: apply_split_def Let_def not_le split: if_splits sum.splits)
qed

lemma validate_global_Inr:
  "validate_global_region_ids m = Inr () \<longleftrightarrow> distinct (map region_id (all_regions m))"
  using first_duplicate_None [of "[]" "map region_id (all_regions m)"]
  by (auto simp: validate_global_region_ids_def split: option.splits)

lemma apply_split_inv:
  assumes inv: "map_inv m" and ok: "region_ok left" "region_ok right"
    and "apply_split m key rid k e left right = (m', Inr ())"
  shows "map_inv m'"
proof -
  note wf = map_invD(1) [OF inv]
  from assms(4) obtain s i s' left' right' where
    s: "hm_get (spaces m) key = Some s" "validate s' = Inr ()"
    "m' = m\<lparr>next_region_id := saturating_add (next_region_id m) 1, spaces := hm_insert key s' (spaces m)\<rparr>"
    "left' = flag_child (regions s ! i) left"
    "right' = flag_child (regions s ! i) (right\<lparr>region_id := next_region_id m\<rparr>)"
    and s': "s' = sort_space_regions
           (s\<lparr>regions := take i (regions s) @ left' # right' # drop (Suc i) (regions s)\<rparr>)"
    and g: "validate_global_region_ids m' = Inr ()"
    by (rule apply_split_ok)
  have "list_all region_ok (take i (regions s) @ left' # right' # drop (Suc i) (regions s))"
    using map_invD(2) [OF inv s(1)] ok s(4,5)
    by (auto simp: space_inv_def list_all_iff dest: in_set_takeD in_set_dropD)
  then have "space_inv key s'"
    using s(2) map_invD(2) [OF inv s(1)] unfolding s' by (intro space_invI) (auto simp: space_inv_def)
  then show ?thesis
    unfolding map_inv_def
    using g map_invD(2) [OF inv] hm.wf_ins [OF wf]
    by (auto simp: s(3) validate_global_Inr hm.get_ins [OF wf] split: if_splits)
qed

lemma apply_merge_ok:
  assumes "apply_merge m key lid rid e re merged = (m', Inr ())"
  obtains s i s' where
    "hm_get (spaces m) key = Some s" and "Suc i < length (regions s)"
    and "region_id (regions s ! i) = lid" and "region_id (regions s ! Suc i) = rid"
    and "r_epoch (regions s ! i) = e"
    and "r_epoch (regions s ! Suc i) = (case re of Some x \<Rightarrow> x | None \<Rightarrow> e)"
    and "s' = sort_space_regions
           (s\<lparr>regions := take i (regions s) @ merged # drop (i + 2) (regions s)\<rparr>)"
    and "validate s' = Inr ()"
    and "m' = m\<lparr>spaces := hm_insert key s' (spaces m)\<rparr>"
proof -
  from assms obtain s i where si:
    "hm_get (spaces m) key = Some s" "position (\<lambda>r. region_id r = lid) (regions s) = Some i"
    "position (\<lambda>r. region_id r = rid) (regions s) = Some (Suc i)"
    by (auto simp: apply_merge_def Let_def split: if_splits option.splits)
  note i = position_SomeD [OF si(2)] position_SomeD [OF si(3)]
  show ?thesis
    using assms si i remove_at_update [of i "regions s"]
    by (intro that [of s i]) (auto simp: apply_merge_def Let_def split: if_splits sum.splits)
qed

lemma apply_merge_inv:
  assumes inv: "map_inv m" and ok: "region_ok merged" "region_id merged \<in> {lid, rid}"
    and "apply_merge m key lid rid e re merged = (m', Inr ())"
  shows "map_inv m'"
proof -
  from assms(4) obtain s i s' where
    s: "hm_get (spaces m) key = Some s" "Suc i < length (regions s)"
    "region_id (regions s ! i) = lid" "region_id (regions s ! Suc i) = rid"
    "validate s' = Inr ()" "m' = m\<lparr>spaces := hm_insert key s' (spaces m)\<rparr>"
    and s': "s' = sort_space_regions
           (s\<lparr>regions := take i (regions s) @ merged # drop (i + 2) (regions s)\<rparr>)"
    by (rule apply_merge_ok)
  have "list_all region_ok (take i (regions s) @ merged # drop (i + 2) (regions s))"
    using map_invD(2) [OF inv s(1)] ok
    by (auto simp: space_inv_def list_all_iff dest: in_set_takeD in_set_dropD)
  then have sinv: "space_inv key s'"
    using s(5) map_invD(2) [OF inv s(1)] unfolding s' by (intro space_invI) (auto simp: space_inv_def)
  have "region_id merged \<in> space_ids s"
    using ok(2) s(2-4) nth_mem [of i "regions s"] nth_mem [of "Suc i" "regions s"]
    by (auto simp: space_ids_def)
  then have "space_ids s' \<subseteq> space_ids s"
    unfolding s' by (auto simp: space_ids_def dest: in_set_takeD in_set_dropD)
  then have own: "space_ids s' \<inter> space_ids t = {}"
    if "hm_get (spaces m) k = Some t" "k \<noteq> key" for k t
    using map_invD(3) [OF inv s(1) that(1)] that(2) by blast
  show ?thesis
    by (rule map_inv_install [OF inv sinv own]) (simp_all add: s(6))
qed

lemma drop_space_inv:
  assumes inv: "map_inv m" and "drop_space m d r mm = (m', Inr ())"
  shows "map_inv m'"
proof -
  note wf = map_invD(1) [OF inv]
  have m': "spaces m' = hm_retain (\<lambda>key. \<not> drop_matches d r mm key) (spaces m)"
    using assms(2) by (auto simp: drop_space_def)
  show ?thesis
  proof (rule map_invI)
    show "hm_wf (spaces m')"
      using hm.wf_retain [OF wf] m' by simp
  qed (use map_invD(2,3) [OF inv] in \<open>auto simp: m' hm.get_retain [OF wf] split: if_splits\<close>)
qed

section \<open>The log keeps the invariant\<close>

lemma apply_arm_inv:
  assumes "map_inv m" and "op_ok op" and "apply_arm m op = (m', Inr ())"
  shows "map_inv m'"
  using assms
  by (cases op)
    (auto intro: bootstrap_presplit_inv bootstrap_measurement_inv apply_split_inv apply_merge_inv
      drop_space_inv region_ops_inv)

lemma apply_inv:
  assumes "map_inv m" and "op_ok op" and "apply_shard_map_op m op = (m', Inr ())"
  shows "map_inv m'"
  using assms apply_arm_inv [of "m\<lparr>map_version := saturating_add (map_version m) 1\<rparr>" op m']
  by (simp add: apply_shard_map_op_def map_inv_cong [of "m\<lparr>map_version := _\<rparr>" m])

lemma map_inv_default: "map_inv default_shard_map"
  by (simp add: map_inv_def default_shard_map_def all_regions_def hm_values_def)

definition log_step :: "shard_map \<Rightarrow> shard_map_op \<Rightarrow> shard_map \<Rightarrow> bool" where
  "log_step m op m' = (op_ok op \<and> apply_shard_map_op m op = (m', Inr ()))"

interpretation shard_log: transition_system "\<lambda>m. m = default_shard_map" log_step map_inv
  by unfold_locales (auto simp: map_inv_default log_step_def intro: apply_inv)

end
