(* ===== verification/Shard_Log.thy ===== *)
theory Shard_Log
  imports Shard_Invariant
begin

text \<open>
  What the operations of the log do to routing: the regions a series id is routed to before and
  after a split, a merge and a change of one region; that an operation cannot be applied twice;
  that dropped measurements are gone and no others are touched.
\<close>

section \<open>Sample maps for the witnesses\<close>

definition demo_key :: measurement_key where
  "demo_key = \<lparr>db = ''d'', rp = ''r'', measurement = ''cpu''\<rparr>"

definition demo_region :: "u64 \<Rightarrow> u64 \<Rightarrow> u64 \<Rightarrow> u64 list \<Rightarrow> u64 \<Rightarrow> shard_region" where
  "demo_region i a b ps p =
     \<lparr>region_id = i, r_start = a, r_end = b, r_epoch = default_epoch, peers = ps, primary = p,
      last_split_at = 0, transfer_verified = None, transfer_first_seen = None, r_state = Serving,
      staged_from = None, staging_peers = []\<rparr>"

definition demo_map :: shard_map where
  "demo_map = fst (apply_shard_map_op default_shard_map
     (BootstrapMeasurement demo_key (demo_region 1 0 u64_max [1, 2] 1)))"

definition demo_split_map :: shard_map where
  "demo_split_map = fst (apply_shard_map_op demo_map
     (Split demo_key 1 100 default_epoch (demo_region 1 0 100 [1, 2] 1)
        (demo_region 0 100 u64_max [2, 3] 2)))"

lemmas demo_defs = demo_key_def demo_region_def default_epoch_def default_shard_map_def
  default_next_region_id_def

lemmas apply_defs = apply_shard_map_op_def bootstrap_measurement_def install_space_def
  sort_space_regions_def hm_contains_def hm_get_def hm_insert_def hm_values_def
  region_id_taken_def validate_def apply_split_def insert_at_def flag_child_def
  validate_global_region_ids_def all_regions_def apply_merge_def remove_at_def Let_def

lemma demo_map_eq:
  "demo_map = \<lparr>map_version = 1, next_region_id = 2,
     spaces = [(demo_key, \<lparr>space_key = demo_key, regions = [demo_region 1 0 u64_max [1, 2] 1]\<rparr>)]\<rparr>"
  by (simp add: demo_map_def demo_defs apply_defs saturating_add_def)

lemma demo_split_map_eq:
  "demo_split_map = \<lparr>map_version = 2, next_region_id = 3,
     spaces = [(demo_key, \<lparr>space_key = demo_key,
       regions = [demo_region 1 0 100 [1, 2] 1,
                  (demo_region 2 100 u64_max [2, 3] 2)\<lparr>transfer_verified := Some False\<rparr>]\<rparr>)]\<rparr>"
  by (simp add: demo_split_map_def demo_map_eq demo_defs apply_defs saturating_add_def not_le)

lemma demo_map_inv: "map_inv demo_map"
  by (simp add: demo_map_eq map_inv_def hm_wf_def hm_get_def space_inv_def space_ok_def
      sorted_regions_def region_ok_def all_regions_def hm_values_def demo_region_def)

lemma demo_split_map_inv: "map_inv demo_split_map"
  by (simp add: demo_split_map_eq map_inv_def hm_wf_def hm_get_def space_inv_def space_ok_def
      sorted_regions_def region_ok_def all_regions_def hm_values_def demo_region_def)

section \<open>The invariant holds along the log\<close>

text \<open>
  C1. Every operation of the log that is accepted keeps the shard map's invariant: each
  measurement's regions tile the series-id range in order, region ids are unique over the whole
  map, every region's primary is a peer of it and not a learner, and its peers are distinct.
\<close>

theorem shard_map_invariant:
  assumes "map_inv m" and "op_ok op" and "apply_shard_map_op m op = (m', Inr ())"
  shows "map_inv m'"
  using assms by (rule apply_inv)

theorem shard_map_invariant_witness:
  "map_inv demo_map \<and> op_ok (TransferPrimary demo_key 1 2 default_epoch)
   \<and> map_inv (fst (apply_shard_map_op demo_map (TransferPrimary demo_key 1 2 default_epoch)))"
proof -
  let ?op = "TransferPrimary demo_key 1 2 default_epoch"
  have "snd (apply_shard_map_op demo_map ?op) = Inr ()"
    by (simp add: demo_map_eq apply_shard_map_op_def with_region_def hm_get_def
        transfer_primary_def demo_region_def default_epoch_def)
  then have "apply_shard_map_op demo_map ?op = (fst (apply_shard_map_op demo_map ?op), Inr ())"
    by (metis prod.collapse)
  from shard_map_invariant [OF demo_map_inv _ this] demo_map_inv show ?thesis by simp
qed

text \<open>
  C8. In every map the log can reach from the empty one, each measurement routes every series id
  below \<open>u64::MAX\<close> to a region that holds it, and that region's primary is a member that may
  serve reads.
\<close>

theorem reachable_routing:
  assumes "shard_log.reachable m" and "hm_get (spaces m) key = Some s" and "sid < u64_max"
  shows "\<exists>r. space_locate s sid = Some r \<and> contains r sid \<and> is_serving_peer r (primary r)"
proof -
  have inv: "space_inv key s"
    using map_invD(2) [OF shard_log.reachable_inv [OF assms(1)] assms(2)] .
  then obtain r where r: "space_locate s sid = Some r"
    using space_locate_total assms(3) by (auto simp: space_inv_def)
  moreover have "r \<in> set (regions s) \<and> contains r sid"
    using r inv assms(3) by (simp add: space_inv_def space_locate_iff)
  moreover have "region_ok r"
    using inv calculation by (auto simp: space_inv_def list_all_iff)
  ultimately show ?thesis
    by (auto simp: is_serving_peer_def region_ok_def)
qed

lemma demo_map_reachable: "shard_log.reachable demo_map"
proof (rule shard_log.reachable_step [OF shard_log.reachable_init])
  let ?op = "BootstrapMeasurement demo_key (demo_region 1 0 u64_max [1, 2] 1)"
  have "snd (apply_shard_map_op default_shard_map ?op) = Inr ()"
    by (simp add: demo_defs apply_defs)
  then show "log_step default_shard_map ?op demo_map"
    by (auto simp: log_step_def demo_map_def prod_eq_iff region_ok_def demo_region_def)
qed simp

theorem reachable_routing_witness:
  "\<exists>r. space_locate \<lparr>space_key = demo_key, regions = [demo_region 1 0 u64_max [1, 2] 1]\<rparr> 7 = Some r
     \<and> contains r 7 \<and> is_serving_peer r (primary r)"
  by (rule reachable_routing [OF demo_map_reachable, of demo_key])
    (simp_all add: demo_map_eq hm_get_def)

section \<open>Routing across a split, a merge and a change of one region\<close>

lemma space_distinct: "space_ok s \<Longrightarrow> distinct (regions s)"
  by (simp add: space_ok_def distinct_map)

lemma take_nth_drop_split:
  assumes "distinct xs" and "i < length xs"
  shows "set xs = (set (take i xs) \<union> set (drop (Suc i) xs)) \<union> {xs ! i}"
    and "(set (take i xs) \<union> set (drop (Suc i) xs)) \<inter> {xs ! i} = {}"
proof -
  have xs: "xs = take i xs @ xs ! i # drop (Suc i) xs"
    using assms(2) by (rule id_take_nth_drop)
  show "set xs = (set (take i xs) \<union> set (drop (Suc i) xs)) \<union> {xs ! i}"
    using arg_cong [OF xs, of set] by auto
  have "distinct (take i xs @ xs ! i # drop (Suc i) xs)"
    using assms(1) xs by metis
  then show "(set (take i xs) \<union> set (drop (Suc i) xs)) \<inter> {xs ! i} = {}"
    by auto
qed

text \<open>
  C17. An accepted split changes routing exactly as intended: a series id that was routed to the
  parent goes to the left child below the split key and to the right child from it on, every
  other series id is routed as before, and the right child has an id no region of the map had.
\<close>

theorem split_routing:
  assumes inv: "map_inv m" and op: "op_ok (Split key rid k e left right)"
    and split: "apply_shard_map_op m (Split key rid k e left right) = (m', Inr ())"
    and sid: "sid < u64_max"
  shows "\<exists>s s' old. hm_get (spaces m) key = Some s \<and> hm_get (spaces m') key = Some s'
    \<and> old \<in> set (regions s) \<and> region_id old = rid \<and> r_epoch old = e
    \<and> \<not> region_id_taken m (next_region_id m)
    \<and> space_locate s' sid =
        (if space_locate s sid = Some old
         then Some (flag_child old (if sid < k then left else right\<lparr>region_id := next_region_id m\<rparr>))
         else space_locate s sid)"
proof -
  let ?m = "m\<lparr>map_version := saturating_add (map_version m) 1\<rparr>"
  have "apply_split ?m key rid k e left right = (m', Inr ())"
    using split by (simp add: apply_shard_map_op_def)
  then obtain s i s' left' right' where
    s: "hm_get (spaces ?m) key = Some s" "i < length (regions s)"
      "region_id (regions s ! i) = rid" "r_epoch (regions s ! i) = e" "r_end left = k" "r_start right = k"
      "\<not> region_id_taken ?m (next_region_id ?m)"
    and ch: "left' = flag_child (regions s ! i) left"
      "right' = flag_child (regions s ! i) (right\<lparr>region_id := next_region_id ?m\<rparr>)"
    and s': "s' = sort_space_regions
           (s\<lparr>regions := take i (regions s) @ left' # right' # drop (Suc i) (regions s)\<rparr>)"
      "m' = ?m\<lparr>next_region_id := saturating_add (next_region_id ?m) 1, spaces := hm_insert key s' (spaces ?m)\<rparr>"
    by (rule apply_split_ok)
  have get': "hm_get (spaces m') key = Some s'"
    using s'(2) map_invD(1) [OF inv] by (simp add: hm.get_ins)
  have ok: "space_ok s" "space_ok s'"
    using map_invD(2) [OF inv, of key s] map_invD(2) [OF apply_inv [OF inv op split] get'] s(1)
    by (auto simp: space_inv_def)
  let ?old = "regions s ! i"
  let ?A = "set (take i (regions s)) \<union> set (drop (Suc i) (regions s))"
  note parts = take_nth_drop_split [OF space_distinct [OF ok(1)] s(2)]
  have new: "set (regions s') = ?A \<union> {left', right'}"
    by (auto simp: s'(1))
  obtain r where r: "space_locate s sid = Some r"
    by (rule space_locate_total [OF ok(1) sid])
  note ex = locate_exchange [OF ok sid parts new r]
  have "space_locate s' sid = (if r = ?old then Some (if sid < k then left' else right') else Some r)"
  proof (cases "r = ?old")
    case True
    with ex(2) show ?thesis
      using s(5,6) by (auto simp: ch contains_def)
  next
    case False
    then have "r \<in> ?A"
      using r parts(1) space_locate_iff [OF ok(1) sid] by auto
    with False ex(1) show ?thesis by simp
  qed
  then show ?thesis
    using s get' r ch by (intro exI [of _ s] exI [of _ s'] exI [of _ ?old])
      (auto simp: region_id_taken_cong [of ?m m])
qed

theorem split_routing_witness:
  "\<exists>s s' old. hm_get (spaces demo_map) demo_key = Some s \<and> hm_get (spaces demo_split_map) demo_key = Some s'
    \<and> old \<in> set (regions s) \<and> region_id old = 1 \<and> r_epoch old = default_epoch
    \<and> \<not> region_id_taken demo_map (next_region_id demo_map)
    \<and> space_locate s' 150 =
        (if space_locate s 150 = Some old
         then Some (flag_child old (if (150::u64) < 100 then demo_region 1 0 100 [1, 2] 1
                else (demo_region 0 100 u64_max [2, 3] 2)\<lparr>region_id := next_region_id demo_map\<rparr>))
         else space_locate s 150)"
proof -
  let ?op = "Split demo_key 1 100 default_epoch (demo_region 1 0 100 [1, 2] 1)
        (demo_region 0 100 u64_max [2, 3] 2)"
  have "snd (apply_shard_map_op demo_map ?op) = Inr ()"
    by (simp add: demo_map_eq demo_defs apply_defs saturating_add_def not_le)
  then have ok: "apply_shard_map_op demo_map ?op = (demo_split_map, Inr ())"
    by (simp add: demo_split_map_def prod_eq_iff)
  have "op_ok ?op"
    by (simp add: region_ok_def demo_region_def)
  from split_routing [OF demo_map_inv this ok, of 150] show ?thesis by simp
qed

text \<open>
  C18. An accepted merge sends exactly the series ids of the two merged regions to the merged
  region and leaves the routing of every other series id of the measurement as it was.
\<close>

theorem merge_routing:
  assumes inv: "map_inv m" and op: "op_ok (Merge key lid rid e re merged)"
    and merge: "apply_shard_map_op m (Merge key lid rid e re merged) = (m', Inr ())"
    and sid: "sid < u64_max"
  shows "\<exists>s s' l r. hm_get (spaces m) key = Some s \<and> hm_get (spaces m') key = Some s'
    \<and> {l, r} \<subseteq> set (regions s) \<and> region_id l = lid \<and> region_id r = rid
    \<and> space_locate s' sid =
        (if space_locate s sid \<in> {Some l, Some r} then Some merged else space_locate s sid)"
proof -
  let ?m = "m\<lparr>map_version := saturating_add (map_version m) 1\<rparr>"
  have "apply_merge ?m key lid rid e re merged = (m', Inr ())"
    using merge by (simp add: apply_shard_map_op_def)
  then obtain s i s' where
    s: "hm_get (spaces ?m) key = Some s" "Suc i < length (regions s)"
      "region_id (regions s ! i) = lid" "region_id (regions s ! Suc i) = rid"
    and s': "s' = sort_space_regions
           (s\<lparr>regions := take i (regions s) @ merged # drop (i + 2) (regions s)\<rparr>)"
      "m' = ?m\<lparr>spaces := hm_insert key s' (spaces ?m)\<rparr>"
    by (rule apply_merge_ok)
  have get': "hm_get (spaces m') key = Some s'"
    using s'(2) map_invD(1) [OF inv] by (simp add: hm.get_ins)
  have ok: "space_ok s" "space_ok s'"
    using map_invD(2) [OF inv, of key s] map_invD(2) [OF apply_inv [OF inv op merge] get'] s(1)
    by (auto simp: space_inv_def)
  let ?l = "regions s ! i" and ?r = "regions s ! Suc i"
  let ?A = "set (take i (regions s)) \<union> set (drop (i + 2) (regions s))"
  note dist = space_distinct [OF ok(1)]
  have split: "regions s = take i (regions s) @ ?l # ?r # drop (i + 2) (regions s)"
    using s(2) by (metis Cons_nth_drop_Suc Suc_lessD add_2_eq_Suc' append_take_drop_id)
  have parts: "set (regions s) = ?A \<union> {?l, ?r}" "?A \<inter> {?l, ?r} = {}"
  proof -
    show "set (regions s) = ?A \<union> {?l, ?r}"
      using arg_cong [OF split, of set] by auto
    have "distinct (take i (regions s) @ ?l # ?r # drop (i + 2) (regions s))"
      using dist split by metis
    then show "?A \<inter> {?l, ?r} = {}" by auto
  qed
  have new: "set (regions s') = ?A \<union> {merged}"
    by (auto simp: s'(1))
  obtain x where x: "space_locate s sid = Some x"
    by (rule space_locate_total [OF ok(1) sid])
  note ex = locate_exchange [OF ok sid parts new x]
  have "x \<in> ?A \<union> {?l, ?r}"
    using x parts(1) space_locate_iff [OF ok(1) sid] by auto
  then have "space_locate s' sid =
      (if space_locate s sid \<in> {Some ?l, Some ?r} then Some merged else space_locate s sid)"
    using ex x parts(2) by auto
  moreover have "{?l, ?r} \<subseteq> set (regions s)"
    using parts(1) by blast
  ultimately show ?thesis
    using s get' by (intro exI [of _ s] exI [of _ s'] exI [of _ ?l] exI [of _ ?r]) simp
qed

theorem merge_routing_witness:
  "\<exists>s s' l r. hm_get (spaces demo_split_map) demo_key = Some s
    \<and> hm_get (spaces (fst (apply_shard_map_op demo_split_map
         (Merge demo_key 1 2 default_epoch None (demo_region 1 0 u64_max [1, 2] 1))))) demo_key = Some s'
    \<and> {l, r} \<subseteq> set (regions s) \<and> region_id l = 1 \<and> region_id r = 2
    \<and> space_locate s' 150 =
        (if space_locate s 150 \<in> {Some l, Some r} then Some (demo_region 1 0 u64_max [1, 2] 1)
         else space_locate s 150)"
proof -
  let ?op = "Merge demo_key 1 2 default_epoch None (demo_region 1 0 u64_max [1, 2] 1)"
  have "snd (apply_shard_map_op demo_split_map ?op) = Inr ()"
    by (simp add: demo_split_map_eq demo_defs apply_defs)
  then have ok: "apply_shard_map_op demo_split_map ?op
      = (fst (apply_shard_map_op demo_split_map ?op), Inr ())"
    by (simp add: prod_eq_iff)
  have "op_ok ?op"
    by (simp add: region_ok_def demo_region_def)
  from merge_routing [OF demo_split_map_inv this ok, of 150] show ?thesis by simp
qed

section \<open>No operation is applied twice\<close>

text \<open>The epoch an operation on one region names.\<close>

fun op_epoch :: "shard_map_op \<Rightarrow> shard_epoch option" where
  "op_epoch (MovePeer _ _ _ _ e) = Some e"
| "op_epoch (AddPeer _ _ _ e _) = Some e"
| "op_epoch (PromotePeer _ _ _ e) = Some e"
| "op_epoch (RemovePeer _ _ _ e) = Some e"
| "op_epoch (TransferPrimary _ _ _ e) = Some e"
| "op_epoch (ClearVerified _ _ e) = Some e"
| "op_epoch (ActivateRegion _ _ e) = Some e"
| "op_epoch _ = None"

lemmas region_ops_replay =
  op_move.with_region_replay op_add.with_region_replay op_promote.with_region_replay
  op_remove.with_region_replay op_transfer.with_region_replay op_clear.with_region_replay
  op_activate.with_region_replay

text \<open>
  C31. An accepted operation on one region (a peer added, moved, promoted or removed, a primary
  transferred, a transfer verified, a region activated) cannot be applied again: the same entry
  on the resulting map is refused with a stale epoch and changes no space of the map. The region's
  configuration version must not have reached its maximum.
\<close>

theorem region_op_not_applied_twice:
  assumes "map_inv m" and "op_epoch op = Some e" and "conf_ver e \<noteq> u64_max"
    and "apply_shard_map_op m op = (m', Inr ())"
  shows "\<exists>label. snd (apply_shard_map_op m' op) = Inl (StaleEpoch label)
    \<and> spaces (fst (apply_shard_map_op m' op)) = spaces m'"
proof -
  let ?m = "m\<lparr>map_version := saturating_add (map_version m) 1\<rparr>"
  let ?m'' = "m'\<lparr>map_version := saturating_add (map_version m') 1\<rparr>"
  have inv: "map_inv ?m" and sp: "spaces ?m'' = spaces m'"
    using assms(1) by (simp_all add: map_inv_cong [of ?m m])
  have arm: "apply_arm ?m op = (m', Inr ())"
    using assms(4) by (simp add: apply_shard_map_op_def)
  have "\<exists>label. apply_arm ?m'' op = (?m'', Inl (StaleEpoch label))"
    using arm assms(2,3) region_ops_replay [OF inv _ _ sp]
    by (cases op) auto
  then show ?thesis
    by (auto simp: apply_shard_map_op_def)
qed

theorem region_op_not_applied_twice_witness:
  "\<exists>label. snd (apply_shard_map_op
       (fst (apply_shard_map_op demo_map (AddPeer demo_key 1 3 default_epoch True)))
       (AddPeer demo_key 1 3 default_epoch True)) = Inl (StaleEpoch label)
    \<and> spaces (fst (apply_shard_map_op
         (fst (apply_shard_map_op demo_map (AddPeer demo_key 1 3 default_epoch True)))
         (AddPeer demo_key 1 3 default_epoch True)))
      = spaces (fst (apply_shard_map_op demo_map (AddPeer demo_key 1 3 default_epoch True)))"
proof -
  let ?op = "AddPeer demo_key 1 3 default_epoch True"
  have "snd (apply_shard_map_op demo_map ?op) = Inr ()"
    by (simp add: demo_map_eq apply_shard_map_op_def with_region_def hm_get_def add_peer_def
        demo_region_def default_epoch_def transfer_outstanding_def)
  then have ok: "apply_shard_map_op demo_map ?op = (fst (apply_shard_map_op demo_map ?op), Inr ())"
    by (simp add: prod_eq_iff)
  have "conf_ver default_epoch \<noteq> u64_max"
    by (simp add: default_epoch_def)
  from region_op_not_applied_twice [OF demo_map_inv _ this ok] show ?thesis by simp
qed

section \<open>What an operation can touch\<close>

lemma with_region_frame:
  assumes "hm_wf (spaces m)" and "k \<noteq> key"
  shows "hm_get (spaces (fst (with_region m key rid f))) k = hm_get (spaces m) k"
  using assms by (auto simp: with_region_def hm.get_ins split: option.splits sum.splits)

lemma install_space_frame:
  assumes "hm_wf (spaces m)" and "k \<noteq> key"
  shows "hm_get (spaces (fst (install_space m key rs))) k = hm_get (spaces m) k"
  using assms by (auto simp: install_space_def Let_def hm.get_ins split: sum.splits)

lemma bootstrap_presplit_frame:
  assumes "hm_wf (spaces m)" and "k \<noteq> key"
  shows "hm_get (spaces (fst (bootstrap_presplit m key rs))) k = hm_get (spaces m) k"
  using assms
  by (auto simp: bootstrap_presplit_def Let_def install_space_frame split: option.splits list.splits)

lemma bootstrap_measurement_frame:
  assumes "hm_wf (spaces m)" and "k \<noteq> key"
  shows "hm_get (spaces (fst (bootstrap_measurement m key r))) k = hm_get (spaces m) k"
  using assms by (auto simp: bootstrap_measurement_def Let_def install_space_frame)

lemma apply_split_frame:
  assumes "hm_wf (spaces m)" and "k \<noteq> key"
  shows "hm_get (spaces (fst (apply_split m key rid sk e l r))) k = hm_get (spaces m) k"
  using assms by (auto simp: apply_split_def Let_def hm.get_ins split: option.splits sum.splits)

lemma apply_merge_frame:
  assumes "hm_wf (spaces m)" and "k \<noteq> key"
  shows "hm_get (spaces (fst (apply_merge m key lid rid e re mg))) k = hm_get (spaces m) k"
  using assms by (auto simp: apply_merge_def Let_def hm.get_ins split: option.splits sum.splits)

lemmas op_frames = with_region_frame install_space_frame bootstrap_presplit_frame
  bootstrap_measurement_frame apply_split_frame apply_merge_frame

lemma affected_frame:
  assumes "hm_wf (spaces m)" and "k \<notin> set (affected_space_keys op m)"
  shows "hm_get (spaces (fst (apply_shard_map_op m op))) k = hm_get (spaces m) k"
  using assms
  by (cases op)
    (auto simp: apply_shard_map_op_def affected_space_keys_def op_frames drop_space_def
      hm.get_retain hm_keys_get)

text \<open>
  C34. An operation changes only the spaces that \<open>affected_space_keys\<close> lists for it on the map as it
  was before: whatever the outcome, every other measurement reads as before. The persistence layer
  writes exactly the listed spaces, so it misses no change.
\<close>

theorem only_affected_spaces_change:
  assumes "hm_wf (spaces m)" and "k \<notin> set (affected_space_keys op m)"
  shows "hm_get (spaces (fst (apply_shard_map_op m op))) k = hm_get (spaces m) k"
  using assms by (rule affected_frame)

theorem only_affected_spaces_change_witness:
  "hm_get (spaces (fst (apply_shard_map_op demo_map (DropSpace ''other'' None None)))) demo_key
     = hm_get (spaces demo_map) demo_key"
  by (rule only_affected_spaces_change)
    (simp_all add: demo_map_eq hm_wf_def affected_space_keys_def hm_keys_def drop_matches_def
      demo_key_def)

text \<open>
  Dropping a scope removes exactly the measurements inside it (every retention policy when
  none is named, every measurement when none is named), always succeeds, and dropping it again
  changes no space.
\<close>

theorem drop_space_exact:
  assumes "hm_wf (spaces m)"
  shows "\<exists>m'. apply_shard_map_op m (DropSpace d r mm) = (m', Inr ())
    \<and> (\<forall>k. hm_get (spaces m') k = (if drop_matches d r mm k then None else hm_get (spaces m) k))
    \<and> spaces (fst (apply_shard_map_op m' (DropSpace d r mm))) = spaces m'"
  using hm.get_retain [OF assms]
  by (auto simp: apply_shard_map_op_def drop_space_def hm_retain_def)

theorem drop_space_exact_witness:
  "\<exists>m'. apply_shard_map_op demo_map (DropSpace ''d'' None None) = (m', Inr ())
    \<and> (\<forall>k. hm_get (spaces m') k = (if drop_matches ''d'' None None k then None
                                   else hm_get (spaces demo_map) k))
    \<and> spaces (fst (apply_shard_map_op m' (DropSpace ''d'' None None))) = spaces m'"
  by (rule drop_space_exact) (simp add: demo_map_eq hm_wf_def)

end
