(* ===== verification/Shard_Placement.thy ===== *)
theory Shard_Placement
  imports Shard_Invariant
begin

unbundle bit_operations_syntax

text \<open>
  Region placement (\<^verbatim>\<open>hyperbytedb/src/domain/sharding/placement.rs\<close>): the rendezvous hash that
  ranks nodes for a region, the choice of primaries and replica sets that evens out load, and the
  single next step that moves a region towards its target. Loads are sums of \<open>u64\<close> weights kept in
  \<open>u128\<close>; they are natural numbers here, since a \<open>u128\<close> holds the sum of \<open>2^64\<close> such weights.
\<close>

section \<open>Rendezvous hashing\<close>

definition MIX_1 :: u64 where "MIX_1 = 0xbf58476d1ce4e5b9"
definition MIX_2 :: u64 where "MIX_2 = 0x94d049bb133111eb"
definition GOLDEN :: u64 where "GOLDEN = 0x9e3779b97f4a7c15"

definition mix :: "u64 \<Rightarrow> u64" where
  "mix z =
     (let z = (z XOR drop_bit 30 z) * MIX_1;
          z = (z XOR drop_bit 27 z) * MIX_2
      in z XOR drop_bit 31 z)"

definition mix_bytes :: "u64 \<Rightarrow> string \<Rightarrow> u64" where
  "mix_bytes seed bytes = foldl (\<lambda>acc b. mix (acc + of_char b + GOLDEN)) seed bytes"

definition placement_hash :: "measurement_key \<Rightarrow> u64 \<Rightarrow> u64 \<Rightarrow> u64" where
  "placement_hash key start node_id =
     (let acc = mix_bytes GOLDEN (db key);
          acc = mix_bytes acc (rp key);
          acc = mix_bytes acc (measurement key);
          acc = mix (acc + start + GOLDEN)
      in mix (acc + node_id + GOLDEN))"

definition target_placement :: "measurement_key \<Rightarrow> u64 \<Rightarrow> u64 list \<Rightarrow> nat \<Rightarrow> u64 list" where
  "target_placement key start candidates rf =
     (let scored = map (\<lambda>n. (placement_hash key start n, n)) candidates;
          scored = rev (sort scored)
      in map snd (take rf scored))"

section \<open>Balancing primaries\<close>

record primary_candidate =
  pc_region_id :: u64
  pc_current :: u64
  pc_weight :: u64
  pc_peers :: "u64 list"

type_synonym load_map = "u64 \<Rightarrow> nat"

definition weight_of :: "u64 \<Rightarrow> nat" where
  "weight_of w = unat (max w 1)"

definition by_weight_then_id :: "('a \<Rightarrow> u64) \<Rightarrow> ('a \<Rightarrow> u64) \<Rightarrow> 'a list \<Rightarrow> 'a list" where
  "by_weight_then_id w i xs = sort_key (\<lambda>r. (u64_max - w r, i r)) xs"

definition primary_order :: "primary_candidate list \<Rightarrow> primary_candidate list" where
  "primary_order rgs =
     by_weight_then_id pc_weight pc_region_id (filter (\<lambda>r. pc_peers r \<noteq> []) rgs)"

definition choose_primary :: "nat \<Rightarrow> nat \<Rightarrow> load_map \<Rightarrow> primary_candidate \<Rightarrow> u64" where
  "choose_primary cap_num cap_den load r =
     (let w = weight_of (pc_weight r);
          within = (load (pc_current r) + w) * cap_den \<le> cap_num;
          unloaded = load (pc_current r) = 0
      in if pc_current r \<in> set (pc_peers r) \<and> (within \<or> unloaded) then pc_current r
         else case min_by_key (\<lambda>(rank, n). (load n, rank)) (enumerate 0 (pc_peers r)) of
                Some (_, n) \<Rightarrow> n
              | None \<Rightarrow> pc_peers r ! 0)"

type_synonym primary_state = "load_map \<times> (u64, u64) hash_map"

definition greedy_step :: "nat \<Rightarrow> nat \<Rightarrow> primary_candidate \<Rightarrow> primary_state \<Rightarrow> primary_state" where
  "greedy_step cap_num cap_den r = (\<lambda>(load, out).
     let chosen = choose_primary cap_num cap_den load r
     in (load(chosen := load chosen + weight_of (pc_weight r)),
         hm_insert (pc_region_id r) chosen out))"

definition greedy_primaries :: "primary_candidate list \<Rightarrow> nat \<Rightarrow> primary_state" where
  "greedy_primaries rgs tolerance_pct =
     (let nodes = remdups (concat (map pc_peers rgs));
          total = sum_list (map (\<lambda>r. weight_of (pc_weight r)) rgs);
          cap_num = total * (100 + tolerance_pct);
          cap_den = 100 * length nodes
      in fold (greedy_step cap_num cap_den) (primary_order rgs) (\<lambda>_. 0, []))"

definition candidates_by_id :: "primary_candidate list \<Rightarrow> (u64, primary_candidate) hash_map" where
  "candidates_by_id rgs = fold (\<lambda>r m. hm_insert (pc_region_id r) r m) rgs []"

text \<open>One region of the improvement pass: move its primary when that lowers the busier node.\<close>

definition improve_step ::
    "(u64, primary_candidate) hash_map \<Rightarrow> u64 \<Rightarrow> primary_state \<times> bool \<Rightarrow> primary_state \<times> bool" where
  "improve_step by_id i = (\<lambda>((load, out), moved).
     case (hm_get by_id i, hm_get out i) of
       (Some r, Some from) \<Rightarrow>
         (let w = weight_of (pc_weight r)
          in case min_by_key load (filter (\<lambda>p. p \<noteq> from) (pc_peers r)) of
               Some to \<Rightarrow>
                 if load to + w < load from
                 then ((load(from := load from - w, to := load to + w), hm_insert i to out), True)
                 else ((load, out), moved)
             | None \<Rightarrow> ((load, out), moved))
     | _ \<Rightarrow> ((load, out), moved))"

definition improve_pass ::
    "(u64, primary_candidate) hash_map \<Rightarrow> u64 list \<Rightarrow> primary_state \<Rightarrow> primary_state \<times> bool" where
  "improve_pass by_id ids st = fold (improve_step by_id) ids (st, False)"

definition balance_primaries ::
    "primary_candidate list \<Rightarrow> nat \<Rightarrow> (u64, u64) hash_map option" where
  "balance_primaries rgs tolerance_pct =
     (if concat (map pc_peers rgs) = [] then Some []
      else let (load, out) = greedy_primaries rgs tolerance_pct;
               by_id = candidates_by_id rgs;
               ids = sort (hm_keys out)
           in map_option snd (run_until_stable (improve_pass by_id ids) (load, out)))"

section \<open>Planning weights\<close>

definition u64_try_from :: "nat \<Rightarrow> u64" where
  "u64_try_from n = (if n < 2 ^ 64 then of_nat n else u64_max)"

definition estimate_region_weights :: "(u64 \<times> u64) list \<Rightarrow> u64 list" where
  "estimate_region_weights rgs =
     (let reported = filter (\<lambda>(_, c). 0 < c) rgs;
          series = sum_list (map (\<lambda>(_, c). unat c) reported);
          width = sum_list (map (\<lambda>(w, _). unat w) reported)
      in map (\<lambda>(w, c).
           let expected = (if width = 0 then 0 else unat w * series div width)
           in max (max (u64_try_from expected) c) 1) rgs)"

section \<open>Replica sets\<close>

record region_plan_input =
  rp_region_id :: u64
  rp_current_peers :: "u64 list"
  rp_current_primary :: u64
  rp_weight :: u64
  rp_hrw :: "u64 list"

definition plan_order :: "region_plan_input list \<Rightarrow> region_plan_input list" where
  "plan_order rgs =
     by_weight_then_id rp_weight rp_region_id (filter (\<lambda>r. rp_hrw r \<noteq> []) rgs)"

definition rank :: "region_plan_input \<Rightarrow> u64 \<Rightarrow> nat" where
  "rank r n = (case position (\<lambda>x. x = n) (rp_hrw r) of Some i \<Rightarrow> i | None \<Rightarrow> 2 ^ 64 - 1)"

function fill_set :: "load_map \<Rightarrow> region_plan_input \<Rightarrow> nat \<Rightarrow> u64 list \<Rightarrow> u64 list" where
  "fill_set load r want ps =
     (if length ps < want
      then case min_by_key (\<lambda>n. (load n, rank r n)) (filter (\<lambda>n. n \<notin> set ps) (rp_hrw r)) of
             Some n \<Rightarrow> fill_set load r want (ps @ [n])
           | None \<Rightarrow> ps
      else ps)"
  by pat_completeness auto
termination
  by (relation "measure (\<lambda>(load, r, want, ps). want - length ps)") auto

declare fill_set.simps [simp del]

definition initial_set :: "load_map \<Rightarrow> nat \<Rightarrow> region_plan_input \<Rightarrow> u64 list" where
  "initial_set load rf r =
     (let want = min rf (length (rp_hrw r));
          ps = filter (\<lambda>n. n \<in> set (rp_hrw r)) (rp_current_peers r);
          ps = sort_key (\<lambda>n. (load n, rank r n)) ps;
          ps = take want ps
      in fill_set load r want ps)"

type_synonym plan_state = "load_map \<times> (u64, u64 list) hash_map"

definition place_step :: "nat \<Rightarrow> region_plan_input \<Rightarrow> plan_state \<Rightarrow> plan_state" where
  "place_step rf r = (\<lambda>(load, sets).
     let w = weight_of (rp_weight r);
         ps = initial_set load rf r
     in (fold (\<lambda>n l. l(n := l n + w)) ps load, hm_insert (rp_region_id r) ps sets))"

text \<open>
  One region of the rebalancing pass: move a copy from its most loaded peer (the last maximum of
  load, then of lower rank) to the least loaded node outside the set, when that closes a gap of at
  least two copies.
\<close>

definition rebalance_step :: "region_plan_input \<Rightarrow> plan_state \<times> bool \<Rightarrow> plan_state \<times> bool" where
  "rebalance_step r = (\<lambda>((load, sets), moved).
     let w = weight_of (rp_weight r)
     in case hm_get sets (rp_region_id r) of
       None \<Rightarrow> ((load, sets), moved)
     | Some ps \<Rightarrow>
       (case max_by_key (\<lambda>(_, n). (load n, - int (rank r n))) (enumerate 0 ps) of
          None \<Rightarrow> ((load, sets), moved)
        | Some (i, from) \<Rightarrow>
          (case min_by_key (\<lambda>n. (load n, rank r n)) (filter (\<lambda>n. n \<notin> set ps) (rp_hrw r)) of
             None \<Rightarrow> ((load, sets), moved)
           | Some to \<Rightarrow>
               if load to + 2 * w \<le> load from
               then ((load(from := load from - w, to := load to + w),
                      hm_insert (rp_region_id r) (ps[i := to]) sets), True)
               else ((load, sets), moved))))"

definition rebalance_pass :: "region_plan_input list \<Rightarrow> plan_state \<Rightarrow> plan_state \<times> bool" where
  "rebalance_pass order st = fold rebalance_step order (st, False)"

definition with_primary_first :: "u64 list \<Rightarrow> u64 option \<Rightarrow> u64 list" where
  "with_primary_first target p =
     (case p of
        None \<Rightarrow> target
      | Some x \<Rightarrow>
          (case position (\<lambda>n. n = x) target of
             None \<Rightarrow> target
           | Some i \<Rightarrow> target ! i # take i target @ drop (Suc i) target))"

definition plan_candidate :: "(u64, u64 list) hash_map \<Rightarrow> region_plan_input \<Rightarrow> primary_candidate" where
  "plan_candidate sets r =
     \<lparr>pc_region_id = rp_region_id r, pc_current = rp_current_primary r, pc_weight = rp_weight r,
      pc_peers = sort_key (rank r) (case hm_get sets (rp_region_id r) of Some ps \<Rightarrow> ps | None \<Rightarrow> [])\<rparr>"

definition plan_placement ::
    "region_plan_input list \<Rightarrow> nat \<Rightarrow> nat \<Rightarrow> (u64, u64 list) hash_map option" where
  "plan_placement rgs rf tolerance_pct =
     (let order = plan_order rgs;
          placed = fold (place_step rf) order (\<lambda>_. 0, [])
      in case run_until_stable (rebalance_pass order) placed of
           None \<Rightarrow> None
         | Some (_, sets) \<Rightarrow>
             (case balance_primaries (map (plan_candidate sets) order) tolerance_pct of
                None \<Rightarrow> None
              | Some primaries \<Rightarrow>
                  Some (fold (\<lambda>r out. hm_insert (rp_region_id r)
                          (with_primary_first (pc_peers (plan_candidate sets r))
                             (hm_get primaries (rp_region_id r))) out) order [])))"

section \<open>Steps towards a target\<close>

datatype placement_step = Add u64 | Remove u64 | Promote u64

definition next_placement_step :: "shard_region \<Rightarrow> u64 list \<Rightarrow> placement_step option" where
  "next_placement_step region target =
     (if transfer_outstanding region then None
      else if target = [] then None
      else case find (\<lambda>t. t \<notin> set (peers region)) target of
        Some missing \<Rightarrow> Some (Add missing)
      | None \<Rightarrow>
        if list_ex (\<lambda>t. t \<in> set (staging_peers region)) target then None
        else case find (\<lambda>p. p \<notin> set target \<and> p \<noteq> primary region) (peers region) of
          Some extra \<Rightarrow> Some (Remove extra)
        | None \<Rightarrow>
          if primary region \<noteq> target ! 0 then Some (Promote (target ! 0))
          else case find (\<lambda>p. p \<notin> set target) (peers region) of
            Some extra \<Rightarrow> Some (Remove extra)
          | None \<Rightarrow> None)"

datatype move_tier = RfViolation | Evacuation | Convergence

definition move_tier_of :: "shard_region \<Rightarrow> nat \<Rightarrow> u64 list \<Rightarrow> u64 list \<Rightarrow> move_tier" where
  "move_tier_of region rf departing unhealthy =
     (let live = length (filter (\<lambda>p. p \<notin> set unhealthy) (peers region))
      in if live < rf then RfViolation
         else if list_ex (\<lambda>p. p \<in> set departing) (peers region) then Evacuation
         else Convergence)"

definition move_rate_bytes_per_sec :: "move_tier \<Rightarrow> u64 \<Rightarrow> u64 \<Rightarrow> u64" where
  "move_rate_bytes_per_sec tier cap movers =
     (if tier \<noteq> Convergence \<or> cap = 0 then 0 else max (cap div max movers 1) 1)"

section \<open>Colocating small neighbours\<close>

type_synonym colocate_run = "(u64 \<times> u64) option"

fun colocate_small_neighbours ::
    "(u64, u64 list) hash_map \<Rightarrow> (u64 \<times> u64 option) list \<Rightarrow> u64 \<Rightarrow> colocate_run
     \<Rightarrow> (u64, u64 list) hash_map" where
  "colocate_small_neighbours plan [] merge_series run = plan"
| "colocate_small_neighbours plan ((i, series) # rest) merge_series run =
     (case (case series of Some s \<Rightarrow> if s < merge_series then Some s else None | None \<Rightarrow> None) of
        None \<Rightarrow> colocate_small_neighbours plan rest merge_series None
      | Some s \<Rightarrow>
        (case run of
           Some (head, sofar) \<Rightarrow>
             if sofar + s < merge_series
             then colocate_small_neighbours
                    (case hm_get plan head of Some target \<Rightarrow> hm_insert i target plan | None \<Rightarrow> plan)
                    rest merge_series (Some (head, sofar + s))
             else colocate_small_neighbours plan rest merge_series (Some (i, s))
         | None \<Rightarrow> colocate_small_neighbours plan rest merge_series (Some (i, s))))"

end
