(* ===== verification/Placement_Steps.thy ===== *)
theory Placement_Steps
  imports Shard_Placement Shard_Log
begin

text \<open>
  The steps the planner proposes, run against the operations of the log: every proposed step is
  accepted, the number of serving replicas never dips below what the region and its target
  allow, and the moves the steps stand for reach the target, in whatever order learners are added and
  promoted. The last part shows the stability of the rendezvous ranking that produces targets.
\<close>

section \<open>Executing a step\<close>

text \<open>
  \<open>Add\<close> commits the node as a learner and promotes it once its copy has landed; \<open>Remove\<close> and
  \<open>Promote\<close> are single operations. Each names the region's current epoch. The copy between the two
  operations of an addition is left out here, and so is what another path may commit meanwhile; the
  section on convergence takes the two operations apart.
\<close>

definition exec_step :: "shard_region \<Rightarrow> placement_step \<Rightarrow> region_result" where
  "exec_step r st =
     (case st of
        Add n \<Rightarrow>
          (case add_peer n True (r_epoch r) r of
             Inl e \<Rightarrow> Inl e
           | Inr r' \<Rightarrow> promote_peer n (r_epoch r') r')
      | Remove n \<Rightarrow> remove_peer n (r_epoch r) r
      | Promote n \<Rightarrow> transfer_primary n (r_epoch r) r)"

definition serving_replicas :: "shard_region \<Rightarrow> u64 set" where
  "serving_replicas r = {p \<in> set (peers r). p \<notin> set (staging_peers r)}"

section \<open>Every proposed step is accepted\<close>

lemma find_Some_iff: "find P xs = Some x \<Longrightarrow> x \<in> set xs \<and> P x"
  by (induction xs) (auto split: if_splits)

lemma next_step_cases:
  assumes "next_placement_step r target = Some st"
  obtains
    (add) n where "st = Add n" "n \<in> set target" "n \<notin> set (peers r)"
  | (remove) n where "st = Remove n" "n \<in> set (peers r)" "n \<notin> set target" "n \<noteq> primary r"
      "set target \<subseteq> set (peers r)" "set target \<inter> set (staging_peers r) = {}"
  | (promote) "st = Promote (target ! 0)" "primary r \<noteq> target ! 0" "target ! 0 \<in> set target"
      "set target \<subseteq> set (peers r)" "set target \<inter> set (staging_peers r) = {}"
      "\<forall>p\<in>set (peers r). p \<in> set target \<or> p = primary r"
proof -
  have ne: "target \<noteq> []"
    using assms by (auto simp: next_placement_step_def split: if_splits)
  then have t0: "target ! 0 \<in> set target" by simp
  show ?thesis
  proof (cases "find (\<lambda>t. t \<notin> set (peers r)) target")
    case (Some n)
    with assms show ?thesis
      by (intro add [of n]) (auto simp: next_placement_step_def dest: find_Some_iff split: if_splits)
  next
    case None
    then have sub: "set target \<subseteq> set (peers r)"
      by (auto simp: find_None_iff)
    have st: "set target \<inter> set (staging_peers r) = {}"
      using assms None by (auto simp: next_placement_step_def list_ex_iff split: if_splits)
    show ?thesis
    proof (cases "find (\<lambda>p. p \<notin> set target \<and> p \<noteq> primary r) (peers r)")
      case (Some n)
      with assms None sub st show ?thesis
        by (intro remove [of n])
          (auto simp: next_placement_step_def dest: find_Some_iff split: if_splits)
    next
      case none2: None
      then have only: "\<forall>p\<in>set (peers r). p \<in> set target \<or> p = primary r"
        by (auto simp: find_None_iff)
      show ?thesis
      proof (cases "primary r = target ! 0")
        case True
        with only t0 have "find (\<lambda>p. p \<notin> set target) (peers r) = None"
          by (auto simp: find_None_iff)
        with assms None none2 True show ?thesis
          by (auto simp: next_placement_step_def split: if_splits)
      next
        case False
        with assms None none2 show ?thesis
          by (intro promote only sub st t0)
            (auto simp: next_placement_step_def split: if_splits)
      qed
    qed
  qed
qed

lemma remove_peer_accepts:
  assumes "region_ok r" and "\<not> transfer_outstanding r" and "n \<in> set (peers r)" and "n \<noteq> primary r"
  shows "remove_peer n (r_epoch r) r =
    Inr (r\<lparr>peers := filter (\<lambda>p. p \<noteq> n) (peers r),
           staging_peers := filter (\<lambda>p. p \<noteq> n) (staging_peers r),
           r_epoch := bump_conf_ver (r_epoch r)\<rparr>)"
proof -
  have pr: "primary r \<in> set (peers r)" "primary r \<notin> set (staging_peers r)"
    using assms(1) by (auto simp: region_ok_def)
  have "card {n, primary r} \<le> card (set (peers r))"
    using assms(3) pr(1) by (intro card_mono) auto
  then have "\<not> length (peers r) \<le> 1"
    using card_length [of "peers r"] assms(4) by simp
  moreover have "primary r \<in> set (filter (\<lambda>p. p \<noteq> n \<and> is_serving_peer r p) (peers r))"
    using pr assms(4) by (simp add: is_serving_peer_def)
  then have "length (filter (\<lambda>p. p \<noteq> n \<and> is_serving_peer r p) (peers r)) \<noteq> 0"
    by (metis length_0_conv list.set(1) empty_iff)
  ultimately show ?thesis
    using assms by (simp add: remove_peer_def)
qed

definition add_result :: "u64 \<Rightarrow> shard_region \<Rightarrow> shard_region" where
  "add_result n r =
     r\<lparr>peers := peers r @ [n], staging_peers := filter (\<lambda>p. p \<noteq> n) (staging_peers r),
       r_epoch := bump_conf_ver (bump_conf_ver (r_epoch r))\<rparr>"

lemma exec_add:
  assumes "region_ok r" and "\<not> transfer_outstanding r" and "n \<notin> set (peers r)"
  shows "exec_step r (Add n) = Inr (add_result n r)"
proof -
  have "n \<notin> set (staging_peers r)"
    using assms by (auto simp: region_ok_def)
  then show ?thesis
    using assms by (simp add: exec_step_def add_peer_def promote_peer_def add_result_def)
qed

lemma step_accepted:
  assumes "region_ok r" and "next_placement_step r target = Some st"
  shows "\<exists>r'. exec_step r st = Inr r' \<and> region_ok r'
    \<and> region_id r' = region_id r \<and> r_start r' = r_start r \<and> r_end r' = r_end r"
proof -
  have debt: "\<not> transfer_outstanding r"
    using assms(2) by (auto simp: next_placement_step_def)
  show ?thesis
    using assms(2)
  proof (cases rule: next_step_cases)
    case (add n)
    then show ?thesis
      using exec_add [OF assms(1) debt] assms(1)
      by (auto simp: add_result_def region_ok_def)
  next
    case (remove n)
    note acc = remove_peer_accepts [OF assms(1) debt remove(2,4)]
    show ?thesis
      using acc op_remove.keeps_ok [OF acc assms(1)] by (simp add: remove(1) exec_step_def)
  next
    case promote
    then show ?thesis
      using assms(1) by (auto simp: exec_step_def transfer_primary_def region_ok_def)
  qed
qed

text \<open>
  C33. Whatever step the planner proposes for a well-formed region, the log accepts it: an addition
  is not refused as a member already, a removal is never of the primary or the last serving
  replica, and a promotion is never of a learner or a non-member.
\<close>

theorem proposed_step_accepted:
  assumes "region_ok r" and "next_placement_step r target = Some st"
  shows "\<exists>r'. exec_step r st = Inr r' \<and> region_ok r'
    \<and> region_id r' = region_id r \<and> r_start r' = r_start r \<and> r_end r' = r_end r"
  using assms by (rule step_accepted)

definition placed_region :: shard_region where
  "placed_region = demo_region 1 0 u64_max [1, 2] 1"

lemma placed_region_ok: "region_ok placed_region" "\<not> transfer_outstanding placed_region"
  by code_simp+

theorem proposed_step_accepted_witness:
  "next_placement_step placed_region [3, 2] = Some (Add 3)
   \<and> (\<exists>r'. exec_step placed_region (Add 3) = Inr r' \<and> region_ok r')"
proof -
  have st: "next_placement_step placed_region [3, 2] = Some (Add 3)" by code_simp
  from proposed_step_accepted [OF placed_region_ok(1) st] st show ?thesis by blast
qed

section \<open>The replication factor does not dip\<close>

text \<open>
  A proposed step never takes the region below the replication it has or the replication its
  target asks for: after the step the number of serving replicas is at least the smaller of the
  number before and the size of the target.
\<close>

theorem step_keeps_replication:
  assumes "region_ok r" and "next_placement_step r target = Some st" and "exec_step r st = Inr r'"
  shows "min (card (serving_replicas r)) (card (set target)) \<le> card (serving_replicas r')"
proof -
  have debt: "\<not> transfer_outstanding r"
    using assms(2) by (auto simp: next_placement_step_def)
  have fin: "finite (serving_replicas x)" for x
    by (simp add: serving_replicas_def)
  show ?thesis
    using assms(2)
  proof (cases rule: next_step_cases)
    case (add n)
    then have "r' = add_result n r"
      using exec_add [OF assms(1) debt] assms(3) by simp
    then have "serving_replicas r \<subseteq> serving_replicas r'"
      by (auto simp: serving_replicas_def add_result_def)
    then show ?thesis
      by (intro min.coboundedI1 card_mono fin)
  next
    case (remove n)
    then have "set target \<subseteq> serving_replicas r'"
      using remove_peer_accepts [OF assms(1) debt remove(2,4)] assms(3)
      by (auto simp: exec_step_def serving_replicas_def)
    then show ?thesis
      by (intro min.coboundedI2 card_mono fin)
  next
    case promote
    then have "serving_replicas r' = serving_replicas r"
      using assms(3) by (auto simp: exec_step_def transfer_primary_def serving_replicas_def split: if_splits)
    then show ?thesis by simp
  qed
qed

theorem step_keeps_replication_witness:
  "\<exists>r'. exec_step placed_region (Remove 2) = Inr r' \<and> 1 \<le> card (serving_replicas r')"
proof -
  have st: "next_placement_step placed_region [1] = Some (Remove 2)" by code_simp
  obtain r' where r': "exec_step placed_region (Remove 2) = Inr r'"
    using step_accepted [OF placed_region_ok(1) st] by blast
  have "serving_replicas placed_region = {1, 2}"
    by (auto simp: serving_replicas_def placed_region_def demo_region_def)
  then have "card (serving_replicas placed_region) = 2" by simp
  with step_keeps_replication [OF placed_region_ok(1) st r'] r' show ?thesis by simp
qed

section \<open>Convergence\<close>

text \<open>
  The moves that take a region to its target, one committed operation each. An addition commits any
  node of the target that the region lacks, as a learner; a learner is promoted by a move of its own,
  right after its copy or in a later round when the first attempt failed; a removal and a change of
  the primary are what the planner names. A move the scheduler would not make now is None.
\<close>

datatype placement_move = AddLearner u64 | PromoteLearner u64 | DropPeer u64 | MovePrimary u64

definition committed :: "region_result \<Rightarrow> shard_region option" where
  "committed res = (case res of Inl _ \<Rightarrow> None | Inr r \<Rightarrow> Some r)"

fun run_move :: "u64 list \<Rightarrow> placement_move \<Rightarrow> shard_region \<Rightarrow> shard_region option" where
  "run_move target (AddLearner n) r =
     (case next_placement_step r target of
        Some (Add _) \<Rightarrow> if n \<in> set target \<and> n \<notin> set (peers r) then committed (add_peer n True (r_epoch r) r) else None
      | _ \<Rightarrow> None)"
| "run_move target (PromoteLearner n) r =
     (if n \<in> set (staging_peers r) then committed (promote_peer n (r_epoch r) r) else None)"
| "run_move target (DropPeer n) r =
     (if next_placement_step r target = Some (Remove n) then committed (remove_peer n (r_epoch r) r) else None)"
| "run_move target (MovePrimary n) r =
     (if next_placement_step r target = Some (Promote n) then committed (transfer_primary n (r_epoch r) r) else None)"

fun run_moves :: "u64 list \<Rightarrow> placement_move list \<Rightarrow> shard_region \<Rightarrow> shard_region option" where
  "run_moves target [] r = Some r"
| "run_moves target (m # ms) r = (case run_move target m r of None \<Rightarrow> None | Some r' \<Rightarrow> run_moves target ms r')"

text \<open>One way to run them: finish a learner when there is one, else do what the planner proposes.\<close>

definition next_move :: "u64 list \<Rightarrow> shard_region \<Rightarrow> placement_move option" where
  "next_move target r =
     (case staging_peers r of
        n # _ \<Rightarrow> Some (PromoteLearner n)
      | [] \<Rightarrow> map_option (\<lambda>st. case st of Add n \<Rightarrow> AddLearner n | Remove n \<Rightarrow> DropPeer n | Promote n \<Rightarrow> MovePrimary n)
                (next_placement_step r target))"

definition converge_pass :: "u64 list \<Rightarrow> shard_region \<Rightarrow> shard_region \<times> bool" where
  "converge_pass target r =
     (case next_move target r of
        None \<Rightarrow> (r, False)
      | Some m \<Rightarrow> (case run_move target m r of None \<Rightarrow> (r, False) | Some r' \<Rightarrow> (r', True)))"

definition converge :: "u64 list \<Rightarrow> shard_region \<Rightarrow> shard_region option" where
  "converge target r = run_until_stable (converge_pass target) r"

definition at_target :: "u64 list \<Rightarrow> shard_region \<Rightarrow> bool" where
  "at_target target r \<longleftrightarrow> set (peers r) = set target \<and> primary r = target ! 0 \<and> staging_peers r = []"

text \<open>A missing node is two moves away, a learner, a surplus peer and a wrong primary one each.\<close>

definition distance :: "u64 list \<Rightarrow> shard_region \<Rightarrow> nat" where
  "distance target r =
     2 * card (set target - set (peers r)) + card (set (staging_peers r)) + card (set (peers r) - set target)
     + (if primary r = target ! 0 then 0 else 1)"

definition converge_inv :: "u64 list \<Rightarrow> shard_region \<Rightarrow> bool" where
  "converge_inv target r \<longleftrightarrow> region_ok r \<and> \<not> transfer_outstanding r \<and> target \<noteq> []"

lemma committed_Some [simp]: "committed res = Some r \<longleftrightarrow> res = Inr r"
  by (cases res) (auto simp: committed_def)

lemma add_learner_step:
  assumes "converge_inv target r" and "run_move target (AddLearner n) r = Some r'"
  shows "converge_inv target r' \<and> distance target r' < distance target r"
proof -
  have n: "n \<in> set target" "n \<notin> set (peers r)" "n \<notin> set (staging_peers r)" and add: "add_peer n True (r_epoch r) r = Inr r'"
    using assms by (auto simp: converge_inv_def region_ok_def split: option.splits placement_step.splits if_splits)
  then have r': "r' = r\<lparr>peers := peers r @ [n], staging_peers := staging_peers r @ [n], r_epoch := bump_conf_ver (r_epoch r)\<rparr>"
    by (auto simp: add_peer_def split: if_splits)
  have "card (set target - insert n (set (peers r))) < card (set target - set (peers r))"
    using n by (intro psubset_card_mono) auto
  moreover have "insert n (set (peers r)) - set target = set (peers r) - set target" using n by auto
  moreover have "region_ok r'" using op_add.keeps_ok [OF add] assms(1) by (simp add: converge_inv_def)
  ultimately show ?thesis
    using assms(1) n by (simp add: r' converge_inv_def distance_def transfer_outstanding_def)
qed

lemma promote_learner_step:
  assumes "converge_inv target r" and "run_move target (PromoteLearner n) r = Some r'"
  shows "converge_inv target r' \<and> distance target r' < distance target r"
proof -
  have n: "n \<in> set (staging_peers r)" and promote: "promote_peer n (r_epoch r) r = Inr r'"
    using assms(2) by (auto split: if_splits)
  then have r': "r' = r\<lparr>staging_peers := filter (\<lambda>p. p \<noteq> n) (staging_peers r), r_epoch := bump_conf_ver (r_epoch r)\<rparr>"
    by (auto simp: promote_peer_def split: if_splits)
  have "card (set (filter (\<lambda>p. p \<noteq> n) (staging_peers r))) < card (set (staging_peers r))"
    using n by (intro psubset_card_mono) auto
  moreover have "region_ok r'" using op_promote.keeps_ok [OF promote] assms(1) by (simp add: converge_inv_def)
  ultimately show ?thesis
    using assms(1) by (simp add: r' converge_inv_def distance_def transfer_outstanding_def)
qed

lemma drop_peer_step:
  assumes "converge_inv target r" and "run_move target (DropPeer n) r = Some r'"
  shows "converge_inv target r' \<and> distance target r' < distance target r"
proof -
  have st: "next_placement_step r target = Some (Remove n)" and rm: "remove_peer n (r_epoch r) r = Inr r'"
    using assms(2) by (auto split: if_splits)
  from st have n: "n \<in> set (peers r)" "n \<notin> set target" by (auto elim: next_step_cases)
  from rm have r': "r' = r\<lparr>peers := filter (\<lambda>p. p \<noteq> n) (peers r), staging_peers := filter (\<lambda>p. p \<noteq> n) (staging_peers r),
      r_epoch := bump_conf_ver (r_epoch r)\<rparr>"
    by (auto simp: remove_peer_def split: if_splits)
  have "card (set (peers r') - set target) < card (set (peers r) - set target)"
    using n by (intro psubset_card_mono) (auto simp: r')
  moreover have "set target - set (peers r') = set target - set (peers r)" using n by (auto simp: r')
  moreover have "card (set (staging_peers r')) \<le> card (set (staging_peers r))" by (intro card_mono) (auto simp: r')
  moreover have "region_ok r'" using op_remove.keeps_ok [OF rm] assms(1) by (simp add: converge_inv_def)
  ultimately show ?thesis
    using assms(1) by (auto simp: converge_inv_def distance_def transfer_outstanding_def) (simp_all add: r')
qed

lemma move_primary_step:
  assumes "converge_inv target r" and "run_move target (MovePrimary n) r = Some r'"
  shows "converge_inv target r' \<and> distance target r' < distance target r"
proof -
  have st: "next_placement_step r target = Some (Promote n)" and tr: "transfer_primary n (r_epoch r) r = Inr r'"
    using assms(2) by (auto split: if_splits)
  from st have n: "n = target ! 0" "primary r \<noteq> target ! 0" by (auto elim: next_step_cases)
  from tr have r': "r' = r\<lparr>primary := n, r_epoch := bump_conf_ver (r_epoch r)\<rparr>"
    by (auto simp: transfer_primary_def split: if_splits)
  moreover have "region_ok r'" using op_transfer.keeps_ok [OF tr] assms(1) by (simp add: converge_inv_def)
  ultimately show ?thesis
    using assms(1) n by (simp add: converge_inv_def distance_def transfer_outstanding_def)
qed

lemma move_step:
  "converge_inv target r \<Longrightarrow> run_move target m r = Some r' \<Longrightarrow> converge_inv target r' \<and> distance target r' < distance target r"
  using add_learner_step promote_learner_step drop_peer_step move_primary_step by (cases m) blast+

lemma next_move_accepted:
  assumes "converge_inv target r" and "next_move target r = Some m"
  shows "\<exists>r'. run_move target m r = Some r'"
proof (cases "staging_peers r")
  case (Cons n ns)
  then show ?thesis
    using assms by (auto simp: next_move_def converge_inv_def region_ok_def promote_peer_def)
next
  case Nil
  then obtain st where st: "next_placement_step r target = Some st"
    and m: "m = (case st of Add n \<Rightarrow> AddLearner n | Remove n \<Rightarrow> DropPeer n | Promote n \<Rightarrow> MovePrimary n)"
    using assms(2) by (auto simp: next_move_def)
  have ok: "region_ok r" "\<not> transfer_outstanding r" using assms(1) by (simp_all add: converge_inv_def)
  have acc: "\<exists>r'. exec_step r st = Inr r'" using step_accepted [OF ok(1) st] by blast
  show ?thesis
  proof (cases st)
    case (Add n)
    then have "n \<in> set target" "n \<notin> set (peers r)" using st by (auto elim: next_step_cases)
    then show ?thesis using ok st by (simp add: m Add add_peer_def)
  qed (use st acc in \<open>auto simp: m exec_step_def\<close>)
qed

lemma no_step_at_target:
  assumes "converge_inv target r" and "staging_peers r = []"
  shows "next_placement_step r target = None \<longleftrightarrow> set (peers r) = set target \<and> primary r = target ! 0"
proof
  have ok: "\<not> transfer_outstanding r" "target \<noteq> []" using assms(1) by (auto simp: converge_inv_def)
  assume none: "next_placement_step r target = None"
  have n1: "find (\<lambda>t. t \<notin> set (peers r)) target = None"
    using none ok assms(2) by (auto simp: next_placement_step_def list_ex_iff split: option.splits)
  have n2: "find (\<lambda>p. p \<notin> set target \<and> p \<noteq> primary r) (peers r) = None"
    using none ok assms(2) n1 by (auto simp: next_placement_step_def list_ex_iff split: option.splits)
  have pr: "primary r = target ! 0"
    using none ok assms(2) n1 n2 by (auto simp: next_placement_step_def list_ex_iff split: if_splits)
  have n3: "find (\<lambda>p. p \<notin> set target) (peers r) = None"
    using none ok assms(2) n1 n2 pr by (auto simp: next_placement_step_def list_ex_iff split: option.splits)
  show "set (peers r) = set target \<and> primary r = target ! 0"
    using n1 n3 pr by (auto simp: find_None_iff)
next
  assume at: "set (peers r) = set target \<and> primary r = target ! 0"
  show "next_placement_step r target = None"
    using at by (cases "next_placement_step r target") (auto elim!: next_step_cases)
qed

lemma stuck_at_target:
  assumes "converge_inv target r"
  shows "next_move target r = None \<longleftrightarrow> at_target target r"
    and "(\<forall>m. run_move target m r = None) \<longleftrightarrow> at_target target r"
proof -
  show move: "next_move target r = None \<longleftrightarrow> at_target target r"
    using no_step_at_target [OF assms] by (auto simp: next_move_def at_target_def split: list.splits)
  have "run_move target m r = None" if at: "at_target target r" for m
  proof -
    have "staging_peers r = []" "next_placement_step r target = None"
      using at no_step_at_target [OF assms] by (auto simp: at_target_def)
    then show ?thesis by (cases m) simp_all
  qed
  then show "(\<forall>m. run_move target m r = None) \<longleftrightarrow> at_target target r"
    using move next_move_accepted [OF assms] by (metis not_Some_eq)
qed

interpretation steps: local_search "converge_pass target" "converge_inv target" "distance target"
  for target
proof
  fix r
  assume inv: "converge_inv target r"
  show "converge_inv target (fst (converge_pass target r))"
    using inv move_step [OF inv] by (auto simp: converge_pass_def split: option.splits)
  show "distance target (fst (converge_pass target r)) < distance target r"
    if "snd (converge_pass target r)"
    using that move_step [OF inv] by (auto simp: converge_pass_def split: option.splits)
  show "fst (converge_pass target r) = r" if "\<not> snd (converge_pass target r)"
    using that by (auto simp: converge_pass_def split: option.splits)
qed

lemma converge_reaches:
  assumes "converge_inv target r"
  shows "\<exists>r'. converge target r = Some r' \<and> at_target target r'"
proof -
  from steps.terminates [OF assms] obtain r' where
    r': "converge target r = Some r'" "converge_inv target r'" "\<not> snd (converge_pass target r')"
    by (auto simp: converge_def)
  have "next_move target r' = None"
    using next_move_accepted [OF r'(2)] r'(3) by (cases "next_move target r'") (auto simp: converge_pass_def)
  with stuck_at_target(1) [OF r'(2)] r'(1) show ?thesis by blast
qed

lemma moves_bounded:
  assumes "converge_inv target r" and "run_moves target ms r = Some r'"
  shows "converge_inv target r' \<and> length ms + distance target r' \<le> distance target r"
  using assms
proof (induction ms arbitrary: r)
  case (Cons m ms)
  then obtain r1 where r1: "run_move target m r = Some r1" "run_moves target ms r1 = Some r'"
    by (auto split: option.splits)
  from move_step [OF Cons.prems(1) r1(1)] Cons.IH [OF _ r1(2)] show ?case by simp
qed simp

text \<open>
  C19. The placement of a region converges to its target. Take a well-formed region without transfer
  debt and a target that is not empty; the region may hold learners, of the target or not. Then
  every run of the scheduler's moves (add any missing node as a learner, promote any learner, remove
  the peer or transfer the primary the planner names), in whatever order, is at most as long as the
  distance to the target; the moves stop being possible exactly at the target, where the region's
  peers are the target's nodes, its primary is the target's first node and no learner is left; and
  doing the planner's step, or finishing a learner first when there is one, ends there. The moves of
  this one region are taken to be the only operations committed on it while the target stays, and
  its learners to get promoted in time: the planner alone proposes nothing while a node of the
  target is a learner.
\<close>

theorem placement_converges:
  assumes "region_ok r" and "\<not> transfer_outstanding r" and "target \<noteq> []"
  shows "(\<forall>ms r'. run_moves target ms r = Some r' \<longrightarrow>
        length ms \<le> distance target r \<and> region_ok r' \<and> ((\<forall>m. run_move target m r' = None) \<longleftrightarrow> at_target target r'))
    \<and> (\<exists>r'. converge target r = Some r' \<and> at_target target r')"
proof -
  have inv: "converge_inv target r" using assms by (simp add: converge_inv_def)
  have "length ms \<le> distance target r \<and> region_ok r' \<and> ((\<forall>m. run_move target m r' = None) \<longleftrightarrow> at_target target r')"
    if "run_moves target ms r = Some r'" for ms r'
    using moves_bounded [OF inv that] stuck_at_target(2) [of target r'] by (simp add: converge_inv_def)
  with converge_reaches [OF inv] show ?thesis by blast
qed

text \<open>A region with a learner that its target wants for primary, and one that the target lacks.\<close>

definition learning_region :: shard_region where
  "learning_region = (demo_region 1 0 u64_max [1, 2, 4] 1)\<lparr>staging_peers := [2, 4]\<rparr>"

theorem placement_converges_witness:
  "next_placement_step learning_region [2, 1] = None
   \<and> (\<exists>r'. converge [2, 1] learning_region = Some r' \<and> at_target [2, 1] r')
   \<and> (\<exists>r'. run_moves [2, 1] [PromoteLearner 2, DropPeer 4, MovePrimary 2] learning_region = Some r'
        \<and> (\<forall>m. run_move [2, 1] m r' = None))"
proof -
  let ?ms = "[PromoteLearner 2, DropPeer 4, MovePrimary 2]"
  have region: "region_ok learning_region" "\<not> transfer_outstanding learning_region" "[2, 1 :: u64] \<noteq> []" by code_simp+
  have none: "next_placement_step learning_region [2, 1] = None" by code_simp
  have "at_target [2, 1] (the (run_moves [2, 1] ?ms learning_region))" "run_moves [2, 1] ?ms learning_region \<noteq> None"
    by code_simp+
  then have "\<exists>r'. run_moves [2, 1] ?ms learning_region = Some r' \<and> at_target [2, 1] r'" by (metis option.collapse)
  with placement_converges [OF region] none show ?thesis by blast
qed

section \<open>Stability of the rendezvous ranking\<close>

definition ranking :: "measurement_key \<Rightarrow> u64 \<Rightarrow> u64 list \<Rightarrow> u64 list" where
  "ranking key start candidates =
     map snd (rev (sort (map (\<lambda>n. (placement_hash key start n, n)) candidates)))"

lemma target_placement_take: "target_placement key start candidates rf = take rf (ranking key start candidates)"
  by (simp add: target_placement_def ranking_def Let_def take_map)

lemma ranking_mset: "mset (ranking key start candidates) = mset candidates"
proof -
  have "mset (ranking key start candidates) =
      image_mset snd (mset (map (\<lambda>n. (placement_hash key start n, n)) candidates))"
    by (simp only: ranking_def mset_map mset_rev mset_sort)
  then show ?thesis by (simp add: image_mset.compositionality comp_def)
qed

lemma ranking_cong:
  assumes "mset cs = mset cs'"
  shows "ranking key start cs = ranking key start cs'"
proof -
  have "mset (map (\<lambda>n. (placement_hash key start n, n)) cs) =
      mset (map (\<lambda>n. (placement_hash key start n, n)) cs')"
    using assms by simp
  then have "sort (map (\<lambda>n. (placement_hash key start n, n)) cs) =
      sort (map (\<lambda>n. (placement_hash key start n, n)) cs')"
    by (intro properties_for_sort) simp_all
  then show ?thesis by (simp add: ranking_def)
qed

lemma ranking_filter: "ranking key start (filter P cs) = filter P (ranking key start cs)"
  by (simp add: ranking_def filter_map rev_filter [symmetric] filter_sort comp_def)

lemma take_filter:
  "take n (filter P xs) = filter P (take n xs) @ take (n - length (filter P (take n xs))) (filter P (drop n xs))"
proof -
  have "filter P xs = filter P (take n xs) @ filter P (drop n xs)"
    by (metis append_take_drop_id filter_append)
  moreover have "length (filter P (take n xs)) \<le> n"
    by (rule le_trans [OF length_filter_le]) simp
  ultimately show ?thesis by simp
qed

lemma length_filter_neq:
  "distinct xs \<Longrightarrow> length xs \<le> Suc (length (filter (\<lambda>n. n \<noteq> x) xs))"
  by (induction xs) (auto intro!: eq_refl arg_cong [of _ _ length] filter_True [symmetric])

lemma ranking_distinct: "distinct cs \<Longrightarrow> distinct (ranking key start cs)"
  using mset_eq_imp_distinct_iff [OF ranking_mset] by blast

lemma ranking_set: "set (ranking key start cs) = set cs"
  by (rule mset_eq_setD [OF ranking_mset])

lemma ranking_length: "length (ranking key start cs) = length cs"
  by (rule mset_eq_length [OF ranking_mset])

text \<open>
  A rendezvous target is a set of distinct candidates of the size asked for (or all candidates
  when there are too few), and does not depend on the order in which the candidates are listed.
\<close>

theorem target_placement_valid:
  assumes "distinct candidates" and "mset candidates = mset candidates'"
  shows "distinct (target_placement key start candidates rf)
    \<and> set (target_placement key start candidates rf) \<subseteq> set candidates
    \<and> length (target_placement key start candidates rf) = min rf (length candidates)
    \<and> target_placement key start candidates' rf = target_placement key start candidates rf"
proof -
  have "ranking key start candidates' = ranking key start candidates"
    using ranking_cong [OF assms(2)] by simp
  then show ?thesis
    using ranking_distinct [OF assms(1), of key start] set_take_subset [of rf "ranking key start candidates"]
    by (simp only: target_placement_take) (simp add: ranking_length ranking_set min.commute)
qed

theorem target_placement_valid_witness:
  "length (target_placement demo_key 0 [1, 2, 3] 2) = 2
   \<and> target_placement demo_key 0 [3, 1, 2] 2 = target_placement demo_key 0 [1, 2, 3] 2"
proof -
  have "distinct [1, 2, 3 :: u64]" "mset [1, 2, 3 :: u64] = mset [3, 1, 2]" by simp_all
  from target_placement_valid [OF this, of demo_key 0 2] show ?thesis by simp
qed

text \<open>
  Rendezvous placement moves as little as possible when a node leaves: the rest of the target
  stays, in order, and at most one node is added behind it; a region that did not use the node
  keeps its target unchanged.
\<close>

theorem rendezvous_minimal_disruption:
  assumes "distinct candidates"
  shows "\<exists>rest. target_placement key start (filter (\<lambda>n. n \<noteq> x) candidates) rf =
      filter (\<lambda>n. n \<noteq> x) (target_placement key start candidates rf) @ rest
    \<and> length rest \<le> 1 \<and> (x \<notin> set (target_placement key start candidates rf) \<longrightarrow> rest = [])"
proof -
  let ?L = "ranking key start candidates" and ?P = "\<lambda>n. n \<noteq> x"
  let ?rest = "take (rf - length (filter ?P (take rf ?L))) (filter ?P (drop rf ?L))"
  have dist: "distinct (take rf ?L)" using ranking_distinct [OF assms] by simp
  have eq: "target_placement key start (filter ?P candidates) rf = filter ?P (take rf ?L) @ ?rest"
    by (simp add: target_placement_take ranking_filter take_filter [of rf])
  have "length ?rest \<le> 1"
  proof (cases "length ?L \<le> rf")
    case False
    then have "length (take rf ?L) = rf" by simp
    with length_filter_neq [OF dist, of x] show ?thesis by simp
  qed simp
  moreover have "?rest = []" if "x \<notin> set (take rf ?L)"
  proof -
    have "filter ?P (take rf ?L) = take rf ?L" using that by (auto intro: filter_True)
    then show ?thesis by (cases "length ?L \<le> rf") simp_all
  qed
  ultimately have "target_placement key start (filter ?P candidates) rf =
      filter ?P (target_placement key start candidates rf) @ ?rest
    \<and> length ?rest \<le> 1 \<and> (x \<notin> set (target_placement key start candidates rf) \<longrightarrow> ?rest = [])"
    using eq unfolding target_placement_take by blast
  then show ?thesis by blast
qed

theorem rendezvous_minimal_disruption_witness:
  "\<exists>rest. target_placement demo_key 0 [1, 3] 2 =
      filter (\<lambda>n. n \<noteq> 2) (target_placement demo_key 0 [1, 2, 3] 2) @ rest \<and> length rest \<le> 1"
proof -
  have "distinct [1, 2, 3 :: u64]" and eq: "filter (\<lambda>n. n \<noteq> 2) [1, 2, 3 :: u64] = [1, 3]"
    by simp_all
  from rendezvous_minimal_disruption [OF this(1), of demo_key 0 2 2] show ?thesis
    unfolding eq by blast
qed

end
