(* ===== verification/Placement_Balance.thy ===== *)
theory Placement_Balance
  imports Shard_Placement
begin

text \<open>
  The two local searches of \<^verbatim>\<open>placement.rs\<close>, \<open>balance_primaries\<close> and \<open>plan_placement\<close>: both loops
  end because every move lowers the sum of squared loads, the load table they keep is the load of
  the assignment they build, and no improving move is left when they stop.
\<close>

section \<open>Loads\<close>

text \<open>The load a node carries when region \<open>i\<close>, of weight \<open>w i\<close>, is on the nodes \<open>S i\<close>.\<close>

definition carried :: "(u64 \<Rightarrow> nat) \<Rightarrow> (u64 \<Rightarrow> u64 set) \<Rightarrow> load_map" where
  "carried w S n = (\<Sum>i\<in>UNIV. if n \<in> S i then w i else 0)"

definition squares :: "load_map \<Rightarrow> nat" where
  "squares load = (\<Sum>n\<in>UNIV. load n ^ 2)"

lemma carried_upd:
  "carried w (S(i := N)) n + (if n \<in> S i then w i else 0) = carried w S n + (if n \<in> N then w i else 0)"
proof -
  have rest: "(\<Sum>j\<in>UNIV - {i}. if n \<in> (S(i := N)) j then w j else 0) =
      (\<Sum>j\<in>UNIV - {i}. if n \<in> S j then w j else 0)"
    by (intro sum.cong) auto
  have "carried w S' n = (if n \<in> S' i then w i else 0) +
      (\<Sum>j\<in>UNIV - {i}. if n \<in> S' j then w j else 0)" for S'
    unfolding carried_def by (subst sum.remove [of UNIV i]) auto
  from this [of S] this [of "S(i := N)"] rest show ?thesis by simp
qed

lemma carried_new:
  assumes "S i = {}"
  shows "carried w (S(i := N)) = (\<lambda>n. carried w S n + (if n \<in> N then w i else 0))"
  using carried_upd [of w S i N] assms by (simp add: fun_eq_iff)

lemma carried_move:
  assumes "from \<in> S i" and "to \<notin> S i"
  shows "carried w (S(i := insert to (S i - {from}))) =
    (carried w S)(from := carried w S from - w i, to := carried w S to + w i)"
proof
  fix n
  show "carried w (S(i := insert to (S i - {from}))) n =
    ((carried w S)(from := carried w S from - w i, to := carried w S to + w i)) n"
    using carried_upd [of w S i "insert to (S i - {from})" n] assms
    by (cases "n = from"; cases "n = to"; cases "n \<in> S i") simp_all
qed

lemma squares_split:
  assumes "a \<noteq> b"
  shows "squares load = load a ^ 2 + load b ^ 2 + (\<Sum>n\<in>UNIV - {a} - {b}. load n ^ 2)"
  unfolding squares_def
  using assms sum.remove [of UNIV a "\<lambda>n. load n ^ 2"]
    sum.remove [of "UNIV - {a}" b "\<lambda>n. load n ^ 2"] by simp

lemma squares_decrease:
  fixes load :: load_map
  assumes "load to + w < load from" and "0 < w"
  shows "squares (load(from := load from - w, to := load to + w)) < squares load"
proof -
  have ne: "from \<noteq> to" using assms by auto
  obtain d where d: "load from = load to + w + Suc d"
    using assms(1) less_natE by (metis add_Suc_right)
  have "(load from - w) ^ 2 + (load to + w) ^ 2 < load from ^ 2 + load to ^ 2"
    using assms(2) by (simp add: d power2_eq_square algebra_simps)
  moreover have "(\<Sum>n\<in>UNIV - {from} - {to}. (load(from := load from - w, to := load to + w)) n ^ 2) =
      (\<Sum>n\<in>UNIV - {from} - {to}. load n ^ 2)"
    by (intro sum.cong) auto
  ultimately show ?thesis
    using ne squares_split [OF ne, of load]
      squares_split [OF ne, of "load(from := load from - w, to := load to + w)"] by simp
qed

lemma carried_sum_list:
  assumes "distinct (map rid xs)" and "\<And>i. i \<notin> rid ` set xs \<Longrightarrow> S i = {}"
    and "\<And>r. r \<in> set xs \<Longrightarrow> w (rid r) = wt r"
  shows "carried w S n = sum_list (map wt (filter (\<lambda>r. n \<in> S (rid r)) xs))"
proof -
  have inj: "inj_on rid (set xs)" and dist: "distinct xs"
    using assms(1) by (auto simp: distinct_map)
  have "carried w S n = (\<Sum>i\<in>rid ` set xs. if n \<in> S i then w i else 0)"
    unfolding carried_def using assms(2) by (intro sum.mono_neutral_right) auto
  also have "\<dots> = (\<Sum>r\<in>set xs. if n \<in> S (rid r) then wt r else 0)"
    using assms(3) by (subst sum.reindex [OF inj]) (auto intro: sum.cong)
  also have "\<dots> = sum_list (map (\<lambda>r. if n \<in> S (rid r) then wt r else 0) xs)"
    using dist by (simp add: sum_list_distinct_conv_sum_set)
  also have "\<dots> = sum_list (map wt (filter (\<lambda>r. n \<in> S (rid r)) xs))"
    by (induction xs) auto
  finally show ?thesis .
qed

lemma weight_of_pos: "0 < weight_of w"
  by (auto simp: weight_of_def max_def unat_gt_0)

section \<open>Primaries\<close>

definition cand_weight :: "(u64, primary_candidate) hash_map \<Rightarrow> u64 \<Rightarrow> nat" where
  "cand_weight by_id i = (case hm_get by_id i of Some r \<Rightarrow> weight_of (pc_weight r) | None \<Rightarrow> 0)"

definition leads :: "(u64, u64) hash_map \<Rightarrow> u64 \<Rightarrow> u64 set" where
  "leads out i = set_option (hm_get out i)"

definition primary_inv ::
    "(u64, primary_candidate) hash_map \<Rightarrow> u64 set \<Rightarrow> primary_state \<Rightarrow> bool" where
  "primary_inv by_id ids = (\<lambda>(load, out).
     hm_wf out \<and> {i. hm_get out i \<noteq> None} = ids
     \<and> (\<forall>i n. hm_get out i = Some n \<longrightarrow> (\<exists>r. hm_get by_id i = Some r \<and> n \<in> set (pc_peers r)))
     \<and> load = carried (cand_weight by_id) (leads out))"

lemma leads_insert: "hm_wf out \<Longrightarrow> leads (hm_insert i n out) = (leads out)(i := {n})"
  by (auto simp: leads_def fun_eq_iff hm.get_ins)

lemma improve_move:
  assumes "primary_inv by_id ids (load, out)" and "hm_get by_id i = Some r"
    and "hm_get out i = Some from" and "to \<in> set (pc_peers r)" and "to \<noteq> from"
    and "w = weight_of (pc_weight r)"
  shows "primary_inv by_id ids (load(from := load from - w, to := load to + w), hm_insert i to out)"
proof -
  have wf: "hm_wf out" and load: "load = carried (cand_weight by_id) (leads out)"
    using assms(1) by (auto simp: primary_inv_def)
  have lead: "leads out i = {from}" and w: "cand_weight by_id i = w"
    using assms by (auto simp: leads_def cand_weight_def)
  have "carried (cand_weight by_id) (leads (hm_insert i to out)) =
      load(from := load from - w, to := load to + w)"
    using carried_move [of "from" "leads out" i to "cand_weight by_id"] assms(5)
    by (simp add: leads_insert [OF wf] lead load w)
  then show ?thesis
    using assms by (auto simp: primary_inv_def hm.get_ins hm.wf_ins split: if_splits)
qed

lemma improve_step_cases:
  assumes "primary_inv by_id ids (load, out)"
  obtains (idle) "improve_step by_id i ((load, out), m) = ((load, out), m)"
      "\<forall>r from. hm_get by_id i = Some r \<longrightarrow> hm_get out i = Some from \<longrightarrow>
         (\<forall>q\<in>set (pc_peers r). load from \<le> load q + weight_of (pc_weight r))"
  | (move) r "from" to w where "hm_get by_id i = Some r" "hm_get out i = Some from"
      "to \<in> set (pc_peers r)" "to \<noteq> from" "w = weight_of (pc_weight r)" "load to + w < load from"
      "improve_step by_id i ((load, out), m) =
        ((load(from := load from - w, to := load to + w), hm_insert i to out), True)"
proof (cases "hm_get by_id i")
  case None
  then show ?thesis by (intro idle) (auto simp: improve_step_def)
next
  case r: (Some r)
  show ?thesis
  proof (cases "hm_get out i")
    case None
    with r show ?thesis by (intro idle) (auto simp: improve_step_def)
  next
    case from': (Some "from")
    show ?thesis
    proof (cases "min_by_key load (filter (\<lambda>p. p \<noteq> from) (pc_peers r))")
      case None
      with r from' show ?thesis
        by (intro idle) (auto simp: improve_step_def filter_empty_conv)
    next
      case (Some to)
      from min_by_key_SomeD [OF Some] have to: "to \<in> set (pc_peers r)" "to \<noteq> from"
        "\<forall>q\<in>set (pc_peers r). q \<noteq> from \<longrightarrow> load to \<le> load q" by auto
      show ?thesis
      proof (cases "load to + weight_of (pc_weight r) < load from")
        case True
        with r from' Some to show ?thesis
          by (intro move [of r "from" to]) (auto simp: improve_step_def Let_def)
      next
        case False
        then have "load from \<le> load q + weight_of (pc_weight r)" if "q \<in> set (pc_peers r)" for q
          using to(3) that by (cases "q = from") force+
        with r from' Some False show ?thesis
          by (intro idle) (auto simp: improve_step_def Let_def)
      qed
    qed
  qed
qed

interpretation primaries: sweep "improve_step by_id" "primary_inv by_id ids" "\<lambda>s. squares (fst s)"
  for by_id ids
proof
  fix s i m
  assume inv: "primary_inv by_id ids s"
  obtain load out where s: "s = (load, out)" by fastforce
  note inv = inv [unfolded s]
  from inv show "primary_inv by_id ids (fst (improve_step by_id i (s, m)))"
    unfolding s
    by (cases rule: improve_step_cases [of by_id ids load out i m])
      (auto intro: inv improve_move [OF inv])
  from inv show "improve_step by_id i (s, m) = (s, m) \<or> snd (improve_step by_id i (s, m)) \<and>
      squares (fst (fst (improve_step by_id i (s, m)))) < squares (fst s)"
    unfolding s
    by (cases rule: improve_step_cases [of by_id ids load out i m])
      (auto intro: squares_decrease weight_of_pos)
next
  fix i s m
  show "improve_step by_id i (s, False) = (s, False) \<Longrightarrow> improve_step by_id i (s, m) = (s, m)"
    by (cases s) (auto simp: improve_step_def Let_def split: option.splits if_splits)
qed

lemma candidates_by_id_get:
  assumes "distinct (map pc_region_id rgs)"
  shows "hm_get (candidates_by_id rgs) i = Some r \<longleftrightarrow> r \<in> set rgs \<and> pc_region_id r = i"
proof (cases "i \<in> pc_region_id ` set rgs")
  case True
  then obtain r' where r': "r' \<in> set rgs" "pc_region_id r' = i" by auto
  then have "hm_get (candidates_by_id rgs) i = Some r'"
    using hm_get_fold [OF hm_wf_Nil assms r'(1), of "\<lambda>r. r"] by (simp add: candidates_by_id_def)
  with r' assms show ?thesis
    by (auto simp: distinct_map dest: inj_onD)
next
  case False
  then show ?thesis
    using hm_get_fold_other [OF hm_wf_Nil False, of "\<lambda>r. r"] by (auto simp: candidates_by_id_def)
qed

lemma choose_primary_in:
  assumes "pc_peers r \<noteq> []"
  shows "choose_primary cap_num cap_den load r \<in> set (pc_peers r)"
proof (cases "min_by_key (\<lambda>(rank, n). (load n, rank)) (enumerate 0 (pc_peers r))")
  case None
  with assms show ?thesis by (simp add: enumerate_eq_zip)
next
  case (Some p)
  from min_by_key_SomeD [OF this] have "snd p \<in> set (pc_peers r)"
    by (auto simp: in_set_enumerate_eq intro: nth_mem_eq)
  with Some show ?thesis
    by (auto simp: choose_primary_def Let_def split: prod.splits)
qed

lemma greedy_step_inv:
  assumes "primary_inv by_id ids s" and "hm_get by_id (pc_region_id r) = Some r"
    and "pc_region_id r \<notin> ids" and "pc_peers r \<noteq> []"
  shows "primary_inv by_id (insert (pc_region_id r) ids) (greedy_step cap_num cap_den r s)"
proof -
  obtain load out where s: "s = (load, out)" by fastforce
  let ?n = "choose_primary cap_num cap_den load r"
  have inv: "hm_wf out" "{i. hm_get out i \<noteq> None} = ids"
    "\<forall>i n. hm_get out i = Some n \<longrightarrow> (\<exists>r. hm_get by_id i = Some r \<and> n \<in> set (pc_peers r))"
    "load = carried (cand_weight by_id) (leads out)"
    using assms(1) by (auto simp: primary_inv_def s)
  have free: "hm_get out (pc_region_id r) = None"
    using assms(3) inv(2) by auto
  then have "leads out (pc_region_id r) = {}" by (simp add: leads_def)
  from carried_new [of "leads out", OF this, of "cand_weight by_id" "{?n}"]
  have "carried (cand_weight by_id) (leads (hm_insert (pc_region_id r) ?n out)) =
      load(?n := load ?n + weight_of (pc_weight r))"
    using assms(2) by (auto simp: leads_insert [OF inv(1)] inv(4) cand_weight_def)
  then show ?thesis
    using inv assms(2) choose_primary_in [OF assms(4)]
    by (auto simp: s primary_inv_def greedy_step_def Let_def hm.get_ins hm.wf_ins)
qed

lemma greedy_inv:
  assumes "primary_inv by_id ids s" and "\<forall>r\<in>set xs. hm_get by_id (pc_region_id r) = Some r \<and> pc_peers r \<noteq> []"
    and "distinct (map pc_region_id xs)" and "ids \<inter> pc_region_id ` set xs = {}"
  shows "primary_inv by_id (ids \<union> pc_region_id ` set xs) (fold (greedy_step cap_num cap_den) xs s)"
  using assms
proof (induction xs arbitrary: ids s)
  case (Cons r xs)
  have "primary_inv by_id (insert (pc_region_id r) ids) (greedy_step cap_num cap_den r s)"
    using Cons.prems by (intro greedy_step_inv) auto
  from Cons.IH [OF this] Cons.prems show ?case by auto
qed simp

lemma primary_order_set: "set (primary_order rgs) = {r \<in> set rgs. pc_peers r \<noteq> []}"
  by (auto simp: primary_order_def by_weight_then_id_def)

lemma distinct_map_sort_filter:
  "distinct (map f xs) \<Longrightarrow> distinct (map f (sort_key k (filter P xs)))"
  by (auto simp: distinct_map inj_on_def)

definition led_weight :: "primary_candidate list \<Rightarrow> (u64, u64) hash_map \<Rightarrow> load_map" where
  "led_weight rgs out n =
     sum_list (map (\<lambda>r. weight_of (pc_weight r))
       (filter (\<lambda>r. hm_get out (pc_region_id r) = Some n) rgs))"

lemma greedy_primaries_inv:
  assumes "distinct (map pc_region_id rgs)"
  shows "primary_inv (candidates_by_id rgs) (pc_region_id ` {r \<in> set rgs. pc_peers r \<noteq> []})
    (greedy_primaries rgs tolerance_pct)"
proof -
  have "primary_inv (candidates_by_id rgs) {} (\<lambda>_. 0, [])"
    by (auto simp: primary_inv_def carried_def leads_def)
  from greedy_inv [OF this, of "primary_order rgs"] show ?thesis
    using assms
    by (simp add: greedy_primaries_def Let_def primary_order_set candidates_by_id_get)
      (simp add: primary_order_def by_weight_then_id_def distinct_map_sort_filter)
qed

definition cand_ids :: "primary_candidate list \<Rightarrow> u64 set" where
  "cand_ids rgs = pc_region_id ` {r \<in> set rgs. pc_peers r \<noteq> []}"

lemma load_is_led:
  assumes "distinct (map pc_region_id rgs)"
    and "primary_inv (candidates_by_id rgs) (cand_ids rgs) (load, out)"
  shows "load n = led_weight rgs out n"
proof -
  have dom: "{i. hm_get out i \<noteq> None} = cand_ids rgs"
    and load: "load = carried (cand_weight (candidates_by_id rgs)) (leads out)"
    using assms(2) by (auto simp: primary_inv_def)
  have "load n = sum_list (map (\<lambda>r. weight_of (pc_weight r))
      (filter (\<lambda>r. n \<in> leads out (pc_region_id r)) rgs))"
    unfolding load using assms(1)
  proof (rule carried_sum_list)
    fix i
    assume "i \<notin> pc_region_id ` set rgs"
    then have "i \<notin> cand_ids rgs" by (auto simp: cand_ids_def)
    then show "leads out i = {}" unfolding dom [symmetric] by (simp add: leads_def)
  next
    fix r
    assume "r \<in> set rgs"
    then have "hm_get (candidates_by_id rgs) (pc_region_id r) = Some r"
      by (simp add: candidates_by_id_get assms(1))
    then show "cand_weight (candidates_by_id rgs) (pc_region_id r) = weight_of (pc_weight r)"
      by (simp add: cand_weight_def)
  qed
  then show ?thesis
    by (simp add: led_weight_def leads_def)
qed

lemma balance_primaries_stops:
  assumes "distinct (map pc_region_id rgs)"
  shows "\<exists>load out. balance_primaries rgs tolerance_pct = Some out
    \<and> primary_inv (candidates_by_id rgs) (cand_ids rgs) (load, out)
    \<and> (\<forall>i\<in>cand_ids rgs. \<forall>m. improve_step (candidates_by_id rgs) i ((load, out), m) = ((load, out), m))"
proof (cases "concat (map pc_peers rgs) = []")
  case True
  then have "cand_ids rgs = {}" by (auto simp: cand_ids_def)
  with True show ?thesis
    by (auto simp: balance_primaries_def primary_inv_def leads_def)
next
  case False
  let ?by = "candidates_by_id rgs"
  obtain load0 out0 where g: "greedy_primaries rgs tolerance_pct = (load0, out0)" by fastforce
  have inv0: "primary_inv ?by (cand_ids rgs) (load0, out0)"
    using greedy_primaries_inv [OF assms, of tolerance_pct] by (simp add: g cand_ids_def)
  have "set (sort (hm_keys out0)) = {i. hm_get out0 i \<noteq> None}"
    by (auto simp: hm_keys_get)
  then have ids: "set (sort (hm_keys out0)) = cand_ids rgs"
    using inv0 by (simp add: primary_inv_def)
  obtain load out where
    "run_until_stable (improve_pass ?by (sort (hm_keys out0))) (load0, out0) = Some (load, out)"
    "primary_inv ?by (cand_ids rgs) (load, out)"
    "\<forall>i\<in>cand_ids rgs. \<forall>m. improve_step ?by i ((load, out), m) = ((load, out), m)"
    using primaries.stable [OF inv0, of "sort (hm_keys out0)"] ids
    by (force simp: improve_pass_def [abs_def])
  with False show ?thesis by (auto simp: balance_primaries_def g Let_def)
qed

lemma balance_primaries_result:
  assumes "distinct (map pc_region_id rgs)"
  shows "\<exists>out. balance_primaries rgs tolerance_pct = Some out
    \<and> {i. hm_get out i \<noteq> None} = cand_ids rgs
    \<and> (\<forall>r\<in>set rgs. pc_peers r \<noteq> [] \<longrightarrow>
        (\<exists>p\<in>set (pc_peers r). hm_get out (pc_region_id r) = Some p \<and>
          (\<forall>q\<in>set (pc_peers r).
             led_weight rgs out p \<le> led_weight rgs out q + weight_of (pc_weight r))))"
proof -
  let ?by = "candidates_by_id rgs"
  obtain load out where bal: "balance_primaries rgs tolerance_pct = Some out"
    and inv: "primary_inv ?by (cand_ids rgs) (load, out)"
    and idle: "\<forall>i\<in>cand_ids rgs. \<forall>m. improve_step ?by i ((load, out), m) = ((load, out), m)"
    using balance_primaries_stops [OF assms] by blast
  have dom: "{i. hm_get out i \<noteq> None} = cand_ids rgs"
    using inv by (simp add: primary_inv_def)
  have "\<exists>p\<in>set (pc_peers r). hm_get out (pc_region_id r) = Some p \<and>
      (\<forall>q\<in>set (pc_peers r). led_weight rgs out p \<le> led_weight rgs out q + weight_of (pc_weight r))"
    if r: "r \<in> set rgs" "pc_peers r \<noteq> []" for r
  proof -
    have by_id: "hm_get ?by (pc_region_id r) = Some r"
      using r by (simp add: candidates_by_id_get assms)
    have id: "pc_region_id r \<in> cand_ids rgs"
      using r by (auto simp: cand_ids_def)
    then obtain p where p: "hm_get out (pc_region_id r) = Some p"
      using dom by auto
    with inv by_id have "p \<in> set (pc_peers r)" by (fastforce simp: primary_inv_def)
    moreover have "\<forall>q\<in>set (pc_peers r). load p \<le> load q + weight_of (pc_weight r)"
      using by_id p idle id
      by (cases rule: improve_step_cases [OF inv, of "pc_region_id r" False]) auto
    ultimately show ?thesis using p by (auto simp: load_is_led [OF assms inv])
  qed
  with bal dom show ?thesis by blast
qed

section \<open>Replica sets\<close>

definition plan_weight :: "region_plan_input list \<Rightarrow> u64 \<Rightarrow> nat" where
  "plan_weight rgs i =
     (case find (\<lambda>r. rp_region_id r = i) rgs of Some r \<Rightarrow> weight_of (rp_weight r) | None \<Rightarrow> 0)"

definition holds :: "(u64, u64 list) hash_map \<Rightarrow> u64 \<Rightarrow> u64 set" where
  "holds sets i = (case hm_get sets i of Some ps \<Rightarrow> set ps | None \<Rightarrow> {})"

definition set_ok :: "nat \<Rightarrow> region_plan_input \<Rightarrow> u64 list \<Rightarrow> bool" where
  "set_ok rf r ps \<longleftrightarrow> distinct ps \<and> set ps \<subseteq> set (rp_hrw r) \<and> length ps = min rf (length (rp_hrw r))"

definition plan_inv :: "region_plan_input list \<Rightarrow> nat \<Rightarrow> u64 set \<Rightarrow> plan_state \<Rightarrow> bool" where
  "plan_inv rgs rf ids = (\<lambda>(load, sets).
     hm_wf sets \<and> {i. hm_get sets i \<noteq> None} = ids
     \<and> (\<forall>r\<in>set rgs. \<forall>ps. hm_get sets (rp_region_id r) = Some ps \<longrightarrow> set_ok rf r ps)
     \<and> load = carried (plan_weight rgs) (holds sets))"

lemma plan_weight_in:
  assumes "distinct (map rp_region_id rgs)" and "r \<in> set rgs"
  shows "plan_weight rgs (rp_region_id r) = weight_of (rp_weight r)"
proof (cases "find (\<lambda>r'. rp_region_id r' = rp_region_id r) rgs")
  case None
  with assms show ?thesis by (auto simp: find_None_iff)
next
  case (Some r')
  then have "r' \<in> set rgs" "rp_region_id r' = rp_region_id r"
    by (auto simp: find_Some_iff)
  then have "r' = r" using assms by (auto simp: distinct_map dest: inj_onD)
  with Some show ?thesis by (simp add: plan_weight_def)
qed

lemma holds_insert: "hm_wf sets \<Longrightarrow> holds (hm_insert i ps sets) = (holds sets)(i := set ps)"
  by (auto simp: holds_def fun_eq_iff hm.get_ins)

lemma plan_inv_insert:
  assumes "plan_inv rgs rf ids (load, sets)" and "distinct (map rp_region_id rgs)" and "r \<in> set rgs"
    and "set_ok rf r ps"
    and "load' = carried (plan_weight rgs) ((holds sets)(rp_region_id r := set ps))"
  shows "plan_inv rgs rf (insert (rp_region_id r) ids) (load', hm_insert (rp_region_id r) ps sets)"
proof -
  have same: "r' = r" if "r' \<in> set rgs" "rp_region_id r' = rp_region_id r" for r'
    using assms(2,3) that by (auto simp: distinct_map dest: inj_onD)
  show ?thesis
    using assms by (auto simp: plan_inv_def hm.get_ins hm.wf_ins holds_insert split: if_splits dest: same)
qed

lemma fill_set_ok:
  assumes "distinct (rp_hrw r)" and "want \<le> length (rp_hrw r)" and "distinct ps"
    and "set ps \<subseteq> set (rp_hrw r)" and "length ps \<le> want"
  shows "distinct (fill_set load r want ps) \<and> set (fill_set load r want ps) \<subseteq> set (rp_hrw r)
    \<and> length (fill_set load r want ps) = want"
  using assms
proof (induction load r want ps rule: fill_set.induct)
  case (1 load r want ps)
  show ?case
  proof (cases "length ps < want")
    case False
    with 1 show ?thesis by (simp add: fill_set.simps [of load r want ps])
  next
    case True
    have "card (set ps) < card (set (rp_hrw r))"
      using 1(2,3,4) True by (simp add: distinct_card)
    then obtain x where "x \<in> set (rp_hrw r)" "x \<notin> set ps"
      by (metis card_mono finite_set leD subsetI)
    then obtain n where n: "min_by_key (\<lambda>n. (load n, rank r n))
        (filter (\<lambda>n. n \<notin> set ps) (rp_hrw r)) = Some n"
      by (metis (no_types, lifting) filter_empty_conv min_by_key_None_iff not_None_eq)
    from min_by_key_SomeD [OF n] have "n \<in> set (rp_hrw r)" "n \<notin> set ps" by auto
    with 1(1) [OF True n] 1(2-) True n show ?thesis
      by (simp add: fill_set.simps [of load r want ps])
  qed
qed

lemma initial_set_ok:
  assumes "distinct (rp_hrw r)" and "distinct (rp_current_peers r)"
  shows "set_ok rf r (initial_set load rf r)"
proof -
  let ?ps = "sort_key (\<lambda>n. (load n, rank r n)) (filter (\<lambda>n. n \<in> set (rp_hrw r)) (rp_current_peers r))"
  have "set (take k ?ps) \<subseteq> set (rp_hrw r)" for k
    using set_take_subset [of k ?ps] by auto
  moreover have "distinct (take k ?ps)" for k
    using assms(2) by (intro distinct_take) simp
  moreover have "length (take k ?ps) \<le> k" for k by simp
  ultimately show ?thesis
    unfolding initial_set_def set_ok_def Let_def
    using assms(1) by (intro fill_set_ok [of r _ _ load]) auto
qed

lemma add_loads:
  fixes load :: load_map
  shows "distinct ps \<Longrightarrow> fold (\<lambda>n l. l(n := l n + w)) ps load = (\<lambda>n. load n + (if n \<in> set ps then w else 0))"
  by (induction ps arbitrary: load) (auto simp: fun_eq_iff)

lemma place_step_inv:
  assumes "plan_inv rgs rf ids s" and "distinct (map rp_region_id rgs)" and "r \<in> set rgs"
    and "distinct (rp_hrw r)" and "distinct (rp_current_peers r)" and "rp_region_id r \<notin> ids"
  shows "plan_inv rgs rf (insert (rp_region_id r) ids) (place_step rf r s)"
proof -
  obtain load sets where s: "s = (load, sets)" by fastforce
  let ?ps = "initial_set load rf r"
  have ok: "set_ok rf r ?ps" using assms(4,5) by (rule initial_set_ok)
  have load: "load = carried (plan_weight rgs) (holds sets)"
    using assms(1) by (simp add: s plan_inv_def)
  have "hm_get sets (rp_region_id r) = None"
    using assms(1,6) by (auto simp: s plan_inv_def)
  then have "holds sets (rp_region_id r) = {}" by (simp add: holds_def)
  from carried_new [of "holds sets", OF this, of "plan_weight rgs" "set ?ps"]
  have "fold (\<lambda>n l. l(n := l n + weight_of (rp_weight r))) ?ps load =
      carried (plan_weight rgs) ((holds sets)(rp_region_id r := set ?ps))"
    using ok
    by (simp add: add_loads set_ok_def load plan_weight_in [OF assms(2,3)] cong: if_cong)
  from plan_inv_insert [OF assms(1) [unfolded s] assms(2,3) ok this] show ?thesis
    by (simp add: s place_step_def Let_def)
qed

lemma place_inv:
  assumes "plan_inv rgs rf ids s" and "distinct (map rp_region_id rgs)" and "set xs \<subseteq> set rgs"
    and "\<forall>r\<in>set xs. distinct (rp_hrw r) \<and> distinct (rp_current_peers r)"
    and "distinct (map rp_region_id xs)" and "ids \<inter> rp_region_id ` set xs = {}"
  shows "plan_inv rgs rf (ids \<union> rp_region_id ` set xs) (fold (place_step rf) xs s)"
  using assms
proof (induction xs arbitrary: ids s)
  case (Cons r xs)
  have "plan_inv rgs rf (insert (rp_region_id r) ids) (place_step rf r s)"
    using Cons.prems by (intro place_step_inv) auto
  from Cons.IH [OF this] Cons.prems show ?case by auto
qed simp

lemma rebalance_step_cases:
  assumes "plan_inv rgs rf ids (load, sets)" and "r \<in> set rgs"
  obtains (idle) "rebalance_step r ((load, sets), m) = ((load, sets), m)"
      "\<forall>ps p q. hm_get sets (rp_region_id r) = Some ps \<longrightarrow> p \<in> set ps \<longrightarrow>
         q \<in> set (rp_hrw r) \<longrightarrow> q \<notin> set ps \<longrightarrow> load p < load q + 2 * weight_of (rp_weight r)"
  | (move) ps i to w where "hm_get sets (rp_region_id r) = Some ps" "i < length ps"
      "to \<in> set (rp_hrw r)" "to \<notin> set ps" "w = weight_of (rp_weight r)"
      "load to + 2 * w \<le> load (ps ! i)"
      "rebalance_step r ((load, sets), m) =
        ((load(ps ! i := load (ps ! i) - w, to := load to + w),
          hm_insert (rp_region_id r) (ps[i := to]) sets), True)"
proof (cases "hm_get sets (rp_region_id r)")
  case None
  then show ?thesis by (intro idle) (auto simp: rebalance_step_def)
next
  case ps: (Some ps)
  show ?thesis
  proof (cases "max_by_key (\<lambda>(_, n). (load n, - int (rank r n))) (enumerate 0 ps)")
    case None
    with ps show ?thesis
      by (intro idle) (auto simp: rebalance_step_def enumerate_eq_zip)
  next
    case mx: (Some f)
    obtain i "from" where f: "f = (i, from)" by fastforce
    from max_by_key_SomeD [OF mx] have i: "i < length ps" "from = ps ! i"
      by (auto simp: f in_set_enumerate_eq)
    have max: "load p \<le> load from" if "p \<in> set ps" for p
    proof -
      from that obtain j where "j < length ps" "ps ! j = p" by (auto simp: in_set_conv_nth)
      then have "(j, p) \<in> set (enumerate 0 ps)" by (simp add: in_set_enumerate_eq)
      with max_by_key_SomeD [OF mx] show ?thesis by (force simp: f)
    qed
    show ?thesis
    proof (cases "min_by_key (\<lambda>n. (load n, rank r n)) (filter (\<lambda>n. n \<notin> set ps) (rp_hrw r))")
      case None
      with ps mx show ?thesis
        by (intro idle) (auto simp: rebalance_step_def f filter_empty_conv)
    next
      case mn: (Some to)
      from min_by_key_SomeD [OF mn] have to: "to \<in> set (rp_hrw r)" "to \<notin> set ps"
        and min: "\<And>q. q \<in> set (rp_hrw r) \<Longrightarrow> q \<notin> set ps \<Longrightarrow> load to \<le> load q"
        by fastforce+
      show ?thesis
      proof (cases "load to + 2 * weight_of (rp_weight r) \<le> load from")
        case True
        with ps mx mn i to show ?thesis
          by (intro move [of ps i to]) (auto simp: rebalance_step_def Let_def f)
      next
        case False
        then have "load p < load q + 2 * weight_of (rp_weight r)"
          if "p \<in> set ps" "q \<in> set (rp_hrw r)" "q \<notin> set ps" for p q
          using max [OF that(1)] min [OF that(2,3)] by linarith
        with ps mx mn False show ?thesis
          by (intro idle) (auto simp: rebalance_step_def Let_def f)
      qed
    qed
  qed
qed

lemma rebalance_move:
  assumes inv: "plan_inv rgs rf ids (load, sets)" and dist: "distinct (map rp_region_id rgs)"
    and r: "r \<in> set rgs" and ps: "hm_get sets (rp_region_id r) = Some ps" and i: "i < length ps"
    and to: "to \<in> set (rp_hrw r)" "to \<notin> set ps" and w: "w = weight_of (rp_weight r)"
  shows "plan_inv rgs rf ids (load(ps ! i := load (ps ! i) - w, to := load to + w),
           hm_insert (rp_region_id r) (ps[i := to]) sets)"
proof -
  have ok: "set_ok rf r ps" and load: "load = carried (plan_weight rgs) (holds sets)"
    and id: "rp_region_id r \<in> ids"
    using inv r ps by (auto simp: plan_inv_def)
  have upd: "set (ps[i := to]) = insert to (set ps - {ps ! i})"
    using ok i by (simp add: set_update_distinct set_ok_def)
  have "set_ok rf r (ps[i := to])"
    using ok to by (auto simp: set_ok_def upd intro: distinct_list_update)
  moreover have "holds sets (rp_region_id r) = set ps"
    using ps by (simp add: holds_def)
  then have "load(ps ! i := load (ps ! i) - w, to := load to + w) =
      carried (plan_weight rgs) ((holds sets)(rp_region_id r := set (ps[i := to])))"
    using carried_move [of "ps ! i" "holds sets" "rp_region_id r" to "plan_weight rgs"] i to w
    by (simp add: upd load plan_weight_in [OF dist r])
  ultimately show ?thesis
    using plan_inv_insert [OF inv dist r] id by (simp add: insert_absorb)
qed

text \<open>
  The pass runs over the regions in order; a step on a region that is not one of them would be
  outside the invariant, so the sweep is stated for a step that skips those.
\<close>

definition guarded_step ::
    "region_plan_input list \<Rightarrow> region_plan_input \<Rightarrow> plan_state \<times> bool \<Rightarrow> plan_state \<times> bool" where
  "guarded_step rgs r s = (if r \<in> set rgs then rebalance_step r s else s)"

lemma fold_guarded: "set xs \<subseteq> set rgs \<Longrightarrow> fold (guarded_step rgs) xs s = fold rebalance_step xs s"
  by (induction xs arbitrary: s) (auto simp: guarded_step_def)

definition sets_inv :: "region_plan_input list \<Rightarrow> nat \<Rightarrow> u64 set \<Rightarrow> plan_state \<Rightarrow> bool" where
  "sets_inv rgs rf ids s \<longleftrightarrow> distinct (map rp_region_id rgs) \<and> plan_inv rgs rf ids s"

interpretation replicas: sweep "guarded_step rgs" "sets_inv rgs rf ids" "\<lambda>s. squares (fst s)"
  for rgs rf ids
proof
  fix s r m
  assume "sets_inv rgs rf ids s"
  then have dist: "distinct (map rp_region_id rgs)" and "plan_inv rgs rf ids s"
    by (auto simp: sets_inv_def)
  moreover obtain load sets where s: "s = (load, sets)" by fastforce
  ultimately have inv: "plan_inv rgs rf ids (load, sets)" by simp
  show "sets_inv rgs rf ids (fst (guarded_step rgs r (s, m)))"
  proof (cases "r \<in> set rgs")
    case True
    from inv True show ?thesis
      unfolding s
      by (cases rule: rebalance_step_cases [of rgs rf ids load sets r m])
        (auto simp: guarded_step_def sets_inv_def dist inv intro: rebalance_move [OF inv dist])
  qed (simp add: guarded_step_def s sets_inv_def dist inv)
  show "guarded_step rgs r (s, m) = (s, m) \<or> snd (guarded_step rgs r (s, m)) \<and>
      squares (fst (fst (guarded_step rgs r (s, m)))) < squares (fst s)"
  proof (cases "r \<in> set rgs")
    case True
    from inv True show ?thesis
      unfolding s
    proof (cases rule: rebalance_step_cases [of rgs rf ids load sets r m])
      case (move ps i to w)
      have "load to + w < load (ps ! i)" "0 < w"
        using move(6) weight_of_pos [of "rp_weight r"] by (simp_all add: move(5))
      from squares_decrease [OF this] move(7) True show
        "guarded_step rgs r ((load, sets), m) = ((load, sets), m) \<or>
         snd (guarded_step rgs r ((load, sets), m)) \<and>
         squares (fst (fst (guarded_step rgs r ((load, sets), m)))) < squares (fst (load, sets))"
        by (simp add: guarded_step_def)
    qed (simp add: guarded_step_def)
  qed (simp add: guarded_step_def)
next
  fix r s m
  show "guarded_step rgs r (s, False) = (s, False) \<Longrightarrow> guarded_step rgs r (s, m) = (s, m)"
    by (cases s) (auto simp: guarded_step_def rebalance_step_def Let_def split: option.splits if_splits prod.splits)
qed

section \<open>The plan\<close>

lemma with_primary_first_mset: "mset (with_primary_first t p) = mset t"
proof (cases p)
  case (Some x)
  show ?thesis
  proof (cases "position (\<lambda>n. n = x) t")
    case i: (Some i)
    then have "t = take i t @ t ! i # drop (Suc i) t"
      using position_SomeD [OF i] id_take_nth_drop [of i t] by simp
    then have "mset t = mset (take i t @ t ! i # drop (Suc i) t)" by (rule arg_cong)
    with i Some show ?thesis by (simp add: with_primary_first_def)
  qed (simp add: with_primary_first_def Some del: position_None_iff)
qed (simp add: with_primary_first_def)

lemma with_primary_first_hd:
  assumes "p \<in> set t"
  shows "\<exists>rest. with_primary_first t (Some p) = p # rest"
proof (cases "position (\<lambda>n. n = p) t")
  case None
  with assms show ?thesis by force
next
  case (Some i)
  with position_SomeD [OF Some] show ?thesis by (simp add: with_primary_first_def)
qed

lemma plan_order_set: "set (plan_order rgs) = {r \<in> set rgs. rp_hrw r \<noteq> []}"
  by (auto simp: plan_order_def by_weight_then_id_def)

lemma plan_order_distinct:
  "distinct (map rp_region_id rgs) \<Longrightarrow> distinct (map rp_region_id (plan_order rgs))"
  by (simp add: plan_order_def by_weight_then_id_def distinct_map_sort_filter)

lemma plan_order_sum:
  fixes f :: "region_plan_input \<Rightarrow> nat"
  assumes "\<And>r. r \<in> set rgs \<Longrightarrow> rp_hrw r = [] \<Longrightarrow> \<not> P r"
  shows "sum_list (map f (filter P (plan_order rgs))) = sum_list (map f (filter P rgs))"
proof -
  have "filter P (filter (\<lambda>r. rp_hrw r \<noteq> []) rgs) = filter P rgs"
    using assms by (auto intro: filter_cong)
  moreover have "mset (plan_order rgs) = mset (filter (\<lambda>r. rp_hrw r \<noteq> []) rgs)"
    by (simp add: plan_order_def by_weight_then_id_def)
  ultimately have "mset (filter P (plan_order rgs)) = mset (filter P rgs)"
    by (simp only: mset_filter) (simp only: mset_filter [symmetric])
  then have "sum_mset (image_mset f (mset (filter P (plan_order rgs)))) =
      sum_mset (image_mset f (mset (filter P rgs)))" by simp
  then show ?thesis by (simp only: mset_map [symmetric] sum_mset_sum_list)
qed

definition held_weight :: "region_plan_input list \<Rightarrow> (u64, u64 list) hash_map \<Rightarrow> load_map" where
  "held_weight rgs plan n =
     sum_list (map (\<lambda>r. weight_of (rp_weight r))
       (filter (\<lambda>r. case hm_get plan (rp_region_id r) of Some t \<Rightarrow> n \<in> set t | None \<Rightarrow> False) rgs))"

definition plan_led :: "region_plan_input list \<Rightarrow> (u64, u64 list) hash_map \<Rightarrow> load_map" where
  "plan_led rgs plan n =
     sum_list (map (\<lambda>r. weight_of (rp_weight r))
       (filter (\<lambda>r. case hm_get plan (rp_region_id r) of Some (p # _) \<Rightarrow> p = n | _ \<Rightarrow> False) rgs))"

definition plan_input_ok :: "region_plan_input list \<Rightarrow> bool" where
  "plan_input_ok rgs \<longleftrightarrow> distinct (map rp_region_id rgs)
     \<and> list_all (\<lambda>r. distinct (rp_hrw r) \<and> distinct (rp_current_peers r)) rgs"

lemma placed_sets:
  assumes "plan_input_ok rgs"
  shows "\<exists>load sets. run_until_stable (rebalance_pass (plan_order rgs))
      (fold (place_step rf) (plan_order rgs) (\<lambda>_. 0, [])) = Some (load, sets)
    \<and> plan_inv rgs rf (rp_region_id ` set (plan_order rgs)) (load, sets)
    \<and> (\<forall>r\<in>set (plan_order rgs). rebalance_step r ((load, sets), False) = ((load, sets), False))"
proof -
  let ?ids = "rp_region_id ` set (plan_order rgs)"
  have dist: "distinct (map rp_region_id rgs)" and sub: "set (plan_order rgs) \<subseteq> set rgs"
    using assms by (auto simp: plan_input_ok_def plan_order_set)
  have "plan_inv rgs rf {} (\<lambda>_. 0, [])"
    by (auto simp: plan_inv_def carried_def holds_def)
  from place_inv [OF this dist sub]
  have "sets_inv rgs rf ?ids (fold (place_step rf) (plan_order rgs) (\<lambda>_. 0, []))"
    using assms sub plan_order_distinct [OF dist]
    by (auto simp: sets_inv_def dist plan_input_ok_def list_all_iff)
  from replicas.stable [OF this, of "plan_order rgs"] obtain s where
    s: "run_until_stable (\<lambda>s. fold (guarded_step rgs) (plan_order rgs) (s, False))
         (fold (place_step rf) (plan_order rgs) (\<lambda>_. 0, [])) = Some s"
      "sets_inv rgs rf ?ids s"
      "\<forall>r\<in>set (plan_order rgs). \<forall>m. guarded_step rgs r (s, m) = (s, m)" by blast
  have "rebalance_step r (s, False) = (s, False)" if "r \<in> set (plan_order rgs)" for r
    using s(3) sub that by (force simp: guarded_step_def)
  moreover have "(\<lambda>s. fold (guarded_step rgs) (plan_order rgs) (s, False)) =
      rebalance_pass (plan_order rgs)"
    by (simp add: fun_eq_iff rebalance_pass_def fold_guarded [OF sub])
  ultimately show ?thesis
    using s(1,2) by (cases s) (auto simp: sets_inv_def)
qed

definition plan_target ::
    "(u64, u64 list) hash_map \<Rightarrow> (u64, u64) hash_map \<Rightarrow> region_plan_input \<Rightarrow> u64 list" where
  "plan_target sets out r =
     with_primary_first (pc_peers (plan_candidate sets r)) (hm_get out (rp_region_id r))"

lemma plan_placement_shape:
  assumes "plan_input_ok rgs"
  obtains load sets out plan where
    "plan_placement rgs rf tolerance_pct = Some plan"
    "plan_inv rgs rf (rp_region_id ` set (plan_order rgs)) (load, sets)"
    "\<forall>r\<in>set (plan_order rgs). rebalance_step r ((load, sets), False) = ((load, sets), False)"
    "balance_primaries (map (plan_candidate sets) (plan_order rgs)) tolerance_pct = Some out"
    "\<forall>r\<in>set (plan_order rgs). hm_get plan (rp_region_id r) = Some (plan_target sets out r)"
    "\<forall>i. i \<notin> rp_region_id ` set (plan_order rgs) \<longrightarrow> hm_get plan i = None"
proof -
  have dist: "distinct (map rp_region_id (plan_order rgs))"
    using assms plan_order_distinct by (auto simp: plan_input_ok_def)
  obtain load sets where ls: "run_until_stable (rebalance_pass (plan_order rgs))
      (fold (place_step rf) (plan_order rgs) (\<lambda>_. 0, [])) = Some (load, sets)"
    "plan_inv rgs rf (rp_region_id ` set (plan_order rgs)) (load, sets)"
    "\<forall>r\<in>set (plan_order rgs). rebalance_step r ((load, sets), False) = ((load, sets), False)"
    using placed_sets [OF assms, of rf] by blast
  have "distinct (map pc_region_id (map (plan_candidate sets) (plan_order rgs)))"
    using dist by (simp add: plan_candidate_def comp_def)
  then obtain out where out:
    "balance_primaries (map (plan_candidate sets) (plan_order rgs)) tolerance_pct = Some out"
    using balance_primaries_stops by blast
  let ?plan = "fold (\<lambda>r. hm_insert (rp_region_id r) (plan_target sets out r)) (plan_order rgs) []"
  have "plan_placement rgs rf tolerance_pct = Some ?plan"
    using ls(1) out by (simp add: plan_placement_def Let_def plan_target_def)
  moreover have "\<forall>r\<in>set (plan_order rgs). hm_get ?plan (rp_region_id r) = Some (plan_target sets out r)"
    using hm_get_fold [OF hm_wf_Nil dist] by blast
  moreover have "\<forall>i. i \<notin> rp_region_id ` set (plan_order rgs) \<longrightarrow> hm_get ?plan i = None"
    by (simp add: hm_get_fold_other [OF hm_wf_Nil])
  ultimately show thesis using that ls(2,3) out by blast
qed

lemma plan_target_set:
  assumes "plan_inv rgs rf ids (load, sets)" and "r \<in> set rgs" and "rp_region_id r \<in> ids"
  obtains ps where "hm_get sets (rp_region_id r) = Some ps" "set_ok rf r ps"
    "mset (plan_target sets out r) = mset ps" "set (pc_peers (plan_candidate sets r)) = set ps"
proof -
  have "hm_get sets (rp_region_id r) \<noteq> None"
    using assms by (auto simp: plan_inv_def)
  then obtain ps where ps: "hm_get sets (rp_region_id r) = Some ps" by auto
  moreover have "set_ok rf r ps"
    using ps assms by (auto simp: plan_inv_def)
  moreover have "mset (plan_target sets out r) = mset ps"
    by (simp add: plan_target_def with_primary_first_mset plan_candidate_def ps)
  ultimately show thesis using that by (simp add: plan_candidate_def)
qed

lemma plan_order_mem: "r \<in> set (plan_order rgs) \<longleftrightarrow> r \<in> set rgs \<and> rp_hrw r \<noteq> []"
  by (simp add: plan_order_set)

lemma plan_holds:
  assumes "plan_inv rgs rf (rp_region_id ` set (plan_order rgs)) (load, sets)"
    and "\<forall>r\<in>set (plan_order rgs). hm_get plan (rp_region_id r) = Some (plan_target sets out r)"
    and "\<forall>i. i \<notin> rp_region_id ` set (plan_order rgs) \<longrightarrow> hm_get plan i = None"
  shows "(case hm_get plan i of Some t \<Rightarrow> n \<in> set t | None \<Rightarrow> False) \<longleftrightarrow> n \<in> holds sets i"
proof (cases "i \<in> rp_region_id ` set (plan_order rgs)")
  case True
  then obtain r where r: "r \<in> set (plan_order rgs)" "i = rp_region_id r" by auto
  from plan_target_set [OF assms(1), of r out] r obtain ps where
    "hm_get sets i = Some ps" "mset (plan_target sets out r) = mset ps"
    by (auto simp: plan_order_mem)
  then show ?thesis using assms(2) r by (auto simp: holds_def dest: mset_eq_setD)
next
  case False
  then have "hm_get sets i = None" using assms(1) by (auto simp: plan_inv_def)
  then show ?thesis using False assms(3) by (simp add: holds_def)
qed

lemma load_is_held:
  assumes "distinct (map rp_region_id rgs)"
    and "plan_inv rgs rf (rp_region_id ` set (plan_order rgs)) (load, sets)"
    and "\<forall>r\<in>set (plan_order rgs). hm_get plan (rp_region_id r) = Some (plan_target sets out r)"
    and "\<forall>i. i \<notin> rp_region_id ` set (plan_order rgs) \<longrightarrow> hm_get plan i = None"
  shows "load n = held_weight rgs plan n"
proof -
  have "load n = carried (plan_weight rgs) (holds sets) n"
    using assms(2) by (simp add: plan_inv_def)
  also have "\<dots> = sum_list (map (\<lambda>r. weight_of (rp_weight r))
      (filter (\<lambda>r. n \<in> holds sets (rp_region_id r)) rgs))"
  proof (rule carried_sum_list [OF assms(1)])
    fix i
    assume "i \<notin> rp_region_id ` set rgs"
    then have "i \<notin> rp_region_id ` set (plan_order rgs)" by (auto simp: plan_order_mem)
    then show "holds sets i = {}"
      using assms(2) by (auto simp: plan_inv_def holds_def split: option.splits)
  qed (simp add: plan_weight_in [OF assms(1)])
  finally show ?thesis
    by (simp add: held_weight_def plan_holds [OF assms(2,3,4)])
qed

lemma plan_copies:
  assumes "plan_input_ok rgs"
  shows "\<exists>plan. plan_placement rgs rf tolerance_pct = Some plan \<and>
    (\<forall>r\<in>set rgs. rp_hrw r \<noteq> [] \<longrightarrow> (\<exists>t. hm_get plan (rp_region_id r) = Some t \<and> set_ok rf r t \<and>
      (\<forall>p\<in>set t. \<forall>q\<in>set (rp_hrw r) - set t.
         held_weight rgs plan p < held_weight rgs plan q + 2 * weight_of (rp_weight r))))"
proof -
  obtain load sets out plan where shape:
    "plan_placement rgs rf tolerance_pct = Some plan"
    "plan_inv rgs rf (rp_region_id ` set (plan_order rgs)) (load, sets)"
    "\<forall>r\<in>set (plan_order rgs). rebalance_step r ((load, sets), False) = ((load, sets), False)"
    "\<forall>r\<in>set (plan_order rgs). hm_get plan (rp_region_id r) = Some (plan_target sets out r)"
    "\<forall>i. i \<notin> rp_region_id ` set (plan_order rgs) \<longrightarrow> hm_get plan i = None"
    using plan_placement_shape [OF assms] by metis
  have "distinct (map rp_region_id rgs)"
    using assms by (simp add: plan_input_ok_def)
  note held = load_is_held [OF this shape(2,4,5)]
  have "\<exists>t. hm_get plan (rp_region_id r) = Some t \<and> set_ok rf r t \<and>
      (\<forall>p\<in>set t. \<forall>q\<in>set (rp_hrw r) - set t. load p < load q + 2 * weight_of (rp_weight r))"
    if r: "r \<in> set rgs" "rp_hrw r \<noteq> []" for r
  proof -
    from plan_target_set [OF shape(2), of r out] r obtain ps where ps:
      "hm_get sets (rp_region_id r) = Some ps" "set_ok rf r ps" "mset (plan_target sets out r) = mset ps"
      by (auto simp: plan_order_mem)
    have eq: "set (plan_target sets out r) = set ps" using ps(3) by (rule mset_eq_setD)
    have "set_ok rf r (plan_target sets out r)"
      using ps(2,3) eq by (auto simp: set_ok_def dest: mset_eq_length mset_eq_imp_distinct_iff)
    moreover have "\<forall>p\<in>set ps. \<forall>q\<in>set (rp_hrw r) - set ps. load p < load q + 2 * weight_of (rp_weight r)"
      using shape(3) r ps(1)
      by (cases rule: rebalance_step_cases [OF shape(2) r(1), of False]) (auto simp: plan_order_mem)
    ultimately show ?thesis using shape(4) r by (auto simp: eq plan_order_mem)
  qed
  then show ?thesis using shape(1) by (auto simp: held)
qed

abbreviation plan_cands :: "(u64, u64 list) hash_map \<Rightarrow> region_plan_input list \<Rightarrow> primary_candidate list" where
  "plan_cands sets rgs \<equiv> map (plan_candidate sets) (plan_order rgs)"

lemma plan_candidate_fields [simp]:
  "pc_region_id (plan_candidate sets r) = rp_region_id r"
  "pc_weight (plan_candidate sets r) = rp_weight r"
  by (simp_all add: plan_candidate_def)

lemma plan_input_uniq:
  assumes "distinct (map rp_region_id rgs)" "r \<in> set rgs" "r' \<in> set rgs" "rp_region_id r' = rp_region_id r"
  shows "r' = r"
  using assms by (auto simp: distinct_map dest: inj_onD)

lemma plan_order_id:
  assumes "distinct (map rp_region_id rgs)" and "r \<in> set rgs"
  shows "rp_region_id r \<in> rp_region_id ` set (plan_order rgs) \<longleftrightarrow> r \<in> set (plan_order rgs)"
proof
  assume "rp_region_id r \<in> rp_region_id ` set (plan_order rgs)"
  then obtain r' where r': "r' \<in> set (plan_order rgs)" "rp_region_id r' = rp_region_id r" by auto
  then have "r' = r" using plan_input_uniq [OF assms, of r'] by (simp add: plan_order_mem)
  with r'(1) show "r \<in> set (plan_order rgs)" by simp
qed simp

lemma plan_leader:
  assumes "distinct (map rp_region_id rgs)"
    and "balance_primaries (plan_cands sets rgs) tolerance_pct = Some out"
  shows "{i. hm_get out i \<noteq> None} = cand_ids (plan_cands sets rgs)"
    and "r \<in> set (plan_order rgs) \<Longrightarrow> pc_peers (plan_candidate sets r) \<noteq> [] \<Longrightarrow>
      \<exists>p\<in>set (pc_peers (plan_candidate sets r)). hm_get out (rp_region_id r) = Some p \<and>
        (\<forall>q\<in>set (pc_peers (plan_candidate sets r)).
           led_weight (plan_cands sets rgs) out p
             \<le> led_weight (plan_cands sets rgs) out q + weight_of (rp_weight r))"
proof -
  have "distinct (map pc_region_id (plan_cands sets rgs))"
    using plan_order_distinct [OF assms(1)] by (simp add: comp_def)
  from balance_primaries_result [OF this, of tolerance_pct] assms(2) obtain out' where
    "Some out = Some out'" and dom: "{i. hm_get out' i \<noteq> None} = cand_ids (plan_cands sets rgs)"
    and led: "\<forall>r\<in>set (plan_cands sets rgs). pc_peers r \<noteq> [] \<longrightarrow>
        (\<exists>p\<in>set (pc_peers r). hm_get out' (pc_region_id r) = Some p \<and>
          (\<forall>q\<in>set (pc_peers r).
             led_weight (plan_cands sets rgs) out' p
               \<le> led_weight (plan_cands sets rgs) out' q + weight_of (pc_weight r)))"
    by (simp only: assms(2)) blast
  then have out: "out' = out" by simp
  show "{i. hm_get out i \<noteq> None} = cand_ids (plan_cands sets rgs)"
    using dom by (simp only: out)
  show "\<exists>p\<in>set (pc_peers (plan_candidate sets r)). hm_get out (rp_region_id r) = Some p \<and>
        (\<forall>q\<in>set (pc_peers (plan_candidate sets r)).
           led_weight (plan_cands sets rgs) out p
             \<le> led_weight (plan_cands sets rgs) out q + weight_of (rp_weight r))"
    if "r \<in> set (plan_order rgs)" "pc_peers (plan_candidate sets r) \<noteq> []"
    using bspec [OF led, of "plan_candidate sets r"] that by (simp add: out)
qed

lemma plan_first:
  assumes "distinct (map rp_region_id rgs)"
    and "balance_primaries (plan_cands sets rgs) tolerance_pct = Some out"
    and "r \<in> set (plan_order rgs)"
  shows "hm_get out (rp_region_id r) = Some n \<longleftrightarrow> (\<exists>rest. plan_target sets out r = n # rest)"
proof (cases "pc_peers (plan_candidate sets r) = []")
  case True
  have "rp_region_id r \<notin> cand_ids (plan_cands sets rgs)"
  proof
    assume "rp_region_id r \<in> cand_ids (plan_cands sets rgs)"
    then obtain r' where "r' \<in> set (plan_order rgs)" "rp_region_id r' = rp_region_id r"
      "pc_peers (plan_candidate sets r') \<noteq> []" by (auto simp: cand_ids_def)
    then show False
      using True assms(3) plan_input_uniq [OF assms(1), of r r'] by (simp add: plan_order_mem)
  qed
  then show ?thesis unfolding plan_leader(1) [OF assms(1,2), symmetric] using True
    by (simp add: plan_target_def with_primary_first_def)
next
  case False
  with plan_leader(2) [OF assms] obtain p where "p \<in> set (pc_peers (plan_candidate sets r))"
    "hm_get out (rp_region_id r) = Some p" by blast
  then show ?thesis
    using with_primary_first_hd [of p "pc_peers (plan_candidate sets r)"]
    by (auto simp: plan_target_def)
qed

lemma led_is_plan_led:
  assumes "distinct (map rp_region_id rgs)"
    and "balance_primaries (plan_cands sets rgs) tolerance_pct = Some out"
    and "\<forall>r\<in>set (plan_order rgs). hm_get plan (rp_region_id r) = Some (plan_target sets out r)"
    and "\<forall>i. i \<notin> rp_region_id ` set (plan_order rgs) \<longrightarrow> hm_get plan i = None"
  shows "led_weight (plan_cands sets rgs) out n = plan_led rgs plan n"
proof -
  have "led_weight (plan_cands sets rgs) out n = sum_list (map (\<lambda>r. weight_of (rp_weight r))
      (filter (\<lambda>r. hm_get out (rp_region_id r) = Some n) (plan_order rgs)))"
    by (simp add: led_weight_def filter_map comp_def)
  also have "filter (\<lambda>r. hm_get out (rp_region_id r) = Some n) (plan_order rgs) =
      filter (\<lambda>r. case hm_get plan (rp_region_id r) of Some (p # _) \<Rightarrow> p = n | _ \<Rightarrow> False)
        (plan_order rgs)"
    using assms(3) plan_first [OF assms(1,2)] by (intro filter_cong) (auto split: list.splits)
  also have "sum_list (map (\<lambda>r. weight_of (rp_weight r)) \<dots>) = plan_led rgs plan n"
    unfolding plan_led_def
  proof (rule plan_order_sum)
    fix r
    assume r: "r \<in> set rgs" "rp_hrw r = []"
    have "rp_region_id r \<notin> rp_region_id ` set (plan_order rgs)"
      using r by (simp only: plan_order_id [OF assms(1)] plan_order_mem) simp
    then show "\<not> (case hm_get plan (rp_region_id r) of Some (p # _) \<Rightarrow> p = n | _ \<Rightarrow> False)"
      using assms(4) by simp
  qed
  finally show ?thesis .
qed

lemma plan_leaders:
  assumes "plan_input_ok rgs"
  shows "\<exists>plan. plan_placement rgs rf tolerance_pct = Some plan \<and>
    (\<forall>r\<in>set rgs. \<forall>p rest. hm_get plan (rp_region_id r) = Some (p # rest) \<longrightarrow>
      (\<forall>q\<in>set (p # rest). plan_led rgs plan p \<le> plan_led rgs plan q + weight_of (rp_weight r)))"
proof -
  obtain load sets out plan where shape:
    "plan_placement rgs rf tolerance_pct = Some plan"
    "balance_primaries (plan_cands sets rgs) tolerance_pct = Some out"
    "\<forall>r\<in>set (plan_order rgs). hm_get plan (rp_region_id r) = Some (plan_target sets out r)"
    "\<forall>i. i \<notin> rp_region_id ` set (plan_order rgs) \<longrightarrow> hm_get plan i = None"
    using plan_placement_shape [OF assms] by metis
  have dist: "distinct (map rp_region_id rgs)"
    using assms by (simp add: plan_input_ok_def)
  note eq = led_is_plan_led [OF dist shape(2-4)]
  have "plan_led rgs plan p \<le> plan_led rgs plan q + weight_of (rp_weight r)"
    if h: "r \<in> set rgs" "hm_get plan (rp_region_id r) = Some (p # rest)" "q \<in> set (p # rest)"
    for r p rest q
  proof -
    have "rp_region_id r \<in> rp_region_id ` set (plan_order rgs)"
      using h(2) shape(4) by fastforce
    then have r: "r \<in> set (plan_order rgs)"
      using h(1) by (simp only: plan_order_id [OF dist])
    with shape(3) h(2) have t: "plan_target sets out r = p # rest" by simp
    have "mset (p # rest) = mset (pc_peers (plan_candidate sets r))"
      unfolding t [symmetric] by (simp add: plan_target_def with_primary_first_mset)
    then have ps: "set (p # rest) = set (pc_peers (plan_candidate sets r))"
      by (rule mset_eq_setD)
    then have "pc_peers (plan_candidate sets r) \<noteq> []" by auto
    from plan_leader(2) [OF dist shape(2) r this] plan_first [OF dist shape(2) r, of p] t
    have "\<forall>q\<in>set (p # rest). led_weight (plan_cands sets rgs) out p
        \<le> led_weight (plan_cands sets rgs) out q + weight_of (rp_weight r)"
      unfolding ps by auto
    then show ?thesis using h(3) by (auto simp: eq)
  qed
  with shape(1) show ?thesis by blast
qed

section \<open>Keeping a balanced layout\<close>

definition current_led :: "primary_candidate list \<Rightarrow> load_map" where
  "current_led rgs n =
     sum_list (map (\<lambda>r. weight_of (pc_weight r)) (filter (\<lambda>r. pc_current r = n) rgs))"

definition balanced_layout :: "primary_candidate list \<Rightarrow> nat \<Rightarrow> bool" where
  "balanced_layout rgs tolerance_pct \<longleftrightarrow>
     (let nodes = remdups (concat (map pc_peers rgs));
          total = sum_list (map (\<lambda>r. weight_of (pc_weight r)) rgs)
      in distinct (map pc_region_id rgs)
         \<and> list_all (\<lambda>r. pc_current r \<in> set (pc_peers r)
             \<and> current_led rgs (pc_current r) * (100 * length nodes) \<le> total * (100 + tolerance_pct)
             \<and> list_all (\<lambda>q. current_led rgs (pc_current r) \<le> current_led rgs q + weight_of (pc_weight r))
                 (pc_peers r)) rgs)"

lemma current_led_Cons:
  "current_led (r # rs) n = (if pc_current r = n then weight_of (pc_weight r) else 0) + current_led rs n"
  by (simp add: current_led_def)

lemma greedy_keeps:
  assumes "\<forall>r\<in>set rs. pc_current r \<in> set (pc_peers r)
      \<and> (load (pc_current r) + current_led rs (pc_current r)) * cap_den \<le> cap_num"
  shows "fold (greedy_step cap_num cap_den) rs (load, out) =
    (\<lambda>n. load n + current_led rs n, fold (\<lambda>r. hm_insert (pc_region_id r) (pc_current r)) rs out)"
  using assms
proof (induction rs arbitrary: load out)
  case Nil
  show ?case by (simp add: current_led_def)
next
  case (Cons r rs)
  let ?c = "pc_current r" and ?w = "weight_of (pc_weight r)"
  have "(load ?c + ?w) * cap_den \<le> (load ?c + current_led (r # rs) ?c) * cap_den"
    by (intro mult_le_mono1) (simp add: current_led_Cons)
  also have "\<dots> \<le> cap_num" using Cons.prems by simp
  finally have "choose_primary cap_num cap_den load r = ?c"
    using Cons.prems by (simp add: choose_primary_def Let_def)
  then have "greedy_step cap_num cap_den r (load, out) =
      (load(?c := load ?c + ?w), hm_insert (pc_region_id r) ?c out)"
    by (simp add: greedy_step_def Let_def)
  moreover have "\<forall>x\<in>set rs. pc_current x \<in> set (pc_peers x) \<and>
      ((load(?c := load ?c + ?w)) (pc_current x) + current_led rs (pc_current x)) * cap_den \<le> cap_num"
    using Cons.prems by (fastforce simp: current_led_Cons add.assoc)
  moreover have "(\<lambda>n. (load(?c := load ?c + ?w)) n + current_led rs n) =
      (\<lambda>n. load n + current_led (r # rs) n)"
    by (auto simp: current_led_Cons)
  ultimately show ?case
    using Cons.IH [of "load(?c := load ?c + ?w)" "hm_insert (pc_region_id r) ?c out"]
    by (simp del: fun_upd_apply)
qed

lemma current_led_order:
  assumes "\<forall>r\<in>set rgs. pc_peers r \<noteq> []"
  shows "current_led (primary_order rgs) n = current_led rgs n"
proof -
  have "mset (primary_order rgs) = mset rgs"
    using assms by (simp add: primary_order_def by_weight_then_id_def flip: mset_filter)
  then have "mset (filter (\<lambda>r. pc_current r = n) (primary_order rgs)) =
      mset (filter (\<lambda>r. pc_current r = n) rgs)"
    by (simp only: mset_filter)
  then have "sum_mset (image_mset (\<lambda>r. weight_of (pc_weight r))
      (mset (filter (\<lambda>r. pc_current r = n) (primary_order rgs)))) =
    sum_mset (image_mset (\<lambda>r. weight_of (pc_weight r)) (mset (filter (\<lambda>r. pc_current r = n) rgs)))"
    by simp
  then show ?thesis by (simp only: current_led_def mset_map [symmetric] sum_mset_sum_list)
qed

lemma run_until_stable_idle: "\<not> snd (pass s) \<Longrightarrow> fst (pass s) = s \<Longrightarrow> run_until_stable pass s = Some s"
  by (subst run_until_stable.simps) (simp add: case_prod_unfold)

lemma greedy_primaries_keeps:
  assumes "balanced_layout rgs tolerance_pct"
  shows "greedy_primaries rgs tolerance_pct =
    (current_led rgs, fold (\<lambda>r. hm_insert (pc_region_id r) (pc_current r)) (primary_order rgs) [])"
proof -
  have ne: "\<forall>r\<in>set rgs. pc_peers r \<noteq> []"
    using assms by (auto simp: balanced_layout_def Let_def list_all_iff)
  then have led: "current_led (primary_order rgs) n = current_led rgs n" for n
    by (rule current_led_order)
  show ?thesis
    using assms ne unfolding greedy_primaries_def Let_def
    by (subst greedy_keeps)
      (simp_all add: led balanced_layout_def Let_def list_all_iff primary_order_set)
qed

lemma balanced_layout_kept:
  assumes "balanced_layout rgs tolerance_pct"
  shows "\<exists>out. balance_primaries rgs tolerance_pct = Some out
    \<and> (\<forall>r\<in>set rgs. hm_get out (pc_region_id r) = Some (pc_current r))"
proof (cases "concat (map pc_peers rgs) = []")
  case True
  with assms show ?thesis
    by (auto simp: balance_primaries_def balanced_layout_def Let_def list_all_iff)
next
  case False
  let ?by = "candidates_by_id rgs"
    and ?out = "fold (\<lambda>r. hm_insert (pc_region_id r) (pc_current r)) (primary_order rgs) []"
  have dist: "distinct (map pc_region_id rgs)"
    and cur: "\<forall>r\<in>set rgs. pc_current r \<in> set (pc_peers r)"
    and opt: "\<forall>r\<in>set rgs. \<forall>q\<in>set (pc_peers r).
      current_led rgs (pc_current r) \<le> current_led rgs q + weight_of (pc_weight r)"
    using assms by (auto simp: balanced_layout_def Let_def list_all_iff)
  have order: "set (primary_order rgs) = set rgs"
    using cur by (auto simp: primary_order_set)
  have get: "hm_get ?out (pc_region_id r) = Some (pc_current r)" if "r \<in> set rgs" for r
    using that dist order
    by (intro hm_get_fold) (simp_all add: primary_order_def by_weight_then_id_def distinct_map_sort_filter)
  have inv: "primary_inv ?by (cand_ids rgs) (current_led rgs, ?out)"
    using greedy_primaries_inv [OF dist, of tolerance_pct]
    by (simp add: greedy_primaries_keeps [OF assms] cand_ids_def)
  have "improve_step ?by i ((current_led rgs, ?out), False) = ((current_led rgs, ?out), False)" for i
    using opt get
    by (cases rule: improve_step_cases [OF inv, of i False])
      (auto simp: candidates_by_id_get [OF dist] leD)
  then have "improve_pass ?by ids (current_led rgs, ?out) = ((current_led rgs, ?out), False)" for ids
    unfolding improve_pass_def by (intro primaries.idle_fold) simp
  then have "balance_primaries rgs tolerance_pct = Some ?out"
    using False by (simp add: balance_primaries_def greedy_primaries_keeps [OF assms] Let_def
        run_until_stable_idle del: concat_eq_Nil_conv)
  with get show ?thesis by blast
qed

section \<open>Properties\<close>

definition demo_cands :: "primary_candidate list" where
  "demo_cands =
     [\<lparr>pc_region_id = 1, pc_current = 7, pc_weight = 10, pc_peers = [7, 8]\<rparr>,
      \<lparr>pc_region_id = 2, pc_current = 8, pc_weight = 10, pc_peers = [7, 8]\<rparr>]"

definition demo_plan :: "region_plan_input list" where
  "demo_plan =
     [\<lparr>rp_region_id = 1, rp_current_peers = [7, 8], rp_current_primary = 7, rp_weight = 10,
       rp_hrw = [7, 8, 9]\<rparr>,
      \<lparr>rp_region_id = 2, rp_current_peers = [8], rp_current_primary = 8, rp_weight = 4,
       rp_hrw = [9, 8, 7]\<rparr>]"

text \<open>
  Balancing primaries always ends, chooses for every region with candidates one of its peers,
  and leaves no improving move: handing the region to any other of its peers would not make that
  peer less loaded than the chosen primary is now.
\<close>

theorem primaries_balanced:
  assumes "distinct (map pc_region_id rgs)"
  shows "\<exists>out. balance_primaries rgs tolerance_pct = Some out
    \<and> (\<forall>r\<in>set rgs. pc_peers r \<noteq> [] \<longrightarrow>
        (\<exists>p\<in>set (pc_peers r). hm_get out (pc_region_id r) = Some p \<and>
          (\<forall>q\<in>set (pc_peers r).
             led_weight rgs out p \<le> led_weight rgs out q + weight_of (pc_weight r))))"
  using balance_primaries_result [OF assms, of tolerance_pct] by blast

theorem primaries_balanced_witness:
  "\<exists>out. balance_primaries demo_cands 10 = Some out \<and> hm_get out 1 \<noteq> None"
proof -
  have "distinct (map pc_region_id demo_cands)" by (simp add: demo_cands_def)
  from primaries_balanced [OF this, of 10] show ?thesis by (auto simp: demo_cands_def)
qed

text \<open>
  Balancing does not flap: when every region's current primary is one of its peers, no node
  leads more than its fair share plus the tolerance, and no single handover would improve the
  layout, balancing returns the current primaries.
\<close>

theorem balanced_layout_stays:
  assumes "balanced_layout rgs tolerance_pct"
  shows "\<exists>out. balance_primaries rgs tolerance_pct = Some out
    \<and> (\<forall>r\<in>set rgs. hm_get out (pc_region_id r) = Some (pc_current r))"
  using assms by (rule balanced_layout_kept)

theorem balanced_layout_stays_witness:
  "\<exists>out. balance_primaries demo_cands 10 = Some out \<and> hm_get out 1 = Some 7 \<and> hm_get out 2 = Some 8"
proof -
  have "balanced_layout demo_cands 10" by code_simp
  from balanced_layout_stays [OF this] show ?thesis by (auto simp: demo_cands_def)
qed

text \<open>
  C34. Planning always ends with a target for every region that has candidates: distinct nodes, all
  of them candidates, as many as the replication factor or the number of candidates allows; and no
  copy can be moved to a node outside its set that carries two copies' weight less.
\<close>

theorem plan_replicas_balanced:
  assumes "plan_input_ok rgs"
  shows "\<exists>plan. plan_placement rgs rf tolerance_pct = Some plan \<and>
    (\<forall>r\<in>set rgs. rp_hrw r \<noteq> [] \<longrightarrow> (\<exists>t. hm_get plan (rp_region_id r) = Some t
      \<and> distinct t \<and> set t \<subseteq> set (rp_hrw r) \<and> length t = min rf (length (rp_hrw r)) \<and>
      (\<forall>p\<in>set t. \<forall>q\<in>set (rp_hrw r) - set t.
         held_weight rgs plan p < held_weight rgs plan q + 2 * weight_of (rp_weight r))))"
  using plan_copies [OF assms, of rf tolerance_pct] unfolding set_ok_def by blast

theorem plan_replicas_balanced_witness:
  "\<exists>plan t. plan_placement demo_plan 2 10 = Some plan \<and> hm_get plan 2 = Some t \<and> length t = 2"
proof -
  have "plan_input_ok demo_plan" by code_simp
  from plan_replicas_balanced [OF this, of 2 10] show ?thesis by (auto simp: demo_plan_def)
qed

text \<open>
  In every planned target the first node, the primary, is balanced as well: the weight it leads
  over all regions exceeds what any other member of the target leads by at most the weight of the
  region itself.
\<close>

theorem plan_primaries_balanced:
  assumes "plan_input_ok rgs"
  shows "\<exists>plan. plan_placement rgs rf tolerance_pct = Some plan \<and>
    (\<forall>r\<in>set rgs. \<forall>p rest. hm_get plan (rp_region_id r) = Some (p # rest) \<longrightarrow>
      (\<forall>q\<in>set (p # rest). plan_led rgs plan p \<le> plan_led rgs plan q + weight_of (rp_weight r)))"
  using assms by (rule plan_leaders)

theorem plan_primaries_balanced_witness:
  "\<exists>plan. plan_placement demo_plan 2 10 = Some plan \<and>
    (\<forall>p q. hm_get plan 1 = Some [p, q] \<longrightarrow> plan_led demo_plan plan p \<le> plan_led demo_plan plan q + 10)"
proof -
  have "plan_input_ok demo_plan" by code_simp
  from plan_primaries_balanced [OF this, of 2 10] show ?thesis
    by (fastforce simp: demo_plan_def weight_of_def)
qed

end
