(* ===== verification/Location_Cache.thy ===== *)
theory Location_Cache
  imports Shard_Log
begin

text \<open>
  The routing cache (\<^verbatim>\<open>hyperbytedb/src/domain/sharding/location_cache.rs\<close>): the routable view of a
  measurement's regions, in which a region that is still being copied answers under the identity
  of its donor, and the cache that keeps such views per measurement and map version. The lock
  around the cache is not modelled; every operation of the cache is one atomic step, and the steps
  of several callers, each with its own snapshot of the map, are interleaved below.
\<close>

section \<open>The routable view\<close>

text \<open>The walk to the first serving ancestor, with the number of hops left.\<close>

fun find_donor :: "(u64 \<Rightarrow> shard_region option) \<Rightarrow> nat \<Rightarrow> u64 option \<Rightarrow> shard_region option" where
  "find_donor by_id 0 cursor = None"
| "find_donor by_id (Suc hops) None = None"
| "find_donor by_id (Suc hops) (Some donor_id) =
     (case by_id donor_id of
        None \<Rightarrow> None
      | Some candidate \<Rightarrow>
          if is_serving candidate then Some candidate
          else find_donor by_id hops (staged_from candidate))"

definition regions_by_id :: "shard_region list \<Rightarrow> (u64, shard_region) hash_map" where
  "regions_by_id rs = fold (\<lambda>r. hm_insert (region_id r) r) rs []"

definition donor_identity :: "shard_region \<Rightarrow> shard_region \<Rightarrow> shard_region" where
  "donor_identity r d =
     \<lparr>region_id = region_id d, r_start = r_start r, r_end = r_end r, r_epoch = r_epoch d,
      peers = peers d, primary = primary d, last_split_at = last_split_at r,
      transfer_verified = None, transfer_first_seen = None, r_state = Serving,
      staged_from = None, staging_peers = []\<rparr>"

definition serving_view :: "shard_region list \<Rightarrow> shard_region \<Rightarrow> shard_region" where
  "serving_view rs r =
     (if is_serving r then r
      else case find_donor (hm_get (regions_by_id rs)) (length rs) (staged_from r) of
             Some d \<Rightarrow> donor_identity r d
           | None \<Rightarrow> r)"

definition materialise_serving :: "shard_region list \<Rightarrow> shard_region list" where
  "materialise_serving rs =
     (if list_all is_serving rs then rs else sort_key r_start (map (serving_view rs) rs))"

definition locate_in_regions :: "shard_region list \<Rightarrow> u64 \<Rightarrow> shard_region option" where
  "locate_in_regions rs sid =
     (if rs = [] then None
      else let idx = partition_point (\<lambda>r. r_start r \<le> sid) rs
           in if idx = 0 then None
              else let region = rs ! (idx - 1)
                   in if contains region sid then Some region else None)"

section \<open>The cache\<close>

record cached_measurement =
  cached_version :: u64
  cached_regions :: "shard_region list"

type_synonym cache_key = "string \<times> string \<times> string"

record cache_inner =
  cache_version :: u64
  by_measurement :: "(cache_key, cached_measurement) hash_map"

record region_route =
  route_region_id :: u64
  route_primary :: u64
  self_is_peer :: bool

definition new_cache :: cache_inner where
  "new_cache = \<lparr>cache_version = 0, by_measurement = []\<rparr>"

definition cache_space :: "shard_map \<Rightarrow> cache_key \<Rightarrow> measurement_shard_space \<Rightarrow> cache_inner \<Rightarrow> cache_inner" where
  "cache_space m k s c =
     c\<lparr>by_measurement := hm_insert k
         \<lparr>cached_version = map_version m, cached_regions = materialise_serving (regions s)\<rparr>
         (by_measurement c)\<rparr>"

definition raise_version :: "shard_map \<Rightarrow> cache_inner \<Rightarrow> cache_inner" where
  "raise_version m c = c\<lparr>cache_version := max (cache_version c) (map_version m)\<rparr>"

definition refresh_from_map :: "shard_map \<Rightarrow> cache_inner \<Rightarrow> cache_inner" where
  "refresh_from_map m c =
     fold (\<lambda>s. cache_space m (db (space_key s), rp (space_key s), measurement (space_key s)) s)
       (hm_values (spaces m)) (raise_version m c)"

definition refresh_measurement :: "shard_map \<Rightarrow> measurement_key \<Rightarrow> cache_inner \<Rightarrow> cache_inner" where
  "refresh_measurement m key c =
     (let c = raise_version m c;
          k = (db key, rp key, measurement key)
      in case map_space m (db key) (rp key) (measurement key) of
           Some s \<Rightarrow> cache_space m k s c
         | None \<Rightarrow> c\<lparr>by_measurement := hm_remove k (by_measurement c)\<rparr>)"

definition invalidate_all :: "cache_inner \<Rightarrow> cache_inner" where
  "invalidate_all c = c\<lparr>by_measurement := []\<rparr>"

definition invalidate_measurement :: "measurement_key \<Rightarrow> cache_inner \<Rightarrow> cache_inner" where
  "invalidate_measurement key c =
     c\<lparr>by_measurement := hm_remove (db key, rp key, measurement key) (by_measurement c)\<rparr>"

definition serving_regions ::
    "cache_inner \<Rightarrow> shard_map \<Rightarrow> string \<Rightarrow> string \<Rightarrow> string \<Rightarrow> shard_region list \<times> cache_inner" where
  "serving_regions c m d r mm =
     (let miss =
            (case map_space m d r mm of
               None \<Rightarrow> ([], c)
             | Some s \<Rightarrow>
                 (materialise_serving (regions s), cache_space m (d, r, mm) s (raise_version m c)))
      in case hm_get (by_measurement c) (d, r, mm) of
           Some cached \<Rightarrow>
             if cached_version cached = map_version m then (cached_regions cached, c) else miss
         | None \<Rightarrow> miss)"

text \<open>The answer a current cache entry gives, if there is one.\<close>

definition cache_hit :: "cache_inner \<Rightarrow> shard_map \<Rightarrow> string \<Rightarrow> string \<Rightarrow> string \<Rightarrow> u64 \<Rightarrow> shard_region option" where
  "cache_hit c m d r mm sid =
     (case hm_get (by_measurement c) (d, r, mm) of
        Some cached \<Rightarrow>
          if cached_version cached = map_version m
          then locate_in_regions (cached_regions cached) sid else None
      | None \<Rightarrow> None)"

definition fill_cache :: "cache_inner \<Rightarrow> shard_map \<Rightarrow> string \<Rightarrow> string \<Rightarrow> string \<Rightarrow> cache_inner" where
  "fill_cache c m d r mm =
     (case map_space m d r mm of
        Some s \<Rightarrow> cache_space m (d, r, mm) s (raise_version m c)
      | None \<Rightarrow> c)"

definition locate ::
    "cache_inner \<Rightarrow> shard_map \<Rightarrow> string \<Rightarrow> string \<Rightarrow> string \<Rightarrow> u64 \<Rightarrow> shard_region option \<times> cache_inner" where
  "locate c m d r mm sid =
     (case cache_hit c m d r mm sid of
        Some region \<Rightarrow> (Some region, c)
      | None \<Rightarrow>
          (case map_locate m d r mm sid of
             None \<Rightarrow> (None, c)
           | Some region \<Rightarrow> (Some region, fill_cache c m d r mm)))"

definition route_of :: "u64 \<Rightarrow> shard_region \<Rightarrow> region_route" where
  "route_of self_id region =
     \<lparr>route_region_id = region_id region, route_primary = primary region,
      self_is_peer = (self_id \<in> set (peers region))\<rparr>"

definition locate_route ::
    "cache_inner \<Rightarrow> shard_map \<Rightarrow> string \<Rightarrow> string \<Rightarrow> string \<Rightarrow> u64 \<Rightarrow> u64
     \<Rightarrow> region_route option \<times> cache_inner" where
  "locate_route c m d r mm sid self_id =
     (case cache_hit c m d r mm sid of
        Some region \<Rightarrow> (Some (route_of self_id region), c)
      | None \<Rightarrow>
          (case map_locate m d r mm sid of
             None \<Rightarrow> (None, c)
           | Some region \<Rightarrow> (Some (route_of self_id region), fill_cache c m d r mm)))"

definition check_epoch ::
    "cache_inner \<Rightarrow> shard_map \<Rightarrow> string \<Rightarrow> string \<Rightarrow> string \<Rightarrow> u64 \<Rightarrow> shard_epoch \<Rightarrow> bool" where
  "check_epoch c m d r mm sid e =
     (let uncached = (case map_locate m d r mm sid of Some region \<Rightarrow> r_epoch region = e | None \<Rightarrow> False)
      in case hm_get (by_measurement c) (d, r, mm) of
           Some cached \<Rightarrow>
             if cached_version cached = map_version m
             then (case locate_in_regions (cached_regions cached) sid of
                     Some region \<Rightarrow> r_epoch region = e
                   | None \<Rightarrow> False)
             else uncached
         | None \<Rightarrow> uncached)"

section \<open>The walk to the donor\<close>

lemma find_donor_None [simp]: "find_donor f n None = None"
  by (cases n) simp_all

lemma find_donor_serving: "find_donor f n c = Some d \<Longrightarrow> is_serving d \<and> (\<exists>i. f i = Some d)"
  by (induction f n c rule: find_donor.induct) (auto split: option.splits if_splits)

lemma find_donor_more: "find_donor f n c = Some d \<Longrightarrow> n \<le> k \<Longrightarrow> find_donor f k c = Some d"
proof (induction f n c arbitrary: k rule: find_donor.induct)
  case (3 f n i)
  then obtain k' where "k = Suc k'" by (cases k) auto
  with 3 show ?case by (auto split: option.splits if_splits)
qed simp_all

lemma find_donor_extend:
  "find_donor f n c = Some d \<Longrightarrow> (\<And>i r. f i = Some r \<Longrightarrow> g i = Some r) \<Longrightarrow> find_donor g n c = Some d"
  by (induction f n c rule: find_donor.induct) (auto split: option.splits if_splits)

lemma find_donor_avoid:
  "find_donor f n c = Some d \<Longrightarrow>
   find_donor (f(i := None)) n c = Some d \<or> (\<exists>k\<le>n. find_donor f k (Some i) = Some d)"
proof (induction f n c rule: find_donor.induct)
  case (3 f n j)
  show ?case
  proof (cases "j = i")
    case True
    with 3(2) show ?thesis by blast
  next
    case False
    with 3 show ?thesis
      by (auto split: option.splits if_splits intro: le_SucI)
  qed
qed simp_all

text \<open>
  The number of hops is enough: a walk that reaches a serving region at all reaches it within as
  many hops as there are regions, since a shortest walk never visits a region twice.
\<close>

lemma find_donor_bound:
  assumes "finite (dom f)" and "find_donor f n c = Some d"
  shows "find_donor f (card (dom f)) c = Some d"
  using assms
proof (induction "card (dom f)" arbitrary: f n c)
  case 0
  then have "dom f = {}" by simp
  moreover obtain i where "f i = Some d"
    using find_donor_serving [OF 0(3)] by blast
  ultimately show ?case by auto
next
  case (Suc m)
  define k where "k = (LEAST k. find_donor f k c = Some d)"
  have k: "find_donor f k c = Some d" and least: "\<And>j. find_donor f j c = Some d \<Longrightarrow> k \<le> j"
    unfolding k_def by (rule LeastI [of _ n], rule Suc.prems) (rule Least_le)
  obtain i k' where i: "c = Some i" "k = Suc k'"
    using k by (cases c; cases k) auto
  obtain r where r: "f i = Some r" using k i by (auto split: option.splits)
  show ?case
  proof (cases "is_serving r")
    case True
    with r i k Suc.hyps(2) [symmetric] show ?thesis by simp
  next
    case False
    with r i k have rest: "find_donor f k' (staged_from r) = Some d" by simp
    have "\<not> (\<exists>j\<le>k'. find_donor f j (Some i) = Some d)"
      using least i by fastforce
    then have avoid: "find_donor (f(i := None)) k' (staged_from r) = Some d"
      using find_donor_avoid [OF rest, of i] by blast
    have dom: "m = card (dom (f(i := None)))" "finite (dom (f(i := None)))"
      using Suc.hyps(2) Suc.prems(1) r by (auto simp: card_Diff_singleton domI)
    from Suc.hyps(1) [OF dom avoid] dom(1)
    have "find_donor f m (staged_from r) = Some d"
      by (auto intro: find_donor_extend split: if_splits)
    with r i False Suc.hyps(2) [symmetric] show ?thesis by simp
  qed
qed

lemma regions_by_id_get:
  assumes "distinct (map region_id rs)"
  shows "hm_get (regions_by_id rs) i = Some r \<longleftrightarrow> r \<in> set rs \<and> region_id r = i"
proof (cases "i \<in> region_id ` set rs")
  case True
  then obtain r' where r': "r' \<in> set rs" "region_id r' = i" by auto
  then have "hm_get (regions_by_id rs) i = Some r'"
    using hm_get_fold [OF hm_wf_Nil assms r'(1), of "\<lambda>r. r"] by (simp add: regions_by_id_def)
  with r' assms show ?thesis
    by (auto simp: distinct_map dest: inj_onD)
next
  case False
  then show ?thesis
    using hm_get_fold_other [OF hm_wf_Nil False, of "\<lambda>r. r"] by (auto simp: regions_by_id_def)
qed

lemma regions_by_id_card:
  assumes "distinct (map region_id rs)"
  shows "finite (dom (hm_get (regions_by_id rs)))" "card (dom (hm_get (regions_by_id rs))) = length rs"
proof -
  have "dom (hm_get (regions_by_id rs)) = set (map region_id rs)"
    by (auto simp: dom_def regions_by_id_get [OF assms])
  then show "finite (dom (hm_get (regions_by_id rs)))"
    and "card (dom (hm_get (regions_by_id rs))) = length rs"
    using distinct_card [OF assms] by simp_all
qed

section \<open>The view routes as the map does\<close>

lemma serving_view_range [simp]:
  "r_start (serving_view rs r) = r_start r" "r_end (serving_view rs r) = r_end r"
  by (auto simp: serving_view_def donor_identity_def split: option.splits)

lemma materialise_eq:
  assumes "sorted_regions rs"
  shows "materialise_serving rs = map (serving_view rs) rs"
proof (cases "list_all is_serving rs")
  case True
  then have "map (serving_view rs) rs = map (\<lambda>r. r) rs"
    by (intro map_cong) (auto simp: serving_view_def list_all_iff)
  with True show ?thesis by (simp add: materialise_serving_def)
next
  case False
  have "sort_key r_start (map (serving_view rs) rs) = map (serving_view rs) rs"
    using assms by (intro sort_key_id) (simp add: sorted_regions_def comp_def)
  with False show ?thesis by (simp add: materialise_serving_def)
qed

lemma locate_in_regions_list: "locate_in_regions = locate_list"
  by (simp add: fun_eq_iff locate_in_regions_def locate_list_def Let_def)

interpretation cache_lookup: region_lookup locate_in_regions
  unfolding locate_in_regions_list by (rule map_lookup.region_lookup_axioms)

lemma locate_list_map:
  assumes "\<And>r. r_start (f r) = r_start r" and "\<And>r. r_end (f r) = r_end r"
  shows "locate_list (map f rs) sid = map_option f (locate_list rs sid)"
proof (cases "partition_point (\<lambda>r. r_start r \<le> sid) rs")
  case 0
  then show ?thesis by (simp add: locate_list_def partition_point_def takeWhile_map comp_def assms)
next
  case (Suc i)
  have "length (takeWhile (\<lambda>r. r_start r \<le> sid) rs) \<le> length rs"
    by (rule length_takeWhile_le)
  with Suc have "i < length rs" by (simp add: partition_point_def)
  with Suc show ?thesis
    by (simp add: locate_list_def partition_point_def takeWhile_map comp_def assms contains_def)
qed

lemma locate_view:
  assumes "sorted_regions rs"
  shows "locate_in_regions (materialise_serving rs) sid = map_option (serving_view rs) (locate_list rs sid)"
  by (simp add: materialise_eq [OF assms] locate_in_regions_list locate_list_map)

section \<open>Coherence\<close>

text \<open>
  The log produces a history of maps with growing versions; callers of the cache hold any map of
  the history. A cache is coherent with a history when each entry is the view of the map whose
  version it carries.
\<close>

type_synonym history = "shard_map list"

definition versions_fall :: "history \<Rightarrow> bool" where
  "versions_fall ms = sorted_wrt (\<lambda>m m'. map_version m' < map_version m) ms"

definition entry_ok :: "history \<Rightarrow> cache_key \<Rightarrow> cached_measurement \<Rightarrow> bool" where
  "entry_ok ms k e =
     (\<exists>m\<in>set ms. \<exists>s. map_version m = cached_version e
        \<and> map_space m (fst k) (fst (snd k)) (snd (snd k)) = Some s
        \<and> cached_regions e = materialise_serving (regions s))"

definition cache_ok :: "history \<Rightarrow> cache_inner \<Rightarrow> bool" where
  "cache_ok ms c =
     (hm_wf (by_measurement c) \<and> (\<forall>k e. hm_get (by_measurement c) k = Some e \<longrightarrow> entry_ok ms k e))"

definition cache_state_ok :: "history \<times> cache_inner \<Rightarrow> bool" where
  "cache_state_ok = (\<lambda>(ms, c). ms \<noteq> [] \<and> versions_fall ms \<and> list_all map_inv ms \<and> cache_ok ms c)"

datatype cache_event =
    Commit shard_map_op
  | RefreshAll shard_map
  | RefreshOne shard_map measurement_key
  | InvalidateAll
  | InvalidateOne measurement_key
  | ServingRegions shard_map string string string
  | Locate shard_map string string string u64
  | LocateRoute shard_map string string string u64 u64

fun run_cache_event :: "cache_event \<Rightarrow> cache_inner \<Rightarrow> cache_inner" where
  "run_cache_event (Commit _) c = c"
| "run_cache_event (RefreshAll m) c = refresh_from_map m c"
| "run_cache_event (RefreshOne m key) c = refresh_measurement m key c"
| "run_cache_event InvalidateAll c = invalidate_all c"
| "run_cache_event (InvalidateOne key) c = invalidate_measurement key c"
| "run_cache_event (ServingRegions m d r mm) c = snd (serving_regions c m d r mm)"
| "run_cache_event (Locate m d r mm sid) c = snd (locate c m d r mm sid)"
| "run_cache_event (LocateRoute m d r mm sid self) c = snd (locate_route c m d r mm sid self)"

fun event_map :: "cache_event \<Rightarrow> shard_map option" where
  "event_map (RefreshAll m) = Some m"
| "event_map (RefreshOne m _) = Some m"
| "event_map (ServingRegions m _ _ _) = Some m"
| "event_map (Locate m _ _ _ _) = Some m"
| "event_map (LocateRoute m _ _ _ _ _) = Some m"
| "event_map _ = None"

inductive cache_step :: "history \<times> cache_inner \<Rightarrow> cache_event \<Rightarrow> history \<times> cache_inner \<Rightarrow> bool" where
  commit: "log_step m op m' \<Longrightarrow> map_version m \<noteq> u64_max \<Longrightarrow>
    cache_step (m # ms, c) (Commit op) (m' # m # ms, c)"
| use: "(\<And>op. e \<noteq> Commit op) \<Longrightarrow> (\<And>m. event_map e = Some m \<Longrightarrow> m \<in> set ms) \<Longrightarrow>
    cache_step (ms, c) e (ms, run_cache_event e c)"

inductive_cases cache_stepE: "cache_step s e s'"

lemma apply_arm_version: "map_version (fst (apply_arm m op)) = map_version m"
  by (cases op)
    (auto simp: bootstrap_presplit_def bootstrap_measurement_def install_space_def apply_split_def
      apply_merge_def drop_space_def with_region_def Let_def split: option.splits sum.splits list.splits)

lemma log_step_version:
  assumes "log_step m op m'" and "map_version m \<noteq> u64_max"
  shows "map_version m < map_version m'"
  using assms apply_arm_version [of "m\<lparr>map_version := saturating_add (map_version m) 1\<rparr>" op]
    saturating_add_1_gt [of "map_version m"]
  by (simp add: log_step_def apply_shard_map_op_def)

lemma cache_space_ok:
  assumes "cache_ok ms c" and "m \<in> set ms" and "map_space m d r mm = Some s"
  shows "cache_ok ms (cache_space m (d, r, mm) s c)"
  using assms by (auto simp: cache_ok_def cache_space_def hm.get_ins hm.wf_ins entry_ok_def)

lemma raise_version_ok [simp]: "cache_ok ms (raise_version m c) = cache_ok ms c"
  by (simp add: cache_ok_def raise_version_def)

lemma cache_remove_ok:
  "cache_ok ms c \<Longrightarrow> cache_ok ms (c\<lparr>by_measurement := hm_remove k (by_measurement c)\<rparr>)"
  by (auto simp: cache_ok_def hm.get_rem hm.wf_rem split: if_splits)

lemma refresh_from_map_ok:
  assumes "cache_ok ms c" and "m \<in> set ms" and "map_inv m"
  shows "cache_ok ms (refresh_from_map m c)"
proof -
  have "cache_ok ms (fold (\<lambda>s. cache_space m (db (space_key s), rp (space_key s), measurement (space_key s)) s)
      ss c')" if "cache_ok ms c'" "set ss \<subseteq> set (hm_values (spaces m))" for ss c'
    using that
  proof (induction ss arbitrary: c')
    case (Cons s ss)
    from Cons.prems(2) obtain k where k: "hm_get (spaces m) k = Some s"
      by (auto simp: hm_values_get [OF map_invD(1) [OF assms(3)]])
    with map_invD(2) [OF assms(3)] have "space_key s = k" by (auto simp: space_inv_def)
    with k have "map_space m (db (space_key s)) (rp (space_key s)) (measurement (space_key s)) = Some s"
      by (cases k) (simp add: map_space_def)
    from cache_space_ok [OF Cons.prems(1) assms(2) this] Cons show ?case by simp
  qed simp
  then show ?thesis using assms(1) by (simp add: refresh_from_map_def)
qed

lemma fill_cache_ok: "cache_ok ms c \<Longrightarrow> m \<in> set ms \<Longrightarrow> cache_ok ms (fill_cache c m d r mm)"
  by (auto simp: fill_cache_def cache_space_ok split: option.splits)

lemma run_cache_event_ok:
  assumes "cache_ok ms c" and "list_all map_inv ms" and "\<And>m. event_map e = Some m \<Longrightarrow> m \<in> set ms"
  shows "cache_ok ms (run_cache_event e c)"
proof (cases e)
  case (RefreshAll m)
  with assms show ?thesis by (auto simp: list_all_iff intro: refresh_from_map_ok)
next
  case InvalidateAll
  then show ?thesis by (simp add: cache_ok_def invalidate_all_def)
qed (use assms in \<open>auto simp: refresh_measurement_def serving_regions_def locate_def locate_route_def
    invalidate_measurement_def Let_def cache_space_ok cache_remove_ok fill_cache_ok split: option.splits\<close>)

interpretation cached: transition_system
  "\<lambda>s. s = ([default_shard_map], new_cache)" cache_step cache_state_ok
proof
  fix s :: "history \<times> cache_inner"
  assume "s = ([default_shard_map], new_cache)"
  then show "cache_state_ok s"
    by (simp add: cache_state_ok_def versions_fall_def map_inv_default cache_ok_def new_cache_def)
next
  fix s e s'
  assume inv: "cache_state_ok s" and step: "cache_step s e s'"
  from step show "cache_state_ok s'"
  proof cases
    case (commit m op m' ms c)
    have "map_version m < map_version m'" using commit by (intro log_step_version)
    moreover have "map_inv m'"
      using inv commit by (auto simp: cache_state_ok_def log_step_def intro: apply_inv)
    ultimately show ?thesis
      using inv commit
      by (auto simp: cache_state_ok_def versions_fall_def cache_ok_def entry_ok_def intro: less_trans)
  next
    case (use ms c)
    then show ?thesis
      using inv run_cache_event_ok [of ms c e] by (auto simp: cache_state_ok_def)
  qed
qed

lemma same_version_same_map:
  assumes "versions_fall ms" and "m \<in> set ms" and "m' \<in> set ms" and "map_version m = map_version m'"
  shows "m = m'"
  using assms by (induction ms) (auto simp: versions_fall_def)

lemma cache_entry_current:
  assumes "cache_state_ok (ms, c)" and "m \<in> set ms"
    and "hm_get (by_measurement c) (d, r, mm) = Some e" and "cached_version e = map_version m"
  shows "\<exists>s. map_space m d r mm = Some s \<and> cached_regions e = materialise_serving (regions s)"
proof -
  from assms(1,3) obtain m' s where m': "m' \<in> set ms" "map_version m' = cached_version e"
    "map_space m' d r mm = Some s" "cached_regions e = materialise_serving (regions s)"
    by (fastforce simp: cache_state_ok_def cache_ok_def entry_ok_def)
  have "m' = m"
    using same_version_same_map [of ms m' m] m'(1,2) assms by (simp add: cache_state_ok_def)
  with m' show ?thesis by blast
qed

section \<open>Properties\<close>

definition staged_space :: measurement_shard_space where
  "staged_space =
     \<lparr>space_key = demo_key,
      regions = [demo_region 1 0 100 [1] 1,
                 (demo_region 2 100 u64_max [2] 2)\<lparr>r_state := Staging, staged_from := Some 1\<rparr>]\<rparr>"

definition staged_map :: shard_map where
  "staged_map = default_shard_map\<lparr>spaces := [(demo_key, staged_space)]\<rparr>"

text \<open>
  The routable view of a well-formed space sends every series id to exactly the range the map
  sends it to. A serving region answers for itself. A region still being copied answers under the
  id, epoch, peers and primary of a serving region of the space, and is left as it is only when no
  chain of donors, however long, leads to a serving region.
\<close>

theorem serving_view_routes:
  assumes "space_ok s" and "sid < u64_max"
  shows "\<exists>r v. space_locate s sid = Some r
    \<and> locate_in_regions (materialise_serving (regions s)) sid = Some v
    \<and> r_start v = r_start r \<and> r_end v = r_end r \<and> contains v sid
    \<and> (is_serving r \<longrightarrow> v = r)
    \<and> (\<not> is_serving r \<longrightarrow>
        (\<exists>d\<in>set (regions s). is_serving d \<and> is_serving v \<and> region_id v = region_id d
           \<and> r_epoch v = r_epoch d \<and> peers v = peers d \<and> primary v = primary d)
        \<or> (v = r \<and> (\<forall>n. find_donor (hm_get (regions_by_id (regions s))) n (staged_from r) = None)))"
proof -
  obtain r where r: "space_locate s sid = Some r" "contains r sid"
    using space_locate_total [OF assms] space_locate_iff [OF assms] by metis
  let ?f = "hm_get (regions_by_id (regions s))" and ?v = "serving_view (regions s) r"
  have dist: "distinct (map region_id (regions s))" and sorted: "sorted_regions (regions s)"
    using assms(1) by (auto simp: space_ok_def)
  have v: "locate_in_regions (materialise_serving (regions s)) sid = Some ?v"
    using r(1) by (simp add: locate_view [OF sorted] space_locate_regions)
  have "(\<exists>d\<in>set (regions s). is_serving d \<and> is_serving ?v \<and> region_id ?v = region_id d
           \<and> r_epoch ?v = r_epoch d \<and> peers ?v = peers d \<and> primary ?v = primary d)
        \<or> (?v = r \<and> (\<forall>n. find_donor ?f n (staged_from r) = None))" if ns: "\<not> is_serving r"
  proof (cases "find_donor ?f (length (regions s)) (staged_from r)")
    case None
    have "find_donor ?f n (staged_from r) = None" for n
      using find_donor_bound [OF regions_by_id_card(1) [OF dist], of n "staged_from r"] None
      by (cases "find_donor ?f n (staged_from r)") (simp_all add: regions_by_id_card(2) [OF dist])
    with ns None show ?thesis by (simp add: serving_view_def)
  next
    case (Some d)
    with find_donor_serving [OF Some] ns show ?thesis
      by (auto simp: regions_by_id_get [OF dist] serving_view_def donor_identity_def is_serving_def)
  qed
  moreover have "is_serving r \<Longrightarrow> ?v = r" by (simp add: serving_view_def)
  ultimately show ?thesis
    using r v by (intro exI [of _ r] exI [of _ ?v]) (simp add: contains_def)
qed

theorem serving_view_routes_witness:
  "\<exists>v. locate_in_regions (materialise_serving (regions staged_space)) 150 = Some v \<and> contains v 150"
proof -
  have "space_ok staged_space"
    by (simp add: staged_space_def space_ok_def demo_region_def sorted_regions_def)
  moreover have "(150 :: u64) < u64_max" by simp
  ultimately show ?thesis using serving_view_routes [of staged_space 150] by blast
qed

text \<open>
  C35. However commits, refreshes, invalidations and lookups by callers with older snapshots are
  interleaved, the regions the cache hands out for a map of the history are the routable view of
  that map's space: never the view of another version.
\<close>

theorem cached_regions_coherent:
  assumes "cached.reachable (ms, c)" and "m \<in> set ms"
  shows "fst (serving_regions c m d r mm) =
    (case map_space m d r mm of None \<Rightarrow> [] | Some s \<Rightarrow> materialise_serving (regions s))"
  using cache_entry_current [OF cached.reachable_inv [OF assms(1)] assms(2)]
  by (fastforce simp: serving_regions_def Let_def split: option.splits)

lemma cached_start: "cached.reachable ([default_shard_map], new_cache)"
  by (rule cached.reachable_init) simp

lemma cached_demo: "cached.reachable ([demo_map, default_shard_map], new_cache)"
proof (rule cached.reachable_step [OF cached_start])
  show "cache_step ([default_shard_map], new_cache)
      (Commit (BootstrapMeasurement demo_key (demo_region 1 0 u64_max [1, 2] 1)))
      ([demo_map, default_shard_map], new_cache)"
  proof (rule cache_step.commit)
    show "log_step default_shard_map
        (BootstrapMeasurement demo_key (demo_region 1 0 u64_max [1, 2] 1)) demo_map"
      by code_simp
    show "map_version default_shard_map \<noteq> u64_max" by (simp add: default_shard_map_def)
  qed
qed

text \<open>A cache filled from the map before a split, read after the split with both maps.\<close>

definition warm_cache :: cache_inner where
  "warm_cache = refresh_from_map demo_map new_cache"

lemma cached_split: "cached.reachable ([demo_split_map, demo_map, default_shard_map], warm_cache)"
proof -
  have "cache_step ([demo_map, default_shard_map], new_cache) (RefreshAll demo_map)
      ([demo_map, default_shard_map], run_cache_event (RefreshAll demo_map) new_cache)"
    by (rule cache_step.use) auto
  from cached.reachable_step [OF cached_demo this]
  have warm: "cached.reachable ([demo_map, default_shard_map], warm_cache)" by (simp add: warm_cache_def)
  have "log_step demo_map (Split demo_key 1 100 default_epoch (demo_region 1 0 100 [1, 2] 1)
      (demo_region 0 100 u64_max [2, 3] 2)) demo_split_map"
    by code_simp
  from cached.reachable_step [OF warm cache_step.commit [OF this]] show ?thesis by (simp add: demo_map_eq)
qed

theorem cached_regions_coherent_witness:
  "map r_end (fst (serving_regions warm_cache demo_map ''d'' ''r'' ''cpu'')) = [u64_max]
   \<and> map r_end (fst (serving_regions warm_cache demo_split_map ''d'' ''r'' ''cpu'')) = [100, u64_max]"
proof -
  let ?view = "\<lambda>m. case map_space m ''d'' ''r'' ''cpu'' of None \<Rightarrow> [] | Some s \<Rightarrow> materialise_serving (regions s)"
  have "map r_end (?view demo_map) = [u64_max]" "map r_end (?view demo_split_map) = [100, u64_max]" by code_simp+
  then show ?thesis
    using cached_regions_coherent [OF cached_split, of demo_map "''d''" "''r''" "''cpu''"]
      cached_regions_coherent [OF cached_split, of demo_split_map "''d''" "''r''" "''cpu''"]
    by simp
qed

lemma cache_hit_view:
  assumes "cache_state_ok (ms, c)" and "m \<in> set ms" and "cache_hit c m d r mm sid = Some v"
  shows "\<exists>s. map_space m d r mm = Some s \<and>
    locate_in_regions (materialise_serving (regions s)) sid = Some v"
  using assms(3) cache_entry_current [OF assms(1,2), of d r mm]
  by (auto simp: cache_hit_def split: option.splits if_splits)

lemma cache_hit_filled:
  assumes "map_space m d r mm = Some s" and "hm_wf (by_measurement c)"
  shows "cache_hit (fill_cache c m d r mm) m d r mm sid =
    locate_in_regions (materialise_serving (regions s)) sid"
  using assms
  by (simp add: cache_hit_def fill_cache_def cache_space_def raise_version_def hm.get_ins)

text \<open>
  A lookup through the cache always finds the range of the series id, under one of two
  identities: the region of the map, or its routable view. Once a lookup has filled the cache, the
  same lookup answers with the routable view.
\<close>

theorem cached_locate_answers:
  assumes "cached.reachable (ms, c)" and "m \<in> set ms" and "map_space m d r mm = Some s"
    and "sid < u64_max"
  shows "\<exists>raw view got c'. space_locate s sid = Some raw
    \<and> locate_in_regions (materialise_serving (regions s)) sid = Some view
    \<and> locate c m d r mm sid = (Some got, c') \<and> got \<in> {raw, view} \<and> contains got sid
    \<and> fst (locate c' m d r mm sid) = Some view"
proof -
  note inv = cached.reachable_inv [OF assms(1)]
  have mi: "map_inv m" and wf: "hm_wf (by_measurement c)"
    using inv assms(2) by (auto simp: cache_state_ok_def list_all_iff cache_ok_def)
  have sp: "space_ok s"
    using map_invD(2) [OF mi] assms(3) by (auto simp: map_space_def space_inv_def)
  have sorted: "sorted_regions (regions s)" using sp by (simp add: space_ok_def)
  obtain raw where raw: "space_locate s sid = Some raw" "contains raw sid"
    using space_locate_total [OF sp assms(4)] space_locate_iff [OF sp assms(4)] by metis
  let ?view = "serving_view (regions s) raw"
  have view: "locate_in_regions (materialise_serving (regions s)) sid = Some ?view"
    using raw(1) by (simp add: locate_view [OF sorted] space_locate_regions)
  have map: "map_locate m d r mm sid = Some raw"
    using assms(3) raw(1) by (simp add: map_locate_def map_space_def)
  have con: "contains ?view sid" using raw(2) by (simp add: contains_def)
  show ?thesis
  proof (cases "cache_hit c m d r mm sid")
    case (Some v)
    have "v = ?view" using cache_hit_view [OF inv assms(2) Some] assms(3) view by simp
    with Some raw view con show ?thesis by (simp add: locate_def)
  next
    case None
    have "fst (locate (fill_cache c m d r mm) m d r mm sid) = Some ?view"
      using cache_hit_filled [OF assms(3) wf] view by (simp add: locate_def)
    with None map raw view con show ?thesis by (simp add: locate_def)
  qed
qed

theorem cached_locate_answers_witness:
  "\<exists>v. fst (locate new_cache demo_map ''d'' ''r'' ''cpu'' 7) = Some v \<and> contains v 7"
proof -
  obtain s where s: "map_space demo_map ''d'' ''r'' ''cpu'' = Some s"
    by (simp add: demo_map_eq map_space_def hm_get_def demo_defs)
  have "demo_map \<in> set [demo_map, default_shard_map]" "(7 :: u64) < u64_max" by simp_all
  from cached_locate_answers [OF cached_demo this(1) s this(2)] show ?thesis
    by (metis fst_conv)
qed

lemma staged_map_inv: "map_inv staged_map"
  by (rule map_invI)
    (auto simp: staged_map_def staged_space_def hm_wf_def hm_get_def space_inv_def space_ok_def region_ok_def
      demo_defs sorted_regions_def split: if_splits)

text \<open>
  A lookup on a cold cache does not go through the routable view: for a region that is still
  being copied it answers with that region, while the next lookup, now from the cache, answers
  with the donor. The same series id is routed to two regions within one map version.
\<close>

theorem cold_lookup_offers_staging_region:
  "map_option (\<lambda>r. (region_id r, is_serving r))
     (fst (locate new_cache staged_map ''d'' ''r'' ''cpu'' 150)) = Some (2, False)
   \<and> map_option (\<lambda>r. (region_id r, is_serving r))
       (fst (locate (snd (locate new_cache staged_map ''d'' ''r'' ''cpu'' 150))
          staged_map ''d'' ''r'' ''cpu'' 150)) = Some (1, True)
   \<and> map_inv staged_map"
proof -
  have "map_option (\<lambda>r. (region_id r, is_serving r))
      (fst (locate new_cache staged_map ''d'' ''r'' ''cpu'' 150)) = Some (2, False)"
    "map_option (\<lambda>r. (region_id r, is_serving r))
      (fst (locate (snd (locate new_cache staged_map ''d'' ''r'' ''cpu'' 150))
        staged_map ''d'' ''r'' ''cpu'' 150)) = Some (1, True)"
    by code_simp+
  with staged_map_inv show ?thesis by blast
qed

end
