(* ===== verification/Membership.thy ===== *)
theory Membership
  imports HB_Prelude
begin

text \<open>
  Cluster membership (\<^verbatim>\<open>hyperbytedb/src/domain/cluster/membership.rs\<close>) and the prober that moves each
  peer's state towards what the peer reports of itself
  (\<^verbatim>\<open>hyperbytedb/src/application/cluster/heartbeat.rs\<close>). The transport is not modelled: a probe's
  outcome is the \<open>probe_signal\<close> it produced. Decoding a health body is a parameter, the two fields
  that \<open>serde_json\<close> finds in the text.
\<close>

section \<open>Nodes\<close>

datatype node_state = Joining | Syncing | Active | Disconnected | Draining | Decommissioning | Leaving

fun state_display :: "node_state \<Rightarrow> string" where
  "state_display Joining = ''joining''"
| "state_display Syncing = ''syncing''"
| "state_display Active = ''active''"
| "state_display Disconnected = ''disconnected''"
| "state_display Draining = ''draining''"
| "state_display Decommissioning = ''decommissioning''"
| "state_display Leaving = ''leaving''"

definition state_from_str :: "string \<Rightarrow> node_state option" where
  "state_from_str s =
     (if s = ''joining'' then Some Joining
      else if s = ''syncing'' then Some Syncing
      else if s = ''active'' then Some Active
      else if s = ''disconnected'' then Some Disconnected
      else if s = ''draining'' then Some Draining
      else if s = ''decommissioning'' then Some Decommissioning
      else if s = ''leaving'' then Some Leaving
      else None)"

record node_info =
  node_id :: u64
  addr :: string
  node_state :: node_state
  joined_at :: int
  last_heartbeat :: int
  needs_sync :: bool
  consecutive_misses :: u32

record cluster_membership =
  member_version :: u64
  nodes :: "(u64, node_info) hash_map"

definition new_membership :: cluster_membership where
  "new_membership = \<lparr>member_version = 0, nodes = []\<rparr>"

section \<open>Operations\<close>

definition add_node :: "node_info \<Rightarrow> cluster_membership \<Rightarrow> cluster_membership" where
  "add_node info m =
     m\<lparr>nodes := hm_insert (node_id info) info (nodes m), member_version := member_version m + 1\<rparr>"

definition remove_node :: "u64 \<Rightarrow> cluster_membership \<Rightarrow> cluster_membership" where
  "remove_node i m = m\<lparr>nodes := hm_remove i (nodes m), member_version := member_version m + 1\<rparr>"

text \<open>\<open>get_mut\<close> of a node: change it in place if it is there.\<close>

definition with_node :: "u64 \<Rightarrow> (node_info \<Rightarrow> node_info) \<Rightarrow> cluster_membership \<Rightarrow> cluster_membership" where
  "with_node i f m =
     (case hm_get (nodes m) i of
        Some n \<Rightarrow> m\<lparr>nodes := hm_insert i (f n) (nodes m)\<rparr>
      | None \<Rightarrow> m)"

definition set_state :: "u64 \<Rightarrow> node_state \<Rightarrow> cluster_membership \<Rightarrow> cluster_membership \<times> bool" where
  "set_state i st m =
     (case hm_get (nodes m) i of
        Some n \<Rightarrow>
          (m\<lparr>nodes := hm_insert i (n\<lparr>node_state := st\<rparr>) (nodes m),
             member_version := member_version m + 1\<rparr>, True)
      | None \<Rightarrow> (m, False))"

definition update_heartbeat :: "u64 \<Rightarrow> int \<Rightarrow> cluster_membership \<Rightarrow> cluster_membership" where
  "update_heartbeat i ts = with_node i (\<lambda>n. n\<lparr>last_heartbeat := ts\<rparr>)"

fun legal_transition :: "node_state \<Rightarrow> node_state \<Rightarrow> bool" where
  "legal_transition Decommissioning Leaving = True"
| "legal_transition Decommissioning _ = False"
| "legal_transition Leaving _ = False"
| "legal_transition _ _ = True"

definition transition :: "u64 \<Rightarrow> node_state \<Rightarrow> cluster_membership \<Rightarrow> cluster_membership \<times> bool" where
  "transition i st m =
     (case hm_get (nodes m) i of
        None \<Rightarrow> (m, False)
      | Some n \<Rightarrow> if legal_transition (node_state n) st then set_state i st m else (m, False))"

definition complete_sync_to_active :: "u64 \<Rightarrow> cluster_membership \<Rightarrow> cluster_membership \<times> bool" where
  "complete_sync_to_active i m =
     (case hm_get (nodes m) i of
        None \<Rightarrow> (m, False)
      | Some n \<Rightarrow>
          if node_state n = Decommissioning \<or> node_state n = Leaving then (m, False)
          else set_state i Active m)"

definition begin_sync_to_syncing :: "u64 \<Rightarrow> cluster_membership \<Rightarrow> cluster_membership \<times> bool" where
  "begin_sync_to_syncing i m =
     (case hm_get (nodes m) i of
        None \<Rightarrow> (m, False)
      | Some n \<Rightarrow>
          if node_state n = Decommissioning \<or> node_state n = Leaving then (m, False)
          else set_state i Syncing m)"

definition record_probe_miss :: "u64 \<Rightarrow> cluster_membership \<Rightarrow> cluster_membership \<times> u32" where
  "record_probe_miss i m =
     (case hm_get (nodes m) i of
        Some n \<Rightarrow>
          (let k = saturating_add (consecutive_misses n) 1
           in (m\<lparr>nodes := hm_insert i (n\<lparr>consecutive_misses := k\<rparr>) (nodes m)\<rparr>, k))
      | None \<Rightarrow> (m, 0))"

definition record_probe_success :: "u64 \<Rightarrow> cluster_membership \<Rightarrow> cluster_membership" where
  "record_probe_success i =
     with_node i (\<lambda>n. n\<lparr>consecutive_misses := saturating_sub (consecutive_misses n) 1\<rparr>)"

definition set_needs_sync :: "u64 \<Rightarrow> bool \<Rightarrow> cluster_membership \<Rightarrow> cluster_membership" where
  "set_needs_sync i needs = with_node i (\<lambda>n. n\<lparr>needs_sync := needs\<rparr>)"

definition active_peers :: "cluster_membership \<Rightarrow> u64 \<Rightarrow> node_info list" where
  "active_peers m exclude_id =
     filter (\<lambda>n. node_id n \<noteq> exclude_id \<and> node_state n = Active) (hm_values (nodes m))"

definition replication_peers :: "cluster_membership \<Rightarrow> u64 \<Rightarrow> node_info list" where
  "replication_peers m exclude_id =
     filter (\<lambda>n. node_id n \<noteq> exclude_id
         \<and> \<not> (node_state n = Decommissioning \<or> node_state n = Leaving)) (hm_values (nodes m))"

definition all_peers :: "cluster_membership \<Rightarrow> u64 \<Rightarrow> node_info list" where
  "all_peers m exclude_id = filter (\<lambda>n. node_id n \<noteq> exclude_id) (hm_values (nodes m))"

definition get_node :: "cluster_membership \<Rightarrow> u64 \<Rightarrow> node_info option" where
  "get_node m i = hm_get (nodes m) i"

definition next_node_id :: "cluster_membership \<Rightarrow> u64" where
  "next_node_id m = (case hm_keys (nodes m) of [] \<Rightarrow> 1 | k # ks \<Rightarrow> fold max ks k + 1)"

definition node_is_serving :: "node_info \<Rightarrow> bool" where
  "node_is_serving n = (node_state n = Active)"

definition holds_placement :: "node_info \<Rightarrow> bool" where
  "holds_placement n = (node_state n = Active \<or> node_state n = Draining \<or> node_state n = Disconnected)"

definition is_departing :: "node_info \<Rightarrow> bool" where
  "is_departing n = (node_state n = Decommissioning \<or> node_state n = Leaving)"

section \<open>The prober\<close>

record health_body =
  hb_state :: "node_state option"
  hb_needs_sync :: "bool option"

definition health_parse :: "(string \<Rightarrow> (string option \<times> bool option) option) \<Rightarrow> string \<Rightarrow> health_body option" where
  "health_parse json text =
     (case json text of
        None \<Rightarrow> None
      | Some (st, needs) \<Rightarrow>
          (let st = (case st of None \<Rightarrow> None | Some s \<Rightarrow> state_from_str s)
           in if st = None \<and> needs = None then None
              else Some \<lparr>hb_state = st, hb_needs_sync = needs\<rparr>))"

definition health_ready :: "health_body \<Rightarrow> bool" where
  "health_ready b = (hb_state b = Some Active \<and> hb_needs_sync b \<noteq> Some True)"

datatype probe_signal = Unreachable | Response bool "health_body option"

definition reports_ready :: "bool \<Rightarrow> health_body \<Rightarrow> bool" where
  "reports_ready sync_gates_readmit b =
     (health_ready b \<or> \<not> sync_gates_readmit \<and> hb_state b = Some Active)"

definition mirror_report :: "node_state \<Rightarrow> bool \<Rightarrow> health_body \<Rightarrow> node_state option" where
  "mirror_report current gates b =
     (let promoted = (if reports_ready gates b then Some Active else None)
      in case current of
           Disconnected \<Rightarrow>
             (case hb_state b of
                Some Decommissioning \<Rightarrow> Some Decommissioning
              | Some Leaving \<Rightarrow> Some Leaving
              | Some Draining \<Rightarrow> Some Draining
              | Some Syncing \<Rightarrow> Some Syncing
              | _ \<Rightarrow> promoted)
         | Syncing \<Rightarrow> promoted
         | Active \<Rightarrow>
             (case hb_state b of
                Some Syncing \<Rightarrow> Some Syncing
              | Some Draining \<Rightarrow> Some Draining
              | Some Decommissioning \<Rightarrow> Some Decommissioning
              | Some Leaving \<Rightarrow> Some Leaving
              | _ \<Rightarrow> None)
         | Draining \<Rightarrow> promoted
         | Decommissioning \<Rightarrow> None
         | Leaving \<Rightarrow> None
         | Joining \<Rightarrow> promoted)"

definition decide_transition_with ::
    "node_state \<Rightarrow> probe_signal \<Rightarrow> u32 \<Rightarrow> u32 \<Rightarrow> bool \<Rightarrow> node_state option" where
  "decide_transition_with current signal misses miss_threshold gates =
     (case signal of
        Unreachable \<Rightarrow>
          if (current = Active \<or> current = Syncing) \<and> miss_threshold \<le> misses
          then Some Disconnected else None
      | Response _ None \<Rightarrow> if current = Disconnected then Some Active else None
      | Response _ (Some b) \<Rightarrow> mirror_report current gates b)"

definition apply_decision :: "u64 \<Rightarrow> (node_state \<Rightarrow> node_state option) \<Rightarrow> cluster_membership \<Rightarrow> cluster_membership" where
  "apply_decision pid decide m =
     (case get_node m pid of
        None \<Rightarrow> m
      | Some n \<Rightarrow>
          (case decide (node_state n) of
             None \<Rightarrow> m
           | Some next \<Rightarrow> if next \<noteq> node_state n then fst (set_state pid next m) else m))"

definition apply_probe ::
    "u32 \<Rightarrow> bool \<Rightarrow> int \<Rightarrow> u64 \<times> probe_signal \<Rightarrow> cluster_membership \<Rightarrow> cluster_membership" where
  "apply_probe miss_threshold gates now = (\<lambda>(pid, signal) m.
     case signal of
       Unreachable \<Rightarrow>
         (let (m, misses) = record_probe_miss pid m
          in apply_decision pid
               (\<lambda>st. decide_transition_with st signal misses miss_threshold gates) m)
     | Response _ _ \<Rightarrow>
         (let m = record_probe_success pid (update_heartbeat pid now m)
          in apply_decision pid
               (\<lambda>st. decide_transition_with st signal 0 miss_threshold gates) m))"

text \<open>One tick of the prober: every peer is probed, and the outcomes are applied in order.\<close>

definition probe_peers ::
    "(u64 \<Rightarrow> string \<Rightarrow> probe_signal) \<Rightarrow> u64 \<Rightarrow> u32 \<Rightarrow> bool \<Rightarrow> int \<Rightarrow> cluster_membership \<Rightarrow> cluster_membership" where
  "probe_peers probe self_id miss_threshold gates now m =
     fold (apply_probe miss_threshold gates now)
       (map (\<lambda>n. (node_id n, probe (node_id n) (addr n))) (all_peers m self_id)) m"

section \<open>Operations seen from one node\<close>

definition member_wf :: "cluster_membership \<Rightarrow> bool" where
  "member_wf m =
     (hm_wf (nodes m) \<and> (\<forall>i n. hm_get (nodes m) i = Some n \<longrightarrow> node_id n = i))"

lemma with_node_get:
  "hm_wf (nodes m) \<Longrightarrow> hm_get (nodes (with_node i f m)) j =
     (if j = i then map_option f (hm_get (nodes m) j) else hm_get (nodes m) j)"
  by (auto simp: with_node_def hm.get_ins split: option.splits)

lemma set_state_get:
  "hm_wf (nodes m) \<Longrightarrow> hm_get (nodes (fst (set_state i st m))) j =
     (if j = i then map_option (\<lambda>n. n\<lparr>node_state := st\<rparr>) (hm_get (nodes m) j)
      else hm_get (nodes m) j)"
  by (auto simp: set_state_def hm.get_ins split: option.splits)

lemma record_miss_get:
  "hm_wf (nodes m) \<Longrightarrow> hm_get (nodes (fst (record_probe_miss i m))) j =
     (if j = i then map_option (\<lambda>n. n\<lparr>consecutive_misses := saturating_add (consecutive_misses n) 1\<rparr>)
        (hm_get (nodes m) j)
      else hm_get (nodes m) j)"
  by (auto simp: record_probe_miss_def hm.get_ins Let_def split: option.splits)

lemma member_hm_wf [simp]:
  "hm_wf (nodes m) \<Longrightarrow> hm_wf (nodes (with_node i f m))"
  "hm_wf (nodes m) \<Longrightarrow> hm_wf (nodes (fst (set_state i st m)))"
  "hm_wf (nodes m) \<Longrightarrow> hm_wf (nodes (fst (record_probe_miss i m)))"
  by (auto simp: with_node_def set_state_def record_probe_miss_def hm.wf_ins Let_def split: option.splits)

text \<open>What a decision does to the node it is about.\<close>

definition decided :: "(node_state \<Rightarrow> node_state option) \<Rightarrow> node_info \<Rightarrow> node_info" where
  "decided decide n =
     (case decide (node_state n) of Some next \<Rightarrow> n\<lparr>node_state := next\<rparr> | None \<Rightarrow> n)"

lemma apply_decision_get:
  assumes "hm_wf (nodes m)"
  shows "hm_get (nodes (apply_decision i decide m)) j =
    (if j = i then map_option (decided decide) (hm_get (nodes m) j) else hm_get (nodes m) j)"
  using assms
  by (auto simp: apply_decision_def get_node_def decided_def set_state_get split: option.splits)

lemma apply_decision_wf [simp]: "hm_wf (nodes m) \<Longrightarrow> hm_wf (nodes (apply_decision i decide m))"
  by (auto simp: apply_decision_def split: option.splits)

text \<open>One probe outcome, on the node it is about.\<close>

definition node_probe :: "u32 \<Rightarrow> bool \<Rightarrow> int \<Rightarrow> probe_signal \<Rightarrow> node_info \<Rightarrow> node_info" where
  "node_probe th gates now signal n =
     (case signal of
        Unreachable \<Rightarrow>
          (let k = saturating_add (consecutive_misses n) 1
           in decided (\<lambda>st. decide_transition_with st signal k th gates) (n\<lparr>consecutive_misses := k\<rparr>))
      | Response _ _ \<Rightarrow>
          decided (\<lambda>st. decide_transition_with st signal 0 th gates)
            (n\<lparr>last_heartbeat := now,
               consecutive_misses := saturating_sub (consecutive_misses n) 1\<rparr>))"

lemma apply_probe_get:
  assumes "hm_wf (nodes m)"
  shows "hm_get (nodes (apply_probe th gates now (pid, signal) m)) j =
    (if j = pid then map_option (node_probe th gates now signal) (hm_get (nodes m) j)
     else hm_get (nodes m) j)"
proof (cases signal)
  case Unreachable
  have "snd (record_probe_miss pid m) =
      (case hm_get (nodes m) pid of Some n \<Rightarrow> saturating_add (consecutive_misses n) 1 | None \<Rightarrow> 0)"
    by (auto simp: record_probe_miss_def Let_def split: option.splits)
  with Unreachable assms show ?thesis
    by (cases "hm_get (nodes m) pid")
      (auto simp: apply_probe_def case_prod_unfold apply_decision_get record_miss_get node_probe_def Let_def)
next
  case (Response ok body)
  with assms show ?thesis
    by (cases "hm_get (nodes m) pid")
      (auto simp: apply_probe_def apply_decision_get record_probe_success_def update_heartbeat_def
        with_node_get node_probe_def Let_def)
qed

lemma apply_probe_wf [simp]:
  "hm_wf (nodes m) \<Longrightarrow> hm_wf (nodes (apply_probe th gates now ps m))"
  by (cases ps; cases "snd ps")
    (auto simp: apply_probe_def case_prod_unfold record_probe_success_def update_heartbeat_def Let_def)

lemma fold_probe_wf:
  "hm_wf (nodes m) \<Longrightarrow> hm_wf (nodes (fold (apply_probe th gates now) ps m))"
  by (induction ps arbitrary: m) auto

lemma fold_probe_get:
  "hm_wf (nodes m) \<Longrightarrow> hm_get (nodes (fold (apply_probe th gates now) (map (Pair i) sigs) m)) i =
     map_option (fold (node_probe th gates now) sigs) (hm_get (nodes m) i)"
  by (induction sigs arbitrary: m) (auto simp: apply_probe_get option.map_comp comp_def option.map_id0)

section \<open>Departing nodes\<close>

lemma decide_departing:
  "current = Decommissioning \<or> current = Leaving \<Longrightarrow>
   decide_transition_with current signal k th gates = None"
  by (auto simp: decide_transition_with_def mirror_report_def Let_def
      split: probe_signal.splits option.splits)

datatype member_event =
    DoTransition u64 node_state
  | CompleteSync u64
  | BeginSync u64
  | Probed u64 probe_signal
  | NeedsSync u64 bool
  | Join node_info
  | RemoveNode u64

fun run_member_event :: "u32 \<Rightarrow> bool \<Rightarrow> int \<Rightarrow> member_event \<Rightarrow> cluster_membership \<Rightarrow> cluster_membership" where
  "run_member_event th gates now (DoTransition i st) m = fst (transition i st m)"
| "run_member_event th gates now (CompleteSync i) m = fst (complete_sync_to_active i m)"
| "run_member_event th gates now (BeginSync i) m = fst (begin_sync_to_syncing i m)"
| "run_member_event th gates now (Probed i signal) m = apply_probe th gates now (i, signal) m"
| "run_member_event th gates now (NeedsSync i needs) m = set_needs_sync i needs m"
| "run_member_event th gates now (Join info) m = add_node info m"
| "run_member_event th gates now (RemoveNode i) m = remove_node i m"

fun replaces :: "u64 \<Rightarrow> member_event \<Rightarrow> bool" where
  "replaces i (Join info) = (node_id info = i)"
| "replaces i (RemoveNode j) = (j = i)"
| "replaces i _ = False"

lemma run_member_event_wf:
  "hm_wf (nodes m) \<Longrightarrow> hm_wf (nodes (run_member_event th gates now e m))"
  by (cases e)
    (auto simp: transition_def complete_sync_to_active_def begin_sync_to_syncing_def set_needs_sync_def
      add_node_def remove_node_def hm.wf_ins hm.wf_rem split: option.splits)

definition departs :: "u64 \<Rightarrow> node_state \<Rightarrow> cluster_membership \<Rightarrow> bool" where
  "departs i st m =
     (hm_wf (nodes m) \<and> (\<exists>n. get_node m i = Some n \<and> is_departing n \<and> (st = Leaving \<longrightarrow> node_state n = Leaving)))"

lemma node_probe_departing:
  "is_departing n \<Longrightarrow> node_state (node_probe th gates now signal n) = node_state n"
  by (auto simp: node_probe_def decided_def is_departing_def decide_departing Let_def
      split: probe_signal.splits)

lemma run_member_event_departs:
  assumes "departs i st m" and "\<not> replaces i e"
  shows "departs i st (run_member_event th gates now e m)"
proof -
  obtain n where wf: "hm_wf (nodes m)" and n: "hm_get (nodes m) i = Some n" "is_departing n"
    "st = Leaving \<longrightarrow> node_state n = Leaving"
    using assms(1) by (auto simp: departs_def get_node_def)
  have "\<exists>n'. get_node (run_member_event th gates now e m) i = Some n' \<and> is_departing n'
      \<and> (st = Leaving \<longrightarrow> node_state n' = Leaving)"
  proof (cases e)
    case (DoTransition j to)
    show ?thesis
    proof (cases "j = i \<and> legal_transition (node_state n) to")
      case True
      then have "to = Leaving"
        using n(2) by (cases "node_state n"; cases to) (auto simp: is_departing_def)
      with True n DoTransition show ?thesis
        by (simp add: transition_def get_node_def set_state_get [OF wf] is_departing_def)
    qed (use n DoTransition in \<open>auto simp: transition_def get_node_def set_state_get [OF wf] split: option.splits\<close>)
  next
    case (Probed j signal)
    then show ?thesis
      using n node_probe_departing [OF n(2)]
      by (auto simp: get_node_def apply_probe_get [OF wf] is_departing_def)
  qed (use n assms(2) in \<open>auto simp: get_node_def complete_sync_to_active_def begin_sync_to_syncing_def
      set_needs_sync_def add_node_def remove_node_def set_state_get [OF wf] with_node_get [OF wf]
      hm.get_ins [OF wf] hm.get_rem [OF wf] is_departing_def split: option.splits\<close>)
  with run_member_event_wf [OF wf] show ?thesis by (simp add: departs_def)
qed

lemma run_member_events_depart:
  "departs i st m \<Longrightarrow> list_all (\<lambda>e. \<not> replaces i e) es \<Longrightarrow>
   departs i st (fold (run_member_event th gates now) es m)"
  by (induction es arbitrary: m) (auto intro: run_member_event_departs)

definition demo_node :: "u64 \<Rightarrow> node_state \<Rightarrow> node_info" where
  "demo_node i st =
     \<lparr>node_id = i, addr = ''h'', node_state = st, joined_at = 0, last_heartbeat = 0,
      needs_sync = False, consecutive_misses = 0\<rparr>"

definition demo_members :: cluster_membership where
  "demo_members =
     add_node (demo_node 2 Active) (add_node (demo_node 1 Decommissioning) new_membership)"

lemma demo_members_wf: "hm_wf (nodes demo_members)"
  by (simp add: demo_members_def add_node_def hm.wf_ins new_membership_def)

text \<open>
  A node that is being decommissioned or has left stays so through every sequence of lifecycle
  requests, sync completions and probe outcomes, for as long as it is a member; and a node that has
  left does not go back to being decommissioned.
\<close>

theorem departing_is_final:
  assumes "hm_wf (nodes m)" and "get_node m i = Some n" and "is_departing n"
    and "list_all (\<lambda>e. \<not> replaces i e) es"
  shows "\<exists>n'. get_node (fold (run_member_event th gates now) es m) i = Some n' \<and> is_departing n'
    \<and> (node_state n = Leaving \<longrightarrow> node_state n' = Leaving)"
proof -
  have "departs i (node_state n) m" using assms by (auto simp: departs_def)
  from run_member_events_depart [OF this assms(4)] show ?thesis by (auto simp: departs_def)
qed

theorem departing_is_final_witness:
  "\<exists>n'. get_node (fold (run_member_event 3 True 0)
     [DoTransition 1 Draining, CompleteSync 1, Probed 1 (Response True None)] demo_members) 1 = Some n'
   \<and> is_departing n'"
proof -
  have "get_node demo_members 1 = Some (demo_node 1 Decommissioning)"
    "is_departing (demo_node 1 Decommissioning)"
    "list_all (\<lambda>e. \<not> replaces 1 e) [DoTransition 1 Draining, CompleteSync 1, Probed 1 (Response True None)]"
    by code_simp+
  from departing_is_final [OF demo_members_wf this] show ?thesis by blast
qed

section \<open>Hysteresis\<close>

lemma node_probe_miss:
  assumes "unat (consecutive_misses n) + 1 < 2 ^ 32"
  shows "node_probe th gates now Unreachable n =
    n\<lparr>consecutive_misses := saturating_add (consecutive_misses n) 1,
      node_state := (if (node_state n = Active \<or> node_state n = Syncing)
                       \<and> unat th \<le> unat (consecutive_misses n) + 1
                     then Disconnected else node_state n)\<rparr>"
  using saturating_add_1_unat [of "consecutive_misses n"] assms
  by (auto simp: node_probe_def decided_def decide_transition_with_def Let_def word_le_nat_alt)

lemma node_misses:
  assumes "unat (consecutive_misses n) + k < 2 ^ 32" and "node_state n = Active"
  shows "unat (consecutive_misses (fold (node_probe th gates now) (replicate k Unreachable) n)) =
      unat (consecutive_misses n) + k
    \<and> node_state (fold (node_probe th gates now) (replicate k Unreachable) n) =
      (if k = 0 \<or> unat (consecutive_misses n) + k < unat th then Active else Disconnected)"
  using assms
proof (induction k)
  case (Suc k)
  let ?n = "fold (node_probe th gates now) (replicate k Unreachable) n"
  have step: "fold (node_probe th gates now) (replicate (Suc k) Unreachable) n =
      node_probe th gates now Unreachable ?n"
    by (simp add: replicate_append_same [symmetric] del: replicate.simps)
  have ih: "unat (consecutive_misses ?n) = unat (consecutive_misses n) + k"
    "node_state ?n = (if k = 0 \<or> unat (consecutive_misses n) + k < unat th then Active else Disconnected)"
    using Suc by auto
  then have lt: "unat (consecutive_misses ?n) + 1 < 2 ^ 32" using Suc.prems by simp
  show ?case
    unfolding step node_probe_miss [OF lt]
    using ih lt saturating_add_1_unat [of "consecutive_misses ?n"] by auto
qed simp

text \<open>
  C33. A reachable peer is not evicted by a blip: \<open>k\<close> consecutive failed probes of an active peer
  leave it active while its miss count is below the threshold, and disconnect it once the count
  reaches the threshold.
\<close>

theorem probe_hysteresis:
  assumes "hm_wf (nodes m)" and "get_node m i = Some n" and "node_state n = Active"
    and "unat (consecutive_misses n) + k < 2 ^ 32"
  shows "\<exists>n'. get_node (fold (apply_probe th gates now) (map (Pair i) (replicate k Unreachable)) m) i = Some n'
    \<and> unat (consecutive_misses n') = unat (consecutive_misses n) + k
    \<and> node_state n' =
        (if k = 0 \<or> unat (consecutive_misses n) + k < unat th then Active else Disconnected)"
  using fold_probe_get [OF assms(1), of th gates now i "replicate k Unreachable"]
    node_misses [OF assms(4,3), of th gates now] assms(2)
  by (simp add: get_node_def del: map_replicate)

theorem probe_hysteresis_witness:
  "\<exists>n'. get_node (fold (apply_probe 3 True 0) (map (Pair 2) (replicate 3 Unreachable)) demo_members) 2 = Some n'
    \<and> node_state n' = Disconnected"
proof -
  have g: "get_node demo_members 2 = Some (demo_node 2 Active)" by code_simp
  have s: "node_state (demo_node 2 Active) = Active"
    "unat (consecutive_misses (demo_node 2 Active)) + 3 < 2 ^ 32"
    by (simp_all add: demo_node_def)
  from probe_hysteresis [OF demo_members_wf g s, of 3 True 0] show ?thesis
    by (auto simp: demo_node_def)
qed

lemma decided_misses [simp]: "consecutive_misses (decided f n) = consecutive_misses n"
  by (auto simp: decided_def split: option.splits)

lemma saturating_sub_1_unat:
  fixes a :: "'w::len word"
  shows "unat (saturating_sub a 1) = unat a - 1"
proof (cases "a = 0")
  case False
  then have "1 \<le> a" by (simp add: word_le_nat_alt unat_gt_0 Suc_le_eq)
  then show ?thesis by (simp add: saturating_sub_def unat_sub)
qed (auto simp: saturating_sub_def)

lemma probe_misses:
  "unat (consecutive_misses n) + 1 < 2 ^ 32 \<Longrightarrow>
   unat (consecutive_misses (node_probe th gates now Unreachable n)) = unat (consecutive_misses n) + 1"
  "unat (consecutive_misses (node_probe th gates now (Response ok b) n)) = unat (consecutive_misses n) - 1"
  using saturating_add_1_unat [of "consecutive_misses n"]
  by (simp_all add: node_probe_def Let_def saturating_sub_1_unat)

definition flap :: "bool \<times> health_body option \<Rightarrow> probe_signal list" where
  "flap = (\<lambda>(ok, b). [Unreachable, Unreachable, Unreachable, Unreachable, Response ok b])"

lemma flap_misses:
  assumes "unat (consecutive_misses n) + 3 * length rs + 4 < 2 ^ 32"
  shows "unat (consecutive_misses (fold (node_probe th gates now) (concat (map flap rs)) n)) =
    unat (consecutive_misses n) + 3 * length rs"
  using assms
proof (induction rs arbitrary: n)
  case (Cons r rs)
  let ?n = "fold (node_probe th gates now) (flap r) n"
  obtain ok b where r: "r = (ok, b)" by fastforce
  have "unat (consecutive_misses ?n) = unat (consecutive_misses n) + 3"
    using Cons.prems by (simp add: r flap_def probe_misses)
  with Cons.IH [of ?n] Cons.prems show ?case by simp
qed simp

text \<open>
  A peer that answers only one probe in five is demoted, whatever it reports when it answers:
  after enough rounds of four failures and one answer the next failure leaves it neither active
  nor syncing.
\<close>

theorem flapping_peer_demoted:
  assumes "hm_wf (nodes m)" and "get_node m i = Some n"
    and "unat (consecutive_misses n) + 3 * length rs + 4 < 2 ^ 32" and "unat th \<le> 3 * length rs + 1"
  shows "\<exists>n'. get_node (fold (apply_probe th gates now)
      (map (Pair i) (concat (map flap rs) @ [Unreachable])) m) i = Some n'
    \<and> node_state n' \<noteq> Active \<and> node_state n' \<noteq> Syncing"
proof -
  let ?n = "fold (node_probe th gates now) (concat (map flap rs)) n"
  have "unat (consecutive_misses ?n) + 1 < 2 ^ 32" "unat th \<le> unat (consecutive_misses ?n) + 1"
    using flap_misses [OF assms(3), of th gates now] assms(3,4) by simp_all
  then have "node_state (node_probe th gates now Unreachable ?n) \<noteq> Active
      \<and> node_state (node_probe th gates now Unreachable ?n) \<noteq> Syncing"
    by (auto simp: node_probe_miss)
  with fold_probe_get [OF assms(1), of th gates now i "concat (map flap rs) @ [Unreachable]"] assms(2)
  show ?thesis by (simp add: get_node_def del: map_append)
qed

theorem flapping_peer_demoted_witness:
  "\<exists>n'. get_node (fold (apply_probe 3 True 0)
      (map (Pair 2) (concat (map flap [(True, None)]) @ [Unreachable])) demo_members) 2 = Some n'
    \<and> node_state n' \<noteq> Active"
proof -
  have g: "get_node demo_members 2 = Some (demo_node 2 Active)" by code_simp
  have s: "unat (consecutive_misses (demo_node 2 Active)) + 3 * length [(True, None :: health_body option)] + 4 < 2 ^ 32"
    "unat (3 :: u32) \<le> 3 * length [(True, None :: health_body option)] + 1"
    by (simp_all add: demo_node_def)
  from flapping_peer_demoted [OF demo_members_wf g s, of True 0] show ?thesis by blast
qed

section \<open>A tick of the prober\<close>

lemma fold_probe_other:
  "hm_wf (nodes m) \<Longrightarrow> i \<notin> fst ` set ps \<Longrightarrow>
   hm_get (nodes (fold (apply_probe th gates now) ps m)) i = hm_get (nodes m) i"
  by (induction ps arbitrary: m) (auto simp: apply_probe_get)

lemma fold_probe_once:
  "hm_wf (nodes m) \<Longrightarrow> distinct (map fst ps) \<Longrightarrow> (i, s) \<in> set ps \<Longrightarrow>
   hm_get (nodes (fold (apply_probe th gates now) ps m)) i =
     map_option (node_probe th gates now s) (hm_get (nodes m) i)"
  by (induction ps arbitrary: m) (auto simp: apply_probe_get fold_probe_other image_iff)

lemma member_ids_distinct:
  assumes "member_wf m"
  shows "distinct (map node_id (hm_values (nodes m)))"
proof -
  have "map node_id (hm_values (nodes m)) = hm_keys (nodes m)"
    using assms
    by (auto simp: member_wf_def hm_values_def hm_keys_def hm_get_def hm_wf_def intro!: map_cong)
  then show ?thesis using assms by (simp add: member_wf_def hm_wf_def hm_keys_def)
qed

text \<open>
  A tick of the prober updates every peer by exactly the outcome of its own probe, and does not
  touch the probing node's own entry.
\<close>

theorem probe_tick_per_peer:
  assumes "member_wf m"
  shows "get_node (probe_peers probe self_id th gates now m) i =
    map_option (\<lambda>n. if i = self_id then n
                    else node_probe th gates now (probe i (addr n)) n) (get_node m i)"
proof -
  let ?ps = "map (\<lambda>n. (node_id n, probe (node_id n) (addr n))) (all_peers m self_id)"
  have wf: "hm_wf (nodes m)" and ids: "\<And>j n. hm_get (nodes m) j = Some n \<Longrightarrow> node_id n = j"
    using assms by (auto simp: member_wf_def)
  have dist: "distinct (map fst ?ps)"
    using member_ids_distinct [OF assms] by (simp add: all_peers_def comp_def distinct_map_filter)
  show ?thesis
  proof (cases "hm_get (nodes m) i = None \<or> i = self_id")
    case True
    have "i \<notin> fst ` set ?ps"
      using True ids by (auto simp: all_peers_def hm_values_get [OF wf])
    then show ?thesis
      using True fold_probe_other [OF wf, of i ?ps th gates now]
      by (auto simp: probe_peers_def get_node_def option.map_ident split: option.splits)
  next
    case False
    then obtain n where n: "hm_get (nodes m) i = Some n" "i \<noteq> self_id" by auto
    then have "n \<in> set (all_peers m self_id)"
      using ids by (auto simp: all_peers_def hm_values_get [OF wf])
    then have "(i, probe i (addr n)) \<in> set ?ps" using ids [OF n(1)] by force
    from fold_probe_once [OF wf dist this] n show ?thesis
      by (simp add: probe_peers_def get_node_def)
  qed
qed

theorem probe_tick_per_peer_witness:
  "get_node (probe_peers (\<lambda>_ _. Unreachable) 1 1 True 0 demo_members) 2 =
    map_option (node_probe 1 True 0 Unreachable) (get_node demo_members 2)"
proof -
  have "member_wf demo_members"
    using demo_members_wf
    by (auto simp: member_wf_def demo_members_def add_node_def new_membership_def demo_node_def
        hm.get_ins hm.wf_ins split: if_splits)
  from probe_tick_per_peer [OF this, of "\<lambda>_ _. Unreachable" 1 1 True 0 2] show ?thesis by simp
qed

text \<open>
  The next node id is one no member uses, unless a member already has the largest id.
\<close>

theorem next_node_id_fresh:
  assumes "u64_max \<notin> set (hm_keys (nodes m))"
  shows "get_node m (next_node_id m) = None"
proof (cases "hm_keys (nodes m)")
  case Nil
  then show ?thesis
    using hm_keys_get [of "next_node_id m" "nodes m"] by (simp add: get_node_def)
next
  case (Cons k ks)
  have max: "fold max ks k \<in> set (k # ks)" "\<And>x. x \<in> set (k # ks) \<Longrightarrow> x \<le> fold max ks k"
    using Max.set_eq_fold [of k ks] Max_in [of "set (k # ks)"] Max_ge [of "set (k # ks)"] by auto
  then have "fold max ks k \<noteq> u64_max" using assms Cons by metis
  then have "fold max ks k < next_node_id m"
    using Cons word_succ_gt by (simp add: next_node_id_def)
  then have "next_node_id m \<notin> set (hm_keys (nodes m))" using max(2) Cons leD by metis
  then show ?thesis by (simp add: hm_keys_get get_node_def)
qed

theorem next_node_id_fresh_witness: "get_node demo_members (next_node_id demo_members) = None"
proof -
  have "u64_max \<notin> set (hm_keys (nodes demo_members))" by code_simp
  then show ?thesis by (rule next_node_id_fresh)
qed

text \<open>
  The prober promotes a draining or joining peer that reports itself active and in sync: both
  states are left automatically.
\<close>

theorem draining_and_joining_are_promoted:
  "decide_transition_with Draining (Response ok (Some b)) k th gates =
     (if reports_ready gates b then Some Active else None)
   \<and> decide_transition_with Joining (Response ok (Some b)) k th gates =
     (if reports_ready gates b then Some Active else None)
   \<and> reports_ready gates \<lparr>hb_state = Some Active, hb_needs_sync = Some False\<rparr>"
  by (simp add: decide_transition_with_def mirror_report_def Let_def reports_ready_def health_ready_def)

text \<open>
  The printed name of a state reads back as that state, and no other text does.
\<close>

theorem node_state_name_roundtrip: "state_from_str s = Some st \<longleftrightarrow> s = state_display st"
  by (cases st) (auto simp: state_from_str_def)

end
