(* ===== verification/Kv_Store.thy ===== *)
theory Kv_Store
  imports HB_Prelude "HOL-Library.List_Lexorder" "HOL-Library.Char_ord"
begin

text \<open>
  The key-value store under the persistent components. RocksDB is not part of the sources: it is a
  parameter, a record of the calls the code makes, and \<open>rocks_laws\<close> states its documented behaviour
  (reads see the last write, an acknowledged batch took effect, an iterator runs in key order, from
  a key on or backwards from below a key). The
  last section has a store with these laws, on which witnesses run.
\<close>

section \<open>Calls\<close>

datatype ('k, 'b) batch_op = Put 'k 'b | Delete 'k | DeleteRange 'k 'k

record ('d, 'k, 'b) rocks =
  rdb_get :: "'d \<Rightarrow> 'k \<Rightarrow> string + 'b option"
  rdb_write :: "'d \<Rightarrow> ('k, 'b) batch_op list \<Rightarrow> 'd \<times> (string + unit)"
  rdb_iter_from :: "'d \<Rightarrow> 'k \<Rightarrow> (string + 'k \<times> 'b) list"
  rdb_iter_back :: "'d \<Rightarrow> 'k \<Rightarrow> (string + 'k \<times> 'b) list"

section \<open>Laws\<close>

fun batch_effect :: "('k::linorder, 'b) batch_op \<Rightarrow> ('k \<Rightarrow> 'b option) \<Rightarrow> 'k \<Rightarrow> 'b option" where
  "batch_effect (Put k v) rows = rows(k := Some v)"
| "batch_effect (Delete k) rows = rows(k := None)"
| "batch_effect (DeleteRange a b) rows = (\<lambda>k. if a \<le> k \<and> k < b then None else rows k)"

definition rocks_laws :: "('d, 'k::linorder, 'b) rocks \<Rightarrow> ('d \<Rightarrow> 'k \<Rightarrow> 'b option) \<Rightarrow> bool" where
  "rocks_laws kv rows \<longleftrightarrow>
     (\<forall>d k. rdb_get kv d k = Inr (rows d k))
     \<and> (\<forall>d ops d'. rdb_write kv d ops = (d', Inr ()) \<longrightarrow> rows d' = fold batch_effect ops (rows d))
     \<and> (\<forall>d p. \<exists>items. rdb_iter_from kv d p = map Inr items \<and> sorted_wrt (<) (map fst items)
          \<and> set items = {(k, v). rows d k = Some v \<and> p \<le> k})
     \<and> (\<forall>d p. \<exists>items. rdb_iter_back kv d p = map Inr (rev items) \<and> sorted_wrt (<) (map fst items)
          \<and> set items = {(k, v). rows d k = Some v \<and> k < p})"

text \<open>A failed write is atomic: it left the rows alone or took effect as a whole.\<close>

definition rocks_atomic :: "('d, 'k::linorder, 'b) rocks \<Rightarrow> ('d \<Rightarrow> 'k \<Rightarrow> 'b option) \<Rightarrow> bool" where
  "rocks_atomic kv rows \<longleftrightarrow>
     (\<forall>d ops d' e. rdb_write kv d ops = (d', Inl e) \<longrightarrow>
        rows d' = rows d \<or> rows d' = fold batch_effect ops (rows d))"

section \<open>Prefix scans\<close>

definition starts_with :: "'a list \<Rightarrow> 'a list \<Rightarrow> bool" where
  "starts_with k p = (take (length p) k = p)"

text \<open>In key order the rows with a prefix come first among the rows from the prefix on.\<close>

lemma starts_with_ge: "starts_with k p \<Longrightarrow> p \<le> (k :: 'a::linorder list)"
  unfolding starts_with_def
proof (induction p arbitrary: k)
  case (Cons c p)
  then show ?case by (cases k) auto
qed simp

lemma starts_with_interval:
  fixes k :: "'a::linorder list"
  assumes "p \<le> k" and "k \<le> k'" and "starts_with k' p"
  shows "starts_with k p"
  using assms unfolding starts_with_def
proof (induction p arbitrary: k k')
  case (Cons c p)
  then obtain k1 where k': "k' = c # k1" by (cases k') auto
  with Cons.prems obtain k2 where "k = c # k2" by (cases k) auto
  with Cons k' show ?case by auto
qed simp

lemma takeWhile_prefix:
  fixes p :: "'a::linorder list"
  assumes "sorted_wrt (<) (map fst items)" and "\<And>k v. (k, v) \<in> set items \<Longrightarrow> p \<le> k"
  shows "set (takeWhile (\<lambda>(k, _). starts_with k p) items) = {(k, v) \<in> set items. starts_with k p}"
  using assms
proof (induction items)
  case (Cons x items)
  obtain k v where x: "x = (k, v)" by fastforce
  show ?case
  proof (cases "starts_with k p")
    case True
    with Cons x show ?thesis by auto
  next
    case False
    have "\<not> starts_with k' p" if "(k', v') \<in> set items" for k' v'
    proof
      assume sw: "starts_with k' p"
      have "k < k'" using Cons.prems(1) that by (force simp: x)
      moreover have "p \<le> k" using Cons.prems(2) [of k v] by (simp add: x)
      ultimately show False using starts_with_interval [OF _ less_imp_le sw] False by blast
    qed
    with False x show ?thesis by auto
  qed
qed simp

lemma iter_items:
  assumes "rocks_laws kv rows"
  obtains items where "rdb_iter_from kv d p = map Inr items" "sorted_wrt (<) (map fst items)"
    "set items = {(k, v). rows d k = Some v \<and> p \<le> k}"
  using assms unfolding rocks_laws_def by meson

lemma back_items:
  assumes "rocks_laws kv rows"
  obtains items where "rdb_iter_back kv d p = map Inr (rev items)" "sorted_wrt (<) (map fst items)"
    "set items = {(k, v). rows d k = Some v \<and> k < p}"
  using assms unfolding rocks_laws_def by meson

lemma rdb_get_rows: "rocks_laws kv rows \<Longrightarrow> rdb_get kv d k = Inr (rows d k)"
  by (simp add: rocks_laws_def)

lemma rdb_write_rows:
  "rocks_laws kv rows \<Longrightarrow> rdb_write kv d ops = (d', Inr ()) \<Longrightarrow> rows d' = fold batch_effect ops (rows d)"
  unfolding rocks_laws_def by meson

text \<open>Whatever a write answers, the batch took effect as a whole or not at all.\<close>

lemma write_outcome:
  assumes "rocks_laws kv rows" "rocks_atomic kv rows" "rdb_write kv d ops = (d', res)"
  shows "rows d' = rows d \<or> rows d' = fold batch_effect ops (rows d)"
proof (cases res)
  case (Inl e)
  then show ?thesis using assms(2,3) unfolding rocks_atomic_def by blast
next
  case (Inr u)
  then show ?thesis using rdb_write_rows [OF assms(1)] assms(3) by simp
qed

lemma write_cases:
  assumes "rocks_laws kv rows" "rocks_atomic kv rows" "rdb_write kv d [op] = (d', res)"
  shows "\<exists>ops. set ops \<subseteq> {op} \<and> rows d' = fold batch_effect ops (rows d)"
  using write_outcome [OF assms]
proof
  assume "rows d' = rows d"
  then show ?thesis by (intro exI [of _ "[]"]) simp
next
  assume "rows d' = fold batch_effect [op] (rows d)"
  then show ?thesis by (intro exI [of _ "[op]"]) simp
qed

text \<open>\<open>iter.flatten()\<close> drops the items that are errors; a scan stops at the first other key.\<close>

definition flatten_ok :: "(string + 'a) list \<Rightarrow> 'a list" where
  "flatten_ok items = List.map_filter (\<lambda>x. case x of Inl _ \<Rightarrow> None | Inr y \<Rightarrow> Some y) items"

definition scan_prefix :: "('d, 'a list, 'b) rocks \<Rightarrow> 'd \<Rightarrow> 'a list \<Rightarrow> ('a list \<times> 'b) list" where
  "scan_prefix kv d p = takeWhile (\<lambda>(k, _). starts_with k p) (flatten_ok (rdb_iter_from kv d p))"

lemma flatten_ok_Inr [simp]: "flatten_ok (map Inr xs) = xs"
  by (induction xs) (simp_all add: flatten_ok_def List.map_filter_def)

lemma scan_prefix_rows:
  fixes p :: "'a::linorder list"
  assumes "rocks_laws kv rows"
  shows "set (scan_prefix kv d p) = {(k, v). rows d k = Some v \<and> starts_with k p}"
    and "sorted_wrt (<) (map fst (scan_prefix kv d p))"
proof -
  obtain items where items: "rdb_iter_from kv d p = map Inr items" "sorted_wrt (<) (map fst items)"
    "set items = {(k, v). rows d k = Some v \<and> p \<le> k}"
    using iter_items [OF assms] by blast
  have "set (takeWhile (\<lambda>(k, _). starts_with k p) items) = {(k, v) \<in> set items. starts_with k p}"
    by (rule takeWhile_prefix) (use items in auto)
  then show "set (scan_prefix kv d p) = {(k, v). rows d k = Some v \<and> starts_with k p}"
    unfolding scan_prefix_def items(1) by (auto simp: items(3) dest: starts_with_ge)
  have "map fst (scan_prefix kv d p) = takeWhile (\<lambda>k. starts_with k p) (map fst items)"
    by (simp add: scan_prefix_def items(1) takeWhile_map comp_def split_def)
  then show "sorted_wrt (<) (map fst (scan_prefix kv d p))"
    using items(2) by (simp add: sorted_wrt_takeWhile)
qed


lemma scan_prefix_distinct:
  "rocks_laws kv rows \<Longrightarrow> distinct (map fst (scan_prefix kv d (p :: 'a::linorder list)))"
  using scan_prefix_rows(2) [of kv rows d p] by (simp add: strict_sorted_iff)

section \<open>A store with these laws\<close>

fun list_write :: "('k::linorder, 'b) batch_op \<Rightarrow> ('k \<times> 'b) list \<Rightarrow> ('k \<times> 'b) list" where
  "list_write (Put k v) d = (k, v) # d"
| "list_write (Delete k) d = filter (\<lambda>(k', _). k' \<noteq> k) d"
| "list_write (DeleteRange a b) d = filter (\<lambda>(k', _). \<not> (a \<le> k' \<and> k' < b)) d"

definition list_kv :: "(('k::linorder \<times> 'b) list, 'k, 'b) rocks" where
  "list_kv =
     \<lparr>rdb_get = (\<lambda>d k. Inr (map_of d k)),
      rdb_write = (\<lambda>d ops. (fold list_write ops d, Inr ())),
      rdb_iter_from = (\<lambda>d p. map Inr (sort_key fst (filter (\<lambda>(k, _). p \<le> k) (AList.clearjunk d)))),
      rdb_iter_back = (\<lambda>d p. map Inr (rev (sort_key fst (filter (\<lambda>(k, _). k < p) (AList.clearjunk d)))))\<rparr>"

lemma list_kv_write [simp]: "rdb_write list_kv d ops = (fold list_write ops d, Inr ())"
  by (simp add: list_kv_def)

lemma list_write_map: "map_of (list_write op d) = batch_effect op (map_of d)"
  by (cases op) (auto simp: fun_eq_iff map_of_filter_key)

lemma sorted_rows:
  fixes d :: "('k::linorder \<times> 'b) list"
  defines "items P \<equiv> sort_key fst (filter (\<lambda>(k, _). P k) (AList.clearjunk d))"
  shows "sorted_wrt (<) (map fst (items P))" and "set (items P) = {(k, v). map_of d k = Some v \<and> P k}"
proof -
  have dist: "distinct (map fst (AList.clearjunk d))" by (rule distinct_clearjunk)
  then have "distinct (map fst (items P))"
    by (simp add: items_def distinct_map inj_on_def)
  then show "sorted_wrt (<) (map fst (items P))"
    by (simp add: items_def strict_sorted_iff)
  have "(k, v) \<in> set (AList.clearjunk d) \<longleftrightarrow> map_of d k = Some v" for k v
    using map_of_eq_Some_iff [OF dist] map_of_clearjunk [of d] by metis
  then show "set (items P) = {(k, v). map_of d k = Some v \<and> P k}" by (auto simp: items_def)
qed

lemma list_kv_laws: "rocks_laws (list_kv :: (('k::linorder \<times> 'b) list, 'k, 'b) rocks) map_of"
proof -
  have "map_of (fold list_write ops d) = fold batch_effect ops (map_of d)" for ops :: "('k, 'b) batch_op list" and d
    by (induction ops arbitrary: d) (simp_all add: list_write_map)
  moreover have "\<exists>items. map Inr (sort_key fst (filter (\<lambda>(k, _). p \<le> k) (AList.clearjunk d))) = map Inr items
      \<and> sorted_wrt (<) (map fst items) \<and> set items = {(k, v). map_of d k = Some v \<and> p \<le> k}"
    for d :: "('k \<times> 'b) list" and p
    using sorted_rows by (intro exI conjI) (rule refl)
  moreover have "\<exists>items. map Inr (rev (sort_key fst (filter (\<lambda>(k, _). k < p) (AList.clearjunk d)))) = map Inr (rev items)
      \<and> sorted_wrt (<) (map fst items) \<and> set items = {(k, v). map_of d k = Some v \<and> k < p}"
    for d :: "('k \<times> 'b) list" and p
    using sorted_rows by (intro exI conjI) (rule refl)
  ultimately show ?thesis by (simp add: rocks_laws_def list_kv_def)
qed

lemma list_kv_atomic: "rocks_atomic (list_kv :: (('k::linorder \<times> 'b) list, 'k, 'b) rocks) map_of"
  by (simp add: rocks_atomic_def list_kv_def)

end
