(* ===== verification/Shard_Store.thy ===== *)
theory Shard_Store
  imports Shard_Log Kv_Store
begin

text \<open>
  The persistent shard map (\<^verbatim>\<open>hyperbytedb/src/adapters/sharding/rocksdb_shard_map.rs\<close>): one row for
  the counters and one per space, written in one atomic batch per touched space, read back and
  validated at startup. RocksDB (see \<open>Kv_Store\<close>) and the JSON codec are parameters; \<open>codec_laws\<close>
  states what the code relies on of the codec: what was written reads back.
\<close>

section \<open>The codec\<close>

record map_meta =
  pm_map_version :: u64
  pm_next_region_id :: u64

record 'b codec =
  enc_meta :: "map_meta \<Rightarrow> string + 'b"
  dec_meta :: "'b \<Rightarrow> string + map_meta"
  enc_space :: "measurement_shard_space \<Rightarrow> string + 'b"
  dec_space :: "'b \<Rightarrow> string + measurement_shard_space"
  dec_legacy :: "'b \<Rightarrow> string + shard_map_json"

datatype store_error =
    Storage string
  | ShardMapError string
  | InvalidMap invalid_reason
  | ApplyError shard_map_apply_error

section \<open>Keys\<close>

definition LEGACY_SHARD_MAP_KEY :: string where "LEGACY_SHARD_MAP_KEY = ''shardmap:global''"
definition META_KEY :: string where "META_KEY = ''shardmap:meta''"
definition SPACE_PREFIX :: string where "SPACE_PREFIX = ''shardmap:space:''"

abbreviation unit_separator :: char where "unit_separator \<equiv> CHR 0x1F"

definition space_row_key :: "measurement_key \<Rightarrow> string" where
  "space_row_key key =
     SPACE_PREFIX @ db key @ [unit_separator] @ rp key @ [unit_separator] @ measurement key"

section \<open>Loading\<close>

definition load_meta :: "('d, string, 'b) rocks \<Rightarrow> 'b codec \<Rightarrow> 'd \<Rightarrow> store_error + map_meta" where
  "load_meta kv cd d =
     (case rdb_get kv d META_KEY of
        Inl e \<Rightarrow> Inl (Storage e)
      | Inr (Some bytes) \<Rightarrow>
          (case dec_meta cd bytes of Inl e \<Rightarrow> Inl (ShardMapError e) | Inr x \<Rightarrow> Inr x)
      | Inr None \<Rightarrow> Inr \<lparr>pm_map_version = 0, pm_next_region_id = default_next_region_id\<rparr>)"

fun read_spaces :: "'b codec \<Rightarrow> (string + string \<times> 'b) list \<Rightarrow> store_error + measurement_shard_space list" where
  "read_spaces cd [] = Inr []"
| "read_spaces cd (Inl e # items) = Inl (Storage e)"
| "read_spaces cd (Inr (k, v) # items) =
     (if \<not> starts_with k SPACE_PREFIX then Inr []
      else case dec_space cd v of
             Inl e \<Rightarrow> Inl (ShardMapError e)
           | Inr s \<Rightarrow>
               (case read_spaces cd items of Inl e \<Rightarrow> Inl e | Inr ss \<Rightarrow> Inr (s # ss)))"

definition load_spaces :: "('d, string, 'b) rocks \<Rightarrow> 'b codec \<Rightarrow> 'd \<Rightarrow> store_error + measurement_shard_space list" where
  "load_spaces kv cd d = read_spaces cd (rdb_iter_from kv d SPACE_PREFIX)"

definition next_after :: "u64 list \<Rightarrow> u64" where
  "next_after ids = (case ids of [] \<Rightarrow> 1 | i # is \<Rightarrow> saturating_add (fold max is i) 1)"

definition into_shard_map :: "shard_map_json \<Rightarrow> shard_map" where
  "into_shard_map j =
     (let m = map_from_json j
      in if next_region_id m = 0
         then m\<lparr>next_region_id := next_after (map region_id (all_regions m))\<rparr> else m)"

fun put_spaces :: "'b codec \<Rightarrow> measurement_shard_space list \<Rightarrow> store_error + (string, 'b) batch_op list" where
  "put_spaces cd [] = Inr []"
| "put_spaces cd (s # ss) =
     (case enc_space cd s of
        Inl e \<Rightarrow> Inl (ShardMapError e)
      | Inr v \<Rightarrow>
          (case put_spaces cd ss of
             Inl e \<Rightarrow> Inl e
           | Inr ops \<Rightarrow> Inr (Put (space_row_key (space_key s)) v # ops)))"

definition put_meta :: "'b codec \<Rightarrow> shard_map \<Rightarrow> store_error + (string, 'b) batch_op" where
  "put_meta cd m =
     (case enc_meta cd \<lparr>pm_map_version = map_version m, pm_next_region_id = next_region_id m\<rparr> of
        Inl e \<Rightarrow> Inl (ShardMapError e)
      | Inr v \<Rightarrow> Inr (Put META_KEY v))"

definition write_batch :: "('d, string, 'b) rocks \<Rightarrow> 'd \<Rightarrow> (string, 'b) batch_op list \<Rightarrow> 'd \<times> (store_error + unit)" where
  "write_batch kv d ops =
     (case rdb_write kv d ops of
        (d', Inl e) \<Rightarrow> (d', Inl (Storage e))
      | (d', Inr _) \<Rightarrow> (d', Inr ()))"

definition migrate_legacy_if_present :: "('d, string, 'b) rocks \<Rightarrow> 'b codec \<Rightarrow> 'd \<Rightarrow> 'd \<times> (store_error + bool)" where
  "migrate_legacy_if_present kv cd d =
     (case rdb_get kv d LEGACY_SHARD_MAP_KEY of
        Inl e \<Rightarrow> (d, Inl (Storage e))
      | Inr None \<Rightarrow> (d, Inr False)
      | Inr (Some bytes) \<Rightarrow>
          (case dec_legacy cd bytes of
             Inl e \<Rightarrow> (d, Inl (ShardMapError e))
           | Inr legacy \<Rightarrow>
               (let m = into_shard_map legacy
                in case put_meta cd m of
                     Inl e \<Rightarrow> (d, Inl e)
                   | Inr mp \<Rightarrow>
                       (case put_spaces cd (hm_values (spaces m)) of
                          Inl e \<Rightarrow> (d, Inl e)
                        | Inr ops \<Rightarrow>
                            (case write_batch kv d (mp # ops @ [Delete LEGACY_SHARD_MAP_KEY]) of
                               (d', Inl e) \<Rightarrow> (d', Inl e)
                             | (d', Inr _) \<Rightarrow> (d', Inr True))))))"

fun insert_validated ::
    "measurement_shard_space list \<Rightarrow> (measurement_key, measurement_shard_space) hash_map
     \<Rightarrow> store_error + (measurement_key, measurement_shard_space) hash_map" where
  "insert_validated [] sm = Inr sm"
| "insert_validated (s # ss) sm =
     (case validate s of
        Inl e \<Rightarrow> Inl (InvalidMap e)
      | Inr _ \<Rightarrow> insert_validated ss (hm_insert (space_key s) s sm))"

definition assemble_map :: "('d, string, 'b) rocks \<Rightarrow> 'b codec \<Rightarrow> 'd \<Rightarrow> store_error + shard_map" where
  "assemble_map kv cd d =
     (case load_meta kv cd d of
        Inl e \<Rightarrow> Inl e
      | Inr meta \<Rightarrow>
        (case load_spaces kv cd d of
           Inl e \<Rightarrow> Inl e
         | Inr ss \<Rightarrow>
           (case insert_validated ss [] of
              Inl e \<Rightarrow> Inl e
            | Inr sm \<Rightarrow>
                (let m = \<lparr>map_version = pm_map_version meta, next_region_id = pm_next_region_id meta,
                          spaces = sm\<rparr>;
                     m = (if next_region_id m = 0
                          then m\<lparr>next_region_id := next_after (map region_id (all_regions m))\<rparr> else m)
                 in case validate_global_region_ids m of
                      Inl e \<Rightarrow> Inl (InvalidMap e)
                    | Inr _ \<Rightarrow> Inr m))))"

definition load_map :: "('d, string, 'b) rocks \<Rightarrow> 'b codec \<Rightarrow> 'd \<Rightarrow> 'd \<times> (store_error + shard_map)" where
  "load_map kv cd d =
     (case migrate_legacy_if_present kv cd d of
        (d', Inl e) \<Rightarrow> (d', Inl e)
      | (d', Inr _) \<Rightarrow> (d', assemble_map kv cd d'))"

section \<open>Persisting\<close>

definition persist_full_map :: "('d, string, 'b) rocks \<Rightarrow> 'b codec \<Rightarrow> 'd \<Rightarrow> shard_map \<Rightarrow> 'd \<times> (store_error + unit)" where
  "persist_full_map kv cd d m =
     (case load_spaces kv cd d of
        Inl e \<Rightarrow> (d, Inl e)
      | Inr existing \<Rightarrow>
        (case put_meta cd m of
           Inl e \<Rightarrow> (d, Inl e)
         | Inr mp \<Rightarrow>
           (let gone = filter (\<lambda>s. \<not> hm_contains (spaces m) (space_key s)) existing
            in case put_spaces cd (hm_values (spaces m)) of
                 Inl e \<Rightarrow> (d, Inl e)
               | Inr ops \<Rightarrow>
                   write_batch kv d
                     (mp # map (\<lambda>s. Delete (space_row_key (space_key s))) gone @ ops))))"

definition persist_space ::
    "('d, string, 'b) rocks \<Rightarrow> 'b codec \<Rightarrow> shard_map \<Rightarrow> measurement_key \<Rightarrow> 'd \<Rightarrow> 'd \<times> (store_error + unit)" where
  "persist_space kv cd m changed d =
     (case put_meta cd m of
        Inl e \<Rightarrow> (d, Inl e)
      | Inr mp \<Rightarrow>
          (case map_space m (db changed) (rp changed) (measurement changed) of
             Some s \<Rightarrow>
               (case enc_space cd s of
                  Inl e \<Rightarrow> (d, Inl (ShardMapError e))
                | Inr v \<Rightarrow> write_batch kv d [mp, Put (space_row_key changed) v])
           | None \<Rightarrow> write_batch kv d [mp, Delete (space_row_key changed)]))"

fun persist_spaces ::
    "('d, string, 'b) rocks \<Rightarrow> 'b codec \<Rightarrow> shard_map \<Rightarrow> measurement_key list \<Rightarrow> 'd \<Rightarrow> 'd \<times> (store_error + unit)" where
  "persist_spaces kv cd m [] d = (d, Inr ())"
| "persist_spaces kv cd m (k # ks) d =
     (case persist_space kv cd m k d of
        (d', Inl e) \<Rightarrow> (d', Inl e)
      | (d', Inr _) \<Rightarrow> persist_spaces kv cd m ks d')"

section \<open>The port\<close>

record 'd shard_store =
  ss_db :: 'd
  ss_cache :: shard_map
  ss_enabled :: bool

definition store_open :: "('d, string, 'b) rocks \<Rightarrow> 'b codec \<Rightarrow> 'd \<Rightarrow> bool \<Rightarrow> store_error + 'd shard_store" where
  "store_open kv cd d en =
     (case load_map kv cd d of
        (_, Inl e) \<Rightarrow> Inl e
      | (d', Inr m) \<Rightarrow> Inr \<lparr>ss_db = d', ss_cache = m, ss_enabled = en\<rparr>)"

definition store_locate :: "'d shard_store \<Rightarrow> string \<Rightarrow> string \<Rightarrow> string \<Rightarrow> u64 \<Rightarrow> shard_region option" where
  "store_locate st d r mm sid = map_locate (ss_cache st) d r mm sid"

definition regions_for_measurement :: "'d shard_store \<Rightarrow> string \<Rightarrow> string \<Rightarrow> string \<Rightarrow> shard_region list" where
  "regions_for_measurement st d r mm =
     (case map_space (ss_cache st) d r mm of Some s \<Rightarrow> regions s | None \<Rightarrow> [])"

definition apply_op ::
    "('d, string, 'b) rocks \<Rightarrow> 'b codec \<Rightarrow> shard_map_op \<Rightarrow> 'd shard_store \<Rightarrow> 'd shard_store \<times> (store_error + shard_map)" where
  "apply_op kv cd op st =
     (let changed = affected_space_keys op (ss_cache st)
      in case apply_shard_map_op (ss_cache st) op of
           (_, Inl e) \<Rightarrow> (st, Inl (ApplyError e))
         | (m, Inr _) \<Rightarrow>
             (case persist_spaces kv cd m changed (ss_db st) of
                (d', Inl e) \<Rightarrow> (st\<lparr>ss_db := d'\<rparr>, Inl e)
              | (d', Inr _) \<Rightarrow> (st\<lparr>ss_db := d', ss_cache := m\<rparr>, Inr m)))"

fun validate_all :: "measurement_shard_space list \<Rightarrow> store_error + unit" where
  "validate_all [] = Inr ()"
| "validate_all (s # ss) = (case validate s of Inl e \<Rightarrow> Inl (InvalidMap e) | Inr _ \<Rightarrow> validate_all ss)"

definition replace_map ::
    "('d, string, 'b) rocks \<Rightarrow> 'b codec \<Rightarrow> shard_map \<Rightarrow> 'd shard_store \<Rightarrow> 'd shard_store \<times> (store_error + unit)" where
  "replace_map kv cd m st =
     (case validate_all (hm_values (spaces m)) of
        Inl e \<Rightarrow> (st, Inl e)
      | Inr _ \<Rightarrow>
        (case validate_global_region_ids m of
           Inl e \<Rightarrow> (st, Inl (InvalidMap e))
         | Inr _ \<Rightarrow>
           (case persist_full_map kv cd (ss_db st) m of
              (d', Inl e) \<Rightarrow> (st\<lparr>ss_db := d'\<rparr>, Inl e)
            | (d', Inr _) \<Rightarrow> (st\<lparr>ss_db := d', ss_cache := m\<rparr>, Inr ()))))"

definition node_owns_measurement :: "'d shard_store \<Rightarrow> u64 \<Rightarrow> string \<Rightarrow> string \<Rightarrow> string \<Rightarrow> bool" where
  "node_owns_measurement st node d r mm =
     (if \<not> ss_enabled st then True
      else case map_space (ss_cache st) d r mm of
             Some s \<Rightarrow> list_ex (\<lambda>rg. node \<in> set (peers rg)) (regions s)
           | None \<Rightarrow> False)"

section \<open>What the code relies on\<close>

definition codec_laws :: "'b codec \<Rightarrow> bool" where
  "codec_laws cd \<longleftrightarrow>
     (\<forall>x b. enc_meta cd x = Inr b \<longrightarrow> dec_meta cd b = Inr x)
     \<and> (\<forall>x b. enc_space cd x = Inr b \<longrightarrow> dec_space cd b = Inr x)"

section \<open>Row keys\<close>

definition plain :: "measurement_key \<Rightarrow> bool" where
  "plain k \<longleftrightarrow> unit_separator \<notin> set (db k) \<and> unit_separator \<notin> set (rp k)"

lemma append_sep_inj:
  "x \<notin> set as \<Longrightarrow> x \<notin> set bs \<Longrightarrow> as @ x # cs = bs @ x # ds \<Longrightarrow> as = bs \<and> cs = ds"
proof (induction as arbitrary: bs)
  case Nil
  then show ?case by (cases bs) auto
next
  case (Cons a as)
  then show ?case by (cases bs) auto
qed

lemma space_row_key_inj:
  assumes "plain k" and "plain k'" and "space_row_key k = space_row_key k'"
  shows "k = k'"
proof -
  have "db k @ unit_separator # rp k @ unit_separator # measurement k =
      db k' @ unit_separator # rp k' @ unit_separator # measurement k'"
    using assms(3) by (simp add: space_row_key_def)
  from append_sep_inj [OF _ _ this] assms(1,2)
  have "db k = db k'" "rp k @ unit_separator # measurement k = rp k' @ unit_separator # measurement k'"
    by (auto simp: plain_def)
  moreover from append_sep_inj [OF _ _ this(2)] assms(1,2)
  have "rp k = rp k'" "measurement k = measurement k'" by (auto simp: plain_def)
  ultimately show ?thesis by simp
qed

lemma starts_with_space_row [simp]: "starts_with (space_row_key k) SPACE_PREFIX"
  by (simp add: starts_with_def space_row_key_def)

lemma other_rows [simp]:
  "\<not> starts_with META_KEY SPACE_PREFIX" "\<not> starts_with LEGACY_SHARD_MAP_KEY SPACE_PREFIX"
  "META_KEY \<noteq> LEGACY_SHARD_MAP_KEY" "LEGACY_SHARD_MAP_KEY \<noteq> META_KEY"
  by (simp_all add: starts_with_def META_KEY_def SPACE_PREFIX_def LEGACY_SHARD_MAP_KEY_def)

lemma space_row_key_other [simp]:
  "space_row_key k \<noteq> META_KEY" "space_row_key k \<noteq> LEGACY_SHARD_MAP_KEY"
  "META_KEY \<noteq> space_row_key k" "LEGACY_SHARD_MAP_KEY \<noteq> space_row_key k"
  using other_rows starts_with_space_row by metis+

section \<open>Reading back\<close>

definition row_ok :: "'b codec \<Rightarrow> (string \<Rightarrow> 'b option) \<Rightarrow> shard_map \<Rightarrow> measurement_key \<Rightarrow> bool" where
  "row_ok cd rows m k =
     (case hm_get (spaces m) k of
        Some s \<Rightarrow> (\<exists>b. rows (space_row_key k) = Some b \<and> dec_space cd b = Inr s)
      | None \<Rightarrow> rows (space_row_key k) = None)"

lemma row_ok_cong:
  "rows' (space_row_key k) = rows (space_row_key k) \<Longrightarrow> hm_get (spaces m') k = hm_get (spaces m) k \<Longrightarrow>
   row_ok cd rows' m' k = row_ok cd rows m k"
  by (auto simp: row_ok_def split: option.splits)

definition meta_ok :: "'b codec \<Rightarrow> (string \<Rightarrow> 'b option) \<Rightarrow> shard_map \<Rightarrow> bool" where
  "meta_ok cd rows m =
     (case rows META_KEY of
        Some b \<Rightarrow> dec_meta cd b = Inr \<lparr>pm_map_version = map_version m, pm_next_region_id = next_region_id m\<rparr>
      | None \<Rightarrow> map_version m = 0 \<and> next_region_id m = default_next_region_id)"

definition no_stray_rows :: "(string \<Rightarrow> 'b option) \<Rightarrow> bool" where
  "no_stray_rows rows \<longleftrightarrow>
     (\<forall>row. starts_with row SPACE_PREFIX \<longrightarrow> rows row \<noteq> None \<longrightarrow> (\<exists>k. plain k \<and> row = space_row_key k))"

definition served_map_ok :: "shard_map \<Rightarrow> bool" where
  "served_map_ok m \<longleftrightarrow> map_inv m \<and> next_region_id m \<noteq> 0 \<and> (\<forall>k. hm_get (spaces m) k \<noteq> None \<longrightarrow> plain k)"

text \<open>The rows on disk are those of a map.\<close>

definition in_sync :: "'b codec \<Rightarrow> (string \<Rightarrow> 'b option) \<Rightarrow> shard_map \<Rightarrow> bool" where
  "in_sync cd rows m \<longleftrightarrow>
     meta_ok cd rows m \<and> rows LEGACY_SHARD_MAP_KEY = None \<and> no_stray_rows rows
     \<and> (\<forall>k. plain k \<longrightarrow> row_ok cd rows m k)"

definition same_map :: "shard_map \<Rightarrow> shard_map \<Rightarrow> bool" where
  "same_map a b \<longleftrightarrow> map_version a = map_version b \<and> next_region_id a = next_region_id b
     \<and> hm_get (spaces a) = hm_get (spaces b)"

lemma read_spaces_ok:
  assumes "\<forall>(k, v)\<in>set items. starts_with k SPACE_PREFIX \<longrightarrow> dec_space cd v = Inr (f k)"
  shows "read_spaces cd (map Inr items) =
    Inr (map (\<lambda>(k, _). f k) (takeWhile (\<lambda>(k, _). starts_with k SPACE_PREFIX) items))"
  using assms by (induction items) (auto split: sum.splits)

lemma insert_validated_ok:
  "\<forall>s\<in>set ss. validate s = Inr () \<Longrightarrow>
   insert_validated ss sm = Inr (fold (\<lambda>s. hm_insert (space_key s) s) ss sm)"
  by (induction ss arbitrary: sm) auto

lemma served_space:
  assumes "served_map_ok m" and "hm_get (spaces m) k = Some s"
  shows "space_key s = k" "validate s = Inr ()" "plain k"
proof -
  have "space_inv k s"
    using assms map_invD(2) by (auto simp: served_map_ok_def)
  then show "space_key s = k" and "validate s = Inr ()"
    using space_ok_iff [of s] by (auto simp: space_inv_def space_ok_def)
  show "plain k" using assms by (auto simp: served_map_ok_def)
qed

lemma space_row:
  assumes "in_sync cd rows m" and "served_map_ok m" and "starts_with row SPACE_PREFIX" and "rows row = Some b"
  obtains s where "dec_space cd b = Inr s" "row = space_row_key (space_key s)"
    "hm_get (spaces m) (space_key s) = Some s"
proof -
  obtain k where k: "plain k" "row = space_row_key k"
    using assms by (auto simp: in_sync_def no_stray_rows_def)
  then have "row_ok cd rows m k" using assms(1) by (simp add: in_sync_def)
  then obtain s where s: "hm_get (spaces m) k = Some s" "dec_space cd b = Inr s"
    using assms(4) k(2) by (auto simp: row_ok_def split: option.splits)
  moreover have "space_key s = k" using served_space(1) [OF assms(2) s(1)] .
  ultimately show thesis using that k by blast
qed

lemma load_spaces_sync:
  assumes laws: "rocks_laws kv rows" and sync: "in_sync cd (rows d) m" and ok: "served_map_ok m"
  shows "\<exists>ss. load_spaces kv cd d = Inr ss \<and> set ss = {s. \<exists>k. hm_get (spaces m) k = Some s}
    \<and> distinct (map space_key ss)"
proof -
  obtain items where items: "rdb_iter_from kv d SPACE_PREFIX = map Inr items"
    "sorted_wrt (<) (map fst items)" "set items = {(k, v). rows d k = Some v \<and> SPACE_PREFIX \<le> k}"
    by (rule iter_items [OF laws])
  let ?f = "\<lambda>row. projr (dec_space cd (the (rows d row)))"
  let ?tw = "takeWhile (\<lambda>(k, _). starts_with k SPACE_PREFIX) items"
  let ?ss = "map (\<lambda>(k, _). ?f k) ?tw"
  have dec: "\<exists>s. dec_space cd v = Inr s \<and> ?f k = s \<and> k = space_row_key (space_key s)
      \<and> hm_get (spaces m) (space_key s) = Some s"
    if "(k, v) \<in> set items" "starts_with k SPACE_PREFIX" for k v
    using space_row [OF sync ok that(2), of v] that(1) items(3) by fastforce
  have tw: "set ?tw = {(k, v) \<in> set items. starts_with k SPACE_PREFIX}"
    using items by (intro takeWhile_prefix) auto
  have "load_spaces kv cd d = Inr ?ss"
    unfolding load_spaces_def items(1) using dec by (intro read_spaces_ok) force
  moreover have "set ?ss = {s. \<exists>k. hm_get (spaces m) k = Some s}"
  proof (intro set_eqI iffI)
    fix s
    assume "s \<in> set ?ss"
    then show "s \<in> {s. \<exists>k. hm_get (spaces m) k = Some s}"
      using dec by (force simp: tw)
  next
    fix s
    assume "s \<in> {s. \<exists>k. hm_get (spaces m) k = Some s}"
    then obtain k where k: "hm_get (spaces m) k = Some s" by auto
    then have "row_ok cd (rows d) m k"
      using sync served_space(3) [OF ok k] by (simp add: in_sync_def)
    then obtain b where b: "rows d (space_row_key k) = Some b" "dec_space cd b = Inr s"
      using k by (auto simp: row_ok_def)
    then have "(space_row_key k, b) \<in> set ?tw"
      using items(3) starts_with_ge [OF starts_with_space_row] by (simp add: tw)
    moreover have "?f (space_row_key k) = s" using b by simp
    ultimately show "s \<in> set ?ss" by force
  qed
  moreover have "distinct (map space_key ?ss)"
  proof -
    have "map space_row_key (map space_key ?ss) = map fst ?tw"
      using dec by (force simp: tw intro!: map_cong)
    moreover have "distinct (map fst ?tw)"
      using items(2) by (metis distinct_map distinct_takeWhile inj_on_subset set_takeWhileD
          strict_sorted_iff subsetI)
    ultimately show ?thesis by (metis distinct_map)
  qed
  ultimately show ?thesis by blast
qed

lemma all_regions_distinct_cong:
  assumes "map_inv m" and "hm_wf (spaces m')" and "hm_get (spaces m') = hm_get (spaces m)"
  shows "map_inv m'"
  using assms unfolding map_inv_alt by simp

lemma load_in_sync:
  assumes laws: "rocks_laws kv rows" and sync: "in_sync cd (rows d) m" and ok: "served_map_ok m"
  shows "\<exists>m'. load_map kv cd d = (d, Inr m') \<and> same_map m' m"
proof -
  obtain ss where ss: "load_spaces kv cd d = Inr ss" "set ss = {s. \<exists>k. hm_get (spaces m) k = Some s}"
    "distinct (map space_key ss)"
    using load_spaces_sync [OF assms] by blast
  let ?sm = "fold (\<lambda>s. hm_insert (space_key s) s) ss []"
  let ?m = "\<lparr>map_version = map_version m, next_region_id = next_region_id m, spaces = ?sm\<rparr>"
  have get: "hm_get ?sm k = hm_get (spaces m) k" for k
  proof (cases "hm_get (spaces m) k")
    case None
    then have "k \<notin> space_key ` set ss" using served_space(1) [OF ok] by (auto simp: ss(2))
    then show ?thesis using None by (simp add: hm_get_fold_other)
  next
    case (Some s)
    then show ?thesis
      using hm_get_fold [OF hm_wf_Nil ss(3), of s "\<lambda>s. s"] served_space(1) [OF ok Some] by (auto simp: ss(2))
  qed
  have ins: "insert_validated ss [] = Inr ?sm"
    using served_space(2) [OF ok] by (intro insert_validated_ok) (auto simp: ss(2))
  have "map_inv ?m"
    using ok all_regions_distinct_cong [of m ?m] get by (auto simp: served_map_ok_def hm_wf_fold)
  then have glob: "validate_global_region_ids ?m = Inr ()"
    by (simp add: validate_global_Inr map_inv_def)
  have meta: "load_meta kv cd d = Inr \<lparr>pm_map_version = map_version m, pm_next_region_id = next_region_id m\<rparr>"
    using sync by (auto simp: load_meta_def rdb_get_rows [OF laws] in_sync_def meta_ok_def split: option.splits)
  have nz: "next_region_id m \<noteq> 0" using ok by (simp add: served_map_ok_def)
  have "assemble_map kv cd d = Inr ?m"
    using meta ss(1) ins glob nz by (simp add: assemble_map_def)
  moreover have "migrate_legacy_if_present kv cd d = (d, Inr False)"
    using sync by (simp add: migrate_legacy_if_present_def rdb_get_rows [OF laws] in_sync_def)
  ultimately show ?thesis
    using get by (simp add: load_map_def same_map_def fun_eq_iff)
qed

section \<open>Writing\<close>

lemma write_batch_rows:
  assumes "rocks_laws kv rows" and "write_batch kv d ops = (d', Inr ())"
  shows "rows d' = fold batch_effect ops (rows d)"
proof -
  obtain d1 r where w: "rdb_write kv d ops = (d1, r)" by fastforce
  with assms(2) have "d1 = d'" "r = Inr ()"
    by (auto simp: write_batch_def split: sum.splits)
  with w rdb_write_rows [OF assms(1)] show ?thesis by simp
qed

lemma put_meta_Inr:
  assumes "codec_laws cd" and "put_meta cd m = Inr mp"
  shows "\<exists>b. mp = Put META_KEY b \<and>
    dec_meta cd b = Inr \<lparr>pm_map_version = map_version m, pm_next_region_id = next_region_id m\<rparr>"
  using assms by (auto simp: put_meta_def codec_laws_def split: sum.splits)

lemma persist_space_rows:
  assumes laws: "rocks_laws kv rows" and cd: "codec_laws cd"
    and ok: "persist_space kv cd m k d = (d', Inr ())"
  shows "\<exists>b v. dec_meta cd b = Inr \<lparr>pm_map_version = map_version m, pm_next_region_id = next_region_id m\<rparr>
    \<and> rows d' = (rows d)(META_KEY := Some b, space_row_key k := v)
    \<and> (case hm_get (spaces m) k of
         Some s \<Rightarrow> (\<exists>x. v = Some x \<and> dec_space cd x = Inr s)
       | None \<Rightarrow> v = None)"
proof -
  have key: "map_space m (db k) (rp k) (measurement k) = hm_get (spaces m) k"
    by (cases k) (simp add: map_space_def)
  obtain mp where mp: "put_meta cd m = Inr mp"
    using ok by (auto simp: persist_space_def split: sum.splits)
  from put_meta_Inr [OF cd this] obtain b where b: "mp = Put META_KEY b"
    "dec_meta cd b = Inr \<lparr>pm_map_version = map_version m, pm_next_region_id = next_region_id m\<rparr>" by blast
  show ?thesis
  proof (cases "hm_get (spaces m) k")
    case None
    with ok mp key have "write_batch kv d [mp, Delete (space_row_key k)] = (d', Inr ())"
      by (simp add: persist_space_def)
    from write_batch_rows [OF laws this] b None show ?thesis by auto
  next
    case (Some s)
    with ok mp key obtain v where v: "enc_space cd s = Inr v"
      "write_batch kv d [mp, Put (space_row_key k) v] = (d', Inr ())"
      by (auto simp: persist_space_def split: sum.splits)
    have "dec_space cd v = Inr s" using cd v(1) by (simp add: codec_laws_def)
    with write_batch_rows [OF laws v(2)] b Some show ?thesis by auto
  qed
qed

definition rows_clean :: "(string \<Rightarrow> 'b option) \<Rightarrow> bool" where
  "rows_clean rows \<longleftrightarrow> rows LEGACY_SHARD_MAP_KEY = None \<and> no_stray_rows rows"

lemma persist_spaces_rows:
  assumes laws: "rocks_laws kv rows" and cd: "codec_laws cd"
    and "\<forall>k\<in>set ks. plain k" and "persist_spaces kv cd m ks d = (d', Inr ())" and "rows_clean (rows d)"
  shows "rows_clean (rows d') \<and> (ks \<noteq> [] \<longrightarrow> meta_ok cd (rows d') m)
    \<and> (\<forall>k. plain k \<longrightarrow> (if k \<in> set ks then row_ok cd (rows d') m k
          else rows d' (space_row_key k) = rows d (space_row_key k)))"
  using assms(3-)
proof (induction ks arbitrary: d)
  case (Cons k ks)
  obtain d1 where d1: "persist_space kv cd m k d = (d1, Inr ())" "persist_spaces kv cd m ks d1 = (d', Inr ())"
    using Cons.prems(2) by (auto split: prod.splits sum.splits)
  have pk: "plain k" using Cons.prems(1) by simp
  from persist_space_rows [OF laws cd d1(1)] obtain b v where
    b: "dec_meta cd b = Inr \<lparr>pm_map_version = map_version m, pm_next_region_id = next_region_id m\<rparr>"
    and rows: "rows d1 = (rows d)(META_KEY := Some b, space_row_key k := v)"
    and v: "case hm_get (spaces m) k of
         Some s \<Rightarrow> (\<exists>x. v = Some x \<and> dec_space cd x = Inr s)
       | None \<Rightarrow> v = None" by blast
  have clean: "rows_clean (rows d1)"
    using Cons.prems(3) pk by (auto simp: rows_clean_def no_stray_rows_def rows)
  have meta: "meta_ok cd (rows d1) m" using b by (simp add: meta_ok_def rows)
  have row: "row_ok cd (rows d1) m k"
    using v by (auto simp: row_ok_def rows split: option.splits)
  have other: "rows d1 (space_row_key k') = rows d (space_row_key k')" if "plain k'" "k' \<noteq> k" for k'
    using that space_row_key_inj [OF that(1) pk] by (auto simp: rows)
  have ih: "rows_clean (rows d') \<and> (ks \<noteq> [] \<longrightarrow> meta_ok cd (rows d') m)
      \<and> (\<forall>k. plain k \<longrightarrow> (if k \<in> set ks then row_ok cd (rows d') m k
          else rows d' (space_row_key k) = rows d1 (space_row_key k)))"
    using Cons.IH [OF _ d1(2) clean] Cons.prems(1) by simp
  have "meta_ok cd (rows d') m" using ih meta d1(2) by (cases ks) auto
  moreover have "row_ok cd (rows d') m k"
  proof (cases "k \<in> set ks")
    case False
    then have "rows d' (space_row_key k) = rows d1 (space_row_key k)" using ih pk by simp
    with row row_ok_cong show ?thesis by metis
  qed (use ih pk in simp)
  ultimately show ?case using ih other by auto
qed (simp)

text \<open>The state of a store: the served map is sound and its rows are on disk.\<close>

definition store_ok :: "'b codec \<Rightarrow> ('d \<Rightarrow> string \<Rightarrow> 'b option) \<Rightarrow> 'd shard_store \<Rightarrow> bool" where
  "store_ok cd rows st \<longleftrightarrow> served_map_ok (ss_cache st) \<and> in_sync cd (rows (ss_db st)) (ss_cache st)"

lemma apply_op_Inr:
  assumes "apply_op kv cd op st = (st', Inr m)"
  obtains d' where "apply_shard_map_op (ss_cache st) op = (m, Inr ())"
    "persist_spaces kv cd m (affected_space_keys op (ss_cache st)) (ss_db st) = (d', Inr ())"
    "st' = st\<lparr>ss_db := d', ss_cache := m\<rparr>"
  using assms by (auto simp: apply_op_def Let_def split: prod.splits sum.splits)

lemma saturating_add_1_nonzero: "saturating_add a 1 \<noteq> (0 :: 'w::len word)"
  by (auto simp: saturating_add_1 eq_neg_iff_add_eq_0)

lemma apply_next_nonzero:
  assumes "next_region_id m \<noteq> 0" and "apply_shard_map_op m op = (m', r)"
  shows "next_region_id m' \<noteq> 0"
proof -
  have max: "max a b \<noteq> 0" if "a \<noteq> 0" for a b :: u64
    using that max.cobounded1 [of a b] by (metis word_le_0_iff)
  have "next_region_id (fst (apply_shard_map_op m op)) \<noteq> 0"
    using assms(1)
    by (cases op)
      (auto simp: apply_shard_map_op_def bootstrap_presplit_def bootstrap_measurement_def
        install_space_def apply_split_def apply_merge_def drop_space_def with_region_def Let_def
        saturating_add_1_nonzero max split: option.splits sum.splits list.splits)
  then show ?thesis by (simp add: assms(2))
qed

lemma apply_served:
  assumes "served_map_ok m" and "op_ok op" and "apply_shard_map_op m op = (m', Inr ())"
    and "list_all plain (affected_space_keys op m)"
  shows "served_map_ok m'"
proof -
  have inv: "map_inv m" using assms(1) by (simp add: served_map_ok_def)
  have "plain k" if "hm_get (spaces m') k \<noteq> None" for k
  proof (cases "k \<in> set (affected_space_keys op m)")
    case False
    then have "hm_get (spaces m) k \<noteq> None"
      using affected_frame [OF map_invD(1) [OF inv] False] assms(3) that by simp
    then show ?thesis using assms(1) by (simp add: served_map_ok_def)
  qed (use assms(4) in \<open>simp add: list_all_iff\<close>)
  then show ?thesis
    using apply_inv [OF inv assms(2,3)] apply_next_nonzero [OF _ assms(3)] assms(1)
    by (simp add: served_map_ok_def)
qed

lemma apply_op_sync:
  assumes laws: "rocks_laws kv rows" and cd: "codec_laws cd" and st: "store_ok cd rows st"
    and ok: "apply_op kv cd op st = (st', Inr m)" and op: "op_ok op"
    and keys: "list_all plain (affected_space_keys op (ss_cache st))"
    and some: "affected_space_keys op (ss_cache st) \<noteq> []"
  shows "store_ok cd rows st' \<and> ss_cache st' = m"
proof -
  let ?ks = "affected_space_keys op (ss_cache st)"
  from ok obtain d' where a: "apply_shard_map_op (ss_cache st) op = (m, Inr ())"
    and p: "persist_spaces kv cd m ?ks (ss_db st) = (d', Inr ())"
    and st': "st' = st\<lparr>ss_db := d', ss_cache := m\<rparr>"
    by (rule apply_op_Inr)
  have served: "served_map_ok m"
    using apply_served [OF _ op a keys] st by (simp add: store_ok_def)
  have clean: "rows_clean (rows (ss_db st))" and old: "\<forall>k. plain k \<longrightarrow> row_ok cd (rows (ss_db st)) (ss_cache st) k"
    and wf: "hm_wf (spaces (ss_cache st))"
    using st by (auto simp: store_ok_def in_sync_def rows_clean_def served_map_ok_def map_inv_def)
  have new: "rows_clean (rows d')" "meta_ok cd (rows d') m"
    "\<forall>k. plain k \<longrightarrow> (if k \<in> set ?ks then row_ok cd (rows d') m k
          else rows d' (space_row_key k) = rows (ss_db st) (space_row_key k))"
    using persist_spaces_rows [OF laws cd _ p clean] keys some by (auto simp: list_all_iff)
  have "row_ok cd (rows d') m k" if "plain k" for k
  proof (cases "k \<in> set ?ks")
    case False
    have "hm_get (spaces m) k = hm_get (spaces (ss_cache st)) k"
      using affected_frame [OF wf False] a by simp
    moreover have "rows d' (space_row_key k) = rows (ss_db st) (space_row_key k)"
      using new(3) that False by simp
    ultimately show ?thesis using old that row_ok_cong by metis
  qed (use new(3) that in simp)
  then show ?thesis
    using new served by (simp add: store_ok_def st' in_sync_def rows_clean_def)
qed

lemma put_spaces_other:
  "put_spaces cd ss = Inr ops \<Longrightarrow> row \<notin> (\<lambda>s. space_row_key (space_key s)) ` set ss \<Longrightarrow>
   fold batch_effect ops rows row = rows row"
  by (induction ss arbitrary: ops rows) (auto split: sum.splits)

lemma put_spaces_row:
  assumes "codec_laws cd" and "put_spaces cd ss = Inr ops" and "distinct (map space_key ss)"
    and "\<forall>s\<in>set ss. plain (space_key s)" and "s \<in> set ss"
  shows "\<exists>v. fold batch_effect ops rows (space_row_key (space_key s)) = Some v \<and> dec_space cd v = Inr s"
  using assms(2-)
proof (induction ss arbitrary: ops rows)
  case (Cons x ss)
  obtain v ops' where v: "enc_space cd x = Inr v" "put_spaces cd ss = Inr ops'"
    "ops = Put (space_row_key (space_key x)) v # ops'"
    using Cons.prems(1) by (auto split: sum.splits)
  show ?case
  proof (cases "s = x")
    case True
    have "space_row_key (space_key x) \<notin> (\<lambda>s. space_row_key (space_key s)) ` set ss"
    proof
      assume "space_row_key (space_key x) \<in> (\<lambda>s. space_row_key (space_key s)) ` set ss"
      then obtain y where y: "y \<in> set ss" "space_row_key (space_key x) = space_row_key (space_key y)"
        by auto
      then have "space_key x = space_key y"
        using Cons.prems(3) by (intro space_row_key_inj) auto
      then show False using y(1) Cons.prems(2) by auto
    qed
    then show ?thesis
      using True v assms(1) put_spaces_other [OF v(2)] by (simp add: codec_laws_def)
  next
    case False
    then show ?thesis using Cons.IH [OF v(2)] Cons.prems v(3) by simp
  qed
qed simp

lemma delete_rows:
  "fold batch_effect (map (\<lambda>s. Delete (f s)) ss) rows row = (if row \<in> f ` set ss then None else rows row)"
  by (induction ss arbitrary: rows) auto

lemma hm_values_distinct:
  assumes "hm_wf h" and "\<And>k s. hm_get h k = Some s \<Longrightarrow> space_key s = k"
  shows "distinct (map space_key (hm_values h))"
proof -
  have "map space_key (hm_values h) = hm_keys h"
    using assms
    by (auto simp: hm_values_def hm_keys_def hm_get_def hm_wf_def intro!: map_cong)
  then show ?thesis using assms(1) by (simp add: hm_wf_def hm_keys_def)
qed

lemma served_values:
  assumes "served_map_ok m"
  shows "set (hm_values (spaces m)) = {s. \<exists>k. hm_get (spaces m) k = Some s}"
    and "distinct (map space_key (hm_values (spaces m)))"
proof -
  have wf: "hm_wf (spaces m)" using assms by (simp add: served_map_ok_def map_inv_def)
  then show "set (hm_values (spaces m)) = {s. \<exists>k. hm_get (spaces m) k = Some s}"
    using hm_values_get [OF wf] by auto
  show "distinct (map space_key (hm_values (spaces m)))"
    using hm_values_distinct [OF wf served_space(1) [OF assms]] .
qed

lemma served_row_iff:
  assumes "served_map_ok m" and "plain k"
  shows "space_row_key k \<in> (\<lambda>s. space_row_key (space_key s)) ` set (hm_values (spaces m)) \<longleftrightarrow>
    hm_get (spaces m) k \<noteq> None"
proof
  assume "space_row_key k \<in> (\<lambda>s. space_row_key (space_key s)) ` set (hm_values (spaces m))"
  then obtain k' s where s: "hm_get (spaces m) k' = Some s" "space_row_key k = space_row_key (space_key s)"
    by (auto simp: served_values(1) [OF assms(1)])
  then have "k = k'"
    using served_space [OF assms(1) s(1)] space_row_key_inj [OF assms(2), of k'] by simp
  with s(1) show "hm_get (spaces m) k \<noteq> None" by simp
next
  assume "hm_get (spaces m) k \<noteq> None"
  then obtain s where "hm_get (spaces m) k = Some s" by auto
  with served_space(1) [OF assms(1) this]
  show "space_row_key k \<in> (\<lambda>s. space_row_key (space_key s)) ` set (hm_values (spaces m))"
    by (force simp: served_values(1) [OF assms(1)])
qed

lemma persist_full_effect:
  assumes laws: "rocks_laws kv rows" and cd: "codec_laws cd" and ok: "served_map_ok m"
    and old: "load_spaces kv cd d = Inr old" and p: "persist_full_map kv cd d m = (d', Inr ())"
  obtains b where
    "dec_meta cd b = Inr \<lparr>pm_map_version = map_version m, pm_next_region_id = next_region_id m\<rparr>"
    "\<forall>row. row \<notin> (\<lambda>s. space_row_key (space_key s)) ` set (hm_values (spaces m)) \<longrightarrow>
       rows d' row = (if \<exists>s\<in>set old. \<not> hm_contains (spaces m) (space_key s) \<and> row = space_row_key (space_key s)
                      then None else ((rows d)(META_KEY := Some b)) row)"
    "\<forall>k s. hm_get (spaces m) k = Some s \<longrightarrow>
       (\<exists>v. rows d' (space_row_key k) = Some v \<and> dec_space cd v = Inr s)"
proof -
  let ?gone = "filter (\<lambda>s. \<not> hm_contains (spaces m) (space_key s)) old"
  let ?dels = "map (\<lambda>s. Delete (space_row_key (space_key s))) ?gone"
  obtain mp ops where mp: "put_meta cd m = Inr mp" and ops: "put_spaces cd (hm_values (spaces m)) = Inr ops"
    and w: "write_batch kv d (mp # ?dels @ ops) = (d', Inr ())"
    using p old by (auto simp: persist_full_map_def Let_def split: sum.splits)
  obtain b where b: "mp = Put META_KEY b"
    "dec_meta cd b = Inr \<lparr>pm_map_version = map_version m, pm_next_region_id = next_region_id m\<rparr>"
    using put_meta_Inr [OF cd mp] by blast
  define rows1 where "rows1 = fold batch_effect ?dels ((rows d)(META_KEY := Some b))"
  have rows': "rows d' = fold batch_effect ops rows1"
    using write_batch_rows [OF laws w] b(1) by (simp add: rows1_def)
  have other: "rows d' row = (if \<exists>s\<in>set old. \<not> hm_contains (spaces m) (space_key s) \<and> row = space_row_key (space_key s)
      then None else ((rows d)(META_KEY := Some b)) row)"
    if "row \<notin> (\<lambda>s. space_row_key (space_key s)) ` set (hm_values (spaces m))" for row
    unfolding rows' put_spaces_other [OF ops that] rows1_def delete_rows by (auto simp: image_iff)
  have put: "\<exists>v. rows d' (space_row_key k) = Some v \<and> dec_space cd v = Inr s"
    if k: "hm_get (spaces m) k = Some s" for k s
  proof -
    have "s \<in> set (hm_values (spaces m))" using k by (auto simp: served_values(1) [OF ok])
    moreover have "\<forall>s\<in>set (hm_values (spaces m)). plain (space_key s)"
      using served_space [OF ok] by (auto simp: served_values(1) [OF ok])
    ultimately show ?thesis
      using put_spaces_row [OF cd ops served_values(2) [OF ok]] served_space(1) [OF ok k]
      unfolding rows' by blast
  qed
  show thesis using b(2) other put by (intro that) blast+
qed

lemma persist_full_rows:
  assumes laws: "rocks_laws kv rows" and cd: "codec_laws cd" and sync: "in_sync cd (rows d) m0"
    and ok0: "served_map_ok m0" and ok: "served_map_ok m"
    and p: "persist_full_map kv cd d m = (d', Inr ())"
  shows "in_sync cd (rows d') m"
proof -
  obtain old where old: "load_spaces kv cd d = Inr old" "set old = {s. \<exists>k. hm_get (spaces m0) k = Some s}"
    using load_spaces_sync [OF laws sync ok0] by blast
  let ?R = "(\<lambda>s. space_row_key (space_key s)) ` set (hm_values (spaces m))"
  obtain b where b: "dec_meta cd b = Inr \<lparr>pm_map_version = map_version m, pm_next_region_id = next_region_id m\<rparr>"
    and other: "\<forall>row. row \<notin> ?R \<longrightarrow>
       rows d' row = (if \<exists>s\<in>set old. \<not> hm_contains (spaces m) (space_key s) \<and> row = space_row_key (space_key s)
                      then None else ((rows d)(META_KEY := Some b)) row)"
    and put: "\<forall>k s. hm_get (spaces m) k = Some s \<longrightarrow>
       (\<exists>v. rows d' (space_row_key k) = Some v \<and> dec_space cd v = Inr s)"
    by (rule persist_full_effect [OF laws cd ok old(1) p])
  have row: "row_ok cd (rows d') m k" if pk: "plain k" for k
  proof (cases "hm_get (spaces m) k")
    case (Some s)
    with put show ?thesis by (simp add: row_ok_def)
  next
    case None
    then have nR: "space_row_key k \<notin> ?R" using served_row_iff [OF ok pk] by simp
    have "row_ok cd (rows d) m0 k" using sync pk by (simp add: in_sync_def)
    moreover have "\<exists>s\<in>set old. \<not> hm_contains (spaces m) (space_key s) \<and> space_row_key k = space_row_key (space_key s)"
      if "hm_get (spaces m0) k = Some s" for s
      using that None served_space(1) [OF ok0 that] old(2) by (auto simp: hm_contains_def)
    ultimately have "rows d' (space_row_key k) = None"
      unfolding other [rule_format, OF nR] by (auto simp: row_ok_def split: option.splits)
    with None show ?thesis by (simp add: row_ok_def)
  qed
  have "rows d' META_KEY = Some b" "rows d' LEGACY_SHARD_MAP_KEY = None"
    using sync by (auto simp: other in_sync_def image_iff)
  moreover have "\<exists>k. plain k \<and> row = space_row_key k"
    if sw: "starts_with row SPACE_PREFIX" and some: "rows d' row \<noteq> None" for row
  proof (cases "row \<in> ?R")
    case True
    then obtain k s where ks: "hm_get (spaces m) k = Some s" "row = space_row_key (space_key s)"
      by (auto simp: served_values(1) [OF ok])
    with served_space(1,3) [OF ok ks(1)] show ?thesis by auto
  next
    case False
    then have "rows d row \<noteq> None" using some sw by (auto simp: other split: if_splits)
    then show ?thesis using sync sw by (auto simp: in_sync_def no_stray_rows_def)
  qed
  ultimately show ?thesis using b row by (simp add: in_sync_def meta_ok_def no_stray_rows_def)
qed

lemma replace_map_sync:
  assumes "rocks_laws kv rows" and "codec_laws cd" and "store_ok cd rows st"
    and "served_map_ok m" and "replace_map kv cd m st = (st', Inr ())"
  shows "store_ok cd rows st' \<and> ss_cache st' = m"
proof -
  obtain d' where "persist_full_map kv cd (ss_db st) m = (d', Inr ())" "st' = st\<lparr>ss_db := d', ss_cache := m\<rparr>"
    using assms(5) by (auto simp: replace_map_def split: sum.splits prod.splits)
  then show ?thesis
    using persist_full_rows [OF assms(1,2) _ _ assms(4)] assms(3,4) by (auto simp: store_ok_def)
qed

section \<open>A codec with these laws\<close>

datatype row_value = MetaRow map_meta | SpaceRow measurement_shard_space | LegacyRow shard_map_json

definition row_codec :: "row_value codec" where
  "row_codec =
     \<lparr>enc_meta = (\<lambda>x. Inr (MetaRow x)),
      dec_meta = (\<lambda>r. case r of MetaRow x \<Rightarrow> Inr x | _ \<Rightarrow> Inl ''meta''),
      enc_space = (\<lambda>x. Inr (SpaceRow x)),
      dec_space = (\<lambda>r. case r of SpaceRow x \<Rightarrow> Inr x | _ \<Rightarrow> Inl ''space''),
      dec_legacy = (\<lambda>r. case r of LegacyRow x \<Rightarrow> Inr x | _ \<Rightarrow> Inl ''legacy'')\<rparr>"

lemma row_codec_laws: "codec_laws row_codec"
  by (auto simp: codec_laws_def row_codec_def)

definition empty_store :: "(string \<times> row_value) list shard_store" where
  "empty_store = \<lparr>ss_db = [], ss_cache = default_shard_map, ss_enabled = True\<rparr>"

lemma empty_store_ok: "store_ok row_codec map_of empty_store"
  using map_inv_default
  by (simp add: store_ok_def empty_store_def served_map_ok_def in_sync_def meta_ok_def
      no_stray_rows_def row_ok_def default_shard_map_def default_next_region_id_def)

section \<open>Properties\<close>

text \<open>
  C13. An operation that the store has acknowledged survives a restart: when the served map is what
  the rows on disk hold, then after an acknowledged operation that touches at least one space
  loading the rows gives the acknowledged map, and the store is again in that state. The names of
  the spaces it touches are plain, that is without the separator of the row keys, and the regions
  it brings are well formed (\<open>op_ok\<close>); an operation that touches no space writes nothing.
\<close>

theorem acknowledged_op_survives_restart:
  assumes "rocks_laws kv rows" and "codec_laws cd" and "store_ok cd rows st"
    and "op_ok op" and "list_all plain (affected_space_keys op (ss_cache st))"
    and "affected_space_keys op (ss_cache st) \<noteq> []" and "apply_op kv cd op st = (st', Inr m)"
  shows "store_ok cd rows st' \<and> ss_cache st' = m
    \<and> (\<exists>m'. load_map kv cd (ss_db st') = (ss_db st', Inr m') \<and> same_map m' m)"
proof -
  have st': "store_ok cd rows st'" "ss_cache st' = m"
    using apply_op_sync [OF assms(1-3,7,4,5,6)] by auto
  then show ?thesis
    using load_in_sync [OF assms(1), of cd "ss_db st'" m] by (simp add: store_ok_def)
qed

definition demo_op :: shard_map_op where
  "demo_op = BootstrapMeasurement demo_key (demo_region 1 0 u64_max [1, 2] 1)"

lemma demo_apply:
  "apply_op list_kv row_codec demo_op empty_store =
     (fst (apply_op list_kv row_codec demo_op empty_store), Inr demo_map)"
proof -
  have "snd (apply_op list_kv row_codec demo_op empty_store) = Inr demo_map" by code_simp
  then show ?thesis by (metis prod.collapse)
qed

theorem acknowledged_op_survives_restart_witness:
  "\<exists>m'. snd (load_map list_kv row_codec (ss_db (fst (apply_op list_kv row_codec demo_op empty_store)))) = Inr m'
    \<and> same_map m' demo_map"
proof -
  have "op_ok demo_op" "list_all plain (affected_space_keys demo_op (ss_cache empty_store))"
    "affected_space_keys demo_op (ss_cache empty_store) \<noteq> []"
    by code_simp+
  from acknowledged_op_survives_restart [OF list_kv_laws row_codec_laws empty_store_ok this demo_apply]
  show ?thesis by (metis demo_apply fst_conv snd_conv)
qed

text \<open>
  A map received from another node and installed whole survives a restart as well, whatever
  spaces the store held before: loading the rows gives the installed map, without any of the old
  spaces that are not part of it.
\<close>

theorem installed_map_survives_restart:
  assumes "rocks_laws kv rows" and "codec_laws cd" and "store_ok cd rows st"
    and "served_map_ok m" and "replace_map kv cd m st = (st', Inr ())"
  shows "store_ok cd rows st' \<and> ss_cache st' = m
    \<and> (\<exists>m'. load_map kv cd (ss_db st') = (ss_db st', Inr m') \<and> same_map m' m)"
proof -
  have st': "store_ok cd rows st'" "ss_cache st' = m"
    using replace_map_sync [OF assms] by auto
  then show ?thesis
    using load_in_sync [OF assms(1), of cd "ss_db st'" m] by (simp add: store_ok_def)
qed

lemma demo_map_served: "served_map_ok demo_map"
proof -
  have "plain demo_key" by code_simp
  then show ?thesis
    using demo_map_inv by (auto simp: served_map_ok_def demo_map_eq hm_get_def split: if_splits)
qed

theorem installed_map_survives_restart_witness:
  "\<exists>m'. snd (load_map list_kv row_codec (ss_db (fst (replace_map list_kv row_codec demo_map empty_store)))) = Inr m'
    \<and> same_map m' demo_map"
proof -
  have "snd (replace_map list_kv row_codec demo_map empty_store) = Inr ()" by code_simp
  then have "replace_map list_kv row_codec demo_map empty_store =
      (fst (replace_map list_kv row_codec demo_map empty_store), Inr ())" by (metis prod.collapse)
  from installed_map_survives_restart [OF list_kv_laws row_codec_laws empty_store_ok demo_map_served this]
  show ?thesis by auto
qed

text \<open>
  An operation that fails leaves the served map as it was, whether the log refused it or the
  disk failed; a refused operation does not touch the disk either.
\<close>

theorem failed_op_keeps_served_map:
  assumes "apply_op kv cd op st = (st', Inl e)"
  shows "ss_cache st' = ss_cache st \<and> (\<forall>err. e = ApplyError err \<longrightarrow> st' = st)"
proof -
  have "persist_spaces kv cd m ks d = (d', Inl e) \<Longrightarrow> e \<noteq> ApplyError err" for m ks d d' err
    by (induction ks arbitrary: d)
      (auto simp: persist_space_def put_meta_def write_batch_def split: sum.splits prod.splits option.splits)
  then show ?thesis
    using assms by (auto simp: apply_op_def Let_def split: prod.splits sum.splits)
qed

theorem failed_op_keeps_served_map_witness:
  "ss_cache (fst (apply_op list_kv row_codec (RemovePeer demo_key 1 1 default_epoch) empty_store)) = default_shard_map"
proof -
  have eq: "apply_op list_kv row_codec (RemovePeer demo_key 1 1 default_epoch) empty_store =
      (empty_store, Inl (ApplyError UnknownSpace))" by code_simp
  from failed_op_keeps_served_map [OF eq] show ?thesis
    unfolding eq by (simp add: empty_store_def)
qed

text \<open>
  Dropping a space that does not exist is acknowledged with a higher map version, but nothing
  is written: after a restart the store serves the previous version.
\<close>

theorem drop_of_nothing_is_lost:
  "map_option map_version (case snd (apply_op list_kv row_codec (DropSpace ''x'' None None) empty_store) of
       Inr m \<Rightarrow> Some m | Inl _ \<Rightarrow> None) = Some 1
   \<and> (case snd (load_map list_kv row_codec
          (ss_db (fst (apply_op list_kv row_codec (DropSpace ''x'' None None) empty_store)))) of
        Inr m \<Rightarrow> map_version m = 0 | Inl _ \<Rightarrow> False)"
  by code_simp

end
