(* ===== verification/Byte_Codec.thy ===== *)
theory Byte_Codec
  imports HB_Prelude "HOL-Library.List_Lexorder" "HOL-Library.Char_ord"
begin

text \<open>
  The number formats of the standard library that the persistent components use in keys and values:
  big-endian bytes, fixed-width lower-case hexadecimal, decimal, and reading numbers back in a
  radix. Fixed-width big-endian digits sort as the numbers they denote, which is what range scans
  and range deletes over numbered keys rely on.
\<close>

section \<open>Digits\<close>

definition digits_be :: "nat \<Rightarrow> nat \<Rightarrow> nat \<Rightarrow> nat list" where
  "digits_be b k n = map (\<lambda>i. n div b ^ i mod b) (rev [0..<k])"

definition digits_value :: "nat \<Rightarrow> nat list \<Rightarrow> nat" where
  "digits_value b ds = foldl (\<lambda>acc d. acc * b + d) 0 ds"

fun decimal_digits :: "nat \<Rightarrow> nat list" where
  "decimal_digits n = (if n < 10 then [n] else decimal_digits (n div 10) @ [n mod 10])"

declare decimal_digits.simps [simp del]

definition digit_char :: "nat \<Rightarrow> char" where
  "digit_char d = (if d < 10 then char_of (48 + d) else char_of (87 + d))"

definition char_digit :: "nat \<Rightarrow> char \<Rightarrow> nat option" where
  "char_digit radix c =
     (let n = of_char c :: nat;
          d = (if 48 \<le> n \<and> n \<le> 57 then Some (n - 48)
               else if 97 \<le> n \<and> n \<le> 122 then Some (n - 87)
               else if 65 \<le> n \<and> n \<le> 90 then Some (n - 55)
               else None)
      in case d of Some k \<Rightarrow> if k < radix then Some k else None | None \<Rightarrow> None)"

section \<open>Formats\<close>

definition to_be_bytes :: "u64 \<Rightarrow> u8 list" where
  "to_be_bytes x = map word_of_nat (digits_be 256 8 (unat x))"

definition from_be_bytes :: "u8 list \<Rightarrow> u64" where
  "from_be_bytes bs = word_of_nat (digits_value 256 (map unat bs))"

definition hex16 :: "u64 \<Rightarrow> string" where
  "hex16 x = map digit_char (digits_be 16 16 (unat x))"

definition decimal :: "u64 \<Rightarrow> string" where
  "decimal x = map digit_char (decimal_digits (unat x))"

text \<open>\<open>u64::from_str_radix\<close>: an optional plus sign, at least one digit, and no overflow.\<close>

fun parse_digits :: "nat \<Rightarrow> nat \<Rightarrow> string \<Rightarrow> nat option" where
  "parse_digits radix acc [] = Some acc"
| "parse_digits radix acc (c # cs) =
     (case char_digit radix c of
        None \<Rightarrow> None
      | Some d \<Rightarrow>
          if acc * radix + d < 2 ^ 64 then parse_digits radix (acc * radix + d) cs else None)"

definition from_str_radix :: "nat \<Rightarrow> string \<Rightarrow> u64 option" where
  "from_str_radix radix s =
     (let ds = (case s of c # cs \<Rightarrow> if c = CHR ''+'' then cs else s | [] \<Rightarrow> [])
      in if ds = [] then None else map_option word_of_nat (parse_digits radix 0 ds))"

section \<open>Digits and values\<close>

lemma digits_be_Suc: "digits_be b (Suc k) n = (n div b ^ k mod b) # digits_be b k n"
  by (simp add: digits_be_def)

lemma digits_be_length [simp]: "length (digits_be b k n) = k"
  by (simp add: digits_be_def)

lemma digits_be_bound: "0 < b \<Longrightarrow> d \<in> set (digits_be b k n) \<Longrightarrow> d < b"
  by (auto simp: digits_be_def)

lemma foldl_value:
  fixes b :: nat
  shows "foldl (\<lambda>acc d. acc * b + d) a ds = a * b ^ length ds + foldl (\<lambda>acc d. acc * b + d) 0 ds"
proof (induction ds arbitrary: a)
  case (Cons d ds)
  show ?case
    using Cons.IH [of "a * b + d"] Cons.IH [of d] by (simp add: algebra_simps)
qed simp

lemma digits_value_Cons: "digits_value b (d # ds) = d * b ^ length ds + digits_value b ds"
  using foldl_value [of b d ds] by (simp add: digits_value_def)

lemma digits_value_be: "digits_value b (digits_be b k n) = n mod b ^ k"
proof (induction k)
  case 0
  show ?case by (simp add: digits_be_def digits_value_def)
next
  case (Suc k)
  have "n mod b ^ Suc k = b ^ k * (n div b ^ k mod b) + n mod b ^ k"
    using mod_mult2_eq [of n "b ^ k" b] by (simp add: mult.commute)
  with Suc show ?case by (simp add: digits_be_Suc digits_value_Cons mult.commute)
qed

lemma mod_div_power:
  fixes b :: nat
  assumes "i < k" and "0 < b"
  shows "n mod b ^ k div b ^ i mod b = n div b ^ i mod b"
proof -
  obtain j where j: "k = i + Suc j" by (metis add_Suc_right less_imp_Suc_add assms(1))
  have pos: "0 < b ^ i" using assms(2) by simp
  have "n mod b ^ k = b ^ i * (n div b ^ i mod b ^ Suc j) + n mod b ^ i"
    unfolding j power_add by (rule mod_mult2_eq)
  then have "n mod b ^ k div b ^ i = n div b ^ i mod b ^ Suc j"
    using pos by simp
  moreover have "n div b ^ i mod b ^ Suc j mod b = n div b ^ i mod b"
    by (rule mod_mod_cancel) simp
  ultimately show ?thesis by simp
qed

lemma digits_be_mod: "0 < b \<Longrightarrow> digits_be b k (n mod b ^ k) = digits_be b k n"
  by (simp add: digits_be_def mod_div_power)

lemma digits_be_less:
  "n < m \<Longrightarrow> m < b ^ k \<Longrightarrow> digits_be b k n < digits_be b k m"
proof (induction k arbitrary: n m)
  case (Suc k)
  have pos: "0 < b ^ k" using Suc.prems(2) by (cases "b ^ k = 0") auto
  have "n div b ^ k < b" "m div b ^ k < b"
    using Suc.prems pos by (auto simp: less_mult_imp_div_less mult.commute)
  moreover have le: "n div b ^ k \<le> m div b ^ k" using Suc.prems(1) by (simp add: div_le_mono)
  moreover have "digits_be b k n < digits_be b k m" if "n div b ^ k = m div b ^ k"
  proof -
    have "n mod b ^ k < m mod b ^ k"
      using Suc.prems(1) that by (metis div_mult_mod_eq nat_add_left_cancel_less)
    moreover have "0 < b" using Suc.prems(2) by (cases b) auto
    ultimately show ?thesis using Suc.IH [of "n mod b ^ k" "m mod b ^ k"] pos by (simp add: digits_be_mod)
  qed
  ultimately show ?case by (auto simp: digits_be_Suc)
qed simp

section \<open>Characters\<close>

lemma of_digit_char:
  "d < 16 \<Longrightarrow> of_char (digit_char d) = (if d < 10 then 48 + d else 87 + d :: nat)"
  by (simp add: digit_char_def)

lemma digit_char_less: "d < e \<Longrightarrow> e < 16 \<Longrightarrow> digit_char d < digit_char e"
  by (simp add: less_char_def of_digit_char)

lemma char_digit_char: "d < radix \<Longrightarrow> radix \<le> 16 \<Longrightarrow> char_digit radix (digit_char d) = Some d"
  by (auto simp: char_digit_def of_digit_char Let_def)

lemma digit_char_not_plus: "d < 16 \<Longrightarrow> digit_char d \<noteq> CHR ''+''"
  using of_digit_char [of d] by (auto split: if_splits)

lemma map_strict_mono_list:
  assumes "\<And>x y. x \<in> set xs \<Longrightarrow> y \<in> set ys \<Longrightarrow> x < y \<Longrightarrow> f x < f y" and "xs < ys"
  shows "map f xs < map f (ys :: 'a::linorder list)"
  using assms
proof (induction xs arbitrary: ys)
  case Nil
  then show ?case by (cases ys) auto
next
  case (Cons x xs)
  then obtain y ys' where ys: "ys = y # ys'" by (cases ys) auto
  with Cons.prems(2) consider "x < y" | "x = y" "xs < ys'" by auto
  then show ?case
  proof cases
    case 1
    then show ?thesis using Cons.prems(1) ys by simp
  next
    case 2
    then show ?thesis using Cons.IH [of ys'] Cons.prems(1) ys by simp
  qed
qed

section \<open>Round trips and order\<close>

lemma unat_lt_64: "unat (x :: u64) < 2 ^ 64"
  using unsigned_less [of x] by simp

lemma from_to_be_bytes [simp]: "from_be_bytes (to_be_bytes x) = x"
proof -
  have "map unat (map (word_of_nat :: nat \<Rightarrow> u8) (digits_be 256 8 (unat x))) = digits_be 256 8 (unat x)"
    using digits_be_bound [of 256 _ 8 "unat x"]
    by (simp add: comp_def unat_of_nat take_bit_eq_mod map_idI)
  moreover have "(256 :: nat) ^ 8 = 2 ^ 64" by simp
  ultimately show ?thesis
    using unat_lt_64 [of x]
    by (simp add: from_be_bytes_def to_be_bytes_def digits_value_be del: map_map)
qed

lemma to_be_bytes_length [simp]: "length (to_be_bytes x) = 8"
  by (simp add: to_be_bytes_def)

lemma digits_value_bound: "\<forall>d\<in>set ds. d < b \<Longrightarrow> digits_value b ds < b ^ length ds"
proof (induction ds)
  case Nil
  show ?case by (simp add: digits_value_def)
next
  case (Cons d ds)
  then have "digits_value b ds < b ^ length ds" "Suc d \<le> b" by auto
  moreover have "Suc d * b ^ length ds \<le> b * b ^ length ds" using \<open>Suc d \<le> b\<close> by (rule mult_le_mono1)
  ultimately show ?case by (simp add: digits_value_Cons)
qed

lemma digits_be_value: "\<forall>d\<in>set ds. d < b \<Longrightarrow> digits_be b (length ds) (digits_value b ds) = ds"
proof (induction ds)
  case Nil
  show ?case by (simp add: digits_be_def)
next
  case (Cons d ds)
  then have d: "d < b" and lt: "digits_value b ds < b ^ length ds" by (auto intro: digits_value_bound)
  have "digits_be b (length ds) (d * b ^ length ds + digits_value b ds) = ds"
    using Cons d digits_be_mod [of b "length ds" "d * b ^ length ds + digits_value b ds"] lt by simp
  then show ?case using d lt by (simp add: digits_be_Suc digits_value_Cons)
qed

lemma to_from_be_bytes: "length bs = 8 \<Longrightarrow> to_be_bytes (from_be_bytes bs) = bs"
proof -
  assume len: "length bs = 8"
  let ?ds = "map unat bs"
  have "unat x < 256" for x :: u8 using unsigned_less [of x] by simp
  then have b: "\<forall>d\<in>set ?ds. d < 256" by auto
  with digits_value_bound [of ?ds 256] len have "digits_value 256 ?ds < 2 ^ 64" by simp
  then have "unat (word_of_nat (digits_value 256 ?ds) :: u64) = digits_value 256 ?ds"
    by (simp add: unsigned_of_nat take_bit_eq_mod)
  then show ?thesis
    using digits_be_value [OF b] len by (simp add: to_be_bytes_def from_be_bytes_def comp_def)
qed

lemma to_be_bytes_less: "x < y \<Longrightarrow> to_be_bytes x < to_be_bytes y"
proof -
  assume "x < y"
  then have "digits_be 256 8 (unat x) < digits_be 256 8 (unat y)"
    by (intro digits_be_less) (use unat_lt_64 [of y] in \<open>simp_all add: word_less_nat_alt\<close>)
  moreover have "d mod 256 = d" if "d \<in> set (digits_be 256 8 n)" for d n
    using digits_be_bound [OF _ that] by simp
  ultimately show ?thesis
    unfolding to_be_bytes_def
    by (intro map_strict_mono_list) (auto simp: word_less_nat_alt unsigned_of_nat take_bit_eq_mod)
qed

lemma to_be_bytes_less_iff [simp]: "to_be_bytes x < to_be_bytes y \<longleftrightarrow> x < y"
  using to_be_bytes_less [of x y] to_be_bytes_less [of y x] by (cases x y rule: linorder_cases) auto

lemma to_be_bytes_inj [simp]: "to_be_bytes x = to_be_bytes y \<longleftrightarrow> x = y"
  by (metis from_to_be_bytes)

lemma to_be_bytes_le_iff [simp]: "to_be_bytes x \<le> to_be_bytes y \<longleftrightarrow> x \<le> y"
  by (simp add: le_less)

lemma hex16_less: "x < y \<Longrightarrow> hex16 x < hex16 y"
proof -
  assume "x < y"
  then have "digits_be 16 16 (unat x) < digits_be 16 16 (unat y)"
    using unat_lt_64 [of y] by (intro digits_be_less) (simp_all add: word_less_nat_alt)
  then show ?thesis
    unfolding hex16_def
    by (intro map_strict_mono_list) (auto dest: digits_be_bound [rotated] intro: digit_char_less)
qed

lemma hex16_less_iff [simp]: "hex16 x < hex16 y \<longleftrightarrow> x < y"
  using hex16_less [of x y] hex16_less [of y x] by (cases x y rule: linorder_cases) auto

lemma hex16_inj [simp]: "hex16 x = hex16 y \<longleftrightarrow> x = y"
  by (metis hex16_less less_irrefl linorder_neq_iff)

lemma parse_digits_map:
  assumes "2 \<le> radix" and "radix \<le> 16" and "\<forall>d\<in>set ds. d < radix"
    and "foldl (\<lambda>acc d. acc * radix + d) acc ds < 2 ^ 64"
  shows "parse_digits radix acc (map digit_char ds) = Some (foldl (\<lambda>acc d. acc * radix + d) acc ds)"
  using assms(3-)
proof (induction ds arbitrary: acc)
  case (Cons d ds)
  have "(acc * radix + d) * 1 \<le> (acc * radix + d) * radix ^ length ds"
    using assms(1) by (intro mult_le_mono2) simp
  then have "acc * radix + d \<le> foldl (\<lambda>acc d. acc * radix + d) (acc * radix + d) ds"
    unfolding foldl_value [of radix "acc * radix + d" ds] mult_1_right by (rule trans_le_add1)
  then have "acc * radix + d < 2 ^ 64" using Cons.prems(2) by simp
  with Cons show ?case by (simp add: char_digit_char assms(2))
qed simp

lemma from_str_radix_digits:
  assumes "2 \<le> radix" and "radix \<le> 16" and "\<forall>d\<in>set ds. d < radix" and "ds \<noteq> []"
    and "digits_value radix ds = unat x"
  shows "from_str_radix radix (map digit_char ds) = Some x"
proof -
  obtain d ds' where ds: "ds = d # ds'" using assms(4) by (cases ds) auto
  have "digit_char d \<noteq> CHR ''+''" using assms(2,3) ds by (intro digit_char_not_plus) auto
  moreover have "parse_digits radix 0 (map digit_char ds) = Some (unat x)"
    using parse_digits_map [OF assms(1-3), of 0] assms(5) unat_lt_64 [of x]
    by (simp add: digits_value_def)
  ultimately show ?thesis by (simp add: from_str_radix_def ds)
qed

lemma from_str_hex16 [simp]: "from_str_radix 16 (hex16 x) = Some x"
proof -
  have "(16 :: nat) ^ 16 = 2 ^ 64" by simp
  then have "digits_value 16 (digits_be 16 16 (unat x)) = unat x"
    using unat_lt_64 [of x] by (simp add: digits_value_be)
  moreover have "digits_be 16 16 (unat x) \<noteq> []"
    using digits_be_length [of 16 16 "unat x"] by (metis list.size(3) zero_neq_numeral)
  ultimately show ?thesis
    unfolding hex16_def by (intro from_str_radix_digits) (auto dest: digits_be_bound [rotated])
qed

lemma decimal_digits_value: "digits_value 10 (decimal_digits n) = n"
proof (induction n rule: decimal_digits.induct)
  case (1 n)
  show ?case
  proof (cases "n < 10")
    case True
    then show ?thesis by (simp add: decimal_digits.simps [of n] digits_value_def)
  next
    case False
    then have "digits_value 10 (decimal_digits n) = digits_value 10 (decimal_digits (n div 10)) * 10 + n mod 10"
      by (simp add: decimal_digits.simps [of n] digits_value_def)
    with 1 [OF False] show ?thesis by simp
  qed
qed

lemma decimal_digits_bound: "d \<in> set (decimal_digits n) \<Longrightarrow> d < 10"
proof (induction n rule: decimal_digits.induct)
  case (1 n)
  then show ?case
    by (cases "n < 10") (auto simp: decimal_digits.simps [of n])
qed

lemma decimal_digits_ne: "decimal_digits n \<noteq> []"
  by (subst decimal_digits.simps) simp

lemma from_str_decimal [simp]: "from_str_radix 10 (decimal x) = Some x"
  unfolding decimal_def
  by (intro from_str_radix_digits)
    (auto simp: decimal_digits_value decimal_digits_ne dest: decimal_digits_bound)

lemma decimal_inj [simp]: "decimal x = decimal y \<longleftrightarrow> x = y"
  using from_str_decimal [of x] from_str_decimal [of y] by (metis option.inject)

end
