(* ===== verification/Replication_Log.thy ===== *)
theory Replication_Log
  imports Kv_Store Byte_Codec Membership
begin

text \<open>
  The replication log of a node (\<open>adapters/cluster/replication_log.rs\<close>): write-ahead-log and
  mutation acknowledgements per peer, the log of mutations this node sent out, and the last
  mutation applied per origin, all in one column family; and the handler of a replicated mutation
  (\<open>handle_replicate_mutation\<close> of \<open>adapters/http/peer_handlers.rs\<close>).

  RocksDB is the parameter \<open>kv\<close> of \<open>Kv_Store\<close>, the JSON codec of a log entry the parameters
  \<open>enc\<close> and \<open>dec\<close>. The theorems show that acknowledgements only advance, that the log refines a
  set of numbered entries read back in order, that its numbering survives truncation and restart,
  and that a delivery is accepted at most once. They also show what the duplicate check does to a
  mutation that was overtaken or whose application failed.
\<close>

section \<open>Keys and state\<close>

definition ack_key :: "u64 \<Rightarrow> string" where
  "ack_key peer_id = ''repl_ack:'' @ decimal peer_id"

definition mutation_log_key :: "u64 \<Rightarrow> string" where
  "mutation_log_key s = ''mutation_log:'' @ hex16 s"

definition mutation_ack_key :: "u64 \<Rightarrow> string" where
  "mutation_ack_key peer_id = ''mutation_ack:'' @ decimal peer_id"

definition applied_mutation_key :: "u64 \<Rightarrow> string" where
  "applied_mutation_key origin = ''applied_mutation:'' @ decimal origin"

record 'r mutation_log_entry =
  entry_seq :: u64
  entry_request :: 'r

record 'd replication_log =
  rl_db :: 'd
  mutation_seq :: u64
  applied_mutation_seqs :: "(u64, u64) hash_map"

text \<open>\<open>HyperbytedbError::Internal\<close> with its context, and the panic of \<open>copy_from_slice\<close>.\<close>

datatype repl_error = ReplInternal string string | ReplPanic

type_synonym ('d, 'a) repl_result = "'d replication_log \<times> (repl_error + 'a)"

section \<open>Operations\<close>

definition max_logged :: "(string \<times> 'b) list \<Rightarrow> u64" where
  "max_logged items =
     fold (\<lambda>(k, _) m. case from_str_radix 16 (drop (length ''mutation_log:'') k) of
         Some s \<Rightarrow> max m s | None \<Rightarrow> m) items 0"

definition load_applied :: "(string \<times> u8 list) list \<Rightarrow> (u64, u64) hash_map" where
  "load_applied items =
     fold (\<lambda>(k, v) m. case from_str_radix 10 (drop (length ''applied_mutation:'') k) of
         Some origin \<Rightarrow> if length v = 8 then hm_insert origin (from_be_bytes v) m else m
       | None \<Rightarrow> m) items []"

definition open_log :: "('d, string, u8 list) rocks \<Rightarrow> 'd \<Rightarrow> 'd replication_log" where
  "open_log kv d =
     \<lparr>rl_db = d,
      mutation_seq = max_logged (scan_prefix kv d ''mutation_log:''),
      applied_mutation_seqs = load_applied (scan_prefix kv d ''applied_mutation:'')\<rparr>"

definition be_u64 :: "u8 list \<Rightarrow> repl_error + u64" where
  "be_u64 v = (if length v = 8 then Inr (from_be_bytes v) else Inl ReplPanic)"

definition put_row :: "('d, string, u8 list) rocks \<Rightarrow> 'd replication_log \<Rightarrow> string \<Rightarrow> string \<Rightarrow> u8 list
    \<Rightarrow> ('d, unit) repl_result" where
  "put_row kv rl ctx k v =
     (case rdb_write kv (rl_db rl) [Put k v] of
        (d, Inl e) \<Rightarrow> (rl\<lparr>rl_db := d\<rparr>, Inl (ReplInternal ctx e))
      | (d, Inr _) \<Rightarrow> (rl\<lparr>rl_db := d\<rparr>, Inr ()))"

text \<open>The two kinds of acknowledgement have the same code over different keys.\<close>

definition set_ack :: "('d, string, u8 list) rocks \<Rightarrow> string \<Rightarrow> 'd replication_log \<Rightarrow> string \<Rightarrow> u64
    \<Rightarrow> ('d, unit) repl_result" where
  "set_ack kv ctx rl k s =
     (case (case rdb_get kv (rl_db rl) k of Inr (Some v) \<Rightarrow> be_u64 v | _ \<Rightarrow> Inr 0) of
        Inl e \<Rightarrow> (rl, Inl e)
      | Inr current \<Rightarrow>
          if s \<le> current then (rl, Inr ()) else put_row kv rl ctx k (to_be_bytes s))"

definition get_ack :: "('d, string, u8 list) rocks \<Rightarrow> string \<Rightarrow> 'd replication_log \<Rightarrow> string
    \<Rightarrow> repl_error + u64" where
  "get_ack kv ctx rl k =
     (case rdb_get kv (rl_db rl) k of
        Inr (Some v) \<Rightarrow> be_u64 v
      | Inr None \<Rightarrow> Inr 0
      | Inl e \<Rightarrow> Inl (ReplInternal ctx e))"

fun min_values :: "u64 option \<Rightarrow> (string \<times> u8 list) list \<Rightarrow> repl_error + u64 option" where
  "min_values m [] = Inr m"
| "min_values m ((_, v) # items) =
     (case be_u64 v of
        Inl e \<Rightarrow> Inl e
      | Inr s \<Rightarrow> min_values (Some (case m of None \<Rightarrow> s | Some x \<Rightarrow> min x s)) items)"

definition set_wal_ack :: "('d, string, u8 list) rocks \<Rightarrow> 'd replication_log \<Rightarrow> u64 \<Rightarrow> u64
    \<Rightarrow> ('d, unit) repl_result" where
  "set_wal_ack kv rl peer_id s = set_ack kv ''set_wal_ack'' rl (ack_key peer_id) s"

definition get_wal_ack :: "('d, string, u8 list) rocks \<Rightarrow> 'd replication_log \<Rightarrow> u64 \<Rightarrow> repl_error + u64" where
  "get_wal_ack kv rl peer_id = get_ack kv ''get_wal_ack'' rl (ack_key peer_id)"

definition min_wal_ack :: "('d, string, u8 list) rocks \<Rightarrow> 'd replication_log \<Rightarrow> repl_error + u64 option" where
  "min_wal_ack kv rl = min_values None (scan_prefix kv (rl_db rl) ''repl_ack:'')"

fun min_max_acks :: "('d, string, u8 list) rocks \<Rightarrow> 'd replication_log \<Rightarrow> u64 list \<Rightarrow> u64 \<Rightarrow> u64
    \<Rightarrow> repl_error + u64 \<times> u64" where
  "min_max_acks kv rl [] lo hi = Inr (lo, hi)"
| "min_max_acks kv rl (pid # pids) lo hi =
     (case get_wal_ack kv rl pid of
        Inl e \<Rightarrow> Inl e
      | Inr a \<Rightarrow> min_max_acks kv rl pids (min lo a) (max hi a))"

definition min_max_wal_ack_for_peers :: "('d, string, u8 list) rocks \<Rightarrow> 'd replication_log \<Rightarrow> u64 list
    \<Rightarrow> repl_error + u64 \<times> u64" where
  "min_max_wal_ack_for_peers kv rl peer_ids =
     (if peer_ids = [] then Inr (u64_max, 0) else min_max_acks kv rl peer_ids u64_max 0)"

definition append_mutation :: "('d, string, u8 list) rocks \<Rightarrow> ('r mutation_log_entry \<Rightarrow> string + u8 list)
    \<Rightarrow> 'd replication_log \<Rightarrow> 'r \<Rightarrow> ('d, u64) repl_result" where
  "append_mutation kv enc rl request =
     (let s = mutation_seq rl + 1;
          rl = rl\<lparr>mutation_seq := s\<rparr>
      in case enc \<lparr>entry_seq = s, entry_request = request\<rparr> of
           Inl e \<Rightarrow> (rl, Inl (ReplInternal ''serialize mutation'' e))
         | Inr v \<Rightarrow>
             (case put_row kv rl ''append_mutation'' (mutation_log_key s) v of
                (rl, Inl e) \<Rightarrow> (rl, Inl e)
              | (rl, Inr _) \<Rightarrow> (rl, Inr s)))"

fun read_entries :: "(u8 list \<Rightarrow> string + 'r mutation_log_entry) \<Rightarrow> nat
    \<Rightarrow> (string + string \<times> u8 list) list \<Rightarrow> 'r mutation_log_entry list
    \<Rightarrow> repl_error + 'r mutation_log_entry list" where
  "read_entries dec max_entries [] results = Inr results"
| "read_entries dec max_entries (item # items) results =
     (if max_entries \<le> length results then Inr results
      else case item of
        Inl _ \<Rightarrow> read_entries dec max_entries items results
      | Inr (k, v) \<Rightarrow>
          if \<not> starts_with k ''mutation_log:'' then Inr results
          else case dec v of
            Inl e \<Rightarrow> Inl (ReplInternal ''deserialize mutation'' e)
          | Inr entry \<Rightarrow> read_entries dec max_entries items (results @ [entry]))"

definition read_mutations_from :: "('d, string, u8 list) rocks \<Rightarrow> (u8 list \<Rightarrow> string + 'r mutation_log_entry)
    \<Rightarrow> 'd replication_log \<Rightarrow> u64 \<Rightarrow> nat \<Rightarrow> repl_error + 'r mutation_log_entry list" where
  "read_mutations_from kv dec rl from_seq max_entries =
     read_entries dec max_entries (rdb_iter_from kv (rl_db rl) (mutation_log_key from_seq)) []"

definition set_mutation_ack :: "('d, string, u8 list) rocks \<Rightarrow> 'd replication_log \<Rightarrow> u64 \<Rightarrow> u64
    \<Rightarrow> ('d, unit) repl_result" where
  "set_mutation_ack kv rl peer_id s = set_ack kv ''set_mutation_ack'' rl (mutation_ack_key peer_id) s"

definition get_mutation_ack :: "('d, string, u8 list) rocks \<Rightarrow> 'd replication_log \<Rightarrow> u64 \<Rightarrow> repl_error + u64" where
  "get_mutation_ack kv rl peer_id = get_ack kv ''get_mutation_ack'' rl (mutation_ack_key peer_id)"

definition last_mutation_seq :: "'d replication_log \<Rightarrow> u64" where
  "last_mutation_seq rl = mutation_seq rl"

definition min_mutation_ack :: "('d, string, u8 list) rocks \<Rightarrow> 'd replication_log \<Rightarrow> repl_error + u64 option" where
  "min_mutation_ack kv rl = min_values None (scan_prefix kv (rl_db rl) ''mutation_ack:'')"

definition truncate_mutations_before :: "('d, string, u8 list) rocks \<Rightarrow> 'd replication_log \<Rightarrow> u64
    \<Rightarrow> ('d, unit) repl_result" where
  "truncate_mutations_before kv rl s =
     (case rdb_write kv (rl_db rl) [DeleteRange (mutation_log_key 0) (mutation_log_key s)] of
        (d, Inl e) \<Rightarrow> (rl\<lparr>rl_db := d\<rparr>, Inl (ReplInternal ''truncate_mutations'' e))
      | (d, Inr _) \<Rightarrow> (rl\<lparr>rl_db := d\<rparr>, Inr ()))"

text \<open>The entry for the origin is created before the comparison, and stays when the write fails.\<close>

definition check_and_record_mutation :: "('d, string, u8 list) rocks \<Rightarrow> 'd replication_log \<Rightarrow> u64 \<Rightarrow> u64
    \<Rightarrow> ('d, bool) repl_result" where
  "check_and_record_mutation kv rl origin s =
     (let seqs = applied_mutation_seqs rl;
          seqs = (if hm_contains seqs origin then seqs else hm_insert origin 0 seqs);
          last = the (hm_get seqs origin);
          rl = rl\<lparr>applied_mutation_seqs := seqs\<rparr>
      in if last < s then
           (case put_row kv rl ''check_and_record_mutation'' (applied_mutation_key origin) (to_be_bytes s) of
              (rl, Inl e) \<Rightarrow> (rl, Inl e)
            | (rl, Inr _) \<Rightarrow> (rl\<lparr>applied_mutation_seqs := hm_insert origin s seqs\<rparr>, Inr True))
         else (rl, Inr False))"

text \<open>\<open>ReplicationLog::remove_peer\<close>: a failed delete is logged and ignored.\<close>

definition forget_peer :: "('d, string, u8 list) rocks \<Rightarrow> 'd replication_log \<Rightarrow> u64 \<Rightarrow> ('d, unit) repl_result" where
  "forget_peer kv rl peer_id =
     (let d = fst (rdb_write kv (rl_db rl) [Delete (ack_key peer_id)]);
          d = fst (rdb_write kv d [Delete (mutation_ack_key peer_id)])
      in (rl\<lparr>rl_db := d\<rparr>, Inr ()))"

section \<open>The handler of a replicated mutation\<close>

datatype mutation_reply = AckSeq u64 | BadOrigin | ReplyError string

definition validate_origin_node_id :: "cluster_membership option \<Rightarrow> u64 \<Rightarrow> bool" where
  "validate_origin_node_id membership origin =
     (origin = 0 \<or> (case membership of None \<Rightarrow> False | Some m \<Rightarrow> get_node m origin \<noteq> None))"

text \<open>Applying the mutation to the databases is the parameter \<open>apply_mutation\<close>.\<close>

definition handle_replicate_mutation :: "('d, string, u8 list) rocks \<Rightarrow> ('r \<Rightarrow> 's \<Rightarrow> 's \<times> (string + unit))
    \<Rightarrow> cluster_membership option \<Rightarrow> 'd replication_log option \<times> 's \<Rightarrow> u64 \<Rightarrow> u64 \<Rightarrow> 'r
    \<Rightarrow> ('d replication_log option \<times> 's) \<times> mutation_reply" where
  "handle_replicate_mutation kv apply_mutation membership st origin sender_seq req =
     (let (log, app) = st;
          apply_now = (\<lambda>log.
            case apply_mutation req app of
              (app, Inr _) \<Rightarrow> ((log, app), AckSeq sender_seq)
            | (app, Inl e) \<Rightarrow> ((log, app), ReplyError e))
      in if \<not> validate_origin_node_id membership origin then (st, BadOrigin)
         else case log of
             None \<Rightarrow> apply_now None
           | Some rl \<Rightarrow>
               if origin = 0 then apply_now (Some rl)
               else case check_and_record_mutation kv rl origin sender_seq of
                   (rl, Inr False) \<Rightarrow> ((Some rl, app), AckSeq sender_seq)
                 | (rl, Inl _) \<Rightarrow> ((Some rl, app), ReplyError ''internal error recording mutation'')
                 | (rl, Inr True) \<Rightarrow> apply_now (Some rl))"

section \<open>Keys\<close>

lemma append_less_append [simp]: "p @ x < p @ y \<longleftrightarrow> x < (y :: 'a::linorder list)"
  by (induction p) auto

lemma append_le_append [simp]: "p @ x \<le> p @ y \<longleftrightarrow> x \<le> (y :: 'a::linorder list)"
  by (induction p) auto

lemmas key_defs = ack_key_def mutation_log_key_def mutation_ack_key_def applied_mutation_key_def

lemma key_inj [simp]:
  "ack_key p = ack_key q \<longleftrightarrow> p = q"
  "mutation_log_key s = mutation_log_key s' \<longleftrightarrow> s = s'"
  "mutation_ack_key p = mutation_ack_key q \<longleftrightarrow> p = q"
  "applied_mutation_key p = applied_mutation_key q \<longleftrightarrow> p = q"
  by (simp_all add: key_defs)

lemma key_order [simp]:
  "mutation_log_key s < mutation_log_key s' \<longleftrightarrow> s < s'"
  "mutation_log_key s \<le> mutation_log_key s' \<longleftrightarrow> s \<le> s'"
  by (simp_all add: mutation_log_key_def less_le_not_le [symmetric] order.order_iff_strict)

lemma log_key_prefix [simp]:
  "starts_with (mutation_log_key s) ''mutation_log:''"
  "\<not> starts_with (ack_key p) ''mutation_log:''"
  "\<not> starts_with (mutation_ack_key p) ''mutation_log:''"
  "\<not> starts_with (applied_mutation_key p) ''mutation_log:''"
  by (simp_all add: starts_with_def key_defs)

lemma applied_key_prefix [simp]:
  "starts_with (applied_mutation_key p) ''applied_mutation:''"
  "\<not> starts_with (ack_key q) ''applied_mutation:''"
  "\<not> starts_with (mutation_ack_key q) ''applied_mutation:''"
  "\<not> starts_with (mutation_log_key s) ''applied_mutation:''"
  by (simp_all add: starts_with_def key_defs)

lemma key_neq [simp]:
  "ack_key p \<noteq> mutation_ack_key q" "mutation_ack_key q \<noteq> ack_key p"
  "ack_key p \<noteq> applied_mutation_key q" "applied_mutation_key q \<noteq> ack_key p"
  "mutation_ack_key p \<noteq> applied_mutation_key q" "applied_mutation_key q \<noteq> mutation_ack_key p"
  by (simp_all add: key_defs)

lemma log_key_neq [simp]:
  "mutation_log_key s \<noteq> ack_key p" "ack_key p \<noteq> mutation_log_key s"
  "mutation_log_key s \<noteq> mutation_ack_key p" "mutation_ack_key p \<noteq> mutation_log_key s"
  "mutation_log_key s \<noteq> applied_mutation_key p" "applied_mutation_key p \<noteq> mutation_log_key s"
  by (simp_all add: key_defs)

text \<open>A truncation range holds log keys only.\<close>

lemma truncate_range_prefix:
  assumes "mutation_log_key 0 \<le> k" and "k < mutation_log_key s"
  shows "starts_with k ''mutation_log:''"
proof (rule starts_with_interval [of _ k "mutation_log_key s"])
  have "''mutation_log:'' \<le> mutation_log_key 0" by (rule starts_with_ge) simp
  from order_trans [OF this assms(1)] show "''mutation_log:'' \<le> k" .
qed (use assms(2) in simp_all)

section \<open>The abstract log\<close>

text \<open>
  What the rows stand for: the set of numbered requests. \<open>repl_ok\<close> says that every row is one
  the code writes, and that no logged number exceeds the counter.
\<close>

definition codec_ok :: "('r mutation_log_entry \<Rightarrow> string + u8 list) \<Rightarrow>
    (u8 list \<Rightarrow> string + 'r mutation_log_entry) \<Rightarrow> bool" where
  "codec_ok enc dec \<longleftrightarrow> (\<forall>e v. enc e = Inr v \<longrightarrow> dec v = Inr e)"

definition logged :: "(u8 list \<Rightarrow> string + 'r mutation_log_entry) \<Rightarrow> (string \<Rightarrow> u8 list option)
    \<Rightarrow> (u64 \<times> 'r) set" where
  "logged dec rows = {(s, r). \<exists>v. rows (mutation_log_key s) = Some v
     \<and> dec v = Inr \<lparr>entry_seq = s, entry_request = r\<rparr>}"

definition log_row_ok :: "(u8 list \<Rightarrow> string + 'r mutation_log_entry) \<Rightarrow> u64 \<Rightarrow> string \<Rightarrow> u8 list \<Rightarrow> bool" where
  "log_row_ok dec n k v \<longleftrightarrow>
     (if starts_with k ''mutation_log:''
      then \<exists>s r. k = mutation_log_key s \<and> dec v = Inr \<lparr>entry_seq = s, entry_request = r\<rparr> \<and> s \<le> n
      else length v = 8 \<and> (starts_with k ''applied_mutation:'' \<longrightarrow> (\<exists>origin. k = applied_mutation_key origin)))"

definition repl_ok :: "(u8 list \<Rightarrow> string + 'r mutation_log_entry) \<Rightarrow> (string \<Rightarrow> u8 list option) \<Rightarrow> u64 \<Rightarrow> bool" where
  "repl_ok dec rows n \<longleftrightarrow> (\<forall>k v. rows k = Some v \<longrightarrow> log_row_ok dec n k v)"

lemma repl_okD: "repl_ok dec rows n \<Longrightarrow> rows k = Some v \<Longrightarrow> log_row_ok dec n k v"
  by (simp add: repl_ok_def)

lemma ok_log_row:
  "repl_ok dec rows n \<Longrightarrow> rows k = Some v \<Longrightarrow> starts_with k ''mutation_log:'' \<Longrightarrow>
   \<exists>s r. k = mutation_log_key s \<and> dec v = Inr \<lparr>entry_seq = s, entry_request = r\<rparr> \<and> s \<le> n"
  using repl_okD [of dec rows n k v] by (simp add: log_row_ok_def)

lemma ok_applied_row:
  assumes "repl_ok dec rows n" "rows k = Some v" "starts_with k ''applied_mutation:''"
  shows "length v = 8 \<and> (\<exists>origin. k = applied_mutation_key origin)"
proof -
  have "hd k = CHR ''a''" using assms(3) by (cases k) (auto simp: starts_with_def)
  then have "\<not> starts_with k ''mutation_log:''" by (cases k) (auto simp: starts_with_def)
  with repl_okD [OF assms(1,2)] assms(3) show ?thesis by (simp add: log_row_ok_def)
qed

lemma log_row_ok_mono: "log_row_ok dec n k v \<Longrightarrow> n \<le> n' \<Longrightarrow> log_row_ok dec n' k v"
  unfolding log_row_ok_def by (auto split: if_splits dest: order_trans)

lemma repl_ok_mono: "repl_ok dec rows n \<Longrightarrow> n \<le> n' \<Longrightarrow> repl_ok dec rows n'"
  unfolding repl_ok_def by (blast intro: log_row_ok_mono [of dec n])

lemma log_row_ok_words [simp]:
  "length v = 8 \<Longrightarrow> log_row_ok dec n (ack_key p) v"
  "length v = 8 \<Longrightarrow> log_row_ok dec n (mutation_ack_key p) v"
  "length v = 8 \<Longrightarrow> log_row_ok dec n (applied_mutation_key p) v"
  by (simp_all add: log_row_ok_def)

fun good_op :: "(u8 list \<Rightarrow> string + 'r mutation_log_entry) \<Rightarrow> u64 \<Rightarrow> (string, u8 list) batch_op \<Rightarrow> bool" where
  "good_op dec n (Put k v) = log_row_ok dec n k v"
| "good_op dec n _ = True"

lemma repl_ok_effect: "repl_ok dec rows n \<Longrightarrow> good_op dec n op \<Longrightarrow> repl_ok dec (batch_effect op rows) n"
  by (cases op) (auto simp: repl_ok_def)

lemma repl_ok_fold:
  "repl_ok dec rows n \<Longrightarrow> \<forall>op\<in>set ops. good_op dec n op \<Longrightarrow> repl_ok dec (fold batch_effect ops rows) n"
  by (induction ops arbitrary: rows) (auto intro: repl_ok_effect)

lemma put_row_db:
  assumes "put_row kv rl ctx k v = (rl', res)"
  shows "\<exists>wr. rdb_write kv (rl_db rl) [Put k v] = (rl_db rl', wr) \<and> (\<forall>u. res = Inr u \<longrightarrow> wr = Inr ())"
    and "mutation_seq rl' = mutation_seq rl"
    and "applied_mutation_seqs rl' = applied_mutation_seqs rl"
proof -
  obtain d wr where w: "rdb_write kv (rl_db rl) [Put k v] = (d, wr)" by fastforce
  have "put_row kv rl ctx k v =
      (rl\<lparr>rl_db := d\<rparr>, case wr of Inl e \<Rightarrow> Inl (ReplInternal ctx e) | Inr _ \<Rightarrow> Inr ())"
    by (cases wr) (simp_all add: put_row_def w)
  from trans [OF assms [symmetric] this] show "\<exists>wr. rdb_write kv (rl_db rl) [Put k v] = (rl_db rl', wr) \<and> (\<forall>u. res = Inr u \<longrightarrow> wr = Inr ())"
    and "mutation_seq rl' = mutation_seq rl"
    and "applied_mutation_seqs rl' = applied_mutation_seqs rl"
    by (simp_all add: w split: sum.split)
qed

lemma put_row_rows:
  assumes "rocks_laws kv rows" and "put_row kv rl ctx k v = (rl', Inr u)"
  shows "rows (rl_db rl') = (rows (rl_db rl))(k := Some v)"
proof -
  from put_row_db(1) [OF assms(2)] have "rdb_write kv (rl_db rl) [Put k v] = (rl_db rl', Inr ())"
    by blast
  from rdb_write_rows [OF assms(1) this] show ?thesis by simp
qed

section \<open>Runs\<close>

text \<open>The calls a node makes on its log, in the order of their effects, restarts included.\<close>

datatype 'r repl_event =
    AppendMutation 'r
  | SetWalAck u64 u64
  | SetMutationAck u64 u64
  | TruncateBefore u64
  | CheckMutation u64 u64
  | ForgetPeer u64
  | Restart

fun repl_step :: "('d, string, u8 list) rocks \<Rightarrow> ('r mutation_log_entry \<Rightarrow> string + u8 list)
    \<Rightarrow> 'd replication_log \<Rightarrow> 'r repl_event \<Rightarrow> 'd replication_log" where
  "repl_step kv enc rl (AppendMutation r) = fst (append_mutation kv enc rl r)"
| "repl_step kv enc rl (SetWalAck p s) = fst (set_wal_ack kv rl p s)"
| "repl_step kv enc rl (SetMutationAck p s) = fst (set_mutation_ack kv rl p s)"
| "repl_step kv enc rl (TruncateBefore s) = fst (truncate_mutations_before kv rl s)"
| "repl_step kv enc rl (CheckMutation origin s) = fst (check_and_record_mutation kv rl origin s)"
| "repl_step kv enc rl (ForgetPeer p) = fst (forget_peer kv rl p)"
| "repl_step kv enc rl Restart = open_log kv (rl_db rl)"

definition ack_value :: "(string \<Rightarrow> u8 list option) \<Rightarrow> string \<Rightarrow> u64" where
  "ack_value rows k = (case rows k of None \<Rightarrow> 0 | Some v \<Rightarrow> from_be_bytes v)"

definition applied_value :: "'d replication_log \<Rightarrow> u64 \<Rightarrow> u64" where
  "applied_value rl origin = (case hm_get (applied_mutation_seqs rl) origin of None \<Rightarrow> 0 | Some s \<Rightarrow> s)"

text \<open>The writes a call may issue; a write that fails may still have taken effect.\<close>

fun event_writes :: "('r mutation_log_entry \<Rightarrow> string + u8 list) \<Rightarrow> (string \<Rightarrow> u8 list option)
    \<Rightarrow> 'd replication_log \<Rightarrow> 'r repl_event \<Rightarrow> (string, u8 list) batch_op set" where
  "event_writes enc rows rl (AppendMutation r) =
     {Put (mutation_log_key (mutation_seq rl + 1)) v | v.
        enc \<lparr>entry_seq = mutation_seq rl + 1, entry_request = r\<rparr> = Inr v}"
| "event_writes enc rows rl (SetWalAck p s) =
     (if ack_value rows (ack_key p) < s then {Put (ack_key p) (to_be_bytes s)} else {})"
| "event_writes enc rows rl (SetMutationAck p s) =
     (if ack_value rows (mutation_ack_key p) < s then {Put (mutation_ack_key p) (to_be_bytes s)} else {})"
| "event_writes enc rows rl (TruncateBefore s) = {DeleteRange (mutation_log_key 0) (mutation_log_key s)}"
| "event_writes enc rows rl (CheckMutation origin s) =
     (if applied_value rl origin < s then {Put (applied_mutation_key origin) (to_be_bytes s)} else {})"
| "event_writes enc rows rl (ForgetPeer p) = {Delete (ack_key p), Delete (mutation_ack_key p)}"
| "event_writes enc rows rl Restart = {}"

lemma put_row_cases:
  assumes "rocks_laws kv rows" "rocks_atomic kv rows"
  shows "\<exists>ops. set ops \<subseteq> {Put k v} \<and>
    rows (rl_db (fst (put_row kv rl ctx k v))) = fold batch_effect ops (rows (rl_db rl))"
proof -
  obtain rl' res where "put_row kv rl ctx k v = (rl', res)" by fastforce
  with put_row_db(1) [OF this] write_cases [OF assms] show ?thesis by auto
qed

lemma get_ack_value:
  assumes "rocks_laws kv rows" "repl_ok dec (rows (rl_db rl)) n" "\<not> starts_with k ''mutation_log:''"
  shows "get_ack kv ctx rl k = Inr (ack_value (rows (rl_db rl)) k)"
proof (cases "rows (rl_db rl) k")
  case (Some v)
  with repl_okD [OF assms(2)] assms(3) have "length v = 8" by (simp add: log_row_ok_def)
  with Some show ?thesis by (simp add: get_ack_def rdb_get_rows [OF assms(1)] ack_value_def be_u64_def)
qed (simp add: get_ack_def rdb_get_rows [OF assms(1)] ack_value_def)

lemma set_ack_eq:
  assumes "rocks_laws kv rows" "repl_ok dec (rows (rl_db rl)) n" "\<not> starts_with k ''mutation_log:''"
  shows "set_ack kv ctx rl k s =
    (if s \<le> ack_value (rows (rl_db rl)) k then (rl, Inr ()) else put_row kv rl ctx k (to_be_bytes s))"
proof (cases "rows (rl_db rl) k")
  case (Some v)
  with repl_okD [OF assms(2)] assms(3) have "length v = 8" by (simp add: log_row_ok_def)
  with Some show ?thesis by (simp add: set_ack_def rdb_get_rows [OF assms(1)] ack_value_def be_u64_def)
qed (simp add: set_ack_def rdb_get_rows [OF assms(1)] ack_value_def)

text \<open>The duplicate check in terms of the last applied number.\<close>

definition touch_origin :: "u64 \<Rightarrow> (u64, u64) hash_map \<Rightarrow> (u64, u64) hash_map" where
  "touch_origin origin seqs = (if hm_contains seqs origin then seqs else hm_insert origin 0 seqs)"

lemma touch_origin_get:
  assumes "hm_wf m"
  shows "hm_wf (touch_origin origin m)"
    and "hm_get (touch_origin origin m) k =
      (if k = origin then Some (case hm_get m origin of None \<Rightarrow> 0 | Some s \<Rightarrow> s) else hm_get m k)"
  using assms by (auto simp: touch_origin_def hm_contains_def hm.wf_ins hm.get_ins split: option.split)

definition touched :: "'d replication_log \<Rightarrow> u64 \<Rightarrow> 'd replication_log" where
  "touched rl origin = rl\<lparr>applied_mutation_seqs := touch_origin origin (applied_mutation_seqs rl)\<rparr>"

lemma check_eq:
  assumes "hm_wf (applied_mutation_seqs rl)"
  shows "check_and_record_mutation kv rl origin s =
    (if applied_value rl origin < s then
       (case put_row kv (touched rl origin) ''check_and_record_mutation'' (applied_mutation_key origin) (to_be_bytes s) of
          (rl2, Inl e) \<Rightarrow> (rl2, Inl e)
        | (rl2, Inr _) \<Rightarrow>
            (rl2\<lparr>applied_mutation_seqs := hm_insert origin s (touch_origin origin (applied_mutation_seqs rl))\<rparr>,
             Inr True))
     else (touched rl origin, Inr False))"
proof -
  have "the (hm_get (touch_origin origin (applied_mutation_seqs rl)) origin) = applied_value rl origin"
    using touch_origin_get(2) [OF assms(1), of origin origin] by (simp add: applied_value_def)
  then show ?thesis
    unfolding check_and_record_mutation_def touch_origin_def [symmetric] touched_def Let_def by simp
qed

lemma fst_check_db:
  assumes "hm_wf (applied_mutation_seqs rl)"
  shows "rl_db (fst (check_and_record_mutation kv rl origin s)) =
    (if applied_value rl origin < s
     then rl_db (fst (put_row kv (touched rl origin) ''check_and_record_mutation'' (applied_mutation_key origin) (to_be_bytes s)))
     else rl_db rl)"
  by (simp add: check_eq [OF assms] touched_def split: prod.split sum.split)

lemma step_rows:
  assumes laws: "rocks_laws kv rows" "rocks_atomic kv rows"
    and ok: "repl_ok dec (rows (rl_db rl)) n" and wf: "hm_wf (applied_mutation_seqs rl)"
  shows "\<exists>ops. set ops \<subseteq> event_writes enc (rows (rl_db rl)) rl ev \<and>
    rows (rl_db (repl_step kv enc rl ev)) = fold batch_effect ops (rows (rl_db rl))"
proof (cases ev)
  case (AppendMutation r)
  let ?s = "mutation_seq rl + 1"
  show ?thesis
  proof (cases "enc \<lparr>entry_seq = ?s, entry_request = r\<rparr>")
    case (Inl e)
    then show ?thesis by (auto simp: AppendMutation append_mutation_def Let_def intro: exI [of _ "[]"])
  next
    case (Inr v)
    obtain ops where "set ops \<subseteq> {Put (mutation_log_key ?s) v}"
      "rows (rl_db (fst (put_row kv (rl\<lparr>mutation_seq := ?s\<rparr>) ''append_mutation'' (mutation_log_key ?s) v)))
        = fold batch_effect ops (rows (rl_db rl))"
      using put_row_cases [OF laws, of "mutation_log_key ?s" v "rl\<lparr>mutation_seq := ?s\<rparr>"] by auto
    with Inr show ?thesis
      by (intro exI [of _ ops]) (auto simp: AppendMutation append_mutation_def Let_def split: prod.splits sum.splits)
  qed
next
  case (SetWalAck p s)
  then show ?thesis
    using put_row_cases [OF laws, of "ack_key p" "to_be_bytes s" rl "''set_wal_ack''"]
    by (auto simp: set_wal_ack_def set_ack_eq [OF laws(1) ok] not_le intro: exI [of _ "[]"])
next
  case (SetMutationAck p s)
  then show ?thesis
    using put_row_cases [OF laws, of "mutation_ack_key p" "to_be_bytes s" rl "''set_mutation_ack''"]
    by (auto simp: set_mutation_ack_def set_ack_eq [OF laws(1) ok] not_le intro: exI [of _ "[]"])
next
  case (TruncateBefore s)
  obtain d wr where w: "rdb_write kv (rl_db rl) [DeleteRange (mutation_log_key 0) (mutation_log_key s)] = (d, wr)"
    by fastforce
  then have "rl_db (repl_step kv enc rl ev) = d"
    by (simp add: TruncateBefore truncate_mutations_before_def split: sum.split)
  with write_cases [OF laws w] show ?thesis by (simp add: TruncateBefore)
next
  case (CheckMutation origin s)
  then show ?thesis
    using put_row_cases [OF laws, of "applied_mutation_key origin" "to_be_bytes s"
      "touched rl origin" "''check_and_record_mutation''"]
    by (auto simp: fst_check_db [OF wf] touched_def intro: exI [of _ "[]"])
next
  case (ForgetPeer p)
  obtain d1 w1 where 1: "rdb_write kv (rl_db rl) [Delete (ack_key p)] = (d1, w1)" by fastforce
  obtain d2 w2 where 2: "rdb_write kv d1 [Delete (mutation_ack_key p)] = (d2, w2)" by fastforce
  from write_cases [OF laws 1] write_cases [OF laws 2] obtain ops1 ops2
    where "set ops1 \<subseteq> {Delete (ack_key p)}" "rows d1 = fold batch_effect ops1 (rows (rl_db rl))"
      "set ops2 \<subseteq> {Delete (mutation_ack_key p)}" "rows d2 = fold batch_effect ops2 (rows d1)"
    by blast
  then show ?thesis
    by (intro exI [of _ "ops1 @ ops2"]) (auto simp: ForgetPeer forget_peer_def 1 2)
next
  case Restart
  then show ?thesis by (intro exI [of _ "[]"]) (simp add: open_log_def)
qed

section \<open>Restart\<close>

lemma drop_log_key [simp]: "drop (length ''mutation_log:'') (mutation_log_key s) = hex16 s"
  by (simp add: mutation_log_key_def)

lemma drop_applied_key [simp]: "drop (length ''applied_mutation:'') (applied_mutation_key p) = decimal p"
  by (simp add: applied_mutation_key_def)

lemma max_logged_bounds:
  assumes "\<forall>(k, v)\<in>set items. \<exists>s. k = mutation_log_key s \<and> s \<le> n"
  shows "max_logged items \<le> n" and "(mutation_log_key s, v) \<in> set items \<Longrightarrow> s \<le> max_logged items"
proof -
  let ?f = "\<lambda>(k, _ :: 'a) m. case from_str_radix 16 (drop (length ''mutation_log:'') k) of
    Some s \<Rightarrow> max m s | None \<Rightarrow> m"
  have *: "m \<le> fold ?f items m \<and> (m \<le> n \<longrightarrow> fold ?f items m \<le> n)
      \<and> (\<forall>s v. (mutation_log_key s, v) \<in> set items \<longrightarrow> s \<le> fold ?f items m)" for m
    using assms
  proof (induction items arbitrary: m)
    case (Cons x items)
    then obtain s v where x: "x = (mutation_log_key s, v)" "s \<le> n" by fastforce
    have "?f x m = max m s" by (simp add: x(1) del: list.size)
    with Cons.IH [of "max m s"] Cons.prems x show ?case by auto
  qed simp
  show "max_logged items \<le> n" using * [of 0] by (simp add: max_logged_def)
  show "s \<le> max_logged items" if "(mutation_log_key s, v) \<in> set items"
    using * [of 0] that unfolding max_logged_def by blast
qed

lemma restart_seq:
  assumes "rocks_laws kv rows" "repl_ok dec (rows d) n"
  shows "mutation_seq (open_log kv d) \<le> n" and "repl_ok dec (rows d) (mutation_seq (open_log kv d))"
proof -
  let ?items = "scan_prefix kv d ''mutation_log:''"
  have items: "\<forall>(k, v)\<in>set ?items. \<exists>s. k = mutation_log_key s \<and> s \<le> n"
    using ok_log_row [OF assms(2)] by (fastforce simp: scan_prefix_rows(1) [OF assms(1)])
  show "mutation_seq (open_log kv d) \<le> n"
    by (simp add: open_log_def max_logged_bounds(1) [OF items])
  show "repl_ok dec (rows d) (mutation_seq (open_log kv d))"
    unfolding repl_ok_def
  proof (intro allI impI)
    fix k v
    assume row: "rows d k = Some v"
    have "s \<le> mutation_seq (open_log kv d)" if "k = mutation_log_key s" for s
      using max_logged_bounds(2) [OF items, of s v] row that
      by (simp add: scan_prefix_rows(1) [OF assms(1)] open_log_def)
    with repl_okD [OF assms(2) row] show "log_row_ok dec (mutation_seq (open_log kv d)) k v"
      by (auto simp: log_row_ok_def split: if_splits)
  qed
qed

lemma load_applied_fold:
  assumes "\<forall>(k, v)\<in>set items. length v = 8 \<and> (\<exists>origin. k = applied_mutation_key origin)"
  shows "load_applied items = fold (\<lambda>r. hm_insert
      (the (from_str_radix 10 (drop (length ''applied_mutation:'') (fst r)))) (from_be_bytes (snd r))) items []"
  unfolding load_applied_def
proof (rule fold_cong [OF refl refl])
  fix x
  assume "x \<in> set items"
  with assms obtain origin v where "x = (applied_mutation_key origin, v)" "length v = 8" by fastforce
  then show "(case x of (k, v) \<Rightarrow> \<lambda>m. case from_str_radix 10 (drop (length ''applied_mutation:'') k) of
        None \<Rightarrow> m | Some origin \<Rightarrow> if length v = 8 then hm_insert origin (from_be_bytes v) m else m)
      = hm_insert (the (from_str_radix 10 (drop (length ''applied_mutation:'') (fst x)))) (from_be_bytes (snd x))"
    by (simp add: fun_eq_iff del: list.size)
qed

lemma restart_applied:
  assumes "rocks_laws kv rows" "repl_ok dec (rows d) n"
  shows "hm_wf (applied_mutation_seqs (open_log kv d))"
    and "applied_value (open_log kv d) origin = ack_value (rows d) (applied_mutation_key origin)"
proof -
  let ?items = "scan_prefix kv d ''applied_mutation:''"
  let ?k = "\<lambda>r. the (from_str_radix 10 (drop (length ''applied_mutation:'') (fst r)))"
  have items: "\<forall>(k, v)\<in>set ?items. length v = 8 \<and> (\<exists>origin. k = applied_mutation_key origin)"
    using ok_applied_row [OF assms(2)] by (auto simp: scan_prefix_rows(1) [OF assms(1)])
  have key: "fst r = applied_mutation_key (?k r)" if "r \<in> set ?items" for r
    using items that by (auto simp del: list.size)
  have "inj_on ?k (set ?items)"
  proof (rule inj_onI)
    fix r r'
    assume "r \<in> set ?items" "r' \<in> set ?items" "?k r = ?k r'"
    with key have "fst r = fst r'" by metis
    with \<open>r \<in> set ?items\<close> \<open>r' \<in> set ?items\<close> scan_prefix_distinct [OF assms(1)] show "r = r'"
      by (meson distinct_map inj_onD)
  qed
  then have dist: "distinct (map ?k ?items)"
    using scan_prefix_distinct [OF assms(1)] by (simp add: distinct_map del: list.size)
  have load: "applied_mutation_seqs (open_log kv d) = fold (\<lambda>r. hm_insert (?k r) (from_be_bytes (snd r))) ?items []"
    by (simp add: open_log_def load_applied_fold [OF items] del: list.size)
  show "hm_wf (applied_mutation_seqs (open_log kv d))"
    unfolding load by (rule hm_wf_fold) simp
  show "applied_value (open_log kv d) origin = ack_value (rows d) (applied_mutation_key origin)"
  proof (cases "rows d (applied_mutation_key origin)")
    case None
    then have "origin \<notin> ?k ` set ?items"
      using key by (auto simp: scan_prefix_rows(1) [OF assms(1)] simp del: list.size)
    with None show ?thesis
      by (simp add: applied_value_def load hm_get_fold_other ack_value_def del: list.size)
  next
    case (Some v)
    then have "(applied_mutation_key origin, v) \<in> set ?items"
      by (simp add: scan_prefix_rows(1) [OF assms(1)])
    from hm_get_fold [OF hm_wf_Nil dist this, of "\<lambda>r. from_be_bytes (snd r)"] Some show ?thesis
      by (simp add: applied_value_def load ack_value_def del: list.size)
  qed
qed

section \<open>The invariant of a run\<close>

definition log_state_ok :: "(u8 list \<Rightarrow> string + 'r mutation_log_entry) \<Rightarrow> ('d \<Rightarrow> string \<Rightarrow> u8 list option)
    \<Rightarrow> 'd replication_log \<Rightarrow> bool" where
  "log_state_ok dec rows rl \<longleftrightarrow>
     repl_ok dec (rows (rl_db rl)) (mutation_seq rl)
     \<and> hm_wf (applied_mutation_seqs rl)
     \<and> (\<forall>origin. applied_value rl origin \<le> ack_value (rows (rl_db rl)) (applied_mutation_key origin))"

lemma log_state_okD:
  assumes "log_state_ok dec rows rl"
  shows "repl_ok dec (rows (rl_db rl)) (mutation_seq rl)" and "hm_wf (applied_mutation_seqs rl)"
    and "applied_value rl origin \<le> ack_value (rows (rl_db rl)) (applied_mutation_key origin)"
  using assms by (simp_all add: log_state_ok_def)

fun op_keeps :: "string \<Rightarrow> u64 \<Rightarrow> (string, u8 list) batch_op \<Rightarrow> bool" where
  "op_keeps k a (Put k' v) = (k' = k \<longrightarrow> a \<le> from_be_bytes v)"
| "op_keeps k a (Delete k') = (k' \<noteq> k)"
| "op_keeps k a (DeleteRange x y) = (\<not> (x \<le> k \<and> k < y))"

lemma op_keeps_effect: "op_keeps k a op \<Longrightarrow> a \<le> ack_value rows k \<Longrightarrow> a \<le> ack_value (batch_effect op rows) k"
  by (cases op) (auto simp: ack_value_def)

lemma op_keeps_fold:
  "\<forall>op\<in>set ops. op_keeps k a op \<Longrightarrow> a \<le> ack_value rows k \<Longrightarrow> a \<le> ack_value (fold batch_effect ops rows) k"
  by (induction ops arbitrary: rows) (auto intro: op_keeps_effect)

lemma step_keeps_value:
  assumes "rocks_laws kv rows" "rocks_atomic kv rows" "log_state_ok dec rows rl"
    and "\<forall>op\<in>event_writes enc (rows (rl_db rl)) rl ev. op_keeps k a op" and "a \<le> ack_value (rows (rl_db rl)) k"
  shows "a \<le> ack_value (rows (rl_db (repl_step kv enc rl ev))) k"
proof -
  obtain ops where "set ops \<subseteq> event_writes enc (rows (rl_db rl)) rl ev"
    "rows (rl_db (repl_step kv enc rl ev)) = fold batch_effect ops (rows (rl_db rl))"
    using step_rows [OF assms(1,2) log_state_okD(1,2) [OF assms(3)]] by blast
  with assms(4,5) op_keeps_fold [of ops k a] show ?thesis by auto
qed

lemma range_keeps_words [simp]:
  "\<not> (mutation_log_key 0 \<le> ack_key p \<and> ack_key p < mutation_log_key s)"
  "\<not> (mutation_log_key 0 \<le> mutation_ack_key p \<and> mutation_ack_key p < mutation_log_key s)"
  "\<not> (mutation_log_key 0 \<le> applied_mutation_key p \<and> applied_mutation_key p < mutation_log_key s)"
  using truncate_range_prefix [of "ack_key p" s] truncate_range_prefix [of "mutation_ack_key p" s]
    truncate_range_prefix [of "applied_mutation_key p" s] by auto

lemma writes_keep_wal_ack:
  "ev \<noteq> ForgetPeer p \<Longrightarrow> op \<in> event_writes enc rows rl ev \<Longrightarrow> op_keeps (ack_key p) (ack_value rows (ack_key p)) op"
  by (cases ev) (auto split: if_splits)

lemma writes_keep_mutation_ack:
  "ev \<noteq> ForgetPeer p \<Longrightarrow> op \<in> event_writes enc rows rl ev \<Longrightarrow>
   op_keeps (mutation_ack_key p) (ack_value rows (mutation_ack_key p)) op"
  by (cases ev) (auto split: if_splits)

lemma writes_keep_applied:
  "op \<in> event_writes enc rows rl ev \<Longrightarrow> op_keeps (applied_mutation_key origin) (applied_value rl origin) op"
  by (cases ev) (auto split: if_splits)

lemma writes_good:
  assumes "codec_ok enc dec" "op \<in> event_writes enc rows rl ev"
  shows "good_op dec (if (\<exists>r. ev = AppendMutation r) then mutation_seq rl + 1 else mutation_seq rl) op"
  using assms by (cases ev) (auto simp: codec_ok_def log_row_ok_def split: if_splits)

lemma step_seq:
  "\<not> (\<exists>r. ev = AppendMutation r) \<Longrightarrow> ev \<noteq> Restart \<Longrightarrow> mutation_seq (repl_step kv enc rl ev) = mutation_seq rl"
  "mutation_seq (repl_step kv enc rl (AppendMutation r)) = mutation_seq rl + 1"
proof -
  have put: "mutation_seq (fst (put_row kv rl ctx k v)) = mutation_seq rl" for rl ctx k v
    using put_row_db(2) [of kv rl ctx k v] by (metis prod.collapse)
  have put': "put_row kv rl ctx k v = (rl', res) \<Longrightarrow> mutation_seq rl' = mutation_seq rl" for rl ctx k v rl' res
    by (rule put_row_db(2))
  show "mutation_seq (repl_step kv enc rl (AppendMutation r)) = mutation_seq rl + 1"
    by (auto simp: append_mutation_def Let_def dest!: put' split: sum.splits prod.splits)
  show "\<not> (\<exists>r. ev = AppendMutation r) \<Longrightarrow> ev \<noteq> Restart \<Longrightarrow> mutation_seq (repl_step kv enc rl ev) = mutation_seq rl"
    by (cases ev) (auto simp: set_wal_ack_def set_mutation_ack_def set_ack_def put truncate_mutations_before_def
      check_and_record_mutation_def forget_peer_def Let_def dest!: put' split: sum.splits prod.splits option.splits)
qed

lemma step_applied:
  assumes "\<not> (\<exists>origin s. ev = CheckMutation origin s)" and "ev \<noteq> Restart"
  shows "applied_mutation_seqs (repl_step kv enc rl ev) = applied_mutation_seqs rl"
proof -
  have put: "applied_mutation_seqs (fst (put_row kv rl ctx k v)) = applied_mutation_seqs rl" for rl ctx k v
    using put_row_db(3) [of kv rl ctx k v] by (metis prod.collapse)
  have put': "put_row kv rl ctx k v = (rl', res) \<Longrightarrow> applied_mutation_seqs rl' = applied_mutation_seqs rl" for rl ctx k v rl' res
    by (rule put_row_db(3))
  from assms show ?thesis
    by (cases ev) (auto simp: append_mutation_def set_wal_ack_def set_mutation_ack_def set_ack_def put
      truncate_mutations_before_def forget_peer_def Let_def dest!: put' split: sum.splits prod.splits option.splits)
qed

text \<open>An accepted delivery is above the last applied number, which it then becomes.\<close>

lemma check_accepted:
  assumes "hm_wf (applied_mutation_seqs rl)" and "check_and_record_mutation kv rl origin s = (rl', Inr True)"
  shows "applied_value rl origin < s" and "applied_value rl' origin = s"
    and "rocks_laws kv rows \<Longrightarrow> ack_value (rows (rl_db rl')) (applied_mutation_key origin) = s"
proof -
  let ?m = "touch_origin origin (applied_mutation_seqs rl)"
  from assms(2) check_eq [OF assms(1), of kv origin s] obtain rl2
    where lt: "applied_value rl origin < s"
      and put: "put_row kv (touched rl origin) ''check_and_record_mutation'' (applied_mutation_key origin)
        (to_be_bytes s) = (rl2, Inr ())"
      and rl': "rl' = rl2\<lparr>applied_mutation_seqs := hm_insert origin s ?m\<rparr>"
    by (auto split: if_splits prod.splits sum.splits)
  from lt show "applied_value rl origin < s" .
  show "applied_value rl' origin = s"
    by (simp add: rl' applied_value_def hm.get_ins touch_origin_get(1) [OF assms(1)])
  show "ack_value (rows (rl_db rl')) (applied_mutation_key origin) = s" if "rocks_laws kv rows"
    using put_row_rows [OF that put] by (simp add: rl' ack_value_def)
qed

lemma check_applied:
  assumes "hm_wf (applied_mutation_seqs rl)"
  shows "hm_wf (applied_mutation_seqs (fst (check_and_record_mutation kv rl origin s)))"
    and "applied_value (fst (check_and_record_mutation kv rl origin s)) o' =
      (if o' = origin \<and> snd (check_and_record_mutation kv rl origin s) = Inr True then s else applied_value rl o')"
proof -
  let ?m = "touch_origin origin (applied_mutation_seqs rl)"
  note touch = touch_origin_get [OF assms]
  have touched: "applied_mutation_seqs (touched rl origin) = ?m" by (simp add: touched_def)
  have put: "put_row kv (touched rl origin) ctx k v = (rl', res) \<Longrightarrow> applied_mutation_seqs rl' = ?m" for ctx k v rl' res
    using put_row_db(3) [of kv "touched rl origin"] by (simp add: touched_def)
  have "applied_mutation_seqs (fst (check_and_record_mutation kv rl origin s)) =
      (if snd (check_and_record_mutation kv rl origin s) = Inr True then hm_insert origin s ?m else ?m)"
    by (auto simp: check_eq [OF assms] touched dest!: put split: prod.splits sum.splits)
  then show "hm_wf (applied_mutation_seqs (fst (check_and_record_mutation kv rl origin s)))"
    and "applied_value (fst (check_and_record_mutation kv rl origin s)) o' =
      (if o' = origin \<and> snd (check_and_record_mutation kv rl origin s) = Inr True then s else applied_value rl o')"
    by (simp_all add: applied_value_def touch hm.wf_ins hm.get_ins)
qed

lemma step_applied_ok:
  assumes laws: "rocks_laws kv rows" "rocks_atomic kv rows" and ok: "log_state_ok dec rows rl" and "ev \<noteq> Restart"
  shows "hm_wf (applied_mutation_seqs (repl_step kv enc rl ev))"
    and "applied_value rl origin \<le> applied_value (repl_step kv enc rl ev) origin"
    and "applied_value (repl_step kv enc rl ev) origin
      \<le> ack_value (rows (rl_db (repl_step kv enc rl ev))) (applied_mutation_key origin)"
proof -
  let ?rl = "repl_step kv enc rl ev"
  note okD = log_state_okD [OF ok]
  have row_ge: "applied_value rl origin \<le> ack_value (rows (rl_db ?rl)) (applied_mutation_key origin)" for origin
    using step_keeps_value [OF laws ok _ okD(3)] writes_keep_applied by blast
  have "hm_wf (applied_mutation_seqs ?rl) \<and> applied_value rl origin \<le> applied_value ?rl origin \<and>
      applied_value ?rl origin \<le> ack_value (rows (rl_db ?rl)) (applied_mutation_key origin)"
  proof (cases "\<exists>origin s. ev = CheckMutation origin s")
    case True
    then obtain o' s where ev: "ev = CheckMutation o' s" by blast
    obtain rl' res where "check_and_record_mutation kv rl o' s = (rl', res)" by fastforce
    then show ?thesis
      using check_applied [OF okD(2), of kv o' s] check_accepted [OF okD(2), of kv o' s rl'] row_ge laws(1)
      by (auto simp: ev less_imp_le)
  next
    case False
    with assms(4) row_ge okD(2) show ?thesis by (simp add: step_applied applied_value_def)
  qed
  then show "hm_wf (applied_mutation_seqs ?rl)" and "applied_value rl origin \<le> applied_value ?rl origin"
    and "applied_value ?rl origin \<le> ack_value (rows (rl_db ?rl)) (applied_mutation_key origin)"
    by blast+
qed

lemma step_log_state_ok:
  assumes laws: "rocks_laws kv rows" "rocks_atomic kv rows" and codec: "codec_ok enc dec"
    and ok: "log_state_ok dec rows rl" and room: "mutation_seq rl \<noteq> u64_max"
  shows "log_state_ok dec rows (repl_step kv enc rl ev) \<and>
    applied_value rl origin \<le> applied_value (repl_step kv enc rl ev) origin \<and>
    unat (mutation_seq (repl_step kv enc rl ev)) \<le> Suc (unat (mutation_seq rl))"
proof (cases "ev = Restart")
  case True
  have db: "rl_db (open_log kv d) = d" for d by (simp add: open_log_def)
  note okD = log_state_okD [OF ok]
  show ?thesis
    using restart_seq [OF laws(1) okD(1)] restart_applied [OF laws(1) okD(1)] okD(3) True
    by (simp add: log_state_ok_def db word_le_nat_alt)
next
  case False
  let ?rl = "repl_step kv enc rl ev"
  let ?n = "if (\<exists>r. ev = AppendMutation r) then mutation_seq rl + 1 else mutation_seq rl"
  note okD = log_state_okD [OF ok]
  have gt: "mutation_seq rl < mutation_seq rl + 1" using word_succ_gt room by blast
  obtain ops where ops: "set ops \<subseteq> event_writes enc (rows (rl_db rl)) rl ev"
    "rows (rl_db ?rl) = fold batch_effect ops (rows (rl_db rl))"
    using step_rows [OF laws okD(1,2)] by blast
  have "repl_ok dec (rows (rl_db rl)) ?n" using okD(1) gt by (auto intro: repl_ok_mono)
  then have rows: "repl_ok dec (rows (rl_db ?rl)) ?n"
    unfolding ops(2) using ops(1) writes_good [OF codec] by (blast intro: repl_ok_fold)
  have seq: "mutation_seq ?rl = ?n"
    using step_seq(1) [OF _ False, of kv enc rl] step_seq(2) [of kv enc rl] by auto
  have "unat ?n \<le> Suc (unat (mutation_seq rl))"
    using unat_word_ariths(1) [of "mutation_seq rl" 1] by simp
  then show ?thesis
    using rows seq step_applied_ok [OF laws ok False] by (simp add: log_state_ok_def)
qed

text \<open>A log that starts empty keeps the invariant for as long as the counter cannot wrap.\<close>

lemma run_log_state_ok:
  assumes laws: "rocks_laws kv rows" "rocks_atomic kv rows" and codec: "codec_ok enc dec"
  shows "log_state_ok dec rows rl \<Longrightarrow> unat (mutation_seq rl) + length evs < 2 ^ 64 \<Longrightarrow>
    log_state_ok dec rows (foldl (repl_step kv enc) rl evs) \<and>
    unat (mutation_seq (foldl (repl_step kv enc) rl evs)) \<le> unat (mutation_seq rl) + length evs"
proof (induction evs arbitrary: rl)
  case (Cons ev evs)
  then have "mutation_seq rl \<noteq> u64_max" by (auto simp: unsigned_minus_1_eq_mask mask_eq_exp_minus_1)
  note step = step_log_state_ok [OF laws codec Cons.prems(1) this, of ev 0]
  with Cons.prems(2) have "unat (mutation_seq (repl_step kv enc rl ev)) + length evs < 2 ^ 64" by simp
  from Cons.IH [OF conjunct1 [OF step] this] step show ?case by simp
qed simp

lemma open_empty_ok:
  assumes "rocks_laws kv rows" "rows d = Map.empty"
  shows "log_state_ok dec rows (open_log kv d)" and "mutation_seq (open_log kv d) = 0"
proof -
  have "repl_ok dec (rows d) 0" by (simp add: repl_ok_def assms(2))
  from restart_seq [OF assms(1) this] restart_applied [OF assms(1) this]
  show "log_state_ok dec rows (open_log kv d)" and "mutation_seq (open_log kv d) = 0"
    by (simp_all add: log_state_ok_def open_log_def)
qed

lemma reached_ok:
  assumes "rocks_laws kv rows" "rocks_atomic kv rows" "codec_ok enc dec" "rows d = Map.empty" "length evs < 2 ^ 64"
  shows "log_state_ok dec rows (foldl (repl_step kv enc) (open_log kv d) evs)"
    and "unat (mutation_seq (foldl (repl_step kv enc) (open_log kv d) evs)) \<le> length evs"
  using run_log_state_ok [OF assms(1-3) open_empty_ok(1) [OF assms(1,4)], of evs]
    open_empty_ok(2) [OF assms(1,4)] assms(5) by simp_all

section \<open>Operations on the abstract log\<close>

lemma logged_le: "repl_ok dec rows n \<Longrightarrow> (s, r) \<in> logged dec rows \<Longrightarrow> s \<le> n"
  using ok_log_row [of dec rows n "mutation_log_key s"] by (auto simp: logged_def)

lemma append_logged:
  assumes laws: "rocks_laws kv rows" and codec: "codec_ok enc dec" and ok: "repl_ok dec (rows (rl_db rl)) (mutation_seq rl)"
    and room: "mutation_seq rl \<noteq> u64_max" and ap: "append_mutation kv enc rl r = (rl', Inr s)"
  shows "logged dec (rows (rl_db rl')) = insert (s, r) (logged dec (rows (rl_db rl)))"
    and "(s', r') \<in> logged dec (rows (rl_db rl)) \<Longrightarrow> s' < s"
proof -
  from ap obtain v where s: "s = mutation_seq rl + 1" and v: "enc \<lparr>entry_seq = s, entry_request = r\<rparr> = Inr v"
    and put: "put_row kv (rl\<lparr>mutation_seq := s\<rparr>) ''append_mutation'' (mutation_log_key s) v = (rl', Inr ())"
    by (auto simp: append_mutation_def Let_def split: sum.splits prod.splits)
  have gt: "mutation_seq rl < s" using word_succ_gt room s by blast
  show less: "s' < s" if "(s', r') \<in> logged dec (rows (rl_db rl))" for s' r'
    using logged_le [OF ok that] gt by simp
  have "rows (rl_db rl') = (rows (rl_db rl))(mutation_log_key s := Some v)"
    using put_row_rows [OF laws put] by simp
  moreover have "dec v = Inr \<lparr>entry_seq = s, entry_request = r\<rparr>"
    using codec v by (simp add: codec_ok_def)
  moreover have "\<forall>x. (s, x) \<notin> logged dec (rows (rl_db rl))" using less [of s] by blast
  ultimately show "logged dec (rows (rl_db rl')) = insert (s, r) (logged dec (rows (rl_db rl)))"
    by (auto simp: logged_def split: if_splits)
qed

lemma truncate_logged:
  assumes "rocks_laws kv rows" "truncate_mutations_before kv rl a = (rl', Inr ())"
  shows "logged dec (rows (rl_db rl')) = {(s, r) \<in> logged dec (rows (rl_db rl)). a \<le> s}"
    and "\<And>n. repl_ok dec (rows (rl_db rl)) n \<Longrightarrow> repl_ok dec (rows (rl_db rl')) n"
proof -
  from assms(2) have "rdb_write kv (rl_db rl) [DeleteRange (mutation_log_key 0) (mutation_log_key a)] = (rl_db rl', Inr ())"
    by (auto simp: truncate_mutations_before_def split: prod.splits sum.splits)
  from rdb_write_rows [OF assms(1) this]
  have rows: "rows (rl_db rl') = batch_effect (DeleteRange (mutation_log_key 0) (mutation_log_key a)) (rows (rl_db rl))"
    by simp
  then show "logged dec (rows (rl_db rl')) = {(s, r) \<in> logged dec (rows (rl_db rl)). a \<le> s}"
    by (auto simp: logged_def split: if_splits)
  show "repl_ok dec (rows (rl_db rl)) n \<Longrightarrow> repl_ok dec (rows (rl_db rl')) n" for n
    unfolding rows by (rule repl_ok_effect) simp_all
qed

lemma read_entries_take:
  assumes "\<forall>(k, v)\<in>set items. starts_with k ''mutation_log:'' \<longrightarrow> dec v = Inr (f (k, v))"
    and "length acc \<le> n"
  shows "read_entries dec n (map Inr items) acc =
    Inr (take n (acc @ map f (takeWhile (\<lambda>(k, _). starts_with k ''mutation_log:'') items)))"
  using assms
proof (induction items arbitrary: acc)
  case (Cons x items)
  obtain k v where x: "x = (k, v)" by fastforce
  show ?case
  proof (cases "length acc = n \<or> \<not> starts_with k ''mutation_log:''")
    case True
    with Cons.prems(2) show ?thesis by (auto simp: x)
  next
    case False
    with Cons.prems have "dec v = Inr (f (k, v))" "length (acc @ [f (k, v)]) \<le> n" by (auto simp: x)
    with Cons.IH [of "acc @ [f (k, v)]"] Cons.prems(1) False show ?thesis by (auto simp: x)
  qed
qed simp

lemma sorted_log_keys: "sorted_wrt (<) (map mutation_log_key ss) \<longleftrightarrow> sorted_wrt (<) ss"
  by (simp add: sorted_wrt_map)

lemma log_scan:
  assumes laws: "rocks_laws kv rows" and ok: "repl_ok dec (rows d) m"
  obtains items where "rdb_iter_from kv d (mutation_log_key from_seq) = map Inr items"
    and "sorted_wrt (<) (map fst (takeWhile (\<lambda>(k, _). starts_with k ''mutation_log:'') items))"
    and "set (takeWhile (\<lambda>(k, _). starts_with k ''mutation_log:'') items) =
      {(mutation_log_key s, v) | s v. rows d (mutation_log_key s) = Some v \<and> from_seq \<le> s}"
    and "{x \<in> set items. starts_with (fst x) ''mutation_log:''} \<subseteq>
      set (takeWhile (\<lambda>(k, _). starts_with k ''mutation_log:'') items)"
proof -
  let ?pre = "''mutation_log:''" and ?from = "mutation_log_key from_seq"
  obtain items where items: "rdb_iter_from kv d ?from = map Inr items" "sorted_wrt (<) (map fst items)"
    "set items = {(k, v). rows d k = Some v \<and> ?from \<le> k}"
    using iter_items [OF laws] by blast
  let ?logs = "takeWhile (\<lambda>(k, _). starts_with k ?pre) items"
  have pre: "?pre \<le> k" if "(k, v) \<in> set items" for k v
    using order_trans [OF starts_with_ge [of ?from ?pre]] that by (simp add: items(3))
  have logs: "set ?logs = {(k, v) \<in> set items. starts_with k ?pre}"
    by (rule takeWhile_prefix [OF items(2) pre])
  then have "set ?logs = {(mutation_log_key s, v) | s v. rows d (mutation_log_key s) = Some v \<and> from_seq \<le> s}"
    using ok_log_row [OF ok] by (fastforce simp: items(3))
  moreover have "sorted_wrt (\<lambda>x y. fst x < fst y) ?logs"
    using items(2) sorted_wrt_takeWhile [of "\<lambda>x y. fst x < fst y" items] by (simp add: sorted_wrt_map)
  moreover have "{x \<in> set items. starts_with (fst x) ?pre} \<subseteq> set ?logs" using logs by auto
  ultimately show ?thesis using items(1) that by (simp add: sorted_wrt_map)
qed

lemma read_mutations_logged:
  assumes laws: "rocks_laws kv rows" and ok: "repl_ok dec (rows (rl_db rl)) m"
  shows "\<exists>es. read_mutations_from kv dec rl from_seq n = Inr (take n es) \<and> sorted_wrt (<) (map entry_seq es) \<and>
    (\<lambda>e. (entry_seq e, entry_request e)) ` set es = {(s, r) \<in> logged dec (rows (rl_db rl)). from_seq \<le> s}"
proof -
  obtain items where items: "rdb_iter_from kv (rl_db rl) (mutation_log_key from_seq) = map Inr items"
    and sorted: "sorted_wrt (<) (map fst (takeWhile (\<lambda>(k, _). starts_with k ''mutation_log:'') items))"
    and set: "set (takeWhile (\<lambda>(k, _). starts_with k ''mutation_log:'') items) =
      {(mutation_log_key s, v) | s v. rows (rl_db rl) (mutation_log_key s) = Some v \<and> from_seq \<le> s}"
    and sub: "{x \<in> set items. starts_with (fst x) ''mutation_log:''} \<subseteq>
      set (takeWhile (\<lambda>(k, _). starts_with k ''mutation_log:'') items)"
    using log_scan [OF assms] by blast
  define logs where "logs = takeWhile (\<lambda>(k, _). starts_with k ''mutation_log:'') items"
  define f where "f = (\<lambda>(k :: string, v). projr (dec v))"
  have f: "\<exists>s r v. x = (mutation_log_key s, v) \<and> rows (rl_db rl) (mutation_log_key s) = Some v \<and> from_seq \<le> s \<and>
      dec v = Inr (f x) \<and> f x = \<lparr>entry_seq = s, entry_request = r\<rparr>" if "x \<in> set logs" for x
    using that ok_log_row [OF ok] unfolding logs_def set by (fastforce simp: f_def)
  have "\<forall>(k, v)\<in>set items. starts_with k ''mutation_log:'' \<longrightarrow> dec v = Inr (f (k, v))"
    using sub f unfolding logs_def [symmetric] by fastforce
  from read_entries_take [OF this, of "[]" n]
  have "read_mutations_from kv dec rl from_seq n = Inr (take n (map f logs))"
    by (simp add: read_mutations_from_def items logs_def)
  moreover have "sorted_wrt (<) (map entry_seq (map f logs))"
  proof -
    have "fst x = mutation_log_key (entry_seq (f x))" if "x \<in> set logs" for x using f [OF that] by auto
    then have "map fst logs = map mutation_log_key (map entry_seq (map f logs))" by simp
    with sorted show ?thesis unfolding logs_def [symmetric] by (simp only: sorted_log_keys)
  qed
  moreover have "(\<lambda>e. (entry_seq e, entry_request e)) ` set (map f logs) =
      {(s, r) \<in> logged dec (rows (rl_db rl)). from_seq \<le> s}" (is "?l = ?r")
  proof (intro set_eqI iffI)
    fix e
    assume "e \<in> ?l"
    then show "e \<in> ?r" using f by (fastforce simp: logged_def)
  next
    fix e
    assume "e \<in> ?r"
    then obtain s r v where e: "e = (s, r)" "rows (rl_db rl) (mutation_log_key s) = Some v" "from_seq \<le> s"
      "dec v = Inr \<lparr>entry_seq = s, entry_request = r\<rparr>" by (auto simp: logged_def)
    then have "(mutation_log_key s, v) \<in> set logs" by (auto simp: logs_def set)
    then have "f (mutation_log_key s, v) \<in> set (map f logs)" by simp
    from imageI [OF this, of "\<lambda>e. (entry_seq e, entry_request e)"] e show "e \<in> ?l" by (simp add: f_def)
  qed
  ultimately show ?thesis by blast
qed

section \<open>Deliveries\<close>

text \<open>The deliveries that passed the duplicate check, in order.\<close>

fun accepted :: "('d, string, u8 list) rocks \<Rightarrow> ('r mutation_log_entry \<Rightarrow> string + u8 list)
    \<Rightarrow> 'd replication_log \<Rightarrow> 'r repl_event list \<Rightarrow> (u64 \<times> u64) list" where
  "accepted kv enc rl [] = []"
| "accepted kv enc rl (ev # evs) =
     (case ev of
        CheckMutation origin s \<Rightarrow>
          (if snd (check_and_record_mutation kv rl origin s) = Inr True then [(origin, s)] else [])
      | _ \<Rightarrow> []) @ accepted kv enc (repl_step kv enc rl ev) evs"

definition accepted_from :: "u64 \<Rightarrow> (u64 \<times> u64) list \<Rightarrow> u64 list" where
  "accepted_from origin acc = map snd (filter (\<lambda>(o', _). o' = origin) acc)"

lemma accepted_increasing:
  assumes laws: "rocks_laws kv rows" "rocks_atomic kv rows" and codec: "codec_ok enc dec"
  shows "log_state_ok dec rows rl \<Longrightarrow> unat (mutation_seq rl) + length evs < 2 ^ 64 \<Longrightarrow>
    sorted_wrt (<) (applied_value rl origin # accepted_from origin (accepted kv enc rl evs))"
proof (induction evs arbitrary: rl)
  case Nil
  then show ?case by (simp add: accepted_from_def)
next
  case (Cons ev evs)
  then have "mutation_seq rl \<noteq> u64_max" by (auto simp: unsigned_minus_1_eq_mask mask_eq_exp_minus_1)
  note step = step_log_state_ok [OF laws codec Cons.prems(1) this, of ev origin]
  with Cons.prems(2) have "unat (mutation_seq (repl_step kv enc rl ev)) + length evs < 2 ^ 64" by simp
  with Cons.IH step have IH: "sorted_wrt (<) (applied_value (repl_step kv enc rl ev) origin #
      accepted_from origin (accepted kv enc (repl_step kv enc rl ev) evs))" by blast
  show ?case
  proof (cases "\<exists>s. ev = CheckMutation origin s \<and> snd (check_and_record_mutation kv rl origin s) = Inr True")
    case True
    then obtain s rl' where ev: "ev = CheckMutation origin s" and c: "check_and_record_mutation kv rl origin s = (rl', Inr True)"
      by (metis prod.collapse)
    with check_accepted(1,2) [OF log_state_okD(2) [OF Cons.prems(1)] c] IH show ?thesis
      by (auto simp: accepted_from_def)
  next
    case False
    then have "accepted_from origin (accepted kv enc rl (ev # evs)) =
        accepted_from origin (accepted kv enc (repl_step kv enc rl ev) evs)"
      by (cases ev) (auto simp: accepted_from_def)
    with IH step show ?thesis by auto
  qed
qed

lemma duplicate_skipped:
  assumes "hm_wf (applied_mutation_seqs rl)" "s \<le> applied_value rl origin"
  shows "check_and_record_mutation kv rl origin s = (touched rl origin, Inr False)"
  using leD [OF assms(2)] by (simp add: check_eq [OF assms(1)])

section \<open>Properties\<close>

text \<open>A codec with the law, for the witnesses: eight bytes of number, then the request.\<close>

definition bytes_enc :: "u8 list mutation_log_entry \<Rightarrow> string + u8 list" where
  "bytes_enc e = Inr (to_be_bytes (entry_seq e) @ entry_request e)"

definition bytes_dec :: "u8 list \<Rightarrow> string + u8 list mutation_log_entry" where
  "bytes_dec v = Inr \<lparr>entry_seq = from_be_bytes (take 8 v), entry_request = drop 8 v\<rparr>"

lemma bytes_codec: "codec_ok bytes_enc bytes_dec"
  by (simp add: codec_ok_def bytes_enc_def bytes_dec_def)

text \<open>
  Whatever a node does with its log short of forgetting a peer, restarts and failed writes
  included, the recorded acknowledgements of the peer never go back.
\<close>

theorem acks_only_advance:
  assumes "rocks_laws kv rows" "rocks_atomic kv rows" "codec_ok enc dec" "rows d = Map.empty" "Suc (length evs) < 2 ^ 64"
    and rl: "rl = foldl (repl_step kv enc) (open_log kv d) evs" and ev: "ev \<noteq> ForgetPeer p"
  shows "(\<exists>a a'. get_wal_ack kv rl p = Inr a \<and> get_wal_ack kv (repl_step kv enc rl ev) p = Inr a' \<and> a \<le> a') \<and>
    (\<exists>a a'. get_mutation_ack kv rl p = Inr a \<and> get_mutation_ack kv (repl_step kv enc rl ev) p = Inr a' \<and> a \<le> a')"
proof -
  have ok: "log_state_ok dec rows rl"
    unfolding rl by (rule reached_ok(1) [OF assms(1-4)]) (use assms(5) in simp)
  have "log_state_ok dec rows (foldl (repl_step kv enc) (open_log kv d) (evs @ [ev]))"
    by (rule reached_ok(1) [OF assms(1-4)]) (use assms(5) in simp)
  then have ok': "log_state_ok dec rows (repl_step kv enc rl ev)" by (simp add: rl)
  note get = get_ack_value [OF assms(1) log_state_okD(1) [OF ok]] get_ack_value [OF assms(1) log_state_okD(1) [OF ok']]
  have "ack_value (rows (rl_db rl)) (ack_key p) \<le> ack_value (rows (rl_db (repl_step kv enc rl ev))) (ack_key p)"
    using step_keeps_value [OF assms(1,2) ok _ order_refl] writes_keep_wal_ack [OF ev] by blast
  moreover have "ack_value (rows (rl_db rl)) (mutation_ack_key p) \<le>
      ack_value (rows (rl_db (repl_step kv enc rl ev))) (mutation_ack_key p)"
    using step_keeps_value [OF assms(1,2) ok _ order_refl] writes_keep_mutation_ack [OF ev] by blast
  ultimately show ?thesis by (simp add: get_wal_ack_def get_mutation_ack_def get)
qed

theorem acks_only_advance_witness:
  "\<exists>a a'. get_wal_ack list_kv (foldl (repl_step list_kv bytes_enc) (open_log list_kv []) [SetWalAck 2 9]) 2 = Inr a \<and>
     get_wal_ack list_kv (repl_step list_kv bytes_enc
       (foldl (repl_step list_kv bytes_enc) (open_log list_kv []) [SetWalAck 2 9]) (SetWalAck 2 5)) 2 = Inr a' \<and> a \<le> a'"
  using acks_only_advance [OF list_kv_laws list_kv_atomic bytes_codec, of "[]" "[SetWalAck 2 9]" _ "SetWalAck 2 5" 2]
  by simp

text \<open>
  C12. The mutation log of a reached state is a set of numbered requests: an append that succeeds
  adds one entry, under a number above all others; a truncation keeps the entries from its bound
  on; and a read gives the entries from the asked number on, in increasing order, up to the limit.
\<close>

theorem mutation_log_refines:
  assumes "rocks_laws kv rows" "rocks_atomic kv rows" "codec_ok enc dec" "rows d = Map.empty" "Suc (length evs) < 2 ^ 64"
    and rl: "rl = foldl (repl_step kv enc) (open_log kv d) evs"
  shows "(\<forall>r rl' s. append_mutation kv enc rl r = (rl', Inr s) \<longrightarrow>
      logged dec (rows (rl_db rl')) = insert (s, r) (logged dec (rows (rl_db rl))) \<and>
      (\<forall>(s', r')\<in>logged dec (rows (rl_db rl)). s' < s)) \<and>
    (\<forall>a rl'. truncate_mutations_before kv rl a = (rl', Inr ()) \<longrightarrow>
      logged dec (rows (rl_db rl')) = {(s, r) \<in> logged dec (rows (rl_db rl)). a \<le> s}) \<and>
    (\<forall>from_seq n. \<exists>es. read_mutations_from kv dec rl from_seq n = Inr (take n es) \<and>
      sorted_wrt (<) (map entry_seq es) \<and>
      (\<lambda>e. (entry_seq e, entry_request e)) ` set es = {(s, r) \<in> logged dec (rows (rl_db rl)). from_seq \<le> s})"
proof -
  have ok: "repl_ok dec (rows (rl_db rl)) (mutation_seq rl)"
    unfolding rl by (rule log_state_okD(1), rule reached_ok(1) [OF assms(1-4)]) (use assms(5) in simp)
  have "unat (mutation_seq rl) \<le> length evs"
    unfolding rl by (rule reached_ok(2) [OF assms(1-4)]) (use assms(5) in simp)
  with assms(5) have "mutation_seq rl \<noteq> u64_max" by (auto simp: unsigned_minus_1_eq_mask mask_eq_exp_minus_1)
  note append = append_logged [OF assms(1,3) ok this]
  show ?thesis
    by (intro conjI allI impI append(1) truncate_logged(1) [OF assms(1)] read_mutations_logged [OF assms(1) ok])
      (auto dest: append(2))
qed

theorem mutation_log_refines_witness:
  "\<exists>es. read_mutations_from list_kv bytes_dec
      (foldl (repl_step list_kv bytes_enc) (open_log list_kv []) [AppendMutation [7], AppendMutation [8]]) 2 10 =
      Inr (take 10 es) \<and> sorted_wrt (<) (map entry_seq es)"
  using mutation_log_refines [OF list_kv_laws list_kv_atomic bytes_codec _ _ refl,
      of "[]" "[AppendMutation [7], AppendMutation [8]]", THEN conjunct2, THEN conjunct2]
  by (fastforce simp del: foldl.simps)

text \<open>
  Truncating the log, at any number up to one that is logged, and restarting never makes a
  number be given out twice: the next append is above every number that was logged before.
\<close>

theorem numbering_survives_restart:
  assumes "rocks_laws kv rows" "rocks_atomic kv rows" "codec_ok enc dec" "rows d = Map.empty" "Suc (length evs) < 2 ^ 64"
    and rl: "rl = foldl (repl_step kv enc) (open_log kv d) evs"
    and tr: "truncate_mutations_before kv rl a = (rl1, Inr ())" and last: "(s, r) \<in> logged dec (rows (rl_db rl))" "a \<le> s"
    and ap: "append_mutation kv enc (open_log kv (rl_db rl1)) r' = (rl2, Inr new)"
  shows "\<forall>(s', r')\<in>logged dec (rows (rl_db rl)). s' < new"
proof -
  let ?rl = "open_log kv (rl_db rl1)"
  have ok: "repl_ok dec (rows (rl_db rl)) (mutation_seq rl)"
    unfolding rl by (rule log_state_okD(1), rule reached_ok(1) [OF assms(1-4)]) (use assms(5) in simp)
  have le: "unat (mutation_seq rl) \<le> length evs"
    unfolding rl by (rule reached_ok(2) [OF assms(1-4)]) (use assms(5) in simp)
  note ok1 = truncate_logged(2) [OF assms(1) tr ok]
  note restart = restart_seq [OF assms(1) ok1]
  from restart(1) le assms(5) have room: "mutation_seq ?rl \<noteq> u64_max"
    by (auto simp: word_le_nat_alt unsigned_minus_1_eq_mask mask_eq_exp_minus_1)
  have ok2: "repl_ok dec (rows (rl_db ?rl)) (mutation_seq ?rl)" using restart(2) by (simp add: open_log_def)
  have kept: "x < new" if "(x, y) \<in> logged dec (rows (rl_db rl))" "a \<le> x" for x y
    using append_logged(2) [OF assms(1,3) ok2 room ap, of x y] that truncate_logged(1) [OF assms(1) tr, of dec]
    by (simp add: open_log_def)
  show ?thesis
    using kept kept [OF last] last(2) by (fastforce simp: not_le)
qed

lemma list_append:
  "append_mutation list_kv bytes_enc rl r =
    (rl\<lparr>mutation_seq := mutation_seq rl + 1,
        rl_db := (mutation_log_key (mutation_seq rl + 1), to_be_bytes (mutation_seq rl + 1) @ r) # rl_db rl\<rparr>,
     Inr (mutation_seq rl + 1))"
  by (simp add: append_mutation_def put_row_def bytes_enc_def Let_def)

theorem numbering_survives_restart_witness:
  "\<exists>rl rl1. rl = foldl (repl_step list_kv bytes_enc) (open_log list_kv []) [AppendMutation [7], AppendMutation [8]] \<and>
     truncate_mutations_before list_kv rl 2 = (rl1, Inr ()) \<and> (2, [8]) \<in> logged bytes_dec (map_of (rl_db rl)) \<and>
     (\<forall>(s', r')\<in>logged bytes_dec (map_of (rl_db rl)). s' < mutation_seq (open_log list_kv (rl_db rl1)) + 1)"
proof -
  let ?rl = "foldl (repl_step list_kv bytes_enc) (open_log list_kv []) [AppendMutation [7], AppendMutation [8]]"
  let ?rl1 = "fst (truncate_mutations_before list_kv ?rl 2)"
  have tr: "truncate_mutations_before list_kv ?rl 2 = (?rl1, Inr ())"
    by (simp add: truncate_mutations_before_def)
  have "mutation_seq (open_log list_kv []) = 0"
    by (rule open_empty_ok(2) [OF list_kv_laws]) simp
  then have last: "(2, [8]) \<in> logged bytes_dec (map_of (rl_db ?rl))"
    by (simp add: list_append logged_def bytes_dec_def)
  have "\<forall>(s', r')\<in>logged bytes_dec (map_of (rl_db ?rl)). s' < mutation_seq (open_log list_kv (rl_db ?rl1)) + 1"
    by (rule numbering_survives_restart [OF list_kv_laws list_kv_atomic bytes_codec _ _ refl tr last _ list_append]) simp_all
  with tr last show ?thesis by blast
qed

text \<open>
  Over any run of a node, restarts and failed writes included, the mutations of one origin
  that pass the duplicate check carry strictly increasing numbers: none passes twice.
\<close>

theorem deliveries_accepted_once:
  assumes "rocks_laws kv rows" "rocks_atomic kv rows" "codec_ok enc dec" "rows d = Map.empty" "length evs < 2 ^ 64"
  shows "sorted_wrt (<) (accepted_from origin (accepted kv enc (open_log kv d) evs))"
  using accepted_increasing [OF assms(1-3) open_empty_ok(1) [OF assms(1,4)], of evs origin]
    open_empty_ok(2) [OF assms(1,4)] assms(5) by simp

theorem deliveries_accepted_once_witness:
  "sorted_wrt (<) (accepted_from 3 (accepted list_kv bytes_enc (open_log list_kv [])
     [CheckMutation 3 1, CheckMutation 3 1, Restart, CheckMutation 3 1, CheckMutation 3 2]))"
  by (rule deliveries_accepted_once [OF list_kv_laws list_kv_atomic bytes_codec]) simp_all

text \<open>
  Once a mutation of an origin has passed the duplicate check, a mutation of that origin with
  the same or a smaller number is acknowledged without being applied: a retry after the first
  application failed, and a mutation that was overtaken and never seen.
\<close>

theorem overtaken_mutation_dropped:
  assumes "hm_wf (applied_mutation_seqs rl)" and "origin \<noteq> 0" "validate_origin_node_id membership origin"
    and acc: "check_and_record_mutation kv rl origin s = (rl1, Inr True)" and "s' \<le> s"
  shows "\<exists>rl2. handle_replicate_mutation kv apply_mutation membership (Some rl1, app) origin s' req =
    ((Some rl2, app), AckSeq s')"
proof -
  have "hm_wf (applied_mutation_seqs rl1)" using check_applied(1) [OF assms(1), of kv origin s] acc by simp
  from duplicate_skipped [OF this] check_accepted(2) [OF assms(1) acc] assms
  show ?thesis by (simp add: handle_replicate_mutation_def)
qed

theorem overtaken_mutation_dropped_witness:
  "\<exists>rl1 rl2. check_and_record_mutation list_kv (open_log list_kv []) 3 5 = (rl1, Inr True) \<and>
     handle_replicate_mutation list_kv (\<lambda>r app. (r # app, Inr ()))
       (Some (add_node \<lparr>node_id = 3, addr = ''n3:8086'', node_state = Active, joined_at = 0, last_heartbeat = 0,
          needs_sync = False, consecutive_misses = 0\<rparr> new_membership))
       (Some rl1, []) 3 4 ''create database'' = ((Some rl2, []), AckSeq 4)"
proof -
  let ?rl = "open_log list_kv [] :: (string \<times> u8 list) list replication_log"
  have ok: "log_state_ok bytes_dec map_of ?rl" by (rule open_empty_ok(1) [OF list_kv_laws]) simp
  have "applied_value ?rl 3 \<le> 0" using log_state_okD(3) [OF ok, of 3] by (simp add: ack_value_def open_log_def)
  then have acc: "check_and_record_mutation list_kv ?rl 3 5 =
      (fst (check_and_record_mutation list_kv ?rl 3 5), Inr True)"
    by (simp add: check_eq [OF log_state_okD(2) [OF ok]] put_row_def)
  have "validate_origin_node_id (Some (add_node \<lparr>node_id = 3, addr = ''n3:8086'', node_state = Active, joined_at = 0,
      last_heartbeat = 0, needs_sync = False, consecutive_misses = 0\<rparr> new_membership)) 3"
    by (simp add: validate_origin_node_id_def get_node_def add_node_def new_membership_def hm.get_ins)
  from overtaken_mutation_dropped [OF log_state_okD(2) [OF ok] _ this acc, of 4] acc show ?thesis
    by fastforce
qed

end
