(* ===== verification/Ordered_Set.thy ===== *)
theory Ordered_Set
  imports HB_Prelude "HOL-Library.Product_Lexorder"
begin

text \<open>
  Ordered sets (\<open>std::collections::BTreeSet\<close>): lists in strictly increasing order. The locale
  \<open>ordered_set\<close> is what the queues rely on, with the lemmas about taking the elements up to a
  bound; it is interpreted on the lists.
\<close>

section \<open>Operations\<close>

type_synonym 'a btree_set = "'a list"

fun bs_insert :: "'a::linorder \<Rightarrow> 'a btree_set \<Rightarrow> 'a btree_set" where
  "bs_insert x [] = [x]"
| "bs_insert x (y # ys) = (if x < y then x # y # ys else if x = y then y # ys else y # bs_insert x ys)"

definition bs_remove :: "'a \<Rightarrow> 'a btree_set \<Rightarrow> 'a btree_set" where
  "bs_remove x xs = filter (\<lambda>y. y \<noteq> x) xs"

definition bs_first :: "'a btree_set \<Rightarrow> 'a option" where
  "bs_first xs = (case xs of [] \<Rightarrow> None | x # _ \<Rightarrow> Some x)"

definition bs_wf :: "'a::linorder btree_set \<Rightarrow> bool" where
  "bs_wf xs \<longleftrightarrow> sorted_wrt (<) xs"

section \<open>Interface\<close>

locale ordered_set =
  fixes ins :: "'a::linorder \<Rightarrow> 's \<Rightarrow> 's"
    and rem :: "'a \<Rightarrow> 's \<Rightarrow> 's"
    and first :: "'s \<Rightarrow> 'a option"
    and elems :: "'s \<Rightarrow> 'a set"
    and wf :: "'s \<Rightarrow> bool"
  assumes elems_ins: "wf s \<Longrightarrow> elems (ins x s) = insert x (elems s)"
    and elems_rem: "wf s \<Longrightarrow> elems (rem x s) = elems s - {x}"
    and wf_ins: "wf s \<Longrightarrow> wf (ins x s)"
    and wf_rem: "wf s \<Longrightarrow> wf (rem x s)"
    and first_None: "wf s \<Longrightarrow> first s = None \<longleftrightarrow> elems s = {}"
    and first_Some: "wf s \<Longrightarrow> first s = Some x \<Longrightarrow> x \<in> elems s \<and> (\<forall>y\<in>elems s. x \<le> y)"
begin

lemmas set_simps = elems_ins elems_rem wf_ins wf_rem

lemma elems_fold_ins: "wf s \<Longrightarrow> elems (fold ins xs s) = elems s \<union> set xs \<and> wf (fold ins xs s)"
  by (induction xs arbitrary: s) (auto simp: set_simps)

lemma elems_fold_rem: "wf s \<Longrightarrow> elems (fold rem xs s) = elems s - set xs \<and> wf (fold rem xs s)"
  by (induction xs arbitrary: s) (auto simp: set_simps)

lemma first_least:
  assumes "wf s" and "x \<in> elems s"
  obtains y where "first s = Some y" and "y \<le> x"
  using assms first_None first_Some by (metis empty_iff not_None_eq)

end

lemma bs_insert_set: "set (bs_insert x xs) = insert x (set xs)"
  by (induction xs) auto

interpretation bs: ordered_set bs_insert bs_remove bs_first set bs_wf
proof
  fix s :: "'a::linorder btree_set" and x :: 'a
  assume wf: "bs_wf s"
  show "set (bs_insert x s) = insert x (set s)" by (rule bs_insert_set)
  show "set (bs_remove x s) = set s - {x}" by (auto simp: bs_remove_def)
  from wf show "bs_wf (bs_insert x s)"
    by (induction s) (auto simp: bs_wf_def bs_insert_set)
  from wf show "bs_wf (bs_remove x s)" by (simp add: bs_wf_def bs_remove_def sorted_wrt_filter)
  show "bs_first s = None \<longleftrightarrow> set s = {}" by (cases s) (simp_all add: bs_first_def)
  from wf show "bs_first s = Some x \<Longrightarrow> x \<in> set s \<and> (\<forall>y\<in>set s. x \<le> y)"
    by (cases s) (auto simp: bs_first_def bs_wf_def)
qed

lemma bs_wf_Nil [simp]: "bs_wf []"
  by (simp add: bs_wf_def)

lemma bs_wf_tl: "bs_wf (x # xs) \<Longrightarrow> bs_wf xs"
  by (simp add: bs_wf_def)

lemma bs_wf_distinct: "bs_wf xs \<Longrightarrow> distinct xs"
  by (simp add: bs_wf_def strict_sorted_iff)

end
