(* ===== verification/Forward_Queue.thy ===== *)
theory Forward_Queue
  imports Kv_Store Byte_Codec Ordered_Set "HOL-Library.Sublist"
begin

text \<open>
  The durable queue of writes a coordinator owes to other region primaries
  (\<open>adapters/cluster/forward_queue.rs\<close>, the port in \<open>ports/forward_queue.rs\<close>). An entry is a row
  of the store under its sequence number; in memory the queue has indexes by sequence, by
  readiness and by age.

  The locale \<open>claim_queue\<close> is the contract of the indexes: what is stored, what may be handed out,
  and how the calls change both; it is interpreted on \<open>fq_state\<close>. The theorems show that the
  indexes agree after every call, that a claim is exclusive and within its limits, that a stored
  entry stays stored until it is completed, and what is left when a claim fails half way.
\<close>

section \<open>The indexes\<close>

record fq_pending =
  enqueued_ms :: u64
  not_before_ms :: u64
  fq_size :: u64

record fq_state =
  pending :: "(u64, fq_pending) hash_map"
  ready :: "u64 btree_set"
  delayed :: "(u64 \<times> u64) btree_set"
  by_age :: "(u64 \<times> u64) btree_set"

definition empty_state :: fq_state where
  "empty_state = \<lparr>pending = [], ready = [], delayed = [], by_age = []\<rparr>"

definition state_insert :: "u64 \<Rightarrow> fq_pending \<Rightarrow> fq_state \<Rightarrow> fq_state" where
  "state_insert s p st =
     (let st = st\<lparr>by_age := bs_insert (enqueued_ms p, s) (by_age st)\<rparr>;
          st = (if not_before_ms p = 0 then st\<lparr>ready := bs_insert s (ready st)\<rparr>
                else st\<lparr>delayed := bs_insert (not_before_ms p, s) (delayed st)\<rparr>)
      in st\<lparr>pending := hm_insert s p (pending st)\<rparr>)"

definition state_remove :: "u64 \<Rightarrow> fq_state \<Rightarrow> fq_state \<times> u64 option" where
  "state_remove s st =
     (case hm_get (pending st) s of
        None \<Rightarrow> (st, None)
      | Some p \<Rightarrow>
          (st\<lparr>pending := hm_remove s (pending st),
              by_age := bs_remove (enqueued_ms p, s) (by_age st),
              ready := bs_remove s (ready st),
              delayed := bs_remove (not_before_ms p, s) (delayed st)\<rparr>,
           Some (fq_size p)))"

definition unclaim :: "u64 \<Rightarrow> u64 \<Rightarrow> fq_state \<Rightarrow> fq_state" where
  "unclaim not_before s st =
     (case hm_get (pending st) s of
        None \<Rightarrow> st
      | Some p \<Rightarrow>
          st\<lparr>pending := hm_insert s (p\<lparr>not_before_ms := not_before\<rparr>) (pending st),
             ready := bs_remove s (ready st),
             delayed := bs_insert (not_before, s) (bs_remove (not_before_ms p, s) (delayed st))\<rparr>)"

fun promote_due :: "u64 \<Rightarrow> (u64 \<times> u64) btree_set \<Rightarrow> u64 btree_set \<Rightarrow> (u64 \<times> u64) btree_set \<times> u64 btree_set" where
  "promote_due now [] rdy = ([], rdy)"
| "promote_due now ((nb, s) # ds) rdy =
     (if now < nb then ((nb, s) # ds, rdy) else promote_due now ds (bs_insert s rdy))"

fun pick :: "(u64 \<Rightarrow> u64) \<Rightarrow> nat \<Rightarrow> u64 \<Rightarrow> u64 list \<Rightarrow> u64 list \<Rightarrow> u64 \<Rightarrow> u64 list" where
  "pick sz max_entries max_bytes [] picked sum_bytes = picked"
| "pick sz max_entries max_bytes (s # ss) picked sum_bytes =
     (if max_entries \<le> length picked then picked
      else if picked \<noteq> [] \<and> max_bytes < sum_bytes + sz s then picked
      else pick sz max_entries max_bytes ss (picked @ [s]) (sum_bytes + sz s))"

definition size_of :: "fq_state \<Rightarrow> u64 \<Rightarrow> u64" where
  "size_of st s = (case hm_get (pending st) s of None \<Rightarrow> 0 | Some p \<Rightarrow> fq_size p)"

definition state_claim :: "u64 \<Rightarrow> nat \<Rightarrow> u64 \<Rightarrow> fq_state \<Rightarrow> u64 list \<times> fq_state" where
  "state_claim now max_entries max_bytes st =
     (let (del, rdy) = promote_due now (delayed st) (ready st);
          picked = pick (size_of st) max_entries max_bytes rdy [] 0
      in (picked, st\<lparr>delayed := del, ready := fold bs_remove picked rdy\<rparr>))"

section \<open>The queue\<close>

record forward_entry =
  fe_db :: string
  fe_rp :: string
  fe_precision :: "string option"
  fe_enqueued_ms :: u64
  fe_not_before_ms :: u64
  fe_attempts :: u32
  fe_body :: "u8 list"

record 'd forward_queue =
  fq_db :: 'd
  fq_seq :: u64
  fq_bytes :: u64
  fq_index :: fq_state

datatype fq_error = QueueError string string

text \<open>The codec (\<open>bincode\<close>) of an entry is the parameter \<open>enc\<close>, \<open>dec\<close>.\<close>

definition entry_pending :: "forward_entry \<Rightarrow> u8 list \<Rightarrow> fq_pending" where
  "entry_pending e v =
     \<lparr>enqueued_ms = fe_enqueued_ms e, not_before_ms = fe_not_before_ms e, fq_size = word_of_nat (length v)\<rparr>"

fun index_rows :: "(u8 list \<Rightarrow> string + forward_entry) \<Rightarrow> (string + u8 list \<times> u8 list) list
    \<Rightarrow> fq_state \<Rightarrow> u64 \<Rightarrow> u64 \<Rightarrow> fq_error + fq_state \<times> u64 \<times> u64" where
  "index_rows dec [] st max_seq sum_bytes = Inr (st, max_seq, sum_bytes)"
| "index_rows dec (Inl e # items) st max_seq sum_bytes = Inl (QueueError ''scan'' e)"
| "index_rows dec (Inr (k, v) # items) st max_seq sum_bytes =
     (if length k \<noteq> 8 then index_rows dec items st max_seq sum_bytes
      else case dec v of
          Inl _ \<Rightarrow> index_rows dec items st max_seq sum_bytes
        | Inr e \<Rightarrow>
            index_rows dec items (state_insert (from_be_bytes k) (entry_pending e v) st)
              (max max_seq (from_be_bytes k)) (sum_bytes + word_of_nat (length v)))"

definition open_queue :: "('d, u8 list, u8 list) rocks \<Rightarrow> (u8 list \<Rightarrow> string + forward_entry)
    \<Rightarrow> 'd \<Rightarrow> fq_error + 'd forward_queue" where
  "open_queue kv dec d =
     (case index_rows dec (rdb_iter_from kv d []) empty_state 0 0 of
        Inl e \<Rightarrow> Inl e
      | Inr (st, max_seq, sum_bytes) \<Rightarrow>
          Inr \<lparr>fq_db = d, fq_seq = max_seq, fq_bytes = sum_bytes, fq_index = st\<rparr>)"

definition forget :: "u64 \<Rightarrow> 'd forward_queue \<Rightarrow> 'd forward_queue" where
  "forget s q =
     (let (st, removed) = state_remove s (fq_index q)
      in case removed of
           None \<Rightarrow> q\<lparr>fq_index := st\<rparr>
         | Some b \<Rightarrow> q\<lparr>fq_index := st, fq_bytes := fq_bytes q - b\<rparr>)"

definition write_queue :: "('d, u8 list, u8 list) rocks \<Rightarrow> (forward_entry \<Rightarrow> string + u8 list)
    \<Rightarrow> u64 list \<Rightarrow> forward_entry option \<Rightarrow> 'd forward_queue
    \<Rightarrow> 'd forward_queue \<times> (fq_error + u64 option)" where
  "write_queue kv enc delivered entry q =
     (let dels = map (\<lambda>s. Delete (to_be_bytes s)) delivered
      in case entry of
           None \<Rightarrow>
             (case rdb_write kv (fq_db q) dels of
                (d, Inl e) \<Rightarrow> (q\<lparr>fq_db := d\<rparr>, Inl (QueueError ''write'' e))
              | (d, Inr _) \<Rightarrow> (fold forget delivered (q\<lparr>fq_db := d\<rparr>), Inr None))
         | Some e \<Rightarrow>
             (case enc e of
                Inl err \<Rightarrow> (q, Inl (QueueError ''encode'' err))
              | Inr v \<Rightarrow>
                  (let s = fq_seq q + 1
                   in case rdb_write kv (fq_db q) (dels @ [Put (to_be_bytes s) v]) of
                        (d, Inl err) \<Rightarrow> (q\<lparr>fq_db := d, fq_seq := s\<rparr>, Inl (QueueError ''write'' err))
                      | (d, Inr _) \<Rightarrow>
                          (let q = fold forget delivered (q\<lparr>fq_db := d, fq_seq := s\<rparr>)
                           in (q\<lparr>fq_bytes := fq_bytes q + word_of_nat (length v),
                                 fq_index := state_insert s (entry_pending e v) (fq_index q)\<rparr>,
                               Inr (Some s))))))"

definition enqueue :: "('d, u8 list, u8 list) rocks \<Rightarrow> (forward_entry \<Rightarrow> string + u8 list)
    \<Rightarrow> forward_entry \<Rightarrow> 'd forward_queue \<Rightarrow> 'd forward_queue \<times> (fq_error + u64)" where
  "enqueue kv enc e q =
     (case write_queue kv enc [] (Some e) q of
        (q, Inl err) \<Rightarrow> (q, Inl err)
      | (q, Inr s) \<Rightarrow> (q, Inr (case s of None \<Rightarrow> 0 | Some s \<Rightarrow> s)))"

fun fetch_claimed :: "('d, u8 list, u8 list) rocks \<Rightarrow> (forward_entry \<Rightarrow> string + u8 list)
    \<Rightarrow> (u8 list \<Rightarrow> string + forward_entry) \<Rightarrow> u64 list \<Rightarrow> u64 list \<Rightarrow> (u64 \<times> forward_entry) list
    \<Rightarrow> 'd forward_queue \<Rightarrow> 'd forward_queue \<times> (fq_error + (u64 \<times> forward_entry) list)" where
  "fetch_claimed kv enc dec claimed [] out q = (q, Inr out)"
| "fetch_claimed kv enc dec claimed (s # ss) out q =
     (case rdb_get kv (fq_db q) (to_be_bytes s) of
        Inl e \<Rightarrow>
          (q\<lparr>fq_index := fold (unclaim 0) claimed (fq_index q)\<rparr>, Inl (QueueError ''get'' e))
      | Inr None \<Rightarrow> fetch_claimed kv enc dec claimed ss out (forget s q)
      | Inr (Some v) \<Rightarrow>
          (case dec v of
             Inr e \<Rightarrow> fetch_claimed kv enc dec claimed ss (out @ [(s, e)]) q
           | Inl _ \<Rightarrow>
               (case write_queue kv enc [s] None q of
                  (q, Inl err) \<Rightarrow> (q, Inl err)
                | (q, Inr _) \<Rightarrow> fetch_claimed kv enc dec claimed ss out q)))"

definition claim :: "('d, u8 list, u8 list) rocks \<Rightarrow> (forward_entry \<Rightarrow> string + u8 list)
    \<Rightarrow> (u8 list \<Rightarrow> string + forward_entry) \<Rightarrow> u64 \<Rightarrow> nat \<Rightarrow> u64
    \<Rightarrow> 'd forward_queue \<Rightarrow> 'd forward_queue \<times> (fq_error + (u64 \<times> forward_entry) list)" where
  "claim kv enc dec now max_entries max_bytes q =
     (let (ss, st) = state_claim now max_entries max_bytes (fq_index q)
      in fetch_claimed kv enc dec ss ss [] (q\<lparr>fq_index := st\<rparr>))"

definition complete :: "('d, u8 list, u8 list) rocks \<Rightarrow> (forward_entry \<Rightarrow> string + u8 list)
    \<Rightarrow> u64 list \<Rightarrow> forward_entry option \<Rightarrow> 'd forward_queue \<Rightarrow> 'd forward_queue \<times> (fq_error + unit)" where
  "complete kv enc ss retry q =
     (case write_queue kv enc ss retry q of (q, Inl e) \<Rightarrow> (q, Inl e) | (q, Inr _) \<Rightarrow> (q, Inr ()))"

definition release :: "u64 list \<Rightarrow> u64 \<Rightarrow> 'd forward_queue \<Rightarrow> 'd forward_queue" where
  "release ss not_before q = q\<lparr>fq_index := fold (unclaim not_before) ss (fq_index q)\<rparr>"

definition oldest_age_ms :: "u64 \<Rightarrow> 'd forward_queue \<Rightarrow> u64" where
  "oldest_age_ms now q =
     (case bs_first (by_age (fq_index q)) of None \<Rightarrow> 0 | Some (t, _) \<Rightarrow> saturating_sub now t)"

definition queue_len :: "'d forward_queue \<Rightarrow> nat" where
  "queue_len q = length (pending (fq_index q))"

definition queue_bytes :: "'d forward_queue \<Rightarrow> u64" where
  "queue_bytes q = fq_bytes q"

section \<open>The contract of the indexes\<close>

locale claim_queue =
  fixes stored :: "'s \<Rightarrow> 'k set"
    and unclaimed :: "'s \<Rightarrow> 'k set"
    and add :: "'k \<Rightarrow> 'p \<Rightarrow> 's \<Rightarrow> 's"
    and drop_key :: "'k \<Rightarrow> 's \<Rightarrow> 's"
    and give_back :: "'t \<Rightarrow> 'k \<Rightarrow> 's \<Rightarrow> 's"
    and hand_out :: "'q \<Rightarrow> 's \<Rightarrow> 'k list \<times> 's"
    and inv :: "'s \<Rightarrow> bool"
  assumes unclaimed_stored: "inv s \<Longrightarrow> unclaimed s \<subseteq> stored s"
    and add_law: "inv s \<Longrightarrow> k \<notin> stored s \<Longrightarrow>
      inv (add k p s) \<and> stored (add k p s) = insert k (stored s) \<and> unclaimed (add k p s) = insert k (unclaimed s)"
    and drop_law: "inv s \<Longrightarrow>
      inv (drop_key k s) \<and> stored (drop_key k s) = stored s - {k} \<and> unclaimed (drop_key k s) = unclaimed s - {k}"
    and give_back_law: "inv s \<Longrightarrow> inv (give_back t k s) \<and> stored (give_back t k s) = stored s \<and>
      unclaimed (give_back t k s) = (if k \<in> stored s then insert k (unclaimed s) else unclaimed s)"
    and hand_out_law: "inv s \<Longrightarrow> hand_out q s = (ks, s') \<Longrightarrow>
      inv s' \<and> stored s' = stored s \<and> distinct ks \<and> set ks \<subseteq> unclaimed s \<and> unclaimed s' = unclaimed s - set ks"
begin

lemma drops_law:
  "inv s \<Longrightarrow> inv (fold drop_key ks s) \<and> stored (fold drop_key ks s) = stored s - set ks \<and>
   unclaimed (fold drop_key ks s) = unclaimed s - set ks"
proof (induction ks arbitrary: s)
  case (Cons k ks)
  from drop_law [OF Cons.prems, of k] Cons.IH [of "drop_key k s"] show ?case by auto
qed simp

lemma give_backs_law:
  "inv s \<Longrightarrow> inv (fold (give_back t) ks s) \<and> stored (fold (give_back t) ks s) = stored s \<and>
   unclaimed (fold (give_back t) ks s) = unclaimed s \<union> (set ks \<inter> stored s)"
proof (induction ks arbitrary: s)
  case (Cons k ks)
  from give_back_law [OF Cons.prems, of t k] Cons.IH [of "give_back t k s"] show ?case by auto
qed simp

text \<open>Handing a batch back right after it was handed out undoes the claim.\<close>

lemma hand_out_undone:
  assumes "inv s" and "hand_out q s = (ks, s')"
  shows "unclaimed (fold (give_back t) ks s') = unclaimed s"
proof -
  from hand_out_law [OF assms] have s': "inv s'" "stored s' = stored s" "set ks \<subseteq> unclaimed s"
    "unclaimed s' = unclaimed s - set ks" by simp_all
  with give_backs_law [OF s'(1), of t ks] unclaimed_stored [OF assms(1)] show ?thesis by auto
qed

end

section \<open>The indexes agree\<close>

definition stored :: "fq_state \<Rightarrow> u64 set" where
  "stored st = {s. hm_get (pending st) s \<noteq> None}"

definition unclaimed :: "fq_state \<Rightarrow> u64 set" where
  "unclaimed st = set (ready st) \<union> snd ` set (delayed st)"

definition index_ok :: "fq_state \<Rightarrow> bool" where
  "index_ok st \<longleftrightarrow>
     hm_wf (pending st) \<and> bs_wf (ready st) \<and> bs_wf (delayed st) \<and> bs_wf (by_age st)
     \<and> (\<forall>a s. (a, s) \<in> set (by_age st) \<longleftrightarrow> (\<exists>p. hm_get (pending st) s = Some p \<and> enqueued_ms p = a))
     \<and> (\<forall>s\<in>set (ready st). hm_get (pending st) s \<noteq> None)
     \<and> (\<forall>nb s. (nb, s) \<in> set (delayed st) \<longrightarrow> s \<notin> set (ready st) \<and>
          (\<exists>p. hm_get (pending st) s = Some p \<and> not_before_ms p = nb))"

lemma index_okD:
  assumes "index_ok st"
  shows "hm_wf (pending st)" "bs_wf (ready st)" "bs_wf (delayed st)" "bs_wf (by_age st)"
    and "(a, s) \<in> set (by_age st) \<longleftrightarrow> (\<exists>p. hm_get (pending st) s = Some p \<and> enqueued_ms p = a)"
    and "s \<in> set (ready st) \<Longrightarrow> hm_get (pending st) s \<noteq> None"
    and "(nb, s) \<in> set (delayed st) \<Longrightarrow> s \<notin> set (ready st) \<and>
      (\<exists>p. hm_get (pending st) s = Some p \<and> not_before_ms p = nb)"
  using assms by (auto simp: index_ok_def)

lemma empty_index_ok: "index_ok empty_state" "stored empty_state = {}" "unclaimed empty_state = {}"
  by (simp_all add: index_ok_def empty_state_def stored_def unclaimed_def)

lemma index_insert:
  assumes ok: "index_ok st" and new: "s \<notin> stored st"
  shows "index_ok (state_insert s p st)"
    and "stored (state_insert s p st) = insert s (stored st)"
    and "unclaimed (state_insert s p st) = insert s (unclaimed st)"
proof -
  note D = index_okD [OF ok]
  have none: "hm_get (pending st) s = None" using new by (simp add: stored_def)
  have nr: "s \<notin> set (ready st)" and nd: "(nb, s) \<notin> set (delayed st)" for nb
    using none D(6) [of s] D(7) [of nb s] by auto
  note simps = state_insert_def Let_def hm.get_ins hm.wf_ins bs.wf_ins bs.elems_ins D(1-4)
  show "stored (state_insert s p st) = insert s (stored st)"
    by (auto simp: stored_def simps)
  show "unclaimed (state_insert s p st) = insert s (unclaimed st)"
    by (auto simp: unclaimed_def simps)
  show "index_ok (state_insert s p st)"
    unfolding index_ok_def
  proof (intro conjI)
    show "\<forall>a k. (a, k) \<in> set (by_age (state_insert s p st)) \<longleftrightarrow>
        (\<exists>q. hm_get (pending (state_insert s p st)) k = Some q \<and> enqueued_ms q = a)"
      using none by (auto simp: simps D(5))
    show "\<forall>nb k. (nb, k) \<in> set (delayed (state_insert s p st)) \<longrightarrow> k \<notin> set (ready (state_insert s p st)) \<and>
        (\<exists>q. hm_get (pending (state_insert s p st)) k = Some q \<and> not_before_ms q = nb)"
      using nr nd by (auto simp: simps dest: D(7))
  qed (auto simp: simps dest: D(6))
qed

lemma index_remove:
  assumes ok: "index_ok st" and st'_def: "st' = fst (state_remove s st)"
  shows "index_ok st'" and "stored st' = stored st - {s}" and "unclaimed st' = unclaimed st - {s}"
    and "hm_get (pending st') k = (if k = s then None else hm_get (pending st) k)"
proof -
  note D = index_okD [OF ok]
  have *: "index_ok st' \<and> stored st' = stored st - {s} \<and> unclaimed st' = unclaimed st - {s} \<and>
      (\<forall>k. hm_get (pending st') k = (if k = s then None else hm_get (pending st) k))"
  proof (cases "hm_get (pending st) s")
    case None
    then have "s \<notin> unclaimed st" using D(6) [of s] D(7) [of _ s] by (force simp: unclaimed_def)
    with None ok show ?thesis by (auto simp: st'_def state_remove_def stored_def)
  next
    case (Some p)
    have due: "a = not_before_ms p" if "(a, s) \<in> set (delayed st)" for a
      using D(7) [OF that] Some by auto
    note simps = st'_def state_remove_def Some hm.get_rem hm.wf_rem bs.wf_rem bs.elems_rem D(1-4)
    have "index_ok st'"
      unfolding index_ok_def
    proof (intro conjI)
      show "\<forall>a k. (a, k) \<in> set (by_age st') \<longleftrightarrow> (\<exists>q. hm_get (pending st') k = Some q \<and> enqueued_ms q = a)"
        using Some by (auto simp: simps D(5))
      show "\<forall>nb k. (nb, k) \<in> set (delayed st') \<longrightarrow> k \<notin> set (ready st') \<and>
          (\<exists>q. hm_get (pending st') k = Some q \<and> not_before_ms q = nb)"
        using Some by (auto simp: simps dest: D(7))
    qed (auto simp: simps dest: D(6))
    moreover have "unclaimed st' = unclaimed st - {s}"
      by (auto simp: unclaimed_def simps image_iff dest: due)
    ultimately show ?thesis by (auto simp: stored_def simps)
  qed
  then show "index_ok st'" "stored st' = stored st - {s}" "unclaimed st' = unclaimed st - {s}"
    "hm_get (pending st') k = (if k = s then None else hm_get (pending st) k)"
    by blast+
qed

lemma index_unclaim:
  assumes ok: "index_ok st" and st'_def: "st' = unclaim nb s st"
  shows "index_ok st'" and "stored st' = stored st"
    and "unclaimed st' = (if s \<in> stored st then insert s (unclaimed st) else unclaimed st)"
    and "size_of st' = size_of st"
proof -
  note D = index_okD [OF ok]
  have "index_ok st' \<and> stored st' = stored st \<and>
      unclaimed st' = (if s \<in> stored st then insert s (unclaimed st) else unclaimed st) \<and> size_of st' = size_of st"
  proof (cases "hm_get (pending st) s")
    case None
    with ok show ?thesis by (simp add: st'_def unclaim_def stored_def)
  next
    case (Some p)
    have due: "a = not_before_ms p" if "(a, s) \<in> set (delayed st)" for a
      using D(7) [OF that] Some by auto
    note simps = st'_def unclaim_def Some hm.get_ins hm.wf_ins bs.wf_rem bs.elems_rem bs.wf_ins bs.elems_ins D(1-4)
    have "index_ok st'"
      unfolding index_ok_def
    proof (intro conjI)
      show "\<forall>a k. (a, k) \<in> set (by_age st') \<longleftrightarrow> (\<exists>q. hm_get (pending st') k = Some q \<and> enqueued_ms q = a)"
        using Some by (auto simp: simps D(5))
      show "\<forall>b k. (b, k) \<in> set (delayed st') \<longrightarrow> k \<notin> set (ready st') \<and>
          (\<exists>q. hm_get (pending st') k = Some q \<and> not_before_ms q = b)"
        using Some by (auto simp: simps dest: D(7))
    qed (auto simp: simps dest: D(6))
    moreover have "unclaimed st' = insert s (unclaimed st)"
      by (auto simp: unclaimed_def simps image_iff dest: due)
    ultimately show ?thesis using Some by (auto simp: stored_def size_of_def fun_eq_iff simps)
  qed
  then show "index_ok st'" "stored st' = stored st"
    "unclaimed st' = (if s \<in> stored st then insert s (unclaimed st) else unclaimed st)" "size_of st' = size_of st"
    by blast+
qed

lemma promote_due_sets:
  assumes "bs_wf ds" and "bs_wf rdy" and "promote_due now ds rdy = (del, rdy')"
  shows "bs_wf del \<and> bs_wf rdy' \<and> set del = {x \<in> set ds. now < fst x} \<and>
    set rdy' = set rdy \<union> {s. \<exists>nb. (nb, s) \<in> set ds \<and> nb \<le> now}"
  using assms
proof (induction now ds rdy rule: promote_due.induct)
  case (2 now nb s ds rdy)
  show ?case
  proof (cases "now < nb")
    case True
    moreover have "now < fst x" if "x \<in> set ds" for x
      using "2.prems"(1) that True by (cases x) (auto simp: bs_wf_def less_prod_def)
    ultimately show ?thesis using "2.prems" by (fastforce simp: not_le [symmetric])
  next
    case False
    with "2.prems" "2.IH" [OF False bs_wf_tl bs.wf_ins] show ?thesis
      by (auto simp: bs.elems_ins not_less)
  qed
qed auto

lemma pick_prefix: "\<exists>n. pick sz m b ss picked acc = picked @ take n ss"
proof (induction ss arbitrary: picked acc)
  case (Cons s ss)
  obtain n where "pick sz m b ss (picked @ [s]) (acc + sz s) = (picked @ [s]) @ take n ss"
    using Cons.IH by blast
  then show ?case
    by (auto intro: exI [of _ 0] exI [of _ "Suc n"])
qed simp

lemma claim_cases:
  assumes ok: "index_ok st" and c: "state_claim now n b st = (ks, st')"
  obtains rdy del i where "promote_due now (delayed st) (ready st) = (del, rdy)" and "bs_wf rdy" "bs_wf del"
    and "set del = {x \<in> set (delayed st). now < fst x}"
    and "set rdy = set (ready st) \<union> {s. \<exists>nb. (nb, s) \<in> set (delayed st) \<and> nb \<le> now}"
    and "ks = pick (size_of st) n b rdy [] 0" and "ks = take i rdy"
    and "st' = st\<lparr>delayed := del, ready := fold bs_remove ks rdy\<rparr>"
proof -
  obtain del rdy where pr: "promote_due now (delayed st) (ready st) = (del, rdy)" by fastforce
  note sets = promote_due_sets [OF index_okD(3,2) [OF ok] this]
  obtain i where i: "pick (size_of st) n b rdy [] 0 = take i rdy"
    using pick_prefix [of "size_of st" n b rdy "[]" 0] by auto
  have "state_claim now n b st = (pick (size_of st) n b rdy [] 0,
      st\<lparr>delayed := del, ready := fold bs_remove (pick (size_of st) n b rdy [] 0) rdy\<rparr>)"
    by (simp add: state_claim_def pr Let_def)
  note eq = trans [OF c [symmetric] this]
  have ks: "ks = pick (size_of st) n b rdy [] 0"
    using arg_cong [OF eq, of fst] by (simp only: fst_conv)
  have st': "st' = st\<lparr>delayed := del, ready := fold bs_remove ks rdy\<rparr>"
    using arg_cong [OF eq, of snd] by (simp only: snd_conv ks)
  show ?thesis using sets i ks by (intro that [OF pr _ _ _ _ ks _ st']) simp_all
qed

lemma index_claim:
  assumes ok: "index_ok st" and c: "state_claim now n b st = (ks, st')"
  shows "index_ok st'" and "stored st' = stored st" and "distinct ks" and "set ks \<subseteq> unclaimed st"
    and "unclaimed st' = unclaimed st - set ks" and "size_of st' = size_of st"
proof -
  note D = index_okD [OF ok]
  obtain rdy del i where "promote_due now (delayed st) (ready st) = (del, rdy)"
    and cl: "bs_wf rdy" "bs_wf del" "set del = {x \<in> set (delayed st). now < fst x}"
    "set rdy = set (ready st) \<union> {s. \<exists>nb. (nb, s) \<in> set (delayed st) \<and> nb \<le> now}"
    and "ks = pick (size_of st) n b rdy [] 0"
    and cl': "ks = take i rdy" "st' = st\<lparr>delayed := del, ready := fold bs_remove ks rdy\<rparr>"
    by (rule claim_cases [OF ok c])
  have ks: "set ks \<subseteq> set rdy" using cl'(1) by (simp add: set_take_subset)
  have rem: "set (ready st') = set rdy - set ks" "bs_wf (ready st')"
    using bs.elems_fold_rem [OF cl(1), of ks] cl'(2) by simp_all
  have pend: "pending st' = pending st" "by_age st' = by_age st" "delayed st' = del" using cl'(2) by simp_all
  have once: "nb = nb'" if "(nb, s) \<in> set (delayed st)" "(nb', s) \<in> set (delayed st)" for nb nb' s
    using D(7) [OF that(1)] D(7) [OF that(2)] by auto
  show "distinct ks" using bs_wf_distinct [OF cl(1)] cl'(1) by simp
  have un: "unclaimed st = set rdy \<union> snd ` set del"
    unfolding unclaimed_def cl(3,4) by (force simp: not_le)
  then show "set ks \<subseteq> unclaimed st" using ks by blast
  have disj: "s \<notin> set rdy" if "(nb, s) \<in> set del" for nb s
    using that once [of nb s] D(7) [of nb s] unfolding cl(3,4) by auto
  show "unclaimed st' = unclaimed st - set ks"
    unfolding un using disj ks rem(1) pend(3) by (auto simp: unclaimed_def)
  show "stored st' = stored st" "size_of st' = size_of st"
    by (simp_all add: stored_def size_of_def fun_eq_iff pend)
  have "hm_get (pending st) s \<noteq> None" if "s \<in> set rdy" for s
    using that unfolding cl(4) by (auto dest: D(6) D(7))
  moreover have "s \<notin> set rdy \<and> (\<exists>p. hm_get (pending st) s = Some p \<and> not_before_ms p = nb)"
    if "(nb, s) \<in> set del" for nb s
    using disj [OF that] D(7) that unfolding cl(3) by auto
  ultimately show "index_ok st'"
    unfolding index_ok_def pend using D(1,4,5) cl(2) rem by auto
qed

interpretation fq_index: claim_queue stored unclaimed state_insert "\<lambda>s st. fst (state_remove s st)" unclaim
  "\<lambda>(now, n, b). state_claim now n b" index_ok
proof
  fix st :: fq_state
  assume ok: "index_ok st"
  show "unclaimed st \<subseteq> stored st"
    by (auto simp: unclaimed_def stored_def dest: index_okD(6) [OF ok] index_okD(7) [OF ok])
  show "index_ok (state_insert k p st) \<and> stored (state_insert k p st) = insert k (stored st) \<and>
      unclaimed (state_insert k p st) = insert k (unclaimed st)" if "k \<notin> stored st" for k p
    using index_insert [OF ok that] by simp
  show "index_ok (fst (state_remove k st)) \<and> stored (fst (state_remove k st)) = stored st - {k} \<and>
      unclaimed (fst (state_remove k st)) = unclaimed st - {k}" for k
    using index_remove [OF ok refl] by simp
  show "index_ok (unclaim t k st) \<and> stored (unclaim t k st) = stored st \<and>
      unclaimed (unclaim t k st) = (if k \<in> stored st then insert k (unclaimed st) else unclaimed st)" for t k
    using index_unclaim [OF ok refl] by simp
  show "index_ok st' \<and> stored st' = stored st \<and> distinct ks \<and> set ks \<subseteq> unclaimed st \<and>
      unclaimed st' = unclaimed st - set ks" if "(case q of (now, n, b) \<Rightarrow> state_claim now n b) st = (ks, st')" for q ks st'
    using index_claim [OF ok, of "fst q" "fst (snd q)" "snd (snd q)" ks st'] that by (simp add: case_prod_beta)
qed

section \<open>The invariant of the queue\<close>

definition queue_ok :: "'d forward_queue \<Rightarrow> bool" where
  "queue_ok q \<longleftrightarrow> index_ok (fq_index q) \<and> (\<forall>s\<in>stored (fq_index q). s \<le> fq_seq q)
     \<and> fq_bytes q = (\<Sum>s\<in>stored (fq_index q). size_of (fq_index q) s)"

lemma queue_okD:
  assumes "queue_ok q"
  shows "index_ok (fq_index q)" and "s \<in> stored (fq_index q) \<Longrightarrow> s \<le> fq_seq q"
    and "fq_bytes q = (\<Sum>s\<in>stored (fq_index q). size_of (fq_index q) s)"
  using assms by (simp_all add: queue_ok_def)

lemma stored_finite: "finite (stored st)"
proof (rule finite_subset)
  show "stored st \<subseteq> set (hm_keys (pending st))" by (auto simp: stored_def hm_keys_get)
qed simp

lemma forget_fields:
  "fq_db (forget s q) = fq_db q" "fq_seq (forget s q) = fq_seq q"
  "fq_index (forget s q) = fst (state_remove s (fq_index q))"
  by (simp_all add: forget_def case_prod_beta Let_def split: option.split)

lemma folded_forget_fields:
  "fq_db (fold forget ss q) = fq_db q" "fq_seq (fold forget ss q) = fq_seq q"
  "fq_index (fold forget ss q) = fold (\<lambda>s st. fst (state_remove s st)) ss (fq_index q)"
  by (induction ss arbitrary: q) (simp_all add: forget_fields)

lemma folded_forget_seq: "fold forget ss (q\<lparr>fq_seq := n\<rparr>) = (fold forget ss q)\<lparr>fq_seq := n\<rparr>"
proof (induction ss arbitrary: q)
  case (Cons s ss)
  have "forget s (q\<lparr>fq_seq := n\<rparr>) = (forget s q)\<lparr>fq_seq := n\<rparr>"
    by (simp add: forget_def case_prod_beta Let_def split: option.split)
  with Cons.IH show ?case by simp
qed simp

lemma forget_ok:
  assumes ok: "queue_ok q"
  shows "queue_ok (forget s q)"
proof -
  let ?st = "fq_index q" and ?st' = "fst (state_remove s (fq_index q))"
  note D = queue_okD [OF ok]
  note R = index_remove [OF D(1) refl, of s]
  have size: "size_of ?st' k = size_of ?st k" if "k \<noteq> s" for k
    using R(4) [of k] that by (simp add: size_of_def)
  have "fq_bytes (forget s q) = (\<Sum>k\<in>stored ?st'. size_of ?st' k)"
  proof (cases "s \<in> stored ?st")
    case True
    then obtain p where p: "hm_get (pending ?st) s = Some p" by (auto simp: stored_def)
    then have "fq_bytes (forget s q) = fq_bytes q - size_of ?st s"
      by (simp add: forget_def state_remove_def size_of_def)
    also have "\<dots> = (\<Sum>k\<in>stored ?st - {s}. size_of ?st k)"
      using sum.remove [OF stored_finite True, of "size_of ?st"] D(3) by simp
    also have "\<dots> = (\<Sum>k\<in>stored ?st - {s}. size_of ?st' k)"
      by (rule sum.cong) (use size in auto)
    finally show ?thesis by (simp add: R(2))
  next
    case False
    then have "hm_get (pending ?st) s = None" by (simp add: stored_def)
    then show ?thesis using D(3) by (simp add: forget_def state_remove_def)
  qed
  with R D(2) show ?thesis by (auto simp: queue_ok_def forget_fields)
qed

lemma folded_forget_ok: "queue_ok q \<Longrightarrow> queue_ok (fold forget ss q)"
  by (induction ss arbitrary: q) (simp_all add: forget_ok)

lemma insert_ok:
  assumes ok: "queue_ok q" and new: "s \<notin> stored (fq_index q)" and le: "fq_seq q \<le> fq_seq q'" "s \<le> fq_seq q'"
    and d: "fq_bytes q' = fq_bytes q + fq_size p" "fq_index q' = state_insert s p (fq_index q)"
  shows "queue_ok q'"
proof -
  let ?st = "fq_index q"
  note D = queue_okD [OF ok]
  note I = index_insert [OF D(1) new, of p]
  have get: "hm_get (pending (state_insert s p ?st)) k = (if k = s then Some p else hm_get (pending ?st) k)" for k
    by (simp add: state_insert_def Let_def hm.get_ins index_okD(1) [OF D(1)])
  have "(\<Sum>k\<in>insert s (stored ?st). size_of (state_insert s p ?st) k) = fq_size p + (\<Sum>k\<in>stored ?st. size_of ?st k)"
    unfolding sum.insert [OF stored_finite new]
    by (intro arg_cong2 [of _ _ _ _ "(+)"] sum.cong) (use new get in \<open>auto simp: size_of_def\<close>)
  moreover have "k \<le> fq_seq q'" if "k \<in> stored ?st" for k using D(2) [OF that] le(1) by simp
  ultimately show ?thesis using I D(3) d le(2) by (auto simp: queue_ok_def add.commute)
qed

lemma index_update_ok:
  assumes "queue_ok q" "index_ok st" "stored st = stored (fq_index q)" "size_of st = size_of (fq_index q)"
  shows "queue_ok (q\<lparr>fq_index := st\<rparr>)"
  using assms by (simp add: queue_ok_def)

lemma unclaims_ok: "queue_ok q \<Longrightarrow> queue_ok (q\<lparr>fq_index := fold (unclaim nb) ss (fq_index q)\<rparr>)"
proof (rule index_update_ok)
  assume ok: "queue_ok q"
  show "index_ok (fold (unclaim nb) ss (fq_index q))" "stored (fold (unclaim nb) ss (fq_index q)) = stored (fq_index q)"
    using fq_index.give_backs_law [OF queue_okD(1) [OF ok]] by blast+
  show "size_of (fold (unclaim nb) ss (fq_index q)) = size_of (fq_index q)"
    using queue_okD(1) [OF ok]
    by (induction ss arbitrary: q rule: rev_induct)
      (simp_all add: index_unclaim(4) [OF fq_index.give_backs_law [THEN conjunct1] refl])
qed

lemma queue_ok_db: "queue_ok (q\<lparr>fq_db := d\<rparr>) = queue_ok q"
  by (simp add: queue_ok_def)

lemma queue_ok_seq: "queue_ok q \<Longrightarrow> fq_seq q \<le> s \<Longrightarrow> queue_ok (q\<lparr>fq_db := d, fq_seq := s\<rparr>)"
  by (force simp: queue_ok_def)

text \<open>Every way a call of \<open>write_queue\<close> can end.\<close>

lemma write_queue_cases:
  obtains (refused) err where "write_queue kv enc delivered entry q = (q, Inl err)"
  | (failed) d s err ops where "rdb_write kv (fq_db q) ops = (d, Inl err)" "s = fq_seq q \<or> s = fq_seq q + 1"
      "write_queue kv enc delivered entry q = (q\<lparr>fq_db := d, fq_seq := s\<rparr>, Inl (QueueError ''write'' err))"
      "ops = map (\<lambda>s. Delete (to_be_bytes s)) delivered \<and> s = fq_seq q \<or>
       (\<exists>e v. enc e = Inr v \<and> s = fq_seq q + 1 \<and>
         ops = map (\<lambda>s. Delete (to_be_bytes s)) delivered @ [Put (to_be_bytes s) v])"
  | (deleted) d where "entry = None" "rdb_write kv (fq_db q) (map (\<lambda>s. Delete (to_be_bytes s)) delivered) = (d, Inr ())"
      "write_queue kv enc delivered entry q = (fold forget delivered (q\<lparr>fq_db := d\<rparr>), Inr None)"
  | (added) d e v where "entry = Some e" "enc e = Inr v"
      "rdb_write kv (fq_db q) (map (\<lambda>s. Delete (to_be_bytes s)) delivered @ [Put (to_be_bytes (fq_seq q + 1)) v]) = (d, Inr ())"
      "write_queue kv enc delivered entry q =
        (let q1 = fold forget delivered (q\<lparr>fq_db := d, fq_seq := fq_seq q + 1\<rparr>)
         in (q1\<lparr>fq_bytes := fq_bytes q1 + word_of_nat (length v),
               fq_index := state_insert (fq_seq q + 1) (entry_pending e v) (fq_index q1)\<rparr>, Inr (Some (fq_seq q + 1))))"
proof (cases entry)
  case None
  let ?ops = "map (\<lambda>s. Delete (to_be_bytes s)) delivered :: (u8 list, u8 list) batch_op list"
  obtain d r where w: "rdb_write kv (fq_db q) ?ops = (d, r)" by fastforce
  show ?thesis
  proof (cases r)
    case (Inl err)
    with None w show ?thesis by (intro failed [of ?ops d err "fq_seq q"]) (simp_all add: write_queue_def Let_def)
  next
    case (Inr u)
    with None w show ?thesis by (intro deleted [of d]) (simp_all add: write_queue_def Let_def)
  qed
next
  case (Some e)
  show ?thesis
  proof (cases "enc e")
    case (Inl err)
    with Some show ?thesis by (intro refused) (simp add: write_queue_def Let_def)
  next
    case enc: (Inr v)
    let ?ops = "map (\<lambda>s. Delete (to_be_bytes s)) delivered @ [Put (to_be_bytes (fq_seq q + 1)) v]"
    obtain d r where w: "rdb_write kv (fq_db q) ?ops = (d, r)" by fastforce
    show ?thesis
    proof (cases r)
      case (Inl err)
      with Some enc w show ?thesis
        by (intro failed [of ?ops d err "fq_seq q + 1"]) (auto simp: write_queue_def Let_def)
    next
      case (Inr u)
      with Some enc w show ?thesis by (intro added [of e v d]) (simp_all add: write_queue_def Let_def)
    qed
  qed
qed

lemma write_queue_ok:
  assumes ok: "queue_ok q" and room: "fq_seq q \<noteq> u64_max"
  shows "queue_ok (fst (write_queue kv enc delivered entry q))"
    and "fq_seq q \<le> fq_seq (fst (write_queue kv enc delivered entry q))"
    and "unat (fq_seq (fst (write_queue kv enc delivered entry q))) \<le> Suc (unat (fq_seq q))"
proof -
  have gt: "fq_seq q < fq_seq q + 1" using word_succ_gt room by blast
  have su: "unat (fq_seq q + 1) \<le> Suc (unat (fq_seq q))"
    using unat_word_ariths(1) [of "fq_seq q" 1] by simp
  have "queue_ok (fst (write_queue kv enc delivered entry q)) \<and>
      fq_seq q \<le> fq_seq (fst (write_queue kv enc delivered entry q)) \<and>
      unat (fq_seq (fst (write_queue kv enc delivered entry q))) \<le> Suc (unat (fq_seq q))"
  proof (cases rule: write_queue_cases [of kv enc delivered entry q])
    case (refused err)
    with ok show ?thesis by simp
  next
    case (failed d s err ops)
    with ok gt su show ?thesis by (auto intro!: queue_ok_seq)
  next
    case (deleted d)
    with ok show ?thesis by (simp add: folded_forget_ok queue_ok_db folded_forget_fields)
  next
    case (added d e v)
    have ok1: "queue_ok (fold forget delivered (q\<lparr>fq_db := d\<rparr>))"
      using ok by (simp add: folded_forget_ok queue_ok_db)
    have "fold forget delivered (q\<lparr>fq_db := d, fq_seq := fq_seq q + 1\<rparr>) =
        (fold forget delivered (q\<lparr>fq_db := d\<rparr>))\<lparr>fq_seq := fq_seq q + 1\<rparr>"
      using folded_forget_seq [of delivered _ "q\<lparr>fq_db := d\<rparr>"] by simp
    moreover have "fq_seq q + 1 \<notin> stored (fq_index (fold forget delivered (q\<lparr>fq_db := d\<rparr>)))"
      using queue_okD(2) [OF ok1, of "fq_seq q + 1"] gt by (auto simp: folded_forget_fields)
    ultimately show ?thesis
      using added(4) gt su
      by (auto simp: Let_def entry_pending_def folded_forget_fields less_imp_le
        intro!: insert_ok [OF ok1, where s = "fq_seq q + 1" and p = "entry_pending e v"])
  qed
  then show "queue_ok (fst (write_queue kv enc delivered entry q))"
    "fq_seq q \<le> fq_seq (fst (write_queue kv enc delivered entry q))"
    "unat (fq_seq (fst (write_queue kv enc delivered entry q))) \<le> Suc (unat (fq_seq q))" by blast+
qed

lemma delete_keeps_seq: "fq_seq (fst (write_queue kv enc delivered None q)) = fq_seq q"
  by (simp add: write_queue_def Let_def folded_forget_fields split: prod.split sum.split)

lemma write_unclaimed:
  assumes ok: "queue_ok q"
  shows "unclaimed (fq_index (fst (write_queue kv enc delivered entry q))) \<subseteq> unclaimed (fq_index q) \<union> {fq_seq q + 1}"
    and "entry = None \<Longrightarrow> unclaimed (fq_index (fst (write_queue kv enc delivered entry q))) \<subseteq> unclaimed (fq_index q)"
proof -
  note drops = fq_index.drops_law [OF queue_okD(1) [OF ok]]
  have "unclaimed (fq_index (fst (write_queue kv enc delivered entry q))) \<subseteq>
      unclaimed (fq_index q) \<union> (if entry = None then {} else {fq_seq q + 1})"
  proof (cases rule: write_queue_cases [of kv enc delivered entry q])
    case (deleted d)
    then show ?thesis using drops [of delivered] by (auto simp: folded_forget_fields)
  next
    case (added d e v)
    have "unclaimed (state_insert s p st) \<subseteq> insert s (unclaimed st)" if "index_ok st" for s p st
      using that by (auto simp: unclaimed_def state_insert_def Let_def bs.elems_ins index_okD)
    with added drops [of delivered] show ?thesis by (fastforce simp: folded_forget_fields Let_def)
  qed auto
  then show "unclaimed (fq_index (fst (write_queue kv enc delivered entry q))) \<subseteq> unclaimed (fq_index q) \<union> {fq_seq q + 1}"
    "entry = None \<Longrightarrow> unclaimed (fq_index (fst (write_queue kv enc delivered entry q))) \<subseteq> unclaimed (fq_index q)"
    by (auto split: if_splits)
qed

lemma fetch_claimed_ok:
  assumes "queue_ok q" "fq_seq q \<noteq> u64_max" "fetch_claimed kv enc dec claimed ss out q = (q', res)"
  shows "queue_ok q' \<and> fq_seq q' = fq_seq q \<and>
    unclaimed (fq_index q') \<subseteq> unclaimed (fq_index q) \<union> set claimed \<and>
    (\<forall>out'. res = Inr out' \<longrightarrow> fst ` set out' \<subseteq> fst ` set out \<union> set ss \<and>
      unclaimed (fq_index q') \<subseteq> unclaimed (fq_index q))"
  using assms
proof (induction ss arbitrary: out q)
  case (Cons s ss)
  show ?case
  proof (cases "rdb_get kv (fq_db q) (to_be_bytes s)")
    case (Inl e)
    with Cons.prems fq_index.give_backs_law [OF queue_okD(1) [OF Cons.prems(1)], of 0 claimed] show ?thesis
      by (auto simp: unclaims_ok)
  next
    case (Inr row)
    show ?thesis
    proof (cases row)
      case None
      have "unclaimed (fq_index (forget s q)) \<subseteq> unclaimed (fq_index q)"
        using index_remove(3) [OF queue_okD(1) [OF Cons.prems(1)] refl, of s] by (simp add: forget_fields)
      with Cons.IH [of "forget s q" out] Cons.prems Inr None show ?thesis
        by (simp add: forget_ok forget_fields) blast
    next
      case (Some v)
      show ?thesis
      proof (cases "dec v")
        case dec: (Inr e)
        with Cons.IH [of q "out @ [(s, e)]"] Cons.prems Inr Some show ?thesis by auto
      next
        case dec: (Inl err)
        obtain q1 r where w: "write_queue kv enc [s] None q = (q1, r)" by fastforce
        note q1 = write_queue_ok(1) [OF Cons.prems(1,2), of kv enc "[s]" None]
          delete_keeps_seq [of kv enc "[s]" q] write_unclaimed(2) [OF Cons.prems(1) refl, of kv enc "[s]"]
        show ?thesis
        proof (cases r)
          case (Inl err)
          with Cons.prems Inr Some dec w q1 show ?thesis by auto
        next
          case r: (Inr x)
          with Cons.IH [of q1 out] Cons.prems Inr Some dec w q1 show ?thesis by simp blast
        qed
      qed
    qed
  qed
qed auto

lemma claim_ok:
  assumes ok: "queue_ok q" and room: "fq_seq q \<noteq> u64_max" and c: "claim kv enc dec now n b q = (q', res)"
  shows "queue_ok q'" and "fq_seq q' = fq_seq q" and "unclaimed (fq_index q') \<subseteq> unclaimed (fq_index q)"
    and "res = Inr out \<Longrightarrow> fst ` set out \<subseteq> unclaimed (fq_index q)"
    and "res = Inr out \<Longrightarrow> fst ` set out \<inter> unclaimed (fq_index q') = {}"
proof -
  obtain ks st where sc: "state_claim now n b (fq_index q) = (ks, st)" by fastforce
  note S = index_claim [OF queue_okD(1) [OF ok] sc]
  have ok1: "queue_ok (q\<lparr>fq_index := st\<rparr>)" using S by (intro index_update_ok [OF ok]) auto
  have "fetch_claimed kv enc dec ks ks [] (q\<lparr>fq_index := st\<rparr>) = (q', res)"
    using c sc by (simp add: claim_def)
  from fetch_claimed_ok [OF ok1 _ this] room S sc show "queue_ok q'" "fq_seq q' = fq_seq q"
    "unclaimed (fq_index q') \<subseteq> unclaimed (fq_index q)" "res = Inr out \<Longrightarrow> fst ` set out \<subseteq> unclaimed (fq_index q)"
    "res = Inr out \<Longrightarrow> fst ` set out \<inter> unclaimed (fq_index q') = {}"
    by auto
qed

section \<open>Runs\<close>

datatype fq_event =
    Enqueue forward_entry
  | ClaimBatch u64 nat u64
  | Complete "u64 list" "forward_entry option"
  | Release "u64 list" u64
  | Reopen

fun fq_step :: "('d, u8 list, u8 list) rocks \<Rightarrow> (forward_entry \<Rightarrow> string + u8 list)
    \<Rightarrow> (u8 list \<Rightarrow> string + forward_entry) \<Rightarrow> 'd forward_queue \<Rightarrow> fq_event \<Rightarrow> 'd forward_queue" where
  "fq_step kv enc dec q (Enqueue e) = fst (enqueue kv enc e q)"
| "fq_step kv enc dec q (ClaimBatch now n b) = fst (claim kv enc dec now n b q)"
| "fq_step kv enc dec q (Complete ss retry) = fst (complete kv enc ss retry q)"
| "fq_step kv enc dec q (Release ss nb) = release ss nb q"
| "fq_step kv enc dec q Reopen = (case open_queue kv dec (fq_db q) of Inl _ \<Rightarrow> q | Inr q' \<Rightarrow> q')"

lemma fst_enqueue: "fst (enqueue kv enc e q) = fst (write_queue kv enc [] (Some e) q)"
  by (simp add: enqueue_def split: prod.split sum.split)

lemma fst_complete: "fst (complete kv enc ss retry q) = fst (write_queue kv enc ss retry q)"
  by (simp add: complete_def split: prod.split sum.split)

fun gives_back :: "u64 \<Rightarrow> fq_event \<Rightarrow> bool" where
  "gives_back s (Release ss nb) = (s \<in> set ss)"
| "gives_back s Reopen = True"
| "gives_back s _ = False"

lemma step_ok:
  assumes ok: "queue_ok q" and room: "fq_seq q \<noteq> u64_max" and ev: "ev \<noteq> Reopen"
  shows "queue_ok (fq_step kv enc dec q ev)" and "fq_seq q \<le> fq_seq (fq_step kv enc dec q ev)"
    and "unat (fq_seq (fq_step kv enc dec q ev)) \<le> Suc (unat (fq_seq q))"
    and "\<not> gives_back s ev \<Longrightarrow> s \<le> fq_seq q \<Longrightarrow> s \<notin> unclaimed (fq_index q) \<Longrightarrow>
      s \<notin> unclaimed (fq_index (fq_step kv enc dec q ev))"
proof -
  note W = write_queue_ok [OF ok room, of kv enc] write_unclaimed(1) [OF ok, of kv enc]
  have new: "s \<noteq> fq_seq q + 1" if "s \<le> fq_seq q" using word_succ_gt [OF room] that by auto
  have *: "queue_ok (fq_step kv enc dec q ev) \<and> fq_seq q \<le> fq_seq (fq_step kv enc dec q ev) \<and>
      unat (fq_seq (fq_step kv enc dec q ev)) \<le> Suc (unat (fq_seq q)) \<and>
      (\<not> gives_back s ev \<longrightarrow> s \<le> fq_seq q \<longrightarrow> s \<notin> unclaimed (fq_index q) \<longrightarrow>
        s \<notin> unclaimed (fq_index (fq_step kv enc dec q ev)))"
  proof (cases ev)
    case (Enqueue e)
    with W [of "[]" "Some e"] new show ?thesis by (auto simp: fst_enqueue)
  next
    case (ClaimBatch now n b)
    obtain q' res where "claim kv enc dec now n b q = (q', res)" by fastforce
    with claim_ok [OF ok room this] ClaimBatch show ?thesis by auto
  next
    case (Complete ss retry)
    with W [of ss retry] new show ?thesis by (auto simp: fst_complete)
  next
    case (Release ss nb)
    with unclaims_ok [OF ok, of nb ss] fq_index.give_backs_law [OF queue_okD(1) [OF ok], of nb ss] show ?thesis
      by (auto simp: release_def)
  qed (use ev in simp)
  then show "queue_ok (fq_step kv enc dec q ev)" "fq_seq q \<le> fq_seq (fq_step kv enc dec q ev)"
    "unat (fq_seq (fq_step kv enc dec q ev)) \<le> Suc (unat (fq_seq q))"
    "\<not> gives_back s ev \<Longrightarrow> s \<le> fq_seq q \<Longrightarrow> s \<notin> unclaimed (fq_index q) \<Longrightarrow>
      s \<notin> unclaimed (fq_index (fq_step kv enc dec q ev))" by blast+
qed

lemma room_of: "unat (n :: u64) + k < 2 ^ 64 - 1 \<Longrightarrow> n \<noteq> u64_max"
  by (auto simp: unsigned_minus_1_eq_mask mask_eq_exp_minus_1)

lemma run_ok:
  "queue_ok q \<Longrightarrow> unat (fq_seq q) + length evs < 2 ^ 64 - 1 \<Longrightarrow> Reopen \<notin> set evs \<Longrightarrow>
   queue_ok (foldl (fq_step kv enc dec) q evs) \<and>
   unat (fq_seq (foldl (fq_step kv enc dec) q evs)) \<le> unat (fq_seq q) + length evs \<and>
   ((\<forall>ev\<in>set evs. \<not> gives_back s ev) \<longrightarrow> s \<le> fq_seq q \<longrightarrow> s \<notin> unclaimed (fq_index q) \<longrightarrow>
     s \<notin> unclaimed (fq_index (foldl (fq_step kv enc dec) q evs)))"
proof (induction evs arbitrary: q)
  case (Cons ev evs)
  have room: "fq_seq q \<noteq> u64_max" using Cons.prems(2) by (rule room_of)
  have ev: "ev \<noteq> Reopen" using Cons.prems(3) by auto
  note S = step_ok [OF Cons.prems(1) room ev]
  have "unat (fq_seq (fq_step kv enc dec q ev)) + length evs < 2 ^ 64 - 1"
    using S(3) [of kv enc dec] Cons.prems by simp
  from Cons.IH [OF S(1) this] S(2,3) [of kv enc dec] S(4) [of s] Cons.prems(3) show ?case
    by (auto intro: order_trans)
qed simp

section \<open>Restart\<close>

definition indexed :: "(u8 list \<Rightarrow> string + forward_entry) \<Rightarrow> (u8 list \<times> u8 list) set \<Rightarrow> u64 set" where
  "indexed dec rows = {s. \<exists>v e. (to_be_bytes s, v) \<in> rows \<and> dec v = Inr e}"

lemma indexed_Cons:
  "indexed dec (insert (k, v) rows) =
     (if length k = 8 \<and> (\<exists>e. dec v = Inr e) then insert (from_be_bytes k) (indexed dec rows) else indexed dec rows)"
  using to_from_be_bytes [of k] by (auto simp: indexed_def)

lemma index_rows_ok:
  assumes "queue_ok q" "distinct (map fst items)" "stored (fq_index q) \<inter> indexed dec (set items) = {}"
    and "stored (fq_index q) \<subseteq> unclaimed (fq_index q)"
  shows "\<exists>st m acc. index_rows dec (map Inr items) (fq_index q) (fq_seq q) (fq_bytes q) = Inr (st, m, acc) \<and>
    queue_ok (q\<lparr>fq_index := st, fq_seq := m, fq_bytes := acc\<rparr>) \<and> (m = fq_seq q \<or> m \<in> stored st) \<and>
    stored st = stored (fq_index q) \<union> indexed dec (set items) \<and> stored st \<subseteq> unclaimed st"
  using assms
proof (induction items arbitrary: q)
  case Nil
  then show ?case by (simp add: indexed_def)
next
  case (Cons x items)
  obtain k v where x: "x = (k, v)" by fastforce
  show ?case
  proof (cases "length k = 8 \<and> (\<exists>e. dec v = Inr e)")
    case False
    with Cons x show ?thesis by (auto simp: indexed_Cons split: sum.split)
  next
    case True
    then obtain e where len: "length k = 8" and e: "dec v = Inr e" by blast
    let ?s = "from_be_bytes k" and ?p = "entry_pending e v"
    define q1 where "q1 = q\<lparr>fq_index := state_insert ?s ?p (fq_index q), fq_seq := max (fq_seq q) ?s,
      fq_bytes := fq_bytes q + word_of_nat (length v)\<rparr>"
    have new: "?s \<notin> stored (fq_index q)" using Cons.prems(3) True x by (auto simp: indexed_Cons)
    have ok1: "queue_ok q1"
      using insert_ok [OF Cons.prems(1) new, of q1 ?p] by (simp add: q1_def entry_pending_def)
    note I = index_insert [OF queue_okD(1) [OF Cons.prems(1)] new, of ?p]
    have "?s \<notin> indexed dec (set items)"
      using Cons.prems(2) x to_from_be_bytes [OF len] by (force simp: indexed_def)
    then have "stored (fq_index q1) \<inter> indexed dec (set items) = {}"
      using Cons.prems(3) True x I(2) by (auto simp: indexed_Cons q1_def)
    moreover have "stored (fq_index q1) \<subseteq> unclaimed (fq_index q1)" using Cons.prems(4) I by (auto simp: q1_def)
    ultimately obtain st m acc where IH: "index_rows dec (map Inr items) (fq_index q1) (fq_seq q1) (fq_bytes q1) = Inr (st, m, acc)"
      "queue_ok (q1\<lparr>fq_index := st, fq_seq := m, fq_bytes := acc\<rparr>)" "m = fq_seq q1 \<or> m \<in> stored st"
      "stored st = stored (fq_index q1) \<union> indexed dec (set items)" "stored st \<subseteq> unclaimed st"
      using Cons.IH [OF ok1] Cons.prems(2) by auto
    have "queue_ok (q\<lparr>fq_index := st, fq_seq := m, fq_bytes := acc\<rparr>)"
      using IH(2) by (simp add: queue_ok_def)
    moreover have "m = fq_seq q \<or> m \<in> stored st"
      using IH(3,4) I(2) by (auto simp: q1_def max_def split: if_splits)
    ultimately show ?thesis
      using IH len e True I(2) by (auto simp: x q1_def indexed_Cons)
  qed
qed

lemma open_queue_ok:
  assumes "rocks_laws kv rows"
  obtains q where "open_queue kv dec d = Inr q" and "queue_ok q" and "fq_db q = d"
    and "stored (fq_index q) = {s. \<exists>v e. rows d (to_be_bytes s) = Some v \<and> dec v = Inr e}"
    and "stored (fq_index q) \<subseteq> unclaimed (fq_index q)" and "fq_seq q = 0 \<or> fq_seq q \<in> stored (fq_index q)"
proof -
  let ?q = "\<lparr>fq_db = d, fq_seq = 0, fq_bytes = 0, fq_index = empty_state\<rparr>"
  obtain items where items: "rdb_iter_from kv d [] = map Inr items" "sorted_wrt (<) (map fst items)"
    "set items = {(k, v). rows d k = Some v \<and> [] \<le> k}"
    using iter_items [OF assms] by blast
  have "queue_ok ?q" by (simp add: queue_ok_def empty_index_ok)
  from index_rows_ok [OF this, of items dec] items(2) obtain st m acc
    where "index_rows dec (map Inr items) empty_state 0 0 = Inr (st, m, acc)"
      "queue_ok (?q\<lparr>fq_index := st, fq_seq := m, fq_bytes := acc\<rparr>)"
      "stored st = indexed dec (set items)" "stored st \<subseteq> unclaimed st" "m = 0 \<or> m \<in> stored st"
    by (auto simp: empty_index_ok strict_sorted_iff)
  then show ?thesis
    by (intro that [of "?q\<lparr>fq_index := st, fq_seq := m, fq_bytes := acc\<rparr>"])
      (simp_all add: open_queue_def items indexed_def)
qed

section \<open>Stored entries\<close>

definition fq_codec_ok :: "(forward_entry \<Rightarrow> string + u8 list) \<Rightarrow> (u8 list \<Rightarrow> string + forward_entry) \<Rightarrow> bool" where
  "fq_codec_ok enc dec \<longleftrightarrow> (\<forall>e v. enc e = Inr v \<longrightarrow> dec v = Inr e)"

definition rows_ok :: "(u8 list \<Rightarrow> string + forward_entry) \<Rightarrow> (u8 list \<Rightarrow> u8 list option) \<Rightarrow> u64 \<Rightarrow> bool" where
  "rows_ok dec rows n \<longleftrightarrow> (\<forall>k v. rows k = Some v \<longrightarrow> (\<exists>s e. k = to_be_bytes s \<and> dec v = Inr e \<and> s \<le> n))"

definition fq_ok :: "(u8 list \<Rightarrow> string + forward_entry) \<Rightarrow> ('d \<Rightarrow> u8 list \<Rightarrow> u8 list option)
    \<Rightarrow> 'd forward_queue \<Rightarrow> bool" where
  "fq_ok dec rows q \<longleftrightarrow> queue_ok q \<and> rows_ok dec (rows (fq_db q)) (fq_seq q)"

fun completes :: "u64 \<Rightarrow> fq_event \<Rightarrow> bool" where
  "completes s (Complete ss retry) = (s \<in> set ss)"
| "completes s _ = False"

lemma rows_ok_mono: "rows_ok dec rows n \<Longrightarrow> n \<le> n' \<Longrightarrow> rows_ok dec rows n'"
  unfolding rows_ok_def by (meson order_trans)

lemma deletes_effect:
  "fold batch_effect (map (\<lambda>s. Delete (to_be_bytes s)) ss) rows =
     (\<lambda>k. if k \<in> to_be_bytes ` set ss then None else rows k)"
  by (induction ss arbitrary: rows) (auto simp: fun_eq_iff)

lemma fetch_under_laws:
  assumes "rocks_laws kv rows" "rows_ok dec (rows (fq_db q)) n"
  shows "\<exists>q' out'. fetch_claimed kv enc dec claimed ss out q = (q', Inr out') \<and> fq_db q' = fq_db q"
  using assms(2)
proof (induction ss arbitrary: out q)
  case (Cons s ss)
  show ?case
  proof (cases "rows (fq_db q) (to_be_bytes s)")
    case None
    with Cons.IH [of "forget s q" out] Cons.prems show ?thesis
      by (simp add: rdb_get_rows [OF assms(1)] forget_fields)
  next
    case (Some v)
    then obtain e where "dec v = Inr e" using Cons.prems by (auto simp: rows_ok_def)
    with Some Cons.IH [of q "out @ [(s, e)]"] Cons.prems show ?thesis
      by (simp add: rdb_get_rows [OF assms(1)])
  qed
qed simp

lemma write_rows_ok:
  assumes laws: "rocks_laws kv rows" "rocks_atomic kv rows" and codec: "fq_codec_ok enc dec"
    and ok: "rows_ok dec (rows (fq_db q)) (fq_seq q)" and room: "fq_seq q \<noteq> u64_max"
    and w: "write_queue kv enc delivered entry q = (q', res)"
  shows "rows_ok dec (rows (fq_db q')) (fq_seq q')"
    and "s \<notin> set delivered \<Longrightarrow> s \<le> fq_seq q \<Longrightarrow> rows (fq_db q') (to_be_bytes s) = rows (fq_db q) (to_be_bytes s)"
proof -
  let ?dels = "map (\<lambda>s. Delete (to_be_bytes s)) delivered :: (u8 list, u8 list) batch_op list"
  have gt: "fq_seq q < fq_seq q + 1" using word_succ_gt room by blast
  define good where "good = (\<lambda>r n. rows_ok dec r n \<and>
    (\<forall>s. s \<notin> set delivered \<longrightarrow> s \<le> fq_seq q \<longrightarrow> r (to_be_bytes s) = rows (fq_db q) (to_be_bytes s)))"
  have same: "good (rows (fq_db q)) n" if "fq_seq q \<le> n" for n
    using ok rows_ok_mono that by (auto simp: good_def)
  have dels: "good (fold batch_effect ?dels (rows (fq_db q))) n" if "fq_seq q \<le> n" for n
    using same [OF that] by (auto simp: good_def deletes_effect rows_ok_def)
  have puts: "good (fold batch_effect (?dels @ [Put (to_be_bytes (fq_seq q + 1)) v]) (rows (fq_db q))) (fq_seq q + 1)"
    if "enc e = Inr v" for e v
    using dels [of "fq_seq q + 1"] gt that codec by (auto simp: good_def rows_ok_def fq_codec_ok_def)
  have "good (rows (fq_db q')) (fq_seq q')"
  proof (cases rule: write_queue_cases [of kv enc delivered entry q])
    case (refused err)
    with w same show ?thesis by simp
  next
    case (failed d n err ops)
    from write_outcome [OF laws failed(1)] failed(2,4) dels [of n] puts same [of n] gt
    have "good (rows d) n" by auto
    with failed(3) w show ?thesis by auto
  next
    case (deleted d)
    with w rdb_write_rows [OF laws(1) deleted(2)] dels show ?thesis by (auto simp: folded_forget_fields)
  next
    case (added d e v)
    with w rdb_write_rows [OF laws(1) added(3)] puts [OF added(2)] show ?thesis
      by (auto simp: folded_forget_fields Let_def)
  qed
  then show "rows_ok dec (rows (fq_db q')) (fq_seq q')"
    "s \<notin> set delivered \<Longrightarrow> s \<le> fq_seq q \<Longrightarrow> rows (fq_db q') (to_be_bytes s) = rows (fq_db q) (to_be_bytes s)"
    by (auto simp: good_def)
qed

lemma reopen_ok:
  assumes laws: "rocks_laws kv rows" and ok: "rows_ok dec (rows d) n"
  obtains q where "open_queue kv dec d = Inr q" and "fq_ok dec rows q" and "fq_db q = d" and "fq_seq q \<le> n"
    and "\<forall>s v. rows d (to_be_bytes s) = Some v \<longrightarrow> s \<in> unclaimed (fq_index q) \<and> s \<le> fq_seq q"
proof -
  obtain q where q: "open_queue kv dec d = Inr q" "queue_ok q" "fq_db q = d"
    "stored (fq_index q) = {s. \<exists>v e. rows d (to_be_bytes s) = Some v \<and> dec v = Inr e}"
    "stored (fq_index q) \<subseteq> unclaimed (fq_index q)" "fq_seq q = 0 \<or> fq_seq q \<in> stored (fq_index q)"
    by (rule open_queue_ok [OF laws])
  have st: "s \<in> stored (fq_index q) \<and> s \<le> n" if "rows d (to_be_bytes s) = Some v" for s v
    using ok that q(4) by (force simp: rows_ok_def)
  have le: "s \<le> fq_seq q" if "rows d (to_be_bytes s) = Some v" for s v
    using queue_okD(2) [OF q(2)] st [OF that] by blast
  have "rows_ok dec (rows d) (fq_seq q)"
    unfolding rows_ok_def
  proof (intro allI impI)
    fix k v
    assume row: "rows d k = Some v"
    then obtain s e where "k = to_be_bytes s" "dec v = Inr e" using ok unfolding rows_ok_def by blast
    with row le show "\<exists>s e. k = to_be_bytes s \<and> dec v = Inr e \<and> s \<le> fq_seq q" by blast
  qed
  moreover have "fq_seq q \<le> n" using q(4,6) st by auto
  ultimately show ?thesis using q st le by (intro that [OF q(1)]) (auto simp: fq_ok_def)
qed

lemma step_fq_ok:
  assumes laws: "rocks_laws kv rows" "rocks_atomic kv rows" and codec: "fq_codec_ok enc dec"
    and ok: "fq_ok dec rows q" and room: "fq_seq q \<noteq> u64_max"
  shows "fq_ok dec rows (fq_step kv enc dec q ev) \<and>
    unat (fq_seq (fq_step kv enc dec q ev)) \<le> Suc (unat (fq_seq q)) \<and>
    (rows (fq_db q) (to_be_bytes s) = Some v \<longrightarrow> \<not> completes s ev \<longrightarrow>
      rows (fq_db (fq_step kv enc dec q ev)) (to_be_bytes s) = Some v)"
proof -
  have q: "queue_ok q" and r: "rows_ok dec (rows (fq_db q)) (fq_seq q)" using ok by (simp_all add: fq_ok_def)
  have le: "rows (fq_db q) (to_be_bytes s) = Some v \<longrightarrow> s \<le> fq_seq q" using r by (force simp: rows_ok_def)
  note W = write_rows_ok [OF laws codec r room, OF prod.collapse [symmetric]]
  show ?thesis
  proof (cases ev)
    case (Enqueue e)
    with step_ok(1,3) [OF q room, of ev] W(1) W(2) [of s] le show ?thesis
      by (auto simp: fq_ok_def fst_enqueue)
  next
    case (ClaimBatch now n b)
    obtain ks st where "state_claim now n b (fq_index q) = (ks, st)" by fastforce
    moreover have "rows_ok dec (rows (fq_db (q\<lparr>fq_index := st\<rparr>))) (fq_seq q)" using r by simp
    ultimately have "fq_db (fst (claim kv enc dec now n b q)) = fq_db q"
      using fetch_under_laws [OF laws(1), where q = "q\<lparr>fq_index := st\<rparr>" and claimed = ks and ss = ks and out = "[]" and enc = enc]
      by (fastforce simp: claim_def)
    moreover have "fq_seq (fst (claim kv enc dec now n b q)) = fq_seq q"
      using claim_ok(2) [OF q room prod.collapse [symmetric]] .
    ultimately show ?thesis using step_ok(1,3) [OF q room, of ev] r ClaimBatch by (simp add: fq_ok_def)
  next
    case (Complete ss retry)
    with step_ok(1,3) [OF q room, of ev] W(1) W(2) [of s] le show ?thesis
      by (auto simp: fq_ok_def fst_complete)
  next
    case (Release ss nb)
    with step_ok(1,3) [OF q room, of ev] r show ?thesis by (simp add: fq_ok_def release_def)
  next
    case Reopen
    obtain q' where "open_queue kv dec (fq_db q) = Inr q'" "fq_ok dec rows q'" "fq_db q' = fq_db q" "fq_seq q' \<le> fq_seq q"
      by (rule reopen_ok [OF laws(1) r])
    with Reopen show ?thesis by (simp add: word_le_nat_alt le_SucI)
  qed
qed

lemma run_fq_ok:
  assumes laws: "rocks_laws kv rows" "rocks_atomic kv rows" and codec: "fq_codec_ok enc dec"
  shows "fq_ok dec rows q \<Longrightarrow> unat (fq_seq q) + length evs < 2 ^ 64 - 1 \<Longrightarrow>
    fq_ok dec rows (foldl (fq_step kv enc dec) q evs) \<and>
    unat (fq_seq (foldl (fq_step kv enc dec) q evs)) \<le> unat (fq_seq q) + length evs \<and>
    (rows (fq_db q) (to_be_bytes s) = Some v \<longrightarrow> (\<forall>ev\<in>set evs. \<not> completes s ev) \<longrightarrow>
      rows (fq_db (foldl (fq_step kv enc dec) q evs)) (to_be_bytes s) = Some v)"
proof (induction evs arbitrary: q)
  case (Cons ev evs)
  note S = step_fq_ok [OF laws codec Cons.prems(1) room_of [OF Cons.prems(2)], of ev s v]
  have "unat (fq_seq (fq_step kv enc dec q ev)) + length evs < 2 ^ 64 - 1" using S Cons.prems(2) by auto
  from Cons.IH [OF conjunct1 [OF S] this] S show ?case by auto
qed simp

section \<open>Properties\<close>

text \<open>
  Whatever the store answers from then on, reads and writes that fail included, an opened
  queue keeps its indexes in agreement after every sequence of calls, its byte count is that of
  the entries it holds, and no held number is above its counter.
\<close>

theorem queue_indexes_agree:
  assumes "rocks_laws kv0 rows" "open_queue kv0 dec d = Inr q" "unat (fq_seq q) + length evs < 2 ^ 64 - 1" "Reopen \<notin> set evs"
  shows "queue_ok (foldl (fq_step kv enc dec) q evs)"
proof -
  obtain q' where "open_queue kv0 dec d = Inr q'" "queue_ok q'" by (rule open_queue_ok [OF assms(1)])
  with assms(2) have "queue_ok q" by simp
  with run_ok assms(3,4) show ?thesis by blast
qed

text \<open>A codec of one entry and an empty queue, at which the properties are applied.\<close>

definition demo_entry :: forward_entry where
  "demo_entry = \<lparr>fe_db = ''db'', fe_rp = ''autogen'', fe_precision = None, fe_enqueued_ms = 5, fe_not_before_ms = 0,
     fe_attempts = 0, fe_body = [42]\<rparr>"

definition demo_enc :: "forward_entry \<Rightarrow> string + u8 list" where
  "demo_enc e = (if e = demo_entry then Inr [1] else Inl ''unsupported'')"

definition demo_dec :: "u8 list \<Rightarrow> string + forward_entry" where
  "demo_dec v = (if v = [1] then Inr demo_entry else Inl ''corrupt'')"

lemma demo_codec: "fq_codec_ok demo_enc demo_dec"
  by (simp add: fq_codec_ok_def demo_enc_def demo_dec_def)

definition demo_queue :: "(u8 list \<times> u8 list) list forward_queue" where
  "demo_queue = \<lparr>fq_db = [], fq_seq = 0, fq_bytes = 0, fq_index = empty_state\<rparr>"

lemma open_demo: "open_queue list_kv demo_dec [] = Inr demo_queue"
  by (simp add: open_queue_def list_kv_def demo_queue_def)

lemma demo_queue_ok: "queue_ok demo_queue" "fq_ok demo_dec map_of demo_queue"
  by (simp_all add: queue_ok_def fq_ok_def demo_queue_def empty_index_ok rows_ok_def)

theorem queue_indexes_agree_witness:
  "queue_ok (foldl (fq_step list_kv demo_enc demo_dec) demo_queue
     [Enqueue demo_entry, Enqueue demo_entry, ClaimBatch 9 10 100, Complete [1] None, Release [2] 50])"
  by (rule queue_indexes_agree [OF list_kv_laws open_demo]) (simp_all add: demo_queue_def)

lemma pick_bounds:
  assumes "pick sz n b ss picked acc = ks" "acc = (\<Sum>s\<leftarrow>picked. sz s)" "length picked \<le> n"
    and "length picked \<le> 1 \<or> acc \<le> b"
  shows "length ks \<le> n \<and> (length ks \<le> 1 \<or> (\<Sum>s\<leftarrow>ks. sz s) \<le> b)"
  using assms
proof (induction ss arbitrary: picked acc)
  case (Cons s ss)
  show ?case
  proof (cases "n \<le> length picked \<or> picked \<noteq> [] \<and> b < acc + sz s")
    case True
    then have "pick sz n b (s # ss) picked acc = picked" by auto
    with Cons.prems show ?thesis by auto
  next
    case False
    then have "pick sz n b (s # ss) picked acc = pick sz n b ss (picked @ [s]) (acc + sz s)" by auto
    moreover have "length (picked @ [s]) \<le> 1 \<or> acc + sz s \<le> b" using False by (cases picked) auto
    ultimately show ?thesis using Cons.IH [of "picked @ [s]" "acc + sz s"] Cons.prems False by simp
  qed
qed auto

lemma unat_sum_list:
  "(\<Sum>s\<leftarrow>ks. unat (f s :: u64)) < 2 ^ 64 \<Longrightarrow> unat (\<Sum>s\<leftarrow>ks. f s) = (\<Sum>s\<leftarrow>ks. unat (f s))"
  by (induction ks) (auto simp: unat_word_ariths)

lemma fetch_subseq:
  "fetch_claimed kv enc dec claimed ss out q = (q', Inr out') \<Longrightarrow> \<exists>ys. out' = out @ ys \<and> subseq (map fst ys) ss"
proof (induction ss arbitrary: out q)
  case (Cons s ss)
  have skip: "\<exists>ys. out' = out @ ys \<and> subseq (map fst ys) (s # ss)"
    if "fetch_claimed kv enc dec claimed ss out q1 = (q', Inr out')" for q1
    using Cons.IH [OF that] by auto
  from Cons.prems show ?case
  proof (cases "rdb_get kv (fq_db q) (to_be_bytes s)")
    case (Inr row)
    show ?thesis
    proof (cases "\<exists>v e. row = Some v \<and> dec v = Inr e")
      case True
      then obtain v e where "row = Some v" "dec v = Inr e" by blast
      with Cons.prems Inr Cons.IH [of "out @ [(s, e)]" q] show ?thesis by force
    next
      case False
      with Cons.prems Inr show ?thesis
        by (auto split: option.splits sum.splits prod.splits intro: skip)
    qed
  qed simp
qed simp

lemma claimed_batch:
  assumes ok: "index_ok st" and c: "state_claim now n b st = (ks, st')"
  shows "sorted_wrt (<) ks" and "length ks \<le> n"
    and "set ks \<subseteq> set (ready st) \<union> {s. \<exists>nb. (nb, s) \<in> set (delayed st) \<and> nb \<le> now}"
    and "(\<Sum>s\<in>stored st. unat (size_of st s)) < 2 ^ 64 \<Longrightarrow>
      length ks \<le> 1 \<or> (\<Sum>s\<leftarrow>ks. unat (size_of st s)) \<le> unat b"
proof -
  obtain rdy del i where "promote_due now (delayed st) (ready st) = (del, rdy)" "bs_wf del"
    "set del = {x \<in> set (delayed st). now < fst x}" and wf: "bs_wf rdy"
    and rdy: "set rdy = set (ready st) \<union> {s. \<exists>nb. (nb, s) \<in> set (delayed st) \<and> nb \<le> now}"
    and ks: "ks = pick (size_of st) n b rdy [] 0" "ks = take i rdy"
    and "st' = st\<lparr>delayed := del, ready := fold bs_remove ks rdy\<rparr>"
    by (rule claim_cases [OF ok c])
  show "sorted_wrt (<) ks" using wf unfolding ks(2) bs_wf_def by (rule sorted_wrt_take)
  have lim: "length ks \<le> n \<and> (length ks \<le> 1 \<or> (\<Sum>s\<leftarrow>ks. size_of st s) \<le> b)"
    by (rule pick_bounds [OF ks(1) [symmetric]]) simp_all
  then show "length ks \<le> n" by simp
  show "set ks \<subseteq> set (ready st) \<union> {s. \<exists>nb. (nb, s) \<in> set (delayed st) \<and> nb \<le> now}"
    using set_take_subset [of i rdy] rdy ks(2) by simp
  assume small: "(\<Sum>s\<in>stored st. unat (size_of st s)) < 2 ^ 64"
  have "set ks \<subseteq> stored st"
    using index_claim(4) [OF ok c] fq_index.unclaimed_stored [OF ok] by blast
  then have "(\<Sum>s\<in>set ks. unat (size_of st s)) \<le> (\<Sum>s\<in>stored st. unat (size_of st s))"
    by (intro sum_mono2) (simp_all add: stored_finite)
  then have "(\<Sum>s\<leftarrow>ks. unat (size_of st s)) < 2 ^ 64"
    using small index_claim(3) [OF ok c] by (simp add: sum_list_distinct_conv_sum_set)
  from unat_sum_list [OF this] lim show "length ks \<le> 1 \<or> (\<Sum>s\<leftarrow>ks. unat (size_of st s)) \<le> unat b"
    by (auto simp: word_le_nat_alt)
qed

lemma sum_list_subseq: "subseq xs ys \<Longrightarrow> (\<Sum>x\<leftarrow>xs. f x :: nat) \<le> (\<Sum>y\<leftarrow>ys. f y)"
  by (induction rule: list_emb.induct) auto

lemma sorted_wrt_subseq: "subseq xs ys \<Longrightarrow> sorted_wrt R ys \<Longrightarrow> sorted_wrt R xs"
proof (induction rule: list_emb.induct)
  case (list_emb_Cons2 x y xs ys)
  then show ?case using list_emb_set [OF list_emb_Cons2.hyps(2)] by fastforce
qed auto

lemma claim_subseq:
  assumes "claim kv enc dec now n b q = (q', Inr out)" and "state_claim now n b (fq_index q) = (ks, st)"
  shows "subseq (map fst out) ks"
  using fetch_subseq [of kv enc dec ks ks "[]" "q\<lparr>fq_index := st\<rparr>" q' out] assms by (simp add: claim_def)

text \<open>
  C37. A claim hands out in increasing order of number, at most \<open>max_entries\<close> entries, all due, and,
  unless it is a single entry, at most \<open>max_bytes\<close> of them.
\<close>

theorem claim_within_limits:
  assumes "queue_ok q" and "(\<Sum>s\<in>stored (fq_index q). unat (size_of (fq_index q) s)) < 2 ^ 64"
    and "claim kv enc dec now max_entries max_bytes q = (q', Inr out)"
  shows "sorted_wrt (<) (map fst out) \<and> length out \<le> max_entries
    \<and> (\<forall>s\<in>fst ` set out. s \<in> set (ready (fq_index q)) \<or> (\<exists>nb\<le>now. (nb, s) \<in> set (delayed (fq_index q))))
    \<and> (length out \<le> 1 \<or> (\<Sum>s\<leftarrow>map fst out. unat (size_of (fq_index q) s)) \<le> unat max_bytes)"
proof -
  obtain ks st where sc: "state_claim now max_entries max_bytes (fq_index q) = (ks, st)" by fastforce
  note B = claimed_batch [OF queue_okD(1) [OF assms(1)] sc]
  have sub: "subseq (map fst out) ks" by (rule claim_subseq [OF assms(3) sc])
  from list_emb_length [OF this] have len: "length out \<le> length ks" by simp
  have "fst ` set out \<subseteq> set ks" using list_emb_set [OF sub] by force
  moreover have "sorted_wrt (<) (map fst out)" by (rule sorted_wrt_subseq [OF sub B(1)])
  moreover have "length out \<le> 1 \<or> (\<Sum>s\<leftarrow>map fst out. unat (size_of (fq_index q) s)) \<le> unat max_bytes"
    using B(4) [OF assms(2)] len sum_list_subseq [OF sub] by (meson order_trans)
  ultimately show ?thesis using B(2,3) len by auto
qed

text \<open>
  C32. A claim is exclusive: an entry handed out is in no later claim, whatever the store does,
  until it is released or the queue is opened again.
\<close>

theorem claim_exclusive:
  assumes "queue_ok q" and "unat (fq_seq q) + length evs < 2 ^ 64 - 1" and "Reopen \<notin> set evs"
    and "claim kv enc dec now n b q = (q', Inr out)" and "s \<in> fst ` set out"
    and "\<forall>ev\<in>set evs. \<not> gives_back s ev"
    and "claim kv2 enc dec now2 n2 b2 (foldl (fq_step kv2 enc dec) q' evs) = (q'', Inr out2)"
  shows "s \<notin> fst ` set out2"
proof -
  note C = claim_ok [OF assms(1) room_of [OF assms(2)] assms(4)]
  have "s \<in> unclaimed (fq_index q)" "s \<notin> unclaimed (fq_index q')" using C(4,5) [OF refl] assms(5) by auto
  then have le: "s \<le> fq_seq q'" and out: "s \<notin> unclaimed (fq_index q')"
    using queue_okD(2) [OF assms(1)] fq_index.unclaimed_stored [OF queue_okD(1) [OF assms(1)]] C(2) by auto
  have R: "queue_ok (foldl (fq_step kv2 enc dec) q' evs) \<and>
      unat (fq_seq (foldl (fq_step kv2 enc dec) q' evs)) \<le> unat (fq_seq q') + length evs \<and>
      s \<notin> unclaimed (fq_index (foldl (fq_step kv2 enc dec) q' evs))"
    using run_ok [OF C(1) _ assms(3), of kv2 enc dec s] assms(2,6) C(2) le out by simp
  then have "unat (fq_seq (foldl (fq_step kv2 enc dec) q' evs)) + 0 < 2 ^ 64 - 1" using assms(2) C(2) by simp
  from claim_ok(4) [OF conjunct1 [OF R] room_of [OF this] assms(7) refl] R show ?thesis by blast
qed

text \<open>
  C7. Nothing accepted is lost: once \<open>enqueue\<close> returns a number, the entry's row stays in the
  store through every later call, failed writes and restarts included, until a \<open>complete\<close> names
  it, and an open of the queue at any such moment offers it again.
\<close>

theorem entry_kept_until_completed:
  assumes "rocks_laws kv rows" "rocks_atomic kv rows" "fq_codec_ok enc dec" "fq_ok dec rows q"
    and "unat (fq_seq q) + 1 + length evs < 2 ^ 64 - 1"
    and "enqueue kv enc e q = (q', Inr s)" and "\<forall>ev\<in>set evs. \<not> completes s ev"
  shows "\<exists>v qr. enc e = Inr v \<and> rows (fq_db (foldl (fq_step kv enc dec) q' evs)) (to_be_bytes s) = Some v
    \<and> open_queue kv dec (fq_db (foldl (fq_step kv enc dec) q' evs)) = Inr qr \<and> s \<in> unclaimed (fq_index qr)"
proof -
  have room: "fq_seq q \<noteq> u64_max" using assms(5) by (intro room_of [of _ 0]) simp
  have q': "q' = fq_step kv enc dec q (Enqueue e)" using assms(6) by simp
  note S = step_fq_ok [OF assms(1-4) room, of "Enqueue e", folded q']
  obtain v where v: "enc e = Inr v" "rows (fq_db q') (to_be_bytes s) = Some v"
  proof (cases rule: write_queue_cases [of kv enc "[]" "Some e" q])
    case (added d e' v)
    with assms(6) rdb_write_rows [OF assms(1) added(3)] that [of v] show ?thesis
      by (auto simp: enqueue_def Let_def)
  qed (use assms(6) in \<open>auto simp: enqueue_def\<close>)
  have "unat (fq_seq q') + length evs < 2 ^ 64 - 1" using S [of s v] assms(5) by linarith
  note R = run_fq_ok [OF assms(1-3) conjunct1 [OF S] this, of s v]
  then have r: "rows_ok dec (rows (fq_db (foldl (fq_step kv enc dec) q' evs))) (fq_seq (foldl (fq_step kv enc dec) q' evs))"
    by (simp add: fq_ok_def)
  obtain qr where "open_queue kv dec (fq_db (foldl (fq_step kv enc dec) q' evs)) = Inr qr"
    "fq_ok dec rows qr" "fq_db qr = fq_db (foldl (fq_step kv enc dec) q' evs)"
    "fq_seq qr \<le> fq_seq (foldl (fq_step kv enc dec) q' evs)"
    "\<forall>s v. rows (fq_db (foldl (fq_step kv enc dec) q' evs)) (to_be_bytes s) = Some v \<longrightarrow>
       s \<in> unclaimed (fq_index qr) \<and> s \<le> fq_seq qr"
    by (rule reopen_ok [OF assms(1) r])
  with R v assms(7) show ?thesis by blast
qed

lemma fetch_errors:
  assumes "queue_ok q" "fetch_claimed kv enc dec claimed ss out q = (q', Inl err)" "set ss \<subseteq> stored (fq_index q)" "distinct ss"
  shows "stored (fq_index q') \<subseteq> stored (fq_index q) \<and>
    ((\<exists>e. err = QueueError ''get'' e \<and>
        unclaimed (fq_index q') = (unclaimed (fq_index q) \<union> set claimed) \<inter> stored (fq_index q')) \<or>
     (\<exists>e. err = QueueError ''write'' e \<and> unclaimed (fq_index q') = unclaimed (fq_index q) \<inter> stored (fq_index q') \<and>
        set ss \<inter> stored (fq_index q') \<noteq> {}))"
  using assms
proof (induction ss arbitrary: out q)
  case (Cons s ss)
  note ok = queue_okD(1) [OF Cons.prems(1)]
  note sub = fq_index.unclaimed_stored [OF ok]
  have drop: ?case
    if "queue_ok q1" "fetch_claimed kv enc dec claimed ss out q1 = (q', Inl err)"
      "stored (fq_index q1) = stored (fq_index q) - {s}" "unclaimed (fq_index q1) = unclaimed (fq_index q) - {s}" for q1
    using Cons.IH [OF that(1,2)] Cons.prems(3,4) unfolding that(3,4) by auto
  show ?case
  proof (cases "rdb_get kv (fq_db q) (to_be_bytes s)")
    case (Inl e)
    with Cons.prems(2) fq_index.give_backs_law [OF ok, of 0 claimed] sub show ?thesis by auto
  next
    case (Inr row)
    show ?thesis
    proof (cases row)
      case None
      with Inr Cons.prems(2) index_remove(2,3) [OF ok refl, of s] show ?thesis
        by (intro drop [OF forget_ok [OF Cons.prems(1)]]) (simp_all add: forget_fields)
    next
      case (Some v)
      show ?thesis
      proof (cases "dec v")
        case dec: (Inr e)
        with Cons.IH [of q "out @ [(s, e)]"] Cons.prems Inr Some show ?thesis by auto
      next
        case dec: (Inl err')
        obtain d r where w: "rdb_write kv (fq_db q) [Delete (to_be_bytes s)] = (d, r)" by fastforce
        show ?thesis
        proof (cases r)
          case (Inl e)
          with w Inr Some dec Cons.prems(2,3) sub show ?thesis by (auto simp: write_queue_def)
        next
          case r: (Inr u)
          have "queue_ok (forget s (q\<lparr>fq_db := d\<rparr>))" using Cons.prems(1) by (simp add: forget_ok queue_ok_db)
          moreover from w r Inr Some dec Cons.prems(2)
          have "fetch_claimed kv enc dec claimed ss out (forget s (q\<lparr>fq_db := d\<rparr>)) = (q', Inl err)"
            by (simp add: write_queue_def)
          moreover have "fq_index (forget s (q\<lparr>fq_db := d\<rparr>)) = fst (state_remove s (fq_index q))"
            by (simp add: forget_fields)
          note index_remove(2,3) [OF ok this]
          ultimately show ?thesis by (rule drop)
        qed
      qed
    qed
  qed
qed simp

text \<open>
  What a failed claim leaves behind. When a read of the store fails, every entry of the batch
  that is still held can be claimed again, as if the call had not been made. When the removal of
  an undecodable row fails, the early return gives nothing back: entries of the batch are still
  held, but none of them can be claimed until the queue is opened again.
\<close>

theorem failed_claim_leaves:
  assumes "queue_ok q" and "claim kv enc dec now n b q = (q', Inl err)"
    and "state_claim now n b (fq_index q) = (batch, st)"
  shows "(\<exists>e. err = QueueError ''get'' e \<and> unclaimed (fq_index q') = unclaimed (fq_index q) \<inter> stored (fq_index q')) \<or>
    (\<exists>e. err = QueueError ''write'' e \<and> set batch \<inter> unclaimed (fq_index q') = {} \<and>
      set batch \<inter> stored (fq_index q') \<noteq> {})"
proof -
  note ok = queue_okD(1) [OF assms(1)]
  note S = index_claim [OF ok assms(3)]
  have ok1: "queue_ok (q\<lparr>fq_index := st\<rparr>)" using S by (intro index_update_ok [OF assms(1)]) auto
  have f: "fetch_claimed kv enc dec batch batch [] (q\<lparr>fq_index := st\<rparr>) = (q', Inl err)"
    using assms(2,3) by (simp add: claim_def)
  have "set batch \<subseteq> stored (fq_index (q\<lparr>fq_index := st\<rparr>))"
    using S(2,4) fq_index.unclaimed_stored [OF ok] by auto
  from fetch_errors [OF ok1 f this S(3)] S(2,4,5) show ?thesis by auto
qed

text \<open>Two entries are held, and the batches that claims of them hand out.\<close>

definition demo_two :: "(u8 list \<times> u8 list) list forward_queue" where
  "demo_two = foldl (fq_step list_kv demo_enc demo_dec) demo_queue [Enqueue demo_entry, Enqueue demo_entry]"

lemma demo_two_eq:
  "demo_two = \<lparr>fq_db = [(to_be_bytes 2, [1]), (to_be_bytes 1, [1])], fq_seq = 2, fq_bytes = 2,
     fq_index = \<lparr>pending = [(1, entry_pending demo_entry [1]), (2, entry_pending demo_entry [1])],
       ready = [1, 2], delayed = [], by_age = [(5, 1), (5, 2)]\<rparr>\<rparr>"
  by (simp add: demo_two_def enqueue_def write_queue_def demo_queue_def demo_enc_def entry_pending_def
      state_insert_def Let_def empty_state_def demo_entry_def hm_insert_def)

lemma demo_two_ok: "queue_ok demo_two" "fq_ok demo_dec map_of demo_two"
  unfolding demo_two_def
  by (rule conjunct1 [OF run_ok], simp_all add: demo_queue_ok del: foldl.simps, simp add: demo_queue_def)
    (rule conjunct1 [OF run_fq_ok [OF list_kv_laws list_kv_atomic demo_codec demo_queue_ok(2)]], simp add: demo_queue_def)

lemma claim_first: "claim list_kv demo_enc demo_dec 9 1 100 demo_two =
    (demo_two\<lparr>fq_index := (fq_index demo_two)\<lparr>ready := [2]\<rparr>\<rparr>, Inr [(1, demo_entry)])"
  by (simp add: claim_def state_claim_def demo_two_eq size_of_def demo_dec_def list_kv_def Let_def bs_remove_def)

theorem claim_within_limits_witness:
  "sorted_wrt (<) (map fst [(1 :: u64, demo_entry)]) \<and> length [(1 :: u64, demo_entry)] \<le> 1"
  using claim_within_limits [OF demo_two_ok(1) _ claim_first]
  by (simp add: demo_two_eq stored_def size_of_def entry_pending_def Collect_disj_eq
      split: if_splits)

lemma claim_second:
  "claim list_kv demo_enc demo_dec 9 5 100 (demo_two\<lparr>fq_index := (fq_index demo_two)\<lparr>ready := [2]\<rparr>\<rparr>) =
    (demo_two\<lparr>fq_index := (fq_index demo_two)\<lparr>ready := []\<rparr>\<rparr>, Inr [(2, demo_entry)])"
  by (simp add: claim_def state_claim_def demo_two_eq size_of_def demo_dec_def list_kv_def Let_def bs_remove_def
      to_be_bytes_inj)

theorem claim_exclusive_witness:
  "\<exists>out2. snd (claim list_kv demo_enc demo_dec 9 5 100 (demo_two\<lparr>fq_index := (fq_index demo_two)\<lparr>ready := [2]\<rparr>\<rparr>)) = Inr out2
    \<and> 1 \<notin> fst ` set out2"
proof (intro exI conjI)
  show "1 \<notin> fst ` set [(2 :: u64, demo_entry)]"
    using claim_exclusive [where evs = "[]", OF demo_two_ok(1) _ _ claim_first, of 1] claim_second
    by (simp add: demo_two_eq)
qed (simp add: claim_second)

theorem entry_kept_until_completed_witness:
  "\<exists>v qr. demo_enc demo_entry = Inr v
    \<and> map_of (fq_db (foldl (fq_step list_kv demo_enc demo_dec) (fst (enqueue list_kv demo_enc demo_entry demo_queue))
        [Enqueue demo_entry, ClaimBatch 9 5 100, Reopen, Complete [2] None])) (to_be_bytes 1) = Some v
    \<and> open_queue list_kv demo_dec (fq_db (foldl (fq_step list_kv demo_enc demo_dec)
        (fst (enqueue list_kv demo_enc demo_entry demo_queue))
        [Enqueue demo_entry, ClaimBatch 9 5 100, Reopen, Complete [2] None])) = Inr qr
    \<and> 1 \<in> unclaimed (fq_index qr)"
proof (rule entry_kept_until_completed [OF list_kv_laws list_kv_atomic demo_codec demo_queue_ok(2)])
  show "enqueue list_kv demo_enc demo_entry demo_queue = (fst (enqueue list_kv demo_enc demo_entry demo_queue), Inr 1)"
    by (simp add: enqueue_def write_queue_def demo_queue_def demo_enc_def Let_def)
qed (simp_all add: demo_queue_def)

definition stuck_kv :: "((u8 list \<times> u8 list) list, u8 list, u8 list) rocks" where
  "stuck_kv = list_kv\<lparr>rdb_write := (\<lambda>d ops. (d, Inl ''io''))\<rparr>"

theorem failed_claim_leaves_witness:
  "set [1] \<inter> unclaimed (fq_index (fst (claim stuck_kv demo_enc (\<lambda>_. Inl ''corrupt'') 9 1 100 demo_two))) = {} \<and>
   set [1] \<inter> stored (fq_index (fst (claim stuck_kv demo_enc (\<lambda>_. Inl ''corrupt'') 9 1 100 demo_two))) \<noteq> {}"
proof -
  have c: "claim stuck_kv demo_enc (\<lambda>_. Inl ''corrupt'') 9 1 100 demo_two =
      (fst (claim stuck_kv demo_enc (\<lambda>_. Inl ''corrupt'') 9 1 100 demo_two), Inl (QueueError ''write'' ''io''))"
    by (simp add: claim_def state_claim_def demo_two_eq size_of_def Let_def stuck_kv_def list_kv_def write_queue_def)
  have s: "state_claim 9 1 100 (fq_index demo_two) = ([1], (fq_index demo_two)\<lparr>ready := [2]\<rparr>)"
    by (simp add: state_claim_def demo_two_eq size_of_def Let_def bs_remove_def)
  from failed_claim_leaves [OF demo_two_ok(1) c s] show ?thesis by auto
qed

end
