(* ===== verification/Ordered_Map.thy ===== *)
theory Ordered_Map
  imports Ordered_Set "HOL-Library.List_Lexorder" "HOL-Library.Char_ord"
begin

text \<open>
  Ordered maps (\<open>std::collections::BTreeMap\<close>): association lists with strictly increasing keys.
  Iteration is in key order, and two maps with the same lookups are equal. The keyed-store
  contract is interpreted on them.
\<close>

section \<open>Operations\<close>

type_synonym ('k, 'v) btree_map = "('k \<times> 'v) list"

fun bm_insert :: "'k::linorder \<Rightarrow> 'v \<Rightarrow> ('k, 'v) btree_map \<Rightarrow> ('k, 'v) btree_map" where
  "bm_insert k v [] = [(k, v)]"
| "bm_insert k v ((k', v') # m) =
     (if k < k' then (k, v) # (k', v') # m
      else if k = k' then (k, v) # m
      else (k', v') # bm_insert k v m)"

definition bm_get :: "('k, 'v) btree_map \<Rightarrow> 'k \<Rightarrow> 'v option" where
  "bm_get m k = map_of m k"

definition bm_remove :: "'k \<Rightarrow> ('k, 'v) btree_map \<Rightarrow> ('k, 'v) btree_map" where
  "bm_remove k m = filter (\<lambda>(k', _). k' \<noteq> k) m"

definition bm_retain :: "('k \<Rightarrow> bool) \<Rightarrow> ('k, 'v) btree_map \<Rightarrow> ('k, 'v) btree_map" where
  "bm_retain P m = filter (\<lambda>(k, _). P k) m"

text \<open>\<open>entry(k).or_insert(v0)\<close> followed by an update in place.\<close>

definition bm_update :: "'k::linorder \<Rightarrow> 'v \<Rightarrow> ('v \<Rightarrow> 'v) \<Rightarrow> ('k, 'v) btree_map \<Rightarrow> ('k, 'v) btree_map" where
  "bm_update k v0 f m = bm_insert k (f (case bm_get m k of None \<Rightarrow> v0 | Some v \<Rightarrow> v)) m"

definition bm_wf :: "('k::linorder, 'v) btree_map \<Rightarrow> bool" where
  "bm_wf m \<longleftrightarrow> sorted_wrt (<) (map fst m)"

section \<open>Laws\<close>

lemma bm_wf_Nil [simp]: "bm_wf []"
  by (simp add: bm_wf_def)

lemma bm_get_Nil [simp]: "bm_get [] k = None"
  by (simp add: bm_get_def)

lemma bm_wf_Cons: "bm_wf ((k, v) # m) \<longleftrightarrow> bm_wf m \<and> (\<forall>k'\<in>fst ` set m. k < k')"
  by (auto simp: bm_wf_def)

lemma bm_wf_distinct: "bm_wf m \<Longrightarrow> distinct (map fst m)"
  by (simp add: bm_wf_def strict_sorted_iff)

lemma bm_insert_keys: "fst ` set (bm_insert k v m) = insert k (fst ` set m)"
  by (induction m rule: bm_insert.induct) auto

lemma bm_wf_insert: "bm_wf m \<Longrightarrow> bm_wf (bm_insert k v m)"
  by (induction m rule: bm_insert.induct) (auto simp: bm_wf_Cons bm_insert_keys)

lemma bm_get_insert: "bm_wf m \<Longrightarrow> bm_get (bm_insert k v m) k' = (if k' = k then Some v else bm_get m k')"
proof (induction k v m rule: bm_insert.induct)
  case (2 k v k1 v1 m)
  then have "bm_get m k = None" if "k < k1"
    using that by (force simp: bm_get_def bm_wf_Cons map_of_eq_None_iff)
  with 2 show ?case by (auto simp: bm_get_def bm_wf_Cons)
qed (simp add: bm_get_def)

interpretation bm: keyed_store bm_get bm_insert bm_remove bm_retain bm_wf
proof
  fix m :: "('k::linorder, 'v) btree_map" and k k' :: 'k and v :: 'v and P :: "'k \<Rightarrow> bool"
  assume wf: "bm_wf m"
  from wf show "bm_get (bm_insert k v m) k' = (if k' = k then Some v else bm_get m k')"
    by (rule bm_get_insert)
  show "bm_get (bm_remove k m) k' = (if k' = k then None else bm_get m k')"
    using map_of_filter_key [of "\<lambda>k'. k' \<noteq> k" m k'] by (simp add: bm_get_def bm_remove_def)
  show "bm_get (bm_retain P m) k' = (if P k' then bm_get m k' else None)"
    by (simp add: bm_get_def bm_retain_def map_of_filter_key)
  have filt: "bm_wf (filter Q m)" for Q :: "'k \<times> 'v \<Rightarrow> bool"
    using wf by (induction m) (auto simp: bm_wf_def)
  from wf show "bm_wf (bm_insert k v m)" by (rule bm_wf_insert)
  from filt show "bm_wf (bm_remove k m)" "bm_wf (bm_retain P m)" by (simp_all add: bm_remove_def bm_retain_def)
qed

lemma bm_get_update:
  "bm_wf m \<Longrightarrow> bm_get (bm_update k v0 f m) k' =
     (if k' = k then Some (f (case bm_get m k of None \<Rightarrow> v0 | Some v \<Rightarrow> v)) else bm_get m k')"
  by (simp add: bm_update_def bm.get_ins)

lemma bm_wf_update: "bm_wf m \<Longrightarrow> bm_wf (bm_update k v0 f m)"
  by (simp add: bm_update_def bm.wf_ins)

lemma bm_get_set: "bm_wf m \<Longrightarrow> bm_get m k = Some v \<longleftrightarrow> (k, v) \<in> set m"
  by (simp add: bm_get_def bm_wf_distinct)

lemma bm_eqI: "bm_wf m \<Longrightarrow> bm_wf m' \<Longrightarrow> bm_get m = bm_get m' \<Longrightarrow> m = m'"
proof (rule map_sorted_distinct_set_unique)
  assume wf: "bm_wf m" "bm_wf m'" and eq: "bm_get m = bm_get m'"
  have "(k, v) \<in> set m \<longleftrightarrow> (k, v) \<in> set m'" for k v
    using bm_get_set [OF wf(1), of k v] bm_get_set [OF wf(2), of k v] eq by simp
  then show "set m = set m'" by auto
  show "inj_on fst (set m \<union> set m')"
    using \<open>set m = set m'\<close> bm_wf_distinct [OF wf(1)] by (simp add: distinct_map)
qed (use bm_wf_distinct in \<open>auto simp: bm_wf_def strict_sorted_iff\<close>)

end
