(* ===== verification/Point_Coalesce.thy ===== *)
theory Point_Coalesce
  imports Ordered_Map
begin

text \<open>
  Points and the merging of partial writes (\<open>domain/point.rs\<close>, \<open>domain/wal.rs\<close>,
  \<open>domain/point_coalesce.rs\<close>). Lines of a write that share timestamp and tags become one point
  that has the last value written for each field. The code finds the lines of a point through
  hash buckets; the hash (\<open>DefaultHasher\<close>, whose algorithm the standard library leaves open) is a
  parameter, and the theorems hold for every hash, collisions included.
\<close>

section \<open>Points\<close>

type_synonym i64 = "64 word"

text \<open>A float is its 64 bits.\<close>

datatype field_value =
    Float u64
  | Integer i64
  | UInteger u64
  | String string
  | Boolean bool

definition type_discriminant :: "field_value \<Rightarrow> u8" where
  "type_discriminant v = (case v of Float _ \<Rightarrow> 0 | Integer _ \<Rightarrow> 1 | UInteger _ \<Rightarrow> 2 | String _ \<Rightarrow> 3 | Boolean _ \<Rightarrow> 4)"

definition type_name :: "field_value \<Rightarrow> string" where
  "type_name v = (case v of Float _ \<Rightarrow> ''float'' | Integer _ \<Rightarrow> ''integer'' | UInteger _ \<Rightarrow> ''unsigned''
     | String _ \<Rightarrow> ''string'' | Boolean _ \<Rightarrow> ''boolean'')"

definition type_name_from_discriminant :: "u8 \<Rightarrow> string" where
  "type_name_from_discriminant d =
     (if d = 0 then ''float'' else if d = 1 then ''integer'' else if d = 2 then ''unsigned''
      else if d = 3 then ''string'' else if d = 4 then ''boolean'' else ''unknown'')"

record point =
  pt_measurement :: string
  pt_tags :: "(string, string) btree_map"
  pt_fields :: "(string, field_value) btree_map"
  pt_timestamp :: i64

type_synonym instant = "i64 \<times> (string, string) btree_map"

type_synonym instant_hash = "i64 \<Rightarrow> (string, string) btree_map \<Rightarrow> u64"

section \<open>Groups of indices\<close>

definition series_instant_hash :: "instant_hash \<Rightarrow> point \<Rightarrow> u64" where
  "series_instant_hash hasher p = hasher (pt_timestamp p) (pt_tags p)"

definition same_series_instant :: "point \<Rightarrow> point \<Rightarrow> bool" where
  "same_series_instant a b = (pt_timestamp a = pt_timestamp b \<and> pt_tags a = pt_tags b)"

fun plan_loop :: "instant_hash \<Rightarrow> point list \<Rightarrow> nat list \<Rightarrow> nat list list \<Rightarrow> (u64, nat list) hash_map \<Rightarrow> nat list list" where
  "plan_loop hasher points [] groups buckets = groups"
| "plan_loop hasher points (i # idxs) groups buckets =
     (let p = points ! i;
          h = series_instant_hash hasher p;
          bucket = (case hm_get buckets h of None \<Rightarrow> [] | Some b \<Rightarrow> b)
      in case find (\<lambda>g. same_series_instant (points ! (groups ! g ! 0)) p) bucket of
           Some g \<Rightarrow>
             plan_loop hasher points idxs (groups[g := groups ! g @ [i]]) (hm_insert h bucket buckets)
         | None \<Rightarrow>
             (let g = length groups mod 2 ^ 32
              in plan_loop hasher points idxs (groups @ [[i]]) (hm_insert h (bucket @ [g]) buckets)))"

definition coalesce_plan_indexed :: "instant_hash \<Rightarrow> point list \<Rightarrow> nat list \<Rightarrow> nat list list option" where
  "coalesce_plan_indexed hasher points idxs =
     (let groups = plan_loop hasher points idxs [] []
      in if length groups = length idxs then None else Some groups)"

definition coalesce_plan :: "instant_hash \<Rightarrow> point list \<Rightarrow> nat list list option" where
  "coalesce_plan hasher points = coalesce_plan_indexed hasher points [0..<length points mod 2 ^ 32]"

section \<open>Merging\<close>

definition insert_fields :: "(string, field_value) btree_map \<Rightarrow> (string, field_value) btree_map \<Rightarrow> (string, field_value) btree_map" where
  "insert_fields src base = fold (\<lambda>(k, v). bm_insert k v) src base"

definition merge_point_group :: "point list \<Rightarrow> nat list \<Rightarrow> point" where
  "merge_point_group points grp =
     (let base = points ! (grp ! 0)
      in base\<lparr>pt_fields := fold (\<lambda>idx. insert_fields (pt_fields (points ! idx))) (tl grp) (pt_fields base)\<rparr>)"

definition coalesce_points_and_origins ::
    "instant_hash \<Rightarrow> point list \<Rightarrow> u64 list \<Rightarrow> (point list \<times> u64 list) option" where
  "coalesce_points_and_origins hasher points origins =
     (case coalesce_plan hasher points of
        None \<Rightarrow> None
      | Some groups \<Rightarrow> Some (map (merge_point_group points) groups, map (\<lambda>g. origins ! last g) groups))"

definition group_by_measurement :: "point list \<Rightarrow> (string, nat list) btree_map" where
  "group_by_measurement points =
     fold (\<lambda>(i, p). bm_update (pt_measurement p) [] (\<lambda>is. is @ [i mod 2 ^ 32])) (enumerate 0 points) []"

definition group_and_coalesce_by_measurement :: "instant_hash \<Rightarrow> point list \<Rightarrow> (string \<times> point list) list" where
  "group_and_coalesce_by_measurement hasher points =
     map (\<lambda>(m, idxs).
            (m, case coalesce_plan_indexed hasher points idxs of
                  None \<Rightarrow> map (\<lambda>i. points ! i) idxs
                | Some groups \<Rightarrow> map (merge_point_group points) groups))
       (group_by_measurement points)"

section \<open>The specification of merging\<close>

definition instant :: "point \<Rightarrow> instant" where
  "instant p = (pt_timestamp p, pt_tags p)"

definition firsts :: "'a list \<Rightarrow> 'a list" where
  "firsts xs = rev (remdups (rev xs))"

fun merge_points :: "point list \<Rightarrow> point" where
  "merge_points (p # ps) = p\<lparr>pt_fields := fold (\<lambda>q. insert_fields (pt_fields q)) ps (pt_fields p)\<rparr>"
| "merge_points [] = undefined"

definition coalesce_spec :: "point list \<Rightarrow> point list" where
  "coalesce_spec ps = map (\<lambda>k. merge_points (filter (\<lambda>p. instant p = k) ps)) (firsts (map instant ps))"

definition last_write :: "point list \<Rightarrow> instant \<Rightarrow> string \<Rightarrow> field_value option" where
  "last_write ps k f =
     fold (\<lambda>p acc. if instant p = k then (case bm_get (pt_fields p) f of None \<Rightarrow> acc | Some v \<Rightarrow> Some v) else acc)
       ps None"

definition points_wf :: "point list \<Rightarrow> bool" where
  "points_wf ps \<longleftrightarrow> (\<forall>p\<in>set ps. bm_wf (pt_fields p) \<and> bm_wf (pt_tags p))"

section \<open>Grouping is by instant, whatever the hash\<close>

lemma same_instant: "same_series_instant a b \<longleftrightarrow> instant a = instant b"
  by (simp add: same_series_instant_def instant_def)

lemma firsts_Nil [simp]: "firsts [] = []"
  by (simp add: firsts_def)

lemma firsts_snoc: "firsts (xs @ [x]) = (if x \<in> set xs then firsts xs else firsts xs @ [x])"
  by (simp add: firsts_def)

lemma firsts_set [simp]: "set (firsts xs) = set xs" and firsts_distinct [simp]: "distinct (firsts xs)"
  by (simp_all add: firsts_def)

lemma firsts_distinct_id: "distinct xs \<Longrightarrow> firsts xs = xs"
  by (simp add: firsts_def distinct_remdups_id)

lemma length_firsts: "length (firsts xs) = length xs \<longleftrightarrow> distinct xs"
proof -
  have "length (remdups (rev xs)) = length (rev xs) \<longleftrightarrow> distinct (rev xs)"
    by (simp only: length_remdups_eq remdups_id_iff_distinct)
  then show ?thesis by (simp only: firsts_def length_rev distinct_rev)
qed

lemma find_unique:
  assumes "g \<in> set xs" and "P g" and "\<And>g'. g' \<in> set xs \<Longrightarrow> P g' \<Longrightarrow> g' = g"
  shows "find P xs = Some g"
proof (cases "find P xs")
  case None
  with assms(1,2) show ?thesis by (auto simp: find_None_iff)
next
  case (Some g')
  then have "g' \<in> set xs" "P g'" by (auto simp: find_Some_iff)
  with assms(3) Some show ?thesis by simp
qed

definition groups_of :: "point list \<Rightarrow> nat list \<Rightarrow> nat list list" where
  "groups_of points idxs =
     map (\<lambda>k. filter (\<lambda>i. instant (points ! i) = k) idxs) (firsts (map (\<lambda>i. instant (points ! i)) idxs))"

definition buckets_ok :: "instant_hash \<Rightarrow> instant list \<Rightarrow> (u64, nat list) hash_map \<Rightarrow> bool" where
  "buckets_ok hasher ks buckets \<longleftrightarrow> hm_wf buckets \<and>
     (\<forall>h. (case hm_get buckets h of None \<Rightarrow> [] | Some b \<Rightarrow> b) =
        filter (\<lambda>g. hasher (fst (ks ! g)) (snd (ks ! g)) = h) [0..<length ks])"

lemma groups_of_snoc_old:
  assumes g: "firsts (map (\<lambda>i. instant (points ! i)) seen) ! g = instant (points ! i)"
    and len: "g < length (firsts (map (\<lambda>i. instant (points ! i)) seen))"
  shows "(groups_of points seen)[g := groups_of points seen ! g @ [i]] = groups_of points (seen @ [i])"
proof -
  let ?ks = "firsts (map (\<lambda>i. instant (points ! i)) seen)"
  have "instant (points ! i) \<in> set ?ks" using nth_mem [OF len] by (simp add: g)
  then have ks: "firsts (map (\<lambda>i. instant (points ! i)) (seen @ [i])) = ?ks" by (auto simp: firsts_snoc)
  have "instant (points ! i) = ?ks ! j \<longleftrightarrow> j = g" if "j < length ?ks" for j
    using nth_eq_iff_index_eq [OF firsts_distinct that len] g by auto
  then show ?thesis
    unfolding groups_of_def ks using len by (intro nth_equalityI) (auto simp: nth_list_update g)
qed

lemma groups_of_snoc_new:
  assumes "instant (points ! i) \<notin> set (map (\<lambda>i. instant (points ! i)) seen)"
  shows "groups_of points seen @ [[i]] = groups_of points (seen @ [i])"
proof -
  have "filter (\<lambda>j. instant (points ! j) = instant (points ! i)) seen = []"
    unfolding filter_empty_conv using assms by (auto simp: image_iff)
  with assms show ?thesis by (auto simp: groups_of_def firsts_snoc image_iff intro!: filter_cong)
qed

lemma plan_loop_groups:
  assumes "length seen + length idxs < 2 ^ 32"
    and "buckets_ok hasher (firsts (map (\<lambda>i. instant (points ! i)) seen)) buckets"
  shows "plan_loop hasher points idxs (groups_of points seen) buckets = groups_of points (seen @ idxs)"
  using assms
proof (induction idxs arbitrary: seen buckets)
  case (Cons i idxs)
  let ?inst = "\<lambda>i. instant (points ! i)"
  let ?ks = "firsts (map ?inst seen)"
  let ?h = "series_instant_hash hasher (points ! i)"
  let ?b = "case hm_get buckets ?h of None \<Rightarrow> [] | Some b \<Rightarrow> b"
  have len: "length ?ks = length (groups_of points seen)" by (simp add: groups_of_def)
  have wf: "hm_wf buckets" and b: "?b = filter (\<lambda>g. hasher (fst (?ks ! g)) (snd (?ks ! g)) = ?h) [0..<length ?ks]"
    using Cons.prems(2) by (simp_all add: buckets_ok_def)
  have rep: "?inst (groups_of points seen ! g ! 0) = ?ks ! g" if g: "g < length ?ks" for g
  proof -
    let ?grp = "filter (\<lambda>j. ?inst j = ?ks ! g) seen"
    have "?ks ! g \<in> set (map ?inst seen)" using nth_mem [OF g] by simp
    then have "?grp \<noteq> []" by (auto simp: filter_empty_conv)
    then have "?grp ! 0 \<in> set ?grp" by (intro nth_mem) simp
    then show ?thesis using g by (simp add: groups_of_def)
  qed
  have hash: "hasher (fst (?inst i)) (snd (?inst i)) = ?h"
    by (simp add: series_instant_hash_def instant_def)
  have IH: "plan_loop hasher points idxs (groups_of points (seen @ [i])) bs = groups_of points (seen @ i # idxs)"
    if "buckets_ok hasher (firsts (map ?inst (seen @ [i]))) bs" for bs
    using Cons.IH [OF _ that] Cons.prems(1) by simp
  show ?case
  proof (cases "?inst i \<in> set ?ks")
    case True
    then obtain g where g: "g < length ?ks" "?ks ! g = ?inst i" by (metis in_set_conv_nth)
    have "find (\<lambda>g. same_series_instant (points ! (groups_of points seen ! g ! 0)) (points ! i)) ?b = Some g"
    proof (rule find_unique)
      show "g \<in> set ?b" unfolding b using g hash by simp
      show "same_series_instant (points ! (groups_of points seen ! g ! 0)) (points ! i)"
        using rep [OF g(1)] g(2) by (simp add: same_instant)
    next
      fix g'
      assume "g' \<in> set ?b" "same_series_instant (points ! (groups_of points seen ! g' ! 0)) (points ! i)"
      then have "g' < length ?ks" "?ks ! g' = ?inst i" unfolding b using rep by (auto simp: same_instant)
      then show "g' = g" using g nth_eq_iff_index_eq [OF firsts_distinct, of g' "map ?inst seen" g] by simp
    qed
    moreover have "buckets_ok hasher (firsts (map ?inst (seen @ [i]))) (hm_insert ?h ?b buckets)"
      using Cons.prems(2) True by (auto simp: buckets_ok_def hm.wf_ins hm.get_ins firsts_snoc)
    ultimately show ?thesis
      using IH groups_of_snoc_old [OF g(2,1)] by (simp add: Let_def)
  next
    case False
    have "find (\<lambda>g. same_series_instant (points ! (groups_of points seen ! g ! 0)) (points ! i)) ?b = None"
      unfolding find_None_iff b using False rep nth_mem by (fastforce simp: same_instant)
    moreover have "length ?ks \<le> length seen"
      using length_remdups_leq [of "rev (map ?inst seen)"] by (simp add: firsts_def)
    then have "length (groups_of points seen) mod 2 ^ 32 = length ?ks" using Cons.prems(1) len by simp
    moreover have "buckets_ok hasher (firsts (map ?inst (seen @ [i]))) (hm_insert ?h (?b @ [length ?ks]) buckets)"
      using Cons.prems(2) False hash
      by (auto simp: buckets_ok_def hm.wf_ins hm.get_ins firsts_snoc nth_append intro!: filter_cong split: option.split)
    ultimately show ?thesis
      using IH groups_of_snoc_new [of points i seen] False by (simp add: Let_def)
  qed
qed simp

lemma plan_groups:
  assumes "length idxs < 2 ^ 32"
  shows "coalesce_plan_indexed hasher points idxs =
    (if distinct (map (\<lambda>i. instant (points ! i)) idxs) then None else Some (groups_of points idxs))"
proof -
  have "buckets_ok hasher (firsts (map (\<lambda>i. instant (points ! i)) [])) []" by (simp add: buckets_ok_def)
  from plan_loop_groups [of "[]" idxs hasher points "[]", OF _ this] assms
  have "plan_loop hasher points idxs [] [] = groups_of points idxs" by (simp add: groups_of_def)
  moreover have "length (groups_of points idxs) = length idxs \<longleftrightarrow> distinct (map (\<lambda>i. instant (points ! i)) idxs)"
    using length_firsts [of "map (\<lambda>i. instant (points ! i)) idxs"] by (simp add: groups_of_def)
  ultimately show ?thesis by (simp add: coalesce_plan_indexed_def Let_def)
qed

section \<open>What merging gives\<close>

lemma merge_point_group_eq: "grp \<noteq> [] \<Longrightarrow> merge_point_group points grp = merge_points (map ((!) points) grp)"
  by (cases grp) (simp_all add: merge_point_group_def Let_def fold_map comp_def)

lemma merged_groups: "map (merge_point_group points) (groups_of points idxs) = coalesce_spec (map ((!) points) idxs)"
proof -
  have "merge_point_group points (filter (\<lambda>i. instant (points ! i) = k) idxs) =
      merge_points (filter (\<lambda>p. instant p = k) (map ((!) points) idxs))"
    if "k \<in> set (map (\<lambda>i. instant (points ! i)) idxs)" for k
  proof -
    from that have "filter (\<lambda>i. instant (points ! i) = k) idxs \<noteq> []" by (auto simp: filter_empty_conv)
    then show ?thesis by (simp add: merge_point_group_eq filter_map comp_def)
  qed
  then show ?thesis by (auto simp: groups_of_def coalesce_spec_def comp_def)
qed

lemma coalesce_spec_distinct:
  assumes "distinct (map instant ps)"
  shows "coalesce_spec ps = ps"
proof -
  have "filter (\<lambda>q. instant q = instant p) ps = [p]" if "p \<in> set ps" for p
    using that assms
  proof (induction ps)
    case (Cons q ps)
    have none: "filter (\<lambda>r. instant r = instant q) ps = []"
      unfolding filter_empty_conv using Cons.prems(2) by (auto simp: image_iff)
    show ?case
    proof (cases "p = q")
      case True
      with none show ?thesis by simp
    next
      case False
      with Cons show ?thesis by auto
    qed
  qed simp
  then show ?thesis
    by (simp add: coalesce_spec_def firsts_distinct_id [OF assms] comp_def map_idI)
qed

lemma fold_insert_fields:
  "bm_wf m \<Longrightarrow> distinct (map fst src) \<Longrightarrow>
   bm_wf (fold (\<lambda>(k, v). bm_insert k v) src m) \<and>
   bm_get (fold (\<lambda>(k, v). bm_insert k v) src m) f = (case map_of src f of None \<Rightarrow> bm_get m f | Some v \<Rightarrow> Some v)"
proof (induction src arbitrary: m)
  case (Cons x src)
  obtain k v where x: "x = (k, v)" by fastforce
  then have "map_of src k = None" using Cons.prems(2) by (simp add: map_of_eq_None_iff)
  with Cons.IH [of "bm_insert k v m"] Cons.prems x show ?case
    by (auto simp: bm.wf_ins bm.get_ins split: option.split)
qed simp

lemma insert_fields_get:
  assumes "bm_wf m" and "bm_wf src"
  shows "bm_wf (insert_fields src m)"
    and "bm_get (insert_fields src m) f = (case bm_get src f of None \<Rightarrow> bm_get m f | Some v \<Rightarrow> Some v)"
  using fold_insert_fields [OF assms(1) bm_wf_distinct [OF assms(2)]]
  by (simp_all add: insert_fields_def bm_get_def [of src])

lemma folded_fields_get:
  assumes "\<forall>q\<in>set ps. bm_wf (pt_fields q)" and "bm_wf m"
  shows "bm_wf (fold (\<lambda>q. insert_fields (pt_fields q)) ps m) \<and>
    bm_get (fold (\<lambda>q. insert_fields (pt_fields q)) ps m) f =
      fold (\<lambda>p acc. case bm_get (pt_fields p) f of None \<Rightarrow> acc | Some v \<Rightarrow> Some v) ps (bm_get m f)"
  using assms by (induction ps arbitrary: m) (auto simp: insert_fields_get)

lemma last_write_filter:
  "last_write ps k f =
     fold (\<lambda>p acc. case bm_get (pt_fields p) f of None \<Rightarrow> acc | Some v \<Rightarrow> Some v) (filter (\<lambda>p. instant p = k) ps) None"
proof -
  have "fold (\<lambda>p acc. if instant p = k then (case bm_get (pt_fields p) f of None \<Rightarrow> acc | Some v \<Rightarrow> Some v) else acc) ps a =
      fold (\<lambda>p acc. case bm_get (pt_fields p) f of None \<Rightarrow> acc | Some v \<Rightarrow> Some v) (filter (\<lambda>p. instant p = k) ps) a" for a
    by (induction ps arbitrary: a) auto
  then show ?thesis by (simp add: last_write_def)
qed

lemma merged_point:
  assumes wf: "points_wf ps" and k: "k \<in> set (map instant ps)" and q: "q = merge_points (filter (\<lambda>p. instant p = k) ps)"
  shows "instant q = k" and "bm_wf (pt_fields q)" and "bm_get (pt_fields q) f = last_write ps k f"
    and "\<exists>p\<in>set ps. pt_measurement q = pt_measurement p"
proof -
  obtain p rest where g: "filter (\<lambda>p. instant p = k) ps = p # rest"
    using k by (cases "filter (\<lambda>p. instant p = k) ps") (auto simp: filter_empty_conv)
  then have mem: "p \<in> set ps" "instant p = k" "set rest \<subseteq> set ps"
    using filter_eq_ConsD [OF g] set_filter [of "\<lambda>p. instant p = k" ps] by force+
  then have F: "bm_wf (pt_fields q)" "bm_get (pt_fields q) f =
      fold (\<lambda>p acc. case bm_get (pt_fields p) f of None \<Rightarrow> acc | Some v \<Rightarrow> Some v) rest (bm_get (pt_fields p) f)"
    using folded_fields_get [of rest "pt_fields p" f] wf by (auto simp: q g points_wf_def)
  show "instant q = k" unfolding q g using mem(2) by (simp add: instant_def)
  show "bm_wf (pt_fields q)" by (rule F)
  show "bm_get (pt_fields q) f = last_write ps k f"
    by (simp add: F(2) last_write_filter g split: option.split)
  show "\<exists>p\<in>set ps. pt_measurement q = pt_measurement p" using mem by (auto simp: q g)
qed

lemma coalesce_spec_points:
  assumes "points_wf ps"
  shows "map instant (coalesce_spec ps) = firsts (map instant ps)"
    and "q \<in> set (coalesce_spec ps) \<Longrightarrow> bm_get (pt_fields q) f = last_write ps (instant q) f"
proof -
  show "map instant (coalesce_spec ps) = firsts (map instant ps)"
    unfolding coalesce_spec_def map_map
  proof (rule map_idI)
    fix k
    assume "k \<in> set (firsts (map instant ps))"
    then show "(instant \<circ> (\<lambda>k. merge_points (filter (\<lambda>p. instant p = k) ps))) k = k"
      using merged_point(1) [OF assms _ refl, of k] by simp
  qed
  assume "q \<in> set (coalesce_spec ps)"
  then obtain k where "k \<in> set (map instant ps)" and q: "q = merge_points (filter (\<lambda>p. instant p = k) ps)"
    unfolding coalesce_spec_def by auto
  from merged_point(1,3) [OF assms this] show "bm_get (pt_fields q) f = last_write ps (instant q) f" by simp
qed

lemma map_of_keyed: "map_of (map (\<lambda>k. (k, f k)) ks) k = (if k \<in> set ks then Some (f k) else None)"
  by (induction ks) auto

lemma enumerate_snoc: "enumerate n (xs @ [x]) = enumerate n xs @ [(n + length xs, x)]"
  by (induction xs arbitrary: n) simp_all

lemma group_by_get:
  assumes "length points < 2 ^ 32"
  shows "bm_wf (group_by_measurement points) \<and>
    bm_get (group_by_measurement points) m =
      (if m \<in> pt_measurement ` set points
       then Some (filter (\<lambda>i. pt_measurement (points ! i) = m) [0..<length points]) else None)"
  using assms
proof (induction points arbitrary: m rule: rev_induct)
  case Nil
  show ?case by (simp add: group_by_measurement_def)
next
  case (snoc p ps)
  let ?g = "group_by_measurement ps"
  have step: "group_by_measurement (ps @ [p]) = bm_update (pt_measurement p) [] (\<lambda>is. is @ [length ps]) ?g"
    using snoc.prems by (simp add: group_by_measurement_def enumerate_snoc)
  have IH: "bm_wf ?g \<and> bm_get ?g m' = (if m' \<in> pt_measurement ` set ps
      then Some (filter (\<lambda>i. pt_measurement (ps ! i) = m') [0..<length ps]) else None)" for m'
    using snoc by simp
  have old: "filter (\<lambda>i. pt_measurement ((ps @ [p]) ! i) = m') [0..<length ps] =
      filter (\<lambda>i. pt_measurement (ps ! i) = m') [0..<length ps]" for m'
    by (rule filter_cong) (simp_all add: nth_append)
  have none: "filter (\<lambda>i. pt_measurement (ps ! i) = m') [0..<length ps] = []" if "m' \<notin> pt_measurement ` set ps" for m'
    unfolding filter_empty_conv using that nth_mem by fastforce
  show ?case
    unfolding step using IH none by (auto simp: bm_wf_update bm_get_update old)
qed

lemma group_by_measurement_eq:
  assumes "length points < 2 ^ 32"
  shows "group_by_measurement points =
    map (\<lambda>m. (m, filter (\<lambda>i. pt_measurement (points ! i) = m) [0..<length points]))
      (sorted_list_of_set (pt_measurement ` set points))"
proof (rule bm_eqI)
  note G = group_by_get [OF assms]
  show "bm_wf (group_by_measurement points)" using G by blast
  show "bm_wf (map (\<lambda>m. (m, filter (\<lambda>i. pt_measurement (points ! i) = m) [0..<length points]))
      (sorted_list_of_set (pt_measurement ` set points)))"
    by (simp add: bm_wf_def comp_def)
  show "bm_get (group_by_measurement points) =
      bm_get (map (\<lambda>m. (m, filter (\<lambda>i. pt_measurement (points ! i) = m) [0..<length points]))
        (sorted_list_of_set (pt_measurement ` set points)))"
    using G by (auto simp: fun_eq_iff bm_get_def map_of_keyed)
qed

lemma filter_index: "j < n \<Longrightarrow> filter (\<lambda>i. i = j) [0..<n] = [j]"
  by (induction n) (auto simp: less_Suc_eq filter_empty_conv)

lemma coalesce_plan_groups:
  assumes "length points < 2 ^ 32"
  shows "map (\<lambda>i. instant (points ! i)) [0..<length points] = map instant points"
    and "coalesce_plan hasher points =
      (if distinct (map instant points) then None else Some (groups_of points [0..<length points]))"
proof -
  show inst: "map (\<lambda>i. instant (points ! i)) [0..<length points] = map instant points"
    by (metis (no_types, lifting) comp_apply map_map map_eq_conv map_nth)
  show "coalesce_plan hasher points = (if distinct (map instant points) then None else Some (groups_of points [0..<length points]))"
    using plan_groups [of "[0..<length points]" hasher points] assms inst by (simp add: coalesce_plan_def)
qed

lemma coalesced_points:
  assumes "length points < 2 ^ 32" and "length origins = length points"
    and "result = (case coalesce_points_and_origins hasher points origins of None \<Rightarrow> (points, origins) | Some r \<Rightarrow> r)"
  shows "fst result = coalesce_spec points" and "length (snd result) = length (fst result)"
  using merged_groups [of points "[0..<length points]"] coalesce_spec_distinct [of points] assms(2)
  by (auto simp: assms(3) coalesce_points_and_origins_def coalesce_plan_groups(2) [OF assms(1)] map_nth
      dest: arg_cong [where f = length])

section \<open>Properties\<close>

text \<open>
  C24. Merging the lines of a measurement, for every hash: the result has one point per timestamp
  and tag set, in the order of first appearance; each of its fields has the value of the last
  line that wrote it; and the point's origin is that of its last line.
\<close>

theorem coalesce_merges_by_instant:
  assumes "length points < 2 ^ 32" and "points_wf points"
    and "result = (case coalesce_points_and_origins hasher points origins of None \<Rightarrow> (points, origins) | Some r \<Rightarrow> r)"
    and "length origins = length points"
  shows "map instant (fst result) = firsts (map instant points)
    \<and> (\<forall>q\<in>set (fst result). \<forall>f. bm_get (pt_fields q) f = last_write points (instant q) f)
    \<and> snd result = map (\<lambda>k. origins ! last (filter (\<lambda>i. instant (points ! i) = k) [0..<length points]))
        (firsts (map instant points))"
proof -
  let ?idxs = "[0..<length points]"
  note inst = coalesce_plan_groups(1) [OF assms(1)] and plan = coalesce_plan_groups(2) [OF assms(1), of hasher]
  have "fst result = coalesce_spec points" by (rule coalesced_points(1) [OF assms(1,4,3)])
  moreover have "snd result = map (\<lambda>k. origins ! last (filter (\<lambda>i. instant (points ! i) = k) ?idxs)) (firsts (map instant points))"
  proof (cases "distinct (map instant points)")
    case True
    have "filter (\<lambda>i. instant (points ! i) = instant (points ! j)) ?idxs = [j]" if "j < length points" for j
    proof -
      have "instant (points ! i) = instant (points ! j) \<longleftrightarrow> i = j" if "i < length points" for i
        using nth_eq_iff_index_eq [OF True, of i j] that \<open>j < length points\<close> by simp
      then have "filter (\<lambda>i. instant (points ! i) = instant (points ! j)) ?idxs = filter (\<lambda>i. i = j) ?idxs"
        by (intro filter_cong) auto
      then show ?thesis using filter_index [OF that] by simp
    qed
    with True plan show ?thesis
      by (intro nth_equalityI) (auto simp: assms(3,4) coalesce_points_and_origins_def firsts_distinct_id)
  next
    case False
    with plan inst show ?thesis by (simp add: assms(3) coalesce_points_and_origins_def groups_of_def comp_def)
  qed
  ultimately show ?thesis using coalesce_spec_points [OF assms(2)] by simp
qed

text \<open>Two lines of one point, with a hash that always collides.\<close>

definition demo_lines :: "point list" where
  "demo_lines =
     [\<lparr>pt_measurement = ''cpu'', pt_tags = [(''host'', ''a'')], pt_fields = [(''x'', Integer 1), (''y'', Integer 1)], pt_timestamp = 5\<rparr>,
      \<lparr>pt_measurement = ''cpu'', pt_tags = [(''host'', ''a'')], pt_fields = [(''x'', Integer 2)], pt_timestamp = 5\<rparr>]"

theorem coalesce_merges_by_instant_witness:
  "map instant (fst (the (coalesce_points_and_origins (\<lambda>_ _. 0) demo_lines [1, 2]))) = firsts (map instant demo_lines)
   \<and> snd (the (coalesce_points_and_origins (\<lambda>_ _. 0) demo_lines [1, 2])) = [2]"
  using coalesce_merges_by_instant [of demo_lines
      "the (coalesce_points_and_origins (\<lambda>_ _. 0) demo_lines [1, 2])" "[1, 2]" "\<lambda>_ _. 0"]
  by (simp add: demo_lines_def points_wf_def bm_wf_def coalesce_points_and_origins_def coalesce_plan_def
      coalesce_plan_indexed_def series_instant_hash_def same_series_instant_def Let_def upt_rec hm_get_def hm_insert_def)

text \<open>
  Grouping a batch by measurement and merging within each is, measurement by measurement in
  order of name, merging the points of that measurement alone.
\<close>

theorem group_and_coalesce_exact:
  assumes "length points < 2 ^ 32"
  shows "group_and_coalesce_by_measurement hasher points =
    map (\<lambda>m. (m, coalesce_spec (filter (\<lambda>p. pt_measurement p = m) points)))
      (sorted_list_of_set (pt_measurement ` set points))"
proof -
  have "(case coalesce_plan_indexed hasher points idxs of None \<Rightarrow> map ((!) points) idxs
      | Some groups \<Rightarrow> map (merge_point_group points) groups) = coalesce_spec (map ((!) points) idxs)"
    if "length idxs < 2 ^ 32" for idxs
    using plan_groups [OF that, of hasher points] coalesce_spec_distinct [of "map ((!) points) idxs"]
    by (auto simp: merged_groups comp_def)
  moreover have "length (filter (\<lambda>i. pt_measurement (points ! i) = m) [0..<length points]) < 2 ^ 32" for m
    using assms length_filter_le [of "\<lambda>i. pt_measurement (points ! i) = m" "[0..<length points]"] by simp
  moreover have "map ((!) points) (filter (\<lambda>i. pt_measurement (points ! i) = m) [0..<length points]) =
      filter (\<lambda>p. pt_measurement p = m) points" for m
    using filter_map [of "\<lambda>p. pt_measurement p = m" "(!) points" "[0..<length points]"] by (simp add: map_nth comp_def)
  ultimately show ?thesis
    by (simp add: group_and_coalesce_by_measurement_def group_by_measurement_eq [OF assms] comp_def)
qed

theorem group_and_coalesce_exact_witness:
  "group_and_coalesce_by_measurement (\<lambda>_ _. 0) demo_lines =
    map (\<lambda>m. (m, coalesce_spec (filter (\<lambda>p. pt_measurement p = m) demo_lines)))
      (sorted_list_of_set (pt_measurement ` set demo_lines))"
  by (rule group_and_coalesce_exact) (simp add: demo_lines_def)

end
