(* ===== verification/Wal_Codec.thy ===== *)
theory Wal_Codec
  imports Byte_Codec Point_Coalesce
begin

text \<open>
  The format of a write-ahead log value (\<open>adapters/wal/wal_ipc.rs\<close>, \<open>domain/prepared_wal.rs\<close>):
  either one serialized entry, or a framed slot of Arrow batches with the entry at its end. The
  Arrow stream format and the entry serializer (\<open>bincode\<close>) are not part of the sources: they are
  the parameters \<open>arrow\<close> and \<open>bin\<close>, a pair of functions each, and \<open>serializer_ok\<close> is what the framing
  needs of them. The theorem is the round trip of the frame, with what the narrowing casts do to
  a row count.
\<close>

section \<open>Bytes\<close>

definition le_bytes :: "nat \<Rightarrow> nat \<Rightarrow> u8 list" where
  "le_bytes k n = rev (map word_of_nat (digits_be 256 k n))"

definition le_value :: "u8 list \<Rightarrow> nat" where
  "le_value bs = digits_value 256 (map unat (rev bs))"

definition as_bytes :: "string \<Rightarrow> u8 list" where
  "as_bytes s = map of_char s"

definition continuation :: "u8 \<Rightarrow> bool" where
  "continuation b = (0x80 \<le> b \<and> b \<le> 0xBF)"

fun utf8_valid :: "u8 list \<Rightarrow> bool" where
  "utf8_valid [] = True"
| "utf8_valid (b # bs) =
     (if b < 0x80 then utf8_valid bs
      else if 0xC2 \<le> b \<and> b \<le> 0xDF then
        (case bs of c # r \<Rightarrow> continuation c \<and> utf8_valid r | _ \<Rightarrow> False)
      else if 0xE0 \<le> b \<and> b \<le> 0xEF then
        (case bs of
           c # d # r \<Rightarrow> continuation c \<and> continuation d \<and> (b = 0xE0 \<longrightarrow> 0xA0 \<le> c) \<and> (b = 0xED \<longrightarrow> c \<le> 0x9F) \<and> utf8_valid r
         | _ \<Rightarrow> False)
      else if 0xF0 \<le> b \<and> b \<le> 0xF4 then
        (case bs of
           c # d # e # r \<Rightarrow> continuation c \<and> continuation d \<and> continuation e \<and> (b = 0xF0 \<longrightarrow> 0x90 \<le> c)
             \<and> (b = 0xF4 \<longrightarrow> c \<le> 0x8F) \<and> utf8_valid r
         | _ \<Rightarrow> False)
      else False)"

definition string_of_bytes :: "u8 list \<Rightarrow> string" where
  "string_of_bytes bs = map (\<lambda>b. char_of (unat b)) bs"

section \<open>Data\<close>

record wal_entry =
  we_database :: string
  we_retention_policy :: string
  we_points :: "point list"
  we_origin_node_id :: u64

record 'b prepared_measurement_batch =
  pm_measurement :: string
  pm_table_name :: string
  pm_series_table_name :: string
  pm_batch :: 'b
  pm_row_count :: nat
  pm_min_time :: i64
  pm_max_time :: i64
  pm_new_series_batch :: "'b option"

record 'b prepared_wal_slot =
  ps_database :: string
  ps_retention_policy :: string
  ps_origin_node_id :: u64
  ps_measurements :: "'b prepared_measurement_batch list"

datatype wal_format = Bincode | ArrowIpc

datatype wal_error =
    StringTooLong
  | InvalidMagic
  | UnsupportedVersion u8
  | UnexpectedEof
  | InvalidUtf8
  | InvalidLength string nat nat
  | ArrowError string
  | BincodeError string
  | MissingSlot
  | MissingEntry
  | StoreError string
  | InvalidKeyLength nat
  | PatchError string

type_synonym ('x) serializer = "('x \<Rightarrow> string + u8 list) \<times> (u8 list \<Rightarrow> string + 'x)"

section \<open>Writing\<close>

definition magic :: "u8 list" where
  "magic = as_bytes ''HBWA''"

definition version :: u8 where
  "version = 1"

definition write_string :: "string \<Rightarrow> wal_error + u8 list" where
  "write_string s =
     (let bytes = as_bytes s
      in if 65535 < length bytes then Inl StringTooLong
         else Inr (le_bytes 2 (length bytes) @ bytes))"

definition encode_record_batch :: "'b serializer \<Rightarrow> 'b \<Rightarrow> wal_error + u8 list" where
  "encode_record_batch arrow b = wrap_err ArrowError (fst arrow b)"

definition encode_measurement :: "'b serializer \<Rightarrow> 'b prepared_measurement_batch \<Rightarrow> wal_error + u8 list" where
  "encode_measurement arrow m =
     and_then (write_string (pm_measurement m)) (\<lambda>a.
     and_then (write_string (pm_table_name m)) (\<lambda>b.
     and_then (write_string (pm_series_table_name m)) (\<lambda>c.
     and_then (encode_record_batch arrow (pm_batch m)) (\<lambda>fact_ipc.
     and_then (case pm_new_series_batch m of Some sb \<Rightarrow> encode_record_batch arrow sb | None \<Rightarrow> Inr []) (\<lambda>series_ipc.
       Inr (a @ b @ c @ le_bytes 4 (pm_row_count m) @ le_bytes 8 (unat (pm_min_time m)) @ le_bytes 8 (unat (pm_max_time m))
            @ le_bytes 4 (length fact_ipc) @ fact_ipc @ le_bytes 4 (length series_ipc) @ series_ipc))))))"

fun encode_measurements :: "'b serializer \<Rightarrow> 'b prepared_measurement_batch list \<Rightarrow> wal_error + u8 list" where
  "encode_measurements arrow [] = Inr []"
| "encode_measurements arrow (m # ms) =
     and_then (encode_measurement arrow m) (\<lambda>a. and_then (encode_measurements arrow ms) (\<lambda>b. Inr (a @ b)))"

definition encode_prepared_slot ::
    "'b serializer \<Rightarrow> wal_entry serializer \<Rightarrow> 'b prepared_wal_slot \<Rightarrow> wal_entry option \<Rightarrow> wal_error + u8 list" where
  "encode_prepared_slot arrow bin slot legacy_entry =
     and_then (write_string (ps_database slot)) (\<lambda>a.
     and_then (write_string (ps_retention_policy slot)) (\<lambda>b.
     and_then (encode_measurements arrow (ps_measurements slot)) (\<lambda>ms.
     and_then (case legacy_entry of Some e \<Rightarrow> wrap_err BincodeError (fst bin e) | None \<Rightarrow> Inr []) (\<lambda>legacy.
       Inr (magic @ [version] @ a @ b @ le_bytes 8 (unat (ps_origin_node_id slot))
            @ le_bytes 4 (length (ps_measurements slot)) @ ms @ le_bytes 4 (length legacy) @ legacy)))))"

section \<open>Reading\<close>

text \<open>A cursor is the bytes that are left.\<close>

definition read_exact :: "nat \<Rightarrow> u8 list \<Rightarrow> wal_error + u8 list \<times> u8 list" where
  "read_exact n bs = (if length bs < n then Inl UnexpectedEof else Inr (take n bs, drop n bs))"

definition read_le :: "nat \<Rightarrow> u8 list \<Rightarrow> wal_error + nat \<times> u8 list" where
  "read_le k bs = and_then (read_exact k bs) (\<lambda>(buf, bs). Inr (le_value buf, bs))"

definition read_string :: "u8 list \<Rightarrow> wal_error + string \<times> u8 list" where
  "read_string bs =
     and_then (read_le 2 bs) (\<lambda>(len, bs).
     and_then (read_exact len bs) (\<lambda>(buf, bs).
       if utf8_valid buf then Inr (string_of_bytes buf, bs) else Inl InvalidUtf8))"

definition read_block :: "string \<Rightarrow> u8 list \<Rightarrow> wal_error + u8 list \<times> u8 list" where
  "read_block what bs =
     and_then (read_le 4 bs) (\<lambda>(len, bs).
       if length bs < len then Inl (InvalidLength what len (length bs)) else read_exact len bs)"

definition decode_record_batch :: "'b serializer \<Rightarrow> u8 list \<Rightarrow> wal_error + 'b" where
  "decode_record_batch arrow bs = wrap_err ArrowError (snd arrow bs)"

definition decode_measurement :: "'b serializer \<Rightarrow> u8 list \<Rightarrow> wal_error + 'b prepared_measurement_batch \<times> u8 list" where
  "decode_measurement arrow bs =
     and_then (read_string bs) (\<lambda>(measurement, bs).
     and_then (read_string bs) (\<lambda>(table_name, bs).
     and_then (read_string bs) (\<lambda>(series_table_name, bs).
     and_then (read_le 4 bs) (\<lambda>(row_count, bs).
     and_then (read_le 8 bs) (\<lambda>(min_time, bs).
     and_then (read_le 8 bs) (\<lambda>(max_time, bs).
     and_then (read_block ''fact_ipc'' bs) (\<lambda>(fact_ipc, bs).
     and_then (decode_record_batch arrow fact_ipc) (\<lambda>batch.
     and_then (read_block ''series_ipc'' bs) (\<lambda>(series_ipc, bs).
     and_then (if series_ipc = [] then Inr None else and_then (decode_record_batch arrow series_ipc) (\<lambda>b. Inr (Some b))) (\<lambda>new_series.
       Inr (\<lparr>pm_measurement = measurement, pm_table_name = table_name, pm_series_table_name = series_table_name,
             pm_batch = batch, pm_row_count = row_count, pm_min_time = word_of_nat min_time,
             pm_max_time = word_of_nat max_time, pm_new_series_batch = new_series\<rparr>, bs)))))))))))"

fun decode_measurements :: "'b serializer \<Rightarrow> nat \<Rightarrow> u8 list \<Rightarrow> wal_error + 'b prepared_measurement_batch list \<times> u8 list" where
  "decode_measurements arrow 0 bs = Inr ([], bs)"
| "decode_measurements arrow (Suc n) bs =
     and_then (decode_measurement arrow bs) (\<lambda>(m, bs).
     and_then (decode_measurements arrow n bs) (\<lambda>(ms, bs). Inr (m # ms, bs)))"

definition decode_prepared_slot ::
    "'b serializer \<Rightarrow> wal_entry serializer \<Rightarrow> u8 list \<Rightarrow> wal_error + 'b prepared_wal_slot \<times> wal_entry option" where
  "decode_prepared_slot arrow bin bytes =
     (if length bytes < length magic + 1 \<or> take 4 bytes \<noteq> magic then Inl InvalidMagic
      else if bytes ! 4 \<noteq> version then Inl (UnsupportedVersion (bytes ! 4))
      else
        and_then (read_string (drop 5 bytes)) (\<lambda>(database, bs).
        and_then (read_string bs) (\<lambda>(retention_policy, bs).
        and_then (read_le 8 bs) (\<lambda>(origin, bs).
        and_then (read_le 4 bs) (\<lambda>(measurement_count, bs).
        and_then (decode_measurements arrow measurement_count bs) (\<lambda>(measurements, bs).
        and_then (read_block ''legacy entry'' bs) (\<lambda>(legacy, bs).
        and_then (if legacy = [] then Inr None
                  else and_then (wrap_err BincodeError (snd bin legacy)) (\<lambda>e. Inr (Some e))) (\<lambda>legacy_entry.
          Inr (\<lparr>ps_database = database, ps_retention_policy = retention_policy,
                ps_origin_node_id = word_of_nat origin, ps_measurements = measurements\<rparr>, legacy_entry)))))))))"

section \<open>Log values\<close>

definition encode_wal_value ::
    "'b serializer \<Rightarrow> wal_entry serializer \<Rightarrow> wal_format \<Rightarrow> 'b prepared_wal_slot option \<Rightarrow> wal_entry \<Rightarrow> wal_error + u8 list" where
  "encode_wal_value arrow bin fmt slot entry =
     (case fmt of
        Bincode \<Rightarrow> wrap_err BincodeError (fst bin entry)
      | ArrowIpc \<Rightarrow> (case slot of None \<Rightarrow> Inl MissingSlot | Some s \<Rightarrow> encode_prepared_slot arrow bin s (Some entry)))"

definition decode_wal_value ::
    "'b serializer \<Rightarrow> wal_entry serializer \<Rightarrow> wal_format \<Rightarrow> u8 list \<Rightarrow> wal_error + 'b prepared_wal_slot option \<times> wal_entry" where
  "decode_wal_value arrow bin fmt bytes =
     (case fmt of
        Bincode \<Rightarrow> and_then (wrap_err BincodeError (snd bin bytes)) (\<lambda>entry. Inr (None, entry))
      | ArrowIpc \<Rightarrow>
          and_then (decode_prepared_slot arrow bin bytes) (\<lambda>(slot, legacy).
            case legacy of None \<Rightarrow> Inl MissingEntry | Some e \<Rightarrow> Inr (Some slot, e)))"

section \<open>Reading back what was written\<close>

lemma le_bytes_length [simp]: "length (le_bytes k n) = k"
  by (simp add: le_bytes_def)

lemma le_value_bytes [simp]: "le_value (le_bytes k n) = n mod 256 ^ k"
proof -
  have "unat (word_of_nat d :: u8) = d" if "d \<in> set (digits_be 256 k n)" for d
    using digits_be_bound [OF _ that] by (simp add: unsigned_of_nat take_bit_eq_mod)
  then have "map unat (map (word_of_nat :: nat \<Rightarrow> u8) (digits_be 256 k n)) = digits_be 256 k n"
    by (simp add: map_idI)
  then show ?thesis by (simp add: le_value_def le_bytes_def rev_map [symmetric] digits_value_be)
qed

lemma read_exact_append [simp]: "length a = n \<Longrightarrow> read_exact n (a @ rest) = Inr (a, rest)"
  by (simp add: read_exact_def)

lemma read_le_append [simp]: "read_le k (le_bytes k n @ rest) = Inr (n mod 256 ^ k, rest)"
  by (simp add: read_le_def)

lemma string_of_as_bytes [simp]: "string_of_bytes (as_bytes s) = s"
proof -
  have "char_of (unat (of_char c :: u8)) = c" for c
  proof -
    have "(of_char c :: nat) mod 256 = of_char c" by (metis char_of_char of_char_of)
    moreover have "(of_char c :: u8) = word_of_nat (of_char c)" by (simp add: of_char_def)
    ultimately show ?thesis by (simp add: unsigned_of_nat take_bit_eq_mod)
  qed
  then show ?thesis by (simp add: string_of_bytes_def as_bytes_def map_idI)
qed

definition text_ok :: "string \<Rightarrow> bool" where
  "text_ok s \<longleftrightarrow> utf8_valid (as_bytes s)"

lemma read_written_string:
  "write_string s = Inr bs \<Longrightarrow> text_ok s \<Longrightarrow> read_string (bs @ rest) = Inr (s, rest)"
  by (auto simp: write_string_def read_string_def text_ok_def Let_def split: if_splits)

lemma read_written_block:
  "length bs < 2 ^ 32 \<Longrightarrow> read_block what (le_bytes 4 (length bs) @ bs @ rest) = Inr (bs, rest)"
  by (simp add: read_block_def)

lemma wrap_err_simps [simp]: "wrap_err c (Inl e) = Inl (c e)" "wrap_err c (Inr x) = Inr x"
  by (simp_all add: wrap_err_def)

text \<open>What the frame needs of a serializer: it reads back what it wrote, and writes no empty value.\<close>

definition serializer_ok :: "'x serializer \<Rightarrow> bool" where
  "serializer_ok c \<longleftrightarrow> (\<forall>x bs. fst c x = Inr bs \<longrightarrow> snd c bs = Inr x \<and> bs \<noteq> [])"

definition measurement_ok :: "'b serializer \<Rightarrow> 'b prepared_measurement_batch \<Rightarrow> bool" where
  "measurement_ok arrow m \<longleftrightarrow> text_ok (pm_measurement m) \<and> text_ok (pm_table_name m) \<and> text_ok (pm_series_table_name m)
     \<and> (\<forall>b bs. b = pm_batch m \<or> pm_new_series_batch m = Some b \<longrightarrow> fst arrow b = Inr bs \<longrightarrow> length bs < 2 ^ 32)"

definition row_count_u32 :: "'b prepared_measurement_batch \<Rightarrow> 'b prepared_measurement_batch" where
  "row_count_u32 m = m\<lparr>pm_row_count := pm_row_count m mod 2 ^ 32\<rparr>"

lemma decode_encoded_measurement:
  assumes serializer: "serializer_ok arrow" and ok: "measurement_ok arrow m" and enc: "encode_measurement arrow m = Inr bs"
  shows "decode_measurement arrow (bs @ rest) = Inr (row_count_u32 m, rest)"
proof -
  from enc obtain a b c fact ser where w: "write_string (pm_measurement m) = Inr a" "write_string (pm_table_name m) = Inr b"
      "write_string (pm_series_table_name m) = Inr c"
    and f: "fst arrow (pm_batch m) = Inr fact"
    and s: "(case pm_new_series_batch m of Some sb \<Rightarrow> encode_record_batch arrow sb | None \<Rightarrow> Inr []) = Inr ser"
    and bs: "bs = a @ b @ c @ le_bytes 4 (pm_row_count m) @ le_bytes 8 (unat (pm_min_time m)) @ le_bytes 8 (unat (pm_max_time m))
        @ le_bytes 4 (length fact) @ fact @ le_bytes 4 (length ser) @ ser"
    unfolding encode_measurement_def by (auto elim!: and_then_InrE simp: encode_record_batch_def)
  have len: "length fact < 2 ^ 32" "length ser < 2 ^ 32"
    using ok f s by (auto simp: measurement_ok_def encode_record_batch_def split: option.splits)
  have "unat x mod 256 ^ 8 = unat x" for x :: u64 using unat_lt_64 [of x] by simp
  moreover have "decode_record_batch arrow fact = Inr (pm_batch m)"
    using serializer f by (simp add: serializer_ok_def decode_record_batch_def)
  moreover have "(if ser = [] then Inr None else and_then (decode_record_batch arrow ser) (\<lambda>b. Inr (Some b))) =
      Inr (pm_new_series_batch m)"
    using serializer s by (auto simp: serializer_ok_def decode_record_batch_def encode_record_batch_def split: option.splits)
  ultimately show ?thesis
    using ok len unfolding bs decode_measurement_def
    by (simp add: read_written_string [OF w(1)] read_written_string [OF w(2)] read_written_string [OF w(3)]
        read_written_block measurement_ok_def row_count_u32_def)
qed

lemma decode_encoded_measurements:
  assumes "serializer_ok arrow" and "\<forall>m\<in>set ms. measurement_ok arrow m" and "encode_measurements arrow ms = Inr bs"
  shows "decode_measurements arrow (length ms) (bs @ rest) = Inr (map row_count_u32 ms, rest)"
  using assms(2,3)
proof (induction ms arbitrary: bs)
  case (Cons m ms)
  then obtain a b where "encode_measurement arrow m = Inr a" "encode_measurements arrow ms = Inr b" "bs = a @ b"
    by (auto elim!: and_then_InrE)
  with Cons decode_encoded_measurement [OF assms(1), of m a "b @ rest"] show ?case by simp
qed simp

text \<open>
  C25. A log value in the framed format reads back as the slot and the entry it was written from,
  whatever its batches are, as long as no batch takes 4 GiB or more; a row count keeps its low
  32 bits only.
\<close>

theorem wal_value_roundtrip:
  assumes "serializer_ok arrow" and "serializer_ok bin" and "text_ok (ps_database slot)" and "text_ok (ps_retention_policy slot)"
    and "\<forall>m\<in>set (ps_measurements slot). measurement_ok arrow m" and "length (ps_measurements slot) < 2 ^ 32"
    and "\<forall>bs. fst bin entry = Inr bs \<longrightarrow> length bs < 2 ^ 32"
    and "encode_wal_value arrow bin fmt (Some slot) entry = Inr bytes"
  shows "decode_wal_value arrow bin fmt bytes =
    Inr (case fmt of
           Bincode \<Rightarrow> (None, entry)
         | ArrowIpc \<Rightarrow> (Some (slot\<lparr>ps_measurements := map row_count_u32 (ps_measurements slot)\<rparr>), entry))"
proof (cases fmt)
  case Bincode
  then show ?thesis using assms(2,8) by (simp add: encode_wal_value_def decode_wal_value_def serializer_ok_def)
next
  case ArrowIpc
  with assms(8) obtain a b ms legacy where w: "write_string (ps_database slot) = Inr a"
      "write_string (ps_retention_policy slot) = Inr b" and ms: "encode_measurements arrow (ps_measurements slot) = Inr ms"
    and l: "fst bin entry = Inr legacy"
    and bytes: "bytes = magic @ [version] @ a @ b @ le_bytes 8 (unat (ps_origin_node_id slot))
        @ le_bytes 4 (length (ps_measurements slot)) @ ms @ le_bytes 4 (length legacy) @ legacy"
    by (auto simp: encode_wal_value_def encode_prepared_slot_def elim!: and_then_InrE)
  have leg: "snd bin legacy = Inr entry" "legacy \<noteq> []" "length legacy < 2 ^ 32" using assms(2,7) l by (auto simp: serializer_ok_def)
  have m4: "length magic = 4" by (simp add: magic_def as_bytes_def)
  have "unat x mod 256 ^ 8 = unat x" for x :: u64 using unat_lt_64 [of x] by simp
  moreover have "read_block ''legacy entry'' (le_bytes 4 (length legacy) @ legacy) = Inr (legacy, [])"
    using read_written_block [OF leg(3), of _ "[]"] by simp
  moreover have "\<not> length bytes < length magic + 1" "take 4 bytes = magic" "bytes ! 4 = version"
    "drop 5 bytes = a @ b @ le_bytes 8 (unat (ps_origin_node_id slot))
        @ le_bytes 4 (length (ps_measurements slot)) @ ms @ le_bytes 4 (length legacy) @ legacy"
    by (simp_all add: bytes m4 nth_append)
  ultimately have "decode_prepared_slot arrow bin bytes =
      Inr (slot\<lparr>ps_measurements := map row_count_u32 (ps_measurements slot)\<rparr>, Some entry)"
    using leg assms(3,4,6) decode_encoded_measurements [OF assms(1,5) ms]
    by (simp add: decode_prepared_slot_def read_written_string [OF w(1)] read_written_string [OF w(2)])
  then show ?thesis using ArrowIpc by (simp add: decode_wal_value_def)
qed

text \<open>A batch type with one value, an entry without points, and a slot with two measurements.\<close>

definition unit_arrow :: "unit serializer" where
  "unit_arrow = (\<lambda>_. Inr [7], \<lambda>bs. if bs = [7] then Inr () else Inl ''not a stream'')"

definition demo_wal_entry :: wal_entry where
  "demo_wal_entry = \<lparr>we_database = ''db'', we_retention_policy = ''rp'', we_points = [], we_origin_node_id = 3\<rparr>"

definition demo_bin :: "wal_entry serializer" where
  "demo_bin =
     (\<lambda>e. if e = demo_wal_entry then Inr [9] else Inl ''unsupported'',
      \<lambda>bs. if bs = [9] then Inr demo_wal_entry else Inl ''corrupt'')"

definition demo_slot :: "unit prepared_wal_slot" where
  "demo_slot =
     \<lparr>ps_database = ''db'', ps_retention_policy = ''rp'', ps_origin_node_id = 3, ps_measurements =
       [\<lparr>pm_measurement = ''cpu'', pm_table_name = ''t'', pm_series_table_name = ''s'', pm_batch = (), pm_row_count = 2,
         pm_min_time = 1, pm_max_time = 2, pm_new_series_batch = None\<rparr>,
        \<lparr>pm_measurement = ''mem'', pm_table_name = ''t'', pm_series_table_name = ''s'', pm_batch = (), pm_row_count = 2 ^ 32 + 1,
         pm_min_time = 1, pm_max_time = 2, pm_new_series_batch = Some ()\<rparr>]\<rparr>"

theorem wal_value_roundtrip_witness:
  "\<exists>bytes. encode_wal_value unit_arrow demo_bin ArrowIpc (Some demo_slot) demo_wal_entry = Inr bytes
    \<and> decode_wal_value unit_arrow demo_bin ArrowIpc bytes =
        Inr (Some (demo_slot\<lparr>ps_measurements := map row_count_u32 (ps_measurements demo_slot)\<rparr>), demo_wal_entry)"
proof -
  have "serializer_ok unit_arrow" "serializer_ok demo_bin"
    by (simp_all add: serializer_ok_def unit_arrow_def demo_bin_def)
  moreover have "text_ok (ps_database demo_slot)" "text_ok (ps_retention_policy demo_slot)"
    "\<forall>m\<in>set (ps_measurements demo_slot). measurement_ok unit_arrow m"
    by (simp_all add: demo_slot_def text_ok_def as_bytes_def measurement_ok_def unit_arrow_def)
  moreover have "\<forall>bs. fst demo_bin demo_wal_entry = Inr bs \<longrightarrow> length bs < 2 ^ 32"
    by (simp add: demo_bin_def)
  moreover obtain bytes where "encode_wal_value unit_arrow demo_bin ArrowIpc (Some demo_slot) demo_wal_entry = Inr bytes"
    by (simp add: encode_wal_value_def encode_prepared_slot_def write_string_def Let_def as_bytes_def demo_slot_def
        encode_measurement_def encode_record_batch_def unit_arrow_def demo_bin_def)
  ultimately show ?thesis
    using wal_value_roundtrip [of unit_arrow demo_bin demo_slot demo_wal_entry ArrowIpc bytes]
    by (simp add: demo_slot_def)
qed

end
