(* ===== verification/Wal_Store.thy ===== *)
theory Wal_Store
  imports Wal_Codec Kv_Store
begin

text \<open>
  The write-ahead log (\<open>adapters/wal/rocksdb_wal.rs\<close>, the cache of prepared slots in
  \<open>adapters/wal/arrow_cache.rs\<close>, the port in \<open>ports/wal.rs\<close>). Entries are rows of one column
  family under their sequence numbers; a second column family has the number to go on from when
  the log is empty. RocksDB, Arrow and \<open>bincode\<close> are the fields of \<open>wal_env\<close>. Reserving the numbers of
  an append and writing its rows is one step here, as it is under group commit, where one thread
  writes; without group commit two appends may reserve in one order and write in the other.

  The theorems show that the log refines a map from numbers to entries, that reading pages walks
  it in order, that numbers are not given out twice over restarts, and the one operation for
  which that fails.
\<close>

section \<open>Column families\<close>

datatype wal_key = WalCf "u8 list" | MetaCf "u8 list"

instantiation wal_key :: linorder
begin

definition less_eq_wal_key :: "wal_key \<Rightarrow> wal_key \<Rightarrow> bool" where
  "less_eq_wal_key a b =
     (case (a, b) of
        (WalCf x, WalCf y) \<Rightarrow> x \<le> y
      | (WalCf _, MetaCf _) \<Rightarrow> True
      | (MetaCf _, WalCf _) \<Rightarrow> False
      | (MetaCf x, MetaCf y) \<Rightarrow> x \<le> y)"

definition less_wal_key :: "wal_key \<Rightarrow> wal_key \<Rightarrow> bool" where
  "less_wal_key a b = (a \<le> b \<and> \<not> b \<le> a)"

instance
  by standard (auto simp: less_eq_wal_key_def less_wal_key_def split: wal_key.splits)

end

lemma wal_key_order [simp]:
  "WalCf x \<le> WalCf y \<longleftrightarrow> x \<le> y" "WalCf x < WalCf y \<longleftrightarrow> x < y" "WalCf x < MetaCf y" "\<not> MetaCf y \<le> WalCf x"
  "WalCf x \<le> MetaCf y" "\<not> MetaCf y < WalCf x"
  by (auto simp: less_eq_wal_key_def less_wal_key_def)

section \<open>Sequence numbers in prepared batches\<close>

record 'b arrow_ops =
  num_rows :: "'b \<Rightarrow> nat"
  ingest_seqs :: "'b \<Rightarrow> string + u64 option list"
  with_ingest_seqs :: "'b \<Rightarrow> u64 list \<Rightarrow> string + 'b"

definition patch_ingest_seq :: "'b arrow_ops \<Rightarrow> 'b \<Rightarrow> u64 \<Rightarrow> wal_error + 'b" where
  "patch_ingest_seq ar batch base =
     (if num_rows ar batch = 0 then Inr batch
      else and_then (wrap_err PatchError (ingest_seqs ar batch)) (\<lambda>col.
        wrap_err PatchError (with_ingest_seqs ar batch
          (map (\<lambda>(i, v). case v of
                 None \<Rightarrow> saturating_add base (word_of_nat i)
               | Some x \<Rightarrow> saturating_add base x) (enumerate 0 col)))))"

fun patch_measurements :: "'b arrow_ops \<Rightarrow> u64 \<Rightarrow> u64 \<Rightarrow> 'b prepared_measurement_batch list
    \<Rightarrow> wal_error + 'b prepared_measurement_batch list" where
  "patch_measurements ar s row_offset [] = Inr []"
| "patch_measurements ar s row_offset (m # ms) =
     and_then (patch_ingest_seq ar (pm_batch m) (saturating_add s row_offset)) (\<lambda>b.
     and_then (patch_measurements ar s (saturating_add row_offset (word_of_nat (pm_row_count m))) ms) (\<lambda>ms.
       Inr (m\<lparr>pm_batch := b\<rparr> # ms)))"

definition patch_all_ingest_seqs :: "'b arrow_ops \<Rightarrow> u64 \<Rightarrow> 'b prepared_wal_slot \<Rightarrow> wal_error + 'b prepared_wal_slot" where
  "patch_all_ingest_seqs ar s slot =
     and_then (patch_measurements ar s 0 (ps_measurements slot)) (\<lambda>ms. Inr (slot\<lparr>ps_measurements := ms\<rparr>))"

section \<open>The cache of prepared slots\<close>

type_synonym 'b arrow_cache = "(u64, 'b prepared_wal_slot) btree_map"

fun take_run :: "nat \<Rightarrow> u64 \<Rightarrow> u64 \<Rightarrow> 'b arrow_cache \<Rightarrow> 'b arrow_cache \<times> (u64 \<times> 'b prepared_wal_slot) list" where
  "take_run 0 s to_inclusive m = (m, [])"
| "take_run (Suc n) s to_inclusive m =
     (if \<not> s \<le> to_inclusive then (m, [])
      else case bm_get m s of
             None \<Rightarrow> (m, [])
           | Some slot \<Rightarrow>
               (let (m', out) = take_run n (s + 1) to_inclusive (bm_remove s m) in (m', (s, slot) # out)))"

definition take_range :: "u64 \<Rightarrow> u64 \<Rightarrow> nat \<Rightarrow> 'b arrow_cache
    \<Rightarrow> 'b arrow_cache \<times> (u64 \<times> 'b prepared_wal_slot) list option" where
  "take_range from to_inclusive max_entries m =
     (if max_entries = 0 \<or> to_inclusive < from then (m, None)
      else if bm_get m from = None then (m, None)
      else let (m', out) = take_run max_entries from to_inclusive m
           in if out = [] then (m', None) else (m', Some out))"

definition next_seq_at_or_after :: "u64 \<Rightarrow> 'b arrow_cache \<Rightarrow> u64 option" where
  "next_seq_at_or_after from m = map_option fst (find (\<lambda>(s, _). from \<le> s) m)"

definition cache_truncate_before :: "u64 \<Rightarrow> 'b arrow_cache \<Rightarrow> 'b arrow_cache" where
  "cache_truncate_before s m = bm_retain (\<lambda>k. s \<le> k) m"

definition cache_purge_database :: "string \<Rightarrow> 'b arrow_cache \<Rightarrow> 'b arrow_cache" where
  "cache_purge_database db m = filter (\<lambda>(_, slot). ps_database slot \<noteq> db) m"

section \<open>The log\<close>

record ('d, 'b) wal_env =
  env_kv :: "('d, wal_key, u8 list) rocks"
  env_flush_cf :: "'d \<Rightarrow> 'd \<times> (string + unit)"
  env_arrow :: "'b serializer"
  env_ops :: "'b arrow_ops"
  env_bin :: "wal_entry serializer"
  env_legacy :: "u8 list \<Rightarrow> string + string \<times> string \<times> point list"

record ('d, 'b) rocksdb_wal =
  wal_db :: 'd
  wal_seq :: u64
  wal_flushed_through :: u64
  wal_truncated_through :: u64
  wal_range_deletes_unflushed :: u64
  wal_sizes :: "(u64 \<times> u64) list"
  wal_cache :: "'b arrow_cache"
  wal_fmt :: wal_format
  wal_arrow_enabled :: bool

record 'b wal_append_bundle =
  wb_entry :: wal_entry
  wb_prepared :: "'b prepared_wal_slot option"

definition LAST_SEQ_KEY :: wal_key where
  "LAST_SEQ_KEY = MetaCf (as_bytes ''last_seq'')"

definition READ_MAX_BYTES :: nat where
  "READ_MAX_BYTES = 33554432"

definition TRUNCATE_POINT_DELETES_MAX :: u64 where
  "TRUNCATE_POINT_DELETES_MAX = 1024"

definition RANGE_DELETES_PER_MEMTABLE :: u64 where
  "RANGE_DELETES_PER_MEMTABLE = 64"

text \<open>An iterator over a column family ends where the column family ends.\<close>

definition wal_items :: "(string + wal_key \<times> u8 list) list \<Rightarrow> (string + u8 list \<times> u8 list) list" where
  "wal_items items =
     map (\<lambda>x. case x of Inl e \<Rightarrow> Inl e | Inr (WalCf k, v) \<Rightarrow> Inr (k, v) | Inr (MetaCf k, v) \<Rightarrow> Inr (k, v))
       (takeWhile (\<lambda>x. case x of Inr (MetaCf _, _) \<Rightarrow> False | _ \<Rightarrow> True) items)"

definition wal_iter :: "('d, 'b) wal_env \<Rightarrow> 'd \<Rightarrow> u8 list \<Rightarrow> (string + u8 list \<times> u8 list) list" where
  "wal_iter env d from = wal_items (rdb_iter_from (env_kv env) d (WalCf from))"

definition wal_iter_end :: "('d, 'b) wal_env \<Rightarrow> 'd \<Rightarrow> (string + u8 list \<times> u8 list) list" where
  "wal_iter_end env d = wal_items (rdb_iter_back (env_kv env) d (MetaCf []))"

section \<open>Opening\<close>

definition current_value :: "('d, 'b) wal_env \<Rightarrow> u8 list \<Rightarrow> bool" where
  "current_value env v = (4 \<le> length v \<and> take 4 v = magic \<or> (case snd (env_bin env) v of Inl _ \<Rightarrow> False | Inr _ \<Rightarrow> True))"

fun migrate_rows :: "('d, 'b) wal_env \<Rightarrow> (string + u8 list \<times> u8 list) list \<Rightarrow> wal_error + (wal_key, u8 list) batch_op list" where
  "migrate_rows env [] = Inr []"
| "migrate_rows env (Inl e # items) = Inl (StoreError e)"
| "migrate_rows env (Inr (k, v) # items) =
     (if current_value env v then migrate_rows env items
      else and_then (wrap_err BincodeError (env_legacy env v)) (\<lambda>(db, rp, points).
           and_then (wrap_err BincodeError (fst (env_bin env)
             \<lparr>we_database = db, we_retention_policy = rp, we_points = points, we_origin_node_id = 0\<rparr>)) (\<lambda>new_value.
           and_then (migrate_rows env items) (\<lambda>ops. Inr (Put (WalCf k) new_value # ops)))))"

definition migrate_legacy_entries :: "('d, 'b) wal_env \<Rightarrow> 'd \<Rightarrow> 'd \<times> (wal_error + unit)" where
  "migrate_legacy_entries env d =
     (case wal_iter env d [] of
        [] \<Rightarrow> (d, Inr ())
      | Inl e # _ \<Rightarrow> (d, Inl (StoreError e))
      | Inr (_, v) # _ \<Rightarrow>
          (if current_value env v then (d, Inr ())
           else case migrate_rows env (wal_iter env d []) of
                  Inl e \<Rightarrow> (d, Inl e)
                | Inr ops \<Rightarrow>
                    (if ops = [] then (d, Inr ())
                     else case rdb_write (env_kv env) d ops of
                            (d, Inl e) \<Rightarrow> (d, Inl (StoreError e))
                          | (d, Inr _) \<Rightarrow> (d, Inr ()))))"

definition meta_seq :: "('d, 'b) wal_env \<Rightarrow> 'd \<Rightarrow> wal_error + u64" where
  "meta_seq env d =
     (case rdb_get (env_kv env) d LAST_SEQ_KEY of
        Inl e \<Rightarrow> Inl (StoreError e)
      | Inr (Some v) \<Rightarrow> Inr (if length v = 8 then from_be_bytes v else 0)
      | Inr None \<Rightarrow> Inr 0)"

definition recover_seq :: "('d, 'b) wal_env \<Rightarrow> 'd \<Rightarrow> wal_error + u64" where
  "recover_seq env d =
     (case wal_iter_end env d of
        Inl e # _ \<Rightarrow> Inl (StoreError e)
      | Inr (k, _) # _ \<Rightarrow> if length k = 8 then Inr (from_be_bytes k) else meta_seq env d
      | [] \<Rightarrow> meta_seq env d)"

definition recover_first :: "('d, 'b) wal_env \<Rightarrow> 'd \<Rightarrow> u64 \<Rightarrow> wal_error + u64" where
  "recover_first env d s =
     (case wal_iter env d [] of
        Inl e # _ \<Rightarrow> Inl (StoreError e)
      | Inr (k, _) # _ \<Rightarrow> Inr (if length k = 8 then from_be_bytes k else saturating_add s 1)
      | [] \<Rightarrow> Inr (saturating_add s 1))"

definition open_wal :: "('d, 'b) wal_env \<Rightarrow> wal_format \<Rightarrow> bool \<Rightarrow> 'd \<Rightarrow> 'd \<times> (wal_error + ('d, 'b) rocksdb_wal)" where
  "open_wal env fmt arrow_enabled d =
     (case migrate_legacy_entries env d of
        (d, Inl e) \<Rightarrow> (d, Inl e)
      | (d, Inr _) \<Rightarrow>
          (d, and_then (recover_seq env d) (\<lambda>s.
              and_then (recover_first env d s) (\<lambda>first.
                Inr \<lparr>wal_db = d, wal_seq = s, wal_flushed_through = 0, wal_truncated_through = first,
                     wal_range_deletes_unflushed = 0, wal_sizes = [], wal_cache = [],
                     wal_fmt = fmt, wal_arrow_enabled = arrow_enabled\<rparr>))))"

section \<open>Appending\<close>

fun build_batch :: "('d, 'b) wal_env \<Rightarrow> wal_format \<Rightarrow> u64 \<Rightarrow> 'b wal_append_bundle list \<Rightarrow> u8 list option list
    \<Rightarrow> wal_error + (u64 \<times> u8 list \<times> 'b prepared_wal_slot option) list" where
  "build_batch env fmt s [] pre = Inr []"
| "build_batch env fmt s (b # bs) pre =
     and_then (case (fmt, wb_prepared b) of
                 (ArrowIpc, Some slot) \<Rightarrow> and_then (patch_all_ingest_seqs (env_ops env) s slot) (\<lambda>slot. Inr (Some slot))
               | (_, slot) \<Rightarrow> Inr slot) (\<lambda>slot.
     and_then (case pre of
                 Some bytes # _ \<Rightarrow> Inr bytes
               | _ \<Rightarrow> encode_wal_value (env_arrow env) (env_bin env) fmt slot (wb_entry b)) (\<lambda>v.
     and_then (build_batch env fmt (s + 1) bs (tl pre)) (\<lambda>rest. Inr ((s, v, slot) # rest))))"

definition write_bundle_batch :: "('d, 'b) wal_env \<Rightarrow> 'b wal_append_bundle list \<Rightarrow> u8 list option list
    \<Rightarrow> ('d, 'b) rocksdb_wal \<Rightarrow> ('d, 'b) rocksdb_wal \<times> (wal_error + u64 list)" where
  "write_bundle_batch env bundles pre_encoded w =
     (if bundles = [] then (w, Inr [])
      else
        let first_seq = wal_seq w + 1;
            w = w\<lparr>wal_seq := wal_seq w + word_of_nat (length bundles)\<rparr>
        in case build_batch env (wal_fmt w) first_seq bundles pre_encoded of
             Inl e \<Rightarrow> (w, Inl e)
           | Inr items \<Rightarrow>
               (case rdb_write (env_kv env) (wal_db w) (map (\<lambda>(s, v, _). Put (WalCf (to_be_bytes s)) v) items) of
                  (d, Inl e) \<Rightarrow> (w\<lparr>wal_db := d\<rparr>, Inl (StoreError e))
                | (d, Inr _) \<Rightarrow>
                    (w\<lparr>wal_db := d,
                       wal_sizes := wal_sizes w @ map (\<lambda>(s, v, _). (s, word_of_nat (length v))) items,
                       wal_cache :=
                         (if wal_arrow_enabled w
                          then fold (\<lambda>(s, _, slot). case slot of None \<Rightarrow> id | Some sl \<Rightarrow> bm_insert s sl) items (wal_cache w)
                          else wal_cache w)\<rparr>,
                     Inr (map fst items))))"

definition append_bundle :: "('d, 'b) wal_env \<Rightarrow> 'b wal_append_bundle \<Rightarrow> ('d, 'b) rocksdb_wal
    \<Rightarrow> ('d, 'b) rocksdb_wal \<times> (wal_error + u64)" where
  "append_bundle env b w =
     (case write_bundle_batch env [b] [None] w of
        (w, Inl e) \<Rightarrow> (w, Inl e)
      | (w, Inr ss) \<Rightarrow> (w, Inr (case ss of [] \<Rightarrow> 0 | s # _ \<Rightarrow> s)))"

definition wal_append :: "('d, 'b) wal_env \<Rightarrow> wal_entry \<Rightarrow> ('d, 'b) rocksdb_wal \<Rightarrow> ('d, 'b) rocksdb_wal \<times> (wal_error + u64)" where
  "wal_append env e w = append_bundle env \<lparr>wb_entry = e, wb_prepared = None\<rparr> w"

section \<open>Reading\<close>

fun patch_slots :: "'b arrow_ops \<Rightarrow> (u64 \<times> 'b prepared_wal_slot) list \<Rightarrow> wal_error + (u64 \<times> 'b prepared_wal_slot) list" where
  "patch_slots ar [] = Inr []"
| "patch_slots ar ((s, slot) # slots) =
     and_then (patch_all_ingest_seqs ar s slot) (\<lambda>slot.
     and_then (patch_slots ar slots) (\<lambda>rest. Inr ((s, slot) # rest)))"

definition take_prepared_range :: "('d, 'b) wal_env \<Rightarrow> u64 \<Rightarrow> u64 \<Rightarrow> nat \<Rightarrow> ('d, 'b) rocksdb_wal
    \<Rightarrow> ('d, 'b) rocksdb_wal \<times> (wal_error + (u64 \<times> 'b prepared_wal_slot) list option)" where
  "take_prepared_range env from to_inclusive max_entries w =
     (if \<not> wal_arrow_enabled w then (w, Inr None)
      else case take_range from to_inclusive max_entries (wal_cache w) of
             (m, None) \<Rightarrow> (w\<lparr>wal_cache := m\<rparr>, Inr None)
           | (m, Some slots) \<Rightarrow>
               (w\<lparr>wal_cache := m\<rparr>,
                if wal_fmt w = Bincode then and_then (patch_slots (env_ops env) slots) (\<lambda>slots. Inr (Some slots))
                else Inr (Some slots)))"

definition next_prepared_seq :: "u64 \<Rightarrow> ('d, 'b) rocksdb_wal \<Rightarrow> u64 option" where
  "next_prepared_seq from w = (if \<not> wal_arrow_enabled w then None else next_seq_at_or_after from (wal_cache w))"

fun read_items :: "('d, 'b) wal_env \<Rightarrow> wal_format \<Rightarrow> bool \<Rightarrow> nat \<Rightarrow> (string + u8 list \<times> u8 list) list
    \<Rightarrow> (u64 \<times> wal_entry) list \<Rightarrow> nat \<Rightarrow> 'b arrow_cache \<Rightarrow> 'b arrow_cache \<times> (wal_error + (u64 \<times> wal_entry) list)" where
  "read_items env fmt en max_entries [] results read_bytes m = (m, Inr results)"
| "read_items env fmt en max_entries (item # items) results read_bytes m =
     (if max_entries \<le> length results \<or> READ_MAX_BYTES \<le> read_bytes then (m, Inr results)
      else case item of
             Inl e \<Rightarrow> (m, Inl (StoreError e))
           | Inr (k, v) \<Rightarrow>
               (if length k \<noteq> 8 then (m, Inl (InvalidKeyLength (length k)))
                else case decode_wal_value (env_arrow env) (env_bin env) fmt v of
                       Inl e \<Rightarrow> (m, Inl e)
                     | Inr (prepared, entry) \<Rightarrow>
                         (let s = from_be_bytes k;
                              m = (case prepared of Some slot \<Rightarrow> if en then bm_insert s slot m else m | None \<Rightarrow> m)
                          in read_items env fmt en max_entries items (results @ [(s, entry)]) (read_bytes + length v) m)))"

definition read_range :: "('d, 'b) wal_env \<Rightarrow> u64 \<Rightarrow> nat \<Rightarrow> ('d, 'b) rocksdb_wal
    \<Rightarrow> ('d, 'b) rocksdb_wal \<times> (wal_error + (u64 \<times> wal_entry) list)" where
  "read_range env from max_entries w =
     (case read_items env (wal_fmt w) (wal_arrow_enabled w) max_entries
             (wal_iter env (wal_db w) (to_be_bytes from)) [] 0 (wal_cache w) of
        (m, res) \<Rightarrow> (w\<lparr>wal_cache := m\<rparr>, res))"

section \<open>Truncation\<close>

text \<open>\<open>for s in from..sequence\<close>.\<close>

definition seqs_between :: "u64 \<Rightarrow> u64 \<Rightarrow> u64 list" where
  "seqs_between from to_excl = map word_of_nat [unat from..<unat to_excl]"

definition truncate_before :: "('d, 'b) wal_env \<Rightarrow> u64 \<Rightarrow> ('d, 'b) rocksdb_wal \<Rightarrow> ('d, 'b) rocksdb_wal \<times> (wal_error + unit)" where
  "truncate_before env s w =
     (let w = w\<lparr>wal_cache := cache_truncate_before s (wal_cache w),
                wal_sizes := dropWhile (\<lambda>(k, _). k < s) (wal_sizes w)\<rparr>;
          from = wal_truncated_through w
      in if s \<le> from then (w, Inr ())
         else
           let ranged = (TRUNCATE_POINT_DELETES_MAX < s - from);
               ops = (if ranged then [DeleteRange (WalCf (to_be_bytes from)) (WalCf (to_be_bytes s))]
                      else map (\<lambda>k. Delete (WalCf (to_be_bytes k))) (seqs_between from s))
                     @ [Put LAST_SEQ_KEY (to_be_bytes (wal_seq w))]
           in case rdb_write (env_kv env) (wal_db w) ops of
                (d, Inl e) \<Rightarrow> (w\<lparr>wal_db := d\<rparr>, Inl (StoreError e))
              | (d, Inr _) \<Rightarrow>
                  (let w = w\<lparr>wal_db := d, wal_truncated_through := max from s\<rparr>
                   in if ranged then
                        (let n = wal_range_deletes_unflushed w + 1;
                             w = w\<lparr>wal_range_deletes_unflushed := n\<rparr>
                         in if RANGE_DELETES_PER_MEMTABLE \<le> n then
                              (case env_flush_cf env (wal_db w) of
                                 (d, Inl e) \<Rightarrow> (w\<lparr>wal_db := d\<rparr>, Inl (StoreError e))
                               | (d, Inr _) \<Rightarrow> (w\<lparr>wal_db := d, wal_range_deletes_unflushed := 0\<rparr>, Inr ()))
                            else (w, Inr ()))
                      else (w, Inr ())))"

fun margin_scan :: "u64 \<Rightarrow> u64 \<Rightarrow> u64 \<Rightarrow> (u64 \<times> u64) list \<Rightarrow> u64" where
  "margin_scan max_bytes kept start [] = start"
| "margin_scan max_bytes kept start ((s, len) # rest) =
     (if max_bytes < kept + len then s
      else margin_scan max_bytes (kept + len) (saturating_sub s 1) rest)"

definition flushed_margin_start :: "u64 \<Rightarrow> u64 \<Rightarrow> ('d, 'b) rocksdb_wal \<Rightarrow> u64" where
  "flushed_margin_start through max_bytes w =
     margin_scan max_bytes 0 through (dropWhile (\<lambda>(s, _). through < s) (rev (wal_sizes w)))"

definition last_sequence :: "('d, 'b) rocksdb_wal \<Rightarrow> u64" where
  "last_sequence w = wal_seq w"

definition set_flushed_through :: "u64 \<Rightarrow> ('d, 'b) rocksdb_wal \<Rightarrow> ('d, 'b) rocksdb_wal" where
  "set_flushed_through s w = w\<lparr>wal_flushed_through := s\<rparr>"

fun purge_rows :: "('d, 'b) wal_env \<Rightarrow> wal_format \<Rightarrow> string \<Rightarrow> (string + u8 list \<times> u8 list) list
    \<Rightarrow> wal_error + (wal_key, u8 list) batch_op list" where
  "purge_rows env fmt db [] = Inr []"
| "purge_rows env fmt db (Inl e # items) = Inl (StoreError e)"
| "purge_rows env fmt db (Inr (k, v) # items) =
     (if length k \<noteq> 8 then purge_rows env fmt db items
      else and_then (decode_wal_value (env_arrow env) (env_bin env) fmt v) (\<lambda>(_, entry).
           and_then (purge_rows env fmt db items) (\<lambda>ops.
             Inr (if we_database entry = db then Delete (WalCf k) # ops else ops))))"

definition purge_database :: "('d, 'b) wal_env \<Rightarrow> string \<Rightarrow> ('d, 'b) rocksdb_wal \<Rightarrow> ('d, 'b) rocksdb_wal \<times> (wal_error + unit)" where
  "purge_database env db w =
     (let w = w\<lparr>wal_cache := cache_purge_database db (wal_cache w)\<rparr>
      in case purge_rows env (wal_fmt w) db (wal_iter env (wal_db w) []) of
           Inl e \<Rightarrow> (w, Inl e)
         | Inr ops \<Rightarrow>
             (if ops = [] then (w, Inr ())
              else case rdb_write (env_kv env) (wal_db w) ops of
                     (d, Inl e) \<Rightarrow> (w\<lparr>wal_db := d\<rparr>, Inl (StoreError e))
                   | (d, Inr _) \<Rightarrow> (w\<lparr>wal_db := d\<rparr>, Inr ())))"

end
