(* ===== verification/Wal_Log.thy ===== *)
theory Wal_Log
  imports Wal_Store
begin

text \<open>
  The write-ahead log as a map from sequence numbers to entries: the invariant of the store, what
  each operation does to the map, and the numbers it gives out, over failed writes and restarts.
\<close>

section \<open>Iterating over the column family\<close>

definition env_ok :: "('d, 'b) wal_env \<Rightarrow> ('d \<Rightarrow> wal_key \<Rightarrow> u8 list option) \<Rightarrow> bool" where
  "env_ok env rows \<longleftrightarrow> rocks_laws (env_kv env) rows \<and> rocks_atomic (env_kv env) rows
     \<and> (\<forall>d d' r. env_flush_cf env d = (d', r) \<longrightarrow> rows d' = rows d)"

lemma env_okD:
  assumes "env_ok env rows"
  shows "rocks_laws (env_kv env) rows" and "rocks_atomic (env_kv env) rows"
    and "env_flush_cf env d = (d', r) \<Longrightarrow> rows d' = rows d"
  using assms by (auto simp: env_ok_def)

definition strip_cf :: "wal_key \<Rightarrow> u8 list" where
  "strip_cf k = (case k of WalCf x \<Rightarrow> x | MetaCf x \<Rightarrow> x)"

definition in_wal :: "wal_key \<Rightarrow> bool" where
  "in_wal k = (case k of WalCf _ \<Rightarrow> True | MetaCf _ \<Rightarrow> False)"

lemma in_wal_iff: "in_wal k \<longleftrightarrow> k < MetaCf []" "in_wal k \<longleftrightarrow> (\<exists>x. k = WalCf x)"
  by (auto simp: in_wal_def less_wal_key_def less_eq_wal_key_def split: wal_key.splits)

lemma wal_items_Inr:
  "wal_items (map Inr its) = map Inr (map (\<lambda>(k, v). (strip_cf k, v)) (takeWhile (\<lambda>(k, _). in_wal k) its))"
  by (induction its) (auto simp: wal_items_def in_wal_def strip_cf_def split: wal_key.splits)

lemma set_pairsI: "(\<And>k v. (k, v) \<in> A \<longleftrightarrow> P k v) \<Longrightarrow> A = {(k, v). P k v}"
  by auto

lemma strip_sorted:
  assumes "sorted_wrt (<) (map fst its)" and "\<forall>x\<in>set its. in_wal (fst x)"
  shows "sorted_wrt (<) (map (\<lambda>x. strip_cf (fst x)) its)"
  using assms
proof (induction its)
  case (Cons x its)
  have "strip_cf (fst x) < strip_cf (fst y)" if y: "y \<in> set its" for y
  proof -
    have "in_wal (fst x)" "in_wal (fst y)" "fst x < fst y" using Cons.prems y by auto
    then show ?thesis by (auto simp: in_wal_iff(2) strip_cf_def)
  qed
  with Cons show ?case by simp
qed simp

lemma takeWhile_in_wal:
  assumes "sorted_wrt (<) (map fst its)"
  shows "set (takeWhile (\<lambda>(k, _). in_wal k) its) = {x \<in> set its. in_wal (fst x)}"
  using assms
proof (induction its)
  case (Cons x its)
  show ?case
  proof (cases "in_wal (fst x)")
    case True
    with Cons show ?thesis by (auto simp: split_def)
  next
    case False
    have "\<not> in_wal (fst y)" if "y \<in> set its" for y
      using Cons.prems that False by (auto simp: in_wal_iff(1))
    with False show ?thesis by (auto simp: split_def)
  qed
qed simp

lemma wal_iter_rows:
  assumes "rocks_laws (env_kv env) rows"
  obtains items where "wal_iter env d from = map Inr items" "sorted_wrt (<) (map fst items)"
    "set items = {(k, v). rows d (WalCf k) = Some v \<and> from \<le> k}"
proof -
  obtain its where its: "rdb_iter_from (env_kv env) d (WalCf from) = map Inr its" "sorted_wrt (<) (map fst its)"
    "set its = {(k, v). rows d k = Some v \<and> WalCf from \<le> k}"
    by (rule iter_items [OF assms])
  let ?w = "takeWhile (\<lambda>(k, _). in_wal k) its"
  let ?items = "map (\<lambda>(k, v). (strip_cf k, v)) ?w"
  have in_w: "\<forall>x\<in>set ?w. in_wal (fst x)" by (auto dest: set_takeWhileD)
  have "sorted_wrt (<) (map fst ?w)"
    using its(2) takeWhile_map [of in_wal fst its] sorted_wrt_takeWhile [of "(<)" "map fst its" in_wal]
    by (simp add: comp_def split_def)
  from strip_sorted [OF this in_w] have sorted: "sorted_wrt (<) (map fst ?items)" by (simp add: comp_def split_def)
  have "(k, v) \<in> set ?items \<longleftrightarrow> rows d (WalCf k) = Some v \<and> from \<le> k" for k v
    unfolding set_map takeWhile_in_wal [OF its(2)] its(3)
    by (force simp: in_wal_iff(2) strip_cf_def)
  then have "set ?items = {(k, v). rows d (WalCf k) = Some v \<and> from \<le> k}" by (rule set_pairsI)
  moreover have "wal_iter env d from = map Inr ?items"
    by (simp only: wal_iter_def its(1) wal_items_Inr)
  ultimately show ?thesis using that sorted by blast
qed

lemma wal_iter_end_rows:
  assumes "rocks_laws (env_kv env) rows"
  obtains items where "wal_iter_end env d = map Inr (rev items)" "sorted_wrt (<) (map fst items)"
    "set items = {(k, v). rows d (WalCf k) = Some v}"
proof -
  obtain its where its: "rdb_iter_back (env_kv env) d (MetaCf []) = map Inr (rev its)" "sorted_wrt (<) (map fst its)"
    "set its = {(k, v). rows d k = Some v \<and> k < MetaCf []}"
    by (rule back_items [OF assms])
  let ?items = "map (\<lambda>(k, v). (strip_cf k, v)) its"
  have in_w: "\<forall>x\<in>set its. in_wal (fst x)" using its(3) by (auto simp: in_wal_iff(1))
  then have "takeWhile (\<lambda>(k, _). in_wal k) (rev its) = rev its" by (intro takeWhile_eq_all_conv [THEN iffD2]) auto
  then have "wal_iter_end env d = map Inr (rev ?items)"
    by (simp only: wal_iter_end_def its(1) wal_items_Inr rev_map)
  moreover have "sorted_wrt (<) (map fst ?items)"
    using strip_sorted [OF its(2) in_w] by (simp add: comp_def split_def)
  moreover have "(k, v) \<in> set ?items \<longleftrightarrow> rows d (WalCf k) = Some v" for k v
    unfolding set_map its(3) in_wal_iff(1) [symmetric] by (force simp: in_wal_iff(2) strip_cf_def)
  then have "set ?items = {(k, v). rows d (WalCf k) = Some v}" by (rule set_pairsI)
  ultimately show ?thesis using that by blast
qed

section \<open>The log in the rows\<close>

definition wal_log :: "('d, 'b) wal_env \<Rightarrow> wal_format \<Rightarrow> ('d \<Rightarrow> wal_key \<Rightarrow> u8 list option) \<Rightarrow> 'd \<Rightarrow> u64 \<Rightarrow> wal_entry option" where
  "wal_log env fmt rows d s =
     (case rows d (WalCf (to_be_bytes s)) of
        None \<Rightarrow> None
      | Some v \<Rightarrow> (case decode_wal_value (env_arrow env) (env_bin env) fmt v of Inl _ \<Rightarrow> None | Inr (_, e) \<Rightarrow> Some e))"

definition seq_rows :: "('d \<Rightarrow> wal_key \<Rightarrow> u8 list option) \<Rightarrow> 'd \<Rightarrow> u64 set" where
  "seq_rows rows d = {s. rows d (WalCf (to_be_bytes s)) \<noteq> None}"

definition db_ok :: "('d, 'b) wal_env \<Rightarrow> wal_format \<Rightarrow> ('d \<Rightarrow> wal_key \<Rightarrow> u8 list option) \<Rightarrow> 'd \<Rightarrow> bool" where
  "db_ok env fmt rows d \<longleftrightarrow> (\<forall>k v. rows d (WalCf k) = Some v \<longrightarrow>
     length k = 8 \<and> (\<exists>p e. decode_wal_value (env_arrow env) (env_bin env) fmt v = Inr (p, e)))"

definition recovered :: "('d \<Rightarrow> wal_key \<Rightarrow> u8 list option) \<Rightarrow> 'd \<Rightarrow> u64" where
  "recovered rows d =
     (if seq_rows rows d = {} then
        (case rows d LAST_SEQ_KEY of Some v \<Rightarrow> if length v = 8 then from_be_bytes v else 0 | None \<Rightarrow> 0)
      else Max (seq_rows rows d))"

lemma db_okD:
  "db_ok env fmt rows d \<Longrightarrow> rows d (WalCf k) = Some v \<Longrightarrow>
   length k = 8 \<and> (\<exists>p e. decode_wal_value (env_arrow env) (env_bin env) fmt v = Inr (p, e))"
  by (simp add: db_ok_def)

lemma wal_log_dom: "db_ok env fmt rows d \<Longrightarrow> wal_log env fmt rows d s \<noteq> None \<longleftrightarrow> s \<in> seq_rows rows d"
  using db_okD [of env fmt rows d "to_be_bytes s"]
  by (force simp: wal_log_def seq_rows_def split: option.splits)

lemma key_in_seq_rows:
  "db_ok env fmt rows d \<Longrightarrow> rows d (WalCf k) = Some v \<Longrightarrow> from_be_bytes k \<in> seq_rows rows d \<and> to_be_bytes (from_be_bytes k) = k"
  using db_okD [of env fmt rows d k v] by (simp add: seq_rows_def to_from_be_bytes)

lemma decoded_is_current:
  "decode_wal_value (env_arrow env) (env_bin env) fmt v = Inr (p, e) \<Longrightarrow> current_value env v"
  by (cases fmt)
    (auto simp: decode_wal_value_def current_value_def decode_prepared_slot_def magic_def as_bytes_def
      elim!: and_then_InrE split: if_splits)

lemma migrate_noop:
  assumes "rocks_laws (env_kv env) rows" and ok: "db_ok env fmt rows d"
  shows "migrate_legacy_entries env d = (d, Inr ())"
proof -
  obtain items where it: "wal_iter env d [] = map Inr items" "sorted_wrt (<) (map fst items)"
    "set items = {(k, v). rows d (WalCf k) = Some v \<and> [] \<le> k}"
    by (rule wal_iter_rows [OF assms(1)])
  show ?thesis
  proof (cases items)
    case (Cons x rest)
    obtain k v where x: "x = (k, v)" by fastforce
    then have "rows d (WalCf k) = Some v" using it(3) Cons by auto
    then have "current_value env v" using db_okD [OF ok] decoded_is_current by blast
    then show ?thesis by (simp add: migrate_legacy_entries_def it(1) Cons x)
  qed (simp add: migrate_legacy_entries_def it(1))
qed

lemma recover_seq_eq:
  assumes "rocks_laws (env_kv env) rows" and ok: "db_ok env fmt rows d"
  shows "recover_seq env d = Inr (recovered rows d)"
proof -
  obtain items where it: "wal_iter_end env d = map Inr (rev items)" "sorted_wrt (<) (map fst items)"
    "set items = {(k, v). rows d (WalCf k) = Some v}"
    by (rule wal_iter_end_rows [OF assms(1)])
  show ?thesis
  proof (cases items rule: rev_cases)
    case Nil
    have "seq_rows rows d = {}" using it(3) Nil by (auto simp: seq_rows_def)
    then show ?thesis
      by (simp add: recover_seq_def it(1) Nil meta_seq_def rdb_get_rows [OF assms(1)] recovered_def split: option.split)
  next
    case (snoc rest x)
    obtain k v where x: "x = (k, v)" by fastforce
    then have row: "rows d (WalCf k) = Some v" using it(3) snoc by auto
    note K = db_okD [OF ok row] key_in_seq_rows [OF ok row]
    have "s \<le> from_be_bytes k" if "s \<in> seq_rows rows d" for s
    proof -
      from that obtain v' where "(to_be_bytes s, v') \<in> set items" using it(3) by (auto simp: seq_rows_def)
      then have "to_be_bytes s \<le> k" using it(2) by (auto simp: snoc x sorted_wrt_append)
      then show ?thesis using K(2) by (metis to_be_bytes_le_iff)
    qed
    then have "Max (seq_rows rows d) = from_be_bytes k" using K(2) by (intro Max_eqI) auto
    then show ?thesis using K by (auto simp: recover_seq_def it(1) snoc x recovered_def)
  qed
qed

lemma recover_first_eq:
  assumes "rocks_laws (env_kv env) rows" and ok: "db_ok env fmt rows d"
  shows "recover_first env d s = Inr (if seq_rows rows d = {} then saturating_add s 1 else Min (seq_rows rows d))"
proof -
  obtain items where it: "wal_iter env d [] = map Inr items" "sorted_wrt (<) (map fst items)"
    "set items = {(k, v). rows d (WalCf k) = Some v \<and> [] \<le> k}"
    by (rule wal_iter_rows [OF assms(1)])
  show ?thesis
  proof (cases items)
    case Nil
    have "seq_rows rows d = {}" using it(3) Nil by (auto simp: seq_rows_def)
    then show ?thesis by (simp add: recover_first_def it(1) Nil)
  next
    case (Cons x rest)
    obtain k v where x: "x = (k, v)" by fastforce
    then have row: "rows d (WalCf k) = Some v" using it(3) Cons by auto
    note K = db_okD [OF ok row] key_in_seq_rows [OF ok row]
    have "from_be_bytes k \<le> s" if "s \<in> seq_rows rows d" for s
    proof -
      from that obtain v' where "(to_be_bytes s, v') \<in> set items" using it(3) by (auto simp: seq_rows_def)
      then have "k \<le> to_be_bytes s" using it(2) by (auto simp: Cons x)
      then show ?thesis using K(2) by (metis to_be_bytes_le_iff)
    qed
    then have "Min (seq_rows rows d) = from_be_bytes k" using K(2) by (intro Min_eqI) auto
    then show ?thesis using K by (auto simp: recover_first_def it(1) Cons x)
  qed
qed

section \<open>The invariant\<close>

definition wal_ok :: "('d, 'b) wal_env \<Rightarrow> ('d \<Rightarrow> wal_key \<Rightarrow> u8 list option) \<Rightarrow> ('d, 'b) rocksdb_wal \<Rightarrow> bool" where
  "wal_ok env rows w \<longleftrightarrow> db_ok env (wal_fmt w) rows (wal_db w)
     \<and> (\<forall>s\<in>seq_rows rows (wal_db w). wal_truncated_through w \<le> s \<and> s \<le> wal_seq w)
     \<and> unat (wal_truncated_through w) \<le> Suc (unat (wal_seq w)) \<and> recovered rows (wal_db w) \<le> wal_seq w
     \<and> bm_wf (wal_cache w) \<and> (\<forall>s slot. bm_get (wal_cache w) s = Some slot \<longrightarrow> s \<le> wal_seq w)
     \<and> sorted_wrt (<) (map fst (wal_sizes w)) \<and> (\<forall>x\<in>set (wal_sizes w). fst x \<le> wal_seq w)"

lemma wal_okD:
  assumes "wal_ok env rows w"
  shows "db_ok env (wal_fmt w) rows (wal_db w)"
    and "s \<in> seq_rows rows (wal_db w) \<Longrightarrow> wal_truncated_through w \<le> s \<and> s \<le> wal_seq w"
    and "unat (wal_truncated_through w) \<le> Suc (unat (wal_seq w))"
    and "bm_wf (wal_cache w)" and "bm_get (wal_cache w) s = Some slot \<Longrightarrow> s \<le> wal_seq w"
    and "sorted_wrt (<) (map fst (wal_sizes w))" and "x \<in> set (wal_sizes w) \<Longrightarrow> fst x \<le> wal_seq w"
    and "recovered rows (wal_db w) \<le> wal_seq w"
  using assms by (auto simp: wal_ok_def)

lemma open_wal_ok:
  assumes "rocks_laws (env_kv env) rows" and ok: "db_ok env fmt rows d"
  obtains w where "open_wal env fmt en d = (d, Inr w)" and "wal_ok env rows w" and "wal_db w = d"
    and "wal_seq w = recovered rows d" and "wal_fmt w = fmt" and "wal_arrow_enabled w = en" and "wal_cache w = []"
    and "wal_flushed_through w = 0" and "wal_sizes w = []"
proof -
  let ?S = "seq_rows rows d"
  let ?first = "if ?S = {} then saturating_add (recovered rows d) 1 else Min ?S"
  let ?w = "\<lparr>wal_db = d, wal_seq = recovered rows d, wal_flushed_through = 0, wal_truncated_through = ?first,
     wal_range_deletes_unflushed = 0, wal_sizes = [], wal_cache = [], wal_fmt = fmt, wal_arrow_enabled = en\<rparr>"
  have op: "open_wal env fmt en d = (d, Inr ?w)"
    by (simp add: open_wal_def migrate_noop [OF assms] recover_seq_eq [OF assms] recover_first_eq [OF assms])
  have le: "Min ?S \<le> s \<and> s \<le> Max ?S" if "s \<in> ?S" for s using that by simp
  have "unat (saturating_add x 1) \<le> Suc (unat x)" for x :: u64
    by (simp add: saturating_add_1 unat_word_ariths mod_Suc)
  moreover have "unat (Min ?S) \<le> Suc (unat (Max ?S))" if "?S \<noteq> {}"
    using that by (intro le_SucI) (simp add: word_le_nat_alt [symmetric])
  ultimately have "wal_ok env rows ?w"
    using ok le by (auto simp: wal_ok_def recovered_def)
  with op show ?thesis by (rule that) simp_all
qed

section \<open>Appending\<close>

definition next_seqs :: "('d, 'b) rocksdb_wal \<Rightarrow> nat \<Rightarrow> u64 list" where
  "next_seqs w n = map (\<lambda>i. wal_seq w + 1 + word_of_nat i) [0..<n]"

lemma next_seqs_length [simp]: "length (next_seqs w n) = n"
  by (simp add: next_seqs_def)

lemma next_seqs_unat:
  assumes "unat (wal_seq w) + n < 2 ^ 64" and "i < n"
  shows "unat (next_seqs w n ! i) = unat (wal_seq w) + 1 + i"
proof -
  have "next_seqs w n ! i = word_of_nat (unat (wal_seq w) + 1 + i)"
    using assms(2) by (simp add: next_seqs_def)
  then show ?thesis using assms by (simp only: unat_of_nat_small)
qed

lemma next_seqs_sorted:
  assumes "unat (wal_seq w) + n < 2 ^ 64"
  shows "sorted_wrt (<) (next_seqs w n)"
    and "s \<in> set (next_seqs w n) \<Longrightarrow> wal_seq w < s \<and> s \<le> wal_seq w + word_of_nat n"
    and "0 < n \<Longrightarrow> wal_seq w + word_of_nat n \<in> set (next_seqs w n)"
    and "unat (wal_seq w + word_of_nat n) = unat (wal_seq w) + n"
proof -
  note U = next_seqs_unat [OF assms]
  show last: "unat (wal_seq w + word_of_nat n) = unat (wal_seq w) + n"
  proof -
    have "wal_seq w + word_of_nat n = word_of_nat (unat (wal_seq w) + n)" by simp
    then show ?thesis using assms by (simp only: unat_of_nat_small)
  qed
  show "sorted_wrt (<) (next_seqs w n)"
    unfolding sorted_wrt_iff_nth_less using U by (simp add: word_less_nat_alt)
  show "s \<in> set (next_seqs w n) \<Longrightarrow> wal_seq w < s \<and> s \<le> wal_seq w + word_of_nat n"
    using U last by (auto simp: in_set_conv_nth word_less_nat_alt word_le_nat_alt)
  assume "0 < n"
  then have "unat (next_seqs w n ! (n - 1)) = unat (wal_seq w + word_of_nat n)" using U [of "n - 1"] last by simp
  then have "next_seqs w n ! (n - 1) = wal_seq w + word_of_nat n" by (simp only: word_unat_eq_iff)
  with \<open>0 < n\<close> show "wal_seq w + word_of_nat n \<in> set (next_seqs w n)"
    by (metis diff_less less_numeral_extra(1) next_seqs_length nth_mem)
qed

lemma build_batch_seqs:
  "build_batch env fmt s bundles pre = Inr items \<Longrightarrow> map fst items = map (\<lambda>i. s + word_of_nat i) [0..<length bundles]"
proof (induction bundles arbitrary: s pre items)
  case (Cons b bs)
  then obtain slot v rest where r: "build_batch env fmt (s + 1) bs (tl pre) = Inr rest" and items: "items = (s, v, slot) # rest"
    by (auto elim!: and_then_InrE)
  have "map (\<lambda>i. s + word_of_nat i) [0..<length (b # bs)] = s # map (\<lambda>i. s + word_of_nat (Suc i)) [0..<length bs]"
    by (simp add: upt_conv_Cons map_Suc_upt [symmetric] comp_def del: map_Suc_upt upt_Suc)
  then show ?case using Cons.IH [OF r] items by (simp add: algebra_simps)
qed simp

text \<open>The values of a batch decode to its entries.\<close>

definition faithful :: "('d, 'b) wal_env \<Rightarrow> wal_format \<Rightarrow> 'b wal_append_bundle list \<Rightarrow> u8 list option list \<Rightarrow> bool" where
  "faithful env fmt bundles pre \<longleftrightarrow> (\<forall>s items. build_batch env fmt s bundles pre = Inr items \<longrightarrow>
     list_all2 (\<lambda>b (_, v, _). \<exists>p. decode_wal_value (env_arrow env) (env_bin env) fmt v = Inr (p, wb_entry b)) bundles items)"

lemma puts_effect:
  "fold batch_effect (map (\<lambda>(s, v, _). Put (WalCf (to_be_bytes s)) v) items) r =
     r ++ map_of (rev (map (\<lambda>(s, v, _). (WalCf (to_be_bytes s), v)) items))"
  by (induction items arbitrary: r) (auto simp: fun_eq_iff map_add_def split: option.split)

lemma puts_rows:
  assumes "distinct (map fst items)"
  shows "fold batch_effect (map (\<lambda>(s, v, _). Put (WalCf (to_be_bytes s)) v) items) r (WalCf (to_be_bytes s)) =
      (case map_of (map (\<lambda>(s, v, _). (s, v)) items) s of None \<Rightarrow> r (WalCf (to_be_bytes s)) | Some v \<Rightarrow> Some v)"
    and "\<forall>s. k \<noteq> WalCf (to_be_bytes s) \<Longrightarrow>
      fold batch_effect (map (\<lambda>(s, v, _). Put (WalCf (to_be_bytes s)) v) items) r k = r k"
proof -
  let ?kvs = "map (\<lambda>(s, v, _). (WalCf (to_be_bytes s), v)) items"
  have "distinct (map fst ?kvs)"
    using assms by (induction items) (auto simp: image_iff)
  then have rev: "map_of (rev ?kvs) = map_of ?kvs" by (subst map_of_inject_set) (simp_all add: rev_map [symmetric] del: map_map)
  have "map_of ?kvs (WalCf (to_be_bytes s)) = map_of (map (\<lambda>(s, v, _). (s, v)) items) s"
    by (induction items) auto
  then show "fold batch_effect (map (\<lambda>(s, v, _). Put (WalCf (to_be_bytes s)) v) items) r (WalCf (to_be_bytes s)) =
      (case map_of (map (\<lambda>(s, v, _). (s, v)) items) s of None \<Rightarrow> r (WalCf (to_be_bytes s)) | Some v \<Rightarrow> Some v)"
    by (simp add: puts_effect rev map_add_def)
  assume "\<forall>s. k \<noteq> WalCf (to_be_bytes s)"
  then have "map_of ?kvs k = None" by (induction items) auto
  then show "fold batch_effect (map (\<lambda>(s, v, _). Put (WalCf (to_be_bytes s)) v) items) r k = r k"
    by (simp add: puts_effect rev map_add_def)
qed

text \<open>A batch \<open>items\<close> that \<open>build_batch\<close> may give for \<open>bundles\<close>, and the rows once it is written.\<close>

definition batch_of :: "('d, 'b) wal_env \<Rightarrow> ('d, 'b) rocksdb_wal \<Rightarrow> 'b wal_append_bundle list
    \<Rightarrow> (u64 \<times> u8 list \<times> 'b prepared_wal_slot option) list \<Rightarrow> bool" where
  "batch_of env w bundles items \<longleftrightarrow> unat (wal_seq w) + length bundles < 2 ^ 64
     \<and> map fst items = next_seqs w (length bundles)
     \<and> list_all2 (\<lambda>b (_, v, _). \<exists>p. decode_wal_value (env_arrow env) (env_bin env) (wal_fmt w) v = Inr (p, wb_entry b)) bundles items"

lemma batch_values:
  assumes "batch_of env w bundles items"
  shows "distinct (map fst items)"
    and "s \<in> set (next_seqs w (length bundles)) \<Longrightarrow>
      \<exists>v p e. map_of (map (\<lambda>(s, v, _). (s, v)) items) s = Some v
        \<and> decode_wal_value (env_arrow env) (env_bin env) (wal_fmt w) v = Inr (p, e)
        \<and> map_of (zip (next_seqs w (length bundles)) (map wb_entry bundles)) s = Some e"
    and "s \<notin> set (next_seqs w (length bundles)) \<Longrightarrow> map_of (map (\<lambda>(s, v, _). (s, v)) items) s = None"
    and "s \<notin> set (next_seqs w (length bundles)) \<Longrightarrow> map_of (zip (next_seqs w (length bundles)) (map wb_entry bundles)) s = None"
proof -
  let ?ks = "next_seqs w (length bundles)"
  have seqs: "map fst items = ?ks"
    and vals: "list_all2 (\<lambda>b (_, v, _). \<exists>p. decode_wal_value (env_arrow env) (env_bin env) (wal_fmt w) v = Inr (p, wb_entry b)) bundles items"
    using assms by (simp_all add: batch_of_def)
  show dist: "distinct (map fst items)"
    using assms next_seqs_sorted(1) [of w "length bundles"] by (simp add: batch_of_def strict_sorted_iff)
  have len: "length items = length bundles" using arg_cong [OF seqs, of length] by simp
  show "map_of (map (\<lambda>(s, v, _). (s, v)) items) s = None" if "s \<notin> set ?ks"
    using that unfolding seqs [symmetric] map_of_eq_None_iff by (force simp: split_def)
  show "map_of (zip ?ks (map wb_entry bundles)) s = None" if "s \<notin> set ?ks"
    using that by (simp add: map_of_zip_is_None)
  assume "s \<in> set ?ks"
  then obtain i where i: "i < length bundles" "s = ?ks ! i" by (auto simp: in_set_conv_nth)
  have "map_of (map (\<lambda>(s, v, _). (s, v)) items) s = Some (fst (snd (items ! i)))"
  proof (rule map_of_is_SomeI)
    show "distinct (map fst (map (\<lambda>(s, v, _). (s, v)) items))" using dist by (simp add: comp_def split_def)
    have "fst (items ! i) = s" using arg_cong [OF seqs, of "\<lambda>xs. xs ! i"] i len by simp
    then show "(s, fst (snd (items ! i))) \<in> set (map (\<lambda>(s, v, _). (s, v)) items)"
      using i len by (force simp: in_set_conv_nth split_def)
  qed
  moreover have "map_of (zip ?ks (map wb_entry bundles)) s = Some (wb_entry (bundles ! i))"
    using map_of_zip_nth [of ?ks "map wb_entry bundles" i] dist i by (simp add: seqs)
  moreover have "\<exists>p. decode_wal_value (env_arrow env) (env_bin env) (wal_fmt w) (fst (snd (items ! i))) = Inr (p, wb_entry (bundles ! i))"
    using list_all2_nthD [OF vals i(1)] by (simp add: split_def)
  ultimately show "\<exists>v p e. map_of (map (\<lambda>(s, v, _). (s, v)) items) s = Some v
        \<and> decode_wal_value (env_arrow env) (env_bin env) (wal_fmt w) v = Inr (p, e)
        \<and> map_of (zip ?ks (map wb_entry bundles)) s = Some e" by blast
qed

lemma appended_rows:
  assumes ok: "wal_ok env rows w" and items: "batch_of env w bundles items"
    and d': "rows d' = fold batch_effect (map (\<lambda>(s, v, _). Put (WalCf (to_be_bytes s)) v) items) (rows (wal_db w))"
  shows "wal_log env (wal_fmt w) rows d' =
      wal_log env (wal_fmt w) rows (wal_db w) ++ map_of (zip (next_seqs w (length bundles)) (map wb_entry bundles))"
    and "seq_rows rows d' = seq_rows rows (wal_db w) \<union> set (next_seqs w (length bundles))"
proof -
  note B = batch_values [OF items]
  note R = puts_rows [OF B(1), where r = "rows (wal_db w)", folded d']
  show "wal_log env (wal_fmt w) rows d' =
      wal_log env (wal_fmt w) rows (wal_db w) ++ map_of (zip (next_seqs w (length bundles)) (map wb_entry bundles))"
  proof
    fix s
    show "wal_log env (wal_fmt w) rows d' s =
      (wal_log env (wal_fmt w) rows (wal_db w) ++ map_of (zip (next_seqs w (length bundles)) (map wb_entry bundles))) s"
    proof (cases "s \<in> set (next_seqs w (length bundles))")
      case True
      from B(2) [OF this] show ?thesis by (auto simp: wal_log_def R(1))
    next
      case False
      show ?thesis by (simp only: wal_log_def R(1) map_add_def B(3,4) [OF False] option.case)
    qed
  qed
  have "s \<in> seq_rows rows d' \<longleftrightarrow> s \<in> seq_rows rows (wal_db w) \<or> s \<in> set (next_seqs w (length bundles))" for s
    using B(2) [of s] B(3) [of s] by (cases "s \<in> set (next_seqs w (length bundles))") (auto simp: seq_rows_def R(1))
  then show "seq_rows rows d' = seq_rows rows (wal_db w) \<union> set (next_seqs w (length bundles))" by auto
qed

lemma appended_db_ok:
  assumes ok: "wal_ok env rows w" and items: "batch_of env w bundles items"
    and d': "rows d' = fold batch_effect (map (\<lambda>(s, v, _). Put (WalCf (to_be_bytes s)) v) items) (rows (wal_db w))"
  shows "db_ok env (wal_fmt w) rows d'"
  unfolding db_ok_def
proof (intro allI impI)
  note B = batch_values [OF items]
  note R = puts_rows [OF B(1), where r = "rows (wal_db w)", folded d']
  fix k v
  assume row: "rows d' (WalCf k) = Some v"
  show "length k = 8 \<and> (\<exists>p e. decode_wal_value (env_arrow env) (env_bin env) (wal_fmt w) v = Inr (p, e))"
  proof (cases "\<exists>s\<in>set (next_seqs w (length bundles)). k = to_be_bytes s")
    case True
    then obtain s where s: "s \<in> set (next_seqs w (length bundles))" "k = to_be_bytes s" by blast
    from B(2) [OF s(1)] row show ?thesis by (auto simp: s(2) R(1))
  next
    case False
    have "rows (wal_db w) (WalCf k) = Some v"
    proof (cases "\<exists>s. k = to_be_bytes s")
      case True
      then obtain s where s: "k = to_be_bytes s" by blast
      then have "s \<notin> set (next_seqs w (length bundles))" using False by blast
      from B(3) [OF this] row show ?thesis by (simp add: s R(1))
    next
      case False
      then show ?thesis using row R(2) [of "WalCf k"] by simp
    qed
    from db_okD [OF wal_okD(1) [OF ok] this] show ?thesis .
  qed
qed

lemma cache_inserts:
  fixes items :: "(u64 \<times> u8 list \<times> 'b prepared_wal_slot option) list"
  assumes "bm_wf m" and "\<forall>s slot. bm_get m s = Some slot \<longrightarrow> s \<le> n" and "\<forall>x\<in>set items. fst x \<le> n"
  shows "bm_wf (fold (\<lambda>(s, _, slot). case slot of None \<Rightarrow> id | Some sl \<Rightarrow> bm_insert s sl) items m) \<and>
    (\<forall>s slot. bm_get (fold (\<lambda>(s, _, slot). case slot of None \<Rightarrow> id | Some sl \<Rightarrow> bm_insert s sl) items m) s = Some slot \<longrightarrow> s \<le> n)"
  using assms
proof (induction items arbitrary: m)
  case (Cons x items)
  obtain s v slot where x: "x = (s, v, slot)" by (cases x) auto
  show ?case
  proof (cases slot)
    case None
    with Cons x show ?thesis by simp
  next
    case (Some sl)
    have "bm_wf (bm_insert s sl m)" "\<forall>k slot. bm_get (bm_insert s sl m) k = Some slot \<longrightarrow> k \<le> n"
      using Cons.prems x by (auto simp: bm.wf_ins bm.get_ins split: if_splits)
    with Cons.IH [of "bm_insert s sl m"] Cons.prems x Some show ?thesis by simp
  qed
qed simp

lemma cache_origin:
  fixes items :: "(u64 \<times> u8 list \<times> 'b prepared_wal_slot option) list"
  assumes "bm_wf m"
    and "bm_get (fold (\<lambda>(s, _, slot). case slot of None \<Rightarrow> id | Some sl \<Rightarrow> bm_insert s sl) items m) s = Some slot"
  shows "bm_get m s = Some slot \<or> (\<exists>v. (s, v, Some slot) \<in> set items)"
  using assms
proof (induction items arbitrary: m)
  case (Cons x items)
  obtain k v sl where x: "x = (k, v, sl)" by (cases x) auto
  show ?case
  proof (cases sl)
    case None
    with Cons x show ?thesis by auto
  next
    case (Some slot')
    with Cons.IH [of "bm_insert k slot' m"] Cons.prems x show ?thesis
      by (auto simp: bm.wf_ins bm.get_ins split: if_splits)
  qed
qed simp

lemma recovered_appended:
  assumes "\<forall>s\<in>A. s \<le> n" and "seq_rows rows d' = A \<union> B" and "\<forall>s\<in>B. s \<le> n" and "n \<in> B"
  shows "recovered rows d' = n"
  using assms by (auto simp: recovered_def intro!: Max_eqI)

lemma bigger_seq_ok:
  assumes ok: "wal_ok env rows w" and n: "wal_seq w \<le> n" and "seq_rows rows d' = seq_rows rows (wal_db w)"
    "db_ok env (wal_fmt w) rows d'" "recovered rows d' = recovered rows (wal_db w)"
  shows "wal_ok env rows (w\<lparr>wal_db := d', wal_seq := n\<rparr>)"
  using assms unfolding wal_ok_def by (auto simp: word_le_nat_alt)

lemma appended_wal_ok:
  assumes ok: "wal_ok env rows w" and items: "batch_of env w bundles items" and ne: "bundles \<noteq> []"
    and n: "n = wal_seq w + word_of_nat (length bundles)"
    and d: "rows d = fold batch_effect (map (\<lambda>(s, v, _). Put (WalCf (to_be_bytes s)) v) items) (rows (wal_db w))"
    and sz: "sorted_wrt (<) (map fst sz)" "\<forall>x\<in>set sz. fst x \<le> n"
    and m: "bm_wf m" "\<forall>s slot. bm_get m s = Some slot \<longrightarrow> s \<le> n"
  shows "wal_ok env rows (w\<lparr>wal_db := d, wal_seq := n, wal_sizes := sz, wal_cache := m\<rparr>)" and "recovered rows d = n"
proof -
  have room: "unat (wal_seq w) + length bundles < 2 ^ 64" using items by (simp add: batch_of_def)
  note N = next_seqs_sorted [OF room, folded n]
  note A = appended_rows(2) [OF ok items d]
  have ge: "wal_seq w \<le> n" using N(4) by (simp add: word_le_nat_alt)
  have "wal_truncated_through w \<le> s" if "s \<in> set (next_seqs w (length bundles))" for s
    using N(2) [OF that] wal_okD(3) [OF ok] by (simp add: word_le_nat_alt word_less_nat_alt)
  then have rng: "\<forall>s\<in>seq_rows rows d. wal_truncated_through w \<le> s \<and> s \<le> n"
    using A wal_okD(2) [OF ok] N(2) ge by (auto intro: order_trans)
  show rec: "recovered rows d = n"
    using wal_okD(2) [OF ok] ge N(2,3) ne A
    by (intro recovered_appended [where A = "seq_rows rows (wal_db w)"]) (auto intro: order_trans)
  have "unat (wal_truncated_through w) \<le> Suc (unat n)"
    using wal_okD(3) [OF ok] ge by (simp add: word_le_nat_alt)
  then show "wal_ok env rows (w\<lparr>wal_db := d, wal_seq := n, wal_sizes := sz, wal_cache := m\<rparr>)"
    using appended_db_ok [OF ok items d] rng rec sz m by (simp add: wal_ok_def)
qed

text \<open>What the in-memory state of an acknowledged append is.\<close>

lemma appended_memory:
  fixes w :: "('d, 'b) rocksdb_wal"
  assumes ok: "wal_ok env rows w" and items: "batch_of env w bundles items" and n: "n = wal_seq w + word_of_nat (length bundles)"
  shows "sorted_wrt (<) (map fst (wal_sizes w @ map (\<lambda>(s, v, _). (s, word_of_nat (length v) :: u64)) items))"
    and "\<forall>x\<in>set (wal_sizes w @ map (\<lambda>(s, v, _). (s, word_of_nat (length v) :: u64)) items). fst x \<le> n"
    and "bm_wf (fold (\<lambda>(s, _, slot). case slot of None \<Rightarrow> id | Some sl \<Rightarrow> bm_insert s sl) items (wal_cache w)) \<and>
      (\<forall>s slot. bm_get (fold (\<lambda>(s, _, slot). case slot of None \<Rightarrow> id | Some sl \<Rightarrow> bm_insert s sl) items (wal_cache w)) s = Some slot \<longrightarrow> s \<le> n)"
    and "\<forall>x\<in>set (wal_sizes w). fst x \<le> n" and "\<forall>s slot. bm_get (wal_cache w) s = Some slot \<longrightarrow> s \<le> n"
proof -
  have room: "unat (wal_seq w) + length bundles < 2 ^ 64" and seqs: "map fst items = next_seqs w (length bundles)"
    using items by (simp_all add: batch_of_def)
  note N = next_seqs_sorted [OF room, folded n]
  have ge: "wal_seq w \<le> n" using N(4) by (simp add: word_le_nat_alt)
  show old: "\<forall>x\<in>set (wal_sizes w). fst x \<le> n" "\<forall>s slot. bm_get (wal_cache w) s = Some slot \<longrightarrow> s \<le> n"
    using wal_okD(5,7) [OF ok] ge order_trans by blast+
  have "map fst (map (\<lambda>(s, v, _). (s, word_of_nat (length v) :: u64)) items) = next_seqs w (length bundles)"
    using seqs by (simp add: comp_def split_def)
  then show "sorted_wrt (<) (map fst (wal_sizes w @ map (\<lambda>(s, v, _). (s, word_of_nat (length v) :: u64)) items))"
    using wal_okD(6) [OF ok] N(1,2) wal_okD(7) [OF ok]
    by (auto simp: sorted_wrt_append simp del: map_map intro: le_less_trans)
  have "fst x \<in> set (next_seqs w (length bundles))" if "x \<in> set items" for x using that seqs by (metis image_eqI set_map)
  then have le: "\<forall>x\<in>set items. fst x \<le> n" using N(2) by blast
  then show "\<forall>x\<in>set (wal_sizes w @ map (\<lambda>(s, v, _). (s, word_of_nat (length v) :: u64)) items). fst x \<le> n" using old(1) by auto
  from cache_inserts [OF wal_okD(4) [OF ok] old(2) le]
  show "bm_wf (fold (\<lambda>(s, _, slot). case slot of None \<Rightarrow> id | Some sl \<Rightarrow> bm_insert s sl) items (wal_cache w)) \<and>
      (\<forall>s slot. bm_get (fold (\<lambda>(s, _, slot). case slot of None \<Rightarrow> id | Some sl \<Rightarrow> bm_insert s sl) items (wal_cache w)) s = Some slot \<longrightarrow> s \<le> n)" .
qed

text \<open>The state after an append is as before but for the counter, or has the whole batch.\<close>

lemma append_cases:
  assumes env: "env_ok env rows" and ok: "wal_ok env rows w" and room: "unat (wal_seq w) + length bundles < 2 ^ 64"
    and faithful: "faithful env (wal_fmt w) bundles pre" and w': "write_bundle_batch env bundles pre w = (w', res)"
    and ne: "bundles \<noteq> []" and n: "n = wal_seq w + word_of_nat (length bundles)"
  obtains (unchanged) d e where "rows d = rows (wal_db w)" "w' = w\<lparr>wal_db := d, wal_seq := n\<rparr>" "res = Inl e"
    | (written) d items sz m where "batch_of env w bundles items"
      "rows d = fold batch_effect (map (\<lambda>(s, v, _). Put (WalCf (to_be_bytes s)) v) items) (rows (wal_db w))"
      "sorted_wrt (<) (map fst sz)" "\<forall>x\<in>set sz. fst x \<le> n" "bm_wf m" "\<forall>s slot. bm_get m s = Some slot \<longrightarrow> s \<le> n"
      "w' = w\<lparr>wal_db := d, wal_seq := n, wal_sizes := sz, wal_cache := m\<rparr>" "\<forall>ss. res = Inr ss \<longrightarrow> ss = next_seqs w (length bundles)"
      "build_batch env (wal_fmt w) (wal_seq w + 1) bundles pre = Inr items"
      "\<forall>s slot. bm_get m s = Some slot \<longrightarrow> bm_get (wal_cache w) s = Some slot \<or> (\<exists>v. (s, v, Some slot) \<in> set items)"
proof (cases "build_batch env (wal_fmt w) (wal_seq w + 1) bundles pre")
  case (Inl e)
  with w' ne n show ?thesis by (intro unchanged [of "wal_db w" e]) (auto simp: write_bundle_batch_def)
next
  case (Inr items)
  have items: "batch_of env w bundles items"
    using build_batch_seqs [OF Inr] faithful Inr room by (simp add: batch_of_def faithful_def next_seqs_def)
  note M = appended_memory [OF ok items n]
  obtain d r where wr: "rdb_write (env_kv env) (wal_db w) (map (\<lambda>(s, v, _). Put (WalCf (to_be_bytes s)) v) items) = (d, r)"
    by fastforce
  show ?thesis
  proof (cases r)
    case e: (Inl e)
    have eq: "w' = w\<lparr>wal_db := d, wal_seq := n\<rparr>" "res = Inl (StoreError e)"
      using w' ne Inr wr e n by (auto simp: write_bundle_batch_def)
    from write_outcome [OF env_okD(1,2) [OF env] wr] show ?thesis
    proof
      assume "rows d = fold batch_effect (map (\<lambda>(s, v, _). Put (WalCf (to_be_bytes s)) v) items) (rows (wal_db w))"
      from written [OF items this wal_okD(6) [OF ok] M(4) wal_okD(4) [OF ok] M(5) _ _ Inr] show ?thesis using eq by simp
    qed (use unchanged [OF _ eq] in blast)
  next
    case u: (Inr u)
    let ?m = "if wal_arrow_enabled w
      then fold (\<lambda>(s, _, slot). case slot of None \<Rightarrow> id | Some sl \<Rightarrow> bm_insert s sl) items (wal_cache w) else wal_cache w"
    have m: "bm_wf ?m" "\<forall>s slot. bm_get ?m s = Some slot \<longrightarrow> s \<le> n" using M(3,5) wal_okD(4) [OF ok] by simp_all
    have "rows d = fold batch_effect (map (\<lambda>(s, v, _). Put (WalCf (to_be_bytes s)) v) items) (rows (wal_db w))"
      using rdb_write_rows [OF env_okD(1) [OF env]] wr u by simp
    from written [OF items this M(1,2) m _ _ Inr] cache_origin [OF wal_okD(4) [OF ok], of items] show ?thesis
      using w' ne Inr wr u n items by (auto simp: write_bundle_batch_def Let_def batch_of_def)
  qed
qed

lemma same_rows:
  assumes "rows d = rows (wal_db w)"
  shows "wal_log env fmt rows d = wal_log env fmt rows (wal_db w)" and "recovered rows d = recovered rows (wal_db w)"
    and "seq_rows rows d = seq_rows rows (wal_db w)" and "db_ok env fmt rows d = db_ok env fmt rows (wal_db w)"
  using assms by (simp_all add: wal_log_def fun_eq_iff recovered_def seq_rows_def db_ok_def)

lemma wal_ok_db: "wal_ok env rows w \<Longrightarrow> rows d = rows (wal_db w) \<Longrightarrow> wal_ok env rows (w\<lparr>wal_db := d\<rparr>)"
  unfolding wal_ok_def by (simp add: same_rows [of rows d w])

lemma append_ok:
  assumes env: "env_ok env rows" and ok: "wal_ok env rows w" and room: "unat (wal_seq w) + length bundles < 2 ^ 64"
    and faithful: "faithful env (wal_fmt w) bundles pre" and w': "write_bundle_batch env bundles pre w = (w', res)"
  shows "wal_ok env rows w'" and "wal_seq w' = wal_seq w + word_of_nat (length bundles)"
    and "wal_fmt w' = wal_fmt w" and "wal_arrow_enabled w' = wal_arrow_enabled w" and "wal_flushed_through w' = wal_flushed_through w"
    and "wal_truncated_through w' = wal_truncated_through w"
    and "wal_log env (wal_fmt w) rows (wal_db w') = wal_log env (wal_fmt w) rows (wal_db w) \<and> recovered rows (wal_db w') = recovered rows (wal_db w)
        \<and> (\<forall>ss. res = Inr ss \<longrightarrow> bundles = [] \<and> ss = [])
       \<or> wal_log env (wal_fmt w) rows (wal_db w') =
           wal_log env (wal_fmt w) rows (wal_db w) ++ map_of (zip (next_seqs w (length bundles)) (map wb_entry bundles))
         \<and> recovered rows (wal_db w') = wal_seq w' \<and> (\<forall>ss. res = Inr ss \<longrightarrow> ss = next_seqs w (length bundles))" (is ?log)
proof -
  define n where "n = wal_seq w + word_of_nat (length bundles)"
  have ge: "wal_seq w \<le> n" using next_seqs_sorted(4) [OF room] by (simp add: n_def word_le_nat_alt)
  have "wal_ok env rows w' \<and> wal_seq w' = n \<and> wal_fmt w' = wal_fmt w \<and> wal_arrow_enabled w' = wal_arrow_enabled w
    \<and> wal_flushed_through w' = wal_flushed_through w \<and> wal_truncated_through w' = wal_truncated_through w \<and> ?log"
  proof (cases "bundles = []")
    case True
    with w' ok show ?thesis by (auto simp: write_bundle_batch_def n_def)
  next
    case False
    show ?thesis
    proof (cases rule: append_cases [OF env ok room faithful w' False n_def])
      case unchanged: (1 d e)
      have "wal_ok env rows w'"
        unfolding unchanged(2)
        by (intro bigger_seq_ok [OF ok ge]) (simp_all add: same_rows [OF unchanged(1)] wal_okD(1) [OF ok])
      with unchanged show ?thesis by (simp add: same_rows [OF unchanged(1)])
    next
      case written: (2 d items sz m)
      with appended_wal_ok [OF ok written(1) False n_def written(2-6)] appended_rows(1) [OF ok written(1,2)] show ?thesis by auto
    qed
  qed
  then show "wal_ok env rows w'" "wal_seq w' = wal_seq w + word_of_nat (length bundles)" "wal_fmt w' = wal_fmt w"
    "wal_arrow_enabled w' = wal_arrow_enabled w" "wal_flushed_through w' = wal_flushed_through w"
    "wal_truncated_through w' = wal_truncated_through w" ?log
    unfolding n_def by blast+
qed

section \<open>Truncating\<close>

lemma deletes_rows:
  "fold batch_effect (map (\<lambda>k. Delete (WalCf (to_be_bytes k))) ks) r k =
     (if \<exists>s\<in>set ks. k = WalCf (to_be_bytes s) then None else r k)"
  by (induction ks arbitrary: r) auto

lemma seqs_between_set: "set (seqs_between a b) = {s. a \<le> s \<and> s < b}"
proof (intro set_eqI iffI)
  fix s
  assume "s \<in> set (seqs_between a b)"
  then obtain i where i: "unat a \<le> i" "i < unat b" "s = word_of_nat i" by (auto simp: seqs_between_def)
  then have "unat s = i" using unat_lt_64 [of b] by (simp add: unat_of_nat_small)
  with i show "s \<in> {s. a \<le> s \<and> s < b}" by (simp add: word_le_nat_alt word_less_nat_alt)
next
  fix s
  assume "s \<in> {s. a \<le> s \<and> s < b}"
  then have "unat s \<in> set [unat a..<unat b]" by (simp add: word_le_nat_alt word_less_nat_alt)
  then have "word_of_nat (unat s) \<in> set (seqs_between a b)" unfolding seqs_between_def set_map by (rule imageI)
  then show "s \<in> set (seqs_between a b)" by simp
qed

text \<open>Point deletes and the range delete have the same effect on the numbered rows.\<close>

definition truncate_ops :: "u64 \<Rightarrow> u64 \<Rightarrow> u64 \<Rightarrow> (wal_key, u8 list) batch_op list" where
  "truncate_ops from s last_seq =
     (if TRUNCATE_POINT_DELETES_MAX < s - from then [DeleteRange (WalCf (to_be_bytes from)) (WalCf (to_be_bytes s))]
      else map (\<lambda>k. Delete (WalCf (to_be_bytes k))) (seqs_between from s))
     @ [Put LAST_SEQ_KEY (to_be_bytes last_seq)]"

lemma truncate_ops_rows:
  "fold batch_effect (truncate_ops from s n) r (WalCf (to_be_bytes k)) =
     (if from \<le> k \<and> k < s then None else r (WalCf (to_be_bytes k)))"
  "fold batch_effect (truncate_ops from s n) r LAST_SEQ_KEY = Some (to_be_bytes n)"
  "fold batch_effect (truncate_ops from s n) r (WalCf x) = Some v \<Longrightarrow> r (WalCf x) = Some v"
  by (auto simp: truncate_ops_def deletes_rows seqs_between_set LAST_SEQ_KEY_def split: if_splits)

lemma truncated_rows:
  assumes ok: "wal_ok env rows w" and s: "wal_truncated_through w < s" "unat s \<le> Suc (unat (wal_seq w))"
    and d: "rows d = fold batch_effect (truncate_ops (wal_truncated_through w) s (wal_seq w)) (rows (wal_db w))"
  shows "seq_rows rows d = {k \<in> seq_rows rows (wal_db w). s \<le> k}"
    and "wal_log env fmt rows d = (\<lambda>k. if k < s then None else wal_log env fmt rows (wal_db w) k)"
    and "db_ok env (wal_fmt w) rows d" and "recovered rows (wal_db w) \<le> recovered rows d" and "recovered rows d \<le> wal_seq w"
proof -
  note T = truncate_ops_rows [of "wal_truncated_through w" s "wal_seq w" "rows (wal_db w)", folded d]
  have none: "rows (wal_db w) (WalCf (to_be_bytes k)) = None" if "k < wal_truncated_through w" for k
    using wal_okD(2) [OF ok, of k] that by (cases "rows (wal_db w) (WalCf (to_be_bytes k))") (auto simp: seq_rows_def)
  have row: "rows d (WalCf (to_be_bytes k)) = (if k < s then None else rows (wal_db w) (WalCf (to_be_bytes k)))" for k
    using none [of k] s(1) by (auto simp: T(1) not_le)
  show S: "seq_rows rows d = {k \<in> seq_rows rows (wal_db w). s \<le> k}" by (auto simp: seq_rows_def row not_less)
  show "wal_log env fmt rows d = (\<lambda>k. if k < s then None else wal_log env fmt rows (wal_db w) k)"
    by (auto simp: wal_log_def row fun_eq_iff)
  show "db_ok env (wal_fmt w) rows d"
    using wal_okD(1) [OF ok] T(3) unfolding db_ok_def by blast
  have "recovered rows (wal_db w) \<le> recovered rows d \<and> recovered rows d \<le> wal_seq w"
  proof (cases "seq_rows rows d = {}")
    case True
    then have "recovered rows d = wal_seq w" by (simp add: recovered_def T(2))
    then show ?thesis using wal_okD(8) [OF ok] by simp
  next
    case False
    then have ne: "seq_rows rows (wal_db w) \<noteq> {}" using S by blast
    from False obtain k where k: "k \<in> seq_rows rows (wal_db w)" "s \<le> k" using S by blast
    have "Max (seq_rows rows (wal_db w)) \<in> seq_rows rows d"
      using Max_in [OF _ ne] Max_ge [OF _ k(1)] k(2) S by auto
    then have "Max (seq_rows rows (wal_db w)) \<le> Max (seq_rows rows d)" by simp
    moreover have "Max (seq_rows rows d) \<le> wal_seq w"
      using Max_in [OF _ False] S wal_okD(2) [OF ok] by auto
    ultimately show ?thesis using False ne by (simp add: recovered_def)
  qed
  then show "recovered rows (wal_db w) \<le> recovered rows d" "recovered rows d \<le> wal_seq w" by simp_all
qed

lemma wal_ok_memory:
  assumes "wal_ok env rows w" and "sorted_wrt (<) (map fst sz)" "set sz \<subseteq> set (wal_sizes w)"
    and "bm_wf m" "\<And>s slot. bm_get m s = Some slot \<Longrightarrow> bm_get (wal_cache w) s = Some slot"
  shows "wal_ok env rows (w\<lparr>wal_cache := m, wal_sizes := sz\<rparr>)"
  using assms unfolding wal_ok_def by auto

lemma truncate_cases:
  assumes env: "env_ok env rows" and w': "truncate_before env s w = (w', res)"
    and w1: "w1 = w\<lparr>wal_cache := cache_truncate_before s (wal_cache w), wal_sizes := dropWhile (\<lambda>(k, _). k < s) (wal_sizes w)\<rparr>"
  obtains (below) "s \<le> wal_truncated_through w" "w' = w1" "res = Inr ()"
    | (failed) d e where "wal_truncated_through w < s" "rows d = rows (wal_db w)" "w' = w1\<lparr>wal_db := d\<rparr>" "res = Inl e"
    | (deleted) d n t where "wal_truncated_through w < s"
      "rows d = fold batch_effect (truncate_ops (wal_truncated_through w) s (wal_seq w)) (rows (wal_db w))"
      "w' = w1\<lparr>wal_db := d, wal_truncated_through := t, wal_range_deletes_unflushed := n\<rparr>" "t = wal_truncated_through w \<or> t = s"
      "res = Inr () \<Longrightarrow> t = s"
proof (cases "s \<le> wal_truncated_through w")
  case True
  with w' w1 show ?thesis by (intro below) (simp_all add: truncate_before_def Let_def)
next
  case False
  then have lt: "wal_truncated_through w < s" by simp
  obtain d r where wr: "rdb_write (env_kv env) (wal_db w) (truncate_ops (wal_truncated_through w) s (wal_seq w)) = (d, r)" by fastforce
  note wr' = wr [unfolded truncate_ops_def]
  show ?thesis
  proof (cases r)
    case (Inl e)
    have eq: "w' = w1\<lparr>wal_db := d\<rparr>" "res = Inl (StoreError e)"
      using w' False wr' Inl w1 by (auto simp: truncate_before_def Let_def split: if_splits)
    from write_outcome [OF env_okD(1,2) [OF env] wr] show ?thesis
    proof
      assume "rows d = rows (wal_db w)"
      from failed [OF lt this eq] show ?thesis .
    next
      assume "rows d = fold batch_effect (truncate_ops (wal_truncated_through w) s (wal_seq w)) (rows (wal_db w))"
      from deleted [OF lt this, of "wal_range_deletes_unflushed w" "wal_truncated_through w"] show ?thesis using eq w1 by simp
    qed
  next
    case (Inr u)
    have d: "rows d = fold batch_effect (truncate_ops (wal_truncated_through w) s (wal_seq w)) (rows (wal_db w))"
      using rdb_write_rows [OF env_okD(1) [OF env]] wr Inr by simp
    obtain d2 r2 where fl: "env_flush_cf env d = (d2, r2)" by fastforce
    then have d2: "rows d2 = fold batch_effect (truncate_ops (wal_truncated_through w) s (wal_seq w)) (rows (wal_db w))"
      using env_okD(3) [OF env fl] d by simp
    have "max (wal_truncated_through w) s = s" using lt by simp
    then have "\<exists>d' n. (d' = d \<or> d' = d2) \<and>
        w' = w1\<lparr>wal_db := d', wal_truncated_through := s, wal_range_deletes_unflushed := n\<rparr>"
      using w' False wr' Inr fl unfolding w1 by (cases w) (auto simp: truncate_before_def Let_def split: if_splits sum.splits)
    then obtain d' n where "rows d' = rows d" "w' = w1\<lparr>wal_db := d', wal_truncated_through := s, wal_range_deletes_unflushed := n\<rparr>"
      using d d2 by auto
    then show ?thesis using d by (intro deleted [OF lt]) auto
  qed
qed

lemma dropWhile_sorted:
  assumes "sorted_wrt (<) (map fst xs)"
  shows "sorted_wrt (<) (map fst (dropWhile (\<lambda>(k, _). k < (s :: u64)) xs))"
    and "dropWhile (\<lambda>(k, _). k < s) xs = filter (\<lambda>(k, _). s \<le> k) xs"
proof -
  have "sorted_wrt (<) (dropWhile (\<lambda>k. k < s) (map fst xs))" by (rule sorted_wrt_dropWhile [OF assms])
  then show "sorted_wrt (<) (map fst (dropWhile (\<lambda>(k, _). k < s) xs))"
    by (simp add: dropWhile_map comp_def split_def)
  show "dropWhile (\<lambda>(k, _). k < s) xs = filter (\<lambda>(k, _). s \<le> k) xs"
    using assms
  proof (induction xs)
    case (Cons x xs)
    show ?case
    proof (cases "fst x < s")
      case True
      with Cons show ?thesis by (auto simp: split_def not_le)
    next
      case False
      have "filter (\<lambda>(k, _). s \<le> k) xs = xs"
        using Cons.prems False by (intro filter_True) (auto simp: split_def not_less dest: order.strict_trans1)
      with False show ?thesis by (auto simp: split_def)
    qed
  qed simp
qed

lemma truncate_ok:
  assumes env: "env_ok env rows" and ok: "wal_ok env rows w" and s: "unat s \<le> Suc (unat (wal_seq w))"
    and w': "truncate_before env s w = (w', res)"
  shows "wal_ok env rows w'" and "wal_seq w' = wal_seq w" and "wal_fmt w' = wal_fmt w"
    and "wal_arrow_enabled w' = wal_arrow_enabled w" and "wal_flushed_through w' = wal_flushed_through w"
    and "wal_log env fmt rows (wal_db w') = (\<lambda>k. if k < s then None else wal_log env fmt rows (wal_db w) k)
      \<or> wal_log env fmt rows (wal_db w') = wal_log env fmt rows (wal_db w) \<and> res \<noteq> Inr ()"
    and "recovered rows (wal_db w) \<le> recovered rows (wal_db w')"
proof -
  define w1 where "w1 = w\<lparr>wal_cache := cache_truncate_before s (wal_cache w), wal_sizes := dropWhile (\<lambda>(k, _). k < s) (wal_sizes w)\<rparr>"
  have ok1: "wal_ok env rows w1"
    unfolding w1_def
    using wal_okD(4,6) [OF ok] dropWhile_sorted(1) [OF wal_okD(6) [OF ok]]
    by (intro wal_ok_memory [OF ok])
      (auto simp: cache_truncate_before_def bm.wf_retain bm.get_retain dest: set_dropWhileD split: if_splits)
  have w1: "wal_db w1 = wal_db w" "wal_seq w1 = wal_seq w" "wal_truncated_through w1 = wal_truncated_through w" "wal_fmt w1 = wal_fmt w"
    by (simp_all add: w1_def)
  have "wal_ok env rows w' \<and> wal_seq w' = wal_seq w \<and> wal_fmt w' = wal_fmt w \<and> wal_arrow_enabled w' = wal_arrow_enabled w
    \<and> wal_flushed_through w' = wal_flushed_through w
    \<and> (wal_log env fmt rows (wal_db w') = (\<lambda>k. if k < s then None else wal_log env fmt rows (wal_db w) k)
       \<or> wal_log env fmt rows (wal_db w') = wal_log env fmt rows (wal_db w) \<and> res \<noteq> Inr ())
    \<and> recovered rows (wal_db w) \<le> recovered rows (wal_db w')"
  proof (cases rule: truncate_cases [OF env w' w1_def])
    case 1
    have "wal_log env fmt rows (wal_db w) k = None" if "k < s" for k
      using wal_okD(2) [OF ok, of k] 1(1) that
      by (cases "rows (wal_db w) (WalCf (to_be_bytes k))") (auto simp: wal_log_def seq_rows_def)
    with 1 ok1 show ?thesis by (auto simp: w1_def fun_eq_iff)
  next
    case (2 d e)
    have "wal_ok env rows (w1\<lparr>wal_db := d\<rparr>)" using 2(2) w1(1) by (intro wal_ok_db [OF ok1]) simp
    with 2 show ?thesis by (simp add: w1_def same_rows [OF 2(2)])
  next
    case (3 d n t)
    note T = truncated_rows [OF ok 3(1) s 3(2)]
    have "unat t \<le> Suc (unat (wal_seq w))" "t \<le> s" using 3(1,4) s wal_okD(3) [OF ok] by auto
    moreover have "wal_ok env rows w1 \<Longrightarrow> unat t \<le> Suc (unat (wal_seq w)) \<Longrightarrow> t \<le> s \<Longrightarrow> wal_ok env rows w'"
      unfolding 3(3) wal_ok_def using T(3,5) T(1) w1 by (auto intro: order_trans)
    ultimately show ?thesis using ok1 T(2) [of fmt] T(4) 3 by (auto simp: w1_def)
  qed
  then show "wal_ok env rows w'" "wal_seq w' = wal_seq w" "wal_fmt w' = wal_fmt w"
    "wal_arrow_enabled w' = wal_arrow_enabled w" "wal_flushed_through w' = wal_flushed_through w"
    "wal_log env fmt rows (wal_db w') = (\<lambda>k. if k < s then None else wal_log env fmt rows (wal_db w) k)
      \<or> wal_log env fmt rows (wal_db w') = wal_log env fmt rows (wal_db w) \<and> res \<noteq> Inr ()"
    "recovered rows (wal_db w) \<le> recovered rows (wal_db w')" by blast+
qed

section \<open>Prepared slots\<close>

text \<open>
  \<open>holds slot e\<close> says that a prepared slot has the rows of an entry. A writer hands over slots that
  hold the entry they come with; numbering the rows does not change what a slot holds; and a stored
  value that decodes to a slot and an entry has a slot that holds the entry.
\<close>

definition patch_keeps :: "('b prepared_wal_slot \<Rightarrow> wal_entry \<Rightarrow> bool) \<Rightarrow> 'b arrow_ops \<Rightarrow> bool" where
  "patch_keeps holds ops \<longleftrightarrow>
     (\<forall>s slot slot' e. patch_all_ingest_seqs ops s slot = Inr slot' \<longrightarrow> holds slot e \<longrightarrow> holds slot' e)"

definition value_holds :: "('b prepared_wal_slot \<Rightarrow> wal_entry \<Rightarrow> bool) \<Rightarrow> ('d, 'b) wal_env \<Rightarrow> wal_format \<Rightarrow> u8 list \<Rightarrow> bool" where
  "value_holds holds env fmt v \<longleftrightarrow>
     (\<forall>slot e. decode_wal_value (env_arrow env) (env_bin env) fmt v = Inr (Some slot, e) \<longrightarrow> holds slot e)"

definition faithful_slots :: "('b prepared_wal_slot \<Rightarrow> wal_entry \<Rightarrow> bool) \<Rightarrow> ('d, 'b) wal_env \<Rightarrow> wal_format
    \<Rightarrow> 'b wal_append_bundle list \<Rightarrow> u8 list option list \<Rightarrow> bool" where
  "faithful_slots holds env fmt bundles pre \<longleftrightarrow> (\<forall>s items. build_batch env fmt s bundles pre = Inr items \<longrightarrow>
     list_all2 (\<lambda>b (_, v, slot). (\<forall>sl. slot = Some sl \<longrightarrow> holds sl (wb_entry b)) \<and> value_holds holds env fmt v) bundles items)"

definition rows_hold :: "('b prepared_wal_slot \<Rightarrow> wal_entry \<Rightarrow> bool) \<Rightarrow> ('d, 'b) wal_env \<Rightarrow> wal_format
    \<Rightarrow> ('d \<Rightarrow> wal_key \<Rightarrow> u8 list option) \<Rightarrow> 'd \<Rightarrow> bool" where
  "rows_hold holds env fmt rows d \<longleftrightarrow> (\<forall>k v. rows d (WalCf k) = Some v \<longrightarrow> value_holds holds env fmt v)"

text \<open>The cache has slots of entries of the log only, and each holds its entry.\<close>

definition slots_ok :: "('b prepared_wal_slot \<Rightarrow> wal_entry \<Rightarrow> bool) \<Rightarrow> ('d, 'b) wal_env
    \<Rightarrow> ('d \<Rightarrow> wal_key \<Rightarrow> u8 list option) \<Rightarrow> ('d, 'b) rocksdb_wal \<Rightarrow> bool" where
  "slots_ok holds env rows w \<longleftrightarrow> rows_hold holds env (wal_fmt w) rows (wal_db w)
     \<and> (\<forall>s slot. bm_get (wal_cache w) s = Some slot \<longrightarrow>
          (\<exists>e. wal_log env (wal_fmt w) rows (wal_db w) s = Some e \<and> holds slot e))"

lemma slots_okD:
  assumes "slots_ok holds env rows w"
  shows "rows_hold holds env (wal_fmt w) rows (wal_db w)"
    and "bm_get (wal_cache w) s = Some slot \<Longrightarrow> \<exists>e. wal_log env (wal_fmt w) rows (wal_db w) s = Some e \<and> holds slot e"
  using assms by (auto simp: slots_ok_def)

lemma puts_row_origin:
  "fold batch_effect (map (\<lambda>(s, v, _). Put (WalCf (to_be_bytes s)) v) items) r (WalCf k) = Some v \<Longrightarrow>
   r (WalCf k) = Some v \<or> (\<exists>s slot. (s, v, slot) \<in> set items)"
  by (induction items arbitrary: r) (force split: if_splits)+

lemma batch_slot_entry:
  assumes items: "batch_of env w bundles items" and mem: "(s, v, slot) \<in> set items"
    and P: "list_all2 (\<lambda>b (_, v, slot). P b v slot) bundles items"
  obtains b where "P b v slot" "map_of (zip (next_seqs w (length bundles)) (map wb_entry bundles)) s = Some (wb_entry b)"
proof -
  obtain i where i: "i < length items" "items ! i = (s, v, slot)" using mem by (auto simp: in_set_conv_nth)
  have seqs: "map fst items = next_seqs w (length bundles)" using items by (simp add: batch_of_def)
  have len: "length items = length bundles" using arg_cong [OF seqs, of length] by simp
  have "P (bundles ! i) v slot" using list_all2_nthD [OF P, of i] i len by simp
  moreover have "next_seqs w (length bundles) ! i = s" using i by (simp flip: seqs)
  then have "map_of (zip (next_seqs w (length bundles)) (map wb_entry bundles)) s = Some (wb_entry (bundles ! i))"
    using map_of_zip_nth [of "next_seqs w (length bundles)" "map wb_entry bundles" i] batch_values(1) [OF items] i len
    by (simp add: seqs)
  ultimately show ?thesis by (rule that)
qed

lemma append_slots_ok:
  assumes env: "env_ok env rows" and ok: "wal_ok env rows w" and room: "unat (wal_seq w) + length bundles < 2 ^ 64"
    and faithful: "faithful env (wal_fmt w) bundles pre" and slots: "faithful_slots holds env (wal_fmt w) bundles pre"
    and w': "write_bundle_batch env bundles pre w = (w', res)" and so: "slots_ok holds env rows w"
  shows "slots_ok holds env rows w'"
proof (cases "bundles = []")
  case True
  with w' so show ?thesis by (simp add: write_bundle_batch_def)
next
  case False
  define n where "n = wal_seq w + word_of_nat (length bundles)"
  show ?thesis
  proof (cases rule: append_cases [OF env ok room faithful w' False n_def])
    case unchanged: (1 d e)
    with so show ?thesis by (simp add: slots_ok_def rows_hold_def same_rows(1) [OF unchanged(1)])
  next
    case written: (2 d items sz m)
    note A = appended_rows(1) [OF ok written(1,2)]
    have P: "list_all2 (\<lambda>b (_, v, slot). (\<forall>sl. slot = Some sl \<longrightarrow> holds sl (wb_entry b)) \<and> value_holds holds env (wal_fmt w) v) bundles items"
      using slots written(9) by (simp add: faithful_slots_def)
    have new: "value_holds holds env (wal_fmt w) v" if "(s, v, slot) \<in> set items" for s v slot
      using batch_slot_entry [OF written(1) that P] by blast
    have "value_holds holds env (wal_fmt w) v" if "rows d (WalCf k) = Some v" for k v
      using puts_row_origin [OF that [unfolded written(2)]] slots_okD(1) [OF so] new by (auto simp: rows_hold_def)
    moreover have "\<exists>e. wal_log env (wal_fmt w) rows d s = Some e \<and> holds slot e" if m: "bm_get m s = Some slot" for s slot
      using written(10) [rule_format, OF m]
    proof (elim disjE exE)
      assume old: "bm_get (wal_cache w) s = Some slot"
      have "s \<notin> set (next_seqs w (length bundles))" using wal_okD(5) [OF ok old] next_seqs_sorted(2) [OF room, of s] by auto
      from slots_okD(2) [OF so old] show ?thesis
        by (simp only: A map_add_def batch_values(4) [OF written(1) \<open>s \<notin> _\<close>] option.case)
    next
      fix v
      assume mem: "(s, v, Some slot) \<in> set items"
      have "\<exists>e. map_of (zip (next_seqs w (length bundles)) (map wb_entry bundles)) s = Some e \<and> holds slot e"
        using batch_slot_entry [OF written(1) mem P] by blast
      then obtain e where e: "map_of (zip (next_seqs w (length bundles)) (map wb_entry bundles)) s = Some e" "holds slot e" by blast
      have "wal_log env (wal_fmt w) rows d s = Some e" by (simp only: A map_add_def e(1) option.case)
      with e(2) show ?thesis by blast
    qed
    ultimately show ?thesis unfolding written(7) by (simp add: slots_ok_def rows_hold_def)
  qed
qed

lemma truncate_slots_ok:
  assumes env: "env_ok env rows" and ok: "wal_ok env rows w" and s: "unat s \<le> Suc (unat (wal_seq w))"
    and w': "truncate_before env s w = (w', res)" and so: "slots_ok holds env rows w"
  shows "slots_ok holds env rows w'"
proof -
  have cache: "wal_cache w' = cache_truncate_before s (wal_cache w)"
    by (cases rule: truncate_cases [OF env w' refl]) auto
  have "rows (wal_db w') (WalCf k) = Some v \<Longrightarrow> rows (wal_db w) (WalCf k) = Some v" for k v
    by (cases rule: truncate_cases [OF env w' refl]) (auto dest: truncate_ops_rows(3))
  then have "rows_hold holds env (wal_fmt w') rows (wal_db w')"
    using slots_okD(1) [OF so] truncate_ok(3) [OF env ok s w'] unfolding rows_hold_def by metis
  moreover have "\<exists>e. wal_log env (wal_fmt w') rows (wal_db w') k = Some e \<and> holds slot e" if "bm_get (wal_cache w') k = Some slot" for k slot
  proof -
    have "s \<le> k" "bm_get (wal_cache w) k = Some slot"
      using that wal_okD(4) [OF ok] by (auto simp: cache cache_truncate_before_def bm.get_retain split: if_splits)
    with slots_okD(2) [OF so this(2)] truncate_ok(3) [OF env ok s w'] truncate_ok(6) [OF env ok s w', of "wal_fmt w"] show ?thesis
      by (auto dest: leD)
  qed
  ultimately show ?thesis by (simp add: slots_ok_def)
qed

end
