(* ===== verification/Wal_Refinement.thy ===== *)
theory Wal_Refinement
  imports Wal_Log
begin

text \<open>
  What a reader of the write-ahead log sees: pages of the map of \<open>Wal_Log\<close> in order, whatever
  sequence of appends, truncations, failed writes and restarts came before.
\<close>

section \<open>Reading\<close>

text \<open>The entries of the log from a number on, in order.\<close>

definition log_from :: "(u64 \<Rightarrow> wal_entry option) \<Rightarrow> u64 \<Rightarrow> (u64 \<times> wal_entry) list" where
  "log_from l from = map (\<lambda>s. (s, the (l s))) (sorted_list_of_set {s. from \<le> s \<and> l s \<noteq> None})"

lemma read_items_page:
  assumes "\<forall>(k, v)\<in>set items. length k = 8 \<and> (\<exists>p. decode_wal_value (env_arrow env) (env_bin env) fmt v = Inr (p, ent k))"
    and "bm_wf m"
  shows "\<exists>j m'. read_items env fmt en n (map Inr items) results bytes m =
      (m', Inr (results @ map (\<lambda>(k, _). (from_be_bytes k, ent k)) (take j items)))
    \<and> j \<le> length items \<and> (j = length items \<or> n \<le> length results + j \<or> READ_MAX_BYTES \<le> bytes + (\<Sum>(_, v)\<leftarrow>take j items. length v))
    \<and> length results + j \<le> max n (length results)
    \<and> bm_wf m' \<and> (\<forall>s slot. bm_get m' s = Some slot \<longrightarrow> bm_get m s = Some slot \<or>
        (\<exists>(k, v)\<in>set items. s = from_be_bytes k \<and> decode_wal_value (env_arrow env) (env_bin env) fmt v = Inr (Some slot, ent k)))"
  using assms
proof (induction items arbitrary: results bytes m)
  case (Cons x items)
  obtain k v where x: "x = (k, v)" by fastforce
  show ?case
  proof (cases "n \<le> length results \<or> READ_MAX_BYTES \<le> bytes")
    case True
    with Cons.prems(2) show ?thesis by (intro exI [of _ 0] exI [of _ m]) auto
  next
    case False
    obtain p where d: "length k = 8" "decode_wal_value (env_arrow env) (env_bin env) fmt v = Inr (p, ent k)"
      using Cons.prems(1) x by auto
    let ?m = "case p of Some slot \<Rightarrow> if en then bm_insert (from_be_bytes k) slot m else m | None \<Rightarrow> m"
    have m: "bm_wf ?m" "\<And>s slot. bm_get ?m s = Some slot \<Longrightarrow> bm_get m s = Some slot \<or> s = from_be_bytes k \<and> p = Some slot"
      using Cons.prems(2) by (auto simp: bm.wf_ins bm.get_ins split: option.splits if_splits)
    let ?run = "read_items env fmt en n (map Inr items) (results @ [(from_be_bytes k, ent k)]) (bytes + length v) ?m"
    have step: "read_items env fmt en n (map Inr (x # items)) results bytes m = ?run"
      using False d by (simp add: x Let_def)
    obtain j m' where j: "?run = (m', Inr ((results @ [(from_be_bytes k, ent k)]) @ map (\<lambda>(k, _). (from_be_bytes k, ent k)) (take j items)))"
      "j \<le> length items" "j = length items \<or> n \<le> length (results @ [(from_be_bytes k, ent k)]) + j
        \<or> READ_MAX_BYTES \<le> bytes + length v + (\<Sum>(_, v)\<leftarrow>take j items. length v)"
      "length (results @ [(from_be_bytes k, ent k)]) + j \<le> max n (length (results @ [(from_be_bytes k, ent k)]))"
      "bm_wf m'" "\<forall>s slot. bm_get m' s = Some slot \<longrightarrow> bm_get ?m s = Some slot \<or>
        (\<exists>(k, v)\<in>set items. s = from_be_bytes k \<and> decode_wal_value (env_arrow env) (env_bin env) fmt v = Inr (Some slot, ent k))"
      using Cons.IH [OF _ m(1), of "results @ [(from_be_bytes k, ent k)]" "bytes + length v"] Cons.prems(1) by auto
    have cache: "\<forall>s slot. bm_get m' s = Some slot \<longrightarrow> bm_get m s = Some slot \<or>
        (\<exists>(k, v)\<in>set (x # items). s = from_be_bytes k \<and> decode_wal_value (env_arrow env) (env_bin env) fmt v = Inr (Some slot, ent k))"
    proof (intro allI impI)
      fix s slot
      assume "bm_get m' s = Some slot"
      then have "bm_get ?m s = Some slot \<or> (\<exists>(k, v)\<in>set items. s = from_be_bytes k
          \<and> decode_wal_value (env_arrow env) (env_bin env) fmt v = Inr (Some slot, ent k))" using j(6) by blast
      then show "bm_get m s = Some slot \<or>
        (\<exists>(k, v)\<in>set (x # items). s = from_be_bytes k \<and> decode_wal_value (env_arrow env) (env_bin env) fmt v = Inr (Some slot, ent k))"
        using m(2) [of s slot] x d(2) by auto
    qed
    show ?thesis
      unfolding step
      by (intro exI [of _ "Suc j"] exI [of _ m'] conjI j(5) cache) (use j(1-4) False in \<open>auto simp: x ac_simps\<close>)
  qed
next
  case Nil
  then show ?case by (intro exI [of _ 0] exI [of _ m]) simp
qed

lemma items_log_from:
  assumes "sorted_wrt (<) (map fst items)" and "\<And>k v. (k, v) \<in> set items \<Longrightarrow> to_be_bytes (from_be_bytes k) = k \<and> from \<le> from_be_bytes k \<and> l (from_be_bytes k) \<noteq> None"
    and "\<And>s. from \<le> s \<Longrightarrow> l s \<noteq> None \<Longrightarrow> \<exists>v. (to_be_bytes s, v) \<in> set items"
    and "ent = (\<lambda>k. the (l (from_be_bytes k)))"
  shows "map (\<lambda>(k, _). (from_be_bytes k, ent k)) items = log_from l from"
proof -
  let ?ss = "map (\<lambda>(k, _). from_be_bytes k) items"
  have "sorted_wrt (<) ?ss"
    unfolding sorted_wrt_map
  proof (rule sorted_wrt_mono_rel [OF _ assms(1) [unfolded sorted_wrt_map]])
    fix x y
    assume xy: "x \<in> set items" "y \<in> set items" "fst x < fst y"
    obtain k v k' v' where eq: "x = (k, v)" "y = (k', v')" by (cases x, cases y) auto
    have "to_be_bytes (from_be_bytes k) = k" "to_be_bytes (from_be_bytes k') = k'" using assms(2) xy(1,2) eq by blast+
    then have "to_be_bytes (from_be_bytes k) < to_be_bytes (from_be_bytes k')" using xy(3) eq by simp
    then show "(case x of (k, _) \<Rightarrow> from_be_bytes k) < (case y of (k, _) \<Rightarrow> from_be_bytes k)" by (simp add: eq)
  qed
  moreover have "set ?ss = {s. from \<le> s \<and> l s \<noteq> None}"
  proof (intro equalityI subsetI)
    fix s
    assume "s \<in> set ?ss"
    then obtain k v where "(k, v) \<in> set items" "s = from_be_bytes k" by auto
    with assms(2) show "s \<in> {s. from \<le> s \<and> l s \<noteq> None}" by blast
  next
    fix s
    assume "s \<in> {s. from \<le> s \<and> l s \<noteq> None}"
    then obtain v where "(to_be_bytes s, v) \<in> set items" using assms(3) by blast
    then show "s \<in> set ?ss" by (force simp: image_iff)
  qed
  ultimately have "?ss = sorted_list_of_set {s. from \<le> s \<and> l s \<noteq> None}"
    using sorted_list_of_set.idem_if_sorted_distinct [of ?ss] by (simp add: strict_sorted_iff)
  moreover have "map (\<lambda>(k, _). (from_be_bytes k, ent k)) items = map (\<lambda>s. (s, the (l s))) ?ss"
    by (auto simp: assms(4))
  ultimately show ?thesis by (simp add: log_from_def)
qed

lemma read_range_page:
  assumes env: "env_ok env rows" and ok: "wal_ok env rows w" and r: "read_range env from n w = (w', res)"
  shows "\<exists>page rest. res = Inr page \<and> page @ rest = log_from (wal_log env (wal_fmt w) rows (wal_db w)) from
      \<and> length page \<le> n \<and> (page = [] \<longrightarrow> n = 0 \<or> rest = [])"
    and "\<exists>m. w' = w\<lparr>wal_cache := m\<rparr> \<and> wal_ok env rows w'"
    and "slots_ok holds env rows w \<Longrightarrow> slots_ok holds env rows w'"
proof -
  let ?log = "wal_log env (wal_fmt w) rows (wal_db w)"
  note db = wal_okD(1) [OF ok]
  obtain items where it: "wal_iter env (wal_db w) (to_be_bytes from) = map Inr items" "sorted_wrt (<) (map fst items)"
    "set items = {(k, v). rows (wal_db w) (WalCf k) = Some v \<and> to_be_bytes from \<le> k}"
    by (rule wal_iter_rows [OF env_okD(1) [OF env]])
  define ent where "ent = (\<lambda>k. the (?log (from_be_bytes k)))"
  have item: "length k = 8 \<and> (\<exists>p. decode_wal_value (env_arrow env) (env_bin env) (wal_fmt w) v = Inr (p, ent k))
      \<and> ?log (from_be_bytes k) \<noteq> None \<and> from \<le> from_be_bytes k \<and> to_be_bytes (from_be_bytes k) = k" if "(k, v) \<in> set items" for k v
  proof -
    have row: "rows (wal_db w) (WalCf k) = Some v" "to_be_bytes from \<le> k" using that it(3) by auto
    from db_okD [OF db row(1)] obtain p e where
      d: "length k = 8" "decode_wal_value (env_arrow env) (env_bin env) (wal_fmt w) v = Inr (p, e)" by blast
    have k: "to_be_bytes (from_be_bytes k) = k" by (rule to_from_be_bytes [OF d(1)])
    then have "?log (from_be_bytes k) = Some e" using row(1) d(2) by (simp add: wal_log_def)
    moreover have "from \<le> from_be_bytes k" using row(2) k by (metis to_be_bytes_le_iff)
    ultimately show ?thesis using d k by (simp add: ent_def)
  qed
  then have "\<forall>(k, v)\<in>set items. length k = 8 \<and> (\<exists>p. decode_wal_value (env_arrow env) (env_bin env) (wal_fmt w) v = Inr (p, ent k))"
    by blast
  from read_items_page [OF this wal_okD(4) [OF ok], of "wal_arrow_enabled w" n "[]" 0]
  obtain j m' where j: "read_items env (wal_fmt w) (wal_arrow_enabled w) n (map Inr items) [] 0 (wal_cache w) =
      (m', Inr (map (\<lambda>(k, _). (from_be_bytes k, ent k)) (take j items)))" "j \<le> length items"
    "j = length items \<or> n \<le> j \<or> READ_MAX_BYTES \<le> (\<Sum>(_, v)\<leftarrow>take j items. length v)" "j \<le> n" "bm_wf m'"
    "\<forall>s slot. bm_get m' s = Some slot \<longrightarrow> bm_get (wal_cache w) s = Some slot \<or> (\<exists>(k, v)\<in>set items. s = from_be_bytes k
      \<and> decode_wal_value (env_arrow env) (env_bin env) (wal_fmt w) v = Inr (Some slot, ent k))" by auto
  define F where "F = map (\<lambda>(k, _ :: u8 list). (from_be_bytes k, ent k))"
  have eq: "w' = w\<lparr>wal_cache := m'\<rparr>" "res = Inr (F (take j items))"
    using r by (simp_all add: read_range_def it(1) j(1) F_def)
  have F: "F items = log_from ?log from" unfolding F_def
  proof (rule items_log_from [OF it(2) _ _ ent_def])
    fix s
    assume "from \<le> s" "?log s \<noteq> None"
    then show "\<exists>v. (to_be_bytes s, v) \<in> set items" using it(3) by (auto simp: wal_log_def split: option.splits)
  qed (use item in blast)
  show "\<exists>page rest. res = Inr page \<and> page @ rest = log_from ?log from \<and> length page \<le> n \<and> (page = [] \<longrightarrow> n = 0 \<or> rest = [])"
  proof (intro exI conjI)
    show "F (take j items) @ F (drop j items) = log_from ?log from"
      unfolding F [symmetric] F_def map_append [symmetric] append_take_drop_id ..
    show "F (take j items) = [] \<longrightarrow> n = 0 \<or> F (drop j items) = []"
      using j(3) by (auto simp: F_def READ_MAX_BYTES_def)
  qed (use eq j(2,4) in \<open>simp_all add: F_def\<close>)
  have le: "from_be_bytes k \<le> wal_seq w" if "(k, v) \<in> set items" for k v
  proof -
    have "from_be_bytes k \<in> seq_rows rows (wal_db w)" using item [OF that] wal_log_dom [OF db, of "from_be_bytes k"] by blast
    then show ?thesis using wal_okD(2) [OF ok] by blast
  qed
  have "s \<le> wal_seq w" if "bm_get m' s = Some slot" for s slot
    using j(6) [rule_format, OF that] le wal_okD(5) [OF ok, of s slot] by auto
  then show "\<exists>m. w' = w\<lparr>wal_cache := m\<rparr> \<and> wal_ok env rows w'"
    using ok j(5) unfolding eq(1) wal_ok_def by auto
  assume so: "slots_ok holds env rows w"
  have "\<exists>e. ?log s = Some e \<and> holds slot e" if "bm_get m' s = Some slot" for s slot
    using j(6) [rule_format, OF that]
  proof (elim disjE bexE)
    fix x
    assume x: "x \<in> set items" "case x of (k, v) \<Rightarrow> s = from_be_bytes k
      \<and> decode_wal_value (env_arrow env) (env_bin env) (wal_fmt w) v = Inr (Some slot, ent k)"
    obtain k v where kv: "x = (k, v)" by fastforce
    with x it(3) have "rows (wal_db w) (WalCf k) = Some v" by auto
    with slots_okD(1) [OF so] x(2) kv have "holds slot (ent k)" by (auto simp: rows_hold_def value_holds_def)
    moreover have "?log (from_be_bytes k) \<noteq> None" using item x(1) kv by blast
    ultimately show ?thesis using x(2) kv by (auto simp: ent_def)
  qed (rule slots_okD(2) [OF so])
  with slots_okD(1) [OF so] show "slots_ok holds env rows w'" by (simp add: slots_ok_def eq(1))
qed

section \<open>Runs\<close>

datatype 'b wal_event =
    AppendBatch "'b wal_append_bundle list" "u8 list option list"
  | TruncateBefore u64
  | ReadPage u64 nat
  | TakePrepared u64 u64 nat
  | NextPrepared u64
  | MarkFlushed u64
  | Restart

datatype 'b wal_result =
    Appended "u64 list"
  | Page "(u64 \<times> wal_entry) list"
  | Taken "(u64 \<times> 'b prepared_wal_slot) list option"
  | Next "u64 option"
  | Done
  | Failed

fun wal_step :: "('d, 'b) wal_env \<Rightarrow> ('d, 'b) rocksdb_wal \<Rightarrow> 'b wal_event \<Rightarrow> ('d, 'b) rocksdb_wal \<times> 'b wal_result" where
  "wal_step env w (AppendBatch bundles pre) =
     (case write_bundle_batch env bundles pre w of (w, Inl _) \<Rightarrow> (w, Failed) | (w, Inr ss) \<Rightarrow> (w, Appended ss))"
| "wal_step env w (TruncateBefore s) =
     (case truncate_before env s w of (w, Inl _) \<Rightarrow> (w, Failed) | (w, Inr _) \<Rightarrow> (w, Done))"
| "wal_step env w (ReadPage from n) =
     (case read_range env from n w of (w, Inl _) \<Rightarrow> (w, Failed) | (w, Inr page) \<Rightarrow> (w, Page page))"
| "wal_step env w (TakePrepared from to_inclusive n) =
     (case take_prepared_range env from to_inclusive n w of (w, Inl _) \<Rightarrow> (w, Failed) | (w, Inr out) \<Rightarrow> (w, Taken out))"
| "wal_step env w (NextPrepared from) = (w, Next (next_prepared_seq from w))"
| "wal_step env w (MarkFlushed s) = (set_flushed_through s w, Done)"
| "wal_step env w Restart =
     (case open_wal env (wal_fmt w) (wal_arrow_enabled w) (wal_db w) of
        (d, Inl _) \<Rightarrow> (w\<lparr>wal_db := d\<rparr>, Failed)
      | (d, Inr w) \<Rightarrow> (w, Done))"

text \<open>A truncation stays at or below the next number, an append leaves room in the counter.\<close>

fun legal :: "('d, 'b) wal_env \<Rightarrow> ('d, 'b) rocksdb_wal \<Rightarrow> 'b wal_event \<Rightarrow> bool" where
  "legal env w (AppendBatch bundles pre) \<longleftrightarrow> faithful env (wal_fmt w) bundles pre \<and> unat (wal_seq w) + length bundles < 2 ^ 64"
| "legal env w (TruncateBefore s) \<longleftrightarrow> unat s \<le> Suc (unat (wal_seq w))"
| "legal env w _ \<longleftrightarrow> True"

text \<open>The slots that come with a batch hold its entries.\<close>

fun hands_over :: "('b prepared_wal_slot \<Rightarrow> wal_entry \<Rightarrow> bool) \<Rightarrow> ('d, 'b) wal_env \<Rightarrow> ('d, 'b) rocksdb_wal \<Rightarrow> 'b wal_event \<Rightarrow> bool" where
  "hands_over holds env w (AppendBatch bundles pre) \<longleftrightarrow> faithful_slots holds env (wal_fmt w) bundles pre"
| "hands_over holds env w _ \<longleftrightarrow> True"

text \<open>
  What the log promises, over the map alone. The cache of prepared slots may miss at any time; a run
  taken from it has consecutive numbers from the one asked for, and slots that hold the entries
  the log has under these numbers.
\<close>

inductive wal_log_step :: "('b prepared_wal_slot \<Rightarrow> wal_entry \<Rightarrow> bool) \<Rightarrow> (u64 \<Rightarrow> wal_entry option) \<Rightarrow> 'b wal_event \<Rightarrow> 'b wal_result
    \<Rightarrow> (u64 \<Rightarrow> wal_entry option) \<Rightarrow> bool"
  for holds :: "'b prepared_wal_slot \<Rightarrow> wal_entry \<Rightarrow> bool" where
  appended: "length ss = length bundles \<Longrightarrow> sorted_wrt (<) ss \<Longrightarrow> \<forall>k\<in>dom l. \<forall>s\<in>set ss. k < s \<Longrightarrow>
    wal_log_step holds l (AppendBatch bundles pre) (Appended ss) (l ++ map_of (zip ss (map wb_entry bundles)))"
| append_lost: "wal_log_step holds l (AppendBatch bundles pre) Failed l"
| append_kept: "length ss = length bundles \<Longrightarrow> sorted_wrt (<) ss \<Longrightarrow> \<forall>k\<in>dom l. \<forall>s\<in>set ss. k < s \<Longrightarrow>
    wal_log_step holds l (AppendBatch bundles pre) Failed (l ++ map_of (zip ss (map wb_entry bundles)))"
| truncated: "r \<in> {Done, Failed} \<Longrightarrow> wal_log_step holds l (TruncateBefore s) r (\<lambda>k. if k < s then None else l k)"
| truncate_failed: "wal_log_step holds l (TruncateBefore s) Failed l"
| read_page: "page @ rest = log_from l from \<Longrightarrow> length page \<le> n \<Longrightarrow> (page = [] \<longrightarrow> n = 0 \<or> rest = []) \<Longrightarrow>
    wal_log_step holds l (ReadPage from n) (Page page) l"
| taken: "slots \<noteq> [] \<Longrightarrow> length slots \<le> n \<Longrightarrow> map fst slots = map (\<lambda>i. from + word_of_nat i) [0..<length slots] \<Longrightarrow>
    \<forall>(s, slot)\<in>set slots. s \<le> to_inclusive \<and> (\<exists>e. l s = Some e \<and> holds slot e) \<Longrightarrow>
    wal_log_step holds l (TakePrepared from to_inclusive n) (Taken (Some slots)) l"
| not_taken: "r \<in> {Taken None, Failed} \<Longrightarrow> wal_log_step holds l (TakePrepared from to_inclusive n) r l"
| next_prepared: "\<forall>s. next = Some s \<longrightarrow> from \<le> s \<and> l s \<noteq> None \<Longrightarrow> wal_log_step holds l (NextPrepared from) (Next next) l"
| marked: "wal_log_step holds l (MarkFlushed s) Done l"
| restarted: "wal_log_step holds l Restart Done l"

lemma take_run_wf:
  "bm_wf m \<Longrightarrow> take_run n s t m = (m', out) \<Longrightarrow> bm_wf m' \<and> (\<forall>k slot. bm_get m' k = Some slot \<longrightarrow> bm_get m k = Some slot)"
proof (induction n s t m arbitrary: m' out rule: take_run.induct)
  case (2 n s t m)
  show ?case
  proof (cases "s \<le> t \<and> bm_get m s \<noteq> None")
    case True
    then obtain slot where slot: "bm_get m s = Some slot" by blast
    obtain m1 out1 where r: "take_run n (s + 1) t (bm_remove s m) = (m1, out1)" by fastforce
    with 2(3) True slot have "m' = m1" by simp
    moreover have "bm_wf m1 \<and> (\<forall>k slot. bm_get m1 k = Some slot \<longrightarrow> bm_get (bm_remove s m) k = Some slot)"
      using 2(1) [OF _ slot bm.wf_rem [OF 2(2)] r] True by simp
    ultimately show ?thesis using bm.get_rem [OF 2(2), of s] by (metis option.distinct(1))
  next
    case False
    with 2(2,3) show ?thesis by (auto split: option.splits)
  qed
qed simp

lemma take_prepared_ok:
  assumes ok: "wal_ok env rows w" and w': "take_prepared_range env from to_inclusive n w = (w', res)"
  shows "wal_ok env rows w'" and "\<exists>m. w' = w\<lparr>wal_cache := m\<rparr>"
proof -
  obtain m out where t: "take_range from to_inclusive n (wal_cache w) = (m, out)" by fastforce
  then have m: "bm_wf m" "\<forall>k slot. bm_get m k = Some slot \<longrightarrow> bm_get (wal_cache w) k = Some slot"
    using take_run_wf [OF wal_okD(4) [OF ok]] wal_okD(4) [OF ok]
    by (auto simp: take_range_def Let_def split: if_splits prod.splits)
  have "w' = w \<or> w' = w\<lparr>wal_cache := m\<rparr>"
    using w' t by (auto simp: take_prepared_range_def split: if_splits option.splits)
  then show "\<exists>m. w' = w\<lparr>wal_cache := m\<rparr>" by (elim disjE) (auto intro: exI [of _ "wal_cache w"])
  have "wal_ok env rows (w\<lparr>wal_cache := m\<rparr>)"
    using ok m unfolding wal_ok_def by auto
  with \<open>w' = w \<or> w' = w\<lparr>wal_cache := m\<rparr>\<close> ok show "wal_ok env rows w'" by auto
qed

text \<open>What a run taken from the cache is.\<close>

lemma take_run_slots:
  "bm_wf m \<Longrightarrow> take_run n s t m = (m', out) \<Longrightarrow>
   length out \<le> n \<and> map fst out = map (\<lambda>i. s + word_of_nat i) [0..<length out]
   \<and> (\<forall>(k, slot)\<in>set out. k \<le> t \<and> bm_get m k = Some slot)"
proof (induction n s t m arbitrary: m' out rule: take_run.induct)
  case (2 n s t m)
  show ?case
  proof (cases "s \<le> t \<and> bm_get m s \<noteq> None")
    case True
    then obtain slot where slot: "bm_get m s = Some slot" by blast
    obtain m1 out1 where r: "take_run n (s + 1) t (bm_remove s m) = (m1, out1)" by fastforce
    with 2(3) True slot have out: "out = (s, slot) # out1" by simp
    have IH: "length out1 \<le> n \<and> map fst out1 = map (\<lambda>i. s + 1 + word_of_nat i) [0..<length out1]
      \<and> (\<forall>(k, slot)\<in>set out1. k \<le> t \<and> bm_get (bm_remove s m) k = Some slot)"
      using 2(1) [OF _ slot bm.wf_rem [OF 2(2)] r] True by simp
    have "map (\<lambda>i. s + word_of_nat i) [0..<length out] = s # map (\<lambda>i. s + 1 + word_of_nat i) [0..<length out1]"
      by (simp add: out upt_conv_Cons map_Suc_upt [symmetric] comp_def algebra_simps del: map_Suc_upt upt_Suc)
    moreover have "\<forall>(k, slot)\<in>set out1. k \<le> t \<and> bm_get m k = Some slot"
      using IH bm.get_rem [OF 2(2), of s] by (auto split: if_splits)
    ultimately show ?thesis using IH slot True out by auto
  next
    case False
    with 2(2,3) show ?thesis by (auto split: option.splits)
  qed
qed simp

lemma patch_slots_keeps:
  "patch_keeps holds ar \<Longrightarrow> patch_slots ar slots = Inr slots' \<Longrightarrow>
   list_all2 (\<lambda>(s, slot) (s', slot'). s' = s \<and> (\<forall>e. holds slot e \<longrightarrow> holds slot' e)) slots slots'"
  by (induction ar slots arbitrary: slots' rule: patch_slots.induct) (auto simp: patch_keeps_def elim!: and_then_InrE)

lemma take_prepared_slots:
  assumes ok: "wal_ok env rows w" and so: "slots_ok holds env rows w" and patch: "patch_keeps holds (env_ops env)"
    and t: "take_prepared_range env from to_inclusive n w = (w', res)"
  shows "slots_ok holds env rows w'"
    and "res = Inr (Some slots) \<Longrightarrow> slots \<noteq> [] \<and> length slots \<le> n
      \<and> map fst slots = map (\<lambda>i. from + word_of_nat i) [0..<length slots]
      \<and> (\<forall>(s, slot)\<in>set slots. s \<le> to_inclusive \<and> (\<exists>e. wal_log env (wal_fmt w) rows (wal_db w) s = Some e \<and> holds slot e))"
proof -
  obtain m out where r: "take_range from to_inclusive n (wal_cache w) = (m, out)" by fastforce
  have "\<forall>k slot. bm_get m k = Some slot \<longrightarrow> bm_get (wal_cache w) k = Some slot"
    using r take_run_wf [OF wal_okD(4) [OF ok]] by (auto simp: take_range_def Let_def split: if_splits prod.splits)
  moreover have "w' = w \<or> w' = w\<lparr>wal_cache := m\<rparr>"
    using t r by (auto simp: take_prepared_range_def split: if_splits option.splits)
  ultimately show "slots_ok holds env rows w'" using so by (auto simp: slots_ok_def)
  assume "res = Inr (Some slots)"
  with t r obtain slots0 where out: "out = Some slots0" "slots = slots0 \<or> patch_slots (env_ops env) slots0 = Inr slots"
    by (auto simp: take_prepared_range_def split: if_splits option.splits elim!: and_then_InrE)
  then obtain m' where "take_run n from to_inclusive (wal_cache w) = (m', slots0)" "slots0 \<noteq> []"
    using r by (auto simp: take_range_def Let_def split: if_splits prod.splits)
  note T = take_run_slots [OF wal_okD(4) [OF ok] this(1)] and ne = this(2)
  have held: "s \<le> to_inclusive \<and> (\<exists>e. wal_log env (wal_fmt w) rows (wal_db w) s = Some e \<and> holds slot e)" if "(s, slot) \<in> set slots0" for s slot
    using T that slots_okD(2) [OF so, of s slot] by auto
  have "list_all2 (\<lambda>(s, slot) (s', slot'). s' = s \<and> (\<forall>e. holds slot e \<longrightarrow> holds slot' e)) slots0 slots"
    using out(2) patch_slots_keeps [OF patch] by (auto simp: list_all2_same)
  then have L: "map fst slots = map fst slots0"
    "\<forall>(s, slot')\<in>set slots. \<exists>slot. (s, slot) \<in> set slots0 \<and> (\<forall>e. holds slot e \<longrightarrow> holds slot' e)"
    by (induction rule: list_all2_induct) (auto split: prod.splits, blast)
  from arg_cong [OF L(1), of length] have len: "length slots = length slots0" by simp
  have "\<forall>(s, slot)\<in>set slots. s \<le> to_inclusive \<and> (\<exists>e. wal_log env (wal_fmt w) rows (wal_db w) s = Some e \<and> holds slot e)"
    using L(2) held by fast
  then show "slots \<noteq> [] \<and> length slots \<le> n \<and> map fst slots = map (\<lambda>i. from + word_of_nat i) [0..<length slots]
      \<and> (\<forall>(s, slot)\<in>set slots. s \<le> to_inclusive \<and> (\<exists>e. wal_log env (wal_fmt w) rows (wal_db w) s = Some e \<and> holds slot e))"
    using T ne len L(1) by auto
qed

lemma next_prepared_held:
  assumes "wal_ok env rows w" and "slots_ok holds env rows w" and "next_prepared_seq from w = Some s"
  shows "from \<le> s \<and> wal_log env (wal_fmt w) rows (wal_db w) s \<noteq> None"
proof -
  from assms(3) obtain slot where "find (\<lambda>(s, _). from \<le> s) (wal_cache w) = Some (s, slot)"
    by (auto simp: next_prepared_seq_def next_seq_at_or_after_def split: if_splits)
  then have "(s, slot) \<in> set (wal_cache w)" "from \<le> s" by (auto simp: find_Some_iff) (metis nth_mem)
  then have "bm_get (wal_cache w) s = Some slot" using bm_get_set [OF wal_okD(4) [OF assms(1)], of s slot] by simp
  with slots_okD(2) [OF assms(2)] \<open>from \<le> s\<close> show ?thesis by auto
qed

lemma append_sim:
  assumes env: "env_ok env rows" and ok: "wal_ok env rows w" and room: "unat (wal_seq w) + length bundles < 2 ^ 64"
    and faithful: "faithful env (wal_fmt w) bundles pre" and w': "write_bundle_batch env bundles pre w = (w', res)"
  shows "wal_log_step holds (wal_log env (wal_fmt w) rows (wal_db w)) (AppendBatch bundles pre)
    (case res of Inl _ \<Rightarrow> Failed | Inr ss \<Rightarrow> Appended ss) (wal_log env (wal_fmt w) rows (wal_db w'))"
proof -
  let ?l = "wal_log env (wal_fmt w) rows (wal_db w)"
  have above: "\<forall>k\<in>dom ?l. \<forall>s\<in>set (next_seqs w (length bundles)). k < s"
    using wal_log_dom [OF wal_okD(1) [OF ok]] wal_okD(2) [OF ok] next_seqs_sorted(2) [OF room]
    by (auto simp: dom_def intro: le_less_trans)
  note new = next_seqs_length next_seqs_sorted(1) [OF room] above
  from append_ok(7) [OF env ok room faithful w'] show ?thesis
  proof (elim disjE conjE)
    assume "wal_log env (wal_fmt w) rows (wal_db w') = ?l" "\<forall>ss. res = Inr ss \<longrightarrow> bundles = [] \<and> ss = []"
    then show ?thesis
      using wal_log_step.appended [of "[]" bundles ?l holds pre] wal_log_step.append_lost by (cases res) auto
  next
    assume "wal_log env (wal_fmt w) rows (wal_db w') = ?l ++ map_of (zip (next_seqs w (length bundles)) (map wb_entry bundles))"
      "\<forall>ss. res = Inr ss \<longrightarrow> ss = next_seqs w (length bundles)"
    then show ?thesis
      using wal_log_step.appended [OF new] wal_log_step.append_kept [OF new] by (cases res) auto
  qed
qed

lemma step_sim:
  assumes env: "env_ok env rows" and ok: "wal_ok env rows w" and legal: "legal env w ev" and step: "wal_step env w ev = (w', r)"
    and patch: "patch_keeps holds (env_ops env)" and so: "slots_ok holds env rows w" and hand: "hands_over holds env w ev"
  shows "wal_ok env rows w' \<and> wal_fmt w' = wal_fmt w \<and> slots_ok holds env rows w'
    \<and> wal_log_step holds (wal_log env (wal_fmt w) rows (wal_db w)) ev r (wal_log env (wal_fmt w) rows (wal_db w'))"
proof (cases ev)
  case (AppendBatch bundles pre)
  obtain w1 res where w1: "write_bundle_batch env bundles pre w = (w1, res)" by fastforce
  from AppendBatch legal have f: "unat (wal_seq w) + length bundles < 2 ^ 64" "faithful env (wal_fmt w) bundles pre" by simp_all
  from AppendBatch hand have "faithful_slots holds env (wal_fmt w) bundles pre" by simp
  from append_slots_ok [OF env ok f this w1 so] append_sim [OF env ok f w1] append_ok(1,3) [OF env ok f w1] step w1 AppendBatch
  show ?thesis by (cases res) auto
next
  case (TruncateBefore s)
  obtain w1 res where w1: "truncate_before env s w = (w1, res)" by fastforce
  from TruncateBefore legal have "unat s \<le> Suc (unat (wal_seq w))" by simp
  note T = truncate_ok [OF env ok this w1] and S = truncate_slots_ok [OF env ok this w1 so]
  have "w' = w1" "r = (case res of Inl _ \<Rightarrow> Failed | Inr _ \<Rightarrow> Done)" using step TruncateBefore w1 by (auto split: sum.splits)
  moreover have "wal_log_step holds (wal_log env (wal_fmt w) rows (wal_db w)) (TruncateBefore s)
      (case res of Inl _ \<Rightarrow> Failed | Inr _ \<Rightarrow> Done) (wal_log env (wal_fmt w) rows (wal_db w1))"
    using T(6) [of "wal_fmt w"] wal_log_step.truncated [of _ holds _ s] wal_log_step.truncate_failed [of holds _ s] by (cases res) auto
  ultimately show ?thesis using T(1,3) S TruncateBefore by simp
next
  case (ReadPage s n)
  obtain w1 res where w1: "read_range env s n w = (w1, res)" by fastforce
  from read_range_page(1) [OF env ok w1] obtain page rest where
    p: "res = Inr page" "page @ rest = log_from (wal_log env (wal_fmt w) rows (wal_db w)) s"
      "length page \<le> n" "page = [] \<longrightarrow> n = 0 \<or> rest = []" by blast
  from wal_log_step.read_page [OF p(2-4), of holds] p(1) read_range_page(2) [OF env ok w1] read_range_page(3) [OF env ok w1 so] w1 step ReadPage
  show ?thesis by auto
next
  case (TakePrepared s to_inclusive n)
  obtain w1 res where w1: "take_prepared_range env s to_inclusive n w = (w1, res)" by fastforce
  have w': "w' = w1" "r = (case res of Inl _ \<Rightarrow> Failed | Inr out \<Rightarrow> Taken out)" using step TakePrepared w1 by (auto split: sum.splits)
  have "wal_log_step holds (wal_log env (wal_fmt w) rows (wal_db w)) (TakePrepared s to_inclusive n) r (wal_log env (wal_fmt w) rows (wal_db w))"
  proof (cases "\<exists>slots. res = Inr (Some slots)")
    case True
    then obtain slots where s: "res = Inr (Some slots)" by blast
    from take_prepared_slots(2) [OF ok so patch w1 s] show ?thesis unfolding w' s by (auto intro!: wal_log_step.taken)
  next
    case False
    then have "r \<in> {Taken None, Failed}" unfolding w'(2) by (cases res) auto
    then show ?thesis by (rule wal_log_step.not_taken)
  qed
  with w' take_prepared_ok [OF ok w1] take_prepared_slots(1) [OF ok so patch w1] TakePrepared show ?thesis by auto
next
  case (NextPrepared s)
  with step next_prepared_held [OF ok so, of s] ok so show ?thesis by (auto intro: wal_log_step.next_prepared)
next
  case (MarkFlushed s)
  have "wal_ok env rows (set_flushed_through s w)" "slots_ok holds env rows (set_flushed_through s w)"
    using ok so by (simp_all add: set_flushed_through_def wal_ok_def slots_ok_def)
  moreover have "w' = set_flushed_through s w" "r = Done" using step MarkFlushed by auto
  ultimately show ?thesis using MarkFlushed by (simp add: set_flushed_through_def wal_log_step.marked)
next
  case Restart
  obtain w1 where "open_wal env (wal_fmt w) (wal_arrow_enabled w) (wal_db w) = (wal_db w, Inr w1)" "wal_ok env rows w1"
    "wal_db w1 = wal_db w" "wal_fmt w1 = wal_fmt w" "wal_cache w1 = []"
    by (rule open_wal_ok [OF env_okD(1) [OF env] wal_okD(1) [OF ok]])
  moreover from this have "slots_ok holds env rows w1" using slots_okD(1) [OF so] by (simp add: slots_ok_def)
  ultimately show ?thesis using step Restart by (auto intro: wal_log_step.restarted)
qed

fun wal_run :: "('d, 'b) wal_env \<Rightarrow> ('d, 'b) rocksdb_wal \<Rightarrow> 'b wal_event list \<Rightarrow> ('d, 'b) rocksdb_wal \<times> 'b wal_result list" where
  "wal_run env w [] = (w, [])"
| "wal_run env w (ev # evs) =
     (let (w, r) = wal_step env w ev; (w, rs) = wal_run env w evs in (w, r # rs))"

fun legal_run :: "('d, 'b) wal_env \<Rightarrow> ('d, 'b) rocksdb_wal \<Rightarrow> 'b wal_event list \<Rightarrow> bool" where
  "legal_run env w [] \<longleftrightarrow> True"
| "legal_run env w (ev # evs) \<longleftrightarrow> legal env w ev \<and> legal_run env (fst (wal_step env w ev)) evs"

fun hands_over_run :: "('b prepared_wal_slot \<Rightarrow> wal_entry \<Rightarrow> bool) \<Rightarrow> ('d, 'b) wal_env \<Rightarrow> ('d, 'b) rocksdb_wal
    \<Rightarrow> 'b wal_event list \<Rightarrow> bool" where
  "hands_over_run holds env w [] \<longleftrightarrow> True"
| "hands_over_run holds env w (ev # evs) \<longleftrightarrow> hands_over holds env w ev \<and> hands_over_run holds env (fst (wal_step env w ev)) evs"

inductive log_trace :: "('b prepared_wal_slot \<Rightarrow> wal_entry \<Rightarrow> bool) \<Rightarrow> (u64 \<Rightarrow> wal_entry option) \<Rightarrow> 'b wal_event list
    \<Rightarrow> 'b wal_result list \<Rightarrow> (u64 \<Rightarrow> wal_entry option) \<Rightarrow> bool"
  for holds :: "'b prepared_wal_slot \<Rightarrow> wal_entry \<Rightarrow> bool" where
  trace_nil: "log_trace holds l [] [] l"
| trace_cons: "wal_log_step holds l ev r l1 \<Longrightarrow> log_trace holds l1 evs rs l' \<Longrightarrow> log_trace holds l (ev # evs) (r # rs) l'"

lemma wal_run_ConsE:
  assumes "wal_run env w (ev # evs) = (w', rs)"
  obtains w1 r rs1 where "wal_step env w ev = (w1, r)" "wal_run env w1 evs = (w', rs1)" "rs = r # rs1"
  using assms by (auto simp: Let_def split: prod.splits)

lemma run_sim:
  assumes "env_ok env rows" "patch_keeps holds (env_ops env)" "wal_ok env rows w" "slots_ok holds env rows w"
    "legal_run env w evs" "hands_over_run holds env w evs" "wal_run env w evs = (w', rs)"
  shows "wal_ok env rows w' \<and> log_trace holds (wal_log env (wal_fmt w) rows (wal_db w)) evs rs (wal_log env (wal_fmt w) rows (wal_db w'))"
  using assms(3-)
proof (induction evs arbitrary: w rs)
  case Nil
  then show ?case by (auto intro: log_trace.trace_nil)
next
  case (Cons ev evs)
  obtain w1 r rs1 where s: "wal_step env w ev = (w1, r)" "wal_run env w1 evs = (w', rs1)" "rs = r # rs1"
    by (rule wal_run_ConsE [OF Cons.prems(5)])
  have l: "legal env w ev" "legal_run env w1 evs" "hands_over holds env w ev" "hands_over_run holds env w1 evs"
    using Cons.prems(3,4) s(1) by simp_all
  note S = step_sim [OF assms(1) Cons.prems(1) l(1) s(1) assms(2) Cons.prems(2) l(3)]
  have "wal_ok env rows w1" "slots_ok holds env rows w1" using S by blast+
  from Cons.IH [OF this l(2,4) s(2)] S s(3) show ?case by (auto intro: log_trace.trace_cons)
qed

section \<open>Numbers\<close>

fun numbers :: "'b wal_result \<Rightarrow> u64 list" where
  "numbers (Appended ss) = ss"
| "numbers _ = []"

lemma step_numbers:
  assumes env: "env_ok env rows" and ok: "wal_ok env rows w" and legal: "legal env w ev" and step: "wal_step env w ev = (w', r)"
  shows "recovered rows (wal_db w) \<le> recovered rows (wal_db w') \<and> sorted_wrt (<) (numbers r)
    \<and> (\<forall>s\<in>set (numbers r). recovered rows (wal_db w) < s \<and> s \<le> recovered rows (wal_db w'))"
proof (cases ev)
  case (AppendBatch bundles pre)
  obtain w1 res where w1: "write_bundle_batch env bundles pre w = (w1, res)" by fastforce
  from AppendBatch legal have f: "unat (wal_seq w) + length bundles < 2 ^ 64" "faithful env (wal_fmt w) bundles pre" by simp_all
  have w': "w' = w1" "numbers r = (case res of Inl _ \<Rightarrow> [] | Inr ss \<Rightarrow> ss)"
    using step AppendBatch w1 by (auto split: sum.splits)
  have up: "recovered rows (wal_db w) \<le> wal_seq w" by (rule wal_okD(8) [OF ok])
  have "wal_seq w \<le> wal_seq w1" using append_ok(2) [OF env ok f w1] next_seqs_sorted(4) [OF f(1)] by (simp add: word_le_nat_alt)
  from append_ok(7) [OF env ok f w1] show ?thesis
  proof (elim disjE conjE)
    assume "recovered rows (wal_db w1) = recovered rows (wal_db w)" "\<forall>ss. res = Inr ss \<longrightarrow> bundles = [] \<and> ss = []"
    then show ?thesis using w' by (cases res) auto
  next
    assume new: "recovered rows (wal_db w1) = wal_seq w1" "\<forall>ss. res = Inr ss \<longrightarrow> ss = next_seqs w (length bundles)"
    then have "set (numbers r) \<subseteq> set (next_seqs w (length bundles))" "sorted_wrt (<) (numbers r)"
      using w' next_seqs_sorted(1) [OF f(1)] by (auto split: sum.splits)
    moreover have "\<forall>s\<in>set (next_seqs w (length bundles)). wal_seq w < s \<and> s \<le> wal_seq w1"
      using next_seqs_sorted(2) [OF f(1)] append_ok(2) [OF env ok f w1] by auto
    ultimately show ?thesis using w'(1) new(1) up \<open>wal_seq w \<le> wal_seq w1\<close> by (auto intro: le_less_trans order_trans)
  qed
next
  case (TruncateBefore s)
  obtain w1 res where w1: "truncate_before env s w = (w1, res)" by fastforce
  with truncate_ok(7) [OF env ok _ w1] legal step TruncateBefore show ?thesis by (auto split: sum.splits)
next
  case (ReadPage s n)
  obtain w1 res where w1: "read_range env s n w = (w1, res)" by fastforce
  with read_range_page(2) [OF env ok w1] step ReadPage show ?thesis by (auto split: sum.splits)
next
  case (TakePrepared s to_inclusive n)
  obtain w1 res where w1: "take_prepared_range env s to_inclusive n w = (w1, res)" by fastforce
  with take_prepared_ok(2) [OF ok w1] step TakePrepared show ?thesis by (auto split: sum.splits)
next
  case (NextPrepared s)
  with step show ?thesis by auto
next
  case (MarkFlushed s)
  with step show ?thesis by (auto simp: set_flushed_through_def)
next
  case Restart
  obtain w1 where "open_wal env (wal_fmt w) (wal_arrow_enabled w) (wal_db w) = (wal_db w, Inr w1)" "wal_db w1 = wal_db w"
    by (rule open_wal_ok [OF env_okD(1) [OF env] wal_okD(1) [OF ok]])
  with step Restart show ?thesis by auto
qed

lemma any_slots: "patch_keeps (\<lambda>_ _. True) ops" "hands_over (\<lambda>_ _. True) env w ev"
proof -
  have "length items = length bundles" if "build_batch env fmt s bundles pre = Inr items" for fmt s bundles pre items
    using arg_cong [OF build_batch_seqs [OF that], of length] by simp
  then have "faithful_slots (\<lambda>_ _. True) env fmt bundles pre" for fmt bundles pre
    by (simp add: faithful_slots_def value_holds_def list_all2_conv_all_nth split_def)
  then show "hands_over (\<lambda>_ _. True) env w ev" by (cases ev) simp_all
qed (simp add: patch_keeps_def)

lemma run_numbers:
  assumes "env_ok env rows" "wal_ok env rows w" "slots_ok (\<lambda>_ _. True) env rows w" "legal_run env w evs" "wal_run env w evs = (w', rs)"
  shows "sorted_wrt (<) (concat (map numbers rs)) \<and> (\<forall>s\<in>set (concat (map numbers rs)). recovered rows (wal_db w) < s)"
  using assms(2-)
proof (induction evs arbitrary: w rs)
  case (Cons ev evs)
  obtain w1 r rs1 where s: "wal_step env w ev = (w1, r)" "wal_run env w1 evs = (w', rs1)" "rs = r # rs1"
    by (rule wal_run_ConsE [OF Cons.prems(4)])
  have l: "legal env w ev" "legal_run env w1 evs" using Cons.prems(3) s(1) by simp_all
  note N = step_numbers [OF assms(1) Cons.prems(1) l(1) s(1)]
  have "wal_ok env rows w1" "slots_ok (\<lambda>_ _. True) env rows w1"
    using step_sim [OF assms(1) Cons.prems(1) l(1) s(1) any_slots(1) Cons.prems(2) any_slots(2)] by blast+
  from Cons.IH [OF this l(2) s(2)] N s(3) show ?case
    by (auto simp: sorted_wrt_append intro: le_less_trans)
qed auto

section \<open>Faithful batches\<close>

lemma faithful_bincode:
  assumes "serializer_ok (env_bin env)"
    and "\<forall>(b, p)\<in>set (zip bundles pre). case p of None \<Rightarrow> True | Some bytes \<Rightarrow> fst (env_bin env) (wb_entry b) = Inr bytes"
  shows "faithful env Bincode bundles pre"
proof -
  have "list_all2 (\<lambda>b (_, v, _). \<exists>p. decode_wal_value (env_arrow env) (env_bin env) Bincode v = Inr (p, wb_entry b)) bundles items"
    if "build_batch env Bincode s bundles pre = Inr items" for s items
    using assms(2) that
  proof (induction bundles arbitrary: s pre items)
    case (Cons b bs)
    from Cons.prems(2) obtain slot v rest where
      v: "(case pre of Some bytes # _ \<Rightarrow> Inr bytes | _ \<Rightarrow> encode_wal_value (env_arrow env) (env_bin env) Bincode slot (wb_entry b)) = Inr v"
      and rest: "build_batch env Bincode (s + 1) bs (tl pre) = Inr rest" and items: "items = (s, v, slot) # rest"
      by (auto elim!: and_then_InrE)
    have "fst (env_bin env) (wb_entry b) = Inr v"
      using v Cons.prems(1) by (auto simp: encode_wal_value_def split: list.splits option.splits)
    then have "decode_wal_value (env_arrow env) (env_bin env) Bincode v = Inr (None, wb_entry b)"
      using assms(1) by (simp add: decode_wal_value_def serializer_ok_def)
    moreover have "\<forall>(b, p)\<in>set (zip bs (tl pre)). case p of None \<Rightarrow> True | Some bytes \<Rightarrow> fst (env_bin env) (wb_entry b) = Inr bytes"
      using Cons.prems(1) by (cases pre) auto
    ultimately show ?case using Cons.IH [OF _ rest] items by auto
  qed simp
  then show ?thesis by (simp add: faithful_def)
qed

lemma faithful_slots_bincode:
  assumes "serializer_ok (env_bin env)" and "\<forall>b\<in>set bundles. \<forall>slot. wb_prepared b = Some slot \<longrightarrow> holds slot (wb_entry b)"
  shows "faithful_slots holds env Bincode bundles pre"
proof -
  have none: "value_holds holds env Bincode v" for v
    by (auto simp: value_holds_def decode_wal_value_def elim!: and_then_InrE)
  have "list_all2 (\<lambda>b (_, v, slot). (\<forall>sl. slot = Some sl \<longrightarrow> holds sl (wb_entry b)) \<and> value_holds holds env Bincode v) bundles items"
    if "build_batch env Bincode s bundles pre = Inr items" for s items
    using assms(2) that by (induction bundles arbitrary: s pre items) (auto simp: none elim!: and_then_InrE)
  then show ?thesis by (simp add: faithful_slots_def)
qed

lemma opened_ok:
  assumes "env_ok env rows" and "db_ok env fmt rows d" and "open_wal env fmt en d = (d0, Inr w)"
  shows "wal_ok env rows w \<and> wal_db w = d \<and> wal_fmt w = fmt \<and> wal_seq w = recovered rows d
    \<and> (rows_hold holds env fmt rows d \<longrightarrow> slots_ok holds env rows w)"
proof -
  obtain w0 where "open_wal env fmt en d = (d, Inr w0)" "wal_ok env rows w0" "wal_db w0 = d" "wal_fmt w0 = fmt" "wal_seq w0 = recovered rows d"
    "wal_cache w0 = []"
    by (rule open_wal_ok [OF env_okD(1) [OF assms(1)] assms(2)])
  with assms(3) show ?thesis by (auto simp: slots_ok_def)
qed

section \<open>Properties\<close>

text \<open>
  C3. The write-ahead log refines a map from numbers to entries. From any openable store, every
  sequence of batched appends, truncations, page reads, takes from the cache of prepared slots,
  flush marks and restarts answers as the map does: an acknowledged batch is in the log under new,
  increasing numbers; a failed one left no entry or all of its entries; a page is the next entries
  in order; a run of slots taken from the cache has consecutive numbers and holds the entries the
  log has under them; a truncation removes exactly the entries below its bound; a flush mark
  changes nothing; a restart loses nothing. The appends are taken one at a time, in the order of
  their numbers, as the batching writer makes them; writers hand over values that decode to their
  entries and slots that hold them, and truncate at most up to the next number.
\<close>

theorem wal_run_refines_log:
  assumes "env_ok env rows" and "db_ok env fmt rows d" and "open_wal env fmt en d = (d0, Inr w)"
    and "patch_keeps holds (env_ops env)" and "rows_hold holds env fmt rows d"
    and "legal_run env w evs" and "hands_over_run holds env w evs" and "wal_run env w evs = (w', rs)"
  shows "log_trace holds (wal_log env fmt rows d) evs rs (wal_log env fmt rows (wal_db w'))"
proof -
  have w: "wal_ok env rows w" "wal_db w = d" "wal_fmt w = fmt" "slots_ok holds env rows w"
    using opened_ok [OF assms(1-3)] assms(5) by blast+
  from run_sim [OF assms(1,4) w(1,4) assms(6-8)] show ?thesis by (simp add: w(2,3))
qed

text \<open>
  C26. No number is given to two acknowledged entries: over any such run, failed writes, truncations
  of the whole log and restarts included, the numbers of the acknowledged entries increase.
\<close>

theorem wal_numbers_increase:
  assumes "env_ok env rows" and "db_ok env fmt rows d" and "open_wal env fmt en d = (d0, Inr w)"
    and "legal_run env w evs" and "wal_run env w evs = (w', rs)"
  shows "sorted_wrt (<) (concat (map numbers rs)) \<and> (\<forall>s\<in>set (concat (map numbers rs)). \<forall>k\<in>seq_rows rows d. k < s)"
proof -
  have "rows_hold (\<lambda>_ _. True) env fmt rows d" by (simp add: rows_hold_def value_holds_def)
  then have w: "wal_ok env rows w" "slots_ok (\<lambda>_ _. True) env rows w" "wal_db w = d"
    using opened_ok [OF assms(1-3)] by blast+
  have "k \<le> recovered rows d" if "k \<in> seq_rows rows d" for k using that by (auto simp: recovered_def)
  with run_numbers [OF assms(1) w(1,2) assms(4,5)] w(3) show ?thesis by (auto intro: le_less_trans)
qed

text \<open>An environment over association lists, with the serializers of the codec examples.\<close>

definition demo_ops :: "unit arrow_ops" where
  "demo_ops = \<lparr>num_rows = (\<lambda>_. 0), ingest_seqs = (\<lambda>_. Inr []), with_ingest_seqs = (\<lambda>b _. Inr b)\<rparr>"

definition demo_env :: "((wal_key \<times> u8 list) list, unit) wal_env" where
  "demo_env = \<lparr>env_kv = list_kv, env_flush_cf = (\<lambda>d. (d, Inr ())), env_arrow = unit_arrow, env_ops = demo_ops,
     env_bin = demo_bin, env_legacy = (\<lambda>_. Inl ''none'')\<rparr>"

definition demo_bundle :: "unit wal_append_bundle" where
  "demo_bundle = \<lparr>wb_entry = demo_wal_entry, wb_prepared = None\<rparr>"

definition demo_wal :: "((wal_key \<times> u8 list) list, unit) rocksdb_wal" where
  "demo_wal = \<lparr>wal_db = [], wal_seq = 0, wal_flushed_through = 0, wal_truncated_through = 1, wal_range_deletes_unflushed = 0,
     wal_sizes = [], wal_cache = [], wal_fmt = Bincode, wal_arrow_enabled = False\<rparr>"

lemma demo_env_ok: "env_ok demo_env map_of"
  by (simp add: env_ok_def demo_env_def list_kv_laws list_kv_atomic)

lemma demo_faithful: "faithful demo_env Bincode bundles []"
  by (rule faithful_bincode) (simp_all add: demo_env_def serializer_ok_def demo_bin_def)

lemma open_demo_wal: "open_wal demo_env Bincode False [] = ([], Inr demo_wal)"
  by (simp add: open_wal_def migrate_legacy_entries_def recover_seq_def recover_first_def meta_seq_def wal_iter_def
      wal_iter_end_def wal_items_def demo_env_def list_kv_def demo_wal_def saturating_add_1)

lemma demo_db_ok: "db_ok demo_env Bincode map_of []"
  by (simp add: db_ok_def)

lemma demo_append:
  "wal_step demo_env demo_wal (AppendBatch [demo_bundle, demo_bundle] []) =
    (demo_wal\<lparr>wal_seq := 2, wal_db := [(WalCf (to_be_bytes 2), [9]), (WalCf (to_be_bytes 1), [9])], wal_sizes := [(1, 1), (2, 1)]\<rparr>,
     Appended [1, 2])"
  by (simp add: write_bundle_batch_def demo_wal_def demo_env_def demo_bundle_def Let_def encode_wal_value_def demo_bin_def)

definition demo_events :: "unit wal_event list" where
  "demo_events = [AppendBatch [demo_bundle, demo_bundle] [], TruncateBefore 2, Restart, ReadPage 0 5]"

lemma demo_legal: "legal_run demo_env demo_wal demo_events"
  using demo_append demo_faithful [of "[demo_bundle, demo_bundle]"] by (simp add: demo_events_def demo_wal_def)

text \<open>The same store with the cache on, and a bundle that comes with its slot.\<close>

definition demo_holds :: "unit prepared_wal_slot \<Rightarrow> wal_entry \<Rightarrow> bool" where
  "demo_holds slot e \<longleftrightarrow> slot = demo_slot \<and> e = demo_wal_entry"

abbreviation demo_cached_wal :: "((wal_key \<times> u8 list) list, unit) rocksdb_wal" where
  "demo_cached_wal \<equiv> demo_wal\<lparr>wal_arrow_enabled := True\<rparr>"

definition demo_cached_events :: "unit wal_event list" where
  "demo_cached_events = [AppendBatch [\<lparr>wb_entry = demo_wal_entry, wb_prepared = Some demo_slot\<rparr>] [], NextPrepared 0,
     TakePrepared 1 1 5, MarkFlushed 1, TruncateBefore 2, Restart, ReadPage 0 5]"

lemma demo_patch: "patch_measurements demo_ops s i ms = Inr ms"
  by (induction ms arbitrary: i) (simp_all add: patch_ingest_seq_def demo_ops_def)

lemma demo_patch_keeps: "patch_keeps holds demo_ops"
  by (simp add: patch_keeps_def patch_all_ingest_seqs_def demo_patch)

lemma open_demo_cached_wal: "open_wal demo_env Bincode True [] = ([], Inr demo_cached_wal)"
  by (simp add: open_wal_def migrate_legacy_entries_def recover_seq_def recover_first_def meta_seq_def wal_iter_def
      wal_iter_end_def wal_items_def demo_env_def list_kv_def demo_wal_def saturating_add_1)

lemma demo_handed: "\<forall>b\<in>set bundles. b = \<lparr>wb_entry = demo_wal_entry, wb_prepared = Some demo_slot\<rparr> \<Longrightarrow>
    faithful_slots demo_holds demo_env Bincode bundles pre"
  by (rule faithful_slots_bincode) (auto simp: demo_env_def serializer_ok_def demo_bin_def demo_holds_def)

lemma demo_cached_legal:
  "legal_run demo_env demo_cached_wal demo_cached_events" "hands_over_run demo_holds demo_env demo_cached_wal demo_cached_events"
  "take 3 (snd (wal_run demo_env demo_cached_wal demo_cached_events)) = [Appended [1], Next (Some 1), Taken (Some [(1, demo_slot)])]"
proof -
  have d: "wal_seq demo_wal = 0" "wal_fmt demo_wal = Bincode" by (simp_all add: demo_wal_def)
  have w: "write_bundle_batch demo_env [\<lparr>wb_entry = demo_wal_entry, wb_prepared = Some demo_slot\<rparr>] [] demo_cached_wal =
    (demo_cached_wal\<lparr>wal_seq := 1, wal_db := [(WalCf (to_be_bytes 1), [9])], wal_sizes := [(1, 1)], wal_cache := [(1, demo_slot)]\<rparr>, Inr [1])"
    by (simp add: write_bundle_batch_def demo_wal_def demo_env_def Let_def encode_wal_value_def demo_bin_def)
  have run: "take_run 5 1 1 [(1 :: u64, demo_slot)] = ([], [(1, demo_slot)])"
    by (simp add: numeral_eq_Suc bm_get_def bm_remove_def)
  have t: "take_prepared_range demo_env 1 1 5
      (demo_cached_wal\<lparr>wal_seq := 1, wal_db := [(WalCf (to_be_bytes 1), [9])], wal_sizes := [(1, 1)], wal_cache := [(1, demo_slot)]\<rparr>) =
    (demo_cached_wal\<lparr>wal_seq := 1, wal_db := [(WalCf (to_be_bytes 1), [9])], wal_sizes := [(1, 1)]\<rparr>, Inr (Some [(1, demo_slot)]))"
    by (simp add: take_prepared_range_def take_range_def demo_wal_def Let_def patch_all_ingest_seqs_def demo_env_def demo_patch run)
       (simp add: bm_get_def)
  show "legal_run demo_env demo_cached_wal demo_cached_events" "hands_over_run demo_holds demo_env demo_cached_wal demo_cached_events"
    using demo_faithful demo_handed by (simp_all add: demo_cached_events_def w t set_flushed_through_def d)
  show "take 3 (snd (wal_run demo_env demo_cached_wal demo_cached_events)) = [Appended [1], Next (Some 1), Taken (Some [(1, demo_slot)])]"
    by (simp add: demo_cached_events_def w t next_prepared_seq_def next_seq_at_or_after_def Let_def split_def)
qed

theorem wal_run_refines_log_witness:
  "log_trace demo_holds (wal_log demo_env Bincode map_of []) demo_cached_events (snd (wal_run demo_env demo_cached_wal demo_cached_events))
     (wal_log demo_env Bincode map_of (wal_db (fst (wal_run demo_env demo_cached_wal demo_cached_events))))
   \<and> take 3 (snd (wal_run demo_env demo_cached_wal demo_cached_events)) = [Appended [1], Next (Some 1), Taken (Some [(1, demo_slot)])]"
proof -
  have "env_ops demo_env = demo_ops" by (simp add: demo_env_def)
  then have "patch_keeps demo_holds (env_ops demo_env)" "rows_hold demo_holds demo_env Bincode map_of []"
    by (simp_all add: demo_patch_keeps rows_hold_def)
  from wal_run_refines_log [OF demo_env_ok demo_db_ok open_demo_cached_wal this demo_cached_legal(1,2) prod.collapse [symmetric]]
    demo_cached_legal(3) show ?thesis by blast
qed

theorem wal_numbers_increase_witness:
  "sorted_wrt (<) (concat (map numbers (snd (wal_run demo_env demo_wal demo_events))))"
  using wal_numbers_increase [OF demo_env_ok demo_db_ok open_demo_wal demo_legal] by (metis prod.collapse)

section \<open>Dropping a database\<close>

lemma purge_rows_items:
  assumes "\<forall>(k, v)\<in>set items. length k = 8 \<and> (\<exists>p. decode_wal_value (env_arrow env) (env_bin env) fmt v = Inr (p, ent v))"
  shows "purge_rows env fmt db (map Inr items) =
    Inr (map (\<lambda>(k, _). Delete (WalCf k)) (filter (\<lambda>(_, v). we_database (ent v) = db) items))"
  using assms by (induction items) auto

lemma deleted_keys:
  "fold batch_effect (map (\<lambda>(k, _). Delete (WalCf k)) items) r k =
     (if k \<in> WalCf ` fst ` set items then None else r k)"
  by (induction items arbitrary: r) auto

lemma purged_rows:
  assumes env: "env_ok env rows" and p: "purge_database env db w = (w', Inr ())"
    and ops: "purge_rows env (wal_fmt w) db (wal_iter env (wal_db w) []) = Inr ops"
  shows "rows (wal_db w') = fold batch_effect ops (rows (wal_db w))"
proof (cases "ops = []")
  case True
  with p ops show ?thesis by (auto simp: purge_database_def Let_def)
next
  case False
  obtain d r where wr: "rdb_write (env_kv env) (wal_db w) ops = (d, r)" by fastforce
  with p ops False have "r = Inr ()" "wal_db w' = d" by (auto simp: purge_database_def Let_def split: sum.splits)
  with rdb_write_rows [OF env_okD(1) [OF env], of "wal_db w" ops d] wr show ?thesis by simp
qed

lemma purge_ok:
  assumes env: "env_ok env rows" and ok: "wal_ok env rows w" and p: "purge_database env db w = (w', Inr ())"
  shows "wal_log env (wal_fmt w) rows (wal_db w') =
      (\<lambda>s. case wal_log env (wal_fmt w) rows (wal_db w) s of
             None \<Rightarrow> None | Some e \<Rightarrow> if we_database e = db then None else Some e)"
    and "rows (wal_db w') LAST_SEQ_KEY = rows (wal_db w) LAST_SEQ_KEY"
    and "db_ok env (wal_fmt w) rows (wal_db w')"
proof -
  note db = wal_okD(1) [OF ok]
  define ent where "ent v = snd (projr (decode_wal_value (env_arrow env) (env_bin env) (wal_fmt w) v))" for v
  obtain items where it: "wal_iter env (wal_db w) [] = map Inr items" "sorted_wrt (<) (map fst items)"
    "set items = {(k, v). rows (wal_db w) (WalCf k) = Some v \<and> [] \<le> k}"
    by (rule wal_iter_rows [OF env_okD(1) [OF env]])
  have dec: "length k = 8 \<and> (\<exists>p. decode_wal_value (env_arrow env) (env_bin env) (wal_fmt w) v = Inr (p, ent v))"
    if "rows (wal_db w) (WalCf k) = Some v" for k v
    using db_okD [OF db that] by (auto simp: ent_def)
  let ?gone = "filter (\<lambda>(_, v). we_database (ent v) = db) items"
  define ops where "ops = map (\<lambda>(k, _ :: u8 list). Delete (WalCf k) :: (wal_key, u8 list) batch_op) ?gone"
  have "purge_rows env (wal_fmt w) db (wal_iter env (wal_db w) []) = Inr ops"
    unfolding it(1) ops_def using dec it(3) by (intro purge_rows_items) auto
  then have new: "rows (wal_db w') = fold batch_effect ops (rows (wal_db w))" by (rule purged_rows [OF env p])
  have row: "rows (wal_db w') k = (if k \<in> WalCf ` fst ` set ?gone then None else rows (wal_db w) k)" for k
    unfolding new unfolding ops_def by (rule deleted_keys)
  have mem: "WalCf k \<in> WalCf ` fst ` set ?gone \<longleftrightarrow> (\<exists>v. rows (wal_db w) (WalCf k) = Some v \<and> we_database (ent v) = db)" for k
  proof -
    have "set ?gone = {(k, v). rows (wal_db w) (WalCf k) = Some v \<and> we_database (ent v) = db}"
      unfolding set_filter it(3) by auto
    then show ?thesis by (auto simp: image_iff)
  qed
  have wal_row: "rows (wal_db w') (WalCf k) =
      (case rows (wal_db w) (WalCf k) of None \<Rightarrow> None | Some v \<Rightarrow> if we_database (ent v) = db then None else Some v)" for k
    unfolding row mem by (simp split: option.split)
  show "wal_log env (wal_fmt w) rows (wal_db w') =
      (\<lambda>s. case wal_log env (wal_fmt w) rows (wal_db w) s of
             None \<Rightarrow> None | Some e \<Rightarrow> if we_database e = db then None else Some e)"
  proof
    fix s
    show "wal_log env (wal_fmt w) rows (wal_db w') s =
      (case wal_log env (wal_fmt w) rows (wal_db w) s of None \<Rightarrow> None | Some e \<Rightarrow> if we_database e = db then None else Some e)"
      using dec [of "to_be_bytes s"]
      by (cases "rows (wal_db w) (WalCf (to_be_bytes s))") (auto simp: wal_log_def wal_row)
  qed
  show "rows (wal_db w') LAST_SEQ_KEY = rows (wal_db w) LAST_SEQ_KEY"
    by (auto simp: row LAST_SEQ_KEY_def)
  show "db_ok env (wal_fmt w) rows (wal_db w')"
    using db by (auto simp: db_ok_def row split: if_splits)
qed

text \<open>
  Dropping a database removes exactly its entries from the log. But it does not record the
  counter: when no other entry is left, a log that is opened again goes on from the number of the
  last truncation, below numbers that were given out before.
\<close>

theorem purge_forgets_numbers:
  assumes "env_ok env rows" and "wal_ok env rows w" and "purge_database env db w = (w', Inr ())"
    and "open_wal env (wal_fmt w) en (wal_db w') = (d, Inr w'')"
  shows "wal_log env (wal_fmt w) rows (wal_db w'') =
      (\<lambda>s. case wal_log env (wal_fmt w) rows (wal_db w) s of
             None \<Rightarrow> None | Some e \<Rightarrow> if we_database e = db then None else Some e)
    \<and> ((\<forall>s e. wal_log env (wal_fmt w) rows (wal_db w) s = Some e \<longrightarrow> we_database e = db) \<longrightarrow>
        rows (wal_db w) LAST_SEQ_KEY = None \<longrightarrow> wal_seq w'' = 0)"
proof -
  note P = purge_ok [OF assms(1-3)]
  obtain w0 where w0: "open_wal env (wal_fmt w) en (wal_db w') = (wal_db w', Inr w0)" "wal_ok env rows w0"
    "wal_db w0 = wal_db w'" "wal_seq w0 = recovered rows (wal_db w')"
    by (rule open_wal_ok [OF env_okD(1) [OF assms(1)] P(3)])
  then have w'': "wal_db w'' = wal_db w'" "wal_seq w'' = recovered rows (wal_db w')" using assms(4) by auto
  have "seq_rows rows (wal_db w') = {}"
    if "\<forall>s e. wal_log env (wal_fmt w) rows (wal_db w) s = Some e \<longrightarrow> we_database e = db"
  proof -
    have "wal_log env (wal_fmt w) rows (wal_db w') s = None" for s
      using that by (auto simp: P(1) split: option.split)
    then show ?thesis using wal_log_dom [OF P(3)] by blast
  qed
  then show ?thesis using w'' P(1,2) by (auto simp: recovered_def)
qed

theorem purge_forgets_numbers_witness:
  "wal_seq (fst (wal_step demo_env demo_wal (AppendBatch [demo_bundle, demo_bundle] []))) = 2 \<and>
   (\<exists>w' d w''. purge_database demo_env ''db'' (fst (wal_step demo_env demo_wal (AppendBatch [demo_bundle, demo_bundle] []))) = (w', Inr ())
     \<and> open_wal demo_env Bincode False (wal_db w') = (d, Inr w'') \<and> wal_seq w'' = 0)"
proof -
  define w where "w = fst (wal_step demo_env demo_wal (AppendBatch [demo_bundle, demo_bundle] []))"
  obtain w0 where "open_wal demo_env Bincode False [] = ([], Inr w0)" "wal_ok demo_env map_of w0"
    by (rule open_wal_ok [OF env_okD(1) [OF demo_env_ok] demo_db_ok])
  with open_demo_wal have ok0: "wal_ok demo_env map_of demo_wal" by simp
  have lg: "legal demo_env demo_wal (AppendBatch [demo_bundle, demo_bundle] [])"
    using demo_faithful by (simp add: demo_wal_def)
  have "slots_ok (\<lambda>_ _. True) demo_env map_of demo_wal" by (simp add: slots_ok_def rows_hold_def demo_wal_def)
  then have ok: "wal_ok demo_env map_of w"
    unfolding w_def
    by (rule conjunct1 [OF step_sim [OF demo_env_ok ok0 lg prod.collapse [symmetric] any_slots(1) _ any_slots(2)]])
  have w: "w = demo_wal\<lparr>wal_seq := 2, wal_db := [(WalCf (to_be_bytes 2), [9]), (WalCf (to_be_bytes 1), [9])], wal_sizes := [(1, 1), (2, 1)]\<rparr>"
    unfolding w_def demo_append by simp
  have p: "purge_database demo_env ''db'' w = (w\<lparr>wal_db := []\<rparr>, Inr ())"
    by (simp add: purge_database_def w demo_wal_def Let_def cache_purge_database_def wal_iter_def demo_env_def list_kv_def
        wal_items_def decode_wal_value_def demo_bin_def demo_wal_entry_def)
  have o: "open_wal demo_env (wal_fmt w) False (wal_db (w\<lparr>wal_db := []\<rparr>)) = ([], Inr demo_wal)"
    using open_demo_wal by (simp add: w demo_wal_def)
  have "wal_seq demo_wal = 0"
    using purge_forgets_numbers [OF demo_env_ok ok p o]
    by (auto simp: w demo_wal_def wal_log_def decode_wal_value_def demo_env_def demo_bin_def demo_wal_entry_def
        LAST_SEQ_KEY_def split: if_splits)
  then show ?thesis
    unfolding w_def [symmetric] using p o by (auto simp: w demo_wal_def)
qed

end
