(* ===== verification/Arrow_Batch.thy ===== *)
theory Arrow_Batch
  imports Wal_Codec
begin

text \<open>
  Stacking prepared batches (\<open>domain/arrow_coalesce.rs\<close>, \<open>slice_prepared_batch\<close> of
  \<open>application/flush_service.rs\<close>). Arrow is not part of the sources: its batches and arrays are the
  type parameters and its kernels the fields of \<open>arrow_kernel\<close>; \<open>kernel_laws\<close> states what they do to
  the cells of a column. The theorem is that stacking puts every cell under the name of its own
  column, cast to the merged type, and fills the columns a batch does not have.
\<close>

section \<open>Arrow\<close>

datatype data_type = Float64 | Int64 | UInt64 | Utf8 | Dictionary data_type data_type | OtherType string

record arrow_field =
  fd_name :: string
  fd_type :: data_type
  fd_nullable :: bool

record ('b, 'a) arrow_kernel =
  ak_num_rows :: "'b \<Rightarrow> nat"
  ak_schema :: "'b \<Rightarrow> arrow_field list"
  ak_columns :: "'b \<Rightarrow> 'a list"
  ak_data_type :: "'a \<Rightarrow> data_type"
  ak_cast_safe :: "'a \<Rightarrow> data_type \<Rightarrow> string + 'a"
  ak_cast :: "'a \<Rightarrow> data_type \<Rightarrow> string + 'a"
  ak_null_array :: "data_type \<Rightarrow> nat \<Rightarrow> 'a"
  ak_string_array :: "string list \<Rightarrow> 'a"
  ak_try_new :: "arrow_field list \<Rightarrow> 'a list \<Rightarrow> string + 'b"
  ak_concat :: "arrow_field list \<Rightarrow> 'b list \<Rightarrow> string + 'b"
  ak_slice :: "'b \<Rightarrow> nat \<Rightarrow> nat \<Rightarrow> 'b"

text \<open>\<open>Schema::index_of\<close>.\<close>

definition index_of :: "arrow_field list \<Rightarrow> string \<Rightarrow> nat option" where
  "index_of fs n = find (\<lambda>i. fd_name (fs ! i) = n) [0..<length fs]"

section \<open>Stacking by name\<close>

datatype missing = MissingNull | MissingEmptyString

definition wider_type :: "data_type \<Rightarrow> data_type \<Rightarrow> data_type" where
  "wider_type a b =
     (if a = b then a
      else case (a, b) of
             (Float64, Int64) \<Rightarrow> Float64
           | (Int64, Float64) \<Rightarrow> Float64
           | (Int64, UInt64) \<Rightarrow> UInt64
           | (UInt64, Int64) \<Rightarrow> UInt64
           | (Dictionary _ _, Dictionary _ _) \<Rightarrow> Utf8
           | (Dictionary _ _, Utf8) \<Rightarrow> Utf8
           | (Utf8, Dictionary _ _) \<Rightarrow> Utf8
           | _ \<Rightarrow> a)"

fun merge_field :: "arrow_field \<Rightarrow> arrow_field list \<Rightarrow> arrow_field list" where
  "merge_field f [] = [f]"
| "merge_field f (e # es) =
     (if fd_name e = fd_name f
      then e\<lparr>fd_type := wider_type (fd_type e) (fd_type f), fd_nullable := fd_nullable e \<or> fd_nullable f\<rparr> # es
      else e # merge_field f es)"

definition merged_fields :: "('b, 'a) arrow_kernel \<Rightarrow> 'b list \<Rightarrow> missing \<Rightarrow> arrow_field list" where
  "merged_fields k batches missing =
     (let fields = fold (\<lambda>b. fold merge_field (ak_schema k b)) batches []
      in map (\<lambda>f. if \<not> list_all (\<lambda>b. index_of (ak_schema k b) (fd_name f) \<noteq> None) batches \<and> missing = MissingNull
                  then f\<lparr>fd_nullable := True\<rparr> else f) fields)"

definition align_column :: "('b, 'a) arrow_kernel \<Rightarrow> missing \<Rightarrow> 'b \<Rightarrow> arrow_field \<Rightarrow> string + 'a" where
  "align_column k missing b f =
     (case index_of (ak_schema k b) (fd_name f) of
        Some i \<Rightarrow>
          (if ak_data_type k (ak_columns k b ! i) = fd_type f then Inr (ak_columns k b ! i)
           else ak_cast_safe k (ak_columns k b ! i) (fd_type f))
      | None \<Rightarrow>
          (case missing of
             MissingNull \<Rightarrow> Inr (ak_null_array k (fd_type f) (ak_num_rows k b))
           | MissingEmptyString \<Rightarrow> ak_cast k (ak_string_array k (replicate (ak_num_rows k b) '''')) (fd_type f)))"

definition align_batch :: "('b, 'a) arrow_kernel \<Rightarrow> missing \<Rightarrow> arrow_field list \<Rightarrow> 'b \<Rightarrow> string + 'b" where
  "align_batch k missing schema b = and_then (try_map (align_column k missing b) schema) (ak_try_new k schema)"

definition concat_by_name :: "('b, 'a) arrow_kernel \<Rightarrow> 'b list \<Rightarrow> missing \<Rightarrow> string + 'b" where
  "concat_by_name k batches missing =
     (let schema = merged_fields k batches missing
      in and_then (try_map (align_batch k missing schema) batches) (ak_concat k schema))"

section \<open>Series\<close>

definition is_dictionary :: "data_type \<Rightarrow> bool" where
  "is_dictionary t = (case t of Dictionary _ _ \<Rightarrow> True | _ \<Rightarrow> False)"

definition reencode_column :: "('b, 'a) arrow_kernel \<Rightarrow> 'a \<Rightarrow> string + 'a" where
  "reencode_column k col =
     (case ak_data_type k col of
        Dictionary kt vt \<Rightarrow> and_then (ak_cast k col vt) (\<lambda>decoded. ak_cast k decoded (Dictionary kt vt))
      | _ \<Rightarrow> Inr col)"

definition normalize_dictionary_columns :: "('b, 'a) arrow_kernel \<Rightarrow> 'b \<Rightarrow> string + 'b" where
  "normalize_dictionary_columns k b =
     (if \<not> list_ex (\<lambda>c. is_dictionary (ak_data_type k c)) (ak_columns k b) then Inr b
      else and_then (try_map (reencode_column k) (ak_columns k b)) (ak_try_new k (ak_schema k b)))"

definition merge_series_batches :: "('b, 'a) arrow_kernel \<Rightarrow> 'b list \<Rightarrow> string + 'b option" where
  "merge_series_batches k batches =
     (case batches of
        [] \<Rightarrow> Inr None
      | [b] \<Rightarrow> Inr (Some b)
      | _ \<Rightarrow> and_then (concat_by_name k batches MissingEmptyString) (\<lambda>merged.
               and_then (normalize_dictionary_columns k merged) (\<lambda>b. Inr (Some b))))"

section \<open>Prepared batches\<close>

text \<open>Times are signed.\<close>

definition min_i64 :: "i64 list \<Rightarrow> i64" where
  "min_i64 ts = (case ts of [] \<Rightarrow> 0 | t # ts \<Rightarrow> fold (\<lambda>x m. if x <s m then x else m) ts t)"

definition max_i64 :: "i64 list \<Rightarrow> i64" where
  "max_i64 ts = (case ts of [] \<Rightarrow> 0 | t # ts \<Rightarrow> fold (\<lambda>x m. if m \<le>s x then x else m) ts t)"

definition coalesce_prepared_batches :: "('b, 'a) arrow_kernel \<Rightarrow> 'b prepared_measurement_batch list
    \<Rightarrow> string + 'b prepared_measurement_batch option" where
  "coalesce_prepared_batches k batches =
     (case batches of
        [] \<Rightarrow> Inr None
      | [b] \<Rightarrow> Inr (Some b)
      | template # _ \<Rightarrow>
          and_then (concat_by_name k (map pm_batch batches) MissingNull) (\<lambda>merged.
          and_then (merge_series_batches k (List.map_filter pm_new_series_batch batches)) (\<lambda>series.
            Inr (Some \<lparr>pm_measurement = pm_measurement template, pm_table_name = pm_table_name template,
                       pm_series_table_name = pm_series_table_name template, pm_batch = merged,
                       pm_row_count = ak_num_rows k merged,
                       pm_min_time = min_i64 (map pm_min_time batches), pm_max_time = max_i64 (map pm_max_time batches),
                       pm_new_series_batch = series\<rparr>))))"

definition slice_prepared_batch :: "('b, 'a) arrow_kernel \<Rightarrow> 'b prepared_measurement_batch \<Rightarrow> nat \<Rightarrow> nat
    \<Rightarrow> 'b prepared_measurement_batch" where
  "slice_prepared_batch k b offset len =
     b\<lparr>pm_batch := ak_slice k (pm_batch b) offset len, pm_row_count := len,
       pm_new_series_batch := (if offset = 0 then pm_new_series_batch b else None)\<rparr>"

section \<open>Cells\<close>

text \<open>
  What the Arrow documentation says of the kernels, in terms of the cells \<open>vals\<close> of an array (\<open>None\<close>
  is null): \<open>conv t\<close> is the value a cell has after a safe cast to \<open>t\<close>, null when it has none.
\<close>

definition cast_cell :: "(data_type \<Rightarrow> 'v \<Rightarrow> 'v option) \<Rightarrow> data_type \<Rightarrow> 'v option \<Rightarrow> 'v option" where
  "cast_cell conv t v = Option.bind v (conv t)"

definition kernel_laws :: "('b, 'a) arrow_kernel \<Rightarrow> ('a \<Rightarrow> 'v option list) \<Rightarrow> (data_type \<Rightarrow> 'v \<Rightarrow> 'v option)
    \<Rightarrow> (string \<Rightarrow> 'v) \<Rightarrow> bool" where
  "kernel_laws k vals conv str \<longleftrightarrow>
     (\<forall>b. length (ak_columns k b) = length (ak_schema k b) \<and>
        (\<forall>i<length (ak_schema k b). ak_data_type k (ak_columns k b ! i) = fd_type (ak_schema k b ! i)
           \<and> length (vals (ak_columns k b ! i)) = ak_num_rows k b))
   \<and> (\<forall>a t a'. ak_cast_safe k a t = Inr a' \<or> ak_cast k a t = Inr a' \<longrightarrow> vals a' = map (cast_cell conv t) (vals a))
   \<and> (\<forall>t n. vals (ak_null_array k t n) = replicate n None)
   \<and> (\<forall>ss. vals (ak_string_array k ss) = map (\<lambda>s. Some (str s)) ss)
   \<and> (\<forall>fs cs b. ak_try_new k fs cs = Inr b \<longrightarrow> ak_schema k b = fs \<and> ak_columns k b = cs)
   \<and> (\<forall>fs bs b. ak_concat k fs bs = Inr b \<longrightarrow> ak_schema k b = fs \<and>
        (\<forall>i<length fs. vals (ak_columns k b ! i) = concat (map (\<lambda>x. vals (ak_columns k x ! i)) bs)))"

lemma kernel_lawsD:
  assumes "kernel_laws k vals conv str"
  shows "length (ak_columns k b) = length (ak_schema k b)"
    and "i < length (ak_schema k b) \<Longrightarrow> ak_data_type k (ak_columns k b ! i) = fd_type (ak_schema k b ! i)"
    and "i < length (ak_schema k b) \<Longrightarrow> length (vals (ak_columns k b ! i)) = ak_num_rows k b"
    and "ak_cast_safe k a t = Inr a' \<Longrightarrow> vals a' = map (cast_cell conv t) (vals a)"
    and "ak_cast k a t = Inr a' \<Longrightarrow> vals a' = map (cast_cell conv t) (vals a)"
    and "vals (ak_null_array k t n) = replicate n None"
    and "vals (ak_string_array k ss) = map (\<lambda>s. Some (str s)) ss"
    and "ak_try_new k fs cs = Inr b \<Longrightarrow> ak_schema k b = fs \<and> ak_columns k b = cs"
    and "ak_concat k fs bs = Inr b \<Longrightarrow> ak_schema k b = fs"
    and "ak_concat k fs bs = Inr b \<Longrightarrow> i < length fs \<Longrightarrow> vals (ak_columns k b ! i) = concat (map (\<lambda>x. vals (ak_columns k x ! i)) bs)"
  using assms unfolding kernel_laws_def by blast+

text \<open>The cells of the column of a name.\<close>

definition cells :: "('b, 'a) arrow_kernel \<Rightarrow> ('a \<Rightarrow> 'v option list) \<Rightarrow> 'b \<Rightarrow> string \<Rightarrow> (data_type \<times> 'v option list) option" where
  "cells k vals b n =
     map_option (\<lambda>i. (fd_type (ak_schema k b ! i), vals (ak_columns k b ! i))) (index_of (ak_schema k b) n)"

definition stacked_cells :: "('b, 'a) arrow_kernel \<Rightarrow> ('a \<Rightarrow> 'v option list) \<Rightarrow> (data_type \<Rightarrow> 'v \<Rightarrow> 'v option)
    \<Rightarrow> (string \<Rightarrow> 'v) \<Rightarrow> missing \<Rightarrow> arrow_field \<Rightarrow> 'b \<Rightarrow> 'v option list" where
  "stacked_cells k vals conv str missing f b =
     (case cells k vals b (fd_name f) of
        Some (t, vs) \<Rightarrow> if t = fd_type f then vs else map (cast_cell conv (fd_type f)) vs
      | None \<Rightarrow> replicate (ak_num_rows k b)
                  (case missing of MissingNull \<Rightarrow> None | MissingEmptyString \<Rightarrow> conv (fd_type f) (str '''')))"

lemma index_of_Some: "index_of fs n = Some i \<Longrightarrow> i < length fs \<and> fd_name (fs ! i) = n"
  by (auto simp: index_of_def find_Some_iff)

lemma index_of_None: "index_of fs n = None \<longleftrightarrow> n \<notin> fd_name ` set fs"
  by (fastforce simp: index_of_def find_None_iff in_set_conv_nth)

lemma index_of_nth: "distinct (map fd_name fs) \<Longrightarrow> i < length fs \<Longrightarrow> index_of fs (fd_name (fs ! i)) = Some i"
  using index_of_Some [of fs "fd_name (fs ! i)"] index_of_None [of fs "fd_name (fs ! i)"]
  by (cases "index_of fs (fd_name (fs ! i))") (auto simp: distinct_conv_nth)

section \<open>Merged columns\<close>

definition add_name :: "string \<Rightarrow> string list \<Rightarrow> string list" where
  "add_name n ns = (if n \<in> set ns then ns else ns @ [n])"

lemma merge_field_names: "map fd_name (merge_field f es) = add_name (fd_name f) (map fd_name es)"
  by (induction f es rule: merge_field.induct) (auto simp: add_name_def)

lemma fold_merge_field_names: "map fd_name (fold merge_field fs es) = fold add_name (map fd_name fs) (map fd_name es)"
  by (induction fs arbitrary: es) (simp_all add: merge_field_names)

lemma merged_names:
  "map fd_name (merged_fields k bs missing) = fold add_name (concat (map (\<lambda>b. map fd_name (ak_schema k b)) bs)) []"
proof -
  have "map fd_name (fold (\<lambda>b. fold merge_field (ak_schema k b)) bs es)
      = fold add_name (concat (map (\<lambda>b. map fd_name (ak_schema k b)) bs)) (map fd_name es)" for es
    by (induction bs arbitrary: es) (simp_all add: fold_merge_field_names)
  from this [of "[]"] show ?thesis
    by (simp add: merged_fields_def Let_def comp_def) (simp add: if_distrib cong: if_cong)
qed

lemma add_names: "fold add_name ns acc = acc @ filter (\<lambda>n. n \<notin> set acc) (rev (remdups (rev ns)))"
proof (induction ns rule: rev_induct)
  case (snoc n ns)
  then show ?case by (auto simp: add_name_def)
qed simp

lemma merged_names_first:
  "map fd_name (merged_fields k bs missing) = rev (remdups (rev (concat (map (\<lambda>b. map fd_name (ak_schema k b)) bs))))"
  by (simp add: merged_names add_names)

lemma merged_distinct: "distinct (map fd_name (merged_fields k bs missing))"
  by (simp add: merged_names_first)

lemma align_column_cells:
  assumes laws: "kernel_laws k vals conv str" and a: "align_column k missing b f = Inr c"
  shows "vals c = stacked_cells k vals conv str missing f b"
proof (cases "index_of (ak_schema k b) (fd_name f)")
  case None
  with a kernel_lawsD(5-7) [OF laws] show ?thesis
    by (auto simp: align_column_def stacked_cells_def cells_def cast_cell_def split: missing.splits)
next
  case (Some i)
  with index_of_Some [OF Some] kernel_lawsD(2) [OF laws, of i b] a kernel_lawsD(4) [OF laws]
  show ?thesis by (auto simp: align_column_def stacked_cells_def cells_def split: if_splits)
qed

lemma concat_by_name_cells:
  assumes laws: "kernel_laws k vals conv str" and m: "concat_by_name k bs missing = Inr m"
  shows "ak_schema k m = merged_fields k bs missing"
    and "f \<in> set (ak_schema k m) \<Longrightarrow>
           cells k vals m (fd_name f) = Some (fd_type f, concat (map (stacked_cells k vals conv str missing f) bs))"
proof -
  let ?fs = "merged_fields k bs missing"
  from m obtain as where as: "try_map (align_batch k missing ?fs) bs = Inr as" and c: "ak_concat k ?fs as = Inr m"
    by (auto simp: concat_by_name_def Let_def elim: and_then_InrE)
  show schema: "ak_schema k m = ?fs" by (rule kernel_lawsD(9) [OF laws c])
  show "cells k vals m (fd_name f) = Some (fd_type f, concat (map (stacked_cells k vals conv str missing f) bs))"
    if "f \<in> set (ak_schema k m)"
  proof -
    from that schema obtain i where i: "i < length ?fs" "f = ?fs ! i" by (metis in_set_conv_nth)
    have "list_all2 (\<lambda>b a. vals (ak_columns k a ! i) = stacked_cells k vals conv str missing f b) bs as"
    proof (rule list_all2_mono [OF as [unfolded try_map_Inr]])
      fix b a
      assume "align_batch k missing ?fs b = Inr a"
      then obtain cs where cs: "try_map (align_column k missing b) ?fs = Inr cs" "ak_try_new k ?fs cs = Inr a"
        by (auto simp: align_batch_def elim: and_then_InrE)
      from cs(1) i have "align_column k missing b f = Inr (cs ! i)"
        by (auto simp: try_map_Inr list_all2_conv_all_nth)
      from align_column_cells [OF laws this] kernel_lawsD(8) [OF laws cs(2)]
      show "vals (ak_columns k a ! i) = stacked_cells k vals conv str missing f b" by simp
    qed
    then have "map (\<lambda>a. vals (ak_columns k a ! i)) as = map (stacked_cells k vals conv str missing f) bs"
      by (simp add: list_all2_conv_all_nth list_eq_iff_nth_eq)
    with kernel_lawsD(10) [OF laws c i(1)] index_of_nth [OF merged_distinct i(1)] show ?thesis
      by (simp add: cells_def schema i(2))
  qed
qed

lemma stacked_length:
  assumes "kernel_laws k vals conv str"
  shows "length (stacked_cells k vals conv str missing f b) = ak_num_rows k b"
  using kernel_lawsD(3) [OF assms] index_of_Some [of "ak_schema k b" "fd_name f"]
  by (auto simp: stacked_cells_def cells_def split: option.split)

lemma concat_by_name_rows:
  assumes laws: "kernel_laws k vals conv str" and m: "concat_by_name k bs missing = Inr m" and ne: "ak_schema k m \<noteq> []"
  shows "ak_num_rows k m = sum_list (map (ak_num_rows k) bs)"
proof -
  let ?f = "hd (ak_schema k m)"
  from ne have f: "?f \<in> set (ak_schema k m)" by simp
  from concat_by_name_cells(2) [OF laws m f] obtain i where i: "index_of (ak_schema k m) (fd_name ?f) = Some i"
    and v: "vals (ak_columns k m ! i) = concat (map (stacked_cells k vals conv str missing ?f) bs)"
    by (auto simp: cells_def)
  have "ak_num_rows k m = length (vals (ak_columns k m ! i))"
    using index_of_Some [OF i] kernel_lawsD(3) [OF laws] by simp
  also have "\<dots> = sum_list (map (ak_num_rows k) bs)"
    by (simp add: v length_concat comp_def stacked_length [OF laws])
  finally show ?thesis .
qed

lemma fold_min_le:
  "sint (fold (\<lambda>x m. if x <s m then x else m) ts (t :: i64)) \<le> sint t"
  "x \<in> set ts \<Longrightarrow> sint (fold (\<lambda>x m. if x <s m then x else m) ts (t :: i64)) \<le> sint x"
proof (induction ts arbitrary: t)
  case (Cons y ts)
  case 1
  from Cons(1) [of "if y <s t then y else t"] show ?case
    by (auto simp: word_sless_alt split: if_splits)
  case 2
  with Cons(1) [of "if y <s t then y else t"] Cons(2) [of "if y <s t then y else t"] show ?case
    by (auto simp: word_sless_alt split: if_splits)
qed simp_all

lemma fold_max_ge:
  "sint t \<le> sint (fold (\<lambda>x m. if m \<le>s x then x else m) ts (t :: i64))"
  "x \<in> set ts \<Longrightarrow> sint x \<le> sint (fold (\<lambda>x m. if m \<le>s x then x else m) ts (t :: i64))"
proof (induction ts arbitrary: t)
  case (Cons y ts)
  case 1
  from Cons(1) [of "if t \<le>s y then y else t"] show ?case
    by (auto simp: word_sle_eq split: if_splits)
  case 2
  with Cons(1) [of "if t \<le>s y then y else t"] Cons(2) [of "if t \<le>s y then y else t"] show ?case
    by (auto simp: word_sle_eq split: if_splits)
qed simp_all

lemma min_i64_le: "x \<in> set ts \<Longrightarrow> sint (min_i64 ts) \<le> sint x"
  using fold_min_le by (cases ts) (auto simp: min_i64_def)

lemma max_i64_ge: "x \<in> set ts \<Longrightarrow> sint x \<le> sint (max_i64 ts)"
  using fold_max_ge by (cases ts) (auto simp: max_i64_def)

section \<open>Property\<close>

text \<open>
  C23. Stacking the prepared batches of a measurement puts every cell under the name of its own
  column: the result has each column name once, in the order the names first appear, and a
  column holds, batch after batch, the cells of that name, cast where the type differs, and nulls
  for a batch without it. The row count is the sum, and the time range covers every batch.
\<close>

theorem prepared_batches_stack_by_name:
  assumes "kernel_laws k vals conv str" and "2 \<le> length batches"
    and "coalesce_prepared_batches k batches = Inr (Some m)"
  shows "map fd_name (ak_schema k (pm_batch m)) =
      rev (remdups (rev (concat (map (\<lambda>b. map fd_name (ak_schema k (pm_batch b))) batches))))
    \<and> (\<forall>f\<in>set (ak_schema k (pm_batch m)).
         cells k vals (pm_batch m) (fd_name f) =
           Some (fd_type f, concat (map (\<lambda>b. stacked_cells k vals conv str MissingNull f (pm_batch b)) batches)))
    \<and> (ak_schema k (pm_batch m) \<noteq> [] \<longrightarrow> pm_row_count m = sum_list (map (\<lambda>b. ak_num_rows k (pm_batch b)) batches))
    \<and> (\<forall>b\<in>set batches. sint (pm_min_time m) \<le> sint (pm_min_time b) \<and> sint (pm_max_time b) \<le> sint (pm_max_time m))"
proof -
  from assms(2) obtain b1 b2 bs where bs: "batches = b1 # b2 # bs" by (cases batches; cases "tl batches") auto
  from assms(3) have c: "concat_by_name k (map pm_batch batches) MissingNull = Inr (pm_batch m)"
    and r: "pm_row_count m = ak_num_rows k (pm_batch m)" "pm_min_time m = min_i64 (map pm_min_time batches)"
      "pm_max_time m = max_i64 (map pm_max_time batches)"
    unfolding coalesce_prepared_batches_def bs by (auto elim!: and_then_InrE)
  note cells = concat_by_name_cells [OF assms(1) c]
  from concat_by_name_rows [OF assms(1) c] r(1)
  have rows: "ak_schema k (pm_batch m) \<noteq> [] \<longrightarrow> pm_row_count m = sum_list (map (\<lambda>b. ak_num_rows k (pm_batch b)) batches)"
    by (simp add: comp_def)
  have times: "\<forall>b\<in>set batches. sint (pm_min_time m) \<le> sint (pm_min_time b) \<and> sint (pm_max_time b) \<le> sint (pm_max_time m)"
    by (auto simp: r intro: min_i64_le max_i64_ge)
  from cells(2) have "\<forall>f\<in>set (ak_schema k (pm_batch m)). cells k vals (pm_batch m) (fd_name f) =
      Some (fd_type f, concat (map (\<lambda>b. stacked_cells k vals conv str MissingNull f (pm_batch b)) batches))"
    by (simp add: comp_def)
  with rows times show ?thesis by (simp add: cells(1) merged_names_first comp_def)
qed

text \<open>A kernel over rows of cells.\<close>

type_synonym row_batch = "arrow_field list \<times> (nat \<Rightarrow> nat option) list"

definition row_columns :: "row_batch \<Rightarrow> (data_type \<times> nat option list) list" where
  "row_columns b = map (\<lambda>i. (fd_type (fst b ! i), map (\<lambda>r. r i) (snd b))) [0..<length (fst b)]"

definition rows_of :: "(data_type \<times> nat option list) list \<Rightarrow> (nat \<Rightarrow> nat option) list" where
  "rows_of cs = (case cs of [] \<Rightarrow> [] | c # _ \<Rightarrow> map (\<lambda>j i. snd (cs ! i) ! j) [0..<length (snd c)])"

definition row_kernel :: "(row_batch, data_type \<times> nat option list) arrow_kernel" where
  "row_kernel =
     \<lparr>ak_num_rows = \<lambda>b. length (snd b), ak_schema = fst, ak_columns = row_columns, ak_data_type = fst,
      ak_cast_safe = \<lambda>a t. Inr (t, snd a), ak_cast = \<lambda>a t. Inr (t, snd a),
      ak_null_array = \<lambda>t n. (t, replicate n None), ak_string_array = \<lambda>ss. (Utf8, map (\<lambda>s. Some (length s)) ss),
      ak_try_new = \<lambda>fs cs. if row_columns (fs, rows_of cs) = cs then Inr (fs, rows_of cs) else Inl ''columns'',
      ak_concat = \<lambda>fs bs. if list_all (\<lambda>b. fst b = fs) bs then Inr (fs, concat (map snd bs)) else Inl ''schema'',
      ak_slice = \<lambda>b offset len. (fst b, take len (drop offset (snd b)))\<rparr>"

lemma row_kernel_laws: "kernel_laws row_kernel snd (\<lambda>_. Some) length"
proof -
  have id: "cast_cell (\<lambda>_. Some) t = (id :: nat option \<Rightarrow> nat option)" for t :: data_type
    by (rule ext) (simp add: cast_cell_def)
  show ?thesis
    by (auto simp: id kernel_laws_def row_kernel_def row_columns_def list_all_iff map_concat comp_def
        intro!: arg_cong [of _ _ concat] split: if_splits)
qed

definition demo_batch :: "string \<Rightarrow> nat \<Rightarrow> i64 \<Rightarrow> row_batch prepared_measurement_batch" where
  "demo_batch n v t =
     \<lparr>pm_measurement = ''mem'', pm_table_name = ''t'', pm_series_table_name = ''s'',
      pm_batch = ([\<lparr>fd_name = n, fd_type = Int64, fd_nullable = False\<rparr>], [\<lambda>_. Some v]), pm_row_count = 1,
      pm_min_time = t, pm_max_time = t, pm_new_series_batch = None\<rparr>"

definition demo_merged :: "row_batch prepared_measurement_batch" where
  "demo_merged = the (projr (coalesce_prepared_batches row_kernel [demo_batch ''used'' 1 5, demo_batch ''free'' 2 (- 3)]))"

lemma demo_coalesce:
  "coalesce_prepared_batches row_kernel [demo_batch ''used'' 1 5, demo_batch ''free'' 2 (- 3)] = Inr (Some demo_merged)"
  unfolding demo_merged_def coalesce_prepared_batches_def
  by (simp add: demo_batch_def concat_by_name_def merged_fields_def row_kernel_def align_batch_def align_column_def
      index_of_def Let_def upt_rec row_columns_def rows_of_def merge_series_batches_def map_filter_simps)

theorem prepared_batches_stack_by_name_witness:
  "coalesce_prepared_batches row_kernel [demo_batch ''used'' 1 5, demo_batch ''free'' 2 (- 3)] = Inr (Some demo_merged)
   \<and> pm_row_count demo_merged = 2
   \<and> map fd_name (ak_schema row_kernel (pm_batch demo_merged)) = [''used'', ''free'']
   \<and> (\<exists>t. cells row_kernel snd (pm_batch demo_merged) ''used'' = Some (t, [Some 1, None]))
   \<and> (\<exists>t. cells row_kernel snd (pm_batch demo_merged) ''free'' = Some (t, [None, Some 2]))"
proof -
  note P = prepared_batches_stack_by_name [OF row_kernel_laws _ demo_coalesce]
  have k: "ak_schema row_kernel = fst" "ak_num_rows row_kernel = (\<lambda>b. length (snd b))" "ak_columns row_kernel = row_columns"
    by (simp_all add: row_kernel_def)
  from P have n: "map fd_name (ak_schema row_kernel (pm_batch demo_merged)) = [''used'', ''free'']"
    by (simp add: k demo_batch_def)
  then obtain f g where fg: "ak_schema row_kernel (pm_batch demo_merged) = [f, g]" "fd_name f = ''used''" "fd_name g = ''free''"
    by (auto simp: map_eq_Cons_conv)
  from P have r: "pm_row_count demo_merged = 2"
    by (simp add: fg(1)) (simp add: k demo_batch_def)
  have s: "stacked_cells row_kernel snd (\<lambda>_. Some) length MissingNull f (pm_batch (demo_batch n v t)) =
      [if fd_name f = n then Some v else None]" for f n v t
    by (simp add: stacked_cells_def cells_def k demo_batch_def index_of_def row_columns_def cast_cell_def)
  from P have "cells row_kernel snd (pm_batch demo_merged) ''used'' = Some (fd_type f, [Some 1, None])"
    "cells row_kernel snd (pm_batch demo_merged) ''free'' = Some (fd_type g, [None, Some 2])"
    by (simp_all add: fg s del: One_nat_def)
  with demo_coalesce n r show ?thesis by blast
qed

end
