(* ===== verification/Flush_Service.thy ===== *)
theory Flush_Service
  imports Wal_Refinement Arrow_Batch Replication_Log Membership "HOL-Library.Product_Lexorder"
begin

text \<open>
  The flush service (\<open>application/flush_service.rs\<close>, the sink port in \<open>ports/points_sink.rs\<close>): it
  reads the write-ahead log chunk by chunk, turns a chunk into inserts for the query engine, and
  truncates the log behind what was inserted and acknowledged. The query engine is not part of
  the sources: \<open>points_sink\<close> answers one insert at a time as it likes, with all the inserts it was
  asked for before and its answers to them at hand. That history is the state of the sink. The code
  has up to four inserts of a chunk in flight; here they are asked for in the order of the chunk's
  work, and the chunk is done when all are answered.

  A chunk is either a page of log entries or a run of slots that were prepared at ingest. The
  locals \<open>cursor\<close> and \<open>last_flushed\<close> of the loop have the same value at the head of every iteration,
  and the model keeps one of them. Counters and timings for monitoring are left out.
\<close>

section \<open>Data\<close>

record flush_work =
  fw_db :: string
  fw_rp :: string
  fw_measurement :: string
  fw_points :: "point list"
  fw_origins :: "u64 list"

record 'b prepared_flush_work =
  pf_db :: string
  pf_rp :: string
  pf_batch :: "'b prepared_measurement_batch"

datatype sink_error = WriteToMaterializedDestination string | SinkError string | TaskPanicked string

datatype flush_error = WalFailed wal_error | CoalesceFailed string | HeldForRetry

datatype 'b chunk = Native "(u64 \<times> wal_entry) list" | Prepared "(u64 \<times> 'b prepared_wal_slot) list"

text \<open>A call of \<open>write_points\<close>, with the number its rows count from, or of \<open>write_prepared_batch\<close>.\<close>

datatype 'b sink_call = WritePoints flush_work u64 | WritePrepared "'b prepared_flush_work"

type_synonym 'b sink_history = "('b sink_call \<times> (sink_error + unit)) list"

type_synonym 'b points_sink = "'b sink_history \<Rightarrow> 'b sink_call \<Rightarrow> sink_error + unit"

record ('d, 'b, 'a, 'r) flush_env =
  fe_wal :: "('d, 'b) wal_env"
  fe_kernel :: "('b, 'a) arrow_kernel"
  fe_repl :: "('r, string, u8 list) rocks"
  fe_hash :: instant_hash
  fe_sink :: "'b points_sink"

record ('d, 'b, 'r) flush_service =
  fs_wal :: "('d, 'b) rocksdb_wal"
  fs_last_flushed :: u64
  fs_max_points_per_batch :: nat
  fs_replication_log :: "'r replication_log option"
  fs_membership :: "cluster_membership option"
  fs_node_id :: u64
  fs_last_local_wal_seq :: u64
  fs_heartbeat_interval_secs :: u64
  fs_heartbeat_miss_threshold :: u64
  fs_truncate_stale_peer_multiplier :: u64
  fs_coalesce :: bool
  fs_sharding_enabled :: bool
  fs_sharded_wal_retention_bytes :: u64

definition WAL_READ_CHUNK :: nat where "WAL_READ_CHUNK = 5000"
definition NATIVE_CHUNK_BATCHES :: nat where "NATIVE_CHUNK_BATCHES = 4"
definition DEFAULT_MAX_POINTS_PER_BATCH :: nat where "DEFAULT_MAX_POINTS_PER_BATCH = 50000"
definition MIN_BATCH_POINTS :: nat where "MIN_BATCH_POINTS = 10000"
definition MAX_BATCH_POINTS :: nat where "MAX_BATCH_POINTS = 500000"
definition MAX_WAL_RETENTION_ENTRIES :: u64 where "MAX_WAL_RETENTION_ENTRIES = 500000"
definition SHARDED_WAL_RETENTION_BYTES :: u64 where "SHARDED_WAL_RETENTION_BYTES = 1073741824"

text \<open>\<open>FlushServiceImpl::new\<close>; \<open>coalesce\<close> is whether the environment variable that turns it off is not set.\<close>

definition new_service :: "('d, 'b) rocksdb_wal \<Rightarrow> nat \<Rightarrow> bool \<Rightarrow> ('d, 'b, 'r) flush_service" where
  "new_service w max_points_per_batch coalesce =
     \<lparr>fs_wal = w, fs_last_flushed = 0,
      fs_max_points_per_batch =
        (if max_points_per_batch = 0 then DEFAULT_MAX_POINTS_PER_BATCH
         else max MIN_BATCH_POINTS (min max_points_per_batch MAX_BATCH_POINTS)),
      fs_replication_log = None, fs_membership = None, fs_node_id = 0, fs_last_local_wal_seq = 0,
      fs_heartbeat_interval_secs = 0, fs_heartbeat_miss_threshold = 0, fs_truncate_stale_peer_multiplier = 0,
      fs_coalesce = coalesce, fs_sharding_enabled = False,
      fs_sharded_wal_retention_bytes = SHARDED_WAL_RETENTION_BYTES\<rparr>"

section \<open>The truncation barrier\<close>

text \<open>\<open>i64::saturating_mul\<close> and the cast from \<open>u64\<close>.\<close>

definition saturating_mul_i64 :: "int \<Rightarrow> int \<Rightarrow> int" where
  "saturating_mul_i64 a b = max (- (2 ^ 63)) (min (2 ^ 63 - 1) (a * b))"

definition stale_after :: "('d, 'b, 'r) flush_service \<Rightarrow> int" where
  "stale_after fs =
     saturating_mul_i64
       (saturating_mul_i64 (sint (fs_heartbeat_interval_secs fs)) (sint (max (fs_heartbeat_miss_threshold fs) 1)))
       (sint (fs_truncate_stale_peer_multiplier fs))"

text \<open>The branch of the code for a sharded cluster cannot be reached: such a node has returned before.\<close>

definition truncate_peers :: "('d, 'b, 'r) flush_service \<Rightarrow> u64 list" where
  "truncate_peers fs =
     (case fs_membership fs of
        Some m \<Rightarrow> map node_id (replication_peers m (fs_node_id fs))
      | None \<Rightarrow> [])"

definition keeps_barrier :: "('r, string, u8 list) rocks \<Rightarrow> 'r replication_log \<Rightarrow> cluster_membership \<Rightarrow> int \<Rightarrow> int \<Rightarrow> u64 \<Rightarrow> bool" where
  "keeps_barrier kv rl m now stale pid =
     (let ack = (case get_wal_ack kv rl pid of Inl _ \<Rightarrow> 0 | Inr a \<Rightarrow> a)
      in 0 < ack \<or>
         (case get_node m pid of
            Some node \<Rightarrow> \<not> stale < now - last_heartbeat node
          | None \<Rightarrow> True))"

definition effective_peers :: "('r, string, u8 list) rocks \<Rightarrow> ('d, 'b, 'r) flush_service \<Rightarrow> 'r replication_log \<Rightarrow> int
    \<Rightarrow> u64 list \<Rightarrow> u64 list" where
  "effective_peers kv fs rl now peer_ids =
     (if 0 < fs_truncate_stale_peer_multiplier fs \<and> 0 < fs_heartbeat_interval_secs fs then
        (case fs_membership fs of
           Some m \<Rightarrow> filter (keeps_barrier kv rl m now (stale_after fs)) peer_ids
         | None \<Rightarrow> peer_ids)
      else peer_ids)"

definition compute_safe_truncate_seq :: "('r, string, u8 list) rocks \<Rightarrow> int \<Rightarrow> ('d, 'b, 'r) flush_service \<Rightarrow> u64 \<Rightarrow> u64" where
  "compute_safe_truncate_seq kv now fs chunk_max_seq =
     (if fs_sharding_enabled fs
      then flushed_margin_start chunk_max_seq (fs_sharded_wal_retention_bytes fs) (fs_wal fs)
      else case fs_replication_log fs of
             None \<Rightarrow> chunk_max_seq
           | Some rl \<Rightarrow>
               (let peer_ids = truncate_peers fs
                in if peer_ids = [] then saturating_sub chunk_max_seq MAX_WAL_RETENTION_ENTRIES
                   else if fs_last_local_wal_seq fs = 0 then chunk_max_seq
                   else
                     let effective = effective_peers kv fs rl now peer_ids
                     in if effective = [] then chunk_max_seq
                        else case min_max_wal_ack_for_peers kv rl effective of
                               Inl _ \<Rightarrow> 0
                             | Inr (min_ack, max_ack) \<Rightarrow>
                                 (if 0 < max_ack \<and> min_ack = 0 then 0
                                  else if 0 < min_ack then min chunk_max_seq min_ack
                                  else saturating_sub chunk_max_seq MAX_WAL_RETENTION_ENTRIES)))"

section \<open>Reading a chunk\<close>

text \<open>\<open>take_while\<close> with the running count of points: the first entries up to one with points always pass.\<close>

fun take_budget :: "nat \<Rightarrow> nat \<Rightarrow> (u64 \<times> wal_entry) list \<Rightarrow> (u64 \<times> wal_entry) list" where
  "take_budget budget taken [] = []"
| "take_budget budget taken (x # xs) =
     (if taken = 0 \<or> taken < budget then x # take_budget budget (taken + length (we_points (snd x))) xs else [])"

definition read_native :: "('d, 'b) wal_env \<Rightarrow> u64 \<Rightarrow> nat \<Rightarrow> ('d, 'b, 'r) flush_service
    \<Rightarrow> ('d, 'b, 'r) flush_service \<times> (flush_error + 'b chunk option)" where
  "read_native env snapshot_seq native_limit fs =
     (case read_range env (fs_last_flushed fs + 1) native_limit (fs_wal fs) of
        (w, Inl e) \<Rightarrow> (fs\<lparr>fs_wal := w\<rparr>, Inl (WalFailed e))
      | (w, Inr entries) \<Rightarrow>
          (fs\<lparr>fs_wal := w\<rparr>,
           Inr (if entries = [] then None
                else let taken = take_budget (fs_max_points_per_batch fs * NATIVE_CHUNK_BATCHES) 0
                           (filter (\<lambda>(s, _). s \<le> snapshot_seq) entries)
                     in if taken = [] then None else Some (Native taken))))"

definition native_limit :: "u64 \<Rightarrow> ('d, 'b) rocksdb_wal \<Rightarrow> nat" where
  "native_limit from_seq w =
     (case next_prepared_seq from_seq w of
        Some next \<Rightarrow> if from_seq < next then min (unat (next - from_seq)) WAL_READ_CHUNK else WAL_READ_CHUNK
      | None \<Rightarrow> WAL_READ_CHUNK)"

definition read_chunk :: "('d, 'b) wal_env \<Rightarrow> u64 \<Rightarrow> ('d, 'b, 'r) flush_service
    \<Rightarrow> ('d, 'b, 'r) flush_service \<times> (flush_error + 'b chunk option)" where
  "read_chunk env snapshot_seq fs =
     (let from_seq = fs_last_flushed fs + 1
      in if wal_arrow_enabled (fs_wal fs) then
           (case take_prepared_range env from_seq snapshot_seq WAL_READ_CHUNK (fs_wal fs) of
              (w, Inl e) \<Rightarrow> (fs\<lparr>fs_wal := w\<rparr>, Inl (WalFailed e))
            | (w, Inr (Some prepared)) \<Rightarrow>
                (if prepared \<noteq> [] then (fs\<lparr>fs_wal := w\<rparr>, Inr (Some (Prepared prepared)))
                 else read_native env snapshot_seq WAL_READ_CHUNK (fs\<lparr>fs_wal := w\<rparr>))
            | (w, Inr None) \<Rightarrow> read_native env snapshot_seq (native_limit from_seq w) (fs\<lparr>fs_wal := w\<rparr>))
         else read_native env snapshot_seq WAL_READ_CHUNK fs)"

fun chunk_seqs :: "'b chunk \<Rightarrow> u64 list" where
  "chunk_seqs (Native entries) = map fst entries"
| "chunk_seqs (Prepared slots) = map fst slots"

fun chunk_origins :: "'b chunk \<Rightarrow> (u64 \<times> u64) list" where
  "chunk_origins (Native entries) = map (\<lambda>(s, e). (s, we_origin_node_id e)) entries"
| "chunk_origins (Prepared slots) = map (\<lambda>(s, slot). (s, ps_origin_node_id slot)) slots"

definition chunk_max_seq :: "u64 \<Rightarrow> 'b chunk \<Rightarrow> u64" where
  "chunk_max_seq cursor ch = (case chunk_seqs ch of [] \<Rightarrow> cursor | s # ss \<Rightarrow> fold max ss s)"

definition note_local :: "'b chunk \<Rightarrow> ('d, 'b, 'r) flush_service \<Rightarrow> ('d, 'b, 'r) flush_service" where
  "note_local ch fs =
     fs\<lparr>fs_last_local_wal_seq :=
          fold (\<lambda>(s, origin) last. if origin = fs_node_id fs \<or> 0 < fs_node_id fs \<and> origin = 0 then max last s else last)
            (chunk_origins ch) (fs_last_local_wal_seq fs)\<rparr>"

section \<open>The inserts of a chunk\<close>

type_synonym batch_key = "string \<times> string \<times> string"

definition add_point :: "u64 \<Rightarrow> wal_entry \<Rightarrow> point \<Rightarrow> (batch_key, point list \<times> u64 list) btree_map
    \<Rightarrow> (batch_key, point list \<times> u64 list) btree_map" where
  "add_point node e p =
     bm_update (we_database e, we_retention_policy e, pt_measurement p) ([], [])
       (\<lambda>(ps, os). (ps @ [p], os @ [if we_origin_node_id e = 0 then node else we_origin_node_id e]))"

definition group_entries :: "u64 \<Rightarrow> (u64 \<times> wal_entry) list \<Rightarrow> (batch_key, point list \<times> u64 list) btree_map" where
  "group_entries node entries = fold (\<lambda>(_, e). fold (add_point node e) (we_points e)) entries []"

text \<open>
  \<open>while !points.is_empty()\<close> with \<open>split_off\<close>. It ends because the batch size is never 0
  (\<open>FlushServiceImpl::new\<close> clamps it); the test of \<open>n\<close> is not in the code.
\<close>

function split_batches :: "nat \<Rightarrow> 'p list \<Rightarrow> 'o list \<Rightarrow> ('p list \<times> 'o list) list" where
  "split_batches n ps os =
     (if ps = [] \<or> n = 0 then []
      else (take n ps, take n os) # split_batches n (drop n ps) (drop n os))"
  by pat_completeness auto
termination
  by (relation "measure (\<lambda>(n, ps, os). length ps)") auto

declare split_batches.simps [simp del]

definition measurement_works :: "instant_hash \<Rightarrow> bool \<Rightarrow> nat \<Rightarrow> batch_key \<times> point list \<times> u64 list \<Rightarrow> flush_work list" where
  "measurement_works hasher coalesce n item =
     (case item of ((db, rp, measurement), points, origins) \<Rightarrow>
        (let (points, origins) =
               (if coalesce then (case coalesce_points_and_origins hasher points origins of
                                    Some merged \<Rightarrow> merged | None \<Rightarrow> (points, origins))
                else (points, origins))
         in map (\<lambda>(ps, os). \<lparr>fw_db = db, fw_rp = rp, fw_measurement = measurement, fw_points = ps, fw_origins = os\<rparr>)
              (split_batches n points origins)))"

definition native_works :: "instant_hash \<Rightarrow> ('d, 'b, 'r) flush_service \<Rightarrow> (u64 \<times> wal_entry) list \<Rightarrow> flush_work list" where
  "native_works hasher fs entries =
     concat (map (measurement_works hasher (fs_coalesce fs) (fs_max_points_per_batch fs))
       (group_entries (fs_node_id fs) entries))"

definition number_works :: "u64 \<Rightarrow> flush_work list \<Rightarrow> 'b sink_call list" where
  "number_works from_seq works = map (\<lambda>(i, w). WritePoints w (saturating_add from_seq (word_of_nat i))) (enumerate 0 works)"

definition group_slots :: "(u64 \<times> 'b prepared_wal_slot) list \<Rightarrow> (batch_key, 'b prepared_measurement_batch list) btree_map" where
  "group_slots slots =
     fold (\<lambda>(_, slot). fold (\<lambda>m. bm_update (ps_database slot, ps_retention_policy slot, pm_measurement m) [] (\<lambda>ms. ms @ [m]))
       (ps_measurements slot)) slots []"

function slice_works :: "('b, 'a) arrow_kernel \<Rightarrow> nat \<Rightarrow> 'b prepared_measurement_batch \<Rightarrow> nat \<Rightarrow> 'b prepared_measurement_batch list" where
  "slice_works k n b offset =
     (if offset < pm_row_count b \<and> 0 < n
      then slice_prepared_batch k b offset (min (pm_row_count b - offset) n)
           # slice_works k n b (offset + min (pm_row_count b - offset) n)
      else [])"
  by pat_completeness auto
termination
  by (relation "measure (\<lambda>(k, n, b, offset). pm_row_count b - offset)") auto

declare slice_works.simps [simp del]

definition merge_batches :: "('b, 'a) arrow_kernel \<Rightarrow> bool \<Rightarrow> 'b prepared_measurement_batch list
    \<Rightarrow> flush_error + 'b prepared_measurement_batch list" where
  "merge_batches k coalesce batches =
     (let out = wrap_err CoalesceFailed (coalesce_prepared_batches k batches);
          collect = (\<lambda>out. Inr (case out of None \<Rightarrow> [] | Some b \<Rightarrow> [b]))
      in if coalesce \<and> 1 < length batches then and_then out collect
         else if length batches = 1 then Inr batches
         else and_then out collect)"

definition prepared_works :: "('b, 'a) arrow_kernel \<Rightarrow> ('d, 'b, 'r) flush_service \<Rightarrow> (u64 \<times> 'b prepared_wal_slot) list
    \<Rightarrow> flush_error + 'b prepared_flush_work list" where
  "prepared_works k fs slots =
     and_then (try_map (\<lambda>((db, rp, _), batches).
         and_then (merge_batches k (fs_coalesce fs) batches) (\<lambda>merged.
           Inr (map (\<lambda>b. \<lparr>pf_db = db, pf_rp = rp, pf_batch = b\<rparr>)
             (concat (map (\<lambda>b. slice_works k (fs_max_points_per_batch fs) b 0) merged)))))
       (group_slots slots)) (\<lambda>works. Inr (concat works))"

section \<open>One round\<close>

definition unwritable_rows :: "sink_error + unit \<Rightarrow> bool" where
  "unwritable_rows r = (case r of Inl (WriteToMaterializedDestination _) \<Rightarrow> True | _ \<Rightarrow> False)"

definition item_failed :: "sink_error + unit \<Rightarrow> bool" where
  "item_failed r = (if unwritable_rows r then False else case r of Inl _ \<Rightarrow> True | Inr _ \<Rightarrow> False)"

text \<open>
  The tasks of a chunk, each with one call of the sink, in the order in which they are started; a
  panic in a task is one of the answers. All handles are awaited, so every call has its answer.
\<close>

fun send_calls :: "'b points_sink \<Rightarrow> 'b sink_call list \<Rightarrow> 'b sink_history \<Rightarrow> 'b sink_history \<times> (sink_error + unit) list" where
  "send_calls sink [] h = (h, [])"
| "send_calls sink (call # calls) h =
     (let r = sink h call; (h, rs) = send_calls sink calls (h @ [(call, r)]) in (h, r # rs))"

definition write_chunk :: "('d, 'b, 'a, 'r) flush_env \<Rightarrow> ('d, 'b, 'r) flush_service \<Rightarrow> 'b chunk \<Rightarrow> 'b sink_history
    \<Rightarrow> 'b sink_history \<times> (flush_error + bool)" where
  "write_chunk env fs ch h =
     (case ch of
        Native entries \<Rightarrow>
          (case send_calls (fe_sink env) (number_works (fs_last_flushed fs + 1) (native_works (fe_hash env) fs entries)) h of
             (h, rs) \<Rightarrow> (h, Inr (list_ex item_failed rs)))
      | Prepared slots \<Rightarrow>
          (case prepared_works (fe_kernel env) fs slots of
             Inl e \<Rightarrow> (h, Inl e)
           | Inr works \<Rightarrow>
               (case send_calls (fe_sink env) (map WritePrepared works) h of (h, rs) \<Rightarrow> (h, Inr (list_ex item_failed rs)))))"

definition truncate_mutations :: "('r, string, u8 list) rocks \<Rightarrow> ('d, 'b, 'r) flush_service \<Rightarrow> ('d, 'b, 'r) flush_service" where
  "truncate_mutations kv fs =
     (case fs_replication_log fs of
        None \<Rightarrow> fs
      | Some rl \<Rightarrow>
          (case min_mutation_ack kv rl of
             Inr (Some s) \<Rightarrow> fs\<lparr>fs_replication_log := Some (fst (truncate_mutations_before kv rl s))\<rparr>
           | _ \<Rightarrow> fs))"

definition finish_chunk :: "('d, 'b, 'a, 'r) flush_env \<Rightarrow> int \<Rightarrow> 'b chunk \<Rightarrow> bool \<Rightarrow> ('d, 'b, 'r) flush_service
    \<Rightarrow> ('d, 'b, 'r) flush_service \<times> (flush_error + unit)" where
  "finish_chunk env now ch any_failed fs =
     (let from_seq = fs_last_flushed fs + 1;
          flushed_through = (if any_failed then saturating_sub from_seq 1 else chunk_max_seq (fs_last_flushed fs) ch);
          safe_truncate_seq = compute_safe_truncate_seq (fe_repl env) now fs flushed_through
      in case truncate_before (fe_wal env) (safe_truncate_seq + 1) (fs_wal fs) of
           (w, Inl e) \<Rightarrow> (fs\<lparr>fs_wal := w\<rparr>, Inl (WalFailed e))
         | (w, Inr _) \<Rightarrow>
             (let fs = truncate_mutations (fe_repl env) (fs\<lparr>fs_wal := w\<rparr>)
              in (fs\<lparr>fs_last_flushed := flushed_through, fs_wal := set_flushed_through flushed_through (fs_wal fs)\<rparr>,
                  if any_failed then Inl HeldForRetry else Inr ())))"

text \<open>One iteration of the loop: \<open>Inr True\<close> goes on, \<open>Inr False\<close> is the \<open>break\<close>.\<close>

definition flush_chunk :: "('d, 'b, 'a, 'r) flush_env \<Rightarrow> int \<Rightarrow> u64 \<Rightarrow> ('d, 'b, 'r) flush_service \<times> 'b sink_history
    \<Rightarrow> (('d, 'b, 'r) flush_service \<times> 'b sink_history) \<times> (flush_error + bool)" where
  "flush_chunk env now snapshot_seq st =
     (case st of (fs, h) \<Rightarrow>
        (case read_chunk (fe_wal env) snapshot_seq fs of
           (fs, Inl e) \<Rightarrow> ((fs, h), Inl e)
         | (fs, Inr None) \<Rightarrow> ((fs, h), Inr False)
         | (fs, Inr (Some ch)) \<Rightarrow>
             (let fs = note_local ch fs
              in case write_chunk env fs ch h of
                   (h, Inl e) \<Rightarrow> ((fs, h), Inl e)
                 | (h, Inr any_failed) \<Rightarrow>
                     (case finish_chunk env now ch any_failed fs of
                        (fs, Inl e) \<Rightarrow> ((fs, h), Inl e)
                      | (fs, Inr _) \<Rightarrow> ((fs, h), Inr True)))))"

partial_function (option) flush_loop :: "('d, 'b, 'a, 'r) flush_env \<Rightarrow> (nat \<Rightarrow> int) \<Rightarrow> nat \<Rightarrow> u64
    \<Rightarrow> ('d, 'b, 'r) flush_service \<times> 'b sink_history
    \<Rightarrow> ((('d, 'b, 'r) flush_service \<times> 'b sink_history) \<times> (flush_error + unit)) option" where
  "flush_loop env clock i snapshot_seq st =
     (if fs_last_flushed (fst st) < snapshot_seq then
        (case flush_chunk env (clock i) snapshot_seq st of
           (st, r) \<Rightarrow>
             (case r of
                Inl e \<Rightarrow> Some (st, Inl e)
              | Inr go \<Rightarrow> if go then flush_loop env clock (Suc i) snapshot_seq st else Some (st, Inr ())))
      else Some (st, Inr ()))"

definition flush :: "('d, 'b, 'a, 'r) flush_env \<Rightarrow> (nat \<Rightarrow> int) \<Rightarrow> ('d, 'b, 'r) flush_service \<times> 'b sink_history
    \<Rightarrow> ((('d, 'b, 'r) flush_service \<times> 'b sink_history) \<times> (flush_error + unit)) option" where
  "flush env clock st =
     (let snapshot_seq = last_sequence (fs_wal (fst st))
      in if snapshot_seq \<le> fs_last_flushed (fst st) then Some (st, Inr ())
         else flush_loop env clock 0 snapshot_seq st)"

partial_function (option) drain :: "('d, 'b, 'a, 'r) flush_env \<Rightarrow> (nat \<Rightarrow> int) \<Rightarrow> ('d, 'b, 'r) flush_service \<times> 'b sink_history
    \<Rightarrow> ((('d, 'b, 'r) flush_service \<times> 'b sink_history) \<times> (flush_error + unit)) option" where
  "drain env clock st =
     Option.bind (flush env clock st) (\<lambda>(st, r).
       (case r of
          Inl e \<Rightarrow> Some (st, Inl e)
        | Inr _ \<Rightarrow>
            (case read_range (fe_wal env) (fs_last_flushed (fst st) + 1) 1 (fs_wal (fst st)) of
               (w, Inl e) \<Rightarrow> Some ((fst st\<lparr>fs_wal := w\<rparr>, snd st), Inl (WalFailed e))
             | (w, Inr remaining) \<Rightarrow>
                 (if remaining = [] then Some ((fst st\<lparr>fs_wal := w\<rparr>, snd st), Inr ())
                  else drain env clock (fst st\<lparr>fs_wal := w\<rparr>, snd st)))))"

end
