(* ===== verification/Flush_Inserts.thy ===== *)
theory Flush_Inserts
  imports Flush_Service
begin

text \<open>
  What the flush service inserts. The calls for a chunk of entries are exactly its points, grouped by
  table, merged and cut to size; the calls for a chunk of prepared slots are the rows of its
  batches, stacked by table and cut to size. The last section says when an entry is covered by the
  calls the sink has answered.
\<close>

section \<open>Grouping\<close>

definition entry_points :: "(u64 \<times> wal_entry) list \<Rightarrow> (wal_entry \<times> point) list" where
  "entry_points entries = concat (map (\<lambda>(_, e). map (Pair e) (we_points e)) entries)"

definition point_key :: "wal_entry \<times> point \<Rightarrow> batch_key" where
  "point_key = (\<lambda>(e, p). (we_database e, we_retention_policy e, pt_measurement p))"

definition origin_of :: "u64 \<Rightarrow> wal_entry \<Rightarrow> u64" where
  "origin_of node e = (if we_origin_node_id e = 0 then node else we_origin_node_id e)"

text \<open>The points of a table in a chunk, in the order of the log.\<close>

definition points_for :: "batch_key \<Rightarrow> (u64 \<times> wal_entry) list \<Rightarrow> point list" where
  "points_for k entries = map snd (filter (\<lambda>x. point_key x = k) (entry_points entries))"

lemma group_entries_flat:
  "group_entries node entries = fold (\<lambda>(e, p). add_point node e p) (entry_points entries) []"
proof -
  have "fold (\<lambda>(_, e). fold (add_point node e) (we_points e)) entries m = fold (\<lambda>(e, p). add_point node e p) (entry_points entries) m" for m
    by (induction entries arbitrary: m) (auto simp: entry_points_def fold_map comp_def)
  then show ?thesis by (simp add: group_entries_def)
qed

lemma grouped:
  "bm_wf (fold (\<lambda>(e, p). add_point node e p) xs []) \<and>
   bm_get (fold (\<lambda>(e, p). add_point node e p) xs []) k =
     (let ys = filter (\<lambda>x. point_key x = k) xs
      in if ys = [] then None else Some (map snd ys, map (\<lambda>(e, _). origin_of node e) ys))"
proof (induction xs rule: rev_induct)
  case (snoc x xs)
  obtain e p where x: "x = (e, p)" by fastforce
  from snoc show ?case
    by (auto simp: x add_point_def bm_wf_update bm_get_update point_key_def origin_of_def Let_def)
qed simp

lemma group_entries_get:
  shows "bm_wf (group_entries node entries)"
    and "(k, ps, os) \<in> set (group_entries node entries) \<Longrightarrow> ps = points_for k entries \<and> length os = length ps \<and> ps \<noteq> []"
    and "map_of (group_entries node entries) k = None \<longleftrightarrow> points_for k entries = []"
proof -
  note G = grouped [of node "entry_points entries", folded group_entries_flat]
  show wf: "bm_wf (group_entries node entries)" using G by blast
  show "(k, ps, os) \<in> set (group_entries node entries) \<Longrightarrow> ps = points_for k entries \<and> length os = length ps \<and> ps \<noteq> []"
    using G [of k] bm_get_set [OF wf, of k "(ps, os)"] by (auto simp: points_for_def Let_def split: if_splits)
  show "map_of (group_entries node entries) k = None \<longleftrightarrow> points_for k entries = []"
    using G [of k] by (simp add: points_for_def Let_def bm_get_def)
qed

section \<open>Cutting\<close>

lemma split_batches_concat:
  assumes "0 < n" and "length os = length ps"
  shows "concat (map fst (split_batches n ps os)) = ps" and "concat (map snd (split_batches n ps os)) = os"
    and "\<forall>(a, b)\<in>set (split_batches n ps os). a \<noteq> [] \<and> length a \<le> n \<and> length b = length a"
  using assms
proof (induction n ps os rule: split_batches.induct)
  case (1 n ps os)
  case 1
  with "1.IH" show ?case by (subst split_batches.simps) auto
  case 2
  with "1.IH" show ?case by (subst split_batches.simps) auto
  case 3
  with "1.IH" show ?case by (subst split_batches.simps) auto
qed

lemma measurement_works_ok:
  assumes n: "0 < n" and len: "length ps < 2 ^ 32" "length os = length ps"
    and ws: "ws = measurement_works hasher coalesce n ((db, rp, m), ps, os)"
  shows "concat (map fw_points ws) = (if coalesce then coalesce_spec ps else ps)"
    and "w \<in> set ws \<Longrightarrow> (fw_db w, fw_rp w, fw_measurement w) = (db, rp, m) \<and> fw_points w \<noteq> []
      \<and> length (fw_points w) \<le> n \<and> length (fw_origins w) = length (fw_points w)"
proof -
  define r where "r = (if coalesce then (case coalesce_points_and_origins hasher ps os of None \<Rightarrow> (ps, os) | Some r \<Rightarrow> r) else (ps, os))"
  have r: "fst r = (if coalesce then coalesce_spec ps else ps)" "length (snd r) = length (fst r)"
    using coalesced_points [OF len refl, of hasher] len(2) by (auto simp: r_def)
  have eq: "ws = map (\<lambda>(a, b). \<lparr>fw_db = db, fw_rp = rp, fw_measurement = m, fw_points = a, fw_origins = b\<rparr>) (split_batches n (fst r) (snd r))"
    unfolding ws measurement_works_def r_def by (auto simp: Let_def split: option.split prod.split)
  note S = split_batches_concat [OF n r(2)]
  have "map fw_points ws = map fst (split_batches n (fst r) (snd r))" unfolding eq by (auto simp: comp_def)
  with S(1) r(1) show "concat (map fw_points ws) = (if coalesce then coalesce_spec ps else ps)" by simp
  show "w \<in> set ws \<Longrightarrow> (fw_db w, fw_rp w, fw_measurement w) = (db, rp, m) \<and> fw_points w \<noteq> []
      \<and> length (fw_points w) \<le> n \<and> length (fw_origins w) = length (fw_points w)"
    unfolding eq using S(3) by auto
qed

lemma filter_by_key:
  assumes "distinct (map fst items)" and "\<And>x w. x \<in> set items \<Longrightarrow> w \<in> set (f x) \<Longrightarrow> key w = fst x"
  shows "filter (\<lambda>w. key w = k) (concat (map f items)) = (case map_of items k of None \<Rightarrow> [] | Some v \<Rightarrow> f (k, v))"
  using assms
proof (induction items)
  case (Cons x items)
  have all: "\<forall>w\<in>set (f x). key w = fst x" using Cons.prems(2) by simp
  then have fx: "filter (\<lambda>w. key w = k) (f x) = (if fst x = k then f x else [])"
    by (auto simp: filter_empty_conv filter_id_conv)
  have "map_of items (fst x) = None" using Cons.prems(1) by (simp add: map_of_eq_None_iff)
  with Cons fx show ?case by (cases x) auto
qed simp

definition work_key :: "flush_work \<Rightarrow> batch_key" where
  "work_key w = (fw_db w, fw_rp w, fw_measurement w)"

lemma native_works_key:
  assumes n: "0 < fs_max_points_per_batch fs" and len: "length (entry_points entries) < 2 ^ 32"
  shows "concat (map fw_points (filter (\<lambda>w. work_key w = k) (native_works hasher fs entries))) =
      (if fs_coalesce fs then coalesce_spec (points_for k entries) else points_for k entries)"
    and "w \<in> set (native_works hasher fs entries) \<Longrightarrow> fw_points w \<noteq> [] \<and> length (fw_points w) \<le> fs_max_points_per_batch fs
      \<and> length (fw_origins w) = length (fw_points w)"
proof -
  let ?G = "group_entries (fs_node_id fs) entries"
  let ?f = "measurement_works hasher (fs_coalesce fs) (fs_max_points_per_batch fs)"
  have small: "length (points_for k entries) < 2 ^ 32" for k
    unfolding points_for_def length_map by (rule le_less_trans [OF length_filter_le len])
  have item: "concat (map fw_points (?f x)) = (if fs_coalesce fs then coalesce_spec (points_for (fst x) entries) else points_for (fst x) entries)
      \<and> (\<forall>w\<in>set (?f x). work_key w = fst x \<and> fw_points w \<noteq> [] \<and> length (fw_points w) \<le> fs_max_points_per_batch fs
           \<and> length (fw_origins w) = length (fw_points w))" if "x \<in> set ?G" for x
  proof -
    obtain db rp m ps os where x: "x = ((db, rp, m), ps, os)" by (metis surj_pair)
    with group_entries_get(2) [of "(db, rp, m)" ps os] that have ps: "ps = points_for (db, rp, m) entries" "length os = length ps" by auto
    with measurement_works_ok [OF n small ps(2) [unfolded ps(1)] refl, where db = db and rp = rp and m = m] show ?thesis
      unfolding x work_key_def by auto
  qed
  have "filter (\<lambda>w. work_key w = k) (native_works hasher fs entries) = (case map_of ?G k of None \<Rightarrow> [] | Some v \<Rightarrow> ?f (k, v))"
    unfolding native_works_def by (rule filter_by_key [OF bm_wf_distinct [OF group_entries_get(1)]]) (use item in blast)
  then show "concat (map fw_points (filter (\<lambda>w. work_key w = k) (native_works hasher fs entries))) =
      (if fs_coalesce fs then coalesce_spec (points_for k entries) else points_for k entries)"
  proof (cases "map_of ?G k")
    case None
    with group_entries_get(3) [of "fs_node_id fs" entries k] \<open>filter _ _ = _\<close> show ?thesis by (simp add: coalesce_spec_def)
  next
    case (Some v)
    with item [OF map_of_SomeD [OF Some]] \<open>filter _ _ = _\<close> show ?thesis by simp
  qed
  show "w \<in> set (native_works hasher fs entries) \<Longrightarrow> fw_points w \<noteq> [] \<and> length (fw_points w) \<le> fs_max_points_per_batch fs
      \<and> length (fw_origins w) = length (fw_points w)"
    using item by (auto simp: native_works_def)
qed

section \<open>Prepared batches\<close>

definition slot_batches :: "(u64 \<times> 'b prepared_wal_slot) list \<Rightarrow> (batch_key \<times> 'b prepared_measurement_batch) list" where
  "slot_batches slots =
     concat (map (\<lambda>(_, slot). map (\<lambda>m. ((ps_database slot, ps_retention_policy slot, pm_measurement m), m)) (ps_measurements slot)) slots)"

text \<open>The batches of a table in a run of slots, in the order of the log.\<close>

definition batches_for :: "batch_key \<Rightarrow> (u64 \<times> 'b prepared_wal_slot) list \<Rightarrow> 'b prepared_measurement_batch list" where
  "batches_for k slots = map snd (filter (\<lambda>x. fst x = k) (slot_batches slots))"

lemma group_slots_flat:
  "group_slots slots = fold (\<lambda>(k, m). bm_update k [] (\<lambda>ms. ms @ [m])) (slot_batches slots) []"
proof -
  have "fold (\<lambda>(_, slot). fold (\<lambda>m. bm_update (ps_database slot, ps_retention_policy slot, pm_measurement m) [] (\<lambda>ms. ms @ [m]))
      (ps_measurements slot)) slots acc = fold (\<lambda>(k, m). bm_update k [] (\<lambda>ms. ms @ [m])) (slot_batches slots) acc" for acc
    by (induction slots arbitrary: acc) (auto simp: slot_batches_def fold_map comp_def)
  then show ?thesis by (simp add: group_slots_def)
qed

lemma grouped_batches:
  "bm_wf (fold (\<lambda>(k, m). bm_update k [] (\<lambda>ms. ms @ [m])) xs []) \<and>
   bm_get (fold (\<lambda>(k, m). bm_update k [] (\<lambda>ms. ms @ [m])) xs []) k =
     (let ys = map snd (filter (\<lambda>x. fst x = k) xs) in if ys = [] then None else Some ys)"
proof (induction xs rule: rev_induct)
  case (snoc x xs)
  then show ?case by (cases x) (auto simp: bm_wf_update bm_get_update Let_def)
qed simp

lemma group_slots_get:
  shows "bm_wf (group_slots slots)"
    and "(k, bs) \<in> set (group_slots slots) \<Longrightarrow> bs = batches_for k slots \<and> bs \<noteq> []"
    and "map_of (group_slots slots) k = None \<longleftrightarrow> batches_for k slots = []"
proof -
  note G = grouped_batches [of "slot_batches slots", folded group_slots_flat batches_for_def]
  show wf: "bm_wf (group_slots slots)" using G by blast
  show "(k, bs) \<in> set (group_slots slots) \<Longrightarrow> bs = batches_for k slots \<and> bs \<noteq> []"
    using G [of k] bm_get_set [OF wf, of k bs] by (auto simp: Let_def split: if_splits)
  show "map_of (group_slots slots) k = None \<longleftrightarrow> batches_for k slots = []"
    using G [of k] by (simp add: Let_def bm_get_def)
qed

lemma batches_for_key: "b \<in> set (batches_for (db, rp, m) slots) \<Longrightarrow> pm_measurement b = m"
  by (auto simp: batches_for_def slot_batches_def)

text \<open>Pieces that cover a batch from one row to another, without gap or overlap.\<close>

fun tiling :: "nat \<Rightarrow> nat \<Rightarrow> (nat \<times> nat) list \<Rightarrow> bool" where
  "tiling start stop [] \<longleftrightarrow> start = stop"
| "tiling start stop ((offset, len) # cuts) \<longleftrightarrow> offset = start \<and> 0 < len \<and> tiling (start + len) stop cuts"

lemma slice_works_tiles:
  assumes "0 < n" and "offset \<le> pm_row_count b"
  shows "\<exists>cuts. tiling offset (pm_row_count b) cuts \<and> slice_works k n b offset = map (\<lambda>(o', len). slice_prepared_batch k b o' len) cuts"
  using assms
proof (induction k n b offset rule: slice_works.induct)
  case (1 k n b offset)
  show ?case
  proof (cases "offset < pm_row_count b")
    case True
    let ?len = "min (pm_row_count b - offset) n"
    have "offset < pm_row_count b \<and> 0 < n" "offset + ?len \<le> pm_row_count b" using True 1(2) by auto
    from 1(1) [OF this(1) 1(2) this(2)] obtain cuts where
      "tiling (offset + ?len) (pm_row_count b) cuts"
      "slice_works k n b (offset + ?len) = map (\<lambda>(o', len). slice_prepared_batch k b o' len) cuts" by blast
    with True 1(2) show ?thesis by (intro exI [of _ "(offset, ?len) # cuts"]) (subst slice_works.simps, simp)
  next
    case False
    with 1(3) show ?thesis by (intro exI [of _ "[]"]) (subst slice_works.simps, simp)
  qed
qed

lemma merged_batch:
  assumes "merge_batches k coalesce batches = Inr merged" and "batches \<noteq> []"
  obtains b where "coalesce_prepared_batches k batches = Inr (Some b)" "merged = [b]" "pm_measurement b = pm_measurement (hd batches)"
proof -
  obtain out where out: "coalesce_prepared_batches k batches = Inr out" "merged = (case out of None \<Rightarrow> [] | Some b \<Rightarrow> [b])"
    using assms by (cases batches; cases "tl batches")
      (auto simp: merge_batches_def Let_def coalesce_prepared_batches_def elim!: and_then_InrE split: if_splits)
  moreover have "\<exists>b. out = Some b \<and> pm_measurement b = pm_measurement (hd batches)"
    using out(1) assms(2) by (cases batches; cases "tl batches")
      (auto simp: coalesce_prepared_batches_def elim!: and_then_InrE)
  ultimately show ?thesis using that by auto
qed

definition prepared_key :: "'b prepared_flush_work \<Rightarrow> batch_key" where
  "prepared_key w = (pf_db w, pf_rp w, pm_measurement (pf_batch w))"

text \<open>The inserts are, for each table, the batches of the table stacked into one and cut into pieces.\<close>

definition prepared_rows :: "('b, 'a) arrow_kernel \<Rightarrow> (u64 \<times> 'b prepared_wal_slot) list \<Rightarrow> 'b prepared_flush_work list \<Rightarrow> bool" where
  "prepared_rows kern slots ws \<longleftrightarrow> (\<forall>k.
     if batches_for k slots = [] then \<forall>w\<in>set ws. prepared_key w \<noteq> k
     else \<exists>b cuts. coalesce_prepared_batches kern (batches_for k slots) = Inr (Some b) \<and> tiling 0 (pm_row_count b) cuts
       \<and> map pf_batch (filter (\<lambda>w. prepared_key w = k) ws) = map (\<lambda>(offset, len). slice_prepared_batch kern b offset len) cuts)"

lemma prepared_works_rows:
  assumes "prepared_works kern fs slots = Inr works" and n: "0 < fs_max_points_per_batch fs"
  shows "prepared_rows kern slots works"
proof -
  let ?G = "group_slots slots" and ?n = "fs_max_points_per_batch fs"
  define f where "f = (\<lambda>((db, rp, _ :: string), batches).
    and_then (merge_batches kern (fs_coalesce fs) batches) (\<lambda>merged.
      Inr (map (\<lambda>b. \<lparr>pf_db = db, pf_rp = rp, pf_batch = b\<rparr>) (concat (map (\<lambda>b. slice_works kern ?n b 0) merged)))))"
  from assms(1) obtain wss where wss: "list_all2 (\<lambda>x y. f x = Inr y) ?G wss" "works = concat wss"
    unfolding prepared_works_def f_def [symmetric] by (auto simp: try_map_Inr elim!: and_then_InrE)
  have "map (projr \<circ> f) ?G = wss" using wss(1) by (induction rule: list_all2_induct) auto
  then have works: "works = concat (map (projr \<circ> f) ?G)" using wss(2) by simp
  have ok: "\<exists>y. f x = Inr y" if "x \<in> set ?G" for x using wss(1) that by (induction rule: list_all2_induct) auto
  have item: "\<exists>b cuts. coalesce_prepared_batches kern (batches_for k slots) = Inr (Some b) \<and> tiling 0 (pm_row_count b) cuts
      \<and> map pf_batch (projr (f (k, bs))) = map (\<lambda>(offset, len). slice_prepared_batch kern b offset len) cuts
      \<and> (\<forall>w\<in>set (projr (f (k, bs))). prepared_key w = k)" if x: "(k, bs) \<in> set ?G" for k bs
  proof -
    obtain db rp m where k: "k = (db, rp, m)" by (metis surj_pair)
    from ok [OF x] obtain merged where mg: "merge_batches kern (fs_coalesce fs) bs = Inr merged"
      "f (k, bs) = Inr (map (\<lambda>b. \<lparr>pf_db = db, pf_rp = rp, pf_batch = b\<rparr>) (concat (map (\<lambda>b. slice_works kern ?n b 0) merged)))"
      by (auto simp: f_def k elim!: and_then_InrE)
    have bs: "bs = batches_for k slots" "bs \<noteq> []" using group_slots_get(2) [OF x] by auto
    obtain b where b: "coalesce_prepared_batches kern bs = Inr (Some b)" "merged = [b]" "pm_measurement b = pm_measurement (hd bs)"
      by (rule merged_batch [OF mg(1) bs(2)])
    obtain cuts where c: "tiling 0 (pm_row_count b) cuts" "slice_works kern ?n b 0 = map (\<lambda>(o', len). slice_prepared_batch kern b o' len) cuts"
      using slice_works_tiles [OF n, of 0 b kern] by blast
    have "pm_measurement b = m" using b(3) batches_for_key [of "hd bs" db rp m slots] bs k by simp
    then have "\<forall>w\<in>set (projr (f (k, bs))). prepared_key w = k"
      unfolding mg(2) by (auto simp: b(2) c(2) prepared_key_def k slice_prepared_batch_def)
    moreover have "map pf_batch (projr (f (k, bs))) = map (\<lambda>(offset, len). slice_prepared_batch kern b offset len) cuts"
      unfolding mg(2) by (simp add: b(2) c(2))
    ultimately show ?thesis using b(1) c(1) unfolding bs(1) by blast
  qed
  have key: "prepared_key w = fst x" if "x \<in> set ?G" "w \<in> set ((projr \<circ> f) x)" for x w
    using item [of "fst x" "snd x"] that by auto
  have flt: "filter (\<lambda>w. prepared_key w = k) works = (case map_of ?G k of None \<Rightarrow> [] | Some v \<Rightarrow> (projr \<circ> f) (k, v))" for k
    unfolding works by (rule filter_by_key [OF bm_wf_distinct [OF group_slots_get(1)] key])
  show ?thesis
    unfolding prepared_rows_def
  proof (intro allI, goal_cases)
    case (1 k)
    show ?case
    proof (cases "map_of ?G k")
      case None
      with flt [of k] group_slots_get(3) [of slots k] show ?thesis by (auto simp: filter_empty_conv)
    next
      case (Some bs)
      with item [OF map_of_SomeD [OF Some]] flt [of k] group_slots_get(3) [of slots k] show ?thesis by auto
    qed
  qed
qed

section \<open>What the sink has settled\<close>

text \<open>
  An answer settles an insert when the rows were written, or when the table can never take them: the
  code counts the latter as dropped and goes on.
\<close>

definition settled :: "sink_error + unit \<Rightarrow> bool" where
  "settled r \<longleftrightarrow> r = Inr () \<or> (\<exists>m. r = Inl (WriteToMaterializedDestination m))"

text \<open>The sink was asked for these inserts, one after the other, and its answer settled each.\<close>

definition all_settled :: "'b sink_history \<Rightarrow> 'b sink_call list \<Rightarrow> bool" where
  "all_settled h calls \<longleftrightarrow>
     (\<exists>before rs after. h = before @ zip calls rs @ after \<and> length rs = length calls \<and> (\<forall>r\<in>set rs. settled r))"

definition native_rows :: "bool \<Rightarrow> (u64 \<times> wal_entry) list \<Rightarrow> flush_work list \<Rightarrow> bool" where
  "native_rows merge entries ws \<longleftrightarrow> (\<forall>k.
     concat (map fw_points (filter (\<lambda>w. work_key w = k) ws)) =
       (if merge then coalesce_spec (points_for k entries) else points_for k entries))"

text \<open>All rows of a chunk are in inserts that the sink has settled.\<close>

definition chunk_settled :: "('b, 'a) arrow_kernel \<Rightarrow> bool \<Rightarrow> 'b sink_history \<Rightarrow> 'b chunk \<Rightarrow> bool" where
  "chunk_settled kern merge h ch \<longleftrightarrow>
     (case ch of
        Native entries \<Rightarrow> \<exists>ws bases. length bases = length ws \<and> all_settled h (map2 WritePoints ws bases) \<and> native_rows merge entries ws
      | Prepared slots \<Rightarrow> \<exists>ws. all_settled h (map WritePrepared ws) \<and> prepared_rows kern slots ws)"

text \<open>
  The chunk has the entry, itself or as a slot that holds it, and otherwise only entries that were
  offered to the log, in the order of their numbers.
\<close>

definition chunk_has :: "('b prepared_wal_slot \<Rightarrow> wal_entry \<Rightarrow> bool) \<Rightarrow> (u64 \<times> wal_entry) set \<Rightarrow> u64 \<Rightarrow> wal_entry \<Rightarrow> 'b chunk \<Rightarrow> bool" where
  "chunk_has holds offered s e ch \<longleftrightarrow> sorted_wrt (<) (chunk_seqs ch) \<and>
     (case ch of
        Native entries \<Rightarrow> (s, e) \<in> set entries \<and> set entries \<subseteq> offered
      | Prepared slots \<Rightarrow> (\<exists>slot. (s, slot) \<in> set slots \<and> holds slot e)
          \<and> (\<forall>(t, slot)\<in>set slots. \<exists>e'. (t, e') \<in> offered \<and> holds slot e'))"

definition covered :: "('b, 'a) arrow_kernel \<Rightarrow> bool \<Rightarrow> ('b prepared_wal_slot \<Rightarrow> wal_entry \<Rightarrow> bool) \<Rightarrow> (u64 \<times> wal_entry) set
    \<Rightarrow> 'b sink_history \<Rightarrow> u64 \<Rightarrow> wal_entry \<Rightarrow> bool" where
  "covered kern merge holds offered h s e \<longleftrightarrow> (\<exists>ch. chunk_settled kern merge h ch \<and> chunk_has holds offered s e ch)"

lemma all_settled_more: "all_settled h calls \<Longrightarrow> all_settled (h @ h') calls"
  unfolding all_settled_def by (metis append.assoc)

lemma chunk_settled_more: "chunk_settled kern merge h ch \<Longrightarrow> chunk_settled kern merge (h @ h') ch"
  unfolding chunk_settled_def by (auto split: chunk.splits intro: all_settled_more)

lemma chunk_has_more: "chunk_has holds offered s e ch \<Longrightarrow> offered \<subseteq> offered' \<Longrightarrow> chunk_has holds offered' s e ch"
  unfolding chunk_has_def by (cases ch) (auto, fast)

lemma covered_more:
  "covered kern merge holds offered h s e \<Longrightarrow> offered \<subseteq> offered' \<Longrightarrow> covered kern merge holds offered' (h @ h') s e"
  unfolding covered_def by (blast intro: chunk_settled_more chunk_has_more)

lemma item_failed_settled: "item_failed r \<longleftrightarrow> \<not> settled r"
  by (auto simp: item_failed_def unwritable_rows_def settled_def split: sum.splits sink_error.splits)

lemma send_calls_history: "send_calls sink calls h = (h', rs) \<Longrightarrow> h' = h @ zip calls rs \<and> length rs = length calls"
  by (induction sink calls h arbitrary: h' rs rule: send_calls.induct) (auto simp: Let_def split: prod.splits)

lemma send_calls_settled:
  assumes "send_calls sink calls h = (h', rs)" and "\<not> list_ex item_failed rs"
  shows "all_settled h' calls"
proof -
  have "h' = h @ zip calls rs @ []" "length rs = length calls" using send_calls_history [OF assms(1)] by simp_all
  moreover have "\<forall>r\<in>set rs. settled r" using assms(2) by (simp add: list_ex_iff item_failed_settled)
  ultimately show ?thesis unfolding all_settled_def by blast
qed

lemma number_works_calls:
  "number_works from ws = map2 WritePoints ws (map (\<lambda>i. saturating_add from (word_of_nat i)) [0..<length ws])"
  by (rule nth_equalityI) (simp_all add: number_works_def nth_enumerate_eq)

lemma write_chunk_history:
  assumes "write_chunk env fs ch h = (h', res)"
  shows "\<exists>more. h' = h @ more"
  using assms by (auto simp: write_chunk_def split: chunk.splits sum.splits prod.splits dest!: send_calls_history)

lemma write_chunk_settled:
  assumes "write_chunk env fs ch h = (h', Inr False)" and "0 < fs_max_points_per_batch fs"
    and "\<And>entries. ch = Native entries \<Longrightarrow> length (entry_points entries) < 2 ^ 32"
  shows "chunk_settled (fe_kernel env) (fs_coalesce fs) h' ch"
proof (cases ch)
  case (Native entries)
  let ?ws = "native_works (fe_hash env) fs entries" and ?from = "fs_last_flushed fs + 1"
  obtain rs where rs: "send_calls (fe_sink env) (number_works ?from ?ws) h = (h', rs)" "\<not> list_ex item_failed rs"
    using assms(1) by (auto simp: write_chunk_def Native split: prod.splits)
  from send_calls_settled [OF this] native_works_key(1) [OF assms(2) assms(3) [OF Native], of _ "fe_hash env"] show ?thesis
    unfolding chunk_settled_def Native number_works_calls
    by (auto simp: native_rows_def intro!: exI [of _ ?ws] exI [of _ "map (\<lambda>i. saturating_add ?from (word_of_nat i)) [0..<length ?ws]"])
next
  case (Prepared slots)
  then obtain works rs where w: "prepared_works (fe_kernel env) fs slots = Inr works"
    "send_calls (fe_sink env) (map WritePrepared works) h = (h', rs)" "\<not> list_ex item_failed rs"
    using assms(1) by (auto simp: write_chunk_def split: prod.splits sum.splits)
  from send_calls_settled [OF w(2,3)] prepared_works_rows [OF w(1) assms(2)] show ?thesis
    by (auto simp: chunk_settled_def Prepared)
qed

end
