(* ===== verification/Flush_Safety.thy ===== *)
theory Flush_Safety
  imports Flush_Inserts
begin

text \<open>
  The flush service never truncates an entry before the query engine has settled every insert of
  it, in any interleaving with writers, changes of the cluster and restarts; and every flush ends.
\<close>

section \<open>The truncation point\<close>

lemma margin_scan_le:
  "start \<le> t \<Longrightarrow> \<forall>x\<in>set xs. fst x \<le> t \<Longrightarrow> margin_scan mb kept start xs \<le> t"
proof (induction mb kept start xs rule: margin_scan.induct)
  case (2 mb kept start s len rest)
  have "saturating_sub s 1 \<le> t"
    using 2(3) by (auto simp: saturating_sub_def intro: order_trans [OF word_sub_le])
  with 2 show ?case by auto
qed simp

lemma rev_sizes_le:
  assumes "sorted_wrt (<) (map fst xs)"
  shows "\<forall>x\<in>set (dropWhile (\<lambda>(s, _). (t :: u64) < s) (rev xs)). fst x \<le> t"
  using assms
proof (induction xs rule: rev_induct)
  case (snoc x xs)
  then show ?case
    by (cases x) (auto simp: sorted_wrt_append not_less dest!: set_dropWhileD intro: order.trans less_imp_le)
qed simp

lemma flushed_margin_start_le:
  "wal_ok env rows w \<Longrightarrow> flushed_margin_start through mb w \<le> through"
  unfolding flushed_margin_start_def
  by (intro margin_scan_le rev_sizes_le) (auto dest: wal_okD(6))

lemma saturating_sub_le: "saturating_sub (a :: u64) b \<le> a"
  by (simp add: saturating_sub_def word_sub_le)

lemma compute_safe_le:
  assumes "wal_ok env rows (fs_wal fs)"
  shows "compute_safe_truncate_seq kv now fs through \<le> through"
  using flushed_margin_start_le [OF assms] saturating_sub_le
  by (auto simp: compute_safe_truncate_seq_def Let_def split: option.split sum.split)

section \<open>What a chunk holds\<close>

lemma fold_max_Max: "fold max ss s = Max (set (s # ss))"
  by (simp add: Max.set_eq_fold [symmetric])

lemma chunk_max_Max: "chunk_seqs ch \<noteq> [] \<Longrightarrow> chunk_max_seq c ch = Max (set (chunk_seqs ch))"
  by (cases "chunk_seqs ch") (simp_all add: chunk_max_seq_def fold_max_Max)

lemma take_run_interval:
  assumes "take_run n s t m = (m', out)" and "t < u64_max" and "out \<noteq> []"
  shows "\<exists>l. s \<le> l \<and> l \<le> t \<and> fst ` set out = {s..l} \<and> sorted_wrt (<) (map fst out)"
  using assms
proof (induction n s t m arbitrary: m' out rule: take_run.induct)
  case (2 n s t m)
  from 2(2,4) have st: "s \<le> t" by (auto split: if_splits)
  with 2(2,4) obtain slot where slot: "bm_get m s = Some slot" by (auto split: option.splits)
  obtain m1 out1 where r: "take_run n (s + 1) t (bm_remove s m) = (m1, out1)" by fastforce
  with 2(2) st slot have out: "out = (s, slot) # out1" by simp
  have lt: "s < s + 1" using st 2(3) by (intro word_succ_gt) auto
  show ?case
  proof (cases "out1 = []")
    case True
    with out st show ?thesis by (intro exI [of _ s]) auto
  next
    case False
    have "\<exists>l. s + 1 \<le> l \<and> l \<le> t \<and> fst ` set out1 = {s + 1..l} \<and> sorted_wrt (<) (map fst out1)"
      using 2(1) [OF _ slot r 2(3) False] st by simp
    then obtain l where l: "s + 1 \<le> l" "l \<le> t" "fst ` set out1 = {s + 1..l}" "sorted_wrt (<) (map fst out1)" by blast
    then have above: "\<forall>x\<in>fst ` set out1. s < x" using lt by (auto intro: less_le_trans)
    have "insert s {s + 1..l} = {s..l}"
    proof (intro set_eqI iffI)
      fix x
      assume "x \<in> {s..l}"
      then show "x \<in> insert s {s + 1..l}" by (cases "x = s") (auto intro: inc_le)
    qed (use l(1) lt in auto)
    with l(1-3) lt out have "s \<le> l" "fst ` set out = {s..l}" by auto
    moreover have "sorted_wrt (<) (map fst out)" using above l(4) by (simp add: out)
    ultimately show ?thesis using l(2) by blast
  qed
qed simp

lemma patch_slots_seqs: "patch_slots ar slots = Inr slots' \<Longrightarrow> map fst slots' = map fst slots"
  by (induction ar slots arbitrary: slots' rule: patch_slots.induct) (auto elim!: and_then_InrE)

lemma take_prepared_interval:
  assumes "take_prepared_range env s t n w = (w', Inr (Some slots))" and "t < u64_max"
  shows "\<exists>l. s \<le> l \<and> l \<le> t \<and> fst ` set slots = {s..l} \<and> slots \<noteq> [] \<and> sorted_wrt (<) (map fst slots)"
proof -
  obtain m out where t: "take_range s t n (wal_cache w) = (m, out)" by fastforce
  with assms(1) obtain slots0 where out: "out = Some slots0" "map fst slots = map fst slots0"
    by (auto simp: take_prepared_range_def patch_slots_seqs split: if_splits option.splits elim!: and_then_InrE)
  then obtain m' where "take_run n s t (wal_cache w) = (m', slots0)" "slots0 \<noteq> []"
    using t by (auto simp: take_range_def Let_def split: if_splits prod.splits)
  from take_run_interval [OF this(1) assms(2) this(2)] this(2) out(2) show ?thesis
    by (metis list.set_map map_is_Nil_conv)
qed

lemma take_budget_prefix: "\<exists>rest. take_budget b taken xs @ rest = xs"
  by (induction b taken xs rule: take_budget.induct) auto

lemma take_budget_Nil [simp]: "take_budget b 0 xs = [] \<longleftrightarrow> xs = []"
  by (cases xs) auto

lemma log_from_sorted: "sorted_wrt (<) (map fst (log_from l from))"
  by (simp add: log_from_def comp_def)

lemma log_from_set: "(s, e) \<in> set (log_from l from) \<longleftrightarrow> from \<le> s \<and> l s = Some e"
  by (auto simp: log_from_def)

lemma filter_le_prefix:
  assumes "sorted_wrt (<) (map fst (xs :: (u64 \<times> 'a) list))"
  shows "\<exists>rest. filter (\<lambda>(s, _). s \<le> t) xs @ rest = xs"
  using assms
proof (induction xs)
  case (Cons x xs)
  show ?case
  proof (cases "fst x \<le> t")
    case True
    with Cons show ?thesis by (auto simp: split_def)
  next
    case False
    then have "filter (\<lambda>(s, _). s \<le> t) xs = []"
      using Cons.prems by (auto simp: filter_empty_conv split_def intro: order.trans less_imp_le)
    with False show ?thesis by (simp add: split_def)
  qed
qed simp

lemma prefix_holds:
  assumes "xs @ rest = log_from l from" and "xs \<noteq> []" and "from \<le> s" and "l s = Some e" and "s \<le> Max (fst ` set xs)"
  shows "(s, e) \<in> set xs"
proof (rule ccontr)
  assume "(s, e) \<notin> set xs"
  with assms(1,3,4) have "(s, e) \<in> set rest" by (metis Un_iff log_from_set set_append)
  moreover have "sorted_wrt (<) (map fst (xs @ rest))" by (simp only: assms(1) log_from_sorted)
  ultimately have "\<forall>x\<in>set xs. fst x < s" by (force simp: sorted_wrt_append)
  then have "Max (fst ` set xs) < s" using assms(2) by simp
  with assms(5) show False by simp
qed

text \<open>A page cut at the budget has few points when no entry is huge.\<close>

lemma entry_points_simps [simp]:
  "entry_points [] = []" "entry_points (x # xs) = map (Pair (snd x)) (we_points (snd x)) @ entry_points xs"
  by (simp_all add: entry_points_def split_def)

lemma take_budget_points:
  assumes "\<forall>x\<in>set xs. length (we_points (snd x)) \<le> m"
  shows "taken + length (entry_points (take_budget b taken xs)) \<le> max taken (b + m)"
  using assms
proof (induction b taken xs rule: take_budget.induct)
  case (2 b taken x xs)
  show ?case
  proof (cases "taken = 0 \<or> taken < b")
    case True
    with 2 have "taken + length (we_points (snd x)) + length (entry_points (take_budget b (taken + length (we_points (snd x))) xs))
      \<le> max (taken + length (we_points (snd x))) (b + m)" by simp
    moreover have "taken + length (we_points (snd x)) \<le> b + m" using True 2(2) by auto
    ultimately show ?thesis using True by simp
  qed auto
qed simp

section \<open>The invariant\<close>

abbreviation service_log :: "('d, 'b) wal_env \<Rightarrow> ('d \<Rightarrow> wal_key \<Rightarrow> u8 list option) \<Rightarrow> ('d, 'b, 'r) flush_service
    \<Rightarrow> u64 \<Rightarrow> wal_entry option" where
  "service_log env rows fs \<equiv> wal_log env (wal_fmt (fs_wal fs)) rows (wal_db (fs_wal fs))"

text \<open>
  What the stores and the numbering of rows are relied on for: the store of the log behaves as
  documented, and numbering the rows of a slot does not change what it holds.
\<close>

definition flush_env_ok :: "('b prepared_wal_slot \<Rightarrow> wal_entry \<Rightarrow> bool) \<Rightarrow> ('d, 'b, 'a, 'r) flush_env
    \<Rightarrow> ('d \<Rightarrow> wal_key \<Rightarrow> u8 list option) \<Rightarrow> bool" where
  "flush_env_ok holds env rows \<longleftrightarrow> env_ok (fe_wal env) rows \<and> patch_keeps holds (env_ops (fe_wal env))"

text \<open>The batch size is as \<open>FlushServiceImpl::new\<close> clamps it.\<close>

definition batch_size_ok :: "('d, 'b, 'r) flush_service \<Rightarrow> bool" where
  "batch_size_ok fs \<longleftrightarrow> 0 < fs_max_points_per_batch fs \<and> fs_max_points_per_batch fs \<le> MAX_BATCH_POINTS"

lemma new_service_batch_size: "batch_size_ok (new_service w n coalesce)"
  by (auto simp: batch_size_ok_def new_service_def DEFAULT_MAX_POINTS_PER_BATCH_def MAX_BATCH_POINTS_def MIN_BATCH_POINTS_def)

text \<open>An entry that a chunk can merge with 32-bit indices.\<close>

definition small_entry :: "wal_entry \<Rightarrow> bool" where
  "small_entry e \<longleftrightarrow> length (we_points e) < 2 ^ 31"

abbreviation covers :: "('b prepared_wal_slot \<Rightarrow> wal_entry \<Rightarrow> bool) \<Rightarrow> ('d, 'b, 'a, 'r) flush_env \<Rightarrow> ('d, 'b, 'r) flush_service
    \<Rightarrow> 'b sink_history \<Rightarrow> (u64 \<times> wal_entry) set \<Rightarrow> u64 \<Rightarrow> wal_entry \<Rightarrow> bool" where
  "covers holds env fs h offered s e \<equiv> covered (fe_kernel env) (fs_coalesce fs) holds offered h s e"

definition flush_inv :: "('b prepared_wal_slot \<Rightarrow> wal_entry \<Rightarrow> bool) \<Rightarrow> ('d, 'b, 'a, 'r) flush_env
    \<Rightarrow> ('d \<Rightarrow> wal_key \<Rightarrow> u8 list option) \<Rightarrow> ('d, 'b, 'r) flush_service
    \<Rightarrow> 'b sink_history \<Rightarrow> (u64 \<times> wal_entry) set \<Rightarrow> (u64 \<Rightarrow> wal_entry option) \<Rightarrow> bool" where
  "flush_inv holds env rows fs h offered written \<longleftrightarrow>
     wal_ok (fe_wal env) rows (fs_wal fs) \<and> wal_seq (fs_wal fs) < u64_max \<and> fs_last_flushed fs \<le> wal_seq (fs_wal fs)
     \<and> (\<forall>s e. service_log (fe_wal env) rows fs s = Some e \<longrightarrow> 0 < s \<and> s \<le> wal_seq (fs_wal fs))
     \<and> (\<forall>s e. written s = Some e \<longrightarrow> s \<le> recovered rows (wal_db (fs_wal fs)))
     \<and> (\<forall>s e. written s = Some e \<longrightarrow> covers holds env fs h offered s e \<or> service_log (fe_wal env) rows fs s = Some e)
     \<and> (\<forall>s e. written s = Some e \<longrightarrow> s \<le> fs_last_flushed fs \<longrightarrow> covers holds env fs h offered s e)
     \<and> slots_ok holds (fe_wal env) rows (fs_wal fs) \<and> batch_size_ok fs
     \<and> (\<forall>s e. service_log (fe_wal env) rows fs s = Some e \<longrightarrow> (s, e) \<in> offered \<and> small_entry e)"

lemma flush_invD:
  assumes "flush_inv holds env rows fs h offered written"
  shows "wal_ok (fe_wal env) rows (fs_wal fs)" and "wal_seq (fs_wal fs) < u64_max" and "fs_last_flushed fs \<le> wal_seq (fs_wal fs)"
    and "service_log (fe_wal env) rows fs s = Some e \<Longrightarrow> 0 < s \<and> s \<le> wal_seq (fs_wal fs)"
    and "written s = Some e \<Longrightarrow> s \<le> recovered rows (wal_db (fs_wal fs))"
    and "written s = Some e \<Longrightarrow> covers holds env fs h offered s e \<or> service_log (fe_wal env) rows fs s = Some e"
    and "written s = Some e \<Longrightarrow> s \<le> fs_last_flushed fs \<Longrightarrow> covers holds env fs h offered s e"
    and "slots_ok holds (fe_wal env) rows (fs_wal fs)" and "batch_size_ok fs"
    and "service_log (fe_wal env) rows fs s = Some e \<Longrightarrow> (s, e) \<in> offered \<and> small_entry e"
  using assms unfolding flush_inv_def by blast+

lemma flush_inv_cache:
  assumes "flush_inv holds env rows fs h offered written" and "wal_ok (fe_wal env) rows (fs_wal fs\<lparr>wal_cache := m\<rparr>)"
    and "slots_ok holds (fe_wal env) rows (fs_wal fs\<lparr>wal_cache := m\<rparr>)"
  shows "flush_inv holds env rows (fs\<lparr>fs_wal := fs_wal fs\<lparr>wal_cache := m\<rparr>\<rparr>) h offered written"
  using assms by (simp add: flush_inv_def batch_size_ok_def)

lemma flush_inv_note:
  "flush_inv holds env rows (note_local ch fs) h offered written = flush_inv holds env rows fs h offered written"
  by (simp add: flush_inv_def note_local_def batch_size_ok_def)

lemma flush_inv_more:
  "flush_inv holds env rows fs h offered written \<Longrightarrow> flush_inv holds env rows fs (h @ h') offered written"
  unfolding flush_inv_def by (blast intro: covered_more [OF _ order_refl])

section \<open>Reading\<close>

definition chunk_ok :: "('b prepared_wal_slot \<Rightarrow> wal_entry \<Rightarrow> bool) \<Rightarrow> (u64 \<Rightarrow> wal_entry option) \<Rightarrow> u64 \<Rightarrow> u64 \<Rightarrow> 'b chunk \<Rightarrow> bool" where
  "chunk_ok holds l cursor snapshot ch \<longleftrightarrow>
     cursor < chunk_max_seq cursor ch \<and> chunk_max_seq cursor ch \<le> snapshot
     \<and> (\<forall>s e. l s = Some e \<longrightarrow> cursor < s \<longrightarrow> s \<le> chunk_max_seq cursor ch \<longrightarrow> chunk_has holds (Map.graph l) s e ch)
     \<and> (\<forall>entries. ch = Native entries \<longrightarrow> length (entry_points entries) < 2 ^ 32)"

lemma native_chunk_ok:
  assumes all: "taken @ rest = log_from l from" and ne: "taken \<noteq> []" and gt: "\<And>s. cursor < s \<longleftrightarrow> from \<le> s"
    and below: "\<forall>x\<in>set taken. fst x \<le> snapshot" and pts: "length (entry_points taken) < 2 ^ 32"
  shows "chunk_ok holds l cursor snapshot (Native taken)"
proof -
  have mx: "chunk_max_seq cursor (Native taken) = Max (fst ` set taken)" using ne by (simp add: chunk_max_Max)
  have "Max (fst ` set taken) \<in> fst ` set taken" using ne by (intro Max_in) auto
  then obtain e where mem: "(Max (fst ` set taken), e) \<in> set taken" by auto
  have log: "from \<le> s \<and> l s = Some e" if "(s, e) \<in> set taken" for s e
    using that unfolding log_from_set [symmetric] all [symmetric] by simp
  have "sorted_wrt (<) (map fst (taken @ rest))" by (simp only: all log_from_sorted)
  then have sorted: "sorted_wrt (<) (chunk_seqs (Native taken))" by (simp add: sorted_wrt_append)
  have "chunk_has holds (Map.graph l) s e (Native taken)" if "l s = Some e" "cursor < s" "s \<le> Max (fst ` set taken)" for s e
    using prefix_holds [OF all ne _ that(1,3)] that(2) gt sorted log by (auto simp: chunk_has_def Map.graph_def)
  then show ?thesis
    unfolding chunk_ok_def mx using below mem log [OF mem] gt pts by auto
qed

lemma read_native_ok:
  assumes env: "env_ok env rows" and ok: "wal_ok env rows (fs_wal fs)" and so: "slots_ok holds env rows (fs_wal fs)"
    and lt: "fs_last_flushed fs < snapshot" and sn: "snapshot < u64_max" and n: "0 < n"
    and size: "batch_size_ok fs" and small: "\<forall>s e. service_log env rows fs s = Some e \<longrightarrow> small_entry e"
    and r: "read_native env snapshot n fs = (fs', res)"
  shows "\<exists>m. fs' = fs\<lparr>fs_wal := fs_wal fs\<lparr>wal_cache := m\<rparr>\<rparr> \<and> wal_ok env rows (fs_wal fs') \<and> slots_ok holds env rows (fs_wal fs')"
    and "res = Inr (Some ch) \<Longrightarrow> chunk_ok holds (service_log env rows fs) (fs_last_flushed fs) snapshot ch"
    and "res = Inr None \<Longrightarrow> service_log env rows fs s \<noteq> None \<Longrightarrow> fs_last_flushed fs < s \<Longrightarrow> snapshot < s"
    and "\<exists>ch. res = Inr ch"
proof -
  let ?from = "fs_last_flushed fs + 1" and ?log = "service_log env rows fs"
  obtain w pg where rr: "read_range env ?from n (fs_wal fs) = (w, pg)" by fastforce
  from read_range_page [OF env ok rr] obtain page rest m where
    p: "pg = Inr page" "page @ rest = log_from ?log ?from" "page = [] \<longrightarrow> rest = []"
    and w: "w = fs_wal fs\<lparr>wal_cache := m\<rparr>" "wal_ok env rows w" using n by blast
  note w' = read_range_page(3) [OF env ok rr so]
  define below where "below = filter (\<lambda>(s, _). s \<le> snapshot) page"
  define taken where "taken = take_budget (fs_max_points_per_batch fs * NATIVE_CHUNK_BATCHES) 0 below"
  have res: "fs' = fs\<lparr>fs_wal := w\<rparr>" "res = Inr (if taken = [] then None else Some (Native taken))"
    using r by (auto simp: read_native_def rr p(1) Let_def taken_def below_def)
  show "\<exists>m. fs' = fs\<lparr>fs_wal := fs_wal fs\<lparr>wal_cache := m\<rparr>\<rparr> \<and> wal_ok env rows (fs_wal fs') \<and> slots_ok holds env rows (fs_wal fs')"
    "\<exists>ch. res = Inr ch"
    using w w' res by auto
  have gt: "fs_last_flushed fs < s \<longleftrightarrow> ?from \<le> s" for s
    using lt sn by (intro iffI inc_le le_less_trans [OF _ word_succ_gt]) (auto intro: less_le_trans [OF word_succ_gt])
  have sorted: "sorted_wrt (<) (map fst page)"
    using log_from_sorted [of ?log ?from] by (simp flip: p(2) add: sorted_wrt_append)
  obtain r1 r2 where pre: "taken @ r1 = below" "below @ r2 = page"
    unfolding taken_def below_def using take_budget_prefix filter_le_prefix [OF sorted] by blast
  then have all: "taken @ r1 @ r2 @ rest = log_from ?log ?from" using p(2) by (metis append.assoc)
  show "chunk_ok holds ?log (fs_last_flushed fs) snapshot ch" if c: "res = Inr (Some ch)"
  proof -
    from c res(2) have ch: "ch = Native taken" "taken \<noteq> []" by (auto split: if_splits)
    have "\<forall>x\<in>set below. fst x \<le> snapshot" by (auto simp: below_def)
    then have le: "\<forall>x\<in>set taken. fst x \<le> snapshot" by (simp flip: pre(1))
    have "\<forall>x\<in>set below. length (we_points (snd x)) \<le> 2 ^ 31"
    proof
      fix x
      assume "x \<in> set below"
      then have "(fst x, snd x) \<in> set (log_from ?log ?from)" unfolding all [symmetric] append.assoc [symmetric] pre(1) by simp
      then have "small_entry (snd x)" using small unfolding log_from_set by blast
      then show "length (we_points (snd x)) \<le> 2 ^ 31" by (simp add: small_entry_def)
    qed
    from take_budget_points [OF this, of 0 "fs_max_points_per_batch fs * NATIVE_CHUNK_BATCHES"]
    have "length (entry_points taken) \<le> fs_max_points_per_batch fs * NATIVE_CHUNK_BATCHES + 2 ^ 31" by (simp add: taken_def)
    then have "length (entry_points taken) < 2 ^ 32"
      using size by (simp add: batch_size_ok_def MAX_BATCH_POINTS_def NATIVE_CHUNK_BATCHES_def)
    from native_chunk_ok [OF all ch(2) gt le this] show ?thesis by (simp add: ch(1))
  qed
  show "snapshot < s" if "res = Inr None" "?log s \<noteq> None" "fs_last_flushed fs < s"
  proof (rule ccontr)
    assume "\<not> snapshot < s"
    from that(1) res(2) have none: "below = []" by (auto simp: taken_def split: if_splits)
    from that(2,3) gt obtain e where mem: "(s, e) \<in> set (page @ rest)" unfolding p(2) by (auto simp: log_from_set)
    then obtain a b list where page: "page = (a, b) # list" using p(3) by (cases page) auto
    have "sorted_wrt (<) (map fst (page @ rest))" by (simp only: p(2) log_from_sorted)
    then have "\<forall>x\<in>set (page @ rest). a \<le> fst x" by (auto simp: page intro: less_imp_le)
    with mem have "a \<le> s" by fastforce
    moreover have "snapshot < a" using none by (simp add: below_def page split: if_splits)
    ultimately show False using \<open>\<not> snapshot < s\<close> by simp
  qed
qed

lemma native_limit_pos: "0 < native_limit from_seq w"
  by (auto simp: native_limit_def WAL_READ_CHUNK_def word_less_nat_alt unat_gt_0 split: option.split)

lemma prepared_chunk_ok:
  assumes "cursor < snapshot" and "snapshot < u64_max" and "fst ` set slots = {cursor + 1..l}" and "cursor + 1 \<le> l"
    and "l \<le> snapshot" and sorted: "sorted_wrt (<) (map fst slots)"
    and held: "\<forall>(s, slot)\<in>set slots. \<exists>e. lg s = Some e \<and> holds slot e"
  shows "chunk_ok holds lg cursor snapshot (Prepared slots)"
proof -
  have ne: "slots \<noteq> []" using assms(3,4) by auto
  have lt: "cursor < cursor + 1" using assms(1,2) by (intro word_succ_gt) auto
  have "chunk_max_seq cursor (Prepared slots) = Max {cursor + 1..l}"
    using ne assms(3) by (subst chunk_max_Max) auto
  also have "\<dots> = l" using assms(4) by (intro Max_eqI) auto
  finally have mx: "chunk_max_seq cursor (Prepared slots) = l" .
  have "chunk_has holds (Map.graph lg) s e (Prepared slots)" if "lg s = Some e" "cursor < s" "s \<le> l" for s e
  proof -
    have "s \<in> fst ` set slots" using assms(3) that(2,3) by (auto intro: inc_le)
    with held that(1) have "\<exists>slot. (s, slot) \<in> set slots \<and> holds slot e" by fastforce
    with held sorted show ?thesis by (fastforce simp: chunk_has_def Map.graph_def)
  qed
  with lt assms(4,5) show ?thesis
    unfolding chunk_ok_def mx by auto
qed

lemma read_chunk_ok:
  assumes env: "env_ok env rows" and patch: "patch_keeps holds (env_ops env)"
    and ok: "wal_ok env rows (fs_wal fs)" and so: "slots_ok holds env rows (fs_wal fs)"
    and lt: "fs_last_flushed fs < snapshot" and sn: "snapshot < u64_max"
    and size: "batch_size_ok fs" and small: "\<forall>s e. service_log env rows fs s = Some e \<longrightarrow> small_entry e"
    and r: "read_chunk env snapshot fs = (fs', res)"
  shows "\<exists>m. fs' = fs\<lparr>fs_wal := fs_wal fs\<lparr>wal_cache := m\<rparr>\<rparr> \<and> wal_ok env rows (fs_wal fs') \<and> slots_ok holds env rows (fs_wal fs')"
    and "res = Inr (Some ch) \<Longrightarrow> chunk_ok holds (service_log env rows fs) (fs_last_flushed fs) snapshot ch"
    and "res = Inr None \<Longrightarrow> service_log env rows fs s \<noteq> None \<Longrightarrow> fs_last_flushed fs < s \<Longrightarrow> snapshot < s"
proof -
  let ?from = "fs_last_flushed fs + 1"
  have "(\<exists>m. fs' = fs\<lparr>fs_wal := fs_wal fs\<lparr>wal_cache := m\<rparr>\<rparr> \<and> wal_ok env rows (fs_wal fs') \<and> slots_ok holds env rows (fs_wal fs'))
    \<and> (\<forall>ch. res = Inr (Some ch) \<longrightarrow> chunk_ok holds (service_log env rows fs) (fs_last_flushed fs) snapshot ch)
    \<and> (\<forall>s. res = Inr None \<longrightarrow> service_log env rows fs s \<noteq> None \<longrightarrow> fs_last_flushed fs < s \<longrightarrow> snapshot < s)"
  proof (cases "wal_arrow_enabled (fs_wal fs)")
    case False
    have n: "0 < WAL_READ_CHUNK" by (simp add: WAL_READ_CHUNK_def)
    from False r have "read_native env snapshot WAL_READ_CHUNK fs = (fs', res)" by (simp add: read_chunk_def)
    from read_native_ok [OF env ok so lt sn n size small this] show ?thesis by blast
  next
    case True
    obtain w t where tp: "take_prepared_range env ?from snapshot WAL_READ_CHUNK (fs_wal fs) = (w, t)" by fastforce
    from take_prepared_ok [OF ok tp] obtain m where w: "w = fs_wal fs\<lparr>wal_cache := m\<rparr>" "wal_ok env rows w" by blast
    note S = take_prepared_slots [OF ok so patch tp]
    let ?fs = "fs\<lparr>fs_wal := w\<rparr>"
    have eq: "service_log env rows ?fs = service_log env rows fs" "fs_last_flushed ?fs = fs_last_flushed fs"
      "wal_ok env rows (fs_wal ?fs)" "slots_ok holds env rows (fs_wal ?fs)" "batch_size_ok ?fs"
      using w S(1) size by (simp_all add: batch_size_ok_def)
    have native: ?thesis if n: "0 < n" and rn: "read_native env snapshot n ?fs = (fs', res)" for n
    proof -
      have "\<forall>s e. service_log env rows ?fs s = Some e \<longrightarrow> small_entry e" using small by (simp only: eq(1))
      from read_native_ok [OF env eq(3,4) _ sn n eq(5) this rn] lt w show ?thesis by (simp add: eq(1,2))
    qed
    show ?thesis
    proof (cases t)
      case (Inl e)
      with True r tp w S(1) show ?thesis by (auto simp: read_chunk_def)
    next
      case (Inr opt)
      show ?thesis
      proof (cases opt)
        case None
        with True r tp Inr have "read_native env snapshot (native_limit ?from w) ?fs = (fs', res)"
          by (simp add: read_chunk_def)
        from native [OF native_limit_pos this] show ?thesis .
      next
        case (Some slots)
        from take_prepared_interval [OF tp [unfolded Inr Some] sn] obtain l where
          l: "?from \<le> l" "l \<le> snapshot" "fst ` set slots = {?from..l}" "slots \<noteq> []" "sorted_wrt (<) (map fst slots)" by blast
        with True r tp Inr Some have f: "fs' = ?fs" "res = Inr (Some (Prepared slots))"
          by (simp_all add: read_chunk_def)
        have "\<forall>(s, slot)\<in>set slots. \<exists>e. service_log env rows fs s = Some e \<and> holds slot e"
          using S(2) [of slots] Inr Some by fast
        from prepared_chunk_ok [OF lt sn l(3,1,2,5) this] f w S(1) show ?thesis by auto
      qed
    qed
  qed
  then show "\<exists>m. fs' = fs\<lparr>fs_wal := fs_wal fs\<lparr>wal_cache := m\<rparr>\<rparr> \<and> wal_ok env rows (fs_wal fs') \<and> slots_ok holds env rows (fs_wal fs')"
    and "res = Inr (Some ch) \<Longrightarrow> chunk_ok holds (service_log env rows fs) (fs_last_flushed fs) snapshot ch"
    and "res = Inr None \<Longrightarrow> service_log env rows fs s \<noteq> None \<Longrightarrow> fs_last_flushed fs < s \<Longrightarrow> snapshot < s" by blast+
qed

section \<open>Finishing a chunk\<close>

lemma unat_succ: "x < u64_max \<Longrightarrow> unat (x + 1) = Suc (unat x)"
proof -
  assume "x < u64_max"
  then have "x < x + 1" by (intro word_succ_gt) auto
  then have "1 + x \<noteq> 0" by (auto simp: add.commute)
  from unatSuc [OF this] show ?thesis by (simp add: add.commute)
qed

lemma saturating_pred_succ: "x < u64_max \<Longrightarrow> saturating_sub (x + 1) 1 = x"
proof -
  assume "x < u64_max"
  then have "x < x + 1" by (intro word_succ_gt) auto
  then have "0 < x + 1" by (rule le_less_trans [OF word_zero_le])
  from inc_le [OF this] show ?thesis by (simp add: saturating_sub_def)
qed

lemma truncate_mutations_fields [simp]:
  "fs_wal (truncate_mutations kv fs) = fs_wal fs" "fs_last_flushed (truncate_mutations kv fs) = fs_last_flushed fs"
  "fs_coalesce (truncate_mutations kv fs) = fs_coalesce fs"
  "fs_max_points_per_batch (truncate_mutations kv fs) = fs_max_points_per_batch fs"
  by (simp_all add: truncate_mutations_def split: option.split sum.split)

lemma truncate_behind:
  assumes env: "env_ok env rows" and ok: "wal_ok env rows w" and le: "safe \<le> through" "through \<le> wal_seq w" "wal_seq w < u64_max"
    and t: "truncate_before env (safe + 1) w = (w', r)"
  shows "wal_ok env rows w'" and "wal_seq w' = wal_seq w" and "wal_fmt w' = wal_fmt w"
    and "wal_log env fmt rows (wal_db w) s = Some e \<Longrightarrow> through < s \<Longrightarrow> wal_log env fmt rows (wal_db w') s = Some e"
    and "wal_log env fmt rows (wal_db w') s = Some e \<Longrightarrow> wal_log env fmt rows (wal_db w) s = Some e"
    and "recovered rows (wal_db w) \<le> recovered rows (wal_db w')"
    and "slots_ok holds env rows w \<Longrightarrow> slots_ok holds env rows w'"
proof -
  have "safe < u64_max" using le by simp
  from unat_succ [OF this] have s1: "unat (safe + 1) = Suc (unat safe)" .
  then have at: "unat (safe + 1) \<le> Suc (unat (wal_seq w))" using le by (simp add: word_le_nat_alt)
  note T = truncate_ok [OF env ok at t]
  show "slots_ok holds env rows w \<Longrightarrow> slots_ok holds env rows w'" by (rule truncate_slots_ok [OF env ok at t])
  show "wal_ok env rows w'" "wal_seq w' = wal_seq w" "wal_fmt w' = wal_fmt w" "recovered rows (wal_db w) \<le> recovered rows (wal_db w')"
    by (rule T)+
  have "\<not> s < safe + 1" if "through < s"
    using that le(1) s1 by (simp add: word_less_nat_alt word_le_nat_alt)
  then show "wal_log env fmt rows (wal_db w) s = Some e \<Longrightarrow> through < s \<Longrightarrow> wal_log env fmt rows (wal_db w') s = Some e"
    using T(6) [of fmt] by auto
  show "wal_log env fmt rows (wal_db w') s = Some e \<Longrightarrow> wal_log env fmt rows (wal_db w) s = Some e"
    using T(6) [of fmt] by (auto split: if_splits)
qed

definition flushed_to :: "'b chunk \<Rightarrow> bool \<Rightarrow> ('d, 'b, 'r) flush_service \<Rightarrow> u64" where
  "flushed_to ch failed fs = (if failed then fs_last_flushed fs else chunk_max_seq (fs_last_flushed fs) ch)"

lemma finish_chunk_cases:
  assumes "finish_chunk env now ch failed fs = (fs', res)" and "fs_last_flushed fs < u64_max"
  obtains w r where
    "truncate_before (fe_wal env) (compute_safe_truncate_seq (fe_repl env) now fs (flushed_to ch failed fs) + 1) (fs_wal fs) = (w, r)"
    "fs' = fs\<lparr>fs_wal := w\<rparr> \<and> (\<exists>e. res = Inl (WalFailed e)) \<or>
     fs_wal fs' = set_flushed_through (flushed_to ch failed fs) w \<and> fs_last_flushed fs' = flushed_to ch failed fs
       \<and> res = (if failed then Inl HeldForRetry else Inr ())"
    "fs_coalesce fs' = fs_coalesce fs" "fs_max_points_per_batch fs' = fs_max_points_per_batch fs"
proof -
  have thr: "(if failed then saturating_sub (fs_last_flushed fs + 1) 1 else chunk_max_seq (fs_last_flushed fs) ch) = flushed_to ch failed fs"
    by (simp add: flushed_to_def saturating_pred_succ [OF assms(2)])
  obtain w r where t: "truncate_before (fe_wal env) (compute_safe_truncate_seq (fe_repl env) now fs (flushed_to ch failed fs) + 1) (fs_wal fs) = (w, r)"
    by fastforce
  with assms(1) show ?thesis
    by (intro that [OF t]) (cases r; auto simp: finish_chunk_def Let_def thr)+
qed

lemma finish_chunk_ok:
  assumes env: "env_ok (fe_wal env) rows" and inv: "flush_inv holds env rows fs h offered written"
    and ch: "chunk_ok holds (service_log (fe_wal env) rows fs) (fs_last_flushed fs) snapshot ch"
    and sn: "snapshot \<le> wal_seq (fs_wal fs)"
    and f: "finish_chunk env now ch failed fs = (fs', res)"
    and settled: "\<not> failed \<longrightarrow> chunk_settled (fe_kernel env) (fs_coalesce fs) h ch"
  shows "flush_inv holds env rows fs' h offered written"
    and "wal_seq (fs_wal fs') = wal_seq (fs_wal fs)"
    and "res = Inr () \<Longrightarrow> fs_last_flushed fs < fs_last_flushed fs'"
    and "res = Inl HeldForRetry \<Longrightarrow> failed \<and> fs_last_flushed fs' = fs_last_flushed fs
      \<and> (\<forall>s e. service_log (fe_wal env) rows fs s = Some e \<longrightarrow> fs_last_flushed fs < s \<longrightarrow> service_log (fe_wal env) rows fs' s = Some e)"
proof -
  define through where "through = flushed_to ch failed fs"
  note ok = flush_invD(1) [OF inv]
  have "fs_last_flushed fs < u64_max" using flush_invD(2,3) [OF inv] by simp
  from finish_chunk_cases [OF f this, folded through_def] obtain w r where
    t: "truncate_before (fe_wal env) (compute_safe_truncate_seq (fe_repl env) now fs through + 1) (fs_wal fs) = (w, r)"
    and eqs: "fs' = fs\<lparr>fs_wal := w\<rparr> \<and> (\<exists>e. res = Inl (WalFailed e)) \<or>
      fs_wal fs' = set_flushed_through through w \<and> fs_last_flushed fs' = through \<and> res = (if failed then Inl HeldForRetry else Inr ())"
    and same: "fs_coalesce fs' = fs_coalesce fs" "fs_max_points_per_batch fs' = fs_max_points_per_batch fs"
    by blast
  have le: "through \<le> wal_seq (fs_wal fs)" "fs_last_flushed fs \<le> through"
    using ch sn flush_invD(3) [OF inv] by (auto simp: through_def flushed_to_def chunk_ok_def)
  note T = truncate_behind [OF env ok compute_safe_le [OF ok] le(1) flush_invD(2) [OF inv] t]
  have offered: "Map.graph (service_log (fe_wal env) rows fs) \<subseteq> offered" using flush_invD(10) [OF inv] by (auto simp: Map.graph_def)
  have cov: "covers holds env fs h offered s e" if "written s = Some e" "s \<le> through" for s e
  proof (cases "s \<le> fs_last_flushed fs")
    case True
    with flush_invD(7) [OF inv that(1)] show ?thesis by simp
  next
    case False
    with that(2) have "\<not> failed" "s \<le> chunk_max_seq (fs_last_flushed fs) ch" by (auto simp: through_def flushed_to_def split: if_splits)
    with ch False have "service_log (fe_wal env) rows fs s = Some e \<Longrightarrow> chunk_has holds (Map.graph (service_log (fe_wal env) rows fs)) s e ch"
      by (simp add: chunk_ok_def)
    with settled \<open>\<not> failed\<close> flush_invD(6) [OF inv that(1)] chunk_has_more [OF _ offered] show ?thesis
      unfolding covered_def by blast
  qed
  have keep: "covers holds env fs h offered s e \<or> wal_log (fe_wal env) (wal_fmt w) rows (wal_db w) s = Some e"
    if "written s = Some e" for s e
    using cov [OF that] flush_invD(6) [OF inv that] T(3,4) by (cases "s \<le> through") auto
  have entries: "(s, e) \<in> offered \<and> small_entry e" if "wal_log (fe_wal env) (wal_fmt w) rows (wal_db w) s = Some e" for s e
    using flush_invD(10) [OF inv T(5)] that T(3) by simp
  have log: "0 < s \<and> s \<le> wal_seq w" if "wal_log (fe_wal env) (wal_fmt w) rows (wal_db w) s = Some e" for s e
    using flush_invD(4) [OF inv T(5)] that T(2,3) by simp
  have rec: "s \<le> recovered rows (wal_db w)" if "written s = Some e" for s e
    using T(6) flush_invD(5) [OF inv that] by (rule order_trans [rotated])
  note slots = T(7) [OF flush_invD(8) [OF inv]]
  have mark: "wal_ok (fe_wal env) rows (set_flushed_through x w)" "slots_ok holds (fe_wal env) rows (set_flushed_through x w)" for x
    using T(1) slots by (simp_all add: set_flushed_through_def wal_ok_def slots_ok_def)
  have size: "batch_size_ok fs'" using flush_invD(9) [OF inv] same(2) by (simp add: batch_size_ok_def)
  from eqs show "flush_inv holds env rows fs' h offered written"
  proof (elim disjE conjE exE)
    assume "fs' = fs\<lparr>fs_wal := w\<rparr>"
    with T(1,2) slots size entries keep log rec inv show ?thesis by (simp add: flush_inv_def)
  next
    assume eq: "fs_wal fs' = set_flushed_through through w" "fs_last_flushed fs' = through"
    have w: "wal_seq (fs_wal fs') = wal_seq (fs_wal fs)" "wal_db (fs_wal fs') = wal_db w" "wal_fmt (fs_wal fs') = wal_fmt w"
      using eq(1) T(2) by (simp_all add: set_flushed_through_def)
    show ?thesis
      unfolding flush_inv_def same(1) w eq(2)
      using mark [of through, folded eq(1)] flush_invD(2) [OF inv] le(1) log rec keep cov size entries T(2) by auto
  qed
  show "wal_seq (fs_wal fs') = wal_seq (fs_wal fs)" "res = Inr () \<Longrightarrow> fs_last_flushed fs < fs_last_flushed fs'"
    using eqs T(2) ch by (auto simp: set_flushed_through_def through_def flushed_to_def chunk_ok_def split: if_splits)
  show "failed \<and> fs_last_flushed fs' = fs_last_flushed fs \<and> (\<forall>s e. service_log (fe_wal env) rows fs s = Some e \<longrightarrow>
      fs_last_flushed fs < s \<longrightarrow> service_log (fe_wal env) rows fs' s = Some e)" if "res = Inl HeldForRetry"
    using eqs that T(3,4) by (auto simp: set_flushed_through_def through_def flushed_to_def split: if_splits)
qed

section \<open>A round, a flush, a drain\<close>

lemma note_local_fields [simp]:
  "fs_wal (note_local ch fs) = fs_wal fs" "fs_last_flushed (note_local ch fs) = fs_last_flushed fs"
  "fs_coalesce (note_local ch fs) = fs_coalesce fs" "fs_max_points_per_batch (note_local ch fs) = fs_max_points_per_batch fs"
  by (simp_all add: note_local_def)

lemma read_chunk_inv:
  assumes env: "flush_env_ok holds env rows" and inv: "flush_inv holds env rows fs h offered written"
    and lt: "fs_last_flushed fs < snapshot" and sn: "snapshot \<le> wal_seq (fs_wal fs)"
    and rc: "read_chunk (fe_wal env) snapshot fs = (fs', res)"
  shows "flush_inv holds env rows fs' h offered written" and "\<exists>m. fs' = fs\<lparr>fs_wal := fs_wal fs\<lparr>wal_cache := m\<rparr>\<rparr>"
    and "res = Inr (Some ch) \<Longrightarrow> chunk_ok holds (service_log (fe_wal env) rows fs) (fs_last_flushed fs) snapshot ch"
    and "res = Inr None \<Longrightarrow> service_log (fe_wal env) rows fs s \<noteq> None \<Longrightarrow> fs_last_flushed fs < s \<Longrightarrow> snapshot < s"
proof -
  have snm: "snapshot < u64_max" using sn flush_invD(2) [OF inv] by simp
  have small: "\<forall>s e. service_log (fe_wal env) rows fs s = Some e \<longrightarrow> small_entry e" using flush_invD(10) [OF inv] by blast
  have e: "env_ok (fe_wal env) rows" "patch_keeps holds (env_ops (fe_wal env))" using env by (simp_all add: flush_env_ok_def)
  note R = read_chunk_ok [OF e flush_invD(1,8) [OF inv] lt snm flush_invD(9) [OF inv] small rc]
  from R(1) obtain m where fs': "fs' = fs\<lparr>fs_wal := fs_wal fs\<lparr>wal_cache := m\<rparr>\<rparr>" "wal_ok (fe_wal env) rows (fs_wal fs')"
    "slots_ok holds (fe_wal env) rows (fs_wal fs')" by blast
  with flush_inv_cache [OF inv, of m] show "flush_inv holds env rows fs' h offered written"
    "\<exists>m. fs' = fs\<lparr>fs_wal := fs_wal fs\<lparr>wal_cache := m\<rparr>\<rparr>" by auto
  show "res = Inr (Some ch) \<Longrightarrow> chunk_ok holds (service_log (fe_wal env) rows fs) (fs_last_flushed fs) snapshot ch"
    "res = Inr None \<Longrightarrow> service_log (fe_wal env) rows fs s \<noteq> None \<Longrightarrow> fs_last_flushed fs < s \<Longrightarrow> snapshot < s"
    by (rule R(2,3); assumption)+
qed

lemma flush_chunk_ok:
  assumes env: "flush_env_ok holds env rows" and inv: "flush_inv holds env rows fs h offered written"
    and lt: "fs_last_flushed fs < snapshot" and sn: "snapshot \<le> wal_seq (fs_wal fs)"
    and f: "flush_chunk env now snapshot (fs, h) = ((fs', h'), r)"
  shows "flush_inv holds env rows fs' h' offered written" and "wal_seq (fs_wal fs') = wal_seq (fs_wal fs)"
    and "r = Inr True \<Longrightarrow> fs_last_flushed fs < fs_last_flushed fs'"
    and "r = Inr False \<Longrightarrow> service_log (fe_wal env) rows fs' s \<noteq> None \<Longrightarrow> s \<le> snapshot \<Longrightarrow> s \<le> fs_last_flushed fs'"
proof -
  obtain fs1 res where rc: "read_chunk (fe_wal env) snapshot fs = (fs1, res)" by fastforce
  note R = read_chunk_inv [OF env inv lt sn rc]
  from R(2) obtain m where fs1: "fs1 = fs\<lparr>fs_wal := fs_wal fs\<lparr>wal_cache := m\<rparr>\<rparr>" by blast
  note inv1 = R(1)
  have "flush_inv holds env rows fs' h' offered written \<and> wal_seq (fs_wal fs') = wal_seq (fs_wal fs)
    \<and> (r = Inr True \<longrightarrow> fs_last_flushed fs < fs_last_flushed fs')
    \<and> (r = Inr False \<longrightarrow> res = Inr None \<and> fs' = fs1)"
  proof (cases res)
    case (Inl e)
    with f rc inv1 fs1 show ?thesis by (simp add: flush_chunk_def) auto
  next
    case (Inr opt)
    show ?thesis
    proof (cases opt)
      case None
      with f rc Inr inv1 fs1 show ?thesis by (simp add: flush_chunk_def) auto
    next
      case (Some ch)
      let ?fs = "note_local ch fs1"
      have ok: "chunk_ok holds (service_log (fe_wal env) rows ?fs) (fs_last_flushed ?fs) snapshot ch"
        using R(3) Inr Some fs1 by simp
      have seq: "wal_seq (fs_wal ?fs) = wal_seq (fs_wal fs)" "fs_last_flushed ?fs = fs_last_flushed fs" by (simp_all add: fs1)
      obtain h1 wres where wc: "write_chunk env ?fs ch h = (h1, wres)" by fastforce
      then have inv2: "flush_inv holds env rows ?fs h1 offered written"
        using inv1 write_chunk_history [OF wc] by (auto simp: flush_inv_note intro: flush_inv_more)
      show ?thesis
      proof (cases wres)
        case (Inl e)
        with f rc Inr Some wc have "fs' = ?fs" "h' = h1" "r = Inl e" by (simp_all add: flush_chunk_def Let_def \<open>res = Inr opt\<close>)
        with inv2 seq show ?thesis by simp
      next
        case wr: (Inr failed)
        have st: "\<not> failed \<longrightarrow> chunk_settled (fe_kernel env) (fs_coalesce ?fs) h1 ch"
          using write_chunk_settled [of env ?fs ch h h1] wc wr flush_invD(9) [OF inv2] ok by (auto simp: batch_size_ok_def chunk_ok_def)
        obtain fs2 fres where fc: "finish_chunk env now ch failed ?fs = (fs2, fres)" by fastforce
        have "snapshot \<le> wal_seq (fs_wal ?fs)" using sn seq by simp
        note F = finish_chunk_ok [OF env [unfolded flush_env_ok_def, THEN conjunct1] inv2 ok this fc st]
        have "fs' = fs2" "h' = h1" "r = (case fres of Inl e \<Rightarrow> Inl e | Inr _ \<Rightarrow> Inr True)"
          using f rc Inr Some wc wr fc by (auto simp: flush_chunk_def Let_def split: sum.splits)
        with F seq show ?thesis by (auto split: sum.splits)
      qed
    qed
  qed
  moreover have "s \<le> fs_last_flushed fs'" if "res = Inr None" "fs' = fs1" "service_log (fe_wal env) rows fs' s \<noteq> None" "s \<le> snapshot"
    using R(4) [OF that(1), of s] that(2-) fs1 by (simp add: not_less [symmetric]) (metis not_less)
  ultimately show "flush_inv holds env rows fs' h' offered written" and "wal_seq (fs_wal fs') = wal_seq (fs_wal fs)"
    and "r = Inr True \<Longrightarrow> fs_last_flushed fs < fs_last_flushed fs'"
    and "r = Inr False \<Longrightarrow> service_log (fe_wal env) rows fs' s \<noteq> None \<Longrightarrow> s \<le> snapshot \<Longrightarrow> s \<le> fs_last_flushed fs'" by blast+
qed

lemma read_native_error: "read_native env sn n fs = (fs', Inl e) \<Longrightarrow> \<exists>x. e = WalFailed x"
  by (auto simp: read_native_def split: prod.splits sum.splits)

lemma read_chunk_error: "read_chunk env sn fs = (fs', Inl e) \<Longrightarrow> \<exists>x. e = WalFailed x"
  by (auto simp: read_chunk_def Let_def split: if_splits prod.splits sum.splits option.splits dest: read_native_error)

lemma prepared_works_error: "prepared_works k fs slots = Inl e \<Longrightarrow> \<exists>x. e = CoalesceFailed x"
  by (auto simp: prepared_works_def merge_batches_def and_then_Inl wrap_err_def Let_def split: if_splits sum.splits
      dest!: try_map_Inl)

lemma flush_chunk_held:
  assumes "flush_chunk env now sn (fs, h) = ((fs', h'), Inl HeldForRetry)"
  obtains fs1 ch failed where "read_chunk (fe_wal env) sn fs = (fs1, Inr (Some ch))"
    "write_chunk env (note_local ch fs1) ch h = (h', Inr failed)"
    "finish_chunk env now ch failed (note_local ch fs1) = (fs', Inl HeldForRetry)"
proof -
  obtain fs1 res where rc: "read_chunk (fe_wal env) sn fs = (fs1, res)" by fastforce
  with assms obtain ch where ch: "res = Inr (Some ch)"
    using read_chunk_error [of "fe_wal env" sn fs fs1] by (auto simp: flush_chunk_def split: sum.splits option.splits)
  obtain h1 wres where wc: "write_chunk env (note_local ch fs1) ch h = (h1, wres)" by fastforce
  with assms rc ch obtain failed where f: "wres = Inr failed"
    using prepared_works_error by (fastforce simp: flush_chunk_def write_chunk_def Let_def split: chunk.splits sum.splits prod.splits)
  with assms rc ch wc show ?thesis
    by (intro that [of fs1 ch failed]) (auto simp: flush_chunk_def Let_def split: sum.splits prod.splits)
qed

lemma flush_loop_returns:
  assumes env: "flush_env_ok holds env rows" and "flush_inv holds env rows fs h offered written"
    and "snapshot \<le> wal_seq (fs_wal fs)"
  shows "\<exists>fs' h' r. flush_loop env clock i snapshot (fs, h) = Some ((fs', h'), r)
    \<and> flush_inv holds env rows fs' h' offered written \<and> wal_seq (fs_wal fs') = wal_seq (fs_wal fs)
    \<and> (r = Inr () \<longrightarrow> (\<forall>s. service_log (fe_wal env) rows fs' s \<noteq> None \<longrightarrow> s \<le> snapshot \<longrightarrow> s \<le> fs_last_flushed fs'))"
  using assms(2,3)
proof (induction "unat snapshot - unat (fs_last_flushed fs)" arbitrary: fs h i rule: less_induct)
  case less
  show ?case
  proof (cases "fs_last_flushed fs < snapshot")
    case False
    with less(2) show ?thesis by (subst flush_loop.simps) auto
  next
    case True
    obtain fs1 h1 r where fc: "flush_chunk env (clock i) snapshot (fs, h) = ((fs1, h1), r)" by (metis surj_pair)
    note F = flush_chunk_ok [OF env less(2) True less(3) fc]
    note inv1 = F(1)
    show ?thesis
    proof (cases r)
      case (Inl e)
      with True fc inv1 F(2) show ?thesis by (subst flush_loop.simps) simp
    next
      case (Inr go)
      show ?thesis
      proof (cases go)
        case go: True
        have "unat snapshot - unat (fs_last_flushed fs1) < unat snapshot - unat (fs_last_flushed fs)"
          using F(3) Inr go True by (simp add: word_less_nat_alt)
        moreover have "snapshot \<le> wal_seq (fs_wal fs1)" using less(3) F(2) by simp
        moreover have "flush_loop env clock i snapshot (fs, h) = flush_loop env clock (Suc i) snapshot (fs1, h1)"
          using True Inr go fc by (subst flush_loop.simps) simp
        ultimately show ?thesis using less(1) [OF _ inv1, of "Suc i"] F(2) by simp
      next
        case False
        with F(4) Inr have "\<forall>s. service_log (fe_wal env) rows fs1 s \<noteq> None \<longrightarrow> s \<le> snapshot \<longrightarrow> s \<le> fs_last_flushed fs1" by simp
        with True False fc inv1 F(2) Inr show ?thesis by (subst flush_loop.simps) simp
      qed
    qed
  qed
qed

lemma nothing_left:
  assumes "flush_inv holds env rows fs h offered written"
    and "\<forall>s. service_log (fe_wal env) rows fs s \<noteq> None \<longrightarrow> s \<le> fs_last_flushed fs" and "written s = Some e"
  shows "covers holds env fs h offered s e"
  using flush_invD(6,7) [OF assms(1,3)] assms(2) by auto

lemma flush_ok:
  assumes env: "flush_env_ok holds env rows" and inv: "flush_inv holds env rows fs h offered written"
  shows "\<exists>fs' h' r. flush env clock (fs, h) = Some ((fs', h'), r)
    \<and> flush_inv holds env rows fs' h' offered written
    \<and> (r = Inr () \<longrightarrow> (\<forall>s. service_log (fe_wal env) rows fs' s \<noteq> None \<longrightarrow> s \<le> fs_last_flushed fs'))"
proof (cases "wal_seq (fs_wal fs) \<le> fs_last_flushed fs")
  case True
  have "s \<le> fs_last_flushed fs" if "service_log (fe_wal env) rows fs s \<noteq> None" for s
    using that True flush_invD(4) [OF inv] by fastforce
  with True inv show ?thesis by (simp add: flush_def last_sequence_def)
next
  case False
  from flush_loop_returns [OF env inv order_refl, of clock 0] obtain fs' h' r where
    f: "flush_loop env clock 0 (wal_seq (fs_wal fs)) (fs, h) = Some ((fs', h'), r)"
    "flush_inv holds env rows fs' h' offered written" "wal_seq (fs_wal fs') = wal_seq (fs_wal fs)"
    "r = Inr () \<longrightarrow> (\<forall>s. service_log (fe_wal env) rows fs' s \<noteq> None \<longrightarrow> s \<le> wal_seq (fs_wal fs) \<longrightarrow> s \<le> fs_last_flushed fs')"
    by blast
  have "s \<le> wal_seq (fs_wal fs)" if "service_log (fe_wal env) rows fs' s \<noteq> None" for s
    using that flush_invD(4) [OF f(2)] f(3) by fastforce
  with f False show ?thesis by (simp add: flush_def last_sequence_def)
qed

lemma read_after_flush:
  assumes env: "env_ok (fe_wal env) rows" and inv: "flush_inv holds env rows fs h offered written"
    and none: "\<forall>s. service_log (fe_wal env) rows fs s \<noteq> None \<longrightarrow> s \<le> fs_last_flushed fs"
    and r: "read_range (fe_wal env) (fs_last_flushed fs + 1) n (fs_wal fs) = (w, res)"
  shows "res = Inr []" and "flush_inv holds env rows (fs\<lparr>fs_wal := w\<rparr>) h offered written"
proof -
  have "fs_last_flushed fs < u64_max" using flush_invD(2,3) [OF inv] by simp
  then have "fs_last_flushed fs < fs_last_flushed fs + 1" by (intro word_succ_gt) auto
  with none have "log_from (service_log (fe_wal env) rows fs) (fs_last_flushed fs + 1) = []"
    by (auto simp: log_from_def dest: leD)
  with read_range_page(1,2) [OF env flush_invD(1) [OF inv] r] read_range_page(3) [OF env flush_invD(1) [OF inv] r flush_invD(8) [OF inv]]
  show "res = Inr []" "flush_inv holds env rows (fs\<lparr>fs_wal := w\<rparr>) h offered written"
    using flush_inv_cache [OF inv] by auto
qed

lemma drain_ok:
  assumes env: "flush_env_ok holds env rows" and inv: "flush_inv holds env rows fs h offered written"
  shows "\<exists>fs' h' r. drain env clock (fs, h) = Some ((fs', h'), r)
    \<and> flush_inv holds env rows fs' h' offered written
    \<and> (r = Inr () \<longrightarrow> (\<forall>s e. written s = Some e \<longrightarrow> covers holds env fs' h' offered s e))"
proof -
  obtain fs1 h1 r where f: "flush env clock (fs, h) = Some ((fs1, h1), r)"
    "flush_inv holds env rows fs1 h1 offered written"
    "r = Inr () \<longrightarrow> (\<forall>s. service_log (fe_wal env) rows fs1 s \<noteq> None \<longrightarrow> s \<le> fs_last_flushed fs1)"
    using flush_ok [OF env inv, of clock] by blast
  show ?thesis
  proof (cases r)
    case (Inl e)
    with f show ?thesis by (subst drain.simps) simp
  next
    case (Inr u)
    with f(3) have none: "\<forall>s. service_log (fe_wal env) rows fs1 s \<noteq> None \<longrightarrow> s \<le> fs_last_flushed fs1" by simp
    obtain w pg where rr: "read_range (fe_wal env) (fs_last_flushed fs1 + 1) 1 (fs_wal fs1) = (w, pg)" by fastforce
    note R = read_after_flush [OF env [unfolded flush_env_ok_def, THEN conjunct1] f(2) none rr]
    have d: "drain env clock (fs, h) = Some ((fs1\<lparr>fs_wal := w\<rparr>, h1), Inr ())"
      using Inr rr R(1) by (subst drain.simps) (simp add: f(1))
    have "\<forall>s e. written s = Some e \<longrightarrow> covers holds env (fs1\<lparr>fs_wal := w\<rparr>) h1 offered s e"
      using nothing_left [OF f(2) none] by simp
    with d R(2) show ?thesis by blast
  qed
qed

section \<open>Interleavings\<close>

text \<open>
  A node with its writers: batches are appended between the rounds of a flush, the cluster changes,
  the process is restarted. \<open>nd_sink\<close> is what the sink was asked for and answered, \<open>nd_snapshot\<close> the
  bound of the flush that is under way. The last two fields are not part of the program: the
  entries that were offered to the log, each with the number it was given, and those whose append
  was acknowledged.
\<close>

record ('d, 'b, 'r) node =
  nd_service :: "('d, 'b, 'r) flush_service"
  nd_sink :: "'b sink_history"
  nd_snapshot :: "u64 option"
  nd_offered :: "(u64 \<times> wal_entry) set"
  nd_written :: "u64 \<Rightarrow> wal_entry option"

datatype ('b, 'r) node_event =
    Ingest "'b wal_append_bundle list" "u8 list option list"
  | BeginFlush
  | FlushRound int
  | ClusterChange "'r replication_log option" "cluster_membership option"
  | Reopen

fun node_step :: "('d, 'b, 'a, 'r) flush_env \<Rightarrow> ('b, 'r) node_event \<Rightarrow> ('d, 'b, 'r) node \<Rightarrow> ('d, 'b, 'r) node" where
  "node_step env (Ingest bundles pre) nd =
     (let fs = nd_service nd;
          nd = nd\<lparr>nd_offered := nd_offered nd \<union> set (zip (next_seqs (fs_wal fs) (length bundles)) (map wb_entry bundles))\<rparr>
      in case write_bundle_batch (fe_wal env) bundles pre (fs_wal fs) of
           (w, Inl _) \<Rightarrow> nd\<lparr>nd_service := fs\<lparr>fs_wal := w\<rparr>\<rparr>
         | (w, Inr ss) \<Rightarrow>
             nd\<lparr>nd_service := fs\<lparr>fs_wal := w\<rparr>, nd_written := nd_written nd ++ map_of (zip ss (map wb_entry bundles))\<rparr>)"
| "node_step env BeginFlush nd =
     (if nd_snapshot nd = None then nd\<lparr>nd_snapshot := Some (last_sequence (fs_wal (nd_service nd)))\<rparr> else nd)"
| "node_step env (FlushRound now) nd =
     (case nd_snapshot nd of
        None \<Rightarrow> nd
      | Some snapshot \<Rightarrow>
          (if fs_last_flushed (nd_service nd) < snapshot then
             (case flush_chunk env now snapshot (nd_service nd, nd_sink nd) of
                ((fs, h), r) \<Rightarrow>
                  nd\<lparr>nd_service := fs, nd_sink := h, nd_snapshot := (if r = Inr True then Some snapshot else None)\<rparr>)
           else nd\<lparr>nd_snapshot := None\<rparr>))"
| "node_step env (ClusterChange rl m) nd =
     nd\<lparr>nd_service := (nd_service nd)\<lparr>fs_replication_log := rl, fs_membership := m\<rparr>\<rparr>"
| "node_step env Reopen nd =
     (let fs = nd_service nd; w = fs_wal fs
      in case open_wal (fe_wal env) (wal_fmt w) (wal_arrow_enabled w) (wal_db w) of
           (d, Inl _) \<Rightarrow> nd\<lparr>nd_service := fs\<lparr>fs_wal := w\<lparr>wal_db := d\<rparr>\<rparr>, nd_snapshot := None\<rparr>
         | (d, Inr w) \<Rightarrow>
             nd\<lparr>nd_service := fs\<lparr>fs_wal := w, fs_last_flushed := 0, fs_last_local_wal_seq := 0\<rparr>, nd_snapshot := None\<rparr>)"

text \<open>
  A writer hands over batches whose stored form decodes to the entry and whose slots hold it, no
  entry has 2^31 points or more, and the counter does not run out.
\<close>

fun node_legal :: "('b prepared_wal_slot \<Rightarrow> wal_entry \<Rightarrow> bool) \<Rightarrow> ('d, 'b, 'a, 'r) flush_env \<Rightarrow> ('d, 'b, 'r) node \<Rightarrow> ('b, 'r) node_event \<Rightarrow> bool" where
  "node_legal holds env nd (Ingest bundles pre) \<longleftrightarrow>
     faithful (fe_wal env) (wal_fmt (fs_wal (nd_service nd))) bundles pre
     \<and> faithful_slots holds (fe_wal env) (wal_fmt (fs_wal (nd_service nd))) bundles pre
     \<and> (\<forall>b\<in>set bundles. small_entry (wb_entry b))
     \<and> unat (wal_seq (fs_wal (nd_service nd))) + length bundles < 2 ^ 64 - 1"
| "node_legal holds env nd _ \<longleftrightarrow> True"

fun node_run :: "('d, 'b, 'a, 'r) flush_env \<Rightarrow> ('b, 'r) node_event list \<Rightarrow> ('d, 'b, 'r) node \<Rightarrow> ('d, 'b, 'r) node" where
  "node_run env [] nd = nd"
| "node_run env (ev # evs) nd = node_run env evs (node_step env ev nd)"

fun node_legal_run :: "('b prepared_wal_slot \<Rightarrow> wal_entry \<Rightarrow> bool) \<Rightarrow> ('d, 'b, 'a, 'r) flush_env \<Rightarrow> ('d, 'b, 'r) node \<Rightarrow> ('b, 'r) node_event list \<Rightarrow> bool" where
  "node_legal_run holds env nd [] \<longleftrightarrow> True"
| "node_legal_run holds env nd (ev # evs) \<longleftrightarrow> node_legal holds env nd ev \<and> node_legal_run holds env (node_step env ev nd) evs"

definition node_inv :: "('b prepared_wal_slot \<Rightarrow> wal_entry \<Rightarrow> bool) \<Rightarrow> ('d, 'b, 'a, 'r) flush_env \<Rightarrow> ('d \<Rightarrow> wal_key \<Rightarrow> u8 list option) \<Rightarrow> ('d, 'b, 'r) node \<Rightarrow> bool" where
  "node_inv holds env rows nd \<longleftrightarrow>
     flush_inv holds env rows (nd_service nd) (nd_sink nd) (nd_offered nd) (nd_written nd)
     \<and> (\<forall>sn. nd_snapshot nd = Some sn \<longrightarrow> sn \<le> wal_seq (fs_wal (nd_service nd)))"

lemma flush_inv_offered:
  "flush_inv holds env rows fs h offered written \<Longrightarrow> offered \<subseteq> offered' \<Longrightarrow> flush_inv holds env rows fs h offered' written"
  unfolding flush_inv_def using covered_more [of _ _ holds offered h _ _ offered' "[]"] by (simp, blast)

lemma ingest_inv:
  assumes env: "env_ok (fe_wal env) rows" and inv0: "flush_inv holds env rows fs h offered0 written"
    and room: "unat (wal_seq (fs_wal fs)) + length bundles < 2 ^ 64 - 1" and faithful: "faithful (fe_wal env) (wal_fmt (fs_wal fs)) bundles pre"
    and slots: "faithful_slots holds (fe_wal env) (wal_fmt (fs_wal fs)) bundles pre" and small: "\<forall>b\<in>set bundles. small_entry (wb_entry b)"
    and w: "write_bundle_batch (fe_wal env) bundles pre (fs_wal fs) = (w, res)"
    and off: "offered = offered0 \<union> set (zip (next_seqs (fs_wal fs) (length bundles)) (map wb_entry bundles))"
  shows "flush_inv holds env rows (fs\<lparr>fs_wal := w\<rparr>) h offered
      (case res of Inl _ \<Rightarrow> written | Inr ss \<Rightarrow> written ++ map_of (zip ss (map wb_entry bundles)))"
    and "wal_seq (fs_wal fs) \<le> wal_seq w"
proof -
  have room': "unat (wal_seq (fs_wal fs)) + length bundles < 2 ^ 64" using room by simp
  have inv: "flush_inv holds env rows fs h offered written" by (rule flush_inv_offered [OF inv0]) (simp add: off)
  note so = append_slots_ok [OF env flush_invD(1) [OF inv] room' faithful slots w flush_invD(8) [OF inv]]
  note A = append_ok [OF env flush_invD(1) [OF inv] room' faithful w]
  note N = next_seqs_sorted [OF room']
  define nw where "nw = map_of (zip (next_seqs (fs_wal fs) (length bundles)) (map wb_entry bundles))"
  have seq: "unat (wal_seq w) = unat (wal_seq (fs_wal fs)) + length bundles" using N(4) A(2) by simp
  then show le: "wal_seq (fs_wal fs) \<le> wal_seq w" by (simp add: word_le_nat_alt)
  have "unat (wal_seq w) < unat u64_max" using seq room by (simp add: unsigned_minus_1_eq_mask mask_eq_exp_minus_1)
  then have bound: "wal_seq w < u64_max" by (simp only: word_less_nat_alt)
  have new: "nw s = Some e \<Longrightarrow> wal_seq (fs_wal fs) < s \<and> s \<le> wal_seq w" for s e
    using N(2) [of s] A(2) by (auto simp: nw_def dest!: map_of_SomeD set_zip_leftD)
  have fresh: "nw s = Some e \<Longrightarrow> (s, e) \<in> offered \<and> small_entry e" for s e
  proof -
    assume "nw s = Some e"
    then have mem: "(s, e) \<in> set (zip (next_seqs (fs_wal fs) (length bundles)) (map wb_entry bundles))"
      unfolding nw_def by (rule map_of_SomeD)
    from set_zip_rightD [OF this] small have "small_entry e" by auto
    with mem show ?thesis by (simp add: off)
  qed
  have size: "batch_size_ok (fs\<lparr>fs_wal := w\<rparr>)" using flush_invD(9) [OF inv] by (simp add: batch_size_ok_def)
  have old: "written s = Some e \<Longrightarrow> s \<le> wal_seq (fs_wal fs)" for s e
    using flush_invD(5) [OF inv, of s e] wal_okD(8) [OF flush_invD(1) [OF inv]] by (blast intro: order_trans)
  have log: "service_log (fe_wal env) rows fs s = Some e \<Longrightarrow> 0 < s \<and> s \<le> wal_seq (fs_wal fs)" for s e by (rule flush_invD(4) [OF inv])
  note base = A(1) bound order_trans [OF flush_invD(3) [OF inv] le]
  from A(7) [folded nw_def] show "flush_inv holds env rows (fs\<lparr>fs_wal := w\<rparr>) h offered
      (case res of Inl _ \<Rightarrow> written | Inr ss \<Rightarrow> written ++ map_of (zip ss (map wb_entry bundles)))"
  proof (elim disjE conjE)
    assume eq: "wal_log (fe_wal env) (wal_fmt (fs_wal fs)) rows (wal_db w) = service_log (fe_wal env) rows fs"
      "recovered rows (wal_db w) = recovered rows (wal_db (fs_wal fs))" and r: "\<forall>ss. res = Inr ss \<longrightarrow> bundles = [] \<and> ss = []"
    have wr: "(case res of Inl _ \<Rightarrow> written | Inr ss \<Rightarrow> written ++ map_of (zip ss (map wb_entry bundles))) = written"
      using r by (auto split: sum.split)
    show ?thesis unfolding wr flush_inv_def using base inv le eq A(3) so size by (auto simp: flush_inv_def intro: order_trans)
  next
    assume eq: "wal_log (fe_wal env) (wal_fmt (fs_wal fs)) rows (wal_db w) = service_log (fe_wal env) rows fs ++ nw"
      "recovered rows (wal_db w) = wal_seq w" and r: "\<forall>ss. res = Inr ss \<longrightarrow> ss = next_seqs (fs_wal fs) (length bundles)"
    define wr where "wr = (case res of Inl _ \<Rightarrow> written | Inr ss \<Rightarrow> written ++ map_of (zip ss (map wb_entry bundles)))"
    have "res = Inr ss \<Longrightarrow> map_of (zip ss (map wb_entry bundles)) = nw" for ss using r by (simp add: nw_def)
    then have "wr = written \<or> wr = written ++ nw" unfolding wr_def by (cases res) auto
    then have wr: "wr s = Some e \<Longrightarrow> nw s = Some e \<or> nw s = None \<and> written s = Some e" for s e
      using old [of s e] new [of s] by (cases "nw s") (auto simp: map_add_def)
    have "0 < s \<and> s \<le> wal_seq w" if "(service_log (fe_wal env) rows fs ++ nw) s = Some e" for s e
      using that log [of s e] new [of s e] le by (auto simp: map_add_Some_iff intro: le_less_trans order_trans)
    moreover have "s \<le> wal_seq w" if "wr s = Some e" for s e
      using wr [OF that] new [of s e] old [of s e] le by (auto intro: order_trans)
    moreover have "covers holds env fs h offered s e \<or> (service_log (fe_wal env) rows fs ++ nw) s = Some e" if "wr s = Some e" for s e
      using wr [OF that] flush_invD(6) [OF inv, of s e] by (auto simp: map_add_def)
    moreover have "covers holds env fs h offered s e" if "wr s = Some e" "s \<le> fs_last_flushed fs" for s e
      using wr [OF that(1)] that(2) new [of s e] flush_invD(3) [OF inv] flush_invD(7) [OF inv, of s e] by auto
    moreover have "(s, e) \<in> offered \<and> small_entry e" if "(service_log (fe_wal env) rows fs ++ nw) s = Some e" for s e
      using that flush_invD(10) [OF inv, of s e] fresh [of s e] by (auto simp: map_add_Some_iff)
    ultimately have "flush_inv holds env rows (fs\<lparr>fs_wal := w\<rparr>) h offered wr"
      unfolding flush_inv_def using base eq A(3) so size by auto
    then show ?thesis unfolding wr_def .
  qed
qed

lemma reopen_inv:
  assumes env: "env_ok (fe_wal env) rows" and inv: "flush_inv holds env rows fs h offered written"
    and o: "open_wal (fe_wal env) (wal_fmt (fs_wal fs)) (wal_arrow_enabled (fs_wal fs)) (wal_db (fs_wal fs)) = (d, res)"
  obtains w where "res = Inr w" and "flush_inv holds env rows (fs\<lparr>fs_wal := w, fs_last_flushed := 0, fs_last_local_wal_seq := n\<rparr>) h offered written"
proof -
  let ?w = "fs_wal fs"
  obtain w where w: "open_wal (fe_wal env) (wal_fmt ?w) (wal_arrow_enabled ?w) (wal_db ?w) = (wal_db ?w, Inr w)" "wal_ok (fe_wal env) rows w"
    "wal_db w = wal_db ?w" "wal_seq w = recovered rows (wal_db ?w)" "wal_fmt w = wal_fmt ?w" "wal_cache w = []"
    by (rule open_wal_ok [OF env_okD(1) [OF env] wal_okD(1) [OF flush_invD(1) [OF inv]]])
  have "slots_ok holds (fe_wal env) rows w" using slots_okD(1) [OF flush_invD(8) [OF inv]] by (simp add: slots_ok_def w(3,5,6))
  moreover have "wal_seq w < u64_max"
    using w(4) wal_okD(8) [OF flush_invD(1) [OF inv]] flush_invD(2) [OF inv] by simp
  moreover have "0 < s \<and> s \<le> wal_seq w" if "service_log (fe_wal env) rows fs s = Some e" for s e
  proof -
    have "s \<in> seq_rows rows (wal_db w)"
      using that wal_log_dom [OF wal_okD(1) [OF w(2)], of s] by (simp add: w(3,5))
    with wal_okD(2) [OF w(2)] flush_invD(4) [OF inv that] show ?thesis by blast
  qed
  moreover have "covers holds env fs h offered s e" if "written s = Some e" "s = 0" for s e
    using flush_invD(4,6) [OF inv, of s e] that by auto
  ultimately have "flush_inv holds env rows (fs\<lparr>fs_wal := w, fs_last_flushed := 0, fs_last_local_wal_seq := n\<rparr>) h offered written"
    unfolding flush_inv_def using w(2,3,5) flush_invD(5,6,9,10) [OF inv] by (simp add: batch_size_ok_def)
  with w(1) o that show ?thesis by simp
qed

lemma node_step_inv:
  assumes fenv: "flush_env_ok holds env rows" and inv: "node_inv holds env rows nd" and legal: "node_legal holds env nd ev"
  shows "node_inv holds env rows (node_step env ev nd)"
proof -
  let ?fs = "nd_service nd"
  have env: "env_ok (fe_wal env) rows" using fenv by (simp add: flush_env_ok_def)
  from inv have fi: "flush_inv holds env rows ?fs (nd_sink nd) (nd_offered nd) (nd_written nd)"
    and sn: "\<forall>sn. nd_snapshot nd = Some sn \<longrightarrow> sn \<le> wal_seq (fs_wal ?fs)" by (simp_all add: node_inv_def)
  show ?thesis
  proof (cases ev)
    case (Ingest bundles pre)
    obtain w res where w: "write_bundle_batch (fe_wal env) bundles pre (fs_wal ?fs) = (w, res)" by fastforce
    from Ingest legal have "unat (wal_seq (fs_wal ?fs)) + length bundles < 2 ^ 64 - 1" "faithful (fe_wal env) (wal_fmt (fs_wal ?fs)) bundles pre"
      "faithful_slots holds (fe_wal env) (wal_fmt (fs_wal ?fs)) bundles pre" "\<forall>b\<in>set bundles. small_entry (wb_entry b)"
      by simp_all
    note I = ingest_inv [OF env fi this w refl]
    from I sn w Ingest show ?thesis by (cases res) (auto simp: node_inv_def Let_def intro: order_trans)
  next
    case BeginFlush
    with inv show ?thesis by (simp add: node_inv_def last_sequence_def)
  next
    case (FlushRound now)
    show ?thesis
    proof (cases "nd_snapshot nd")
      case None
      with FlushRound inv show ?thesis by simp
    next
      case (Some snapshot)
      obtain fs h r where f: "flush_chunk env now snapshot (?fs, nd_sink nd) = ((fs, h), r)" by (metis surj_pair)
      from sn Some have le: "snapshot \<le> wal_seq (fs_wal ?fs)" by simp
      show ?thesis
      proof (cases "fs_last_flushed ?fs < snapshot")
        case True
        from flush_chunk_ok(1,2) [OF fenv fi True le f] le True FlushRound Some f show ?thesis by (simp add: node_inv_def)
      next
        case False
        with FlushRound Some inv show ?thesis by (simp add: node_inv_def)
      qed
    qed
  next
    case (ClusterChange rl m)
    with inv show ?thesis by (simp add: node_inv_def flush_inv_def batch_size_ok_def)
  next
    case Reopen
    obtain d res where o: "open_wal (fe_wal env) (wal_fmt (fs_wal ?fs)) (wal_arrow_enabled (fs_wal ?fs)) (wal_db (fs_wal ?fs)) = (d, res)" by fastforce
    obtain w where "res = Inr w" "flush_inv holds env rows (?fs\<lparr>fs_wal := w, fs_last_flushed := 0, fs_last_local_wal_seq := 0\<rparr>)
      (nd_sink nd) (nd_offered nd) (nd_written nd)"
      by (rule reopen_inv [OF env fi o])
    with Reopen o show ?thesis by (simp add: node_inv_def Let_def)
  qed
qed

lemma node_run_inv:
  "flush_env_ok holds env rows \<Longrightarrow> node_inv holds env rows nd \<Longrightarrow> node_legal_run holds env nd evs \<Longrightarrow> node_inv holds env rows (node_run env evs nd)"
  by (induction evs arbitrary: nd) (auto intro: node_step_inv)

text \<open>A node that has just opened its log: what the log holds counts as offered and as written.\<close>

definition fresh_node :: "('d, 'b, 'r) flush_service \<Rightarrow> (u64 \<Rightarrow> wal_entry option) \<Rightarrow> ('d, 'b, 'r) node" where
  "fresh_node fs l = \<lparr>nd_service = fs, nd_sink = [], nd_snapshot = None, nd_offered = Map.graph l, nd_written = l\<rparr>"

text \<open>
  The log a node starts on: it opens, its values decode, their slots hold their entries, no entry
  is huge, and the counter is not at its end.
\<close>

definition start_ok :: "('b prepared_wal_slot \<Rightarrow> wal_entry \<Rightarrow> bool) \<Rightarrow> ('d, 'b, 'a, 'r) flush_env
    \<Rightarrow> ('d \<Rightarrow> wal_key \<Rightarrow> u8 list option) \<Rightarrow> wal_format \<Rightarrow> bool \<Rightarrow> 'd \<Rightarrow> ('d, 'b, 'r) flush_service \<Rightarrow> bool" where
  "start_ok holds env rows fmt en d fs \<longleftrightarrow>
     db_ok (fe_wal env) fmt rows d \<and> rows_hold holds (fe_wal env) fmt rows d
     \<and> (\<forall>s e. wal_log (fe_wal env) fmt rows d s = Some e \<longrightarrow> small_entry e)
     \<and> open_wal (fe_wal env) fmt en d = (d, Inr (fs_wal fs)) \<and> fs_last_flushed fs = 0 \<and> batch_size_ok fs
     \<and> wal_seq (fs_wal fs) < u64_max \<and> 0 \<notin> seq_rows rows d"

lemma fresh_node_inv:
  assumes "flush_env_ok holds env rows" and s: "start_ok holds env rows fmt en d fs"
  shows "node_inv holds env rows (fresh_node fs (wal_log (fe_wal env) fmt rows d))"
proof -
  have e: "env_ok (fe_wal env) rows" using assms(1) by (simp add: flush_env_ok_def)
  from s have db: "db_ok (fe_wal env) fmt rows d" "open_wal (fe_wal env) fmt en d = (d, Inr (fs_wal fs))"
    "rows_hold holds (fe_wal env) fmt rows d" "0 \<notin> seq_rows rows d" by (simp_all add: start_ok_def)
  have w: "wal_ok (fe_wal env) rows (fs_wal fs)" "wal_db (fs_wal fs) = d" "wal_fmt (fs_wal fs) = fmt" "wal_seq (fs_wal fs) = recovered rows d"
    "slots_ok holds (fe_wal env) rows (fs_wal fs)"
    using opened_ok [OF e db(1,2)] db(3) by blast+
  have pos: "s \<noteq> 0" "s \<le> wal_seq (fs_wal fs)" if "wal_log (fe_wal env) fmt rows d s = Some e" for s e
    using wal_log_dom [OF db(1), of s] that db(4) wal_okD(2) [OF w(1)] w(2) by auto
  then have rec: "s \<le> recovered rows d" if "wal_log (fe_wal env) fmt rows d s = Some e" for s e using that w(4) by simp
  with w pos s show ?thesis
    by (auto simp: start_ok_def node_inv_def flush_inv_def fresh_node_def Map.graph_def word_neq_0_conv [symmetric])
qed

section \<open>Properties\<close>

text \<open>
  C2. No write is lost to truncation. In every interleaving of appends, rounds of the flush,
  changes of the cluster and restarts, with failing stores and a sink that answers as it likes,
  an entry that was in the log at the start or whose append was acknowledged is still in the log,
  or the sink was asked for inserts that hold all its rows and answered each with success or with
  the refusal that marks rows no table can take. The inserts are those of a chunk of entries
  offered to the log, the entry among them: the points of each table in log order, merged when
  merging is on, or the stacked batches of slots that hold these entries, cut into pieces without
  gap or overlap. The slots that writers hand over and that stored values decode to hold their
  entries, and no entry has 2^31 points or more.
\<close>

theorem flush_loses_nothing:
  assumes "flush_env_ok holds env rows" and "start_ok holds env rows fmt en d fs"
    and "nd0 = fresh_node fs (wal_log (fe_wal env) fmt rows d)"
    and "node_legal_run holds env nd0 evs" and "nd = node_run env evs nd0" and "nd_written nd s = Some e"
  shows "covered (fe_kernel env) (fs_coalesce (nd_service nd)) holds (nd_offered nd) (nd_sink nd) s e
    \<or> service_log (fe_wal env) rows (nd_service nd) s = Some e"
proof -
  have "node_inv holds env rows nd"
    unfolding assms(5) by (rule node_run_inv [OF assms(1) _ assms(4)]) (simp only: assms(3) fresh_node_inv [OF assms(1,2)])
  then show ?thesis using flush_invD(6) assms(6) unfolding node_inv_def by blast
qed

text \<open>
  C20. Every flush ends, whatever the stores and the sink answer; and when it reports success, every
  entry acknowledged before it began is covered: the sink was asked for inserts that hold all its
  rows and took each, or refused it for good. The same holds of the drain before a shutdown,
  which then needs one flush. The node is one that a run of appends, flush rounds, cluster
  changes and restarts has reached; as there, slots hold their entries and no entry has 2^31 points
  or more.
\<close>

theorem flush_ends_and_delivers:
  assumes "flush_env_ok holds env rows" and "start_ok holds env rows fmt en d fs"
    and "nd0 = fresh_node fs (wal_log (fe_wal env) fmt rows d)"
    and "node_legal_run holds env nd0 evs" and "nd = node_run env evs nd0"
  shows "(\<exists>fs' h' r. flush env clock (nd_service nd, nd_sink nd) = Some ((fs', h'), r)
      \<and> (r = Inr () \<longrightarrow> (\<forall>s e. nd_written nd s = Some e \<longrightarrow>
           covered (fe_kernel env) (fs_coalesce fs') holds (nd_offered nd) h' s e)))
    \<and> (\<exists>fs' h' r. drain env clock (nd_service nd, nd_sink nd) = Some ((fs', h'), r)
      \<and> (r = Inr () \<longrightarrow> (\<forall>s e. nd_written nd s = Some e \<longrightarrow>
           covered (fe_kernel env) (fs_coalesce fs') holds (nd_offered nd) h' s e)))"
proof -
  have "node_inv holds env rows nd"
    unfolding assms(5) by (rule node_run_inv [OF assms(1) _ assms(4)]) (simp only: assms(3) fresh_node_inv [OF assms(1,2)])
  then have inv: "flush_inv holds env rows (nd_service nd) (nd_sink nd) (nd_offered nd) (nd_written nd)" by (simp add: node_inv_def)
  obtain fs' h' r where f: "flush env clock (nd_service nd, nd_sink nd) = Some ((fs', h'), r)"
    "flush_inv holds env rows fs' h' (nd_offered nd) (nd_written nd)"
    "r = Inr () \<longrightarrow> (\<forall>s. service_log (fe_wal env) rows fs' s \<noteq> None \<longrightarrow> s \<le> fs_last_flushed fs')"
    using flush_ok [OF assms(1) inv, of clock] by blast
  have "r = Inr () \<longrightarrow> (\<forall>s e. nd_written nd s = Some e \<longrightarrow> covers holds env fs' h' (nd_offered nd) s e)"
    using nothing_left [OF f(2)] f(3) by blast
  with f(1) drain_ok [OF assms(1) inv, of clock] show ?thesis by blast
qed

text \<open>
  When an insert fails the chunk is held: the flush stops with an error, the position does not
  move, and every entry after the position stays in the log.
\<close>

theorem failed_insert_holds_the_log:
  assumes "flush_env_ok holds env rows" and "node_inv holds env rows nd" and "nd_snapshot nd = Some snapshot"
    and "fs_last_flushed (nd_service nd) < snapshot"
    and "flush_chunk env now snapshot (nd_service nd, nd_sink nd) = ((fs', h'), Inl HeldForRetry)"
    and "service_log (fe_wal env) rows (nd_service nd) s = Some e" and "fs_last_flushed (nd_service nd) < s"
  shows "fs_last_flushed fs' = fs_last_flushed (nd_service nd) \<and> service_log (fe_wal env) rows fs' s = Some e"
proof -
  let ?fs = "nd_service nd"
  from assms(2,3) have inv: "flush_inv holds env rows ?fs (nd_sink nd) (nd_offered nd) (nd_written nd)"
    and sn: "snapshot \<le> wal_seq (fs_wal ?fs)" by (simp_all add: node_inv_def)
  obtain fs1 ch failed where h: "read_chunk (fe_wal env) snapshot ?fs = (fs1, Inr (Some ch))"
    "write_chunk env (note_local ch fs1) ch (nd_sink nd) = (h', Inr failed)"
    "finish_chunk env now ch failed (note_local ch fs1) = (fs', Inl HeldForRetry)"
    by (rule flush_chunk_held [OF assms(5)])
  note R = read_chunk_inv [OF assms(1) inv assms(4) sn h(1)]
  from R(2) obtain m where m: "fs1 = ?fs\<lparr>fs_wal := fs_wal ?fs\<lparr>wal_cache := m\<rparr>\<rparr>" by blast
  let ?fs1 = "note_local ch fs1"
  have inv1: "flush_inv holds env rows ?fs1 h' (nd_offered nd) (nd_written nd)"
    using R(1) write_chunk_history [OF h(2)] by (auto simp: flush_inv_note intro: flush_inv_more)
  have ok: "chunk_ok holds (service_log (fe_wal env) rows ?fs1) (fs_last_flushed ?fs1) snapshot ch"
    using R(3) [OF refl] m by simp
  have "\<not> failed \<longrightarrow> chunk_settled (fe_kernel env) (fs_coalesce ?fs1) h' ch"
    using write_chunk_settled [of env ?fs1 ch "nd_sink nd" h'] h(2) flush_invD(9) [OF inv1] ok by (auto simp: batch_size_ok_def chunk_ok_def)
  from finish_chunk_ok(4) [OF _ inv1 ok _ h(3) this] assms(1,6,7) sn m show ?thesis by (simp add: flush_env_ok_def)
qed

end
