(* ===== verification/Flush_Works.thy ===== *)
theory Flush_Works
  imports Flush_Safety
begin

text \<open>
  What the flush service inserts and how far it truncates, with runs on concrete nodes: the truncation
  point stays behind the acknowledgements of the peers; the margin of a sharded node stays within
  its bytes.
\<close>

section \<open>The margin\<close>

lemma margin_scan_kept:
  assumes "sorted_wrt (\<lambda>x y. fst y < fst x) xs" and "unat kept \<le> unat mb"
    and "unat kept + (\<Sum>x\<leftarrow>xs. unat (snd x)) < 2 ^ 64"
  shows "unat kept + (\<Sum>x\<leftarrow>filter (\<lambda>x. margin_scan mb kept start xs < fst x) xs. unat (snd x)) \<le> unat mb"
  using assms
proof (induction mb kept start xs rule: margin_scan.induct)
  case (2 mb kept start s len rest)
  have add: "unat (kept + len) = unat kept + unat len" using 2(4) by (intro unat_plus_simple [THEN iffD1] no_olen_add_nat [THEN iffD2]) simp
  show ?case
  proof (cases "mb < kept + len")
    case True
    then have "filter (\<lambda>x. margin_scan mb kept start ((s, len) # rest) < fst x) ((s, len) # rest) = []"
      using 2(2) by (auto simp: filter_empty_conv dest: less_asym)
    with 2(3) show ?thesis by simp
  next
    case False
    then have "unat (kept + len) \<le> unat mb" by (simp add: word_le_nat_alt not_less)
    with 2(1) [OF False] 2(2,4) add False show ?thesis by (simp add: algebra_simps)
  qed
qed simp

lemma rev_sizes_split:
  assumes "sorted_wrt (<) (map fst (xs :: (u64 \<times> u64) list))"
  shows "dropWhile (\<lambda>(s, _). t < s) (rev xs) = rev (filter (\<lambda>x. fst x \<le> t) xs)"
  using assms
proof (induction xs rule: rev_induct)
  case (snoc x xs)
  show ?case
  proof (cases "fst x \<le> t")
    case True
    then have "filter (\<lambda>x. fst x \<le> t) xs = xs"
      using snoc.prems by (intro filter_True) (auto simp: sorted_wrt_append intro: order.trans less_imp_le)
    with True show ?thesis by (auto simp: split_def)
  next
    case False
    with snoc show ?thesis by (auto simp: split_def sorted_wrt_append not_le)
  qed
qed simp

section \<open>Acknowledgements\<close>

lemma min_max_acks_bounds:
  "min_max_acks kv rl ps lo hi = Inr (a, b) \<Longrightarrow>
   a \<le> lo \<and> hi \<le> b \<and> (\<forall>p\<in>set ps. \<exists>x. get_wal_ack kv rl p = Inr x \<and> a \<le> x \<and> x \<le> b)"
  by (induction kv rl ps lo hi rule: min_max_acks.induct) (auto split: sum.splits)

section \<open>Properties\<close>

text \<open>
  The inserts of a chunk of entries are its points, and nothing else: for each database, retention
  policy and measurement, the inserts for it hold together the points of that table in log
  order, merged by series and instant when merging is on; no insert is empty or larger than the
  batch size, and every row has an origin.
\<close>

theorem native_works_exact:
  assumes "0 < fs_max_points_per_batch fs" and "length (entry_points entries) < 2 ^ 32"
  shows "(\<forall>k. concat (map fw_points (filter (\<lambda>w. work_key w = k) (native_works hasher fs entries))) =
      (if fs_coalesce fs then coalesce_spec (points_for k entries) else points_for k entries))
    \<and> (\<forall>w\<in>set (native_works hasher fs entries). fw_points w \<noteq> [] \<and> length (fw_points w) \<le> fs_max_points_per_batch fs
        \<and> length (fw_origins w) = length (fw_points w))"
  using native_works_key [OF assms] by blast

text \<open>
  Outside a sharded cluster, a node that has written truncates at or below the acknowledgement of
  every peer that counts, or, when no such peer has acknowledged anything, a fixed number of
  entries behind the flush. It never truncates past the flush.
\<close>

theorem truncation_respects_acks:
  assumes "wal_ok env rows (fs_wal fs)" and "\<not> fs_sharding_enabled fs" and "fs_replication_log fs = Some rl"
    and "fs_last_local_wal_seq fs \<noteq> 0" and "p \<in> set (effective_peers kv fs rl now (truncate_peers fs))"
    and "safe = compute_safe_truncate_seq kv now fs through"
  shows "safe \<le> through \<and>
    ((\<forall>a. get_wal_ack kv rl p = Inr a \<longrightarrow> safe \<le> a)
     \<or> safe = saturating_sub through MAX_WAL_RETENTION_ENTRIES
       \<and> (\<forall>q\<in>set (effective_peers kv fs rl now (truncate_peers fs)). get_wal_ack kv rl q = Inr 0))"
proof -
  let ?eff = "effective_peers kv fs rl now (truncate_peers fs)"
  from assms(5) have ne: "?eff \<noteq> []" by auto
  have tp: "truncate_peers fs \<noteq> []"
    using assms(5) by (auto simp: effective_peers_def split: if_splits option.splits)
  have le: "safe \<le> through" unfolding assms(6) by (rule compute_safe_le [OF assms(1)])
  show ?thesis
  proof (cases "min_max_wal_ack_for_peers kv rl ?eff")
    case (Inl e)
    with assms(2-4,6) ne tp le show ?thesis by (simp add: compute_safe_truncate_seq_def Let_def)
  next
    case (Inr mm)
    obtain a b where mm: "mm = (a, b)" by fastforce
    from Inr ne have "min_max_acks kv rl ?eff u64_max 0 = Inr (a, b)" by (simp add: min_max_wal_ack_for_peers_def mm)
    from min_max_acks_bounds [OF this] have acks: "\<forall>q\<in>set ?eff. \<exists>x. get_wal_ack kv rl q = Inr x \<and> a \<le> x \<and> x \<le> b" by blast
    then obtain x where x: "get_wal_ack kv rl p = Inr x" "a \<le> x" "x \<le> b" using assms(5) by blast
    have safe: "safe = (if 0 < b \<and> a = 0 then 0 else if 0 < a then min through a else saturating_sub through MAX_WAL_RETENTION_ENTRIES)"
      using assms(2-4,6) ne tp Inr by (simp add: compute_safe_truncate_seq_def Let_def mm)
    show ?thesis
    proof (cases "b = 0")
      case True
      then have "a = 0" using x(2,3) by simp
      moreover have "\<forall>q\<in>set ?eff. get_wal_ack kv rl q = Inr 0" using acks True by fastforce
      ultimately show ?thesis using safe True le by simp
    next
      case False
      with safe x le show ?thesis by (auto simp: word_gt_0 min_def split: if_splits)
    qed
  qed
qed

text \<open>
  On a sharded node the margin kept behind the flush never holds more than the configured bytes of
  entries whose size is known, and its start is never past the flush.
\<close>

theorem margin_within_bytes:
  assumes "wal_ok env rows w" and "(\<Sum>x\<leftarrow>wal_sizes w. unat (snd x)) < 2 ^ 64"
    and "start = flushed_margin_start through max_bytes w"
  shows "start \<le> through \<and>
    (\<Sum>x\<leftarrow>filter (\<lambda>x. start < fst x \<and> fst x \<le> through) (wal_sizes w). unat (snd x)) \<le> unat max_bytes"
proof -
  let ?xs = "filter (\<lambda>x. fst x \<le> through) (wal_sizes w)"
  note sorted = wal_okD(6) [OF assms(1)]
  have start: "start = margin_scan max_bytes 0 through (rev ?xs)"
    unfolding assms(3) flushed_margin_start_def rev_sizes_split [OF sorted] ..
  have "sorted_wrt (\<lambda>x y. fst y < fst x) (rev ?xs)"
    using sorted by (simp add: sorted_wrt_rev sorted_wrt_filter sorted_wrt_map)
  moreover have "(\<Sum>x\<leftarrow>?xs. unat (snd x)) \<le> (\<Sum>x\<leftarrow>wal_sizes w. unat (snd x))"
    by (induction "wal_sizes w" rule: list.induct) (auto simp: sum_list_filter_le_nat)
  ultimately have "(\<Sum>x\<leftarrow>filter (\<lambda>x. start < fst x) (rev ?xs). unat (snd x)) \<le> unat max_bytes"
    using margin_scan_kept [of "rev ?xs" 0 max_bytes through] assms(2) start by (simp add: rev_map [symmetric])
  then show ?thesis
    using flushed_margin_start_le [OF assms(1)] by (simp add: rev_filter [symmetric] rev_map [symmetric] conj_commute assms(3))
qed

text \<open>A node over association lists, with a sink that takes everything.\<close>

definition demo_kernel :: "(unit, unit) arrow_kernel" where
  "demo_kernel =
     \<lparr>ak_num_rows = \<lambda>_. 0, ak_schema = \<lambda>_. [], ak_columns = \<lambda>_. [], ak_data_type = \<lambda>_. Utf8,
      ak_cast_safe = \<lambda>a _. Inr a, ak_cast = \<lambda>a _. Inr a, ak_null_array = \<lambda>_ _. (), ak_string_array = \<lambda>_. (),
      ak_try_new = \<lambda>_ _. Inr (), ak_concat = \<lambda>_ _. Inr (), ak_slice = \<lambda>b _ _. b\<rparr>"

definition line_entry :: wal_entry where
  "line_entry = \<lparr>we_database = ''db'', we_retention_policy = ''rp'', we_points = demo_lines, we_origin_node_id = 0\<rparr>"

definition line_bin :: "wal_entry serializer" where
  "line_bin = (\<lambda>e. if e = line_entry then Inr [9] else Inl ''unsupported'', \<lambda>bs. if bs = [9] then Inr line_entry else Inl ''corrupt'')"

definition line_env :: "((wal_key \<times> u8 list) list, unit) wal_env" where
  "line_env = demo_env\<lparr>env_bin := line_bin\<rparr>"

definition line_bundle :: "unit wal_append_bundle" where
  "line_bundle = \<lparr>wb_entry = line_entry, wb_prepared = None\<rparr>"

text \<open>No slot is handed over, so any relation will do.\<close>

abbreviation no_slot :: "unit prepared_wal_slot \<Rightarrow> wal_entry \<Rightarrow> bool" where
  "no_slot \<equiv> \<lambda>_ _. False"

definition demo_flush_env :: "((wal_key \<times> u8 list) list, unit, unit, (string \<times> u8 list) list) flush_env" where
  "demo_flush_env =
     \<lparr>fe_wal = line_env, fe_kernel = demo_kernel, fe_repl = list_kv, fe_hash = \<lambda>_ _. 0, fe_sink = \<lambda>_ _. Inr ()\<rparr>"

definition demo_service :: "((wal_key \<times> u8 list) list, unit, (string \<times> u8 list) list) flush_service" where
  "demo_service = new_service demo_wal 0 True"

definition demo_node_events :: "(unit, (string \<times> u8 list) list) node_event list" where
  "demo_node_events = [Ingest [line_bundle] [], BeginFlush, FlushRound 0]"

abbreviation demo_flush_node :: "((wal_key \<times> u8 list) list, unit, (string \<times> u8 list) list) node" where
  "demo_flush_node \<equiv> fresh_node demo_service (wal_log line_env Bincode map_of [])"

lemma line_env_ok: "env_ok line_env map_of"
  using demo_env_ok by (simp add: env_ok_def line_env_def)

lemma line_handed:
  "faithful line_env Bincode [line_bundle] []" "faithful_slots no_slot line_env Bincode [line_bundle] []" "small_entry (wb_entry line_bundle)"
  using faithful_bincode [of line_env "[line_bundle]" "[]"] faithful_slots_bincode [of line_env "[line_bundle]" no_slot "[]"]
  by (simp_all add: line_env_def serializer_ok_def line_bin_def line_bundle_def small_entry_def line_entry_def demo_lines_def)

lemma open_line_wal: "open_wal line_env Bincode False [] = ([], Inr demo_wal)"
  by (simp add: open_wal_def migrate_legacy_entries_def recover_seq_def recover_first_def meta_seq_def wal_iter_def
      wal_iter_end_def wal_items_def line_env_def demo_env_def list_kv_def demo_wal_def saturating_add_1)

definition line_wal :: "((wal_key \<times> u8 list) list, unit) rocksdb_wal" where
  "line_wal = demo_wal\<lparr>wal_seq := 1, wal_db := [(WalCf (to_be_bytes 1), [9])], wal_sizes := [(1, 1)]\<rparr>"

lemma line_append: "write_bundle_batch line_env [line_bundle] [] demo_wal = (line_wal, Inr [1])"
  by (simp add: write_bundle_batch_def demo_wal_def demo_env_def line_env_def line_bundle_def Let_def encode_wal_value_def line_bin_def
      line_wal_def)

lemma demo_fresh:
  "flush_env_ok no_slot demo_flush_env map_of" "start_ok no_slot demo_flush_env map_of Bincode False [] demo_service"
proof -
  have "env_ops line_env = demo_ops" by (simp add: line_env_def demo_env_def)
  with line_env_ok demo_patch_keeps show "flush_env_ok no_slot demo_flush_env map_of"
    by (simp add: flush_env_ok_def demo_flush_env_def)
  have "fs_wal demo_service = demo_wal" "fs_last_flushed demo_service = 0" "wal_seq demo_wal < u64_max"
    by (simp_all add: demo_service_def new_service_def demo_wal_def word_gt_0)
  moreover have "batch_size_ok demo_service" unfolding demo_service_def by (rule new_service_batch_size)
  ultimately show "start_ok no_slot demo_flush_env map_of Bincode False [] demo_service"
    using open_line_wal by (simp add: start_ok_def demo_flush_env_def rows_hold_def wal_log_def db_ok_def seq_rows_def)
qed

lemma demo_node_legal: "node_legal_run no_slot demo_flush_env demo_flush_node demo_node_events"
  using line_handed by (simp add: demo_node_events_def fresh_node_def demo_service_def new_service_def demo_flush_env_def demo_wal_def)

lemma written_by_round: "nd_written (node_step env (FlushRound now) nd) = nd_written nd"
  by (auto split: option.split prod.split)

lemma demo_written: "nd_written (node_run demo_flush_env demo_node_events demo_flush_node) 1 = Some line_entry"
proof -
  have "nd_written (node_step demo_flush_env (Ingest [line_bundle] []) demo_flush_node) 1 = Some line_entry"
    using line_append by (simp add: fresh_node_def demo_service_def new_service_def demo_flush_env_def line_bundle_def)
  then show ?thesis unfolding demo_node_events_def node_run.simps written_by_round by simp
qed

theorem flush_loses_nothing_witness:
  "let nd = node_run demo_flush_env demo_node_events demo_flush_node
   in nd_written nd 1 = Some line_entry
     \<and> (covered demo_kernel (fs_coalesce (nd_service nd)) no_slot (nd_offered nd) (nd_sink nd) 1 line_entry
        \<or> service_log line_env map_of (nd_service nd) 1 = Some line_entry)"
proof -
  have "fe_wal demo_flush_env = line_env" "fe_kernel demo_flush_env = demo_kernel" by (simp_all add: demo_flush_env_def)
  with flush_loses_nothing [OF demo_fresh _ demo_node_legal refl demo_written] demo_written show ?thesis by (simp add: Let_def)
qed

theorem flush_ends_and_delivers_witness:
  "let nd = node_run demo_flush_env demo_node_events demo_flush_node
   in nd_written nd 1 = Some line_entry \<and> (\<exists>fs h r. flush demo_flush_env (\<lambda>_. 0) (nd_service nd, nd_sink nd) = Some ((fs, h), r))"
proof -
  have "fe_wal demo_flush_env = line_env" by (simp add: demo_flush_env_def)
  with flush_ends_and_delivers [OF demo_fresh _ demo_node_legal refl, of "\<lambda>_. 0"] demo_written show ?thesis
    unfolding Let_def by (intro conjI) (assumption, fastforce)
qed

theorem native_works_exact_witness:
  "concat (map fw_points (filter (\<lambda>w. work_key w = (''db'', ''rp'', ''cpu'')) (native_works (\<lambda>_ _. 0) demo_service
      [(1, \<lparr>we_database = ''db'', we_retention_policy = ''rp'', we_points = demo_lines, we_origin_node_id = 0\<rparr>)])))
   = coalesce_spec demo_lines"
  using native_works_exact [of demo_service "[(1, \<lparr>we_database = ''db'', we_retention_policy = ''rp'', we_points = demo_lines, we_origin_node_id = 0\<rparr>)]" "\<lambda>_ _. 0"]
  by (simp add: demo_service_def new_service_def DEFAULT_MAX_POINTS_PER_BATCH_def entry_points_def points_for_def point_key_def
      demo_lines_def)

theorem margin_within_bytes_witness:
  "flushed_margin_start 2 1 (demo_wal\<lparr>wal_seq := 3, wal_sizes := [(1, 1), (2, 1), (3, 1)]\<rparr>) = 1 \<and>
   (\<Sum>x\<leftarrow>filter (\<lambda>x. 1 < fst x \<and> fst x \<le> 2) [(1 :: u64, 1), (2, 1), (3, 1 :: u64)]. unat (snd x)) \<le> unat (1 :: u64)"
proof -
  let ?w = "demo_wal\<lparr>wal_seq := 3, wal_sizes := [(1, 1), (2, 1), (3, 1)]\<rparr>"
  have "wal_ok demo_env map_of ?w"
    by (simp add: wal_ok_def demo_db_ok demo_wal_def seq_rows_def recovered_def)
  moreover have "flushed_margin_start 2 1 ?w = 1"
    by (simp add: flushed_margin_start_def saturating_sub_def)
  ultimately show ?thesis using margin_within_bytes [of demo_env map_of ?w 1 2 1] by simp
qed

definition failing_env :: "((wal_key \<times> u8 list) list, unit, unit, (string \<times> u8 list) list) flush_env" where
  "failing_env = demo_flush_env\<lparr>fe_sink := \<lambda>_ _. Inl (SinkError ''down'')\<rparr>"

lemma line_read: "read_range line_env 1 5000 line_wal = (line_wal, Inr [(1, line_entry)])"
  by (simp add: line_wal_def read_range_def wal_iter_def line_env_def demo_env_def list_kv_def demo_wal_def wal_items_def
    decode_wal_value_def line_bin_def READ_MAX_BYTES_def)

lemma line_wal_ok: "wal_ok line_env map_of line_wal" "slots_ok no_slot line_env map_of line_wal"
proof -
  have db: "db_ok line_env Bincode map_of []" by (simp add: db_ok_def)
  have w: "wal_ok line_env map_of demo_wal" "slots_ok no_slot line_env map_of demo_wal"
    using opened_ok [OF line_env_ok db open_line_wal] by (simp_all add: rows_hold_def)
  have "unat (wal_seq demo_wal) + length [line_bundle] < 2 ^ 64" "wal_fmt demo_wal = Bincode" by (simp_all add: demo_wal_def)
  with append_ok(1) [OF line_env_ok w(1) _ _ line_append] append_slots_ok [OF line_env_ok w(1) _ _ _ line_append w(2)] line_handed
  show "wal_ok line_env map_of line_wal" "slots_ok no_slot line_env map_of line_wal" by simp_all
qed

definition busy_node :: "((wal_key \<times> u8 list) list, unit, (string \<times> u8 list) list) node" where
  "busy_node = (fresh_node (demo_service\<lparr>fs_wal := line_wal\<rparr>) Map.empty)\<lparr>nd_snapshot := Some 1, nd_offered := {(1, line_entry)}\<rparr>"

lemma busy_log: "wal_log line_env Bincode map_of (wal_db line_wal) s = (if s = 1 then Some line_entry else None)"
  by (auto simp: wal_log_def line_wal_def demo_wal_def decode_wal_value_def line_env_def demo_env_def line_bin_def)

lemma one_less_max: "(1 :: u64) < u64_max"
  by (simp add: word_less_nat_alt unsigned_minus_1_eq_mask mask_eq_exp_minus_1)

lemma busy_inv: "node_inv no_slot failing_env map_of busy_node"
proof -
  have "batch_size_ok (demo_service\<lparr>fs_wal := line_wal\<rparr>)" using demo_fresh(2) by (simp add: start_ok_def batch_size_ok_def)
  with line_wal_ok busy_log one_less_max line_handed(3) show ?thesis
    by (simp add: node_inv_def flush_inv_def busy_node_def fresh_node_def failing_env_def demo_flush_env_def demo_service_def
        new_service_def line_wal_def demo_wal_def line_bundle_def split: if_splits)
qed

lemma failed_sends: "calls \<noteq> [] \<Longrightarrow> \<exists>h' rs. send_calls (\<lambda>_ _. Inl (SinkError m)) calls h = (h', rs) \<and> list_ex item_failed rs"
  by (cases calls) (auto simp: Let_def item_failed_def unwritable_rows_def split: prod.split)

lemma busy_failed: "\<exists>h'. write_chunk failing_env (note_local ch (nd_service busy_node)) (Native [(1, line_entry)]) [] = (h', Inr True)"
proof -
  let ?fs = "note_local ch (nd_service busy_node)"
  have "0 < fs_max_points_per_batch ?fs"
    by (simp add: busy_node_def fresh_node_def demo_service_def new_service_def DEFAULT_MAX_POINTS_PER_BATCH_def)
  from native_works_key(1) [OF this, of "[(1, line_entry)]" "(''db'', ''rp'', ''cpu'')" "\<lambda>_ _. 0"]
  have "native_works (\<lambda>_ _. 0) ?fs [(1, line_entry)] \<noteq> []"
    by (auto simp: line_entry_def demo_lines_def points_for_def point_key_def coalesce_spec_def firsts_def split: if_splits)
  then have "(number_works (fs_last_flushed ?fs + 1) (native_works (\<lambda>_ _. 0) ?fs [(1, line_entry)]) :: unit sink_call list) \<noteq> []"
    by (simp add: number_works_calls)
  from failed_sends [OF this, of "''down''" "[]"] show ?thesis
    by (auto simp: write_chunk_def failing_env_def demo_flush_env_def)
qed

lemma busy_held: "\<exists>fs' h'. flush_chunk failing_env 0 1 (nd_service busy_node, nd_sink busy_node) = ((fs', h'), Inl HeldForRetry)"
proof -
  have "read_chunk line_env 1 (nd_service busy_node) = (nd_service busy_node, Inr (Some (Native [(1, line_entry)])))"
    using line_read
    by (simp add: busy_node_def fresh_node_def read_chunk_def read_native_def Let_def WAL_READ_CHUNK_def demo_service_def new_service_def)
       (simp add: line_wal_def demo_wal_def)
  moreover have "\<exists>fs'. finish_chunk failing_env 0 ch True (note_local ch (nd_service busy_node)) = (fs', Inl HeldForRetry)" for ch
  proof -
    have fs: "fs_last_flushed (nd_service busy_node) = 0" "fs_wal (nd_service busy_node) = line_wal"
      by (simp_all add: busy_node_def fresh_node_def demo_service_def new_service_def)
    have safe: "compute_safe_truncate_seq kv now (note_local ch (nd_service busy_node)) 0 = 0" for kv now
      by (simp add: compute_safe_truncate_seq_def note_local_def busy_node_def fresh_node_def demo_service_def new_service_def)
    obtain w where "truncate_before line_env 1 line_wal = (w, Inr ())"
      by (simp add: truncate_before_def line_wal_def demo_wal_def Let_def)
    then show ?thesis by (simp add: finish_chunk_def Let_def fs safe saturating_sub_def failing_env_def demo_flush_env_def)
  qed
  moreover obtain h' where "write_chunk failing_env (note_local (Native [(1, line_entry)]) (nd_service busy_node)) (Native [(1, line_entry)]) [] = (h', Inr True)"
    using busy_failed by blast
  moreover have "nd_sink busy_node = []" "fe_wal failing_env = line_env"
    by (simp_all add: busy_node_def fresh_node_def failing_env_def demo_flush_env_def)
  ultimately show ?thesis
    by (auto simp: flush_chunk_def Let_def) (metis (no_types, lifting) old.sum.simps(5) prod.case)
qed

theorem failed_insert_holds_the_log_witness:
  "\<exists>fs' h'. flush_chunk failing_env 0 1 (nd_service busy_node, nd_sink busy_node) = ((fs', h'), Inl HeldForRetry)
     \<and> fs_last_flushed fs' = 0 \<and> wal_log line_env (wal_fmt (fs_wal fs')) map_of (wal_db (fs_wal fs')) 1 = Some line_entry"
proof -
  obtain fs' h' where f: "flush_chunk failing_env 0 1 (nd_service busy_node, nd_sink busy_node) = ((fs', h'), Inl HeldForRetry)"
    using busy_held by blast
  have env: "fe_wal failing_env = line_env" "flush_env_ok no_slot failing_env map_of"
    using demo_fresh(1) by (simp_all add: failing_env_def demo_flush_env_def flush_env_ok_def)
  have nd: "nd_snapshot busy_node = Some 1" "fs_last_flushed (nd_service busy_node) = 0" "fs_wal (nd_service busy_node) = line_wal"
    by (simp_all add: busy_node_def fresh_node_def demo_service_def new_service_def)
  have "service_log line_env map_of (nd_service busy_node) 1 = Some line_entry"
    using busy_log [of 1] by (simp add: nd) (simp add: line_wal_def demo_wal_def)
  with failed_insert_holds_the_log [OF env(2) busy_inv nd(1) _ f, of 1 line_entry] f show ?thesis
    by (simp add: env(1) nd)
qed

lemma demo_wal_ok: "wal_ok demo_env map_of demo_wal"
proof -
  obtain w0 where "open_wal demo_env Bincode False [] = ([], Inr w0)" "wal_ok demo_env map_of w0"
    by (rule open_wal_ok [OF env_okD(1) [OF demo_env_ok] demo_db_ok])
  with open_demo_wal show ?thesis by simp
qed

definition demo_cluster :: "((wal_key \<times> u8 list) list, unit, (string \<times> u8 list) list) flush_service" where
  "demo_cluster = demo_service\<lparr>fs_node_id := 1, fs_last_local_wal_seq := 9,
     fs_membership := Some (add_node \<lparr>node_id = 7, addr = ''b'', node_state = Active, joined_at = 0, last_heartbeat = 0, needs_sync = False,
       consecutive_misses = 0\<rparr> new_membership),
     fs_replication_log := Some \<lparr>rl_db = [(ack_key 7, to_be_bytes 3)], mutation_seq = 0, applied_mutation_seqs = []\<rparr>\<rparr>"

theorem truncation_respects_acks_witness:
  "compute_safe_truncate_seq list_kv 0 demo_cluster 9 \<le> 3"
proof -
  let ?rl = "\<lparr>rl_db = [(ack_key 7, to_be_bytes 3)], mutation_seq = 0, applied_mutation_seqs = []\<rparr>"
  have p: "effective_peers list_kv demo_cluster ?rl 0 (truncate_peers demo_cluster) = [7]"
    by (simp add: effective_peers_def demo_cluster_def demo_service_def new_service_def truncate_peers_def replication_peers_def
        add_node_def new_membership_def hm_insert_def hm_values_def)
  have ack: "get_wal_ack list_kv ?rl 7 = Inr 3"
    by (simp add: get_wal_ack_def get_ack_def list_kv_def be_u64_def)
  have "wal_ok demo_env map_of (fs_wal demo_cluster)" "\<not> fs_sharding_enabled demo_cluster" "fs_replication_log demo_cluster = Some ?rl"
    "fs_last_local_wal_seq demo_cluster \<noteq> 0"
    using demo_wal_ok by (simp_all add: demo_cluster_def demo_service_def new_service_def)
  from truncation_respects_acks [OF this, of 7 list_kv 0, OF _ refl] p ack show ?thesis by auto
qed

end
