(* ===== verification/Serializers.thy ===== *)
theory Serializers
  imports Wal_Codec "HOL-Library.Countable"
begin

text \<open>
  What the components rely on of the serializers (\<open>bincode\<close>, \<open>serde_json\<close>), which are not part of the
  sources: a value that was written is read back, and, of JSON, that every value of the program's
  types can be written. The last definition is a codec with both, for any countable type.
\<close>

definition reads_back :: "'x serializer \<Rightarrow> bool" where
  "reads_back c \<longleftrightarrow> (\<forall>x bs. fst c x = Inr bs \<longrightarrow> snd c bs = Inr x)"

definition json_codec :: "'x serializer \<Rightarrow> bool" where
  "json_codec c \<longleftrightarrow> reads_back c \<and> (\<forall>x. \<exists>bs. fst c x = Inr bs)"

lemma json_codecE:
  assumes "json_codec c"
  obtains bs where "fst c x = Inr bs" "snd c bs = Inr x"
  using assms unfolding json_codec_def reads_back_def by blast

text \<open>A row of a store and the value it stands for.\<close>

definition row_holds :: "'x serializer \<Rightarrow> u8 list option \<Rightarrow> 'x option \<Rightarrow> bool" where
  "row_holds c row x = (case row of None \<Rightarrow> x = None | Some bs \<Rightarrow> (\<exists>y. x = Some y \<and> snd c bs = Inr y))"

definition numbered_codec :: "('x::countable) serializer" where
  "numbered_codec = (\<lambda>x. Inr (replicate (to_nat x) 0), \<lambda>bs. Inr (from_nat (length bs)))"

lemma numbered_codec_ok [simp]: "json_codec numbered_codec"
  by (simp add: json_codec_def reads_back_def numbered_codec_def)

end
