(* ===== verification/Points_Frame.thy ===== *)
theory Points_Frame
  imports Wal_Codec Kv_Store Serializers
begin

text \<open>
  The body of a write as nodes exchange it (\<open>application/line_protocol.rs\<close>): line protocol text, or
  binary frames of points, told apart by the first bytes. The serializer of the points
  (\<open>bincode\<close>) and the parser of the text (\<open>influxdb_line_protocol\<close>) are not part of the sources: they
  are the parameters \<open>bin\<close> and \<open>lines\<close>. Shown: bodies that were joined with a newline, as the
  replication does on both sides, decode to the points of all of them in order, unless together
  they exceed the limit on the points of one request, in which case none of them is decoded.
\<close>

section \<open>Frames\<close>

datatype body_error = EncodePoints string | FrameTooLarge | BadFrame string | TooManyPoints nat | BadLine string

definition points_frame_magic :: "u8 list" where
  "points_frame_magic = [0, 72, 66, 80]"

definition is_binary_points :: "u8 list \<Rightarrow> bool" where
  "is_binary_points body = starts_with body points_frame_magic"

definition encode_points_binary :: "'p list serializer \<Rightarrow> 'p list \<Rightarrow> body_error + u8 list" where
  "encode_points_binary bin points =
     and_then (wrap_err EncodePoints (fst bin points)) (\<lambda>payload.
       if 2 ^ 32 \<le> length payload then Inl FrameTooLarge
       else Inr (points_frame_magic @ le_bytes 4 (length payload) @ payload))"

definition is_ascii_whitespace :: "u8 \<Rightarrow> bool" where
  "is_ascii_whitespace b = (b = 9 \<or> b = 10 \<or> b = 12 \<or> b = 13 \<or> b = 32)"

function decode_frames :: "'p list serializer \<Rightarrow> nat \<Rightarrow> u8 list \<Rightarrow> 'p list \<Rightarrow> body_error + 'p list" where
  "decode_frames bin limit body out =
     (let rest = dropWhile is_ascii_whitespace body
      in if rest = [] then Inr out
         else if \<not> starts_with rest points_frame_magic \<or> length rest < 8 then Inl (BadFrame ''truncated or mixed body'')
         else
           let len = le_value (take 4 (drop 4 rest))
           in if length rest < 8 + len then Inl (BadFrame ''frame shorter than its length'')
              else case snd bin (take len (drop 8 rest)) of
                  Inl e \<Rightarrow> Inl (BadFrame e)
                | Inr points \<Rightarrow>
                    if limit < length out + length points then Inl (TooManyPoints limit)
                    else decode_frames bin limit (drop (8 + len) rest) (out @ points))"
  by pat_completeness auto
termination
proof (relation "measure (\<lambda>(bin, limit, body, out). length body)")
  fix bin :: "'p list serializer" and limit :: nat and body :: "u8 list" and out :: "'p list" and rest len points
  assume rest: "rest = dropWhile is_ascii_whitespace body" "\<not> (\<not> starts_with rest points_frame_magic \<or> length rest < 8)"
  have "length rest \<le> length body" unfolding rest(1) by (rule length_dropWhile_le)
  then show "((bin, limit, drop (8 + len) rest, out @ points), bin, limit, body, out) \<in> measure (\<lambda>(bin, limit, body, out). length body)"
    using rest(2) by (simp del: diff_diff_left) arith
qed simp

declare decode_frames.simps [simp del]

definition default_max_points_per_request :: nat where
  "default_max_points_per_request = 500000"

definition parse_line_body_to_points_limited ::
    "'p list serializer \<Rightarrow> (u8 list \<Rightarrow> string option \<Rightarrow> nat \<Rightarrow> body_error + 'p list) \<Rightarrow> u8 list \<Rightarrow> string option \<Rightarrow> nat \<Rightarrow> body_error + 'p list" where
  "parse_line_body_to_points_limited bin lines body precision max_points =
     (let limit = (if max_points = 0 then default_max_points_per_request else max_points)
      in if is_binary_points body then decode_frames bin limit body [] else lines body precision limit)"

section \<open>Joined bodies\<close>

text \<open>Bodies with a newline between them, as coalescing and grouping join them.\<close>

fun join_bodies :: "u8 list list \<Rightarrow> u8 list" where
  "join_bodies [] = []"
| "join_bodies [b] = b"
| "join_bodies (b # c # bs) = b @ [10] @ join_bodies (c # bs)"

lemma magic_length [simp]: "length points_frame_magic = 4"
  by (simp add: points_frame_magic_def)

lemma decode_frames_whitespace: "is_ascii_whitespace b \<Longrightarrow> decode_frames bin limit (b # body) out = decode_frames bin limit body out"
  by (subst (1 2) decode_frames.simps) simp

lemma decode_frames_Nil [simp]: "decode_frames bin limit [] out = Inr out"
  by (subst decode_frames.simps) simp

lemma decode_one_frame:
  assumes "reads_back bin" and "encode_points_binary bin points = Inr frame"
  shows "decode_frames bin limit (frame @ rest) out =
    (if limit < length out + length points then Inl (TooManyPoints limit) else decode_frames bin limit rest (out @ points))"
proof -
  obtain payload where payload: "fst bin points = Inr payload" "length payload < 2 ^ 32"
    and frame: "frame = points_frame_magic @ le_bytes 4 (length payload) @ payload"
    using assms(2) by (auto simp: encode_points_binary_def elim!: and_then_InrE split: if_splits)
  have rb: "snd bin payload = Inr points" using assms(1) payload(1) by (simp add: reads_back_def)
  have nw: "dropWhile is_ascii_whitespace (frame @ rest) = frame @ rest"
    by (simp add: frame points_frame_magic_def is_ascii_whitespace_def)
  have "starts_with (frame @ rest) points_frame_magic" "length (frame @ rest) = 8 + length payload + length rest"
    "take 4 (drop 4 (frame @ rest)) = le_bytes 4 (length payload)" "take (length payload) (drop 8 (frame @ rest)) = payload"
    "drop (8 + length payload) (frame @ rest) = rest"
    by (simp_all add: frame starts_with_def)
  moreover have "frame @ rest \<noteq> []" by (simp add: frame points_frame_magic_def)
  ultimately show ?thesis
    using rb payload(2) by (subst decode_frames.simps) (auto simp: nw Let_def)
qed

lemma encoded_is_binary: "encode_points_binary bin points = Inr frame \<Longrightarrow> is_binary_points (frame @ rest)"
  by (auto simp: encode_points_binary_def is_binary_points_def starts_with_def elim!: and_then_InrE split: if_splits)

lemma decode_joined_frames:
  assumes "reads_back bin" and "list_all2 (\<lambda>points frame. encode_points_binary bin points = Inr frame) pss frames"
    and "length out \<le> limit"
  shows "decode_frames bin limit (join_bodies frames) out =
    (if length out + length (concat pss) \<le> limit then Inr (out @ concat pss) else Inl (TooManyPoints limit))"
  using assms(2,3)
proof (induction frames arbitrary: pss out rule: join_bodies.induct)
  case (2 b)
  then obtain ps where "pss = [ps]" "encode_points_binary bin ps = Inr b" by (auto simp: list_all2_Cons2)
  with decode_one_frame [OF assms(1), of ps b limit "[]" out] show ?case by simp
next
  case (3 b c bs)
  then obtain ps pss' where pss: "pss = ps # pss'" "encode_points_binary bin ps = Inr b"
    "list_all2 (\<lambda>points frame. encode_points_binary bin points = Inr frame) pss' (c # bs)"
    by (auto simp: list_all2_Cons2)
  have "decode_frames bin limit ([10] @ join_bodies (c # bs)) out' = decode_frames bin limit (join_bodies (c # bs)) out'" for out' :: "'a list"
    by (simp add: decode_frames_whitespace is_ascii_whitespace_def)
  with decode_one_frame [OF assms(1) pss(2), of limit "[10] @ join_bodies (c # bs)" out] 3(1) [OF pss(3), of "out @ ps"] 
  show ?case by (auto simp: pss(1))
qed simp

text \<open>
  Binary bodies joined with newlines decode to the points of all of them, in order, exactly
  when their number is within the limit on one request; otherwise the whole body is refused, with
  the points of every one of them, however few points each has.
\<close>

theorem joined_frames_decode:
  assumes "reads_back bin" and "list_all2 (\<lambda>points frame. encode_points_binary bin points = Inr frame) pss frames"
    and "frames \<noteq> []" and "0 < max_points"
  shows "parse_line_body_to_points_limited bin lines (join_bodies frames) precision max_points =
    (if length (concat pss) \<le> max_points then Inr (concat pss) else Inl (TooManyPoints max_points))"
proof -
  obtain ps frame pss' frames' where "pss = ps # pss'" "frames = frame # frames'" and "encode_points_binary bin ps = Inr frame"
    using assms(2,3) by (cases frames) (auto simp: list_all2_Cons2)
  then have "is_binary_points (join_bodies frames)"
    using encoded_is_binary [of bin ps frame "[]"] encoded_is_binary [of bin ps frame "[10] @ join_bodies frames'"]
    by (cases frames') auto
  with decode_joined_frames [OF assms(1,2), of "[]" max_points] assms(4) show ?thesis
    by (simp add: parse_line_body_to_points_limited_def)
qed

text \<open>A serializer of one-byte points.\<close>

definition byte_points :: "u8 list serializer" where
  "byte_points = (Inr, Inr)"

lemma byte_points_read: "reads_back byte_points"
  by (simp add: reads_back_def byte_points_def)

theorem joined_frames_decode_witness:
  "parse_line_body_to_points_limited byte_points (\<lambda>_ _ _. Inr []) [0, 72, 66, 80, 1, 0, 0, 0, 7, 10, 0, 72, 66, 80, 1, 0, 0, 0, 8] None 2 = Inr [7, 8]
   \<and> parse_line_body_to_points_limited byte_points (\<lambda>_ _ _. Inr []) [0, 72, 66, 80, 1, 0, 0, 0, 7, 10, 0, 72, 66, 80, 1, 0, 0, 0, 8] None 1 = Inl (TooManyPoints 1)"
proof -
  have "list_all2 (\<lambda>points frame. encode_points_binary byte_points points = Inr frame)
      [[7], [8]] [[0, 72, 66, 80, 1, 0, 0, 0, 7], [0, 72, 66, 80, 1, 0, 0, 0, 8]]"
    by (simp add: encode_points_binary_def byte_points_def wrap_err_def points_frame_magic_def le_bytes_def digits_be_def upt_rec)
  from joined_frames_decode [OF byte_points_read this, of 2 _ None] joined_frames_decode [OF byte_points_read this, of 1 _ None]
  show ?thesis by simp
qed

end
