(* ===== verification/Hint_Codec.thy ===== *)
theory Hint_Codec
  imports Wal_Codec
begin

text \<open>
  The on-disk format of a hinted write (\<open>domain/cluster/replication_wire.rs\<close>): a magic number, the
  names with 32-bit lengths, a flagged precision with a 16-bit length, and the body with a 64-bit
  length. Shown: a hint reads back as it was written, up to an empty precision; no proper prefix of
  a written hint is read as a hint; and what the unchecked addition of the body length does.
\<close>

section \<open>Payload and writer\<close>

record hint_payload =
  hint_database :: string
  hint_retention_policy :: string
  hint_precision :: "string option"
  hint_line_body :: "u8 list"

text \<open>The errors of the codec, the store's, and the panic of an index out of range.\<close>

datatype hint_error =
    HintTooLong string
  | HintBadMagic
  | HintTruncated string
  | HintNotUtf8
  | HintBadPrecisionFlag
  | HintPanic
  | HintCfMissing
  | HintQueueFull u64 u64 u64
  | HintStore string

definition hh_magic :: "u8 list" where
  "hh_magic = as_bytes ''CFh1''"

definition encode_hint_value :: "hint_payload \<Rightarrow> hint_error + u8 list" where
  "encode_hint_value p =
     (let db = as_bytes (hint_database p);
          rp = as_bytes (hint_retention_policy p);
          prec = (case hint_precision p of Some s \<Rightarrow> as_bytes s | None \<Rightarrow> []);
          body = hint_line_body p
      in if 2 ^ 32 - 1 < length db \<or> 2 ^ 32 - 1 < length rp then Inl (HintTooLong ''db/rp name'')
         else if 2 ^ 16 - 1 < length prec then Inl (HintTooLong ''precision'')
         else if 2 ^ 64 - 1 < length body then Inl (HintTooLong ''body'')
         else Inr (hh_magic @ le_bytes 4 (length db) @ db @ le_bytes 4 (length rp) @ rp
                   @ (if prec = [] then [0] else [1] @ le_bytes 2 (length prec) @ prec)
                   @ le_bytes 8 (length body) @ body))"

section \<open>Reader\<close>

text \<open>
  A cursor is the bytes that are left. A field that needs more bytes than are left is an error. The
  end of a field is computed as \<open>i + len\<close> in \<open>usize\<close> before it is compared with the length of the
  value; a sum past \<open>2\<^sup>6\<^sup>4\<close> panics, in the addition or, where that wraps, in the slice.
\<close>

definition hint_take :: "string \<Rightarrow> nat \<Rightarrow> u8 list \<Rightarrow> hint_error + u8 list \<times> u8 list" where
  "hint_take what n bs = (if length bs < n then Inl (HintTruncated what) else Inr (take n bs, drop n bs))"

definition hint_number :: "nat \<Rightarrow> u8 list \<Rightarrow> hint_error + nat \<times> u8 list" where
  "hint_number k bs = and_then (hint_take ''length'' k bs) (\<lambda>(arr, bs). Inr (le_value arr, bs))"

definition hint_text :: "string \<Rightarrow> nat \<Rightarrow> u8 list \<Rightarrow> hint_error + string \<times> u8 list" where
  "hint_text what len_width bs =
     and_then (hint_number len_width bs) (\<lambda>(len, bs).
     and_then (hint_take what len bs) (\<lambda>(raw, bs).
       if utf8_valid raw then Inr (string_of_bytes raw, bs) else Inl HintNotUtf8))"

definition hint_flagged :: "u8 list \<Rightarrow> hint_error + string option \<times> u8 list" where
  "hint_flagged bs =
     (case bs of
        [] \<Rightarrow> Inl (HintTruncated ''flags'')
      | flag # bs \<Rightarrow>
          if flag = 0 then Inr (None, bs)
          else if flag = 1 then and_then (hint_text ''precision'' 2 bs) (\<lambda>(p, bs). Inr (Some p, bs))
          else Inl HintBadPrecisionFlag)"

definition hint_body :: "nat \<Rightarrow> u8 list \<Rightarrow> hint_error + u8 list \<times> u8 list" where
  "hint_body whole bs =
     and_then (hint_number 8 bs) (\<lambda>(len, bs).
       if 2 ^ 64 \<le> (whole - length bs) + len then Inl HintPanic else hint_take ''body'' len bs)"

definition read_hint :: "u8 list \<Rightarrow> hint_error + hint_payload \<times> u8 list" where
  "read_hint data =
     (if length data < 4 \<or> take 4 data \<noteq> hh_magic then Inl HintBadMagic
      else
        and_then (hint_text ''db'' 4 (drop 4 data)) (\<lambda>(database, bs).
        and_then (hint_text ''rp'' 4 bs) (\<lambda>(retention_policy, bs).
        and_then (hint_flagged bs) (\<lambda>(precision, bs).
        and_then (hint_body (length data) bs) (\<lambda>(line_body, bs).
          Inr (\<lparr>hint_database = database, hint_retention_policy = retention_policy,
                hint_precision = precision, hint_line_body = line_body\<rparr>, bs))))))"

definition decode_hint_value :: "u8 list \<Rightarrow> hint_error + hint_payload" where
  "decode_hint_value data = and_then (read_hint data) (\<lambda>(p, _). Inr p)"

section \<open>Reading back\<close>

text \<open>What is stored: an empty precision is written as none.\<close>

definition stored_hint :: "hint_payload \<Rightarrow> hint_payload" where
  "stored_hint p = p\<lparr>hint_precision := (if hint_precision p = Some [] then None else hint_precision p)\<rparr>"

text \<open>The strings of a payload are text; what else the writer asks is that the value fits in memory.\<close>

definition hint_text_ok :: "hint_payload \<Rightarrow> bool" where
  "hint_text_ok p \<longleftrightarrow> text_ok (hint_database p) \<and> text_ok (hint_retention_policy p)
     \<and> (case hint_precision p of Some s \<Rightarrow> text_ok s | None \<Rightarrow> True)"

lemma hint_number_append: "n < 256 ^ k \<Longrightarrow> hint_number k (le_bytes k n @ rest) = Inr (n, rest)"
  by (simp add: hint_number_def hint_take_def)

lemma as_bytes_length [simp]: "length (as_bytes s) = length s"
  by (simp add: as_bytes_def)

lemma hint_text_append:
  "text_ok s \<Longrightarrow> length s < 256 ^ k \<Longrightarrow>
   hint_text what k (le_bytes k (length s) @ as_bytes s @ rest) = Inr (s, rest)"
  by (simp add: hint_text_def hint_number_append hint_take_def text_ok_def)

lemma hint_flagged_append:
  assumes "case pr of Some s \<Rightarrow> text_ok s | None \<Rightarrow> True"
    and "length (case pr of Some s \<Rightarrow> as_bytes s | None \<Rightarrow> []) < 256 ^ 2"
  shows "hint_flagged ((if (case pr of Some s \<Rightarrow> as_bytes s | None \<Rightarrow> []) = [] then [0]
      else [1] @ le_bytes 2 (length (case pr of Some s \<Rightarrow> as_bytes s | None \<Rightarrow> []))
        @ (case pr of Some s \<Rightarrow> as_bytes s | None \<Rightarrow> [])) @ rest) =
    Inr (if pr = Some [] then None else pr, rest)"
  using assms hint_text_append [of "the pr" 2 "''precision''" rest]
  by (auto simp: hint_flagged_def split: option.splits) (auto simp: as_bytes_def)

lemma hint_body_append:
  "n + 8 + length body < 2 ^ 64 \<Longrightarrow> whole = n + 8 + length body + length rest \<Longrightarrow>
   hint_body whole (le_bytes 8 (length body) @ body @ rest) = Inr (body, rest)"
  by (simp add: hint_body_def hint_number_append hint_take_def)

lemma hh_magic_length [simp]: "length hh_magic = 4"
  by (simp add: hh_magic_def)

lemma read_encoded_hint:
  assumes ok: "hint_text_ok p" and enc: "encode_hint_value p = Inr bytes" and mem: "length bytes < 2 ^ 64"
  shows "read_hint bytes = Inr (stored_hint p, [])"
proof -
  let ?db = "as_bytes (hint_database p)" and ?rp = "as_bytes (hint_retention_policy p)"
  let ?prec = "case hint_precision p of Some s \<Rightarrow> as_bytes s | None \<Rightarrow> []" and ?body = "hint_line_body p"
  define fl where "fl = (if ?prec = [] then [0] else [1] @ le_bytes 2 (length ?prec) @ ?prec)"
  define tail where "tail = le_bytes 8 (length ?body) @ ?body @ []"
  have lens: "length (hint_database p) < 256 ^ 4" "length (hint_retention_policy p) < 256 ^ 4" "length ?prec < 256 ^ 2"
    and bytes: "bytes = hh_magic @ le_bytes 4 (length (hint_database p)) @ ?db
      @ le_bytes 4 (length (hint_retention_policy p)) @ ?rp @ fl @ tail"
    using enc by (auto simp: encode_hint_value_def Let_def fl_def tail_def split: if_splits)
  have texts: "text_ok (hint_database p)" "text_ok (hint_retention_policy p)"
    "case hint_precision p of Some s \<Rightarrow> text_ok s | None \<Rightarrow> True"
    using ok by (simp_all add: hint_text_ok_def)
  have "hint_flagged (fl @ tail) = Inr (if hint_precision p = Some [] then None else hint_precision p, tail)"
    unfolding fl_def by (rule hint_flagged_append [OF texts(3) lens(3)])
  moreover have "hint_body (length bytes) tail = Inr (?body, [])"
    unfolding tail_def
    by (rule hint_body_append [of "length bytes - 8 - length ?body"]) (use mem in \<open>simp_all add: bytes tail_def\<close>)
  moreover have "take 4 bytes = hh_magic" "\<not> length bytes < 4"
    "drop 4 bytes = le_bytes 4 (length (hint_database p)) @ ?db @ le_bytes 4 (length (hint_retention_policy p)) @ ?rp @ fl @ tail"
    by (simp_all add: bytes)
  ultimately show ?thesis
    by (simp add: read_hint_def hint_text_append [OF texts(1) lens(1)] hint_text_append [OF texts(2) lens(2)]
        stored_hint_def del: length_drop)
qed

lemma decode_encoded_hint:
  "hint_text_ok p \<Longrightarrow> encode_hint_value p = Inr bytes \<Longrightarrow> length bytes < 2 ^ 64 \<Longrightarrow>
   decode_hint_value bytes = Inr (stored_hint p)"
  by (simp add: decode_hint_value_def read_encoded_hint)

text \<open>
  A hint that was encoded decodes to the same database, retention policy, precision and
  body; only a precision that is present but empty comes back as absent.
\<close>

theorem hint_roundtrip:
  assumes "hint_text_ok p" and "encode_hint_value p = Inr bytes" and "length bytes < 2 ^ 64"
  shows "decode_hint_value bytes = Inr (stored_hint p)"
  by (rule decode_encoded_hint [OF assms])

section \<open>Truncated values\<close>

text \<open>A field read from a value reads the same from a longer one.\<close>

lemma hint_take_mono: "hint_take what n a = Inr (x, r) \<Longrightarrow> hint_take what n (a @ b) = Inr (x, r @ b)"
  by (auto simp: hint_take_def split: if_splits)

lemma hint_number_mono: "hint_number k a = Inr (x, r) \<Longrightarrow> hint_number k (a @ b) = Inr (x, r @ b)"
  by (auto simp: hint_number_def hint_take_mono elim!: and_then_InrE)

lemma hint_text_mono: "hint_text what k a = Inr (x, r) \<Longrightarrow> hint_text what k (a @ b) = Inr (x, r @ b)"
  by (auto simp: hint_text_def hint_number_mono hint_take_mono elim!: and_then_InrE split: if_splits)

lemma hint_flagged_mono: "hint_flagged a = Inr (x, r) \<Longrightarrow> hint_flagged (a @ b) = Inr (x, r @ b)"
  by (cases a) (auto simp: hint_flagged_def hint_text_mono elim!: and_then_InrE split: if_splits)

lemma hint_number_left: "hint_number k a = Inr (x, r) \<Longrightarrow> length r \<le> length a"
  by (auto simp: hint_number_def hint_take_def elim!: and_then_InrE split: if_splits)

lemma hint_body_mono:
  assumes "hint_body n a = Inr (x, r)" and "length a \<le> n"
  shows "hint_body (n + length b) (a @ b) = Inr (x, r @ b)"
proof -
  from assms(1) obtain len bs where num: "hint_number 8 a = Inr (len, bs)" and "\<not> 2 ^ 64 \<le> (n - length bs) + len"
    and "hint_take ''body'' len bs = Inr (x, r)"
    by (auto simp: hint_body_def elim!: and_then_InrE split: if_splits)
  then show ?thesis
    using hint_number_left [OF num] assms(2) hint_number_mono [OF num, of b] hint_take_mono [of "''body''" len bs x r b]
    by (simp add: hint_body_def)
qed

lemma hint_text_left: "hint_text what k a = Inr (x, r) \<Longrightarrow> length r \<le> length a"
  by (auto simp: hint_text_def hint_take_def dest!: hint_number_left elim!: and_then_InrE split: if_splits)

lemma hint_flagged_left: "hint_flagged a = Inr (x, r) \<Longrightarrow> length r \<le> length a"
  by (cases a) (auto simp: hint_flagged_def dest!: hint_text_left elim!: and_then_InrE split: if_splits)

lemma read_hint_mono:
  assumes "read_hint a = Inr (p, r)"
  shows "read_hint (a @ b) = Inr (p, r @ b)"
proof -
  have magic: "\<not> length a < 4" "take 4 a = hh_magic"
    using assms by (auto simp: read_hint_def split: if_splits)
  with assms obtain d b1 rp b2 pr b3 body where steps: "hint_text ''db'' 4 (drop 4 a) = Inr (d, b1)"
      "hint_text ''rp'' 4 b1 = Inr (rp, b2)" "hint_flagged b2 = Inr (pr, b3)" "hint_body (length a) b3 = Inr (body, r)"
    and p: "p = \<lparr>hint_database = d, hint_retention_policy = rp, hint_precision = pr, hint_line_body = body\<rparr>"
    by (auto simp: read_hint_def elim!: and_then_InrE)
  have "length b3 \<le> length a"
    using hint_text_left [OF steps(1)] hint_text_left [OF steps(2)] hint_flagged_left [OF steps(3)] by simp
  then show ?thesis
    using magic hint_text_mono [OF steps(1), of b] hint_text_mono [OF steps(2), of b]
      hint_flagged_mono [OF steps(3), of b] hint_body_mono [OF steps(4), of b]
    by (simp add: read_hint_def p)
qed

text \<open>
  A hint value that lost any number of bytes at its end is refused: no proper prefix of an
  encoded hint decodes to a payload.
\<close>

theorem truncated_hint_refused:
  assumes "hint_text_ok p" and "encode_hint_value p = Inr bytes" and "length bytes < 2 ^ 64" and "n < length bytes"
  shows "\<exists>e. decode_hint_value (take n bytes) = Inl e"
proof (cases "read_hint (take n bytes)")
  case (Inr res)
  then have "read_hint (take n bytes @ drop n bytes) = Inr (fst res, snd res @ drop n bytes)"
    by (intro read_hint_mono) simp
  with read_encoded_hint [OF assms(1-3)] have "drop n bytes = []" by simp
  then show ?thesis using assms(4) by simp
qed (simp add: decode_hint_value_def)

definition demo_hint :: hint_payload where
  "demo_hint = \<lparr>hint_database = ''db'', hint_retention_policy = ''rp'', hint_precision = Some ''ms'', hint_line_body = [109]\<rparr>"

definition demo_hint_bytes :: "u8 list" where
  "demo_hint_bytes = [67, 70, 104, 49, 2, 0, 0, 0, 100, 98, 2, 0, 0, 0, 114, 112, 1, 2, 0, 109, 115, 1, 0, 0, 0, 0, 0, 0, 0, 109]"

lemma demo_hint_encoded: "encode_hint_value demo_hint = Inr demo_hint_bytes" "hint_text_ok demo_hint"
  by (simp_all add: encode_hint_value_def demo_hint_def demo_hint_bytes_def as_bytes_def hh_magic_def le_bytes_def
      digits_be_def upt_rec of_char_def hint_text_ok_def text_ok_def)

theorem hint_roundtrip_witness: "decode_hint_value demo_hint_bytes = Inr demo_hint"
  using hint_roundtrip [OF demo_hint_encoded(2,1)] by (simp add: demo_hint_bytes_def stored_hint_def demo_hint_def)

theorem truncated_hint_refused_witness: "\<exists>e. decode_hint_value (take 29 demo_hint_bytes) = Inl e"
  using truncated_hint_refused [OF demo_hint_encoded(2,1), of 29] by (simp add: demo_hint_bytes_def)

text \<open>A body length close to \<open>2\<^sup>6\<^sup>4\<close> is not refused as truncated: computing its end panics.\<close>

theorem long_body_panics:
  "decode_hint_value (hh_magic @ [0, 0, 0, 0, 0, 0, 0, 0, 0] @ [255, 255, 255, 255, 255, 255, 255, 255]) = Inl HintPanic"
  by (simp add: decode_hint_value_def read_hint_def hint_text_def hint_number_def hint_take_def hint_flagged_def
      hint_body_def le_value_def digits_value_def hh_magic_def as_bytes_def of_char_def)

end
