(* ===== verification/Hinted_Handoff.thy ===== *)
theory Hinted_Handoff
  imports Hint_Codec Replication_Log
begin

text \<open>
  The queue of writes that could not be replicated to a peer
  (\<open>adapters/cluster/hinted_handoff.rs\<close>) and its replay (\<open>drain_hints_for_peer\<close> of
  \<open>adapters/cluster/peer_client.rs\<close>). The hints of all peers are rows of one column family, keyed
  by peer and by a number from one counter; the counter and the number of rows per peer are kept in
  memory and rebuilt by a scan when the node starts.

  The specification is one bounded first-in first-out queue per peer. With a store that acknowledges
  its writes, every run of enqueues, drains, counts and restarts gives the answers of the queues.
  The replay returns, delivers a prefix of the queue in order, and loses nothing; what it could not
  deliver of a batch goes behind the hints it had not read.
\<close>

section \<open>Keys\<close>

fun split_char :: "char \<Rightarrow> string \<Rightarrow> string list" where
  "split_char c [] = [[]]"
| "split_char c (x # xs) =
     (if x = c then [] # split_char c xs
      else case split_char c xs of [] \<Rightarrow> [[x]] | p # ps \<Rightarrow> (x # p) # ps)"

definition hh_key :: "u64 \<Rightarrow> u64 \<Rightarrow> string" where
  "hh_key peer_id s = ''hh:'' @ hex16 peer_id @ '':'' @ hex16 s"

definition hh_peer_prefix :: "u64 \<Rightarrow> string" where
  "hh_peer_prefix peer_id = ''hh:'' @ hex16 peer_id @ '':''"

definition peer_of_key :: "string \<Rightarrow> u64 option" where
  "peer_of_key k =
     (if \<not> text_ok k then None
      else case split_char CHR '':'' k of
          a # b # _ \<Rightarrow> if a = ''hh'' then from_str_radix 16 b else None
        | _ \<Rightarrow> None)"

section \<open>State and operations\<close>

text \<open>\<open>hh_cf\<close> tells whether the database has the column family \<open>hinted_handoff\<close>.\<close>

record 'd hinted_handoff =
  hh_db :: 'd
  hh_cf :: bool
  hh_seq :: u64
  max_hints_per_peer :: u64
  hint_counts :: "(u64, u64) hash_map"

definition count_of :: "(u64, u64) hash_map \<Rightarrow> u64 \<Rightarrow> u64" where
  "count_of counts peer_id = (case hm_get counts peer_id of Some c \<Rightarrow> c | None \<Rightarrow> 0)"

definition scan_hint_row :: "string \<times> 'b \<Rightarrow> u64 \<times> (u64, u64) hash_map \<Rightarrow> u64 \<times> (u64, u64) hash_map" where
  "scan_hint_row row acc =
     (let k = fst row;
          counts = (case peer_of_key k of
              Some peer \<Rightarrow> hm_insert peer (count_of (snd acc) peer + 1) (snd acc)
            | None \<Rightarrow> snd acc);
          mx = (if text_ok k
                then case from_str_radix 16 (last (split_char CHR '':'' k)) of Some s \<Rightarrow> max (fst acc) s | None \<Rightarrow> fst acc
                else fst acc)
      in (mx, counts))"

definition new_handoff :: "('d, string, u8 list) rocks \<Rightarrow> bool \<Rightarrow> 'd \<Rightarrow> u64 \<Rightarrow> hint_error + 'd hinted_handoff" where
  "new_handoff kv cf d max_hints =
     (if \<not> cf then Inl HintCfMissing
      else let (max_seq, counts) = fold scan_hint_row (scan_prefix kv d ''hh:'') (0, [])
           in Inr \<lparr>hh_db = d, hh_cf = cf, hh_seq = max_seq, max_hints_per_peer = max_hints, hint_counts = counts\<rparr>)"

definition release_hints :: "'d hinted_handoff \<Rightarrow> u64 \<Rightarrow> u64 \<Rightarrow> 'd hinted_handoff" where
  "release_hints hh peer_id n =
     (if n = 0 then hh
      else case hm_get (hint_counts hh) peer_id of
          Some c \<Rightarrow> hh\<lparr>hint_counts := hm_insert peer_id (saturating_sub c n) (hint_counts hh)\<rparr>
        | None \<Rightarrow> hh)"

text \<open>The slot is reserved before the row is put, and released when the put fails.\<close>

definition enqueue_hint :: "('d, string, u8 list) rocks \<Rightarrow> 'd hinted_handoff \<Rightarrow> u64 \<Rightarrow> hint_payload
    \<Rightarrow> 'd hinted_handoff \<times> (hint_error + unit)" where
  "enqueue_hint kv hh peer_id payload =
     (if \<not> hh_cf hh then (hh, Inl HintCfMissing)
      else
        let count = count_of (hint_counts hh) peer_id;
            cap = max_hints_per_peer hh
        in if 0 < cap \<and> cap \<le> count then
             (hh\<lparr>hint_counts := hm_insert peer_id count (hint_counts hh)\<rparr>, Inl (HintQueueFull peer_id count cap))
           else
             let s = hh_seq hh + 1;
                 hh = hh\<lparr>hint_counts := hm_insert peer_id (count + 1) (hint_counts hh), hh_seq := s\<rparr>
             in case encode_hint_value payload of
                  Inl e \<Rightarrow> (release_hints hh peer_id 1, Inl e)
                | Inr v \<Rightarrow>
                    (case rdb_write kv (hh_db hh) [Put (hh_key peer_id s) v] of
                       (d, Inl e) \<Rightarrow> (release_hints (hh\<lparr>hh_db := d\<rparr>) peer_id 1, Inl (HintStore e))
                     | (d, Inr _) \<Rightarrow> (hh\<lparr>hh_db := d\<rparr>, Inr ())))"

text \<open>Items the iterator could not read are passed over; a row that does not decode is deleted too.\<close>

fun read_hints :: "nat \<Rightarrow> string \<Rightarrow> (string + string \<times> u8 list) list \<Rightarrow> hint_payload list \<Rightarrow> string list
    \<Rightarrow> hint_error + hint_payload list \<times> string list" where
  "read_hints batch_size prefix [] results keys = Inr (results, keys)"
| "read_hints batch_size prefix (item # items) results keys =
     (if batch_size \<le> length results then Inr (results, keys)
      else case item of
          Inl _ \<Rightarrow> read_hints batch_size prefix items results keys
        | Inr (k, v) \<Rightarrow>
            if \<not> starts_with k prefix then Inr (results, keys)
            else case decode_hint_value v of
                Inr rec \<Rightarrow> read_hints batch_size prefix items (results @ [rec]) (keys @ [k])
              | Inl e \<Rightarrow>
                  if e = HintPanic then Inl HintPanic
                  else read_hints batch_size prefix items results (keys @ [k]))"

fun delete_hints :: "('d, string, u8 list) rocks \<Rightarrow> 'd \<Rightarrow> string list \<Rightarrow> u64 \<Rightarrow> 'd \<times> u64" where
  "delete_hints kv d [] deleted = (d, deleted)"
| "delete_hints kv d (k # ks) deleted =
     (case rdb_write kv d [Delete k] of
        (d, Inr _) \<Rightarrow> delete_hints kv d ks (deleted + 1)
      | (d, Inl _) \<Rightarrow> delete_hints kv d ks deleted)"

definition drain_hints :: "('d, string, u8 list) rocks \<Rightarrow> 'd hinted_handoff \<Rightarrow> u64 \<Rightarrow> nat
    \<Rightarrow> 'd hinted_handoff \<times> (hint_error + hint_payload list)" where
  "drain_hints kv hh peer_id batch_size =
     (if \<not> hh_cf hh then (hh, Inl HintCfMissing)
      else
        let prefix = hh_peer_prefix peer_id
        in case read_hints batch_size prefix (rdb_iter_from kv (hh_db hh) prefix) [] [] of
             Inl e \<Rightarrow> (hh, Inl e)
           | Inr (results, keys) \<Rightarrow>
               let (d, deleted) = delete_hints kv (hh_db hh) keys 0
               in (release_hints (hh\<lparr>hh_db := d\<rparr>) peer_id deleted, Inr results))"

definition pending_count :: "'d hinted_handoff \<Rightarrow> u64 \<Rightarrow> u64" where
  "pending_count hh peer_id = count_of (hint_counts hh) peer_id"

definition total_pending :: "'d hinted_handoff \<Rightarrow> u64" where
  "total_pending hh = sum_list (hm_values (hint_counts hh))"

section \<open>Replay\<close>

text \<open>
  \<open>answers\<close> tells which request of the replay the peer answers with success; \<open>sent\<close> collects the
  hints that were acknowledged, so that its length is \<open>total_replayed\<close>. The first request without
  success ends the replay: the hint and the rest of its batch are queued again, and a failure to
  queue one is logged and ignored. \<open>None\<close> is a replay that does not end.
\<close>

fun post_batch :: "(nat \<Rightarrow> bool) \<Rightarrow> hint_payload list \<Rightarrow> hint_payload list \<Rightarrow> hint_payload list \<times> hint_payload list" where
  "post_batch answers sent [] = (sent, [])"
| "post_batch answers sent (h # batch) =
     (if answers (length sent) then post_batch answers (sent @ [h]) batch else (sent, h # batch))"

definition enqueue_again :: "('d, string, u8 list) rocks \<Rightarrow> u64 \<Rightarrow> hint_payload list \<Rightarrow> 'd hinted_handoff \<Rightarrow> 'd hinted_handoff" where
  "enqueue_again kv peer_id hints hh = fold (\<lambda>h hh. fst (enqueue_hint kv hh peer_id h)) hints hh"

partial_function (option) replay_loop ::
    "('d, string, u8 list) rocks \<Rightarrow> (nat \<Rightarrow> bool) \<Rightarrow> u64 \<Rightarrow> 'd hinted_handoff \<Rightarrow> hint_payload list
      \<Rightarrow> ('d hinted_handoff \<times> hint_payload list) option" where
  "replay_loop kv answers peer_id hh sent =
     (case drain_hints kv hh peer_id 100 of
        (hh, Inl _) \<Rightarrow> Some (hh, sent)
      | (hh, Inr batch) \<Rightarrow>
          if batch = [] then Some (hh, sent)
          else case post_batch answers sent batch of
              (sent, []) \<Rightarrow> replay_loop kv answers peer_id hh sent
            | (sent, rest) \<Rightarrow> Some (enqueue_again kv peer_id rest hh, sent))"

definition drain_hints_for_peer ::
    "('d, string, u8 list) rocks \<Rightarrow> (nat \<Rightarrow> bool) \<Rightarrow> cluster_membership \<Rightarrow> 'd hinted_handoff option \<Rightarrow> u64
      \<Rightarrow> ('d hinted_handoff option \<times> hint_payload list) option" where
  "drain_hints_for_peer kv answers m hinted_handoff peer_id =
     (case hinted_handoff of
        None \<Rightarrow> Some (None, [])
      | Some hh \<Rightarrow>
          (case get_node m peer_id of
             None \<Rightarrow> Some (Some hh, [])
           | Some _ \<Rightarrow> map_option (\<lambda>(hh, sent). (Some hh, sent)) (replay_loop kv answers peer_id hh [])))"

declare replay_loop.simps [code]

section \<open>Keys and scans\<close>

lemma split_char_end: "c \<notin> set a \<Longrightarrow> split_char c a = [a]"
  by (induction a) auto

lemma split_char_append: "c \<notin> set a \<Longrightarrow> split_char c (a @ c # b) = a # split_char c b"
  by (induction a) auto

lemma hex16_chars:
  assumes "c \<in> set (hex16 x)"
  shows "c \<noteq> CHR '':''" and "of_char c < (128 :: nat)"
proof -
  from assms obtain d where d: "d < 16" and c: "c = digit_char d"
    by (auto simp: hex16_def dest: digits_be_bound [rotated])
  from of_digit_char [OF d] d c show "of_char c < (128 :: nat)" by (simp split: if_splits)
  show "c \<noteq> CHR '':''" using of_digit_char [OF d] d c by (auto split: if_splits)
qed

lemma hex16_length [simp]: "length (hex16 x) = 16"
  by (simp add: hex16_def)

lemma ascii_text_ok: "\<forall>c\<in>set s. of_char c < (128 :: nat) \<Longrightarrow> text_ok s"
proof (induction s)
  case (Cons c s)
  have "(of_char c :: u8) = word_of_nat (of_char c)" by (simp add: of_char_def)
  then have "(of_char c :: u8) < 0x80"
    using Cons.prems by (simp add: word_less_nat_alt unsigned_of_nat take_bit_eq_mod)
  with Cons show ?case by (simp add: text_ok_def as_bytes_def)
qed (simp add: text_ok_def as_bytes_def)

lemma hh_key_text_ok [simp]: "text_ok (hh_key p s)"
  by (rule ascii_text_ok) (auto simp: hh_key_def dest: hex16_chars(2))

lemma split_hh_key: "split_char CHR '':'' (hh_key p s) = [''hh'', hex16 p, hex16 s]"
proof -
  have p: "CHR '':'' \<notin> set (hex16 p)" and s: "CHR '':'' \<notin> set (hex16 s)" using hex16_chars(1) by blast+
  from split_char_append [OF p, of "hex16 s"] split_char_end [OF s] show ?thesis by (simp add: hh_key_def)
qed

lemma peer_of_hh_key [simp]: "peer_of_key (hh_key p s) = Some p"
  by (simp add: peer_of_key_def split_hh_key)

lemma hh_key_prefixes [simp]:
  "starts_with (hh_key p s) ''hh:''" "starts_with (hh_key p s) (hh_peer_prefix p') \<longleftrightarrow> p = p'"
  by (auto simp: starts_with_def hh_key_def hh_peer_prefix_def)

lemma hh_key_order [simp]: "hh_key p s < hh_key p s' \<longleftrightarrow> s < s'" "hh_key p s = hh_key p' s' \<longleftrightarrow> p = p' \<and> s = s'"
proof -
  show "hh_key p s < hh_key p s' \<longleftrightarrow> s < s'"
    using append_less_append [of "''hh:'' @ hex16 p @ '':''" "hex16 s" "hex16 s'"] by (simp add: hh_key_def)
  show "hh_key p s = hh_key p' s' \<longleftrightarrow> p = p' \<and> s = s'" by (auto simp: hh_key_def)
qed

lemma peer_prefix_hh: "starts_with k (hh_peer_prefix p) \<Longrightarrow> starts_with k ''hh:''"
  by (cases k; cases "tl k"; cases "tl (tl k)") (auto simp: starts_with_def hh_peer_prefix_def)

lemma scan_prefix_eqI:
  fixes p :: "'a::linorder list"
  assumes "rocks_laws kv rows" and "sorted_wrt (<) (map fst xs)"
    and "set xs = {(k, v). rows d k = Some v \<and> starts_with k p}"
  shows "scan_prefix kv d p = xs"
proof (rule map_sorted_distinct_set_unique [of fst])
  show "set (scan_prefix kv d p) = set xs" using scan_prefix_rows(1) [OF assms(1)] assms(3) by simp
  then show "inj_on fst (set (scan_prefix kv d p) \<union> set xs)"
    using assms(2) by (simp add: strict_sorted_iff distinct_map)
qed (use scan_prefix_rows(2) [OF assms(1)] assms(2) in \<open>auto simp: strict_sorted_iff\<close>)

section \<open>One queue per peer\<close>

text \<open>A store that acknowledges every write.\<close>

definition rocks_reliable :: "('d, 'k, 'b) rocks \<Rightarrow> bool" where
  "rocks_reliable kv \<longleftrightarrow> (\<forall>d ops. \<exists>d'. rdb_write kv d ops = (d', Inr ()))"

lemma reliable_write:
  assumes "rocks_reliable kv" and "rocks_laws kv rows"
  obtains d' where "rdb_write kv d ops = (d', Inr ())" and "rows d' = fold batch_effect ops (rows d)"
  using assms rdb_write_rows [OF assms(2)] unfolding rocks_reliable_def by metis

definition hint_rows :: "('d, string, u8 list) rocks \<Rightarrow> 'd \<Rightarrow> u64 \<Rightarrow> (string \<times> u8 list) list" where
  "hint_rows kv d p = scan_prefix kv d (hh_peer_prefix p)"

text \<open>
  \<open>hh_rel\<close>: the rows of a peer decode to its queue in order, the counters are the lengths of the
  queues, and no row has a number above the counter. \<open>n\<close> bounds the numbers used so far.
\<close>

definition hh_rel ::
    "('d, string, u8 list) rocks \<Rightarrow> ('d \<Rightarrow> string \<Rightarrow> u8 list option) \<Rightarrow> nat \<Rightarrow> 'd hinted_handoff \<Rightarrow> (u64 \<Rightarrow> hint_payload list) \<Rightarrow> bool" where
  "hh_rel kv rows n hh q \<longleftrightarrow> hh_cf hh \<and> hm_wf (hint_counts hh)
     \<and> (\<forall>k v. rows (hh_db hh) k = Some v \<longrightarrow> starts_with k ''hh:'' \<longrightarrow> (\<exists>p s. k = hh_key p s \<and> s \<le> hh_seq hh))
     \<and> (\<forall>p. map (\<lambda>(k, v). decode_hint_value v) (hint_rows kv (hh_db hh) p) = map Inr (q p))
     \<and> (\<forall>p. unat (count_of (hint_counts hh) p) = length (q p))
     \<and> unat (hh_seq hh) \<le> n \<and> (\<forall>p. length (q p) \<le> n)"

lemma hh_relD:
  assumes "hh_rel kv rows n hh q"
  shows "hh_cf hh" "hm_wf (hint_counts hh)"
    "rows (hh_db hh) k = Some v \<Longrightarrow> starts_with k ''hh:'' \<Longrightarrow> \<exists>p s. k = hh_key p s \<and> s \<le> hh_seq hh"
    "map (\<lambda>(k, v). decode_hint_value v) (hint_rows kv (hh_db hh) p) = map Inr (q p)"
    "unat (count_of (hint_counts hh) p) = length (q p)"
    "unat (hh_seq hh) \<le> n" "length (q p) \<le> n"
  using assms unfolding hh_rel_def by blast+

lemma hint_rows_set:
  "rocks_laws kv rows \<Longrightarrow> set (hint_rows kv d p) = {(k, v). rows d k = Some v \<and> starts_with k (hh_peer_prefix p)}"
  by (simp add: hint_rows_def scan_prefix_rows(1))

lemma hint_rows_key:
  assumes "rocks_laws kv rows" and "hh_rel kv rows n hh q" and "(k, v) \<in> set (hint_rows kv (hh_db hh) p)"
  obtains s where "k = hh_key p s" and "s \<le> hh_seq hh"
proof -
  have "rows (hh_db hh) k = Some v" and sw: "starts_with k (hh_peer_prefix p)"
    using assms(3) hint_rows_set [OF assms(1)] by auto
  with hh_relD(3) [OF assms(2)] peer_prefix_hh [OF sw] obtain p' s where "k = hh_key p' s" "s \<le> hh_seq hh" by blast
  with sw that show thesis by auto
qed

lemma count_of_insert [simp]:
  "hm_wf m \<Longrightarrow> count_of (hm_insert p c m) p' = (if p' = p then c else count_of m p')"
  by (simp add: count_of_def hm.get_ins)

text \<open>A row with a new number is the last of its peer's rows.\<close>

lemma put_hint_rows:
  assumes laws: "rocks_laws kv rows" and rel: "hh_rel kv rows n hh q" and new: "hh_seq hh < s"
    and rows': "rows d' = (rows (hh_db hh))(hh_key p s := Some v)"
  shows "hint_rows kv d' p' = hint_rows kv (hh_db hh) p' @ (if p' = p then [(hh_key p s, v)] else [])"
  unfolding hint_rows_def [of kv d']
proof (rule scan_prefix_eqI [OF laws])
  have old: "k < hh_key p s \<and> k \<noteq> hh_key p s" if "(k, w) \<in> set (hint_rows kv (hh_db hh) p)" for k w
  proof -
    from hint_rows_key [OF laws rel that] obtain s' where "k = hh_key p s'" "s' \<le> hh_seq hh" .
    with new show ?thesis by auto
  qed
  moreover have "sorted_wrt (<) (map fst (hint_rows kv (hh_db hh) p'))"
    by (simp add: hint_rows_def scan_prefix_rows(2) [OF laws])
  ultimately show "sorted_wrt (<) (map fst (hint_rows kv (hh_db hh) p' @ (if p' = p then [(hh_key p s, v)] else [])))"
    by (cases "p' = p") (auto simp: sorted_wrt_append simp del: hh_key_order)
  have "hh_key p s \<notin> fst ` set (hint_rows kv (hh_db hh) p)" using old by force
  then have none: "rows (hh_db hh) (hh_key p s) = None"
    using hint_rows_set [OF laws, of "hh_db hh" p] by (cases "rows (hh_db hh) (hh_key p s)") force+
  show "set (hint_rows kv (hh_db hh) p' @ (if p' = p then [(hh_key p s, v)] else [])) =
      {(k, w). rows d' k = Some w \<and> starts_with k (hh_peer_prefix p')}"
    using none by (auto simp: hint_rows_set [OF laws] rows' split: if_splits)
qed

lemma hint_rows_length: "hh_rel kv rows n hh q \<Longrightarrow> length (hint_rows kv (hh_db hh) p) = length (q p)"
  using hh_relD(4) [of kv rows n hh q p] by (metis length_map)

lemma word_inc:
  fixes x :: u64
  assumes "unat x < 2 ^ 64 - 1"
  shows "unat (x + 1) = unat x + 1" and "x < x + 1"
proof -
  have "x \<noteq> - 1" using assms by (auto simp: unsigned_minus_1_eq_mask mask_eq_exp_minus_1)
  then show "x < x + 1" by (rule word_succ_gt)
  have "1 + x \<noteq> 0" using \<open>x \<noteq> - 1\<close> by (metis add.commute add_eq_0_iff)
  then show "unat (x + 1) = unat x + 1" using unatSuc [of x] by (simp add: add.commute)
qed

text \<open>What an event may ask to queue: text, and a value that fits in memory.\<close>

definition hint_fits :: "hint_payload \<Rightarrow> bool" where
  "hint_fits h \<longleftrightarrow> hint_text_ok h \<and> (\<forall>v. encode_hint_value h = Inr v \<longrightarrow> length v < 2 ^ 64)"

definition queue_full :: "u64 \<Rightarrow> hint_payload list \<Rightarrow> bool" where
  "queue_full cap hs = (0 < cap \<and> unat cap \<le> length hs)"

definition spec_enqueue :: "u64 \<Rightarrow> u64 \<Rightarrow> hint_payload \<Rightarrow> (u64 \<Rightarrow> hint_payload list)
    \<Rightarrow> (u64 \<Rightarrow> hint_payload list) \<times> (hint_error + unit)" where
  "spec_enqueue cap p h q =
     (if queue_full cap (q p) then (q, Inl (HintQueueFull p (word_of_nat (length (q p))) cap))
      else case encode_hint_value h of
          Inl e \<Rightarrow> (q, Inl e)
        | Inr _ \<Rightarrow> (q(p := q p @ [stored_hint h]), Inr ()))"

lemma hh_rel_frame:
  assumes rel: "hh_rel kv rows n hh q" and db: "hh_db hh' = hh_db hh" "hh_cf hh' = hh_cf hh" "hm_wf (hint_counts hh')"
    and s: "hh_seq hh \<le> hh_seq hh'" "unat (hh_seq hh') \<le> n'" "n \<le> n'"
    and c: "\<And>p. count_of (hint_counts hh') p = count_of (hint_counts hh) p"
  shows "hh_rel kv rows n' hh' q"
proof -
  have "\<exists>p s. k = hh_key p s \<and> s \<le> hh_seq hh'" if "rows (hh_db hh) k = Some v" "starts_with k ''hh:''" for k v
    using hh_relD(3) [OF rel that] s(1) order_trans by blast
  moreover have "length (q p) \<le> n'" for p using hh_relD(7) [OF rel, of p] s(3) by simp
  ultimately show ?thesis
    using hh_relD(1,4,5) [OF rel] db s(2) c unfolding hh_rel_def by simp
qed

lemma release_one:
  assumes "hm_wf m" and "hint_counts hh = hm_insert p (c + 1) m" and "c < c + 1"
  shows "release_hints hh p 1 = hh\<lparr>hint_counts := hm_insert p c (hint_counts hh)\<rparr>"
proof -
  have "(1 :: u64) \<le> c + 1" using assms(3) by (metis word_le_nat_alt unat_1 Suc_leI One_nat_def word_gt_0 less_irrefl not_gr_zero unat_gt_0 word_not_simps(1))
  then show ?thesis using assms(1,2) by (simp add: release_hints_def hm.get_ins saturating_sub_def)
qed

lemma put_hint_rel:
  assumes laws: "rocks_laws kv rows" and rel: "hh_rel kv rows n hh q" and new: "hh_seq hh < hh_seq hh'" "unat (hh_seq hh') \<le> Suc n"
    and cf: "hh_cf hh'" "hm_wf (hint_counts hh')"
    and rows': "rows (hh_db hh') = (rows (hh_db hh))(hh_key p (hh_seq hh') := Some v)" and dec: "decode_hint_value v = Inr h"
    and counts: "\<And>p'. unat (count_of (hint_counts hh') p') = length ((q(p := q p @ [h])) p')"
  shows "hh_rel kv rows (Suc n) hh' (q(p := q p @ [h]))"
proof -
  note d = hh_relD [OF rel]
  have "\<exists>p s. k = hh_key p s \<and> s \<le> hh_seq hh'" if k: "rows (hh_db hh') k = Some w" "starts_with k ''hh:''" for k w
  proof (cases "k = hh_key p (hh_seq hh')")
    case False
    with k rows' have "rows (hh_db hh) k = Some w" by simp
    from d(3) [OF this k(2)] obtain p' s where "k = hh_key p' s" "s \<le> hh_seq hh" by blast
    with new(1) show ?thesis by (intro exI conjI) (assumption, simp)
  qed blast
  moreover have "map (\<lambda>(k, v). decode_hint_value v) (hint_rows kv (hh_db hh') p') = map Inr ((q(p := q p @ [h])) p')" for p'
    using put_hint_rows [OF laws rel new(1) rows', of p'] d(4) [of p'] dec by auto
  moreover have "length ((q(p := q p @ [h])) p') \<le> Suc n" for p' using d(7) [of p'] d(7) [of p] by auto
  ultimately show ?thesis using cf counts new(2) unfolding hh_rel_def by blast
qed

lemma enqueue_hint_rel:
  fixes p :: u64
  assumes laws: "rocks_laws kv rows" and store: "rocks_reliable kv" and rel: "hh_rel kv rows n hh q"
    and fits: "hint_fits h" and n: "n < 2 ^ 64 - 1"
  defines "spec \<equiv> spec_enqueue (max_hints_per_peer hh) p h q"
  shows "\<exists>hh'. enqueue_hint kv hh p h = (hh', snd spec) \<and> hh_rel kv rows (Suc n) hh' (fst spec)
    \<and> max_hints_per_peer hh' = max_hints_per_peer hh"
proof -
  define c s where "c = count_of (hint_counts hh) p" and "s = hh_seq hh + 1"
  note d = hh_relD [OF rel]
  have full: "queue_full (max_hints_per_peer hh) (q p) \<longleftrightarrow> 0 < max_hints_per_peer hh \<and> max_hints_per_peer hh \<le> c"
    using d(5) [of p] by (simp add: queue_full_def word_le_nat_alt c_def)
  have cq: "c = word_of_nat (length (q p))" using d(5) [of p, symmetric] by (simp add: c_def)
  have ns: "unat (hh_seq hh) < 2 ^ 64 - 1" and nc: "unat c < 2 ^ 64 - 1" using d(5) [of p] d(6) d(7) [of p] n by (simp_all add: c_def)
  note s1 = word_inc [OF ns, folded s_def] and c1 = word_inc [OF nc]
  have s_le: "hh_seq hh \<le> s" "unat s \<le> Suc n" using s1 d(6) by simp_all
  show ?thesis
  proof (cases "queue_full (max_hints_per_peer hh) (q p)")
    case True
    let ?hh = "hh\<lparr>hint_counts := hm_insert p c (hint_counts hh)\<rparr>"
    have "enqueue_hint kv hh p h = (?hh, snd spec)"
      using True full d(1) by (simp add: enqueue_hint_def spec_def spec_enqueue_def Let_def flip: c_def) (simp add: cq)
    moreover have "hh_rel kv rows (Suc n) ?hh q"
      by (rule hh_rel_frame [OF rel]) (use d(2,6) in \<open>auto simp: hm.wf_ins c_def\<close>)
    ultimately show ?thesis using True by (simp add: spec_def spec_enqueue_def)
  next
    case False
    let ?hh1 = "hh\<lparr>hint_counts := hm_insert p (c + 1) (hint_counts hh), hh_seq := s\<rparr>"
    show ?thesis
    proof (cases "encode_hint_value h")
      case (Inl e)
      let ?hh = "?hh1\<lparr>hint_counts := hm_insert p c (hint_counts ?hh1)\<rparr>"
      have "enqueue_hint kv hh p h = (?hh, snd spec)"
        using False full d(1) Inl release_one [of "hint_counts hh" ?hh1 p c] d(2) c1
        by (auto simp: enqueue_hint_def spec_def spec_enqueue_def Let_def simp flip: c_def s_def)
      moreover have "hh_rel kv rows (Suc n) ?hh q"
        by (rule hh_rel_frame [OF rel]) (use d(2) s_le in \<open>auto simp: hm.wf_ins c_def\<close>)
      ultimately show ?thesis using False Inl by (simp add: spec_def spec_enqueue_def)
    next
      case (Inr v)
      obtain d' where w: "rdb_write kv (hh_db hh) [Put (hh_key p s) v] = (d', Inr ())"
        and rows': "rows d' = (rows (hh_db hh))(hh_key p s := Some v)"
        by (rule reliable_write [OF store laws, of "hh_db hh" "[Put (hh_key p s) v]"]) simp
      let ?hh = "?hh1\<lparr>hh_db := d'\<rparr>"
      have "enqueue_hint kv hh p h = (?hh, snd spec)"
        using False full d(1) Inr w by (auto simp: enqueue_hint_def spec_def spec_enqueue_def Let_def simp flip: c_def s_def)
      moreover have "hh_rel kv rows (Suc n) ?hh (q(p := q p @ [stored_hint h]))"
      proof (rule put_hint_rel [OF laws rel])
        show "decode_hint_value v = Inr (stored_hint h)"
          using fits Inr decode_encoded_hint [of h v] by (simp add: hint_fits_def)
        show "unat (count_of (hint_counts ?hh) p') = length ((q(p := q p @ [stored_hint h])) p')" for p'
          using d(2) d(5) [of p'] d(5) [of p] c1(1) by (simp add: c_def)
      qed (use d(1,2) s1(2) s_le(2) rows' in \<open>simp_all add: hm.wf_ins\<close>)
      ultimately show ?thesis using False Inr by (simp add: spec_def spec_enqueue_def)
    qed
  qed
qed

lemma read_hints_rows:
  assumes "map (\<lambda>(k, v). decode_hint_value v) (takeWhile (\<lambda>(k, _). starts_with k prefix) items) = map Inr hs"
  shows "read_hints n prefix (map Inr items) results keys =
    Inr (results @ take (n - length results) hs,
         keys @ map fst (take (n - length results) (takeWhile (\<lambda>(k, _). starts_with k prefix) items)))"
  using assms
proof (induction items arbitrary: results keys hs)
  case (Cons item items)
  obtain k v where item: "item = (k, v)" by fastforce
  show ?case
  proof (cases "starts_with k prefix \<and> length results < n")
    case True
    with Cons.prems item obtain h hs' where h: "hs = h # hs'" "decode_hint_value v = Inr h"
      "map (\<lambda>(k, v). decode_hint_value v) (takeWhile (\<lambda>(k, _). starts_with k prefix) items) = map Inr hs'"
      by (auto simp: map_eq_Cons_conv)
    have "n - length results = Suc (n - Suc (length results))" using True by arith
    with True item h(1,2) Cons.IH [OF h(3), of "results @ [h]" "keys @ [k]"] show ?thesis by simp
  next
    case False
    with Cons.prems item show ?thesis by auto
  qed
qed simp

lemma delete_hints_rows:
  assumes laws: "rocks_laws kv rows" and store: "rocks_reliable kv"
  shows "\<exists>d'. delete_hints kv d ks c = (d', c + word_of_nat (length ks))
    \<and> rows d' = (\<lambda>k. if k \<in> set ks then None else rows d k)"
proof (induction ks arbitrary: d c)
  case (Cons k ks)
  obtain d1 where w: "rdb_write kv d [Delete k] = (d1, Inr ())" and r1: "rows d1 = (rows d)(k := None)"
    by (rule reliable_write [OF store laws, of d "[Delete k]"]) simp
  from Cons.IH [of d1 "c + 1"] obtain d' where "delete_hints kv d1 ks (c + 1) = (d', c + 1 + word_of_nat (length ks))"
    "rows d' = (\<lambda>k. if k \<in> set ks then None else rows d1 k)" by blast
  with w r1 show ?case by (auto simp: fun_eq_iff add.assoc)
qed simp

lemma deleted_hint_rows:
  assumes laws: "rocks_laws kv rows" and rel: "hh_rel kv rows n hh q"
    and rows': "rows d' = (\<lambda>k. if k \<in> fst ` set (take m (hint_rows kv (hh_db hh) p)) then None else rows (hh_db hh) k)"
  shows "hint_rows kv d' p' = (if p' = p then drop m (hint_rows kv (hh_db hh) p) else hint_rows kv (hh_db hh) p')"
proof -
  let ?L = "hint_rows kv (hh_db hh) p"
  have sorted: "sorted_wrt (<) (map fst (hint_rows kv (hh_db hh) p'))" for p'
    by (simp add: hint_rows_def scan_prefix_rows(2) [OF laws])
  have L: "set (take m ?L) \<union> set (drop m ?L) = set ?L" by (metis append_take_drop_id set_append)
  have dist: "fst ` set (take m ?L) \<inter> fst ` set (drop m ?L) = {}"
  proof -
    have "distinct (map fst (take m ?L @ drop m ?L))"
      unfolding append_take_drop_id using sorted [of p] by (simp add: strict_sorted_iff)
    then show ?thesis unfolding map_append distinct_append by simp
  qed
  show ?thesis
  proof (cases "p' = p")
    case True
    have "hint_rows kv d' p = drop m ?L"
      unfolding hint_rows_def [of kv d']
    proof (rule scan_prefix_eqI [OF laws])
      show "sorted_wrt (<) (map fst (drop m ?L))" using sorted [of p] by (simp add: drop_map [symmetric] sorted_wrt_drop)
      have "(k, v) \<in> set (drop m ?L) \<longleftrightarrow> (k, v) \<in> set ?L \<and> k \<notin> fst ` set (take m ?L)" for k v
        unfolding L [symmetric] using dist by force
      then show "set (drop m ?L) = {(k, v). rows d' k = Some v \<and> starts_with k (hh_peer_prefix p)}"
        unfolding rows' hint_rows_set [OF laws] by (auto split: if_splits)
    qed
    with True show ?thesis by simp
  next
    case False
    have other: "k \<notin> fst ` set (take m ?L)" if "starts_with k (hh_peer_prefix p')" for k
    proof
      assume "k \<in> fst ` set (take m ?L)"
      then obtain v where "(k, v) \<in> set ?L" using set_take_subset [of m ?L] by force
      from hint_rows_key [OF laws rel this] obtain s where "k = hh_key p s" .
      with that False show False by simp
    qed
    have "hint_rows kv d' p' = hint_rows kv (hh_db hh) p'"
      unfolding hint_rows_def [of kv d']
      by (rule scan_prefix_eqI [OF laws sorted]) (use other in \<open>auto simp: hint_rows_set [OF laws] rows'\<close>)
    with False show ?thesis by simp
  qed
qed

lemma release_count:
  assumes "hm_wf (hint_counts hh)" and "m \<le> count_of (hint_counts hh) p"
  shows "count_of (hint_counts (release_hints hh p m)) p' =
      (if p' = p then count_of (hint_counts hh) p - m else count_of (hint_counts hh) p')"
    and "hm_wf (hint_counts (release_hints hh p m))"
proof -
  have "hm_get (hint_counts hh) p = Some (count_of (hint_counts hh) p)" if "m \<noteq> 0"
    using assms(2) that by (cases "hm_get (hint_counts hh) p") (auto simp: count_of_def)
  then show "count_of (hint_counts (release_hints hh p m)) p' =
      (if p' = p then count_of (hint_counts hh) p - m else count_of (hint_counts hh) p')"
    using assms by (auto simp: release_hints_def saturating_sub_def)
  show "hm_wf (hint_counts (release_hints hh p m))"
    using assms(1) by (auto simp: release_hints_def hm.wf_ins split: option.splits)
qed

lemma release_fields [simp]:
  "hh_db (release_hints hh p m) = hh_db hh" "hh_cf (release_hints hh p m) = hh_cf hh"
  "hh_seq (release_hints hh p m) = hh_seq hh" "max_hints_per_peer (release_hints hh p m) = max_hints_per_peer hh"
  by (simp_all add: release_hints_def split: option.splits)

lemma drain_hints_rel:
  assumes laws: "rocks_laws kv rows" and store: "rocks_reliable kv" and rel: "hh_rel kv rows n hh q" and n: "n < 2 ^ 64"
  shows "\<exists>hh'. drain_hints kv hh p m = (hh', Inr (take m (q p))) \<and> hh_rel kv rows n hh' (q(p := drop m (q p)))
    \<and> max_hints_per_peer hh' = max_hints_per_peer hh"
proof -
  let ?L = "hint_rows kv (hh_db hh) p" and ?c = "count_of (hint_counts hh) p"
  note d = hh_relD [OF rel]
  obtain items where items: "rdb_iter_from kv (hh_db hh) (hh_peer_prefix p) = map Inr items"
    using iter_items [OF laws] by blast
  have L: "?L = takeWhile (\<lambda>(k, _). starts_with k (hh_peer_prefix p)) items"
    by (simp add: hint_rows_def scan_prefix_def items)
  define m' where "m' = min m (length (q p))"
  have len: "length (take m ?L) = m'" by (simp add: m'_def hint_rows_length [OF rel])
  have m'_word: "unat (word_of_nat m' :: u64) = m'"
    using d(7) [of p] n by (simp add: m'_def unsigned_of_nat take_bit_eq_mod)
  from delete_hints_rows [OF laws store, of "hh_db hh" "map fst (take m ?L)" 0] obtain d' where
    del: "delete_hints kv (hh_db hh) (map fst (take m ?L)) 0 = (d', word_of_nat m')"
    and rows': "rows d' = (\<lambda>k. if k \<in> fst ` set (take m ?L) then None else rows (hh_db hh) k)"
    by (auto simp: len [unfolded length_take])
  define hh' where "hh' = release_hints (hh\<lparr>hh_db := d'\<rparr>) p (word_of_nat m')"
  have m'_le: "(word_of_nat m' :: u64) \<le> ?c" using d(5) [of p] m'_word by (simp add: word_le_nat_alt m'_def)
  have "drain_hints kv hh p m = (hh', Inr (take m (q p)))"
    using d(1) del read_hints_rows [OF d(4) [of p, unfolded L], of m "[]" "[]"]
    by (simp add: drain_hints_def items hh'_def flip: L)
  moreover have "hh_rel kv rows n hh' (q(p := drop m (q p)))"
  proof -
    have "\<exists>p s. k = hh_key p s \<and> s \<le> hh_seq hh'" if "rows (hh_db hh') k = Some v" "starts_with k ''hh:''" for k v
      using d(3) [of k v] that by (auto simp: hh'_def rows' split: if_splits)
    moreover have "map (\<lambda>(k, v). decode_hint_value v) (hint_rows kv (hh_db hh') p') = map Inr ((q(p := drop m (q p))) p')" for p'
      using deleted_hint_rows [OF laws rel rows', of p'] d(4) [of p'] d(4) [of p] by (simp add: hh'_def drop_map [symmetric])
    moreover have "unat (count_of (hint_counts hh') p') = length ((q(p := drop m (q p))) p')" for p'
      using release_count(1) [of "hh\<lparr>hh_db := d'\<rparr>" "word_of_nat m'" p p'] d(2) d(5) [of p'] d(5) [of p] m'_le m'_word
      by (auto simp: hh'_def unat_sub m'_def min_def)
    moreover have "hm_wf (hint_counts hh')"
      unfolding hh'_def by (rule release_count(2)) (use d(2) m'_le in simp_all)
    moreover have "length ((q(p := drop m (q p))) p') \<le> n" for p' using d(7) [of p'] by (auto intro: order_trans [OF diff_le_self])
    ultimately show ?thesis using d(1,6) unfolding hh_rel_def by (simp add: hh'_def)
  qed
  ultimately show ?thesis by (auto simp: hh'_def)
qed

text \<open>The scan of a restart counts the rows of each peer and finds the highest number.\<close>

lemma scan_hint_rows:
  assumes "\<forall>(k, v)\<in>set xs. \<exists>p s. k = hh_key p s \<and> s \<le> hi"
    and "hm_wf counts" and "mx \<le> hi"
  shows "(\<forall>(k, v)\<in>set xs. \<exists>p s. k = hh_key p s \<and> s \<le> fst (fold scan_hint_row xs (mx, counts)))
    \<and> mx \<le> fst (fold scan_hint_row xs (mx, counts)) \<and> fst (fold scan_hint_row xs (mx, counts)) \<le> hi
    \<and> hm_wf (snd (fold scan_hint_row xs (mx, counts)))
    \<and> count_of (snd (fold scan_hint_row xs (mx, counts))) p =
        count_of counts p + word_of_nat (length (filter (\<lambda>(k, v). starts_with k (hh_peer_prefix p)) xs))"
  using assms
proof (induction xs arbitrary: mx counts)
  case (Cons x xs)
  then obtain p' s v where x: "x = (hh_key p' s, v)" "s \<le> hi" by fastforce
  have step: "scan_hint_row x (mx, counts) = (max mx s, hm_insert p' (count_of counts p' + 1) counts)"
    by (simp add: scan_hint_row_def x(1) split_hh_key)
  define counts' R where "counts' = hm_insert p' (count_of counts p' + 1) counts" and "R = fold scan_hint_row xs (max mx s, counts')"
  have fold: "fold scan_hint_row (x # xs) (mx, counts) = R" by (simp add: step R_def counts'_def)
  have c': "hm_wf counts'" "count_of counts' p = (if p = p' then count_of counts p + 1 else count_of counts p)"
    using Cons.prems(2) by (auto simp: counts'_def hm.wf_ins)
  have "\<forall>(k, v)\<in>set xs. \<exists>p s. k = hh_key p s \<and> s \<le> hi" "max mx s \<le> hi" using Cons.prems(1,3) x(2) by auto
  from Cons.IH [OF this(1) c'(1) this(2), folded R_def] show ?case
    unfolding fold by (auto simp: x(1) c'(2))
qed simp

lemma hint_rows_filter:
  assumes laws: "rocks_laws kv rows"
  shows "hint_rows kv d p = filter (\<lambda>(k, v). starts_with k (hh_peer_prefix p)) (scan_prefix kv d ''hh:'')"
  unfolding hint_rows_def
proof (rule scan_prefix_eqI [OF laws])
  have "map fst (filter (\<lambda>(k, v). starts_with k (hh_peer_prefix p)) xs) =
      filter (\<lambda>k. starts_with k (hh_peer_prefix p)) (map fst xs)" for xs :: "(string \<times> u8 list) list"
    by (simp add: filter_map comp_def split_def)
  then show "sorted_wrt (<) (map fst (filter (\<lambda>(k, v). starts_with k (hh_peer_prefix p)) (scan_prefix kv d ''hh:'')))"
    by (simp add: sorted_wrt_filter scan_prefix_rows(2) [OF laws])
  show "set (filter (\<lambda>(k, v). starts_with k (hh_peer_prefix p)) (scan_prefix kv d ''hh:'')) =
      {(k, v). rows d k = Some v \<and> starts_with k (hh_peer_prefix p)}"
    by (auto simp: scan_prefix_rows(1) [OF laws] intro: peer_prefix_hh)
qed

lemma new_handoff_rel:
  assumes laws: "rocks_laws kv rows" and rows: "\<And>k v. rows d k = Some v \<Longrightarrow> starts_with k ''hh:'' \<Longrightarrow> \<exists>p s. k = hh_key p s \<and> s \<le> hi"
    and q: "\<And>p. map (\<lambda>(k, v). decode_hint_value v) (hint_rows kv d p) = map Inr (q p)"
    and n: "unat hi \<le> n" "\<And>p. length (q p) \<le> n" "n < 2 ^ 64"
  shows "\<exists>hh. new_handoff kv True d cap = Inr hh \<and> hh_rel kv rows n hh q \<and> max_hints_per_peer hh = cap"
proof -
  define xs R where "xs = scan_prefix kv d ''hh:''" and "R = fold scan_hint_row xs (0, [])"
  let ?hh = "\<lparr>hh_db = d, hh_cf = True, hh_seq = fst R, max_hints_per_peer = cap, hint_counts = snd R\<rparr>"
  have xs: "set xs = {(k, v). rows d k = Some v \<and> starts_with k ''hh:''}" by (simp add: xs_def scan_prefix_rows(1) [OF laws])
  have "\<forall>(k, v)\<in>set xs. \<exists>p s. k = hh_key p s \<and> s \<le> hi" using rows xs by auto
  note R = scan_hint_rows [OF this, of "[]" 0, simplified, folded R_def]
  have "unat (count_of (snd R) p) = length (q p)" for p
  proof -
    have "length (hint_rows kv d p) = length (q p)" using q [of p] by (metis length_map)
    then show ?thesis
      using R [of p] n(2) [of p] n(3)
      by (simp add: hint_rows_filter [OF laws] count_of_def [of "[]"] unsigned_of_nat take_bit_eq_mod flip: xs_def)
  qed
  moreover have "unat (fst R) \<le> n" using R n(1) by (meson order_trans word_le_nat_alt)
  ultimately have "hh_rel kv rows n ?hh q"
    using q n(2) R xs unfolding hh_rel_def by fastforce
  then show ?thesis by (intro exI [of _ ?hh]) (simp add: new_handoff_def R_def xs_def split_def Let_def)
qed

section \<open>Runs\<close>

datatype hint_event = EnqueueHint u64 hint_payload | DrainHints u64 nat | CountHints u64 | RestartHints

datatype hint_answer = Enqueued "hint_error + unit" | Drained "hint_error + hint_payload list" | Counted u64 | Restarted "hint_error + unit"

fun run_hint_event :: "('d, string, u8 list) rocks \<Rightarrow> hint_event \<Rightarrow> 'd hinted_handoff \<Rightarrow> 'd hinted_handoff \<times> hint_answer" where
  "run_hint_event kv (EnqueueHint p h) hh = (case enqueue_hint kv hh p h of (hh, r) \<Rightarrow> (hh, Enqueued r))"
| "run_hint_event kv (DrainHints p m) hh = (case drain_hints kv hh p m of (hh, r) \<Rightarrow> (hh, Drained r))"
| "run_hint_event kv (CountHints p) hh = (hh, Counted (pending_count hh p))"
| "run_hint_event kv RestartHints hh =
     (case new_handoff kv (hh_cf hh) (hh_db hh) (max_hints_per_peer hh) of
        Inl e \<Rightarrow> (hh, Restarted (Inl e))
      | Inr hh \<Rightarrow> (hh, Restarted (Inr ())))"

fun run_hint_events :: "('d, string, u8 list) rocks \<Rightarrow> hint_event list \<Rightarrow> 'd hinted_handoff \<Rightarrow> 'd hinted_handoff \<times> hint_answer list" where
  "run_hint_events kv [] hh = (hh, [])"
| "run_hint_events kv (ev # evs) hh =
     (let (hh, a) = run_hint_event kv ev hh; (hh, as) = run_hint_events kv evs hh in (hh, a # as))"

fun spec_hint_event :: "u64 \<Rightarrow> hint_event \<Rightarrow> (u64 \<Rightarrow> hint_payload list) \<Rightarrow> (u64 \<Rightarrow> hint_payload list) \<times> hint_answer" where
  "spec_hint_event cap (EnqueueHint p h) q = (case spec_enqueue cap p h q of (q, r) \<Rightarrow> (q, Enqueued r))"
| "spec_hint_event cap (DrainHints p m) q = (q(p := drop m (q p)), Drained (Inr (take m (q p))))"
| "spec_hint_event cap (CountHints p) q = (q, Counted (word_of_nat (length (q p))))"
| "spec_hint_event cap RestartHints q = (q, Restarted (Inr ()))"

fun spec_hint_events :: "u64 \<Rightarrow> hint_event list \<Rightarrow> (u64 \<Rightarrow> hint_payload list) \<Rightarrow> (u64 \<Rightarrow> hint_payload list) \<times> hint_answer list" where
  "spec_hint_events cap [] q = (q, [])"
| "spec_hint_events cap (ev # evs) q =
     (let (q, a) = spec_hint_event cap ev q; (q, as) = spec_hint_events cap evs q in (q, a # as))"

fun hint_event_ok :: "hint_event \<Rightarrow> bool" where
  "hint_event_ok (EnqueueHint p h) = hint_fits h"
| "hint_event_ok _ = True"

lemma hh_rel_mono: "hh_rel kv rows n hh q \<Longrightarrow> n \<le> n' \<Longrightarrow> hh_rel kv rows n' hh q"
  by (rule hh_rel_frame) (auto dest: hh_relD(2,6))

lemma hh_rel_Suc: "hh_rel kv rows n hh q \<Longrightarrow> hh_rel kv rows (Suc n) hh q"
  by (rule hh_rel_mono) auto

lemma run_hint_event_rel:
  assumes laws: "rocks_laws kv rows" "rocks_reliable kv" and rel: "hh_rel kv rows n hh q" and n: "n < 2 ^ 64 - 1"
    and ev: "hint_event_ok ev" and cap: "max_hints_per_peer hh = cap"
  shows "\<exists>hh'. run_hint_event kv ev hh = (hh', snd (spec_hint_event cap ev q))
    \<and> hh_rel kv rows (Suc n) hh' (fst (spec_hint_event cap ev q)) \<and> max_hints_per_peer hh' = cap"
proof (cases ev)
  case (EnqueueHint p h)
  with enqueue_hint_rel [OF laws rel _ n, of h p] ev cap show ?thesis by (auto simp: split_def)
next
  case (DrainHints p m)
  with drain_hints_rel [OF laws rel, of p m] n cap show ?thesis by (auto intro: hh_rel_Suc)
next
  case (CountHints p)
  have "pending_count hh p = word_of_nat (length (q p))"
    using hh_relD(5) [OF rel, of p, symmetric] by (simp add: pending_count_def)
  with CountHints rel cap show ?thesis by (auto intro: hh_rel_Suc)
next
  case RestartHints
  note d = hh_relD [OF rel]
  have "\<exists>hh'. new_handoff kv True (hh_db hh) cap = Inr hh' \<and> hh_rel kv rows n hh' q \<and> max_hints_per_peer hh' = cap"
    by (rule new_handoff_rel [OF laws(1) d(3) d(4) d(6) d(7)]) (use n in auto)
  with RestartHints d(1) cap show ?thesis by (auto intro: hh_rel_Suc)
qed

lemma run_hint_events_rel:
  assumes laws: "rocks_laws kv rows" "rocks_reliable kv" and "hh_rel kv rows n hh q" and "n + length evs < 2 ^ 64"
    and "list_all hint_event_ok evs" and "max_hints_per_peer hh = cap"
  shows "\<exists>hh'. run_hint_events kv evs hh = (hh', snd (spec_hint_events cap evs q))
    \<and> hh_rel kv rows (n + length evs) hh' (fst (spec_hint_events cap evs q)) \<and> max_hints_per_peer hh' = cap"
  using assms(3-)
proof (induction evs arbitrary: n hh q)
  case (Cons ev evs)
  then obtain hh1 where 1: "run_hint_event kv ev hh = (hh1, snd (spec_hint_event cap ev q))"
    "hh_rel kv rows (Suc n) hh1 (fst (spec_hint_event cap ev q))" "max_hints_per_peer hh1 = cap"
    using run_hint_event_rel [OF laws, of n hh q ev cap] by auto
  with Cons.IH [OF 1(2)] Cons.prems show ?case by (auto simp: split_def Let_def)
qed simp

lemma fresh_handoff:
  assumes "rocks_laws kv rows" and "\<forall>k. starts_with k ''hh:'' \<longrightarrow> rows d k = None" and "new_handoff kv True d cap = Inr hh"
  shows "hh_rel kv rows 0 hh (\<lambda>_. [])" and "max_hints_per_peer hh = cap"
proof -
  have "hint_rows kv d p = []" for p
    using hint_rows_set [OF assms(1), of d p] assms(2) peer_prefix_hh [of _ p] by (auto simp flip: set_empty)
  then have "\<exists>hh. new_handoff kv True d cap = Inr hh \<and> hh_rel kv rows 0 hh (\<lambda>_. []) \<and> max_hints_per_peer hh = cap"
    using assms(2) by (intro new_handoff_rel [OF assms(1), of d 0]) auto
  with assms(3) show "hh_rel kv rows 0 hh (\<lambda>_. [])" and "max_hints_per_peer hh = cap" by auto
qed

text \<open>
  C11. On a fresh database, with a store that acknowledges its writes, any sequence of enqueues,
  drains, counts and restarts of the hinted handoff answers exactly as one bounded first-in
  first-out queue per peer: a full queue refuses, a drain returns the oldest hints in order and
  removes them, a count is the length of the queue, and a restart changes nothing.
\<close>

theorem handoff_refines_queues:
  assumes "rocks_laws kv rows" and "rocks_reliable kv" and "\<forall>k. starts_with k ''hh:'' \<longrightarrow> rows d k = None"
    and "new_handoff kv True d cap = Inr hh" and "list_all hint_event_ok evs" and "length evs < 2 ^ 64"
  shows "snd (run_hint_events kv evs hh) = snd (spec_hint_events cap evs (\<lambda>_. []))"
proof -
  note fresh = fresh_handoff [OF assms(1,3,4)]
  from run_hint_events_rel [OF assms(1,2) fresh(1) _ assms(5) fresh(2)] assms(6) show ?thesis by auto
qed

section \<open>Replay loses nothing\<close>

text \<open>A queued hint can be queued again as it is, and no queue is longer than the cap.\<close>

definition hint_encodes :: "hint_payload \<Rightarrow> bool" where
  "hint_encodes h \<longleftrightarrow> hint_fits h \<and> (\<exists>v. encode_hint_value h = Inr v)"

definition hint_kept :: "hint_payload \<Rightarrow> bool" where
  "hint_kept h \<longleftrightarrow> hint_encodes h \<and> stored_hint h = h"

definition queues_ok :: "u64 \<Rightarrow> (u64 \<Rightarrow> hint_payload list) \<Rightarrow> bool" where
  "queues_ok cap q \<longleftrightarrow> (\<forall>p. list_all hint_kept (q p) \<and> (0 < cap \<longrightarrow> length (q p) \<le> unat cap))"

lemma stored_hint_kept:
  assumes "hint_fits h" and "encode_hint_value h = Inr v"
  shows "hint_kept (stored_hint h)"
proof -
  have enc: "encode_hint_value (stored_hint h) = encode_hint_value h"
    by (simp add: encode_hint_value_def stored_hint_def as_bytes_def)
  have "hint_text_ok (stored_hint h)"
    using assms(1) by (auto simp: hint_fits_def hint_text_ok_def stored_hint_def split: option.splits)
  then show ?thesis
    using assms enc by (simp add: hint_kept_def hint_encodes_def hint_fits_def) (simp add: stored_hint_def)
qed

lemma queues_ok_drop:
  assumes "queues_ok cap q"
  shows "queues_ok cap (q(p := drop m (q p)))"
proof -
  have "length (drop m (q p)) \<le> unat cap" if "0 < cap"
    using assms that unfolding queues_ok_def length_drop by (meson diff_le_self order_trans)
  then show ?thesis
    using assms by (auto simp: queues_ok_def list_all_iff dest: in_set_dropD)
qed

lemma spec_hint_event_ok:
  assumes "queues_ok cap q" and "hint_event_ok ev"
  shows "queues_ok cap (fst (spec_hint_event cap ev q))"
proof (cases ev)
  case (EnqueueHint p h)
  then show ?thesis
    using assms stored_hint_kept [of h]
    by (auto simp: queues_ok_def spec_enqueue_def queue_full_def split: sum.splits)
next
  case (DrainHints p m)
  then show ?thesis using queues_ok_drop [OF assms(1)] by simp
qed (use assms in simp_all)

lemma spec_hint_events_ok:
  "queues_ok cap q \<Longrightarrow> list_all hint_event_ok evs \<Longrightarrow> queues_ok cap (fst (spec_hint_events cap evs q))"
  by (induction evs arbitrary: q) (auto simp: split_def Let_def spec_hint_event_ok)

lemma post_batch_prefix:
  "\<exists>j\<le>length batch. post_batch answers sent batch = (sent @ take j batch, drop j batch)
     \<and> (\<forall>i<j. answers (length sent + i)) \<and> (j < length batch \<longrightarrow> \<not> answers (length sent + j))"
proof (induction batch arbitrary: sent)
  case (Cons h batch)
  show ?case
  proof (cases "answers (length sent)")
    case True
    from Cons.IH [of "sent @ [h]"] obtain j where "j \<le> length batch"
      "post_batch answers (sent @ [h]) batch = (sent @ [h] @ take j batch, drop j batch)"
      "\<forall>i<j. answers (Suc (length sent) + i)" "j < length batch \<longrightarrow> \<not> answers (Suc (length sent) + j)" by auto
    with True show ?thesis by (intro exI [of _ "Suc j"]) (auto simp: less_Suc_eq_0_disj)
  next
    case False
    then show ?thesis by (intro exI [of _ 0]) simp
  qed
qed simp

lemma enqueue_again_rel:
  assumes laws: "rocks_laws kv rows" "rocks_reliable kv"
  shows "hh_rel kv rows n hh q \<Longrightarrow> list_all hint_encodes hs \<Longrightarrow> n + length hs < 2 ^ 64 \<Longrightarrow> max_hints_per_peer hh = cap \<Longrightarrow>
    (0 < cap \<longrightarrow> length (q p) + length hs \<le> unat cap) \<Longrightarrow>
    hh_rel kv rows (n + length hs) (enqueue_again kv p hs hh) (q(p := q p @ map stored_hint hs))
      \<and> max_hints_per_peer (enqueue_again kv p hs hh) = cap"
proof (induction hs arbitrary: n hh q)
  case Nil
  then show ?case by (simp add: enqueue_again_def)
next
  case (Cons h hs)
  define q1 where "q1 = q(p := q p @ [stored_hint h])"
  from Cons.prems have h: "hint_fits h" and "\<exists>v. encode_hint_value h = Inr v" and "\<not> queue_full cap (q p)"
    by (auto simp: hint_encodes_def queue_full_def)
  then have spec: "fst (spec_enqueue cap p h q) = q1" by (auto simp: spec_enqueue_def q1_def)
  have "n < 2 ^ 64 - 1" using Cons.prems(3) by simp
  with enqueue_hint_rel [OF laws Cons.prems(1) h(1), of p] Cons.prems(4) spec obtain hh1 where
    1: "fst (enqueue_hint kv hh p h) = hh1" "hh_rel kv rows (Suc n) hh1 q1" "max_hints_per_peer hh1 = cap"
    by auto
  have upd: "q1(p := q1 p @ map stored_hint hs) = q(p := q p @ map stored_hint (h # hs))" by (simp add: q1_def fun_eq_iff)
  have "list_all hint_encodes hs" "Suc n + length hs < 2 ^ 64" "0 < cap \<longrightarrow> length (q1 p) + length hs \<le> unat cap"
    using Cons.prems by (simp_all add: q1_def)
  from Cons.IH [OF 1(2) this(1,2) 1(3) this(3), unfolded upd] show ?case by (simp add: enqueue_again_def 1(1))
qed

text \<open>Batches of a hundred: what is left after a full one, seen from the whole queue.\<close>

lemma replay_rest:
  assumes "m \<le> length (drop 100 xs)"
  defines "k \<equiv> (if length xs \<le> 100 then length xs else 100 + m)"
  shows "drop (100 * (k div 100 + 1)) xs @ drop k (take (100 * (k div 100 + 1)) xs) =
    drop (100 * (m div 100 + 1)) (drop 100 xs) @ drop m (take (100 * (m div 100 + 1)) (drop 100 xs))"
proof (cases "length xs \<le> 100")
  case True
  have "length xs \<le> 100 * (length xs div 100 + 1)" by simp
  with True show ?thesis by (simp add: k_def)
next
  case False
  have "k = 100 + m" using False by (simp add: k_def)
  moreover have "100 * ((100 + m) div 100 + 1) = 100 + 100 * (m div 100 + 1)" using div_add_self1 [of 100 m] by simp
  moreover have "drop (100 + m) (take (100 + c) xs) = drop m (take c (drop 100 xs))" for c
    by (simp add: drop_take add.commute)
  moreover have "drop (100 + c) xs = drop c (drop 100 xs)" for c by (simp add: add.commute)
  ultimately show ?thesis by metis
qed

lemma all_less_add: "\<forall>i<a. P i \<Longrightarrow> \<forall>i<b. P (a + i) \<Longrightarrow> i < a + b \<Longrightarrow> P (i :: nat)"
  by (cases "i < a") (auto dest: spec [of _ "i - a"])

lemma replay_loop_rel:
  assumes laws: "rocks_laws kv rows" "rocks_reliable kv" and "hh_rel kv rows n hh q" and "n + 100 < 2 ^ 64"
    and "max_hints_per_peer hh = cap" and "queues_ok cap q"
  shows "\<exists>hh' m. replay_loop kv answers p hh sent = Some (hh', sent @ take m (q p)) \<and> m \<le> length (q p)
    \<and> hh_rel kv rows (n + 100) hh' (q(p := drop (100 * (m div 100 + 1)) (q p) @ drop m (take (100 * (m div 100 + 1)) (q p))))
    \<and> (\<forall>i<m. answers (length sent + i)) \<and> (m < length (q p) \<longrightarrow> \<not> answers (length sent + m))"
  using assms(3-)
proof (induction "length (q p)" arbitrary: hh q sent rule: less_induct)
  case less
  obtain hh1 where 1: "drain_hints kv hh p 100 = (hh1, Inr (take 100 (q p)))"
      "hh_rel kv rows n hh1 (q(p := drop 100 (q p)))" "max_hints_per_peer hh1 = cap"
    using drain_hints_rel [OF laws less.prems(1), of p 100] less.prems(2,3) by auto
  obtain j where j: "j \<le> length (take 100 (q p))"
      "post_batch answers sent (take 100 (q p)) = (sent @ take j (take 100 (q p)), drop j (take 100 (q p)))"
      "\<forall>i<j. answers (length sent + i)" "j < length (take 100 (q p)) \<Longrightarrow> \<not> answers (length sent + j)"
    using post_batch_prefix [of "take 100 (q p)" answers sent] by blast
  consider (empty) "q p = []" | (failed) "q p \<noteq> []" "j < length (take 100 (q p))" | (sent) "q p \<noteq> []" "j = length (take 100 (q p))"
    using j(1) by linarith
  then show ?case
  proof cases
    case empty
    have "hh_rel kv rows (n + 100) hh1 (q(p := []))" using hh_rel_mono [OF 1(2), of "n + 100"] empty by simp
    then show ?thesis using empty 1(1) by (subst replay_loop.simps) auto
  next
    case failed
    let ?rest = "drop j (take 100 (q p))"
    have "length (drop 100 (q p)) + length ?rest \<le> length (q p)" by simp
    then have kept: "list_all hint_kept ?rest" and "0 < cap \<longrightarrow> length (drop 100 (q p)) + length ?rest \<le> unat cap"
      using less.prems(4) unfolding queues_ok_def list_all_iff by (meson in_set_dropD in_set_takeD, meson order_trans)
    moreover have "map stored_hint ?rest = ?rest" "list_all hint_encodes ?rest"
      using kept by (auto simp: list_all_iff hint_kept_def intro: map_idI)
    ultimately have "hh_rel kv rows (n + length ?rest) (enqueue_again kv p ?rest hh1) (q(p := drop 100 (q p) @ ?rest))"
      using enqueue_again_rel [OF laws 1(2), of ?rest cap p] less.prems(2) 1(3) by simp
    then have "hh_rel kv rows (n + 100) (enqueue_again kv p ?rest hh1) (q(p := drop 100 (q p) @ ?rest))"
      by (rule hh_rel_mono) simp
    moreover have "j div 100 = 0" "?rest \<noteq> []" "take j (take 100 (q p)) = take j (q p)" using failed by auto
    ultimately show ?thesis
      using failed 1(1) j by (subst replay_loop.simps) (intro exI [of _ "enqueue_again kv p ?rest hh1"] exI [of _ j],
        auto split: list.splits)
  next
    case sent
    let ?q = "q(p := drop 100 (q p))" and ?sent = "sent @ take 100 (q p)"
    have "length (?q p) < length (q p)" using sent(1) by simp
    from less.hyps [OF this 1(2) less.prems(2) 1(3) queues_ok_drop [OF less.prems(4)], of ?sent]
    obtain hh' m where m: "replay_loop kv answers p hh1 ?sent = Some (hh', ?sent @ take m (?q p))" "m \<le> length (?q p)"
      "hh_rel kv rows (n + 100) hh' (?q(p := drop (100 * (m div 100 + 1)) (?q p) @ drop m (take (100 * (m div 100 + 1)) (?q p))))"
      "\<forall>i<m. answers (length ?sent + i)" "m < length (?q p) \<longrightarrow> \<not> answers (length ?sent + m)" by blast
    have loop: "replay_loop kv answers p hh sent = replay_loop kv answers p hh1 ?sent"
      using sent(1) 1(1) j(2) [unfolded sent(2) take_all [OF order.refl] drop_all [OF order.refl]]
      by (subst replay_loop.simps) simp
    define k where "k = (if length (q p) \<le> 100 then length (q p) else 100 + m)"
    have k: "sent @ take k (q p) = ?sent @ take m (?q p)" "k \<le> length (q p)"
      using m(2) take_add [of 100 m "q p"] by (auto simp: k_def)
    have "drop (100 * (k div 100 + 1)) (q p) @ drop k (take (100 * (k div 100 + 1)) (q p)) =
        drop (100 * (m div 100 + 1)) (?q p) @ drop m (take (100 * (m div 100 + 1)) (?q p))"
      unfolding k_def fun_upd_same using m(2) by (intro replay_rest) simp
    then have "hh_rel kv rows (n + 100) hh' (q(p := drop (100 * (k div 100 + 1)) (q p) @ drop k (take (100 * (k div 100 + 1)) (q p))))"
      using m(3) by simp
    moreover have "\<forall>i<k. answers (length sent + i)" "k < length (q p) \<longrightarrow> \<not> answers (length sent + k)"
      using m(4,5) j(3) sent(2) all_less_add [of 100 "\<lambda>i. answers (length sent + i)" m] by (auto simp: k_def add.assoc)
    moreover have "replay_loop kv answers p hh sent = Some (hh', sent @ take k (q p))" unfolding loop k(1) by (rule m(1))
    ultimately show ?thesis using k(2) by blast
  qed
qed

text \<open>
  C27. The replay of a known peer's hints returns, whichever of its requests fail, if the store
  acknowledges its writes. It delivers the oldest hints in order, each once, up to the first
  request that fails, and every hint that was not acknowledged is queued again: the unread part of
  the queue stays first, and the undelivered rest of the current batch of a hundred goes behind it.
  The queues of other peers do not change.
\<close>

theorem replay_delivers_prefix:
  assumes "rocks_laws kv rows" and "rocks_reliable kv" and "\<forall>k. starts_with k ''hh:'' \<longrightarrow> rows d k = None"
    and "new_handoff kv True d cap = Inr hh0" and "list_all hint_event_ok evs" and "length evs + 100 < 2 ^ 64"
    and "hh = fst (run_hint_events kv evs hh0)" and "q = fst (spec_hint_events cap evs (\<lambda>_. []))"
    and "get_node m p \<noteq> None"
  shows "\<exists>hh' k. drain_hints_for_peer kv answers m (Some hh) p = Some (Some hh', take k (q p))
    \<and> k \<le> length (q p) \<and> (\<forall>i<k. answers i) \<and> (k < length (q p) \<longrightarrow> \<not> answers k)
    \<and> (\<forall>p' j. snd (drain_hints kv hh' p' j) = Inr (take j ((q(p := drop (100 * (k div 100 + 1)) (q p)
          @ drop k (take (100 * (k div 100 + 1)) (q p)))) p')))"
proof -
  note fresh = fresh_handoff [OF assms(1,3,4)]
  have "queues_ok cap (\<lambda>_. [])" by (simp add: queues_ok_def)
  from spec_hint_events_ok [OF this assms(5)] have ok: "queues_ok cap q" by (simp add: assms(8))
  have rel: "hh_rel kv rows (length evs) hh q" "max_hints_per_peer hh = cap"
    using run_hint_events_rel [OF assms(1,2) fresh(1) _ assms(5) fresh(2)] assms(6) by (auto simp: assms(7,8))
  from replay_loop_rel [OF assms(1,2) rel(1) assms(6) rel(2) ok, of answers p "[]"] obtain hh' k where
    loop: "replay_loop kv answers p hh [] = Some (hh', take k (q p))"
    and k: "k \<le> length (q p)" "\<forall>i<k. answers i" "k < length (q p) \<longrightarrow> \<not> answers k"
    and rel': "hh_rel kv rows (length evs + 100) hh' (q(p := drop (100 * (k div 100 + 1)) (q p)
      @ drop k (take (100 * (k div 100 + 1)) (q p))))"
    by auto
  have "snd (drain_hints kv hh' p' j) = Inr (take j ((q(p := drop (100 * (k div 100 + 1)) (q p)
      @ drop k (take (100 * (k div 100 + 1)) (q p)))) p'))" for p' j
    using drain_hints_rel [OF assms(1,2) rel' assms(6), of p' j] by auto
  then show ?thesis
    using loop k assms(9) by (intro exI [of _ hh'] exI [of _ k]) (auto simp: drain_hints_for_peer_def)
qed

section \<open>Witnesses\<close>

lemma list_kv_reliable: "rocks_reliable list_kv"
  by (simp add: rocks_reliable_def)

definition demo_hint_events :: "hint_event list" where
  "demo_hint_events = [EnqueueHint 1 demo_hint, EnqueueHint 1 demo_hint, EnqueueHint 1 demo_hint, DrainHints 1 1, RestartHints, CountHints 1]"

lemma demo_hint_fits: "hint_fits demo_hint"
  using demo_hint_encoded by (simp add: hint_fits_def demo_hint_bytes_def)

lemma demo_hint_stored: "stored_hint demo_hint = demo_hint"
  by (simp add: stored_hint_def demo_hint_def)

definition demo_hh :: "(string \<times> u8 list) list hinted_handoff" where
  "demo_hh = \<lparr>hh_db = [], hh_cf = True, hh_seq = 0, max_hints_per_peer = 2, hint_counts = []\<rparr>"

lemma demo_hh_new: "new_handoff list_kv True [] 2 = Inr demo_hh"
  by (simp add: new_handoff_def demo_hh_def scan_prefix_def list_kv_def flatten_ok_def List.map_filter_def)

lemma demo_hint_answers:
  "spec_hint_events 2 demo_hint_events (\<lambda>_. []) =
    ((\<lambda>_. [])(1 := [demo_hint]),
     [Enqueued (Inr ()), Enqueued (Inr ()), Enqueued (Inl (HintQueueFull 1 2 2)), Drained (Inr [demo_hint]),
      Restarted (Inr ()), Counted 1])"
  by (simp add: demo_hint_events_def spec_enqueue_def queue_full_def demo_hint_encoded demo_hint_stored Let_def fun_eq_iff)

theorem handoff_refines_queues_witness:
  "snd (run_hint_events list_kv demo_hint_events demo_hh) =
    [Enqueued (Inr ()), Enqueued (Inr ()), Enqueued (Inl (HintQueueFull 1 2 2)), Drained (Inr [demo_hint]),
     Restarted (Inr ()), Counted 1]"
proof -
  have "list_all hint_event_ok demo_hint_events" "length demo_hint_events < 2 ^ 64"
    by (simp_all add: demo_hint_events_def demo_hint_fits)
  from handoff_refines_queues [OF list_kv_laws list_kv_reliable _ demo_hh_new this] show ?thesis
    by (simp add: demo_hint_answers)
qed

theorem replay_delivers_prefix_witness:
  "\<exists>hh'. drain_hints_for_peer list_kv (\<lambda>_. False) demo_members (Some (fst (run_hint_events list_kv demo_hint_events demo_hh))) 1
      = Some (Some hh', []) \<and> snd (drain_hints list_kv hh' 1 5) = Inr [demo_hint]"
proof -
  have ev: "list_all hint_event_ok demo_hint_events" "length demo_hint_events + 100 < 2 ^ 64"
    by (simp_all add: demo_hint_events_def demo_hint_fits)
  have "get_node demo_members 1 \<noteq> None"
    by (simp add: get_node_def demo_members_def add_node_def new_membership_def hm.get_ins hm.wf_ins demo_node_def)
  from replay_delivers_prefix [OF list_kv_laws list_kv_reliable _ demo_hh_new ev refl refl this, of "\<lambda>_. False"]
  obtain hh' k where res: "drain_hints_for_peer list_kv (\<lambda>_. False) demo_members
      (Some (fst (run_hint_events list_kv demo_hint_events demo_hh))) 1 = Some (Some hh', take k [demo_hint])"
    and k: "\<forall>i. \<not> i < k" and left: "\<forall>p' j. snd (drain_hints list_kv hh' p' j) = Inr (take j (if p' = 1 then drop k [demo_hint] else []))"
    by (auto simp: demo_hint_answers)
  from k have "k = 0" by blast
  with res left show ?thesis by auto
qed

end
