(* ===== verification/Outbound_Rounds.thy ===== *)
theory Outbound_Rounds
  imports Points_Frame Hinted_Handoff Shard_Types
begin

text \<open>
  Replication of writes, the sender's rounds (\<open>adapters/cluster/peer_client.rs\<close>): queued batches are
  taken up to one request's worth, consecutive ones that may share a body are merged, and the
  merged jobs are sorted by the peers they go to. The channel is the list of the batches in it.
  Shown: the rounds send every queued batch in order and never mix targets, regions or encodings;
  the points of merged bodies are those of the batches; and every peer gets, once, exactly the
  parts whose targets name it.
\<close>

section \<open>Rounds\<close>

record outbound_batch =
  ob_database :: string
  ob_retention_policy :: string
  ob_precision :: "string option"
  ob_body :: "u8 list"
  ob_wal_seq :: u64
  ob_target_node_ids :: "u64 list option"
  ob_region_id :: "u64 option"

definition usize_saturating_add :: "nat \<Rightarrow> nat \<Rightarrow> nat" where
  "usize_saturating_add a b = min (2 ^ 64 - 1) (a + b)"

definition max_parts_per_round :: nat where
  "max_parts_per_round = 4096"

text \<open>Everything already queued, up to one request's worth.\<close>

fun take_jobs :: "nat \<Rightarrow> nat \<Rightarrow> outbound_batch list \<Rightarrow> outbound_batch list \<Rightarrow> outbound_batch list \<times> outbound_batch list" where
  "take_jobs max_body bytes jobs [] = (jobs, [])"
| "take_jobs max_body bytes jobs (next # queue) =
     (if bytes < max_body \<and> length jobs < max_parts_per_round
      then take_jobs max_body (usize_saturating_add bytes (length (ob_body next))) (jobs @ [next]) queue
      else (jobs, next # queue))"

lemma take_jobs_append: "fst (take_jobs max_body bytes jobs queue) @ snd (take_jobs max_body bytes jobs queue) = jobs @ queue"
  by (induction max_body bytes jobs queue rule: take_jobs.induct) auto

lemma take_jobs_shrinks: "length (snd (take_jobs max_body bytes jobs queue)) \<le> length queue"
  by (induction max_body bytes jobs queue rule: take_jobs.induct) auto

section \<open>Merging\<close>

definition coalesce_ok :: "outbound_batch \<Rightarrow> outbound_batch \<Rightarrow> nat \<Rightarrow> bool" where
  "coalesce_ok a b max_body =
     (ob_database a = ob_database b \<and> ob_retention_policy a = ob_retention_policy b \<and> ob_precision a = ob_precision b
      \<and> ob_region_id a = ob_region_id b
      \<and> is_binary_points (ob_body a) = is_binary_points (ob_body b)
      \<and> ob_target_node_ids a = ob_target_node_ids b
      \<and> ob_wal_seq b = ob_wal_seq a + 1
      \<and> usize_saturating_add (usize_saturating_add (length (ob_body a)) 1) (length (ob_body b)) \<le> max_body)"

definition merge_jobs :: "outbound_batch \<Rightarrow> outbound_batch \<Rightarrow> outbound_batch" where
  "merge_jobs job next =
     job\<lparr>ob_body := ob_body job @ (if ob_body job \<noteq> [] \<and> ob_body next \<noteq> [] then [10] else []) @ ob_body next,
         ob_wal_seq := ob_wal_seq next\<rparr>"

definition coalesce_step :: "nat \<Rightarrow> outbound_batch list \<Rightarrow> outbound_batch \<Rightarrow> outbound_batch list" where
  "coalesce_step max_body out next =
     (if out \<noteq> [] \<and> coalesce_ok (last out) next max_body
      then butlast out @ [merge_jobs (last out) next]
      else out @ [next])"

definition coalesce_jobs :: "outbound_batch list \<Rightarrow> nat \<Rightarrow> outbound_batch list" where
  "coalesce_jobs jobs max_body = foldl (coalesce_step max_body) [] jobs"

text \<open>The processor's rounds until the queue is empty, each as the merged jobs it sends.\<close>

function outbound_rounds :: "nat \<Rightarrow> outbound_batch list \<Rightarrow> outbound_batch list list" where
  "outbound_rounds max_body [] = []"
| "outbound_rounds max_body (first # queue) =
     (let (jobs, rest) = take_jobs max_body (length (ob_body first)) [first] queue
      in coalesce_jobs jobs max_body # outbound_rounds max_body rest)"
  by pat_completeness auto
termination
proof (relation "measure (\<lambda>(max_body, queue). length queue)")
  fix max_body first queue x jobs rest
  assume "x = take_jobs max_body (length (ob_body first)) [first] queue" and "(jobs, rest) = x"
  then have "rest = snd (take_jobs max_body (length (ob_body first)) [first] queue)" by (metis snd_conv)
  then show "((max_body, rest), max_body, first # queue) \<in> measure (\<lambda>(max_body, queue). length queue)"
    using take_jobs_shrinks [of max_body "length (ob_body first)" "[first]" queue] by simp
qed simp

section \<open>Peers\<close>

record batch_part =
  bp_database :: string
  bp_retention_policy :: string
  bp_precision :: "string option"
  bp_region_id :: "u64 option"
  bp_body :: "u8 list"

definition part_of_job :: "outbound_batch \<Rightarrow> batch_part" where
  "part_of_job job =
     \<lparr>bp_database = ob_database job, bp_retention_policy = ob_retention_policy job, bp_precision = ob_precision job,
      bp_region_id = ob_region_id job, bp_body = ob_body job\<rparr>"

definition resolve_replication_peers :: "cluster_membership \<Rightarrow> u64 \<Rightarrow> u64 list option \<Rightarrow> (u64 \<times> string) list" where
  "resolve_replication_peers m self_id targets =
     (case targets of
        Some ids \<Rightarrow> List.map_filter (\<lambda>i. map_option (\<lambda>n. (node_id n, addr n)) (get_node m i)) ids
      | None \<Rightarrow> map (\<lambda>n. (node_id n, addr n)) (replication_peers m self_id))"

fun add_part :: "u64 \<Rightarrow> string \<Rightarrow> batch_part \<Rightarrow> (u64 \<times> string \<times> batch_part list) list \<Rightarrow> (u64 \<times> string \<times> batch_part list) list" where
  "add_part peer_id address part [] = [(peer_id, address, [part])]"
| "add_part peer_id address part ((i, a, parts) # per_peer) =
     (if i = peer_id then (i, a, parts @ [part]) # per_peer
      else (i, a, parts) # add_part peer_id address part per_peer)"

definition per_peer_parts :: "cluster_membership \<Rightarrow> u64 \<Rightarrow> outbound_batch list \<Rightarrow> (u64 \<times> string \<times> batch_part list) list" where
  "per_peer_parts m self_id jobs =
     fold (\<lambda>job. fold (\<lambda>(peer_id, address). add_part peer_id address (part_of_job job))
        (resolve_replication_peers m self_id (ob_target_node_ids job))) jobs []"

section \<open>Rounds lose nothing\<close>

text \<open>A run of jobs that merge into one body, and the job they merge into.\<close>

definition mergeable :: "outbound_batch \<Rightarrow> outbound_batch \<Rightarrow> bool" where
  "mergeable a b \<longleftrightarrow> ob_database a = ob_database b \<and> ob_retention_policy a = ob_retention_policy b
     \<and> ob_precision a = ob_precision b \<and> ob_region_id a = ob_region_id b \<and> ob_target_node_ids a = ob_target_node_ids b"

definition merged :: "outbound_batch list \<Rightarrow> outbound_batch" where
  "merged js =
     (hd js)\<lparr>ob_body := join_bodies (filter (\<lambda>b. b \<noteq> []) (map ob_body js)), ob_wal_seq := ob_wal_seq (last js)\<rparr>"

definition merge_run_ok :: "nat \<Rightarrow> outbound_batch list \<Rightarrow> bool" where
  "merge_run_ok max_body js \<longleftrightarrow> js \<noteq> [] \<and> (\<forall>j\<in>set js. mergeable (hd js) j)
     \<and> (\<exists>enc. \<forall>j\<in>set js. is_binary_points (ob_body j) = enc)
     \<and> (\<forall>i<length js. ob_wal_seq (js ! i) = ob_wal_seq (hd js) + word_of_nat i)
     \<and> (1 < length js \<longrightarrow> length (ob_body (merged js)) \<le> max_body)"

lemma join_bodies_snoc: "join_bodies (bs @ [b]) = (if bs = [] then b else join_bodies bs @ [10] @ b)"
  by (induction bs rule: join_bodies.induct) auto

lemma join_bodies_empty: "[] \<notin> set bs \<Longrightarrow> join_bodies bs = [] \<longleftrightarrow> bs = []"
  by (cases bs rule: join_bodies.cases) auto

lemma is_binary_append: "is_binary_points (b @ 10 # r) = is_binary_points b"
proof -
  consider "b = []" | x where "b = [x]" | x y where "b = [x, y]" | x y z where "b = [x, y, z]" | w x y z v where "b = w # x # y # z # v"
    by (metis list.exhaust)
  then show ?thesis by cases (auto simp: is_binary_points_def starts_with_def points_frame_magic_def)
qed

lemma is_binary_Nil [simp]: "\<not> is_binary_points []"
  by (simp add: is_binary_points_def starts_with_def points_frame_magic_def)

lemma is_binary_joined: "bs \<noteq> [] \<Longrightarrow> is_binary_points (join_bodies bs) = is_binary_points (hd bs)"
  by (cases bs rule: join_bodies.cases) (auto simp: is_binary_append)

lemma merged_snoc: "js \<noteq> [] \<Longrightarrow> merge_jobs (merged js) j = merged (js @ [j])"
  using join_bodies_empty [of "filter (\<lambda>b. b \<noteq> []) (map ob_body js)"]
  by (auto simp: merge_jobs_def merged_def join_bodies_snoc)

lemma merged_single: "merged [j] = j"
  by (cases "ob_body j = []") (simp_all add: merged_def)

lemma merged_binary:
  assumes "js \<noteq> []" and "\<forall>j\<in>set js. is_binary_points (ob_body j) = enc"
  shows "is_binary_points (ob_body (merged js)) = enc"
proof (cases "filter (\<lambda>b. b \<noteq> []) (map ob_body js)")
  case Nil
  have "ob_body (hd js) = []" using Nil assms(1) by (cases js) (auto split: if_splits)
  then have "\<not> enc" using assms by (metis hd_in_set is_binary_Nil)
  then show ?thesis by (simp add: merged_def Nil)
next
  case (Cons b bs)
  then have "b \<in> ob_body ` set js" by (metis filter_is_subset list.set_intros(1) list.set_map subsetD)
  then have "is_binary_points b = enc" using assms(2) by auto
  then show ?thesis using is_binary_joined [of "b # bs"] by (simp add: merged_def Cons)
qed

lemma run_ok_single: "merge_run_ok max_body [j]"
  by (simp add: merge_run_ok_def mergeable_def)

lemma merged_job_fields [simp]:
  "ob_database (merged js) = ob_database (hd js)" "ob_retention_policy (merged js) = ob_retention_policy (hd js)"
  "ob_precision (merged js) = ob_precision (hd js)" "ob_region_id (merged js) = ob_region_id (hd js)"
  "ob_target_node_ids (merged js) = ob_target_node_ids (hd js)" "ob_wal_seq (merged js) = ob_wal_seq (last js)"
  by (simp_all add: merged_def)

lemma run_ok_snoc:
  assumes "merge_run_ok max_body js" and "coalesce_ok (merged js) j max_body" and "max_body < 2 ^ 64 - 1"
  shows "merge_run_ok max_body (js @ [j])"
proof -
  note r = assms(1) [unfolded merge_run_ok_def]
  then obtain enc where enc: "\<forall>j\<in>set js. is_binary_points (ob_body j) = enc" by blast
  have "is_binary_points (ob_body j) = enc"
    using assms(2) merged_binary [OF _ enc] r by (simp add: coalesce_ok_def)
  moreover have "mergeable (hd js) j" using assms(2) by (simp add: coalesce_ok_def mergeable_def)
  moreover have "ob_wal_seq j = ob_wal_seq (hd js) + word_of_nat (length js)"
  proof -
    have "ob_wal_seq j = ob_wal_seq (js ! (length js - 1)) + 1" using assms(2) r by (simp add: coalesce_ok_def last_conv_nth)
    also have "\<dots> = ob_wal_seq (hd js) + word_of_nat (length js - 1) + 1" using r by simp
    finally show ?thesis using r by (cases js) (auto simp: algebra_simps)
  qed
  moreover have "length (ob_body (merged (js @ [j]))) \<le> max_body"
    using assms(2,3) r by (auto simp: coalesce_ok_def usize_saturating_add_def merge_jobs_def simp flip: merged_snoc)
  ultimately show ?thesis
    using r enc by (auto simp: merge_run_ok_def nth_append less_Suc_eq)
qed

lemma coalesce_runs:
  assumes "max_body < 2 ^ 64 - 1"
  shows "\<exists>runs. concat runs = jobs \<and> coalesce_jobs jobs max_body = map merged runs \<and> list_all (merge_run_ok max_body) runs"
proof (induction jobs rule: rev_induct)
  case Nil
  show ?case by (rule exI [of _ "[]"]) (simp add: coalesce_jobs_def)
next
  case (snoc j jobs)
  then obtain runs where runs: "concat runs = jobs" "coalesce_jobs jobs max_body = map merged runs" "list_all (merge_run_ok max_body) runs"
    by blast
  have step: "coalesce_jobs (jobs @ [j]) max_body = coalesce_step max_body (map merged runs) j"
    using runs(2) by (simp add: coalesce_jobs_def)
  show ?case
  proof (cases "runs \<noteq> [] \<and> coalesce_ok (merged (last runs)) j max_body")
    case True
    then have ok: "merge_run_ok max_body (last runs)" using runs(3) by (simp add: list_all_iff)
    let ?runs = "butlast runs @ [last runs @ [j]]"
    have "concat ?runs = jobs @ [j]"
      using runs(1) True append_butlast_last_id [of runs] by (metis append.assoc concat.simps concat_append append_Nil2)
    moreover have "coalesce_jobs (jobs @ [j]) max_body = map merged ?runs"
      using True ok by (simp add: step coalesce_step_def last_map merged_snoc merge_run_ok_def flip: map_butlast)
    moreover have "list_all (merge_run_ok max_body) ?runs"
      using runs(3) run_ok_snoc [OF ok _ assms] True by (auto simp: list_all_iff dest: in_set_butlastD)
    ultimately show ?thesis by blast
  next
    case False
    then have "coalesce_jobs (jobs @ [j]) max_body = map merged (runs @ [[j]])"
      by (auto simp: step coalesce_step_def last_map merged_single)
    with runs show ?thesis by (intro exI [of _ "runs @ [[j]]"]) (simp add: run_ok_single)
  qed
qed

lemma outbound_runs:
  assumes "max_body < 2 ^ 64 - 1"
  shows "\<exists>rounds. concat (concat rounds) = queue \<and> outbound_rounds max_body queue = map (map merged) rounds
    \<and> list_all (list_all (merge_run_ok max_body)) rounds"
  using assms
proof (induction max_body queue rule: outbound_rounds.induct)
  case (1 max_body)
  show ?case by (rule exI [of _ "[]"]) simp
next
  case (2 max_body first queue)
  define t where "t = take_jobs max_body (length (ob_body first)) [first] queue"
  obtain rounds where rounds: "concat (concat rounds) = snd t" "outbound_rounds max_body (snd t) = map (map merged) rounds"
    "list_all (list_all (merge_run_ok max_body)) rounds"
    using 2(1) [of t "fst t" "snd t"] 2(2) unfolding t_def by auto
  obtain runs where runs: "concat runs = fst t" "coalesce_jobs (fst t) max_body = map merged runs" "list_all (merge_run_ok max_body) runs"
    using coalesce_runs [OF 2(2)] by blast
  have "concat (concat (runs # rounds)) = first # queue"
    using take_jobs_append [of max_body "length (ob_body first)" "[first]" queue] runs(1) rounds(1) by (simp add: t_def)
  moreover have "outbound_rounds max_body (first # queue) = map (map merged) (runs # rounds)"
    using runs(2) rounds(2) by (simp add: split_def Let_def flip: t_def)
  ultimately show ?case using runs(3) rounds(3) by (intro exI [of _ "runs # rounds"]) simp
qed

text \<open>
  C22. The rounds of the outbound processor send every queued batch, in the order of the queue:
  the jobs they send are runs of consecutive batches of the queue, each run with one database,
  retention policy, precision, region, set of targets and encoding and with consecutive log
  numbers, merged into one body no larger than the configured size by newlines.
\<close>

theorem outbound_rounds_exact:
  assumes "max_body < 2 ^ 64 - 1"
  shows "\<exists>rounds. concat (concat rounds) = queue \<and> outbound_rounds max_body queue = map (map merged) rounds
    \<and> list_all (list_all (merge_run_ok max_body)) rounds"
  by (rule outbound_runs [OF assms])

section \<open>The points of a round\<close>

lemma merged_points:
  assumes "reads_back bin" and "merge_run_ok max_body js" and "list_all2 (\<lambda>ps b. encode_points_binary bin ps = Inr (ob_body b)) pss js"
    and "length (concat pss) \<le> max_points" and "0 < max_points"
  shows "parse_line_body_to_points_limited bin lines (ob_body (merged js)) precision max_points = Inr (concat pss)"
proof -
  have js: "js \<noteq> []" using assms(2) by (simp add: merge_run_ok_def)
  have frames: "list_all2 (\<lambda>ps f. encode_points_binary bin ps = Inr f) pss (map ob_body js)"
    using assms(3) by (simp add: list_all2_conv_all_nth)
  have "is_binary_points (ob_body j)" if "j \<in> set js" for j
    using assms(3) that encoded_is_binary [of bin _ "ob_body j" "[]"] by (auto simp: list_all2_conv_all_nth in_set_conv_nth)
  then have all: "\<forall>j\<in>set js. is_binary_points (ob_body j) = True" by simp
  then have "filter (\<lambda>b. b \<noteq> []) (map ob_body js) = map ob_body js" by (auto simp: filter_id_conv)
  then have body: "ob_body (merged js) = join_bodies (map ob_body js)" by (simp add: merged_def)
  have "is_binary_points (ob_body (merged js))" using merged_binary [OF js all] by simp
  with decode_joined_frames [OF assms(1) frames, of "[]" max_points] assms(4,5) body show ?thesis
    by (simp add: parse_line_body_to_points_limited_def)
qed

lemma runs_points:
  assumes "reads_back bin" and "0 < max_points"
  shows "list_all (merge_run_ok max_body) runs \<Longrightarrow> list_all2 (\<lambda>ps b. encode_points_binary bin ps = Inr (ob_body b)) pss (concat runs) \<Longrightarrow>
    length (concat pss) \<le> max_points \<Longrightarrow>
    \<exists>rss. try_map (\<lambda>j. parse_line_body_to_points_limited bin lines (ob_body j) (ob_precision j) max_points) (map merged runs) = Inr rss
      \<and> concat rss = concat pss"
proof (induction runs arbitrary: pss)
  case (Cons js runs)
  obtain ps1 ps2 where pss: "pss = ps1 @ ps2" "list_all2 (\<lambda>ps b. encode_points_binary bin ps = Inr (ob_body b)) ps1 js"
    "list_all2 (\<lambda>ps b. encode_points_binary bin ps = Inr (ob_body b)) ps2 (concat runs)"
    using Cons.prems(2) by (auto simp: list_all2_append2)
  obtain rss where "try_map (\<lambda>j. parse_line_body_to_points_limited bin lines (ob_body j) (ob_precision j) max_points) (map merged runs) = Inr rss"
    "concat rss = concat ps2"
    using Cons.IH [OF _ pss(3)] Cons.prems(1,3) pss(1) by auto
  moreover have "parse_line_body_to_points_limited bin lines (ob_body (merged js)) (ob_precision (merged js)) max_points = Inr (concat ps1)"
    by (rule merged_points [OF assms(1) _ pss(2) _ assms(2), of max_body]) (use Cons.prems(1,3) pss(1) in simp_all)
  ultimately show ?case using pss(1) by simp
qed simp

text \<open>
  When every queued batch is a binary body, the bodies the rounds send decode, in the order
  they are sent, to exactly the points of the queued batches in the order of the queue, provided
  the points together are within the limit of one request.
\<close>

theorem rounds_carry_the_points:
  assumes "reads_back bin" and "list_all2 (\<lambda>ps b. encode_points_binary bin ps = Inr (ob_body b)) pss queue"
    and "length (concat pss) \<le> max_points" and "0 < max_points" and "max_body < 2 ^ 64 - 1"
  shows "\<exists>rss. try_map (\<lambda>j. parse_line_body_to_points_limited bin lines (ob_body j) (ob_precision j) max_points)
      (concat (outbound_rounds max_body queue)) = Inr rss \<and> concat rss = concat pss"
proof -
  obtain rounds where r: "concat (concat rounds) = queue" "outbound_rounds max_body queue = map (map merged) rounds"
    "list_all (list_all (merge_run_ok max_body)) rounds"
    using outbound_runs [OF assms(5)] by blast
  have jobs: "concat (outbound_rounds max_body queue) = map merged (concat rounds)" by (simp add: r(2) map_concat)
  have "list_all (merge_run_ok max_body) (concat rounds)" using r(3) by (auto simp: list_all_iff)
  from runs_points [OF assms(1,4) this, of pss lines] assms(2,3) show ?thesis by (simp add: r(1) jobs)
qed

section \<open>Parts by peer\<close>


text \<open>What a peer is owed of some jobs: one part for each time a job's targets name it.\<close>

definition parts_for :: "cluster_membership \<Rightarrow> u64 \<Rightarrow> outbound_batch list \<Rightarrow> u64 \<Rightarrow> batch_part list" where
  "parts_for m self_id jobs peer_id =
     [part_of_job job. job \<leftarrow> jobs, (i, a) \<leftarrow> resolve_replication_peers m self_id (ob_target_node_ids job), i = peer_id]"

definition peer_entry :: "(u64 \<times> string \<times> batch_part list) list \<Rightarrow> u64 \<Rightarrow> batch_part list" where
  "peer_entry per_peer peer_id = (case map_of per_peer peer_id of Some (_, parts) \<Rightarrow> parts | None \<Rightarrow> [])"

definition per_peer_ok :: "(u64 \<times> string \<times> batch_part list) list \<Rightarrow> bool" where
  "per_peer_ok per_peer \<longleftrightarrow> distinct (map fst per_peer) \<and> (\<forall>(i, a, parts)\<in>set per_peer. parts \<noteq> [])"

lemma add_part_ids: "fst ` set (add_part i a part per_peer) = insert i (fst ` set per_peer)"
  by (induction i a part per_peer rule: add_part.induct) auto

lemma add_part_ok: "per_peer_ok per_peer \<Longrightarrow> per_peer_ok (add_part i a part per_peer)"
  unfolding per_peer_ok_def
  by (induction i a part per_peer rule: add_part.induct) (auto simp: add_part_ids)

lemma add_part_entry:
  "peer_entry (add_part i a part per_peer) j = peer_entry per_peer j @ (if j = i then [part] else [])"
  by (induction i a part per_peer rule: add_part.induct) (auto simp: peer_entry_def)

lemma add_parts:
  "per_peer_ok per_peer \<Longrightarrow>
    per_peer_ok (fold (\<lambda>(i, a). add_part i a part) targets per_peer)
    \<and> peer_entry (fold (\<lambda>(i, a). add_part i a part) targets per_peer) j =
        peer_entry per_peer j @ [part. (i, a) \<leftarrow> targets, i = j]"
  by (induction targets arbitrary: per_peer) (auto simp: add_part_ok add_part_entry)

lemma per_peer_fold:
  fixes m self_id
  defines "targets \<equiv> (\<lambda>job. resolve_replication_peers m self_id (ob_target_node_ids job))"
  shows "per_peer_ok per_peer \<Longrightarrow>
    per_peer_ok (fold (\<lambda>job. fold (\<lambda>(i, a). add_part i a (part_of_job job)) (targets job)) jobs per_peer)
    \<and> peer_entry (fold (\<lambda>job. fold (\<lambda>(i, a). add_part i a (part_of_job job)) (targets job)) jobs per_peer) j =
        peer_entry per_peer j @ [part_of_job job. job \<leftarrow> jobs, (i, a) \<leftarrow> targets job, i = j]"
proof (induction jobs arbitrary: per_peer)
  case (Cons job jobs)
  from add_parts [OF Cons.prems, of "part_of_job job" "targets job"] Cons.IH show ?case by simp
qed simp

lemma round_entries:
  "per_peer_ok (per_peer_parts m self_id jobs)"
  "peer_entry (per_peer_parts m self_id jobs) p = parts_for m self_id jobs p"
  using per_peer_fold [of "[]" m self_id jobs p]
  by (auto simp: per_peer_parts_def per_peer_ok_def peer_entry_def parts_for_def)

lemma entry_in:
  assumes "per_peer_ok pp"
  shows "(i, a, parts) \<in> set pp \<Longrightarrow> peer_entry pp i = parts"
    and "peer_entry pp i \<noteq> [] \<Longrightarrow> \<exists>a. (i, a, peer_entry pp i) \<in> set pp"
proof -
  show "(i, a, parts) \<in> set pp \<Longrightarrow> peer_entry pp i = parts"
    using assms by (simp add: per_peer_ok_def peer_entry_def)
  show "peer_entry pp i \<noteq> [] \<Longrightarrow> \<exists>a. (i, a, peer_entry pp i) \<in> set pp"
    by (auto simp: peer_entry_def split: option.splits dest!: map_of_SomeD)
qed

text \<open>
  Each peer appears once in a round, with exactly the parts of the jobs whose resolved
  targets name it, in the order of the jobs; a peer no job targets does not appear.
\<close>

theorem round_parts_by_peer:
  "distinct (map fst (per_peer_parts m self_id jobs))
   \<and> map_of (map (\<lambda>(i, a, parts). (i, parts)) (per_peer_parts m self_id jobs)) peer_id =
      (if parts_for m self_id jobs peer_id = [] then None else Some (parts_for m self_id jobs peer_id))"
proof -
  have "map_of (map (\<lambda>(i, a, parts). (i, parts)) pp) peer_id = (if peer_entry pp peer_id = [] then None else Some (peer_entry pp peer_id))"
    if "per_peer_ok pp" for pp
    using that by (induction pp) (auto simp: peer_entry_def per_peer_ok_def)
  from this [OF round_entries(1)] round_entries(1) [of m self_id jobs] show ?thesis by (simp add: round_entries(2) per_peer_ok_def)
qed

section \<open>Witnesses\<close>

definition demo_out_batch :: "u64 \<Rightarrow> u8 \<Rightarrow> u64 option \<Rightarrow> outbound_batch" where
  "demo_out_batch s x region =
     \<lparr>ob_database = ''db'', ob_retention_policy = ''rp'', ob_precision = None,
      ob_body = [0, 72, 66, 80, 1, 0, 0, 0, x], ob_wal_seq = s, ob_target_node_ids = None, ob_region_id = region\<rparr>"

lemma demo_rounds:
  "outbound_rounds 100 [demo_out_batch 1 7 None, demo_out_batch 2 8 None, demo_out_batch 3 9 (Some 4)] =
    [[(demo_out_batch 1 7 None)\<lparr>ob_body := [0, 72, 66, 80, 1, 0, 0, 0, 7, 10, 0, 72, 66, 80, 1, 0, 0, 0, 8], ob_wal_seq := 2\<rparr>,
      demo_out_batch 3 9 (Some 4)]]"
  by (simp add: demo_out_batch_def coalesce_jobs_def coalesce_step_def coalesce_ok_def merge_jobs_def usize_saturating_add_def
      max_parts_per_round_def is_binary_points_def starts_with_def points_frame_magic_def Let_def)

theorem outbound_rounds_exact_witness:
  "\<exists>rounds. concat (concat rounds) = [demo_out_batch 1 7 None, demo_out_batch 2 8 None, demo_out_batch 3 9 (Some 4)]
    \<and> [[(demo_out_batch 1 7 None)\<lparr>ob_body := [0, 72, 66, 80, 1, 0, 0, 0, 7, 10, 0, 72, 66, 80, 1, 0, 0, 0, 8], ob_wal_seq := 2\<rparr>,
        demo_out_batch 3 9 (Some 4)]] = map (map merged) rounds \<and> list_all (list_all (merge_run_ok 100)) rounds"
  using outbound_rounds_exact [of 100 "[demo_out_batch 1 7 None, demo_out_batch 2 8 None, demo_out_batch 3 9 (Some 4)]"]
  unfolding demo_rounds by simp

theorem rounds_carry_the_points_witness:
  "\<exists>rss. try_map (\<lambda>j. parse_line_body_to_points_limited byte_points (\<lambda>_ _ _. Inr []) (ob_body j) (ob_precision j) 5)
      (concat (outbound_rounds 100 [demo_out_batch 1 7 None, demo_out_batch 2 8 None, demo_out_batch 3 9 (Some 4)])) = Inr rss
    \<and> concat rss = [7, 8, 9]"
proof -
  have "list_all2 (\<lambda>ps b. encode_points_binary byte_points ps = Inr (ob_body b)) [[7], [8], [9]]
      [demo_out_batch 1 7 None, demo_out_batch 2 8 None, demo_out_batch 3 9 (Some 4)]"
    by (simp add: demo_out_batch_def encode_points_binary_def byte_points_def wrap_err_def points_frame_magic_def le_bytes_def
        digits_be_def upt_rec)
  from rounds_carry_the_points [OF byte_points_read this, of 5 100 "\<lambda>_ _ _. Inr []"] show ?thesis by simp
qed

end
