(* ===== verification/Replication_Receive.thy ===== *)
theory Replication_Receive
  imports Outbound_Rounds
begin

text \<open>
  Replication of writes, the receiver (\<open>handle_replicate_batch\<close> and \<open>handle_replicate_write\<close> of
  \<open>adapters/http/peer_handlers.rs\<close>, the queue of \<open>application/replication_apply.rs\<close>): the parts of a
  request are checked, those with the same destination and encoding are joined into one job, and
  the jobs are queued for the apply workers. The workers drain the queue meanwhile, so what
  \<open>try_enqueue\<close> answers to each job is a parameter; headers are given as the values they parse to.

  Shown: a part is answered \<open>Accepted\<close> exactly when it is in one queued job, whose body is the bodies
  of its parts in order; parts of regions this node is known not to hold are not queued; and the
  two handlers differ on a node that is draining.
\<close>

section \<open>Groups\<close>

datatype part_outcome = Accepted | NotARegionPeer | QueueFull | PartFailed string

record apply_group =
  ag_database :: string
  ag_retention_policy :: string
  ag_precision :: "string option"
  ag_parts :: "nat list"
  ag_body :: "u8 list"

definition group_matches :: "batch_part \<Rightarrow> apply_group \<Rightarrow> bool" where
  "group_matches part g =
     (ag_database g = bp_database part \<and> ag_retention_policy g = bp_retention_policy part
      \<and> ag_precision g = bp_precision part \<and> is_binary_points (ag_body g) = is_binary_points (bp_body part))"

fun add_to_group :: "nat \<Rightarrow> batch_part \<Rightarrow> apply_group list \<Rightarrow> apply_group list" where
  "add_to_group i part [] =
     [\<lparr>ag_database = bp_database part, ag_retention_policy = bp_retention_policy part, ag_precision = bp_precision part,
       ag_parts = [i], ag_body = bp_body part\<rparr>]"
| "add_to_group i part (g # groups) =
     (if group_matches part g then g\<lparr>ag_body := ag_body g @ [10] @ bp_body part, ag_parts := ag_parts g @ [i]\<rparr> # groups
      else g # add_to_group i part groups)"

definition group_step :: "(u64 \<Rightarrow> bool) \<Rightarrow> nat \<times> batch_part \<Rightarrow> part_outcome list \<times> apply_group list
    \<Rightarrow> part_outcome list \<times> apply_group list" where
  "group_step is_peer ip acc =
     (let (i, part) = ip; (outcomes, groups) = acc
      in if bp_database part = [] \<or> bp_retention_policy part = []
         then (outcomes[i := PartFailed ''missing database or retention policy''], groups)
         else if (case bp_region_id part of Some region \<Rightarrow> \<not> is_peer region | None \<Rightarrow> False)
         then (outcomes[i := NotARegionPeer], groups)
         else (outcomes, add_to_group i part groups))"

definition group_replicate_parts :: "batch_part list \<Rightarrow> (u64 \<Rightarrow> bool) \<Rightarrow> part_outcome list \<times> apply_group list" where
  "group_replicate_parts parts is_peer =
     fold (group_step is_peer) (List.enumerate 0 parts) (replicate (length parts) Accepted, [])"

section \<open>Handlers\<close>

datatype apply_error = ApplyQueueFull | ApplyWorkerGone

record apply_job =
  aj_database :: string
  aj_retention_policy :: string
  aj_precision :: "string option"
  aj_body :: "u8 list"
  aj_origin :: u64

text \<open>The result of every group's \<open>try_enqueue\<close> is given; \<open>None\<close> is a job that was queued.\<close>

fun enqueue_groups :: "(nat \<Rightarrow> apply_error option) \<Rightarrow> u64 \<Rightarrow> nat \<Rightarrow> apply_group list \<Rightarrow> part_outcome list
    \<Rightarrow> apply_job list \<times> part_outcome list" where
  "enqueue_groups try_enqueue origin k [] outcomes = ([], outcomes)"
| "enqueue_groups try_enqueue origin k (g # groups) outcomes =
     (case try_enqueue k of
        None \<Rightarrow>
          (let (jobs, outcomes) = enqueue_groups try_enqueue origin (Suc k) groups outcomes
           in (\<lparr>aj_database = ag_database g, aj_retention_policy = ag_retention_policy g, aj_precision = ag_precision g,
                aj_body = ag_body g, aj_origin = origin\<rparr> # jobs, outcomes))
      | Some e \<Rightarrow>
          enqueue_groups try_enqueue origin (Suc k) groups
            (fold (\<lambda>i outcomes. outcomes[i := (case e of ApplyQueueFull \<Rightarrow> QueueFull
                 | ApplyWorkerGone \<Rightarrow> PartFailed ''replication apply worker unavailable'')]) (ag_parts g) outcomes))"

definition region_by_id :: "shard_map \<Rightarrow> u64 \<Rightarrow> shard_region option" where
  "region_by_id m i = find (\<lambda>r. region_id r = i) (concat (map regions (hm_values (spaces m))))"

text \<open>Only a region the map knows, with peers that do not include this node, is refused.\<close>

definition may_accept :: "shard_map option \<Rightarrow> u64 \<Rightarrow> u64 \<Rightarrow> bool" where
  "may_accept shard_map self_id region =
     (case Option.bind shard_map (\<lambda>m. region_by_id m region) of None \<Rightarrow> True | Some r \<Rightarrow> self_id \<in> set (peers r))"

datatype batch_reply = BatchBadOrigin | BatchNotConfigured | BatchResults "part_outcome list"

definition handle_replicate_batch ::
    "cluster_membership option \<Rightarrow> bool \<Rightarrow> shard_map option \<Rightarrow> u64 \<Rightarrow> (nat \<Rightarrow> apply_error option) \<Rightarrow> u64 \<Rightarrow> batch_part list
      \<Rightarrow> apply_job list \<times> batch_reply" where
  "handle_replicate_batch membership configured shard_map self_id try_enqueue origin parts =
     (if \<not> validate_origin_node_id membership origin then ([], BatchBadOrigin)
      else if \<not> configured then ([], BatchNotConfigured)
      else
        let (outcomes, groups) = group_replicate_parts parts (may_accept shard_map self_id);
            (jobs, outcomes) = enqueue_groups try_enqueue origin 0 groups outcomes
        in (jobs, BatchResults outcomes))"

datatype write_reply =
    WriteDraining | WriteBadOrigin | WriteNotRegionPeer | WriteUnsupported | WriteNotConfigured | WriteMissingDb | WriteMissingRp
  | WriteQueueFull | WriteUnavailable | WriteAck u64 | WriteApplyFailed

text \<open>
  The single write. \<open>applied\<close> is what the apply worker reports for the job when the sender waits
  for it: the sequence number this node's own log gave the entry, an error, or nothing when the
  worker was dropped.
\<close>

definition handle_replicate_write ::
    "cluster_membership option \<Rightarrow> bool \<Rightarrow> shard_map option \<Rightarrow> u64 \<Rightarrow> apply_error option \<Rightarrow> (string + u64) option
      \<Rightarrow> u64 \<Rightarrow> bool \<Rightarrow> bool \<Rightarrow> batch_part \<Rightarrow> apply_job list \<times> write_reply" where
  "handle_replicate_write membership configured shard_map self_id try_enqueue applied origin media_ok sync part =
     (let precision = (case bp_precision part of Some p \<Rightarrow> if p = [] then None else Some p | None \<Rightarrow> None);
          job = \<lparr>aj_database = bp_database part, aj_retention_policy = bp_retention_policy part, aj_precision = precision,
                 aj_body = bp_body part, aj_origin = origin\<rparr>
      in if (case Option.bind membership (\<lambda>m. get_node m self_id) of
               Some n \<Rightarrow> node_state n = Draining \<or> node_state n = Leaving | None \<Rightarrow> False) then ([], WriteDraining)
         else if \<not> validate_origin_node_id membership origin then ([], WriteBadOrigin)
         else if (case bp_region_id part of Some region \<Rightarrow> \<not> may_accept shard_map self_id region | None \<Rightarrow> False)
         then ([], WriteNotRegionPeer)
         else if \<not> media_ok then ([], WriteUnsupported)
         else if \<not> configured then ([], WriteNotConfigured)
         else if bp_database part = [] then ([], WriteMissingDb)
         else if bp_retention_policy part = [] then ([], WriteMissingRp)
         else case try_enqueue of
             Some ApplyQueueFull \<Rightarrow> ([], WriteQueueFull)
           | Some ApplyWorkerGone \<Rightarrow> ([], WriteUnavailable)
           | None \<Rightarrow>
               ([job], if \<not> sync then WriteAck 0
                       else case applied of Some (Inr wal_seq) \<Rightarrow> WriteAck wal_seq | _ \<Rightarrow> WriteApplyFailed))"

section \<open>What an answer means\<close>

definition group_of :: "batch_part list \<Rightarrow> apply_group \<Rightarrow> bool" where
  "group_of parts g \<longleftrightarrow> ag_parts g \<noteq> [] \<and> sorted_wrt (<) (ag_parts g)
     \<and> ag_body g = join_bodies (map (\<lambda>i. bp_body (parts ! i)) (ag_parts g))
     \<and> (\<forall>i\<in>set (ag_parts g). i < length parts \<and> group_matches (parts ! i) g)"

definition parts_grouped :: "(u64 \<Rightarrow> bool) \<Rightarrow> batch_part list \<Rightarrow> nat \<Rightarrow> part_outcome list \<times> apply_group list \<Rightarrow> bool" where
  "parts_grouped is_peer parts n acc \<longleftrightarrow> length (fst acc) = length parts \<and> list_all (group_of parts) (snd acc)
     \<and> distinct (concat (map ag_parts (snd acc)))
     \<and> set (concat (map ag_parts (snd acc))) = {i. i < n \<and> fst acc ! i = Accepted}
     \<and> (\<forall>i<length parts. n \<le> i \<longrightarrow> fst acc ! i = Accepted)
     \<and> (\<forall>i<n. fst acc ! i = Accepted \<longrightarrow> (\<forall>region. bp_region_id (parts ! i) = Some region \<longrightarrow> is_peer region))"

lemma add_to_group_parts:
  "set (concat (map ag_parts (add_to_group i part groups))) = insert i (set (concat (map ag_parts groups)))"
  by (induction i part groups rule: add_to_group.induct) auto

lemma add_to_group_distinct:
  "distinct (concat (map ag_parts groups)) \<Longrightarrow> i \<notin> set (concat (map ag_parts groups)) \<Longrightarrow>
   distinct (concat (map ag_parts (add_to_group i part groups)))"
proof (induction i part groups rule: add_to_group.induct)
  case (2 i part g groups)
  then show ?case using add_to_group_parts [of i part groups] by (auto simp del: set_concat)
qed simp

lemma add_to_group_of:
  assumes "i < length parts" and "list_all (group_of parts) groups" and "\<forall>j\<in>set (concat (map ag_parts groups)). j < i"
  shows "list_all (group_of parts) (add_to_group i (parts ! i) groups)"
  using assms(2,3)
proof (induction groups)
  case Nil
  then show ?case using assms(1) by (simp add: group_of_def group_matches_def)
next
  case (Cons g groups)
  show ?case
  proof (cases "group_matches (parts ! i) g")
    case True
    let ?g = "g\<lparr>ag_body := ag_body g @ [10] @ bp_body (parts ! i), ag_parts := ag_parts g @ [i]\<rparr>"
    have g: "group_of parts g" and lt: "\<forall>j\<in>set (ag_parts g). j < i" using Cons.prems by auto
    have matches: "group_matches p ?g = group_matches p g" for p by (simp add: group_matches_def is_binary_append)
    have "ag_body ?g = join_bodies (map (\<lambda>i. bp_body (parts ! i)) (ag_parts ?g))"
      using g join_bodies_snoc [of "map (\<lambda>i. bp_body (parts ! i)) (ag_parts g)"] by (simp add: group_of_def)
    moreover have "sorted_wrt (<) (ag_parts ?g)" using g lt by (simp add: group_of_def sorted_wrt_append)
    ultimately have "group_of parts ?g"
      using g True assms(1) unfolding group_of_def matches by simp
    then show ?thesis using Cons.prems(1) True by simp
  next
    case False
    then show ?thesis using Cons by simp
  qed
qed

lemma group_step_grouped:
  assumes "parts_grouped is_peer parts n acc" and "n < length parts"
  shows "parts_grouped is_peer parts (Suc n) (group_step is_peer (n, parts ! n) acc)"
proof -
  obtain outcomes groups where acc: "acc = (outcomes, groups)" by fastforce
  note g = assms(1) [unfolded parts_grouped_def acc fst_conv snd_conv]
  have refuse: "parts_grouped is_peer parts (Suc n) (outcomes[n := x], groups)" if "x \<noteq> Accepted" for x
  proof -
    have "{i. i < Suc n \<and> outcomes[n := x] ! i = Accepted} = {i. i < n \<and> outcomes ! i = Accepted}"
      using that g assms(2) by (auto simp: nth_list_update less_Suc_eq)
    then show ?thesis using g that assms(2) by (auto simp: parts_grouped_def nth_list_update less_Suc_eq)
  qed
  have accept: "parts_grouped is_peer parts (Suc n) (outcomes, add_to_group n (parts ! n) groups)"
    if "\<forall>region. bp_region_id (parts ! n) = Some region \<longrightarrow> is_peer region"
  proof -
    have idx: "\<forall>j\<in>set (concat (map ag_parts groups)). j < n" using g by blast
    have "{i. i < Suc n \<and> outcomes ! i = Accepted} = insert n {i. i < n \<and> outcomes ! i = Accepted}"
      using g assms(2) by (auto simp: less_Suc_eq)
    moreover have "distinct (concat (map ag_parts (add_to_group n (parts ! n) groups)))"
      using g idx by (intro add_to_group_distinct) auto
    ultimately show ?thesis
      using g that assms(2) add_to_group_of [OF assms(2) _ idx] add_to_group_parts [of n "parts ! n" groups]
      unfolding parts_grouped_def by (auto simp: less_Suc_eq simp del: set_concat)
  qed
  show ?thesis
    using refuse accept by (auto simp: group_step_def acc split: option.splits)
qed

lemma group_parts_grouped:
  "parts_grouped is_peer parts (length parts) (group_replicate_parts parts is_peer)"
proof -
  have "parts_grouped is_peer parts n (fold (group_step is_peer) (List.enumerate 0 (take n parts)) (replicate (length parts) Accepted, []))"
    if "n \<le> length parts" for n
    using that
  proof (induction n)
    case 0
    show ?case by (simp add: parts_grouped_def)
  next
    case (Suc n)
    then have "List.enumerate 0 (take (Suc n) parts) = List.enumerate 0 (take n parts) @ [(n, parts ! n)]"
      by (simp add: take_Suc_conv_app_nth enumerate_append_eq)
    with Suc show ?case by (simp add: group_step_grouped)
  qed
  from this [of "length parts"] show ?thesis by (simp add: group_replicate_parts_def)
qed

definition job_of_group :: "u64 \<Rightarrow> apply_group \<Rightarrow> apply_job" where
  "job_of_group origin g =
     \<lparr>aj_database = ag_database g, aj_retention_policy = ag_retention_policy g, aj_precision = ag_precision g,
      aj_body = ag_body g, aj_origin = origin\<rparr>"

lemma fold_refuse:
  "length (fold (\<lambda>i os. os[i := x]) js os) = length os"
  "i < length os \<Longrightarrow> fold (\<lambda>i os. os[i := x]) js os ! i = (if i \<in> set js then x else os ! i)"
  by (induction js arbitrary: os) (auto simp: nth_list_update)

lemma enqueue_groups_split:
  "\<exists>kept dropped. fst (enqueue_groups try_enqueue origin k groups outcomes) = map (job_of_group origin) kept
     \<and> set kept \<subseteq> set groups
     \<and> (distinct (concat (map ag_parts groups)) \<longrightarrow> distinct (concat (map ag_parts kept)))
     \<and> set (concat (map ag_parts groups)) = set (concat (map ag_parts kept)) \<union> dropped
     \<and> (distinct (concat (map ag_parts groups)) \<longrightarrow> set (concat (map ag_parts kept)) \<inter> dropped = {})
     \<and> length (snd (enqueue_groups try_enqueue origin k groups outcomes)) = length outcomes
     \<and> (\<forall>i<length outcomes. snd (enqueue_groups try_enqueue origin k groups outcomes) ! i = Accepted
          \<longleftrightarrow> outcomes ! i = Accepted \<and> i \<notin> dropped)"
proof (induction try_enqueue origin k groups outcomes rule: enqueue_groups.induct)
  case (1 try_enqueue origin k outcomes)
  show ?case by (intro exI [of _ "[]"] exI [of _ "{}"]) simp
next
  case (2 try_enqueue origin k g groups outcomes)
  show ?case
  proof (cases "try_enqueue k")
    case None
    obtain kept dropped where IH: "fst (enqueue_groups try_enqueue origin (Suc k) groups outcomes) = map (job_of_group origin) kept"
      "set kept \<subseteq> set groups" "distinct (concat (map ag_parts groups)) \<longrightarrow> distinct (concat (map ag_parts kept))"
      "set (concat (map ag_parts groups)) = set (concat (map ag_parts kept)) \<union> dropped"
      "distinct (concat (map ag_parts groups)) \<longrightarrow> set (concat (map ag_parts kept)) \<inter> dropped = {}"
      "length (snd (enqueue_groups try_enqueue origin (Suc k) groups outcomes)) = length outcomes"
      "\<forall>i<length outcomes. snd (enqueue_groups try_enqueue origin (Suc k) groups outcomes) ! i = Accepted
          \<longleftrightarrow> outcomes ! i = Accepted \<and> i \<notin> dropped"
      using 2(1) [OF None] by blast
    show ?thesis
    proof (intro exI conjI)
      show "fst (enqueue_groups try_enqueue origin k (g # groups) outcomes) = map (job_of_group origin) (g # kept)"
        using IH(1) None by (simp add: split_def Let_def job_of_group_def)
      show "set (concat (map ag_parts (g # groups))) = set (concat (map ag_parts (g # kept))) \<union> dropped" using IH(4) by auto
    qed (use IH None in \<open>auto simp: split_def Let_def\<close>)
  next
    case (Some e)
    define x where "x = (case e of ApplyQueueFull \<Rightarrow> QueueFull | ApplyWorkerGone \<Rightarrow> PartFailed ''replication apply worker unavailable'')"
    define os where "os = fold (\<lambda>i outcomes. outcomes[i := x]) (ag_parts g) outcomes"
    have x: "x \<noteq> Accepted" by (cases e) (simp_all add: x_def)
    have os: "length os = length outcomes" "\<And>i. i < length outcomes \<Longrightarrow> os ! i = (if i \<in> set (ag_parts g) then x else outcomes ! i)"
      by (simp_all add: os_def fold_refuse)
    have step: "enqueue_groups try_enqueue origin k (g # groups) outcomes = enqueue_groups try_enqueue origin (Suc k) groups os"
      by (simp add: Some os_def x_def)
    obtain kept dropped where IH: "fst (enqueue_groups try_enqueue origin (Suc k) groups os) = map (job_of_group origin) kept"
      "set kept \<subseteq> set groups" "distinct (concat (map ag_parts groups)) \<longrightarrow> distinct (concat (map ag_parts kept))"
      "set (concat (map ag_parts groups)) = set (concat (map ag_parts kept)) \<union> dropped"
      "distinct (concat (map ag_parts groups)) \<longrightarrow> set (concat (map ag_parts kept)) \<inter> dropped = {}"
      "length (snd (enqueue_groups try_enqueue origin (Suc k) groups os)) = length os"
      "\<forall>i<length os. snd (enqueue_groups try_enqueue origin (Suc k) groups os) ! i = Accepted
          \<longleftrightarrow> os ! i = Accepted \<and> i \<notin> dropped"
      using 2(2) [OF Some] unfolding os_def x_def by blast
    show ?thesis
      unfolding step
    proof (intro exI conjI)
      show "fst (enqueue_groups try_enqueue origin (Suc k) groups os) = map (job_of_group origin) kept" by (rule IH(1))
      show "set (concat (map ag_parts (g # groups))) = set (concat (map ag_parts kept)) \<union> (set (ag_parts g) \<union> dropped)"
        using IH(4) by auto
    qed (use IH os x in auto)
  qed
qed

text \<open>
  C21. The answer to a replication request tells what was queued. One outcome comes back for each
  part; the accepted parts are, each exactly once, the parts of the queued jobs; a job carries the
  bodies of its parts, in order and joined by newlines, under the database, retention policy and
  precision of every one of them, and is in the encoding (binary frames or line protocol) that each
  of them is in; and no accepted part belongs to a region the map knows this node is not a peer of.
\<close>

theorem accepted_parts_are_queued:
  assumes "handle_replicate_batch membership configured shard_map self_id try_enqueue origin parts = (jobs, BatchResults outcomes)"
  shows "length outcomes = length parts
    \<and> (\<exists>indices. distinct (concat indices) \<and> set (concat indices) = {i. i < length parts \<and> outcomes ! i = Accepted}
        \<and> list_all2 (\<lambda>job is. is \<noteq> [] \<and> sorted_wrt (<) is \<and> aj_origin job = origin
             \<and> aj_body job = join_bodies (map (\<lambda>i. bp_body (parts ! i)) is)
             \<and> (\<forall>i\<in>set is. aj_database job = bp_database (parts ! i) \<and> aj_retention_policy job = bp_retention_policy (parts ! i)
                  \<and> aj_precision job = bp_precision (parts ! i)
                  \<and> is_binary_points (aj_body job) = is_binary_points (bp_body (parts ! i)))) jobs indices)
    \<and> (\<forall>i<length parts. outcomes ! i = Accepted \<longrightarrow>
         (\<forall>region. bp_region_id (parts ! i) = Some region \<longrightarrow> may_accept shard_map self_id region))"
proof -
  define G where "G = group_replicate_parts parts (may_accept shard_map self_id)"
  define E where "E = enqueue_groups try_enqueue origin 0 (snd G) (fst G)"
  have res: "jobs = fst E" "outcomes = snd E"
    using assms by (auto simp: handle_replicate_batch_def Let_def split_def G_def E_def split: if_splits)
  note g = group_parts_grouped [of "may_accept shard_map self_id" parts, folded G_def, unfolded parts_grouped_def]
  obtain kept dropped where e: "fst E = map (job_of_group origin) kept" "set kept \<subseteq> set (snd G)"
      "distinct (concat (map ag_parts kept))" "set (concat (map ag_parts (snd G))) = set (concat (map ag_parts kept)) \<union> dropped"
      "set (concat (map ag_parts kept)) \<inter> dropped = {}" "length (snd E) = length (fst G)"
      "\<forall>i<length (fst G). snd E ! i = Accepted \<longleftrightarrow> fst G ! i = Accepted \<and> i \<notin> dropped"
    using enqueue_groups_split [of try_enqueue origin 0 "snd G" "fst G", folded E_def] g by blast
  have "set (concat (map ag_parts kept)) = {i. i < length parts \<and> outcomes ! i = Accepted}"
    using e(4,5,7) g by (auto simp: res(2) simp del: set_concat)
  moreover have "list_all2 (\<lambda>job is. is \<noteq> [] \<and> sorted_wrt (<) is \<and> aj_origin job = origin
      \<and> aj_body job = join_bodies (map (\<lambda>i. bp_body (parts ! i)) is)
      \<and> (\<forall>i\<in>set is. aj_database job = bp_database (parts ! i) \<and> aj_retention_policy job = bp_retention_policy (parts ! i)
           \<and> aj_precision job = bp_precision (parts ! i)
           \<and> is_binary_points (aj_body job) = is_binary_points (bp_body (parts ! i)))) jobs (map ag_parts kept)"
  proof -
    have "list_all (group_of parts) kept" using e(2) g by (auto simp: list_all_iff)
    then show ?thesis
      unfolding res(1) e(1) list_all2_conv_all_nth
      by (auto simp: job_of_group_def group_of_def group_matches_def list_all_length)
  qed
  ultimately show ?thesis using e(3,6,7) g by (auto simp: res(2))
qed

text \<open>
  A node that is draining refuses a replicated write sent on its own, and queues the same
  write when it comes as a part of a batch.
\<close>

theorem draining_refuses_single_writes_only:
  assumes "get_node m self_id = Some n" and "node_state n = Draining" and "validate_origin_node_id (Some m) origin"
    and "bp_database part \<noteq> []" and "bp_retention_policy part \<noteq> []" and "bp_region_id part = None"
  shows "handle_replicate_write (Some m) True shard_map self_id None applied origin True sync part = ([], WriteDraining)
    \<and> handle_replicate_batch (Some m) True shard_map self_id (\<lambda>_. None) origin [part] =
        ([\<lparr>aj_database = bp_database part, aj_retention_policy = bp_retention_policy part, aj_precision = bp_precision part,
           aj_body = bp_body part, aj_origin = origin\<rparr>], BatchResults [Accepted])"
  using assms
  by (simp add: handle_replicate_write_def handle_replicate_batch_def group_replicate_parts_def group_step_def)

section \<open>Witnesses\<close>

definition demo_part :: "u8 \<Rightarrow> u64 option \<Rightarrow> batch_part" where
  "demo_part x region =
     \<lparr>bp_database = ''db'', bp_retention_policy = ''rp'', bp_precision = None, bp_region_id = region, bp_body = [x]\<rparr>"

lemma demo_batch_handled:
  "handle_replicate_batch (Some demo_members) True None 2 (\<lambda>_. None) 1 [demo_part 65 None, demo_part 66 (Some 3)] =
    ([\<lparr>aj_database = ''db'', aj_retention_policy = ''rp'', aj_precision = None, aj_body = [65, 10, 66], aj_origin = 1\<rparr>],
     BatchResults [Accepted, Accepted])"
  by (simp add: handle_replicate_batch_def validate_origin_node_id_def get_node_def demo_members_def add_node_def new_membership_def
      hm.get_ins hm.wf_ins demo_node_def group_replicate_parts_def group_step_def demo_part_def may_accept_def group_matches_def
      is_binary_points_def starts_with_def points_frame_magic_def)

theorem accepted_parts_are_queued_witness:
  "\<exists>js. distinct js \<and> set js = {i. i < 2 \<and> [Accepted, Accepted] ! i = Accepted}
    \<and> [65, 10, 66] = join_bodies (map (\<lambda>i. bp_body ([demo_part 65 None, demo_part 66 (Some 3)] ! i)) js)"
  using accepted_parts_are_queued [OF demo_batch_handled] by (auto simp: list_all2_Cons1 numeral_2_eq_2)

theorem draining_refuses_single_writes_only_witness:
  "fst (handle_replicate_batch (Some (add_node (demo_node 3 Draining) demo_members)) True None 3 (\<lambda>_. None) 1 [demo_part 65 None]) \<noteq> []"
proof -
  let ?m = "add_node (demo_node 3 Draining) demo_members"
  have "get_node ?m 3 = Some (demo_node 3 Draining)" "node_state (demo_node 3 Draining) = Draining"
    "validate_origin_node_id (Some ?m) 1"
    using demo_members_wf
    by (simp_all add: get_node_def validate_origin_node_id_def demo_members_def add_node_def new_membership_def hm.get_ins hm.wf_ins demo_node_def)
  from draining_refuses_single_writes_only [OF this, of "demo_part 65 None" None] show ?thesis
    by (simp add: demo_part_def)
qed

end
