(* ===== verification/Replication_Send.thy ===== *)
theory Replication_Send
  imports Replication_Receive
begin

text \<open>
  Replication of writes, the sender's requests (\<open>adapters/cluster/peer_client.rs\<close>): the parts of a
  round are sent to each peer in one request, retried while the peer has not accepted them, and
  left as hints when the attempts run out; a peer without the batch endpoint gets them one by one;
  a synchronous write waits until enough peers acknowledged it. What a peer answers to each attempt,
  whether the wait before the next attempt ran its time (a shutdown cuts it short), and in which
  order concurrent requests end are parameters. The requests of a round to different peers share
  only the hint queue; they are run one peer after another.

  Shown: whatever the peers answer, every part of a round is accepted by its peer or in its peer's
  hint queue afterwards; a synchronous write succeeds exactly when enough peers acknowledged in time;
  and the number recorded as a peer's acknowledgement is a number of the peer's log.
\<close>

section \<open>One write to one peer\<close>

datatype post_reply = PostSuccess "u64 option" | PostStatus | PostError

function run_attempts :: "(nat \<Rightarrow> post_reply) \<Rightarrow> (nat \<Rightarrow> bool) \<Rightarrow> nat \<Rightarrow> nat \<Rightarrow> post_reply + u64 option" where
  "run_attempts answer backoff max_attempts attempts =
     (case answer (Suc attempts) of
        PostSuccess ack \<Rightarrow> Inr ack
      | r \<Rightarrow>
          if Suc attempts < max_attempts \<and> backoff (Suc attempts)
          then run_attempts answer backoff max_attempts (Suc attempts)
          else Inl r)"
  by pat_completeness auto
termination
  by (relation "measure (\<lambda>(answer, backoff, max_attempts, attempts). max_attempts - attempts)") auto

declare run_attempts.simps [simp del]

record replicate_ctx =
  rc_peer_id :: u64
  rc_wal_seq :: u64
  rc_hint_payload :: hint_payload
  rc_sync :: bool
  rc_max_attempts :: nat

type_synonym ('d, 'e) send_state = "'d hinted_handoff option \<times> 'e replication_log"

text \<open>A failure to record an acknowledgement or a hint is logged and ignored.\<close>

definition run_ctx :: "('d, string, u8 list) rocks \<Rightarrow> ('e, string, u8 list) rocks \<Rightarrow> (nat \<Rightarrow> post_reply) \<Rightarrow> (nat \<Rightarrow> bool)
    \<Rightarrow> replicate_ctx \<Rightarrow> ('d, 'e) send_state \<Rightarrow> ('d, 'e) send_state \<times> (post_reply + u64)" where
  "run_ctx hkv lkv answer backoff ctx st =
     (let (hh, rl) = st
      in case run_attempts answer backoff (rc_max_attempts ctx) 0 of
           Inr ack \<Rightarrow>
             if rc_sync ctx then
               let s = (case ack of Some s \<Rightarrow> s | None \<Rightarrow> rc_wal_seq ctx)
               in ((hh, fst (set_wal_ack lkv rl (rc_peer_id ctx) s)), Inr s)
             else ((hh, rl), Inr 0)
         | Inl e \<Rightarrow>
             ((map_option (\<lambda>hh. fst (enqueue_hint hkv hh (rc_peer_id ctx) (rc_hint_payload ctx))) hh, rl), Inl e))"

section \<open>The parts of a round\<close>

definition hint_of_part :: "batch_part \<Rightarrow> hint_payload" where
  "hint_of_part part =
     \<lparr>hint_database = bp_database part, hint_retention_policy = bp_retention_policy part,
      hint_precision = bp_precision part, hint_line_body = bp_body part\<rparr>"

datatype send_reply = OldPeer | Outcomes "part_outcome list option" | BadStatus | NoConnection

datatype send_end = AllAccepted | FallBack "batch_part list" | GaveUp "batch_part list"

text \<open>
  \<open>serializes\<close> tells whether the request can be encoded; \<open>Outcomes None\<close> is a success whose body does
  not decode. The parts the peer accepted are collected.
\<close>

function send_attempts :: "(batch_part list \<Rightarrow> bool) \<Rightarrow> (nat \<Rightarrow> batch_part list \<Rightarrow> send_reply) \<Rightarrow> (nat \<Rightarrow> bool) \<Rightarrow> nat \<Rightarrow> nat
    \<Rightarrow> batch_part list \<Rightarrow> batch_part list \<Rightarrow> batch_part list \<times> send_end" where
  "send_attempts serializes answer backoff max_retries attempts parts got =
     (if \<not> serializes parts then (got, GaveUp parts)
      else case answer (Suc attempts) parts of
          OldPeer \<Rightarrow> (got, FallBack parts)
        | r \<Rightarrow>
            let results = (case r of Outcomes (Some os) \<Rightarrow> if length os = length parts then Some os else None | _ \<Rightarrow> None);
                taken = (case results of Some os \<Rightarrow> map fst (filter (\<lambda>(_, outcome). outcome = Accepted) (zip parts os)) | None \<Rightarrow> []);
                left = (case results of Some os \<Rightarrow> map fst (filter (\<lambda>(_, outcome). outcome \<noteq> Accepted) (zip parts os)) | None \<Rightarrow> parts)
            in if results \<noteq> None \<and> left = [] then (got @ taken, AllAccepted)
               else if max_retries \<le> Suc attempts \<or> \<not> backoff (Suc attempts) then (got @ taken, GaveUp left)
               else send_attempts serializes answer backoff max_retries (Suc attempts) left (got @ taken))"
  by pat_completeness auto
termination
  by (relation "measure (\<lambda>(serializes, answer, backoff, max_retries, attempts, parts, got). max_retries - attempts)") auto

declare send_attempts.simps [simp del]

record send_env =
  se_serializes :: "batch_part list \<Rightarrow> bool"
  se_answer :: "nat \<Rightarrow> batch_part list \<Rightarrow> send_reply"
  se_backoff :: "nat \<Rightarrow> bool"
  se_order :: "(nat \<times> batch_part) list \<Rightarrow> (nat \<times> batch_part) list"
  se_post :: "nat \<Rightarrow> nat \<Rightarrow> post_reply"
  se_post_backoff :: "nat \<Rightarrow> nat \<Rightarrow> bool"

text \<open>The concurrent single sends, in the order they end.\<close>

definition send_one :: "('d, string, u8 list) rocks \<Rightarrow> ('e, string, u8 list) rocks \<Rightarrow> send_env \<Rightarrow> nat \<Rightarrow> u64 \<Rightarrow> nat \<times> batch_part
    \<Rightarrow> ('d, 'e) send_state \<times> batch_part list \<Rightarrow> ('d, 'e) send_state \<times> batch_part list" where
  "send_one hkv lkv env max_retries peer_id ip acc =
     (let (i, part) = ip; (st, got) = acc;
          ctx = \<lparr>rc_peer_id = peer_id, rc_wal_seq = 0, rc_hint_payload = hint_of_part part, rc_sync = False,
                 rc_max_attempts = max_retries\<rparr>
      in case run_ctx hkv lkv (se_post env i) (se_post_backoff env i) ctx st of
           (st, Inr _) \<Rightarrow> (st, got @ [part])
         | (st, Inl _) \<Rightarrow> (st, got))"

definition send_parts_one_by_one :: "('d, string, u8 list) rocks \<Rightarrow> ('e, string, u8 list) rocks \<Rightarrow> send_env \<Rightarrow> nat \<Rightarrow> u64
    \<Rightarrow> batch_part list \<Rightarrow> ('d, 'e) send_state \<times> batch_part list \<Rightarrow> ('d, 'e) send_state \<times> batch_part list" where
  "send_parts_one_by_one hkv lkv env max_retries peer_id parts acc =
     fold (send_one hkv lkv env max_retries peer_id) (se_order env (List.enumerate 0 parts)) acc"

definition send_parts_to_peer :: "('d, string, u8 list) rocks \<Rightarrow> ('e, string, u8 list) rocks \<Rightarrow> send_env \<Rightarrow> nat \<Rightarrow> u64
    \<Rightarrow> batch_part list \<Rightarrow> ('d, 'e) send_state \<Rightarrow> ('d, 'e) send_state \<times> batch_part list" where
  "send_parts_to_peer hkv lkv env max_retries peer_id parts st =
     (case send_attempts (se_serializes env) (se_answer env) (se_backoff env) max_retries 0 parts [] of
        (got, AllAccepted) \<Rightarrow> (st, got)
      | (got, FallBack rest) \<Rightarrow> send_parts_one_by_one hkv lkv env max_retries peer_id rest (st, got)
      | (got, GaveUp rest) \<Rightarrow>
          ((map_option (enqueue_again hkv peer_id (map hint_of_part rest)) (fst st), snd st), got))"

definition send_to_peer :: "('d, string, u8 list) rocks \<Rightarrow> ('e, string, u8 list) rocks \<Rightarrow> (u64 \<Rightarrow> send_env) \<Rightarrow> nat
    \<Rightarrow> u64 \<times> string \<times> batch_part list \<Rightarrow> ('d, 'e) send_state \<times> (u64 \<times> batch_part list) list
    \<Rightarrow> ('d, 'e) send_state \<times> (u64 \<times> batch_part list) list" where
  "send_to_peer hkv lkv env max_retries = (\<lambda>(peer_id, address, parts) (st, log).
     let (st, got) = send_parts_to_peer hkv lkv (env peer_id) max_retries peer_id parts st in (st, log @ [(peer_id, got)]))"

definition replicate_round :: "('d, string, u8 list) rocks \<Rightarrow> ('e, string, u8 list) rocks \<Rightarrow> (u64 \<Rightarrow> send_env) \<Rightarrow> nat
    \<Rightarrow> cluster_membership \<Rightarrow> u64 \<Rightarrow> outbound_batch list \<Rightarrow> ('d, 'e) send_state
    \<Rightarrow> ('d, 'e) send_state \<times> (u64 \<times> batch_part list) list" where
  "replicate_round hkv lkv env max_retries m self_id jobs st =
     fold (send_to_peer hkv lkv env max_retries) (per_peer_parts m self_id jobs) (st, [])"

section \<open>The outbound queue\<close>

text \<open>
  A write is queued for the processor of the rounds; when the queue is full its hints are written
  instead, one peer after another until one of them fails. The caller does not wait for the hints.
\<close>

datatype queue_error = SpillNotConfigured | OutboundClosed | SpillFailed hint_error

fun hint_each :: "('d, string, u8 list) rocks \<Rightarrow> hint_payload \<Rightarrow> u64 list \<Rightarrow> 'd hinted_handoff \<Rightarrow> 'd hinted_handoff \<times> (queue_error + unit)" where
  "hint_each hkv hint [] hh = (hh, Inr ())"
| "hint_each hkv hint (peer_id # ids) hh =
     (case enqueue_hint hkv hh peer_id hint of
        (hh, Inl e) \<Rightarrow> (hh, Inl (SpillFailed e))
      | (hh, Inr _) \<Rightarrow> hint_each hkv hint ids hh)"

definition enqueue_batch_to_hinted_handoff :: "('d, string, u8 list) rocks \<Rightarrow> cluster_membership \<Rightarrow> u64 \<Rightarrow> outbound_batch
    \<Rightarrow> 'd hinted_handoff \<Rightarrow> 'd hinted_handoff \<times> (queue_error + unit)" where
  "enqueue_batch_to_hinted_handoff hkv m self_id batch hh =
     hint_each hkv (hint_of_part (part_of_job batch))
       (map fst (resolve_replication_peers m self_id (ob_target_node_ids batch))) hh"

definition replicate_write :: "('d, string, u8 list) rocks \<Rightarrow> cluster_membership \<Rightarrow> u64 \<Rightarrow> bool \<Rightarrow> nat \<Rightarrow> outbound_batch
    \<Rightarrow> outbound_batch list \<times> 'd hinted_handoff option \<Rightarrow> (outbound_batch list \<times> 'd hinted_handoff option) \<times> (queue_error + unit)" where
  "replicate_write hkv m self_id closed capacity batch st =
     (let (queue, hh) = st
      in if closed then ((queue, hh), Inl OutboundClosed)
         else if length queue < capacity then ((queue @ [batch], hh), Inr ())
         else case hh of
             None \<Rightarrow> ((queue, hh), Inl SpillNotConfigured)
           | Some h \<Rightarrow> ((queue, Some (fst (enqueue_batch_to_hinted_handoff hkv m self_id batch h))), Inr ()))"

section \<open>Synchronous writes\<close>

datatype sync_event = PeerAcked | PeerFailed | DeadlinePassed

datatype sync_error = ClusterUnavailable | ReplicationQuorumTimeout nat nat

text \<open>
  The wait for acknowledgements: each event is the result of one peer's send, in the order they
  arrive, or the deadline; \<open>pending\<close> sends have not ended.
\<close>

fun await_acks :: "nat \<Rightarrow> nat \<Rightarrow> nat \<Rightarrow> sync_event list \<Rightarrow> sync_error + unit" where
  "await_acks required acks pending [] =
     (if required \<le> acks then Inr () else Inl (ReplicationQuorumTimeout acks required))"
| "await_acks required acks pending (ev # evs) =
     (if acks < required \<and> 0 < pending then
        (case ev of
           PeerAcked \<Rightarrow> await_acks required (acks + 1) (pending - 1) evs
         | PeerFailed \<Rightarrow> await_acks required acks (pending - 1) evs
         | DeadlinePassed \<Rightarrow> Inl (ReplicationQuorumTimeout acks required))
      else if required \<le> acks then Inr () else Inl (ReplicationQuorumTimeout acks required))"

definition replicate_write_sync :: "cluster_membership \<Rightarrow> u64 \<Rightarrow> outbound_batch \<Rightarrow> nat \<Rightarrow> bool \<Rightarrow> sync_event list \<Rightarrow> sync_error + unit" where
  "replicate_write_sync m self_id batch min_acks permit evs =
     (let peers = resolve_replication_peers m self_id (ob_target_node_ids batch);
          required = min min_acks (length peers)
      in if required = 0 then Inr ()
         else if \<not> permit then Inl ClusterUnavailable
         else await_acks required 0 (length peers) evs)"

section \<open>Mutations\<close>

text \<open>
  A mutation is logged, then sent to every peer at once; each send retries on its own, and the
  whole fails when one of them gave up.
\<close>

function mutation_attempts :: "(nat \<Rightarrow> post_reply) \<Rightarrow> nat \<Rightarrow> nat \<Rightarrow> u64 option option" where
  "mutation_attempts answer max_attempts attempts =
     (case answer (Suc attempts) of
        PostSuccess ack \<Rightarrow> Some ack
      | _ \<Rightarrow> if max_attempts \<le> Suc attempts then None else mutation_attempts answer max_attempts (Suc attempts))"
  by pat_completeness auto
termination
  by (relation "measure (\<lambda>(answer, max_attempts, attempts). max_attempts - attempts)") auto

declare mutation_attempts.simps [simp del]

definition send_mutation :: "('e, string, u8 list) rocks \<Rightarrow> (u64 \<Rightarrow> nat \<Rightarrow> post_reply) \<Rightarrow> nat \<Rightarrow> u64 \<times> string
    \<Rightarrow> 'e replication_log \<times> bool list \<Rightarrow> 'e replication_log \<times> bool list" where
  "send_mutation lkv answers max_attempts peer acc =
     (let (rl, outcomes) = acc
      in case mutation_attempts (answers (fst peer)) max_attempts 0 of
           Some (Some ack) \<Rightarrow> (fst (set_mutation_ack lkv rl (fst peer) ack), outcomes @ [True])
         | Some None \<Rightarrow> (rl, outcomes @ [True])
         | None \<Rightarrow> (rl, outcomes @ [False]))"

definition do_replicate_mutation :: "('e, string, u8 list) rocks \<Rightarrow> ('r mutation_log_entry \<Rightarrow> string + u8 list)
    \<Rightarrow> (u64 \<Rightarrow> nat \<Rightarrow> post_reply) \<Rightarrow> nat \<Rightarrow> cluster_membership \<Rightarrow> u64 \<Rightarrow> u64 list option \<Rightarrow> 'r \<Rightarrow> 'e replication_log
    \<Rightarrow> 'e replication_log \<times> (string + unit)" where
  "do_replicate_mutation lkv enc answers max_attempts m self_id targets req rl =
     (case append_mutation lkv enc rl req of
        (rl, Inl _) \<Rightarrow> (rl, Inl ''failed to log mutation'')
      | (rl, Inr _) \<Rightarrow>
          let peers = resolve_replication_peers m self_id targets
          in if peers = [] then (rl, Inr ())
             else let (rl, outcomes) = fold (send_mutation lkv answers max_attempts) peers (rl, [])
                  in if \<exists>ok\<in>set outcomes. \<not> ok then (rl, Inl ''mutation replication failed for one or more peers'')
                     else (rl, Inr ()))"

section \<open>Accepted or hinted\<close>

lemma mset_split: "mset (filter P xs) + mset (filter (\<lambda>x. \<not> P x) xs) = mset xs"
  by (induction xs) auto

lemma mset_outcomes:
  "length os = length parts \<Longrightarrow>
    mset (map fst (filter (\<lambda>(_, outcome). outcome = Accepted) (zip parts os)))
    + mset (map fst (filter (\<lambda>(_, outcome). outcome \<noteq> Accepted) (zip parts os))) = mset parts"
  by (induction os parts rule: list_induct2) auto

fun unsent :: "send_end \<Rightarrow> batch_part list" where
  "unsent AllAccepted = []"
| "unsent (FallBack parts) = parts"
| "unsent (GaveUp parts) = parts"

lemma send_attempts_split:
  "mset (fst (send_attempts serializes answer backoff max_retries attempts parts got))
     + mset (unsent (snd (send_attempts serializes answer backoff max_retries attempts parts got))) = mset got + mset parts"
proof (induction serializes answer backoff max_retries attempts parts got rule: send_attempts.induct)
  case (1 serializes answer backoff max_retries attempts parts got)
  show ?case
  proof (cases "serializes parts \<and> answer (Suc attempts) parts \<noteq> OldPeer")
    case False
    then show ?thesis by (subst (1 2) send_attempts.simps) auto
  next
    case True
    define r results where "r = answer (Suc attempts) parts"
      and "results = (case r of Outcomes (Some os) \<Rightarrow> if length os = length parts then Some os else None | _ \<Rightarrow> None)"
    define taken where "taken = (case results of Some os \<Rightarrow> map fst (filter (\<lambda>(_, outcome). outcome = Accepted) (zip parts os)) | None \<Rightarrow> [])"
    define left where "left = (case results of Some os \<Rightarrow> map fst (filter (\<lambda>(_, outcome). outcome \<noteq> Accepted) (zip parts os)) | None \<Rightarrow> parts)"
    have split: "mset taken + mset left = mset parts"
    proof (cases results)
      case (Some os)
      then have "length os = length parts" by (auto simp: results_def split: send_reply.splits option.splits if_splits)
      then show ?thesis unfolding taken_def left_def Some option.case by (rule mset_outcomes)
    qed (simp add: taken_def left_def)
    have step: "send_attempts serializes answer backoff max_retries attempts parts got =
        (if results \<noteq> None \<and> left = [] then (got @ taken, AllAccepted)
         else if max_retries \<le> Suc attempts \<or> \<not> backoff (Suc attempts) then (got @ taken, GaveUp left)
         else send_attempts serializes answer backoff max_retries (Suc attempts) left (got @ taken))"
      using True by (subst send_attempts.simps)
        (cases r; simp add: r_def results_def taken_def left_def Let_def cong: if_cong)
    have IH: "mset (fst (send_attempts serializes answer backoff max_retries (Suc attempts) left (got @ taken)))
        + mset (unsent (snd (send_attempts serializes answer backoff max_retries (Suc attempts) left (got @ taken)))) =
        mset (got @ taken) + mset left"
      if "\<not> (results \<noteq> None \<and> left = [])" "\<not> (max_retries \<le> Suc attempts \<or> \<not> backoff (Suc attempts))"
      using 1 True that by (cases r) (auto simp: r_def results_def taken_def left_def)
    show ?thesis unfolding step using split IH by (auto simp: ac_simps)
  qed
qed

lemma run_ctx_async:
  "\<not> rc_sync ctx \<Longrightarrow> run_ctx hkv lkv answer backoff ctx (hh, rl) =
    (case run_attempts answer backoff (rc_max_attempts ctx) 0 of
       Inr _ \<Rightarrow> ((hh, rl), Inr 0)
     | Inl e \<Rightarrow> ((map_option (\<lambda>hh. fst (enqueue_hint hkv hh (rc_peer_id ctx) (rc_hint_payload ctx))) hh, rl), Inl e))"
  by (simp add: run_ctx_def split: sum.split)

lemma send_one_fold:
  "\<exists>kept. fold (send_one hkv lkv env max_retries p) ips ((Some hh, rl), got) =
      ((Some (enqueue_again hkv p (map hint_of_part kept) hh), rl), got @ map snd (filter (\<lambda>ip. isl (run_attempts (se_post env (fst ip)) (se_post_backoff env (fst ip)) max_retries 0) = False) ips))
     \<and> kept = map snd (filter (\<lambda>ip. isl (run_attempts (se_post env (fst ip)) (se_post_backoff env (fst ip)) max_retries 0)) ips)"
proof (induction ips arbitrary: hh got)
  case Nil
  then show ?case by (simp add: enqueue_again_def)
next
  case (Cons ip ips)
  obtain i part where ip: "ip = (i, part)" by fastforce
  show ?case
  proof (cases "run_attempts (se_post env i) (se_post_backoff env i) max_retries 0")
    case (Inl e)
    with Cons.IH [of "fst (enqueue_hint hkv hh p (hint_of_part part))" got] show ?thesis
      by (simp add: ip send_one_def run_ctx_async enqueue_again_def)
  next
    case (Inr a)
    with Cons.IH [of hh "got @ [part]"] show ?thesis by (simp add: ip send_one_def run_ctx_async)
  qed
qed

lemma send_parts_split:
  assumes order: "\<And>xs. mset (se_order env xs) = mset xs"
  obtains hinted got where "send_parts_to_peer hkv lkv env max_retries p parts (Some hh, rl) =
      ((Some (enqueue_again hkv p (map hint_of_part hinted) hh), rl), got)" and "mset parts = mset got + mset hinted"
proof -
  obtain got fin where s: "send_attempts (se_serializes env) (se_answer env) (se_backoff env) max_retries 0 parts [] = (got, fin)"
    by fastforce
  have m: "mset got + mset (unsent fin) = mset parts"
    using send_attempts_split [of "se_serializes env" "se_answer env" "se_backoff env" max_retries 0 parts "[]"] s by simp
  show thesis
  proof (cases fin)
    case AllAccepted
    show thesis by (rule that [of "[]" got]) (use s m AllAccepted in \<open>simp_all add: send_parts_to_peer_def enqueue_again_def\<close>)
  next
    case (GaveUp rest)
    show thesis by (rule that [of rest got]) (use s m GaveUp in \<open>simp_all add: send_parts_to_peer_def\<close>)
  next
    case (FallBack rest)
    define ips where "ips = se_order env (List.enumerate 0 rest)"
    define bad where "bad = (\<lambda>ip :: nat \<times> batch_part. isl (run_attempts (se_post env (fst ip)) (se_post_backoff env (fst ip)) max_retries 0))"
    have "mset (map snd ips) = mset (map snd (List.enumerate 0 rest))" unfolding mset_map ips_def order ..
    then have "mset rest = mset (map snd ips)" by simp
    moreover have "mset (map snd ips) = mset (map snd (filter (\<lambda>ip. \<not> bad ip) ips)) + mset (map snd (filter bad ips))"
      by (induction ips) auto
    moreover have "fold (send_one hkv lkv env max_retries p) ips ((Some hh, rl), got) =
        ((Some (enqueue_again hkv p (map hint_of_part (map snd (filter bad ips))) hh), rl), got @ map snd (filter (\<lambda>ip. \<not> bad ip) ips))"
      using send_one_fold [of hkv lkv env max_retries p ips hh rl got] by (simp add: bad_def)
    ultimately show thesis
      by (intro that [of "map snd (filter bad ips)" "got @ map snd (filter (\<lambda>ip. \<not> bad ip) ips)"])
        (use s m FallBack in \<open>simp_all add: send_parts_to_peer_def send_parts_one_by_one_def ac_simps flip: ips_def\<close>)
  qed
qed

lemma send_parts_rel:
  assumes laws: "rocks_laws hkv rows" "rocks_reliable hkv" and rel: "hh_rel hkv rows n hh q" and cap: "max_hints_per_peer hh = cap"
    and order: "\<And>xs. mset (se_order env xs) = mset xs" and enc: "list_all (\<lambda>part. hint_encodes (hint_of_part part)) parts"
    and n: "n + length parts < 2 ^ 64" and room: "0 < cap \<longrightarrow> length (q p) + length parts \<le> unat cap"
  shows "\<exists>hh' got hinted. send_parts_to_peer hkv lkv env max_retries p parts (Some hh, rl) = ((Some hh', rl), got)
    \<and> mset parts = mset got + mset hinted \<and> max_hints_per_peer hh' = cap
    \<and> hh_rel hkv rows (n + length parts) hh' (q(p := q p @ map (\<lambda>part. stored_hint (hint_of_part part)) hinted))"
proof -
  obtain hinted got where s: "send_parts_to_peer hkv lkv env max_retries p parts (Some hh, rl) =
      ((Some (enqueue_again hkv p (map hint_of_part hinted) hh), rl), got)" and m: "mset parts = mset got + mset hinted"
    by (rule send_parts_split [OF order])
  have len: "length hinted \<le> length parts" using m by (metis le_add2 size_mset size_union)
  have sub: "set hinted \<subseteq> set parts" using m by (metis Un_upper2 set_mset_mset set_mset_union)
  have "list_all hint_encodes (map hint_of_part hinted)" using enc sub by (auto simp: list_all_iff)
  moreover have "0 < cap \<longrightarrow> length (q p) + length (map hint_of_part hinted) \<le> unat cap" using room len by auto
  ultimately have rel': "hh_rel hkv rows (n + length hinted) (enqueue_again hkv p (map hint_of_part hinted) hh)
      (q(p := q p @ map stored_hint (map hint_of_part hinted)))"
    and c: "max_hints_per_peer (enqueue_again hkv p (map hint_of_part hinted) hh) = cap"
    using enqueue_again_rel [OF laws rel, of "map hint_of_part hinted" cap p] cap n len by simp_all
  have "map stored_hint (map hint_of_part hinted) = map (\<lambda>part. stored_hint (hint_of_part part)) hinted" by simp
  note rel'' = rel' [unfolded this]
  have "n + length hinted \<le> n + length parts" using len by simp
  from hh_rel_mono [OF rel'' this] s m c show ?thesis by blast
qed

lemma round_rel:
  assumes laws: "rocks_laws hkv rows" "rocks_reliable hkv" and order: "\<And>p xs. mset (se_order (env p) xs) = mset xs"
  shows "hh_rel hkv rows n hh q \<Longrightarrow> max_hints_per_peer hh = cap \<Longrightarrow> distinct (map fst pp) \<Longrightarrow>
    \<forall>(i, a, parts)\<in>set pp. list_all (\<lambda>part. hint_encodes (hint_of_part part)) parts
       \<and> (0 < cap \<longrightarrow> length (q i) + length parts \<le> unat cap) \<Longrightarrow>
    n + sum_list (map (\<lambda>(i, a, parts). length parts) pp) < 2 ^ 64 \<Longrightarrow>
    \<exists>hh' log' hinted. fold (send_to_peer hkv lkv env max_retries) pp ((Some hh, rl), log) = ((Some hh', rl), log @ log')
      \<and> map fst log' = map fst pp \<and> (\<forall>i. i \<notin> fst ` set pp \<longrightarrow> hinted i = [])
      \<and> (\<forall>(i, a, parts)\<in>set pp. \<exists>got. (i, got) \<in> set log' \<and> mset parts = mset got + mset (hinted i))
      \<and> hh_rel hkv rows (n + sum_list (map (\<lambda>(i, a, parts). length parts) pp)) hh'
           (\<lambda>i. q i @ map (\<lambda>part. stored_hint (hint_of_part part)) (hinted i))"
proof (induction pp arbitrary: n hh q log)
  case Nil
  then show ?case by (intro exI [of _ hh] exI [of _ "[]"] exI [of _ "\<lambda>_. []"]) simp
next
  case (Cons x pp)
  obtain p a parts where x: "x = (p, a, parts)" by (cases x) auto
  from Cons.prems x have enc: "list_all (\<lambda>part. hint_encodes (hint_of_part part)) parts"
    and room: "0 < cap \<longrightarrow> length (q p) + length parts \<le> unat cap" and new: "p \<notin> fst ` set pp" by auto
  obtain hh1 got h1 where 1: "send_parts_to_peer hkv lkv (env p) max_retries p parts (Some hh, rl) = ((Some hh1, rl), got)"
      "mset parts = mset got + mset h1" "max_hints_per_peer hh1 = cap"
      "hh_rel hkv rows (n + length parts) hh1 (q(p := q p @ map (\<lambda>part. stored_hint (hint_of_part part)) h1))"
    using send_parts_rel [where env = "env p" and lkv = lkv and max_retries = max_retries and rl = rl,
        OF laws Cons.prems(1,2) order enc _ room] Cons.prems(5) x by auto
  let ?q1 = "q(p := q p @ map (\<lambda>part. stored_hint (hint_of_part part)) h1)"
  have q1: "?q1 i = q i" if "i \<in> fst ` set pp" for i using new that by auto
  have "\<forall>(i, a, parts)\<in>set pp. list_all (\<lambda>part. hint_encodes (hint_of_part part)) parts
       \<and> (0 < cap \<longrightarrow> length (?q1 i) + length parts \<le> unat cap)"
    using Cons.prems(4) q1 by fastforce
  with Cons.IH [OF 1(4,3), of "log @ [(p, got)]"] Cons.prems(3,5) x obtain hh' log' hinted where
    2: "fold (send_to_peer hkv lkv env max_retries) pp ((Some hh1, rl), log @ [(p, got)]) = ((Some hh', rl), (log @ [(p, got)]) @ log')"
      "map fst log' = map fst pp" "\<forall>i. i \<notin> fst ` set pp \<longrightarrow> hinted i = []"
      "\<forall>(i, a, parts)\<in>set pp. \<exists>got. (i, got) \<in> set log' \<and> mset parts = mset got + mset (hinted i)"
      "hh_rel hkv rows (n + length parts + sum_list (map (\<lambda>(i, a, parts). length parts) pp)) hh'
         (\<lambda>i. ?q1 i @ map (\<lambda>part. stored_hint (hint_of_part part)) (hinted i))"
    by (auto simp: add.assoc)
  define hinted' where "hinted' = hinted(p := h1)"
  have "(\<lambda>i. ?q1 i @ map (\<lambda>part. stored_hint (hint_of_part part)) (hinted i)) =
      (\<lambda>i. q i @ map (\<lambda>part. stored_hint (hint_of_part part)) (hinted' i))"
    using 2(3) new by (auto simp: hinted'_def fun_eq_iff)
  note rel = 2(5) [unfolded this]
  have "\<exists>got. (i, got) \<in> set ((p, got') # log') \<and> mset parts = mset got + mset (hinted' i)"
    if "(i, a, parts) \<in> set pp" for i a parts got'
    using 2(4) that new by (force simp: hinted'_def)
  then have "\<forall>(i, a, parts)\<in>set (x # pp). \<exists>g. (i, g) \<in> set ((p, got) # log') \<and> mset parts = mset g + mset (hinted' i)"
    using 1(2) x by (auto simp: hinted'_def)
  moreover have "fold (send_to_peer hkv lkv env max_retries) (x # pp) ((Some hh, rl), log) = ((Some hh', rl), log @ ((p, got) # log'))"
    using 2(1) by (simp add: x send_to_peer_def [of hkv lkv env max_retries] 1(1) Let_def split_def)
  moreover have "\<forall>i. i \<notin> fst ` set (x # pp) \<longrightarrow> hinted' i = []" using 2(3) x by (auto simp: hinted'_def)
  ultimately show ?case
    using 2(2) x rel by (intro exI [of _ hh'] exI [of _ "(p, got) # log'"] exI [of _ hinted']) (simp add: add.assoc)
qed

text \<open>
  C10. Whatever the peers answer, whichever attempts fail and whenever a shutdown cuts the retries
  short, every part a round owes a peer is either accepted by that peer or, afterwards, at the end of
  that peer's hint queue, each exactly once; and the hints of peers the round does not concern do
  not change. This needs a hint store that acknowledges its writes and room in the hint queues.
\<close>

theorem round_delivers_or_hints:
  assumes "rocks_laws hkv rows" and "rocks_reliable hkv" and "\<forall>k. starts_with k ''hh:'' \<longrightarrow> rows d k = None"
    and "new_handoff hkv True d cap = Inr hh0" and "list_all hint_event_ok evs"
    and "hh = fst (run_hint_events hkv evs hh0)" and "q = fst (spec_hint_events cap evs (\<lambda>_. []))"
    and "\<forall>p xs. mset (se_order (env p) xs) = mset xs"
    and "\<forall>job\<in>set jobs. hint_encodes (hint_of_part (part_of_job job))"
    and "\<forall>p. 0 < cap \<longrightarrow> length (q p) + length (parts_for m self_id jobs p) \<le> unat cap"
    and "length evs + sum_list (map (\<lambda>(i, a, parts). length parts) (per_peer_parts m self_id jobs)) < 2 ^ 64"
  shows "\<exists>hh' log. replicate_round hkv lkv env max_retries m self_id jobs (Some hh, rl) = ((Some hh', rl), log)
    \<and> (\<forall>p. \<exists>got hinted. mset (parts_for m self_id jobs p) = mset got + mset hinted
         \<and> (parts_for m self_id jobs p \<noteq> [] \<longrightarrow> (p, got) \<in> set log)
         \<and> (\<forall>j. snd (drain_hints hkv hh' p j) = Inr (take j (q p @ map (\<lambda>part. stored_hint (hint_of_part part)) hinted))))"
proof -
  let ?pp = "per_peer_parts m self_id jobs" and ?store = "map (\<lambda>part. stored_hint (hint_of_part part))"
  note fresh = fresh_handoff [OF assms(1,3,4)]
  have rel: "hh_rel hkv rows (length evs) hh q" "max_hints_per_peer hh = cap"
    using run_hint_events_rel [OF assms(1,2) fresh(1) _ assms(5) fresh(2)] assms(11) by (auto simp: assms(6,7))
  have ok: "per_peer_ok ?pp" by (rule round_entries(1))
  have entry: "parts = parts_for m self_id jobs i" if "(i, a, parts) \<in> set ?pp" for i a parts
    using entry_in(1) [OF ok that] round_entries(2) by simp
  have enc: "list_all (\<lambda>part. hint_encodes (hint_of_part part)) (parts_for m self_id jobs p)" for p
    using assms(9) by (auto simp: parts_for_def list_all_iff split: if_splits)
  have "\<forall>(i, a, parts)\<in>set ?pp. list_all (\<lambda>part. hint_encodes (hint_of_part part)) parts
      \<and> (0 < cap \<longrightarrow> length (q i) + length parts \<le> unat cap)"
    using enc assms(10) by (auto dest!: entry)
  from round_rel [OF assms(1,2) _ rel _ this assms(11), of env lkv max_retries rl "[]"] assms(8) ok
  obtain hh' log hinted where 1: "replicate_round hkv lkv env max_retries m self_id jobs (Some hh, rl) = ((Some hh', rl), log)"
      "\<forall>i. i \<notin> fst ` set ?pp \<longrightarrow> hinted i = []"
      "\<forall>(i, a, parts)\<in>set ?pp. \<exists>got. (i, got) \<in> set log \<and> mset parts = mset got + mset (hinted i)"
      "hh_rel hkv rows (length evs + sum_list (map (\<lambda>(i, a, parts). length parts) ?pp)) hh' (\<lambda>i. q i @ ?store (hinted i))"
    by (auto simp: replicate_round_def per_peer_ok_def)
  have drain: "snd (drain_hints hkv hh' p j) = Inr (take j (q p @ ?store (hinted p)))" for p j
    using drain_hints_rel [OF assms(1,2) 1(4) assms(11), of p j] by auto
  have "\<exists>got. mset (parts_for m self_id jobs p) = mset got + mset (hinted p)
      \<and> (parts_for m self_id jobs p \<noteq> [] \<longrightarrow> (p, got) \<in> set log)" for p
  proof (cases "parts_for m self_id jobs p = []")
    case True
    have "p \<notin> fst ` set ?pp" using entry True ok by (force simp: per_peer_ok_def)
    with 1(2) True show ?thesis by (intro exI [of _ "[]"]) simp
  next
    case False
    then obtain a where "(p, a, parts_for m self_id jobs p) \<in> set ?pp"
      using entry_in(2) [OF ok, of p] by (auto simp: round_entries(2))
    with 1(3) show ?thesis by blast
  qed
  with 1(1) drain show ?thesis by blast
qed

section \<open>Quorum\<close>

lemma await_acks_iff:
  "await_acks required acks pending evs = Inr () \<longleftrightarrow>
    required \<le> acks + length (filter (\<lambda>ev. ev = PeerAcked) (takeWhile (\<lambda>ev. ev \<noteq> DeadlinePassed) (take pending evs)))"
proof (induction required acks pending evs rule: await_acks.induct)
  case (2 required acks pending ev evs)
  show ?case
  proof (cases "acks < required \<and> 0 < pending")
    case True
    then obtain k where "pending = Suc k" by (cases pending) auto
    with 2 True show ?thesis by (cases ev) auto
  next
    case False
    then show ?thesis by auto
  qed
qed simp

text \<open>
  C30. A synchronous write succeeds exactly when as many of its peers as were asked for, or all of
  them if there are fewer, acknowledged it before the deadline.
\<close>

theorem sync_write_quorum:
  "replicate_write_sync m self_id batch min_acks True evs = Inr () \<longleftrightarrow>
    min min_acks (length (resolve_replication_peers m self_id (ob_target_node_ids batch)))
      \<le> length (filter (\<lambda>ev. ev = PeerAcked) (takeWhile (\<lambda>ev. ev \<noteq> DeadlinePassed)
          (take (length (resolve_replication_peers m self_id (ob_target_node_ids batch))) evs)))"
  by (simp add: replicate_write_sync_def Let_def await_acks_iff)

text \<open>
  A synchronous send records, as the acknowledgement of the peer, the number in the peer's
  answer. That is the number the peer's own log gave the write (\<open>handle_replicate_write\<close> answers with
  it), not the number of the write in the log of the sender, against which acknowledgements are
  compared when that log is truncated: after the write of number \<open>w\<close>, a peer whose log is ahead, at
  \<open>r > w\<close>, counts as having acknowledged every write up to \<open>r\<close>.
\<close>

theorem sync_ack_is_the_peers_number:
  assumes "rocks_laws lkv rows" and "rocks_atomic lkv rows" and "codec_ok enc dec" and "rows d = Map.empty" and "Suc (length evs) < 2 ^ 64"
    and "rl = foldl (repl_step lkv enc) (open_log lkv d) evs" and "rocks_reliable lkv"
    and "handle_replicate_write membership True shard_map (rc_peer_id ctx) None (Some (Inr r)) origin True True part = ([job], WriteAck a)"
    and "answer 1 = PostSuccess (Some a)" and "rc_sync ctx" and "get_wal_ack lkv rl (rc_peer_id ctx) = Inr old" and "old < r"
  shows "get_wal_ack lkv (snd (fst (run_ctx hkv lkv answer backoff ctx (hh, rl)))) (rc_peer_id ctx) = Inr r"
proof -
  have a: "a = r" using assms(8) by (auto simp: handle_replicate_write_def Let_def split: if_splits)
  have ok: "log_state_ok dec rows rl"
    unfolding assms(6) by (rule reached_ok(1) [OF assms(1-4)]) (use assms(5) in simp)
  note get = get_ack_value [OF assms(1) log_state_okD(1) [OF ok]]
  have old: "ack_value (rows (rl_db rl)) (ack_key (rc_peer_id ctx)) = old"
    using assms(11) by (simp add: get_wal_ack_def get)
  have run: "run_attempts answer backoff (rc_max_attempts ctx) 0 = Inr (Some r)"
    using assms(9) a by (subst run_attempts.simps) simp
  have set: "set_wal_ack lkv rl (rc_peer_id ctx) r = put_row lkv rl ''set_wal_ack'' (ack_key (rc_peer_id ctx)) (to_be_bytes r)"
    using set_ack_eq [OF assms(1) log_state_okD(1) [OF ok], of "ack_key (rc_peer_id ctx)"] old assms(12) by (auto simp: set_wal_ack_def)
  obtain d' where "rdb_write lkv (rl_db rl) [Put (ack_key (rc_peer_id ctx)) (to_be_bytes r)] = (d', Inr ())"
    by (rule reliable_write [OF assms(7,1)])
  then obtain rl' where put: "put_row lkv rl ''set_wal_ack'' (ack_key (rc_peer_id ctx)) (to_be_bytes r) = (rl', Inr ())"
    by (simp add: put_row_def)
  from put_row_rows [OF assms(1) put] have "get_wal_ack lkv rl' (rc_peer_id ctx) = Inr r"
    by (simp add: get_wal_ack_def get_ack_def rdb_get_rows [OF assms(1)] be_u64_def)
  then show ?thesis using assms(10) run set put by (simp add: run_ctx_def)
qed

section \<open>Mutations reach every peer or are reported\<close>

lemma mutation_attempts_iff:
  "mutation_attempts answer max_attempts attempts \<noteq> None \<longleftrightarrow>
    (\<exists>k ack. attempts < k \<and> k \<le> max (Suc attempts) max_attempts \<and> answer k = PostSuccess ack)"
proof (induction answer max_attempts attempts rule: mutation_attempts.induct)
  case (1 answer max_attempts attempts)
  show ?case
  proof (cases "\<exists>ack. answer (Suc attempts) = PostSuccess ack")
    case True
    then show ?thesis by (subst mutation_attempts.simps) (auto intro: exI [of _ "Suc attempts"])
  next
    case False
    then have step: "mutation_attempts answer max_attempts attempts =
        (if max_attempts \<le> Suc attempts then None else mutation_attempts answer max_attempts (Suc attempts))"
      by (subst mutation_attempts.simps) (auto split: post_reply.split)
    show ?thesis
    proof (cases "max_attempts \<le> Suc attempts")
      case True
      with False have "\<not> (\<exists>k ack. attempts < k \<and> k \<le> max (Suc attempts) max_attempts \<and> answer k = PostSuccess ack)"
        by (metis Suc_leI le_antisym max_def)
      with True show ?thesis by (simp add: step)
    next
      case less: False
      have "mutation_attempts answer max_attempts (Suc attempts) \<noteq> None \<longleftrightarrow>
          (\<exists>k ack. Suc attempts < k \<and> k \<le> max_attempts \<and> answer k = PostSuccess ack)"
        using 1 False less by (cases "answer (Suc attempts)") (auto simp: max_def)
      also have "\<dots> \<longleftrightarrow> (\<exists>k ack. attempts < k \<and> k \<le> max (Suc attempts) max_attempts \<and> answer k = PostSuccess ack)"
        using False less by (metis Suc_lessD Suc_lessI max.absorb2 nat_le_linear)
      finally show ?thesis using less by (simp add: step)
    qed
  qed
qed

lemma send_mutations_outcomes:
  "snd (fold (send_mutation lkv answers max_attempts) ps (rl, outcomes)) =
    outcomes @ map (\<lambda>peer. mutation_attempts (answers (fst peer)) max_attempts 0 \<noteq> None) ps"
proof (induction ps arbitrary: rl outcomes)
  case (Cons peer ps)
  let ?ok = "mutation_attempts (answers (fst peer)) max_attempts 0 \<noteq> None"
  have "snd (send_mutation lkv answers max_attempts peer (rl, outcomes)) = outcomes @ [?ok]"
    by (simp add: send_mutation_def split: option.split)
  then obtain rl' where "send_mutation lkv answers max_attempts peer (rl, outcomes) = (rl', outcomes @ [?ok])"
    by (metis prod.collapse)
  with Cons.IH [of rl' "outcomes @ [?ok]"] show ?case by simp
qed simp

text \<open>
  Replicating a mutation reports success exactly when the mutation was logged and every peer
  it goes to answered one of the attempts made with success.
\<close>

theorem mutation_reported_iff_acknowledged:
  "snd (do_replicate_mutation lkv enc answers max_attempts m self_id targets req rl) = Inr () \<longleftrightarrow>
    (\<exists>rl' s. append_mutation lkv enc rl req = (rl', Inr s))
    \<and> (\<forall>(p, a)\<in>set (resolve_replication_peers m self_id targets).
         \<exists>k ack. 0 < k \<and> k \<le> max 1 max_attempts \<and> answers p k = PostSuccess ack)"
proof -
  obtain rl1 r where app: "append_mutation lkv enc rl req = (rl1, r)" by fastforce
  define ps where "ps = resolve_replication_peers m self_id targets"
  have all: "(\<forall>ok\<in>set (snd (fold (send_mutation lkv answers max_attempts) ps (rl1, []))). ok) \<longleftrightarrow>
      (\<forall>(p, a)\<in>set ps. \<exists>k ack. 0 < k \<and> k \<le> max 1 max_attempts \<and> answers p k = PostSuccess ack)"
    using mutation_attempts_iff [of _ max_attempts 0] by (simp add: send_mutations_outcomes split_def)
  show ?thesis
  proof (cases r)
    case (Inl e)
    then show ?thesis by (simp add: do_replicate_mutation_def app)
  next
    case (Inr s)
    have "snd (do_replicate_mutation lkv enc answers max_attempts m self_id targets req rl) = Inr () \<longleftrightarrow>
        (\<forall>ok\<in>set (snd (fold (send_mutation lkv answers max_attempts) ps (rl1, []))). ok)"
      using Inr by (auto simp: do_replicate_mutation_def app Let_def split_def simp flip: ps_def)
    then show ?thesis using all Inr app by (simp add: ps_def)
  qed
qed

section \<open>Spilled batches\<close>

lemma full_queue_refuses:
  "hh_cf hh \<Longrightarrow> 0 < max_hints_per_peer hh \<Longrightarrow> max_hints_per_peer hh \<le> count_of (hint_counts hh) p \<Longrightarrow>
    \<exists>hh' e. enqueue_hint hkv hh p h = (hh', Inl e) \<and> hh_db hh' = hh_db hh \<and> hh_seq hh' = hh_seq hh"
  by (simp add: enqueue_hint_def Let_def)

text \<open>
  A write that finds the outbound queue full is reported as taken; when the hint queue of the
  first of its peers is full, no hint is written for any of the others either, whatever room they have.
\<close>

theorem spill_stops_at_full_peer:
  assumes "hh_cf hh" and "0 < max_hints_per_peer hh" and "max_hints_per_peer hh \<le> count_of (hint_counts hh) p"
    and "resolve_replication_peers m self_id (ob_target_node_ids batch) = (p, address) # others" and "capacity \<le> length queue"
  shows "\<exists>hh'. replicate_write hkv m self_id False capacity batch (queue, Some hh) = ((queue, Some hh'), Inr ()) \<and> hh_db hh' = hh_db hh"
proof -
  from full_queue_refuses [OF assms(1-3)] obtain hh' e
    where "enqueue_hint hkv hh p (hint_of_part (part_of_job batch)) = (hh', Inl e)" "hh_db hh' = hh_db hh" by blast
  with assms(4,5) show ?thesis by (simp add: replicate_write_def enqueue_batch_to_hinted_handoff_def)
qed

section \<open>Witnesses\<close>

definition demo_send_env :: send_env where
  "demo_send_env =
     \<lparr>se_serializes = (\<lambda>_. True), se_answer = (\<lambda>k parts. if k = 1 then NoConnection else Outcomes (Some (map (\<lambda>_. QueueFull) parts))),
      se_backoff = (\<lambda>_. True), se_order = (\<lambda>xs. xs), se_post = (\<lambda>_ _. PostError), se_post_backoff = (\<lambda>_ _. False)\<rparr>"

lemma demo_part_encodes: "hint_encodes (hint_of_part (part_of_job (demo_out_batch 1 7 None)))"
proof -
  let ?h = "hint_of_part (part_of_job (demo_out_batch 1 7 None))"
  have "\<exists>v. encode_hint_value ?h = Inr v \<and> length v < 2 ^ 64"
    by (simp add: encode_hint_value_def hint_of_part_def part_of_job_def demo_out_batch_def as_bytes_def)
  then show ?thesis
    by (auto simp: hint_encodes_def hint_fits_def)
      (simp add: hint_text_ok_def text_ok_def hint_of_part_def part_of_job_def demo_out_batch_def as_bytes_def of_char_def)
qed

lemma demo_targets: "resolve_replication_peers demo_members 1 None = [(2, ''h'')]"
  by (simp add: resolve_replication_peers_def replication_peers_def demo_members_def add_node_def new_membership_def
      demo_node_def hm_values_def hm_insert_def)

lemma demo_untargeted: "ob_target_node_ids (demo_out_batch s x region) = None"
  by (simp add: demo_out_batch_def)

lemma demo_owed: "parts_for demo_members 1 [demo_out_batch 1 7 None] p = (if p = 2 then [part_of_job (demo_out_batch 1 7 None)] else [])"
  by (simp add: parts_for_def demo_out_batch_def demo_targets)

definition demo_rl :: "(string \<times> u8 list) list replication_log" where
  "demo_rl = open_log list_kv []"

theorem round_delivers_or_hints_witness:
  "\<exists>hh' log got hinted. replicate_round list_kv list_kv (\<lambda>_. demo_send_env) 2 demo_members 1 [demo_out_batch 1 7 None] (Some demo_hh, demo_rl) =
      ((Some hh', demo_rl), log) \<and> mset [part_of_job (demo_out_batch 1 7 None)] = mset got + mset hinted \<and> (2, got) \<in> set log"
proof -
  let ?jobs = "[demo_out_batch 1 7 None]"
  have h: "list_all hint_event_ok []" "demo_hh = fst (run_hint_events list_kv [] demo_hh)"
    "(\<lambda>_. []) = fst (spec_hint_events 2 [] (\<lambda>_. []))" "\<forall>p xs. mset (se_order ((\<lambda>_. demo_send_env) p) xs) = mset xs"
    "\<forall>job\<in>set ?jobs. hint_encodes (hint_of_part (part_of_job job))"
    "\<forall>p :: u64. 0 < (2 :: u64) \<longrightarrow> length [] + length (parts_for demo_members 1 ?jobs p) \<le> unat (2 :: u64)"
    "length [] + sum_list (map (\<lambda>(i, a, parts). length parts) (per_peer_parts demo_members 1 ?jobs)) < 2 ^ 64"
    using demo_part_encodes by (simp_all add: demo_send_env_def demo_owed per_peer_parts_def demo_untargeted demo_targets)
  have "\<forall>k. starts_with k ''hh:'' \<longrightarrow> map_of [] k = None" by simp
  from round_delivers_or_hints [OF list_kv_laws list_kv_reliable this demo_hh_new h, of list_kv 2 demo_rl]
  obtain hh' log where r: "replicate_round list_kv list_kv (\<lambda>_. demo_send_env) 2 demo_members 1 ?jobs (Some demo_hh, demo_rl) =
      ((Some hh', demo_rl), log)"
    and all: "\<And>p. \<exists>got hinted. mset (parts_for demo_members 1 ?jobs p) = mset got + mset hinted
         \<and> (parts_for demo_members 1 ?jobs p \<noteq> [] \<longrightarrow> (p, got) \<in> set log)"
    by blast
  from all [of 2] r show ?thesis by (auto simp: demo_owed)
qed

definition demo_ctx :: replicate_ctx where
  "demo_ctx = \<lparr>rc_peer_id = 2, rc_wal_seq = 1, rc_hint_payload = demo_hint, rc_sync = True, rc_max_attempts = 3\<rparr>"

theorem sync_ack_is_the_peers_number_witness:
  "get_wal_ack list_kv (snd (fst (run_ctx list_kv list_kv (\<lambda>_. PostSuccess (Some 9)) (\<lambda>_. True) demo_ctx (Some demo_hh, demo_rl)))) 2 = Inr 9"
proof -
  have peer: "rc_peer_id demo_ctx = 2" "rc_sync demo_ctx" by (simp_all add: demo_ctx_def)
  have reply: "handle_replicate_write None True None (rc_peer_id demo_ctx) None (Some (Inr 9)) 0 True True (demo_part 65 None) =
      ([\<lparr>aj_database = ''db'', aj_retention_policy = ''rp'', aj_precision = None, aj_body = [65], aj_origin = 0\<rparr>], WriteAck 9)"
    by (simp add: handle_replicate_write_def validate_origin_node_id_def demo_part_def)
  have old: "get_wal_ack list_kv demo_rl (rc_peer_id demo_ctx) = Inr 0"
    by (simp add: get_wal_ack_def get_ack_def demo_rl_def open_log_def list_kv_def)
  have "demo_rl = foldl (repl_step list_kv bytes_enc) (open_log list_kv []) []" by (simp add: demo_rl_def)
  from sync_ack_is_the_peers_number [OF list_kv_laws list_kv_atomic bytes_codec _ _ this list_kv_reliable reply _ peer(2) old,
      of "\<lambda>_. PostSuccess (Some 9)" list_kv "\<lambda>_. True" "Some demo_hh"]
  show ?thesis by (simp add: peer)
qed

theorem mutation_reported_iff_acknowledged_witness:
  "snd (do_replicate_mutation list_kv bytes_enc (\<lambda>_ k. if k = 2 then PostSuccess None else PostError) 3 demo_members 1 None [1] demo_rl) = Inr ()"
proof -
  have "\<exists>rl' s. append_mutation list_kv bytes_enc demo_rl [1] = (rl', Inr s)"
    by (simp add: append_mutation_def put_row_def bytes_enc_def Let_def)
  then show ?thesis
    unfolding mutation_reported_iff_acknowledged demo_targets by (auto intro!: exI [of _ 2])
qed

definition full_hh :: "(string \<times> u8 list) list hinted_handoff" where
  "full_hh = demo_hh\<lparr>hint_counts := [(2, 2)]\<rparr>"

theorem spill_stops_at_full_peer_witness:
  "\<exists>hh'. replicate_write list_kv demo_members 3 False 0 ((demo_out_batch 1 7 None)\<lparr>ob_target_node_ids := Some [2, 1]\<rparr>) ([], Some full_hh) =
      (([], Some hh'), Inr ()) \<and> hh_db hh' = []"
proof -
  let ?b = "(demo_out_batch 1 7 None)\<lparr>ob_target_node_ids := Some [2, 1]\<rparr>"
  have "resolve_replication_peers demo_members 3 (ob_target_node_ids ?b) = (2, ''h'') # [(1, ''h'')]"
    by (simp add: resolve_replication_peers_def get_node_def demo_members_def add_node_def new_membership_def
        demo_node_def hm_get_def hm_insert_def List.map_filter_def)
  from spill_stops_at_full_peer [OF _ _ _ this, of full_hh 0 "[]" list_kv]
  show ?thesis by (simp add: full_hh_def demo_hh_def count_of_def hm_get_def)
qed

end
