(* ===== verification/Write_Routing.thy ===== *)
theory Write_Routing
  imports Location_Cache Membership Wal_Codec Point_Coalesce
begin

text \<open>
  Routing of requests to nodes: the identifier of a series (\<open>domain/series.rs\<close>), the peers of a region
  that take a request (\<open>application/shard_peer_resolution.rs\<close>), and the split of a write into the
  points this node keeps and those it forwards (\<open>partition_points\<close> and \<open>group_forwards_by_primary\<close> of
  \<open>application/shard_routing.rs\<close>). The hash function of the standard library is the parameter
  \<open>hasher\<close>. Shown: what is hashed determines the series; reads go to every node that may answer them,
  once, and to no learner; a write goes to the primary only, and with its replication to every
  member on a node that serves; and no point of a write is lost or duplicated by the split.
\<close>

section \<open>Series identifiers\<close>

text \<open>\<open>str::hash\<close> feeds the bytes and an end marker.\<close>

definition str_bytes :: "string \<Rightarrow> u8 list" where
  "str_bytes s = as_bytes s @ [0xFF]"

fun tag_bytes :: "(string \<times> string) list \<Rightarrow> u8 list" where
  "tag_bytes [] = []"
| "tag_bytes ((k, v) # tags) = str_bytes k @ [0xFF] @ str_bytes v @ [0xFE] @ tag_bytes tags"

definition series_id :: "(u8 list \<Rightarrow> u64) \<Rightarrow> string \<Rightarrow> (string \<times> string) list \<Rightarrow> u64" where
  "series_id hasher meas tags = hasher (str_bytes meas @ tag_bytes tags)"

definition series_id_for_point :: "(u8 list \<Rightarrow> u64) \<Rightarrow> point \<Rightarrow> u64" where
  "series_id_for_point hasher p = series_id hasher (pt_measurement p) (pt_tags p)"

section \<open>The peers of a region\<close>

datatype region_target_role = Read | PrimaryRead | Write | Replicate

definition is_serving_node :: "cluster_membership \<Rightarrow> u64 \<Rightarrow> bool" where
  "is_serving_node m i =
     (case get_node m i of Some n \<Rightarrow> node_state n = Active \<or> node_state n = Decommissioning | None \<Rightarrow> False)"

definition is_readable_node :: "cluster_membership \<Rightarrow> u64 \<Rightarrow> bool" where
  "is_readable_node m i =
     (is_serving_node m i \<or> (case get_node m i of Some n \<Rightarrow> node_state n = Draining | None \<Rightarrow> False))"

definition is_active_peer :: "cluster_membership \<Rightarrow> u64 \<Rightarrow> bool" where
  "is_active_peer m i = (case get_node m i of Some n \<Rightarrow> node_state n = Active | None \<Rightarrow> False)"

text \<open>The closure \<open>push\<close>: a target is looked at once, and taken if it may answer.\<close>

definition push_target :: "shard_region \<Rightarrow> cluster_membership \<Rightarrow> u64 \<Rightarrow> u64 list \<times> u64 set \<Rightarrow> u64 list \<times> u64 set" where
  "push_target region m i acc =
     (let (out, seen) = acc
      in (if i \<notin> seen \<and> is_serving_peer region i \<and> is_readable_node m i then out @ [i] else out, insert i seen))"

definition resolve_region_peers :: "shard_region \<Rightarrow> u64 \<Rightarrow> cluster_membership \<Rightarrow> region_target_role \<Rightarrow> u64 list" where
  "resolve_region_peers region self_id m role =
     (if \<not> is_serving region then []
      else if role = Write then
        (if is_serving_peer region (primary region) \<and> is_serving_node m (primary region) then [primary region] else [])
      else if role = Replicate then filter (\<lambda>i. i \<noteq> self_id \<and> is_serving_node m i) (peers region)
      else fst (fold (push_target region m)
        ((if role = PrimaryRead then [primary region] else []) @ [self_id, primary region] @ peers region) ([], {})))"

definition active_region_peer_targets :: "shard_region \<Rightarrow> u64 \<Rightarrow> cluster_membership \<Rightarrow> u64 list" where
  "active_region_peer_targets region self_id m =
     filter (\<lambda>i. i \<noteq> self_id) (resolve_region_peers region self_id m Replicate)"

definition peer_addr :: "cluster_membership \<Rightarrow> u64 \<Rightarrow> string option" where
  "peer_addr m i = map_option addr (get_node m i)"

section \<open>The split of a write\<close>

datatype shard_route_error = NotBootstrapped string | NoRegion u64

record point_buckets =
  local_points :: "(u64, point list) hash_map"
  forward_points :: "(u64, point list) hash_map"

fun check_bootstrapped :: "shard_map \<Rightarrow> string \<Rightarrow> string \<Rightarrow> string set \<Rightarrow> point list \<Rightarrow> shard_route_error + unit" where
  "check_bootstrapped m d r seen [] = Inr ()"
| "check_bootstrapped m d r seen (p # points) =
     (if pt_measurement p \<notin> seen \<and> map_space m d r (pt_measurement p) = None
      then Inl (NotBootstrapped (pt_measurement p))
      else check_bootstrapped m d r (insert (pt_measurement p) seen) points)"

definition push_point :: "u64 \<Rightarrow> point \<Rightarrow> (u64, point list) hash_map \<Rightarrow> (u64, point list) hash_map" where
  "push_point k p m = hm_insert k ((case hm_get m k of Some ps \<Rightarrow> ps | None \<Rightarrow> []) @ [p]) m"

fun bucket_points :: "(u8 list \<Rightarrow> u64) \<Rightarrow> shard_map \<Rightarrow> string \<Rightarrow> string \<Rightarrow> u64 \<Rightarrow> cache_inner \<Rightarrow> point list \<Rightarrow> point_buckets
    \<Rightarrow> (shard_route_error + point_buckets) \<times> cache_inner" where
  "bucket_points hasher m d r self c [] buckets = (Inr buckets, c)"
| "bucket_points hasher m d r self c (p # points) buckets =
     (let sid = series_id_for_point hasher p
      in case locate_route c m d r (pt_measurement p) sid self of
           (None, c) \<Rightarrow> (Inl (NoRegion sid), c)
         | (Some route, c) \<Rightarrow>
             bucket_points hasher m d r self c points
               (if self_is_peer route \<and> route_primary route = self
                then buckets\<lparr>local_points := push_point (route_region_id route) p (local_points buckets)\<rparr>
                else buckets\<lparr>forward_points := push_point (route_region_id route) p (forward_points buckets)\<rparr>))"

definition partition_points :: "(u8 list \<Rightarrow> u64) \<Rightarrow> shard_map \<Rightarrow> string \<Rightarrow> string \<Rightarrow> u64 \<Rightarrow> cache_inner \<Rightarrow> point list
    \<Rightarrow> (shard_route_error + point_buckets) \<times> cache_inner" where
  "partition_points hasher m d r self c points =
     (case check_bootstrapped m d r {} points of
        Inl e \<Rightarrow> (Inl e, c)
      | Inr _ \<Rightarrow> bucket_points hasher m d r self c points \<lparr>local_points = [], forward_points = []\<rparr>)"

text \<open>The regions to forward to, by the node that takes their writes, and those that have no such node.\<close>

definition group_forward :: "u64 \<Rightarrow> cluster_membership \<Rightarrow> shard_region \<Rightarrow> (u64, u64 list) btree_map \<times> u64 list
    \<Rightarrow> (u64, u64 list) btree_map \<times> u64 list" where
  "group_forward self_id m region acc =
     (let (by_node, unrouted) = acc
      in case resolve_region_peers region self_id m Write of
           node # _ \<Rightarrow>
             if node \<noteq> self_id
             then (bm_update node [] (\<lambda>ids. ids @ [region_id region]) by_node, unrouted)
             else (by_node, unrouted @ [region_id region])
         | [] \<Rightarrow> (by_node, unrouted @ [region_id region]))"

definition group_forwards_by_primary :: "shard_region list \<Rightarrow> u64 \<Rightarrow> cluster_membership \<Rightarrow> (u64, u64 list) btree_map \<times> u64 list" where
  "group_forwards_by_primary rs self_id m = fold (group_forward self_id m) rs ([], [])"

section \<open>What is hashed determines the series\<close>

lemma utf8_no_ff: "utf8_valid bs \<Longrightarrow> (0xFF :: u8) \<notin> set bs"
proof (induction bs rule: utf8_valid.induct)
  case (2 b bs)
  have ff: "\<not> continuation 0xFF" "\<not> (0xFF :: u8) < 0x80" "\<not> (0xFF :: u8) \<le> 0xDF" "\<not> (0xFF :: u8) \<le> 0xEF" "\<not> (0xFF :: u8) \<le> 0xF4"
    by (simp_all add: continuation_def)
  from 2 ff show ?case by (auto split: if_splits list.splits)
qed simp

lemma str_bytes_split:
  assumes "text_ok s" and "text_ok s'" and "str_bytes s @ a = str_bytes s' @ b"
  shows "s = s' \<and> a = b"
proof -
  have no: "0xFF \<notin> set (as_bytes s)" "0xFF \<notin> set (as_bytes s')"
    using assms(1,2) utf8_no_ff by (auto simp: text_ok_def)
  have tw: "takeWhile (\<lambda>x. x \<noteq> 0xFF) (as_bytes t @ 0xFF # r) = as_bytes t" if "0xFF \<notin> set (as_bytes t)" for t r
    using that by (subst takeWhile_append2) auto
  have eq: "as_bytes s @ 0xFF # a = as_bytes s' @ 0xFF # b" using assms(3) by (simp add: str_bytes_def)
  then have "as_bytes s = as_bytes s'" using tw [OF no(1), of a] tw [OF no(2), of b] by metis
  then have "s = s'" by (metis string_of_as_bytes)
  with eq show ?thesis by simp
qed

definition tags_text :: "(string \<times> string) list \<Rightarrow> bool" where
  "tags_text tags \<longleftrightarrow> list_all (\<lambda>(k, v). text_ok k \<and> text_ok v) tags"

lemma tag_bytes_inj: "tags_text tags \<Longrightarrow> tags_text tags' \<Longrightarrow> tag_bytes tags = tag_bytes tags' \<Longrightarrow> tags = tags'"
proof (induction tags arbitrary: tags')
  case Nil
  then show ?case by (cases tags') (auto simp: str_bytes_def)
next
  case (Cons t tags)
  obtain k v where t: "t = (k, v)" by fastforce
  from Cons.prems t obtain k' v' rest where t': "tags' = (k', v') # rest" by (cases tags') (auto simp: str_bytes_def)
  have ok: "text_ok k" "text_ok k'" "text_ok v" "text_ok v'" using Cons.prems t t' by (auto simp: tags_text_def)
  have "k = k' \<and> [0xFF] @ str_bytes v @ [0xFE] @ tag_bytes tags = [0xFF] @ str_bytes v' @ [0xFE] @ tag_bytes rest"
    by (rule str_bytes_split [OF ok(1,2)]) (use Cons.prems(3) t t' in simp)
  then have kk: "k = k'" and "str_bytes v @ [0xFE] @ tag_bytes tags = str_bytes v' @ [0xFE] @ tag_bytes rest" by simp_all
  with str_bytes_split [OF ok(3,4)] have "v = v'" "tag_bytes tags = tag_bytes rest" by auto
  with Cons kk t t' show ?case by (simp add: tags_text_def)
qed

text \<open>
  The bytes fed to the hash function determine the measurement and the tags of a series: two
  points get the same input only if they belong to the same series, so series identifiers can only
  collide where the hash function does.
\<close>

theorem series_input_determines_series:
  assumes "text_ok meas" and "text_ok meas'" and "tags_text tags" and "tags_text tags'"
    and "str_bytes meas @ tag_bytes tags = str_bytes meas' @ tag_bytes tags'"
  shows "meas = meas' \<and> tags = tags'"
  using str_bytes_split [OF assms(1,2,5)] tag_bytes_inj [OF assms(3,4)] by blast

theorem series_input_determines_series_witness:
  "text_ok ''cpu'' \<and> tags_text [(''ab'', ''c'')] \<and> tags_text [(''a'', ''bc'')]
   \<and> str_bytes ''cpu'' @ tag_bytes [(''ab'', ''c'')] \<noteq> str_bytes ''cpu'' @ tag_bytes [(''a'', ''bc'')]"
proof -
  have "text_ok ''cpu''" "tags_text [(''ab'', ''c'')]" "tags_text [(''a'', ''bc'')]"
    by (simp_all add: text_ok_def tags_text_def as_bytes_def of_char_def)
  with series_input_determines_series [of "''cpu''" "''cpu''" "[(''ab'', ''c'')]" "[(''a'', ''bc'')]"] show ?thesis by auto
qed

section \<open>Targets of a request\<close>

definition may_answer :: "shard_region \<Rightarrow> cluster_membership \<Rightarrow> u64 \<Rightarrow> bool" where
  "may_answer region m i \<longleftrightarrow> is_serving_peer region i \<and> is_readable_node m i"

lemma push_target_step:
  "push_target region m i (out, seen) = (if i \<notin> seen \<and> may_answer region m i then out @ [i] else out, insert i seen)"
  by (simp add: push_target_def may_answer_def)

lemma push_targets:
  "fst (fold (push_target region m) ids (out, seen)) =
    out @ filter (may_answer region m) (filter (\<lambda>i. i \<notin> seen) (firsts ids))"
proof (induction ids arbitrary: out seen rule: rev_induct)
  case (snoc i ids)
  have snd: "snd (fold (push_target region m) ids (out, seen)) = seen \<union> set ids" for out
    by (induction ids arbitrary: out seen) (auto simp: push_target_step)
  have "fold (push_target region m) ids (out, seen) =
      (out @ filter (may_answer region m) (filter (\<lambda>i. i \<notin> seen) (firsts ids)), seen \<union> set ids)"
    by (rule prod_eqI) (simp_all add: snoc snd)
  then show ?case by (simp add: push_target_step firsts_snoc)
qed simp

lemma read_targets_eq:
  assumes "is_serving region" and "role = Read \<or> role = PrimaryRead"
  shows "resolve_region_peers region self_id m role = filter (may_answer region m)
    (firsts ((if role = PrimaryRead then [primary region] else []) @ [self_id, primary region] @ peers region))"
proof -
  have "role \<noteq> Write" "role \<noteq> Replicate" using assms(2) by auto
  moreover have "fst (fold (push_target region m) ids ([], {})) = filter (may_answer region m) (firsts ids)" for ids
    by (simp add: push_targets)
  ultimately show ?thesis using assms(1) unfolding resolve_region_peers_def by (simp only: if_True if_False not_True_eq_False)
qed

lemma firsts_Cons: "\<exists>ys. firsts (x # xs) = x # ys"
proof (induction xs rule: rev_induct)
  case Nil
  show ?case using firsts_snoc [of "[]" x] by simp
next
  case (snoc y ys)
  then show ?case using firsts_snoc [of "x # ys" y] by auto
qed

lemma hd_filter_firsts: "P x \<Longrightarrow> hd (filter P (firsts (x # xs))) = x"
  using firsts_Cons [of x xs] by auto

text \<open>
  C29. A read of a serving region is offered, each once, exactly the members that are not learners
  and sit on nodes that answer reads, a draining node included; a plain read tries this node's own
  copy first when it has one, an aggregate the primary's copy.
\<close>

theorem read_targets_exact:
  assumes "is_serving region" and "role = Read \<or> role = PrimaryRead"
  shows "distinct (resolve_region_peers region self_id m role)
    \<and> set (resolve_region_peers region self_id m role) =
        {i \<in> set (peers region). i \<notin> set (staging_peers region) \<and> is_readable_node m i}
    \<and> (let best = (if role = Read then self_id else primary region)
       in best \<in> set (resolve_region_peers region self_id m role) \<longrightarrow> hd (resolve_region_peers region self_id m role) = best)"
proof -
  define best where "best = (if role = Read then self_id else primary region)"
  define xs where "xs = (if role = Read then [primary region] else [self_id, primary region]) @ peers region"
  have xs: "(if role = PrimaryRead then [primary region] else []) @ [self_id, primary region] @ peers region = best # xs"
    and sub: "set (peers region) \<subseteq> insert best (set xs)"
    using assms(2) by (auto simp: best_def xs_def)
  note eq = read_targets_eq [OF assms, of self_id m, unfolded xs]
  have "set (filter (may_answer region m) (firsts (best # xs))) =
      {i \<in> set (peers region). i \<notin> set (staging_peers region) \<and> is_readable_node m i}"
    using sub by (auto simp: may_answer_def is_serving_peer_def)
  then show ?thesis
    unfolding eq Let_def best_def [symmetric] using hd_filter_firsts [of "may_answer region m" best xs] by (auto simp: may_answer_def is_serving_peer_def)
qed

text \<open>
  C28. For a well-formed region in its serving state, not one that a split has staged, the target of a
  write is the primary and nobody else, when its node serves, and nobody otherwise; and the primary together with the
  targets it replicates to are, each once, the members on nodes that serve, learners included.
\<close>

theorem write_reaches_serving_members:
  assumes "region_ok region" and "is_serving region"
  shows "resolve_region_peers region self_id m Write = (if is_serving_node m (primary region) then [primary region] else [])
    \<and> (is_serving_node m (primary region) \<longrightarrow>
        distinct (primary region # active_region_peer_targets region (primary region) m)
        \<and> set (primary region # active_region_peer_targets region (primary region) m) =
            {i \<in> set (peers region). is_serving_node m i})"
  using assms
  by (auto simp: resolve_region_peers_def active_region_peer_targets_def region_ok_def is_serving_peer_def)

section \<open>Nothing is lost by the split\<close>

definition gather :: "('a \<Rightarrow> u64 option) \<Rightarrow> 'a list \<Rightarrow> u64 \<Rightarrow> 'a list option" where
  "gather key xs k = (let ys = filter (\<lambda>x. key x = Some k) xs in if ys = [] then None else Some ys)"

lemma gather_Nil [simp]: "gather key [] k = None"
  by (simp add: gather_def)

lemma gather_snoc:
  "gather key (xs @ [x]) k =
    (if key x = Some k then Some ((case gather key xs k of Some ys \<Rightarrow> ys | None \<Rightarrow> []) @ [x]) else gather key xs k)"
  by (auto simp: gather_def Let_def)

text \<open>
  The regions offered to a forwarder end, each once and in order, under the node that takes their
  writes, if that is another node, or among those without such a node.
\<close>

definition forward_node :: "u64 \<Rightarrow> cluster_membership \<Rightarrow> shard_region \<Rightarrow> u64 option" where
  "forward_node self_id m region =
     (if is_serving region \<and> is_serving_peer region (primary region) \<and> is_serving_node m (primary region)
       \<and> primary region \<noteq> self_id then Some (primary region) else None)"

lemma group_forward_step:
  "group_forward self_id m region (by_node, unrouted) =
    (case forward_node self_id m region of
       Some n \<Rightarrow> (bm_update n [] (\<lambda>ids. ids @ [region_id region]) by_node, unrouted)
     | None \<Rightarrow> (by_node, unrouted @ [region_id region]))"
  by (auto simp: group_forward_def forward_node_def resolve_region_peers_def Let_def split: list.splits)

text \<open>
  Forwarding groups the regions by the node of their primary: the list of a node holds, in
  order, exactly the regions whose writes it takes, keys are in order, and the regions whose primary
  is this node or does not serve are returned apart, so that no region is dropped or sent twice.
\<close>

theorem forwards_grouped_exactly:
  "bm_wf (fst (group_forwards_by_primary rs self_id m))
   \<and> (\<forall>n. bm_get (fst (group_forwards_by_primary rs self_id m)) n = map_option (map region_id) (gather (forward_node self_id m) rs n))
   \<and> snd (group_forwards_by_primary rs self_id m) = map region_id (filter (\<lambda>r. forward_node self_id m r = None) rs)"
proof (induction rs rule: rev_induct)
  case Nil
  show ?case by (simp add: group_forwards_by_primary_def)
next
  case (snoc r rs)
  obtain by_node unrouted where st: "group_forwards_by_primary rs self_id m = (by_node, unrouted)" by fastforce
  have step: "group_forwards_by_primary (rs @ [r]) self_id m = group_forward self_id m r (by_node, unrouted)"
    using st by (simp add: group_forwards_by_primary_def)
  show ?case
    using snoc unfolding step st group_forward_step
    by (auto simp: gather_snoc bm_update_def bm_get_insert bm_wf_insert split: option.splits)
qed

text \<open>A lookup of a bootstrapped measurement finds the region of the map or the one that stands for it.\<close>

lemma serving_view_ok:
  assumes "list_all region_ok rs" and "distinct (map region_id rs)" and "raw \<in> set rs"
  shows "primary (serving_view rs raw) \<in> set (peers (serving_view rs raw))"
proof (cases "find_donor (hm_get (regions_by_id rs)) (length rs) (staged_from raw)")
  case None
  with assms show ?thesis by (auto simp: serving_view_def region_ok_def list_all_iff)
next
  case (Some d)
  from find_donor_serving [OF this] obtain i where "hm_get (regions_by_id rs) i = Some d" by blast
  then have "d \<in> set rs" using regions_by_id_get [OF assms(2)] by blast
  with assms Some show ?thesis by (auto simp: serving_view_def donor_identity_def region_ok_def list_all_iff)
qed

lemma route_found:
  assumes st: "cache_state_ok (ms, c)" and m: "m \<in> set ms" and s: "map_space m d r mm = Some s" and sid: "sid < u64_max"
  shows "\<exists>raw g c'. space_locate s sid = Some raw \<and> g \<in> {raw, serving_view (regions s) raw}
    \<and> locate_route c m d r mm sid n = (Some (route_of n g), c') \<and> cache_state_ok (ms, c') \<and> primary g \<in> set (peers g)"
proof -
  have mi: "map_inv m" using st m by (auto simp: cache_state_ok_def list_all_iff)
  then have sp: "space_ok s" "list_all region_ok (regions s)"
    using map_invD(2) [OF mi] s by (auto simp: map_space_def space_inv_def)
  have ids: "distinct (map region_id (regions s))" using sp(1) by (simp add: space_ok_def)
  obtain raw where raw: "space_locate s sid = Some raw"
    using space_locate_total [OF sp(1) sid] by metis
  have mem: "raw \<in> set (regions s)" using space_locate_iff [OF sp(1) sid] raw by blast
  have ml: "map_locate m d r mm sid = Some raw"
    using s raw by (simp add: map_locate_def map_space_def)
  have ok: "primary g \<in> set (peers g)" if "g \<in> {raw, serving_view (regions s) raw}" for g
    using that serving_view_ok [OF sp(2) ids mem] sp(2) mem by (auto simp: list_all_iff region_ok_def)
  show ?thesis
  proof (cases "cache_hit c m d r mm sid")
    case None
    have "cache_state_ok (ms, fill_cache c m d r mm)"
      using st m fill_cache_ok [of ms c m] by (simp add: cache_state_ok_def)
    with None ml raw ok show ?thesis by (auto simp: locate_route_def)
  next
    case (Some v)
    with cache_hit_view [OF st m] s have "locate_in_regions (materialise_serving (regions s)) sid = Some v" by fastforce
    then have "v = serving_view (regions s) raw"
      using sp(1) raw by (simp add: locate_view space_locate_regions space_ok_def)
    with Some st raw ok show ?thesis by (auto simp: locate_route_def)
  qed
qed

text \<open>The region a point is sent to: the one of the map, or the one that stands for it while it is copied.\<close>

definition routed :: "(u8 list \<Rightarrow> u64) \<Rightarrow> shard_map \<Rightarrow> string \<Rightarrow> string \<Rightarrow> point \<times> shard_region \<Rightarrow> bool" where
  "routed hasher m d r = (\<lambda>(p, g). \<exists>s raw. map_space m d r (pt_measurement p) = Some s
     \<and> space_locate s (series_id_for_point hasher p) = Some raw \<and> g \<in> {raw, serving_view (regions s) raw})"

definition bucket_key :: "u64 \<Rightarrow> bool \<Rightarrow> point \<times> shard_region \<Rightarrow> u64 option" where
  "bucket_key self here = (\<lambda>(p, g). if (primary g = self) = here then Some (region_id g) else None)"

definition buckets_of :: "u64 \<Rightarrow> (point \<times> shard_region) list \<Rightarrow> point_buckets \<Rightarrow> bool" where
  "buckets_of self prs b \<longleftrightarrow> hm_wf (local_points b) \<and> hm_wf (forward_points b)
     \<and> (\<forall>k. hm_get (local_points b) k = map_option (map fst) (gather (bucket_key self True) prs k)
          \<and> hm_get (forward_points b) k = map_option (map fst) (gather (bucket_key self False) prs k))"

lemma push_point_get: "hm_wf mp \<Longrightarrow> hm_wf (push_point k p mp) \<and>
    hm_get (push_point k p mp) k' = (if k' = k then Some ((case hm_get mp k of Some ps \<Rightarrow> ps | None \<Rightarrow> []) @ [p]) else hm_get mp k')"
  by (simp add: push_point_def hm.get_ins hm.wf_ins)

lemma buckets_of_push:
  assumes "buckets_of self prs b" and "primary g \<in> set (peers g)"
  shows "buckets_of self (prs @ [(p, g)])
    (if self_is_peer (route_of self g) \<and> route_primary (route_of self g) = self
     then b\<lparr>local_points := push_point (route_region_id (route_of self g)) p (local_points b)\<rparr>
     else b\<lparr>forward_points := push_point (route_region_id (route_of self g)) p (forward_points b)\<rparr>)"
proof (cases "primary g = self")
  case True
  with assms show ?thesis
    by (auto simp: buckets_of_def route_of_def push_point_get gather_snoc bucket_key_def split: option.splits)
next
  case False
  with assms show ?thesis
    by (auto simp: buckets_of_def route_of_def push_point_get gather_snoc bucket_key_def split: option.splits)
qed

lemma bucket_points_ok:
  assumes "cache_state_ok (ms, c)" and "m \<in> set ms" and "buckets_of self prs b" and "list_all (routed hasher m d r) prs"
    and "\<forall>p\<in>set points. map_space m d r (pt_measurement p) \<noteq> None \<and> series_id_for_point hasher p < u64_max"
  shows "\<exists>gs b' c'. bucket_points hasher m d r self c points b = (Inr b', c') \<and> length gs = length points
    \<and> list_all (routed hasher m d r) (zip points gs) \<and> buckets_of self (prs @ zip points gs) b' \<and> cache_state_ok (ms, c')"
  using assms
proof (induction points arbitrary: c b prs)
  case Nil
  then show ?case by auto
next
  case (Cons p points)
  from Cons.prems(5) obtain s where s: "map_space m d r (pt_measurement p) = Some s" by auto
  have sid: "series_id_for_point hasher p < u64_max" using Cons.prems(5) by simp
  from route_found [OF Cons.prems(1,2) s sid, of self] obtain raw g c1 where g: "space_locate s (series_id_for_point hasher p) = Some raw"
    "g \<in> {raw, serving_view (regions s) raw}" and loc: "locate_route c m d r (pt_measurement p) (series_id_for_point hasher p) self =
      (Some (route_of self g), c1)" and c1: "cache_state_ok (ms, c1)" and pg: "primary g \<in> set (peers g)" by blast
  have rt: "routed hasher m d r (p, g)" using s g by (auto simp: routed_def)
  from Cons.IH [OF c1 Cons.prems(2) buckets_of_push [OF Cons.prems(3) pg, of p]] Cons.prems(4,5) rt
  obtain gs b' c' where ih: "bucket_points hasher m d r self c1 points
      (if self_is_peer (route_of self g) \<and> route_primary (route_of self g) = self
       then b\<lparr>local_points := push_point (route_region_id (route_of self g)) p (local_points b)\<rparr>
       else b\<lparr>forward_points := push_point (route_region_id (route_of self g)) p (forward_points b)\<rparr>) = (Inr b', c')"
    "length gs = length points" "list_all (routed hasher m d r) (zip points gs)"
    "buckets_of self ((prs @ [(p, g)]) @ zip points gs) b'" "cache_state_ok (ms, c')" by auto
  show ?case
    by (rule exI [of _ "g # gs"]) (use ih rt loc in \<open>simp add: Let_def\<close>)
qed

lemma check_bootstrapped_ok:
  "\<forall>p\<in>set points. map_space m d r (pt_measurement p) \<noteq> None \<Longrightarrow> check_bootstrapped m d r seen points = Inr ()"
  by (induction points arbitrary: seen) auto

text \<open>
  C9. For a cache in any state its calls can reach, a write whose measurements are known splits into
  buckets that hold every point exactly once and in order, in the bucket of the region that owns its
  series, or of the region that stands for it while it is copied: among the local ones exactly when
  this node is that region's primary, and among the forwarded ones otherwise.
\<close>

theorem partition_points_exact:
  assumes "cached.reachable (ms, c)" and "m \<in> set ms"
    and "\<forall>p\<in>set points. map_space m d r (pt_measurement p) \<noteq> None \<and> series_id_for_point hasher p < u64_max"
  shows "\<exists>gs b c'. partition_points hasher m d r self c points = (Inr b, c') \<and> length gs = length points
    \<and> list_all (routed hasher m d r) (zip points gs) \<and> buckets_of self (zip points gs) b"
proof -
  have "buckets_of self [] \<lparr>local_points = [], forward_points = []\<rparr>"
    by (simp add: buckets_of_def hm_wf_def hm_get_def)
  from bucket_points_ok [OF cached.reachable_inv [OF assms(1)] assms(2) this _ assms(3)]
  show ?thesis using check_bootstrapped_ok [of points m d r "{}"] assms(3) by (fastforce simp: partition_points_def)
qed

section \<open>Witnesses\<close>

theorem read_targets_exact_witness:
  "distinct (resolve_region_peers (demo_region 1 0 100 [1, 2] 1) 2 demo_members PrimaryRead)
   \<and> hd (resolve_region_peers (demo_region 1 0 100 [1, 2] 1) 2 demo_members PrimaryRead) = 1"
proof -
  have s: "is_serving (demo_region 1 0 100 [1, 2] 1)" by (simp add: demo_region_def is_serving_def)
  have n: "is_readable_node demo_members 1"
    by (simp add: is_readable_node_def is_serving_node_def get_node_def demo_members_def add_node_def new_membership_def
        hm_get_def hm_insert_def demo_node_def)
  from read_targets_exact [OF s, of PrimaryRead 2 demo_members] n show ?thesis by (simp add: demo_region_def Let_def)
qed

theorem write_reaches_serving_members_witness:
  "resolve_region_peers (demo_region 1 0 100 [1, 2] 1) 2 demo_members Write = [1]
   \<and> set (1 # active_region_peer_targets (demo_region 1 0 100 [1, 2] 1) 1 demo_members) = {1, 2}"
proof -
  let ?r = "demo_region 1 0 100 [1, 2] 1"
  have s: "region_ok ?r" "is_serving ?r" by (simp_all add: demo_region_def is_serving_def region_ok_def)
  have n: "is_serving_node demo_members 1" "is_serving_node demo_members 2"
    by (simp_all add: is_serving_node_def get_node_def demo_members_def add_node_def new_membership_def
        hm_get_def hm_insert_def demo_node_def)
  have p: "primary ?r = 1" "{i \<in> set (peers ?r). is_serving_node demo_members i} = {1, 2}" using n by (auto simp: demo_region_def)
  from write_reaches_serving_members [OF s, of 2 demo_members] n p show ?thesis by simp
qed

definition routed_point :: point where
  "routed_point = \<lparr>pt_measurement = ''cpu'', pt_tags = [], pt_fields = [], pt_timestamp = 0\<rparr>"

theorem partition_points_exact_witness:
  "\<exists>b c'. partition_points (\<lambda>_. 7) demo_map ''d'' ''r'' 9 new_cache [routed_point] = (Inr b, c')
     \<and> (\<exists>k. hm_get (local_points b) k = Some [routed_point] \<or> hm_get (forward_points b) k = Some [routed_point])"
proof -
  have "map_space demo_map ''d'' ''r'' ''cpu'' \<noteq> None"
    by (simp add: demo_map_eq map_space_def hm_get_def demo_defs)
  then have "\<forall>p\<in>set [routed_point]. map_space demo_map ''d'' ''r'' (pt_measurement p) \<noteq> None
      \<and> series_id_for_point (\<lambda>_. 7) p < u64_max"
    by (simp add: routed_point_def series_id_for_point_def series_id_def)
  from partition_points_exact [OF cached_demo _ this, of 9] obtain gs b c'
    where b: "partition_points (\<lambda>_. 7) demo_map ''d'' ''r'' 9 new_cache [routed_point] = (Inr b, c')"
      "length gs = 1" "buckets_of 9 (zip [routed_point] gs) b" by auto
  then obtain g where "gs = [g]" by (cases gs) auto
  with b have "hm_get (if primary g = 9 then local_points b else forward_points b) (region_id g) = Some [routed_point]"
    by (auto simp: buckets_of_def gather_def bucket_key_def Let_def)
  with b(1) show ?thesis by (auto split: if_splits)
qed

end
