(* ===== verification/Bootstrap.thy ===== *)
theory Bootstrap
  imports Placement_Steps Placement_Balance Location_Cache Membership
begin

text \<open>
  The first regions of a measurement (\<open>build_bootstrap_op\<close> and the functions it calls in
  \<open>application/shard_routing.rs\<close>): the nodes a measurement may be placed on, the replication factor
  they allow, one region for the whole hash space or an equal split of it planned over the nodes,
  and the wait until the operation has been applied here. \<open>None\<close> stands for a planner that does not
  return. Shown: region ids stay below the counter of the map along the log, and the operation built
  for a measurement the map does not know is always accepted, tiles the hash space and gives every
  region the replicas the cluster allows.
\<close>

section \<open>Nodes and replication factor\<close>

definition placeable_members :: "cluster_membership \<Rightarrow> u64 \<Rightarrow> u64 list" where
  "placeable_members m self_id =
     (let ids = map node_id (active_peers m self_id);
          self_departing = (case get_node m self_id of Some n \<Rightarrow> is_departing n | None \<Rightarrow> False);
          ids = (if \<not> self_departing then ids @ [self_id] else ids)
      in remdups_adj (sort ids))"

definition effective_replication_factor :: "nat \<Rightarrow> nat \<Rightarrow> nat" where
  "effective_replication_factor configured active_members =
     (let tgt = max configured 1
      in if active_members = 0 then 0 else min tgt active_members)"

definition select_bootstrap_peers :: "cluster_membership \<Rightarrow> u64 \<Rightarrow> nat \<Rightarrow> measurement_key \<Rightarrow> u64 list" where
  "select_bootstrap_peers m self_id replication_factor key =
     (let ids = placeable_members m self_id;
          rf = effective_replication_factor replication_factor (length ids)
      in target_placement key 0 ids rf)"

section \<open>The regions\<close>

definition fresh_region :: "u64 \<Rightarrow> u64 \<Rightarrow> u64 \<Rightarrow> u64 list \<Rightarrow> u64 \<Rightarrow> u64 \<Rightarrow> shard_region" where
  "fresh_region i start stop ps p split_at =
     \<lparr>region_id = i, r_start = start, r_end = stop, r_epoch = default_epoch, peers = ps, primary = p,
      last_split_at = split_at, transfer_verified = None, transfer_first_seen = None, r_state = Serving,
      staged_from = None, staging_peers = []\<rparr>"

definition presplit_bounds :: "u64 \<Rightarrow> nat \<Rightarrow> (u64 \<times> u64 \<times> u64) list" where
  "presplit_bounds first_id cnt =
     (let width = u64_max div word_of_nat cnt
      in map (\<lambda>i. (first_id + word_of_nat i, word_of_nat i * width,
                   if i + 1 = cnt then u64_max else word_of_nat (i + 1) * width)) [0..<cnt])"

definition presplit_inputs :: "measurement_key \<Rightarrow> u64 list \<Rightarrow> (u64 \<times> u64 \<times> u64) list \<Rightarrow> region_plan_input list" where
  "presplit_inputs key candidates =
     map (\<lambda>(i, start, _). \<lparr>rp_region_id = i, rp_current_peers = [], rp_current_primary = 0, rp_weight = 1,
                            rp_hrw = target_placement key start candidates (length candidates)\<rparr>)"

definition presplit_regions :: "measurement_key \<Rightarrow> u64 \<Rightarrow> nat \<Rightarrow> u64 list \<Rightarrow> nat \<Rightarrow> u64 \<Rightarrow> shard_region list option" where
  "presplit_regions key first_id cnt candidates rf split_at =
     (let bounds = presplit_bounds first_id (max cnt 1)
      in map_option (\<lambda>plan. map (\<lambda>(i, start, stop).
           let ps = (case hm_get plan i of Some ps \<Rightarrow> ps | None \<Rightarrow> [])
           in fresh_region i start stop ps (case ps of p # _ \<Rightarrow> p | [] \<Rightarrow> 0) split_at) bounds)
         (plan_placement (presplit_inputs key candidates bounds) rf 10))"

definition split_stamp :: "u64 option \<Rightarrow> u64" where
  "split_stamp now = max (case now of Some t \<Rightarrow> t | None \<Rightarrow> 1) 1"

datatype bootstrap_error = NoActivePeers | BootstrapTimeout | BootstrapRefused shard_map_apply_error

definition usize_saturating_mul :: "nat \<Rightarrow> nat \<Rightarrow> nat" where
  "usize_saturating_mul a b = min (2 ^ 64 - 1) (a * b)"

text \<open>\<open>per_node\<close> is the setting \<open>bootstrap_regions_per_node\<close>, \<open>now\<close> the clock in seconds when it is past the epoch.\<close>

definition build_bootstrap_op :: "cluster_membership \<Rightarrow> u64 \<Rightarrow> nat \<Rightarrow> nat \<Rightarrow> u64 option \<Rightarrow> shard_map \<Rightarrow> measurement_key
    \<Rightarrow> (bootstrap_error + shard_map_op) option" where
  "build_bootstrap_op mem self_id per_node replication_factor now m key =
     (let candidates = placeable_members mem self_id;
          wanted = usize_saturating_mul per_node (length candidates)
      in if 1 < wanted \<and> 1 < length candidates then
           let rf = effective_replication_factor replication_factor (length candidates)
           in map_option (\<lambda>rs. Inr (BootstrapMeasurementPresplit key rs))
                (presplit_regions key (next_region_id m) wanted candidates rf (split_stamp now))
         else
           let ps = select_bootstrap_peers mem self_id replication_factor key
           in if ps = [] then Some (Inl NoActivePeers)
              else Some (Inr (BootstrapMeasurement key
                     (fresh_region (next_region_id m) 0 u64_max ps (ps ! 0) (split_stamp now)))))"

text \<open>
  Without a Raft leader to ask, the operation is applied here. This is its effect on the served map when
  the store takes the write; the rows behind the map are those of \<open>Shard_Store\<close>.
\<close>

definition bootstrap_measurement_local :: "cluster_membership \<Rightarrow> u64 \<Rightarrow> nat \<Rightarrow> nat \<Rightarrow> u64 option \<Rightarrow> measurement_key \<Rightarrow> shard_map
    \<Rightarrow> (shard_map \<times> (bootstrap_error + unit)) option" where
  "bootstrap_measurement_local mem self_id per_node replication_factor now key m =
     (if map_space m (db key) (rp key) (measurement key) \<noteq> None then Some (m, Inr ())
      else case build_bootstrap_op mem self_id per_node replication_factor now m key of
          None \<Rightarrow> None
        | Some (Inl e) \<Rightarrow> Some (m, Inl e)
        | Some (Inr op) \<Rightarrow>
            (case apply_shard_map_op m op of
               (m', Inr _) \<Rightarrow> Some (m', Inr ())
             | (_, Inl e) \<Rightarrow> Some (m, Inl (BootstrapRefused e))))"

text \<open>
  The wait for a bootstrap applied elsewhere: the snapshots it reads, each with whether the deadline
  had passed when it was read. A list that ends is a wait that is still going on.
\<close>

fun wait_for_measurement_bootstrapped :: "measurement_key \<Rightarrow> (shard_map \<times> bool) list \<Rightarrow> cache_inner
    \<Rightarrow> ((bootstrap_error + unit) \<times> cache_inner) option" where
  "wait_for_measurement_bootstrapped key [] c = None"
| "wait_for_measurement_bootstrapped key ((m, late) # polls) c =
     (if map_space m (db key) (rp key) (measurement key) \<noteq> None then Some (Inr (), refresh_from_map m c)
      else if late then Some (Inl BootstrapTimeout, c)
      else wait_for_measurement_bootstrapped key polls c)"

section \<open>Region ids stay below the counter\<close>

definition ids_below :: "shard_map \<Rightarrow> bool" where
  "ids_below m \<longleftrightarrow> (\<forall>k s. hm_get (spaces m) k = Some s \<longrightarrow>
     (\<forall>i\<in>space_ids s. i < next_region_id m \<or> next_region_id m = u64_max))"

fun left_keeps_id :: "shard_map_op \<Rightarrow> bool" where
  "left_keeps_id (Split _ rid _ _ l _) = (region_id l = rid)"
| "left_keeps_id _ = True"

lemma ids_below_insert:
  assumes "ids_below m" and "hm_wf (spaces m)" and "spaces m' = hm_insert key s (spaces m)"
    and "next_region_id m \<le> next_region_id m'"
    and "\<And>i. i \<in> space_ids s \<Longrightarrow> i < next_region_id m' \<or> next_region_id m' = u64_max"
  shows "ids_below m'"
  unfolding ids_below_def
proof (intro allI impI ballI)
  fix k t i
  assume t: "hm_get (spaces m') k = Some t" "i \<in> space_ids t"
  show "i < next_region_id m' \<or> next_region_id m' = u64_max"
  proof (cases "k = key")
    case True
    with t assms(2,3,5) show ?thesis by (simp add: hm.get_ins)
  next
    case False
    with t assms(1-3) have "i < next_region_id m \<or> next_region_id m = u64_max" by (auto simp: hm.get_ins ids_below_def)
    with assms(4) show ?thesis by (metis less_le_trans word_order.extremum_unique)
  qed
qed

lemma below_bumped: "i \<le> a \<Longrightarrow> saturating_add a 1 \<le> n \<Longrightarrow> i < n \<or> n = u64_max"
proof (cases "a = u64_max")
  case True
  then show "i \<le> a \<Longrightarrow> saturating_add a 1 \<le> n \<Longrightarrow> i < n \<or> n = u64_max"
    by (simp add: saturating_add_1 word_order.extremum_unique)
next
  case False
  then show "i \<le> a \<Longrightarrow> saturating_add a 1 \<le> n \<Longrightarrow> i < n \<or> n = u64_max"
    using saturating_add_1_gt [OF False] by (auto intro: le_less_trans less_le_trans)
qed

lemma fold_max_above: "i \<in> set (x # xs) \<Longrightarrow> i \<le> fold max xs (x :: 'a::linorder)"
  using Max_ge [OF List.finite_set, of i "x # xs"] unfolding Max.set_eq_fold by blast

lemma install_space_spaces:
  "install_space m key rs = (m', Inr ()) \<Longrightarrow>
    \<exists>s. m' = m\<lparr>spaces := hm_insert key s (spaces m)\<rparr> \<and> space_ids s = region_id ` set rs"
  by (auto simp: install_space_def Let_def space_ids_def split: sum.splits)

lemma presplit_below:
  assumes "ids_below m" and "hm_wf (spaces m)" and "bootstrap_presplit m key rs = (m', Inr ())"
  shows "ids_below m'"
proof (cases "map region_id rs")
  case Nil
  with assms(3) have "install_space m key rs = (m', Inr ())"
    by (auto simp: bootstrap_presplit_def split: if_splits option.splits)
  from install_space_spaces [OF this] Nil obtain s where "m' = m\<lparr>spaces := hm_insert key s (spaces m)\<rparr>" "space_ids s = {}"
    by auto
  then show ?thesis by (intro ids_below_insert [OF assms(1,2), of m' key s]) simp_all
next
  case (Cons i ids)
  let ?n = "max (next_region_id m) (saturating_add (fold max ids i) 1)"
  from assms(3) Cons have "install_space (m\<lparr>next_region_id := ?n\<rparr>) key rs = (m', Inr ())"
    by (auto simp: bootstrap_presplit_def Let_def split: if_splits option.splits)
  from install_space_spaces [OF this] obtain s where m': "m' = m\<lparr>next_region_id := ?n, spaces := hm_insert key s (spaces m)\<rparr>"
    "space_ids s = set (map region_id rs)" by auto
  have "j < ?n \<or> ?n = u64_max" if "j \<in> space_ids s" for j
    by (rule below_bumped [of j "fold max ids i"]) (use that m'(2) Cons fold_max_above [of j i ids] in auto)
  then show ?thesis by (intro ids_below_insert [OF assms(1,2), of m' key s]) (simp_all add: m')
qed

lemma bootstrap_below:
  assumes "ids_below m" and "hm_wf (spaces m)" and "bootstrap_measurement m key r = (m', Inr ())"
  shows "ids_below m'"
proof -
  let ?n = "max (next_region_id m) (saturating_add (region_id r) 1)"
  from assms(3) have "install_space (m\<lparr>next_region_id := ?n\<rparr>) key [r] = (m', Inr ())"
    by (auto simp: bootstrap_measurement_def Let_def split: if_splits)
  from install_space_spaces [OF this] obtain s where m': "m' = m\<lparr>next_region_id := ?n, spaces := hm_insert key s (spaces m)\<rparr>"
    "space_ids s = {region_id r}" by auto
  have "region_id r < ?n \<or> ?n = u64_max" by (rule below_bumped [of _ "region_id r"]) auto
  with m' show ?thesis by (intro ids_below_insert [OF assms(1,2), of m' key s]) simp_all
qed

lemma split_below:
  assumes "ids_below m" and "hm_wf (spaces m)" and "region_id left = rid"
    and "apply_split m key rid k e left right = (m', Inr ())"
  shows "ids_below m'"
proof -
  from assms(4) obtain s i s' left' right' where s: "hm_get (spaces m) key = Some s" "i < length (regions s)"
    "region_id (regions s ! i) = rid" "left' = flag_child (regions s ! i) left"
    "right' = flag_child (regions s ! i) (right\<lparr>region_id := next_region_id m\<rparr>)"
    "s' = sort_space_regions (s\<lparr>regions := take i (regions s) @ left' # right' # drop (Suc i) (regions s)\<rparr>)"
    "m' = m\<lparr>next_region_id := saturating_add (next_region_id m) 1, spaces := hm_insert key s' (spaces m)\<rparr>"
    by (rule apply_split_ok)
  let ?n = "saturating_add (next_region_id m) 1"
  have "space_ids s' \<subseteq> insert (next_region_id m) (space_ids s)"
    using s(2-5) assms(3) nth_mem [OF s(2)] by (auto simp: s(6) space_ids_def dest: in_set_takeD in_set_dropD)
  moreover have "j < ?n \<or> ?n = u64_max" if "j \<in> insert (next_region_id m) (space_ids s)" for j
  proof -
    have "j < next_region_id m \<or> next_region_id m = u64_max" if "j \<in> space_ids s"
      using that assms(1) s(1) unfolding ids_below_def by blast
    then have "j \<le> next_region_id m" using that by (auto intro: less_imp_le)
    then show ?thesis by (rule below_bumped) simp
  qed
  ultimately show ?thesis by (intro ids_below_insert [OF assms(1,2), of m' key s']) (auto simp: s(7) saturating_add_1_ge)
qed

lemma merge_below:
  assumes "ids_below m" and "hm_wf (spaces m)" and "region_id mg \<in> {lid, rid}"
    and "apply_merge m key lid rid e re mg = (m', Inr ())"
  shows "ids_below m'"
proof -
  from assms(4) obtain s i s' where s: "hm_get (spaces m) key = Some s" "Suc i < length (regions s)"
    "region_id (regions s ! i) = lid" "region_id (regions s ! Suc i) = rid"
    "s' = sort_space_regions (s\<lparr>regions := take i (regions s) @ mg # drop (i + 2) (regions s)\<rparr>)"
    "m' = m\<lparr>spaces := hm_insert key s' (spaces m)\<rparr>"
    by (rule apply_merge_ok)
  have "region_id mg \<in> space_ids s"
    using assms(3) s(2-4) nth_mem [of i "regions s"] nth_mem [of "Suc i" "regions s"] by (auto simp: space_ids_def)
  then have "space_ids s' \<subseteq> space_ids s" by (auto simp: s(5) space_ids_def dest: in_set_takeD in_set_dropD)
  with assms(1) s(1) show ?thesis
    by (intro ids_below_insert [OF assms(1,2), of m' key s']) (auto simp: s(6) ids_below_def)
qed

context region_op
begin

lemma with_region_below:
  assumes "ids_below m" and "hm_wf (spaces m)" and "with_region m key rid (f e) = (m', Inr ())"
  shows "ids_below m'"
proof -
  obtain s i r' where s: "hm_get (spaces m) key = Some s" "i < length (regions s)" "f e (regions s ! i) = Inr r'"
    "m' = m\<lparr>spaces := hm_insert key (sort_space_regions (s\<lparr>regions := (regions s)[i := r']\<rparr>)) (spaces m)\<rparr>"
    by (rule with_region_ok [OF assms(3)])
  have "map region_id ((regions s)[i := r']) = map region_id (regions s)"
    using frame [OF s(3)] by (auto intro: map_list_update_id)
  from arg_cong [OF this, of set] have "space_ids (s\<lparr>regions := (regions s)[i := r']\<rparr>) = space_ids s"
    by (simp add: space_ids_def)
  with assms(1) s(1) show ?thesis
    by (intro ids_below_insert [OF assms(1,2), of m' key "sort_space_regions (s\<lparr>regions := (regions s)[i := r']\<rparr>)"]) (auto simp: s(4) ids_below_def)
qed

end

lemmas region_ops_below =
  op_move.with_region_below op_add.with_region_below op_promote.with_region_below op_remove.with_region_below
  op_transfer.with_region_below op_clear.with_region_below op_activate.with_region_below

lemma drop_below: "ids_below m \<Longrightarrow> hm_wf (spaces m) \<Longrightarrow> drop_space m d r mm = (m', Inr ()) \<Longrightarrow> ids_below m'"
  by (auto simp: drop_space_def ids_below_def hm.get_retain split: if_splits)

lemma apply_arm_below:
  assumes "ids_below m" and "hm_wf (spaces m)" and "op_ok op" and "left_keeps_id op" and "apply_arm m op = (m', Inr ())"
  shows "ids_below m'"
  using assms(3-5)
  by (cases op)
    (auto intro: presplit_below [OF assms(1,2)] bootstrap_below [OF assms(1,2)] split_below [OF assms(1,2)]
      merge_below [OF assms(1,2)] drop_below [OF assms(1,2)] region_ops_below [OF assms(1,2)])

lemma apply_below:
  assumes "ids_below m" and "hm_wf (spaces m)" and "op_ok op" and "left_keeps_id op"
    and "apply_shard_map_op m op = (m', Inr ())"
  shows "ids_below m'"
  by (rule apply_arm_below [of "m\<lparr>map_version := saturating_add (map_version m) 1\<rparr>" op])
    (use assms in \<open>simp_all add: ids_below_def apply_shard_map_op_def\<close>)

definition numbered_step :: "shard_map \<Rightarrow> shard_map_op \<Rightarrow> shard_map \<Rightarrow> bool" where
  "numbered_step m op m' \<longleftrightarrow> log_step m op m' \<and> left_keeps_id op"

interpretation numbered: transition_system "\<lambda>m. m = default_shard_map" numbered_step "\<lambda>m. map_inv m \<and> ids_below m"
proof
  fix m assume "m = default_shard_map"
  then show "map_inv m \<and> ids_below m"
    by (simp add: map_inv_default) (simp add: ids_below_def default_shard_map_def hm_get_def)
next
  fix m op m'
  assume "map_inv m \<and> ids_below m" and "numbered_step m op m'"
  then show "map_inv m' \<and> ids_below m'"
    using apply_inv [of m op m'] apply_below [of m op m'] map_invD(1) [of m]
    by (simp add: numbered_step_def log_step_def)
qed

section \<open>The operation is accepted\<close>

lemma sorted_remdups_adj_distinct: "sorted xs \<Longrightarrow> distinct (remdups_adj xs)"
  by (induction xs rule: remdups_adj.induct) auto

lemma placeable_distinct: "distinct (placeable_members mem self_id)"
  by (simp add: placeable_members_def Let_def sorted_remdups_adj_distinct)

lemma tiles_segments:
  assumes "i < n" and "\<And>j. i \<le> j \<Longrightarrow> j < n \<Longrightarrow> r_start (R j) = a j"
    and "\<And>j. i \<le> j \<Longrightarrow> j < n \<Longrightarrow> r_end (R j) = (if j + 1 = n then u64_max else a (j + 1))"
  shows "tiles (a i) (map R [i..<n])"
  using assms
proof (induction "n - i" arbitrary: i)
  case (Suc k)
  show ?case
  proof (cases "i + 1 = n")
    case True
    with Suc.prems show ?thesis by (simp add: upt_rec)
  next
    case False
    with Suc have "tiles (a (i + 1)) (map R [i + 1..<n])" by (intro Suc.hyps(1)) auto
    with Suc.prems False show ?thesis by (simp add: upt_rec [of i n])
  qed
qed simp

lemma width_value: "0 < n \<Longrightarrow> n < 2 ^ 64 \<Longrightarrow> unat (u64_max div word_of_nat n) = (2 ^ 64 - 1) div n"
  by (simp add: unat_div unat_of_nat_small unsigned_minus_1_eq_mask mask_eq_exp_minus_1)

lemma start_value:
  assumes "0 < n" and "n < 2 ^ 64" and "i \<le> n"
  shows "unat (word_of_nat i * (u64_max div word_of_nat n) :: u64) = i * ((2 ^ 64 - 1) div n)"
proof -
  let ?w = "u64_max div word_of_nat n :: u64"
  note w = width_value [OF assms(1,2)]
  have "i * unat ?w \<le> n * ((2 ^ 64 - 1) div n)" unfolding w using assms(3) by (intro mult_le_mono) auto
  also have "\<dots> \<le> 2 ^ 64 - 1" by simp
  finally have b: "i * unat ?w < 2 ^ 64" by simp
  have "word_of_nat i * ?w = word_of_nat (i * unat ?w)" by simp
  then have "unat (word_of_nat i * ?w) = i * unat ?w" using unat_of_nat_small [OF b] by metis
  then show ?thesis by (simp only: w)
qed

lemma segment_facts:
  assumes "0 < n" and "n < 2 ^ 64" and "unat first + n \<le> 2 ^ 64"
    and R: "\<And>i. i < n \<Longrightarrow> region_id (R i) = first + word_of_nat i
        \<and> r_start (R i) = word_of_nat i * (u64_max div word_of_nat n)
        \<and> r_end (R i) = (if i + 1 = n then u64_max else word_of_nat (i + 1) * (u64_max div word_of_nat n))"
  shows "space_ok \<lparr>space_key = key, regions = map R [0..<n]\<rparr>" and "i < n \<Longrightarrow> unat (region_id (R i)) = unat first + i"
proof -
  have ids: "unat (region_id (R i)) = unat first + i" if "i < n" for i
  proof -
    have "region_id (R i) = word_of_nat (unat first + i)" using R [OF that] by simp
    with that assms(3) show ?thesis by (simp only: unat_of_nat_small)
  qed
  then show "i < n \<Longrightarrow> unat (region_id (R i)) = unat first + i" .
  have "inj_on (region_id \<circ> R) {0..<n}"
    by (rule inj_onI) (metis ids add_left_cancel atLeastLessThan_iff comp_apply)
  then have "distinct (map region_id (map R [0..<n]))" by (simp add: distinct_map comp_inj_on_iff [symmetric])
  moreover have "tiles (word_of_nat 0 * (u64_max div word_of_nat n)) (map R [0..<n])"
    by (rule tiles_segments [where a = "\<lambda>i. word_of_nat i * (u64_max div word_of_nat n)"]) (use assms(1) R in auto)
  moreover have "sorted_regions (map R [0..<n])"
    unfolding sorted_regions_def sorted_iff_nth_mono_less
  proof (intro allI impI)
    fix i j assume ij: "i < j" "j < length (map r_start (map R [0..<n]))"
    then show "map r_start (map R [0..<n]) ! i \<le> map r_start (map R [0..<n]) ! j"
      using start_value [OF assms(1,2), of i] start_value [OF assms(1,2), of j] R [of i] R [of j]
      by (simp add: word_le_nat_alt)
  qed
  ultimately show "space_ok \<lparr>space_key = key, regions = map R [0..<n]\<rparr>" using assms(1) by (simp add: space_ok_def)
qed

lemma install_accepts:
  assumes "space_ok \<lparr>space_key = key, regions = rs\<rparr>"
  shows "install_space m key rs = (m\<lparr>spaces := hm_insert key \<lparr>space_key = key, regions = rs\<rparr> (spaces m)\<rparr>, Inr ())"
proof -
  have "sort_space_regions \<lparr>space_key = key, regions = rs\<rparr> = \<lparr>space_key = key, regions = rs\<rparr>"
    using assms by (simp add: sort_space_regions_def space_ok_def sorted_regions_def sort_key_id)
  moreover have "validate \<lparr>space_key = key, regions = rs\<rparr> = Inr ()" using assms by (simp add: space_ok_iff)
  ultimately show ?thesis by (simp add: install_space_def)
qed

lemma presplit_fresh:
  "distinct (map region_id rs) \<Longrightarrow> set ids \<inter> region_id ` set rs = {} \<Longrightarrow> \<forall>r\<in>set rs. \<not> region_id_taken m (region_id r)
    \<Longrightarrow> presplit_ids_fresh m ids rs = None"
  by (induction rs arbitrary: ids) auto

lemma bootstrap_accepts:
  assumes ok: "space_ok \<lparr>space_key = key, regions = rs\<rparr>" and new: "hm_get (spaces m) key = None"
    and free: "\<forall>r\<in>set rs. \<not> region_id_taken m (region_id r)"
  shows "\<exists>x. bootstrap_presplit m key rs =
      (m\<lparr>next_region_id := x, spaces := hm_insert key \<lparr>space_key = key, regions = rs\<rparr> (spaces m)\<rparr>, Inr ())"
    and "rs = [r] \<Longrightarrow> \<exists>x. bootstrap_measurement m key r =
      (m\<lparr>next_region_id := x, spaces := hm_insert key \<lparr>space_key = key, regions = rs\<rparr> (spaces m)\<rparr>, Inr ())"
proof -
  have "distinct (map region_id rs)" "rs \<noteq> []" using ok by (simp_all add: space_ok_def)
  moreover from this(1) have "presplit_ids_fresh m [] rs = None" using presplit_fresh free by fastforce
  ultimately show "\<exists>x. bootstrap_presplit m key rs =
      (m\<lparr>next_region_id := x, spaces := hm_insert key \<lparr>space_key = key, regions = rs\<rparr> (spaces m)\<rparr>, Inr ())"
    using new install_accepts [OF ok]
    by (cases rs)
      (auto simp: bootstrap_presplit_def hm_contains_def
        intro!: exI [of _ "max (next_region_id m) (saturating_add (fold max (map region_id (tl rs)) (region_id (hd rs))) 1)"])
  show "\<exists>x. bootstrap_measurement m key r =
      (m\<lparr>next_region_id := x, spaces := hm_insert key \<lparr>space_key = key, regions = rs\<rparr> (spaces m)\<rparr>, Inr ())" if "rs = [r]"
    using that new free install_accepts [OF ok]
    by (auto simp: bootstrap_measurement_def hm_contains_def Let_def
        intro!: exI [of _ "max (next_region_id m) (saturating_add (region_id r) 1)"])
qed

lemma not_taken:
  assumes "ids_below m" and "hm_wf (spaces m)" and "next_region_id m \<noteq> u64_max" and "next_region_id m \<le> i"
  shows "\<not> region_id_taken m i"
proof
  assume "region_id_taken m i"
  then obtain k s where "hm_get (spaces m) k = Some s" "i \<in> space_ids s"
    using region_id_taken_iff [OF assms(2)] by blast
  with assms(1,3) have "i < next_region_id m" unfolding ids_below_def by blast
  with assms(4) show False by simp
qed

section \<open>Properties\<close>

definition well_placed :: "u64 list \<Rightarrow> nat \<Rightarrow> shard_region \<Rightarrow> bool" where
  "well_placed candidates rf r \<longleftrightarrow> region_ok r \<and> is_serving r \<and> set (peers r) \<subseteq> set candidates \<and> length (peers r) = rf"

lemma fresh_region_placed:
  assumes "distinct ps" and "set ps \<subseteq> set candidates" and "length ps = rf" and "0 < rf"
  shows "well_placed candidates rf (fresh_region i a b ps (case ps of p # _ \<Rightarrow> p | [] \<Rightarrow> 0) t)"
  using assms by (cases ps) (auto simp: well_placed_def region_ok_def is_serving_def fresh_region_def)

lemma presplit_regions_placed:
  assumes cand: "distinct candidates" "candidates \<noteq> []" and rf: "0 < rf" "rf \<le> length candidates"
    and n: "0 < n" "n < 2 ^ 64" "unat first + n \<le> 2 ^ 64"
  shows "\<exists>rs. presplit_regions key first n candidates rf t = Some rs \<and> length rs = n
    \<and> space_ok \<lparr>space_key = key, regions = rs\<rparr> \<and> (\<forall>r\<in>set rs. well_placed candidates rf r \<and> first \<le> region_id r)"
proof -
  let ?b = "\<lambda>i. (first + word_of_nat i, word_of_nat i * (u64_max div word_of_nat n),
      if i + 1 = n then u64_max else word_of_nat (i + 1) * (u64_max div word_of_nat n)) :: u64 \<times> u64 \<times> u64"
  let ?ins = "presplit_inputs key candidates (presplit_bounds first n)"
  have b: "presplit_bounds first n = map ?b [0..<n]" by (simp add: presplit_bounds_def Let_def)
  have idx: "unat (first + word_of_nat i) = unat first + i" if "i < n" for i
  proof -
    have "first + word_of_nat i = word_of_nat (unat first + i)" by simp
    with that n(3) show ?thesis by (simp only: unat_of_nat_small)
  qed
  have "inj_on (\<lambda>i. first + word_of_nat i :: u64) {0..<n}"
    by (rule inj_onI) (metis idx add_left_cancel atLeastLessThan_iff)
  then have "plan_input_ok ?ins"
    using ranking_distinct [OF cand(1)]
    by (auto simp: plan_input_ok_def presplit_inputs_def b distinct_map comp_def list_all_iff target_placement_take ranking_length)
  from plan_copies [OF this, of rf 10] obtain plan where plan: "plan_placement ?ins rf 10 = Some plan"
    and set: "\<And>r. r \<in> set ?ins \<Longrightarrow> rp_hrw r \<noteq> [] \<Longrightarrow> \<exists>t. hm_get plan (rp_region_id r) = Some t \<and> set_ok rf r t" by blast
  define P where "P i = (case hm_get plan (first + word_of_nat i) of Some ps \<Rightarrow> ps | None \<Rightarrow> [])" for i
  define R where "R i = (let (j, a, b) = ?b i in fresh_region j a b (P i) (case P i of p # _ \<Rightarrow> p | [] \<Rightarrow> 0) t)" for i
  have P: "distinct (P i) \<and> set (P i) \<subseteq> set candidates \<and> length (P i) = rf" if i: "i < n" for i
  proof -
    let ?hrw = "target_placement key (word_of_nat i * (u64_max div word_of_nat n)) candidates (length candidates)"
    have hrw: "set ?hrw = set candidates" "length ?hrw = length candidates"
      by (simp_all add: target_placement_take ranking_length ranking_set)
    let ?r = "\<lparr>rp_region_id = first + word_of_nat i, rp_current_peers = [], rp_current_primary = 0, rp_weight = 1, rp_hrw = ?hrw\<rparr>"
    have "?r \<in> set ?ins" using i by (force simp: presplit_inputs_def b)
    moreover have "rp_hrw ?r \<noteq> []" using hrw(2) cand(2) by auto
    ultimately obtain ps where "hm_get plan (first + word_of_nat i) = Some ps" "set_ok rf ?r ps" using set by fastforce
    then show ?thesis using hrw rf(2) by (simp add: P_def set_ok_def)
  qed
  have rs: "presplit_regions key first n candidates rf t = Some (map R [0..<n])"
  proof -
    have mx: "max n 1 = n" using n(1) by simp
    show ?thesis
      unfolding presplit_regions_def mx Let_def plan option.map(2) unfolding b
      by (simp add: R_def P_def comp_def)
  qed
  have R: "region_id (R i) = first + word_of_nat i \<and> r_start (R i) = word_of_nat i * (u64_max div word_of_nat n)
      \<and> r_end (R i) = (if i + 1 = n then u64_max else word_of_nat (i + 1) * (u64_max div word_of_nat n))" for i
    by (simp add: R_def fresh_region_def)
  note seg = segment_facts [where R = R, OF n R]
  have "well_placed candidates rf (R i) \<and> first \<le> region_id (R i)" if i: "i < n" for i
    using fresh_region_placed [of "P i" candidates rf] P [OF i] rf(1) idx [OF i] R [of i]
    by (simp add: R_def word_le_nat_alt)
  with rs seg(1) [of key] show ?thesis by auto
qed

definition bootstrap_size :: "nat \<Rightarrow> u64 list \<Rightarrow> nat" where
  "bootstrap_size per_node candidates = (if 1 < length candidates then max 1 (per_node * length candidates) else 1)"

lemma single_region_placed:
  fixes mem self_id
  defines "candidates \<equiv> placeable_members mem self_id"
  assumes "candidates \<noteq> []" and rf: "rf = min (max replication_factor 1) (length candidates)"
  shows "\<exists>ps. select_bootstrap_peers mem self_id replication_factor key = ps \<and> ps \<noteq> []
    \<and> well_placed candidates rf (fresh_region i a b ps (ps ! 0) t)"
proof -
  let ?ps = "select_bootstrap_peers mem self_id replication_factor key"
  have dist: "distinct candidates" by (simp add: candidates_def placeable_distinct)
  have r: "0 < rf" "rf \<le> length candidates" using assms(2) by (auto simp: rf)
  have "?ps = take rf (ranking key 0 candidates)"
    using assms(2)
    by (simp add: select_bootstrap_peers_def Let_def candidates_def [symmetric] effective_replication_factor_def rf target_placement_take)
  then have ps: "distinct ?ps" "set ?ps \<subseteq> set candidates" "length ?ps = rf"
    using ranking_distinct [OF dist] r(2) set_take_subset [of rf "ranking key 0 candidates"]
    by (simp_all add: ranking_length ranking_set)
  have ne: "?ps \<noteq> []" using ps(3) r(1) by auto
  then have "(case ?ps of p # _ \<Rightarrow> p | [] \<Rightarrow> 0) = ?ps ! 0" by (cases ?ps) auto
  with fresh_region_placed [OF ps r(1), of i a b t] ne show ?thesis by auto
qed

lemma build_op_shape:
  fixes mem self_id
  defines "candidates \<equiv> placeable_members mem self_id"
  assumes ne: "candidates \<noteq> []" and rf: "rf = min (max replication_factor 1) (length candidates)"
    and b: "unat (next_region_id m) + bootstrap_size per_node candidates < 2 ^ 64 - 1"
  shows "\<exists>op rs. build_bootstrap_op mem self_id per_node replication_factor now m key = Some (Inr op)
    \<and> (op = BootstrapMeasurementPresplit key rs \<or> (\<exists>r. rs = [r] \<and> op = BootstrapMeasurement key r))
    \<and> length rs = bootstrap_size per_node candidates \<and> space_ok \<lparr>space_key = key, regions = rs\<rparr>
    \<and> (\<forall>r\<in>set rs. well_placed candidates rf r \<and> next_region_id m \<le> region_id r)"
proof (cases "1 < length candidates \<and> 1 < per_node * length candidates")
  case True
  have r: "0 < rf" "rf \<le> length candidates" "effective_replication_factor replication_factor (length candidates) = rf"
    using ne by (auto simp: rf effective_replication_factor_def Let_def)
  have n: "bootstrap_size per_node candidates = per_node * length candidates"
    and w: "usize_saturating_mul per_node (length candidates) = per_node * length candidates"
    using True b by (auto simp: bootstrap_size_def usize_saturating_mul_def)
  have bd: "0 < per_node * length candidates" "per_node * length candidates < 2 ^ 64"
    "unat (next_region_id m) + per_node * length candidates \<le> 2 ^ 64" using True b n by linarith+
  from presplit_regions_placed [OF placeable_distinct [of mem self_id, folded candidates_def] ne r(1,2) bd, of key "split_stamp now"]
  obtain rs where rs: "presplit_regions key (next_region_id m) (per_node * length candidates) candidates rf (split_stamp now) = Some rs"
    "length rs = per_node * length candidates" "space_ok \<lparr>space_key = key, regions = rs\<rparr>"
    "\<forall>r\<in>set rs. well_placed candidates rf r \<and> next_region_id m \<le> region_id r" by auto
  have "build_bootstrap_op mem self_id per_node replication_factor now m key = Some (Inr (BootstrapMeasurementPresplit key rs))"
    using True rs(1) r(3) by (simp add: build_bootstrap_op_def Let_def candidates_def [symmetric] w)
  with rs n show ?thesis by auto
next
  case False
  from single_region_placed [OF ne [unfolded candidates_def] rf [unfolded candidates_def], of key "next_region_id m" 0 u64_max "split_stamp now"]
  obtain ps where ps: "select_bootstrap_peers mem self_id replication_factor key = ps" "ps \<noteq> []"
    and placed: "well_placed candidates rf (fresh_region (next_region_id m) 0 u64_max ps (ps ! 0) (split_stamp now))"
    by (auto simp: candidates_def)
  let ?r = "fresh_region (next_region_id m) 0 u64_max ps (ps ! 0) (split_stamp now)"
  have "\<not> (1 < usize_saturating_mul per_node (length candidates) \<and> 1 < length candidates)"
    using False by (auto simp: usize_saturating_mul_def)
  then have "build_bootstrap_op mem self_id per_node replication_factor now m key = Some (Inr (BootstrapMeasurement key ?r))"
    using ps by (auto simp: build_bootstrap_op_def Let_def candidates_def)
  moreover have "bootstrap_size per_node candidates = 1" using False by (auto simp: bootstrap_size_def)
  moreover have "space_ok \<lparr>space_key = key, regions = [?r]\<rparr>" "next_region_id m \<le> region_id ?r"
    by (simp_all add: fresh_region_def space_ok_def sorted_regions_def)
  ultimately show ?thesis using placed by (intro exI [of _ "BootstrapMeasurement key ?r"] exI [of _ "[?r]"]) simp
qed

text \<open>
  C16. Along the log the operation built for a measurement the map does not know, over any non-empty
  set of nodes it may be placed on, is accepted as long as the region ids do not run out. Its regions
  tile the hash space, one for the whole space or the configured number per node; each is served by as
  many distinct placeable nodes as the replication factor and the cluster allow, its primary among
  them; a node without a leader to ask has them in its map afterwards; and no other measurement
  changes.
\<close>

theorem bootstrap_op_accepted:
  fixes mem self_id
  defines "candidates \<equiv> placeable_members mem self_id"
  assumes "numbered.reachable m" and "hm_get (spaces m) key = None" and "candidates \<noteq> []"
    and "unat (next_region_id m) + bootstrap_size per_node candidates < 2 ^ 64 - 1"
  shows "\<exists>op m' s. build_bootstrap_op mem self_id per_node replication_factor now m key = Some (Inr op)
    \<and> numbered_step m op m' \<and> bootstrap_measurement_local mem self_id per_node replication_factor now key m = Some (m', Inr ())
    \<and> hm_get (spaces m') key = Some s \<and> space_inv key s
    \<and> length (regions s) = bootstrap_size per_node candidates
    \<and> list_all (well_placed candidates (min (max replication_factor 1) (length candidates))) (regions s)
    \<and> (\<forall>k. k \<noteq> key \<longrightarrow> hm_get (spaces m') k = hm_get (spaces m) k)"
proof -
  define rf where "rf = min (max replication_factor 1) (length candidates)"
  have inv: "map_inv m" "ids_below m" using numbered.reachable_inv [OF assms(2)] by auto
  note wf = map_invD(1) [OF inv(1)]
  have nmax: "next_region_id m \<noteq> u64_max"
    using assms(5) by (auto simp: unsigned_minus_1_eq_mask mask_eq_exp_minus_1)
  from build_op_shape [OF assms(4) [unfolded candidates_def] rf_def [unfolded candidates_def] assms(5) [unfolded candidates_def],
      of now key]
  obtain op rs where op: "build_bootstrap_op mem self_id per_node replication_factor now m key = Some (Inr op)"
    "op = BootstrapMeasurementPresplit key rs \<or> (\<exists>r. rs = [r] \<and> op = BootstrapMeasurement key r)"
    and rs: "length rs = bootstrap_size per_node candidates" "space_ok \<lparr>space_key = key, regions = rs\<rparr>"
    "\<forall>r\<in>set rs. well_placed candidates rf r \<and> next_region_id m \<le> region_id r" unfolding candidates_def by blast
  let ?m = "m\<lparr>map_version := saturating_add (map_version m) 1\<rparr>"
  have free: "\<forall>r\<in>set rs. \<not> region_id_taken ?m (region_id r)"
    using not_taken [OF inv(2) wf nmax] rs(3) by (simp add: region_id_taken_cong [of ?m m])
  from bootstrap_accepts [OF rs(2), of ?m] op(2) assms(3) free
  obtain x where ap: "apply_shard_map_op m op = (m\<lparr>map_version := saturating_add (map_version m) 1, next_region_id := x,
      spaces := hm_insert key \<lparr>space_key = key, regions = rs\<rparr> (spaces m)\<rparr>, Inr ())"
    by (auto simp: apply_shard_map_op_def)
  have okr: "list_all region_ok rs" using rs(3) by (auto simp: list_all_iff well_placed_def)
  with op(2) ap have "numbered_step m op (m\<lparr>map_version := saturating_add (map_version m) 1, next_region_id := x,
      spaces := hm_insert key \<lparr>space_key = key, regions = rs\<rparr> (spaces m)\<rparr>)"
    by (auto simp: numbered_step_def log_step_def)
  moreover have "bootstrap_measurement_local mem self_id per_node replication_factor now key m =
      Some (fst (apply_shard_map_op m op), Inr ())"
    using op(1) ap assms(3) by (cases key) (simp add: bootstrap_measurement_local_def map_space_def)
  ultimately show ?thesis
    using op(1) rs okr ap unfolding rf_def [symmetric] by (intro exI) (auto simp: hm.get_ins [OF wf] space_inv_def list_all_iff)
qed

theorem bootstrap_op_accepted_witness:
  "\<exists>op m' s. build_bootstrap_op demo_members 3 2 2 (Some 7) default_shard_map demo_key = Some (Inr op)
     \<and> numbered_step default_shard_map op m' \<and> hm_get (spaces m') demo_key = Some s \<and> length (regions s) = 4"
proof -
  have c: "placeable_members demo_members 3 = [2, 3]"
    by (simp add: placeable_members_def active_peers_def get_node_def demo_members_def add_node_def new_membership_def
        demo_node_def hm_values_def hm_get_def hm_insert_def)
  have "numbered.reachable default_shard_map" by (rule numbered.reachable_init) simp
  from bootstrap_op_accepted [OF this, of demo_key demo_members 3 2 2 "Some 7"] show ?thesis
    by (auto simp: c bootstrap_size_def default_shard_map_def default_next_region_id_def hm_get_def)
qed

end
