(* ===== verification/Raft_Store.thy ===== *)
theory Raft_Store
  imports Shard_Store Location_Cache Membership Wal_Codec Points_Frame Hinted_Handoff
begin

text \<open>
  The storage of the consensus log (\<open>adapters/cluster/raft/log_store.rs\<close>, with the data of
  \<open>state_machine.rs\<close> and \<open>types.rs\<close>): votes, log entries, the state machine and snapshots in one
  RocksDB, and what applying a committed entry does to the live membership, to the schema and to the
  shard map. The protocol itself (openraft), RocksDB and the JSON codec are not part of the sources:
  the store and the codec are fields of \<open>raft_env\<close>, and log ids are the part of openraft's that the code
  reads. Applying a schema mutation goes through the metadata port and is a field of \<open>raft_env\<close> too.
  A snapshot is built from the state at the call; the code builds it from a copy of the store that openraft
  asked for, which may be some entries behind.
\<close>

section \<open>Column families\<close>

datatype raft_key = LogsCf "u8 list" | RaftMetaCf string | StateCf string

fun raft_cf_rank :: "raft_key \<Rightarrow> nat" where
  "raft_cf_rank (LogsCf _) = 0"
| "raft_cf_rank (RaftMetaCf _) = 1"
| "raft_cf_rank (StateCf _) = 2"

instantiation raft_key :: linorder
begin

definition less_eq_raft_key :: "raft_key \<Rightarrow> raft_key \<Rightarrow> bool" where
  "less_eq_raft_key a b =
     (case (a, b) of
        (LogsCf x, LogsCf y) \<Rightarrow> x \<le> y
      | (RaftMetaCf x, RaftMetaCf y) \<Rightarrow> x \<le> y
      | (StateCf x, StateCf y) \<Rightarrow> x \<le> y
      | _ \<Rightarrow> raft_cf_rank a < raft_cf_rank b)"

definition less_raft_key :: "raft_key \<Rightarrow> raft_key \<Rightarrow> bool" where
  "less_raft_key a b = (a \<le> b \<and> \<not> b \<le> a)"

instance
  by standard (auto simp: less_eq_raft_key_def less_raft_key_def split: raft_key.splits)

end

lemma raft_key_order [simp]:
  "LogsCf x \<le> LogsCf y \<longleftrightarrow> x \<le> y" "LogsCf x < LogsCf y \<longleftrightarrow> x < y" "LogsCf x < RaftMetaCf m" "LogsCf x < StateCf s"
  "\<not> RaftMetaCf m < LogsCf x" "\<not> StateCf s < LogsCf x" "\<not> RaftMetaCf m \<le> LogsCf x" "\<not> StateCf s \<le> LogsCf x"
  "\<not> StateCf s < RaftMetaCf m"
  by (auto simp: less_eq_raft_key_def less_raft_key_def)

definition KEY_VOTE :: raft_key where "KEY_VOTE = RaftMetaCf ''vote''"
definition KEY_LAST_PURGED :: raft_key where "KEY_LAST_PURGED = RaftMetaCf ''last_purged''"
definition KEY_SM_DATA :: raft_key where "KEY_SM_DATA = StateCf ''sm_data''"
definition KEY_SNAPSHOT :: raft_key where "KEY_SNAPSHOT = StateCf ''snapshot''"

definition be_to_u64 :: "u8 list \<Rightarrow> u64" where
  "be_to_u64 bytes = from_be_bytes (take 8 bytes)"

section \<open>Data\<close>

record log_id =
  li_term :: u64
  li_node :: u64
  li_index :: u64

record raft_membership =
  joint_config :: "u64 list list"
  raft_nodes :: "(u64 \<times> string) list"

record stored_membership =
  st_log_id :: "log_id option"
  st_membership :: raft_membership

record state_machine_data =
  last_applied_log :: "log_id option"
  last_membership :: stored_membership
  sm_cluster_membership :: cluster_membership

definition default_sm :: state_machine_data where
  "default_sm =
     \<lparr>last_applied_log = None,
      last_membership = \<lparr>st_log_id = None, st_membership = \<lparr>joint_config = [], raft_nodes = []\<rparr>\<rparr>,
      sm_cluster_membership = new_membership\<rparr>"

text \<open>
  The schema mutations that carry a space drop; what the others hold is not looked at here. A response
  keeps the error it was made from instead of its text.
\<close>

datatype 'x schema_mutation =
    DropDatabase string
  | DropRetentionPolicy string string
  | DropMeasurement string string string
  | OtherMutation 'x

datatype 'x cluster_request =
    SetNodeState u64 node_state
  | SchemaMutation "'x schema_mutation"
  | ShardMapMutation shard_map_op

datatype cluster_response = Success | ShardMapFailed store_error | SchemaFailed string | NotAvailable string

datatype 'x entry_payload = Blank | Normal "'x cluster_request" | MembershipChange raft_membership

record 'x raft_entry =
  en_log_id :: log_id
  en_payload :: "'x entry_payload"

record snapshot_meta =
  sn_last_log_id :: "log_id option"
  sn_last_membership :: stored_membership
  sn_snapshot_id :: string

record stored_snapshot =
  ss_meta :: snapshot_meta
  ss_data :: "u8 list"

record ('v, 'x) raft_codec =
  rc_vote :: "'v serializer"
  rc_log_id :: "log_id serializer"
  rc_entry :: "'x raft_entry serializer"
  rc_sm :: "state_machine_data serializer"
  rc_snapshot :: "stored_snapshot serializer"
  rc_leader_name :: "log_id \<Rightarrow> string"

record ('d, 'v, 'x, 's, 'b, 'm) raft_env =
  rv_kv :: "('d, raft_key, u8 list) rocks"
  rv_flush_wal :: "'d \<Rightarrow> string + unit"
  rv_codec :: "('v, 'x) raft_codec"
  rv_shard_kv :: "('s, string, 'b) rocks"
  rv_shard_codec :: "'b codec"
  rv_schema :: "'x schema_mutation \<Rightarrow> 'm \<Rightarrow> 'm \<times> (string + unit)"

record ('d, 'v, 's, 'm) raft_store =
  rs_db :: 'd
  rs_vote :: "'v option"
  rs_last_purged :: "log_id option"
  rs_sm :: state_machine_data
  rs_shared :: cluster_membership
  rs_metadata :: "'m option"
  rs_shard_map :: "'s shard_store option"
  rs_cache :: "cache_inner option"

section \<open>Opening\<close>

definition read_row :: "('d, raft_key, u8 list) rocks \<Rightarrow> 'x serializer \<Rightarrow> raft_key \<Rightarrow> 'd \<Rightarrow> string + 'x option" where
  "read_row kv c k d =
     and_then (rdb_get kv d k) (\<lambda>v. case v of
        None \<Rightarrow> Inr None
      | Some bytes \<Rightarrow> and_then (snd c bytes) (\<lambda>x. Inr (Some x)))"

definition open_raft :: "('d, 'v, 'x, 's, 'b, 'm) raft_env \<Rightarrow> 'd \<Rightarrow> cluster_membership \<Rightarrow> string + ('d, 'v, 's, 'm) raft_store" where
  "open_raft env d shared =
     and_then (read_row (rv_kv env) (rc_vote (rv_codec env)) KEY_VOTE d) (\<lambda>vote.
     and_then (read_row (rv_kv env) (rc_log_id (rv_codec env)) KEY_LAST_PURGED d) (\<lambda>purged.
     and_then (read_row (rv_kv env) (rc_sm (rv_codec env)) KEY_SM_DATA d) (\<lambda>sm.
       Inr \<lparr>rs_db = d, rs_vote = vote, rs_last_purged = purged,
            rs_sm = (case sm of Some s \<Rightarrow> s | None \<Rightarrow> default_sm), rs_shared = shared,
            rs_metadata = None, rs_shard_map = None, rs_cache = None\<rparr>)))"

section \<open>The log\<close>

definition sync_write :: "('d, 'v, 'x, 's, 'b, 'm) raft_env \<Rightarrow> 'd \<Rightarrow> (raft_key, u8 list) batch_op list \<Rightarrow> 'd \<times> (string + unit)" where
  "sync_write env d ops =
     (case rdb_write (rv_kv env) d ops of
        (d, Inl e) \<Rightarrow> (d, Inl e)
      | (d, Inr _) \<Rightarrow> (d, rv_flush_wal env d))"

definition save_vote :: "('d, 'v, 'x, 's, 'b, 'm) raft_env \<Rightarrow> 'v \<Rightarrow> ('d, 'v, 's, 'm) raft_store
    \<Rightarrow> ('d, 'v, 's, 'm) raft_store \<times> (string + unit)" where
  "save_vote env vote st =
     (case fst (rc_vote (rv_codec env)) vote of
        Inl e \<Rightarrow> (st, Inl e)
      | Inr bytes \<Rightarrow>
          (case sync_write env (rs_db st) [Put KEY_VOTE bytes] of
             (d, Inl e) \<Rightarrow> (st\<lparr>rs_db := d\<rparr>, Inl e)
           | (d, Inr _) \<Rightarrow> (st\<lparr>rs_db := d, rs_vote := Some vote\<rparr>, Inr ())))"

definition read_vote :: "('d, 'v, 's, 'm) raft_store \<Rightarrow> 'v option" where
  "read_vote st = rs_vote st"

datatype bound = Included u64 | Excluded u64 | Unbounded

fun start_index :: "bound \<Rightarrow> u64" where
  "start_index (Included v) = v"
| "start_index (Excluded v) = v + 1"
| "start_index Unbounded = 0"

fun end_index :: "bound \<Rightarrow> u64 option" where
  "end_index (Included v) = Some (v + 1)"
| "end_index (Excluded v) = Some v"
| "end_index Unbounded = None"

text \<open>The iterator ends with the column family.\<close>

fun read_log_rows :: "'e serializer \<Rightarrow> u64 option \<Rightarrow> (string + raft_key \<times> u8 list) list \<Rightarrow> string + 'e list" where
  "read_log_rows c stop [] = Inr []"
| "read_log_rows c stop (Inl e # items) = Inl e"
| "read_log_rows c stop (Inr (LogsCf key, val) # items) =
     (if (case stop of Some n \<Rightarrow> n \<le> be_to_u64 key | None \<Rightarrow> False) then Inr []
      else and_then (snd c val) (\<lambda>e. and_then (read_log_rows c stop items) (\<lambda>es. Inr (e # es))))"
| "read_log_rows c stop (Inr (RaftMetaCf key, val) # items) = Inr []"
| "read_log_rows c stop (Inr (StateCf key, val) # items) = Inr []"

definition try_get_log_entries :: "('d, 'v, 'x, 's, 'b, 'm) raft_env \<Rightarrow> bound \<Rightarrow> bound \<Rightarrow> ('d, 'v, 's, 'm) raft_store
    \<Rightarrow> string + 'x raft_entry list" where
  "try_get_log_entries env lower upper st =
     read_log_rows (rc_entry (rv_codec env)) (end_index upper)
       (rdb_iter_from (rv_kv env) (rs_db st) (LogsCf (to_be_bytes (start_index lower))))"

definition get_log_state :: "('d, 'v, 'x, 's, 'b, 'm) raft_env \<Rightarrow> ('d, 'v, 's, 'm) raft_store
    \<Rightarrow> string + log_id option \<times> log_id option" where
  "get_log_state env st =
     and_then (case rdb_iter_back (rv_kv env) (rs_db st) (RaftMetaCf []) of
         [] \<Rightarrow> Inr None
       | Inl e # _ \<Rightarrow> Inl e
       | Inr (_, val) # _ \<Rightarrow> and_then (snd (rc_entry (rv_codec env)) val) (\<lambda>e. Inr (Some (en_log_id e))))
       (\<lambda>last. Inr (rs_last_purged st, case last of Some i \<Rightarrow> Some i | None \<Rightarrow> rs_last_purged st))"

fun encode_entries :: "'x raft_entry serializer \<Rightarrow> 'x raft_entry list \<Rightarrow> string + (raft_key, u8 list) batch_op list" where
  "encode_entries c [] = Inr []"
| "encode_entries c (e # es) =
     and_then (fst c e) (\<lambda>val. and_then (encode_entries c es) (\<lambda>ops.
       Inr (Put (LogsCf (to_be_bytes (li_index (en_log_id e)))) val # ops)))"

definition append_to_log :: "('d, 'v, 'x, 's, 'b, 'm) raft_env \<Rightarrow> 'x raft_entry list \<Rightarrow> ('d, 'v, 's, 'm) raft_store
    \<Rightarrow> ('d, 'v, 's, 'm) raft_store \<times> (string + unit)" where
  "append_to_log env entries st =
     (case encode_entries (rc_entry (rv_codec env)) entries of
        Inl e \<Rightarrow> (st, Inl e)
      | Inr ops \<Rightarrow>
          (let (d, res) = sync_write env (rs_db st) ops in (st\<lparr>rs_db := d\<rparr>, res)))"

text \<open>The range delete spares the last index, which is deleted on its own; failing to is ignored.\<close>

definition delete_conflict_logs_since :: "('d, 'v, 'x, 's, 'b, 'm) raft_env \<Rightarrow> log_id \<Rightarrow> ('d, 'v, 's, 'm) raft_store
    \<Rightarrow> ('d, 'v, 's, 'm) raft_store \<times> (string + unit)" where
  "delete_conflict_logs_since env log st =
     (case rdb_write (rv_kv env) (rs_db st) [DeleteRange (LogsCf (to_be_bytes (li_index log))) (LogsCf (to_be_bytes u64_max))] of
        (d, Inl e) \<Rightarrow> (st\<lparr>rs_db := d\<rparr>, Inl e)
      | (d, Inr _) \<Rightarrow> (st\<lparr>rs_db := fst (rdb_write (rv_kv env) d [Delete (LogsCf (to_be_bytes u64_max))])\<rparr>, Inr ()))"

definition purge_logs_upto :: "('d, 'v, 'x, 's, 'b, 'm) raft_env \<Rightarrow> log_id \<Rightarrow> ('d, 'v, 's, 'm) raft_store
    \<Rightarrow> ('d, 'v, 's, 'm) raft_store \<times> (string + unit)" where
  "purge_logs_upto env log st =
     (case fst (rc_log_id (rv_codec env)) log of
        Inl e \<Rightarrow> (st, Inl e)
      | Inr bytes \<Rightarrow>
          (case sync_write env (rs_db st) [Put KEY_LAST_PURGED bytes] of
             (d, Inl e) \<Rightarrow> (st\<lparr>rs_db := d\<rparr>, Inl e)
           | (d, Inr _) \<Rightarrow>
               (case sync_write env d [DeleteRange (LogsCf (to_be_bytes 0)) (LogsCf (to_be_bytes (li_index log + 1)))] of
                  (d, Inl e) \<Rightarrow> (st\<lparr>rs_db := d\<rparr>, Inl e)
                | (d, Inr _) \<Rightarrow> (st\<lparr>rs_db := d, rs_last_purged := Some log\<rparr>, Inr ()))))"

section \<open>Membership\<close>

text \<open>\<open>get_mut\<close> of a known node, or the insertion of a new one.\<close>

definition merge_node :: "(node_info \<Rightarrow> node_info \<Rightarrow> node_info) \<Rightarrow> u64 \<times> node_info \<Rightarrow> cluster_membership \<Rightarrow> cluster_membership" where
  "merge_node upd = (\<lambda>(i, info) shared.
     case hm_get (nodes shared) i of
       Some _ \<Rightarrow> with_node i (\<lambda>existing. upd existing info) shared
     | None \<Rightarrow> add_node info shared)"

definition snapshot_update :: "node_info \<Rightarrow> node_info \<Rightarrow> node_info" where
  "snapshot_update existing info =
     (let existing = existing\<lparr>addr := addr info\<rparr>
      in if node_state existing = Active \<or> node_state existing = Syncing then existing
         else existing\<lparr>node_state := node_state info\<rparr>)"

definition merge_snapshot_membership :: "cluster_membership \<Rightarrow> cluster_membership \<Rightarrow> cluster_membership" where
  "merge_snapshot_membership shared incoming = fold (merge_node snapshot_update) (nodes incoming) shared"

definition self_axis :: "node_state \<Rightarrow> bool" where
  "self_axis s = (s = Active \<or> s = Syncing \<or> s = Joining)"

definition persisted_update :: "node_info \<Rightarrow> node_info \<Rightarrow> node_info" where
  "persisted_update existing info =
     (let existing = existing\<lparr>addr := addr info\<rparr>
      in if self_axis (node_state existing) \<and> self_axis (node_state info) then existing
         else existing\<lparr>node_state := node_state info\<rparr>)"

definition merge_persisted_membership :: "cluster_membership \<Rightarrow> cluster_membership \<Rightarrow> cluster_membership" where
  "merge_persisted_membership shared persisted =
     fold (merge_node persisted_update) (nodes persisted)
       (shared\<lparr>member_version := max (member_version shared) (member_version persisted)\<rparr>)"

definition voter_ids :: "raft_membership \<Rightarrow> u64 set" where
  "voter_ids mem = set (concat (joint_config mem))"

definition overlay_node :: "raft_membership \<Rightarrow> int \<Rightarrow> u64 \<times> string \<Rightarrow> cluster_membership \<Rightarrow> cluster_membership" where
  "overlay_node mem now = (\<lambda>(nid, address) shared.
     case hm_get (nodes shared) nid of
       Some _ \<Rightarrow> with_node nid (\<lambda>existing. existing\<lparr>addr := address, last_heartbeat := now\<rparr>) shared
     | None \<Rightarrow>
         add_node \<lparr>node_id = nid, addr = address,
           node_state = (if nid \<in> voter_ids mem then Active else Syncing), joined_at = now, last_heartbeat = now,
           needs_sync = False, consecutive_misses = 0\<rparr> shared)"

definition sync_raft_membership_to_shared :: "int \<Rightarrow> raft_membership \<Rightarrow> cluster_membership \<Rightarrow> cluster_membership" where
  "sync_raft_membership_to_shared now mem shared =
     (let shared = fold (overlay_node mem now) (raft_nodes mem) shared;
          stale = filter (\<lambda>i. i \<notin> fst ` set (raft_nodes mem)) (hm_keys (nodes shared))
      in fold remove_node stale shared)"

definition hydrate_shared_membership_from_state_machine :: "int \<Rightarrow> ('d, 'v, 's, 'm) raft_store \<Rightarrow> ('d, 'v, 's, 'm) raft_store" where
  "hydrate_shared_membership_from_state_machine now st =
     (let mem = st_membership (last_membership (rs_sm st));
          persisted = sm_cluster_membership (rs_sm st)
      in if raft_nodes mem = [] \<and> nodes persisted = [] then st
         else
           let shared = (if nodes persisted \<noteq> [] then merge_persisted_membership (rs_shared st) persisted else rs_shared st)
           in st\<lparr>rs_shared := fold (overlay_node mem now) (raft_nodes mem) shared\<rparr>)"

section \<open>Applying entries\<close>

definition drop_space_for :: "'x schema_mutation \<Rightarrow> shard_map_op option" where
  "drop_space_for mutation =
     (case mutation of
        DropDatabase d \<Rightarrow> Some (DropSpace d None None)
      | DropRetentionPolicy d r \<Rightarrow> Some (DropSpace d (Some r) None)
      | DropMeasurement d r mm \<Rightarrow> Some (DropSpace d (Some r) (Some mm))
      | OtherMutation _ \<Rightarrow> None)"

definition raft_apply_op :: "('d, 'v, 'x, 's, 'b, 'm) raft_env \<Rightarrow> shard_map_op \<Rightarrow> ('d, 'v, 's, 'm) raft_store
    \<Rightarrow> ('d, 'v, 's, 'm) raft_store \<times> cluster_response" where
  "raft_apply_op env op st =
     (case rs_shard_map st of
        None \<Rightarrow> (st, NotAvailable ''shard map not available'')
      | Some sm \<Rightarrow>
          (let changed = affected_space_keys op (ss_cache sm)
           in case apply_op (rv_shard_kv env) (rv_shard_codec env) op sm of
                (sm, Inr m) \<Rightarrow>
                  (st\<lparr>rs_shard_map := Some sm, rs_cache := map_option (fold (refresh_measurement m) changed) (rs_cache st)\<rparr>, Success)
              | (sm, Inl e) \<Rightarrow> (st\<lparr>rs_shard_map := Some sm\<rparr>, ShardMapFailed e)))"

definition apply_request :: "('d, 'v, 'x, 's, 'b, 'm) raft_env \<Rightarrow> 'x cluster_request \<Rightarrow> ('d, 'v, 's, 'm) raft_store
    \<Rightarrow> ('d, 'v, 's, 'm) raft_store \<times> cluster_response" where
  "apply_request env req st =
     (case req of
        SetNodeState i s \<Rightarrow> (st\<lparr>rs_shared := fst (set_state i s (rs_shared st))\<rparr>, Success)
      | SchemaMutation mutation \<Rightarrow>
          (case rs_metadata st of
             None \<Rightarrow> (st, NotAvailable ''metadata port not available'')
           | Some md \<Rightarrow>
               (let (md, res) = rv_schema env mutation md;
                    st = st\<lparr>rs_metadata := Some md\<rparr>;
                    resp = (case res of Inr _ \<Rightarrow> Success | Inl e \<Rightarrow> SchemaFailed e)
                in case drop_space_for mutation of
                     Some op \<Rightarrow> if rs_shard_map st \<noteq> None then (fst (raft_apply_op env op st), resp) else (st, resp)
                   | None \<Rightarrow> (st, resp)))
      | ShardMapMutation op \<Rightarrow> raft_apply_op env op st)"

definition apply_entry :: "('d, 'v, 'x, 's, 'b, 'm) raft_env \<Rightarrow> int \<Rightarrow> 'x raft_entry \<Rightarrow> ('d, 'v, 's, 'm) raft_store
    \<Rightarrow> ('d, 'v, 's, 'm) raft_store \<times> cluster_response" where
  "apply_entry env now e st =
     (let st = st\<lparr>rs_sm := (rs_sm st)\<lparr>last_applied_log := Some (en_log_id e)\<rparr>\<rparr>
      in case en_payload e of
           Blank \<Rightarrow> (st, Success)
         | Normal req \<Rightarrow> apply_request env req st
         | MembershipChange mem \<Rightarrow>
             (st\<lparr>rs_sm := (rs_sm st)\<lparr>last_membership := \<lparr>st_log_id = Some (en_log_id e), st_membership = mem\<rparr>\<rparr>,
                 rs_shared := sync_raft_membership_to_shared now mem (rs_shared st)\<rparr>, Success))"

fun apply_entries :: "('d, 'v, 'x, 's, 'b, 'm) raft_env \<Rightarrow> int \<Rightarrow> 'x raft_entry list \<Rightarrow> ('d, 'v, 's, 'm) raft_store
    \<Rightarrow> ('d, 'v, 's, 'm) raft_store \<times> cluster_response list" where
  "apply_entries env now [] st = (st, [])"
| "apply_entries env now (e # es) st =
     (let (st, r) = apply_entry env now e st; (st, rs) = apply_entries env now es st in (st, r # rs))"

definition apply_to_state_machine :: "('d, 'v, 'x, 's, 'b, 'm) raft_env \<Rightarrow> int \<Rightarrow> 'x raft_entry list \<Rightarrow> ('d, 'v, 's, 'm) raft_store
    \<Rightarrow> ('d, 'v, 's, 'm) raft_store \<times> (string + cluster_response list)" where
  "apply_to_state_machine env now entries st =
     (let (st, responses) = apply_entries env now entries st
      in case fst (rc_sm (rv_codec env)) (rs_sm st) of
           Inl e \<Rightarrow> (st, Inl e)
         | Inr bytes \<Rightarrow>
             (case rdb_write (rv_kv env) (rs_db st) [Put KEY_SM_DATA bytes] of
                (d, Inl e) \<Rightarrow> (st\<lparr>rs_db := d\<rparr>, Inl e)
              | (d, Inr _) \<Rightarrow> (st\<lparr>rs_db := d\<rparr>, Inr responses)))"

definition last_applied_state :: "('d, 'v, 's, 'm) raft_store \<Rightarrow> log_id option \<times> stored_membership" where
  "last_applied_state st = (last_applied_log (rs_sm st), last_membership (rs_sm st))"

section \<open>Snapshots\<close>

definition snapshot_of :: "('v, 'x) raft_codec \<Rightarrow> state_machine_data \<Rightarrow> string + stored_snapshot" where
  "snapshot_of c sm =
     and_then (fst (rc_sm c) sm) (\<lambda>bytes.
       Inr \<lparr>ss_meta = \<lparr>sn_last_log_id = last_applied_log sm, sn_last_membership = last_membership sm,
              sn_snapshot_id = (case last_applied_log sm of
                 Some i \<Rightarrow> rc_leader_name c i @ ''-'' @ decimal (li_index i) | None \<Rightarrow> [])\<rparr>,
            ss_data = bytes\<rparr>)"

definition serialize_snapshot :: "('d, 'v, 'x, 's, 'b, 'm) raft_env \<Rightarrow> ('d, 'v, 's, 'm) raft_store \<Rightarrow> string + stored_snapshot" where
  "serialize_snapshot env st = snapshot_of (rv_codec env) (rs_sm st)"

definition build_snapshot :: "('d, 'v, 'x, 's, 'b, 'm) raft_env \<Rightarrow> ('d, 'v, 's, 'm) raft_store
    \<Rightarrow> ('d, 'v, 's, 'm) raft_store \<times> (string + stored_snapshot)" where
  "build_snapshot env st =
     (case serialize_snapshot env st of
        Inl e \<Rightarrow> (st, Inl e)
      | Inr snap \<Rightarrow>
          (case fst (rc_snapshot (rv_codec env)) snap of
             Inl e \<Rightarrow> (st, Inl e)
           | Inr bytes \<Rightarrow>
               (case rdb_write (rv_kv env) (rs_db st) [Put KEY_SNAPSHOT bytes] of
                  (d, Inl e) \<Rightarrow> (st\<lparr>rs_db := d\<rparr>, Inl e)
                | (d, Inr _) \<Rightarrow> (st\<lparr>rs_db := d\<rparr>, Inr snap))))"

definition encode_purged :: "('v, 'x) raft_codec \<Rightarrow> log_id option \<Rightarrow> string + (raft_key, u8 list) batch_op list" where
  "encode_purged c lid =
     (case lid of
        None \<Rightarrow> Inr []
      | Some i \<Rightarrow> and_then (fst (rc_log_id c) i) (\<lambda>bytes.
          Inr [Put KEY_LAST_PURGED bytes, DeleteRange (LogsCf (to_be_bytes 0)) (LogsCf (to_be_bytes (li_index i + 1)))]))"

definition install_snapshot :: "('d, 'v, 'x, 's, 'b, 'm) raft_env \<Rightarrow> snapshot_meta \<Rightarrow> u8 list \<Rightarrow> ('d, 'v, 's, 'm) raft_store
    \<Rightarrow> ('d, 'v, 's, 'm) raft_store \<times> (string + unit)" where
  "install_snapshot env meta data st =
     (let c = rv_codec env
      in case and_then (snd (rc_sm c) data) (\<lambda>sm.
                and_then (fst (rc_sm c) sm) (\<lambda>sm_bytes.
                and_then (fst (rc_snapshot c) \<lparr>ss_meta = meta, ss_data = data\<rparr>) (\<lambda>snap_bytes.
                and_then (encode_purged c (sn_last_log_id meta)) (\<lambda>ops.
                  Inr (sm, [Put KEY_SM_DATA sm_bytes, Put KEY_SNAPSHOT snap_bytes] @ ops))))) of
           Inl e \<Rightarrow> (st, Inl e)
         | Inr (sm, ops) \<Rightarrow>
             (case sync_write env (rs_db st) ops of
                (d, Inl e) \<Rightarrow> (st\<lparr>rs_db := d\<rparr>, Inl e)
              | (d, Inr _) \<Rightarrow>
                  (st\<lparr>rs_db := d, rs_sm := sm, rs_last_purged := sn_last_log_id meta,
                      rs_shared := merge_snapshot_membership (rs_shared st) (sm_cluster_membership sm)\<rparr>, Inr ())))"

definition get_current_snapshot :: "('d, 'v, 'x, 's, 'b, 'm) raft_env \<Rightarrow> ('d, 'v, 's, 'm) raft_store \<Rightarrow> string + stored_snapshot option" where
  "get_current_snapshot env st =
     and_then (rdb_get (rv_kv env) (rs_db st) KEY_SNAPSHOT) (\<lambda>raw. case raw of
        Some bytes \<Rightarrow> and_then (snd (rc_snapshot (rv_codec env)) bytes) (\<lambda>s. Inr (Some s))
      | None \<Rightarrow>
          if last_applied_log (rs_sm st) \<noteq> None then and_then (serialize_snapshot env st) (\<lambda>s. Inr (Some s)) else Inr None)"

end
