(* ===== verification/Raft_Log.thy ===== *)
theory Raft_Log
  imports Raft_Store Ordered_Map
begin

text \<open>
  What the consensus storage of \<open>Raft_Store\<close> promises: it behaves as an ordered map from indexes to
  entries with a vote, a purge mark, a state machine and a snapshot (\<open>raft_log\<close>), on every run of its
  operations, restarts included; and when a write fails, a restart finds the state before or after
  the operation.
\<close>

section \<open>The abstract log\<close>

record ('v, 'x) raft_log =
  al_vote :: "'v option"
  al_purged :: "log_id option"
  al_sm :: state_machine_data
  al_snap :: "stored_snapshot option"
  al_log :: "(u64, 'x raft_entry) btree_map"

definition empty_log :: "('v, 'x) raft_log" where
  "empty_log = \<lparr>al_vote = None, al_purged = None, al_sm = default_sm, al_snap = None, al_log = []\<rparr>"

definition log_append :: "'x raft_entry list \<Rightarrow> (u64, 'x raft_entry) btree_map \<Rightarrow> (u64, 'x raft_entry) btree_map" where
  "log_append es l = fold (\<lambda>e. bm_insert (li_index (en_log_id e)) e) es l"

definition log_purge :: "log_id \<Rightarrow> (u64, 'x raft_entry) btree_map \<Rightarrow> (u64, 'x raft_entry) btree_map" where
  "log_purge log l = bm_retain (\<lambda>k. li_index log < k) l"

definition log_read :: "bound \<Rightarrow> bound \<Rightarrow> (u64, 'x raft_entry) btree_map \<Rightarrow> 'x raft_entry list" where
  "log_read lower upper l =
     map snd (bm_retain (\<lambda>k. start_index lower \<le> k \<and> (case end_index upper of Some n \<Rightarrow> k < n | None \<Rightarrow> True)) l)"

definition sm_entry :: "'x raft_entry \<Rightarrow> state_machine_data \<Rightarrow> state_machine_data" where
  "sm_entry e sm =
     (let sm = sm\<lparr>last_applied_log := Some (en_log_id e)\<rparr>
      in case en_payload e of
           MembershipChange mem \<Rightarrow> sm\<lparr>last_membership := \<lparr>st_log_id = Some (en_log_id e), st_membership = mem\<rparr>\<rparr>
         | _ \<Rightarrow> sm)"

section \<open>Runs\<close>

datatype ('v, 'x) raft_event =
    SaveVote 'v
  | AppendLog "'x raft_entry list"
  | DeleteSince log_id
  | PurgeUpto log_id
  | ApplyLog int "'x raft_entry list"
  | BuildSnapshot
  | InstallSnapshot snapshot_meta "u8 list"
  | ReopenLog int cluster_membership
  | ReadVote
  | ReadLog bound bound
  | ReadLogState
  | ReadApplied
  | ReadSnapshot

datatype ('v, 'x) raft_answer =
    DoneAns
  | FailedAns string
  | VoteAns "'v option"
  | EntriesAns "'x raft_entry list"
  | StateAns "log_id option" "log_id option"
  | AppliedAns "log_id option" stored_membership
  | SnapshotAns "stored_snapshot option"

definition answer_of :: "('a \<Rightarrow> ('v, 'x) raft_answer) \<Rightarrow> string + 'a \<Rightarrow> ('v, 'x) raft_answer" where
  "answer_of f r = (case r of Inl e \<Rightarrow> FailedAns e | Inr x \<Rightarrow> f x)"

text \<open>A restart reopens the rows, hands the ports over and hydrates the live membership.\<close>

definition reopen :: "('d, 'v, 'x, 's, 'b, 'm) raft_env \<Rightarrow> int \<Rightarrow> cluster_membership \<Rightarrow> ('d, 'v, 's, 'm) raft_store
    \<Rightarrow> ('d, 'v, 's, 'm) raft_store \<times> (string + unit)" where
  "reopen env now shared st =
     (case open_raft env (rs_db st) shared of
        Inl e \<Rightarrow> (st, Inl e)
      | Inr st' \<Rightarrow>
          (hydrate_shared_membership_from_state_machine now
             (st'\<lparr>rs_metadata := rs_metadata st, rs_shard_map := rs_shard_map st, rs_cache := rs_cache st\<rparr>), Inr ()))"

fun run_raft_event :: "('d, 'v, 'x, 's, 'b, 'm) raft_env \<Rightarrow> ('v, 'x) raft_event \<Rightarrow> ('d, 'v, 's, 'm) raft_store
    \<Rightarrow> ('d, 'v, 's, 'm) raft_store \<times> ('v, 'x) raft_answer" where
  "run_raft_event env (SaveVote v) st = apsnd (answer_of (\<lambda>_. DoneAns)) (save_vote env v st)"
| "run_raft_event env (AppendLog es) st = apsnd (answer_of (\<lambda>_. DoneAns)) (append_to_log env es st)"
| "run_raft_event env (DeleteSince log) st = apsnd (answer_of (\<lambda>_. DoneAns)) (delete_conflict_logs_since env log st)"
| "run_raft_event env (PurgeUpto log) st = apsnd (answer_of (\<lambda>_. DoneAns)) (purge_logs_upto env log st)"
| "run_raft_event env (ApplyLog now es) st = apsnd (answer_of (\<lambda>_. DoneAns)) (apply_to_state_machine env now es st)"
| "run_raft_event env BuildSnapshot st = apsnd (answer_of (\<lambda>s. SnapshotAns (Some s))) (build_snapshot env st)"
| "run_raft_event env (InstallSnapshot meta data) st = apsnd (answer_of (\<lambda>_. DoneAns)) (install_snapshot env meta data st)"
| "run_raft_event env (ReopenLog now shared) st = apsnd (answer_of (\<lambda>_. DoneAns)) (reopen env now shared st)"
| "run_raft_event env ReadVote st = (st, VoteAns (read_vote st))"
| "run_raft_event env (ReadLog lower upper) st = (st, answer_of EntriesAns (try_get_log_entries env lower upper st))"
| "run_raft_event env ReadLogState st = (st, answer_of (\<lambda>(p, l). StateAns p l) (get_log_state env st))"
| "run_raft_event env ReadApplied st = (st, case last_applied_state st of (l, mem) \<Rightarrow> AppliedAns l mem)"
| "run_raft_event env ReadSnapshot st = (st, answer_of SnapshotAns (get_current_snapshot env st))"

fun run_raft :: "('d, 'v, 'x, 's, 'b, 'm) raft_env \<Rightarrow> ('v, 'x) raft_event list \<Rightarrow> ('d, 'v, 's, 'm) raft_store
    \<Rightarrow> ('d, 'v, 's, 'm) raft_store \<times> ('v, 'x) raft_answer list" where
  "run_raft env [] st = (st, [])"
| "run_raft env (ev # evs) st =
     (let (st, a) = run_raft_event env ev st; (st, as) = run_raft env evs st in (st, a # as))"

definition last_index :: "(u64, 'x raft_entry) btree_map \<Rightarrow> log_id option \<Rightarrow> log_id option" where
  "last_index l purged = (if l = [] then purged else Some (en_log_id (snd (last l))))"

fun log_event :: "('v, 'x) raft_codec \<Rightarrow> ('v, 'x) raft_event \<Rightarrow> ('v, 'x) raft_log \<Rightarrow> ('v, 'x) raft_log \<times> ('v, 'x) raft_answer" where
  "log_event c (SaveVote v) a = (a\<lparr>al_vote := Some v\<rparr>, DoneAns)"
| "log_event c (AppendLog es) a = (a\<lparr>al_log := log_append es (al_log a)\<rparr>, DoneAns)"
| "log_event c (DeleteSince log) a = (a\<lparr>al_log := bm_retain (\<lambda>k. k < li_index log) (al_log a)\<rparr>, DoneAns)"
| "log_event c (PurgeUpto log) a = (a\<lparr>al_purged := Some log, al_log := log_purge log (al_log a)\<rparr>, DoneAns)"
| "log_event c (ApplyLog now es) a = (a\<lparr>al_sm := fold sm_entry es (al_sm a)\<rparr>, DoneAns)"
| "log_event c BuildSnapshot a =
     (case snapshot_of c (al_sm a) of
        Inl e \<Rightarrow> (a, FailedAns e)
      | Inr s \<Rightarrow> (a\<lparr>al_snap := Some s\<rparr>, SnapshotAns (Some s)))"
| "log_event c (InstallSnapshot meta data) a =
     (case snd (rc_sm c) data of
        Inl e \<Rightarrow> (a, FailedAns e)
      | Inr sm \<Rightarrow>
          (a\<lparr>al_sm := sm, al_snap := Some \<lparr>ss_meta = meta, ss_data = data\<rparr>, al_purged := sn_last_log_id meta,
             al_log := (case sn_last_log_id meta of Some i \<Rightarrow> log_purge i (al_log a) | None \<Rightarrow> al_log a)\<rparr>, DoneAns))"
| "log_event c (ReopenLog now shared) a = (a, DoneAns)"
| "log_event c ReadVote a = (a, VoteAns (al_vote a))"
| "log_event c (ReadLog lower upper) a = (a, EntriesAns (log_read lower upper (al_log a)))"
| "log_event c ReadLogState a = (a, StateAns (al_purged a) (last_index (al_log a) (al_purged a)))"
| "log_event c ReadApplied a = (a, AppliedAns (last_applied_log (al_sm a)) (last_membership (al_sm a)))"
| "log_event c ReadSnapshot a =
     (a, case al_snap a of
           Some s \<Rightarrow> SnapshotAns (Some s)
         | None \<Rightarrow> if last_applied_log (al_sm a) \<noteq> None
                   then answer_of (\<lambda>s. SnapshotAns (Some s)) (snapshot_of c (al_sm a)) else SnapshotAns None)"

fun log_run :: "('v, 'x) raft_codec \<Rightarrow> ('v, 'x) raft_event list \<Rightarrow> ('v, 'x) raft_log \<Rightarrow> ('v, 'x) raft_log \<times> ('v, 'x) raft_answer list" where
  "log_run c [] a = (a, [])"
| "log_run c (ev # evs) a =
     (let (a, r) = log_event c ev a; (a, rs) = log_run c evs a in (a, r # rs))"

text \<open>
  What the calls are: indexes below the largest, which \<open>index + 1\<close> needs, ranges that start below it,
  and an installed snapshot names the entry it ends with.
\<close>

fun raft_event_ok :: "('v, 'x) raft_event \<Rightarrow> bool" where
  "raft_event_ok (PurgeUpto log) = (li_index log < u64_max)"
| "raft_event_ok (InstallSnapshot meta data) =
     (case sn_last_log_id meta of Some i \<Rightarrow> li_index i < u64_max | None \<Rightarrow> False)"
| "raft_event_ok ev = True"

section \<open>The rows of a log\<close>

definition raft_codec_ok :: "('v, 'x) raft_codec \<Rightarrow> bool" where
  "raft_codec_ok c \<longleftrightarrow> json_codec (rc_vote c) \<and> json_codec (rc_log_id c) \<and> json_codec (rc_entry c)
     \<and> json_codec (rc_sm c) \<and> json_codec (rc_snapshot c)"

definition log_rows :: "'x raft_entry serializer \<Rightarrow> (raft_key \<Rightarrow> u8 list option) \<Rightarrow> (u64, 'x raft_entry) btree_map \<Rightarrow> bool" where
  "log_rows c R l \<longleftrightarrow> bm_wf l \<and> (\<forall>i. row_holds c (R (LogsCf (to_be_bytes i))) (bm_get l i))
     \<and> (\<forall>k. R (LogsCf k) \<noteq> None \<longrightarrow> length k = 8)"

definition sm_holds :: "state_machine_data serializer \<Rightarrow> u8 list option \<Rightarrow> state_machine_data \<Rightarrow> bool" where
  "sm_holds c row sm = (case row of None \<Rightarrow> sm = default_sm | Some bs \<Rightarrow> snd c bs = Inr sm)"

definition disk_holds :: "('v, 'x) raft_codec \<Rightarrow> (raft_key \<Rightarrow> u8 list option) \<Rightarrow> ('v, 'x) raft_log \<Rightarrow> bool" where
  "disk_holds c R a \<longleftrightarrow>
     row_holds (rc_vote c) (R KEY_VOTE) (al_vote a) \<and> row_holds (rc_log_id c) (R KEY_LAST_PURGED) (al_purged a)
     \<and> sm_holds (rc_sm c) (R KEY_SM_DATA) (al_sm a)
     \<and> row_holds (rc_snapshot c) (R KEY_SNAPSHOT) (al_snap a) \<and> log_rows (rc_entry c) R (al_log a)"

definition mem_holds :: "('d, 'v, 's, 'm) raft_store \<Rightarrow> ('v, 'x) raft_log \<Rightarrow> bool" where
  "mem_holds st a \<longleftrightarrow> rs_vote st = al_vote a \<and> rs_last_purged st = al_purged a \<and> rs_sm st = al_sm a"

lemmas raft_keys = KEY_VOTE_def KEY_LAST_PURGED_def KEY_SM_DATA_def KEY_SNAPSHOT_def

lemma row_holds_simps [simp]:
  "row_holds c None x \<longleftrightarrow> x = None"
  "row_holds c (Some bs) x \<longleftrightarrow> (\<exists>y. x = Some y \<and> snd c bs = Inr y)"
  "sm_holds c' None sm \<longleftrightarrow> sm = default_sm" "sm_holds c' (Some bs) sm \<longleftrightarrow> snd c' bs = Inr sm"
  by (simp_all add: row_holds_def sm_holds_def)

lemma log_rows_put:
  "log_rows c R l \<Longrightarrow> snd c bs = Inr e \<Longrightarrow> log_rows c (R(LogsCf (to_be_bytes i) := Some bs)) (bm_insert i e l)"
  by (auto simp: log_rows_def bm.store_wf bm.store_simps)

lemma log_rows_other [simp]:
  "log_rows c (R(RaftMetaCf k := v)) l = log_rows c R l" "log_rows c (R(StateCf k := v)) l = log_rows c R l"
  by (simp_all add: log_rows_def)

lemma log_rows_retain:
  assumes "log_rows c R l" and "\<And>i. R' (LogsCf (to_be_bytes i)) = (if P i then R (LogsCf (to_be_bytes i)) else None)"
    and "\<And>k. R' (LogsCf k) \<noteq> None \<Longrightarrow> R (LogsCf k) \<noteq> None"
  shows "log_rows c R' (bm_retain P l)"
  using assms by (auto simp: log_rows_def bm.store_wf bm.store_simps)

lemma encode_entries_rows:
  assumes "encode_entries c es = Inr ops" and "reads_back c" and "log_rows c R l"
  shows "log_rows c (fold batch_effect ops R) (log_append es l)
    \<and> (\<forall>k. (\<forall>i. k \<noteq> LogsCf i) \<longrightarrow> fold batch_effect ops R k = R k)"
  using assms(1,3)
proof (induction es arbitrary: ops R l)
  case (Cons e es)
  from Cons.prems(1) obtain val ops' where enc: "fst c e = Inr val" "encode_entries c es = Inr ops'"
    and ops: "ops = Put (LogsCf (to_be_bytes (li_index (en_log_id e)))) val # ops'"
    by (auto simp: and_then_def split: sum.splits)
  from enc(1) assms(2) have "snd c val = Inr e" by (simp add: reads_back_def)
  note ih = Cons.IH [OF enc(2) log_rows_put [OF Cons.prems(2) this, of "li_index (en_log_id e)"]]
  have "fold batch_effect ops R = fold batch_effect ops' (R(LogsCf (to_be_bytes (li_index (en_log_id e))) := Some val))"
    "log_append (e # es) l = log_append es (bm_insert (li_index (en_log_id e)) e l)"
    by (simp_all add: ops log_append_def)
  then show ?case using ih by (metis fun_upd_other)
qed (simp add: log_append_def)

lemma encode_entries_total: "json_codec c \<Longrightarrow> \<exists>ops. encode_entries c es = Inr ops"
proof (induction es)
  case (Cons e es)
  moreover obtain bs where "fst c e = Inr bs" using json_codecE [OF Cons.prems] by blast
  ultimately show ?case by (auto simp: and_then_def)
qed simp

text \<open>The batches of the operations, on the rows.\<close>

lemma disk_vote:
  "disk_holds c R a \<Longrightarrow> snd (rc_vote c) bs = Inr v \<Longrightarrow>
   disk_holds c (fold batch_effect [Put KEY_VOTE bs] R) (a\<lparr>al_vote := Some v\<rparr>)"
  by (simp add: disk_holds_def raft_keys)

lemma disk_append:
  "disk_holds c R a \<Longrightarrow> reads_back (rc_entry c) \<Longrightarrow> encode_entries (rc_entry c) es = Inr ops \<Longrightarrow>
   disk_holds c (fold batch_effect ops R) (a\<lparr>al_log := log_append es (al_log a)\<rparr>)"
  using encode_entries_rows [of "rc_entry c" es ops R "al_log a"] by (simp add: disk_holds_def raft_keys)

lemma log_rows_delete_since:
  assumes "log_rows c R l"
  shows "log_rows c (fold batch_effect [DeleteRange (LogsCf (to_be_bytes i)) (LogsCf (to_be_bytes u64_max)),
      Delete (LogsCf (to_be_bytes u64_max))] R) (bm_retain (\<lambda>k. k < i) l)"
proof (rule log_rows_retain [OF assms], goal_cases)
  case (1 j)
  have "j = u64_max \<or> j < u64_max" by (metis word_order.extremum word_order.not_eq_extremum)
  then show ?case by (auto simp: not_less)
qed (auto split: if_splits)

lemma less_inc_iff:
  assumes "(i :: u64) < u64_max"
  shows "j < i + 1 \<longleftrightarrow> j \<le> i"
proof -
  have "unat i < 2 ^ 64 - 1"
    using assms by (simp add: word_less_nat_alt unsigned_minus_1_eq_mask mask_eq_exp_minus_1)
  then have "unat (i + 1) = unat i + 1" by (simp add: unat_word_ariths)
  then show ?thesis by (simp add: word_less_nat_alt word_le_nat_alt less_Suc_eq_le)
qed

lemma log_rows_purge:
  assumes "log_rows c R l" and "li_index log < u64_max"
  shows "log_rows c (fold batch_effect [DeleteRange (LogsCf (to_be_bytes 0)) (LogsCf (to_be_bytes (li_index log + 1)))] R) (log_purge log l)"
  unfolding log_purge_def
proof (rule log_rows_retain [OF assms(1)], goal_cases)
  case (1 j)
  show ?case using less_inc_iff [OF assms(2), of j] by (cases "li_index log < j") (auto dest: leD)
qed (auto split: if_splits)

lemma disk_delete:
  assumes "disk_holds c R a"
  shows "disk_holds c (fold batch_effect [DeleteRange (LogsCf (to_be_bytes i)) (LogsCf (to_be_bytes u64_max)),
      Delete (LogsCf (to_be_bytes u64_max))] R) (a\<lparr>al_log := bm_retain (\<lambda>k. k < i) (al_log a)\<rparr>)"
  using assms log_rows_delete_since [of "rc_entry c" R "al_log a" i] by (simp add: disk_holds_def raft_keys)

lemma disk_purged:
  "disk_holds c R a \<Longrightarrow> snd (rc_log_id c) bs = Inr log \<Longrightarrow>
   disk_holds c (fold batch_effect [Put KEY_LAST_PURGED bs] R) (a\<lparr>al_purged := Some log\<rparr>)"
  by (simp add: disk_holds_def raft_keys)

lemma disk_purge:
  assumes "disk_holds c R a" and "li_index log < u64_max"
  shows "disk_holds c (fold batch_effect [DeleteRange (LogsCf (to_be_bytes 0)) (LogsCf (to_be_bytes (li_index log + 1)))] R)
    (a\<lparr>al_log := log_purge log (al_log a)\<rparr>)"
  using assms log_rows_purge [of "rc_entry c" R "al_log a" log] by (simp add: disk_holds_def raft_keys)

lemma disk_sm:
  "disk_holds c R a \<Longrightarrow> snd (rc_sm c) bs = Inr sm \<Longrightarrow>
   disk_holds c (fold batch_effect [Put KEY_SM_DATA bs] R) (a\<lparr>al_sm := sm\<rparr>)"
  by (simp add: disk_holds_def raft_keys)

lemma disk_snapshot:
  "disk_holds c R a \<Longrightarrow> snd (rc_snapshot c) bs = Inr s \<Longrightarrow>
   disk_holds c (fold batch_effect [Put KEY_SNAPSHOT bs] R) (a\<lparr>al_snap := Some s\<rparr>)"
  by (simp add: disk_holds_def raft_keys)

lemma disk_install:
  assumes "disk_holds c R a" and "snd (rc_sm c) b1 = Inr sm" and "snd (rc_snapshot c) b2 = Inr s"
    and "snd (rc_log_id c) b3 = Inr i" and "li_index i < u64_max"
  shows "disk_holds c (fold batch_effect ([Put KEY_SM_DATA b1, Put KEY_SNAPSHOT b2]
      @ [Put KEY_LAST_PURGED b3, DeleteRange (LogsCf (to_be_bytes 0)) (LogsCf (to_be_bytes (li_index i + 1)))]) R)
    (a\<lparr>al_sm := sm, al_snap := Some s, al_purged := Some i, al_log := log_purge i (al_log a)\<rparr>)"
  using disk_purge [OF disk_purged [OF disk_snapshot [OF disk_sm [OF assms(1,2)] assms(3)] assms(4)] assms(5)]
  by (simp add: disk_holds_def del: batch_effect.simps)

section \<open>Reading the log\<close>

definition decode_item :: "'x raft_entry serializer \<Rightarrow> raft_key \<times> u8 list \<Rightarrow> (u64 \<times> 'x raft_entry) option" where
  "decode_item c = (\<lambda>(k, v).
     case k of LogsCf key \<Rightarrow> (case snd c v of Inr e \<Rightarrow> Some (be_to_u64 key, e) | Inl _ \<Rightarrow> None) | _ \<Rightarrow> None)"

abbreviation decoded :: "'x raft_entry serializer \<Rightarrow> (raft_key \<times> u8 list) list \<Rightarrow> (u64, 'x raft_entry) btree_map" where
  "decoded c items \<equiv> List.map_filter (decode_item c) items"

abbreviation below :: "u64 option \<Rightarrow> u64 \<Rightarrow> bool" where
  "below stop k \<equiv> (case stop of Some n \<Rightarrow> k < n | None \<Rightarrow> True)"

definition log_items :: "'x raft_entry serializer \<Rightarrow> (raft_key \<times> u8 list) list \<Rightarrow> bool" where
  "log_items c items \<longleftrightarrow> sorted_wrt (<) (map fst items)
     \<and> (\<forall>key v. (LogsCf key, v) \<in> set items \<longrightarrow> (\<exists>i e. key = to_be_bytes i \<and> snd c v = Inr e))"

lemma be_to_u64_be [simp]: "be_to_u64 (to_be_bytes i) = i"
  by (simp add: be_to_u64_def)

lemma log_items_Cons:
  "log_items c (x # items) \<Longrightarrow> log_items c items \<and> (\<forall>y\<in>set items. fst x < fst y)"
  by (auto simp: log_items_def)

lemma decoded_keys:
  assumes "log_items c items" and "(i, e) \<in> set (decoded c items)"
  shows "\<exists>v. (LogsCf (to_be_bytes i), v) \<in> set items \<and> snd c v = Inr e"
  using assms by (fastforce simp: log_items_def decode_item_def List.map_filter_def split: raft_key.splits sum.splits)

lemma decoded_after:
  assumes "log_items c ((LogsCf (to_be_bytes j), v) # items)" and "(i, e) \<in> set (decoded c items)"
  shows "j < i"
  using decoded_keys [OF _ assms(2)] log_items_Cons [OF assms(1)] by fastforce

lemma no_logs_after:
  assumes "log_items c ((k, v) # items)" and "\<And>key. k \<noteq> LogsCf key"
  shows "decoded c items = []"
proof (rule ccontr)
  assume "decoded c items \<noteq> []"
  then obtain i e where "(i, e) \<in> set (decoded c items)" by (metis list.set_intros(1) neq_Nil_conv surj_pair)
  then obtain v' where "(LogsCf (to_be_bytes i), v') \<in> set items"
    using decoded_keys log_items_Cons [OF assms(1)] by blast
  then have "k < LogsCf (to_be_bytes i)" using log_items_Cons [OF assms(1)] by fastforce
  with assms(2) show False by (cases k) auto
qed

lemma read_log_rows_decoded:
  "log_items c items \<Longrightarrow> read_log_rows c stop (map Inr items) = Inr (map snd (bm_retain (below stop) (decoded c items)))"
proof (induction items)
  case (Cons x items)
  obtain k v where x: "x = (k, v)" by fastforce
  show ?case
  proof (cases k)
    case (LogsCf key)
    have "(LogsCf key, v) \<in> set (x # items)" by (simp add: x LogsCf)
    then obtain j e where key: "key = to_be_bytes j" "snd c v = Inr e"
      using Cons.prems unfolding log_items_def by blast
    have dec: "decode_item c x = Some (j, e)" by (simp add: x LogsCf key decode_item_def)
    have later: "j < i" if "(i, e') \<in> set (decoded c items)" for i e'
      using decoded_after [OF _ that] Cons.prems by (simp add: x LogsCf key)
    show ?thesis
    proof (cases "below stop j")
      case True
      have "read_log_rows c stop (map Inr (x # items)) = and_then (read_log_rows c stop (map Inr items)) (\<lambda>es. Inr (e # es))"
        using True by (cases stop) (auto simp: x LogsCf key and_then_def dest: leD)
      moreover have "bm_retain (below stop) (decoded c (x # items)) = (j, e) # bm_retain (below stop) (decoded c items)"
        using True by (simp add: dec bm_retain_def)
      ultimately show ?thesis using Cons.IH log_items_Cons [OF Cons.prems] by (simp add: and_then_def)
    next
      case False
      then obtain n where n: "stop = Some n" "n \<le> j" by (auto split: option.splits)
      have "bm_retain (below stop) (decoded c (x # items)) = []"
        using later n by (fastforce simp: dec bm_retain_def filter_empty_conv)
      then show ?thesis using n by (simp add: x LogsCf key)
    qed
  qed (use no_logs_after [of c k v items] Cons.prems in \<open>simp_all add: x decode_item_def bm_retain_def\<close>)
qed (simp add: bm_retain_def)

lemma decoded_mem:
  assumes "(LogsCf (to_be_bytes i), v) \<in> set items" and "snd c v = Inr e"
  shows "(i, e) \<in> set (decoded c items)"
proof -
  have "decode_item c (LogsCf (to_be_bytes i), v) = Some (i, e)" using assms(2) by (simp add: decode_item_def)
  then show ?thesis using assms(1) by (induction items) (auto split: option.splits)
qed

lemma decode_item_log:
  assumes "log_items c items" and "x \<in> set items" and "decode_item c x = Some (j, e)"
  shows "\<exists>v. x = (LogsCf (to_be_bytes j), v)"
proof -
  from assms(3) obtain key v where x: "x = (LogsCf key, v)" "j = be_to_u64 key"
    by (auto simp: decode_item_def split: prod.splits raft_key.splits sum.splits)
  with assms(1,2) obtain i where "key = to_be_bytes i" unfolding log_items_def by blast
  with x show ?thesis by simp
qed

lemma decoded_wf: "log_items c items \<Longrightarrow> bm_wf (decoded c items)"
proof (induction items)
  case (Cons x items)
  obtain k v where x: "x = (k, v)" by fastforce
  from Cons have ih: "bm_wf (decoded c items)" using log_items_Cons by blast
  show ?case
  proof (cases "decode_item c x")
    case (Some p)
    then obtain j e where p: "p = (j, e)" and k: "k = LogsCf (to_be_bytes j)"
      using decode_item_log [OF Cons.prems, of x] by (cases p) (auto simp: x)
    have "j < i" if "(i, e') \<in> set (decoded c items)" for i e'
      using decoded_after [OF _ that] Cons.prems by (simp add: x k)
    then show ?thesis using ih Some by (auto simp: p bm_wf_Cons)
  qed (use ih in simp)
qed simp

lemma log_rows_items:
  assumes rel: "log_rows c R l" and items: "sorted_wrt (<) (map fst items)" "set items = {(k, v). R k = Some v \<and> P k}"
    and P: "\<And>i. P (LogsCf (to_be_bytes i)) = Q i"
  shows "log_items c items \<and> decoded c items = bm_retain Q l"
proof -
  have ok: "log_items c items" unfolding log_items_def
  proof (intro conjI allI impI items(1))
    fix key v assume "(LogsCf key, v) \<in> set items"
    then have row: "R (LogsCf key) = Some v" by (simp add: items(2))
    with rel have "length key = 8" unfolding log_rows_def by blast
    then have key: "key = to_be_bytes (from_be_bytes key)" by (simp add: to_from_be_bytes)
    have "row_holds c (R (LogsCf (to_be_bytes (from_be_bytes key)))) (bm_get l (from_be_bytes key))"
      using rel unfolding log_rows_def by blast
    then show "\<exists>i e. key = to_be_bytes i \<and> snd c v = Inr e" using row key by auto
  qed
  have "bm_get (decoded c items) i = bm_get (bm_retain Q l) i" for i
  proof -
    have "(i, e) \<in> set (decoded c items) \<longleftrightarrow> (\<exists>v. R (LogsCf (to_be_bytes i)) = Some v \<and> Q i \<and> snd c v = Inr e)" for e
      using decoded_keys [OF ok, of i e] decoded_mem [of i _ items c e] P by (auto simp: items(2))
    moreover have "row_holds c (R (LogsCf (to_be_bytes i))) (bm_get l i)" and "bm_wf l"
      using rel unfolding log_rows_def by blast+
    ultimately have "bm_get (decoded c items) i = Some e \<longleftrightarrow> bm_get (bm_retain Q l) i = Some e" for e
      using bm_get_set [OF decoded_wf [OF ok]]
      by (cases "R (LogsCf (to_be_bytes i))") (auto simp: bm.store_simps)
    then show ?thesis by (metis not_Some_eq)
  qed
  then show ?thesis using ok decoded_wf [OF ok] rel
    by (intro conjI bm_eqI) (auto simp: log_rows_def bm.store_wf)
qed

lemma read_log_exact:
  assumes "rocks_laws (rv_kv env) rows" and "log_rows (rc_entry (rv_codec env)) (rows (rs_db st)) l"
  shows "try_get_log_entries env lower upper st = Inr (log_read lower upper l)"
proof -
  let ?c = "rc_entry (rv_codec env)"
  from assms(1) obtain items where items: "rdb_iter_from (rv_kv env) (rs_db st) (LogsCf (to_be_bytes (start_index lower))) = map Inr items"
    "sorted_wrt (<) (map fst items)" "set items = {(k, v). rows (rs_db st) k = Some v \<and> LogsCf (to_be_bytes (start_index lower)) \<le> k}"
    by (rule iter_items)
  have "log_items ?c items" "decoded ?c items = bm_retain (\<lambda>k. start_index lower \<le> k) l"
    using log_rows_items [OF assms(2) items(2,3), of "\<lambda>k. start_index lower \<le> k"] by simp_all
  then show ?thesis
    by (simp add: try_get_log_entries_def items(1) read_log_rows_decoded log_read_def bm_retain_def)
      (metis (mono_tags, lifting) case_prod_unfold filter_cong)
qed

lemma log_state_exact:
  assumes "rocks_laws (rv_kv env) rows" and "log_rows (rc_entry (rv_codec env)) (rows (rs_db st)) l"
  shows "get_log_state env st = Inr (rs_last_purged st, last_index l (rs_last_purged st))"
proof -
  let ?c = "rc_entry (rv_codec env)"
  from assms(1) obtain items where items: "rdb_iter_back (rv_kv env) (rs_db st) (RaftMetaCf []) = map Inr (rev items)"
    "sorted_wrt (<) (map fst items)" "set items = {(k, v). rows (rs_db st) k = Some v \<and> k < RaftMetaCf []}"
    by (rule back_items)
  have ok: "log_items ?c items" "decoded ?c items = l"
    using log_rows_items [OF assms(2) items(2,3), of "\<lambda>_. True"] by (simp_all add: bm_retain_def)
  show ?thesis
  proof (cases items rule: rev_cases)
    case Nil
    then show ?thesis using ok by (simp add: get_log_state_def items(1) last_index_def and_then_def)
  next
    case (snoc init x)
    obtain k v where x: "x = (k, v)" by fastforce
    have "k < RaftMetaCf []" using items(3) snoc x by auto
    then obtain key where k: "k = LogsCf key" by (cases k) (auto simp: less_raft_key_def less_eq_raft_key_def)
    obtain i e where key: "key = to_be_bytes i" "snd ?c v = Inr e"
      using ok(1) snoc x k unfolding log_items_def by fastforce
    have "l = decoded ?c init @ [(i, e)]"
      using ok(2) by (simp add: snoc x k key List.map_filter_def decode_item_def)
    then show ?thesis by (simp add: get_log_state_def items(1) snoc x last_index_def and_then_def key)
  qed
qed

section \<open>Refinement\<close>

definition raft_reliable :: "('d, 'v, 'x, 's, 'b, 'm) raft_env \<Rightarrow> bool" where
  "raft_reliable env \<longleftrightarrow> rocks_reliable (rv_kv env) \<and> (\<forall>d. rv_flush_wal env d = Inr ())"

definition raft_rel :: "('d, 'v, 'x, 's, 'b, 'm) raft_env \<Rightarrow> ('d \<Rightarrow> raft_key \<Rightarrow> u8 list option)
    \<Rightarrow> ('d, 'v, 's, 'm) raft_store \<Rightarrow> ('v, 'x) raft_log \<Rightarrow> bool" where
  "raft_rel env rows st a \<longleftrightarrow> mem_holds st a \<and> disk_holds (rv_codec env) (rows (rs_db st)) a"

lemma sync_write_ok:
  assumes "rocks_laws (rv_kv env) rows" and "raft_reliable env"
  obtains d' where "rdb_write (rv_kv env) d ops = (d', Inr ())" "sync_write env d ops = (d', Inr ())"
    "rows d' = fold batch_effect ops (rows d)"
proof -
  from assms(2) obtain d' where w: "rdb_write (rv_kv env) d ops = (d', Inr ())"
    unfolding raft_reliable_def rocks_reliable_def by blast
  moreover have "sync_write env d ops = (d', Inr ())" using w assms(2) by (simp add: sync_write_def raft_reliable_def)
  ultimately show ?thesis using that rdb_write_rows [OF assms(1) w] by blast
qed

lemma apply_entries_log:
  "rs_db (fst (apply_entries env now es st)) = rs_db st \<and> rs_vote (fst (apply_entries env now es st)) = rs_vote st
   \<and> rs_last_purged (fst (apply_entries env now es st)) = rs_last_purged st
   \<and> rs_sm (fst (apply_entries env now es st)) = fold sm_entry es (rs_sm st)"
proof (induction es arbitrary: st)
  case (Cons e es)
  have op: "rs_db (fst (raft_apply_op env op st)) = rs_db st \<and> rs_vote (fst (raft_apply_op env op st)) = rs_vote st
      \<and> rs_last_purged (fst (raft_apply_op env op st)) = rs_last_purged st \<and> rs_sm (fst (raft_apply_op env op st)) = rs_sm st" for op st
    by (simp add: raft_apply_op_def Let_def split: option.splits prod.splits sum.splits)
  have "rs_db (fst (apply_request env req st)) = rs_db st \<and> rs_vote (fst (apply_request env req st)) = rs_vote st
      \<and> rs_last_purged (fst (apply_request env req st)) = rs_last_purged st \<and> rs_sm (fst (apply_request env req st)) = rs_sm st" for req st
    by (simp add: apply_request_def Let_def op split: cluster_request.splits option.splits prod.splits)
  then have "rs_db (fst (apply_entry env now e st)) = rs_db st \<and> rs_vote (fst (apply_entry env now e st)) = rs_vote st
      \<and> rs_last_purged (fst (apply_entry env now e st)) = rs_last_purged st \<and> rs_sm (fst (apply_entry env now e st)) = sm_entry e (rs_sm st)"
    by (simp add: apply_entry_def sm_entry_def Let_def split: entry_payload.splits)
  then show ?case using Cons.IH by (simp add: split_def Let_def)
qed simp

lemma open_holds:
  assumes "rocks_laws (rv_kv env) rows" and "disk_holds (rv_codec env) (rows d) a"
  shows "\<exists>st. open_raft env d shared = Inr st \<and> rs_db st = d \<and> mem_holds st a"
proof -
  have row: "read_row (rv_kv env) c k d = Inr x" if "row_holds c (rows d k) x" for c :: "'y serializer" and k x
    using that by (cases "rows d k") (auto simp: read_row_def rdb_get_rows [OF assms(1)] and_then_def)
  have "\<exists>s. read_row (rv_kv env) (rc_sm (rv_codec env)) KEY_SM_DATA d = Inr s
      \<and> (case s of Some s \<Rightarrow> s | None \<Rightarrow> default_sm) = al_sm a"
    using assms(2) by (cases "rows d KEY_SM_DATA") (auto simp: disk_holds_def read_row_def rdb_get_rows [OF assms(1)] and_then_def)
  then show ?thesis
    using row [of "rc_vote (rv_codec env)" KEY_VOTE "al_vote a"] row [of "rc_log_id (rv_codec env)" KEY_LAST_PURGED "al_purged a"] assms(2)
    by (auto simp: open_raft_def and_then_def mem_holds_def disk_holds_def)
qed

lemma hydrate_log [simp]:
  "rs_db (hydrate_shared_membership_from_state_machine now st) = rs_db st"
  "mem_holds (hydrate_shared_membership_from_state_machine now st) a = mem_holds st a"
  by (simp_all add: hydrate_shared_membership_from_state_machine_def Let_def mem_holds_def)

definition steps_alike :: "('d, 'v, 'x, 's, 'b, 'm) raft_env \<Rightarrow> ('d \<Rightarrow> raft_key \<Rightarrow> u8 list option)
    \<Rightarrow> ('v, 'x) raft_event \<Rightarrow> ('d, 'v, 's, 'm) raft_store \<Rightarrow> ('v, 'x) raft_log \<Rightarrow> bool" where
  "steps_alike env rows ev st a \<longleftrightarrow>
     raft_rel env rows (fst (run_raft_event env ev st)) (fst (log_event (rv_codec env) ev a))
     \<and> snd (run_raft_event env ev st) = snd (log_event (rv_codec env) ev a)"

lemma step_vote:
  assumes laws: "rocks_laws (rv_kv env) rows" "raft_reliable env" and c: "raft_codec_ok (rv_codec env)"
    and rel: "raft_rel env rows st a"
  shows "steps_alike env rows (SaveVote v) st a"
proof -
  from c obtain bs where bs: "fst (rc_vote (rv_codec env)) v = Inr bs" "snd (rc_vote (rv_codec env)) bs = Inr v"
    using json_codecE unfolding raft_codec_ok_def by metis
  obtain d' where d': "sync_write env (rs_db st) [Put KEY_VOTE bs] = (d', Inr ())"
    "rows d' = fold batch_effect [Put KEY_VOTE bs] (rows (rs_db st))"
    using sync_write_ok [OF laws] by metis
  from disk_vote [OF _ bs(2)] rel show ?thesis
    by (simp add: steps_alike_def raft_rel_def mem_holds_def save_vote_def bs(1) d' answer_of_def del: batch_effect.simps)
qed

lemma step_append:
  assumes laws: "rocks_laws (rv_kv env) rows" "raft_reliable env" and c: "raft_codec_ok (rv_codec env)"
    and rel: "raft_rel env rows st a"
  shows "steps_alike env rows (AppendLog es) st a"
proof -
  from c have e: "json_codec (rc_entry (rv_codec env))" by (simp add: raft_codec_ok_def)
  from encode_entries_total [OF e] obtain ops where ops: "encode_entries (rc_entry (rv_codec env)) es = Inr ops" by blast
  obtain d' where d': "sync_write env (rs_db st) ops = (d', Inr ())" "rows d' = fold batch_effect ops (rows (rs_db st))"
    using sync_write_ok [OF laws] by metis
  from disk_append [OF _ _ ops, of _ a] rel e show ?thesis
    by (simp add: steps_alike_def raft_rel_def mem_holds_def append_to_log_def ops d' answer_of_def json_codec_def)
qed

lemma step_delete:
  assumes laws: "rocks_laws (rv_kv env) rows" "raft_reliable env" and rel: "raft_rel env rows st a"
  shows "steps_alike env rows (DeleteSince log) st a"
proof -
  let ?r = "DeleteRange (LogsCf (to_be_bytes (li_index log))) (LogsCf (to_be_bytes u64_max))"
  let ?l = "Delete (LogsCf (to_be_bytes u64_max))"
  obtain d1 where d1: "rdb_write (rv_kv env) (rs_db st) [?r] = (d1, Inr ())" "rows d1 = fold batch_effect [?r] (rows (rs_db st))"
    using sync_write_ok [OF laws] by metis
  obtain d2 where d2: "rdb_write (rv_kv env) d1 [?l] = (d2, Inr ())" "rows d2 = fold batch_effect [?l] (rows d1)"
    using sync_write_ok [OF laws] by metis
  from d1(2) d2(2) have "rows d2 = fold batch_effect [?r, ?l] (rows (rs_db st))" by simp
  with disk_delete [of "rv_codec env" "rows (rs_db st)" a "li_index log"] rel show ?thesis
    by (simp add: steps_alike_def raft_rel_def mem_holds_def delete_conflict_logs_since_def d1(1) d2(1) answer_of_def
        del: batch_effect.simps)
qed

lemma step_purge:
  assumes laws: "rocks_laws (rv_kv env) rows" "raft_reliable env" and c: "raft_codec_ok (rv_codec env)"
    and rel: "raft_rel env rows st a" and ok: "li_index log < u64_max"
  shows "steps_alike env rows (PurgeUpto log) st a"
proof -
  let ?r = "DeleteRange (LogsCf (to_be_bytes 0)) (LogsCf (to_be_bytes (li_index log + 1)))"
  from c obtain bs where bs: "fst (rc_log_id (rv_codec env)) log = Inr bs" "snd (rc_log_id (rv_codec env)) bs = Inr log"
    using json_codecE unfolding raft_codec_ok_def by metis
  obtain d1 where d1: "sync_write env (rs_db st) [Put KEY_LAST_PURGED bs] = (d1, Inr ())"
    "rows d1 = fold batch_effect [Put KEY_LAST_PURGED bs] (rows (rs_db st))"
    using sync_write_ok [OF laws] by metis
  obtain d2 where d2: "sync_write env d1 [?r] = (d2, Inr ())" "rows d2 = fold batch_effect [?r] (rows d1)"
    using sync_write_ok [OF laws] by metis
  have "disk_holds (rv_codec env) (rows d1) (a\<lparr>al_purged := Some log\<rparr>)"
    using disk_purged [OF _ bs(2)] rel unfolding d1(2) raft_rel_def by blast
  from disk_purge [OF this ok] rel show ?thesis
    by (simp add: steps_alike_def raft_rel_def mem_holds_def purge_logs_upto_def bs(1) d1(1) d2 answer_of_def del: batch_effect.simps)
qed

lemma step_apply:
  assumes laws: "rocks_laws (rv_kv env) rows" "raft_reliable env" and c: "raft_codec_ok (rv_codec env)"
    and rel: "raft_rel env rows st a"
  shows "steps_alike env rows (ApplyLog now es) st a"
proof -
  obtain st' rs where st': "apply_entries env now es st = (st', rs)" by fastforce
  note log = apply_entries_log [of env now es st, unfolded st', simplified]
  from c obtain bs where bs: "fst (rc_sm (rv_codec env)) (rs_sm st') = Inr bs" "snd (rc_sm (rv_codec env)) bs = Inr (rs_sm st')"
    using json_codecE unfolding raft_codec_ok_def by metis
  obtain d' where d': "rdb_write (rv_kv env) (rs_db st') [Put KEY_SM_DATA bs] = (d', Inr ())"
    "rows d' = fold batch_effect [Put KEY_SM_DATA bs] (rows (rs_db st'))"
    using sync_write_ok [OF laws] by metis
  have "apply_to_state_machine env now es st = (st'\<lparr>rs_db := d'\<rparr>, Inr rs)"
    by (simp add: apply_to_state_machine_def st' bs(1) d'(1))
  moreover have "disk_holds (rv_codec env) (rows d') (a\<lparr>al_sm := rs_sm st'\<rparr>)"
    using disk_sm [OF _ bs(2)] rel log unfolding d'(2) raft_rel_def by metis
  ultimately show ?thesis using rel log
    by (simp add: steps_alike_def raft_rel_def mem_holds_def answer_of_def)
qed

lemma step_build:
  assumes laws: "rocks_laws (rv_kv env) rows" "raft_reliable env" and c: "raft_codec_ok (rv_codec env)"
    and rel: "raft_rel env rows st a"
  shows "steps_alike env rows BuildSnapshot st a"
proof -
  from c obtain b0 where "fst (rc_sm (rv_codec env)) (al_sm a) = Inr b0"
    using json_codecE unfolding raft_codec_ok_def by metis
  then obtain s where s: "snapshot_of (rv_codec env) (al_sm a) = Inr s" by (simp add: snapshot_of_def and_then_def)
  from c obtain bs where bs: "fst (rc_snapshot (rv_codec env)) s = Inr bs" "snd (rc_snapshot (rv_codec env)) bs = Inr s"
    using json_codecE unfolding raft_codec_ok_def by metis
  obtain d' where d': "rdb_write (rv_kv env) (rs_db st) [Put KEY_SNAPSHOT bs] = (d', Inr ())"
    "rows d' = fold batch_effect [Put KEY_SNAPSHOT bs] (rows (rs_db st))"
    using sync_write_ok [OF laws] by metis
  have "rs_sm st = al_sm a" using rel by (simp add: raft_rel_def mem_holds_def)
  with disk_snapshot [OF _ bs(2)] rel show ?thesis
    by (simp add: steps_alike_def raft_rel_def mem_holds_def build_snapshot_def serialize_snapshot_def s bs(1) d' answer_of_def
        del: batch_effect.simps)
qed

lemma step_install:
  assumes laws: "rocks_laws (rv_kv env) rows" "raft_reliable env" and c: "raft_codec_ok (rv_codec env)"
    and rel: "raft_rel env rows st a" and ok: "raft_event_ok (InstallSnapshot meta data :: ('v, 'x) raft_event)"
  shows "steps_alike (env :: ('d, 'v, 'x, 's, 'b, 'm) raft_env) rows (InstallSnapshot meta data) st a"
proof (cases "snd (rc_sm (rv_codec env)) data")
  case (Inl e)
  then show ?thesis using rel by (simp add: steps_alike_def install_snapshot_def and_then_def answer_of_def)
next
  case (Inr sm)
  from ok obtain i where i: "sn_last_log_id meta = Some i" "li_index i < u64_max" by (auto split: option.splits)
  let ?s = "\<lparr>ss_meta = meta, ss_data = data\<rparr>"
  from c obtain b1 b2 b3 where b1: "fst (rc_sm (rv_codec env)) sm = Inr b1" "snd (rc_sm (rv_codec env)) b1 = Inr sm"
    and b2: "fst (rc_snapshot (rv_codec env)) ?s = Inr b2" "snd (rc_snapshot (rv_codec env)) b2 = Inr ?s"
    and b3: "fst (rc_log_id (rv_codec env)) i = Inr b3" "snd (rc_log_id (rv_codec env)) b3 = Inr i"
    using json_codecE unfolding raft_codec_ok_def by metis
  let ?ops = "[Put KEY_SM_DATA b1, Put KEY_SNAPSHOT b2]
      @ [Put KEY_LAST_PURGED b3, DeleteRange (LogsCf (to_be_bytes 0)) (LogsCf (to_be_bytes (li_index i + 1)))]"
  obtain d' where d': "sync_write env (rs_db st) ?ops = (d', Inr ())" "rows d' = fold batch_effect ?ops (rows (rs_db st))"
    using sync_write_ok [OF laws] by metis
  have "install_snapshot env meta data st =
      (st\<lparr>rs_db := d', rs_sm := sm, rs_last_purged := sn_last_log_id meta,
          rs_shared := merge_snapshot_membership (rs_shared st) (sm_cluster_membership sm)\<rparr>, Inr ())"
    using d'(1) by (simp add: install_snapshot_def and_then_def Inr b1(1) b2(1) b3(1) encode_purged_def i(1))
  moreover have "disk_holds (rv_codec env) (rows d')
      (a\<lparr>al_sm := sm, al_snap := Some ?s, al_purged := Some i, al_log := log_purge i (al_log a)\<rparr>)"
    using disk_install [OF _ b1(2) b2(2) b3(2) i(2)] rel unfolding d'(2) raft_rel_def by blast
  ultimately show ?thesis using rel
    by (simp add: steps_alike_def raft_rel_def mem_holds_def Inr i(1) answer_of_def)
qed

lemma step_reopen:
  assumes "rocks_laws (rv_kv env) rows" and rel: "raft_rel env rows st a"
  shows "steps_alike env rows (ReopenLog now shared) st a"
proof -
  from rel have "disk_holds (rv_codec env) (rows (rs_db st)) a" by (simp add: raft_rel_def)
  with open_holds [OF assms(1)] obtain st' where "open_raft env (rs_db st) shared = Inr st'" "rs_db st' = rs_db st" "mem_holds st' a"
    by blast
  then show ?thesis using rel
    by (simp add: steps_alike_def raft_rel_def reopen_def answer_of_def) (simp add: mem_holds_def)
qed

lemma step_reads:
  assumes laws: "rocks_laws (rv_kv env) rows" and rel: "raft_rel env rows st a"
  shows "steps_alike env rows ReadVote st a" "steps_alike env rows (ReadLog lower upper) st a"
    "steps_alike env rows ReadLogState st a" "steps_alike env rows ReadApplied st a" "steps_alike env rows ReadSnapshot st a"
proof -
  have mem: "rs_vote st = al_vote a" "rs_last_purged st = al_purged a" "rs_sm st = al_sm a"
    and log: "log_rows (rc_entry (rv_codec env)) (rows (rs_db st)) (al_log a)"
    and snap: "row_holds (rc_snapshot (rv_codec env)) (rows (rs_db st) KEY_SNAPSHOT) (al_snap a)"
    using rel by (simp_all add: raft_rel_def mem_holds_def disk_holds_def)
  show "steps_alike env rows ReadVote st a" "steps_alike env rows ReadApplied st a"
    using rel by (simp_all add: steps_alike_def read_vote_def last_applied_state_def mem)
  show "steps_alike env rows (ReadLog lower upper) st a" "steps_alike env rows ReadLogState st a"
    using rel by (simp_all add: steps_alike_def read_log_exact [OF laws log] log_state_exact [OF laws log] answer_of_def mem)
  have "answer_of SnapshotAns (get_current_snapshot env st) = snd (log_event (rv_codec env) ReadSnapshot a)"
  proof (cases "rows (rs_db st) KEY_SNAPSHOT")
    case None
    then show ?thesis using snap
      by (cases "snapshot_of (rv_codec env) (al_sm a)")
        (simp_all add: get_current_snapshot_def rdb_get_rows [OF laws] and_then_def serialize_snapshot_def mem answer_of_def)
  next
    case (Some bs)
    then show ?thesis using snap by (auto simp: get_current_snapshot_def rdb_get_rows [OF laws] and_then_def answer_of_def)
  qed
  then show "steps_alike env rows ReadSnapshot st a" using rel by (simp add: steps_alike_def)
qed

lemma raft_step:
  assumes "rocks_laws (rv_kv env) rows" "raft_reliable env" "raft_codec_ok (rv_codec env)"
    and "raft_rel env rows st a" and "raft_event_ok ev"
  shows "steps_alike env rows ev st a"
  using step_vote [OF assms(1-4)] step_append [OF assms(1-4)] step_delete [OF assms(1,2,4)] step_purge [OF assms(1-4)]
    step_apply [OF assms(1-4)] step_build [OF assms(1-4)] step_install [OF assms(1-4)] step_reopen [OF assms(1,4)]
    step_reads [OF assms(1,4)] assms(5)
  by (cases ev) auto

lemma raft_run_rel:
  assumes "rocks_laws (rv_kv env) rows" "raft_reliable env" "raft_codec_ok (rv_codec env)"
    and "raft_rel env rows st a" and "list_all raft_event_ok evs"
  shows "raft_rel env rows (fst (run_raft env evs st)) (fst (log_run (rv_codec env) evs a))
    \<and> snd (run_raft env evs st) = snd (log_run (rv_codec env) evs a)"
  using assms(4,5)
proof (induction evs arbitrary: st a)
  case (Cons ev evs)
  from raft_step [OF assms(1-3) Cons.prems(1)] Cons.prems(2)
  have "raft_rel env rows (fst (run_raft_event env ev st)) (fst (log_event (rv_codec env) ev a))"
    "snd (run_raft_event env ev st) = snd (log_event (rv_codec env) ev a)"
    by (simp_all add: steps_alike_def)
  with Cons.IH Cons.prems(2) show ?case by (simp add: split_def Let_def)
qed simp

text \<open>
  C4. The consensus store is the ordered log it stands for. Opened on a database without rows, it
  answers every run of votes, appends, truncations, purges, applications, snapshots, snapshot
  installations, reads and restarts as the abstract log does, and what a restart after the run finds
  is the abstract log's vote, purge mark and state machine. The database takes every write and every
  flush of its log in such a run (\<open>raft_reliable\<close>), values serialize (\<open>raft_codec_ok\<close>), and no entry is
  purged or snapshotted at the largest index (\<open>raft_event_ok\<close>); failing writes are the subject of the
  next section.
\<close>

theorem raft_run_refines_log:
  assumes "rocks_laws (rv_kv env) rows" and "raft_reliable env" and "raft_codec_ok (rv_codec env)"
    and "\<forall>k. rows d k = None" and "open_raft env d shared = Inr st" and "list_all raft_event_ok evs"
  shows "snd (run_raft env evs st) = snd (log_run (rv_codec env) evs empty_log)
    \<and> (\<exists>st'. open_raft env (rs_db (fst (run_raft env evs st))) shared = Inr st'
         \<and> mem_holds st' (fst (log_run (rv_codec env) evs empty_log)))"
proof -
  have "disk_holds (rv_codec env) (rows d) empty_log"
    using assms(4) by (simp add: disk_holds_def empty_log_def log_rows_def)
  with open_holds [OF assms(1) this, of shared] assms(5) have "raft_rel env rows st empty_log"
    by (simp add: raft_rel_def)
  from raft_run_rel [OF assms(1-3) this assms(6)] open_holds [OF assms(1), of _ _ shared] show ?thesis
    unfolding raft_rel_def by blast
qed

section \<open>Failures\<close>

text \<open>
  What a restart finds after an operation whose writes may fail: the state before it or after it, or,
  for a purge, the new mark over the old entries; the state after it when it was acknowledged.
\<close>

fun failed_answer :: "('v, 'x) raft_answer \<Rightarrow> bool" where
  "failed_answer (FailedAns e) = True"
| "failed_answer _ = False"

fun between :: "('v, 'x) raft_event \<Rightarrow> ('v, 'x) raft_log \<Rightarrow> ('v, 'x) raft_log list" where
  "between (PurgeUpto log) a = [a\<lparr>al_purged := Some log\<rparr>]"
| "between ev a = []"

definition recovers :: "('d, 'v, 'x, 's, 'b, 'm) raft_env \<Rightarrow> ('d \<Rightarrow> raft_key \<Rightarrow> u8 list option)
    \<Rightarrow> ('v, 'x) raft_event \<Rightarrow> ('d, 'v, 's, 'm) raft_store \<Rightarrow> ('v, 'x) raft_log \<Rightarrow> bool" where
  "recovers env rows ev st a \<longleftrightarrow>
     (\<exists>b \<in> set (fst (log_event (rv_codec env) ev a) # a # between ev a).
        disk_holds (rv_codec env) (rows (rs_db (fst (run_raft_event env ev st)))) b
        \<and> (failed_answer (snd (run_raft_event env ev st)) \<or> b = fst (log_event (rv_codec env) ev a)))"

lemma one_write:
  assumes laws: "rocks_laws (rv_kv env) rows" "rocks_atomic (rv_kv env) rows" and rel: "disk_holds (rv_codec env) (rows d) a"
    and new: "disk_holds (rv_codec env) (fold batch_effect ops (rows d)) a'"
  shows "sync_write env d ops = (d', Inr ()) \<Longrightarrow> disk_holds (rv_codec env) (rows d') a'"
    and "sync_write env d ops = (d', Inl e) \<Longrightarrow> disk_holds (rv_codec env) (rows d') a' \<or> disk_holds (rv_codec env) (rows d') a"
    and "rdb_write (rv_kv env) d ops = (d', Inr ()) \<Longrightarrow> disk_holds (rv_codec env) (rows d') a'"
    and "rdb_write (rv_kv env) d ops = (d', Inl e) \<Longrightarrow> disk_holds (rv_codec env) (rows d') a' \<or> disk_holds (rv_codec env) (rows d') a"
  using rel new write_outcome [OF laws, of d ops d'] rdb_write_rows [OF laws(1), of d ops d']
  by (auto simp: sync_write_def split: prod.splits sum.splits)

lemma recover_vote:
  assumes laws: "rocks_laws (rv_kv env) rows" "rocks_atomic (rv_kv env) rows" and c: "raft_codec_ok (rv_codec env)"
    and disk: "disk_holds (rv_codec env) (rows (rs_db st)) a"
  shows "recovers env rows (SaveVote v) st a"
proof -
  from c obtain bs where bs: "fst (rc_vote (rv_codec env)) v = Inr bs" "snd (rc_vote (rv_codec env)) bs = Inr v"
    using json_codecE unfolding raft_codec_ok_def by metis
  obtain d' r where d': "sync_write env (rs_db st) [Put KEY_VOTE bs] = (d', r)" by fastforce
  then show ?thesis using one_write(1,2) [OF laws disk disk_vote [OF disk bs(2)]]
    by (cases r) (auto simp: recovers_def save_vote_def bs(1) answer_of_def)
qed

lemma recover_append:
  assumes laws: "rocks_laws (rv_kv env) rows" "rocks_atomic (rv_kv env) rows" and c: "raft_codec_ok (rv_codec env)"
    and disk: "disk_holds (rv_codec env) (rows (rs_db st)) a"
  shows "recovers env rows (AppendLog es) st a"
proof -
  from c have e: "json_codec (rc_entry (rv_codec env))" by (simp add: raft_codec_ok_def)
  from encode_entries_total [OF e] obtain ops where ops: "encode_entries (rc_entry (rv_codec env)) es = Inr ops" by blast
  obtain d' r where d': "sync_write env (rs_db st) ops = (d', r)" by fastforce
  then show ?thesis using one_write(1,2) [OF laws disk disk_append [OF disk _ ops]] e
    by (cases r) (auto simp: recovers_def append_to_log_def ops answer_of_def json_codec_def)
qed

text \<open>No entry has the largest index, which the second delete of a truncation is for.\<close>

lemma retain_without_last:
  assumes "bm_wf l" and "bm_get l u64_max = None"
  shows "bm_retain (\<lambda>k. k < i \<or> k = u64_max) l = bm_retain (\<lambda>k. k < i) l"
  by (rule bm_eqI) (use assms in \<open>auto simp: bm.store_wf bm.store_simps fun_eq_iff\<close>)

lemma log_rows_delete_range:
  assumes "log_rows c R l"
  shows "log_rows c (fold batch_effect [DeleteRange (LogsCf (to_be_bytes i)) (LogsCf (to_be_bytes u64_max))] R)
    (bm_retain (\<lambda>k. k < i \<or> k = u64_max) l)"
proof (rule log_rows_retain [OF assms], goal_cases)
  case (1 j)
  have "j = u64_max \<or> j < u64_max" by (metis word_order.extremum word_order.not_eq_extremum)
  then show ?case by (auto simp: not_less)
qed (auto split: if_splits)

lemma recover_delete:
  assumes laws: "rocks_laws (rv_kv env) rows" "rocks_atomic (rv_kv env) rows"
    and disk: "disk_holds (rv_codec env) (rows (rs_db st)) a" and last: "bm_get (al_log a) u64_max = None"
  shows "recovers env rows (DeleteSince log) st a"
proof -
  let ?r = "DeleteRange (LogsCf (to_be_bytes (li_index log))) (LogsCf (to_be_bytes u64_max))"
  let ?l = "Delete (LogsCf (to_be_bytes u64_max))"
  let ?a = "a\<lparr>al_log := bm_retain (\<lambda>k. k < li_index log) (al_log a)\<rparr>"
  have wf: "bm_wf (al_log a)" using disk by (simp add: disk_holds_def log_rows_def)
  have one: "disk_holds (rv_codec env) (fold batch_effect [?r] (rows (rs_db st))) ?a"
    using disk log_rows_delete_range [of "rc_entry (rv_codec env)" "rows (rs_db st)" "al_log a" "li_index log"]
    by (simp add: disk_holds_def raft_keys retain_without_last [OF wf last])
  obtain d1 r1 where d1: "rdb_write (rv_kv env) (rs_db st) [?r] = (d1, r1)" by fastforce
  show ?thesis
  proof (cases r1)
    case (Inl e)
    then show ?thesis using d1 one_write(4) [OF laws disk one]
      by (auto simp: recovers_def delete_conflict_logs_since_def answer_of_def)
  next
    case (Inr u)
    have holds: "disk_holds (rv_codec env) (rows d1) ?a" using one_write(3) [OF laws disk one] d1 Inr by simp
    moreover have "disk_holds (rv_codec env) (fold batch_effect [?l] (rows d1)) ?a"
      using disk_delete [OF disk, of "li_index log"] rdb_write_rows [OF laws(1), of "rs_db st" "[?r]" d1] d1 Inr by simp
    ultimately have "disk_holds (rv_codec env) (rows (fst (rdb_write (rv_kv env) d1 [?l]))) ?a"
      using write_outcome [OF laws, of d1 "[?l]"] by (metis prod.collapse)
    then show ?thesis using d1 Inr by (simp add: recovers_def delete_conflict_logs_since_def answer_of_def)
  qed
qed

lemma recover_purge:
  assumes laws: "rocks_laws (rv_kv env) rows" "rocks_atomic (rv_kv env) rows" and c: "raft_codec_ok (rv_codec env)"
    and disk: "disk_holds (rv_codec env) (rows (rs_db st)) a" and ok: "li_index log < u64_max"
  shows "recovers env rows (PurgeUpto log) st a"
proof -
  let ?r = "DeleteRange (LogsCf (to_be_bytes 0)) (LogsCf (to_be_bytes (li_index log + 1)))"
  from c obtain bs where bs: "fst (rc_log_id (rv_codec env)) log = Inr bs" "snd (rc_log_id (rv_codec env)) bs = Inr log"
    using json_codecE unfolding raft_codec_ok_def by metis
  obtain d1 r1 where d1: "sync_write env (rs_db st) [Put KEY_LAST_PURGED bs] = (d1, r1)" by fastforce
  note w = one_write(1,2) [OF laws disk disk_purged [OF disk bs(2)]]
  show ?thesis
  proof (cases r1)
    case (Inl e)
    then show ?thesis using w(2) d1 by (auto simp: recovers_def purge_logs_upto_def bs(1) answer_of_def)
  next
    case (Inr u)
    have mid: "disk_holds (rv_codec env) (rows d1) (a\<lparr>al_purged := Some log\<rparr>)" using w(1) d1 Inr by simp
    obtain d2 r2 where d2: "sync_write env d1 [?r] = (d2, r2)" by fastforce
    then show ?thesis using one_write(1,2) [OF laws mid disk_purge [OF mid ok]] d1 Inr
      by (cases r2) (auto simp: recovers_def purge_logs_upto_def bs(1) answer_of_def)
  qed
qed

lemma recover_apply:
  assumes laws: "rocks_laws (rv_kv env) rows" "rocks_atomic (rv_kv env) rows" and c: "raft_codec_ok (rv_codec env)"
    and rel: "raft_rel env rows st a"
  shows "recovers env rows (ApplyLog now es) st a"
proof -
  obtain st' rs where st': "apply_entries env now es st = (st', rs)" by fastforce
  note log = apply_entries_log [of env now es st, unfolded st', simplified]
  have sm: "rs_sm st' = fold sm_entry es (al_sm a)" and disk: "disk_holds (rv_codec env) (rows (rs_db st')) a"
    using rel log by (simp_all add: raft_rel_def mem_holds_def)
  from c obtain bs where bs: "fst (rc_sm (rv_codec env)) (rs_sm st') = Inr bs" "snd (rc_sm (rv_codec env)) bs = Inr (rs_sm st')"
    using json_codecE unfolding raft_codec_ok_def by metis
  obtain d' r where d': "rdb_write (rv_kv env) (rs_db st') [Put KEY_SM_DATA bs] = (d', r)" by fastforce
  have "apply_to_state_machine env now es st = (st'\<lparr>rs_db := d'\<rparr>, case r of Inl e \<Rightarrow> Inl e | Inr _ \<Rightarrow> Inr rs)"
    by (simp add: apply_to_state_machine_def st' bs(1) d' split: sum.splits)
  then show ?thesis using one_write(3,4) [OF laws disk disk_sm [OF disk bs(2)]] d'
    by (cases r) (auto simp: recovers_def answer_of_def sm)
qed

lemma recover_build:
  assumes laws: "rocks_laws (rv_kv env) rows" "rocks_atomic (rv_kv env) rows" and c: "raft_codec_ok (rv_codec env)"
    and rel: "raft_rel env rows st a"
  shows "recovers env rows BuildSnapshot st a"
proof -
  have sm: "rs_sm st = al_sm a" and disk: "disk_holds (rv_codec env) (rows (rs_db st)) a"
    using rel by (simp_all add: raft_rel_def mem_holds_def)
  from c obtain b0 where "fst (rc_sm (rv_codec env)) (al_sm a) = Inr b0"
    using json_codecE unfolding raft_codec_ok_def by metis
  then obtain s where s: "snapshot_of (rv_codec env) (al_sm a) = Inr s" by (simp add: snapshot_of_def and_then_def)
  from c obtain bs where bs: "fst (rc_snapshot (rv_codec env)) s = Inr bs" "snd (rc_snapshot (rv_codec env)) bs = Inr s"
    using json_codecE unfolding raft_codec_ok_def by metis
  obtain d' r where d': "rdb_write (rv_kv env) (rs_db st) [Put KEY_SNAPSHOT bs] = (d', r)" by fastforce
  then show ?thesis using one_write(3,4) [OF laws disk disk_snapshot [OF disk bs(2)]]
    by (cases r) (auto simp: recovers_def build_snapshot_def serialize_snapshot_def s sm bs(1) answer_of_def)
qed

lemma recover_install:
  assumes laws: "rocks_laws (rv_kv env) rows" "rocks_atomic (rv_kv env) rows" and c: "raft_codec_ok (rv_codec env)"
    and disk: "disk_holds (rv_codec env) (rows (rs_db st)) a" and ok: "raft_event_ok (InstallSnapshot meta data :: ('v, 'x) raft_event)"
  shows "recovers (env :: ('d, 'v, 'x, 's, 'b, 'm) raft_env) rows (InstallSnapshot meta data) st a"
proof (cases "snd (rc_sm (rv_codec env)) data")
  case (Inl e)
  then show ?thesis using disk by (simp add: recovers_def install_snapshot_def and_then_def answer_of_def)
next
  case (Inr sm)
  from ok obtain i where i: "sn_last_log_id meta = Some i" "li_index i < u64_max" by (auto split: option.splits)
  let ?s = "\<lparr>ss_meta = meta, ss_data = data\<rparr>"
  from c obtain b1 b2 b3 where b1: "fst (rc_sm (rv_codec env)) sm = Inr b1" "snd (rc_sm (rv_codec env)) b1 = Inr sm"
    and b2: "fst (rc_snapshot (rv_codec env)) ?s = Inr b2" "snd (rc_snapshot (rv_codec env)) b2 = Inr ?s"
    and b3: "fst (rc_log_id (rv_codec env)) i = Inr b3" "snd (rc_log_id (rv_codec env)) b3 = Inr i"
    using json_codecE unfolding raft_codec_ok_def by metis
  let ?ops = "[Put KEY_SM_DATA b1, Put KEY_SNAPSHOT b2]
      @ [Put KEY_LAST_PURGED b3, DeleteRange (LogsCf (to_be_bytes 0)) (LogsCf (to_be_bytes (li_index i + 1)))]"
  obtain d' r where d': "sync_write env (rs_db st) ?ops = (d', r)" by fastforce
  have "rs_db (fst (install_snapshot env meta data st)) = d' \<and> snd (install_snapshot env meta data st) = r"
    using d' by (cases r) (simp_all add: install_snapshot_def and_then_def Inr b1(1) b2(1) b3(1) encode_purged_def i(1))
  then show ?thesis using one_write(1,2) [OF laws disk disk_install [OF disk b1(2) b2(2) b3(2) i(2)]] d'
    by (cases r) (auto simp: recovers_def answer_of_def Inr i(1))
qed

text \<open>
  C14. A write of the consensus store that fails loses nothing it had acknowledged. Whatever the
  database answers to the writes of an operation, a restart finds the log as it was before or after
  the operation, or with the new purge mark over the entries not yet deleted; and after an operation
  that was acknowledged it finds the log after it.
\<close>

theorem raft_crash_recovers:
  assumes "rocks_laws (rv_kv env) rows" and "rocks_atomic (rv_kv env) rows" and "raft_codec_ok (rv_codec env)"
    and "raft_rel env rows st a" and "raft_event_ok ev" and "bm_get (al_log a) u64_max = None"
  shows "\<exists>b st'. open_raft env (rs_db (fst (run_raft_event env ev st))) shared = Inr st' \<and> raft_rel env rows st' b
    \<and> (b = fst (log_event (rv_codec env) ev a)
       \<or> failed_answer (snd (run_raft_event env ev st)) \<and> b \<in> set (a # between ev a))"
proof -
  have disk: "disk_holds (rv_codec env) (rows (rs_db st)) a" using assms(4) by (simp add: raft_rel_def)
  have reads: "recovers env rows ReadVote st a" "recovers env rows (ReadLog lower upper) st a" "recovers env rows ReadLogState st a"
    "recovers env rows ReadApplied st a" "recovers env rows ReadSnapshot st a" "recovers env rows (ReopenLog now s) st a" for lower upper now s
    using disk step_reopen [OF assms(1,4), of now s]
    by (simp_all add: recovers_def split_def steps_alike_def raft_rel_def)
  have "recovers env rows ev st a"
    using recover_vote [OF assms(1-3) disk] recover_append [OF assms(1-3) disk] recover_delete [OF assms(1,2) disk assms(6)]
      recover_purge [OF assms(1-3) disk] recover_apply [OF assms(1-4)] recover_build [OF assms(1-4)]
      recover_install [OF assms(1-3) disk] reads assms(5)
    by (cases ev) auto
  then obtain b where b: "b \<in> set (fst (log_event (rv_codec env) ev a) # a # between ev a)"
    "disk_holds (rv_codec env) (rows (rs_db (fst (run_raft_event env ev st)))) b"
    "failed_answer (snd (run_raft_event env ev st)) \<or> b = fst (log_event (rv_codec env) ev a)"
    unfolding recovers_def by blast
  with open_holds [OF assms(1) b(2), of shared] show ?thesis unfolding raft_rel_def by (metis set_ConsD)
qed

section \<open>A store to run on\<close>

text \<open>
  What the store writes is countable, so numbering it gives a codec that encodes everything and reads
  it back: the hypotheses on the JSON codec can be met.
\<close>

instance region_state :: countable by countable_datatype

instance shard_epoch_ext :: (countable) countable
  by (rule countable_classI [of "\<lambda>r. to_nat (conf_ver r, shard_epoch.version r, shard_epoch.more r)"]) (simp add: shard_epoch.equality)

instance shard_region_ext :: (countable) countable
  by (rule countable_classI [of "\<lambda>r. to_nat (region_id r, r_start r, r_end r, r_epoch r, peers r, primary r, last_split_at r, transfer_verified r, transfer_first_seen r, r_state r, staged_from r, staging_peers r, shard_region.more r)"]) (simp add: shard_region.equality)

instance measurement_key_ext :: (countable) countable
  by (rule countable_classI [of "\<lambda>r. to_nat (db r, rp r, measurement r, measurement_key.more r)"]) (simp add: measurement_key.equality)

instance shard_map_op :: countable by countable_datatype

instance node_state :: countable by countable_datatype

instance node_info_ext :: (countable) countable
  by (rule countable_classI [of "\<lambda>r. to_nat (node_id r, addr r, node_state r, joined_at r, last_heartbeat r, needs_sync r, consecutive_misses r, node_info.more r)"]) (simp add: node_info.equality)

instance cluster_membership_ext :: (countable) countable
  by (rule countable_classI [of "\<lambda>r. to_nat (member_version r, nodes r, cluster_membership.more r)"]) (simp add: cluster_membership.equality)

instance log_id_ext :: (countable) countable
  by (rule countable_classI [of "\<lambda>r. to_nat (li_term r, li_node r, li_index r, log_id.more r)"]) (simp add: log_id.equality)

instance raft_membership_ext :: (countable) countable
  by (rule countable_classI [of "\<lambda>r. to_nat (joint_config r, raft_nodes r, raft_membership.more r)"]) (simp add: raft_membership.equality)

instance stored_membership_ext :: (countable) countable
  by (rule countable_classI [of "\<lambda>r. to_nat (st_log_id r, st_membership r, stored_membership.more r)"]) (simp add: stored_membership.equality)

instance state_machine_data_ext :: (countable) countable
  by (rule countable_classI [of "\<lambda>r. to_nat (last_applied_log r, last_membership r, sm_cluster_membership r, state_machine_data.more r)"]) (simp add: state_machine_data.equality)

instance schema_mutation :: (countable) countable by countable_datatype

instance cluster_request :: (countable) countable by countable_datatype

instance entry_payload :: (countable) countable by countable_datatype

instance raft_entry_ext :: (countable, countable) countable
  by (rule countable_classI [of "\<lambda>r. to_nat (en_log_id r, en_payload r, raft_entry.more r)"]) (simp add: raft_entry.equality)

instance snapshot_meta_ext :: (countable) countable
  by (rule countable_classI [of "\<lambda>r. to_nat (sn_last_log_id r, sn_last_membership r, sn_snapshot_id r, snapshot_meta.more r)"]) (simp add: snapshot_meta.equality)

instance stored_snapshot_ext :: (countable) countable
  by (rule countable_classI [of "\<lambda>r. to_nat (ss_meta r, ss_data r, stored_snapshot.more r)"]) (simp add: stored_snapshot.equality)

definition demo_raft_env ::
    "((raft_key \<times> u8 list) list, nat, nat, (string \<times> row_value) list, row_value, unit) raft_env" where
  "demo_raft_env =
     \<lparr>rv_kv = list_kv, rv_flush_wal = (\<lambda>_. Inr ()),
      rv_codec = \<lparr>rc_vote = numbered_codec, rc_log_id = numbered_codec, rc_entry = numbered_codec, rc_sm = numbered_codec,
        rc_snapshot = numbered_codec, rc_leader_name = (\<lambda>i. ''T1-N1'')\<rparr>,
      rv_shard_kv = list_kv, rv_shard_codec = row_codec, rv_schema = (\<lambda>_ m. (m, Inr ()))\<rparr>"

lemma demo_raft_codec: "raft_codec_ok (rv_codec demo_raft_env)"
  by (simp add: raft_codec_ok_def demo_raft_env_def)

lemma demo_raft_laws:
  "rocks_laws (rv_kv demo_raft_env) map_of" "rocks_atomic (rv_kv demo_raft_env) map_of" "raft_reliable demo_raft_env"
  by (simp_all add: demo_raft_env_def list_kv_laws list_kv_atomic list_kv_reliable raft_reliable_def)

definition demo_log_id :: "u64 \<Rightarrow> log_id" where
  "demo_log_id i = \<lparr>li_term = 1, li_node = 1, li_index = i\<rparr>"

definition demo_entry_at :: "u64 \<Rightarrow> nat raft_entry" where
  "demo_entry_at i = \<lparr>en_log_id = demo_log_id i, en_payload = Blank\<rparr>"

definition demo_raft_store :: "((raft_key \<times> u8 list) list, nat, (string \<times> row_value) list, unit) raft_store" where
  "demo_raft_store =
     \<lparr>rs_db = [], rs_vote = None, rs_last_purged = None, rs_sm = default_sm, rs_shared = new_membership,
      rs_metadata = None, rs_shard_map = None, rs_cache = None\<rparr>"

lemma demo_raft_open: "open_raft demo_raft_env [] new_membership = Inr demo_raft_store"
  by (simp add: open_raft_def read_row_def demo_raft_env_def list_kv_def and_then_def demo_raft_store_def)

definition demo_raft_events :: "(nat, nat) raft_event list" where
  "demo_raft_events = [SaveVote 7, AppendLog (map demo_entry_at [1, 2, 3]), DeleteSince (demo_log_id 3), PurgeUpto (demo_log_id 1),
     ReopenLog 0 new_membership, ReadVote, ReadLog Unbounded Unbounded, ReadLogState]"

theorem raft_run_refines_log_witness:
  "snd (run_raft demo_raft_env demo_raft_events demo_raft_store) =
     [DoneAns, DoneAns, DoneAns, DoneAns, DoneAns, VoteAns (Some 7), EntriesAns [demo_entry_at 2],
      StateAns (Some (demo_log_id 1)) (Some (demo_log_id 2))]"
proof -
  have "list_all raft_event_ok demo_raft_events"
    by (simp add: demo_raft_events_def demo_log_id_def word_less_nat_alt unsigned_minus_1_eq_mask mask_eq_exp_minus_1)
  from raft_run_refines_log [OF demo_raft_laws(1,3) demo_raft_codec _ demo_raft_open this]
  have "snd (run_raft demo_raft_env demo_raft_events demo_raft_store) = snd (log_run (rv_codec demo_raft_env) demo_raft_events empty_log)"
    by simp
  also have "\<dots> = [DoneAns, DoneAns, DoneAns, DoneAns, DoneAns, VoteAns (Some 7), EntriesAns [demo_entry_at 2],
      StateAns (Some (demo_log_id 1)) (Some (demo_log_id 2))]"
    by (simp add: demo_raft_events_def log_append_def demo_entry_at_def demo_log_id_def empty_log_def bm_retain_def log_purge_def
        log_read_def last_index_def)
  finally show ?thesis .
qed

definition torn_env :: "((raft_key \<times> u8 list) list, nat, nat, (string \<times> row_value) list, row_value, unit) raft_env" where
  "torn_env = demo_raft_env\<lparr>rv_flush_wal := (\<lambda>_. Inl ''io'')\<rparr>"

theorem raft_crash_recovers_witness:
  "\<exists>b st'. open_raft torn_env (rs_db (fst (run_raft_event torn_env (SaveVote 7) demo_raft_store))) new_membership = Inr st'
    \<and> raft_rel torn_env map_of st' b \<and> (b = empty_log\<lparr>al_vote := Some 7\<rparr> \<or> b = empty_log)"
proof -
  have env: "rv_kv torn_env = rv_kv demo_raft_env" "rv_codec torn_env = rv_codec demo_raft_env" by (simp_all add: torn_env_def)
  have "raft_rel torn_env map_of demo_raft_store empty_log"
    by (simp add: raft_rel_def mem_holds_def disk_holds_def log_rows_def demo_raft_store_def empty_log_def)
  from raft_crash_recovers [of torn_env map_of demo_raft_store empty_log "SaveVote 7" new_membership, OF _ _ _ this]
  show ?thesis using demo_raft_laws demo_raft_codec by (auto simp: env empty_log_def)
qed

end
