(* ===== verification/Raft_Apply.thy ===== *)
theory Raft_Apply
  imports Raft_Log
begin

text \<open>
  What committed entries do on a node: the shard operations among them, in log order, make the shard
  map and keep the location cache coherent with it (\<open>Shard_Store\<close>, \<open>Location_Cache\<close>), however they
  are batched; membership entries make the live membership; snapshots carry neither the shard map nor
  the node states.
\<close>

section \<open>The operations of the log\<close>

definition shard_ops_of :: "'x raft_entry \<Rightarrow> shard_map_op list" where
  "shard_ops_of e =
     (case en_payload e of
        Normal (ShardMapMutation op) \<Rightarrow> [op]
      | Normal (SchemaMutation mutation) \<Rightarrow> (case drop_space_for mutation of Some op \<Rightarrow> [op] | None \<Rightarrow> [])
      | _ \<Rightarrow> [])"

definition next_map :: "shard_map_op \<Rightarrow> shard_map \<Rightarrow> shard_map" where
  "next_map op m = (case apply_shard_map_op m op of (m', Inr _) \<Rightarrow> m' | (_, Inl _) \<Rightarrow> m)"

fun applied_entries :: "('v, 'x) raft_event list \<Rightarrow> 'x raft_entry list" where
  "applied_entries [] = []"
| "applied_entries (ApplyLog now es # evs) = es @ applied_entries evs"
| "applied_entries (ev # evs) = applied_entries evs"

definition committed_ops :: "'x raft_entry list \<Rightarrow> shard_map_op list" where
  "committed_ops es = concat (map shard_ops_of es)"

fun is_reopen :: "('v, 'x) raft_event \<Rightarrow> bool" where
  "is_reopen (ReopenLog now shared) = True"
| "is_reopen ev = False"

section \<open>One operation\<close>

definition shard_reliable :: "('s, string, 'b) rocks \<Rightarrow> 'b codec \<Rightarrow> bool" where
  "shard_reliable kv cd \<longleftrightarrow> rocks_reliable kv \<and> (\<forall>x. \<exists>b. enc_meta cd x = Inr b) \<and> (\<forall>x. \<exists>b. enc_space cd x = Inr b)"

lemma persist_spaces_reliable:
  assumes "shard_reliable kv cd"
  shows "\<exists>d'. persist_spaces kv cd m ks d = (d', Inr ())"
proof (induction ks arbitrary: d)
  case (Cons k ks)
  have w: "\<exists>d'. write_batch kv d ops = (d', Inr ())" for ops
    using assms unfolding shard_reliable_def rocks_reliable_def write_batch_def by (metis (mono_tags, lifting) case_prod_conv sum.case(2))
  have "\<exists>b. enc_meta cd \<lparr>pm_map_version = map_version m, pm_next_region_id = next_region_id m\<rparr> = Inr b"
    using assms unfolding shard_reliable_def by blast
  then obtain mp where mp: "put_meta cd m = Inr mp" by (auto simp: put_meta_def)
  have "\<exists>d'. persist_space kv cd m k d = (d', Inr ())"
  proof (cases "map_space m (db k) (rp k) (measurement k)")
    case (Some s)
    moreover obtain v where "enc_space cd s = Inr v" using assms unfolding shard_reliable_def by blast
    ultimately show ?thesis using w by (simp add: persist_space_def mp)
  qed (use w in \<open>simp add: persist_space_def mp\<close>)
  then show ?case using Cons by auto
qed simp

lemma apply_op_reliable:
  assumes "shard_reliable kv cd" and "apply_op kv cd op sm = (sm', res)"
  shows "ss_cache sm' = next_map op (ss_cache sm)
    \<and> (case apply_shard_map_op (ss_cache sm) op of (m, Inr _) \<Rightarrow> res = Inr m | (_, Inl e) \<Rightarrow> res = Inl (ApplyError e))"
proof (cases "apply_shard_map_op (ss_cache sm) op")
  case (Pair m r)
  obtain d' where "persist_spaces kv cd m (affected_space_keys op (ss_cache sm)) (ss_db sm) = (d', Inr ())"
    using persist_spaces_reliable [OF assms(1)] by blast
  then show ?thesis using assms(2) Pair by (cases r) (auto simp: apply_op_def next_map_def)
qed

text \<open>The shard map of a node and its cache, with the maps the log has gone through.\<close>

definition routes :: "('d, 'v, 's, 'm) raft_store \<Rightarrow> shard_map \<Rightarrow> shard_map list \<Rightarrow> bool" where
  "routes st m ms \<longleftrightarrow> rs_metadata st \<noteq> None
     \<and> (\<exists>sm c. rs_shard_map st = Some sm \<and> ss_cache sm = m \<and> rs_cache st = Some c \<and> cached.reachable (m # ms, c))"

lemma refreshes_reachable:
  "cached.reachable (ms, c) \<Longrightarrow> m \<in> set ms \<Longrightarrow> cached.reachable (ms, fold (refresh_measurement m) ks c)"
proof (induction ks arbitrary: c)
  case (Cons k ks)
  have "cache_step (ms, c) (RefreshOne m k) (ms, run_cache_event (RefreshOne m k) c)"
    using Cons.prems(2) by (intro cache_step.use) auto
  from cached.reachable_step [OF Cons.prems(1) this] Cons show ?case by simp
qed simp

lemma raft_apply_op_routes:
  assumes "shard_reliable (rv_shard_kv env) (rv_shard_codec env)" and "routes st m ms" and "op_ok op" and "map_version m \<noteq> u64_max"
  shows "\<exists>ms'. routes (fst (raft_apply_op env op st)) (next_map op m) ms'"
proof -
  from assms(2) obtain sm c where st: "rs_shard_map st = Some sm" "ss_cache sm = m" "rs_cache st = Some c" "cached.reachable (m # ms, c)"
    "rs_metadata st \<noteq> None" unfolding routes_def by blast
  obtain sm' res where ap: "apply_op (rv_shard_kv env) (rv_shard_codec env) op sm = (sm', res)" by fastforce
  note eff = apply_op_reliable [OF assms(1) ap, unfolded st(2)]
  show ?thesis
  proof (cases "apply_shard_map_op m op")
    case (Pair m' r)
    show ?thesis
    proof (cases r)
      case (Inl e)
      then show ?thesis using st eff Pair
        by (intro exI [of _ ms]) (simp add: routes_def raft_apply_op_def ap next_map_def)
    next
      case (Inr u)
      with Pair have "cache_step (m # ms, c) (Commit op) (m' # m # ms, c)"
        using assms(3,4) by (intro cache_step.commit) (simp_all add: log_step_def)
      from refreshes_reachable [OF cached.reachable_step [OF st(4) this]]
      have "cached.reachable (m' # m # ms, fold (refresh_measurement m') ks c)" for ks by simp
      then show ?thesis using st eff Pair Inr
        by (intro exI [of _ "m # ms"]) (simp add: routes_def raft_apply_op_def ap next_map_def)
    qed
  qed
qed

lemma next_map_version:
  assumes "unat (map_version m) + 1 < 2 ^ 64"
  shows "unat (map_version (next_map op m)) \<le> unat (map_version m) + 1"
proof (cases "apply_shard_map_op m op")
  case (Pair m' r)
  have "map_version m' = saturating_add (map_version m) 1"
    using apply_arm_version [of "m\<lparr>map_version := saturating_add (map_version m) 1\<rparr>" op] Pair by (simp add: apply_shard_map_op_def)
  then show ?thesis using Pair assms saturating_add_1_unat [of "map_version m"] by (cases r) (simp_all add: next_map_def)
qed

section \<open>Runs\<close>

lemma routes_frame:
  "routes st m ms \<Longrightarrow> rs_metadata st' = rs_metadata st \<Longrightarrow> rs_shard_map st' = rs_shard_map st \<Longrightarrow> rs_cache st' = rs_cache st \<Longrightarrow>
   routes st' m ms"
  by (simp add: routes_def)

lemma apply_entry_routes:
  assumes "shard_reliable (rv_shard_kv env) (rv_shard_codec env)" and "routes st m ms" and "list_all op_ok (shard_ops_of e)"
    and "unat (map_version m) + length (shard_ops_of e) < 2 ^ 64"
  shows "\<exists>ms'. routes (fst (apply_entry env now e st)) (fold next_map (shard_ops_of e) m) ms'"
proof -
  have top: "map_version m \<noteq> u64_max" if "shard_ops_of e \<noteq> []"
    using assms(4) that by (cases "shard_ops_of e") (auto simp: unsigned_minus_1_eq_mask mask_eq_exp_minus_1)
  have op: "\<exists>ms'. routes (fst (raft_apply_op env op s)) (next_map op m) ms'" if "routes s m ms" "shard_ops_of e = [op]" for op s
    using raft_apply_op_routes [OF assms(1) that(1)] assms(3) top that(2) by simp
  let ?st = "st\<lparr>rs_sm := (rs_sm st)\<lparr>last_applied_log := Some (en_log_id e)\<rparr>\<rparr>"
  have st: "routes ?st m ms" using assms(2) by (rule routes_frame) simp_all
  show ?thesis
  proof (cases "en_payload e")
    case (Normal req)
    show ?thesis
    proof (cases req)
      case (SetNodeState i s)
      then show ?thesis using Normal st
        by (intro exI [of _ ms]) (auto simp: apply_entry_def apply_request_def shard_ops_of_def routes_def)
    next
      case (SchemaMutation mutation)
      obtain md where md: "rs_metadata ?st = Some md" using st by (auto simp: routes_def)
      let ?st' = "?st\<lparr>rs_metadata := Some (fst (rv_schema env mutation md))\<rparr>"
      have st': "routes ?st' m ms" "rs_shard_map ?st' \<noteq> None" using st by (auto simp: routes_def)
      show ?thesis
      proof (cases "drop_space_for mutation")
        case None
        then show ?thesis using SchemaMutation Normal st' md
          by (intro exI [of _ ms]) (simp add: apply_entry_def apply_request_def shard_ops_of_def split_def Let_def)
      next
        case (Some drop)
        then have ops: "shard_ops_of e = [drop]" by (simp add: shard_ops_of_def Normal SchemaMutation)
        from op [OF st'(1) ops] show ?thesis using st'(2) Some md
          by (simp add: apply_entry_def apply_request_def Normal SchemaMutation ops split_def Let_def)
      qed
    next
      case (ShardMapMutation o')
      then have ops: "shard_ops_of e = [o']" by (simp add: shard_ops_of_def Normal)
      from op [OF st ops] show ?thesis by (simp add: apply_entry_def apply_request_def Normal ShardMapMutation ops Let_def)
    qed
  qed (use assms(2) in \<open>auto simp: apply_entry_def shard_ops_of_def routes_def Let_def\<close>)
qed

lemma fold_next_map_version:
  "unat (map_version m) + length ops < 2 ^ 64 \<Longrightarrow> unat (map_version (fold next_map ops m)) \<le> unat (map_version m) + length ops"
proof (induction ops arbitrary: m)
  case (Cons op ops)
  have one: "unat (map_version (next_map op m)) \<le> unat (map_version m) + 1"
    by (rule next_map_version) (use Cons.prems in simp)
  with Cons.prems have "unat (map_version (next_map op m)) + length ops < 2 ^ 64" by simp
  from Cons.IH [OF this] one show ?case by simp
qed simp

lemma apply_entries_routes:
  assumes "shard_reliable (rv_shard_kv env) (rv_shard_codec env)" and "routes st m ms" and "list_all op_ok (committed_ops es)"
    and "unat (map_version m) + length (committed_ops es) < 2 ^ 64"
  shows "\<exists>ms'. routes (fst (apply_entries env now es st)) (fold next_map (committed_ops es) m) ms'"
  using assms(2-)
proof (induction es arbitrary: st m ms)
  case (Cons e es)
  let ?m = "fold next_map (shard_ops_of e) m"
  have split: "committed_ops (e # es) = shard_ops_of e @ committed_ops es" by (simp add: committed_ops_def)
  have "unat (map_version m) + length (shard_ops_of e) < 2 ^ 64" "list_all op_ok (shard_ops_of e)"
    using Cons.prems(2,3) by (simp_all add: split)
  with apply_entry_routes [OF assms(1) Cons.prems(1), of e now] obtain ms' where "routes (fst (apply_entry env now e st)) ?m ms'"
    by blast
  moreover have "unat (map_version ?m) + length (committed_ops es) < 2 ^ 64"
    using fold_next_map_version [of m "shard_ops_of e"] Cons.prems(3) by (simp add: split)
  ultimately show ?case using Cons.IH Cons.prems(2) by (fastforce simp: split split_def Let_def)
qed (auto simp: committed_ops_def)

lemma other_events_route:
  assumes "routes st m ms" and "\<not> is_reopen ev" and "\<And>now es. ev \<noteq> ApplyLog now es"
  shows "routes (fst (run_raft_event env ev st)) m ms"
  using assms
  by (cases ev)
    (auto intro!: routes_frame [OF assms(1)]
      simp: save_vote_def append_to_log_def delete_conflict_logs_since_def purge_logs_upto_def build_snapshot_def install_snapshot_def
        Let_def split: sum.splits prod.splits)

lemma run_routes:
  assumes "shard_reliable (rv_shard_kv env) (rv_shard_codec env)" and "routes st m ms" and "list_all op_ok (committed_ops (applied_entries evs))"
    and "unat (map_version m) + length (committed_ops (applied_entries evs)) < 2 ^ 64" and "list_all (\<lambda>ev. \<not> is_reopen ev) evs"
  shows "\<exists>ms'. routes (fst (run_raft env evs st)) (fold next_map (committed_ops (applied_entries evs)) m) ms'"
  using assms(2-)
proof (induction evs arbitrary: st m ms)
  case (Cons ev evs)
  show ?case
  proof (cases "\<exists>now es. ev = ApplyLog now es")
    case True
    then obtain now es where ev: "ev = ApplyLog now es" by blast
    let ?m = "fold next_map (committed_ops es) m"
    have split: "committed_ops (applied_entries (ev # evs)) = committed_ops es @ committed_ops (applied_entries evs)"
      by (simp add: ev committed_ops_def)
    have "unat (map_version m) + length (committed_ops es) < 2 ^ 64" "list_all op_ok (committed_ops es)"
      using Cons.prems(2,3) unfolding split by simp_all
    with apply_entries_routes [OF assms(1) Cons.prems(1), of es now] obtain ms' where
      r: "routes (fst (apply_entries env now es st)) ?m ms'" by blast
    have "routes (fst (run_raft_event env ev st)) ?m ms'"
      using r by (auto intro: routes_frame [OF r] simp: ev apply_to_state_machine_def Let_def split: sum.splits prod.splits)
    moreover have "unat (map_version ?m) + length (committed_ops (applied_entries evs)) < 2 ^ 64"
      using fold_next_map_version [of m "committed_ops es"] Cons.prems(3) unfolding split by simp
    ultimately show ?thesis using Cons.IH Cons.prems(2,4) unfolding split by (fastforce simp: split_def Let_def)
  next
    case False
    then have same: "applied_entries (ev # evs) = applied_entries evs" by (cases ev) auto
    have "routes (fst (run_raft_event env ev st)) m ms"
      by (rule other_events_route [OF Cons.prems(1)]) (use False Cons.prems(4) in auto)
    from Cons.IH [OF this] Cons.prems(2-4) show ?thesis unfolding same by (simp add: split_def Let_def)
  qed
qed (auto simp: committed_ops_def)

text \<open>
  C5. The shard map of a node is the work of its consensus log, as long as the node is up and its shard
  store takes every write. On a node that starts with the empty map, after any run of the store's
  operations without a restart (no reopening of the log) the served map is what the shard operations
  of the applied entries make of the empty map, in log order and however the entries were batched, a
  schema drop standing for the drop of its spaces and a refused operation for nothing; and the
  location cache answers with the routable regions of exactly that map. Installed snapshots add nothing
  to it. The two limits are hypotheses: every write of the shard store succeeds and every row
  serializes (a failed write is answered to the log and leaves the map behind it), and the
  regions the operations bring are well formed (\<open>op_ok\<close>), and there are fewer than 2^64 of them.
\<close>

theorem committed_log_makes_shard_map:
  assumes "shard_reliable (rv_shard_kv env) (rv_shard_codec env)" and "rs_metadata st \<noteq> None"
    and "rs_shard_map st = Some sm" and "ss_cache sm = default_shard_map" and "rs_cache st = Some new_cache"
    and "list_all op_ok (committed_ops (applied_entries evs))" and "length (committed_ops (applied_entries evs)) < 2 ^ 64"
    and "list_all (\<lambda>ev. \<not> is_reopen ev) evs"
  shows "\<exists>sm' c'. rs_shard_map (fst (run_raft env evs st)) = Some sm' \<and> rs_cache (fst (run_raft env evs st)) = Some c'
    \<and> ss_cache sm' = fold next_map (committed_ops (applied_entries evs)) default_shard_map
    \<and> (\<forall>d r mm. fst (serving_regions c' (ss_cache sm') d r mm) =
         (case map_space (ss_cache sm') d r mm of None \<Rightarrow> [] | Some s \<Rightarrow> materialise_serving (regions s)))"
proof -
  have "routes st default_shard_map []"
    using assms(2-5) cached_start unfolding routes_def by blast
  from run_routes [OF assms(1) this assms(6) _ assms(8)] assms(7) obtain ms' where
    "routes (fst (run_raft env evs st)) (fold next_map (committed_ops (applied_entries evs)) default_shard_map) ms'"
    by (auto simp: default_shard_map_def)
  then obtain sm' c' where new: "rs_shard_map (fst (run_raft env evs st)) = Some sm'" "rs_cache (fst (run_raft env evs st)) = Some c'"
    "ss_cache sm' = fold next_map (committed_ops (applied_entries evs)) default_shard_map"
    and reach: "cached.reachable (ss_cache sm' # ms', c')"
    by (auto simp: routes_def)
  have "fst (serving_regions c' (ss_cache sm') d r mm) =
      (case map_space (ss_cache sm') d r mm of None \<Rightarrow> [] | Some s \<Rightarrow> materialise_serving (regions s))" for d r mm
    using cache_entry_current [OF cached.reachable_inv [OF reach]]
    by (fastforce simp: serving_regions_def Let_def split: option.splits)
  then show ?thesis using new by blast
qed

definition demo_node_store :: "((raft_key \<times> u8 list) list, nat, (string \<times> row_value) list, unit) raft_store" where
  "demo_node_store = demo_raft_store\<lparr>rs_metadata := Some (), rs_shard_map := Some empty_store, rs_cache := Some new_cache\<rparr>"

definition demo_boot_entry :: "nat raft_entry" where
  "demo_boot_entry = \<lparr>en_log_id = demo_log_id 1, en_payload = Normal (ShardMapMutation demo_op)\<rparr>"

lemma demo_shard_reliable: "shard_reliable (rv_shard_kv demo_raft_env) (rv_shard_codec demo_raft_env)"
  by (simp add: shard_reliable_def demo_raft_env_def list_kv_reliable row_codec_def)

theorem committed_log_makes_shard_map_witness:
  "\<exists>sm' c'. rs_shard_map (fst (run_raft demo_raft_env [AppendLog [demo_boot_entry], ApplyLog 0 [demo_boot_entry]] demo_node_store)) = Some sm'
    \<and> ss_cache sm' = demo_map
    \<and> rs_cache (fst (run_raft demo_raft_env [AppendLog [demo_boot_entry], ApplyLog 0 [demo_boot_entry]] demo_node_store)) = Some c'
    \<and> fst (serving_regions c' demo_map (db demo_key) (rp demo_key) (measurement demo_key)) = [demo_region 1 0 u64_max [1, 2] 1]"
proof -
  let ?evs = "[AppendLog [demo_boot_entry], ApplyLog 0 [demo_boot_entry]] :: (nat, nat) raft_event list"
  have ops: "committed_ops (applied_entries ?evs) = [demo_op]"
    by (simp add: committed_ops_def shard_ops_of_def demo_boot_entry_def)
  have "op_ok demo_op" "next_map demo_op default_shard_map = demo_map" by code_simp+
  moreover have "(case map_space demo_map (db demo_key) (rp demo_key) (measurement demo_key) of None \<Rightarrow> [] | Some s \<Rightarrow> materialise_serving (regions s))
      = [demo_region 1 0 u64_max [1, 2] 1]" by code_simp
  ultimately show ?thesis
    using committed_log_makes_shard_map [of demo_raft_env demo_node_store empty_store ?evs, OF demo_shard_reliable]
    unfolding ops by (force simp: demo_node_store_def empty_store_def)
qed

section \<open>Membership\<close>

text \<open>
  What a membership entry makes of a node: a known one keeps the state its heartbeats gave it, a new
  one starts as active when it votes and as syncing when it learns.
\<close>

definition raft_member :: "raft_membership \<Rightarrow> int \<Rightarrow> u64 \<Rightarrow> string \<Rightarrow> node_info option \<Rightarrow> node_info" where
  "raft_member mem now i address known =
     (case known of
        Some n \<Rightarrow> n\<lparr>addr := address, last_heartbeat := now\<rparr>
      | None \<Rightarrow> \<lparr>node_id = i, addr = address, node_state = (if i \<in> voter_ids mem then Active else Syncing),
          joined_at = now, last_heartbeat = now, needs_sync = False, consecutive_misses = 0\<rparr>)"

lemma overlay_get:
  assumes "hm_wf (nodes s)"
  shows "hm_get (nodes (overlay_node mem now (i, address) s)) j =
    (if j = i then Some (raft_member mem now i address (hm_get (nodes s) i)) else hm_get (nodes s) j)"
  using assms by (auto simp: overlay_node_def raft_member_def with_node_get add_node_def hm.get_ins split: option.splits)

lemma overlay_wf [simp]: "hm_wf (nodes s) \<Longrightarrow> hm_wf (nodes (overlay_node mem now x s))"
  by (auto simp: overlay_node_def add_node_def hm.wf_ins split: prod.splits option.splits)

lemma fold_overlay_get:
  assumes "hm_wf (nodes s)" and "distinct (map fst ns)"
  shows "hm_wf (nodes (fold (overlay_node mem now) ns s)) \<and> hm_get (nodes (fold (overlay_node mem now) ns s)) j =
    (case map_of ns j of
       None \<Rightarrow> hm_get (nodes s) j
     | Some address \<Rightarrow> Some (raft_member mem now j address (hm_get (nodes s) j)))"
  using assms
proof (induction ns arbitrary: s)
  case (Cons x ns)
  obtain i address where x: "x = (i, address)" by fastforce
  have notin: "map_of ns i = None" using Cons.prems(2) x by (simp add: map_of_eq_None_iff)
  from Cons.IH [of "overlay_node mem now x s"] Cons.prems show ?case
    by (cases "j = i") (simp_all add: x overlay_get [OF Cons.prems(1)] notin split: option.splits)
qed simp

lemma fold_remove_get:
  "hm_wf (nodes s) \<Longrightarrow> hm_wf (nodes (fold remove_node xs s))
   \<and> hm_get (nodes (fold remove_node xs s)) j = (if j \<in> set xs then None else hm_get (nodes s) j)"
  by (induction xs arbitrary: s) (simp_all add: remove_node_def hm.store_wf hm.store_simps)

lemma sync_raft_members:
  assumes "hm_wf (nodes shared)" and "distinct (map fst (raft_nodes mem))"
  shows "hm_get (nodes (sync_raft_membership_to_shared now mem shared)) i =
    (case map_of (raft_nodes mem) i of
       None \<Rightarrow> None
     | Some address \<Rightarrow> Some (raft_member mem now i address (hm_get (nodes shared) i)))"
proof -
  let ?s = "fold (overlay_node mem now) (raft_nodes mem) shared"
  let ?stale = "filter (\<lambda>i. i \<notin> fst ` set (raft_nodes mem)) (hm_keys (nodes ?s))"
  note s = fold_overlay_get [OF assms, of mem now i]
  have "i \<in> set ?stale \<longleftrightarrow> hm_get (nodes ?s) i \<noteq> None \<and> map_of (raft_nodes mem) i = None"
    by (simp add: hm_keys_get map_of_eq_None_iff)
  then show ?thesis
    using s fold_remove_get [of ?s ?stale i]
    by (cases "map_of (raft_nodes mem) i") (auto simp: sync_raft_membership_to_shared_def Let_def)
qed

lemma merge_node_get:
  assumes "hm_wf (nodes s)" and "node_id info = i"
  shows "hm_get (nodes (merge_node upd (i, info) s)) j =
    (if j = i then Some (case hm_get (nodes s) i of Some n \<Rightarrow> upd n info | None \<Rightarrow> info) else hm_get (nodes s) j)"
  using assms by (auto simp: merge_node_def with_node_get add_node_def hm.get_ins split: option.splits)

lemma merge_node_wf [simp]: "hm_wf (nodes s) \<Longrightarrow> hm_wf (nodes (merge_node upd x s))"
  by (auto simp: merge_node_def add_node_def hm.wf_ins split: prod.splits option.splits)

lemma fold_merge_get:
  assumes "hm_wf (nodes s)" and "distinct (map fst ns)" and "\<forall>(i, info) \<in> set ns. node_id info = i"
  shows "hm_wf (nodes (fold (merge_node upd) ns s)) \<and> hm_get (nodes (fold (merge_node upd) ns s)) j =
    (case map_of ns j of
       None \<Rightarrow> hm_get (nodes s) j
     | Some info \<Rightarrow> Some (case hm_get (nodes s) j of Some n \<Rightarrow> upd n info | None \<Rightarrow> info))"
  using assms
proof (induction ns arbitrary: s)
  case (Cons x ns)
  obtain i info where x: "x = (i, info)" by fastforce
  have notin: "map_of ns i = None" using Cons.prems(2) x by (simp add: map_of_eq_None_iff)
  have id: "node_id info = i" using Cons.prems(3) x by simp
  from Cons.IH [of "merge_node upd x s"] Cons.prems show ?case
    by (cases "j = i") (simp_all add: x merge_node_get [OF Cons.prems(1) id] notin split: option.splits)
qed simp

lemma member_wf_nodes:
  assumes "member_wf m"
  shows "distinct (map fst (nodes m))" "\<forall>(i, info) \<in> set (nodes m). node_id info = i" "map_of (nodes m) i = hm_get (nodes m) i"
  using assms by (auto simp: member_wf_def hm_wf_def hm_get_def)

text \<open>
  At a restart the persisted node states and the live ones are merged node by node: a persisted
  operator state wins, but where both sides are on the axis of joining, syncing and active, which a
  node reports of itself, the live state stays; addresses come from the persisted record, nodes only
  one side knows are kept, and no node is lost.
\<close>

theorem restart_merge_keeps_self_reports:
  assumes "member_wf shared" and "member_wf persisted"
  shows "hm_get (nodes (merge_persisted_membership shared persisted)) i =
    (case (hm_get (nodes shared) i, hm_get (nodes persisted) i) of
       (known, None) \<Rightarrow> known
     | (None, Some info) \<Rightarrow> Some info
     | (Some n, Some info) \<Rightarrow> Some (n\<lparr>addr := addr info,
         node_state := (if node_state n \<in> {Joining, Syncing, Active} \<and> node_state info \<in> {Joining, Syncing, Active}
                        then node_state n else node_state info)\<rparr>))"
proof -
  let ?s = "shared\<lparr>member_version := max (member_version shared) (member_version persisted)\<rparr>"
  have wf: "hm_wf (nodes ?s)" using assms(1) by (simp add: member_wf_def)
  show ?thesis
    using fold_merge_get [OF wf member_wf_nodes(1,2) [OF assms(2)], of persisted_update i] member_wf_nodes(3) [OF assms(2), of i]
    by (auto simp: merge_persisted_membership_def persisted_update_def self_axis_def Let_def split: option.splits)
qed

theorem restart_merge_keeps_self_reports_witness:
  "map_option node_state (hm_get (nodes (merge_persisted_membership
     (add_node (demo_node 1 Active) new_membership) (add_node (demo_node 1 Draining) new_membership))) 1) = Some Draining"
proof -
  have "member_wf (add_node (demo_node 1 s) new_membership)" for s
    by (simp add: member_wf_def add_node_def new_membership_def demo_node_def hm_wf_def hm_get_def hm_insert_def)
  from restart_merge_keeps_self_reports [OF this this, of Active Draining 1] show ?thesis
    by (simp add: add_node_def new_membership_def demo_node_def hm_get_def hm_insert_def)
qed

section \<open>Well-formed memberships\<close>

lemma member_wf_set_state: "member_wf m \<Longrightarrow> member_wf (fst (set_state i s m))"
  by (auto simp: member_wf_def set_state_get split: if_splits)

lemma member_wf_overlay: "member_wf m \<Longrightarrow> member_wf (overlay_node mem now x m)"
  by (cases x) (auto simp: member_wf_def overlay_get raft_member_def split: if_splits option.splits)

lemma member_wf_remove: "member_wf m \<Longrightarrow> member_wf (remove_node i m)"
  by (auto simp: member_wf_def remove_node_def hm.store_wf hm.store_simps split: if_splits)

lemma member_wf_overlays: "member_wf m \<Longrightarrow> member_wf (fold (overlay_node mem now) xs m)"
  by (induction xs arbitrary: m) (simp_all add: member_wf_overlay)

lemma member_wf_sync: "member_wf m \<Longrightarrow> member_wf (sync_raft_membership_to_shared now mem m)"
proof -
  have "member_wf s \<Longrightarrow> member_wf (fold remove_node xs s)" for xs s
    by (induction xs arbitrary: s) (simp_all add: member_wf_remove)
  then show "member_wf m \<Longrightarrow> ?thesis" by (simp add: sync_raft_membership_to_shared_def Let_def member_wf_overlays)
qed

lemma member_wf_merge:
  assumes "member_wf s" and "member_wf m" and "\<And>n info. node_id (upd n info) = node_id n"
  shows "member_wf (fold (merge_node upd) (nodes m) s)"
proof -
  have wf: "hm_wf (nodes s)" using assms(1) by (simp add: member_wf_def)
  show ?thesis
    using assms fold_merge_get [OF wf member_wf_nodes(1,2) [OF assms(2)], of upd] member_wf_nodes(3) [OF assms(2)]
    unfolding member_wf_def by (auto split: option.splits)
qed

lemma member_wf_hydrate:
  assumes "member_wf (rs_shared st)" and "member_wf (sm_cluster_membership (rs_sm st))"
  shows "member_wf (rs_shared (hydrate_shared_membership_from_state_machine now st))"
proof -
  have "member_wf (s\<lparr>member_version := v\<rparr>) = member_wf s" for s v by (simp add: member_wf_def)
  moreover have "node_id (persisted_update n info) = node_id n" for n info by (simp add: persisted_update_def Let_def)
  ultimately have "member_wf (merge_persisted_membership (rs_shared st) (sm_cluster_membership (rs_sm st)))"
    using assms by (simp add: merge_persisted_membership_def member_wf_merge)
  then show ?thesis using assms(1) by (simp add: hydrate_shared_membership_from_state_machine_def Let_def member_wf_overlays)
qed

definition member_state_wf :: "('d, 'v, 's, 'm) raft_store \<Rightarrow> bool" where
  "member_state_wf st \<longleftrightarrow> member_wf (rs_shared st) \<and> member_wf (sm_cluster_membership (rs_sm st))"

fun event_wf :: "('v, 'x) raft_codec \<Rightarrow> ('v, 'x) raft_event \<Rightarrow> bool" where
  "event_wf c (InstallSnapshot meta data) =
     (case snd (rc_sm c) data of Inr sm \<Rightarrow> member_wf (sm_cluster_membership sm) | Inl _ \<Rightarrow> True)"
| "event_wf c (ReopenLog now shared) = member_wf shared"
| "event_wf c ev = True"

lemma sm_entries_membership: "sm_cluster_membership (fold sm_entry es sm) = sm_cluster_membership sm"
  by (induction es arbitrary: sm) (simp_all add: sm_entry_def Let_def split: entry_payload.splits)

lemma apply_entries_wf: "member_wf (rs_shared st) \<Longrightarrow> member_wf (rs_shared (fst (apply_entries env now es st)))"
proof (induction es arbitrary: st)
  case (Cons e es)
  have op: "rs_shared (fst (raft_apply_op env op s)) = rs_shared s" for op s
    by (simp add: raft_apply_op_def Let_def split: option.splits prod.splits sum.splits)
  have "member_wf (rs_shared s) \<Longrightarrow> member_wf (rs_shared (fst (apply_request env req s)))" for req s
    by (simp add: apply_request_def Let_def op member_wf_set_state split: cluster_request.splits option.splits prod.splits)
  with Cons.prems have "member_wf (rs_shared (fst (apply_entry env now e st)))"
    by (simp add: apply_entry_def Let_def member_wf_sync split: entry_payload.splits)
  from Cons.IH [OF this] show ?case by (simp add: split_def Let_def)
qed simp

lemma raft_event_wf:
  assumes "rocks_laws (rv_kv env) rows" and "raft_rel env rows st a" and "member_state_wf st" and "event_wf (rv_codec env) ev"
  shows "member_state_wf (fst (run_raft_event env ev st))"
proof (cases ev)
  case (ApplyLog now es)
  have sm: "sm_cluster_membership (rs_sm (fst (apply_entries env now es st))) = sm_cluster_membership (rs_sm st)"
    using apply_entries_log [of env now es st] by (simp add: sm_entries_membership)
  have "rs_shared (fst (apply_to_state_machine env now es st)) = rs_shared (fst (apply_entries env now es st))
      \<and> rs_sm (fst (apply_to_state_machine env now es st)) = rs_sm (fst (apply_entries env now es st))"
    by (simp add: apply_to_state_machine_def split_def Let_def split: sum.splits)
  then show ?thesis using assms(3) apply_entries_wf [of st env now es] sm by (simp add: ApplyLog member_state_wf_def)
next
  case (InstallSnapshot meta data)
  have "node_id (snapshot_update n info) = node_id n" for n info by (simp add: snapshot_update_def Let_def)
  then have "member_wf (merge_snapshot_membership s m)" if "member_wf s" "member_wf m" for s m
    using that by (simp add: merge_snapshot_membership_def member_wf_merge)
  then show ?thesis using assms(3,4)
    by (auto simp: InstallSnapshot member_state_wf_def install_snapshot_def and_then_def Let_def split: sum.splits prod.splits)
next
  case (ReopenLog now shared)
  have disk: "disk_holds (rv_codec env) (rows (rs_db st)) a" and sm: "rs_sm st = al_sm a"
    using assms(2) by (simp_all add: raft_rel_def mem_holds_def)
  from open_holds [OF assms(1) disk, of shared] obtain st' where st': "open_raft env (rs_db st) shared = Inr st'" "mem_holds st' a" by blast
  then have "rs_shared st' = shared" by (auto simp: open_raft_def and_then_def split: sum.splits)
  then show ?thesis using st' sm assms(3,4) member_wf_hydrate [of "st'\<lparr>rs_metadata := rs_metadata st, rs_shard_map := rs_shard_map st, rs_cache := rs_cache st\<rparr>" now]
    by (simp add: ReopenLog member_state_wf_def reopen_def mem_holds_def hydrate_shared_membership_from_state_machine_def Let_def)
qed (use assms(3) in \<open>auto simp: member_state_wf_def save_vote_def append_to_log_def delete_conflict_logs_since_def purge_logs_upto_def
    build_snapshot_def split: sum.splits prod.splits\<close>)

lemma raft_run_wf:
  assumes "rocks_laws (rv_kv env) rows" "raft_reliable env" "raft_codec_ok (rv_codec env)"
    and "raft_rel env rows st a" and "member_state_wf st" and "list_all raft_event_ok evs" and "list_all (event_wf (rv_codec env)) evs"
  shows "member_state_wf (fst (run_raft env evs st))"
  using assms(4-)
proof (induction evs arbitrary: st a)
  case (Cons ev evs)
  have rel: "raft_rel env rows (fst (run_raft_event env ev st)) (fst (log_event (rv_codec env) ev a))"
    using raft_step [OF assms(1-3) Cons.prems(1), of ev] Cons.prems(3) by (simp add: steps_alike_def)
  have "member_state_wf (fst (run_raft_event env ev st))"
    using raft_event_wf [OF assms(1) Cons.prems(1,2), of ev] Cons.prems(4) by simp
  from Cons.IH [OF rel this] Cons.prems(3,4) show ?case by (simp add: split_def Let_def)
qed simp

lemma fresh_run:
  assumes "rocks_laws (rv_kv env) rows" and "raft_reliable env" and "raft_codec_ok (rv_codec env)"
    and "\<forall>k. rows d k = None" and "member_wf shared" and "open_raft env d shared = Inr st"
    and "list_all raft_event_ok evs" and "list_all (event_wf (rv_codec env)) evs"
  shows "raft_rel env rows (fst (run_raft env evs st)) (fst (log_run (rv_codec env) evs empty_log))"
    and "member_state_wf (fst (run_raft env evs st))"
proof -
  have disk: "disk_holds (rv_codec env) (rows d) empty_log"
    using assms(4) by (simp add: disk_holds_def empty_log_def log_rows_def)
  then have rel: "raft_rel env rows st empty_log"
    using open_holds [OF assms(1) disk, of shared] assms(6) by (simp add: raft_rel_def)
  from raft_run_rel [OF assms(1-3) rel assms(7)]
  show "raft_rel env rows (fst (run_raft env evs st)) (fst (log_run (rv_codec env) evs empty_log))" by simp
  have "rs_shared st = shared" using assms(6) by (auto simp: open_raft_def and_then_def split: sum.splits)
  moreover have "member_wf (sm_cluster_membership (rs_sm st))"
    using rel by (simp add: raft_rel_def mem_holds_def empty_log_def default_sm_def new_membership_def member_wf_def hm_wf_def hm_get_def)
  ultimately have "member_state_wf st" using assms(5) by (simp add: member_state_wf_def)
  from raft_run_wf [OF assms(1-3) rel this assms(7,8)] show "member_state_wf (fst (run_raft env evs st))" .
qed

lemma apply_one_shared:
  "rs_shared (fst (run_raft_event env (ApplyLog now [e]) st)) = rs_shared (fst (apply_entry env now e st))"
  by (simp add: apply_to_state_machine_def split_def Let_def split: sum.splits)

text \<open>
  C39. A committed membership entry makes the live membership. After any run of the consensus store
  from a fresh disk, restarts and installed snapshots included, applying the entry leaves exactly
  the nodes of the entry in the live membership, at the entry's addresses, and makes the entry
  the membership the state machine reports. A node that was known keeps the state its heartbeats
  gave it; a new one starts as active when it votes and as syncing when it learns. The writes of the
  log are taken to succeed, and the memberships that come from outside (the one a restart begins
  with, the one of an installed snapshot) hold each node once and under its own id.
\<close>

theorem membership_entry_makes_members:
  assumes "rocks_laws (rv_kv env) rows" and "raft_reliable env" and "raft_codec_ok (rv_codec env)"
    and "\<forall>k. rows d k = None" and "member_wf shared" and "open_raft env d shared = Inr st\<^sub>0"
    and "list_all raft_event_ok evs" and "list_all (event_wf (rv_codec env)) evs"
    and "st = fst (run_raft env evs st\<^sub>0)" and "st' = fst (run_raft_event env (ApplyLog now [e]) st)"
    and "en_payload e = MembershipChange mem" and "distinct (map fst (raft_nodes mem))"
  shows "(\<forall>i. hm_get (nodes (rs_shared st')) i =
      (case map_of (raft_nodes mem) i of
         None \<Rightarrow> None
       | Some address \<Rightarrow> Some (raft_member mem now i address (hm_get (nodes (rs_shared st)) i))))
    \<and> last_applied_state st' = (Some (en_log_id e), \<lparr>st_log_id = Some (en_log_id e), st_membership = mem\<rparr>)"
proof -
  have wf: "hm_wf (nodes (rs_shared st))"
    using fresh_run(2) [OF assms(1-8)] assms(9) by (simp add: member_state_wf_def member_wf_def)
  have "rs_shared st' = sync_raft_membership_to_shared now mem (rs_shared st)"
    using assms(11) unfolding assms(10) apply_one_shared by (simp add: apply_entry_def Let_def)
  moreover have "rs_sm st' = sm_entry e (rs_sm st)"
    using apply_entries_log [of env now "[e]" st] unfolding assms(10)
    by (simp add: apply_to_state_machine_def split_def Let_def split: sum.splits)
  ultimately show ?thesis
    using sync_raft_members [OF wf assms(12)] assms(11) by (simp add: last_applied_state_def sm_entry_def)
qed

definition demo_members_entry :: "nat raft_entry" where
  "demo_members_entry = \<lparr>en_log_id = demo_log_id 1, en_payload = MembershipChange
     \<lparr>joint_config = [[1, 2]], raft_nodes = [(1, ''a''), (2, ''b'')]\<rparr>\<rparr>"


lemma new_membership_wf: "member_wf new_membership"
  by (simp add: member_wf_def new_membership_def hm_wf_def hm_get_def)

theorem membership_entry_makes_members_witness:
  "map_option node_state (hm_get (nodes (rs_shared (fst (run_raft_event demo_raft_env (ApplyLog 5 [demo_members_entry])
     (fst (run_raft demo_raft_env [ReopenLog 3 new_membership] demo_raft_store)))))) 2) = Some Active"
proof -
  let ?st = "fst (run_raft demo_raft_env [ReopenLog 3 new_membership] demo_raft_store)"
  have "rs_shared ?st = new_membership"
    using demo_raft_open
    by (simp add: reopen_def hydrate_shared_membership_from_state_machine_def demo_raft_store_def default_sm_def new_membership_def Let_def)
  moreover have "distinct (map fst [(1 :: u64, ''a''), (2, ''b'')])" by simp
  ultimately show ?thesis
    using membership_entry_makes_members [OF demo_raft_laws(1,3) demo_raft_codec _ new_membership_wf demo_raft_open
        _ _ refl refl, of "[ReopenLog 3 new_membership]" demo_members_entry
        "\<lparr>joint_config = [[1, 2]], raft_nodes = [(1, ''a''), (2, ''b'')]\<rparr>" 5] new_membership_wf
    by (simp add: demo_members_entry_def raft_member_def new_membership_def hm_get_def voter_ids_def)
qed

section \<open>What a restart and a snapshot leave out\<close>






lemma snapshot_transfer:
  assumes laws: "rocks_laws (rv_kv env) rows" "raft_reliable env" and c: "raft_codec_ok (rv_codec env)"
    and last: "last_applied_log (rs_sm lead) = Some i"
  shows "\<exists>snap. snd (build_snapshot env lead) = Inr snap
    \<and> rs_sm (fst (install_snapshot env (ss_meta snap) (ss_data snap) follow)) = rs_sm lead
    \<and> rs_last_purged (fst (install_snapshot env (ss_meta snap) (ss_data snap) follow)) = Some i
    \<and> rs_shard_map (fst (install_snapshot env (ss_meta snap) (ss_data snap) follow)) = rs_shard_map follow"
proof -
  from c obtain b1 b3 where b1: "fst (rc_sm (rv_codec env)) (rs_sm lead) = Inr b1" "snd (rc_sm (rv_codec env)) b1 = Inr (rs_sm lead)"
    and b3: "fst (rc_log_id (rv_codec env)) i = Inr b3"
    using json_codecE unfolding raft_codec_ok_def by metis
  obtain snap where snap: "snapshot_of (rv_codec env) (rs_sm lead) = Inr snap" "ss_data snap = b1" "sn_last_log_id (ss_meta snap) = Some i"
    by (simp add: snapshot_of_def and_then_def b1 last)
  from c obtain b2 where b2: "fst (rc_snapshot (rv_codec env)) snap = Inr b2"
    using json_codecE unfolding raft_codec_ok_def by metis
  obtain d' where d': "rdb_write (rv_kv env) (rs_db lead) [Put KEY_SNAPSHOT b2] = (d', Inr ())"
    using sync_write_ok [OF laws] by metis
  let ?ops = "[Put KEY_SM_DATA b1, Put KEY_SNAPSHOT b2]
      @ [Put KEY_LAST_PURGED b3, DeleteRange (LogsCf (to_be_bytes 0)) (LogsCf (to_be_bytes (li_index i + 1)))]"
  obtain d'' where d'': "sync_write env (rs_db follow) ?ops = (d'', Inr ())" using sync_write_ok [OF laws] by metis
  have "snap = \<lparr>ss_meta = ss_meta snap, ss_data = b1\<rparr>" using snap(2) by simp
  with b2 have "fst (rc_snapshot (rv_codec env)) \<lparr>ss_meta = ss_meta snap, ss_data = b1\<rparr> = Inr b2" by simp
  with d'' have "install_snapshot env (ss_meta snap) b1 follow =
      (follow\<lparr>rs_db := d'', rs_sm := rs_sm lead, rs_last_purged := Some i,
          rs_shared := merge_snapshot_membership (rs_shared follow) (sm_cluster_membership (rs_sm lead))\<rparr>, Inr ())"
    by (simp add: install_snapshot_def and_then_def b1 b3 encode_purged_def snap(3))
  moreover have "snd (build_snapshot env lead) = Inr snap"
    by (simp add: build_snapshot_def serialize_snapshot_def snap(1) b2 d')
  ultimately show ?thesis using snap(2) by auto
qed

text \<open>
  A snapshot carries the position of the log and the members, not what the log did: a node that is
  brought up to date by a snapshot has the leader's last applied entry and not the leader's shard map,
  and the entries that made it are purged.
\<close>

theorem snapshot_skips_shard_operations:
  "let lead = fst (run_raft demo_raft_env [ApplyLog 5 [demo_boot_entry]] demo_node_store)
   in \<exists>snap. snd (build_snapshot demo_raft_env lead) = Inr snap
      \<and> (let follow = fst (install_snapshot demo_raft_env (ss_meta snap) (ss_data snap) demo_node_store)
         in fst (last_applied_state follow) = Some (demo_log_id 1) \<and> rs_last_purged follow = Some (demo_log_id 1)
            \<and> map_option ss_cache (rs_shard_map lead) = Some demo_map
            \<and> map_option ss_cache (rs_shard_map follow) = Some default_shard_map)"
proof -
  obtain lead where lead: "fst (run_raft demo_raft_env [ApplyLog 5 [demo_boot_entry]] demo_node_store) = lead" by blast
  then have lead': "rs_sm lead = rs_sm (fst (apply_entries demo_raft_env 5 [demo_boot_entry] demo_node_store))"
    "rs_shard_map lead = rs_shard_map (fst (apply_entries demo_raft_env 5 [demo_boot_entry] demo_node_store))"
    by (auto simp: apply_to_state_machine_def split_def Let_def split: sum.splits)
  have last: "last_applied_log (rs_sm lead) = Some (demo_log_id 1)"
    using lead'(1) apply_entries_log [of demo_raft_env 5 "[demo_boot_entry]" demo_node_store]
    by (simp add: sm_entry_def demo_boot_entry_def)
  have "ss_cache (fst (apply_op list_kv row_codec demo_op empty_store)) = demo_map" by code_simp
  then have map: "map_option ss_cache (rs_shard_map lead) = Some demo_map"
    unfolding lead'(2)
    by (auto simp: apply_entry_def demo_boot_entry_def demo_node_store_def apply_request_def raft_apply_op_def Let_def demo_raft_env_def
        split: prod.splits sum.splits)
  from snapshot_transfer [OF demo_raft_laws(1,3) demo_raft_codec last, of demo_node_store] show ?thesis
    using last map unfolding lead by (auto simp: last_applied_state_def demo_node_store_def empty_store_def Let_def)
qed

end
