(* ===== verification/Retention.thy ===== *)
theory Retention
  imports HB_Prelude
begin

text \<open>
  Databases and their retention policies (\<open>domain/database.rs\<close>), with the durations of the query
  language (\<open>timeseriesql/ast.rs\<close>, \<open>timeseriesql/lexer.rs\<close>) that create and replicate them. A
  \<open>std::time::Duration\<close> is its number of nanoseconds, an \<open>i64\<close> an integer with the saturation and
  the casts of the code written out.
\<close>

section \<open>Durations\<close>

datatype duration_unit = Nanosecond | Microsecond | Millisecond | Second | Minute | Hour | Day | Week

record ast_duration =
  dur_value :: int
  dur_unit :: duration_unit

definition i64_saturate :: "int \<Rightarrow> int" where
  "i64_saturate x = max (- (2 ^ 63)) (min (2 ^ 63 - 1) x)"

definition as_i64 :: "nat \<Rightarrow> int" where
  "as_i64 n = (let r = int (n mod 2 ^ 64) in if 2 ^ 63 \<le> r then r - 2 ^ 64 else r)"

definition as_u64 :: "int \<Rightarrow> nat" where
  "as_u64 i = nat (i mod 2 ^ 64)"

fun per_unit :: "duration_unit \<Rightarrow> int" where
  "per_unit Nanosecond = 1"
| "per_unit Microsecond = 1000"
| "per_unit Millisecond = 1000000"
| "per_unit Second = 1000000000"
| "per_unit Minute = 60 * 1000000000"
| "per_unit Hour = 3600 * 1000000000"
| "per_unit Day = 86400 * 1000000000"
| "per_unit Week = 7 * 86400 * 1000000000"

definition to_nanos :: "ast_duration \<Rightarrow> int" where
  "to_nanos d = i64_saturate (dur_value d * per_unit (dur_unit d))"

definition nanos_to_ast_duration :: "int \<Rightarrow> ast_duration" where
  "nanos_to_ast_duration n =
     (if n mod per_unit Week = 0 then \<lparr>dur_value = n div per_unit Week, dur_unit = Week\<rparr>
      else if n mod per_unit Day = 0 then \<lparr>dur_value = n div per_unit Day, dur_unit = Day\<rparr>
      else if n mod per_unit Hour = 0 then \<lparr>dur_value = n div per_unit Hour, dur_unit = Hour\<rparr>
      else if n mod per_unit Minute = 0 then \<lparr>dur_value = n div per_unit Minute, dur_unit = Minute\<rparr>
      else if n mod per_unit Second = 0 then \<lparr>dur_value = n div per_unit Second, dur_unit = Second\<rparr>
      else \<lparr>dur_value = n, dur_unit = Nanosecond\<rparr>)"

section \<open>Policies and databases\<close>

record retention_policy =
  rp_name :: string
  rp_duration :: "nat option"
  shard_group_duration :: nat
  replication_factor :: u32
  is_default :: bool

record database =
  db_name :: string
  retention_policies :: "retention_policy list"
  default_rp :: string

abbreviation nanos_per_sec :: nat where
  "nanos_per_sec \<equiv> 1000000000"

definition derive_shard_group_duration :: "nat option \<Rightarrow> nat" where
  "derive_shard_group_duration d =
     (case d of
        None \<Rightarrow> 7 * 86400 * nanos_per_sec
      | Some n \<Rightarrow>
          (let secs = n div nanos_per_sec
           in if secs < 2 * 86400 then 3600 * nanos_per_sec
              else if secs < 180 * 86400 then 86400 * nanos_per_sec
              else 7 * 86400 * nanos_per_sec))"

definition autogen :: retention_policy where
  "autogen = \<lparr>rp_name = ''autogen'', rp_duration = None, shard_group_duration = derive_shard_group_duration None,
     replication_factor = 1, is_default = True\<rparr>"

definition new_database :: "string \<Rightarrow> database" where
  "new_database name = \<lparr>db_name = name, retention_policies = [autogen], default_rp = rp_name autogen\<rparr>"

record create_database_statement =
  cs_name :: string
  cs_duration :: "ast_duration option"
  cs_replication :: "u32 option"
  cs_shard_duration :: "ast_duration option"
  cs_rp_name :: "string option"

definition std_duration :: "ast_duration option \<Rightarrow> nat option" where
  "std_duration d =
     (case d of
        None \<Rightarrow> None
      | Some d \<Rightarrow> if dur_value d = 0 \<and> dur_unit d = Second then None else Some (as_u64 (to_nanos d)))"

definition retention_policy_from_create :: "create_database_statement \<Rightarrow> retention_policy option" where
  "retention_policy_from_create stmt =
     (if cs_duration stmt = None \<and> cs_replication stmt = None \<and> cs_shard_duration stmt = None \<and> cs_rp_name stmt = None then None
      else
        let duration = std_duration (cs_duration stmt);
            shard = (case cs_shard_duration stmt of
                       Some d \<Rightarrow> as_u64 (to_nanos d) | None \<Rightarrow> derive_shard_group_duration duration)
        in Some \<lparr>rp_name = (case cs_rp_name stmt of Some n \<Rightarrow> n | None \<Rightarrow> ''autogen''), rp_duration = duration,
             shard_group_duration = shard,
             replication_factor = (case cs_replication stmt of Some r \<Rightarrow> r | None \<Rightarrow> 1), is_default = True\<rparr>)"

definition ast_duration_from_std :: "nat \<Rightarrow> ast_duration" where
  "ast_duration_from_std d = nanos_to_ast_duration (as_i64 d)"

definition create_database_statement_from_rp :: "string \<Rightarrow> retention_policy \<Rightarrow> create_database_statement" where
  "create_database_statement_from_rp name rp =
     \<lparr>cs_name = name,
      cs_duration = (case rp_duration rp of
         None \<Rightarrow> Some \<lparr>dur_value = 0, dur_unit = Second\<rparr> | Some d \<Rightarrow> Some (ast_duration_from_std d)),
      cs_replication = Some (replication_factor rp),
      cs_shard_duration = Some (ast_duration_from_std (shard_group_duration rp)),
      cs_rp_name = Some (rp_name rp)\<rparr>"

section \<open>Stored durations\<close>

text \<open>The serde modules of a policy write whole seconds.\<close>

definition whole_seconds :: "nat \<Rightarrow> nat" where
  "whole_seconds d = d div nanos_per_sec * nanos_per_sec"

definition stored_policy :: "retention_policy \<Rightarrow> retention_policy" where
  "stored_policy rp =
     rp\<lparr>rp_duration := map_option whole_seconds (rp_duration rp), shard_group_duration := whole_seconds (shard_group_duration rp)\<rparr>"

definition stored_database :: "database \<Rightarrow> database" where
  "stored_database d = d\<lparr>retention_policies := map stored_policy (retention_policies d)\<rparr>"

lemma whole_seconds_idem [simp]: "whole_seconds (whole_seconds d) = whole_seconds d"
  by (simp add: whole_seconds_def)

lemma stored_policy_idem [simp]: "stored_policy (stored_policy rp) = stored_policy rp"
  by (simp add: stored_policy_def option.map_comp comp_def)

lemma stored_database_idem [simp]: "stored_database (stored_database d) = stored_database d"
  by (simp add: stored_database_def)

section \<open>The text of durations\<close>

datatype precision = PNanosecond | PMicrosecond | PMillisecond | PSecond

definition precision_from_str :: "string option \<Rightarrow> precision" where
  "precision_from_str s =
     (case s of
        None \<Rightarrow> PNanosecond
      | Some t \<Rightarrow>
          if t = ''us'' \<or> t = ''u'' then PMicrosecond
          else if t = ''ms'' then PMillisecond
          else if t = ''s'' then PSecond
          else PNanosecond)"

fun precision_unit :: "precision \<Rightarrow> int" where
  "precision_unit PNanosecond = 1"
| "precision_unit PMicrosecond = 1000"
| "precision_unit PMillisecond = 1000000"
| "precision_unit PSecond = 1000000000"

definition precision_to_nanos :: "precision \<Rightarrow> int \<Rightarrow> int" where
  "precision_to_nanos p ts = (if p = PNanosecond then ts else i64_saturate (ts * precision_unit p))"

text \<open>Rust divides towards zero.\<close>

definition i64_div :: "int \<Rightarrow> int \<Rightarrow> int" where
  "i64_div a b = sgn a * (\<bar>a\<bar> div b)"

definition precision_from_nanos :: "precision \<Rightarrow> int \<Rightarrow> int" where
  "precision_from_nanos p n = (if p = PNanosecond then n else i64_div n (precision_unit p))"

section \<open>Properties\<close>

lemma as_i64_small: "n < 2 ^ 63 \<Longrightarrow> as_i64 n = int n"
  by (simp add: as_i64_def Let_def)

lemma per_unit_pos: "0 < per_unit u"
  by (cases u) simp_all

lemma nanos_to_ast_exact: "dur_value (nanos_to_ast_duration n) * per_unit (dur_unit (nanos_to_ast_duration n)) = n"
  by (simp add: nanos_to_ast_duration_def mod_eq_0_iff_dvd del: per_unit.simps) simp

lemma ast_duration_roundtrip:
  assumes "d < 2 ^ 63"
  shows "as_u64 (to_nanos (ast_duration_from_std d)) = d"
  using assms nanos_to_ast_exact [of "as_i64 d"]
  by (simp add: ast_duration_from_std_def to_nanos_def as_i64_small i64_saturate_def as_u64_def)

lemma zero_seconds_only_for_none:
  assumes "d < 2 ^ 63"
  shows "std_duration (Some (ast_duration_from_std d)) = Some d"
proof -
  have "\<not> (dur_value (ast_duration_from_std d) = 0 \<and> dur_unit (ast_duration_from_std d) = Second)"
  proof
    assume zero: "dur_value (ast_duration_from_std d) = 0 \<and> dur_unit (ast_duration_from_std d) = Second"
    then have "as_i64 d = 0" using nanos_to_ast_exact [of "as_i64 d"] by (simp add: ast_duration_from_std_def)
    with zero show False by (simp add: ast_duration_from_std_def nanos_to_ast_duration_def)
  qed
  then show ?thesis using ast_duration_roundtrip [OF assms] by (simp add: std_duration_def)
qed

text \<open>
  C40. A retention policy replicated as the statement that creates it comes back as it was, as the
  default policy of its database: whatever unit its durations are written in, and a policy that keeps
  its data for ever stays one. The durations are below 2^63 nanoseconds, some 292 years.
\<close>

theorem replicated_policy_roundtrip:
  assumes "shard_group_duration rp < 2 ^ 63" and "\<forall>d. rp_duration rp = Some d \<longrightarrow> d < 2 ^ 63"
  shows "retention_policy_from_create (create_database_statement_from_rp name rp) = Some (rp\<lparr>is_default := True\<rparr>)"
proof -
  have "std_duration (cs_duration (create_database_statement_from_rp name rp)) = rp_duration rp"
    using assms(2) zero_seconds_only_for_none
    by (cases "rp_duration rp") (simp_all add: create_database_statement_from_rp_def std_duration_def)
  then show ?thesis
    using ast_duration_roundtrip [OF assms(1)]
    by (simp add: retention_policy_from_create_def create_database_statement_from_rp_def Let_def)
qed

definition month_policy :: retention_policy where
  "month_policy = \<lparr>rp_name = ''month'', rp_duration = Some (30 * 86400 * nanos_per_sec),
     shard_group_duration = 86400 * nanos_per_sec, replication_factor = 2, is_default = False\<rparr>"

theorem replicated_policy_roundtrip_witness:
  "retention_policy_from_create (create_database_statement_from_rp ''db'' month_policy) = Some (month_policy\<lparr>is_default := True\<rparr>)"
  using replicated_policy_roundtrip [of month_policy "''db''"] by (simp add: month_policy_def)

text \<open>A timestamp survives its conversion to nanoseconds and back unless the conversion saturates.\<close>

theorem precision_roundtrip:
  assumes "- (2 ^ 63) \<le> ts * precision_unit p" and "ts * precision_unit p < 2 ^ 63"
  shows "precision_from_nanos p (precision_to_nanos p ts) = ts"
proof (cases "p = PNanosecond")
  case False
  have pos: "0 < precision_unit p" by (cases p) simp_all
  have "precision_to_nanos p ts = ts * precision_unit p"
    using assms False by (simp add: precision_to_nanos_def i64_saturate_def)
  then show ?thesis using pos False
    by (simp add: precision_from_nanos_def i64_div_def abs_mult sgn_mult mult_sgn_abs)
qed (simp add: precision_from_nanos_def precision_to_nanos_def)

theorem precision_roundtrip_witness: "precision_from_nanos PMillisecond (precision_to_nanos PMillisecond (- 1500)) = - 1500"
  using precision_roundtrip [of "- 1500" PMillisecond] by simp

end
