(* ===== verification/Series_Index.thy ===== *)
theory Series_Index
  imports Byte_Codec Kv_Store Hinted_Handoff
begin

text \<open>
  The keys of series and tag values in the metadata store and the in-memory index of the series
  (\<open>SeriesIndex\<close> of \<open>adapters/metadata/rocksdb_meta.rs\<close>): the storage keys of the series and how many
  each measurement has, kept in step by every insertion, removal and reload. The numbers are for
  \<open>SHOW SERIES CARDINALITY\<close> and for the split decisions of the shard scheduler.
\<close>

section \<open>Keys\<close>

fun splitn :: "nat \<Rightarrow> char \<Rightarrow> string \<Rightarrow> string list" where
  "splitn 0 c s = []"
| "splitn (Suc 0) c s = [s]"
| "splitn (Suc (Suc n)) c s =
     (case dropWhile (\<lambda>x. x \<noteq> c) s of
        [] \<Rightarrow> [takeWhile (\<lambda>x. x \<noteq> c) s]
      | _ # rest \<Rightarrow> takeWhile (\<lambda>x. x \<noteq> c) s # splitn (Suc n) c rest)"

definition strip_prefix :: "string \<Rightarrow> string \<Rightarrow> string option" where
  "strip_prefix p s = (if starts_with s p then Some (drop (length p) s) else None)"

definition series_prefix :: "string \<Rightarrow> string \<Rightarrow> string \<Rightarrow> string" where
  "series_prefix d r mm = ''series:'' @ d @ '':'' @ r @ '':'' @ mm @ '':''"

definition series_storage_key :: "string \<Rightarrow> string \<Rightarrow> string \<Rightarrow> u64 \<Rightarrow> string" where
  "series_storage_key d r mm i = ''series:'' @ d @ '':'' @ r @ '':'' @ mm @ '':'' @ hex16 i"

definition parse_series_storage_key :: "string \<Rightarrow> (string \<times> string \<times> string \<times> u64) option" where
  "parse_series_storage_key key =
     (case strip_prefix ''series:'' key of
        None \<Rightarrow> None
      | Some rest \<Rightarrow>
          (case splitn 4 CHR '':'' rest of
             [d, r, mm, i] \<Rightarrow> (case from_str_radix 16 i of Some n \<Rightarrow> Some (d, r, mm, n) | None \<Rightarrow> None)
           | _ \<Rightarrow> None))"

definition tag_val_prefix :: "string \<Rightarrow> string \<Rightarrow> string option \<Rightarrow> string" where
  "tag_val_prefix d r meas =
     (case meas of
        Some mm \<Rightarrow> ''tag_val:'' @ d @ '':'' @ r @ '':'' @ mm @ '':''
      | None \<Rightarrow> ''tag_val:'' @ d @ '':'' @ r @ '':'')"

definition tag_val_storage_key :: "string \<Rightarrow> string \<Rightarrow> string \<Rightarrow> string \<Rightarrow> string \<Rightarrow> string" where
  "tag_val_storage_key d r mm k v = ''tag_val:'' @ d @ '':'' @ r @ '':'' @ mm @ '':'' @ k @ '':'' @ v"

definition tag_count_cache_key :: "string \<Rightarrow> string \<Rightarrow> string \<Rightarrow> string \<Rightarrow> string" where
  "tag_count_cache_key d r mm k = d @ '':'' @ r @ '':'' @ mm @ '':'' @ k"

definition parse_tag_val_storage_key :: "string \<Rightarrow> (string \<times> string \<times> string \<times> string) option" where
  "parse_tag_val_storage_key key =
     (case strip_prefix ''tag_val:'' key of
        None \<Rightarrow> None
      | Some rest \<Rightarrow>
          (case splitn 5 CHR '':'' rest of [d, r, mm, k, v] \<Rightarrow> Some (d, r, mm, k) | _ \<Rightarrow> None))"

section \<open>The index\<close>

text \<open>A \<open>HashSet\<close> is a list without repetition.\<close>

record series_index =
  si_keys :: "string list"
  si_counts :: "(string, u64) hash_map"

definition empty_index :: series_index where
  "empty_index = \<lparr>si_keys = [], si_counts = []\<rparr>"

definition prefix_of :: "string \<Rightarrow> string" where
  "prefix_of key = (if CHR '':'' \<in> set key then rev (dropWhile (\<lambda>c. c \<noteq> CHR '':'') (rev key)) else key)"

definition ix_contains :: "series_index \<Rightarrow> string \<Rightarrow> bool" where
  "ix_contains ix key = (key \<in> set (si_keys ix))"

definition increment :: "string \<Rightarrow> (string, u64) hash_map \<Rightarrow> (string, u64) hash_map" where
  "increment p counts = hm_insert p ((case hm_get counts p of Some n \<Rightarrow> n | None \<Rightarrow> 0) + 1) counts"

definition decrement :: "string \<Rightarrow> (string, u64) hash_map \<Rightarrow> (string, u64) hash_map" where
  "decrement p counts =
     (case hm_get counts p of
        None \<Rightarrow> counts
      | Some n \<Rightarrow>
          (let n = saturating_sub n 1
           in if n = 0 then hm_remove p counts else hm_insert p n counts))"

definition ix_insert :: "string \<Rightarrow> series_index \<Rightarrow> series_index \<times> bool" where
  "ix_insert key ix =
     (if key \<in> set (si_keys ix) then (ix, False)
      else (\<lparr>si_keys = key # si_keys ix, si_counts = increment (prefix_of key) (si_counts ix)\<rparr>, True))"

definition ix_remove :: "string \<Rightarrow> series_index \<Rightarrow> series_index \<times> bool" where
  "ix_remove key ix =
     (if key \<in> set (si_keys ix)
      then (\<lparr>si_keys = filter (\<lambda>k. k \<noteq> key) (si_keys ix), si_counts = decrement (prefix_of key) (si_counts ix)\<rparr>, True)
      else (ix, False))"

definition ix_retain :: "(string \<Rightarrow> bool) \<Rightarrow> series_index \<Rightarrow> series_index" where
  "ix_retain keep ix =
     \<lparr>si_keys = filter keep (si_keys ix),
      si_counts = fold (\<lambda>k counts. if keep k then counts else decrement (prefix_of k) counts) (si_keys ix) (si_counts ix)\<rparr>"

definition ix_replace :: "string list \<Rightarrow> series_index" where
  "ix_replace keys =
     (let keys = remdups keys
      in \<lparr>si_keys = keys, si_counts = fold (\<lambda>k. increment (prefix_of k)) keys []\<rparr>)"

definition ix_count :: "series_index \<Rightarrow> string \<Rightarrow> u64" where
  "ix_count ix p = (case hm_get (si_counts ix) p of Some n \<Rightarrow> n | None \<Rightarrow> 0)"

section \<open>Counts and keys agree\<close>

abbreviation with_prefix :: "string list \<Rightarrow> string \<Rightarrow> nat" where
  "with_prefix keys p \<equiv> length (filter (\<lambda>k. prefix_of k = p) keys)"

definition counts_of :: "string list \<Rightarrow> (string, u64) hash_map \<Rightarrow> bool" where
  "counts_of keys counts \<longleftrightarrow> hm_wf counts \<and>
     (\<forall>p. hm_get counts p = (if with_prefix keys p = 0 then None else Some (word_of_nat (with_prefix keys p))))"

definition ix_ok :: "series_index \<Rightarrow> bool" where
  "ix_ok ix \<longleftrightarrow> distinct (si_keys ix) \<and> length (si_keys ix) < 2 ^ 64 \<and> counts_of (si_keys ix) (si_counts ix)"

lemma counts_increment: "counts_of keys counts \<Longrightarrow> counts_of (key # keys) (increment (prefix_of key) counts)"
  by (auto simp: counts_of_def increment_def hm.get_ins hm.wf_ins)

lemma counts_mset: "mset keys = mset keys' \<Longrightarrow> counts_of keys counts = counts_of keys' counts"
proof -
  assume "mset keys = mset keys'"
  then have "with_prefix keys p = with_prefix keys' p" for p by (metis mset_filter size_mset)
  then show ?thesis by (simp only: counts_of_def)
qed

lemma counts_decrement:
  assumes "counts_of (key # keys) counts" and "length keys < 2 ^ 64 - 1"
  shows "counts_of keys (decrement (prefix_of key) counts)"
proof -
  let ?n = "with_prefix keys (prefix_of key)"
  have n: "?n < 2 ^ 64 - 1" using assms(2) length_filter_le [of "\<lambda>k. prefix_of k = prefix_of key" keys] by linarith
  have get: "hm_get counts (prefix_of key) = Some (word_of_nat (Suc ?n))" and wf: "hm_wf counts"
    using assms(1) by (simp_all add: counts_of_def)
  have un: "unat (word_of_nat (Suc ?n) :: u64) = Suc ?n" using n by (intro unat_of_nat_small) linarith
  then have sub: "saturating_sub (word_of_nat (Suc ?n) :: u64) 1 = word_of_nat ?n"
    by (simp add: saturating_sub_def word_le_nat_alt)
  have "unat (word_of_nat ?n :: u64) = ?n" using n by (intro unat_of_nat_small) linarith
  then have zero: "word_of_nat ?n = (0 :: u64) \<longleftrightarrow> ?n = 0" by (auto simp: unat_eq_0 [symmetric])
  show ?thesis
    using assms(1) get sub zero wf
    by (auto simp: counts_of_def decrement_def Let_def hm.get_ins hm.wf_ins hm.get_rem hm.wf_rem)
qed

lemma counts_retain:
  assumes "counts_of (ys @ zs) counts" and "length (ys @ zs) < 2 ^ 64"
  shows "counts_of (filter keep ys @ zs) (fold (\<lambda>k counts. if keep k then counts else decrement (prefix_of k) counts) ys counts)"
  using assms
proof (induction ys arbitrary: zs counts)
  case (Cons y ys)
  show ?case
  proof (cases "keep y")
    case True
    have "counts_of (ys @ y # zs) counts" using Cons.prems(1) counts_mset [of "(y # ys) @ zs" "ys @ y # zs"] by simp
    from Cons.IH [OF this] Cons.prems(2) have "counts_of (filter keep ys @ y # zs)
        (fold (\<lambda>k counts. if keep k then counts else decrement (prefix_of k) counts) ys counts)" by simp
    then show ?thesis using True counts_mset [of "filter keep ys @ y # zs" "filter keep (y # ys) @ zs"] by simp
  next
    case False
    have "counts_of (ys @ zs) (decrement (prefix_of y) counts)"
      by (rule counts_decrement) (use Cons.prems in simp_all)
    from Cons.IH [OF this] Cons.prems(2) False show ?thesis by simp
  qed
qed simp

lemma counts_replace: "counts_of (rev keys @ zs) (fold (\<lambda>k. increment (prefix_of k)) keys counts)" if "counts_of zs counts"
  using that
proof (induction keys arbitrary: zs counts)
  case (Cons k keys)
  from Cons.IH [OF counts_increment [OF Cons.prems]] show ?case by simp
qed simp

lemma ix_ok_empty: "ix_ok empty_index"
  by (simp add: ix_ok_def empty_index_def counts_of_def hm_wf_def hm_get_def)

lemma ix_ok_insert:
  assumes "ix_ok ix" and "length (si_keys ix) < 2 ^ 64 - 1"
  shows "ix_ok (fst (ix_insert key ix))"
  using assms counts_increment by (auto simp: ix_insert_def ix_ok_def)

lemma ix_ok_remove:
  assumes "ix_ok ix"
  shows "ix_ok (fst (ix_remove key ix))"
proof (cases "key \<in> set (si_keys ix)")
  case True
  have dist: "distinct (si_keys ix)" and len: "length (si_keys ix) < 2 ^ 64" and counts: "counts_of (si_keys ix) (si_counts ix)"
    using assms by (simp_all add: ix_ok_def)
  have eq: "mset (si_keys ix) = mset (key # filter (\<lambda>k. k \<noteq> key) (si_keys ix))"
  proof -
    have "filter (\<lambda>k. k \<noteq> key) (si_keys ix) = remove1 key (si_keys ix)"
      using dist by (simp add: distinct_remove1_removeAll removeAll_filter_not_eq) (metis (mono_tags, lifting) filter_cong)
    then show ?thesis using True by simp
  qed
  then have l: "length (si_keys ix) = Suc (length (filter (\<lambda>k. k \<noteq> key) (si_keys ix)))"
    by (metis length_Cons size_mset)
  have "counts_of (filter (\<lambda>k. k \<noteq> key) (si_keys ix)) (decrement (prefix_of key) (si_counts ix))"
    by (rule counts_decrement) (use counts counts_mset [OF eq] l len in auto)
  then show ?thesis using True dist len l by (simp add: ix_remove_def ix_ok_def)
qed (use assms in \<open>simp add: ix_remove_def\<close>)

lemma ix_ok_retain:
  assumes "ix_ok ix"
  shows "ix_ok (ix_retain keep ix)"
proof -
  have "length (filter keep (si_keys ix)) < 2 ^ 64"
    using assms length_filter_le [of keep "si_keys ix"] unfolding ix_ok_def by linarith
  then show ?thesis
    using assms counts_retain [of "si_keys ix" "[]" "si_counts ix" keep] by (simp add: ix_retain_def ix_ok_def)
qed

lemma ix_ok_replace:
  assumes "length keys < 2 ^ 64"
  shows "ix_ok (ix_replace keys)"
proof -
  have "counts_of [] []" by (simp add: counts_of_def hm_wf_def hm_get_def)
  then have "counts_of (remdups keys) (fold (\<lambda>k. increment (prefix_of k)) (remdups keys) [])"
    using counts_replace [of "[]" "[]" "remdups keys"] counts_mset [of "rev (remdups keys)" "remdups keys"] by simp
  moreover have "length (remdups keys) < 2 ^ 64" using assms length_remdups_leq [of keys] by linarith
  ultimately show ?thesis by (simp add: ix_replace_def ix_ok_def Let_def)
qed

lemma ix_count_exact:
  assumes "ix_ok ix"
  shows "unat (ix_count ix p) = card {k \<in> set (si_keys ix). prefix_of k = p}"
proof -
  have "with_prefix (si_keys ix) p < 2 ^ 64"
    using assms length_filter_le [of "\<lambda>k. prefix_of k = p" "si_keys ix"] unfolding ix_ok_def by linarith
  then have "unat (ix_count ix p) = with_prefix (si_keys ix) p"
    using assms by (simp add: ix_ok_def counts_of_def ix_count_def unat_of_nat_small del: unsigned_of_nat)
  also have "\<dots> = card {k \<in> set (si_keys ix). prefix_of k = p}"
    using assms by (simp add: ix_ok_def distinct_length_filter Collect_conj_eq Int_commute inf_set_def)
  finally show ?thesis .
qed

section \<open>Keys of the index\<close>

text \<open>Names without the separator: the keys of different measurements are told apart by them.\<close>

definition plain_name :: "string \<Rightarrow> bool" where
  "plain_name s \<longleftrightarrow> CHR '':'' \<notin> set s"

lemma series_storage_key_prefix: "series_storage_key d r mm i = series_prefix d r mm @ hex16 i"
  by (simp add: series_storage_key_def series_prefix_def)

lemma hex16_no_colon: "CHR '':'' \<notin> set (hex16 i)"
  using hex16_chars(1) by blast

lemma split_at_colon:
  "CHR '':'' \<notin> set a \<Longrightarrow> dropWhile (\<lambda>c. c \<noteq> CHR '':'') (a @ CHR '':'' # b) = CHR '':'' # b"
  "CHR '':'' \<notin> set a \<Longrightarrow> takeWhile (\<lambda>c. c \<noteq> CHR '':'') (a @ CHR '':'' # b) = a"
  by (induction a) auto

lemma prefix_of_series [simp]: "prefix_of (series_storage_key d r mm i) = series_prefix d r mm"
proof -
  have "dropWhile (\<lambda>c. c \<noteq> CHR '':'') (rev (series_storage_key d r mm i)) = rev (series_prefix d r mm)"
    using hex16_no_colon [of i] by (simp add: series_storage_key_prefix series_prefix_def split_at_colon)
  then show ?thesis by (simp add: prefix_of_def) (simp add: series_storage_key_def)
qed

lemma splitn_plain: "plain_name a \<Longrightarrow> splitn (Suc (Suc n)) CHR '':'' (a @ CHR '':'' # b) = a # splitn (Suc n) CHR '':'' b"
  by (simp add: plain_name_def split_at_colon)

lemma parse_series_key:
  assumes "plain_name d" "plain_name r" "plain_name mm"
  shows "parse_series_storage_key (series_storage_key d r mm i) = Some (d, r, mm, i)"
proof -
  have "splitn 4 CHR '':'' (d @ CHR '':'' # r @ CHR '':'' # mm @ CHR '':'' # hex16 i) = [d, r, mm, hex16 i]"
    using assms by (simp add: splitn_plain numeral_eq_Suc del: splitn.simps(3))
  then show ?thesis
    by (simp add: parse_series_storage_key_def strip_prefix_def series_storage_key_def starts_with_def)
qed

lemma parse_tag_key:
  assumes "plain_name d" "plain_name r" "plain_name mm" "plain_name k"
  shows "parse_tag_val_storage_key (tag_val_storage_key d r mm k v) = Some (d, r, mm, k)"
proof -
  have "splitn 5 CHR '':'' (d @ CHR '':'' # r @ CHR '':'' # mm @ CHR '':'' # k @ CHR '':'' # v) = [d, r, mm, k, v]"
    using assms by (simp add: splitn_plain numeral_eq_Suc del: splitn.simps(3))
  then show ?thesis
    by (simp add: parse_tag_val_storage_key_def strip_prefix_def tag_val_storage_key_def starts_with_def)
qed

lemma append_plain_inj:
  assumes "plain_name a" "plain_name a'" "a @ CHR '':'' # b = a' @ CHR '':'' # b'"
  shows "a = a' \<and> b = b'"
proof -
  have "takeWhile (\<lambda>x. x \<noteq> CHR '':'') (a @ CHR '':'' # b) = a" "takeWhile (\<lambda>x. x \<noteq> CHR '':'') (a' @ CHR '':'' # b') = a'"
    using assms(1,2) by (simp_all add: plain_name_def split_at_colon)
  with assms(3) show ?thesis by simp
qed

lemma series_prefix_inj:
  assumes "plain_name d" "plain_name r" "plain_name mm" "plain_name d'" "plain_name r'" "plain_name mm'"
    and "series_prefix d r mm = series_prefix d' r' mm'"
  shows "d = d' \<and> r = r' \<and> mm = mm'"
proof -
  from assms(7) have "d @ CHR '':'' # r @ CHR '':'' # mm @ '':'' = d' @ CHR '':'' # r' @ CHR '':'' # mm' @ '':''"
    by (simp add: series_prefix_def)
  from append_plain_inj [OF assms(1,4) this] have "d = d'" "r @ CHR '':'' # mm @ '':'' = r' @ CHR '':'' # mm' @ '':''" by auto
  with append_plain_inj [OF assms(2,5) this(2)] show ?thesis by simp
qed

lemma series_key_less [simp]: "series_storage_key d r mm i < series_storage_key d r mm j \<longleftrightarrow> i < j"
  by (simp add: series_storage_key_prefix)

end
