(* ===== verification/Metadata_Store.thy ===== *)
theory Metadata_Store
  imports Retention Series_Index Points_Frame Ordered_Set
begin

text \<open>
  The metadata store (\<open>adapters/metadata/rocksdb_meta.rs\<close>): databases and retention policies, users,
  measurements, tag values, series, continuous queries, views and settings as rows of one RocksDB
  column family with caches in memory, and the user functions of
  \<open>application/schema_mutation_apply.rs\<close> over it. RocksDB and the JSON codec are fields of
  \<open>meta_env\<close>; the definitions of queries and views and the values of settings are not looked at and
  are type parameters.
\<close>

section \<open>Data\<close>

datatype database_privilege = ReadPriv | WritePriv | AllPriv

fun without :: "database_privilege \<Rightarrow> database_privilege \<Rightarrow> database_privilege option" where
  "without held AllPriv = None"
| "without ReadPriv ReadPriv = None"
| "without WritePriv WritePriv = None"
| "without AllPriv ReadPriv = Some WritePriv"
| "without AllPriv WritePriv = Some ReadPriv"
| "without held revoked = Some held"

record stored_user =
  password_hash :: string
  user_admin :: bool
  created_at :: string
  privileges :: "(string, database_privilege) hash_map"

definition can_read :: "stored_user \<Rightarrow> string \<Rightarrow> bool" where
  "can_read u d = (user_admin u \<or> hm_get (privileges u) d = Some ReadPriv \<or> hm_get (privileges u) d = Some AllPriv)"

definition can_write :: "stored_user \<Rightarrow> string \<Rightarrow> bool" where
  "can_write u d = (user_admin u \<or> hm_get (privileges u) d = Some WritePriv \<or> hm_get (privileges u) d = Some AllPriv)"

datatype rollup_combine = RollSum | RollMin | RollMax | RollLast | RollFirst

record measurement_meta =
  mm_name :: string
  field_types :: "(string, u8) hash_map"
  tag_keys :: "string list"
  field_rollups :: "(string, rollup_combine) hash_map"
  mean_fields :: "(string, string \<times> string) hash_map"
  materialized :: bool
  materialized_rp :: "string option"

datatype meta_error =
    MetaStorage string
  | MetaCodec string
  | DatabaseNotFound string
  | PolicyConflict string
  | PolicyNotFound string
  | UserNotFound string
  | FieldTypeConflict string string u8 u8

record ('q, 'w, 'y) meta_codec =
  mc_database :: "database serializer"
  mc_user :: "stored_user serializer"
  mc_measurement :: "measurement_meta serializer"
  mc_tags :: "(string \<times> string) list serializer"
  mc_query :: "'q serializer"
  mc_view :: "'w serializer"
  mc_setting :: "'y serializer"

record ('d, 'q, 'w, 'y) meta_env =
  me_kv :: "('d, string, u8 list) rocks"
  me_codec :: "('q, 'w, 'y) meta_codec"

record ('d, 'q, 'w) rocksdb_metadata =
  md_db :: 'd
  generation :: u64
  db_cache :: "(string, database) hash_map"
  meas_cache :: "(string, measurement_meta) hash_map"
  tag_known :: "string list"
  tag_count_cache :: "(string, nat) hash_map"
  tag_counts_warmed :: bool
  series_known :: series_index
  series_warmed :: bool
  user_cache :: "(string, stored_user) hash_map"
  meas_list_cache :: "(string, u64 \<times> string list) hash_map"
  tombstone_cache :: "(string, (string \<times> string) list) hash_map"
  cq_cache :: "'q list option"
  mv_cache :: "'w list option"

definition open_metadata :: "'d \<Rightarrow> ('d, 'q, 'w) rocksdb_metadata" where
  "open_metadata d =
     \<lparr>md_db = d, generation = 0, db_cache = [], meas_cache = [], tag_known = [], tag_count_cache = [],
      tag_counts_warmed = False, series_known = empty_index, series_warmed = False, user_cache = [],
      meas_list_cache = [], tombstone_cache = [], cq_cache = None, mv_cache = None\<rparr>"

section \<open>Rows\<close>

definition db_key :: "string \<Rightarrow> string" where
  "db_key name = ''db:'' @ name"

definition meas_key :: "string \<Rightarrow> string \<Rightarrow> string \<Rightarrow> string" where
  "meas_key d r name = ''meas:'' @ d @ '':'' @ r @ '':'' @ name"

definition meas_prefix :: "string \<Rightarrow> string" where
  "meas_prefix d = ''meas:'' @ d @ '':''"

definition meas_rp_prefix :: "string \<Rightarrow> string \<Rightarrow> string" where
  "meas_rp_prefix d r = ''meas:'' @ d @ '':'' @ r @ '':''"

definition user_key :: "string \<Rightarrow> string" where
  "user_key name = ''user:'' @ name"

definition user_prefix :: string where
  "user_prefix = ''user:''"

text \<open>Writes and reads of rows.\<close>

definition meta_write :: "('d, 'q, 'w, 'y) meta_env \<Rightarrow> (string, u8 list) batch_op list \<Rightarrow> ('d, 'q, 'w) rocksdb_metadata
    \<Rightarrow> ('d, 'q, 'w) rocksdb_metadata \<times> (meta_error + unit)" where
  "meta_write env ops m =
     (case rdb_write (me_kv env) (md_db m) ops of
        (d, Inl e) \<Rightarrow> (m\<lparr>md_db := d\<rparr>, Inl (MetaStorage e))
      | (d, Inr _) \<Rightarrow> (m\<lparr>md_db := d\<rparr>, Inr ()))"

definition meta_encode :: "'x serializer \<Rightarrow> 'x \<Rightarrow> meta_error + u8 list" where
  "meta_encode c x = (case fst c x of Inl e \<Rightarrow> Inl (MetaCodec e) | Inr b \<Rightarrow> Inr b)"

definition meta_put :: "('d, 'q, 'w, 'y) meta_env \<Rightarrow> 'x serializer \<Rightarrow> string \<Rightarrow> 'x \<Rightarrow> ('d, 'q, 'w) rocksdb_metadata
    \<Rightarrow> ('d, 'q, 'w) rocksdb_metadata \<times> (meta_error + unit)" where
  "meta_put env c k x m = and_do (m, meta_encode c x) (\<lambda>b m. meta_write env [Put k b] m)"

definition meta_get :: "('d, 'q, 'w, 'y) meta_env \<Rightarrow> 'x serializer \<Rightarrow> string \<Rightarrow> 'd \<Rightarrow> meta_error + 'x option" where
  "meta_get env c k d =
     (case rdb_get (me_kv env) d k of
        Inl e \<Rightarrow> Inl (MetaStorage e)
      | Inr None \<Rightarrow> Inr None
      | Inr (Some b) \<Rightarrow> (case snd c b of Inl e \<Rightarrow> Inl (MetaCodec e) | Inr x \<Rightarrow> Inr (Some x)))"

text \<open>A scan: what the loop over the rows does with one of them.\<close>

datatype 'x row_step = RowTake 'x | RowSkip | RowStop | RowFail meta_error

fun scan_rows :: "(string \<Rightarrow> u8 list \<Rightarrow> 'x row_step) \<Rightarrow> (string + string \<times> u8 list) list \<Rightarrow> meta_error + 'x list" where
  "scan_rows f [] = Inr []"
| "scan_rows f (Inl e # items) = Inl (MetaStorage e)"
| "scan_rows f (Inr (k, v) # items) =
     (case f k v of
        RowStop \<Rightarrow> Inr []
      | RowSkip \<Rightarrow> scan_rows f items
      | RowFail e \<Rightarrow> Inl e
      | RowTake x \<Rightarrow> and_then (scan_rows f items) (\<lambda>xs. Inr (x # xs)))"

definition under :: "string \<Rightarrow> (string \<Rightarrow> u8 list \<Rightarrow> 'x row_step) \<Rightarrow> string \<Rightarrow> u8 list \<Rightarrow> 'x row_step" where
  "under p f k v = (if starts_with k p then f k v else RowStop)"

definition meta_scan :: "('d, 'q, 'w, 'y) meta_env \<Rightarrow> string \<Rightarrow> (string \<Rightarrow> u8 list \<Rightarrow> 'x row_step) \<Rightarrow> 'd \<Rightarrow> meta_error + 'x list" where
  "meta_scan env p f d = scan_rows (under p f) (rdb_iter_from (me_kv env) d p)"

definition row_decode :: "'x serializer \<Rightarrow> string \<Rightarrow> u8 list \<Rightarrow> 'x row_step" where
  "row_decode c k v = (case snd c v of Inl e \<Rightarrow> RowFail (MetaCodec e) | Inr x \<Rightarrow> RowTake x)"

section \<open>Databases\<close>

text \<open>A database is stored with the durations of its policies in whole seconds.\<close>

definition put_database :: "('d, 'q, 'w, 'y) meta_env \<Rightarrow> string \<Rightarrow> database \<Rightarrow> ('d, 'q, 'w) rocksdb_metadata
    \<Rightarrow> ('d, 'q, 'w) rocksdb_metadata \<times> (meta_error + unit)" where
  "put_database env name dbo m =
     and_do (meta_put env (mc_database (me_codec env)) (db_key name) (stored_database dbo) m) (\<lambda>_ m.
       (m\<lparr>db_cache := hm_insert name dbo (db_cache m)\<rparr>, Inr ()))"

definition create_database :: "('d, 'q, 'w, 'y) meta_env \<Rightarrow> string \<Rightarrow> ('d, 'q, 'w) rocksdb_metadata
    \<Rightarrow> ('d, 'q, 'w) rocksdb_metadata \<times> (meta_error + unit)" where
  "create_database env name m =
     and_do (m, meta_encode (mc_database (me_codec env)) (stored_database (new_database name))) (\<lambda>value m.
     and_do
       (case rdb_get (me_kv env) (md_db m) (db_key name) of
          Inl e \<Rightarrow> (m, Inl (MetaStorage e))
        | Inr (Some _) \<Rightarrow> (m, Inr ())
        | Inr None \<Rightarrow> meta_write env [Put (db_key name) value] m) (\<lambda>_ m.
       (m\<lparr>db_cache := hm_insert name (new_database name) (db_cache m)\<rparr>, Inr ())))"

definition get_database :: "('d, 'q, 'w, 'y) meta_env \<Rightarrow> string \<Rightarrow> ('d, 'q, 'w) rocksdb_metadata
    \<Rightarrow> ('d, 'q, 'w) rocksdb_metadata \<times> (meta_error + database option)" where
  "get_database env name m =
     (case hm_get (db_cache m) name of
        Some dbo \<Rightarrow> (m, Inr (Some dbo))
      | None \<Rightarrow>
          (case meta_get env (mc_database (me_codec env)) (db_key name) (md_db m) of
             Inl e \<Rightarrow> (m, Inl e)
           | Inr None \<Rightarrow> (m, Inr None)
           | Inr (Some dbo) \<Rightarrow> (m\<lparr>db_cache := hm_insert name dbo (db_cache m)\<rparr>, Inr (Some dbo))))"

definition find_database :: "('d, 'q, 'w, 'y) meta_env \<Rightarrow> string \<Rightarrow> ('d, 'q, 'w) rocksdb_metadata
    \<Rightarrow> ('d, 'q, 'w) rocksdb_metadata \<times> (meta_error + database)" where
  "find_database env name m =
     and_do (get_database env name m) (\<lambda>found m.
       case found of None \<Rightarrow> (m, Inl (DatabaseNotFound name)) | Some dbo \<Rightarrow> (m, Inr dbo))"

definition set_default :: "string \<Rightarrow> database \<Rightarrow> database" where
  "set_default name dbo =
     dbo\<lparr>default_rp := name, retention_policies := map (\<lambda>r. r\<lparr>is_default := (rp_name r = name)\<rparr>) (retention_policies dbo)\<rparr>"

definition add_policy :: "retention_policy \<Rightarrow> database \<Rightarrow> database" where
  "add_policy rp dbo =
     set_default (rp_name rp)
       (dbo\<lparr>retention_policies := filter (\<lambda>r. rp_name r \<noteq> rp_name rp) (retention_policies dbo) @ [rp]\<rparr>)"

definition same_settings :: "retention_policy \<Rightarrow> retention_policy \<Rightarrow> bool" where
  "same_settings a b \<longleftrightarrow> rp_duration a = rp_duration b \<and> shard_group_duration a = shard_group_duration b
     \<and> replication_factor a = replication_factor b"

definition find_policy :: "string \<Rightarrow> database \<Rightarrow> retention_policy option" where
  "find_policy name dbo = find (\<lambda>r. rp_name r = name) (retention_policies dbo)"

definition create_database_with :: "('d, 'q, 'w, 'y) meta_env \<Rightarrow> create_database_statement \<Rightarrow> ('d, 'q, 'w) rocksdb_metadata
    \<Rightarrow> ('d, 'q, 'w) rocksdb_metadata \<times> (meta_error + unit)" where
  "create_database_with env stmt m =
     and_do (get_database env (cs_name stmt) m) (\<lambda>existing m.
     and_do (if existing = None then create_database env (cs_name stmt) m else (m, Inr ())) (\<lambda>_ m.
       case retention_policy_from_create stmt of
         None \<Rightarrow> (m, Inr ())
       | Some rp \<Rightarrow>
           (case (case existing of None \<Rightarrow> None | Some dbo \<Rightarrow> find_policy (rp_name rp) dbo) of
              Some old \<Rightarrow> if same_settings old rp then (m, Inr ()) else (m, Inl (PolicyConflict (cs_name stmt)))
            | None \<Rightarrow>
                and_do (find_database env (cs_name stmt) m) (\<lambda>dbo m. put_database env (cs_name stmt) (add_policy rp dbo) m))))"

record retention_policy_change =
  ch_duration :: "ast_duration option option"
  ch_replication :: "u32 option"
  ch_shard_duration :: "ast_duration option"
  ch_is_default :: "bool option"

definition change_policy :: "retention_policy_change \<Rightarrow> retention_policy \<Rightarrow> retention_policy" where
  "change_policy ch rp =
     (let rp = (case ch_duration ch of None \<Rightarrow> rp | Some d \<Rightarrow> rp\<lparr>rp_duration := std_duration d\<rparr>);
          rp = (case ch_replication ch of None \<Rightarrow> rp | Some n \<Rightarrow> rp\<lparr>replication_factor := n\<rparr>)
      in case ch_shard_duration ch of None \<Rightarrow> rp | Some d \<Rightarrow> rp\<lparr>shard_group_duration := as_u64 (to_nanos d)\<rparr>)"

text \<open>\<open>iter_mut().find(..)\<close>: the first policy of the name is changed.\<close>

fun change_first :: "string \<Rightarrow> (retention_policy \<Rightarrow> retention_policy) \<Rightarrow> retention_policy list \<Rightarrow> retention_policy list" where
  "change_first name f [] = []"
| "change_first name f (r # rs) = (if rp_name r = name then f r # rs else r # change_first name f rs)"

definition alter_database :: "string \<Rightarrow> retention_policy_change \<Rightarrow> database \<Rightarrow> database" where
  "alter_database name ch dbo =
     (let dbo = dbo\<lparr>retention_policies := change_first name (change_policy ch) (retention_policies dbo)\<rparr>
      in if ch_is_default ch = Some True then set_default name dbo else dbo)"

definition alter_retention_policy :: "('d, 'q, 'w, 'y) meta_env \<Rightarrow> string \<Rightarrow> string \<Rightarrow> retention_policy_change \<Rightarrow> ('d, 'q, 'w) rocksdb_metadata
    \<Rightarrow> ('d, 'q, 'w) rocksdb_metadata \<times> (meta_error + unit)" where
  "alter_retention_policy env d name ch m =
     and_do (find_database env d m) (\<lambda>dbo m.
       if find_policy name dbo = None then (m, Inl (PolicyNotFound name))
       else put_database env d (alter_database name ch dbo) m)"

definition with_policy :: "retention_policy \<Rightarrow> database \<Rightarrow> database" where
  "with_policy rp dbo =
     (if list_ex (\<lambda>x. rp_name x = rp_name rp) (retention_policies dbo) then dbo
      else let dbo = dbo\<lparr>retention_policies := retention_policies dbo @ [rp]\<rparr>
           in if is_default rp
              then dbo\<lparr>default_rp := rp_name rp,
                     retention_policies := map (\<lambda>r. if rp_name r \<noteq> rp_name rp then r\<lparr>is_default := False\<rparr> else r) (retention_policies dbo)\<rparr>
              else dbo)"

definition create_retention_policy :: "('d, 'q, 'w, 'y) meta_env \<Rightarrow> string \<Rightarrow> retention_policy \<Rightarrow> ('d, 'q, 'w) rocksdb_metadata
    \<Rightarrow> ('d, 'q, 'w) rocksdb_metadata \<times> (meta_error + unit)" where
  "create_retention_policy env d rp m =
     and_do (find_database env d m) (\<lambda>dbo m. put_database env d (with_policy rp dbo) m)"

definition without_policy :: "string \<Rightarrow> database \<Rightarrow> database" where
  "without_policy name dbo =
     (let dbo = dbo\<lparr>retention_policies := filter (\<lambda>r. rp_name r \<noteq> name) (retention_policies dbo)\<rparr>
      in if default_rp dbo = name
         then dbo\<lparr>default_rp := (case retention_policies dbo of r # _ \<Rightarrow> rp_name r | [] \<Rightarrow> ''autogen'')\<rparr>
         else dbo)"

definition drop_retention_policy :: "('d, 'q, 'w, 'y) meta_env \<Rightarrow> string \<Rightarrow> string \<Rightarrow> ('d, 'q, 'w) rocksdb_metadata
    \<Rightarrow> ('d, 'q, 'w) rocksdb_metadata \<times> (meta_error + unit)" where
  "drop_retention_policy env d name m =
     and_do (find_database env d m) (\<lambda>dbo m. put_database env d (without_policy name dbo) m)"

definition get_default_rp :: "('d, 'q, 'w, 'y) meta_env \<Rightarrow> string \<Rightarrow> ('d, 'q, 'w) rocksdb_metadata
    \<Rightarrow> ('d, 'q, 'w) rocksdb_metadata \<times> (meta_error + string)" where
  "get_default_rp env d m = and_do (find_database env d m) (\<lambda>dbo m. (m, Inr (default_rp dbo)))"

definition list_databases :: "('d, 'q, 'w, 'y) meta_env \<Rightarrow> ('d, 'q, 'w) rocksdb_metadata \<Rightarrow> meta_error + database list" where
  "list_databases env m = meta_scan env ''db:'' (row_decode (mc_database (me_codec env))) (md_db m)"

definition list_retention_policies :: "('d, 'q, 'w, 'y) meta_env \<Rightarrow> string \<Rightarrow> ('d, 'q, 'w) rocksdb_metadata
    \<Rightarrow> ('d, 'q, 'w) rocksdb_metadata \<times> (meta_error + retention_policy list)" where
  "list_retention_policies env d m =
     and_do (get_database env d m) (\<lambda>found m.
       (m, Inr (case found of Some dbo \<Rightarrow> retention_policies dbo | None \<Rightarrow> [])))"

text \<open>The prefixes end in \<open>:\<close>, whose successor is \<open>;\<close>.\<close>

definition bump_last :: "string \<Rightarrow> string" where
  "bump_last p = (if p = [] then [] else butlast p @ [char_of (of_char (last p) + 1 :: nat)])"

definition drop_database :: "('d, 'q, 'w, 'y) meta_env \<Rightarrow> string \<Rightarrow> ('d, 'q, 'w) rocksdb_metadata
    \<Rightarrow> ('d, 'q, 'w) rocksdb_metadata \<times> (meta_error + unit)" where
  "drop_database env name m =
     and_do (meta_write env (Delete (db_key name)
         # map (\<lambda>p. DeleteRange p (bump_last p)) [''meas:'' @ name @ '':'', ''tag_val:'' @ name @ '':'', ''series:'' @ name @ '':'']) m)
     (\<lambda>_ m.
       (m\<lparr>db_cache := hm_remove name (db_cache m),
          meas_cache := hm_retain (\<lambda>k. \<not> starts_with k (name @ '':'')) (meas_cache m),
          tag_known := filter (\<lambda>k. \<not> starts_with k (''tag_val:'' @ name @ '':'')) (tag_known m),
          tag_count_cache := hm_retain (\<lambda>k. \<not> starts_with k (name @ '':'')) (tag_count_cache m),
          series_known := ix_retain (\<lambda>k. \<not> starts_with k (''series:'' @ name @ '':'')) (series_known m),
          meas_list_cache := hm_remove name (meas_list_cache m), generation := generation m + 1\<rparr>, Inr ()))"

section \<open>Users\<close>

definition put_user :: "('d, 'q, 'w, 'y) meta_env \<Rightarrow> string \<Rightarrow> stored_user \<Rightarrow> ('d, 'q, 'w) rocksdb_metadata
    \<Rightarrow> ('d, 'q, 'w) rocksdb_metadata \<times> (meta_error + unit)" where
  "put_user env name u m =
     and_do (meta_put env (mc_user (me_codec env)) (user_key name) u m) (\<lambda>_ m.
       (m\<lparr>user_cache := hm_insert name u (user_cache m)\<rparr>, Inr ()))"

definition meta_create_user :: "('d, 'q, 'w, 'y) meta_env \<Rightarrow> string \<Rightarrow> string \<Rightarrow> string \<Rightarrow> bool \<Rightarrow> ('d, 'q, 'w) rocksdb_metadata
    \<Rightarrow> ('d, 'q, 'w) rocksdb_metadata \<times> (meta_error + unit)" where
  "meta_create_user env now name hash adm m =
     put_user env name \<lparr>password_hash = hash, user_admin = adm, created_at = now, privileges = []\<rparr> m"

definition drop_user :: "('d, 'q, 'w, 'y) meta_env \<Rightarrow> string \<Rightarrow> ('d, 'q, 'w) rocksdb_metadata
    \<Rightarrow> ('d, 'q, 'w) rocksdb_metadata \<times> (meta_error + unit)" where
  "drop_user env name m =
     and_do (meta_write env [Delete (user_key name)] m) (\<lambda>_ m.
       (m\<lparr>user_cache := hm_remove name (user_cache m)\<rparr>, Inr ()))"

definition get_user :: "('d, 'q, 'w, 'y) meta_env \<Rightarrow> string \<Rightarrow> ('d, 'q, 'w) rocksdb_metadata
    \<Rightarrow> ('d, 'q, 'w) rocksdb_metadata \<times> (meta_error + stored_user option)" where
  "get_user env name m =
     (case hm_get (user_cache m) name of
        Some u \<Rightarrow> (m, Inr (Some u))
      | None \<Rightarrow>
          (case meta_get env (mc_user (me_codec env)) (user_key name) (md_db m) of
             Inl e \<Rightarrow> (m, Inl e)
           | Inr None \<Rightarrow> (m, Inr None)
           | Inr (Some u) \<Rightarrow> (m\<lparr>user_cache := hm_insert name u (user_cache m)\<rparr>, Inr (Some u))))"

definition list_users :: "('d, 'q, 'w, 'y) meta_env \<Rightarrow> ('d, 'q, 'w) rocksdb_metadata \<Rightarrow> meta_error + string list" where
  "list_users env m = meta_scan env user_prefix (\<lambda>k _. RowTake (drop (length user_prefix) k)) (md_db m)"

definition grant_privilege :: "('d, 'q, 'w, 'y) meta_env \<Rightarrow> string \<Rightarrow> string \<Rightarrow> database_privilege \<Rightarrow> ('d, 'q, 'w) rocksdb_metadata
    \<Rightarrow> ('d, 'q, 'w) rocksdb_metadata \<times> (meta_error + unit)" where
  "grant_privilege env name d p m =
     and_do (get_user env name m) (\<lambda>found m.
       case found of
         None \<Rightarrow> (m, Inl (UserNotFound name))
       | Some u \<Rightarrow> put_user env name (u\<lparr>privileges := hm_insert d p (privileges u)\<rparr>) m)"

definition meta_revoke_privilege :: "('d, 'q, 'w, 'y) meta_env \<Rightarrow> string \<Rightarrow> string \<Rightarrow> ('d, 'q, 'w) rocksdb_metadata
    \<Rightarrow> ('d, 'q, 'w) rocksdb_metadata \<times> (meta_error + unit)" where
  "meta_revoke_privilege env name d m =
     and_do (get_user env name m) (\<lambda>found m.
       case found of
         None \<Rightarrow> (m, Inl (UserNotFound name))
       | Some u \<Rightarrow> put_user env name (u\<lparr>privileges := hm_remove d (privileges u)\<rparr>) m)"

text \<open>The statements, as \<open>schema_mutation_apply.rs\<close> applies them.\<close>

definition create_user :: "('d, 'q, 'w, 'y) meta_env \<Rightarrow> string \<Rightarrow> string \<Rightarrow> string \<Rightarrow> bool \<Rightarrow> ('d, 'q, 'w) rocksdb_metadata
    \<Rightarrow> ('d, 'q, 'w) rocksdb_metadata \<times> (meta_error + unit)" where
  "create_user env now name hash adm m =
     and_do (get_user env name m) (\<lambda>found m.
       case found of
         Some u \<Rightarrow> put_user env name (u\<lparr>password_hash := hash, user_admin := adm\<rparr>) m
       | None \<Rightarrow> meta_create_user env now name hash adm m)"

definition set_password :: "('d, 'q, 'w, 'y) meta_env \<Rightarrow> string \<Rightarrow> string \<Rightarrow> string \<Rightarrow> ('d, 'q, 'w) rocksdb_metadata
    \<Rightarrow> ('d, 'q, 'w) rocksdb_metadata \<times> (meta_error + unit)" where
  "set_password env now name hash m =
     and_do (get_user env name m) (\<lambda>found m.
       case found of
         Some u \<Rightarrow> put_user env name (u\<lparr>password_hash := hash\<rparr>) m
       | None \<Rightarrow> meta_create_user env now name hash False m)"

definition set_admin :: "('d, 'q, 'w, 'y) meta_env \<Rightarrow> string \<Rightarrow> bool \<Rightarrow> ('d, 'q, 'w) rocksdb_metadata
    \<Rightarrow> ('d, 'q, 'w) rocksdb_metadata \<times> (meta_error + unit)" where
  "set_admin env name adm m =
     and_do (get_user env name m) (\<lambda>found m.
       case found of
         Some u \<Rightarrow> put_user env name (u\<lparr>user_admin := adm\<rparr>) m
       | None \<Rightarrow> (m, Inr ()))"

definition revoke_privilege :: "('d, 'q, 'w, 'y) meta_env \<Rightarrow> string \<Rightarrow> string \<Rightarrow> database_privilege \<Rightarrow> ('d, 'q, 'w) rocksdb_metadata
    \<Rightarrow> ('d, 'q, 'w) rocksdb_metadata \<times> (meta_error + unit)" where
  "revoke_privilege env name d revoked m =
     and_do (get_user env name m) (\<lambda>found m.
       case (case found of None \<Rightarrow> None | Some u \<Rightarrow> (case hm_get (privileges u) d of None \<Rightarrow> None | Some p \<Rightarrow> without p revoked)) of
         Some left \<Rightarrow> grant_privilege env name d left m
       | None \<Rightarrow> meta_revoke_privilege env name d m)"

end
