(* ===== verification/Metadata_Schema.thy ===== *)
theory Metadata_Schema
  imports Metadata_Series
begin

text \<open>
  Measurements, field types, tag values, tombstones, settings, continuous queries and views in the
  metadata store (\<open>adapters/metadata/rocksdb_meta.rs\<close>, \<open>domain/field_type.rs\<close>), and the application
  of a replicated schema mutation to it (\<open>adapters/cluster/raft/state_machine.rs\<close>, with the metadata
  branches of \<open>application/schema_mutation_apply.rs\<close> and \<open>application/database_drop.rs\<close>). A fresh
  tombstone id and the time of a user's creation are arguments.
\<close>

section \<open>Field types\<close>

definition widen_field_disc :: "u8 \<Rightarrow> u8 \<Rightarrow> u8 option" where
  "widen_field_disc a b =
     (if a = b then Some a
      else if a = 0 \<and> b = 1 \<or> a = 1 \<and> b = 0 then Some 0
      else if a = 1 \<and> b = 2 \<or> a = 2 \<and> b = 1 then Some 2
      else None)"

definition field_types_compatible :: "u8 \<Rightarrow> u8 \<Rightarrow> bool" where
  "field_types_compatible stored incoming = (widen_field_disc stored incoming \<noteq> None)"

definition merge_field_disc :: "u8 \<Rightarrow> u8 \<Rightarrow> u8" where
  "merge_field_disc stored incoming = (case widen_field_disc stored incoming of Some w \<Rightarrow> w | None \<Rightarrow> stored)"

definition merge_field_type :: "string \<times> u8 \<Rightarrow> (string, u8) hash_map \<Rightarrow> (string, u8) hash_map" where
  "merge_field_type kv out =
     (case hm_get out (fst kv) of
        Some stored \<Rightarrow>
          (case widen_field_disc stored (snd kv) of Some w \<Rightarrow> hm_insert (fst kv) w out | None \<Rightarrow> out)
      | None \<Rightarrow> hm_insert (fst kv) (snd kv) out)"

definition merge_field_type_map :: "(string, u8) hash_map \<Rightarrow> (string, u8) hash_map \<Rightarrow> (string, u8) hash_map" where
  "merge_field_type_map existing batch = fold merge_field_type batch existing"

section \<open>Measurements\<close>

text \<open>Equality of \<open>HashMap\<close>s, and of the parts of a schema that a registration compares.\<close>

definition hm_same :: "('k, 'v) hash_map \<Rightarrow> ('k, 'v) hash_map \<Rightarrow> bool" where
  "hm_same a b \<longleftrightarrow> length a = length b \<and> list_all (\<lambda>(k, v). hm_get b k = Some v) a"

definition same_schema :: "measurement_meta \<Rightarrow> measurement_meta \<Rightarrow> bool" where
  "same_schema a b \<longleftrightarrow> hm_same (field_types a) (field_types b) \<and> tag_keys a = tag_keys b
     \<and> hm_same (field_rollups a) (field_rollups b) \<and> hm_same (mean_fields a) (mean_fields b)"

definition meas_cache_key :: "string \<Rightarrow> string \<Rightarrow> string \<Rightarrow> string" where
  "meas_cache_key d r name = d @ '':'' @ r @ '':'' @ name"

definition register_measurement :: "('d, 'q, 'w, 'y) meta_env \<Rightarrow> string \<Rightarrow> string \<Rightarrow> measurement_meta
    \<Rightarrow> ('d, 'q, 'w) rocksdb_metadata \<Rightarrow> ('d, 'q, 'w) rocksdb_metadata \<times> (meta_error + unit)" where
  "register_measurement env d r meas m =
     (if (case hm_get (meas_cache m) (meas_cache_key d r (mm_name meas)) of Some existing \<Rightarrow> same_schema existing meas | None \<Rightarrow> False)
      then (m, Inr ())
      else and_do (meta_put env (mc_measurement (me_codec env)) (meas_key d r (mm_name meas)) meas m) (\<lambda>_ m.
        (m\<lparr>meas_cache := hm_insert (meas_cache_key d r (mm_name meas)) meas (meas_cache m),
           meas_list_cache := hm_remove d (meas_list_cache m), generation := generation m + 1\<rparr>, Inr ())))"

definition get_measurement :: "('d, 'q, 'w, 'y) meta_env \<Rightarrow> string \<Rightarrow> string \<Rightarrow> string
    \<Rightarrow> ('d, 'q, 'w) rocksdb_metadata \<Rightarrow> ('d, 'q, 'w) rocksdb_metadata \<times> (meta_error + measurement_meta option)" where
  "get_measurement env d r name m =
     (case hm_get (meas_cache m) (meas_cache_key d r name) of
        Some meas \<Rightarrow> (m, Inr (Some meas))
      | None \<Rightarrow>
          (case meta_get env (mc_measurement (me_codec env)) (meas_key d r name) (md_db m) of
             Inl e \<Rightarrow> (m, Inl e)
           | Inr None \<Rightarrow> (m, Inr None)
           | Inr (Some meas) \<Rightarrow> (m\<lparr>meas_cache := hm_insert (meas_cache_key d r name) meas (meas_cache m)\<rparr>, Inr (Some meas))))"

text \<open>\<open>split(':').next_back()\<close>: what follows the last colon.\<close>

definition last_component :: "string \<Rightarrow> string" where
  "last_component s = rev (takeWhile (\<lambda>c. c \<noteq> CHR '':'') (rev s))"

definition list_measurements :: "('d, 'q, 'w, 'y) meta_env \<Rightarrow> string
    \<Rightarrow> ('d, 'q, 'w) rocksdb_metadata \<Rightarrow> ('d, 'q, 'w) rocksdb_metadata \<times> (meta_error + string list)" where
  "list_measurements env d m =
     (case (case hm_get (meas_list_cache m) d of
              Some (cached_gen, names) \<Rightarrow> if cached_gen = generation m then Some names else None
            | None \<Rightarrow> None) of
        Some names \<Rightarrow> (m, Inr names)
      | None \<Rightarrow>
          and_do (m, meta_scan env (meas_prefix d) (\<lambda>k _. RowTake (last_component (drop (length (meas_prefix d)) k))) (md_db m))
            (\<lambda>found m.
              let names = remdups_adj (sort found)
              in (m\<lparr>meas_list_cache := hm_insert d (generation m, names) (meas_list_cache m)\<rparr>, Inr names)))"

definition list_measurements_for_rp :: "('d, 'q, 'w, 'y) meta_env \<Rightarrow> string \<Rightarrow> string
    \<Rightarrow> ('d, 'q, 'w) rocksdb_metadata \<Rightarrow> meta_error + string list" where
  "list_measurements_for_rp env d r m =
     and_then (meta_scan env (meas_rp_prefix d r) (\<lambda>k _. RowTake (drop (length (meas_rp_prefix d r)) k)) (md_db m))
       (\<lambda>names. Inr (sort names))"

fun first_conflict :: "(string, u8) hash_map \<Rightarrow> (string \<times> u8) list \<Rightarrow> (string \<times> u8 \<times> u8) option" where
  "first_conflict stored [] = None"
| "first_conflict stored ((name, got) # fs) =
     (case hm_get stored name of
        Some expected \<Rightarrow>
          if \<not> field_types_compatible expected got then Some (name, got, expected) else first_conflict stored fs
      | None \<Rightarrow> first_conflict stored fs)"

definition check_field_types :: "('d, 'q, 'w, 'y) meta_env \<Rightarrow> string \<Rightarrow> string \<Rightarrow> string \<Rightarrow> (string \<times> u8) list
    \<Rightarrow> ('d, 'q, 'w) rocksdb_metadata \<Rightarrow> ('d, 'q, 'w) rocksdb_metadata \<times> (meta_error + unit)" where
  "check_field_types env d r mm fs m =
     and_do (get_measurement env d r mm m) (\<lambda>found m.
       (m, case found of
             None \<Rightarrow> Inr ()
           | Some meta \<Rightarrow>
               (case first_conflict (field_types meta) fs of
                  Some (name, got, expected) \<Rightarrow> Inl (FieldTypeConflict name mm got expected)
                | None \<Rightarrow> Inr ())))"

section \<open>Tag keys and values\<close>

fun tag_keys_of_all :: "('d, 'q, 'w, 'y) meta_env \<Rightarrow> string \<Rightarrow> (string \<times> string) list \<Rightarrow> string list
    \<Rightarrow> ('d, 'q, 'w) rocksdb_metadata \<Rightarrow> ('d, 'q, 'w) rocksdb_metadata \<times> (meta_error + string list)" where
  "tag_keys_of_all env d [] keys m = (m, Inr keys)"
| "tag_keys_of_all env d ((mm, r) # pairs) keys m =
     and_do (get_measurement env d r mm m) (\<lambda>found m.
       tag_keys_of_all env d pairs (case found of Some meta \<Rightarrow> keys @ tag_keys meta | None \<Rightarrow> keys) m)"

definition list_tag_keys :: "('d, 'q, 'w, 'y) meta_env \<Rightarrow> string \<Rightarrow> string \<Rightarrow> string option
    \<Rightarrow> ('d, 'q, 'w) rocksdb_metadata \<Rightarrow> ('d, 'q, 'w) rocksdb_metadata \<times> (meta_error + string list)" where
  "list_tag_keys env d r meas m =
     and_do
       (case meas of
          Some mm \<Rightarrow> tag_keys_of_all env d [(mm, r)] [] m
        | None \<Rightarrow>
            and_do (list_measurements env d m) (\<lambda>measurements m.
            and_do (list_retention_policies env d m) (\<lambda>rps m.
              tag_keys_of_all env d (concat (map (\<lambda>mm. map (\<lambda>rp. (mm, rp_name rp)) rps) measurements)) [] m)))
       (\<lambda>keys m. (m, Inr (sort (remdups keys))))"

definition tag_value_step :: "string option \<Rightarrow> string \<Rightarrow> string \<Rightarrow> string \<Rightarrow> u8 list \<Rightarrow> string row_step" where
  "tag_value_step meas p tag_key k v =
     (case (if meas \<noteq> None
            then (case splitn 2 CHR '':'' (drop (length p) k) of [tk, tv] \<Rightarrow> Some (tk, tv) | _ \<Rightarrow> None)
            else (case splitn 3 CHR '':'' (drop (length p) k) of [_, tk, tv] \<Rightarrow> Some (tk, tv) | _ \<Rightarrow> None)) of
        None \<Rightarrow> RowSkip
      | Some (tk, tv) \<Rightarrow> if tk = tag_key then RowTake tv else RowSkip)"

definition list_tag_values :: "('d, 'q, 'w, 'y) meta_env \<Rightarrow> string \<Rightarrow> string \<Rightarrow> string \<Rightarrow> string option
    \<Rightarrow> ('d, 'q, 'w) rocksdb_metadata \<Rightarrow> meta_error + string list" where
  "list_tag_values env d r tag_key meas m =
     and_then (meta_scan env (tag_val_prefix d r meas) (tag_value_step meas (tag_val_prefix d r meas) tag_key) (md_db m))
       (\<lambda>values. Inr (sort (remdups values)))"

definition ends_with :: "string \<Rightarrow> string \<Rightarrow> bool" where
  "ends_with s x = (length x \<le> length s \<and> drop (length s - length x) s = x)"

definition count_tag_values :: "('d, 'q, 'w, 'y) meta_env \<Rightarrow> string \<Rightarrow> string \<Rightarrow> string \<Rightarrow> string option
    \<Rightarrow> ('d, 'q, 'w) rocksdb_metadata \<Rightarrow> ('d, 'q, 'w) rocksdb_metadata \<times> (meta_error + nat)" where
  "count_tag_values env d r tag_key meas m =
     (case meas of
        Some mm \<Rightarrow>
          (case hm_get (tag_count_cache m) (tag_count_cache_key d r mm tag_key) of
             Some n \<Rightarrow> (m, Inr n)
           | None \<Rightarrow>
               and_do (m, list_tag_values env d r tag_key (Some mm) m) (\<lambda>values m.
                 (m\<lparr>tag_count_cache := hm_insert (tag_count_cache_key d r mm tag_key) (length values) (tag_count_cache m)\<rparr>,
                  Inr (length values))))
      | None \<Rightarrow>
          (let cached = sum_list (map snd (filter (\<lambda>(k, _). starts_with k (d @ '':'') \<and> ends_with k ('':'' @ tag_key)) (tag_count_cache m)))
           in if 0 < cached then (m, Inr cached)
              else and_do (m, list_tag_values env d r tag_key None m) (\<lambda>values m. (m, Inr (length values)))))"

definition tag_value_is_known :: "string \<Rightarrow> string \<Rightarrow> string \<Rightarrow> string \<Rightarrow> string \<Rightarrow> ('d, 'q, 'w) rocksdb_metadata \<Rightarrow> bool" where
  "tag_value_is_known d r mm tag_key tag_value m = (tag_val_storage_key d r mm tag_key tag_value \<in> set (tag_known m))"

definition bump_count :: "string \<Rightarrow> nat \<Rightarrow> (string, nat) hash_map \<Rightarrow> (string, nat) hash_map" where
  "bump_count ck delta counts = hm_insert ck ((case hm_get counts ck of Some n \<Rightarrow> n | None \<Rightarrow> 0) + delta) counts"

definition bump_tag_count_cache :: "string \<Rightarrow> string \<Rightarrow> string \<Rightarrow> nat \<Rightarrow> string \<Rightarrow> (string, nat) hash_map \<Rightarrow> (string, nat) hash_map" where
  "bump_tag_count_cache d r mm delta tag_key counts =
     (if delta = 0 then counts else bump_count (tag_count_cache_key d r mm tag_key) delta counts)"

definition count_key :: "string \<Rightarrow> (string, nat) hash_map \<Rightarrow> (string, nat) hash_map" where
  "count_key key per_key =
     (case parse_tag_val_storage_key key of
        Some (d, r, mm, tk) \<Rightarrow> bump_count (tag_count_cache_key d r mm tk) 1 per_key
      | None \<Rightarrow> per_key)"

definition bump_tag_counts_from_storage_keys :: "(string, nat) hash_map \<Rightarrow> string list \<Rightarrow> bool \<Rightarrow> (string, nat) hash_map" where
  "bump_tag_counts_from_storage_keys counts storage_keys warmed =
     fold (\<lambda>(ck, delta) counts.
             if warmed then bump_count ck delta counts
             else case hm_get counts ck of Some n \<Rightarrow> hm_insert ck (n + delta) counts | None \<Rightarrow> counts)
       (fold count_key storage_keys []) counts"

text \<open>A \<open>HashSet\<close> of strings.\<close>

definition hs_extend :: "'a list \<Rightarrow> 'a list \<Rightarrow> 'a list" where
  "hs_extend xs known = known @ remdups (filter (\<lambda>x. x \<notin> set known) xs)"

definition warm_tag_value_counts :: "('d, 'q, 'w, 'y) meta_env
    \<Rightarrow> ('d, 'q, 'w) rocksdb_metadata \<Rightarrow> ('d, 'q, 'w) rocksdb_metadata \<times> (meta_error + nat)" where
  "warm_tag_value_counts env m =
     and_do (m, meta_scan env ''tag_val:''
         (\<lambda>k _. case parse_tag_val_storage_key k of Some (d, r, mm, tk) \<Rightarrow> RowTake (k, d, r, mm, tk) | None \<Rightarrow> RowSkip) (md_db m))
       (\<lambda>rows m.
         let counts = fold (\<lambda>(k, d, r, mm, tk). bump_tag_count_cache d r mm 1 tk) rows []
         in (m\<lparr>tag_known := hs_extend (map fst rows) (tag_known m), tag_count_cache := counts, tag_counts_warmed := True\<rparr>,
             Inr (length counts)))"

text \<open>\<open>multi_get_cf\<close> answers per key; the first error ends the loop.\<close>

fun absent_keys :: "('d, 'q, 'w, 'y) meta_env \<Rightarrow> 'd \<Rightarrow> string list \<Rightarrow> meta_error + string list" where
  "absent_keys env d [] = Inr []"
| "absent_keys env d (k # ks) =
     (case rdb_get (me_kv env) d k of
        Inl e \<Rightarrow> Inl (MetaStorage e)
      | Inr stored \<Rightarrow> and_then (absent_keys env d ks) (\<lambda>rest. Inr (if stored = None then k # rest else rest)))"

definition write_tag_values :: "('d, 'q, 'w, 'y) meta_env \<Rightarrow> (string, u8 list) batch_op list \<Rightarrow> string list
    \<Rightarrow> ('d, 'q, 'w) rocksdb_metadata \<Rightarrow> ('d, 'q, 'w) rocksdb_metadata \<times> (meta_error + unit)" where
  "write_tag_values env batch keys m =
     and_do (m, absent_keys env (md_db m) keys) (\<lambda>created m.
     and_do (meta_write env (batch @ map (\<lambda>k. Put k [49]) created) m) (\<lambda>_ m.
       (m\<lparr>tag_known := hs_extend keys (tag_known m),
          tag_count_cache := bump_tag_counts_from_storage_keys (tag_count_cache m) created (tag_counts_warmed m)\<rparr>, Inr ())))"

definition store_tag_values_batch :: "('d, 'q, 'w, 'y) meta_env \<Rightarrow> string \<Rightarrow> string \<Rightarrow> string \<Rightarrow> (string \<times> string) list
    \<Rightarrow> ('d, 'q, 'w) rocksdb_metadata \<Rightarrow> ('d, 'q, 'w) rocksdb_metadata \<times> (meta_error + unit)" where
  "store_tag_values_batch env d r mm entries m =
     (if entries = [] then (m, Inr ())
      else let novel = filter (\<lambda>k. k \<notin> set (tag_known m)) (map (\<lambda>(tk, tv). tag_val_storage_key d r mm tk tv) entries)
           in if novel = [] then (m, Inr ()) else write_tag_values env [] novel m)"

definition store_tag_value :: "('d, 'q, 'w, 'y) meta_env \<Rightarrow> string \<Rightarrow> string \<Rightarrow> string \<Rightarrow> string \<Rightarrow> string
    \<Rightarrow> ('d, 'q, 'w) rocksdb_metadata \<Rightarrow> ('d, 'q, 'w) rocksdb_metadata \<times> (meta_error + unit)" where
  "store_tag_value env d r mm tag_key tag_value m = store_tag_values_batch env d r mm [(tag_key, tag_value)] m"

section \<open>The batch of an ingest\<close>

definition merge_measurement :: "measurement_meta option \<Rightarrow> measurement_meta \<Rightarrow> measurement_meta" where
  "merge_measurement cached meas =
     (case cached of
        None \<Rightarrow> meas
      | Some existing \<Rightarrow>
          meas\<lparr>field_types := merge_field_type_map (field_types existing) (field_types meas),
               tag_keys := fold bs_insert (tag_keys meas) (fold bs_insert (tag_keys existing) []),
               field_rollups := (if field_rollups meas = [] then field_rollups existing else field_rollups meas),
               mean_fields := (if mean_fields meas = [] then mean_fields existing else mean_fields meas)\<rparr>)"

fun meas_updates :: "measurement_meta serializer \<Rightarrow> (string, measurement_meta) hash_map \<Rightarrow> string \<Rightarrow> string
    \<Rightarrow> measurement_meta list \<Rightarrow> meta_error + (string \<times> u8 list \<times> measurement_meta) list" where
  "meas_updates c cache d r [] = Inr []"
| "meas_updates c cache d r (meas # rest) =
     (let key = meas_cache_key d r (mm_name meas);
          merged = merge_measurement (hm_get cache key) meas
      in if (case hm_get cache key of Some existing \<Rightarrow> same_schema existing merged | None \<Rightarrow> False)
         then meas_updates c cache d r rest
         else and_then (meta_encode c merged) (\<lambda>v.
              and_then (meas_updates c cache d r rest) (\<lambda>us. Inr ((key, v, merged) # us))))"

definition register_metadata_batch :: "('d, 'q, 'w, 'y) meta_env \<Rightarrow> string \<Rightarrow> string \<Rightarrow> measurement_meta list
    \<Rightarrow> (string \<times> (string \<times> string) list) list
    \<Rightarrow> ('d, 'q, 'w) rocksdb_metadata \<Rightarrow> ('d, 'q, 'w) rocksdb_metadata \<times> (meta_error + unit)" where
  "register_metadata_batch env d r measurements tag_entries m =
     and_do (m, meas_updates (mc_measurement (me_codec env)) (meas_cache m) d r measurements) (\<lambda>us m.
       let novel = filter (\<lambda>k. k \<notin> set (tag_known m))
             (concat (map (\<lambda>(mm, tags). map (\<lambda>(tk, tv). tag_val_storage_key d r mm tk tv) tags) tag_entries))
       in if us = [] \<and> novel = [] then (m, Inr ())
          else let batch = map (\<lambda>(_, v, meas). Put (meas_key d r (mm_name meas)) v) us
               in and_do (if novel = [] then meta_write env batch m else write_tag_values env batch novel m) (\<lambda>_ m.
                    (if us = [] then m
                     else m\<lparr>meas_cache := fold (\<lambda>(key, _, meas). hm_insert key meas) us (meas_cache m),
                            meas_list_cache := hm_remove d (meas_list_cache m)\<rparr>, Inr ())))"

section \<open>Tombstones, settings, continuous queries and views\<close>

definition tombstone_key :: "string \<Rightarrow> string \<Rightarrow> string \<Rightarrow> string" where
  "tombstone_key d r mm = ''tombstone:'' @ d @ '':'' @ r @ '':'' @ mm @ '':''"

definition store_tombstone :: "('d, 'q, 'w, 'y) meta_env \<Rightarrow> string \<Rightarrow> string \<Rightarrow> string \<Rightarrow> string \<Rightarrow> string
    \<Rightarrow> ('d, 'q, 'w) rocksdb_metadata \<Rightarrow> ('d, 'q, 'w) rocksdb_metadata \<times> (meta_error + string)" where
  "store_tombstone env uuid d r mm predicate_sql m =
     and_do (meta_write env [Put (tombstone_key d r mm @ uuid) (map (\<lambda>c. word_of_nat (of_char c)) predicate_sql)] m) (\<lambda>_ m.
       (m\<lparr>tombstone_cache := hm_remove (meas_cache_key d r mm) (tombstone_cache m)\<rparr>, Inr uuid))"

definition list_tombstones :: "('d, 'q, 'w, 'y) meta_env \<Rightarrow> string \<Rightarrow> string \<Rightarrow> string
    \<Rightarrow> ('d, 'q, 'w) rocksdb_metadata \<Rightarrow> ('d, 'q, 'w) rocksdb_metadata \<times> (meta_error + (string \<times> string) list)" where
  "list_tombstones env d r mm m =
     (case hm_get (tombstone_cache m) (meas_cache_key d r mm) of
        Some entries \<Rightarrow> (m, Inr entries)
      | None \<Rightarrow>
          and_do (m, meta_scan env (tombstone_key d r mm)
              (\<lambda>k v. RowTake (drop (length (tombstone_key d r mm)) k, map (\<lambda>b. char_of (unat b)) v)) (md_db m))
            (\<lambda>entries m. (m\<lparr>tombstone_cache := hm_insert (meas_cache_key d r mm) entries (tombstone_cache m)\<rparr>, Inr entries)))"

definition remove_tombstone :: "('d, 'q, 'w, 'y) meta_env \<Rightarrow> string \<Rightarrow> string
    \<Rightarrow> ('d, 'q, 'w) rocksdb_metadata \<Rightarrow> ('d, 'q, 'w) rocksdb_metadata \<times> (meta_error + unit)" where
  "remove_tombstone env d uuid m =
     and_do (m, nth_row (under (''tombstone:'' @ d @ '':'') (\<lambda>k _. if ends_with k uuid then RowTake k else RowSkip)) 0 0
          (rdb_iter_from (me_kv env) (md_db m) (''tombstone:'' @ d @ '':''))) (\<lambda>found m.
       case found of
         None \<Rightarrow> (m, Inr ())
       | Some k \<Rightarrow>
           and_do (meta_write env [Delete k] m) (\<lambda>_ m.
             (m\<lparr>tombstone_cache := hm_retain (\<lambda>c. \<not> starts_with c (d @ '':'')) (tombstone_cache m)\<rparr>, Inr ())))"

definition get_setting :: "('d, 'q, 'w, 'y) meta_env \<Rightarrow> string \<Rightarrow> ('d, 'q, 'w) rocksdb_metadata \<Rightarrow> meta_error + 'y option" where
  "get_setting env name m = meta_get env (mc_setting (me_codec env)) (''setting:'' @ name) (md_db m)"

definition set_setting :: "('d, 'q, 'w, 'y) meta_env \<Rightarrow> string \<Rightarrow> 'y option
    \<Rightarrow> ('d, 'q, 'w) rocksdb_metadata \<Rightarrow> ('d, 'q, 'w) rocksdb_metadata \<times> (meta_error + unit)" where
  "set_setting env name value m =
     (case value of
        Some v \<Rightarrow> meta_write env [Put (''setting:'' @ name) (case fst (mc_setting (me_codec env)) v of Inr b \<Rightarrow> b | Inl _ \<Rightarrow> [])] m
      | None \<Rightarrow> meta_write env [Delete (''setting:'' @ name)] m)"

definition cq_key :: "string \<Rightarrow> string \<Rightarrow> string" where
  "cq_key d name = ''cq:'' @ d @ '':'' @ name"

definition store_continuous_query :: "('d, 'q, 'w, 'y) meta_env \<Rightarrow> string \<Rightarrow> string \<Rightarrow> 'q
    \<Rightarrow> ('d, 'q, 'w) rocksdb_metadata \<Rightarrow> ('d, 'q, 'w) rocksdb_metadata \<times> (meta_error + unit)" where
  "store_continuous_query env d name definition m =
     and_do (meta_put env (mc_query (me_codec env)) (cq_key d name) definition m) (\<lambda>_ m. (m\<lparr>cq_cache := None\<rparr>, Inr ()))"

definition get_continuous_query :: "('d, 'q, 'w, 'y) meta_env \<Rightarrow> string \<Rightarrow> string \<Rightarrow> ('d, 'q, 'w) rocksdb_metadata
    \<Rightarrow> meta_error + 'q option" where
  "get_continuous_query env d name m = meta_get env (mc_query (me_codec env)) (cq_key d name) (md_db m)"

definition list_continuous_queries :: "('d, 'q, 'w, 'y) meta_env \<Rightarrow> string \<Rightarrow> ('d, 'q, 'w) rocksdb_metadata \<Rightarrow> meta_error + 'q list" where
  "list_continuous_queries env d m = meta_scan env (''cq:'' @ d @ '':'') (row_decode (mc_query (me_codec env))) (md_db m)"

definition list_all_continuous_queries :: "('d, 'q, 'w, 'y) meta_env \<Rightarrow> ('d, 'q, 'w) rocksdb_metadata
    \<Rightarrow> ('d, 'q, 'w) rocksdb_metadata \<times> (meta_error + 'q list)" where
  "list_all_continuous_queries env m =
     (case cq_cache m of
        Some entries \<Rightarrow> (m, Inr entries)
      | None \<Rightarrow>
          and_do (m, meta_scan env ''cq:'' (row_decode (mc_query (me_codec env))) (md_db m)) (\<lambda>entries m.
            (m\<lparr>cq_cache := Some entries\<rparr>, Inr entries)))"

definition drop_continuous_query :: "('d, 'q, 'w, 'y) meta_env \<Rightarrow> string \<Rightarrow> string
    \<Rightarrow> ('d, 'q, 'w) rocksdb_metadata \<Rightarrow> ('d, 'q, 'w) rocksdb_metadata \<times> (meta_error + unit)" where
  "drop_continuous_query env d name m =
     and_do (meta_write env [Delete (cq_key d name)] m) (\<lambda>_ m. (m\<lparr>cq_cache := None\<rparr>, Inr ()))"

definition mv_key :: "string \<Rightarrow> string \<Rightarrow> string" where
  "mv_key d name = ''mv:'' @ d @ '':'' @ name"

definition store_materialized_view :: "('d, 'q, 'w, 'y) meta_env \<Rightarrow> string \<Rightarrow> string \<Rightarrow> 'w
    \<Rightarrow> ('d, 'q, 'w) rocksdb_metadata \<Rightarrow> ('d, 'q, 'w) rocksdb_metadata \<times> (meta_error + unit)" where
  "store_materialized_view env d name definition m =
     and_do (meta_put env (mc_view (me_codec env)) (mv_key d name) definition m) (\<lambda>_ m. (m\<lparr>mv_cache := None\<rparr>, Inr ()))"

definition get_materialized_view :: "('d, 'q, 'w, 'y) meta_env \<Rightarrow> string \<Rightarrow> string \<Rightarrow> ('d, 'q, 'w) rocksdb_metadata
    \<Rightarrow> meta_error + 'w option" where
  "get_materialized_view env d name m = meta_get env (mc_view (me_codec env)) (mv_key d name) (md_db m)"

definition list_materialized_views :: "('d, 'q, 'w, 'y) meta_env \<Rightarrow> string \<Rightarrow> ('d, 'q, 'w) rocksdb_metadata \<Rightarrow> meta_error + 'w list" where
  "list_materialized_views env d m = meta_scan env (''mv:'' @ d @ '':'') (row_decode (mc_view (me_codec env))) (md_db m)"

definition list_all_materialized_views :: "('d, 'q, 'w, 'y) meta_env \<Rightarrow> ('d, 'q, 'w) rocksdb_metadata
    \<Rightarrow> ('d, 'q, 'w) rocksdb_metadata \<times> (meta_error + 'w list)" where
  "list_all_materialized_views env m =
     (case mv_cache m of
        Some entries \<Rightarrow> (m, Inr entries)
      | None \<Rightarrow>
          and_do (m, meta_scan env ''mv:'' (row_decode (mc_view (me_codec env))) (md_db m)) (\<lambda>entries m.
            (m\<lparr>mv_cache := Some entries\<rparr>, Inr entries)))"

definition drop_materialized_view :: "('d, 'q, 'w, 'y) meta_env \<Rightarrow> string \<Rightarrow> string
    \<Rightarrow> ('d, 'q, 'w) rocksdb_metadata \<Rightarrow> ('d, 'q, 'w) rocksdb_metadata \<times> (meta_error + unit)" where
  "drop_materialized_view env d name m =
     and_do (meta_write env [Delete (mv_key d name)] m) (\<lambda>_ m. (m\<lparr>mv_cache := None\<rparr>, Inr ()))"

section \<open>Replicated schema mutations\<close>

datatype ('q, 'w, 'y) mutation_request =
    CreateDatabase string "retention_policy option"
  | DropDatabase string
  | CreateRetentionPolicy string retention_policy
  | DropRetentionPolicy string string
  | CreateUser string string bool
  | DropUser string
  | SetPassword string string
  | DeleteWhere string string string string
  | CreateContinuousQuery string string 'q
  | DropContinuousQuery string string
  | CreateMaterializedView string string 'w "measurement_meta option"
  | DropMaterializedView string string
  | AlterRetentionPolicy string string retention_policy_change
  | DropSeries string string "string option" string
  | DropMeasurement string string string
  | Grant string "string option" database_privilege
  | Revoke string "string option" database_privilege
  | SetSetting string "'y option"

definition apply_create_database :: "('d, 'q, 'w, 'y) meta_env \<Rightarrow> string \<Rightarrow> retention_policy option
    \<Rightarrow> ('d, 'q, 'w) rocksdb_metadata \<Rightarrow> ('d, 'q, 'w) rocksdb_metadata \<times> (meta_error + unit)" where
  "apply_create_database env name rp m =
     (case rp of
        Some rp \<Rightarrow> create_database_with env (create_database_statement_from_rp name rp) m
      | None \<Rightarrow> create_database env name m)"

text \<open>\<open>database_drop::drop_database\<close> without views, log and sink: the measurements are listed for the
  tables to drop, and a failed listing ends the drop.\<close>

fun measurements_of_policies :: "('d, 'q, 'w, 'y) meta_env \<Rightarrow> string \<Rightarrow> retention_policy list
    \<Rightarrow> ('d, 'q, 'w) rocksdb_metadata \<Rightarrow> meta_error + (string \<times> string) list" where
  "measurements_of_policies env name [] m = Inr []"
| "measurements_of_policies env name (rp # rps) m =
     and_then (list_measurements_for_rp env name (rp_name rp) m) (\<lambda>ms.
     and_then (measurements_of_policies env name rps m) (\<lambda>rest. Inr (map (\<lambda>x. (rp_name rp, x)) ms @ rest)))"

definition drop_database_locally :: "('d, 'q, 'w, 'y) meta_env \<Rightarrow> string
    \<Rightarrow> ('d, 'q, 'w) rocksdb_metadata \<Rightarrow> ('d, 'q, 'w) rocksdb_metadata \<times> (meta_error + unit)" where
  "drop_database_locally env name m =
     and_do (find_database env name m) (\<lambda>_ m.
     and_do (list_retention_policies env name m) (\<lambda>rps m.
     and_do (m, measurements_of_policies env name rps m) (\<lambda>_ m. drop_database env name m)))"

definition apply_schema_mutation :: "('d, 'q, 'w, 'y) meta_env \<Rightarrow> string \<Rightarrow> string \<Rightarrow> ('q, 'w, 'y) mutation_request
    \<Rightarrow> ('d, 'q, 'w) rocksdb_metadata \<Rightarrow> ('d, 'q, 'w) rocksdb_metadata \<times> (meta_error + unit)" where
  "apply_schema_mutation env now uuid mutation m =
     (case mutation of
        CreateDatabase name rp \<Rightarrow> apply_create_database env name rp m
      | DropDatabase name \<Rightarrow> drop_database_locally env name m
      | CreateRetentionPolicy d rp \<Rightarrow> create_retention_policy env d rp m
      | DropRetentionPolicy d name \<Rightarrow> drop_retention_policy env d name m
      | CreateUser name hash adm \<Rightarrow> create_user env now name hash adm m
      | DropUser name \<Rightarrow> drop_user env name m
      | SetPassword name hash \<Rightarrow> set_password env now name hash m
      | DeleteWhere d r mm predicate_sql \<Rightarrow>
          and_do (store_tombstone env uuid d r mm predicate_sql m) (\<lambda>_ m.
          and_do (delete_series_matching env d r (Some mm) predicate_sql m) (\<lambda>_ m. (m, Inr ())))
      | CreateContinuousQuery d name q \<Rightarrow> store_continuous_query env d name q m
      | DropContinuousQuery d name \<Rightarrow> drop_continuous_query env d name m
      | CreateMaterializedView d name w source_meta \<Rightarrow> store_materialized_view env d name w m
      | DropMaterializedView d name \<Rightarrow> drop_materialized_view env d name m
      | AlterRetentionPolicy d name change \<Rightarrow> alter_retention_policy env d name change m
      | DropSeries d r meas predicate_sql \<Rightarrow>
          and_do (if predicate_sql \<noteq> [] \<and> meas \<noteq> None
                  then and_do (store_tombstone env uuid d r (case meas of Some mm \<Rightarrow> mm | None \<Rightarrow> []) predicate_sql m) (\<lambda>_ m. (m, Inr ()))
                  else (m, Inr ())) (\<lambda>_ m.
          and_do (delete_series_matching env d r meas predicate_sql m) (\<lambda>_ m. (m, Inr ())))
      | DropMeasurement d r name \<Rightarrow> delete_measurement env d r name m
      | Grant name database privilege \<Rightarrow>
          (case database of
             Some d \<Rightarrow> grant_privilege env name d privilege m
           | None \<Rightarrow> set_admin env name True m)
      | Revoke name database privilege \<Rightarrow>
          (case database of
             Some d \<Rightarrow> revoke_privilege env name d privilege m
           | None \<Rightarrow> set_admin env name False m)
      | SetSetting name value \<Rightarrow> set_setting env name value m)"

end
