(* ===== verification/Metadata_Refine.thy ===== *)
theory Metadata_Refine
  imports Metadata_Schema
begin

text \<open>
  The databases and users of the metadata store: whatever sequence of replicated schema mutations,
  ingests, reads and restarts a node goes through, its store answers as two plain maps would. The
  contract of a table with a write-through cache is the locale \<open>cached_table\<close>, interpreted on the
  databases and on the users of the store.
\<close>

section \<open>Results of a step\<close>

text \<open>The state and the answer of a step, against those of its specification.\<close>

definition lands :: "('m \<Rightarrow> 's \<Rightarrow> bool) \<Rightarrow> 'm \<times> 'r \<Rightarrow> 's \<times> 'r \<Rightarrow> bool" where
  "lands R res out \<longleftrightarrow> R (fst res) (fst out) \<and> snd res = snd out"

lemma lands_and_do:
  assumes "lands R res (s, Inr x)" and "\<And>m. R m s \<Longrightarrow> lands R (g x m) out"
  shows "lands R (and_do res g) out"
  using assms by (cases res) (auto simp: lands_def and_do_def)

lemma lands_and_do_error: "lands R res (s, Inl e) \<Longrightarrow> lands R (and_do res g) (s, Inl e)"
  by (cases res) (auto simp: lands_def and_do_def)

lemma lands_pair [simp]: "lands R (m, r) (s, r') \<longleftrightarrow> R m s \<and> r = r'"
  by (simp add: lands_def)

section \<open>Writes and scans\<close>

definition meta_store_ok :: "('d, 'q, 'w, 'y) meta_env \<Rightarrow> ('d \<Rightarrow> string \<Rightarrow> u8 list option) \<Rightarrow> bool" where
  "meta_store_ok env rows \<longleftrightarrow> rocks_laws (me_kv env) rows \<and> rocks_reliable (me_kv env)"

lemma meta_write_ok:
  assumes "meta_store_ok env rows"
  obtains d' where "meta_write env ops m = (m\<lparr>md_db := d'\<rparr>, Inr ())" and "rows d' = fold batch_effect ops (rows (md_db m))"
proof -
  from assms have laws: "rocks_laws (me_kv env) rows" and reliable: "rocks_reliable (me_kv env)" by (simp_all add: meta_store_ok_def)
  obtain d' where "rdb_write (me_kv env) (md_db m) ops = (d', Inr ())" "rows d' = fold batch_effect ops (rows (md_db m))"
    by (rule reliable_write [OF reliable laws, of "md_db m" ops])
  then show ?thesis by (intro that [of d']) (simp_all add: meta_write_def)
qed

lemma meta_put_ok:
  assumes "meta_store_ok env rows" and "json_codec c"
  obtains d' b where "meta_put env c k x m = (m\<lparr>md_db := d'\<rparr>, Inr ())" and "rows d' = (rows (md_db m))(k \<mapsto> b)" and "snd c b = Inr x"
proof -
  obtain b where b: "fst c x = Inr b" "snd c b = Inr x" by (rule json_codecE [OF assms(2), of x])
  obtain d' where "meta_write env [Put k b] m = (m\<lparr>md_db := d'\<rparr>, Inr ())" "rows d' = fold batch_effect [Put k b] (rows (md_db m))"
    by (rule meta_write_ok [OF assms(1), of "[Put k b]" m])
  with b show ?thesis by (intro that [of d' b]) (simp_all add: meta_put_def meta_encode_def)
qed

lemma meta_get_holds:
  assumes "meta_store_ok env rows" and "row_holds c (rows d k) x"
  shows "meta_get env c k d = Inr x"
  using assms rdb_get_rows [of "me_kv env" rows d k]
  by (auto simp: meta_get_def meta_store_ok_def row_holds_def split: option.splits)

text \<open>What a scan takes of the rows under its prefix, if nothing stops or fails it.\<close>

definition takes :: "'x row_step \<Rightarrow> 'x list" where
  "takes s = (case s of RowTake x \<Rightarrow> [x] | _ \<Rightarrow> [])"

lemma scan_rows_map:
  assumes "\<And>k v. (k, v) \<in> set items \<Longrightarrow> starts_with k p \<Longrightarrow> (\<exists>x. f k v = RowTake x) \<or> f k v = RowSkip"
  shows "scan_rows (under p f) (map Inr items)
    = Inr (concat (map (\<lambda>(k, v). takes (f k v)) (takeWhile (\<lambda>(k, _). starts_with k p) items)))"
  using assms
proof (induction items)
  case (Cons item items)
  obtain k v where item: "item = (k, v)" by fastforce
  have "\<And>k v. (k, v) \<in> set items \<Longrightarrow> starts_with k p \<Longrightarrow> (\<exists>x. f k v = RowTake x) \<or> f k v = RowSkip"
    using Cons.prems by simp
  from Cons.IH [OF this] Cons.prems [of k v] show ?case
    by (auto simp: item under_def takes_def and_then_def)
qed simp

lemma meta_scan_rows:
  assumes "meta_store_ok env rows" and "\<And>k v. starts_with k p \<Longrightarrow> rows d k = Some v \<Longrightarrow> (\<exists>x. f k v = RowTake x) \<or> f k v = RowSkip"
  shows "meta_scan env p f d = Inr (concat (map (\<lambda>(k, v). takes (f k v)) (scan_prefix (me_kv env) d p)))"
proof -
  have laws: "rocks_laws (me_kv env) rows" using assms(1) by (simp add: meta_store_ok_def)
  obtain items where items: "rdb_iter_from (me_kv env) d p = map Inr items" "sorted_wrt (<) (map fst items)"
    "set items = {(k, v). rows d k = Some v \<and> p \<le> k}"
    by (rule iter_items [OF laws, of d p])
  have "scan_rows (under p f) (map Inr items)
      = Inr (concat (map (\<lambda>(k, v). takes (f k v)) (takeWhile (\<lambda>(k, _). starts_with k p) items)))"
    by (rule scan_rows_map) (use assms(2) items(3) in auto)
  then show ?thesis by (simp add: meta_scan_def items(1) scan_prefix_def)
qed

lemma scan_rows_total:
  assumes "\<And>k v e. f k v \<noteq> RowFail e"
  shows "\<exists>xs. scan_rows (under p f) (map Inr items) = Inr xs \<and> (\<forall>x\<in>set xs. \<exists>k v. starts_with k p \<and> f k v = RowTake x)"
proof (induction items)
  case (Cons item items)
  obtain k v where item: "item = (k, v)" by fastforce
  show ?case
  proof (cases "starts_with k p")
    case True
    with Cons item assms [of k v] show ?thesis by (cases "f k v"; auto simp: under_def and_then_def; metis)
  qed (simp add: item under_def)
qed simp

lemma meta_scan_total:
  assumes "meta_store_ok env rows" and "\<And>k v e. f k v \<noteq> RowFail e"
  obtains xs where "meta_scan env p f d = Inr xs" "\<forall>x\<in>set xs. \<exists>k v. starts_with k p \<and> f k v = RowTake x"
proof -
  have laws: "rocks_laws (me_kv env) rows" using assms(1) by (simp add: meta_store_ok_def)
  obtain items where "rdb_iter_from (me_kv env) d p = map Inr items" by (rule iter_items [OF laws, of d p])
  then show ?thesis using scan_rows_total [of f p items, OF assms(2)] that by (auto simp: meta_scan_def)
qed

text \<open>The names under a prefix come in order.\<close>

lemma append_less_iff [simp]: "p @ a < p @ (b :: string) \<longleftrightarrow> a < b"
  by (induction p) auto

lemma scan_names:
  assumes "meta_store_ok env rows"
  shows "map (\<lambda>(k, v). drop (length p) k) (scan_prefix (me_kv env) d p) = sorted_list_of_set {n. rows d (p @ n) \<noteq> None}"
proof -
  let ?l = "scan_prefix (me_kv env) d p"
  have laws: "rocks_laws (me_kv env) rows" using assms by (simp add: meta_store_ok_def)
  have key: "k = p @ drop (length p) k" if "(k, v) \<in> set ?l" for k v
    using that scan_prefix_rows(1) [OF laws, of d p] unfolding starts_with_def
    by simp (metis append_take_drop_id)
  have names: "map fst ?l = map (\<lambda>n. p @ n) (map (\<lambda>(k, v). drop (length p) k) ?l)"
    using key by (auto simp: split_def)
  have "sorted_wrt (<) (map (\<lambda>n. p @ n) (map (\<lambda>(k, v). drop (length p) k) ?l))"
    using scan_prefix_rows(2) [OF laws, of d p] unfolding names .
  then have "sorted_wrt (<) (map (\<lambda>(k, v). drop (length p) k) ?l)"
    by (simp add: sorted_wrt_map)
  moreover have "set (map (\<lambda>(k, v). drop (length p) k) ?l) = {n. rows d (p @ n) \<noteq> None}"
  proof (intro set_eqI iffI)
    fix n assume "n \<in> {n. rows d (p @ n) \<noteq> None}"
    then obtain v where "rows d (p @ n) = Some v" by auto
    then have "(p @ n, v) \<in> set ?l" using scan_prefix_rows(1) [OF laws, of d p] by (simp add: starts_with_def)
    then show "n \<in> set (map (\<lambda>(k, v). drop (length p) k) ?l)" by force
  next
    fix n assume "n \<in> set (map (\<lambda>(k, v). drop (length p) k) ?l)"
    then obtain k v where kv: "(k, v) \<in> set ?l" "n = drop (length p) k" by auto
    from key [OF kv(1)] kv(2) have "p @ n = k" by simp
    moreover have "rows d k = Some v" using kv(1) scan_prefix_rows(1) [OF laws, of d p] by simp
    ultimately show "n \<in> {n. rows d (p @ n) \<noteq> None}" by simp
  qed
  ultimately show ?thesis
    using sorted_list_of_set.idem_if_sorted_distinct [of "map (\<lambda>(k, v). drop (length p) k) ?l"]
    by (simp only: strict_sorted_iff)
qed

section \<open>Tables with a write-through cache\<close>

text \<open>
  A table of the store: rows under a prefix and a cache of them. A value may be stored in a normal
  form (\<open>norm\<close>); the cache keeps the value as it was given. The client's view is the map \<open>T\<close>.
\<close>

definition table_holds :: "'x serializer \<Rightarrow> string \<Rightarrow> ('x \<Rightarrow> 'x) \<Rightarrow> (('d, 'q, 'w) rocksdb_metadata \<Rightarrow> (string, 'x) hash_map)
    \<Rightarrow> ('d \<Rightarrow> string \<Rightarrow> u8 list option) \<Rightarrow> ('d, 'q, 'w) rocksdb_metadata \<Rightarrow> (string \<Rightarrow> 'x option) \<Rightarrow> bool" where
  "table_holds codec pre norm cache rows m T \<longleftrightarrow> hm_wf (cache m) \<and>
     (\<forall>n. row_holds codec (rows (md_db m) (pre @ n)) (map_option norm (T n)) \<and>
          (\<forall>x. hm_get (cache m) n = Some x \<longrightarrow> T n = Some x) \<and>
          (hm_get (cache m) n = None \<longrightarrow> map_option norm (T n) = T n))"

locale cached_table =
  fixes env :: "('d, 'q, 'w, 'y) meta_env"
    and codec :: "'x serializer"
    and pre :: string
    and norm :: "'x \<Rightarrow> 'x"
    and cache :: "('d, 'q, 'w) rocksdb_metadata \<Rightarrow> (string, 'x) hash_map"
    and with_cache :: "((string, 'x) hash_map \<Rightarrow> (string, 'x) hash_map) \<Rightarrow> ('d, 'q, 'w) rocksdb_metadata \<Rightarrow> ('d, 'q, 'w) rocksdb_metadata"
    and get :: "string \<Rightarrow> ('d, 'q, 'w) rocksdb_metadata \<Rightarrow> ('d, 'q, 'w) rocksdb_metadata \<times> (meta_error + 'x option)"
    and put :: "string \<Rightarrow> 'x \<Rightarrow> ('d, 'q, 'w) rocksdb_metadata \<Rightarrow> ('d, 'q, 'w) rocksdb_metadata \<times> (meta_error + unit)"
  assumes norm_norm: "norm (norm x) = norm x"
    and cache_with: "cache (with_cache f m) = f (cache m)"
    and db_with: "md_db (with_cache f m) = md_db m"
    and cache_db: "cache (m\<lparr>md_db := d\<rparr>) = cache m"
    and get_eq: "get n m =
      (case hm_get (cache m) n of
         Some x \<Rightarrow> (m, Inr (Some x))
       | None \<Rightarrow>
           (case meta_get env codec (pre @ n) (md_db m) of
              Inl e \<Rightarrow> (m, Inl e)
            | Inr None \<Rightarrow> (m, Inr None)
            | Inr (Some x) \<Rightarrow> (with_cache (hm_insert n x) m, Inr (Some x))))"
    and put_eq: "put n x m =
      and_do (meta_put env codec (pre @ n) (norm x) m) (\<lambda>_ m. (with_cache (hm_insert n x) m, Inr ()))"
begin

lemma holds_frame:
  assumes "table_holds codec pre norm cache rows m T" and "cache m' = cache m" and "\<And>n. rows (md_db m') (pre @ n) = rows (md_db m) (pre @ n)"
  shows "table_holds codec pre norm cache rows m' T"
  using assms by (simp add: table_holds_def)

lemma get_holds:
  assumes ok: "meta_store_ok env rows" and rel: "table_holds codec pre norm cache rows m T"
  obtains m' where "get n m = (m', Inr (T n))" and "table_holds codec pre norm cache rows m' T" and "m' = m \<or> (\<exists>x. m' = with_cache (hm_insert n x) m)"
proof (cases "hm_get (cache m) n")
  case (Some x)
  then have "T n = Some x" using rel by (auto simp: table_holds_def dest: spec [of _ n])
  with Some rel show ?thesis by (intro that [of m]) (simp_all add: get_eq)
next
  case None
  then have norm: "map_option norm (T n) = T n" using rel by (auto simp: table_holds_def dest: spec [of _ n])
  have "row_holds codec (rows (md_db m) (pre @ n)) (T n)"
    using rel norm unfolding table_holds_def by metis
  then have get: "meta_get env codec (pre @ n) (md_db m) = Inr (T n)" by (rule meta_get_holds [OF ok])
  show ?thesis
  proof (cases "T n")
    case None
    with \<open>hm_get (cache m) n = None\<close> get rel show ?thesis by (intro that [of m]) (simp_all add: get_eq)
  next
    case (Some x)
    have "table_holds codec pre norm cache rows (with_cache (hm_insert n x) m) T"
      using rel Some by (auto simp: table_holds_def cache_with db_with hm.get_ins hm.wf_ins)
    with \<open>hm_get (cache m) n = None\<close> get Some show ?thesis
      by (intro that [of "with_cache (hm_insert n x) m"]) (auto simp: get_eq)
  qed
qed

lemma put_holds:
  assumes ok: "meta_store_ok env rows" and codec: "json_codec codec" and rel: "table_holds codec pre norm cache rows m T"
  obtains d' b where "put n x m = (with_cache (hm_insert n x) (m\<lparr>md_db := d'\<rparr>), Inr ())"
    and "table_holds codec pre norm cache rows (with_cache (hm_insert n x) (m\<lparr>md_db := d'\<rparr>)) (T(n \<mapsto> x))"
    and "rows d' = (rows (md_db m))(pre @ n \<mapsto> b)"
proof -
  obtain d' b where put: "meta_put env codec (pre @ n) (norm x) m = (m\<lparr>md_db := d'\<rparr>, Inr ())"
    "rows d' = (rows (md_db m))(pre @ n \<mapsto> b)" "snd codec b = Inr (norm x)"
    by (rule meta_put_ok [OF ok codec])
  have "table_holds codec pre norm cache rows (with_cache (hm_insert n x) (m\<lparr>md_db := d'\<rparr>)) (T(n \<mapsto> x))"
    using rel put(2,3) by (auto simp: table_holds_def cache_with db_with cache_db hm.get_ins hm.wf_ins row_holds_def)
  with put show ?thesis by (intro that [of d' b]) (simp_all add: put_eq)
qed

lemma remove_holds:
  assumes "table_holds codec pre norm cache rows m T" and "hm_get (cache m') = (hm_get (cache m))(n := None)" and "hm_wf (cache m')"
    and "\<And>x. rows (md_db m') (pre @ x) = (if x = n then None else rows (md_db m) (pre @ x))"
  shows "table_holds codec pre norm cache rows m' (T(n := None))"
  using assms by (auto simp: table_holds_def row_holds_def)

lemma restart_holds:
  assumes "table_holds codec pre norm cache rows m T" and "cache m' = []" and "md_db m' = md_db m"
  shows "table_holds codec pre norm cache rows m' (\<lambda>n. map_option norm (T n))"
  using assms by (auto simp: table_holds_def hm_wf_def option.map_comp comp_def norm_norm)

lemma names_holds: "table_holds codec pre norm cache rows m T \<Longrightarrow> rows (md_db m) (pre @ n) = None \<longleftrightarrow> T n = None"
  by (auto simp: table_holds_def row_holds_def dest!: spec [of _ n] split: option.splits)

lemma decode_holds:
  assumes "table_holds codec pre norm cache rows m T" and "rows (md_db m) (pre @ n) = Some v"
  shows "row_decode codec k v = RowTake (norm (the (T n)))"
  using assms by (auto simp: table_holds_def row_holds_def row_decode_def dest!: spec [of _ n])

lemma list_holds:
  assumes ok: "meta_store_ok env rows" and rel: "table_holds codec pre norm cache rows m T"
  shows "meta_scan env pre (row_decode codec) (md_db m) = Inr (map (norm \<circ> the \<circ> T) (sorted_list_of_set (dom T)))"
proof -
  let ?l = "scan_prefix (me_kv env) (md_db m) pre"
  have laws: "rocks_laws (me_kv env) rows" using ok by (simp add: meta_store_ok_def)
  have decode: "row_decode codec k v = RowTake (norm (the (T (drop (length pre) k))))"
    if "starts_with k pre" "rows (md_db m) k = Some v" for k v
  proof -
    have "k = pre @ drop (length pre) k" using that(1) unfolding starts_with_def by (metis append_take_drop_id)
    then show ?thesis using decode_holds [OF rel, of "drop (length pre) k" v k] that(2) by simp
  qed
  have "meta_scan env pre (row_decode codec) (md_db m) = Inr (concat (map (\<lambda>(k, v). takes (row_decode codec k v)) ?l))"
    by (rule meta_scan_rows [OF ok]) (use decode in blast)
  also have "concat (map (\<lambda>(k, v). takes (row_decode codec k v)) ?l)
      = concat (map (\<lambda>(k, v). [norm (the (T (drop (length pre) k)))]) ?l)"
    using scan_prefix_rows(1) [OF laws, of "md_db m" pre] decode
    by (intro arg_cong [of _ _ concat] map_cong) (auto simp: takes_def)
  also have "\<dots> = map (norm \<circ> the \<circ> T) (map (\<lambda>(k, v). drop (length pre) k) ?l)"
    by (simp add: split_def concat_map_singleton comp_def)
  also have "map (\<lambda>(k, v). drop (length pre) k) ?l = sorted_list_of_set (dom T)"
    using scan_names [OF ok, of pre "md_db m"] names_holds [OF rel] by (simp add: dom_def)
  finally show ?thesis .
qed

end

interpretation dbs: cached_table env "mc_database (me_codec env)" "''db:''" stored_database db_cache "\<lambda>f m. m\<lparr>db_cache := f (db_cache m)\<rparr>"
    "get_database env" "put_database env" for env
  by unfold_locales (auto simp: get_database_def put_database_def db_key_def split: option.splits sum.splits)

interpretation usr: cached_table env "mc_user (me_codec env)" "''user:''" "\<lambda>u. u" user_cache "\<lambda>f m. m\<lparr>user_cache := f (user_cache m)\<rparr>"
    "get_user env" "put_user env" for env
  by unfold_locales (auto simp: get_user_def put_user_def user_key_def split: option.splits sum.splits)

section \<open>What the store promises\<close>

record schema_spec =
  sp_databases :: "string \<Rightarrow> database option"
  sp_users :: "string \<Rightarrow> stored_user option"

definition on_database :: "string \<Rightarrow> (database \<Rightarrow> database) \<Rightarrow> schema_spec \<Rightarrow> schema_spec \<times> (meta_error + unit)" where
  "on_database d f sp =
     (case sp_databases sp d of
        None \<Rightarrow> (sp, Inl (DatabaseNotFound d))
      | Some x \<Rightarrow> (sp\<lparr>sp_databases := (sp_databases sp)(d \<mapsto> f x)\<rparr>, Inr ()))"

definition on_user :: "string \<Rightarrow> (stored_user \<Rightarrow> stored_user) \<Rightarrow> schema_spec \<Rightarrow> schema_spec \<times> (meta_error + unit)" where
  "on_user name f sp =
     (case sp_users sp name of
        None \<Rightarrow> (sp, Inl (UserNotFound name))
      | Some u \<Rightarrow> (sp\<lparr>sp_users := (sp_users sp)(name \<mapsto> f u)\<rparr>, Inr ()))"

definition less_privilege :: "string \<Rightarrow> database_privilege \<Rightarrow> stored_user \<Rightarrow> stored_user" where
  "less_privilege d revoked u =
     u\<lparr>privileges :=
        (case Option.bind (hm_get (privileges u) d) (\<lambda>p. without p revoked) of
           Some left \<Rightarrow> hm_insert d left (privileges u)
         | None \<Rightarrow> hm_remove d (privileges u))\<rparr>"

text \<open>A database that exists keeps its policies; the new one becomes the default.\<close>

definition spec_create_with :: "string \<Rightarrow> retention_policy option \<Rightarrow> schema_spec \<Rightarrow> schema_spec \<times> (meta_error + unit)" where
  "spec_create_with name policy sp =
     (let existing = sp_databases sp name;
          dbo = (case existing of Some x \<Rightarrow> x | None \<Rightarrow> new_database name);
          created = sp\<lparr>sp_databases := (sp_databases sp)(name \<mapsto> dbo)\<rparr>
      in case policy of
           None \<Rightarrow> (created, Inr ())
         | Some rp \<Rightarrow>
             (case Option.bind existing (find_policy (rp_name rp)) of
                Some old \<Rightarrow> (sp, if same_settings old rp then Inr () else Inl (PolicyConflict name))
              | None \<Rightarrow> (sp\<lparr>sp_databases := (sp_databases sp)(name \<mapsto> add_policy rp dbo)\<rparr>, Inr ())))"

fun spec_mutation :: "string \<Rightarrow> ('q, 'w, 'y) mutation_request \<Rightarrow> schema_spec \<Rightarrow> schema_spec \<times> (meta_error + unit)" where
  "spec_mutation now (CreateDatabase name rp) sp =
     spec_create_with name (Option.bind rp (\<lambda>rp. retention_policy_from_create (create_database_statement_from_rp name rp))) sp"
| "spec_mutation now (DropDatabase name) sp =
     (case sp_databases sp name of
        None \<Rightarrow> (sp, Inl (DatabaseNotFound name))
      | Some _ \<Rightarrow> (sp\<lparr>sp_databases := (sp_databases sp)(name := None)\<rparr>, Inr ()))"
| "spec_mutation now (CreateRetentionPolicy d rp) sp = on_database d (with_policy rp) sp"
| "spec_mutation now (DropRetentionPolicy d name) sp = on_database d (without_policy name) sp"
| "spec_mutation now (AlterRetentionPolicy d name ch) sp =
     (case sp_databases sp d of
        Some x \<Rightarrow> if find_policy name x = None then (sp, Inl (PolicyNotFound name)) else on_database d (alter_database name ch) sp
      | None \<Rightarrow> (sp, Inl (DatabaseNotFound d)))"
| "spec_mutation now (CreateUser name hash adm) sp =
     (sp\<lparr>sp_users := (sp_users sp)(name \<mapsto>
        (case sp_users sp name of
           Some u \<Rightarrow> u\<lparr>password_hash := hash, user_admin := adm\<rparr>
         | None \<Rightarrow> \<lparr>password_hash = hash, user_admin = adm, created_at = now, privileges = []\<rparr>))\<rparr>, Inr ())"
| "spec_mutation now (SetPassword name hash) sp =
     (sp\<lparr>sp_users := (sp_users sp)(name \<mapsto>
        (case sp_users sp name of
           Some u \<Rightarrow> u\<lparr>password_hash := hash\<rparr>
         | None \<Rightarrow> \<lparr>password_hash = hash, user_admin = False, created_at = now, privileges = []\<rparr>))\<rparr>, Inr ())"
| "spec_mutation now (DropUser name) sp = (sp\<lparr>sp_users := (sp_users sp)(name := None)\<rparr>, Inr ())"
| "spec_mutation now (Grant name (Some d) p) sp = on_user name (\<lambda>u. u\<lparr>privileges := hm_insert d p (privileges u)\<rparr>) sp"
| "spec_mutation now (Grant name None p) sp = (fst (on_user name (\<lambda>u. u\<lparr>user_admin := True\<rparr>) sp), Inr ())"
| "spec_mutation now (Revoke name (Some d) p) sp = on_user name (less_privilege d p) sp"
| "spec_mutation now (Revoke name None p) sp = (fst (on_user name (\<lambda>u. u\<lparr>user_admin := False\<rparr>) sp), Inr ())"
| "spec_mutation now _ sp = (sp, Inr ())"

definition meta_codec_ok :: "('q, 'w, 'y) meta_codec \<Rightarrow> bool" where
  "meta_codec_ok c \<longleftrightarrow> json_codec (mc_database c) \<and> json_codec (mc_user c) \<and> json_codec (mc_measurement c)
     \<and> json_codec (mc_tags c) \<and> json_codec (mc_query c) \<and> json_codec (mc_view c)"

definition schema_rel :: "('d, 'q, 'w, 'y) meta_env \<Rightarrow> ('d \<Rightarrow> string \<Rightarrow> u8 list option) \<Rightarrow> ('d, 'q, 'w) rocksdb_metadata \<Rightarrow> schema_spec \<Rightarrow> bool" where
  "schema_rel env rows m sp \<longleftrightarrow> table_holds (mc_database (me_codec env)) ''db:'' stored_database db_cache rows m (sp_databases sp) \<and> table_holds (mc_user (me_codec env)) ''user:'' (\<lambda>u. u) user_cache rows m (sp_users sp)"

section \<open>Steps that leave databases and users alone\<close>

definition same_schema_rows :: "('d \<Rightarrow> string \<Rightarrow> u8 list option) \<Rightarrow> ('d, 'q, 'w) rocksdb_metadata \<Rightarrow> ('d, 'q, 'w) rocksdb_metadata \<Rightarrow> bool" where
  "same_schema_rows rows m m' \<longleftrightarrow> db_cache m' = db_cache m \<and> user_cache m' = user_cache m
     \<and> (\<forall>n. rows (md_db m') (''db:'' @ n) = rows (md_db m) (''db:'' @ n))
     \<and> (\<forall>n. rows (md_db m') (''user:'' @ n) = rows (md_db m) (''user:'' @ n))"

definition quiet :: "('d \<Rightarrow> string \<Rightarrow> u8 list option) \<Rightarrow> (('d, 'q, 'w) rocksdb_metadata \<Rightarrow> ('d, 'q, 'w) rocksdb_metadata \<times> (meta_error + 'a)) \<Rightarrow> bool" where
  "quiet rows op \<longleftrightarrow> (\<forall>m. same_schema_rows rows m (fst (op m)) \<and> (\<exists>x. snd (op m) = Inr x))"

lemma quiet_return [simp, intro]: "quiet rows (\<lambda>m. (f m, Inr (x m)))" if "\<And>m. same_schema_rows rows m (f m)"
  using that by (simp add: quiet_def)

lemma quiet_and_do:
  assumes "quiet rows op" and "\<And>m x. snd (op m) = Inr x \<Longrightarrow> quiet rows (g x)"
  shows "quiet rows (\<lambda>m. and_do (op m) g)"
  unfolding quiet_def
proof
  fix m
  obtain m1 x where m1: "op m = (m1, Inr x)" "same_schema_rows rows m m1"
    using assms(1) unfolding quiet_def by (metis prod.collapse)
  then show "same_schema_rows rows m (fst (and_do (op m) g)) \<and> (\<exists>x. snd (and_do (op m) g) = Inr x)"
    using assms(2) [of m x] unfolding quiet_def by (auto simp: same_schema_rows_def)
qed

lemma quiet_lands:
  assumes "quiet rows op" and "schema_rel env rows m sp"
  obtains x where "lands (schema_rel env rows) (op m) (sp, Inr x)"
proof -
  have same: "same_schema_rows rows m (fst (op m))" using assms(1) by (simp add: quiet_def)
  obtain x where "snd (op m) = Inr x" using assms(1) unfolding quiet_def by blast
  moreover have "schema_rel env rows (fst (op m)) sp"
    using assms(2) same dbs.holds_frame [of env rows m "sp_databases sp" "fst (op m)"] usr.holds_frame [of env rows m "sp_users sp" "fst (op m)"]
    by (simp add: schema_rel_def same_schema_rows_def)
  ultimately show ?thesis by (intro that [of x]) (simp add: lands_def)
qed

text \<open>Keys of other tables, told by their first letter.\<close>

definition foreign :: "string \<Rightarrow> bool" where
  "foreign k \<longleftrightarrow> k \<noteq> [] \<and> hd k \<noteq> CHR ''d'' \<and> hd k \<noteq> CHR ''u''"

fun foreign_op :: "(string, u8 list) batch_op \<Rightarrow> bool" where
  "foreign_op (Put k v) = foreign k"
| "foreign_op (Delete k) = foreign k"
| "foreign_op (DeleteRange a b) = (foreign a \<and> b \<noteq> [] \<and> hd b = hd a)"

lemma foreign_range:
  assumes "foreign a" "b \<noteq> []" "hd b = hd a" "a \<le> k" "k < b"
  shows "foreign k"
proof -
  obtain c as where "a = c # as" using assms(1) by (cases a) (auto simp: foreign_def)
  moreover from this obtain bs where "b = c # bs" using assms(2,3) by (cases b) auto
  ultimately have "k \<noteq> [] \<and> hd k = c" using assms(4,5) by (cases k) auto
  with assms(1) \<open>a = c # as\<close> show ?thesis by (simp add: foreign_def)
qed

lemma foreign_effect: "list_all foreign_op ops \<Longrightarrow> \<not> foreign k \<Longrightarrow> fold batch_effect ops R k = R k"
proof (induction ops arbitrary: R)
  case (Cons op ops)
  then have "batch_effect op R k = R k" by (cases op) (auto dest: foreign_range)
  with Cons show ?case by simp
qed simp

lemma own_keys [simp]: "\<not> foreign (CHR ''d'' # n)" "\<not> foreign (CHR ''u'' # n)"
  by (simp_all add: foreign_def)

lemma quiet_write:
  assumes "meta_store_ok env rows" and "list_all foreign_op ops"
  shows "quiet rows (meta_write env ops)"
  unfolding quiet_def
proof
  fix m
  obtain d' where w: "meta_write env ops m = (m\<lparr>md_db := d'\<rparr>, Inr ())" "rows d' = fold batch_effect ops (rows (md_db m))"
    by (rule meta_write_ok [OF assms(1), of ops m])
  then show "same_schema_rows rows m (fst (meta_write env ops m)) \<and> (\<exists>x. snd (meta_write env ops m) = Inr x)"
    by (simp add: same_schema_rows_def foreign_effect [OF assms(2)])
qed

lemma quiet_encode: "json_codec c \<Longrightarrow> quiet rows (\<lambda>m. (m, meta_encode c x))"
  by (rule json_codecE [of c x]) (auto simp: quiet_def same_schema_rows_def meta_encode_def)

lemma quiet_put:
  assumes "meta_store_ok env rows" and "json_codec c" and "foreign k"
  shows "quiet rows (meta_put env c k x)"
  unfolding meta_put_def [abs_def]
  by (rule quiet_and_do [OF quiet_encode [OF assms(2)]]) (use quiet_write [OF assms(1)] assms(3) in simp)

lemma quiet_scan:
  assumes "meta_store_ok env rows" and "\<And>k v e. f k v \<noteq> RowFail e"
  shows "quiet rows (\<lambda>m. (m, meta_scan env p f (md_db m)))"
proof -
  have "\<exists>xs. meta_scan env p f d = Inr xs" for d
    by (rule meta_scan_total [where f = f and p = p and d = d, OF assms]) simp
  then show ?thesis by (simp add: quiet_def same_schema_rows_def)
qed

lemma scan_foreign:
  assumes "meta_store_ok env rows" and "\<And>k v. f k v \<in> {RowTake k, RowSkip, RowStop}" and "foreign p" and "meta_scan env p f d = Inr ks"
  shows "list_all foreign ks"
proof -
  have total: "f k v \<noteq> RowFail e" for k v e using assms(2) [of k v] by auto
  obtain xs where xs: "meta_scan env p f d = Inr xs" "\<forall>x\<in>set xs. \<exists>k v. starts_with k p \<and> f k v = RowTake x"
    by (rule meta_scan_total [where f = f and p = p and d = d, OF assms(1) total])
  have "foreign k" if "k \<in> set ks" for k
  proof -
    have "k \<in> set xs" using that xs(1) assms(4) by simp
    with xs(2) obtain k' v where "starts_with k' p" "f k' v = RowTake k" by blast
    with assms(2) [of k' v] have "starts_with k p" by auto
    with assms(3) show ?thesis by (cases p; cases k) (auto simp: foreign_def starts_with_def)
  qed
  then show ?thesis by (simp add: list_all_iff)
qed

lemma quiet_delete_each:
  assumes "meta_store_ok env rows" and "list_all foreign ks"
  shows "quiet rows (delete_each env ks)"
  using assms(2)
proof (induction ks)
  case (Cons k ks)
  have "quiet rows (\<lambda>m. and_do (meta_write env [Delete k] m) (\<lambda>_ m. delete_each env ks m))"
    by (rule quiet_and_do) (use Cons quiet_write [OF assms(1)] in simp_all)
  then show ?case by (simp add: quiet_def)
qed (simp add: quiet_def same_schema_rows_def)

text \<open>Deleting the rows a scan finds, with an update of caches that are not of databases or users.\<close>

lemma quiet_delete_scan:
  fixes env :: "('d, 'q, 'w, 'y) meta_env"
  assumes "meta_store_ok env rows" and "\<And>k v. f k v \<in> {RowTake k, RowSkip, RowStop}" and "foreign p"
    and "\<And>keys m. same_schema_rows rows m (fst (h keys m))" "\<And>keys m. \<exists>x. snd (h keys m) = Inr x"
  shows "quiet rows (\<lambda>m. and_do (m, meta_scan env p f (md_db m)) (\<lambda>keys m. and_do (delete_each env keys m) (\<lambda>_ m. h keys m)))"
proof (rule quiet_and_do)
  have "f k v \<noteq> RowFail e" for k v e using assms(2) [of k v] by auto
  then show "quiet rows (\<lambda>m. (m, meta_scan env p f (md_db m)))" by (rule quiet_scan [OF assms(1)])
  fix m :: "('d, 'q, 'w) rocksdb_metadata" and keys
  assume "snd (m, meta_scan env p f (md_db m)) = Inr keys"
  then have "list_all foreign keys" using scan_foreign [OF assms(1-3)] by simp
  then show "quiet rows (\<lambda>m. and_do (delete_each env keys m) (\<lambda>_ m. h keys m))"
    by (intro quiet_and_do quiet_delete_each [OF assms(1)]) (use assms(4,5) in \<open>simp_all add: quiet_def\<close>)
qed

text \<open>The operations on the other tables.\<close>

named_theorems quiet_ops

lemma same_schema_rows_refl [simp]: "same_schema_rows rows m m"
  by (simp add: same_schema_rows_def)

lemma quiet_id [simp]: "quiet rows (\<lambda>m. (m, Inr x))"
  by (simp add: quiet_def)

lemma foreign_keys [simp]:
  "foreign (series_prefix d r mm)" "foreign (series_storage_key d r mm i)" "foreign (meas_key d r mm)" "foreign (tombstone_key d r mm @ n)"
  "foreign (tag_val_storage_key d r mm tk tv)" "foreign (cq_key d n)" "foreign (mv_key d n)"
  by (simp_all add: foreign_def series_prefix_def series_storage_key_def meas_key_def tombstone_key_def tag_val_storage_key_def cq_key_def mv_key_def)

lemma quiet_store_tombstone [quiet_ops]:
  assumes "meta_store_ok env rows"
  shows "quiet rows (store_tombstone env uuid d r mm predicate_sql)"
  unfolding store_tombstone_def [abs_def]
  by (rule quiet_and_do [OF quiet_write [OF assms]]) (auto simp: quiet_def same_schema_rows_def)

lemma quiet_set_setting [quiet_ops]:
  assumes "meta_store_ok env rows"
  shows "quiet rows (set_setting env name v)"
  using quiet_write [OF assms, of "[Delete (''setting:'' @ name)]"]
    quiet_write [OF assms, of "[Put (''setting:'' @ name) (case fst (mc_setting (me_codec env)) (the v) of Inr b \<Rightarrow> b | Inl _ \<Rightarrow> [])]"]
  by (cases v) (simp_all add: set_setting_def [abs_def] foreign_def)

lemma quiet_definitions [quiet_ops]:
  assumes "meta_store_ok env rows" and "meta_codec_ok (me_codec env)"
  shows "quiet rows (store_continuous_query env d name q)" "quiet rows (drop_continuous_query env d name)"
    "quiet rows (store_materialized_view env d name w)" "quiet rows (drop_materialized_view env d name)"
  unfolding store_continuous_query_def [abs_def] drop_continuous_query_def [abs_def] store_materialized_view_def [abs_def]
    drop_materialized_view_def [abs_def]
  using assms(2) by (auto intro!: quiet_and_do quiet_put [OF assms(1)] quiet_write [OF assms(1)] quiet_return
    simp: meta_codec_ok_def same_schema_rows_def)

lemma quiet_delete_series [quiet_ops]:
  assumes "meta_store_ok env rows"
  shows "quiet rows (delete_series_matching env d r meas predicate_sql)" "quiet rows (delete_series_in_range env d r mm start stop)"
  unfolding delete_series_matching_def [abs_def] delete_series_in_range_def [abs_def] Let_def
  by (rule quiet_delete_scan [OF assms];
      auto simp: foreign_def series_prefix_def key_range_step_def same_schema_rows_def split: option.splits)+

lemma quiet_delete_measurement [quiet_ops]:
  assumes "meta_store_ok env rows"
  shows "quiet rows (delete_measurement env d r name)"
  unfolding delete_measurement_def [abs_def]
proof (rule quiet_and_do [OF quiet_write [OF assms]], goal_cases)
  case (2 m x)
  show ?case
    by (rule quiet_delete_scan [OF assms])
      (auto simp: foreign_def series_step_of_measurement_def same_schema_rows_def split: option.splits)
qed simp

lemma novel_series_ok: "json_codec c \<Longrightarrow> \<exists>kvs. novel_series c ix d r mm series = Inr kvs \<and> list_all (\<lambda>(k, _). foreign k) kvs"
proof (induction series)
  case (Cons s series)
  obtain i tags where s: "s = (i, tags)" by fastforce
  obtain b where "fst c tags = Inr b" by (rule json_codecE [OF Cons.prems, of tags])
  with Cons s show ?case by (auto simp: meta_encode_def Let_def and_then_def)
qed simp

lemma quiet_register_series [quiet_ops]:
  fixes env :: "('d, 'q, 'w, 'y) meta_env"
  assumes "meta_store_ok env rows" and "meta_codec_ok (me_codec env)"
  shows "quiet rows (register_series_batch env d r mm series)"
proof -
  have tags: "json_codec (mc_tags (me_codec env))" using assms(2) by (simp add: meta_codec_ok_def)
  show ?thesis
    unfolding quiet_def
  proof
    fix m :: "('d, 'q, 'w) rocksdb_metadata"
    obtain kvs where kvs: "novel_series (mc_tags (me_codec env)) (series_known m) d r mm series = Inr kvs" "list_all (\<lambda>(k, _). foreign k) kvs"
      using novel_series_ok [OF tags] by blast
    have "list_all foreign_op (map (\<lambda>(k, v). Put k v) kvs)" using kvs(2) by (induction kvs) auto
    from quiet_write [OF assms(1) this] have "quiet rows (\<lambda>m. and_do (meta_write env (map (\<lambda>(k, v). Put k v) kvs) m) (\<lambda>_ m.
          (m\<lparr>series_known := fold (\<lambda>(k, _) ix. fst (ix_insert k ix)) kvs (series_known m)\<rparr>, Inr ())))"
      by (rule quiet_and_do) (simp add: quiet_def same_schema_rows_def)
    then show "same_schema_rows rows m (fst (register_series_batch env d r mm series m)) \<and> (\<exists>x. snd (register_series_batch env d r mm series m) = Inr x)"
      by (simp add: register_series_batch_def kvs(1) quiet_def)
  qed
qed

lemma absent_keys_ok:
  assumes "meta_store_ok env rows"
  shows "absent_keys env d ks = Inr (filter (\<lambda>k. rows d k = None) ks)"
proof -
  have "rdb_get (me_kv env) d k = Inr (rows d k)" for k
    using assms rdb_get_rows [of "me_kv env" rows] by (simp add: meta_store_ok_def)
  then show ?thesis by (induction ks) (simp_all add: and_then_def)
qed

lemma quiet_write_tags [quiet_ops]:
  fixes env :: "('d, 'q, 'w, 'y) meta_env"
  assumes "meta_store_ok env rows" and "list_all foreign_op batch" and "list_all foreign ks"
  shows "quiet rows (write_tag_values env batch ks)"
  unfolding write_tag_values_def [abs_def] absent_keys_ok [OF assms(1)]
proof (rule quiet_and_do)
  fix m :: "('d, 'q, 'w) rocksdb_metadata" and created
  assume "snd (m, Inr (filter (\<lambda>k. rows (md_db m) k = None) ks) :: meta_error + string list) = Inr created"
  then have "list_all foreign_op (map (\<lambda>k. Put k [49]) created)" using assms(3) by (auto simp: list_all_iff)
  with assms(2) have "list_all foreign_op (batch @ map (\<lambda>k. Put k [49]) created)" by simp
  then show "quiet rows (\<lambda>m. and_do (meta_write env (batch @ map (\<lambda>k. Put k [49]) created) m) (\<lambda>_ m.
       (m\<lparr>tag_known := hs_extend ks (tag_known m),
          tag_count_cache := bump_tag_counts_from_storage_keys (tag_count_cache m) created (tag_counts_warmed m)\<rparr>, Inr ())))"
    by (intro quiet_and_do quiet_write [OF assms(1)] quiet_return) (auto simp: same_schema_rows_def)
qed (simp add: quiet_def)

lemma meas_updates_ok: "json_codec c \<Longrightarrow> \<exists>us. meas_updates c cache d r ms = Inr us"
proof (induction ms)
  case (Cons meas ms)
  obtain b where "fst c (merge_measurement (hm_get cache (meas_cache_key d r (mm_name meas))) meas) = Inr b"
    by (rule json_codecE [OF Cons.prems])
  with Cons show ?case by (auto simp: meta_encode_def Let_def and_then_def)
qed simp

lemma quiet_register_batch [quiet_ops]:
  fixes env :: "('d, 'q, 'w, 'y) meta_env"
  assumes "meta_store_ok env rows" and "meta_codec_ok (me_codec env)"
  shows "quiet rows (register_metadata_batch env d r ms tags)"
proof -
  have c: "json_codec (mc_measurement (me_codec env))" using assms(2) by (simp add: meta_codec_ok_def)
  show ?thesis
    unfolding register_metadata_batch_def [abs_def]
  proof (rule quiet_and_do, goal_cases)
    case 1
    then show ?case using meas_updates_ok [OF c] by (simp add: quiet_def)
  next
    case (2 m us)
    define batch where "batch = map (\<lambda>(_, v, meas). Put (meas_key d r (mm_name meas)) v) us"
    define novel :: "('d, 'q, 'w) rocksdb_metadata \<Rightarrow> string list" where
      "novel m = filter (\<lambda>k. k \<notin> set (tag_known m))
         (concat (map (\<lambda>(mm, tags). map (\<lambda>(tk, tv). tag_val_storage_key d r mm tk tv) tags) tags))" for m
    have b: "list_all foreign_op batch" by (auto simp: batch_def list_all_iff)
    have n: "list_all foreign (novel m)" for m by (auto simp: novel_def list_all_iff)
    define op where "op m' m = (if us = [] \<and> novel m' = [] then (m, Inr () :: meta_error + unit)
        else and_do (if novel m' = [] then meta_write env batch m else write_tag_values env batch (novel m') m) (\<lambda>_ m.
           (if us = [] then m
            else m\<lparr>meas_cache := fold (\<lambda>(key, _, meas). hm_insert key meas) us (meas_cache m),
                   meas_list_cache := hm_remove d (meas_list_cache m)\<rparr>, Inr ())))" for m' m
    have "quiet rows (op m')" for m'
      unfolding op_def [abs_def]
      by (cases "novel m' = []"; cases "us = []"; simp)
        (intro quiet_and_do quiet_return quiet_write [OF assms(1) b] quiet_write_tags [OF assms(1) b n]; auto simp: same_schema_rows_def)+
    then have "quiet rows (\<lambda>m. op m m)" by (simp add: quiet_def)
    then show ?case by (simp only: op_def Let_def batch_def novel_def)
  qed
qed

lemma quiet_warm [quiet_ops]:
  assumes "meta_store_ok env rows"
  shows "quiet rows (warm_series env)" "quiet rows (warm_tag_value_counts env)"
  unfolding warm_series_def [abs_def] warm_tag_value_counts_def [abs_def] Let_def
  by (rule quiet_and_do [OF quiet_scan [OF assms]]; auto intro!: quiet_return simp: same_schema_rows_def split: option.splits)+

section \<open>Steps on databases and users\<close>

lemma get_database_lands:
  assumes ok: "meta_store_ok env rows" and rel: "schema_rel env rows m sp"
  shows "lands (schema_rel env rows) (get_database env n m) (sp, Inr (sp_databases sp n))"
proof -
  from rel have t: "table_holds (mc_database (me_codec env)) ''db:'' stored_database db_cache rows m (sp_databases sp)"
    and u: "table_holds (mc_user (me_codec env)) ''user:'' (\<lambda>u. u) user_cache rows m (sp_users sp)"
    by (simp_all add: schema_rel_def)
  obtain m' where m': "get_database env n m = (m', Inr (sp_databases sp n))"
    "table_holds (mc_database (me_codec env)) ''db:'' stored_database db_cache rows m' (sp_databases sp)"
    "m' = m \<or> (\<exists>x. m' = m\<lparr>db_cache := hm_insert n x (db_cache m)\<rparr>)"
    by (rule dbs.get_holds [OF ok t, of n])
  have "table_holds (mc_user (me_codec env)) ''user:'' (\<lambda>u. u) user_cache rows m' (sp_users sp)"
    by (rule usr.holds_frame [OF u]) (use m'(3) in auto)
  with m' show ?thesis by (simp add: schema_rel_def)
qed

lemma put_database_lands:
  assumes ok: "meta_store_ok env rows" and c: "meta_codec_ok (me_codec env)" and rel: "schema_rel env rows m sp"
  shows "lands (schema_rel env rows) (put_database env n x m) (sp\<lparr>sp_databases := (sp_databases sp)(n \<mapsto> x)\<rparr>, Inr ())"
proof -
  from c have j: "json_codec (mc_database (me_codec env))" by (simp add: meta_codec_ok_def)
  from rel have t: "table_holds (mc_database (me_codec env)) ''db:'' stored_database db_cache rows m (sp_databases sp)"
    and u: "table_holds (mc_user (me_codec env)) ''user:'' (\<lambda>u. u) user_cache rows m (sp_users sp)"
    by (simp_all add: schema_rel_def)
  obtain d' b where p: "put_database env n x m = (m\<lparr>md_db := d', db_cache := hm_insert n x (db_cache (m\<lparr>md_db := d'\<rparr>))\<rparr>, Inr ())"
    "table_holds (mc_database (me_codec env)) ''db:'' stored_database db_cache rows (m\<lparr>md_db := d', db_cache := hm_insert n x (db_cache (m\<lparr>md_db := d'\<rparr>))\<rparr>)
      ((sp_databases sp)(n \<mapsto> x))"
    "rows d' = (rows (md_db m))(''db:'' @ n \<mapsto> b)"
    by (rule dbs.put_holds [OF ok j t, of n x])
  have "table_holds (mc_user (me_codec env)) ''user:'' (\<lambda>u. u) user_cache rows (m\<lparr>md_db := d', db_cache := hm_insert n x (db_cache (m\<lparr>md_db := d'\<rparr>))\<rparr>) (sp_users sp)"
    by (rule usr.holds_frame [OF u]) (use p(3) in auto)
  with p show ?thesis by (simp add: schema_rel_def)
qed

lemma get_user_lands:
  assumes ok: "meta_store_ok env rows" and rel: "schema_rel env rows m sp"
  shows "lands (schema_rel env rows) (get_user env n m) (sp, Inr (sp_users sp n))"
proof -
  from rel have t: "table_holds (mc_database (me_codec env)) ''db:'' stored_database db_cache rows m (sp_databases sp)"
    and u: "table_holds (mc_user (me_codec env)) ''user:'' (\<lambda>u. u) user_cache rows m (sp_users sp)"
    by (simp_all add: schema_rel_def)
  obtain m' where m': "get_user env n m = (m', Inr (sp_users sp n))"
    "table_holds (mc_user (me_codec env)) ''user:'' (\<lambda>u. u) user_cache rows m' (sp_users sp)"
    "m' = m \<or> (\<exists>x. m' = m\<lparr>user_cache := hm_insert n x (user_cache m)\<rparr>)"
    by (rule usr.get_holds [OF ok u, of n])
  have "table_holds (mc_database (me_codec env)) ''db:'' stored_database db_cache rows m' (sp_databases sp)"
    by (rule dbs.holds_frame [OF t]) (use m'(3) in auto)
  with m' show ?thesis by (simp add: schema_rel_def)
qed

lemma put_user_lands:
  assumes ok: "meta_store_ok env rows" and c: "meta_codec_ok (me_codec env)" and rel: "schema_rel env rows m sp"
  shows "lands (schema_rel env rows) (put_user env n x m) (sp\<lparr>sp_users := (sp_users sp)(n \<mapsto> x)\<rparr>, Inr ())"
proof -
  from c have j: "json_codec (mc_user (me_codec env))" by (simp add: meta_codec_ok_def)
  from rel have t: "table_holds (mc_database (me_codec env)) ''db:'' stored_database db_cache rows m (sp_databases sp)"
    and u: "table_holds (mc_user (me_codec env)) ''user:'' (\<lambda>u. u) user_cache rows m (sp_users sp)"
    by (simp_all add: schema_rel_def)
  obtain d' b where p: "put_user env n x m = (m\<lparr>md_db := d', user_cache := hm_insert n x (user_cache (m\<lparr>md_db := d'\<rparr>))\<rparr>, Inr ())"
    "table_holds (mc_user (me_codec env)) ''user:'' (\<lambda>u. u) user_cache rows (m\<lparr>md_db := d', user_cache := hm_insert n x (user_cache (m\<lparr>md_db := d'\<rparr>))\<rparr>)
      ((sp_users sp)(n \<mapsto> x))"
    "rows d' = (rows (md_db m))(''user:'' @ n \<mapsto> b)"
    by (rule usr.put_holds [OF ok j u, of n x])
  have "table_holds (mc_database (me_codec env)) ''db:'' stored_database db_cache rows (m\<lparr>md_db := d', user_cache := hm_insert n x (user_cache (m\<lparr>md_db := d'\<rparr>))\<rparr>)
      (sp_databases sp)"
    by (rule dbs.holds_frame [OF t]) (use p(3) in auto)
  with p show ?thesis by (simp add: schema_rel_def)
qed

lemma drop_user_lands:
  assumes ok: "meta_store_ok env rows" and rel: "schema_rel env rows m sp"
  shows "lands (schema_rel env rows) (drop_user env n m) (sp\<lparr>sp_users := (sp_users sp)(n := None)\<rparr>, Inr ())"
proof -
  from rel have t: "table_holds (mc_database (me_codec env)) ''db:'' stored_database db_cache rows m (sp_databases sp)"
    and u: "table_holds (mc_user (me_codec env)) ''user:'' (\<lambda>u. u) user_cache rows m (sp_users sp)"
    by (simp_all add: schema_rel_def)
  obtain d' where w: "meta_write env [Delete (user_key n)] m = (m\<lparr>md_db := d'\<rparr>, Inr ())"
    "rows d' = fold batch_effect [Delete (user_key n)] (rows (md_db m))"
    by (rule meta_write_ok [OF ok])
  let ?m' = "m\<lparr>md_db := d', user_cache := hm_remove n (user_cache m)\<rparr>"
  have wf: "hm_wf (user_cache m)" using u by (simp add: table_holds_def)
  have "table_holds (mc_user (me_codec env)) ''user:'' (\<lambda>u. u) user_cache rows ?m' ((sp_users sp)(n := None))"
    by (rule usr.remove_holds [OF u]) (use w(2) wf in \<open>auto simp: user_key_def hm.get_rem hm.wf_rem\<close>)
  moreover have "table_holds (mc_database (me_codec env)) ''db:'' stored_database db_cache rows ?m' (sp_databases sp)"
    by (rule dbs.holds_frame [OF t]) (use w(2) in \<open>auto simp: user_key_def\<close>)
  ultimately show ?thesis by (simp add: drop_user_def w(1) schema_rel_def)
qed

lemma drop_ranges_foreign: "list_all foreign_op (map (\<lambda>p. DeleteRange p (bump_last p))
    [''meas:'' @ name @ '':'', ''tag_val:'' @ name @ '':'', ''series:'' @ name @ '':''])"
  by (simp add: foreign_def bump_last_def)

lemma drop_database_lands:
  assumes ok: "meta_store_ok env rows" and rel: "schema_rel env rows m sp"
  shows "lands (schema_rel env rows) (drop_database env n m) (sp\<lparr>sp_databases := (sp_databases sp)(n := None)\<rparr>, Inr ())"
proof -
  let ?ranges = "map (\<lambda>p. DeleteRange p (bump_last p)) [''meas:'' @ n @ '':'', ''tag_val:'' @ n @ '':'', ''series:'' @ n @ '':''] :: (string, u8 list) batch_op list"
  from rel have t: "table_holds (mc_database (me_codec env)) ''db:'' stored_database db_cache rows m (sp_databases sp)"
    and u: "table_holds (mc_user (me_codec env)) ''user:'' (\<lambda>u. u) user_cache rows m (sp_users sp)"
    by (simp_all add: schema_rel_def)
  obtain d' where w: "meta_write env (Delete (db_key n) # ?ranges) m = (m\<lparr>md_db := d'\<rparr>, Inr ())"
    "rows d' = fold batch_effect (Delete (db_key n) # ?ranges) (rows (md_db m))"
    by (rule meta_write_ok [OF ok])
  have keys: "rows d' k = (if k = db_key n then None else rows (md_db m) k)" if "\<not> foreign k" for k
    using foreign_effect [OF drop_ranges_foreign that] w(2) by (simp only: fold_Cons comp_apply) simp
  have wf: "hm_wf (db_cache m)" using t by (simp add: table_holds_def)
  obtain m' where m': "drop_database env n m = (m', Inr ())" "md_db m' = d'" "db_cache m' = hm_remove n (db_cache m)" "user_cache m' = user_cache m"
    unfolding drop_database_def w(1) and_do_simps by simp
  have "table_holds (mc_database (me_codec env)) ''db:'' stored_database db_cache rows m' ((sp_databases sp)(n := None))"
    by (rule dbs.remove_holds [OF t]) (use keys wf in \<open>auto simp: m' db_key_def hm.get_rem hm.wf_rem\<close>)
  moreover have "table_holds (mc_user (me_codec env)) ''user:'' (\<lambda>u. u) user_cache rows m' (sp_users sp)"
    by (rule usr.holds_frame [OF u]) (use keys in \<open>auto simp: m' db_key_def\<close>)
  ultimately show ?thesis by (simp add: m'(1) schema_rel_def)
qed

lemma create_database_lands:
  assumes ok: "meta_store_ok env rows" and c: "meta_codec_ok (me_codec env)" and rel: "schema_rel env rows m sp"
    and absent: "sp_databases sp n = None"
  shows "lands (schema_rel env rows) (create_database env n m) (sp\<lparr>sp_databases := (sp_databases sp)(n \<mapsto> new_database n)\<rparr>, Inr ())"
proof -
  have "rows (md_db m) (''db:'' @ n) = None"
    using rel absent dbs.names_holds [of env rows m "sp_databases sp" n] by (simp add: schema_rel_def)
  then have "rdb_get (me_kv env) (md_db m) (db_key n) = Inr None"
    using ok rdb_get_rows [of "me_kv env" rows "md_db m" "db_key n"] by (simp add: meta_store_ok_def db_key_def)
  then have "create_database env n m = put_database env n (new_database n) m"
    by (simp add: create_database_def put_database_def meta_put_def meta_encode_def and_do_def split: sum.split)
  then show ?thesis using put_database_lands [OF ok c rel] by simp
qed

lemma find_database_lands:
  assumes ok: "meta_store_ok env rows" and rel: "schema_rel env rows m sp"
  shows "lands (schema_rel env rows) (find_database env n m)
    (sp, case sp_databases sp n of None \<Rightarrow> Inl (DatabaseNotFound n) | Some x \<Rightarrow> Inr x)"
  unfolding find_database_def
  by (rule lands_and_do [OF get_database_lands [OF ok rel]]) (simp split: option.split)

lemma on_database_lands:
  assumes ok: "meta_store_ok env rows" and c: "meta_codec_ok (me_codec env)" and rel: "schema_rel env rows m sp"
  shows "lands (schema_rel env rows) (and_do (find_database env n m) (\<lambda>x m. put_database env n (f x) m)) (on_database n f sp)"
proof (cases "sp_databases sp n")
  case None
  with find_database_lands [OF ok rel, of n] show ?thesis by (simp add: on_database_def lands_and_do_error)
next
  case (Some x)
  then have "lands (schema_rel env rows) (find_database env n m) (sp, Inr x)" using find_database_lands [OF ok rel, of n] by simp
  then show ?thesis
    unfolding on_database_def using Some by simp (rule lands_and_do, auto intro: put_database_lands [OF ok c])
qed

lemma on_user_lands:
  assumes ok: "meta_store_ok env rows" and c: "meta_codec_ok (me_codec env)" and rel: "schema_rel env rows m sp"
  shows "lands (schema_rel env rows)
    (and_do (get_user env n m) (\<lambda>found m. case found of None \<Rightarrow> (m, Inl (UserNotFound n)) | Some u \<Rightarrow> put_user env n (f u) m)) (on_user n f sp)"
  by (rule lands_and_do [OF get_user_lands [OF ok rel]])
    (auto simp: on_user_def intro: put_user_lands [OF ok c] split: option.split)

lemma database_update_same [simp]: "sp_databases sp n = Some x \<Longrightarrow> sp\<lparr>sp_databases := (sp_databases sp)(n \<mapsto> x)\<rparr> = sp"
  by (simp add: fun_upd_idem)

lemma create_database_with_lands:
  assumes ok: "meta_store_ok env rows" and c: "meta_codec_ok (me_codec env)" and rel: "schema_rel env rows m sp"
  shows "lands (schema_rel env rows) (create_database_with env stmt m) (spec_create_with (cs_name stmt) (retention_policy_from_create stmt) sp)"
proof -
  let ?n = "cs_name stmt"
  let ?dbo = "case sp_databases sp ?n of Some x \<Rightarrow> x | None \<Rightarrow> new_database ?n"
  let ?sp' = "sp\<lparr>sp_databases := (sp_databases sp)(?n \<mapsto> ?dbo)\<rparr>"
  have create: "lands (schema_rel env rows) (if sp_databases sp ?n = None then create_database env ?n m' else (m', Inr ())) (?sp', Inr ())"
    if "schema_rel env rows m' sp" for m'
    using that create_database_lands [OF ok c that, of ?n] by (auto split: option.splits)
  show ?thesis
    unfolding create_database_with_def
  proof (rule lands_and_do [OF get_database_lands [OF ok rel]], rule lands_and_do [OF create], goal_cases)
    case (2 m1 m2)
    have find: "lands (schema_rel env rows) (find_database env ?n m2) (?sp', Inr ?dbo)"
      using find_database_lands [OF ok 2(2), of ?n] by simp
    have add: "lands (schema_rel env rows) (and_do (find_database env ?n m2) (\<lambda>dbo m. put_database env ?n (add_policy rp dbo) m))
        (sp\<lparr>sp_databases := (sp_databases sp)(?n \<mapsto> add_policy rp ?dbo)\<rparr>, Inr ())" for rp
      by (rule lands_and_do [OF find]) (use put_database_lands [OF ok c, where n = ?n and x = "add_policy rp ?dbo" and sp = ?sp'] in simp)
    show ?case
      using 2(2) add
      by (auto simp: spec_create_with_def Let_def Option.bind_eq_None_conv split: option.splits)
  qed
qed

lemma statement_name [simp]: "cs_name (create_database_statement_from_rp name rp) = name"
  by (simp add: create_database_statement_from_rp_def)

lemma apply_create_lands:
  assumes ok: "meta_store_ok env rows" and c: "meta_codec_ok (me_codec env)" and rel: "schema_rel env rows m sp"
    and fresh: "rp = None \<Longrightarrow> sp_databases sp name = None"
  shows "lands (schema_rel env rows) (apply_create_database env name rp m) (spec_mutation now (CreateDatabase name rp) sp)"
proof (cases rp)
  case None
  then show ?thesis using create_database_lands [OF ok c rel] fresh by (simp add: apply_create_database_def spec_create_with_def)
next
  case (Some p)
  then show ?thesis
    using create_database_with_lands [OF ok c rel, of "create_database_statement_from_rp name p"] by (simp add: apply_create_database_def)
qed

lemma list_policies_lands:
  assumes ok: "meta_store_ok env rows" and rel: "schema_rel env rows m sp"
  shows "lands (schema_rel env rows) (list_retention_policies env d m)
    (sp, Inr (case sp_databases sp d of Some x \<Rightarrow> retention_policies x | None \<Rightarrow> []))"
  unfolding list_retention_policies_def by (rule lands_and_do [OF get_database_lands [OF ok rel]]) simp

lemma measurements_listed: "meta_store_ok env rows \<Longrightarrow> \<exists>ms. measurements_of_policies env name rps m = Inr ms"
proof (induction rps)
  case (Cons rp rps)
  let ?f = "\<lambda>k _. RowTake (drop (length (meas_rp_prefix name (rp_name rp))) k)"
  have "\<exists>names. meta_scan env (meas_rp_prefix name (rp_name rp)) ?f (md_db m) = Inr names"
    by (rule meta_scan_total [where f = ?f and d = "md_db m" and p = "meas_rp_prefix name (rp_name rp)", OF Cons.prems]) auto
  with Cons show ?case by (auto simp: list_measurements_for_rp_def and_then_def)
qed simp

lemma drop_locally_lands:
  assumes ok: "meta_store_ok env rows" and rel: "schema_rel env rows m sp"
  shows "lands (schema_rel env rows) (drop_database_locally env name m) (spec_mutation now (DropDatabase name) sp)"
proof (cases "sp_databases sp name")
  case None
  then show ?thesis
    using find_database_lands [OF ok rel, of name] by (simp add: drop_database_locally_def lands_and_do_error)
next
  case (Some x)
  have find: "lands (schema_rel env rows) (find_database env name m) (sp, Inr x)"
    using Some find_database_lands [OF ok rel, of name] by simp
  have rest: "lands (schema_rel env rows) (and_do (m', measurements_of_policies env name rps m') (\<lambda>_ m. drop_database env name m))
      (sp\<lparr>sp_databases := (sp_databases sp)(name := None)\<rparr>, Inr ())" if "schema_rel env rows m' sp" for m' rps
  proof -
    obtain ms where "measurements_of_policies env name rps m' = Inr ms" using measurements_listed [OF ok] by blast
    then show ?thesis using drop_database_lands [OF ok that] by simp
  qed
  have "lands (schema_rel env rows) (drop_database_locally env name m) (sp\<lparr>sp_databases := (sp_databases sp)(name := None)\<rparr>, Inr ())"
    unfolding drop_database_locally_def
    by (rule lands_and_do [OF find], rule lands_and_do [OF list_policies_lands [OF ok]], assumption, rule rest, assumption)
  then show ?thesis using Some by simp
qed

lemma alter_lands:
  assumes ok: "meta_store_ok env rows" and c: "meta_codec_ok (me_codec env)" and rel: "schema_rel env rows m sp"
  shows "lands (schema_rel env rows) (alter_retention_policy env d name ch m) (spec_mutation now (AlterRetentionPolicy d name ch) sp)"
proof (cases "sp_databases sp d")
  case None
  then show ?thesis
    using find_database_lands [OF ok rel, of d] by (simp add: alter_retention_policy_def lands_and_do_error)
next
  case (Some x)
  then have find: "lands (schema_rel env rows) (find_database env d m) (sp, Inr x)" using find_database_lands [OF ok rel, of d] by simp
  have "lands (schema_rel env rows) (alter_retention_policy env d name ch m)
      (if find_policy name x = None then (sp, Inl (PolicyNotFound name)) else on_database d (alter_database name ch) sp)"
    unfolding alter_retention_policy_def
    by (rule lands_and_do [OF find]) (use Some in \<open>auto simp: on_database_def intro: put_database_lands [OF ok c]\<close>)
  then show ?thesis using Some by simp
qed

lemma user_mutation_lands:
  assumes ok: "meta_store_ok env rows" and c: "meta_codec_ok (me_codec env)" and rel: "schema_rel env rows m sp"
  shows "lands (schema_rel env rows) (create_user env now n hash adm m) (spec_mutation now (CreateUser n hash adm) sp)"
    and "lands (schema_rel env rows) (set_password env now n hash m) (spec_mutation now (SetPassword n hash) sp)"
    and "lands (schema_rel env rows) (set_admin env n adm m) (fst (on_user n (\<lambda>u. u\<lparr>user_admin := adm\<rparr>) sp), Inr ())"
    and "lands (schema_rel env rows) (grant_privilege env n d p m) (on_user n (\<lambda>u. u\<lparr>privileges := hm_insert d p (privileges u)\<rparr>) sp)"
    and "lands (schema_rel env rows) (meta_revoke_privilege env n d m) (on_user n (\<lambda>u. u\<lparr>privileges := hm_remove d (privileges u)\<rparr>) sp)"
proof -
  note put = put_user_lands [OF ok c]
  show "lands (schema_rel env rows) (create_user env now n hash adm m) (spec_mutation now (CreateUser n hash adm) sp)"
    unfolding create_user_def meta_create_user_def
    by (rule lands_and_do [OF get_user_lands [OF ok rel]]) (auto intro: put split: option.split)
  show "lands (schema_rel env rows) (set_password env now n hash m) (spec_mutation now (SetPassword n hash) sp)"
    unfolding set_password_def meta_create_user_def
    by (rule lands_and_do [OF get_user_lands [OF ok rel]]) (auto intro: put split: option.split)
  show "lands (schema_rel env rows) (set_admin env n adm m) (fst (on_user n (\<lambda>u. u\<lparr>user_admin := adm\<rparr>) sp), Inr ())"
    unfolding set_admin_def
    by (rule lands_and_do [OF get_user_lands [OF ok rel]]) (auto simp: on_user_def intro: put split: option.split)
  show "lands (schema_rel env rows) (grant_privilege env n d p m) (on_user n (\<lambda>u. u\<lparr>privileges := hm_insert d p (privileges u)\<rparr>) sp)"
    unfolding grant_privilege_def by (rule on_user_lands [OF ok c rel])
  show "lands (schema_rel env rows) (meta_revoke_privilege env n d m) (on_user n (\<lambda>u. u\<lparr>privileges := hm_remove d (privileges u)\<rparr>) sp)"
    unfolding meta_revoke_privilege_def by (rule on_user_lands [OF ok c rel])
qed

lemma revoke_lands:
  assumes ok: "meta_store_ok env rows" and c: "meta_codec_ok (me_codec env)" and rel: "schema_rel env rows m sp"
  shows "lands (schema_rel env rows) (revoke_privilege env n d p m) (on_user n (less_privilege d p) sp)"
  unfolding revoke_privilege_def
proof (rule lands_and_do [OF get_user_lands [OF ok rel]], goal_cases)
  case (1 m')
  let ?left = "case sp_users sp n of None \<Rightarrow> None | Some u \<Rightarrow> (case hm_get (privileges u) d of None \<Rightarrow> None | Some q \<Rightarrow> without q p)"
  have "on_user n (less_privilege d p) sp =
      (case ?left of
         Some l \<Rightarrow> on_user n (\<lambda>u. u\<lparr>privileges := hm_insert d l (privileges u)\<rparr>) sp
       | None \<Rightarrow> on_user n (\<lambda>u. u\<lparr>privileges := hm_remove d (privileges u)\<rparr>) sp)"
    by (auto simp: on_user_def less_privilege_def split: option.splits)
  then show ?case using user_mutation_lands(4,5) [OF ok c 1] by (auto split: option.split)
qed

end
