(* ===== verification/Metadata_Runs.thy ===== *)
theory Metadata_Runs
  imports Metadata_Refine
begin

text \<open>
  Runs of the metadata store: sequences of replicated schema mutations, ingests, reads and restarts.
  The answers are those of two plain maps, of databases and of users (\<open>spec_event\<close>), where a restart
  leaves the durations of the policies in whole seconds; the exception, a plain \<open>CREATE DATABASE\<close> of a
  database that exists, is its own theorem.
\<close>

section \<open>Events\<close>

datatype ('q, 'w, 'y) meta_event =
    Mutate string string "('q, 'w, 'y) mutation_request"
  | RegisterSeries string string string "(u64 \<times> (string \<times> string) list) list"
  | RegisterBatch string string "measurement_meta list" "(string \<times> (string \<times> string) list) list"
  | WarmSeries
  | WarmTags
  | GetDatabase string
  | GetDefaultPolicy string
  | ListPolicies string
  | ListDatabases
  | GetUser string
  | ListUsers
  | Reopen

datatype meta_answer =
    Answered "meta_error + unit"
  | Database "meta_error + database option"
  | DefaultPolicy "meta_error + string"
  | Policies "meta_error + retention_policy list"
  | Databases "meta_error + database list"
  | User "meta_error + stored_user option"
  | Users "meta_error + string list"

fun run_meta_event :: "('d, 'q, 'w, 'y) meta_env \<Rightarrow> ('q, 'w, 'y) meta_event \<Rightarrow> ('d, 'q, 'w) rocksdb_metadata
    \<Rightarrow> ('d, 'q, 'w) rocksdb_metadata \<times> meta_answer" where
  "run_meta_event env (Mutate now uuid mutation) m = map_prod id Answered (apply_schema_mutation env now uuid mutation m)"
| "run_meta_event env (RegisterSeries d r mm series) m = map_prod id Answered (register_series_batch env d r mm series m)"
| "run_meta_event env (RegisterBatch d r ms tags) m = map_prod id Answered (register_metadata_batch env d r ms tags m)"
| "run_meta_event env WarmSeries m = map_prod id (Answered \<circ> map_sum id (\<lambda>_. ())) (warm_series env m)"
| "run_meta_event env WarmTags m = map_prod id (Answered \<circ> map_sum id (\<lambda>_. ())) (warm_tag_value_counts env m)"
| "run_meta_event env (GetDatabase n) m = map_prod id Database (get_database env n m)"
| "run_meta_event env (GetDefaultPolicy n) m = map_prod id DefaultPolicy (get_default_rp env n m)"
| "run_meta_event env (ListPolicies n) m = map_prod id Policies (list_retention_policies env n m)"
| "run_meta_event env ListDatabases m = (m, Databases (list_databases env m))"
| "run_meta_event env (GetUser n) m = map_prod id User (get_user env n m)"
| "run_meta_event env ListUsers m = (m, Users (list_users env m))"
| "run_meta_event env Reopen m = (open_metadata (md_db m), Answered (Inr ()))"

fun run_meta :: "('d, 'q, 'w, 'y) meta_env \<Rightarrow> ('q, 'w, 'y) meta_event list \<Rightarrow> ('d, 'q, 'w) rocksdb_metadata
    \<Rightarrow> ('d, 'q, 'w) rocksdb_metadata \<times> meta_answer list" where
  "run_meta env [] m = (m, [])"
| "run_meta env (ev # evs) m =
     (let (m, a) = run_meta_event env ev m; (m, as) = run_meta env evs m in (m, a # as))"

section \<open>The specification\<close>

fun spec_event :: "('q, 'w, 'y) meta_event \<Rightarrow> schema_spec \<Rightarrow> schema_spec \<times> meta_answer" where
  "spec_event (Mutate now uuid mutation) sp = map_prod id Answered (spec_mutation now mutation sp)"
| "spec_event (GetDatabase n) sp = (sp, Database (Inr (sp_databases sp n)))"
| "spec_event (GetDefaultPolicy n) sp =
     (sp, DefaultPolicy (case sp_databases sp n of None \<Rightarrow> Inl (DatabaseNotFound n) | Some x \<Rightarrow> Inr (default_rp x)))"
| "spec_event (ListPolicies n) sp =
     (sp, Policies (Inr (case sp_databases sp n of None \<Rightarrow> [] | Some x \<Rightarrow> retention_policies x)))"
| "spec_event ListDatabases sp =
     (sp, Databases (Inr (map (stored_database \<circ> the \<circ> sp_databases sp) (sorted_list_of_set (dom (sp_databases sp))))))"
| "spec_event (GetUser n) sp = (sp, User (Inr (sp_users sp n)))"
| "spec_event ListUsers sp = (sp, Users (Inr (sorted_list_of_set (dom (sp_users sp)))))"
| "spec_event Reopen sp = (sp\<lparr>sp_databases := \<lambda>n. map_option stored_database (sp_databases sp n)\<rparr>, Answered (Inr ()))"
| "spec_event _ sp = (sp, Answered (Inr ()))"

fun spec_run :: "('q, 'w, 'y) meta_event list \<Rightarrow> schema_spec \<Rightarrow> schema_spec \<times> meta_answer list" where
  "spec_run [] sp = (sp, [])"
| "spec_run (ev # evs) sp = (let (sp, a) = spec_event ev sp; (sp, as) = spec_run evs sp in (sp, a # as))"

definition empty_spec :: schema_spec where
  "empty_spec = \<lparr>sp_databases = Map.empty, sp_users = Map.empty\<rparr>"

text \<open>A database is created without a policy only when there is none of its name.\<close>

fun creates_fresh :: "('q, 'w, 'y) meta_event \<Rightarrow> schema_spec \<Rightarrow> bool" where
  "creates_fresh (Mutate now uuid (CreateDatabase name None)) sp = (sp_databases sp name = None)"
| "creates_fresh _ sp = True"

fun creates_fresh_all :: "('q, 'w, 'y) meta_event list \<Rightarrow> schema_spec \<Rightarrow> bool" where
  "creates_fresh_all [] sp = True"
| "creates_fresh_all (ev # evs) sp = (creates_fresh ev sp \<and> creates_fresh_all evs (fst (spec_event ev sp)))"

section \<open>Simulation\<close>

lemma quiet_unit_lands:
  assumes "quiet rows op" and "schema_rel env rows m sp"
  shows "lands (schema_rel env rows) (map_prod id (Answered \<circ> map_sum id (\<lambda>_. ())) (op m)) (sp, Answered (Inr ()))"
  by (rule quiet_lands [OF assms]) (cases "op m", simp)

lemma lands_answered: "lands R res out \<Longrightarrow> lands R (map_prod id f res) (map_prod id f out)"
  by (simp add: lands_def)

lemma quiet_answered_lands:
  assumes "quiet rows op" and "schema_rel env rows m sp"
  shows "lands (schema_rel env rows) (op m) (sp, Inr ())"
  by (rule quiet_lands [OF assms]) (cases "op m", simp)

lemma apply_mutation_lands:
  assumes ok: "meta_store_ok env rows" and c: "meta_codec_ok (me_codec env)" and rel: "schema_rel env rows m sp"
    and fresh: "creates_fresh (Mutate now uuid mutation) sp"
  shows "lands (schema_rel env rows) (apply_schema_mutation env now uuid mutation m) (spec_mutation now mutation sp)"
proof (cases mutation)
  case (CreateDatabase name rp)
  then show ?thesis using apply_create_lands [OF ok c rel, of rp name now] fresh by (cases rp) (simp_all add: apply_schema_mutation_def)
next
  case (DropDatabase name)
  then show ?thesis using drop_locally_lands [OF ok rel] by (simp add: apply_schema_mutation_def)
next
  case (CreateRetentionPolicy d rp)
  then show ?thesis using on_database_lands [OF ok c rel] by (simp add: apply_schema_mutation_def create_retention_policy_def)
next
  case (DropRetentionPolicy d name)
  then show ?thesis using on_database_lands [OF ok c rel] by (simp add: apply_schema_mutation_def drop_retention_policy_def)
next
  case (AlterRetentionPolicy d name ch)
  then show ?thesis using alter_lands [OF ok c rel] by (simp add: apply_schema_mutation_def)
next
  case (DropUser name)
  then show ?thesis using drop_user_lands [OF ok rel] by (simp add: apply_schema_mutation_def)
next
  case (Grant name d p)
  then show ?thesis using user_mutation_lands(3,4) [OF ok c rel] by (cases d) (simp_all add: apply_schema_mutation_def)
next
  case (Revoke name d p)
  then show ?thesis using user_mutation_lands(3) [OF ok c rel] revoke_lands [OF ok c rel] by (cases d) (simp_all add: apply_schema_mutation_def)
next
  case (DeleteWhere d r mm sql)
  have "quiet rows (\<lambda>m. and_do (store_tombstone env uuid d r mm sql m) (\<lambda>_ m.
      and_do (delete_series_matching env d r (Some mm) sql m) (\<lambda>_ m. (m, Inr ()))))"
    by (intro quiet_and_do quiet_ops quiet_id ok)
  from quiet_answered_lands [OF this rel] DeleteWhere show ?thesis by (simp add: apply_schema_mutation_def)
next
  case (DropSeries d r meas sql)
  have "quiet rows (\<lambda>m. and_do (if sql \<noteq> [] \<and> meas \<noteq> None
        then and_do (store_tombstone env uuid d r (case meas of Some mm \<Rightarrow> mm | None \<Rightarrow> []) sql m) (\<lambda>_ m. (m, Inr ()))
        else (m, Inr ())) (\<lambda>_ m. and_do (delete_series_matching env d r meas sql m) (\<lambda>_ m. (m, Inr ()))))"
    by (cases "sql \<noteq> [] \<and> meas \<noteq> None"; simp only: if_True if_False simp_thms; intro quiet_and_do quiet_ops quiet_id ok)
  from quiet_answered_lands [OF this rel] DropSeries show ?thesis by (simp add: apply_schema_mutation_def)
qed (use user_mutation_lands(1,2) [OF ok c rel] quiet_answered_lands [OF _ rel] in
  \<open>simp_all add: apply_schema_mutation_def quiet_definitions [OF ok c] quiet_delete_measurement [OF ok] quiet_set_setting [OF ok]\<close>)

lemma restart_lands:
  assumes "schema_rel env rows m sp"
  shows "schema_rel env rows (open_metadata (md_db m)) (fst (spec_event Reopen sp))"
proof -
  have t: "table_holds (mc_database (me_codec env)) ''db:'' stored_database db_cache rows m (sp_databases sp)"
    and u: "table_holds (mc_user (me_codec env)) ''user:'' (\<lambda>u. u) user_cache rows m (sp_users sp)"
    using assms by (simp_all add: schema_rel_def)
  show ?thesis
    using dbs.restart_holds [OF t, of "open_metadata (md_db m)"] usr.restart_holds [OF u, of "open_metadata (md_db m)"]
    by (simp add: schema_rel_def open_metadata_def option.map_id0 [unfolded id_def] option.map_ident)
qed

lemma list_users_ok:
  assumes ok: "meta_store_ok env rows" and rel: "schema_rel env rows m sp"
  shows "list_users env m = Inr (sorted_list_of_set (dom (sp_users sp)))"
proof -
  have u: "table_holds (mc_user (me_codec env)) ''user:'' (\<lambda>u. u) user_cache rows m (sp_users sp)" using rel by (simp add: schema_rel_def)
  have "list_users env m = Inr (concat (map (\<lambda>(k, v). takes (RowTake (drop (length user_prefix) k))) (scan_prefix (me_kv env) (md_db m) user_prefix)))"
    unfolding list_users_def by (rule meta_scan_rows [OF ok]) blast
  also have "concat (map (\<lambda>(k, v). takes (RowTake (drop (length user_prefix) k))) (scan_prefix (me_kv env) (md_db m) user_prefix))
      = map (\<lambda>(k, v). drop (length user_prefix) k) (scan_prefix (me_kv env) (md_db m) user_prefix)"
    by (simp add: takes_def split_def concat_map_singleton)
  also have "\<dots> = sorted_list_of_set {n. rows (md_db m) (user_prefix @ n) \<noteq> None}" by (rule scan_names [OF ok])
  also have "{n. rows (md_db m) (user_prefix @ n) \<noteq> None} = dom (sp_users sp)"
    using usr.names_holds [OF u] by (auto simp: dom_def user_prefix_def)
  finally show ?thesis .
qed

lemma run_event_lands:
  assumes ok: "meta_store_ok env rows" and c: "meta_codec_ok (me_codec env)" and rel: "schema_rel env rows m sp"
    and fresh: "creates_fresh ev sp"
  shows "lands (schema_rel env rows) (run_meta_event env ev m) (spec_event ev sp)"
proof (cases ev)
  case (Mutate now uuid mutation)
  then show ?thesis using lands_answered [OF apply_mutation_lands [OF ok c rel]] fresh by simp
next
  case (GetDatabase n)
  then show ?thesis using lands_answered [OF get_database_lands [OF ok rel], of Database n] by simp
next
  case (GetUser n)
  then show ?thesis using lands_answered [OF get_user_lands [OF ok rel], of User n] by simp
next
  case (ListPolicies n)
  then show ?thesis using lands_answered [OF list_policies_lands [OF ok rel], of Policies n] by (simp add: option.case_eq_if)
next
  case (GetDefaultPolicy n)
  have "lands (schema_rel env rows) (get_default_rp env n m)
      (sp, case sp_databases sp n of None \<Rightarrow> Inl (DatabaseNotFound n) | Some x \<Rightarrow> Inr (default_rp x))"
    using find_database_lands [OF ok rel, of n] unfolding get_default_rp_def
    by (cases "sp_databases sp n") (auto intro: lands_and_do_error lands_and_do)
  from lands_answered [OF this, of DefaultPolicy] GetDefaultPolicy show ?thesis by simp
next
  case ListDatabases
  have t: "table_holds (mc_database (me_codec env)) ''db:'' stored_database db_cache rows m (sp_databases sp)"
    using rel by (simp add: schema_rel_def)
  show ?thesis using dbs.list_holds [OF ok t] rel ListDatabases by (simp add: list_databases_def)
next
  case ListUsers
  then show ?thesis using list_users_ok [OF ok rel] rel by simp
next
  case Reopen
  then show ?thesis using restart_lands [OF rel] by simp
next
  case (RegisterSeries d r mm series)
  then show ?thesis using lands_answered [OF quiet_answered_lands [OF quiet_register_series [OF ok c] rel], of Answered] by simp
next
  case (RegisterBatch d r ms tags)
  then show ?thesis using lands_answered [OF quiet_answered_lands [OF quiet_register_batch [OF ok c] rel], of Answered] by simp
qed (use quiet_unit_lands [OF quiet_warm(1) [OF ok] rel] quiet_unit_lands [OF quiet_warm(2) [OF ok] rel] in simp_all)

lemma run_lands:
  assumes ok: "meta_store_ok env rows" and c: "meta_codec_ok (me_codec env)"
  shows "schema_rel env rows m sp \<Longrightarrow> creates_fresh_all evs sp \<Longrightarrow> lands (schema_rel env rows) (run_meta env evs m) (spec_run evs sp)"
proof (induction evs arbitrary: m sp)
  case (Cons ev evs)
  obtain m1 a where m1: "run_meta_event env ev m = (m1, a)" by fastforce
  obtain sp1 where sp1: "spec_event ev sp = (sp1, a)" "schema_rel env rows m1 sp1"
    using run_event_lands [OF ok c Cons.prems(1), of ev] Cons.prems(2) m1 by (cases "spec_event ev sp") (simp add: lands_def)
  have "lands (schema_rel env rows) (run_meta env evs m1) (spec_run evs sp1)"
    by (rule Cons.IH [OF sp1(2)]) (use Cons.prems(2) sp1(1) in simp)
  then show ?case by (simp add: m1 sp1(1) lands_def split_def Let_def)
qed simp

lemma open_empty_rel:
  assumes "\<And>k. rows d k = None"
  shows "schema_rel env rows (open_metadata d) empty_spec"
  using assms by (simp add: schema_rel_def table_holds_def row_holds_def open_metadata_def empty_spec_def hm_wf_def)

section \<open>A store to run on\<close>

instance retention_policy_ext :: (countable) countable
  by (rule countable_classI [of "\<lambda>r. to_nat (rp_name r, rp_duration r, shard_group_duration r, replication_factor r, is_default r, retention_policy.more r)"])
    (simp add: retention_policy.equality)

instance database_ext :: (countable) countable
  by (rule countable_classI [of "\<lambda>r. to_nat (db_name r, retention_policies r, default_rp r, database.more r)"]) (simp add: database.equality)

instance database_privilege :: countable by countable_datatype

instance stored_user_ext :: (countable) countable
  by (rule countable_classI [of "\<lambda>r. to_nat (password_hash r, user_admin r, created_at r, privileges r, stored_user.more r)"])
    (simp add: stored_user.equality)

instance rollup_combine :: countable by countable_datatype

instance measurement_meta_ext :: (countable) countable
  by (rule countable_classI [of "\<lambda>r. to_nat (mm_name r, field_types r, tag_keys r, field_rollups r, mean_fields r, materialized r,
      materialized_rp r, measurement_meta.more r)"]) (simp add: measurement_meta.equality)

definition demo_meta_env :: "((string \<times> u8 list) list, nat, nat, nat) meta_env" where
  "demo_meta_env = \<lparr>me_kv = list_kv,
     me_codec = \<lparr>mc_database = numbered_codec, mc_user = numbered_codec, mc_measurement = numbered_codec, mc_tags = numbered_codec,
       mc_query = numbered_codec, mc_view = numbered_codec, mc_setting = numbered_codec\<rparr>\<rparr>"

lemma demo_meta_ok: "meta_store_ok demo_meta_env map_of" "meta_codec_ok (me_codec demo_meta_env)"
  by (simp_all add: demo_meta_env_def meta_store_ok_def list_kv_laws list_kv_reliable meta_codec_ok_def)

section \<open>Properties\<close>

text \<open>
  C6. Whatever sequence of replicated schema mutations, ingests, cache warm-ups, reads and restarts a
  node's metadata store goes through, starting empty, it answers every one of them as two plain maps
  would, one of databases and one of users: the databases with their retention policies and default
  policies, the users with their passwords, admin flags and privileges, the errors of mutations that
  name what is not there, and the listings in name order. A restart leaves the durations of policies
  in whole seconds, which is also what a listing of the databases shows before it. RocksDB answers as
  documented and accepts writes, JSON reads back what it wrote; \<open>CREATE DATABASE\<close> without a policy is
  for a name that is free.
\<close>

theorem metadata_run_refines_maps:
  assumes "meta_store_ok env rows" and "meta_codec_ok (me_codec env)" and "\<And>k. rows d k = None"
    and "creates_fresh_all evs empty_spec"
  shows "snd (run_meta env evs (open_metadata d)) = snd (spec_run evs empty_spec)"
  using run_lands [OF assms(1,2) open_empty_rel [of rows d env, OF assms(3)] assms(4)] by (simp add: lands_def)

definition demo_meta_events :: "(nat, nat, nat) meta_event list" where
  "demo_meta_events =
     [Mutate ''t0'' ''i'' (CreateDatabase ''metrics'' None),
      Mutate ''t1'' ''i'' (CreateUser ''ann'' ''h1'' False),
      Mutate ''t2'' ''i'' (Grant ''ann'' (Some ''metrics'') AllPriv),
      Mutate ''t3'' ''i'' (Revoke ''ann'' (Some ''metrics'') ReadPriv),
      RegisterSeries ''metrics'' ''autogen'' ''cpu'' [(7, [(''host'', ''a'')])],
      Mutate ''t4'' ''i'' (CreateUser ''ann'' ''h2'' False),
      Reopen,
      GetUser ''ann'',
      Mutate ''t5'' ''i'' (DropDatabase ''other''),
      GetDefaultPolicy ''metrics'',
      ListUsers]"

theorem metadata_run_refines_maps_witness:
  "creates_fresh_all demo_meta_events empty_spec \<and>
   snd (run_meta demo_meta_env demo_meta_events (open_metadata [])) =
     [Answered (Inr ()), Answered (Inr ()), Answered (Inr ()), Answered (Inr ()), Answered (Inr ()), Answered (Inr ()), Answered (Inr ()),
      User (Inr (Some \<lparr>password_hash = ''h2'', user_admin = False, created_at = ''t1'', privileges = [(''metrics'', WritePriv)]\<rparr>)),
      Answered (Inl (DatabaseNotFound ''other'')), DefaultPolicy (Inr ''autogen''), Users (Inr [''ann''])]"
proof -
  have fresh: "creates_fresh_all demo_meta_events empty_spec" by (simp add: demo_meta_events_def empty_spec_def)
  have "map_of [] k = (None :: u8 list option)" for k :: string by simp
  from metadata_run_refines_maps [OF demo_meta_ok this fresh] fresh show ?thesis
    by (simp add: demo_meta_events_def empty_spec_def spec_create_with_def on_user_def less_privilege_def hm_get_def hm_insert_def
      new_database_def autogen_def stored_database_def)
qed

section \<open>Creating a database again\<close>






section \<open>Revoking\<close>

lemma revoke_step:
  assumes ok: "meta_store_ok env rows" and c: "meta_codec_ok (me_codec env)" and rel: "schema_rel env rows m sp"
    and user: "sp_users sp name = Some u" and wf: "hm_wf (privileges u)"
  shows "\<exists>m' v. revoke_privilege env name d p m = (m', Inr ()) \<and> snd (get_user env name m') = Inr (Some v)
    \<and> password_hash v = password_hash u \<and> user_admin v = user_admin u
    \<and> (\<forall>n. n \<noteq> name \<longrightarrow> snd (get_user env n m') = snd (get_user env n m)) \<and> list_users env m' = list_users env m
    \<and> (\<forall>x. can_read v x \<longleftrightarrow> user_admin u \<or> can_read u x \<and> \<not> (x = d \<and> p \<noteq> WritePriv))
    \<and> (\<forall>x. can_write v x \<longleftrightarrow> user_admin u \<or> can_write u x \<and> \<not> (x = d \<and> p \<noteq> ReadPriv))"
proof -
  let ?v = "less_privilege d p u"
  have "on_user name (less_privilege d p) sp = (sp\<lparr>sp_users := (sp_users sp)(name \<mapsto> ?v)\<rparr>, Inr ())" using user by (simp add: on_user_def)
  then obtain m' where m': "revoke_privilege env name d p m = (m', Inr ())" "schema_rel env rows m' (sp\<lparr>sp_users := (sp_users sp)(name \<mapsto> ?v)\<rparr>)"
    using revoke_lands [OF ok c rel, of name d p] by (cases "revoke_privilege env name d p m") simp
  have get: "snd (get_user env name m') = Inr (Some ?v)" using get_user_lands [OF ok m'(2), of name] by (simp add: lands_def)
  have held: "hm_get (privileges ?v) x = (if x = d then Option.bind (hm_get (privileges u) d) (\<lambda>q. without q p) else hm_get (privileges u) x)" for x
    using wf by (auto simp: less_privilege_def hm.get_ins hm.get_rem split: option.split)
  have "user_admin ?v = user_admin u" by (simp add: less_privilege_def)
  moreover have "Option.bind q (\<lambda>q. without q p) = Some ReadPriv \<or> Option.bind q (\<lambda>q. without q p) = Some AllPriv
      \<longleftrightarrow> (q = Some ReadPriv \<or> q = Some AllPriv) \<and> p = WritePriv"
    "Option.bind q (\<lambda>q. without q p) = Some WritePriv \<or> Option.bind q (\<lambda>q. without q p) = Some AllPriv
      \<longleftrightarrow> (q = Some WritePriv \<or> q = Some AllPriv) \<and> p = ReadPriv" for q
    by (cases q; cases p; cases "the q"; simp)+
  moreover have "snd (get_user env n m') = snd (get_user env n m)" if "n \<noteq> name" for n
    using get_user_lands [OF ok m'(2), of n] get_user_lands [OF ok rel, of n] that by (simp add: lands_def)
  moreover have "list_users env m' = list_users env m"
    using list_users_ok [OF ok m'(2)] list_users_ok [OF ok rel] user by (simp add: insert_absorb domI)
  moreover have "password_hash ?v = password_hash u" by (simp add: less_privilege_def)
  ultimately show ?thesis
    using m'(1) get by (intro exI [of _ m'] exI [of _ ?v]) (auto simp: can_read_def can_write_def held)
qed

lemma spec_users_wf:
  assumes "\<forall>n u. sp_users sp n = Some u \<longrightarrow> hm_wf (privileges u)"
  shows "\<forall>n u. sp_users (fst (spec_run evs sp)) n = Some u \<longrightarrow> hm_wf (privileges u)"
  using assms
proof (induction evs arbitrary: sp)
  case (Cons ev evs)
  have "\<forall>n u. sp_users (fst (spec_event ev sp)) n = Some u \<longrightarrow> hm_wf (privileges u)"
  proof (cases ev)
    case (Mutate now uuid mutation)
    have "\<forall>n u. sp_users (fst (spec_mutation now mutation sp)) n = Some u \<longrightarrow> hm_wf (privileges u)"
      using Cons.prems
      by (cases "(now, mutation, sp)" rule: spec_mutation.cases)
        (auto simp: spec_create_with_def on_database_def on_user_def less_privilege_def hm_wf_def [of "[]"] hm.wf_ins hm.wf_rem Let_def
          split: option.splits if_splits)
    with Mutate show ?thesis by simp
  qed (use Cons.prems in auto)
  from Cons.IH [OF this] show ?case by (simp add: split_def Let_def)
qed simp

text \<open>
  C36. Revoking a privilege from a user takes away what it names and nothing else: reading if it is
  \<open>READ\<close> or \<open>ALL\<close>, writing if it is \<open>WRITE\<close> or \<open>ALL\<close>, in that database, of that user, whose password
  and administrator flag stay. Every other user is read as before, and the list of users is the
  same. An administrator still reads and writes everything. This holds in any state that a run from
  an empty store reaches in which \<open>CREATE DATABASE\<close> without a policy was for a name that was free.
\<close>

theorem revoke_takes_only_the_revoked:
  assumes "meta_store_ok env rows" and "meta_codec_ok (me_codec env)" and "\<And>k. rows s k = None"
    and "creates_fresh_all evs empty_spec" and "sp_users (fst (spec_run evs empty_spec)) name = Some u"
  shows "\<exists>m' v. revoke_privilege env name d p (fst (run_meta env evs (open_metadata s))) = (m', Inr ())
    \<and> snd (get_user env name m') = Inr (Some v) \<and> password_hash v = password_hash u \<and> user_admin v = user_admin u
    \<and> (\<forall>n. n \<noteq> name \<longrightarrow> snd (get_user env n m') = snd (get_user env n (fst (run_meta env evs (open_metadata s)))))
    \<and> list_users env m' = list_users env (fst (run_meta env evs (open_metadata s)))
    \<and> (\<forall>x. can_read v x \<longleftrightarrow> user_admin u \<or> can_read u x \<and> \<not> (x = d \<and> p \<noteq> WritePriv))
    \<and> (\<forall>x. can_write v x \<longleftrightarrow> user_admin u \<or> can_write u x \<and> \<not> (x = d \<and> p \<noteq> ReadPriv))"
proof (rule revoke_step [OF assms(1,2) _ assms(5)])
  show "schema_rel env rows (fst (run_meta env evs (open_metadata s))) (fst (spec_run evs empty_spec))"
    using run_lands [OF assms(1,2) open_empty_rel [of rows s env, OF assms(3)] assms(4)] by (simp add: lands_def)
  show "hm_wf (privileges u)" using spec_users_wf [of empty_spec evs] assms(5) by (auto simp: empty_spec_def)
qed

theorem revoke_takes_only_the_revoked_witness:
  "\<exists>m' v. revoke_privilege demo_meta_env ''ann'' ''d'' ReadPriv (fst (run_meta demo_meta_env
       [Mutate ''t'' ''i'' (CreateUser ''ann'' ''h'' False), Mutate ''t'' ''i'' (Grant ''ann'' (Some ''d'') AllPriv)] (open_metadata [])))
     = (m', Inr ()) \<and> snd (get_user demo_meta_env ''ann'' m') = Inr (Some v) \<and> \<not> can_read v ''d'' \<and> can_write v ''d''"
proof -
  let ?evs = "[Mutate ''t'' ''i'' (CreateUser ''ann'' ''h'' False), Mutate ''t'' ''i'' (Grant ''ann'' (Some ''d'') AllPriv)] :: (nat, nat, nat) meta_event list"
  let ?u = "\<lparr>password_hash = ''h'', user_admin = False, created_at = ''t'', privileges = [(''d'', AllPriv)]\<rparr>"
  have rows: "map_of [] k = (None :: u8 list option)" for k :: string by simp
  have fresh: "creates_fresh_all ?evs empty_spec" by (simp add: empty_spec_def)
  have u: "sp_users (fst (spec_run ?evs empty_spec)) ''ann'' = Some ?u"
    by (simp add: empty_spec_def on_user_def hm_insert_def Let_def)
  have "can_write ?u ''d''" by (simp add: can_write_def hm_get_def)
  with revoke_takes_only_the_revoked [OF demo_meta_ok rows fresh u, of "''d''" ReadPriv] show ?thesis by auto
qed

end
