(* ===== verification/Series_Counts.thy ===== *)
theory Series_Counts
  imports Metadata_Runs
begin

text \<open>
  The series of the metadata store over its runs: the rows and the index of them in memory stand for
  the set of series registered and not deleted, and the number and the median of the series in a
  range of ids, by which the shard scheduler splits regions, are those of that set.
\<close>

section \<open>Series rows\<close>

lemma parse_digits_chars: "parse_digits 16 acc s = Some n \<Longrightarrow> CHR '':'' \<notin> set s"
proof (induction s arbitrary: acc)
  case (Cons c s)
  from Cons.prems have "char_digit 16 c \<noteq> None" by (auto split: option.splits)
  then have "c \<noteq> CHR '':''" by (auto simp: char_digit_def)
  with Cons show ?case by (auto split: option.splits if_splits)
qed simp

lemma from_str_no_colon: "from_str_radix 16 s = Some i \<Longrightarrow> CHR '':'' \<notin> set s"
  using parse_digits_chars [of 0 s] parse_digits_chars [of 0 "tl s"]
  by (cases s) (auto simp: from_str_radix_def Let_def simp del: parse_digits.simps split: if_splits)

definition is_series_key :: "string \<Rightarrow> bool" where
  "is_series_key k \<longleftrightarrow> (\<exists>d r mm i. k = series_storage_key d r mm i)"

text \<open>Under the prefix of a measurement, only its own series have an id.\<close>

lemma series_key_under:
  assumes "is_series_key k" and "starts_with k (series_prefix d r mm)"
    and "from_str_radix 16 (drop (length (series_prefix d r mm)) k) = Some i"
  shows "k = series_storage_key d r mm i"
proof -
  let ?p = "series_prefix d r mm" and ?rest = "drop (length (series_prefix d r mm)) k"
  have k: "k = ?p @ ?rest" using assms(2) unfolding starts_with_def by (metis append_take_drop_id)
  obtain d' r' mm' j where key: "k = series_storage_key d' r' mm' j" using assms(1) by (auto simp: is_series_key_def)
  have rest: "CHR '':'' \<notin> set ?rest" using from_str_no_colon [OF assms(3)] .
  have split: "dropWhile (\<lambda>c. c \<noteq> CHR '':'') (rev k) = rev ?p"
    by (subst k) (use rest in \<open>simp add: series_prefix_def split_at_colon\<close>)
  have "dropWhile (\<lambda>c. c \<noteq> CHR '':'') (rev k) = rev (series_prefix d' r' mm')"
    using hex16_no_colon [of j] by (simp add: key series_storage_key_prefix series_prefix_def split_at_colon)
  with split have "?p = series_prefix d' r' mm'" by simp
  with key have "k = ?p @ hex16 j" by (simp add: series_storage_key_prefix)
  then have "?rest = hex16 j" by simp
  with assms(3) \<open>k = ?p @ hex16 j\<close> show ?thesis by (simp add: series_storage_key_prefix)
qed

section \<open>Scans of a range\<close>

definition id_of :: "string \<Rightarrow> string \<Rightarrow> u64 option" where
  "id_of p k = (if starts_with k p then from_str_radix 16 (drop (length p) k) else None)"

definition ids_in :: "string \<Rightarrow> u64 \<Rightarrow> u64 \<Rightarrow> (string \<times> u8 list) list \<Rightarrow> u64 list" where
  "ids_in p start stop items = filter (\<lambda>i. start \<le> i \<and> i < stop) (List.map_filter (\<lambda>(k, v). id_of p k) items)"

text \<open>The rows a scan sees: under the prefix first, and with increasing ids.\<close>

fun range_items :: "string \<Rightarrow> (string \<times> u8 list) list \<Rightarrow> bool" where
  "range_items p [] = True"
| "range_items p ((k, v) # items) =
     ((\<not> starts_with k p \<longrightarrow> (\<forall>k' v'. (k', v') \<in> set items \<longrightarrow> \<not> starts_with k' p))
      \<and> (\<forall>i. id_of p k = Some i \<longrightarrow> (\<forall>k' v' j. (k', v') \<in> set items \<longrightarrow> id_of p k' = Some j \<longrightarrow> i < j))
      \<and> range_items p items)"

lemma ids_in_Nil [simp]: "ids_in p start stop [] = []"
  by (simp add: ids_in_def List.map_filter_def)

lemma ids_in_Cons: "ids_in p start stop ((k, v) # items) =
    (case id_of p k of Some i \<Rightarrow> (if start \<le> i \<and> i < stop then [i] else []) | None \<Rightarrow> []) @ ids_in p start stop items"
  by (simp add: ids_in_def List.map_filter_def split: option.split)

lemma ids_in_set: "set (ids_in p start stop items) = {i. start \<le> i \<and> i < stop \<and> (\<exists>k v. (k, v) \<in> set items \<and> id_of p k = Some i)}"
  by (force simp: ids_in_def List.map_filter_def)

lemma ids_in_sorted: "range_items p items \<Longrightarrow> sorted_wrt (<) (ids_in p start stop items)"
proof (induction items)
  case (Cons item items)
  obtain k v where "item = (k, v)" by fastforce
  with Cons show ?case by (auto simp: ids_in_Cons ids_in_set split: option.split)
qed simp

lemma ids_in_stop:
  assumes "range_items p ((k, v) # items)" and "id_of p k = Some i" and "stop \<le> i"
  shows "ids_in p start stop items = []"
proof -
  have "j \<notin> set (ids_in p start stop items)" for j
    using assms by (fastforce simp: ids_in_set)
  then show ?thesis by (meson last_in_set)
qed

lemma ids_in_other:
  assumes "range_items p ((k, v) # items)" and "\<not> starts_with k p"
  shows "ids_in p start stop items = []"
proof -
  have "j \<notin> set (ids_in p start stop items)" for j
    using assms by (auto simp: ids_in_set id_of_def)
  then show ?thesis by (meson last_in_set)
qed

lemma step_of_id:
  "under p (range_step p start stop) k v =
    (case id_of p k of
       Some i \<Rightarrow> if stop \<le> i then RowStop else if start \<le> i then RowTake i else RowSkip
     | None \<Rightarrow> if starts_with k p then RowSkip else RowStop)"
  by (simp add: under_def range_step_def id_of_def split: option.split)

lemma scan_range:
  assumes "range_items p items"
  shows "scan_rows (under p (range_step p start stop)) (map Inr items) = Inr (ids_in p start stop items)"
  using assms
proof (induction items)
  case (Cons item items)
  obtain k v where item: "item = (k, v)" by fastforce
  show ?case
    using Cons ids_in_stop [of p k v items _ stop start] ids_in_other [of p k v items start stop]
    by (auto simp: item step_of_id ids_in_Cons and_then_def id_of_def split: option.split)
qed simp

lemma count_range:
  assumes "range_items p items" and "unat n + length (ids_in p start stop items) < 2 ^ 64"
  shows "count_rows (under p (range_step p start stop)) n (map Inr items) = Inr (n + word_of_nat (length (ids_in p start stop items)))"
  using assms
proof (induction items arbitrary: n)
  case (Cons item items)
  obtain k v where item: "item = (k, v)" by fastforce
  show ?case
  proof (cases "\<exists>i. id_of p k = Some i \<and> start \<le> i \<and> i < stop")
    case True
    then obtain i where i: "id_of p k = Some i" "start \<le> i" "i < stop" "\<not> stop \<le> i" by (auto dest: leD)
    have len: "unat n + 1 + length (ids_in p start stop items) < 2 ^ 64"
      using Cons.prems(2) i by (simp add: item ids_in_Cons)
    then have sat: "unat (saturating_add n 1) = unat n + 1" by (intro saturating_add_1_unat) simp
    have "n \<noteq> - 1" using len by (auto simp: unsigned_minus_1_eq_mask mask_eq_exp_minus_1)
    then have "saturating_add n 1 = n + 1" by (simp add: saturating_add_1)
    then show ?thesis
      using Cons.IH [of "saturating_add n 1"] Cons.prems(1) i len sat
      by (simp add: item step_of_id ids_in_Cons)
  next
    case False
    with Cons ids_in_stop [of p k v items _ stop start] ids_in_other [of p k v items start stop] show ?thesis
      by (auto simp: item step_of_id ids_in_Cons id_of_def not_le split: option.split)
  qed
qed simp

lemma nth_range:
  assumes "range_items p items" and "seen \<le> n" and "unat seen + length (ids_in p start stop items) < 2 ^ 64"
  shows "nth_row (under p (range_step p start stop)) n seen (map Inr items) =
    Inr (if unat n - unat seen < length (ids_in p start stop items) then Some (ids_in p start stop items ! (unat n - unat seen)) else None)"
  using assms
proof (induction items arbitrary: seen)
  case (Cons item items)
  obtain k v where item: "item = (k, v)" by fastforce
  show ?case
  proof (cases "\<exists>i. id_of p k = Some i \<and> start \<le> i \<and> i < stop")
    case True
    then obtain i where i: "id_of p k = Some i" "start \<le> i" "i < stop" "\<not> stop \<le> i" by (auto dest: leD)
    show ?thesis
    proof (cases "seen = n")
      case False
      have lt: "unat seen < unat n" using False Cons.prems(2) by (simp add: word_less_nat_alt [symmetric])
      have len: "unat seen + 1 + length (ids_in p start stop items) < 2 ^ 64"
        using Cons.prems(3) i by (simp add: item ids_in_Cons)
      then have sat: "unat (saturating_add seen 1) = unat seen + 1" by (intro saturating_add_1_unat) simp
      moreover have "unat n - unat seen = Suc (unat n - (unat seen + 1))" using lt by simp
      ultimately show ?thesis
        using Cons.IH [of "saturating_add seen 1"] Cons.prems(1) i len False lt word_le_nat_alt [of "saturating_add seen 1" n]
        by (simp add: item step_of_id ids_in_Cons)
    qed (use i in \<open>simp add: item step_of_id ids_in_Cons\<close>)
  next
    case False
    with Cons ids_in_stop [of p k v items _ stop start] ids_in_other [of p k v items start stop] show ?thesis
      by (auto simp: item step_of_id ids_in_Cons id_of_def not_le split: option.split)
  qed
qed simp

section \<open>The set of series\<close>

definition series_rows :: "('d \<Rightarrow> string \<Rightarrow> u8 list option) \<Rightarrow> 'd \<Rightarrow> string set" where
  "series_rows rows s = {k. starts_with k ''series:'' \<and> rows s k \<noteq> None}"

definition in_range :: "string set \<Rightarrow> string \<Rightarrow> string \<Rightarrow> string \<Rightarrow> u64 \<Rightarrow> u64 \<Rightarrow> u64 set" where
  "in_range A d r mm start stop = {i. start \<le> i \<and> i < stop \<and> series_storage_key d r mm i \<in> A}"

text \<open>The rows are the set \<open>A\<close>; the index holds part of it, and all of it once it was warmed.\<close>

definition series_rel :: "('d \<Rightarrow> string \<Rightarrow> u8 list option) \<Rightarrow> nat \<Rightarrow> ('d, 'q, 'w) rocksdb_metadata \<Rightarrow> string set \<Rightarrow> bool" where
  "series_rel rows n m A \<longleftrightarrow> series_rows rows (md_db m) = A \<and> finite A \<and> card A \<le> n \<and> (\<forall>k\<in>A. is_series_key k)
     \<and> ix_ok (series_known m) \<and> set (si_keys (series_known m)) \<subseteq> A \<and> (series_warmed m \<longrightarrow> set (si_keys (series_known m)) = A)"

lemma starts_with_append:
  assumes "starts_with k (p @ q)"
  shows "starts_with k p"
proof -
  have "take (length p) (take (length (p @ q)) k) = p" using assms by (simp only: starts_with_def) simp
  then show ?thesis by (simp add: starts_with_def)
qed

lemma series_prefix_starts: "starts_with k (series_prefix d r mm) \<Longrightarrow> starts_with k ''series:''"
  unfolding series_prefix_def by (rule starts_with_append)

lemma storage_key_starts [simp]: "starts_with (series_storage_key d r mm i) ''series:''" "starts_with (series_storage_key d r mm i) (series_prefix d r mm)"
  by (simp add: starts_with_def series_storage_key_def, simp add: starts_with_def series_storage_key_prefix)

lemma id_of_storage_key [simp]: "id_of (series_prefix d r mm) (series_storage_key d r mm i) = Some i"
  by (simp add: id_of_def) (simp add: series_storage_key_prefix)

lemma range_items_sorted:
  assumes "sorted_wrt (<) (map fst items)" and "\<And>k v. (k, v) \<in> set items \<Longrightarrow> series_prefix d r mm \<le> k"
    and "\<And>k v. (k, v) \<in> set items \<Longrightarrow> starts_with k ''series:'' \<Longrightarrow> is_series_key k"
  shows "range_items (series_prefix d r mm) items"
  using assms
proof (induction items)
  case (Cons item items)
  let ?p = "series_prefix d r mm"
  obtain k v where item: "item = (k, v)" by fastforce
  have less: "k < k'" if "(k', v') \<in> set items" for k' v' using Cons.prems(1) that by (force simp: item)
  have key: "x = series_storage_key d r mm j" if "(x, w) \<in> set ((k, v) # items)" "id_of ?p x = Some j" for x w j
    using that Cons.prems(3) [of x w] series_key_under [of x d r mm j] series_prefix_starts [of x d r mm]
    by (auto simp: id_of_def item split: if_splits)
  have "i < j" if "id_of ?p k = Some i" "(k', v') \<in> set items" "id_of ?p k' = Some j" for i k' v' j
    using key [of k v i] key [of k' v' j] that less [OF that(2)] by simp
  moreover have "\<not> starts_with k' ?p" if "\<not> starts_with k ?p" "(k', v') \<in> set items" for k' v'
    using starts_with_interval [of ?p k k'] less_imp_le [OF less [OF that(2)]] that(1) Cons.prems(2) [of k v] by (auto simp: item)
  moreover have "range_items ?p items"
    by (rule Cons.IH) (use Cons.prems(1) in simp, use Cons.prems(2) in force, use Cons.prems(3) in force)
  ultimately show ?case by (auto simp: item)
qed simp

lemma range_ids:
  assumes ok: "meta_store_ok env rows" and rel: "series_rel rows n m A"
    and first: "first = series_prefix d r mm \<or> first = series_storage_key d r mm start"
  obtains items where "rdb_iter_from (me_kv env) (md_db m) first = map Inr items" and "range_items (series_prefix d r mm) items"
    and "ids_in (series_prefix d r mm) start stop items = sorted_list_of_set (in_range A d r mm start stop)"
proof -
  let ?p = "series_prefix d r mm"
  have laws: "rocks_laws (me_kv env) rows" using ok by (simp add: meta_store_ok_def)
  obtain items where items: "rdb_iter_from (me_kv env) (md_db m) first = map Inr items" "sorted_wrt (<) (map fst items)"
    "set items = {(k, v). rows (md_db m) k = Some v \<and> first \<le> k}"
    by (rule iter_items [OF laws])
  have le: "?p \<le> series_storage_key d r mm i" for i by (rule starts_with_ge) simp
  have A: "k \<in> A \<longleftrightarrow> starts_with k ''series:'' \<and> rows (md_db m) k \<noteq> None" for k
    using rel by (auto simp: series_rel_def series_rows_def)
  have keys: "is_series_key k" if "(k, v) \<in> set items" "starts_with k ''series:''" for k v
    using that rel A [of k] items(3) by (auto simp: series_rel_def)
  have range: "range_items ?p items"
    by (rule range_items_sorted [OF items(2)]) (use items(3) first le keys in \<open>auto intro: order_trans\<close>)
  have "set (ids_in ?p start stop items) = in_range A d r mm start stop"
  proof (intro set_eqI iffI)
    fix i assume "i \<in> set (ids_in ?p start stop items)"
    then obtain k v where kv: "start \<le> i" "i < stop" "(k, v) \<in> set items" "id_of ?p k = Some i" by (auto simp: ids_in_set)
    then have "k = series_storage_key d r mm i"
      using series_key_under [of k d r mm i] keys [of k v] series_prefix_starts [of k d r mm] by (auto simp: id_of_def split: if_splits)
    with kv A [of k] items(3) show "i \<in> in_range A d r mm start stop" by (auto simp: in_range_def)
  next
    fix i assume i: "i \<in> in_range A d r mm start stop"
    then have "series_storage_key d r mm start \<le> series_storage_key d r mm i"
      by (auto simp: in_range_def not_less [symmetric])
    then have "first \<le> series_storage_key d r mm i" using first le by auto
    moreover obtain v where "rows (md_db m) (series_storage_key d r mm i) = Some v" using i A by (auto simp: in_range_def)
    ultimately have "(series_storage_key d r mm i, v) \<in> set items" using items(3) by simp
    with i show "i \<in> set (ids_in ?p start stop items)" by (force simp: ids_in_set in_range_def)
  qed
  then have "ids_in ?p start stop items = sorted_list_of_set (in_range A d r mm start stop)"
    using ids_in_sorted [OF range, of start stop] sorted_list_of_set.idem_if_sorted_distinct [of "ids_in ?p start stop items"]
    by (simp add: strict_sorted_iff)
  with items(1) range show ?thesis by (rule that)
qed

lemma in_range_bound: "card (in_range A d r mm start stop) < 2 ^ 64"
proof -
  have "in_range A d r mm start stop \<subseteq> UNIV - {- 1}" by (auto simp: in_range_def)
  then have "card (in_range A d r mm start stop) \<le> card (UNIV - {- 1 :: u64})" by (intro card_mono) simp_all
  then show ?thesis by (simp add: card_Diff_singleton card_word)
qed

lemma range_reads:
  assumes ok: "meta_store_ok env rows" and rel: "series_rel rows n m A"
  shows "scan_series_ids env d r mm start stop m = Inr (sorted_list_of_set (in_range A d r mm start stop))"
    and "count_series_ids_blocking env d r mm start stop m = Inr (word_of_nat (card (in_range A d r mm start stop)))"
    and "nth_series_id_in_range env d r mm start stop x m =
      Inr (if unat x < card (in_range A d r mm start stop) then Some (sorted_list_of_set (in_range A d r mm start stop) ! unat x) else None)"
proof -
  let ?l = "sorted_list_of_set (in_range A d r mm start stop)"
  have len: "length ?l = card (in_range A d r mm start stop)" by simp
  note bound = in_range_bound [of A d r mm start stop]
  obtain items where i: "rdb_iter_from (me_kv env) (md_db m) (series_prefix d r mm) = map Inr items" "range_items (series_prefix d r mm) items"
    "ids_in (series_prefix d r mm) start stop items = ?l"
    by (rule range_ids [OF ok rel, where first = "series_prefix d r mm" and d = d and r = r and mm = mm and start = start and stop = stop]) simp_all
  show "scan_series_ids env d r mm start stop m = Inr ?l"
    by (simp add: scan_series_ids_def meta_scan_def i(1) scan_range [OF i(2)] i(3))
  obtain items where j: "rdb_iter_from (me_kv env) (md_db m) (series_storage_key d r mm start) = map Inr items" "range_items (series_prefix d r mm) items"
    "ids_in (series_prefix d r mm) start stop items = ?l"
    by (rule range_ids [OF ok rel, where first = "series_storage_key d r mm start" and d = d and r = r and mm = mm and start = start and stop = stop]) simp_all
  show "count_series_ids_blocking env d r mm start stop m = Inr (word_of_nat (card (in_range A d r mm start stop)))"
    using count_range [OF j(2), of 0 start stop] bound len by (simp add: count_series_ids_blocking_def Let_def j(1,3))
  show "nth_series_id_in_range env d r mm start stop x m =
      Inr (if unat x < card (in_range A d r mm start stop) then Some (?l ! unat x) else None)"
    using nth_range [OF j(2), of 0 x start stop] bound len by (simp add: nth_series_id_in_range_def Let_def j(1,3))
qed

lemma whole_range:
  assumes rel: "series_rel rows n m A" and warm: "series_warmed m" and max: "series_storage_key d r mm u64_max \<notin> A"
  shows "ix_count (series_known m) (series_prefix d r mm) = word_of_nat (card (in_range A d r mm 0 u64_max))"
proof -
  have keys: "set (si_keys (series_known m)) = A" and ix: "ix_ok (series_known m)" using rel warm by (simp_all add: series_rel_def)
  have "{k \<in> A. prefix_of k = series_prefix d r mm} = series_storage_key d r mm ` in_range A d r mm 0 u64_max"
  proof (intro set_eqI iffI)
    fix k assume k: "k \<in> {k \<in> A. prefix_of k = series_prefix d r mm}"
    then obtain d' r' mm' j where key: "k = series_storage_key d' r' mm' j" using rel by (auto simp: series_rel_def is_series_key_def)
    with k have "series_prefix d' r' mm' = series_prefix d r mm" by simp
    with key have "k = series_storage_key d r mm j" by (simp add: series_storage_key_prefix)
    moreover from this k max have "j \<noteq> u64_max" by auto
    then have "j < u64_max" by (simp add: order.strict_iff_order)
    ultimately show "k \<in> series_storage_key d r mm ` in_range A d r mm 0 u64_max" using k by (auto simp: in_range_def)
  qed (auto simp: in_range_def)
  moreover have "inj_on (series_storage_key d r mm) S" for S by (auto simp: inj_on_def series_storage_key_prefix)
  ultimately have "unat (ix_count (series_known m) (series_prefix d r mm)) = card (in_range A d r mm 0 u64_max)"
    using ix_count_exact [OF ix, of "series_prefix d r mm"] by (simp add: keys card_image)
  then show ?thesis by (metis of_nat_unat ucast_id)
qed

lemma counts_and_median:
  assumes ok: "meta_store_ok env rows" and rel: "series_rel rows n m A"
    and max: "start \<noteq> 0 \<or> stop \<noteq> u64_max \<or> series_storage_key d r mm u64_max \<notin> A"
  shows "count_series_ids_in_range env d r mm start stop m = Inr (word_of_nat (card (in_range A d r mm start stop)))"
    and "median_series_id_in_range env d r mm start stop m =
      Inr (if in_range A d r mm start stop = {} then None
           else Some (sorted_list_of_set (in_range A d r mm start stop) ! (card (in_range A d r mm start stop) div 2)))"
proof -
  let ?S = "in_range A d r mm start stop"
  show count: "count_series_ids_in_range env d r mm start stop m = Inr (word_of_nat (card ?S))"
    using range_reads(1,2) [OF ok rel] whole_range [OF rel, of d r mm] max
    by (auto simp: count_series_ids_in_range_def list_series_ids_def and_then_def)
  have small: "unat (word_of_nat (card ?S) :: u64) = card ?S" by (rule unat_of_nat_small [OF in_range_bound])
  then have zero: "word_of_nat (card ?S) = (0 :: u64) \<longleftrightarrow> ?S = {}" by (metis card_eq_0_iff finite unat_eq_0)
  have half: "unat (word_of_nat (card ?S) div 2 :: u64) = card ?S div 2" using small by (simp add: unat_div del: unsigned_of_nat)
  have "card ?S div 2 < card ?S" if "?S \<noteq> {}" using that by (simp add: card_gt_0_iff)
  with zero show "median_series_id_in_range env d r mm start stop m =
      Inr (if ?S = {} then None else Some (sorted_list_of_set ?S ! (card ?S div 2)))"
    by (simp add: median_series_id_in_range_def count and_then_def range_reads(3) [OF ok rel] half)
qed

section \<open>Operations on series\<close>

text \<open>The operations that write series rows or the index, and what they make of the set.\<close>

datatype series_event =
    RegisterBatchOf string string string "(u64 \<times> (string \<times> string) list) list"
  | DeleteMatching string string "string option" string
  | DeleteInRange string string string u64 u64
  | DeleteMeasurementOf string string string
  | DropDatabaseOf string
  | WarmIndex
  | ReopenStore

fun run_series_event :: "('d, 'q, 'w, 'y) meta_env \<Rightarrow> series_event \<Rightarrow> ('d, 'q, 'w) rocksdb_metadata \<Rightarrow> ('d, 'q, 'w) rocksdb_metadata" where
  "run_series_event env (RegisterBatchOf d r mm series) m = fst (register_series_batch env d r mm series m)"
| "run_series_event env (DeleteMatching d r meas sql) m = fst (delete_series_matching env d r meas sql m)"
| "run_series_event env (DeleteInRange d r mm start stop) m = fst (delete_series_in_range env d r mm start stop m)"
| "run_series_event env (DeleteMeasurementOf d r name) m = fst (delete_measurement env d r name m)"
| "run_series_event env (DropDatabaseOf name) m = fst (drop_database env name m)"
| "run_series_event env WarmIndex m = fst (warm_series env m)"
| "run_series_event env ReopenStore m = open_metadata (md_db m)"

definition matching_prefix :: "string \<Rightarrow> string \<Rightarrow> string option \<Rightarrow> string" where
  "matching_prefix d r meas =
     (case meas of Some mm \<Rightarrow> ''series:'' @ d @ '':'' @ r @ '':'' @ mm @ '':'' | None \<Rightarrow> ''series:'' @ d @ '':'' @ r @ '':'')"

fun series_after :: "series_event \<Rightarrow> string set \<Rightarrow> string set" where
  "series_after (RegisterBatchOf d r mm series) A = A \<union> (\<lambda>(i, _). series_storage_key d r mm i) ` set series"
| "series_after (DeleteMatching d r meas sql) A = {k \<in> A. \<not> starts_with k (matching_prefix d r meas)}"
| "series_after (DeleteInRange d r mm start stop) A = A - series_storage_key d r mm ` {i. start \<le> i \<and> i < stop}"
| "series_after (DeleteMeasurementOf d r name) A = {k \<in> A. \<forall>r' i. parse_series_storage_key k \<noteq> Some (d, r', name, i)}"
| "series_after (DropDatabaseOf name) A = {k \<in> A. \<not> starts_with k (''series:'' @ name @ '':'')}"
| "series_after _ A = A"

fun new_series :: "series_event \<Rightarrow> nat" where
  "new_series (RegisterBatchOf d r mm series) = length series"
| "new_series _ = 0"

section \<open>The operations keep the relation\<close>

lemma delete_each_ok:
  assumes "meta_store_ok env rows"
  obtains s where "delete_each env ks m = (m\<lparr>md_db := s\<rparr>, Inr ())" and "rows s = (\<lambda>k. if k \<in> set ks then None else rows (md_db m) k)"
proof -
  have "\<exists>s. delete_each env ks m = (m\<lparr>md_db := s\<rparr>, Inr ()) \<and> (\<forall>k. rows s k = (if k \<in> set ks then None else rows (md_db m) k))"
  proof (induction ks arbitrary: m)
    case Nil
    show ?case by (intro exI [of _ "md_db m"]) simp
  next
    case (Cons x ks)
    obtain s where s: "meta_write env [Delete x] m = (m\<lparr>md_db := s\<rparr>, Inr ())" "rows s = fold batch_effect [Delete x] (rows (md_db m))"
      by (rule meta_write_ok [OF assms])
    obtain s' where "delete_each env ks (m\<lparr>md_db := s\<rparr>) = (m\<lparr>md_db := s, md_db := s'\<rparr>, Inr ())"
      "\<forall>k. rows s' k = (if k \<in> set ks then None else rows s k)"
      using Cons.IH [of "m\<lparr>md_db := s\<rparr>"] by auto
    then show ?case using s by (intro exI [of _ s']) auto
  qed
  then obtain s where s: "delete_each env ks m = (m\<lparr>md_db := s\<rparr>, Inr ())" "\<forall>k. rows s k = (if k \<in> set ks then None else rows (md_db m) k)"
    by blast
  from s(2) have "rows s = (\<lambda>k. if k \<in> set ks then None else rows (md_db m) k)" by auto
  with s(1) show ?thesis by (rule that)
qed

lemma series_rel_shrink:
  assumes "series_rel rows n m A" and "series_rows rows (md_db m') = B" and "B \<subseteq> A" and "ix_ok (series_known m')"
    and "set (si_keys (series_known m')) = set (si_keys (series_known m)) \<inter> B" and "series_warmed m' = series_warmed m"
  shows "series_rel rows n m' B"
proof -
  have "finite B" "card B \<le> card A" using assms(1,3) by (auto simp: series_rel_def intro: finite_subset card_mono)
  with assms show ?thesis by (auto simp: series_rel_def)
qed

text \<open>A scan that takes the key of every row that a test accepts.\<close>

lemma scan_keys:
  assumes "meta_store_ok env rows" and "\<And>k v. f k v = (if P k then RowTake k else RowSkip)"
  obtains ks where "meta_scan env p f s = Inr ks" and "set ks = {k. starts_with k p \<and> rows s k \<noteq> None \<and> P k}" and "distinct ks"
proof (rule that)
  let ?l = "scan_prefix (me_kv env) s p"
  have laws: "rocks_laws (me_kv env) rows" using assms(1) by (simp add: meta_store_ok_def)
  show "meta_scan env p f s = Inr (concat (map (\<lambda>(k, v). takes (f k v)) ?l))"
    by (rule meta_scan_rows [OF assms(1)]) (simp add: assms(2))
  have eq: "concat (map (\<lambda>(k, v). takes (f k v)) l) = filter P (map fst l)" for l
    by (induction l) (auto simp: assms(2) takes_def)
  show "distinct (concat (map (\<lambda>(k, v). takes (f k v)) ?l))" using scan_prefix_distinct [OF laws] by (simp add: eq)
  show "set (concat (map (\<lambda>(k, v). takes (f k v)) ?l)) = {k. starts_with k p \<and> rows s k \<noteq> None \<and> P k}"
    using scan_prefix_rows(1) [OF laws, of s p] by (force simp: eq)
qed

lemma retain_keys [simp]: "si_keys (ix_retain keep ix) = filter keep (si_keys ix)"
  by (simp add: ix_retain_def)

lemma delete_matching_step:
  assumes ok: "meta_store_ok env rows" and rel: "series_rel rows n m A"
  shows "series_rel rows n (fst (delete_series_matching env d r meas sql m)) {k \<in> A. \<not> starts_with k (matching_prefix d r meas)}"
proof -
  let ?p = "matching_prefix d r meas"
  obtain ks where ks: "meta_scan env ?p (\<lambda>k _. RowTake k) (md_db m) = Inr ks"
    "set ks = {k. starts_with k ?p \<and> rows (md_db m) k \<noteq> None \<and> True}"
    by (rule scan_keys [where f = "\<lambda>k _. RowTake k" and P = "\<lambda>_. True", OF ok]) simp_all
  obtain s where s: "delete_each env ks m = (m\<lparr>md_db := s\<rparr>, Inr ())" "rows s = (\<lambda>k. if k \<in> set ks then None else rows (md_db m) k)"
    by (rule delete_each_ok [OF ok, of ks m])
  have res: "fst (delete_series_matching env d r meas sql m) = m\<lparr>md_db := s, series_known := ix_retain (\<lambda>k. \<not> starts_with k ?p) (series_known m)\<rparr>"
    using ks(1) s(1) by (simp add: delete_series_matching_def matching_prefix_def Let_def)
  show ?thesis
    by (rule series_rel_shrink [OF rel])
      (use rel s(2) ks(2) in \<open>auto simp: res series_rel_def series_rows_def ix_ok_retain\<close>)
qed

lemma warm_step:
  assumes ok: "meta_store_ok env rows" and rel: "series_rel rows n m A" and n: "n < 2 ^ 64"
  shows "series_rel rows n (fst (warm_series env m)) A"
proof -
  obtain ks where ks: "meta_scan env ''series:'' (\<lambda>k _. RowTake k) (md_db m) = Inr ks"
    "set ks = {k. starts_with k ''series:'' \<and> rows (md_db m) k \<noteq> None \<and> True}" "distinct ks"
    by (rule scan_keys [where f = "\<lambda>k _. RowTake k" and P = "\<lambda>_. True", OF ok]) simp_all
  have A: "set ks = A" using rel ks(2) by (auto simp: series_rel_def series_rows_def)
  then have "length ks < 2 ^ 64" using rel ks(3) n distinct_card [of ks] by (simp add: series_rel_def)
  from ix_ok_replace [OF this] rel A show ?thesis
    by (auto simp: series_rel_def warm_series_def ks(1) ix_replace_def Let_def)
qed

lemma reopen_step: "series_rel rows n m A \<Longrightarrow> series_rel rows n (open_metadata (md_db m)) A"
  using ix_ok_empty by (simp add: series_rel_def open_metadata_def) (simp add: empty_index_def)

lemma scan_key_range:
  assumes "\<And>k v i. (k, v) \<in> set items \<Longrightarrow> id_of p k = Some i \<Longrightarrow> k = g i"
    and "scan_rows (under p (range_step p start stop)) (map Inr items) = Inr ids"
  shows "scan_rows (under p (key_range_step p start stop)) (map Inr items) = Inr (map g ids)"
  using assms
proof (induction items arbitrary: ids)
  case (Cons item items)
  obtain k v where item: "item = (k, v)" by fastforce
  have step: "under p (key_range_step p start stop) k v =
      (case under p (range_step p start stop) k v of
         RowTake i \<Rightarrow> RowTake (g i) | RowSkip \<Rightarrow> RowSkip | RowStop \<Rightarrow> RowStop | RowFail e \<Rightarrow> RowFail e)"
    using Cons.prems(1) [of k v] by (auto simp: item under_def key_range_step_def range_step_def id_of_def split: option.split)
  have ih: "scan_rows (under p (key_range_step p start stop)) (map Inr items) = Inr (map g xs)"
    if "scan_rows (under p (range_step p start stop)) (map Inr items) = Inr xs" for xs
    by (rule Cons.IH [OF _ that]) (use Cons.prems(1) in force)
  show ?case
    using Cons.prems(2) ih
    by (auto simp: item step and_then_def split: row_step.splits sum.splits)
qed simp

lemma delete_range_step:
  assumes ok: "meta_store_ok env rows" and rel: "series_rel rows n m A"
  shows "series_rel rows n (fst (delete_series_in_range env d r mm start stop m)) (A - series_storage_key d r mm ` {i. start \<le> i \<and> i < stop})"
proof -
  let ?p = "series_prefix d r mm" and ?S = "in_range A d r mm start stop"
  obtain items where items: "rdb_iter_from (me_kv env) (md_db m) ?p = map Inr items" "sorted_wrt (<) (map fst items)"
    "set items = {(k, v). rows (md_db m) k = Some v \<and> ?p \<le> k}"
    by (rule iter_items [of "me_kv env" rows]) (use ok in \<open>simp add: meta_store_ok_def\<close>)
  have "k = series_storage_key d r mm i" if "(k, v) \<in> set items" "id_of ?p k = Some i" for k v i
    using that rel series_key_under [of k d r mm i] series_prefix_starts [of k d r mm] items(3)
    by (auto simp: id_of_def series_rel_def series_rows_def split: if_splits)
  from scan_key_range [OF this] range_reads(1) [OF ok rel, of d r mm start stop]
  have scan: "meta_scan env ?p (key_range_step ?p start stop) (md_db m) = Inr (map (series_storage_key d r mm) (sorted_list_of_set ?S))"
    by (simp add: scan_series_ids_def meta_scan_def items(1))
  obtain s where s: "delete_each env (map (series_storage_key d r mm) (sorted_list_of_set ?S)) m = (m\<lparr>md_db := s\<rparr>, Inr ())"
    "rows s = (\<lambda>k. if k \<in> set (map (series_storage_key d r mm) (sorted_list_of_set ?S)) then None else rows (md_db m) k)"
    by (rule delete_each_ok [OF ok])
  have res: "fst (delete_series_in_range env d r mm start stop m) = m\<lparr>md_db := s, series_known := ix_retain (outside_range ?p start stop) (series_known m)\<rparr>"
    using scan s(1) by (simp add: delete_series_in_range_def Let_def)
  have out: "outside_range ?p start stop k \<longleftrightarrow> k \<notin> series_storage_key d r mm ` {i. start \<le> i \<and> i < stop}" if "k \<in> A" for k
  proof
    assume o: "outside_range ?p start stop k"
    show "k \<notin> series_storage_key d r mm ` {i. start \<le> i \<and> i < stop}"
      using o by (auto simp: outside_range_def series_storage_key_prefix starts_with_def)
  next
    assume "k \<notin> series_storage_key d r mm ` {i. start \<le> i \<and> i < stop}"
    moreover have "is_series_key k" using that rel by (simp add: series_rel_def)
    ultimately show "outside_range ?p start stop k"
      using series_key_under [of k d r mm] by (force simp: outside_range_def split: option.split)
  qed
  have A: "A = series_rows rows (md_db m)" and sub: "set (si_keys (series_known m)) \<subseteq> A" using rel by (simp_all add: series_rel_def)
  have fin: "set (sorted_list_of_set ?S) = ?S" by simp
  show ?thesis
  proof (rule series_rel_shrink [OF rel])
    show "series_rows rows (md_db (fst (delete_series_in_range env d r mm start stop m))) = A - series_storage_key d r mm ` {i. start \<le> i \<and> i < stop}"
      by (auto simp: res s(2) fin A series_rows_def in_range_def)
    show "set (si_keys (series_known (fst (delete_series_in_range env d r mm start stop m))))
        = set (si_keys (series_known m)) \<inter> (A - series_storage_key d r mm ` {i. start \<le> i \<and> i < stop})"
      using out sub by (auto simp: res)
  qed (use rel in \<open>auto simp: res series_rel_def ix_ok_retain\<close>)
qed

lemma splitn_head: "splitn (Suc (Suc n)) c s = a # b # xs \<Longrightarrow> starts_with s (a @ [c])"
proof -
  assume "splitn (Suc (Suc n)) c s = a # b # xs"
  then obtain x rest where x: "dropWhile (\<lambda>y. y \<noteq> c) s = x # rest" "a = takeWhile (\<lambda>y. y \<noteq> c) s" by (auto split: list.splits)
  then have "x = c" using hd_dropWhile [of "\<lambda>y. y \<noteq> c" s] by simp
  then have "s = a @ c # rest" using x takeWhile_dropWhile_id [of "\<lambda>y. y \<noteq> c" s] by simp
  then show ?thesis by (simp add: starts_with_def)
qed

lemma parse_starts:
  assumes "parse_series_storage_key k = Some (d, r, mm, i)"
  shows "starts_with k (''series:'' @ d @ '':'')"
proof -
  obtain rest where rest: "strip_prefix ''series:'' k = Some rest" "\<exists>x y z. splitn 4 CHR '':'' rest = [d, x, y, z]"
    using assms by (auto simp: parse_series_storage_key_def split: option.splits list.splits)
  then have "k = ''series:'' @ rest" unfolding strip_prefix_def starts_with_def by (auto split: if_splits) (metis append_take_drop_id append_Cons append_Nil)
  moreover have "starts_with rest (d @ '':'')"
    using rest(2) splitn_head [of 2 "CHR '':''" rest d] by (auto simp: numeral_eq_Suc simp del: splitn.simps)
  ultimately show ?thesis by (simp add: starts_with_def)
qed

lemma remove_keys:
  assumes "ix_ok ix"
  shows "ix_ok (fold (\<lambda>k ix. fst (ix_remove k ix)) ks ix) \<and> set (si_keys (fold (\<lambda>k ix. fst (ix_remove k ix)) ks ix)) = set (si_keys ix) - set ks"
  using assms
proof (induction ks arbitrary: ix)
  case (Cons k ks)
  have "set (si_keys (fst (ix_remove k ix))) = set (si_keys ix) - {k}" by (auto simp: ix_remove_def)
  with Cons.IH [OF ix_ok_remove [OF Cons.prems]] show ?case by auto
qed simp

lemma delete_measurement_step:
  assumes ok: "meta_store_ok env rows" and rel: "series_rel rows n m A"
  shows "series_rel rows n (fst (delete_measurement env d r name m)) {k \<in> A. \<forall>r' i. parse_series_storage_key k \<noteq> Some (d, r', name, i)}"
proof -
  let ?P = "\<lambda>k. \<exists>r' i. parse_series_storage_key k = Some (d, r', name, i)"
  obtain s0 where s0: "meta_write env [Delete (meas_key d r name)] m = (m\<lparr>md_db := s0\<rparr>, Inr ())"
    "rows s0 = fold batch_effect [Delete (meas_key d r name)] (rows (md_db m))"
    by (rule meta_write_ok [OF ok])
  have step: "series_step_of_measurement d name k v = (if ?P k then RowTake k else RowSkip)" for k v
    by (auto simp: series_step_of_measurement_def split: option.split)
  obtain ks where ks: "meta_scan env (''series:'' @ d @ '':'') (series_step_of_measurement d name) s0 = Inr ks"
    "set ks = {k. starts_with k (''series:'' @ d @ '':'') \<and> rows s0 k \<noteq> None \<and> ?P k}"
    by (rule scan_keys [where f = "series_step_of_measurement d name" and P = ?P, OF ok step])
  obtain s where s: "delete_each env ks (m\<lparr>md_db := s0\<rparr>) = (m\<lparr>md_db := s0, md_db := s\<rparr>, Inr ())"
    "rows s = (\<lambda>k. if k \<in> set ks then None else rows (md_db (m\<lparr>md_db := s0\<rparr>)) k)"
    by (rule delete_each_ok [OF ok])
  have same: "rows s0 k = rows (md_db m) k" if "starts_with k ''series:''" for k
    using that by (auto simp: s0(2) meas_key_def starts_with_def)
  obtain m' where m': "fst (delete_measurement env d r name m) = m'" "md_db m' = s" "series_warmed m' = series_warmed m"
    "series_known m' = fold (\<lambda>k ix. fst (ix_remove k ix)) ks (series_known m)"
    using s0(1) ks(1) s(1) by (simp add: delete_measurement_def)
  have A: "k \<in> A \<longleftrightarrow> starts_with k ''series:'' \<and> rows (md_db m) k \<noteq> None" for k using rel by (auto simp: series_rel_def series_rows_def)
  have gone: "set ks = {k \<in> A. ?P k}"
    using ks(2) A same parse_starts starts_with_append [of _ "''series:''" "d @ '':''"] by auto
  show ?thesis
    unfolding m'(1)
  proof (rule series_rel_shrink [OF rel])
    show "series_rows rows (md_db m') = {k \<in> A. \<forall>r' i. parse_series_storage_key k \<noteq> Some (d, r', name, i)}"
      using A same gone by (auto simp: m'(2) s(2) series_rows_def)
    show "ix_ok (series_known m')" "set (si_keys (series_known m')) = set (si_keys (series_known m)) \<inter> {k \<in> A. \<forall>r' i. parse_series_storage_key k \<noteq> Some (d, r', name, i)}"
      using remove_keys [of "series_known m" ks] rel gone by (auto simp: m'(4) series_rel_def)
  qed (use m'(3) in auto)
qed

lemma colon_range: "p @ '':'' \<le> k \<and> k < p @ '';'' \<longleftrightarrow> starts_with k (p @ '':'')" for k :: string
proof (induction p arbitrary: k)
  case Nil
  show ?case by (cases k) (auto simp: starts_with_def less_char_def less_eq_char_def)
next
  case (Cons c p)
  show ?case
  proof (cases k)
    case (Cons x xs)
    have "starts_with k ((c # p) @ '':'') \<longleftrightarrow> x = c \<and> starts_with xs (p @ '':'')" by (simp add: Cons starts_with_def)
    moreover have "(c # p) @ '':'' \<le> k \<and> k < (c # p) @ '';'' \<longleftrightarrow> x = c \<and> p @ '':'' \<le> xs \<and> xs < p @ '';''"
      by (simp add: Cons) (metis less_asym)
    ultimately show ?thesis using Cons.IH [of xs] by simp
  qed (simp add: starts_with_def)
qed

lemma bump_colon: "bump_last (p @ '':'') = p @ '';''"
  by (simp add: bump_last_def) code_simp

lemma drop_database_step:
  assumes ok: "meta_store_ok env rows" and rel: "series_rel rows n m A"
  shows "series_rel rows n (fst (drop_database env name m)) {k \<in> A. \<not> starts_with k (''series:'' @ name @ '':'')}"
proof -
  let ?q = "''series:'' @ name @ '':''"
  let ?ops = "Delete (db_key name) # map (\<lambda>p. DeleteRange p (bump_last p))
    [''meas:'' @ name @ '':'', ''tag_val:'' @ name @ '':'', ?q] :: (string, u8 list) batch_op list"
  obtain s where s: "meta_write env ?ops m = (m\<lparr>md_db := s\<rparr>, Inr ())" "rows s = fold batch_effect ?ops (rows (md_db m))"
    by (rule meta_write_ok [OF ok])
  obtain m' where m': "fst (drop_database env name m) = m'" "md_db m' = s" "series_warmed m' = series_warmed m"
    "series_known m' = ix_retain (\<lambda>k. \<not> starts_with k ?q) (series_known m)"
    unfolding drop_database_def s(1) and_do_simps by simp
  have keys: "rows s k = (if starts_with k ?q then None else rows (md_db m) k)" if "starts_with k ''series:''" for k
  proof -
    from that have "k = CHR ''s'' # tl k" by (cases k) (auto simp: starts_with_def)
    then obtain x where k: "k = CHR ''s'' # x" by blast
    have "?q \<le> k \<and> k < bump_last ?q \<longleftrightarrow> starts_with k ?q"
      using colon_range [of "''series:'' @ name" k] bump_colon [of "''series:'' @ name"] by simp
    moreover have "\<not> k < bump_last (''meas:'' @ name @ '':'')"
      using bump_colon [of "''meas:'' @ name"] by (simp add: k less_char_def)
    moreover have "\<not> ''tag_val:'' @ name @ '':'' \<le> k" by (simp add: k less_char_def)
    moreover have "k \<noteq> db_key name" by (simp add: k db_key_def)
    ultimately show ?thesis unfolding s(2) by (simp del: append_Cons append_Nil)
  qed
  have A: "k \<in> A \<longleftrightarrow> starts_with k ''series:'' \<and> rows (md_db m) k \<noteq> None" for k using rel by (auto simp: series_rel_def series_rows_def)
  show ?thesis
    unfolding m'(1)
  proof (rule series_rel_shrink [OF rel])
    show "series_rows rows (md_db m') = {k \<in> A. \<not> starts_with k ?q}" using A keys by (auto simp: m'(2) series_rows_def split: if_splits)
    show "set (si_keys (series_known m')) = set (si_keys (series_known m)) \<inter> {k \<in> A. \<not> starts_with k ?q}"
      using rel by (auto simp: m'(4) series_rel_def)
  qed (use rel m' in \<open>auto simp: series_rel_def ix_ok_retain\<close>)
qed

lemma insert_keys:
  assumes "ix_ok ix" and "set (si_keys ix) \<union> fst ` set kvs \<subseteq> B" and "finite B" and "card B < 2 ^ 64"
  shows "ix_ok (fold (\<lambda>(k, _) ix. fst (ix_insert k ix)) kvs ix)
    \<and> set (si_keys (fold (\<lambda>(k, _) ix. fst (ix_insert k ix)) kvs ix)) = set (si_keys ix) \<union> fst ` set kvs"
  using assms(1,2)
proof (induction kvs arbitrary: ix)
  case (Cons kv kvs)
  obtain k v where kv: "kv = (k, v)" by fastforce
  have set: "set (si_keys (fst (ix_insert k ix))) = insert k (set (si_keys ix))" by (auto simp: ix_insert_def)
  have "ix_ok (fst (ix_insert k ix))"
  proof (cases "k \<in> set (si_keys ix)")
    case True
    with Cons.prems(1) show ?thesis by (simp add: ix_insert_def)
  next
    case False
    have "card (insert k (set (si_keys ix))) \<le> card B" using Cons.prems(2) assms(3) by (intro card_mono) (auto simp: kv)
    then have "Suc (length (si_keys ix)) < 2 ^ 64"
      using False Cons.prems(1) assms(4) distinct_card [of "si_keys ix"] by (simp add: ix_ok_def)
    then show ?thesis by (intro ix_ok_insert [OF Cons.prems(1)]) simp
  qed
  from Cons.IH [OF this] Cons.prems(2) set show ?case by (auto simp: kv)
qed simp

lemma novel_series_keys:
  assumes "json_codec c"
  obtains kvs where "novel_series c ix d r mm series = Inr kvs"
    and "fst ` set kvs = (\<lambda>(i, _). series_storage_key d r mm i) ` set series - set (si_keys ix)"
proof -
  have "\<exists>kvs. novel_series c ix d r mm series = Inr kvs
      \<and> fst ` set kvs = (\<lambda>(i, _). series_storage_key d r mm i) ` set series - set (si_keys ix)"
  proof (induction series)
    case (Cons x series)
    obtain i tags where x: "x = (i, tags)" by fastforce
    obtain b where "fst c tags = Inr b" by (rule json_codecE [OF assms, of tags])
    with Cons x show ?case by (auto simp: meta_encode_def Let_def and_then_def ix_contains_def)
  qed simp
  then show ?thesis using that by blast
qed

lemma series_puts_rows: "fold batch_effect (map (\<lambda>(k, v). Put k v) kvs) R k = None \<longleftrightarrow> k \<notin> fst ` set kvs \<and> R k = None"
  by (induction kvs arbitrary: R) (auto simp: split_def)

lemma register_step:
  assumes ok: "meta_store_ok env rows" and c: "meta_codec_ok (me_codec env)" and rel: "series_rel rows n m A"
    and n: "n + length series < 2 ^ 64"
  shows "series_rel rows (n + length series) (fst (register_series_batch env d r mm series m))
    (A \<union> (\<lambda>(i, _). series_storage_key d r mm i) ` set series)"
proof -
  let ?new = "(\<lambda>(i, _). series_storage_key d r mm i) ` set series" and ?ix = "series_known m"
  have "json_codec (mc_tags (me_codec env))" using c by (simp add: meta_codec_ok_def)
  then obtain kvs where kvs: "novel_series (mc_tags (me_codec env)) ?ix d r mm series = Inr kvs" "fst ` set kvs = ?new - set (si_keys ?ix)"
    by (rule novel_series_keys)
  obtain s where s: "meta_write env (map (\<lambda>(k, v). Put k v) kvs) m = (m\<lparr>md_db := s\<rparr>, Inr ())"
    "rows s = fold batch_effect (map (\<lambda>(k, v). Put k v) kvs) (rows (md_db m))"
    by (rule meta_write_ok [OF ok])
  have A: "series_rows rows (md_db m) = A" "finite A" "card A \<le> n" "set (si_keys ?ix) \<subseteq> A" "ix_ok ?ix" using rel by (simp_all add: series_rel_def)
  have cardB: "card (A \<union> ?new) \<le> n + length series"
    using card_Un_le [of A ?new] A(3) card_image_le [OF finite_set, of "\<lambda>(i, _). series_storage_key d r mm i" series] card_length [of series] by linarith
  have sub: "set (si_keys ?ix) \<union> fst ` set kvs \<subseteq> A \<union> ?new" and fin: "finite (A \<union> ?new)" and card: "card (A \<union> ?new) < 2 ^ 64"
    using A kvs(2) cardB n by auto
  note ins = insert_keys [OF A(5) sub fin card]
  obtain m' where m': "fst (register_series_batch env d r mm series m) = m'" "series_warmed m' = series_warmed m"
    "series_known m' = fold (\<lambda>(k, _) ix. fst (ix_insert k ix)) kvs ?ix" "rows (md_db m') k = None \<longleftrightarrow> k \<notin> fst ` set kvs \<and> rows (md_db m) k = None" for k
    using s kvs series_puts_rows [of kvs "rows (md_db m)"]
    by (cases "series = []"; cases "kvs = []") (auto simp: register_series_batch_def)
  have "series_rows rows (md_db m') = A \<union> ?new"
    using A(1,4) kvs(2) by (auto simp: series_rows_def m'(4))
  moreover have "\<forall>k\<in>A \<union> ?new. is_series_key k" using rel by (auto simp: series_rel_def is_series_key_def)
  moreover have "series_warmed m \<longrightarrow> set (si_keys ?ix) = A" using rel by (simp add: series_rel_def)
  ultimately show ?thesis using ins fin cardB kvs(2) A(4) by (auto simp: series_rel_def m'(1-3))
qed

section \<open>Counts and medians on every run\<close>

lemma series_event_step:
  assumes ok: "meta_store_ok env rows" and c: "meta_codec_ok (me_codec env)" and rel: "series_rel rows n m A" and n: "n + new_series ev < 2 ^ 64"
  shows "series_rel rows (n + new_series ev) (run_series_event env ev m) (series_after ev A)"
proof (cases ev)
  case (RegisterBatchOf d r mm series)
  then show ?thesis using register_step [OF ok c rel, of series d r mm] n by simp
next
  case (DeleteMatching d r meas sql)
  then show ?thesis using delete_matching_step [OF ok rel] by simp
next
  case (DeleteInRange d r mm start stop)
  then show ?thesis using delete_range_step [OF ok rel] by simp
next
  case (DeleteMeasurementOf d r name)
  then show ?thesis using delete_measurement_step [OF ok rel] by simp
next
  case (DropDatabaseOf name)
  then show ?thesis using drop_database_step [OF ok rel, of name] by simp
next
  case WarmIndex
  then show ?thesis using warm_step [OF ok rel] n by simp
next
  case ReopenStore
  then show ?thesis using reopen_step [OF rel] by simp
qed

lemma series_run:
  assumes ok: "meta_store_ok env rows" and c: "meta_codec_ok (me_codec env)"
  shows "series_rel rows n m A \<Longrightarrow> n + sum_list (map new_series evs) < 2 ^ 64 \<Longrightarrow>
    series_rel rows (n + sum_list (map new_series evs)) (fold (run_series_event env) evs m) (fold series_after evs A)"
proof (induction evs arbitrary: n m A)
  case (Cons ev evs)
  have "series_rel rows (n + new_series ev) (run_series_event env ev m) (series_after ev A)"
    by (rule series_event_step [OF ok c Cons.prems(1)]) (use Cons.prems(2) in simp)
  from Cons.IH [OF this] Cons.prems(2) show ?case by (simp add: add.assoc)
qed simp

lemma series_empty: "(\<And>k. rows s k = None) \<Longrightarrow> series_rel rows 0 (open_metadata s) {}"
  using ix_ok_empty by (simp add: series_rel_def series_rows_def open_metadata_def) (simp add: empty_index_def)

text \<open>
  C15. On every sequence of registrations, deletions by measurement, by retention policy, by range of
  ids and by database, loads of the index and restarts of a store that starts empty, the number of
  series in a range of ids is that of the series registered and not deleted since, whether it is read
  from the index or by a scan of the rows, and the median is the series with half of them below it:
  the point at which the scheduler splits a region. The database takes every write of such a run
  (\<open>meta_store_ok\<close>) and rows serialize; it is for fewer than \<open>2\<^sup>6\<^sup>4\<close> registrations and,
  for the whole measurement, when no series has the largest id, which the scans leave out.
\<close>

theorem series_counts_exact:
  assumes "meta_store_ok env rows" and "meta_codec_ok (me_codec env)" and "\<And>k. rows s k = None"
    and "sum_list (map new_series evs) < 2 ^ 64"
    and "start \<noteq> 0 \<or> stop \<noteq> u64_max \<or> series_storage_key d r mm u64_max \<notin> fold series_after evs {}"
  defines "S \<equiv> {i. start \<le> i \<and> i < stop \<and> series_storage_key d r mm i \<in> fold series_after evs {}}"
  shows "count_series_ids_in_range env d r mm start stop (fold (run_series_event env) evs (open_metadata s)) = Inr (word_of_nat (card S))
    \<and> median_series_id_in_range env d r mm start stop (fold (run_series_event env) evs (open_metadata s)) =
        Inr (if S = {} then None else Some (sorted_list_of_set S ! (card S div 2)))"
proof -
  have S: "S = in_range (fold series_after evs {}) d r mm start stop" by (simp add: S_def in_range_def)
  have "series_rel rows (0 + sum_list (map new_series evs)) (fold (run_series_event env) evs (open_metadata s)) (fold series_after evs {})"
    by (rule series_run [OF assms(1,2) series_empty]) (use assms(3,4) in simp_all)
  from counts_and_median [OF assms(1) this assms(5)] show ?thesis unfolding S by blast
qed

definition demo_series_events :: "series_event list" where
  "demo_series_events =
     [RegisterBatchOf ''d'' ''r'' ''cpu'' [(5, []), (9, []), (7, []), (20, [])], ReopenStore,
      RegisterBatchOf ''d'' ''r'' ''cpu'' [(7, []), (3, [])], DeleteInRange ''d'' ''r'' ''cpu'' 9 10, WarmIndex]"

theorem series_counts_exact_witness:
  "count_series_ids_in_range demo_meta_env ''d'' ''r'' ''cpu'' 4 21 (fold (run_series_event demo_meta_env) demo_series_events (open_metadata [])) = Inr 3
   \<and> median_series_id_in_range demo_meta_env ''d'' ''r'' ''cpu'' 4 21 (fold (run_series_event demo_meta_env) demo_series_events (open_metadata []))
     = Inr (Some 7)"
proof -
  let ?A = "fold series_after demo_series_events {}"
  have rows: "map_of [] k = (None :: u8 list option)" for k :: string by simp
  have key: "series_storage_key ''d'' ''r'' ''cpu'' i = series_storage_key ''d'' ''r'' ''cpu'' j \<longleftrightarrow> i = j" for i j
    by (simp add: series_storage_key_prefix)
  have A: "series_storage_key ''d'' ''r'' ''cpu'' i \<in> ?A \<longleftrightarrow> i \<in> {5, 7, 20, 3}" for i
    by (auto simp: demo_series_events_def key image_iff)
  have S: "{i. 4 \<le> i \<and> i < 21 \<and> series_storage_key ''d'' ''r'' ''cpu'' i \<in> ?A} = {5, 7, 20 :: u64}" by (auto simp: A)
  have "sum_list (map new_series demo_series_events) < 2 ^ 64" by (simp add: demo_series_events_def)
  from series_counts_exact [OF demo_meta_ok rows this, of 4 21 "''d''" "''r''" "''cpu''"] show ?thesis
    by (simp add: S)
qed

end
