(* ===== verification/Spec2Isabelle.thy ===== *)
theory Spec2Isabelle
  imports Shard_Log Placement_Steps Placement_Balance Location_Cache Membership Shard_Store Replication_Log Forward_Queue
    Flush_Works Replication_Send Write_Routing Bootstrap Raft_Apply
    Series_Counts
begin

text \<open>
  \<^bold>\<open>A model of HyperbyteDB\<close>, a clustered time-series database. A node takes writes over HTTP, logs
  them, replicates them to its peers, flushes them into an embedded query engine and answers queries
  from it; the series of a measurement are divided into regions that are spread over the nodes. The
  library models the parts that decide where data is and whether it is safe: the log, replication,
  the shard map and its routing, the storage of the consensus log and the metadata. Paths are
  relative to \<^verbatim>\<open>src/hyperbytedb/src\<close>.

  \<^bold>\<open>How the parts interact.\<close> A write is split by region (\<^verbatim>\<open>shard_routing.rs\<close>) with the location cache of
  the shard map. Points of a region whose primary is this node are appended to the write-ahead log
  and queued for replication; the others are put into the forward queue for the node that is. The
  sender gathers queued batches into rounds and sends every peer its parts; what a peer does not
  take becomes a hint, replayed later. The flush service reads the log in chunks, inserts the points
  and truncates the log behind what is inserted and acknowledged. Operations on the shard map and
  schema mutations are entries of the consensus log; applying a committed entry changes the persistent
  shard map, the location cache, the membership and the metadata store of each node.

  \<^bold>\<open>Theories.\<close> \<open>HB_Prelude\<close> has the integers, the pieces of the Rust library and the shared lemmas;
  \<open>Byte_Codec\<close> number formats; \<open>Ordered_Set\<close> and \<open>Ordered_Map\<close> the standard library's trees;
  \<open>Kv_Store\<close> the key-value store, \<open>Serializers\<close> the serializers.

  \<^item> \<^emph>\<open>Shard map.\<close> \<open>Shard_Types\<close> (\<^verbatim>\<open>domain/sharding/types.rs\<close>), \<open>Shard_Ops\<close> (\<^verbatim>\<open>ops.rs\<close>): regions, spaces
    and one definition per operation with its validation. \<open>Shard_Invariant\<close>: the regions of a
    measurement tile the range of series ids, ids of regions are unique and primaries are peers, after
    every sequence of operations. \<open>Shard_Log\<close>: where a series is routed before and after each operation.
  \<^item> \<^emph>\<open>Placement.\<close> \<open>Shard_Placement\<close> (\<^verbatim>\<open>domain/sharding/placement.rs\<close>); \<open>Placement_Steps\<close>: proposed steps are
    accepted and keep replication, and the moves they stand for, with learners added and promoted one
    operation at a time, reach the target in any order; \<open>Placement_Balance\<close>: both local searches end
    and what they balance. \<open>Bootstrap\<close>: the first regions of a measurement.
  \<^item> \<^emph>\<open>Location cache and shard store.\<close> \<open>Location_Cache\<close> (\<^verbatim>\<open>domain/sharding/location_cache.rs\<close>), coherent with
    the map after every refresh; \<open>Shard_Store\<close> (\<^verbatim>\<open>adapters/sharding/rocksdb_shard_map.rs\<close>): an acknowledged
    operation is there after a restart.
  \<^item> \<^emph>\<open>Membership.\<close> \<open>Membership\<close> (\<^verbatim>\<open>domain/cluster/membership.rs\<close>, \<^verbatim>\<open>application/cluster/heartbeat.rs\<close>): states of
    nodes and the prober.
  \<^item> \<^emph>\<open>Points and the write-ahead log.\<close> \<open>Point_Coalesce\<close>, \<open>Wal_Codec\<close>, \<open>Arrow_Batch\<close> (\<^verbatim>\<open>domain/point_coalesce.rs\<close>,
    \<^verbatim>\<open>adapters/wal/wal_ipc.rs\<close>, \<^verbatim>\<open>domain/arrow_coalesce.rs\<close>): merging, the stored format, stacking by column.
    \<open>Wal_Store\<close> (\<^verbatim>\<open>adapters/wal/rocksdb_wal.rs\<close>) has the operations, \<open>Wal_Log\<close> and \<open>Wal_Refinement\<close> show that
    every run answers as a map from numbers to entries, the slots taken from the cache being those of
    the entries in it, and that numbers increase over restarts.
  \<^item> \<^emph>\<open>Flush.\<close> \<open>Flush_Service\<close> (\<^verbatim>\<open>application/flush_service.rs\<close>); \<open>Flush_Inserts\<close>: the inserts of a chunk hold
    exactly its rows; \<open>Flush_Safety\<close>: no acknowledged entry is truncated before the engine was asked for
    inserts with all its rows and took each or refused it for good, and every flush ends;
    \<open>Flush_Works\<close>: how far it truncates.
  \<^item> \<^emph>\<open>Replication.\<close> \<open>Replication_Log\<close> and \<open>Forward_Queue\<close> (\<^verbatim>\<open>adapters/cluster/replication_log.rs\<close>,
    \<^verbatim>\<open>forward_queue.rs\<close>) are durable queues; \<open>Hint_Codec\<close>, \<open>Hinted_Handoff\<close> the hints and their replay;
    \<open>Points_Frame\<close> the bodies; \<open>Outbound_Rounds\<close>, \<open>Replication_Receive\<close>, \<open>Replication_Send\<close>
    (\<^verbatim>\<open>peer_client.rs\<close>, \<^verbatim>\<open>peer_handlers.rs\<close>): every part of a round is accepted or hinted.
  \<^item> \<^emph>\<open>Routing.\<close> \<open>Write_Routing\<close> (\<^verbatim>\<open>application/shard_routing.rs\<close>, \<^verbatim>\<open>shard_peer_resolution.rs\<close>): the peers of a
    region and the split of a write.
  \<^item> \<^emph>\<open>Consensus storage.\<close> \<open>Raft_Store\<close> (\<^verbatim>\<open>adapters/cluster/raft/log_store.rs\<close>); \<open>Raft_Log\<close>: it is an ordered
    log, also over failed writes and restarts; \<open>Raft_Apply\<close>: the committed entries make the shard map and
    the cache between restarts, and the membership; what a restart and a snapshot leave out.
  \<^item> \<^emph>\<open>Metadata.\<close> \<open>Retention\<close> (\<^verbatim>\<open>domain/database.rs\<close>), \<open>Series_Index\<close>, \<open>Metadata_Store\<close>, \<open>Metadata_Series\<close>,
    \<open>Metadata_Schema\<close> (\<^verbatim>\<open>adapters/metadata/rocksdb_meta.rs\<close>, \<^verbatim>\<open>application/schema_mutation_apply.rs\<close>) have
    every operation of the store. \<open>Metadata_Refine\<close> and \<open>Metadata_Runs\<close>: its databases and users answer
    as two maps on every run, and what creating a database again does; \<open>Series_Counts\<close>: counts and medians of series are exact.

  \<^bold>\<open>Correspondence.\<close> A struct is a record and an enum a datatype, with the source's names; a method is
  a definition that takes the state and returns it changed, with its error as the left of a sum. u64
  and u32 are words, where addition wraps or saturates as in the source. A lock held over a method
  makes it one step; interleavings are sequences of steps. An append to the write-ahead log is one
  step too, as under group commit; without it the code reserves numbers and writes in two. Hash maps are association lists whose order
  is that of insertion; no property depends on it. Small helpers of a definition stand for lines of it.

  \<^bold>\<open>Parameters.\<close> RocksDB is a record of calls. \<open>rocks_laws\<close> states its documented behaviour (a read sees
  the last write, a scan is in key order), \<open>rocks_atomic\<close> that a batch is written as a whole or not at
  all, and \<open>rocks_reliable\<close> that writes succeed, used only where a property says so. Serializers read
  back what they wrote (\<open>reads_back\<close>, \<open>json_codec\<close>). The Arrow kernels, the hash functions, the
  line-protocol parser and the answers of peers are functions. The sink of the query engine answers a
  call as a function of all calls and answers before. That a slot prepared at ingest holds the rows of
  its entry is a relation, \<open>holds\<close>, that the Arrow functions keep. Each property that assumes something of them has a witness with a concrete instance, such as \<open>list_kv\<close>.

  \<^bold>\<open>Bounds and termination.\<close> No definition has fuel. Loops over data are structural or have a termination
  proof; the loops of the flush service, of the replay of hints and of the placement searches are
  partial functions, whose value is \<open>None\<close> if they do not end, and \<open>flush_ends_and_delivers\<close>,
  \<open>replay_delivers_prefix\<close> and \<open>plan_replicas_balanced\<close> show that they end. Properties over numbers given
  out by a counter assume that they stay below \<open>2\<^sup>6\<^sup>4\<close>, where it wraps; those of the flush service
  assume fewer than \<open>2\<^sup>3\<^sup>1\<close> points in an entry, so that the points of a chunk can be counted.

  \<^bold>\<open>Not modelled.\<close> The query language's parser and its translation to SQL, the merging of partial results
  and the query service: their meaning is that of the embedded engine, which is not in the repository,
  and of floating-point aggregation. The engine adapter, HTTP handlers, clients, the proxy and the
  command line: input and output around the parts above. The consensus protocol: the openraft library.
  The parsers of write formats: glue over libraries. The group-commit writer and background loops with
  their timers: threads and channels around steps that are modelled. The shard scheduler's control loop
  and its data transfers: asynchronous HTTP; the operations it proposes and its placement plan are
  modelled. Views and continuous queries: schedules of SQL text.
\<close>

end
